(* ===== verification/Virtuals_Prelude.thy ===== *)
theory Virtuals_Prelude
  imports Main "HOL-Library.List_Lexorder" "HOL-Library.Sublist" "HOL-Library.Char_ord"
begin

text \<open>
  Shared vocabulary of the development: Python strings, the exception classes the
  package raises, results of fallible code, and the generic facts about the
  lexicographic order on lists (Python's order on \<open>str\<close>, \<open>bytes\<close> and \<open>tuple\<close>)
  that the codecs, the order keys and the storage share.
\<close>

section \<open>Collections of facts\<close>

named_theorems lex_simps \<open>equations that push the lexicographic order through append\<close>
named_theorems res_simps \<open>inversion of successful results\<close>

section \<open>Python strings\<close>

text \<open>
  A Python \<open>str\<close> is a sequence of code points; comparison is lexicographic on code
  points, which is the order of \<^typ>\<open>nat list\<close>. A code point above \<open>0x10FFFF\<close> does
  not exist, and the surrogates \<open>0xD800 .. 0xDFFF\<close> may occur in a \<open>str\<close> but cannot be
  encoded as UTF-8.
\<close>

type_synonym pystr = "nat list"

definition lit :: "string \<Rightarrow> pystr" where
  \<comment> \<open>an ASCII literal of the source\<close>
  "lit s = map of_char s"

section \<open>Exceptions and results\<close>

text \<open>The exception classes of the standard library and of the package; messages are dropped.\<close>

datatype exn =
    ValueError | TypeError | KeyError | IndexError | RecursionError
  | EncodeError | IntegerOverflowError | StringConstraintError | DecodeError
  | StorageError | StorageInterfaceError | StorageOperationError | StorageTransactionError
  | StorageLockTimeoutError | StorageNestedTransactionError | StorageClosedError
  | ContainerNotFoundError | ContainerExistsError | ContainerTypeError
  | ContainerInvalidDepthError | ContainerInvalidSiteError | ViewRegistryError | RuntimeError

text \<open>\<open>except KeyError\<close>: \<open>ContainerNotFoundError\<close> is a subclass of \<open>KeyError\<close>.\<close>

definition is_key_error :: "exn \<Rightarrow> bool" where
  "is_key_error e = (e \<in> {KeyError, ContainerNotFoundError})"

type_synonym 'a res = "exn + 'a"

definition rbind :: "'a res \<Rightarrow> ('a \<Rightarrow> 'b res) \<Rightarrow> 'b res" where
  "rbind r f = (case r of Inl e \<Rightarrow> Inl e | Inr v \<Rightarrow> f v)"

lemma rbind_simps [simp]:
  "rbind (Inl e) f = Inl e"
  "rbind (Inr v) f = f v"
  by (simp_all add: rbind_def)

lemma rbind_eq_Inr [res_simps]:
  "rbind r f = Inr y \<longleftrightarrow> (\<exists>v. r = Inr v \<and> f v = Inr y)"
  by (cases r) auto

lemma rbind_eq_Inl [res_simps]:
  "rbind r f = Inl e \<longleftrightarrow> r = Inl e \<or> (\<exists>v. r = Inr v \<and> f v = Inl e)"
  by (cases r) auto

lemma rbind_cong [fundef_cong]:
  "r = r' \<Longrightarrow> (\<And>v. r' = Inr v \<Longrightarrow> f v = f' v) \<Longrightarrow> rbind r f = rbind r' f'"
  by (cases r') auto

definition is_ok :: "'a res \<Rightarrow> bool" where
  "is_ok r = (case r of Inl e \<Rightarrow> False | Inr v \<Rightarrow> True)"

lemma is_ok_simps [simp]: "\<not> is_ok (Inl e)" "is_ok (Inr v)"
  by (simp_all add: is_ok_def)

lemma is_ok_iff: "is_ok r \<longleftrightarrow> (\<exists>v. r = Inr v)"
  by (cases r) auto

text \<open>\<open>[f x for x in xs]\<close> where \<open>f\<close> may raise: the first error wins.\<close>

fun rmap :: "('a \<Rightarrow> 'b res) \<Rightarrow> 'a list \<Rightarrow> 'b list res" where
  "rmap f [] = Inr []"
| "rmap f (x # xs) = rbind (f x) (\<lambda>y. rbind (rmap f xs) (\<lambda>ys. Inr (y # ys)))"

lemma rmap_append:
  "rmap f (xs @ ys) = rbind (rmap f xs) (\<lambda>us. rbind (rmap f ys) (\<lambda>vs. Inr (us @ vs)))"
proof (induction xs)
  case Nil
  show ?case by (cases "rmap f ys") simp_all
next
  case (Cons x xs)
  then show ?case
    by (cases "f x"; cases "rmap f xs"; cases "rmap f ys") simp_all
qed

lemma rmap_Inr_length: "rmap f xs = Inr ys \<Longrightarrow> length ys = length xs"
  by (induction xs arbitrary: ys) (auto simp: rbind_eq_Inr)

section \<open>The lexicographic order on lists\<close>

lemma append_less_append [lex_simps, simp]:
  fixes x y p :: "'a::linorder list"
  shows "p @ x < p @ y \<longleftrightarrow> x < y"
  by (induction p) auto

lemma append_le_append [lex_simps, simp]:
  fixes x y p :: "'a::linorder list"
  shows "p @ x \<le> p @ y \<longleftrightarrow> x \<le> y"
  by (induction p) auto

lemma less_append_self [simp]:
  fixes x y :: "'a::linorder list"
  shows "x < x @ y \<longleftrightarrow> y \<noteq> []"
  using append_less_append [of x "[]" y] by (cases y) auto

lemma le_append_self [simp]:
  fixes x y :: "'a::linorder list"
  shows "x \<le> x @ y"
  using append_le_append [of x "[]" y] by simp

lemma not_append_less_self [simp]:
  fixes x y :: "'a::linorder list"
  shows "\<not> x @ y < x"
  using le_append_self [of x y] by (simp add: not_less)

text \<open>
  Two lists that differ inside both of them compare the same way whatever is
  appended; this is what makes prefix-free codes order preserving.
\<close>

lemma less_append_mono:
  fixes x y :: "'a::linorder list"
  assumes "x < y" and "\<not> prefix x y"
  shows "x @ s < y @ t"
  using assms
proof (induction x arbitrary: y)
  case Nil
  then show ?case by simp
next
  case (Cons a x)
  then show ?case by (cases y) auto
qed

lemma prefix_imp_le:
  fixes x y :: "'a::linorder list"
  shows "prefix x y \<Longrightarrow> x \<le> y"
  by (auto simp: prefix_def)

lemma less_append_imp:
  fixes x y :: "'a::linorder list"
  assumes "x @ s < y @ t" and "\<not> prefix x y" and "\<not> prefix y x"
  shows "x < y"
proof (rule ccontr)
  assume "\<not> x < y"
  with assms(2) have "y < x"
    by (metis linorder_neqE prefix_order.refl)
  then have "y @ t < x @ s" using assms(3) by (rule less_append_mono)
  with assms(1) show False by simp
qed

lemma between_prefix:
  fixes p y :: "'a::linorder list"
  assumes "p \<le> y" and "y < p @ [c]"
  shows "prefix p y"
  using assms
proof (induction p arbitrary: y)
  case Nil
  then show ?case by simp
next
  case (Cons a p)
  then show ?case by (cases y) auto
qed

lemma in_prefix_range_iff:
  fixes p y :: "'a::linorder list"
  shows "p \<le> y \<and> y < p @ [c] \<longleftrightarrow> (\<exists>t. y = p @ t \<and> (t = [] \<or> hd t < c))"
proof
  assume h: "p \<le> y \<and> y < p @ [c]"
  then have "prefix p y" by (blast intro: between_prefix)
  then obtain t where t: "y = p @ t" by (auto simp: prefix_def)
  with h have "t < [c]" by simp
  with t show "\<exists>t. y = p @ t \<and> (t = [] \<or> hd t < c)"
    by (cases t) auto
next
  assume "\<exists>t. y = p @ t \<and> (t = [] \<or> hd t < c)"
  then obtain t where t: "y = p @ t" "t = [] \<or> hd t < c" by blast
  then have "t < [c]" by (cases t) auto
  with t(1) show "p \<le> y \<and> y < p @ [c]" by simp
qed

section \<open>Sorted lists\<close>

lemma sorted_filter_less: "sorted_wrt R xs \<Longrightarrow> sorted_wrt R (filter P xs)"
  by (induction xs) auto

lemma sorted_less_unique:
  fixes xs ys :: "'a::linorder list"
  assumes "sorted_wrt (<) xs" and "sorted_wrt (<) ys" and "set xs = set ys"
  shows "xs = ys"
  using assms by (metis strict_sorted_equal)

lemma prefix_iff_take: "prefix p x \<longleftrightarrow> length p \<le> length x \<and> take (length p) x = p"
  by (metis append_eq_conv_conj append_take_drop_id prefix_def prefix_length_le)

end
