(* ===== verification/Loc.thy ===== *)
theory Loc
  imports Virtuals_Prelude
begin

text \<open>
  The location vocabulary of \<open>src/virtuals/loc\<close>: key segments, keys and sites, the
  flat key helpers of \<open>key_nav.py\<close> and the hierarchy helpers of \<open>site_nav.py\<close>.
  The main results say that the ancestors of a site are exactly its non-empty proper
  prefixes, in root-first order, and that \<open>get_common_ancestor\<close> is the greatest common
  prefix.
\<close>

section \<open>Segments, keys and sites\<close>

datatype seg = SInt int | SStr pystr

text \<open>
  The order of the storage: integers below strings, integers by value, strings by code
  point. (Python itself refuses to compare an \<open>int\<close> with a \<open>str\<close>; this is the order the
  key codecs promise.)
\<close>

instantiation seg :: linorder
begin

fun less_seg :: "seg \<Rightarrow> seg \<Rightarrow> bool" where
  "less_seg (SInt a) (SInt b) = (a < b)"
| "less_seg (SInt a) (SStr t) = True"
| "less_seg (SStr s) (SInt b) = False"
| "less_seg (SStr s) (SStr t) = (s < t)"

definition less_eq_seg :: "seg \<Rightarrow> seg \<Rightarrow> bool" where
  "less_eq_seg x y = (x = y \<or> x < y)"

instance
proof
  fix x y z :: seg
  show "(x < y) = (x \<le> y \<and> \<not> y \<le> x)"
    by (cases x; cases y) (auto simp: less_eq_seg_def)
  show "x \<le> x"
    by (simp add: less_eq_seg_def)
  show "x \<le> y \<Longrightarrow> y \<le> z \<Longrightarrow> x \<le> z"
    by (cases x; cases y; cases z) (auto simp: less_eq_seg_def)
  show "x \<le> y \<Longrightarrow> y \<le> x \<Longrightarrow> x = y"
    by (cases x; cases y) (auto simp: less_eq_seg_def)
  show "x \<le> y \<or> y \<le> x"
    by (cases x; cases y) (auto simp: less_eq_seg_def)
qed

end

type_synonym key = "seg list"
type_synonym site = "seg list"

definition DATA_ROOT :: seg where
  "DATA_ROOT = SStr (lit ''/'')"

definition METADATA_ROOT :: seg where
  "METADATA_ROOT = SStr (lit ''/m'')"

lemma roots_distinct [simp]: "DATA_ROOT \<noteq> METADATA_ROOT" "METADATA_ROOT \<noteq> DATA_ROOT"
  by (simp_all add: DATA_ROOT_def METADATA_ROOT_def lit_def)

section \<open>Flat key operations\<close>

definition create_key :: "seg list \<Rightarrow> key" where
  "create_key segments = DATA_ROOT # segments"

definition to_meta :: "key \<Rightarrow> key" where
  "to_meta k = METADATA_ROOT # tl k"

definition key_depth :: "key \<Rightarrow> nat" where
  "key_depth k = length k"

text \<open>An argument of \<open>join_key\<close> is a segment or a tuple of segments.\<close>

datatype key_arg = ASeg seg | AKey key

fun join_key_loop :: "seg list \<Rightarrow> key_arg list \<Rightarrow> seg list" where
  "join_key_loop result [] = result"
| "join_key_loop result (AKey k # args) = join_key_loop (result @ k) args"
| "join_key_loop result (ASeg s # args) = join_key_loop (result @ [s]) args"

definition join_key :: "key_arg list \<Rightarrow> key" where
  "join_key args = join_key_loop [] args"

definition join_segment :: "key \<Rightarrow> seg list \<Rightarrow> key" where
  "join_segment k segments = k @ segments"

lemma join_key_loop_append: "join_key_loop r args = r @ join_key_loop [] args"
proof (induction args arbitrary: r)
  case Nil
  then show ?case by simp
next
  case (Cons a args)
  then show ?case by (cases a) (metis append.assoc append_Nil join_key_loop.simps(2,3))+
qed

lemma join_key_Cons [simp]:
  "join_key [] = []"
  "join_key (ASeg s # args) = s # join_key args"
  "join_key (AKey k # args) = k @ join_key args"
  using join_key_loop_append [of "[s]" args] join_key_loop_append [of k args]
  by (simp_all add: join_key_def)

section \<open>Site navigation\<close>

definition get_parent :: "site \<Rightarrow> site option" where
  "get_parent s = (if s = [] then None else Some (butlast s))"

text \<open>The loop of \<open>get_ancestors\<close>: walk up from the parent until the empty site.\<close>

fun ancestors_loop :: "site \<Rightarrow> site list \<Rightarrow> site list" where
  "ancestors_loop current ancestors =
     (if current = [] then ancestors
      else ancestors_loop (butlast current) (ancestors @ [current]))"

declare ancestors_loop.simps [simp del]

definition get_ancestors :: "site \<Rightarrow> site list" where
  "get_ancestors s = (if length s \<le> 1 then [] else rev (ancestors_loop (butlast s) []))"

definition get_site_chain :: "site \<Rightarrow> site list" where
  "get_site_chain s = (if s = [] then [[]] else get_ancestors s @ [s])"

definition is_ancestor :: "site \<Rightarrow> site \<Rightarrow> bool" where
  "is_ancestor a d = (length a < length d \<and> take (length a) d = a)"

definition is_descendant :: "site \<Rightarrow> site \<Rightarrow> bool" where
  "is_descendant d a = is_ancestor a d"

definition is_sibling :: "site \<Rightarrow> site \<Rightarrow> bool" where
  "is_sibling s1 s2 =
     (if s1 = [] \<or> s2 = [] then False
      else if length s1 \<noteq> length s2 then False
      else butlast s1 = butlast s2)"

definition is_root :: "site \<Rightarrow> bool" where
  "is_root s = (length s \<le> 1)"

definition site_depth :: "site \<Rightarrow> nat" where
  "site_depth s = length s"

text \<open>The \<open>for i in range(min_len)\<close> loop with its \<open>break\<close>.\<close>

function common_len_loop :: "site \<Rightarrow> site \<Rightarrow> nat \<Rightarrow> nat \<Rightarrow> nat \<Rightarrow> nat" where
  "common_len_loop s1 s2 min_len i common_len =
     (if i < min_len
      then if s1 ! i = s2 ! i then common_len_loop s1 s2 min_len (Suc i) (i + 1) else common_len
      else common_len)"
  by pat_completeness auto
termination
  by (relation "measure (\<lambda>(s1, s2, min_len, i, c). min_len - i)") auto

declare common_len_loop.simps [simp del]

definition get_common_ancestor :: "site \<Rightarrow> site \<Rightarrow> site" where
  "get_common_ancestor s1 s2 =
     take (common_len_loop s1 s2 (min (length s1) (length s2)) 0 0) s1"

definition to_child :: "site \<Rightarrow> seg list \<Rightarrow> site" where
  "to_child s segments = s @ segments"

section \<open>Correctness of the navigation\<close>

lemma ancestors_loop_eq:
  "ancestors_loop s acc = acc @ rev (map (\<lambda>i. take i s) [1..<Suc (length s)])"
proof (induction s acc rule: ancestors_loop.induct)
  case (1 s acc)
  show ?case
  proof (cases "s = []")
    case True
    then show ?thesis by (simp add: ancestors_loop.simps)
  next
    case False
    then have "\<And>i. i \<in> set [1..<length s] \<Longrightarrow> take i (butlast s) = take i s"
      by (auto simp: butlast_conv_take min_def)
    then have m: "map (\<lambda>i. take i (butlast s)) [1..<length s] = map (\<lambda>i. take i s) [1..<length s]"
      by (rule map_cong [OF refl])
    from False have l: "Suc (length (butlast s)) = length s" by simp
    from False have "1 \<le> length s" by (cases s) auto
    then have u: "[1..<Suc (length s)] = [1..<length s] @ [length s]" by simp
    from False 1 show ?thesis
      by (simp only: ancestors_loop.simps [of s acc] l m u) simp
  qed
qed

lemma get_ancestors_eq: "get_ancestors s = map (\<lambda>i. take i s) [1..<length s]"
proof (cases "length s \<le> 1")
  case True
  then show ?thesis by (simp add: get_ancestors_def)
next
  case False
  then have l: "Suc (length (butlast s)) = length s" by simp
  have "map (\<lambda>i. take i (butlast s)) [1..<length s] = map (\<lambda>i. take i s) [1..<length s]"
    by (auto simp: butlast_conv_take min_def)
  with False l show ?thesis
    by (simp add: get_ancestors_def ancestors_loop_eq del: upt_Suc)
qed

lemma is_ancestor_iff: "is_ancestor a d \<longleftrightarrow> strict_prefix a d"
  by (auto simp: is_ancestor_def strict_prefix_def prefix_iff_take le_less)

lemma common_len_loop_eq:
  assumes "m \<le> length s1" and "m \<le> length s2" and "c \<le> i" and "i \<le> m"
    and "take i s1 = take i s2" and "c = i"
  shows "let n = common_len_loop s1 s2 m i c in
           n \<le> m \<and> take n s1 = take n s2 \<and> (n < m \<longrightarrow> s1 ! n \<noteq> s2 ! n)"
  using assms
proof (induction s1 s2 m i c rule: common_len_loop.induct)
  case (1 s1 s2 m i c)
  show ?case
  proof (cases "i < m \<and> s1 ! i = s2 ! i")
    case True
    with "1.prems" have "take (Suc i) s1 = take (Suc i) s2"
      by (simp add: take_Suc_conv_app_nth)
    with True "1.IH" "1.prems"
    have "let n = common_len_loop s1 s2 m (Suc i) (Suc i) in
            n \<le> m \<and> take n s1 = take n s2 \<and> (n < m \<longrightarrow> s1 ! n \<noteq> s2 ! n)"
      by simp
    with True "1.prems" show ?thesis
      by (simp add: common_len_loop.simps [of s1 s2 m i i])
  next
    case False
    with "1.prems" show ?thesis
      by (auto simp: common_len_loop.simps [of s1 s2 m i i] Let_def)
  qed
qed

lemma prefix_nth: "prefix p s \<Longrightarrow> i < length p \<Longrightarrow> p ! i = s ! i"
  by (auto simp: prefix_def nth_append)

lemma get_common_ancestor_greatest:
  "prefix (get_common_ancestor s1 s2) s1 \<and> prefix (get_common_ancestor s1 s2) s2 \<and>
   (\<forall>p. prefix p s1 \<and> prefix p s2 \<longrightarrow> prefix p (get_common_ancestor s1 s2))"
proof -
  define m where "m = min (length s1) (length s2)"
  define n where "n = common_len_loop s1 s2 m 0 0"
  have *: "n \<le> m" "take n s1 = take n s2" "n < m \<longrightarrow> s1 ! n \<noteq> s2 ! n"
    using common_len_loop_eq [of m s1 s2 0 0] by (simp_all add: m_def n_def Let_def)
  have g: "get_common_ancestor s1 s2 = take n s1"
    by (simp add: get_common_ancestor_def n_def m_def)
  have "prefix p (take n s1)" if p: "prefix p s1" "prefix p s2" for p
  proof -
    have "length p \<le> n"
    proof (rule ccontr)
      assume "\<not> length p \<le> n"
      moreover have "length p \<le> m"
        using p by (simp add: m_def prefix_length_le)
      ultimately have "n < m" "n < length p" by auto
      with * p show False by (metis prefix_nth)
    qed
    with p(1) show ?thesis
      by (metis prefix_iff_take prefix_length_prefix take_is_prefix prefix_length_le length_take
            min.absorb2 min_def)
  qed
  with * show ?thesis
    by (metis g take_is_prefix)
qed

lemma is_sibling_iff:
  "is_sibling s1 s2 \<longleftrightarrow> (\<exists>p a b. s1 = p @ [a] \<and> s2 = p @ [b])"
  by (auto simp: is_sibling_def) (metis append_butlast_last_id)

section \<open>Properties\<close>

lemma ancestors_set: "set (get_ancestors s) = {a. is_ancestor a s \<and> a \<noteq> []}"
proof (intro set_eqI iffI)
  fix a
  assume "a \<in> set (get_ancestors s)"
  then obtain i where "1 \<le> i" "i < length s" "a = take i s" by (auto simp: get_ancestors_eq)
  then show "a \<in> {a. is_ancestor a s \<and> a \<noteq> []}" by (auto simp: is_ancestor_def)
next
  fix a
  assume "a \<in> {a. is_ancestor a s \<and> a \<noteq> []}"
  then have "a = take (length a) s" "1 \<le> length a" "length a < length s"
    by (auto simp: is_ancestor_def Suc_le_eq)
  then show "a \<in> set (get_ancestors s)"
    unfolding get_ancestors_eq set_map by (intro image_eqI [of _ _ "length a"]) auto
qed

text \<open>\<open>get_ancestors\<close> lists exactly the non-empty sites that \<open>is_ancestor\<close> accepts for the site,
  from the root down (each an ancestor of the next), and the site chain is that list followed
  by the site itself; the parent of a site with two segments or more is the last of them.\<close>

theorem site_ancestors:
  "set (get_ancestors s) = {a. is_ancestor a s \<and> a \<noteq> []} \<and>
   sorted_wrt is_ancestor (get_site_chain s) \<and> last (get_site_chain s) = s \<and>
   (\<not> is_root s \<longrightarrow> get_parent s = Some (last (get_ancestors s)))"
proof (intro conjI)
  show "set (get_ancestors s) = {a. is_ancestor a s \<and> a \<noteq> []}"
    by (rule ancestors_set)
  have lt: "is_ancestor (take i s) (take j s)" if "i < j" "j \<le> length s" for i j
    using that by (auto simp: is_ancestor_def min_def)
  have "get_site_chain s = (if s = [] then [[]] else map (\<lambda>i. take i s) [1..<Suc (length s)])"
    by (cases s) (simp_all add: get_site_chain_def get_ancestors_eq)
  then show "sorted_wrt is_ancestor (get_site_chain s)"
    using lt by (auto simp: sorted_wrt_map simp del: upt_Suc intro!: sorted_wrt_mono_rel [OF _ sorted_wrt_upt])
  show "last (get_site_chain s) = s" by (simp add: get_site_chain_def)
  show "\<not> is_root s \<longrightarrow> get_parent s = Some (last (get_ancestors s))"
    by (auto simp: is_root_def get_parent_def get_ancestors_eq last_map butlast_conv_take)
qed

theorem site_ancestors_witness:
  "set (get_ancestors [SInt 1, SInt 2, SInt 3]) = {[SInt 1], [SInt 1, SInt 2]} \<and>
   get_parent [SInt 1, SInt 2, SInt 3] = Some (last (get_ancestors [SInt 1, SInt 2, SInt 3]))"
  using site_ancestors [of "[SInt 1, SInt 2, SInt 3]"]
  by (simp add: is_root_def get_ancestors_eq upt_rec numeral_2_eq_2)

text \<open>\<open>get_common_ancestor\<close> is the longest common prefix of the two sites, whatever their
  order.\<close>

theorem common_ancestor_greatest:
  "prefix (get_common_ancestor s1 s2) s1 \<and> prefix (get_common_ancestor s1 s2) s2 \<and>
   (\<forall>p. prefix p s1 \<and> prefix p s2 \<longrightarrow> prefix p (get_common_ancestor s1 s2)) \<and>
   get_common_ancestor s2 s1 = get_common_ancestor s1 s2"
  using get_common_ancestor_greatest [of s1 s2] get_common_ancestor_greatest [of s2 s1]
  by (blast intro: prefix_order.antisym)

theorem common_ancestor_greatest_witness:
  "get_common_ancestor [SInt 1, SInt 2] [SInt 1, SInt 3, SInt 4] = [SInt 1] \<and>
   prefix [SInt 1] (get_common_ancestor [SInt 1, SInt 2] [SInt 1, SInt 3, SInt 4])"
  using common_ancestor_greatest [of "[SInt 1, SInt 2]" "[SInt 1, SInt 3, SInt 4]"]
  by (simp add: get_common_ancestor_def common_len_loop.simps)

end
