(* ===== verification/Key_Codec.thy ===== *)
theory Key_Codec
  imports Loc
begin

text \<open>
  The interface of a key codec (\<open>src/virtuals/tkv/codec/protocol.py\<close>): what the
  storages and scans rely on when they order encoded keys and turn a tuple prefix into
  a range of encoded keys. Two laws are separated: every codec must map a tuple prefix
  to the range \<open>[encode p, upper_bound_of_prefix p)\<close>; an ordered codec also keeps the
  order of the tuples.
\<close>

locale prefix_codec =
  fixes enc :: "key \<Rightarrow> ('e::linorder) res"
    and ub :: "key \<Rightarrow> 'e res"
  assumes enc_inj: "enc k = Inr e \<Longrightarrow> enc k' = Inr e \<Longrightarrow> k = k'"
    and ub_ok: "enc p = Inr e \<Longrightarrow> \<exists>u. ub p = Inr u"
    and enc_prefix_ok: "enc k = Inr e \<Longrightarrow> prefix p k \<Longrightarrow> p \<noteq> [] \<Longrightarrow> \<exists>e'. enc p = Inr e'"
    and prefix_range: "enc p = Inr lo \<Longrightarrow> ub p = Inr hi \<Longrightarrow> enc k = Inr e \<Longrightarrow>
      (lo \<le> e \<and> e < hi) \<longleftrightarrow> prefix p k"
begin

text \<open>A prefix sorts at or below every key under it, and the bound lies above all of them.\<close>

lemma enc_prefix_le: "enc p = Inr lo \<Longrightarrow> enc k = Inr e \<Longrightarrow> prefix p k \<Longrightarrow> lo \<le> e"
  using prefix_range ub_ok by blast

lemma enc_strict_prefix_less:
  assumes "enc p = Inr lo" and "enc k = Inr e" and "strict_prefix p k"
  shows "lo < e"
proof -
  have "lo \<le> e" using assms enc_prefix_le by (auto simp: strict_prefix_def)
  moreover have "lo \<noteq> e" using assms enc_inj by (auto simp: strict_prefix_def)
  ultimately show ?thesis by simp
qed

lemma enc_less_ub: "enc p = Inr lo \<Longrightarrow> ub p = Inr hi \<Longrightarrow> enc k = Inr e \<Longrightarrow> prefix p k \<Longrightarrow> e < hi"
  using prefix_range by blast

text \<open>
  Seeking from a key below \<open>p\<close> to the bound of \<open>p\<close> passes over keys below \<open>p\<close> only:
  the jump of a depth-limited scan loses nothing.
\<close>

lemma skip_forward:
  assumes "enc p = Inr lo" and "ub p = Inr hi" and "enc k = Inr e" and "prefix p k"
    and "enc k' = Inr e'" and "e \<le> e'" and "e' < hi"
  shows "prefix p k'"
proof -
  have "lo \<le> e" using assms(1,3,4) by (rule enc_prefix_le)
  then have "lo \<le> e'" using assms(6) by (rule order_trans)
  with assms(7) prefix_range [OF assms(1,2,5)] show ?thesis by blast
qed

lemma skip_backward:
  assumes "enc p = Inr lo" and "enc k = Inr e" and "prefix p k"
    and "enc k' = Inr e'" and "e' \<le> e" and "lo \<le> e'"
  shows "prefix p k'"
proof -
  obtain hi where hi: "ub p = Inr hi" using assms(1) ub_ok by blast
  have "e < hi" using assms(1) hi assms(2,3) by (rule enc_less_ub)
  with assms(5) have "e' < hi" by (rule le_less_trans)
  with assms(6) prefix_range [OF assms(1) hi assms(4)] show ?thesis by blast
qed

end

locale ordered_codec = prefix_codec +
  assumes enc_order: "enc k = Inr e \<Longrightarrow> enc k' = Inr e' \<Longrightarrow> e < e' \<longleftrightarrow> k < k'"
begin

lemma enc_order_le: "enc k = Inr e \<Longrightarrow> enc k' = Inr e' \<Longrightarrow> e \<le> e' \<longleftrightarrow> k \<le> k'"
  using enc_order [of k' e' k e] by (simp add: not_less [symmetric])

end

end
