(* ===== verification/Binary_Codec.thy ===== *)
theory Binary_Codec
  imports Key_Codec "HOL-Library.Word"
begin

text \<open>
  The binary key codec of
  \<open>src/virtuals/_backends/key_codecs/binary_py/binary_codec.py\<close>: integers biased into
  eight big-endian bytes, strings in UTF-8 with escaped null bytes, one type marker and
  one terminator per component. The theory gives the encoder, the decoder with its
  positions and its scan for the unescaped terminator, the order embedding, the prefix
  range and the two round trips.
\<close>

section \<open>Bytes\<close>

type_synonym byte = "8 word"
type_synonym bytes = "byte list"

abbreviation bt :: "nat \<Rightarrow> byte" where
  "bt n \<equiv> word_of_nat n"

lemma unat_bt [simp]: "n < 256 \<Longrightarrow> unat (bt n) = n"
  by (simp add: unat_of_nat)

lemma bt_less_iff [simp]: "m < 256 \<Longrightarrow> n < 256 \<Longrightarrow> bt m < bt n \<longleftrightarrow> m < n"
  by (simp add: word_less_nat_alt)

lemma bt_eq_iff [simp]: "m < 256 \<Longrightarrow> n < 256 \<Longrightarrow> bt m = bt n \<longleftrightarrow> m = n"
  by (metis unat_bt)

lemma bt_unat [simp]: "bt (unat (b::byte)) = b"
  by simp

lemma unat_byte_less [simp]: "unat (b::byte) < 256"
  using unsigned_less [of b] by simp

lemma unat_byte_le [simp]: "unat (b::byte) \<le> 255"
  using unat_byte_less [of b] by linarith

lemma byte_le_255 [simp]: "(b::byte) \<le> 255"
  by (simp add: word_le_nat_alt)

lemma byte_less_255: "(b::byte) < 255 \<longleftrightarrow> b \<noteq> 255"
  by (simp add: less_le)

section \<open>Parts of the standard library the codec uses\<close>

text \<open>\<open>int.to_bytes(n, "big")\<close> and \<open>int.from_bytes(_, "big")\<close> for unsigned values.\<close>

fun to_bytes_big :: "nat \<Rightarrow> nat \<Rightarrow> bytes" where
  "to_bytes_big 0 v = []"
| "to_bytes_big (Suc n) v = bt (v div 256 ^ n) # to_bytes_big n (v mod 256 ^ n)"

definition from_bytes_big :: "bytes \<Rightarrow> nat" where
  "from_bytes_big bs = foldl (\<lambda>acc b. acc * 256 + unat b) 0 bs"

text \<open>\<open>bytes.replace(old, new)\<close> for a non-empty \<open>old\<close>: left to right, no overlaps.\<close>

fun bytes_replace :: "bytes \<Rightarrow> bytes \<Rightarrow> bytes \<Rightarrow> bytes" where
  "bytes_replace old new [] = []"
| "bytes_replace old new (x # xs) =
     (if prefix old (x # xs) then new @ bytes_replace old new (drop (length old - 1) xs)
      else x # bytes_replace old new xs)"

text \<open>\<open>str.encode("utf-8")\<close>: surrogates cannot be encoded.\<close>

definition is_surrogate :: "nat \<Rightarrow> bool" where
  "is_surrogate c = (0xD800 \<le> c \<and> c < 0xE000)"

definition scalar :: "nat \<Rightarrow> bool" where
  "scalar c = (c < 0x110000 \<and> \<not> is_surrogate c)"

definition utf8_char :: "nat \<Rightarrow> bytes" where
  "utf8_char c =
     (if c < 0x80 then [bt c]
      else if c < 0x800 then [bt (0xC0 + c div 64), bt (0x80 + c mod 64)]
      else if c < 0x10000 then
        [bt (0xE0 + c div 64 div 64), bt (0x80 + c div 64 mod 64), bt (0x80 + c mod 64)]
      else
        [bt (0xF0 + c div 64 div 64 div 64), bt (0x80 + c div 64 div 64 mod 64),
         bt (0x80 + c div 64 mod 64), bt (0x80 + c mod 64)])"

definition utf8_encode :: "pystr \<Rightarrow> bytes option" where
  "utf8_encode s = (if list_all scalar s then Some (concat (map utf8_char s)) else None)"

text \<open>\<open>bytes.decode("utf-8")\<close>, strict: no overlong form, no surrogate, nothing above 0x10FFFF.\<close>

definition is_cont :: "byte \<Rightarrow> bool" where
  "is_cont b = (0x80 \<le> unat b \<and> unat b < 0xC0)"

definition cont :: "byte \<Rightarrow> nat" where
  "cont b = unat b - 0x80"

fun utf8_decode :: "bytes \<Rightarrow> pystr option" where
  "utf8_decode [] = Some []"
| "utf8_decode (b # r) =
     (let n = unat b in
      if n < 0x80 then map_option ((#) n) (utf8_decode r)
      else if n < 0xC2 then None
      else if n < 0xE0 then
        (case r of
           c1 # r1 \<Rightarrow>
             if is_cont c1
             then map_option ((#) ((n - 0xC0) * 64 + cont c1)) (utf8_decode r1) else None
         | _ \<Rightarrow> None)
      else if n < 0xF0 then
        (case r of
           c1 # c2 # r2 \<Rightarrow>
             (let v = ((n - 0xE0) * 64 + cont c1) * 64 + cont c2 in
              if is_cont c1 \<and> is_cont c2 \<and> 0x800 \<le> v \<and> \<not> is_surrogate v
              then map_option ((#) v) (utf8_decode r2) else None)
         | _ \<Rightarrow> None)
      else if n < 0xF5 then
        (case r of
           c1 # c2 # c3 # r3 \<Rightarrow>
             (let v = (((n - 0xF0) * 64 + cont c1) * 64 + cont c2) * 64 + cont c3 in
              if is_cont c1 \<and> is_cont c2 \<and> is_cont c3 \<and> 0x10000 \<le> v \<and> v < 0x110000
              then map_option ((#) v) (utf8_decode r3) else None)
         | _ \<Rightarrow> None)
      else None)"

text \<open>\<open>bytes.find(b"\\x00", start)\<close>; \<open>None\<close> is \<open>-1\<close>.\<close>

definition find_null :: "bytes \<Rightarrow> nat \<Rightarrow> nat option" where
  "find_null bs start =
     (let i = start + length (takeWhile (\<lambda>b. b \<noteq> 0) (drop start bs)) in
      if i < length bs then Some i else None)"

section \<open>Encoding\<close>

definition TYPE_INT :: byte where "TYPE_INT = 0x01"
definition TYPE_STR :: byte where "TYPE_STR = 0x02"
definition TERMINATOR :: byte where "TERMINATOR = 0x00"
definition ESCAPE_BYTE :: byte where "ESCAPE_BYTE = 0xFF"

definition INT64_MIN :: int where "INT64_MIN = - (2 ^ 63)"
definition INT64_MAX :: int where "INT64_MAX = 2 ^ 63 - 1"
definition INT64_BIAS :: int where "INT64_BIAS = 2 ^ 63"

lemmas int64_defs = INT64_MIN_def INT64_MAX_def INT64_BIAS_def
lemmas marker_defs = TYPE_INT_def TYPE_STR_def TERMINATOR_def ESCAPE_BYTE_def

definition bin_encode_integer :: "int \<Rightarrow> bytes res" where
  "bin_encode_integer v =
     (if \<not> (INT64_MIN \<le> v \<and> v \<le> INT64_MAX) then Inl IntegerOverflowError
      else let biased_value = v + INT64_BIAS in Inr (to_bytes_big 8 (nat biased_value)))"

definition bin_encode_string :: "pystr \<Rightarrow> bytes res" where
  "bin_encode_string s =
     (case utf8_encode s of
        None \<Rightarrow> Inl EncodeError
      | Some encoded \<Rightarrow> Inr (bytes_replace [0x00] [0x00, 0xFF] encoded))"

definition bin_encode_component :: "seg \<Rightarrow> bytes res" where
  "bin_encode_component c =
     (case c of
        SInt v \<Rightarrow> rbind (bin_encode_integer v) (\<lambda>b. Inr ([TYPE_INT] @ b @ [TERMINATOR]))
      | SStr s \<Rightarrow> rbind (bin_encode_string s) (\<lambda>b. Inr ([TYPE_STR] @ b @ [TERMINATOR])))"

definition bin_encode :: "key \<Rightarrow> bytes res" where
  "bin_encode k =
     (if k = [] then Inl EncodeError
      else rbind (rmap bin_encode_component k) (\<lambda>parts. Inr (concat parts)))"

definition bin_upper_bound_of_prefix :: "key \<Rightarrow> bytes res" where
  "bin_upper_bound_of_prefix k = rbind (bin_encode k) (\<lambda>b. Inr (b @ [0xFF]))"

section \<open>Decoding\<close>

definition bin_decode_integer :: "bytes \<Rightarrow> nat \<Rightarrow> (int \<times> nat) res" where
  "bin_decode_integer data offset =
     (if int (length data) - int offset < 8 then Inl DecodeError
      else let int_bytes = take 8 (drop offset data);
               biased_value = int (from_bytes_big int_bytes)
           in Inr (biased_value - INT64_BIAS, 8))"

definition bin_decode_string :: "bytes \<Rightarrow> pystr res" where
  "bin_decode_string data =
     (case utf8_decode (bytes_replace [0x00, 0xFF] [0x00] data) of
        None \<Rightarrow> Inl DecodeError
      | Some s \<Rightarrow> Inr s)"

text \<open>The inner \<open>while search_pos < len(encoded)\<close> loop: the next unescaped null byte.\<close>

function find_terminator :: "bytes \<Rightarrow> nat \<Rightarrow> nat option" where
  "find_terminator encoded search_pos =
     (if search_pos < length encoded
      then (case find_null encoded search_pos of
              None \<Rightarrow> None
            | Some next_null \<Rightarrow>
                if next_null + 1 < length encoded \<and> encoded ! (next_null + 1) = 0xFF
                then find_terminator encoded (next_null + 2)
                else Some next_null)
      else None)"
  by pat_completeness auto
termination
  by (relation "measure (\<lambda>(e, p). length e - p)") (auto simp: find_null_def Let_def split: if_splits)

declare find_terminator.simps [simp del]

text \<open>The outer loop over positions.\<close>

lemma find_null_bounds: "find_null bs p = Some n \<Longrightarrow> p \<le> n \<and> n < length bs"
  by (auto simp: find_null_def Let_def split: if_splits)

lemma find_terminator_bounds: "find_terminator bs p = Some n \<Longrightarrow> p \<le> n \<and> n < length bs"
proof (induction bs p rule: find_terminator.induct)
  case (1 bs p)
  then show ?case
    by (subst (asm) (2) find_terminator.simps)
      (auto split: if_splits option.splits dest!: find_null_bounds)
qed

function bin_decode_loop :: "bytes \<Rightarrow> nat \<Rightarrow> seg list \<Rightarrow> key res" where
  "bin_decode_loop encoded pos result =
     (if pos < length encoded then
        let type_marker = encoded ! pos; pos = pos + 1 in
        if type_marker = TYPE_INT then
          (case bin_decode_integer encoded pos of
             Inl e \<Rightarrow> Inl e
           | Inr (v, consumed) \<Rightarrow>
               let result = result @ [SInt v]; pos = pos + consumed in
               if pos \<ge> length encoded \<or> encoded ! pos \<noteq> TERMINATOR then Inl DecodeError
               else bin_decode_loop encoded (pos + 1) result)
        else if type_marker = TYPE_STR then
          (case find_terminator encoded pos of
             None \<Rightarrow> Inl DecodeError
           | Some term_pos \<Rightarrow>
               (case bin_decode_string (take (term_pos - pos) (drop pos encoded)) of
                  Inl e \<Rightarrow> Inl e
                | Inr s \<Rightarrow> bin_decode_loop encoded (term_pos + 1) (result @ [SStr s])))
        else Inl DecodeError
      else Inr result)"
  by pat_completeness auto
termination
  by (relation "measure (\<lambda>(e, p, r). length e - p)") (auto dest!: find_terminator_bounds)

declare bin_decode_loop.simps [simp del]

definition bin_decode :: "bytes \<Rightarrow> key res" where
  "bin_decode encoded =
     (if encoded = [] then Inl DecodeError else bin_decode_loop encoded 0 [])"

section \<open>Fixed-width integers\<close>

lemma length_to_bytes_big [simp]: "length (to_bytes_big n v) = n"
  by (induction n arbitrary: v) auto

lemma from_bytes_big_Cons:
  "from_bytes_big (b # bs) = unat b * 256 ^ length bs + from_bytes_big bs"
proof -
  have "foldl (\<lambda>acc b. acc * 256 + unat b) a bs =
      a * 256 ^ length bs + foldl (\<lambda>acc b. acc * 256 + unat b) 0 bs" for a and bs :: bytes
  proof (induction bs arbitrary: a)
    case Nil
    then show ?case by simp
  next
    case (Cons x xs)
    have "foldl (\<lambda>acc b. acc * 256 + unat b) a (x # xs) =
        (a * 256 + unat x) * 256 ^ length xs + foldl (\<lambda>acc b. acc * 256 + unat b) 0 xs"
      using Cons [of "a * 256 + unat x"] by simp
    moreover have "foldl (\<lambda>acc b. acc * 256 + unat b) 0 (x # xs) =
        unat x * 256 ^ length xs + foldl (\<lambda>acc b. acc * 256 + unat b) 0 xs"
      using Cons [of "unat x"] by simp
    ultimately show ?case by (simp add: algebra_simps)
  qed
  from this [of "unat b" bs] show ?thesis by (simp add: from_bytes_big_def)
qed

lemma from_bytes_big_Nil [simp]: "from_bytes_big [] = 0"
  by (simp add: from_bytes_big_def)

lemma from_bytes_big_less: "from_bytes_big bs < 256 ^ length bs"
proof (induction bs)
  case Nil
  then show ?case by simp
next
  case (Cons b bs)
  have "unat b * 256 ^ length bs + from_bytes_big bs < (unat b + 1) * 256 ^ length bs"
    using Cons by simp
  also have "\<dots> \<le> 256 * 256 ^ length bs"
    using unat_byte_less [of b] by (intro mult_le_mono1) simp
  finally show ?case by (simp add: from_bytes_big_Cons)
qed

lemma from_to_bytes_big: "v < 256 ^ n \<Longrightarrow> from_bytes_big (to_bytes_big n v) = v"
proof (induction n arbitrary: v)
  case 0
  then show ?case by simp
next
  case (Suc n)
  have "v div 256 ^ n < 256"
    using Suc.prems by (simp add: less_mult_imp_div_less mult.commute)
  with Suc.IH [of "v mod 256 ^ n"] show ?case
    using div_mult_mod_eq [of v "256 ^ n"] by (simp add: from_bytes_big_Cons)
qed

lemma to_from_bytes_big: "to_bytes_big (length bs) (from_bytes_big bs) = bs"
proof (induction bs)
  case Nil
  then show ?case by simp
next
  case (Cons b bs)
  have l: "from_bytes_big bs < 256 ^ length bs" by (rule from_bytes_big_less)
  then have "(unat b * 256 ^ length bs + from_bytes_big bs) div 256 ^ length bs = unat b"
    by simp
  with l Cons show ?case by (simp add: from_bytes_big_Cons)
qed

lemma to_bytes_big_less:
  "v < 256 ^ n \<Longrightarrow> w < 256 ^ n \<Longrightarrow> v < w \<Longrightarrow> to_bytes_big n v < to_bytes_big n w"
proof (induction n arbitrary: v w)
  case 0
  then show ?case by simp
next
  case (Suc n)
  have d: "v div 256 ^ n < 256" "w div 256 ^ n < 256"
    using Suc.prems by (simp_all add: less_mult_imp_div_less mult.commute)
  have le: "v div 256 ^ n \<le> w div 256 ^ n"
    using Suc.prems by (intro div_le_mono) simp
  show ?case
  proof (cases "v div 256 ^ n = w div 256 ^ n")
    case True
    then have "v mod 256 ^ n < w mod 256 ^ n"
      using Suc.prems(3) by (metis add_less_cancel_left div_mult_mod_eq)
    with True Suc.IH show ?thesis by simp
  next
    case False
    with le d show ?thesis by simp
  qed
qed

section \<open>UTF-8\<close>

lemma div64_less_iff: "(c::nat) < d \<longleftrightarrow> c div 64 < d div 64 \<or> c div 64 = d div 64 \<and> c mod 64 < d mod 64"
proof -
  have "c = c div 64 * 64 + c mod 64" "d = d div 64 * 64 + d mod 64" by simp_all
  moreover have "c mod 64 < 64" "d mod 64 < 64" by simp_all
  ultimately show ?thesis by linarith
qed

lemma scalar_less: "scalar c \<Longrightarrow> c < 0x110000"
  by (simp add: scalar_def)

lemma utf8_char_not_Nil [simp]: "utf8_char c \<noteq> []"
  by (simp add: utf8_char_def)

lemma utf8_char_cases:
  obtains "c < 0x80" "utf8_char c = [bt c]"
  | "0x80 \<le> c" "c < 0x800" "utf8_char c = [bt (0xC0 + c div 64), bt (0x80 + c mod 64)]"
  | "0x800 \<le> c" "c < 0x10000" "utf8_char c =
       [bt (0xE0 + c div 64 div 64), bt (0x80 + c div 64 mod 64), bt (0x80 + c mod 64)]"
  | "0x10000 \<le> c" "utf8_char c =
       [bt (0xF0 + c div 64 div 64 div 64), bt (0x80 + c div 64 div 64 mod 64),
        bt (0x80 + c div 64 mod 64), bt (0x80 + c mod 64)]"
proof -
  consider "c < 0x80" | "0x80 \<le> c" "c < 0x800" | "0x800 \<le> c" "c < 0x10000" | "0x10000 \<le> c"
    by linarith
  then show thesis
  proof cases
    case 1
    with that(1) show ?thesis by (simp add: utf8_char_def)
  next
    case 2
    with that(2) show ?thesis by (simp add: utf8_char_def)
  next
    case 3
    with that(3) show ?thesis by (simp add: utf8_char_def)
  next
    case 4
    with that(4) show ?thesis by (simp add: utf8_char_def)
  qed
qed

lemma utf8_bounds:
  "c < 0x800 \<Longrightarrow> c div 64 < 32"
  "c < 0x10000 \<Longrightarrow> c div 64 div 64 < 16"
  "c < 0x110000 \<Longrightarrow> c div 64 div 64 div 64 < 5"
  "c mod 64 < (64::nat)"
  by simp_all

lemma scalar_div_bound: "scalar c \<Longrightarrow> c div 64 div 64 div 64 < 5"
  by (rule utf8_bounds(3)) (rule scalar_less)

lemma bt_less_offset: "k + m < 256 \<Longrightarrow> k + n < 256 \<Longrightarrow> bt (k + m) < bt (k + n) \<longleftrightarrow> m < n"
  by (simp del: of_nat_add)

lemma bt_eq_offset: "k + m < 256 \<Longrightarrow> k + n < 256 \<Longrightarrow> bt (k + m) = bt (k + n) \<longleftrightarrow> m = n"
  by (simp del: of_nat_add)

text \<open>The number of bytes, and the range of the lead byte, grow with the code point.\<close>

lemma utf8_lead:
  assumes "scalar c"
  shows "c < 0x80 \<Longrightarrow> \<exists>n. utf8_char c = [bt n] \<and> n < 0x80 \<and> n = c"
    and "0x80 \<le> c \<Longrightarrow> c < 0x800 \<Longrightarrow> \<exists>n r. utf8_char c = bt n # r \<and> 0xC2 \<le> n \<and> n < 0xE0 \<and> length r = 1"
    and "0x800 \<le> c \<Longrightarrow> c < 0x10000 \<Longrightarrow> \<exists>n r. utf8_char c = bt n # r \<and> 0xE0 \<le> n \<and> n < 0xF0 \<and> length r = 2"
    and "0x10000 \<le> c \<Longrightarrow> \<exists>n r. utf8_char c = bt n # r \<and> 0xF0 \<le> n \<and> n < 0xF5 \<and> length r = 3"
proof -
  show "c < 0x80 \<Longrightarrow> \<exists>n. utf8_char c = [bt n] \<and> n < 0x80 \<and> n = c"
    by (simp add: utf8_char_def)
  show "\<exists>n r. utf8_char c = bt n # r \<and> 0xC2 \<le> n \<and> n < 0xE0 \<and> length r = 1"
    if "0x80 \<le> c" "c < 0x800"
    by (rule exI [of _ "0xC0 + c div 64"], rule exI [of _ "[bt (0x80 + c mod 64)]"])
      (use that utf8_bounds(1) [of c] in
        \<open>simp add: utf8_char_def less_eq_div_iff_mult_less_eq del: of_nat_add\<close>)
  show "\<exists>n r. utf8_char c = bt n # r \<and> 0xE0 \<le> n \<and> n < 0xF0 \<and> length r = 2"
    if "0x800 \<le> c" "c < 0x10000"
    by (rule exI [of _ "0xE0 + c div 64 div 64"],
        rule exI [of _ "[bt (0x80 + c div 64 mod 64), bt (0x80 + c mod 64)]"])
      (use that in \<open>simp add: utf8_char_def del: of_nat_add\<close>)
  show "\<exists>n r. utf8_char c = bt n # r \<and> 0xF0 \<le> n \<and> n < 0xF5 \<and> length r = 3"
    if "0x10000 \<le> c"
    by (rule exI [of _ "0xF0 + c div 64 div 64 div 64"],
        rule exI [of _ "[bt (0x80 + c div 64 div 64 mod 64), bt (0x80 + c div 64 mod 64), bt (0x80 + c mod 64)]"])
      (use that scalar_div_bound [OF assms] in \<open>simp add: utf8_char_def del: of_nat_add\<close>)
qed

lemma div64_lessD:
  "(c::nat) < d \<Longrightarrow> c div 64 < d div 64 \<or> c div 64 = d div 64 \<and> c mod 64 < d mod 64"
  using div64_less_iff by blast

lemma mod64_less [simp]: "(c::nat) mod 64 < 64"
  by simp

lemma utf8_char_less_same:
  assumes "c < d" and "scalar c" and "scalar d" and "length (utf8_char c) = length (utf8_char d)"
  shows "utf8_char c < utf8_char d"
proof -
  define c1 where "c1 = c div 64"
  define d1 where "d1 = d div 64"
  define c2 where "c2 = c1 div 64"
  define d2 where "d2 = d1 div 64"
  define c3 where "c3 = c2 div 64"
  define d3 where "d3 = d2 div 64"
  note ds = c1_def [symmetric] d1_def [symmetric] c2_def [symmetric] d2_def [symmetric]
    c3_def [symmetric] d3_def [symmetric]
  have l1: "c1 < d1 \<or> c1 = d1 \<and> c mod 64 < d mod 64"
    using div64_lessD [OF assms(1)] by (simp add: c1_def d1_def)
  have l2: "c2 < d2 \<or> c2 = d2 \<and> (c1 mod 64 < d1 mod 64 \<or> c1 = d1 \<and> c mod 64 < d mod 64)"
    using l1 div64_lessD [of c1 d1] by (auto simp: c2_def d2_def)
  have l3: "c3 < d3 \<or> c3 = d3 \<and> (c2 mod 64 < d2 mod 64 \<or> c2 = d2 \<and>
      (c1 mod 64 < d1 mod 64 \<or> c1 = d1 \<and> c mod 64 < d mod 64))"
    using l2 div64_lessD [of c2 d2] by (auto simp: c3_def d3_def)
  have b3: "c3 < 5" "d3 < 5"
    using scalar_div_bound assms(2,3) by (simp_all add: c3_def d3_def c2_def d2_def c1_def d1_def)
  show ?thesis
  proof (cases rule: utf8_char_cases [of c])
    case 1
    then show ?thesis using assms by (cases rule: utf8_char_cases [of d]) auto
  next
    case c: 2
    then have b: "c1 < 32" by (simp add: c1_def)
    show ?thesis
    proof (cases rule: utf8_char_cases [of d])
      case 2
      then have "d1 < 32" by (simp add: d1_def)
      with b 2(3) c(3) l1 show ?thesis
        by (auto simp: ds bt_less_offset bt_eq_offset simp del: of_nat_add)
    qed (use c assms(4) in auto)
  next
    case c: 3
    then have b: "c2 < 16" by (simp add: c1_def c2_def)
    show ?thesis
    proof (cases rule: utf8_char_cases [of d])
      case 3
      then have "d2 < 16" by (simp add: d1_def d2_def)
      with b 3(3) c(3) l2 show ?thesis
        by (auto simp: ds bt_less_offset bt_eq_offset simp del: of_nat_add)
    qed (use c assms(4) in auto)
  next
    case c: 4
    show ?thesis
    proof (cases rule: utf8_char_cases [of d])
      case 4
      with b3 c(2) l3 show ?thesis
        by (auto simp: ds bt_less_offset bt_eq_offset simp del: of_nat_add)
    qed (use c assms(4) in auto)
  qed
qed

lemma utf8_char_less:
  assumes "c < d" and "scalar c" and "scalar d"
  shows "utf8_char c < utf8_char d \<and> \<not> prefix (utf8_char c) (utf8_char d)"
proof (cases "length (utf8_char c) = length (utf8_char d)")
  case True
  with assms have "utf8_char c < utf8_char d" by (rule utf8_char_less_same)
  moreover from this True have "\<not> prefix (utf8_char c) (utf8_char d)"
    by (auto simp: prefix_def)
  ultimately show ?thesis by simp
next
  case False
  have "\<exists>m n r t. utf8_char c = bt m # r \<and> utf8_char d = bt n # t \<and> m < n \<and> n < 256"
  proof -
    consider "d < 0x80" | "0x80 \<le> d" "d < 0x800" | "0x800 \<le> d" "d < 0x10000" | "0x10000 \<le> d"
      by linarith
    then show ?thesis
    proof cases
      case 1
      with assms False utf8_lead(1) [OF assms(2)] utf8_lead(1) [OF assms(3)] show ?thesis by fastforce
    next
      case 2
      then obtain n t where d: "utf8_char d = bt n # t" "0xC2 \<le> n" "n < 0xE0" "length t = 1"
        using utf8_lead(2) [OF assms(3)] by blast
      have "c < 0x80"
        using False d(1,4) 2 assms(1) utf8_lead(2) [OF assms(2)] by fastforce
      then obtain m r where "utf8_char c = bt m # r" "m < 0x80"
        using utf8_lead(1) [OF assms(2)] by blast
      with d show ?thesis by fastforce
    next
      case 3
      then obtain n t where d: "utf8_char d = bt n # t" "0xE0 \<le> n" "n < 0xF0" "length t = 2"
        using utf8_lead(3) [OF assms(3)] by blast
      have "c < 0x800"
        using False d(1,4) 3 assms(1) utf8_lead(3) [OF assms(2)] by fastforce
      then obtain m r where "utf8_char c = bt m # r" "m < 0xE0"
        using utf8_lead(1,2) [OF assms(2)] by fastforce
      with d show ?thesis by fastforce
    next
      case 4
      then obtain n t where d: "utf8_char d = bt n # t" "0xF0 \<le> n" "n < 0xF5" "length t = 3"
        using utf8_lead(4) [OF assms(3)] by blast
      have "c < 0x10000"
        using False d(1,4) assms(1) utf8_lead(4) [OF assms(2)] by fastforce
      then obtain m r where "utf8_char c = bt m # r" "m < 0xF0"
        using utf8_lead(1-3) [OF assms(2)] by fastforce
      with d show ?thesis by fastforce
    qed
  qed
  then show ?thesis by (auto simp del: of_nat_add)
qed

lemma utf8_char_nonzero: "scalar c \<Longrightarrow> c \<noteq> 0 \<Longrightarrow> 0 \<notin> set (utf8_char c)"
proof -
  assume a: "scalar c" "c \<noteq> 0"
  have nz: "bt n \<noteq> 0" if "n < 256" "0 < n" for n
    using that bt_eq_iff [of n 0] by simp
  show "0 \<notin> set (utf8_char c)"
  proof (cases rule: utf8_char_cases [of c])
    case 1
    with a nz [of c] show ?thesis by simp
  next
    case 2
    with nz [of "0xC0 + c div 64"] nz [of "0x80 + c mod 64"] utf8_bounds(1) [of c] show ?thesis
      by (simp del: of_nat_add)
  next
    case 3
    with nz [of "0xE0 + c div 64 div 64"] nz [of "0x80 + c div 64 mod 64"] nz [of "0x80 + c mod 64"]
      utf8_bounds(2) [of c] show ?thesis
      by (simp del: of_nat_add)
  next
    case 4
    with nz [of "0xF0 + c div 64 div 64 div 64"] nz [of "0x80 + c div 64 div 64 mod 64"]
      nz [of "0x80 + c div 64 mod 64"] nz [of "0x80 + c mod 64"] scalar_div_bound [OF a(1)] show ?thesis
      by (simp del: of_nat_add)
  qed
qed

lemma cont_bt: "k < 64 \<Longrightarrow> is_cont (bt (0x80 + k)) \<and> cont (bt (0x80 + k)) = k"
  by (simp add: is_cont_def cont_def del: of_nat_add)

lemma digits64:
  "(c::nat) div 64 * 64 + c mod 64 = c"
  "(c::nat) div 64 div 64 * 64 + c div 64 mod 64 = c div 64"
  "(c::nat) div 64 div 64 div 64 * 64 + c div 64 div 64 mod 64 = c div 64 div 64"
  by simp_all

declare utf8_decode.simps(2) [simp del]

lemma utf8_decode_char:
  assumes "scalar c"
  shows "utf8_decode (utf8_char c @ r) = map_option ((#) c) (utf8_decode r)"
proof (cases rule: utf8_char_cases [of c])
  case 1
  then show ?thesis by (simp add: utf8_decode.simps(2))
next
  case 2
  define m where "m = c div 64"
  have m: "m < 32" "2 \<le> m"
    using 2 utf8_bounds(1) [of c] by (simp_all add: m_def less_eq_div_iff_mult_less_eq)
  then have "unat (bt (0xC0 + m)) = 0xC0 + m" by (simp del: of_nat_add)
  with 2(3) m digits64(1) [of c] cont_bt [of "c mod 64"] show ?thesis
    by (simp add: utf8_decode.simps(2) Let_def m_def [symmetric] del: of_nat_add)
next
  case 3
  have "unat (bt (0xE0 + c div 64 div 64)) = 0xE0 + c div 64 div 64" "c div 64 div 64 < 16"
    using utf8_bounds(2) [of c] 3 by (simp_all del: of_nat_add)
  with 3 assms digits64 [of c] cont_bt [of "c mod 64"] cont_bt [of "c div 64 mod 64"] show ?thesis
    by (simp add: utf8_decode.simps(2) Let_def scalar_def del: of_nat_add)
next
  case 4
  define m k j i where d: "m = c div 64 div 64 div 64" "k = c div 64 div 64 mod 64"
    "j = c div 64 mod 64" "i = c mod 64"
  have m: "m < 5" using scalar_div_bound [OF assms] by (simp add: d)
  then have u: "unat (bt (0xF0 + m)) = 0xF0 + m" by (simp del: of_nat_add)
  have e: "((m * 64 + k) * 64 + j) * 64 + i = c"
    by (simp only: d digits64)
  have l: "k < 64" "j < 64" "i < 64" by (simp_all add: d)
  have c: "utf8_char c = [bt (0xF0 + m), bt (0x80 + k), bt (0x80 + j), bt (0x80 + i)]"
    using 4 by (simp add: d)
  from assms have "c < 0x110000" by (rule scalar_less)
  with c m u e 4(1) cont_bt [OF l(1)] cont_bt [OF l(2)] cont_bt [OF l(3)] show ?thesis
    by (simp add: utf8_decode.simps(2) Let_def del: of_nat_add)
qed

lemma utf8_decode_encode: "list_all scalar s \<Longrightarrow> utf8_decode (concat (map utf8_char s)) = Some s"
  by (induction s) (auto simp: utf8_decode_char)

lemma is_contD: "is_cont b \<Longrightarrow> \<exists>k. k < 64 \<and> cont b = k \<and> b = bt (0x80 + k)"
  by (rule exI [of _ "cont b"])
    (auto simp: is_cont_def cont_def simp del: of_nat_add)

lemma utf8_char2:
  "2 \<le> m \<Longrightarrow> m < 32 \<Longrightarrow> k < 64 \<Longrightarrow>
   scalar (m * 64 + k) \<and> utf8_char (m * 64 + k) = [bt (0xC0 + m), bt (0x80 + k)]"
  by (simp add: scalar_def is_surrogate_def utf8_char_def del: of_nat_add)

lemma digit64: "k < 64 \<Longrightarrow> (m * 64 + k) div 64 = m" "k < 64 \<Longrightarrow> (m * 64 + k) mod 64 = (k::nat)"
  by simp_all

lemma utf8_char3:
  assumes "m < 16" and "k < 64" and "j < 64" and "v = (m * 64 + k) * 64 + j" and "0x800 \<le> v"
    and "\<not> is_surrogate v"
  shows "scalar v \<and> utf8_char v = [bt (0xE0 + m), bt (0x80 + k), bt (0x80 + j)]"
proof -
  have "v < 0x10000" using assms(1-4) by simp
  moreover have "v div 64 = m * 64 + k" "v mod 64 = j"
    using digit64 [OF assms(3), of "m * 64 + k"] assms(4) by simp_all
  ultimately show ?thesis using assms(5,6) digit64 [OF assms(2), of m]
    by (simp add: scalar_def utf8_char_def del: of_nat_add)
qed

lemma utf8_char4:
  assumes "k < 64" and "j < 64" and "i < 64" and "v = ((m * 64 + k) * 64 + j) * 64 + i"
    and "0x10000 \<le> v" and "v < 0x110000"
  shows "scalar v \<and> utf8_char v = [bt (0xF0 + m), bt (0x80 + k), bt (0x80 + j), bt (0x80 + i)]"
proof -
  have "v div 64 = (m * 64 + k) * 64 + j" "v mod 64 = i"
    using digit64 [OF assms(3), of "(m * 64 + k) * 64 + j"] assms(4) by simp_all
  with assms(5,6) digit64 [OF assms(2), of "m * 64 + k"] digit64 [OF assms(1), of m] show ?thesis
    by (simp add: scalar_def is_surrogate_def utf8_char_def del: of_nat_add)
qed

lemma utf8_decode_canonical:
  "utf8_decode bs = Some s \<Longrightarrow> list_all scalar s \<and> concat (map utf8_char s) = bs"
proof (induction bs arbitrary: s rule: utf8_decode.induct)
  case 1
  then show ?case by simp
next
  case (2 b r)
  let ?n = "unat b"
  have b: "b = bt ?n" by simp
  consider "?n < 0x80" | "0xC2 \<le> ?n" "?n < 0xE0" | "0xE0 \<le> ?n" "?n < 0xF0" | "0xF0 \<le> ?n" "?n < 0xF5"
    using "2.prems" by (fastforce simp add: utf8_decode.simps(2) Let_def split: if_splits)
  then show ?case
  proof cases
    case 1
    with "2.prems" obtain s' where s: "s = ?n # s'" "utf8_decode r = Some s'"
      by (auto simp: utf8_decode.simps(2))
    with 1 "2.IH"(1) [of ?n s'] show ?thesis
      by (auto simp: scalar_def is_surrogate_def utf8_char_def)
  next
    case 2
    with "2.prems" obtain c1 r1 s' where r: "r = c1 # r1" "is_cont c1"
      "s = ((?n - 0xC0) * 64 + cont c1) # s'" "utf8_decode r1 = Some s'"
      by (auto simp: utf8_decode.simps(2) Let_def split: if_splits list.splits)
    obtain k where k: "k < 64" "cont c1 = k" "c1 = bt (0x80 + k)" using is_contD [OF r(2)] by blast
    have b': "b = bt (0xC0 + (?n - 0xC0))" using 2 by (simp del: of_nat_add of_nat_diff)
    have "2 \<le> ?n - 0xC0" "?n - 0xC0 < 32" using 2 by linarith+
    from utf8_char2 [OF this k(1)] "2.IH"(2) [of ?n c1 r1 s'] 2 r k b' show ?thesis
      by (auto simp del: of_nat_add of_nat_diff)
  next
    case 3
    with "2.prems" obtain c1 c2 r2 s' v where r: "r = c1 # c2 # r2" "is_cont c1" "is_cont c2"
      "v = ((?n - 0xE0) * 64 + cont c1) * 64 + cont c2" "0x800 \<le> v" "\<not> is_surrogate v"
      "s = v # s'" "utf8_decode r2 = Some s'"
      by (auto simp: utf8_decode.simps(2) Let_def split: if_splits list.splits)
    obtain k where k: "k < 64" "cont c1 = k" "c1 = bt (0x80 + k)" using is_contD [OF r(2)] by blast
    obtain j where j: "j < 64" "cont c2 = j" "c2 = bt (0x80 + j)" using is_contD [OF r(3)] by blast
    have b': "b = bt (0xE0 + (?n - 0xE0))" using 3 by (simp del: of_nat_add of_nat_diff)
    have "?n - 0xE0 < 16" using 3 by linarith
    from utf8_char3 [OF this k(1) j(1) _ r(5,6)] r(4) k(2) j(2)
    have u: "scalar v \<and> utf8_char v = [b, c1, c2]"
      using b' k(3) j(3) by (simp del: of_nat_add of_nat_diff add_mult_distrib)
    from "2.IH"(3) [of ?n c1 "c2 # r2" c2 r2 v s'] 3 r u show ?thesis
      by (auto simp del: of_nat_add of_nat_diff)
  next
    case 4
    with "2.prems" obtain c1 c2 c3 r3 s' v where r: "r = c1 # c2 # c3 # r3" "is_cont c1" "is_cont c2"
      "is_cont c3"
      "v = (((?n - 0xF0) * 64 + cont c1) * 64 + cont c2) * 64 + cont c3" "0x10000 \<le> v" "v < 0x110000"
      "s = v # s'" "utf8_decode r3 = Some s'"
      by (auto simp: utf8_decode.simps(2) Let_def split: if_splits list.splits)
    obtain k where k: "k < 64" "cont c1 = k" "c1 = bt (0x80 + k)" using is_contD [OF r(2)] by blast
    obtain j where j: "j < 64" "cont c2 = j" "c2 = bt (0x80 + j)" using is_contD [OF r(3)] by blast
    obtain i where i: "i < 64" "cont c3 = i" "c3 = bt (0x80 + i)" using is_contD [OF r(4)] by blast
    have b': "b = bt (0xF0 + (?n - 0xF0))" using 4 by (simp del: of_nat_add of_nat_diff)
    from utf8_char4 [OF k(1) j(1) i(1) _ r(6,7)] r(5) k(2) j(2) i(2)
    have u: "scalar v \<and> utf8_char v = [b, c1, c2, c3]"
      using b' k(3) j(3) i(3) by (simp del: of_nat_add of_nat_diff add_mult_distrib)
    from "2.IH"(4) [of ?n c1 "c2 # c3 # r3" c2 "c3 # r3" c3 r3 v s'] 4 r u show ?thesis
      by (auto simp del: of_nat_add of_nat_diff)
  qed
qed

lemma prefix_same_length: "prefix x y \<Longrightarrow> length x = length y \<Longrightarrow> x = y"
  by (auto simp: prefix_def)

section \<open>Escaped strings\<close>

definition esc_char :: "nat \<Rightarrow> bytes" where
  "esc_char c = (if c = 0 then [0x00, 0xFF] else utf8_char c)"

definition esc :: "pystr \<Rightarrow> bytes" where
  "esc s = concat (map esc_char s)"

lemma esc_simps [simp]: "esc [] = []" "esc (c # s) = esc_char c @ esc s"
  by (simp_all add: esc_def)

lemma utf8_char_0 [simp]: "utf8_char 0 = [0]"
  by (simp add: utf8_char_def)

lemma replace_null_append:
  "bytes_replace [0] new (xs @ ys) = bytes_replace [0] new xs @ bytes_replace [0] new ys"
  by (induction xs) auto

lemma replace_null_id: "0 \<notin> set xs \<Longrightarrow> bytes_replace [0] new xs = xs"
  by (induction xs) auto

lemma replace_null_utf8: "list_all scalar s \<Longrightarrow>
    bytes_replace [0] [0, 255] (concat (map utf8_char s)) = esc s"
  by (induction s) (auto simp: replace_null_append esc_char_def replace_null_id utf8_char_nonzero)

lemma bin_encode_string_eq:
  "bin_encode_string s = (if list_all scalar s then Inr (esc s) else Inl EncodeError)"
  by (auto simp: bin_encode_string_def utf8_encode_def replace_null_utf8)

text \<open>What may follow a component: nothing, or a byte below the escape byte.\<close>

definition tail_ok :: "bytes \<Rightarrow> bool" where
  "tail_ok r = (r = [] \<or> hd r < 0xFF)"

lemma esc_char_hd: "scalar c \<Longrightarrow> c \<noteq> 0 \<Longrightarrow> \<exists>b r. esc_char c = b # r \<and> 0 < b"
  using utf8_char_nonzero [of c] utf8_char_not_Nil [of c]
  by (cases "utf8_char c") (auto simp: esc_char_def word_gt_0)

lemma esc_less:
  assumes "s < t" and "list_all scalar s" and "list_all scalar t" and "tail_ok r"
  shows "esc s @ 0 # r < esc t @ 0 # q"
  using assms(1-3)
proof (induction s arbitrary: t)
  case Nil
  then obtain d t' where t: "t = d # t'" by (cases t) auto
  show ?case
  proof (cases "d = 0")
    case True
    have "r < 255 # x" for x using assms(4) by (cases r) (auto simp: tail_ok_def)
    with True t show ?thesis by (simp add: esc_char_def)
  next
    case False
    with Nil t esc_char_hd [of d] show ?thesis by auto
  qed
next
  case (Cons c s)
  then obtain d t' where t: "t = d # t'" and cd: "c < d \<or> c = d \<and> s < t'" by (cases t) auto
  from Cons.prems t have sc: "scalar c" "scalar d" "list_all scalar s" "list_all scalar t'" by auto
  from cd show ?case
  proof
    assume lt: "c < d"
    show ?thesis
    proof (cases "c = 0")
      case True
      with lt t sc esc_char_hd [of d] show ?thesis by (auto simp: esc_char_def [of 0])
    next
      case False
      with lt have "esc_char c < esc_char d" "\<not> prefix (esc_char c) (esc_char d)"
        using utf8_char_less [OF lt sc(1,2)] by (simp_all add: esc_char_def)
      from less_append_mono [OF this] t show ?thesis by simp
    qed
  next
    assume "c = d \<and> s < t'"
    with Cons.IH [of t'] sc t show ?thesis by simp
  qed
qed

section \<open>Components\<close>

definition seg_ok :: "seg \<Rightarrow> bool" where
  "seg_ok s = (case s of SInt v \<Rightarrow> INT64_MIN \<le> v \<and> v \<le> INT64_MAX | SStr t \<Rightarrow> list_all scalar t)"

definition comp_bytes :: "seg \<Rightarrow> bytes" where
  "comp_bytes s = (case s of
       SInt v \<Rightarrow> 0x01 # to_bytes_big 8 (nat (v + INT64_BIAS)) @ [0x00]
     | SStr t \<Rightarrow> 0x02 # esc t @ [0x00])"

lemma bin_encode_component_Inr:
  "bin_encode_component s = Inr b \<longleftrightarrow> seg_ok s \<and> b = comp_bytes s"
  by (cases s)
    (auto simp: bin_encode_component_def bin_encode_integer_def bin_encode_string_eq seg_ok_def
      comp_bytes_def marker_defs Let_def rbind_def split: sum.splits if_splits)

lemma rmap_component_Inr:
  "rmap bin_encode_component k = Inr ps \<longleftrightarrow> list_all seg_ok k \<and> ps = map comp_bytes k"
  by (induction k arbitrary: ps) (auto simp: rbind_eq_Inr bin_encode_component_Inr)

lemma bin_encode_Inr:
  "bin_encode k = Inr e \<longleftrightarrow> k \<noteq> [] \<and> list_all seg_ok k \<and> e = concat (map comp_bytes k)"
  by (auto simp: bin_encode_def rbind_eq_Inr rmap_component_Inr)

lemma tail_ok_concat_comp: "tail_ok r \<Longrightarrow> tail_ok (concat (map comp_bytes k) @ r)"
  by (cases k) (auto simp: tail_ok_def comp_bytes_def split: seg.splits)

lemma tail_ok_concat_comp' [simp]: "tail_ok (concat (map comp_bytes k))"
  using tail_ok_concat_comp [of "[]" k] by (simp add: tail_ok_def)

lemma biased_less: "INT64_MIN \<le> v \<Longrightarrow> v \<le> INT64_MAX \<Longrightarrow> nat (v + INT64_BIAS) < 256 ^ 8"
  by (simp add: int64_defs nat_less_iff)

lemma comp_less:
  assumes "a < b" and "seg_ok a" and "seg_ok b" and "tail_ok r"
  shows "comp_bytes a @ r < comp_bytes b @ q"
proof (cases a)
  case (SInt v)
  show ?thesis
  proof (cases b)
    case (SInt w)
    have "to_bytes_big 8 (nat (v + INT64_BIAS)) < to_bytes_big 8 (nat (w + INT64_BIAS))" (is "?x < ?y")
      using assms \<open>a = SInt v\<close> SInt
      by (intro to_bytes_big_less) (auto simp: seg_ok_def biased_less, auto simp: int64_defs)
    moreover from this have "\<not> prefix ?x ?y" using prefix_same_length [of ?x ?y] by auto
    ultimately show ?thesis
      using less_append_mono [of ?x ?y "0 # r" "0 # q"] \<open>a = SInt v\<close> SInt by (simp add: comp_bytes_def)
  next
    case (SStr t)
    with \<open>a = SInt v\<close> show ?thesis by (simp add: comp_bytes_def)
  qed
next
  case (SStr s)
  with assms(1) obtain t where b: "b = SStr t" "s < t" by (cases b) auto
  with SStr assms esc_less [of s t r q] show ?thesis by (simp add: comp_bytes_def seg_ok_def)
qed

lemma concat_comp_less:
  "k < l \<Longrightarrow> list_all seg_ok k \<Longrightarrow> list_all seg_ok l \<Longrightarrow>
   concat (map comp_bytes k) < concat (map comp_bytes l)"
proof (induction k arbitrary: l)
  case Nil
  then show ?case by (cases l) (auto simp: comp_bytes_def split: seg.splits)
next
  case (Cons a k)
  then obtain b l' where l: "l = b # l'" "a < b \<or> a = b \<and> k < l'" by (cases l) auto
  with Cons show ?case using comp_less [of a b "concat (map comp_bytes k)"] by auto
qed

lemma comp_cancel:
  assumes "comp_bytes a @ r = comp_bytes b @ q" and "seg_ok a" and "seg_ok b" and "tail_ok r" and "tail_ok q"
  shows "a = b \<and> r = q"
proof -
  have "a = b"
    using assms comp_less [of a b r q] comp_less [of b a q r] by (metis less_irrefl linorder_neqE)
  with assms(1) show ?thesis by simp
qed

lemma concat_comp_prefix:
  "concat (map comp_bytes k) = concat (map comp_bytes p) @ t \<Longrightarrow> tail_ok t \<Longrightarrow>
   list_all seg_ok k \<Longrightarrow> list_all seg_ok p \<Longrightarrow> prefix p k"
proof (induction p arbitrary: k)
  case Nil
  then show ?case by simp
next
  case (Cons a p)
  have "comp_bytes a \<noteq> []" by (simp add: comp_bytes_def split: seg.splits)
  with Cons.prems obtain b k' where k: "k = b # k'" by (cases k) auto
  with Cons.prems have "comp_bytes b @ concat (map comp_bytes k') = comp_bytes a @ (concat (map comp_bytes p) @ t)" by simp
  with Cons.prems k have "b = a \<and> concat (map comp_bytes k') = concat (map comp_bytes p) @ t"
    by (intro comp_cancel) (auto intro: tail_ok_concat_comp)
  with Cons.IH [of k'] Cons.prems k show ?case by auto
qed

section \<open>The codec meets the interface\<close>

interpretation binary: ordered_codec bin_encode bin_upper_bound_of_prefix
proof
  fix k k' :: key and e
  assume "bin_encode k = Inr e" and "bin_encode k' = Inr e"
  then show "k = k'"
    using concat_comp_less [of k k'] concat_comp_less [of k' k]
    by (auto simp: bin_encode_Inr) (metis less_irrefl linorder_neqE)
next
  fix p :: key and e
  assume "bin_encode p = Inr e"
  then show "\<exists>u. bin_upper_bound_of_prefix p = Inr u"
    by (simp add: bin_upper_bound_of_prefix_def)
next
  fix k p :: key and e
  assume "bin_encode k = Inr e" and "prefix p k" and "p \<noteq> []"
  then show "\<exists>e'. bin_encode p = Inr e'"
    by (auto simp: bin_encode_Inr prefix_def)
next
  fix p k :: key and lo hi e
  assume p: "bin_encode p = Inr lo" and u: "bin_upper_bound_of_prefix p = Inr hi"
    and k: "bin_encode k = Inr e"
  from p u have hi: "hi = lo @ [0xFF]" by (simp add: bin_upper_bound_of_prefix_def)
  show "(lo \<le> e \<and> e < hi) \<longleftrightarrow> prefix p k"
  proof
    assume "lo \<le> e \<and> e < hi"
    then obtain t where "e = lo @ t" "tail_ok t"
      unfolding hi in_prefix_range_iff by (auto simp: tail_ok_def)
    with p k show "prefix p k" by (metis bin_encode_Inr concat_comp_prefix)
  next
    assume "prefix p k"
    then obtain l where "k = p @ l" by (auto simp: prefix_def)
    with p k have "e = lo @ concat (map comp_bytes l)" by (auto simp: bin_encode_Inr)
    then show "lo \<le> e \<and> e < hi"
      unfolding hi in_prefix_range_iff using tail_ok_concat_comp' [of l] by (auto simp: tail_ok_def)
  qed
next
  fix k k' :: key and e e'
  assume "bin_encode k = Inr e" and "bin_encode k' = Inr e'"
  then show "e < e' \<longleftrightarrow> k < k'"
    using concat_comp_less [of k k'] concat_comp_less [of k' k]
    by (auto simp: bin_encode_Inr) (metis less_asym linorder_neqE)
qed

section \<open>Finding the terminator\<close>

lemma find_null_skip:
  "0 \<notin> set xs \<Longrightarrow> find_null (pre @ xs @ ys) (length pre) = find_null (pre @ xs @ ys) (length pre + length xs)"
proof -
  assume "0 \<notin> set xs"
  then have "takeWhile (\<lambda>b. b \<noteq> 0) (xs @ ys) = xs @ takeWhile (\<lambda>b. b \<noteq> 0) ys"
    by (intro takeWhile_append2) auto
  then show ?thesis by (simp add: find_null_def)
qed

lemma find_terminator_skip:
  assumes "0 \<notin> set xs"
  shows "find_terminator (pre @ xs @ ys) (length pre) =
    find_terminator (pre @ xs @ ys) (length pre + length xs)"
proof (cases "ys = []")
  case True
  then show ?thesis using assms find_null_skip [OF assms, of pre ys]
    by (auto simp: find_terminator.simps [of "pre @ xs"] find_null_def split: if_splits)
next
  case False
  then show ?thesis using find_null_skip [OF assms, of pre ys]
    by (simp add: find_terminator.simps [of _ "length pre"]
        find_terminator.simps [of _ "length pre + length xs"])
qed

lemma find_terminator_null:
  "find_terminator (pre @ 0 # r) (length pre) =
     (if r \<noteq> [] \<and> hd r = 255 then find_terminator (pre @ 0 # r) (length pre + 2) else Some (length pre))"
  by (cases r)
    (auto simp: find_terminator.simps [of _ "length pre"] find_null_def nth_append)

lemma find_terminator_esc:
  assumes "list_all scalar s" and "tail_ok r"
  shows "find_terminator (pre @ esc s @ 0 # r) (length pre) = Some (length pre + length (esc s))"
  using assms(1)
proof (induction s arbitrary: pre)
  case Nil
  then show ?case using assms(2) find_terminator_null [of pre r] by (auto simp: tail_ok_def)
next
  case (Cons c s)
  show ?case
  proof (cases "c = 0")
    case True
    with Cons.IH [of "pre @ [0, 255]"] Cons.prems show ?thesis
      using find_terminator_null [of pre "255 # esc s @ 0 # r"]
      by (simp add: esc_char_def)
  next
    case False
    with Cons.prems have "0 \<notin> set (esc_char c)"
      by (simp add: esc_char_def utf8_char_nonzero)
    from find_terminator_skip [OF this, of pre "esc s @ 0 # r"] Cons.IH [of "pre @ esc_char c"] Cons.prems
    show ?thesis by simp
  qed
qed

text \<open>A slice between a string marker and its terminator: every null byte is escaped.\<close>

fun escaped :: "bytes \<Rightarrow> bool" where
  "escaped [] = True"
| "escaped (b # r) = (if b = 0 then (case r of [] \<Rightarrow> False | c # r' \<Rightarrow> c = 255 \<and> escaped r') else escaped r)"

lemma escaped_skip: "0 \<notin> set xs \<Longrightarrow> escaped (xs @ ys) = escaped ys"
  by (induction xs) auto

lemma escaped_replace:
  "escaped d \<Longrightarrow> bytes_replace [0] [0, 255] (bytes_replace [0, 255] [0] d) = d"
  by (induction d rule: escaped.induct) (auto split: list.splits if_splits)

lemma find_terminator_sound:
  "find_terminator bs p = Some n \<Longrightarrow>
   escaped (take (n - p) (drop p bs)) \<and> bs ! n = 0 \<and> p \<le> n \<and> n < length bs"
proof (induction bs p rule: find_terminator.induct)
  case (1 bs p)
  from "1.prems" have p: "p < length bs" by (auto simp: find_terminator.simps [of bs p] split: if_splits)
  with "1.prems" obtain m where m: "find_null bs p = Some m"
    by (auto simp: find_terminator.simps [of bs p] split: option.splits)
  then have mb: "p \<le> m" "m < length bs" by (auto dest: find_null_bounds)
  define xs where "xs = takeWhile (\<lambda>b. b \<noteq> 0) (drop p bs)"
  from m have m': "m = p + length xs"
    by (auto simp: find_null_def xs_def Let_def split: if_splits)
  have xs: "xs = take (m - p) (drop p bs)"
    using takeWhile_eq_take [of "\<lambda>b. b \<noteq> 0" "drop p bs"] by (simp add: m' xs_def)
  have nz: "0 \<notin> set xs" by (auto simp: xs_def dest: set_takeWhileD)
  have z: "bs ! m = 0"
  proof -
    have "length xs < length (drop p bs)" using m' mb by simp
    then have "drop p bs ! length xs = 0" using nth_length_takeWhile xs_def by fastforce
    with m' p show ?thesis by simp
  qed
  show ?case
  proof (cases "m + 1 < length bs \<and> bs ! (m + 1) = 255")
    case True
    with "1.prems" p m have r: "find_terminator bs (m + 2) = Some n"
      by (simp add: find_terminator.simps [of bs p])
    from "1.IH" [OF p m True r] have ih: "escaped (take (n - (m + 2)) (drop (m + 2) bs))"
      "bs ! n = 0" "m + 2 \<le> n" "n < length bs" by auto
    have "take (n - p) (drop p bs) = xs @ [bs ! m, bs ! (m + 1)] @ take (n - (m + 2)) (drop (m + 2) bs)"
    proof -
      have "drop p bs = xs @ drop m bs"
        using xs m' by (metis append_take_drop_id drop_drop add.commute add_diff_cancel_left')
      moreover have "drop m bs = bs ! m # bs ! (m + 1) # drop (m + 2) bs"
        using True mb Cons_nth_drop_Suc [of m bs] Cons_nth_drop_Suc [of "Suc m" bs] by simp
      moreover have "n - p = length xs + Suc (Suc (n - (m + 2)))"
        using ih(3) m' by simp
      ultimately show ?thesis by simp
    qed
    with ih z True nz mb show ?thesis by (simp add: escaped_skip)
  next
    case False
    with "1.prems" p m have "n = m" by (simp add: find_terminator.simps [of bs p] split: if_splits)
    with xs nz z mb escaped_skip [OF nz, of "[]"] show ?thesis by simp
  qed
qed

section \<open>Round trips\<close>

lemma bin_decode_string_esc: "list_all scalar s \<Longrightarrow> bin_decode_string (esc s) = Inr s"
proof -
  assume a: "list_all scalar s"
  have "bytes_replace [0, 255] [0] (esc s) = concat (map utf8_char s)"
    using a
  proof (induction s)
    case Nil
    then show ?case by simp
  next
    case (Cons c s)
    show ?case
    proof (cases "c = 0")
      case True
      with Cons show ?thesis by (simp add: esc_char_def)
    next
      case False
      have "0 \<notin> set xs \<Longrightarrow> bytes_replace [0, 255] [0] (xs @ ys) = xs @ bytes_replace [0, 255] [0] ys"
        for xs ys by (induction xs) auto
      with False Cons show ?thesis by (simp add: esc_char_def utf8_char_nonzero)
    qed
  qed
  with a show ?thesis by (simp add: bin_decode_string_def utf8_decode_encode)
qed

lemma bin_decode_string_sound:
  assumes "bin_decode_string d = Inr s" and "escaped d"
  shows "list_all scalar s \<and> esc s = d"
proof -
  from assms(1) have "utf8_decode (bytes_replace [0, 255] [0] d) = Some s"
    by (auto simp: bin_decode_string_def split: option.splits)
  then have "list_all scalar s" "concat (map utf8_char s) = bytes_replace [0, 255] [0] d"
    using utf8_decode_canonical by blast+
  with assms(2) replace_null_utf8 [of s] escaped_replace [of d] show ?thesis by simp
qed

lemma bin_decode_integer_eq:
  "offset + 8 \<le> length data \<Longrightarrow>
   bin_decode_integer data offset = Inr (int (from_bytes_big (take 8 (drop offset data))) - INT64_BIAS, 8)"
  by (simp add: bin_decode_integer_def)

lemma bin_decode_loop_comp:
  assumes "seg_ok a" and "tail_ok r"
  shows "bin_decode_loop (pre @ comp_bytes a @ r) (length pre) res =
    bin_decode_loop (pre @ comp_bytes a @ r) (length pre + length (comp_bytes a)) (res @ [a])"
proof (cases a)
  case (SInt v)
  let ?e = "pre @ comp_bytes a @ r"
  let ?n = "nat (v + INT64_BIAS)"
  have e: "?e = (pre @ [1]) @ to_bytes_big 8 ?n @ (0 # r)" using SInt by (simp add: comp_bytes_def)
  have t: "take 8 (drop (length pre + 1) ?e) = to_bytes_big 8 ?n"
    unfolding e by (simp del: append_assoc)
  have l: "length ?e = length pre + 10 + length r" using SInt by (simp add: comp_bytes_def)
  have ib: "int (from_bytes_big (to_bytes_big 8 ?n)) - INT64_BIAS = v"
  proof -
    have v: "INT64_MIN \<le> v" "v \<le> INT64_MAX" using assms(1) SInt by (simp_all add: seg_ok_def)
    from from_to_bytes_big [OF biased_less [OF v]] have "from_bytes_big (to_bytes_big 8 ?n) = ?n" .
    moreover have "0 \<le> v + INT64_BIAS" using v(1) by (simp add: int64_defs)
    ultimately show ?thesis by simp
  qed
  have n: "?e ! length pre = 1" "?e ! (length pre + 9) = 0"
    using SInt by (simp_all add: comp_bytes_def nth_append)
  have c: "length (comp_bytes a) = 10" using SInt by (simp add: comp_bytes_def)
  define E where "E = ?e"
  have n': "E ! (9 + length pre) = 0" using n(2) by (simp add: E_def add.commute)
  have "bin_decode_integer E (Suc (length pre)) = Inr (v, 8)"
    using l t ib bin_decode_integer_eq [of "length pre + 1" E] by (simp add: E_def)
  with l n(1) n' c SInt show ?thesis
    unfolding E_def [symmetric]
    by (simp add: bin_decode_loop.simps [of E "length pre"] marker_defs Let_def add.commute)
next
  case (SStr s)
  let ?e = "pre @ comp_bytes a @ r"
  have e: "?e = (pre @ [2]) @ esc s @ 0 # r" using SStr by (simp add: comp_bytes_def)
  have s: "list_all scalar s" using SStr assms(1) by (simp add: seg_ok_def)
  have f: "find_terminator ?e (length pre + 1) = Some (length pre + 1 + length (esc s))"
    using find_terminator_esc [OF s assms(2), of "pre @ [2]"] e by simp
  have t: "take (length (esc s)) (drop (length pre + 1) ?e) = esc s"
    unfolding e by (simp del: append_assoc)
  have n: "?e ! length pre = 2" "length pre < length ?e" using SStr by (simp_all add: comp_bytes_def)
  have c: "length (comp_bytes a) = length (esc s) + 2" using SStr by (simp add: comp_bytes_def)
  define E where "E = ?e"
  from n f t c SStr bin_decode_string_esc [OF s] show ?thesis
    unfolding E_def [symmetric]
    by (simp add: bin_decode_loop.simps [of E "length pre"] marker_defs Let_def)
qed

lemma bin_decode_loop_complete:
  "list_all seg_ok k \<Longrightarrow>
   bin_decode_loop (pre @ concat (map comp_bytes k)) (length pre) res = Inr (res @ k)"
proof (induction k arbitrary: pre res)
  case Nil
  then show ?case by (simp add: bin_decode_loop.simps)
next
  case (Cons a k)
  with bin_decode_loop_comp [of a "concat (map comp_bytes k)" pre res]
    Cons.IH [of "pre @ comp_bytes a" "res @ [a]"]
  show ?case by simp
qed

text \<open>Whatever the loop accepts is the encoding of what it returns.\<close>

lemma drop_slice: "p \<le> n \<Longrightarrow> drop p bs = take (n - p) (drop p bs) @ drop n bs"
  by (metis append_take_drop_id drop_drop le_add_diff_inverse2 add.commute)

lemma bin_decode_integer_sound:
  assumes "bin_decode_integer bs p = Inr (v, c)"
  shows "c = 8 \<and> p + 8 \<le> length bs \<and> seg_ok (SInt v) \<and>
    to_bytes_big 8 (nat (v + INT64_BIAS)) = take 8 (drop p bs)"
proof -
  from assms have l: "p + 8 \<le> length bs" and c: "c = 8"
    and v: "v + INT64_BIAS = int (from_bytes_big (take 8 (drop p bs)))"
    by (auto simp: bin_decode_integer_def Let_def split: if_splits)
  have len: "length (take 8 (drop p bs)) = 8" using l by simp
  from from_bytes_big_less [of "take 8 (drop p bs)"] len
  have "from_bytes_big (take 8 (drop p bs)) < 2 ^ 64" by simp
  with v have "seg_ok (SInt v)" by (simp add: seg_ok_def int64_defs)
  moreover have "to_bytes_big 8 (nat (v + INT64_BIAS)) = take 8 (drop p bs)"
    using to_from_bytes_big [of "take 8 (drop p bs)"] len by (simp add: v)
  ultimately show ?thesis using l c by simp
qed

lemma bin_decode_loop_sound:
  "bin_decode_loop bs p res = Inr k \<Longrightarrow> p \<le> length bs \<Longrightarrow>
   \<exists>l. k = res @ l \<and> list_all seg_ok l \<and> drop p bs = concat (map comp_bytes l)"
proof (induction bs p res rule: bin_decode_loop.induct)
  case (1 bs p res)
  show ?case
  proof (cases "p < length bs")
    case False
    with "1.prems" show ?thesis by (auto simp: bin_decode_loop.simps [of bs p])
  next
    case True
    then have d: "drop p bs = bs ! p # drop (Suc p) bs" by (simp add: Cons_nth_drop_Suc)
    show ?thesis
    proof (cases "bs ! p = 1")
      case int: True
      from "1.prems" True int obtain v where v: "bin_decode_integer bs (Suc p) = Inr (v, 8)"
        and t: "Suc p + 8 < length bs" "bs ! (Suc p + 8) = 0"
        and r: "bin_decode_loop bs (Suc p + 8 + 1) (res @ [SInt v]) = Inr k"
        by (auto simp: bin_decode_loop.simps [of bs p] marker_defs Let_def
            split: sum.splits if_splits dest: bin_decode_integer_sound)
      from "1.IH"(1) [of "bs ! p" "Suc p" "(v, 8)" v 8 "res @ [SInt v]" "Suc p + 8"] True int v t r
      obtain l where l: "k = (res @ [SInt v]) @ l" "list_all seg_ok l"
        "drop (Suc p + 8 + 1) bs = concat (map comp_bytes l)"
        by (auto simp: marker_defs)
      have "drop (Suc p) bs = take 8 (drop (Suc p) bs) @ drop (Suc p + 8) bs"
        using drop_slice [of "Suc p" "Suc p + 8" bs] by simp
      moreover have "drop (Suc p + 8) bs = 0 # drop (Suc p + 8 + 1) bs"
        using t Cons_nth_drop_Suc [of "Suc p + 8" bs] by simp
      ultimately have "drop p bs = comp_bytes (SInt v) @ concat (map comp_bytes l)"
        using d int bin_decode_integer_sound [OF v] l(3) by (simp add: comp_bytes_def)
      with l bin_decode_integer_sound [OF v] show ?thesis
        by (intro exI [of _ "SInt v # l"]) simp
    next
      case nint: False
      with "1.prems" True have str: "bs ! p = 2"
        by (auto simp: bin_decode_loop.simps [of bs p] marker_defs Let_def split: if_splits)
      from "1.prems" True str obtain n s where n: "find_terminator bs (Suc p) = Some n"
        and s: "bin_decode_string (take (n - Suc p) (drop (Suc p) bs)) = Inr s"
        and r: "bin_decode_loop bs (n + 1) (res @ [SStr s]) = Inr k"
        by (auto simp: bin_decode_loop.simps [of bs p] marker_defs Let_def
            split: sum.splits if_splits option.splits)
      note fs = find_terminator_sound [OF n]
      from "1.IH"(2) [of "bs ! p" "Suc p" n s] True str n s r fs
      obtain l where l: "k = (res @ [SStr s]) @ l" "list_all seg_ok l"
        "drop (n + 1) bs = concat (map comp_bytes l)"
        by (auto simp: marker_defs)
      from bin_decode_string_sound [OF s] fs
      have e: "list_all scalar s" "esc s = take (n - Suc p) (drop (Suc p) bs)" by auto
      have "drop (Suc p) bs = esc s @ drop n bs"
        using drop_slice [of "Suc p" n bs] fs e(2) by simp
      moreover have "drop n bs = 0 # drop (n + 1) bs"
        using fs Cons_nth_drop_Suc [of n bs] by simp
      ultimately have "drop p bs = comp_bytes (SStr s) @ concat (map comp_bytes l)"
        using d str l(3) by (simp add: comp_bytes_def)
      moreover have "seg_ok (SStr s)" using e(1) by (simp add: seg_ok_def)
      ultimately show ?thesis
        using l by (intro exI [of _ "SStr s # l"]) simp
    qed
  qed
qed

lemma comp_bytes_not_Nil [simp]: "comp_bytes s \<noteq> []"
  by (simp add: comp_bytes_def split: seg.splits)

theorem bin_roundtrip: "bin_encode k = Inr bs \<Longrightarrow> bin_decode bs = Inr k"
  using bin_decode_loop_complete [of k "[]" "[]"]
  by (cases k) (auto simp: bin_encode_Inr bin_decode_def)

theorem bin_decode_sound: "bin_decode bs = Inr k \<Longrightarrow> bin_encode k = Inr bs"
proof -
  assume a: "bin_decode bs = Inr k"
  then have "bs \<noteq> []" "bin_decode_loop bs 0 [] = Inr k"
    by (auto simp: bin_decode_def split: if_splits)
  with bin_decode_loop_sound [of bs 0 "[]" k] show ?thesis
    by (auto simp: bin_encode_Inr)
qed

section \<open>Properties\<close>

text \<open>C1: the binary codec is a bijection between the keys it accepts and the byte strings it
  decodes: decoding inverts encoding, and a byte string decodes to a key exactly when it
  is the encoding of that key (so no overlong, truncated or mis-terminated input is
  accepted).
\<close>

theorem binary_codec_bijection: "bin_encode k = Inr bs \<longleftrightarrow> bin_decode bs = Inr k"
  by (blast intro: bin_roundtrip bin_decode_sound)

text \<open>C2: encoding preserves order. For two keys the codec accepts, the encoded bytes compare
  as the tuples do: integers by value and below strings, strings by code point, a prefix
  below its extensions.
\<close>

theorem binary_codec_order:
  assumes "bin_encode k = Inr e" and "bin_encode k' = Inr e'"
  shows "e < e' \<longleftrightarrow> k < k'"
  using assms by (rule binary.enc_order)

theorem binary_codec_order_witness:
  "\<exists>e e'. bin_encode [SStr [0], SInt (-5)] = Inr e \<and> bin_encode [SStr [0], SInt 3] = Inr e' \<and>
     (e < e' \<longleftrightarrow> [SStr [0], SInt (-5)] < [SStr [0], SInt 3])"
proof -
  obtain e e' where e: "bin_encode [SStr [0], SInt (-5)] = Inr e"
    and e': "bin_encode [SStr [0], SInt 3] = Inr e'"
    by (simp add: bin_encode_Inr seg_ok_def int64_defs scalar_def is_surrogate_def)
  from binary_codec_order [OF e e'] e e' show ?thesis by blast
qed

text \<open>C3: the range of a prefix. The encoded keys from \<open>encode(p)\<close> up to, and not including,
  \<open>upper_bound_of_prefix(p)\<close> are exactly the keys that start with \<open>p\<close>.
\<close>

theorem binary_codec_prefix_range:
  assumes "bin_encode p = Inr lo" and "bin_upper_bound_of_prefix p = Inr hi"
    and "bin_encode k = Inr e"
  shows "(lo \<le> e \<and> e < hi) \<longleftrightarrow> prefix p k"
  using assms by (rule binary.prefix_range)

theorem binary_codec_prefix_range_witness:
  "\<exists>lo hi e. bin_encode [SStr [97]] = Inr lo \<and> bin_upper_bound_of_prefix [SStr [97]] = Inr hi \<and>
     bin_encode [SStr [97, 0]] = Inr e \<and> ((lo \<le> e \<and> e < hi) \<longleftrightarrow> prefix [SStr [97]] [SStr [97, 0]])"
proof -
  obtain lo hi e where "bin_encode [SStr [97]] = Inr lo"
    and "bin_upper_bound_of_prefix [SStr [97]] = Inr hi" and "bin_encode [SStr [97, 0]] = Inr e"
    by (simp add: bin_upper_bound_of_prefix_def rbind_eq_Inr bin_encode_Inr seg_ok_def scalar_def
        is_surrogate_def)
  from binary_codec_prefix_range [OF this] this show ?thesis by blast
qed

text \<open>C20: the codec accepts exactly the non-empty tuples of 64-bit signed integers and strings
  without surrogates, and names the error: the first offending component raises
  \<open>IntegerOverflowError\<close> (an integer) or \<open>EncodeError\<close> (a string).
\<close>

theorem binary_codec_domain:
  "bin_encode k =
     (if k = [] then Inl EncodeError
      else case filter (\<lambda>s. \<not> seg_ok s) k of
          [] \<Rightarrow> Inr (concat (map comp_bytes k))
        | SInt v # _ \<Rightarrow> Inl IntegerOverflowError
        | SStr t # _ \<Rightarrow> Inl EncodeError)"
proof -
  have "rmap bin_encode_component k = (case filter (\<lambda>s. \<not> seg_ok s) k of
          [] \<Rightarrow> Inr (map comp_bytes k)
        | SInt v # _ \<Rightarrow> Inl IntegerOverflowError
        | SStr t # _ \<Rightarrow> Inl EncodeError)" for k
  proof (induction k)
    case Nil
    then show ?case by simp
  next
    case (Cons s k)
    show ?case
    proof (cases "seg_ok s")
      case True
      then have "bin_encode_component s = Inr (comp_bytes s)" by (simp add: bin_encode_component_Inr)
      with True Cons show ?thesis by (simp split: list.splits seg.splits)
    next
      case False
      then show ?thesis
        by (cases s) (auto simp: bin_encode_component_def bin_encode_integer_def
            bin_encode_string_eq seg_ok_def)
    qed
  qed
  then show ?thesis
    by (simp add: bin_encode_def split: list.splits seg.splits)
qed

end
