(* ===== verification/Sorted_Keys.thy ===== *)
theory Sorted_Keys
  imports Virtuals_Prelude
begin

text \<open>
  The chunked ordered index of the in-memory storage
  (\<open>src/virtuals/_backends/storages/mem/sorted_keys.py\<close>): sorted sublists with a list
  of their maxima. The locale \<open>ordered_index\<close> is the contract the store relies on (the
  index is a strictly sorted list of keys, and a page is a slice of it); it is
  interpreted on the class's own operations.
\<close>

section \<open>The \<open>bisect\<close> module\<close>

function bisect_left_loop :: "'a::linorder list \<Rightarrow> 'a \<Rightarrow> nat \<Rightarrow> nat \<Rightarrow> nat" where
  "bisect_left_loop a x lo hi =
     (if lo < hi
      then let mid = (lo + hi) div 2 in
        if a ! mid < x then bisect_left_loop a x (mid + 1) hi else bisect_left_loop a x lo mid
      else lo)"
  by pat_completeness auto
termination
  by (relation "measure (\<lambda>(a, x, lo, hi). hi - lo)") auto

function bisect_right_loop :: "'a::linorder list \<Rightarrow> 'a \<Rightarrow> nat \<Rightarrow> nat \<Rightarrow> nat" where
  "bisect_right_loop a x lo hi =
     (if lo < hi
      then let mid = (lo + hi) div 2 in
        if x < a ! mid then bisect_right_loop a x lo mid else bisect_right_loop a x (mid + 1) hi
      else lo)"
  by pat_completeness auto
termination
  by (relation "measure (\<lambda>(a, x, lo, hi). hi - lo)") auto

declare bisect_left_loop.simps [simp del] bisect_right_loop.simps [simp del]

definition bisect_left :: "'a::linorder list \<Rightarrow> 'a \<Rightarrow> nat" where
  "bisect_left a x = bisect_left_loop a x 0 (length a)"

definition bisect_right :: "'a::linorder list \<Rightarrow> 'a \<Rightarrow> nat" where
  "bisect_right a x = bisect_right_loop a x 0 (length a)"

definition list_insert :: "nat \<Rightarrow> 'a \<Rightarrow> 'a list \<Rightarrow> 'a list" where
  "list_insert i x xs = take i xs @ x # drop i xs"

definition insort_right :: "'a::linorder list \<Rightarrow> 'a \<Rightarrow> 'a list" where
  "insort_right a x = list_insert (bisect_right a x) x a"

section \<open>The index\<close>

record 'k sorted_keys =
  sk_lists :: "'k list list"
  sk_maxes :: "'k list"
  sk_len :: nat

definition LOAD :: nat where
  "LOAD = 1000"

fun chunks :: "nat \<Rightarrow> 'a list \<Rightarrow> 'a list list" where
  "chunks n xs = (if xs = [] \<or> n = 0 then [] else take n xs # chunks n (drop n xs))"

declare chunks.simps [simp del]

definition sk_empty :: "'k sorted_keys" where
  "sk_empty = \<lparr>sk_lists = [], sk_maxes = [], sk_len = 0\<rparr>"

definition sk_init :: "'k::linorder list \<Rightarrow> 'k sorted_keys" where
  "sk_init keys =
     (let values = sort keys in
      if values = [] then sk_empty
      else let lists = chunks LOAD values in
        \<lparr>sk_lists = lists, sk_maxes = map last lists, sk_len = length values\<rparr>)"

definition sk_iter :: "'k sorted_keys \<Rightarrow> 'k list" where
  "sk_iter s = concat (sk_lists s)"

text \<open>Split the sublist at \<open>pos\<close> in two halves when it has outgrown twice the load.\<close>

definition sk_split :: "nat \<Rightarrow> 'k sorted_keys \<Rightarrow> 'k sorted_keys" where
  "sk_split pos s =
     (let sub = sk_lists s ! pos in
      if length sub > 2 * LOAD then
        let half = length sub div 2;
            lists = list_insert (pos + 1) (drop half sub) (sk_lists s);
            lists = lists[pos := take half sub];
            maxes = (sk_maxes s)[pos := last (take half sub)];
            maxes = list_insert (pos + 1) (last (lists ! (pos + 1))) maxes
        in s\<lparr>sk_lists := lists, sk_maxes := maxes\<rparr>
      else s)"

definition sk_add :: "'k::linorder \<Rightarrow> 'k sorted_keys \<Rightarrow> 'k sorted_keys" where
  "sk_add key s =
     (let maxes = sk_maxes s in
      if maxes = [] then
        s\<lparr>sk_lists := sk_lists s @ [[key]], sk_maxes := maxes @ [key], sk_len := 1\<rparr>
      else
        let pos = bisect_left maxes key;
            pos = (if pos = length maxes then pos - 1 else pos);
            sub = insort_right (sk_lists s ! pos) key
        in sk_split pos
             (s\<lparr>sk_lists := (sk_lists s)[pos := sub], sk_maxes := maxes[pos := last sub],
                sk_len := sk_len s + 1\<rparr>))"

definition locate_left :: "'k::linorder sorted_keys \<Rightarrow> 'k \<Rightarrow> nat \<times> nat" where
  "locate_left s key =
     (let pos = bisect_left (sk_maxes s) key in
      if pos = length (sk_maxes s) then (pos, 0)
      else (pos, bisect_left (sk_lists s ! pos) key))"

definition locate_right :: "'k::linorder sorted_keys \<Rightarrow> 'k \<Rightarrow> nat \<times> nat" where
  "locate_right s key =
     (let pos = bisect_right (sk_maxes s) key in
      if pos = length (sk_maxes s) then (pos, 0)
      else (pos, bisect_right (sk_lists s ! pos) key))"

text \<open>\<open>del xs[i]\<close>.\<close>

definition list_delete :: "nat \<Rightarrow> 'a list \<Rightarrow> 'a list" where
  "list_delete i xs = take i xs @ drop (i + 1) xs"

text \<open>Fold the thin sublist at \<open>pos\<close> into a neighbour, splitting the result when it is too long.\<close>

definition sk_fold :: "nat \<Rightarrow> 'k sorted_keys \<Rightarrow> 'k sorted_keys" where
  "sk_fold pos s =
     (let lists = sk_lists s;
          other = (if pos + 1 < length lists then pos + 1 else pos - 1);
          (lo, hi) = (if other > pos then (pos, other) else (other, pos));
          lists = lists[lo := lists ! lo @ lists ! hi];
          lists = list_delete hi lists;
          maxes = list_delete hi (sk_maxes s);
          maxes = maxes[lo := last (lists ! lo)]
      in sk_split lo (s\<lparr>sk_lists := lists, sk_maxes := maxes\<rparr>))"

definition sk_discard :: "'k::linorder \<Rightarrow> 'k sorted_keys \<Rightarrow> bool \<times> 'k sorted_keys" where
  "sk_discard key s =
     (let (pos, idx) = locate_left s key; lists = sk_lists s in
      if pos = length lists then (False, s)
      else
        let sub = lists ! pos in
        if idx = length sub \<or> sub ! idx \<noteq> key then (False, s)
        else
          let sub = list_delete idx sub;
              s = s\<lparr>sk_lists := lists[pos := sub], sk_len := sk_len s - 1\<rparr>
          in if sub = [] then
               (True, s\<lparr>sk_lists := list_delete pos (sk_lists s),
                        sk_maxes := list_delete pos (sk_maxes s)\<rparr>)
             else
               let s = s\<lparr>sk_maxes := (sk_maxes s)[pos := last sub]\<rparr> in
               if length sub < LOAD div 2 \<and> length lists > 1 then (True, sk_fold pos s)
               else (True, s))"

text \<open>The two walking loops of \<open>page\<close>; the reverse one counts the slot after \<open>pos\<close>.\<close>

function page_forward :: "'k list list \<Rightarrow> nat \<Rightarrow> nat \<Rightarrow> nat \<Rightarrow> 'k list \<Rightarrow> 'k list" where
  "page_forward ls n pos idx out =
     (if pos < length ls \<and> length out < n
      then page_forward ls n (pos + 1) 0 (out @ take (n - length out) (drop idx (ls ! pos)))
      else out)"
  by pat_completeness auto
termination
  by (relation "measure (\<lambda>(ls, n, pos, i, out). length ls - pos)") auto

declare page_forward.simps [simp del]

fun page_reverse :: "'k list list \<Rightarrow> nat \<Rightarrow> nat \<Rightarrow> nat \<Rightarrow> 'k list \<Rightarrow> 'k list" where
  "page_reverse ls n 0 idx out = out"
| "page_reverse ls n (Suc pos) idx out =
     (if length out < n then
        let sub = ls ! pos;
            count = n - length out;
            lo = idx - count;
            out = out @ rev (take (idx - lo) (drop lo sub));
            idx = (if pos > 0 then length (ls ! (pos - 1)) else idx)
        in page_reverse ls n pos idx out
      else out)"

fun pop_below :: "'k::linorder \<Rightarrow> 'k list \<Rightarrow> 'k list" where
  "pop_below stop out =
     (if out \<noteq> [] \<and> last out < stop then pop_below stop (butlast out) else out)"

declare pop_below.simps [simp del]

definition sk_page ::
  "'k::linorder sorted_keys \<Rightarrow> 'k option \<Rightarrow> bool \<Rightarrow> bool \<Rightarrow> nat \<Rightarrow> 'k option \<Rightarrow> 'k list" where
  "sk_page s bound inclusive reverse n stop =
     (if n = 0 \<or> sk_lists s = [] then []
      else if \<not> reverse then
        let (pos, idx) =
              (case bound of
                 None \<Rightarrow> (0, 0)
               | Some b \<Rightarrow> if inclusive then locate_left s b else locate_right s b);
            out = page_forward (sk_lists s) n pos idx []
        in case stop of
             None \<Rightarrow> out
           | Some st \<Rightarrow> if out \<noteq> [] \<and> last out \<ge> st then take (bisect_left out st) out else out
      else
        let lists = sk_lists s;
            (pos, idx) =
              (case bound of
                 None \<Rightarrow> (length lists - 1, length (lists ! (length lists - 1)))
               | Some b \<Rightarrow> if inclusive then locate_right s b else locate_left s b);
            (pos, idx) =
              (if pos = length lists then (pos - 1, length (lists ! (pos - 1))) else (pos, idx));
            out = page_reverse lists n (pos + 1) idx []
        in case stop of None \<Rightarrow> out | Some st \<Rightarrow> pop_below st out)"

section \<open>Down-closed predicates on sorted lists\<close>

definition down_closed :: "('a::linorder \<Rightarrow> bool) \<Rightarrow> bool" where
  "down_closed P \<longleftrightarrow> (\<forall>x y. x \<le> y \<longrightarrow> P y \<longrightarrow> P x)"

lemma down_closed_less [simp]: "down_closed (\<lambda>x. x < k)"
  by (auto simp: down_closed_def)

lemma down_closed_le [simp]: "down_closed (\<lambda>x. x \<le> k)"
  by (auto simp: down_closed_def)

lemma sorted_filter_down:
  assumes "sorted xs" and "down_closed P"
  shows "filter P xs = take (length (filter P xs)) xs"
    and "filter (\<lambda>x. \<not> P x) xs = drop (length (filter P xs)) xs"
proof -
  have "filter P xs = take (length (filter P xs)) xs \<and>
      filter (\<lambda>x. \<not> P x) xs = drop (length (filter P xs)) xs"
    using assms
  proof (induction xs)
    case Nil
    then show ?case by simp
  next
    case (Cons x xs)
    show ?case
    proof (cases "P x")
      case True
      with Cons show ?thesis by simp
    next
      case False
      with Cons.prems have n: "\<forall>y\<in>set xs. \<not> P y" by (auto simp: down_closed_def)
      then have "filter P xs = []" "filter (\<lambda>x. \<not> P x) xs = xs" by (simp_all add: filter_empty_conv filter_id_conv)
      with False show ?thesis by simp
    qed
  qed
  then show "filter P xs = take (length (filter P xs)) xs"
    and "filter (\<lambda>x. \<not> P x) xs = drop (length (filter P xs)) xs" by simp_all
qed

lemma sorted_down_nth:
  assumes "sorted xs" and "down_closed P" and "i < length xs"
  shows "P (xs ! i) \<longleftrightarrow> i < length (filter P xs)"
proof
  assume "i < length (filter P xs)"
  then have "xs ! i = filter P xs ! i"
    using sorted_filter_down(1) [OF assms(1,2)] by (metis nth_take)
  moreover from \<open>i < length (filter P xs)\<close> have "filter P xs ! i \<in> set (filter P xs)" by (rule nth_mem)
  ultimately show "P (xs ! i)" by simp
next
  assume p: "P (xs ! i)"
  show "i < length (filter P xs)"
  proof (rule ccontr)
    assume n: "\<not> i < length (filter P xs)"
    then have "xs ! i = filter (\<lambda>x. \<not> P x) xs ! (i - length (filter P xs))"
      using sorted_filter_down(2) [OF assms(1,2)] assms(3) by simp
    moreover have "i - length (filter P xs) < length (filter (\<lambda>x. \<not> P x) xs)"
      using n assms(3) sum_length_filter_compl [of P xs] by simp
    then have "filter (\<lambda>x. \<not> P x) xs ! (i - length (filter P xs)) \<in> set (filter (\<lambda>x. \<not> P x) xs)"
      by (rule nth_mem)
    ultimately have "\<not> P (xs ! i)" by simp
    with p show False by simp
  qed
qed

text \<open>A predicate that only fails from some point on commutes with \<open>take\<close>.\<close>

lemma filter_take_wrt:
  assumes "sorted_wrt R xs" and "\<And>x y. R x y \<Longrightarrow> P y \<Longrightarrow> P x"
  shows "filter P (take n xs) = take n (filter P xs)"
  using assms(1)
proof (induction xs arbitrary: n)
  case Nil
  then show ?case by simp
next
  case (Cons x xs)
  show ?case
  proof (cases "P x")
    case True
    with Cons show ?thesis by (cases n) simp_all
  next
    case False
    with Cons.prems assms(2) have "\<forall>y\<in>set (x # xs). \<not> P y" by auto
    moreover have "set (take n (x # xs)) \<subseteq> set (x # xs)" by (rule set_take_subset)
    ultimately have "filter P (x # xs) = []" "filter P (take n (x # xs)) = []"
      unfolding filter_empty_conv by blast+
    then show ?thesis by simp
  qed
qed

lemma bisect_left_loop_eq:
  assumes "sorted a" and "lo \<le> length (filter (\<lambda>y. y < x) a)"
    and "length (filter (\<lambda>y. y < x) a) \<le> hi" and "hi \<le> length a"
  shows "bisect_left_loop a x lo hi = length (filter (\<lambda>y. y < x) a)"
  using assms
proof (induction a x lo hi rule: bisect_left_loop.induct)
  case (1 a x lo hi)
  show ?case
  proof (cases "lo < hi")
    case True
    let ?mid = "(lo + hi) div 2"
    have "?mid < length a" using True "1.prems" by simp
    then have "a ! ?mid < x \<longleftrightarrow> ?mid < length (filter (\<lambda>y. y < x) a)"
      using sorted_down_nth [OF "1.prems"(1) down_closed_less] by blast
    with True "1.IH" [OF True refl] "1.prems" show ?thesis
      by (simp add: bisect_left_loop.simps [of a x lo hi] Let_def)
  next
    case False
    with "1.prems" show ?thesis by (simp add: bisect_left_loop.simps [of a x lo hi])
  qed
qed

lemma bisect_left_eq: "sorted a \<Longrightarrow> bisect_left a x = length (filter (\<lambda>y. y < x) a)"
  by (simp add: bisect_left_def bisect_left_loop_eq)

lemma bisect_right_loop_eq:
  assumes "sorted a" and "lo \<le> length (filter (\<lambda>y. y \<le> x) a)"
    and "length (filter (\<lambda>y. y \<le> x) a) \<le> hi" and "hi \<le> length a"
  shows "bisect_right_loop a x lo hi = length (filter (\<lambda>y. y \<le> x) a)"
  using assms
proof (induction a x lo hi rule: bisect_right_loop.induct)
  case (1 a x lo hi)
  show ?case
  proof (cases "lo < hi")
    case True
    let ?mid = "(lo + hi) div 2"
    have "?mid < length a" using True "1.prems" by simp
    then have "a ! ?mid \<le> x \<longleftrightarrow> ?mid < length (filter (\<lambda>y. y \<le> x) a)"
      using sorted_down_nth [OF "1.prems"(1) down_closed_le] by blast
    then have "x < a ! ?mid \<longleftrightarrow> \<not> ?mid < length (filter (\<lambda>y. y \<le> x) a)"
      by (simp add: not_le [symmetric])
    with True "1.IH" [OF True refl] "1.prems" show ?thesis
      by (simp add: bisect_right_loop.simps [of a x lo hi] Let_def)
  next
    case False
    with "1.prems" show ?thesis by (simp add: bisect_right_loop.simps [of a x lo hi])
  qed
qed

lemma bisect_right_eq: "sorted a \<Longrightarrow> bisect_right a x = length (filter (\<lambda>y. y \<le> x) a)"
  by (simp add: bisect_right_def bisect_right_loop_eq)

section \<open>Invariant\<close>

definition sk_inv :: "'k::linorder sorted_keys \<Rightarrow> bool" where
  "sk_inv s \<longleftrightarrow>
     sorted_wrt (<) (concat (sk_lists s)) \<and> [] \<notin> set (sk_lists s) \<and>
     sk_maxes s = map last (sk_lists s) \<and> sk_len s = length (concat (sk_lists s)) \<and>
     (\<forall>sub \<in> set (sk_lists s). length sub \<le> 2 * LOAD)"

lemma sorted_le_last: "sorted xs \<Longrightarrow> x \<in> set xs \<Longrightarrow> x \<le> last xs"
  by (induction xs) auto

lemma sorted_concat_sub: "sorted_wrt R (concat ls) \<Longrightarrow> sub \<in> set ls \<Longrightarrow> sorted_wrt R sub"
  by (induction ls) (auto simp: sorted_wrt_append)

lemma concat_maxes_sorted:
  "sorted_wrt (<) (concat ls) \<Longrightarrow> [] \<notin> set ls \<Longrightarrow> sorted_wrt (<) (map last ls)"
proof (induction ls)
  case Nil
  then show ?case by simp
next
  case (Cons a ls)
  have "\<forall>b\<in>set ls. last a < last b"
  proof
    fix b assume "b \<in> set ls"
    with Cons.prems have "last a \<in> set a" "last b \<in> set (concat ls)" by (auto intro: last_in_set)
    with Cons.prems show "last a < last b" by (auto simp: sorted_wrt_append)
  qed
  with Cons show ?case by (auto simp: sorted_wrt_append)
qed

lemma sorted_less_imp_sorted: "sorted_wrt (<) xs \<Longrightarrow> sorted (xs :: 'a::linorder list)"
  by (rule strict_sorted_imp_sorted)

text \<open>
  Locating with a down-closed predicate: the sublists before the first maximum that
  fails it satisfy it throughout, and the ones after fail it throughout.
\<close>

lemma locate_split:
  fixes ls :: "'a::linorder list list"
  assumes "sorted_wrt (<) (concat ls)" and "[] \<notin> set ls" and "down_closed P"
    and "pos = length (filter P (map last ls))"
  shows "pos \<le> length ls"
    and "\<forall>x \<in> set (concat (take pos ls)). P x"
    and "\<forall>x \<in> set (concat (drop (pos + 1) ls)). \<not> P x"
    and "pos < length ls \<Longrightarrow> \<not> P (last (ls ! pos))"
proof -
  have "pos \<le> length ls \<and> (\<forall>x \<in> set (concat (take pos ls)). P x) \<and>
    (\<forall>x \<in> set (concat (drop (pos + 1) ls)). \<not> P x) \<and> (pos < length ls \<longrightarrow> \<not> P (last (ls ! pos)))"
    using assms
  proof (induction ls arbitrary: pos)
    case Nil
    then show ?case by simp
  next
    case (Cons a ls)
    have a: "a \<noteq> []" and sa: "sorted a" and lt: "\<forall>x\<in>set a. \<forall>y\<in>set (concat ls). x < y"
      and sc: "sorted_wrt (<) (concat ls)"
      using Cons.prems(1,2) by (auto simp: sorted_wrt_append intro: sorted_less_imp_sorted)
    show ?case
    proof (cases "P (last a)")
      case True
      have "\<forall>x\<in>set a. x \<le> last a"
        using sa by (blast intro: sorted_le_last)
      with True Cons.prems(3) have A: "\<forall>x\<in>set a. P x" unfolding down_closed_def by blast
      obtain p where p: "pos = Suc p" "p = length (filter P (map last ls))"
        using True Cons.prems(4) by simp
      have "[] \<notin> set ls" using Cons.prems(2) by simp
      from Cons.IH [OF sc this Cons.prems(3) p(2)] A show ?thesis
        unfolding p(1) by (simp add: ball_Un del: set_concat)
    next
      case False
      have "\<forall>y\<in>set (concat ls). \<not> P y"
      proof
        fix y
        assume "y \<in> set (concat ls)"
        then have "last a \<le> y" using lt last_in_set [OF a] by (blast intro: less_imp_le)
        with False Cons.prems(3) show "\<not> P y" unfolding down_closed_def by blast
      qed
      moreover from this have "\<forall>m\<in>set (map last ls). \<not> P m"
        using Cons.prems(2) by (auto intro: last_in_set)
      then have "filter P (map last ls) = []" by (auto simp: filter_empty_conv)
      ultimately show ?thesis using False Cons.prems(4) by simp
    qed
  qed
  then show "pos \<le> length ls" and "\<forall>x \<in> set (concat (take pos ls)). P x"
    and "\<forall>x \<in> set (concat (drop (pos + 1) ls)). \<not> P x"
    and "pos < length ls \<Longrightarrow> \<not> P (last (ls ! pos))" by auto
qed

lemma split_at: "pos < length ls \<Longrightarrow> ls = take pos ls @ ls ! pos # drop (pos + 1) ls"
  by (simp add: id_take_nth_drop)

lemma concat_split_at:
  "pos < length ls \<Longrightarrow> concat ls = concat (take pos ls) @ ls ! pos @ concat (drop (pos + 1) ls)"
  by (metis concat.simps(2) concat_append split_at)

definition locate :: "('a::linorder \<Rightarrow> bool) \<Rightarrow> 'a list list \<Rightarrow> nat \<times> nat" where
  "locate P ls = (let pos = length (filter P (map last ls)) in
     if pos = length ls then (pos, 0) else (pos, length (filter P (ls ! pos))))"

lemma locate_left_eq: "sk_inv s \<Longrightarrow> locate_left s k = locate (\<lambda>x. x < k) (sk_lists s)"
proof -
  assume i: "sk_inv s"
  then have m: "sorted (sk_maxes s)" "length (sk_maxes s) = length (sk_lists s)"
    "sk_maxes s = map last (sk_lists s)"
    by (auto simp: sk_inv_def intro!: sorted_less_imp_sorted concat_maxes_sorted)
  define p where "p = length (filter (\<lambda>x. x < k) (sk_maxes s))"
  have bl: "bisect_left (sk_maxes s) k = p" by (simp add: p_def bisect_left_eq m(1))
  have lp: "length (filter (\<lambda>x. x < k) (map last (sk_lists s))) = p" using m(3) by (simp add: p_def)
  have pl: "p \<le> length (sk_lists s)" using m(2) length_filter_le [of _ "sk_maxes s"] by (simp add: p_def)
  have "bisect_left (sk_lists s ! p) k = length (filter (\<lambda>x. x < k) (sk_lists s ! p))" if "p \<noteq> length (sk_lists s)"
  proof (rule bisect_left_eq)
    from that pl have "p < length (sk_lists s)" by simp
    with i show "sorted (sk_lists s ! p)"
      by (auto simp: sk_inv_def intro!: sorted_less_imp_sorted elim!: sorted_concat_sub)
  qed
  then show ?thesis unfolding locate_left_def locate_def Let_def bl lp m(2) by simp
qed

lemma locate_right_eq: "sk_inv s \<Longrightarrow> locate_right s k = locate (\<lambda>x. x \<le> k) (sk_lists s)"
proof -
  assume i: "sk_inv s"
  then have m: "sorted (sk_maxes s)" "length (sk_maxes s) = length (sk_lists s)"
    "sk_maxes s = map last (sk_lists s)"
    by (auto simp: sk_inv_def intro!: sorted_less_imp_sorted concat_maxes_sorted)
  define p where "p = length (filter (\<lambda>x. x \<le> k) (sk_maxes s))"
  have bl: "bisect_right (sk_maxes s) k = p" by (simp add: p_def bisect_right_eq m(1))
  have lp: "length (filter (\<lambda>x. x \<le> k) (map last (sk_lists s))) = p" using m(3) by (simp add: p_def)
  have pl: "p \<le> length (sk_lists s)" using m(2) length_filter_le [of _ "sk_maxes s"] by (simp add: p_def)
  have "bisect_right (sk_lists s ! p) k = length (filter (\<lambda>x. x \<le> k) (sk_lists s ! p))" if "p \<noteq> length (sk_lists s)"
  proof (rule bisect_right_eq)
    from that pl have "p < length (sk_lists s)" by simp
    with i show "sorted (sk_lists s ! p)"
      by (auto simp: sk_inv_def intro!: sorted_less_imp_sorted elim!: sorted_concat_sub)
  qed
  then show ?thesis unfolding locate_right_def locate_def Let_def bl lp m(2) by simp
qed

lemma locate_filter:
  assumes "sorted_wrt (<) (concat ls)" and "[] \<notin> set ls" and "down_closed P"
    and "locate P ls = (pos, idx)"
  shows "pos \<le> length ls"
    and "pos < length ls \<Longrightarrow> idx < length (ls ! pos)"
    and "filter P (concat ls) = concat (take pos ls) @ (if pos < length ls then take idx (ls ! pos) else [])"
    and "filter (\<lambda>x. \<not> P x) (concat ls) =
      (if pos < length ls then drop idx (ls ! pos) @ concat (drop (pos + 1) ls) else [])"
proof -
  have pos: "pos = length (filter P (map last ls))"
    using assms(4) by (auto simp: locate_def Let_def split: if_splits)
  note sp = locate_split [OF assms(1-3) pos]
  show le: "pos \<le> length ls" by (rule sp(1))
  have t: "filter P (concat (take pos ls)) = concat (take pos ls)"
    "filter (\<lambda>x. \<not> P x) (concat (take pos ls)) = []"
    using sp(2) by (auto simp: filter_id_conv filter_empty_conv simp del: set_concat)
  show "filter P (concat ls) = concat (take pos ls) @ (if pos < length ls then take idx (ls ! pos) else [])"
    and "filter (\<lambda>x. \<not> P x) (concat ls) =
      (if pos < length ls then drop idx (ls ! pos) @ concat (drop (pos + 1) ls) else [])"
    and "pos < length ls \<Longrightarrow> idx < length (ls ! pos)"
  proof -
    have *: "filter P (concat ls) = concat (take pos ls) @ take idx (ls ! pos) \<and>
      filter (\<lambda>x. \<not> P x) (concat ls) = drop idx (ls ! pos) @ concat (drop (pos + 1) ls) \<and>
      idx < length (ls ! pos)" if lt: "pos < length ls"
    proof -
      have idx: "idx = length (filter P (ls ! pos))"
        using assms(4) lt pos by (auto simp: locate_def Let_def split: if_splits)
      have s: "sorted (ls ! pos)"
        using lt assms(1) by (auto intro!: sorted_less_imp_sorted elim!: sorted_concat_sub)
      have d: "filter P (concat (drop (pos + 1) ls)) = []"
        "filter (\<lambda>x. \<not> P x) (concat (drop (pos + 1) ls)) = concat (drop (pos + 1) ls)"
        using sp(3) by (auto simp: filter_id_conv filter_empty_conv simp del: set_concat)
      have "last (ls ! pos) \<in> set (ls ! pos)"
        using lt assms(2) by (metis last_in_set nth_mem)
      with sp(4) [OF lt] have "idx < length (ls ! pos)"
        unfolding idx by (intro length_filter_less)
      moreover have "filter P (concat ls) = concat (take pos ls) @ take idx (ls ! pos)"
        using concat_split_at [OF lt] t d sorted_filter_down(1) [OF s assms(3)] idx
        by (metis append_Nil2 filter_append)
      moreover have "filter (\<lambda>x. \<not> P x) (concat ls) = drop idx (ls ! pos) @ concat (drop (pos + 1) ls)"
        using concat_split_at [OF lt] t d sorted_filter_down(2) [OF s assms(3)] idx
        by (metis append_Nil filter_append)
      ultimately show ?thesis by simp
    qed
    show "filter P (concat ls) = concat (take pos ls) @ (if pos < length ls then take idx (ls ! pos) else [])"
      using * t le by (cases "pos < length ls") auto
    show "filter (\<lambda>x. \<not> P x) (concat ls) =
      (if pos < length ls then drop idx (ls ! pos) @ concat (drop (pos + 1) ls) else [])"
      using * t le by (cases "pos < length ls") auto
    show "pos < length ls \<Longrightarrow> idx < length (ls ! pos)" using * by blast
  qed
qed

section \<open>Pages\<close>

lemma page_forward_eq:
  "page_forward ls n pos idx out = out @ take (n - length out)
     (if pos < length ls then drop idx (ls ! pos) @ concat (drop (pos + 1) ls) else [])"
proof (induction ls n pos idx out rule: page_forward.induct)
  case (1 ls n pos idx out)
  show ?case
  proof (cases "pos < length ls \<and> length out < n")
    case True
    let ?o = "out @ take (n - length out) (drop idx (ls ! pos))"
    have "(if pos + 1 < length ls then drop 0 (ls ! (pos + 1)) @ concat (drop (pos + 1 + 1) ls) else []) =
        concat (drop (pos + 1) ls)"
      by (simp add: Cons_nth_drop_Suc [symmetric])
    moreover have "n - length ?o = n - length out - length (drop idx (ls ! pos))" by auto
    ultimately show ?thesis using "1.IH" [OF True] True
      by (simp add: page_forward.simps [of ls n pos idx out] del: length_append length_take)
  next
    case False
    then show ?thesis by (auto simp: page_forward.simps [of ls n pos idx out])
  qed
qed

lemma rev_slice: "idx \<le> length sub \<Longrightarrow>
    rev (take (idx - (idx - c)) (drop (idx - c) sub)) = take c (rev (take idx sub))"
  by (simp add: take_rev drop_take)

lemma page_reverse_eq:
  "p \<le> length ls \<Longrightarrow> (\<And>q. p = Suc q \<Longrightarrow> idx \<le> length (ls ! q)) \<Longrightarrow>
   page_reverse ls n p idx out = out @ take (n - length out)
     (case p of 0 \<Rightarrow> [] | Suc q \<Rightarrow> rev (concat (take q ls) @ take idx (ls ! q)))"
proof (induction ls n p idx out rule: page_reverse.induct)
  case (1 ls n idx out)
  then show ?case by simp
next
  case (2 ls n pos idx out)
  show ?case
  proof (cases "length out < n")
    case True
    let ?idx = "if pos > 0 then length (ls ! (pos - 1)) else idx"
    let ?c = "n - length out"
    let ?o = "out @ take ?c (rev (take idx (ls ! pos)))"
    have sl: "rev (take (idx - (idx - ?c)) (drop (idx - ?c) (ls ! pos))) = take ?c (rev (take idx (ls ! pos)))"
      using "2.prems" by (intro rev_slice) simp
    have rest: "(case pos of 0 \<Rightarrow> [] | Suc q \<Rightarrow> rev (concat (take q ls) @ take ?idx (ls ! q))) =
        rev (concat (take pos ls))"
    proof (cases pos)
      case 0
      then show ?thesis by simp
    next
      case (Suc q)
      with "2.prems"(1) have "concat (take pos ls) = concat (take q ls) @ ls ! q"
        by (simp add: take_Suc_conv_app_nth)
      with Suc show ?thesis by simp
    qed
    have "page_reverse ls n (Suc pos) idx out = page_reverse ls n pos ?idx ?o"
      using True sl by (simp add: Let_def)
    also have "\<dots> = ?o @ take (n - length ?o) (rev (concat (take pos ls)))"
      using "2.IH" [OF True refl refl refl _ refl, of ?o] "2.prems"(1) sl rest by simp
    also have "\<dots> = out @ take ?c (rev (take idx (ls ! pos)) @ rev (concat (take pos ls)))"
    proof -
      have "n - length ?o = ?c - length (rev (take idx (ls ! pos)))" by auto
      then show ?thesis by (simp only: take_append append_assoc)
    qed
    finally show ?thesis by simp
  next
    case False
    then show ?thesis by simp
  qed
qed

lemma pop_below_eq: "sorted_wrt (>) out \<Longrightarrow> pop_below st out = filter (\<lambda>k. st \<le> k) out"
proof (induction st out rule: pop_below.induct)
  case (1 st out)
  show ?case
  proof (cases out rule: rev_cases)
    case Nil
    then show ?thesis by (simp add: pop_below.simps)
  next
    case (snoc ys y)
    show ?thesis
    proof (cases "y < st")
      case True
      with 1 snoc show ?thesis
        by (simp add: pop_below.simps [of st "ys @ [y]"] sorted_wrt_append)
    next
      case False
      then have "\<forall>x \<in> set out. st \<le> x"
        using snoc "1.prems" by (auto simp: sorted_wrt_append)
      then have "filter (\<lambda>k. st \<le> k) out = out" by (simp add: filter_id_conv)
      with False snoc show ?thesis by (simp add: pop_below.simps [of st "ys @ [y]"])
    qed
  qed
qed

text \<open>The specification of a page: the first keys of a range, in scan order.\<close>

definition in_bounds :: "'k::linorder option \<Rightarrow> bool \<Rightarrow> bool \<Rightarrow> 'k option \<Rightarrow> 'k \<Rightarrow> bool" where
  "in_bounds bound inclusive reverse stop k \<longleftrightarrow>
     (case bound of None \<Rightarrow> True
      | Some b \<Rightarrow> if reverse then (if inclusive then k \<le> b else k < b)
                  else (if inclusive then b \<le> k else b < k)) \<and>
     (case stop of None \<Rightarrow> True | Some st \<Rightarrow> if reverse then st \<le> k else k < st)"

definition scan_order :: "bool \<Rightarrow> 'a list \<Rightarrow> 'a list" where
  "scan_order reverse xs = (if reverse then rev xs else xs)"

lemma sk_inv_sorted: "sk_inv s \<Longrightarrow> sorted_wrt (<) (sk_iter s)"
  by (simp add: sk_inv_def sk_iter_def)

lemma cut_stop:
  assumes "sorted_wrt (<) (out :: 'a::linorder list)"
  shows "(if out \<noteq> [] \<and> last out \<ge> st then take (bisect_left out st) out else out) =
    filter (\<lambda>k. k < st) out"
proof (cases "out \<noteq> [] \<and> last out \<ge> st")
  case True
  have s: "sorted out" using assms by (rule sorted_less_imp_sorted)
  from True sorted_filter_down(1) [OF s down_closed_less, of st] show ?thesis
    by (simp add: bisect_left_eq [OF s])
next
  case False
  then have "\<forall>k\<in>set out. k < st"
    using sorted_le_last [OF sorted_less_imp_sorted [OF assms]]
    by (metis empty_iff le_less_trans list.set(1) not_le)
  with False show ?thesis by (auto simp: filter_id_conv)
qed

lemma forward_out:
  assumes i: "sk_inv s" and ne: "sk_lists s \<noteq> []"
    and l: "(pos, idx) = (case bound of None \<Rightarrow> (0, 0)
      | Some b \<Rightarrow> if inclusive then locate_left s b else locate_right s b)"
  shows "page_forward (sk_lists s) n pos idx [] =
    take n (filter (in_bounds bound inclusive False None) (sk_iter s))"
proof (cases bound)
  case None
  have "(if 0 < length (sk_lists s) then drop 0 (sk_lists s ! 0) @ concat (drop (0 + 1) (sk_lists s)) else [])
     = concat (sk_lists s)"
    using ne by (cases "sk_lists s") simp_all
  with None l show ?thesis
    by (simp add: page_forward_eq in_bounds_def sk_iter_def)
next
  case (Some b)
  define P where "P = (if inclusive then (\<lambda>x. x < b) else (\<lambda>x. x \<le> b))"
  have "locate P (sk_lists s) = (pos, idx)"
    using Some l i by (auto simp: P_def locate_left_eq locate_right_eq)
  moreover have "down_closed P" by (simp add: P_def)
  ultimately have "filter (\<lambda>x. \<not> P x) (concat (sk_lists s)) = (if pos < length (sk_lists s)
      then drop idx (sk_lists s ! pos) @ concat (drop (pos + 1) (sk_lists s)) else [])"
    using i by (intro locate_filter) (auto simp: sk_inv_def)
  moreover have "in_bounds bound inclusive False None = (\<lambda>x. \<not> P x)"
    using Some by (auto simp: in_bounds_def P_def fun_eq_iff)
  ultimately show ?thesis by (simp add: page_forward_eq sk_iter_def)
qed

lemma reverse_out:
  assumes i: "sk_inv s" and ne: "sk_lists s \<noteq> []"
    and l: "(pos0, idx0) = (case bound of
        None \<Rightarrow> (length (sk_lists s) - 1, length (sk_lists s ! (length (sk_lists s) - 1)))
      | Some b \<Rightarrow> if inclusive then locate_right s b else locate_left s b)"
    and l': "(pos, idx) = (if pos0 = length (sk_lists s)
      then (pos0 - 1, length (sk_lists s ! (pos0 - 1))) else (pos0, idx0))"
  shows "page_reverse (sk_lists s) n (pos + 1) idx [] =
    take n (rev (filter (in_bounds bound inclusive True None) (sk_iter s)))"
proof -
  let ?ls = "sk_lists s"
  have whole: "concat ?ls = concat (take (length ?ls - 1) ?ls) @ ?ls ! (length ?ls - 1)"
    using ne concat_split_at [of "length ?ls - 1" ?ls] by simp
  have "pos < length ?ls \<and> idx \<le> length (?ls ! pos) \<and>
    filter (in_bounds bound inclusive True None) (concat ?ls) = concat (take pos ?ls) @ take idx (?ls ! pos)"
  proof (cases bound)
    case None
    with l have "pos0 = length ?ls - 1" "idx0 = length (?ls ! pos0)" by simp_all
    moreover have "0 < length ?ls" using ne by simp
    moreover from calculation have "pos0 \<noteq> length ?ls" by linarith
    ultimately have "pos = length ?ls - 1" "idx = length (?ls ! pos)" using l' by simp_all
    moreover have "in_bounds bound inclusive True None = (\<lambda>_. True)"
      using None by (auto simp: in_bounds_def fun_eq_iff)
    ultimately show ?thesis using ne whole by simp
  next
    case (Some b)
    define P where "P = (if inclusive then (\<lambda>x. x \<le> b) else (\<lambda>x. x < b))"
    have loc: "locate P ?ls = (pos0, idx0)"
      using Some l i by (auto simp: P_def locate_left_eq locate_right_eq)
    have "down_closed P" by (simp add: P_def)
    with i loc have f: "pos0 \<le> length ?ls" "pos0 < length ?ls \<Longrightarrow> idx0 < length (?ls ! pos0)"
      "filter P (concat ?ls) = concat (take pos0 ?ls) @ (if pos0 < length ?ls then take idx0 (?ls ! pos0) else [])"
      using locate_filter(1-3) [of ?ls P pos0 idx0] by (auto simp: sk_inv_def)
    have e: "in_bounds bound inclusive True None = P"
      using Some by (auto simp: in_bounds_def P_def fun_eq_iff)
    show ?thesis
    proof (cases "pos0 = length ?ls")
      case True
      with l' have "pos = length ?ls - 1" "idx = length (?ls ! pos)" by simp_all
      with True f(3) whole ne e show ?thesis by simp
    next
      case False
      with f(1) have "pos0 < length ?ls" by simp
      moreover from False l' have "pos = pos0" "idx = idx0" by simp_all
      ultimately show ?thesis using f e by simp
    qed
  qed
  then show ?thesis
    using page_reverse_eq [of "pos + 1" ?ls idx n "[]"] by (simp add: sk_iter_def)
qed

lemma in_bounds_stop:
  "filter (in_bounds b i r stop) xs = filter (\<lambda>k. case stop of None \<Rightarrow> True
      | Some st \<Rightarrow> if r then st \<le> k else k < st) (filter (in_bounds b i r None) xs)"
  unfolding filter_filter by (rule filter_cong [OF refl]) (auto simp: in_bounds_def split: option.splits)

lemma sk_page_eq:
  assumes i: "sk_inv s"
  shows "sk_page s bound inclusive reverse n stop =
    take n (filter (in_bounds bound inclusive reverse stop) (scan_order reverse (sk_iter s)))"
proof (cases "n = 0 \<or> sk_lists s = []")
  case True
  then show ?thesis by (auto simp: sk_page_def sk_iter_def scan_order_def)
next
  case ne: False
  have so: "sorted_wrt (<) (sk_iter s)" using i by (rule sk_inv_sorted)
  show ?thesis
  proof (cases reverse)
    case False
    obtain pos idx where l: "(pos, idx) = (case bound of None \<Rightarrow> (0, 0)
      | Some b \<Rightarrow> if inclusive then locate_left s b else locate_right s b)"
      by (metis surj_pair)
    let ?out = "take n (filter (in_bounds bound inclusive False None) (sk_iter s))"
    have p: "sk_page s bound inclusive reverse n stop = (case stop of None \<Rightarrow> ?out
        | Some st \<Rightarrow> if ?out \<noteq> [] \<and> last ?out \<ge> st then take (bisect_left ?out st) ?out else ?out)"
    proof -
      have fo: "page_forward (sk_lists s) n pos idx [] = ?out" using forward_out [OF i _ l] ne by simp
      have "sk_page s bound inclusive reverse n stop =
        (case (pos, idx) of (pos, idx) \<Rightarrow> let out = page_forward (sk_lists s) n pos idx [] in
          case stop of None \<Rightarrow> out
          | Some st \<Rightarrow> if out \<noteq> [] \<and> last out \<ge> st then take (bisect_left out st) out else out)"
        using False ne unfolding l by (simp add: sk_page_def Let_def)
      then show ?thesis unfolding split_conv fo Let_def .
    qed
    have f: "sorted_wrt (<) (filter (in_bounds bound inclusive False None) (sk_iter s))"
      using so by (rule sorted_filter_less)
    then have so': "sorted_wrt (<) ?out" by (rule sorted_wrt_take)
    show ?thesis
    proof (cases stop)
      case None
      with p False show ?thesis by (simp add: scan_order_def)
    next
      case (Some st)
      with p have "sk_page s bound inclusive reverse n stop = filter (\<lambda>k. k < st) ?out"
        using cut_stop [OF so', of st] by simp
      also have "\<dots> = take n (filter (\<lambda>k. k < st) (filter (in_bounds bound inclusive False None) (sk_iter s)))"
        by (rule filter_take_wrt [OF f]) simp
      finally show ?thesis using False Some
        by (simp add: scan_order_def in_bounds_stop [of bound inclusive False "Some st"] del: filter_filter)
    qed
  next
    case True
    obtain pos0 idx0 where l: "(pos0, idx0) = (case bound of
        None \<Rightarrow> (length (sk_lists s) - 1, length (sk_lists s ! (length (sk_lists s) - 1)))
      | Some b \<Rightarrow> if inclusive then locate_right s b else locate_left s b)"
      by (metis surj_pair)
    obtain pos idx where l': "(pos, idx) = (if pos0 = length (sk_lists s)
      then (pos0 - 1, length (sk_lists s ! (pos0 - 1))) else (pos0, idx0))"
      by (metis surj_pair)
    let ?xs = "rev (filter (in_bounds bound inclusive True None) (sk_iter s))"
    let ?out = "take n ?xs"
    have p: "sk_page s bound inclusive reverse n stop = (case stop of None \<Rightarrow> ?out
        | Some st \<Rightarrow> pop_below st ?out)"
    proof -
      have ro: "page_reverse (sk_lists s) n (pos + 1) idx [] = ?out"
        by (rule reverse_out [OF i _ l l']) (use ne in simp)
      have "sk_page s bound inclusive reverse n stop =
        (case (pos0, idx0) of (pos, idx) \<Rightarrow>
         case (if pos = length (sk_lists s) then (pos - 1, length (sk_lists s ! (pos - 1))) else (pos, idx)) of
           (pos, idx) \<Rightarrow> let out = page_reverse (sk_lists s) n (pos + 1) idx [] in
             case stop of None \<Rightarrow> out | Some st \<Rightarrow> pop_below st out)"
        using True ne unfolding l by (simp add: sk_page_def Let_def del: page_reverse.simps)
      then show ?thesis unfolding split_conv l' [symmetric] ro Let_def .
    qed
    have so': "sorted_wrt (>) ?xs"
      using so by (simp add: sorted_wrt_rev sorted_filter_less)
    show ?thesis
    proof (cases stop)
      case None
      with p True show ?thesis by (simp add: scan_order_def rev_filter)
    next
      case (Some st)
      with p have "sk_page s bound inclusive reverse n stop = filter (\<lambda>k. st \<le> k) ?out"
        using pop_below_eq [OF sorted_wrt_take [OF so'], of st n] by simp
      also have "\<dots> = take n (filter (\<lambda>k. st \<le> k) ?xs)"
        by (rule filter_take_wrt [OF so']) simp
      finally show ?thesis using True Some
        by (simp add: scan_order_def in_bounds_stop [of bound inclusive True "Some st"] rev_filter del: filter_filter)
    qed
  qed
qed

section \<open>Updates\<close>

lemma list_insert_mid [simp]: "list_insert (Suc (length A)) y (A @ x # B) = A @ x # y # B"
  by (simp add: list_insert_def)

lemma list_delete_mid [simp]: "list_delete (length A) (A @ x # B) = A @ B"
  by (simp add: list_delete_def)

lemma take_drop_mid [simp]: "take n xs @ drop n xs @ ys = xs @ ys"
  by (metis append_assoc append_take_drop_id)

lemma insort_right_eq:
  "sorted a \<Longrightarrow> insort_right a x = filter (\<lambda>y. y \<le> x) a @ x # filter (\<lambda>y. x < y) a"
  using sorted_filter_down [of a "\<lambda>y. y \<le> x"]
  by (simp add: insort_right_def list_insert_def bisect_right_eq not_le)

text \<open>The structural part of the invariant, without the bound on the sublists.\<close>

definition sk_wf :: "'k::linorder sorted_keys \<Rightarrow> bool" where
  "sk_wf s \<longleftrightarrow> sorted_wrt (<) (concat (sk_lists s)) \<and> [] \<notin> set (sk_lists s) \<and>
     sk_maxes s = map last (sk_lists s) \<and> sk_len s = length (concat (sk_lists s))"

lemma sk_inv_wf: "sk_inv s \<longleftrightarrow> sk_wf s \<and> (\<forall>sub \<in> set (sk_lists s). length sub \<le> 2 * LOAD)"
  by (auto simp: sk_inv_def sk_wf_def)

lemma sk_split_inv:
  assumes w: "sk_wf s" and ls: "sk_lists s = A @ sub # B"
    and b: "\<forall>x \<in> set (A @ B). length x \<le> 2 * LOAD" "length sub \<le> 4 * LOAD"
  shows "sk_inv (sk_split (length A) s)" and "sk_iter (sk_split (length A) s) = sk_iter s"
proof -
  let ?h = "length sub div 2"
  have ms: "sk_maxes s = map last A @ last sub # map last B" using w ls by (simp add: sk_wf_def)
  have "sk_inv (sk_split (length A) s) \<and> sk_iter (sk_split (length A) s) = sk_iter s"
  proof (cases "length sub > 2 * LOAD")
    case True
    have ne: "take ?h sub \<noteq> []" "drop ?h sub \<noteq> []" using True by (auto simp: LOAD_def)
    have e: "sk_split (length A) s = s\<lparr>sk_lists := A @ take ?h sub # drop ?h sub # B,
        sk_maxes := map last A @ last (take ?h sub) # last (drop ?h sub) # map last B\<rparr>"
      using True list_insert_mid [of "map last A"] list_update_length [of "map last A"]
      by (simp add: sk_split_def Let_def ls ms nth_append)
    have c: "concat (A @ take ?h sub # drop ?h sub # B) = concat (A @ sub # B)"
      by simp
    show ?thesis unfolding e using w b ne c
      by (auto simp: sk_inv_wf sk_wf_def sk_iter_def ls)
  next
    case False
    with w b show ?thesis by (auto simp: sk_split_def Let_def ls sk_inv_wf)
  qed
  then show "sk_inv (sk_split (length A) s)" and "sk_iter (sk_split (length A) s) = sk_iter s" by simp_all
qed

lemma sorted_insert_mid:
  "sorted_wrt (<) xs \<Longrightarrow> (k::'a::linorder) \<notin> set xs \<Longrightarrow>
   sorted_wrt (<) (filter (\<lambda>y. y \<le> k) xs @ k # filter (\<lambda>y. k < y) xs)"
  by (auto simp: sorted_wrt_append sorted_filter_less le_less)

lemma concat_mid_filter:
  assumes "\<forall>x \<in> set (concat A). P x" and "\<forall>x \<in> set (concat B). \<not> P x"
  shows "filter P (concat (A @ sub # B)) = concat A @ filter P sub"
    and "filter (\<lambda>x. \<not> P x) (concat (A @ sub # B)) = filter (\<lambda>x. \<not> P x) sub @ concat B"
  using assms by (simp_all add: filter_id_conv filter_empty_conv del: set_concat)

lemma sk_add_iter:
  assumes i: "sk_inv s" and k: "k \<notin> set (sk_iter s)"
  shows "sk_inv (sk_add k s)"
    and "sk_iter (sk_add k s) = filter (\<lambda>y. y \<le> k) (sk_iter s) @ k # filter (\<lambda>y. k < y) (sk_iter s)"
proof -
  let ?r = "filter (\<lambda>y. y \<le> k) (sk_iter s) @ k # filter (\<lambda>y. k < y) (sk_iter s)"
  have m: "sk_maxes s = map last (sk_lists s)" and so: "sorted_wrt (<) (concat (sk_lists s))"
    and ne: "[] \<notin> set (sk_lists s)" and ln: "sk_len s = length (sk_iter s)"
    using i by (auto simp: sk_inv_def sk_iter_def)
  have "sk_inv (sk_add k s) \<and> sk_iter (sk_add k s) = ?r"
  proof (cases "sk_lists s = []")
    case True
    with m ln show ?thesis by (simp add: sk_add_def Let_def sk_inv_def sk_iter_def LOAD_def)
  next
    case False
    define p where "p = bisect_left (sk_maxes s) k"
    define pos where "pos = (if p = length (sk_maxes s) then p - 1 else p)"
    have p: "p = length (filter (\<lambda>x. x < k) (map last (sk_lists s)))"
      unfolding p_def m by (rule bisect_left_eq, rule sorted_less_imp_sorted, rule concat_maxes_sorted [OF so ne])
    note sp = locate_split [OF so ne down_closed_less p]
    have pl: "pos < length (sk_lists s)" using False sp(1) by (auto simp: pos_def m)
    define A sub B where "A = take pos (sk_lists s)" and "sub = sk_lists s ! pos" and "B = drop (pos + 1) (sk_lists s)"
    have ls: "sk_lists s = A @ sub # B" unfolding A_def sub_def B_def by (rule split_at [OF pl])
    have lA: "length A = pos" using pl by (simp add: A_def)
    have sA: "\<forall>x\<in>set (concat A). x < k"
    proof -
      have "set (concat A) \<subseteq> set (concat (take p (sk_lists s)))"
      proof -
        have "pos \<le> p" by (simp add: pos_def)
        then have "set (take pos (sk_lists s)) \<subseteq> set (take p (sk_lists s))" by (rule set_take_subset_set_take)
        then show ?thesis by (auto simp: A_def)
      qed
      with sp(2) show ?thesis by blast
    qed
    have sB: "\<forall>x\<in>set (concat B). \<not> x \<le> k"
    proof (cases "p = length (sk_maxes s)")
      case True
      with False show ?thesis by (simp add: B_def pos_def m)
    next
      case False
      then have "\<forall>x\<in>set (concat B). \<not> x < k" using sp(3) by (simp add: B_def pos_def)
      moreover have "k \<notin> set (concat B)" using k ls by (auto simp: sk_iter_def)
      ultimately show ?thesis by (metis le_less)
    qed
    have ss: "sorted sub"
      using ls so by (auto simp: sorted_wrt_append intro: sorted_less_imp_sorted)
    have sub': "insort_right sub k = filter (\<lambda>y. y \<le> k) sub @ k # filter (\<lambda>y. k < y) sub" (is "?sub = _")
      using ss by (rule insort_right_eq)
    have ns: "?sub \<noteq> []" by (simp add: sub')
    have lsub: "length ?sub = Suc (length sub)"
      using sum_length_filter_compl [of "\<lambda>y. y \<le> k" sub] by (simp add: sub' not_le)
    let ?s = "s\<lparr>sk_lists := A @ ?sub # B, sk_maxes := map last A @ last ?sub # map last B, sk_len := sk_len s + 1\<rparr>"
    have le_A: "\<forall>x\<in>set (concat A). x \<le> k" using sA by (blast intro: less_imp_le)
    have it: "sk_iter ?s = ?r"
      using concat_mid_filter [OF le_A sB, of sub] ls by (simp add: sk_iter_def sub' not_le)
    have "maxes_eq": "(sk_maxes s)[pos := last ?sub] = map last A @ last ?sub # map last B"
      unfolding m ls map_append list.map lA [symmetric] length_map [of last A, symmetric]
      by (rule list_update_length)
    have lists_eq: "(sk_lists s)[pos := ?sub] = A @ ?sub # B"
      using pl by (simp add: A_def B_def upd_conv_take_nth_drop)
    have mne: "sk_maxes s \<noteq> []" using False m by simp
    have e: "sk_add k s = sk_split (length A) ?s"
      unfolding sk_add_def Let_def p_def [symmetric] pos_def [symmetric]
        sub_def [symmetric] lists_eq maxes_eq lA using mne by simp
    have "sk_wf ?s"
    proof -
      have "sorted_wrt (<) (concat (sk_lists ?s))"
        using it sorted_insert_mid [OF so k [unfolded sk_iter_def]] by (simp only: sk_iter_def)
      then show ?thesis using ne ns ln lsub by (auto simp: sk_wf_def sk_iter_def ls)
    qed
    moreover have "\<forall>x \<in> set (A @ B). length x \<le> 2 * LOAD" "length ?sub \<le> 4 * LOAD"
      using i lsub by (auto simp: sk_inv_def ls LOAD_def)
    ultimately show ?thesis using sk_split_inv [of ?s A ?sub B] it e by simp
  qed
  then show "sk_inv (sk_add k s)" and "sk_iter (sk_add k s) = ?r" by simp_all
qed

lemma filter_neq_mid:
  assumes "sorted_wrt (<) (xs @ (k::'a::linorder) # ys)"
  shows "filter (\<lambda>y. y \<noteq> k) (xs @ k # ys) = xs @ ys"
proof -
  have "k \<notin> set xs" "k \<notin> set ys" using assms by (auto simp: sorted_wrt_append)
  then show ?thesis by (auto intro!: filter_True arg_cong2 [where f = "(@)"])
qed

lemma sk_fold_inv:
  assumes w: "sk_wf s" and ls: "sk_lists s = A @ sub # B" and n: "A \<noteq> [] \<or> B \<noteq> []"
    and b: "\<forall>x \<in> set (sk_lists s). length x \<le> 2 * LOAD"
  shows "sk_inv (sk_fold (length A) s)" and "sk_iter (sk_fold (length A) s) = sk_iter s"
proof -
  have go: "sk_inv (sk_split (length C) t) \<and> sk_iter (sk_split (length C) t) = sk_iter s"
    if l: "sk_lists s = C @ x # y # D" and t: "t = s\<lparr>sk_lists := C @ (x @ y) # D,
      sk_maxes := map last C @ last (x @ y) # map last D\<rparr>" for C x y D t
  proof -
    have "sk_wf t" using w unfolding t by (auto simp: sk_wf_def l)
    moreover have "sk_lists t = C @ (x @ y) # D" by (simp add: t)
    moreover have "sk_iter t = sk_iter s" by (simp add: t sk_iter_def l)
    moreover have "\<forall>x \<in> set (C @ D). length x \<le> 2 * LOAD" "length (x @ y) \<le> 4 * LOAD"
      using b by (auto simp: l)
    ultimately show ?thesis using sk_split_inv [of t C "x @ y" D] by simp
  qed
  have m: "sk_maxes s = map last (sk_lists s)" using w by (simp add: sk_wf_def)
  have "sk_inv (sk_fold (length A) s) \<and> sk_iter (sk_fold (length A) s) = sk_iter s"
  proof (cases B)
    case (Cons y D)
    let ?t = "s\<lparr>sk_lists := A @ (sub @ y) # D, sk_maxes := map last A @ last (sub @ y) # map last D\<rparr>"
    have "sk_fold (length A) s = sk_split (length A) ?t"
      using list_delete_mid [of "A @ [sub @ y]" y D] list_delete_mid [of "map last A @ [last sub]" "last y" "map last D"]
        list_update_length [of "map last A" "last sub"]
      by (simp add: sk_fold_def Let_def ls m Cons nth_append)
    then show ?thesis using go [of A sub y D ?t] ls Cons by simp
  next
    case Nil
    then obtain C x where A: "A = C @ [x]" using n by (cases A rule: rev_cases) auto
    let ?t = "s\<lparr>sk_lists := C @ (x @ sub) # [], sk_maxes := map last C @ last (x @ sub) # map last []\<rparr>"
    have "sk_fold (length A) s = sk_split (length C) ?t"
      using list_delete_mid [of "C @ [x @ sub]" sub "[]"] list_delete_mid [of "map last C @ [last x]" "last sub" "[]"]
        list_update_length [of "map last C" "last x"]
      by (simp add: sk_fold_def Let_def ls m Nil A nth_append)
    then show ?thesis using go [of C x sub "[]" ?t] ls Nil A by simp
  qed
  then show "sk_inv (sk_fold (length A) s)" and "sk_iter (sk_fold (length A) s) = sk_iter s" by simp_all
qed

lemma sk_discard_cases:
  assumes i: "sk_inv s" and l: "locate_left s k = (pos, idx)"
  shows "k \<notin> set (sk_iter s) \<Longrightarrow> pos = length (sk_lists s) \<or>
      pos < length (sk_lists s) \<and> idx < length (sk_lists s ! pos) \<and> sk_lists s ! pos ! idx \<noteq> k"
    and "k \<in> set (sk_iter s) \<Longrightarrow>
      pos < length (sk_lists s) \<and> idx < length (sk_lists s ! pos) \<and> sk_lists s ! pos ! idx = k"
proof -
  let ?ls = "sk_lists s"
  have so: "sorted_wrt (<) (concat ?ls)" and ne: "[] \<notin> set ?ls" using i by (auto simp: sk_inv_def)
  have lc: "locate (\<lambda>x. x < k) ?ls = (pos, idx)" using l locate_left_eq [OF i] by simp
  note f = locate_filter [OF so ne down_closed_less lc]
  have ge: "pos < length ?ls \<Longrightarrow> filter (\<lambda>x. \<not> x < k) (concat ?ls) =
      ?ls ! pos ! idx # drop (idx + 1) (?ls ! pos) @ concat (drop (pos + 1) ?ls)"
    using f(2,4) by (simp add: Cons_nth_drop_Suc [symmetric])
  show "pos = length ?ls \<or> pos < length ?ls \<and> idx < length (?ls ! pos) \<and> ?ls ! pos ! idx \<noteq> k"
    if k: "k \<notin> set (sk_iter s)"
  proof (cases "pos = length ?ls")
    case False
    then have p: "pos < length ?ls" using f(1) by simp
    then have "?ls ! pos ! idx \<in> set (concat ?ls)"
      using f(2) by (metis UN_I nth_mem set_concat)
    with k p f(2) show ?thesis by (auto simp: sk_iter_def)
  qed simp
  show "pos < length ?ls \<and> idx < length (?ls ! pos) \<and> ?ls ! pos ! idx = k" if k: "k \<in> set (sk_iter s)"
  proof -
    have in_f: "k \<in> set (filter (\<lambda>x. \<not> x < k) (concat ?ls))" using k by (simp add: sk_iter_def)
    then have p: "pos < length ?ls" using f(4) by (metis empty_iff empty_set)
    have s: "sorted_wrt (<) (filter (\<lambda>x. \<not> x < k) (concat ?ls))" using so by (rule sorted_filter_less)
    have "?ls ! pos ! idx \<in> set (filter (\<lambda>x. \<not> x < k) (concat ?ls))" unfolding ge [OF p] by simp
    then have "\<not> ?ls ! pos ! idx < k" by simp
    moreover have "?ls ! pos ! idx = k \<or> ?ls ! pos ! idx < k"
      using s in_f unfolding ge [OF p] by auto
    ultimately show ?thesis using p f(2) by simp
  qed
qed

lemma sk_discard_absent:
  "sk_inv s \<Longrightarrow> k \<notin> set (sk_iter s) \<Longrightarrow> sk_discard k s = (False, s)"
  using sk_discard_cases(1) by (cases "locate_left s k") (force simp: sk_discard_def Let_def)

lemma sk_discard_present:
  assumes i: "sk_inv s" and k: "k \<in> set (sk_iter s)"
  shows "fst (sk_discard k s)" and "sk_inv (snd (sk_discard k s))"
    and "sk_iter (snd (sk_discard k s)) = filter (\<lambda>y. y \<noteq> k) (sk_iter s)"
proof -
  obtain pos idx where l: "locate_left s k = (pos, idx)" by fastforce
  from sk_discard_cases(2) [OF i l k] have p: "pos < length (sk_lists s)"
    and idx: "idx < length (sk_lists s ! pos)" and at: "sk_lists s ! pos ! idx = k" by auto
  define A sub B where "A = take pos (sk_lists s)" and "sub = sk_lists s ! pos" and "B = drop (pos + 1) (sk_lists s)"
  have ls: "sk_lists s = A @ sub # B" unfolding A_def sub_def B_def by (rule split_at [OF p])
  have lA: "length A = pos" using p by (simp add: A_def)
  let ?sub = "list_delete idx sub"
  have idx': "idx < length sub" using idx by (simp add: sub_def)
  have sub: "sub = take idx sub @ k # drop (idx + 1) sub"
    using idx at unfolding sub_def by (metis id_take_nth_drop Suc_eq_plus1)
  have "concat (sk_lists s) = (concat A @ take idx sub) @ k # (drop (idx + 1) sub @ concat B)"
    unfolding ls using sub by (metis (no_types, lifting) append_Cons append_assoc concat.simps(2) concat_append)
  moreover have w: "sk_wf s" using i by (simp add: sk_inv_wf)
  ultimately have del: "filter (\<lambda>y. y \<noteq> k) (sk_iter s) = concat A @ ?sub @ concat B"
    using filter_neq_mid [of "concat A @ take idx sub" k "drop (idx + 1) sub @ concat B"]
    unfolding sk_wf_def sk_iter_def list_delete_def by (simp only: append_assoc)
  have lsub: "length ?sub = length sub - 1" "length ?sub \<le> 2 * LOAD"
    using idx' i by (auto simp: list_delete_def sk_inv_def ls)
  have sd: "sorted_wrt (<) (concat A @ ?sub @ concat B)"
    using w unfolding del [symmetric] by (simp add: sk_wf_def sk_iter_def sorted_filter_less)
  have ln: "sk_len s - 1 = length (concat A @ ?sub @ concat B)"
    using w idx' by (simp add: sk_wf_def ls lsub)
  have m: "sk_maxes s = map last A @ last sub # map last B" using w by (simp add: sk_wf_def ls)
  have b: "\<forall>x \<in> set (A @ B). length x \<le> 2 * LOAD" using i by (auto simp: sk_inv_def ls)
  have ne: "[] \<notin> set (A @ B)" using i by (auto simp: sk_inv_def ls)
  have g: "locate_left s k = (length A, idx)" "idx \<noteq> length sub" "sub ! idx = k"
    using l lA idx' at by (auto simp: sub_def)
  have "fst (sk_discard k s) \<and> sk_inv (snd (sk_discard k s)) \<and>
    sk_iter (snd (sk_discard k s)) = concat A @ ?sub @ concat B"
  proof (cases "?sub = []")
    case True
    have "sk_discard k s = (True, s\<lparr>sk_lists := A @ B, sk_maxes := map last A @ map last B, sk_len := sk_len s - 1\<rparr>)"
      using True list_delete_mid [of "map last A"] by (simp add: sk_discard_def Let_def g ls m)
    then show ?thesis using True sd ln ne b by (auto simp: sk_inv_wf sk_wf_def sk_iter_def)
  next
    case False
    let ?t = "s\<lparr>sk_lists := A @ ?sub # B, sk_len := sk_len s - 1, sk_maxes := map last A @ last ?sub # map last B\<rparr>"
    have e: "sk_discard k s = (True, if length ?sub < LOAD div 2 \<and> length (sk_lists s) > 1
        then sk_fold (length A) ?t else ?t)"
      using False list_update_length [of "map last A" "last sub"]
      by (auto simp add: sk_discard_def Let_def g ls m)
    have wt: "sk_wf ?t" using False sd ln ne by (auto simp: sk_wf_def)
    have bt: "\<forall>x \<in> set (sk_lists ?t). length x \<le> 2 * LOAD" using b lsub(2) by auto
    have it: "sk_iter ?t = concat A @ ?sub @ concat B" by (simp add: sk_iter_def)
    have "A \<noteq> [] \<or> B \<noteq> []" if "length (sk_lists s) > 1" using that ls by auto
    with sk_fold_inv [OF wt _ _ bt, of A ?sub B] it wt bt show ?thesis
      unfolding e by (auto simp: sk_inv_wf)
  qed
  with del show "fst (sk_discard k s)" and "sk_inv (snd (sk_discard k s))"
    and "sk_iter (snd (sk_discard k s)) = filter (\<lambda>y. y \<noteq> k) (sk_iter s)" by simp_all
qed

section \<open>Bulk load\<close>

lemma chunks_props:
  "0 < n \<Longrightarrow> concat (chunks n xs) = xs \<and> [] \<notin> set (chunks n xs) \<and> (\<forall>c \<in> set (chunks n xs). length c \<le> n)"
proof (induction n xs rule: chunks.induct)
  case (1 n xs)
  then show ?case
    by (subst (1 2 3) chunks.simps) auto
qed

lemma sk_init_inv:
  assumes "distinct keys"
  shows "sk_inv (sk_init keys)" and "sk_iter (sk_init keys) = sort keys"
proof -
  have s: "sorted_wrt (<) (sort keys)" using assms by (simp add: strict_sorted_iff)
  have "concat (chunks LOAD (sort keys)) = sort keys" "[] \<notin> set (chunks LOAD (sort keys))"
    "\<forall>c \<in> set (chunks LOAD (sort keys)). length c \<le> LOAD"
    using chunks_props [of LOAD "sort keys"] by (auto simp: LOAD_def simp del: set_concat)
  with s show "sk_inv (sk_init keys)" "sk_iter (sk_init keys) = sort keys"
    by (auto simp: sk_init_def Let_def sk_inv_def sk_iter_def sk_empty_def trans_le_add1 dest: bspec)
qed

section \<open>The contract of an ordered index\<close>

text \<open>
  What the store and the scan loop need of an index: it denotes a strictly sorted list
  of keys, updates act on it as on a set, and a page is the beginning of a range in scan
  order. The lemmas are the ones the scan loop rests on: a page shorter than asked for
  exhausts its range, and a full page splits the range at its last key, so the next page
  starts just after it.
\<close>

definition key_range ::
  "'k::linorder list \<Rightarrow> 'k option \<Rightarrow> bool \<Rightarrow> bool \<Rightarrow> 'k option \<Rightarrow> 'k list" where
  "key_range ks bound inclusive reverse stop =
     filter (in_bounds bound inclusive reverse stop) (scan_order reverse ks)"

definition before :: "bool \<Rightarrow> 'k::linorder \<Rightarrow> 'k \<Rightarrow> bool" where
  "before reverse x y = (if reverse then y < x else x < y)"

lemma scan_order_sorted: "sorted_wrt (<) ks \<Longrightarrow> sorted_wrt (before reverse) (scan_order reverse ks)"
  by (cases reverse) (simp_all add: scan_order_def before_def [abs_def] sorted_wrt_rev)

lemma key_range_sorted: "sorted_wrt (<) ks \<Longrightarrow> sorted_wrt (before r) (key_range ks b i r stop)"
  unfolding key_range_def by (intro sorted_wrt_filter scan_order_sorted)

lemma set_key_range: "set (key_range ks b i r stop) = {k \<in> set ks. in_bounds b i r stop k}"
  by (auto simp: key_range_def scan_order_def)

lemma in_bounds_None [simp]: "in_bounds None i r None k"
  by (simp add: in_bounds_def)

lemma key_range_after:
  assumes s: "sorted_wrt (<) ks" and p: "key_range ks b i r stop = p @ q" and ne: "p \<noteq> []"
  shows "key_range ks (Some (last p)) False r stop = q"
proof -
  have sr: "sorted_wrt (before r) (p @ q)" using key_range_sorted [OF s, of r b i stop] p by simp
  let ?a = "before r (last p)"
  have l: "last p \<in> set p" using ne by simp
  have lr: "last p \<in> set (key_range ks b i r stop)" using l p by simp
  have ib: "in_bounds (Some (last p)) False r stop x \<longleftrightarrow> in_bounds b i r stop x \<and> ?a x" for x
    using lr by (cases b; cases r) (auto simp: set_key_range in_bounds_def before_def split: if_splits option.splits)
  have "key_range ks (Some (last p)) False r stop = filter ?a (key_range ks b i r stop)"
    by (auto simp: key_range_def ib intro!: filter_cong)
  moreover have "\<forall>x\<in>set p. \<not> ?a x"
  proof
    fix x assume "x \<in> set p"
    then have "x = last p \<or> before r x (last p)"
      using sr ne by (cases p rule: rev_cases) (auto simp: sorted_wrt_append)
    then show "\<not> ?a x" by (auto simp: before_def split: if_splits)
  qed
  moreover have "\<forall>x\<in>set q. ?a x" using sr l by (auto simp: sorted_wrt_append)
  ultimately show ?thesis by (simp add: p filter_id_conv filter_empty_conv)
qed

locale ordered_index =
  fixes inv :: "'i \<Rightarrow> bool"
    and keys :: "'i \<Rightarrow> 'k::linorder list"
    and build :: "'k list \<Rightarrow> 'i"
    and add :: "'k \<Rightarrow> 'i \<Rightarrow> 'i"
    and discard :: "'k \<Rightarrow> 'i \<Rightarrow> bool \<times> 'i"
    and page :: "'i \<Rightarrow> 'k option \<Rightarrow> bool \<Rightarrow> bool \<Rightarrow> nat \<Rightarrow> 'k option \<Rightarrow> 'k list"
  assumes keys_sorted: "inv s \<Longrightarrow> sorted_wrt (<) (keys s)"
    and build_inv: "distinct ks \<Longrightarrow> inv (build ks)"
    and build_keys: "distinct ks \<Longrightarrow> set (keys (build ks)) = set ks"
    and add_inv: "inv s \<Longrightarrow> k \<notin> set (keys s) \<Longrightarrow> inv (add k s)"
    and add_keys: "inv s \<Longrightarrow> k \<notin> set (keys s) \<Longrightarrow> set (keys (add k s)) = insert k (set (keys s))"
    and discard_inv: "inv s \<Longrightarrow> inv (snd (discard k s))"
    and discard_keys: "inv s \<Longrightarrow> set (keys (snd (discard k s))) = set (keys s) - {k}"
    and discard_result: "inv s \<Longrightarrow> fst (discard k s) \<longleftrightarrow> k \<in> set (keys s)"
    and page_range: "inv s \<Longrightarrow> page s b i r n stop = take n (key_range (keys s) b i r stop)"
begin

lemma keys_determined: "inv s \<Longrightarrow> inv t \<Longrightarrow> set (keys s) = set (keys t) \<Longrightarrow> keys s = keys t"
  by (intro sorted_less_unique keys_sorted)

lemma page_determined:
  "inv s \<Longrightarrow> inv t \<Longrightarrow> set (keys s) = set (keys t) \<Longrightarrow> page s b i r n stop = page t b i r n stop"
  using keys_determined [of s t] by (simp add: page_range)

lemma short_page_exhausts:
  assumes "inv s" and "length (page s b i r n stop) < n"
  shows "page s b i r n stop = key_range (keys s) b i r stop"
  using assms by (simp add: page_range)

lemma page_splits_range:
  assumes "inv s" and "page s b i r n stop \<noteq> []"
  shows "key_range (keys s) b i r stop =
    page s b i r n stop @ key_range (keys s) (Some (last (page s b i r n stop))) False r stop"
proof -
  let ?R = "key_range (keys s) b i r stop"
  have "?R = take n ?R @ drop n ?R" by simp
  with key_range_after [OF keys_sorted [OF assms(1)] this] assms show ?thesis
    by (simp add: page_range)
qed

lemma page_sorted: "inv s \<Longrightarrow> sorted_wrt (before r) (page s b i r n stop)"
  by (simp add: page_range key_range_sorted keys_sorted sorted_wrt_take)

lemma page_subset:
  "inv s \<Longrightarrow> set (page s b i r n stop) \<subseteq> {k \<in> set (keys s). in_bounds b i r stop k}"
  by (auto simp: page_range set_key_range dest: in_set_takeD)

text \<open>Updates a caller guards by membership, as the store does by its dict.\<close>

definition put :: "'k \<Rightarrow> 'i \<Rightarrow> 'i" where
  "put k s = (if k \<in> set (keys s) then s else add k s)"

lemma put_inv: "inv s \<Longrightarrow> inv (put k s)"
  by (simp add: put_def add_inv)

lemma put_keys: "inv s \<Longrightarrow> set (keys (put k s)) = insert k (set (keys s))"
  by (auto simp: put_def add_keys)

lemma remove_undoes_put:
  assumes "inv s" and "k \<notin> set (keys s)"
  shows "keys (snd (discard k (put k s))) = keys s"
  using assms by (intro keys_determined discard_inv put_inv) (auto simp: discard_keys put_inv put_keys)

end

interpretation index: ordered_index sk_inv sk_iter sk_init sk_add sk_discard sk_page
proof unfold_locales
  fix s :: "'a sorted_keys" and k b :: "'a" and r i n stop ks
  show "sk_inv s \<Longrightarrow> sorted_wrt (<) (sk_iter s)" by (rule sk_inv_sorted)
  show "distinct ks \<Longrightarrow> sk_inv (sk_init ks)" for ks :: "'a list" by (rule sk_init_inv)
  show "distinct ks \<Longrightarrow> set (sk_iter (sk_init ks)) = set ks" for ks :: "'a list"
    by (simp add: sk_init_inv)
  show "sk_inv s \<Longrightarrow> k \<notin> set (sk_iter s) \<Longrightarrow> sk_inv (sk_add k s)" by (rule sk_add_iter)
  show "sk_inv s \<Longrightarrow> k \<notin> set (sk_iter s) \<Longrightarrow> set (sk_iter (sk_add k s)) = insert k (set (sk_iter s))"
    by (auto simp: sk_add_iter)
  show "sk_inv s \<Longrightarrow> sk_inv (snd (sk_discard k s))"
    by (cases "k \<in> set (sk_iter s)") (simp_all add: sk_discard_present sk_discard_absent)
  show "sk_inv s \<Longrightarrow> set (sk_iter (snd (sk_discard k s))) = set (sk_iter s) - {k}"
    by (cases "k \<in> set (sk_iter s)") (auto simp: sk_discard_present sk_discard_absent)
  show "sk_inv s \<Longrightarrow> fst (sk_discard k s) \<longleftrightarrow> k \<in> set (sk_iter s)"
    by (cases "k \<in> set (sk_iter s)") (simp_all add: sk_discard_present sk_discard_absent)
  show "sk_inv s \<Longrightarrow> sk_page s b i r n stop = take n (key_range (sk_iter s) b i r stop)" for b
    by (simp add: sk_page_eq key_range_def)
qed

section \<open>Properties\<close>

text \<open>C7: a page of the chunked index is the beginning of the requested range of the sorted
  key list: bound inclusive or exclusive, forward ascending below \<open>stop\<close>, reverse descending
  down to and including \<open>stop\<close>, cut at \<open>n\<close>, whatever the chunk layout.\<close>

theorem sorted_keys_page:
  assumes "sk_inv s"
  shows "sk_page s bound inclusive reverse n stop =
    take n (key_range (sk_iter s) bound inclusive reverse stop)"
  using assms by (rule index.page_range)

theorem sorted_keys_page_witness:
  "sk_page (sk_init [5, 1, 9, 3, 7 :: int]) (Some 7) True True 2 (Some 2) =
     take 2 (key_range [1, 3, 5, 7, 9] (Some 7) True True (Some 2)) \<and>
   sk_page (sk_init [5, 1, 9, 3, 7 :: int]) (Some 7) True True 2 (Some 2) = [7, 5]"
proof -
  have "sk_inv (sk_init [5, 1, 9, 3, 7 :: int])" by (rule sk_init_inv) simp
  from sorted_keys_page [OF this, of "Some 7" True True 2 "Some 2"]
  show ?thesis by (simp add: sk_init_inv key_range_def in_bounds_def scan_order_def numeral_2_eq_2)
qed

text \<open>C13: inserting an absent key and removing any key keep the invariant of the index (sorted
  chunks, exact maxima, exact length, no empty or overlong chunk) and act on the key set as
  insertion and removal; \<open>discard\<close> reports whether the key was there.\<close>

theorem sorted_keys_updates:
  assumes "sk_inv s"
  shows "(k \<notin> set (sk_iter s) \<longrightarrow>
      sk_inv (sk_add k s) \<and> set (sk_iter (sk_add k s)) = insert k (set (sk_iter s)) \<and>
      sk_len (sk_add k s) = sk_len s + 1) \<and>
    sk_inv (snd (sk_discard k s)) \<and>
    set (sk_iter (snd (sk_discard k s))) = set (sk_iter s) - {k} \<and>
    (fst (sk_discard k s) \<longleftrightarrow> k \<in> set (sk_iter s))"
proof (intro conjI impI)
  assume k: "k \<notin> set (sk_iter s)"
  show "sk_inv (sk_add k s)" "set (sk_iter (sk_add k s)) = insert k (set (sk_iter s))"
    using assms k by (rule index.add_inv, rule index.add_keys)
  have "sk_len t = length (sk_iter t)" if "sk_inv t" for t :: "'a sorted_keys"
    using that by (simp add: sk_inv_def sk_iter_def)
  then show "sk_len (sk_add k s) = sk_len s + 1"
    using assms sk_add_iter [OF assms k] sum_length_filter_compl [of "\<lambda>y. y \<le> k" "sk_iter s"]
    by (simp add: not_le)
qed (use assms in \<open>simp_all add: index.discard_inv index.discard_keys index.discard_result\<close>)

theorem sorted_keys_updates_witness:
  "sk_inv (sk_add (4 :: int) (sk_init [5, 1])) \<and>
   set (sk_iter (sk_add (4 :: int) (sk_init [5, 1]))) = {1, 4, 5} \<and>
   fst (sk_discard (5 :: int) (sk_init [5, 1])) \<and>
   set (sk_iter (snd (sk_discard (5 :: int) (sk_init [5, 1])))) = {1}"
proof -
  have i: "sk_inv (sk_init [5, 1 :: int])" by (rule sk_init_inv) simp
  show ?thesis
    using sorted_keys_updates [OF i, of 4] sorted_keys_updates [OF i, of 5]
    by (auto simp: sk_init_inv)
qed

end
