(* ===== verification/Versioned_Store.thy ===== *)
theory Versioned_Store
  imports Sorted_Keys "HOL-Library.AList"
begin

text \<open>
  Committed state of the in-memory storage
  (\<open>src/virtuals/_backends/storages/mem/store.py\<close>): the live dict with its ordered index,
  versions recorded for open snapshots, pins, trimming, and the atomic commit with its
  rollback. Each method of \<open>VersionedStore\<close> is one locked section, hence one function from
  store to store; \<open>merge_pages\<close> is the merge its scans share with the transaction's.
\<close>

section \<open>State\<close>

text \<open>
  A read answers with an \<open>Entry\<close> or a \<open>Marker\<close>: \<open>Row\<close> is the entry \<open>(key, value)\<close>,
  \<open>ABSENT\<close> and \<open>LIVE\<close> the two markers an overlay may hold. A pending write carries a
  value or \<open>DELETED\<close>.
\<close>

datatype 'r version = Row 'r | ABSENT | LIVE

datatype 'v pending = Val 'v | DELETED

text \<open>
  \<open>'e\<close> is the encoded key, \<open>'x\<close> the decoded key, \<open>'v\<close> the encoded value. The lock is not a
  field: every operation below is one locked section, so operations are atomic steps.
\<close>

record ('e, 'x, 'v) vstore =
  vs_generation :: nat
  vs_live :: "'e \<rightharpoonup> 'x \<times> 'v"
  vs_index :: "'e sorted_keys"
  vs_seq :: nat
  vs_history :: "'e \<rightharpoonup> (nat \<times> ('x \<times> 'v) version) list"
  vs_history_index :: "'e sorted_keys"
  vs_undo_log :: "(nat \<times> 'e) list"
  vs_pins :: "(nat \<times> nat) list"
  vs_deferred :: "(nat \<times> nat) list"

definition vs_init :: "('e, 'x, 'v) vstore" where
  "vs_init = \<lparr>vs_generation = 0, vs_live = Map.empty, vs_index = sk_empty, vs_seq = 0,
     vs_history = Map.empty, vs_history_index = sk_empty, vs_undo_log = [], vs_pins = [],
     vs_deferred = []\<rparr>"

definition vs_reset :: "('e, 'x, 'v) vstore \<Rightarrow> ('e, 'x, 'v) vstore" where
  "vs_reset s = s\<lparr>vs_generation := vs_generation s + 1, vs_live := Map.empty,
     vs_index := sk_empty, vs_seq := 0, vs_history := Map.empty, vs_history_index := sk_empty,
     vs_undo_log := [], vs_pins := [], vs_deferred := []\<rparr>"

section \<open>Merging pages\<close>

definition merge_cover ::
  "('e::linorder \<times> 'r) list \<Rightarrow> ('e \<times> 'r version) list \<Rightarrow> nat \<Rightarrow> bool \<Rightarrow> 'e option" where
  "merge_cover base overlay n reverse =
     (let base_more = (length base = n); over_more = (length overlay = n) in
      if base_more \<and> over_more then
        let a = fst (last base); b = fst (last overlay) in
        Some (if reverse then (if a > b then a else b) else (if a < b then a else b))
      else if base_more then Some (fst (last base))
      else if over_more then Some (fst (last overlay))
      else None)"

definition past_cover :: "bool \<Rightarrow> 'e::linorder option \<Rightarrow> 'e \<Rightarrow> bool" where
  "past_cover reverse cover enc =
     (case cover of None \<Rightarrow> False | Some c \<Rightarrow> if reverse then enc < c else enc > c)"

text \<open>
  The merge loop, on the unread parts of the two pages. \<open>emit\<close> is the end of the loop
  body: leave the loop past the cover, and output the entry unless it is \<open>ABSENT\<close>. The
  \<open>LIVE\<close> case of \<open>emit\<close> is not reached, as both callers replace or skip it before.
\<close>

definition emit :: "bool \<Rightarrow> 'e::linorder option \<Rightarrow> 'e \<Rightarrow> 'r version \<Rightarrow> ('e \<times> 'r) list \<Rightarrow> ('e \<times> 'r) list" where
  "emit reverse cover enc entry rest =
     (if past_cover reverse cover enc then []
      else case entry of Row r \<Rightarrow> (enc, r) # rest | ABSENT \<Rightarrow> rest | LIVE \<Rightarrow> rest)"

fun merge_loop ::
  "bool \<Rightarrow> 'e::linorder option \<Rightarrow> ('e \<times> 'r) list \<Rightarrow> ('e \<times> 'r version) list \<Rightarrow> ('e \<times> 'r) list" where
  "merge_loop reverse cover [] [] = []"
| "merge_loop reverse cover ((enc, r) # base) [] =
     emit reverse cover enc (Row r) (merge_loop reverse cover base [])"
| "merge_loop reverse cover [] ((enc, v) # overlay) =
     (if v = LIVE then merge_loop reverse cover [] overlay
      else emit reverse cover enc v (merge_loop reverse cover [] overlay))"
| "merge_loop reverse cover ((benc, r) # base) ((oenc, v) # overlay) =
     (if benc = oenc then
        emit reverse cover oenc (if v = LIVE then Row r else v) (merge_loop reverse cover base overlay)
      else if (if reverse then benc > oenc else benc < oenc) then
        emit reverse cover benc (Row r) (merge_loop reverse cover base ((oenc, v) # overlay))
      else if v = LIVE then merge_loop reverse cover ((benc, r) # base) overlay
      else emit reverse cover oenc v (merge_loop reverse cover ((benc, r) # base) overlay))"

definition merge_pages ::
  "('e::linorder \<times> 'r) list \<Rightarrow> ('e \<times> 'r version) list \<Rightarrow> nat \<Rightarrow> bool \<Rightarrow>
   ('e \<times> 'r) list \<times> 'e option \<times> bool" where
  "merge_pages base overlay n reverse =
     (let cover = merge_cover base overlay n reverse
      in (merge_loop reverse cover base overlay, cover, cover = None))"

section \<open>Live reads\<close>

definition vs_get :: "'e \<Rightarrow> ('e, 'x, 'v) vstore \<Rightarrow> ('x \<times> 'v) version" where
  "vs_get enc s = (case vs_live s enc of None \<Rightarrow> ABSENT | Some entry \<Rightarrow> Row entry)"

text \<open>\<open>[(e, live[e]) for e in encs]\<close>; the index holds live keys only (invariant below), so
  \<open>live[e]\<close> does not raise.\<close>

definition vs_page ::
  "'e::linorder option \<Rightarrow> bool \<Rightarrow> bool \<Rightarrow> nat \<Rightarrow> 'e option \<Rightarrow> ('e, 'x, 'v) vstore \<Rightarrow>
   ('e \<times> 'x \<times> 'v) list" where
  "vs_page bound inclusive reverse n stop s =
     map (\<lambda>e. (e, the (vs_live s e))) (sk_page (vs_index s) bound inclusive reverse n stop)"

section \<open>Pins\<close>

definition dict_get :: "'a \<Rightarrow> 'b \<Rightarrow> ('a \<times> 'b) list \<Rightarrow> 'b" where
  "dict_get k d xs = (case map_of xs k of None \<Rightarrow> d | Some v \<Rightarrow> v)"

definition vs_release :: "nat \<times> nat \<Rightarrow> ('e, 'x, 'v) vstore \<Rightarrow> ('e, 'x, 'v) vstore" where
  "vs_release token s =
     (let (generation, seq) = token in
      if generation \<noteq> vs_generation s then s
      else
        let count = int (dict_get seq 0 (vs_pins s)) - 1 in
        if count > 0 then s\<lparr>vs_pins := AList.update seq (nat count) (vs_pins s)\<rparr>
        else s\<lparr>vs_pins := AList.delete seq (vs_pins s)\<rparr>)"

definition vs_drain :: "('e, 'x, 'v) vstore \<Rightarrow> ('e, 'x, 'v) vstore" where
  "vs_drain s = fold vs_release (vs_deferred s) (s\<lparr>vs_deferred := []\<rparr>)"

definition vs_pin :: "('e, 'x, 'v) vstore \<Rightarrow> (nat \<times> nat) \<times> ('e, 'x, 'v) vstore" where
  "vs_pin s =
     (let s = (if vs_deferred s \<noteq> [] then vs_drain s else s);
          seq = vs_seq s
      in ((vs_generation s, seq),
          s\<lparr>vs_pins := AList.update seq (dict_get seq 0 (vs_pins s) + 1) (vs_pins s)\<rparr>))"

definition vs_unpin_later :: "nat \<times> nat \<Rightarrow> ('e, 'x, 'v) vstore \<Rightarrow> ('e, 'x, 'v) vstore" where
  "vs_unpin_later token s = s\<lparr>vs_deferred := vs_deferred s @ [token]\<rparr>"

text \<open>The first loop of \<open>_trim\<close>: pop the log while its oldest record is at or below the floor,
  counting the records dropped per key.\<close>

fun trim_pop ::
  "nat option \<Rightarrow> (nat \<times> 'e) list \<Rightarrow> ('e \<times> nat) list \<Rightarrow> (nat \<times> 'e) list \<times> ('e \<times> nat) list" where
  "trim_pop floor [] dropped = ([], dropped)"
| "trim_pop floor ((c, enc) # log) dropped =
     (if (case floor of None \<Rightarrow> True | Some f \<Rightarrow> c \<le> f)
      then trim_pop floor log (AList.update enc (dict_get enc 0 dropped + 1) dropped)
      else ((c, enc) # log, dropped))"

text \<open>The body of its second loop; a key in the log has a history (invariant), so
  \<open>history[enc]\<close> does not raise.\<close>

definition trim_drop :: "'e::linorder \<times> nat \<Rightarrow> ('e, 'x, 'v) vstore \<Rightarrow> ('e, 'x, 'v) vstore" where
  "trim_drop item s =
     (let (enc, count) = item; entries = the (vs_history s enc) in
      if count \<ge> length entries then
        s\<lparr>vs_history := (vs_history s)(enc := None),
          vs_history_index := snd (sk_discard enc (vs_history_index s))\<rparr>
      else s\<lparr>vs_history := (vs_history s)(enc \<mapsto> drop count entries)\<rparr>)"

definition vs_trim :: "('e::linorder, 'x, 'v) vstore \<Rightarrow> ('e, 'x, 'v) vstore" where
  "vs_trim s =
     (let floor = (if vs_pins s \<noteq> [] then Some (fst (hd (vs_pins s))) else None);
          (log, dropped) = trim_pop floor (vs_undo_log s) []
      in fold trim_drop dropped (s\<lparr>vs_undo_log := log\<rparr>))"

definition vs_unpin :: "nat \<times> nat \<Rightarrow> ('e::linorder, 'x, 'v) vstore \<Rightarrow> ('e, 'x, 'v) vstore" where
  "vs_unpin token s =
     (let s = vs_release token s;
          s = (if vs_deferred s \<noteq> [] then vs_drain s else s)
      in vs_trim s)"

section \<open>Snapshot reads\<close>

definition version_at :: "'e \<Rightarrow> nat \<Rightarrow> ('e, 'x, 'v) vstore \<Rightarrow> ('x \<times> 'v) version" where
  "version_at enc seq s =
     (case vs_history s enc of
        None \<Rightarrow> LIVE
      | Some entries \<Rightarrow>
          let i = bisect_right (map fst entries) seq in
          if i < length entries then snd (entries ! i) else LIVE)"

definition vs_get_at :: "'e \<Rightarrow> nat \<Rightarrow> ('e, 'x, 'v) vstore \<Rightarrow> ('x \<times> 'v) version" where
  "vs_get_at enc seq s =
     (let entry = version_at enc seq s in if entry = LIVE then vs_get enc s else entry)"

definition vs_page_at ::
  "nat \<Rightarrow> 'e::linorder option \<Rightarrow> bool \<Rightarrow> bool \<Rightarrow> nat \<Rightarrow> 'e option \<Rightarrow> ('e, 'x, 'v) vstore \<Rightarrow>
   ('e \<times> 'x \<times> 'v) list \<times> 'e option \<times> bool" where
  "vs_page_at seq bound inclusive reverse n stop s =
     (let base = map (\<lambda>e. (e, the (vs_live s e))) (sk_page (vs_index s) bound inclusive reverse n stop) in
      if vs_history s = Map.empty then
        (base, if length base = n then Some (fst (last base)) else None, length base < n)
      else
        let encs = sk_page (vs_history_index s) bound inclusive reverse n stop;
            overlay = map (\<lambda>e. (e, version_at e seq s)) encs
        in merge_pages base overlay n reverse)"

section \<open>Commit\<close>

text \<open>
  \<open>raises index enc\<close> says that ordering \<open>enc\<close> against the keys of \<open>index\<close> raises (a key
  the index cannot compare); it stands for the comparison of the codec's encoded keys.
\<close>

definition apply_live ::
  "('e::linorder sorted_keys \<Rightarrow> 'e \<Rightarrow> bool) \<Rightarrow> 'e \<Rightarrow> 'x \<Rightarrow> 'v pending \<Rightarrow> ('e, 'x, 'v) vstore \<Rightarrow>
   ('e, 'x, 'v) vstore option res" where
  "apply_live raises enc key value s =
     (let old = vs_get enc s in
      case value of
        DELETED \<Rightarrow>
          if old = ABSENT then Inr None
          else Inr (Some (s\<lparr>vs_index := snd (sk_discard enc (vs_index s)),
                            vs_live := (vs_live s)(enc := None)\<rparr>))
      | Val v \<Rightarrow>
          if old = ABSENT then
            if raises (vs_index s) enc then Inl TypeError
            else Inr (Some (s\<lparr>vs_index := sk_add enc (vs_index s),
                              vs_live := (vs_live s)(enc \<mapsto> (key, v))\<rparr>))
          else Inr (Some (s\<lparr>vs_live := (vs_live s)(enc \<mapsto> (key, v))\<rparr>)))"

definition apply_record ::
  "('e::linorder sorted_keys \<Rightarrow> 'e \<Rightarrow> bool) \<Rightarrow> nat \<Rightarrow> nat option \<Rightarrow> 'e \<Rightarrow> ('x \<times> 'v) version \<Rightarrow>
   ('e, 'x, 'v) vstore \<Rightarrow> (('e, 'x, 'v) vstore \<times> nat) res" where
  "apply_record raises seq newest_pin enc old s =
     (case newest_pin of
        None \<Rightarrow> Inr (s, 0)
      | Some p \<Rightarrow>
          (case vs_history s enc of
             None \<Rightarrow>
               if raises (vs_history_index s) enc then Inl TypeError
               else Inr (s\<lparr>vs_history_index := sk_add enc (vs_history_index s),
                           vs_history := (vs_history s)(enc \<mapsto> [(seq, old)]),
                           vs_undo_log := vs_undo_log s @ [(seq, enc)]\<rparr>, 1)
           | Some entries \<Rightarrow>
               if fst (last entries) \<le> p
               then Inr (s\<lparr>vs_history := (vs_history s)(enc \<mapsto> entries @ [(seq, old)]),
                           vs_undo_log := vs_undo_log s @ [(seq, enc)]\<rparr>, 1)
               else Inr (s, 0)))"

text \<open>The loop of \<open>apply\<close>: the exception raised if any, with the store, \<open>modified\<close>, \<open>done\<close> and
  \<open>recorded\<close> as they are at that point.\<close>

fun apply_loop ::
  "('e::linorder sorted_keys \<Rightarrow> 'e \<Rightarrow> bool) \<Rightarrow> nat \<Rightarrow> nat option \<Rightarrow> ('e \<times> 'x \<times> 'v pending) list \<Rightarrow>
   ('e, 'x, 'v) vstore \<Rightarrow> 'x set \<Rightarrow> ('e \<times> ('x \<times> 'v) version) list \<Rightarrow> nat \<Rightarrow>
   exn option \<times> ('e, 'x, 'v) vstore \<times> 'x set \<times> ('e \<times> ('x \<times> 'v) version) list \<times> nat" where
  "apply_loop raises seq newest_pin [] s modified finished recorded =
     (None, s, modified, finished, recorded)"
| "apply_loop raises seq newest_pin ((enc, key, value) # ops) s modified finished recorded =
     (let old = vs_get enc s in
      case apply_live raises enc key value s of
        Inl e \<Rightarrow> (Some e, s, modified, finished, recorded)
      | Inr None \<Rightarrow> apply_loop raises seq newest_pin ops s modified finished recorded
      | Inr (Some s) \<Rightarrow>
          let modified = (if value = DELETED then insert key modified else modified);
              finished = finished @ [(enc, old)]
          in case apply_record raises seq newest_pin enc old s of
               Inl e \<Rightarrow> (Some e, s, modified, finished, recorded)
             | Inr (s, k) \<Rightarrow> apply_loop raises seq newest_pin ops s modified finished (recorded + k))"

definition undo_live ::
  "'e::linorder \<times> ('x \<times> 'v) version \<Rightarrow> ('e, 'x, 'v) vstore \<Rightarrow> ('e, 'x, 'v) vstore" where
  "undo_live item s =
     (let (enc, old) = item in
      case old of
        Row entry \<Rightarrow>
          (let s = (if vs_live s enc = None then s\<lparr>vs_index := sk_add enc (vs_index s)\<rparr> else s)
           in s\<lparr>vs_live := (vs_live s)(enc \<mapsto> entry)\<rparr>)
      | _ \<Rightarrow>
          if vs_live s enc \<noteq> None
          then s\<lparr>vs_live := (vs_live s)(enc := None), vs_index := snd (sk_discard enc (vs_index s))\<rparr>
          else s)"

text \<open>One round of the second loop of \<open>_undo\<close>: drop the newest log record and the version it names.\<close>

definition undo_record :: "('e::linorder, 'x, 'v) vstore \<Rightarrow> ('e, 'x, 'v) vstore" where
  "undo_record s =
     (let enc = snd (last (vs_undo_log s));
          s = s\<lparr>vs_undo_log := butlast (vs_undo_log s)\<rparr>;
          entries = butlast (the (vs_history s enc))
      in if entries = []
         then s\<lparr>vs_history := (vs_history s)(enc := None),
                vs_history_index := snd (sk_discard enc (vs_history_index s))\<rparr>
         else s\<lparr>vs_history := (vs_history s)(enc \<mapsto> entries)\<rparr>)"

definition vs_undo ::
  "('e::linorder \<times> ('x \<times> 'v) version) list \<Rightarrow> nat \<Rightarrow> ('e, 'x, 'v) vstore \<Rightarrow> ('e, 'x, 'v) vstore" where
  "vs_undo finished recorded s = (undo_record ^^ recorded) (fold undo_live (rev finished) s)"

definition vs_apply ::
  "('e::linorder sorted_keys \<Rightarrow> 'e \<Rightarrow> bool) \<Rightarrow> ('e \<times> 'x \<times> 'v pending) list \<Rightarrow> 'x set \<Rightarrow> nat \<Rightarrow>
   ('e, 'x, 'v) vstore \<Rightarrow> nat res \<times> 'x set \<times> ('e, 'x, 'v) vstore" where
  "vs_apply raises ops modified generation s =
     (if generation \<noteq> vs_generation s then (Inl StorageClosedError, modified, s)
      else
        let s = (if vs_deferred s \<noteq> [] then vs_trim (vs_drain s) else s);
            seq = vs_seq s + 1;
            newest_pin = (if vs_pins s \<noteq> [] then Some (fst (last (vs_pins s))) else None);
            (failure, s, modified, finished, recorded) = apply_loop raises seq newest_pin ops s modified [] 0
        in case failure of
             Some e \<Rightarrow> (Inl e, modified, vs_undo finished recorded s)
           | None \<Rightarrow> (Inr seq, modified, s\<lparr>vs_seq := seq\<rparr>))"

section \<open>What a merged page holds\<close>

text \<open>The view an overlay gives over a base, and the rows of a view up to a cover.\<close>

definition overlaid :: "('e \<rightharpoonup> 'r) \<Rightarrow> ('e \<rightharpoonup> 'r version) \<Rightarrow> 'e \<rightharpoonup> 'r" where
  "overlaid base over e =
     (case over e of Some (Row r) \<Rightarrow> Some r | Some ABSENT \<Rightarrow> None | _ \<Rightarrow> base e)"

definition merges ::
  "bool \<Rightarrow> 'e::linorder option \<Rightarrow> ('e \<times> 'r) list \<Rightarrow> ('e \<rightharpoonup> 'r) \<Rightarrow> bool" where
  "merges r cover out m \<longleftrightarrow> sorted_wrt (before r) (map fst out) \<and>
     (\<forall>e x. (e, x) \<in> set out \<longleftrightarrow> \<not> past_cover r cover e \<and> m e = Some x)"

lemma before_trans: "before r x y \<Longrightarrow> before r y z \<Longrightarrow> before r x z"
  by (auto simp: before_def split: if_splits)

lemma before_irrefl [simp]: "\<not> before r x x"
  by (simp add: before_def)

lemma before_linear: "before r x y \<or> x = y \<or> before r y x"
  by (auto simp: before_def)

lemma past_cover_before: "past_cover r cover x \<longleftrightarrow> (\<exists>c. cover = Some c \<and> before r c x)"
  by (cases cover) (auto simp: past_cover_def before_def)

lemma past_cover_mono: "past_cover r cover x \<Longrightarrow> before r x y \<Longrightarrow> past_cover r cover y"
  by (auto simp: past_cover_before intro: before_trans)

lemma emit_merges:
  assumes m: "merges r cover rest m" and d: "\<forall>e \<in> dom m. before r enc e" and v: "v \<noteq> LIVE"
  shows "merges r cover (emit r cover enc v rest)
    (case v of Row x \<Rightarrow> m(enc \<mapsto> x) | _ \<Rightarrow> m(enc := None))"
proof (cases "past_cover r cover enc")
  case True
  with d have "\<forall>e \<in> insert enc (dom m). past_cover r cover e"
    by (auto intro: past_cover_mono)
  with True show ?thesis
    by (auto simp: merges_def emit_def split: version.splits if_splits)
next
  case False
  have "m enc = None" using d by (meson before_irrefl domIff)
  with False m d v show ?thesis
    by (cases v) (auto simp: merges_def emit_def dom_def fun_upd_idem)
qed

lemma map_of_after:
  "sorted_wrt (before r) (e # map fst xs) \<Longrightarrow> \<forall>k \<in> dom (map_of xs). before r e k"
  by (auto simp: dom_map_of_conv_image_fst)

lemma dom_overlaid: "dom (overlaid b ov) \<subseteq> dom b \<union> dom ov"
  by (auto simp: overlaid_def split: option.splits)

lemma overlaid_upd_over:
  "v \<noteq> LIVE \<Longrightarrow> overlaid b (ov(e \<mapsto> v)) =
   (case v of Row x \<Rightarrow> (overlaid b ov)(e \<mapsto> x) | _ \<Rightarrow> (overlaid b ov)(e := None))"
  by (auto simp: overlaid_def fun_eq_iff split: version.splits)

lemma overlaid_upd_base: "ov e = None \<Longrightarrow> overlaid (b(e \<mapsto> x)) ov = (overlaid b ov)(e \<mapsto> x)"
  by (auto simp: overlaid_def fun_eq_iff split: option.splits version.splits)

lemma overlaid_LIVE: "ov e = None \<Longrightarrow> overlaid b (ov(e \<mapsto> LIVE)) = overlaid b ov"
  by (auto simp: overlaid_def fun_eq_iff)

lemma overlaid_upd_both:
  "overlaid (b(e \<mapsto> x)) (ov(e \<mapsto> v)) = (case (if v = LIVE then Row x else v) of
     Row y \<Rightarrow> (overlaid b ov)(e \<mapsto> y) | _ \<Rightarrow> (overlaid b ov)(e := None))"
  by (auto simp: overlaid_def fun_eq_iff split: option.splits version.splits)

lemma map_of_upd: "map_of ((k, v) # xs) = (map_of xs)(k \<mapsto> v)"
  by (simp add: fun_eq_iff)

lemma merge_loop_merges:
  assumes "sorted_wrt (before r) (map fst base)" and "sorted_wrt (before r) (map fst ov)"
  shows "merges r cover (merge_loop r cover base ov) (overlaid (map_of base) (map_of ov))"
  using assms
proof (induction r cover base ov rule: merge_loop.induct)
  case (1 r cover)
  show ?case by (simp add: merges_def overlaid_def)
next
  case (2 r cover enc x base)
  let ?m = "overlaid (map_of base) (map_of [])"
  have "\<forall>e \<in> dom ?m. before r enc e"
    using map_of_after [of r enc base] "2.prems" by (auto simp: overlaid_def)
  moreover have "merges r cover (merge_loop r cover base []) ?m" using "2.IH" "2.prems" by simp
  ultimately show ?case
    using emit_merges [of r cover _ ?m enc "Row x"]
    unfolding map_of_upd by (simp add: overlaid_upd_base del: fun_upd_apply)
next
  case (3 r cover enc v ov)
  let ?m = "overlaid (map_of []) (map_of ov)"
  have d: "\<forall>e \<in> dom (map_of ov). before r enc e"
    using map_of_after [of r enc ov] "3.prems" by simp
  then have n: "map_of ov enc = None" by (meson before_irrefl domIff)
  have "dom ?m \<subseteq> dom (map_of ov)" using dom_overlaid [of "map_of []" "map_of ov"] by simp
  then have d': "\<forall>e \<in> dom ?m. before r enc e" using d by blast
  have "merges r cover (merge_loop r cover [] ov) ?m" using "3.IH" "3.prems" by (cases "v = LIVE") simp_all
  then show ?case
    using emit_merges [OF _ d', of cover _ v] n unfolding map_of_upd
    by (cases "v = LIVE") (simp_all add: overlaid_LIVE overlaid_upd_over del: map_of.simps fun_upd_apply)
next
  case (4 r cover benc x base oenc v ov)
  have db: "\<forall>e \<in> dom (map_of base). before r benc e" and dov: "\<forall>e \<in> dom (map_of ov). before r oenc e"
    using map_of_after [of r benc base] map_of_after [of r oenc ov] "4.prems" by simp_all
  have no: "map_of ov oenc = None" using dov by (meson before_irrefl domIff)
  let ?B = "map_of ((benc, x) # base)" and ?O = "map_of ((oenc, v) # ov)"
  consider (eq) "benc = oenc" | (lt) "before r benc oenc" "benc \<noteq> oenc"
    | (gt) "before r oenc benc" "benc \<noteq> oenc" "\<not> before r benc oenc"
    using before_linear [of r benc oenc] by (auto dest: before_trans)
  then show ?case
  proof cases
    case eq
    let ?m = "overlaid (map_of base) (map_of ov)"
    have "\<forall>e \<in> dom ?m. before r oenc e" using db dov dom_overlaid [of "map_of base" "map_of ov"] unfolding eq by blast
    moreover have "merges r cover (merge_loop r cover base ov) ?m" using "4.IH"(1) "4.prems" eq by simp
    ultimately show ?thesis
      using emit_merges [of r cover _ ?m oenc "if v = LIVE then Row x else v"] eq
      unfolding map_of_upd eq overlaid_upd_both by (simp del: map_of.simps fun_upd_apply)
  next
    case lt
    let ?m = "overlaid (map_of base) ?O"
    have o: "\<forall>e \<in> dom ?O. before r benc e" using dov lt by (auto intro: before_trans)
    then have n: "?O benc = None" by (meson before_irrefl domIff)
    have "\<forall>e \<in> dom ?m. before r benc e" using db o dom_overlaid [of "map_of base" ?O] by blast
    moreover have "merges r cover (merge_loop r cover base ((oenc, v) # ov)) ?m"
      by (rule "4.IH"(2)) (use "4.prems" lt in \<open>simp_all add: before_def\<close>)
    moreover have "overlaid ?B ?O = ?m(benc \<mapsto> x)"
      unfolding map_of_upd [of benc] by (rule overlaid_upd_base, rule n)
    moreover have "(if r then benc > oenc else benc < oenc)" using lt by (simp add: before_def)
    ultimately show ?thesis
      using emit_merges [of r cover _ ?m benc "Row x"] lt
      by (simp del: map_of.simps fun_upd_apply)
  next
    case gt
    let ?m = "overlaid ?B (map_of ov)"
    have c: "benc \<noteq> oenc" "\<not> (if r then benc > oenc else benc < oenc)" using gt by (auto simp: before_def)
    have "\<forall>e \<in> dom ?B. before r oenc e" using db gt by (auto intro: before_trans)
    then have "\<forall>e \<in> dom ?m. before r oenc e" using dov dom_overlaid [of ?B "map_of ov"] by blast
    moreover have "merges r cover (merge_loop r cover ((benc, x) # base) ov) ?m"
      using "4.IH"(3,4) "4.prems" c
      by (cases "v = LIVE") (simp_all del: map_of.simps fun_upd_apply)
    ultimately show ?thesis
      using emit_merges [of r cover _ ?m oenc v] c no unfolding map_of_upd [of oenc]
      by (cases "v = LIVE") (simp_all add: overlaid_LIVE overlaid_upd_over del: map_of.simps fun_upd_apply)
  qed
qed

lemma merge_cover_base:
  assumes "length base = n"
  shows "\<exists>c. merge_cover base ov n r = Some c \<and> (c = fst (last base) \<or> before r c (fst (last base)))"
  using assms by (auto simp: merge_cover_def Let_def before_def)

lemma merge_cover_overlay:
  assumes "length ov = n"
  shows "\<exists>c. merge_cover base ov n r = Some c \<and> (c = fst (last ov) \<or> before r c (fst (last ov)))"
  using assms by (auto simp: merge_cover_def Let_def before_def)

lemma merge_cover_key:
  assumes n: "0 < n" and c: "merge_cover base ov n r = Some c"
  shows "c \<in> fst ` set base \<union> fst ` set ov"
proof -
  have "length base = n \<Longrightarrow> last base \<in> set base" "length ov = n \<Longrightarrow> last ov \<in> set ov"
    using n by auto
  with c show ?thesis by (auto simp: merge_cover_def Let_def split: if_splits)
qed

lemma take_last_before:
  assumes "sorted_wrt (before r) ks" and "n < length ks" and "0 < n" and "k \<in> set (drop n ks)"
  shows "before r (last (take n ks)) k"
proof -
  have "sorted_wrt (before r) (take n ks @ drop n ks)" using assms(1) by simp
  moreover have "last (take n ks) \<in> set (take n ks)"
    using assms(2,3) by (intro last_in_set) auto
  ultimately show ?thesis using assms(4) unfolding sorted_wrt_append by blast
qed

lemma map_of_take:
  assumes s: "sorted_wrt (before r) (map fst xs)" and n: "0 < n"
    and c: "length (take n xs) = n \<Longrightarrow> \<exists>c. cover = Some c \<and>
      (c = fst (last (take n xs)) \<or> before r c (fst (last (take n xs))))"
    and e: "\<not> past_cover r cover e"
  shows "map_of (take n xs) e = map_of xs e"
proof (cases "n < length xs")
  case True
  have "e \<notin> set (map fst (drop n xs))"
  proof
    assume "e \<in> set (map fst (drop n xs))"
    then have "e \<in> set (drop n (map fst xs))" by (simp add: drop_map)
    with take_last_before [OF s _ n] True have "before r (last (take n (map fst xs))) e" by simp
    moreover have "take n xs \<noteq> []" using True n by auto
    ultimately have "before r (fst (last (take n xs))) e" using n True by (simp add: take_map last_map)
    with c True e show False by (auto simp: past_cover_before intro: before_trans)
  qed
  then have "map_of (drop n xs) e = None" by (simp add: map_of_eq_None_iff)
  then have "map_of (take n xs @ drop n xs) e = map_of (take n xs) e"
    by (simp add: map_add_def split: option.splits del: append_take_drop_id)
  then show ?thesis by simp
next
  case False
  then show ?thesis by simp
qed

lemma merges_cong:
  "merges r cover out m \<Longrightarrow> (\<And>e. \<not> past_cover r cover e \<Longrightarrow> m e = m' e) \<Longrightarrow> merges r cover out m'"
  by (auto simp: merges_def)

lemma merge_pages_spec:
  assumes b: "sorted_wrt (before r) (map fst bs)" and o: "sorted_wrt (before r) (map fst ov)"
    and n: "0 < n" and p: "merge_pages (take n bs) (take n ov) n r = (rows, cover, fin)"
  shows "merges r cover rows (overlaid (map_of bs) (map_of ov))"
    and "fin \<longleftrightarrow> cover = None"
    and "cover = Some c \<Longrightarrow> c \<in> fst ` set bs \<union> fst ` set ov"
proof -
  let ?c = "merge_cover (take n bs) (take n ov) n r"
  have c: "cover = ?c" and rows: "rows = merge_loop r cover (take n bs) (take n ov)"
    and fin: "fin = (cover = None)"
    using p by (auto simp: merge_pages_def Let_def)
  show "fin \<longleftrightarrow> cover = None" by (simp add: fin)
  show "c \<in> fst ` set bs \<union> fst ` set ov" if "cover = Some c"
    using merge_cover_key [OF n, of "take n bs" "take n ov" r c] that c
    by (auto dest: in_set_takeD)
  have "sorted_wrt (before r) (map fst (take n bs))" "sorted_wrt (before r) (map fst (take n ov))"
    using b o by (simp_all add: take_map [symmetric] sorted_wrt_take)
  then have "merges r cover rows (overlaid (map_of (take n bs)) (map_of (take n ov)))"
    unfolding rows by (rule merge_loop_merges)
  then show "merges r cover rows (overlaid (map_of bs) (map_of ov))"
  proof (rule merges_cong)
    fix e assume e: "\<not> past_cover r cover e"
    have "map_of (take n bs) e = map_of bs e"
      by (rule map_of_take [OF b n _ e]) (unfold c, rule merge_cover_base)
    moreover have "map_of (take n ov) e = map_of ov e"
      by (rule map_of_take [OF o n _ e]) (unfold c, rule merge_cover_overlay)
    ultimately show "overlaid (map_of (take n bs)) (map_of (take n ov)) e = overlaid (map_of bs) (map_of ov) e"
      by (simp add: overlaid_def split: option.splits version.splits)
  qed
qed

section \<open>Invariant of the store\<close>

text \<open>
  The index holds the live keys, the history index the keys with versions; versions of a
  key are in strictly ascending commit order, never empty and never after the current
  sequence; the undo log lists the same records in commit order; pins are in ascending
  order with positive counts.
\<close>

definition entries_of :: "('e, 'x, 'v) vstore \<Rightarrow> 'e \<Rightarrow> (nat \<times> ('x \<times> 'v) version) list" where
  "entries_of s e = (case vs_history s e of None \<Rightarrow> [] | Some es \<Rightarrow> es)"

definition history_ok :: "nat \<Rightarrow> ('e, 'x, 'v) vstore \<Rightarrow> bool" where
  "history_ok bound s \<longleftrightarrow>
     (\<forall>e es. vs_history s e = Some es \<longrightarrow> es \<noteq> []) \<and>
     (\<forall>e. sorted_wrt (<) (map fst (entries_of s e)) \<and>
          (\<forall>(c, v) \<in> set (entries_of s e). c \<le> bound \<and> v \<noteq> LIVE)) \<and>
     sorted_wrt (\<le>) (map fst (vs_undo_log s)) \<and>
     (\<forall>e. map fst (entries_of s e) = map fst (filter (\<lambda>(c, x). x = e) (vs_undo_log s)))"

definition pins_ok :: "('e, 'x, 'v) vstore \<Rightarrow> bool" where
  "pins_ok s \<longleftrightarrow> sorted_wrt (<) (map fst (vs_pins s)) \<and>
     (\<forall>p k. map_of (vs_pins s) p = Some k \<longrightarrow> p \<le> vs_seq s \<and> 0 < k)"

definition index_ok :: "('e::linorder, 'x, 'v) vstore \<Rightarrow> bool" where
  "index_ok s \<longleftrightarrow> sk_inv (vs_index s) \<and> set (sk_iter (vs_index s)) = dom (vs_live s) \<and>
     sk_inv (vs_history_index s) \<and> set (sk_iter (vs_history_index s)) = dom (vs_history s)"

definition vs_inv :: "('e::linorder, 'x, 'v) vstore \<Rightarrow> bool" where
  "vs_inv s \<longleftrightarrow> index_ok s \<and> history_ok (vs_seq s) s \<and> pins_ok s"

text \<open>What a snapshot pinned at \<open>p\<close> sees.\<close>

definition view_at :: "('e, 'x, 'v) vstore \<Rightarrow> nat \<Rightarrow> 'e \<rightharpoonup> 'x \<times> 'v" where
  "view_at s p e = (case vs_get_at e p s of Row r \<Rightarrow> Some r | _ \<Rightarrow> None)"

lemma sk_empty_props [simp]: "sk_inv sk_empty" "sk_iter sk_empty = []"
  by (simp_all add: sk_empty_def sk_inv_def sk_iter_def)

lemma vs_init_inv: "vs_inv vs_init"
  by (simp add: vs_inv_def vs_init_def index_ok_def history_ok_def pins_ok_def entries_of_def)

lemma vs_reset_inv: "vs_inv (vs_reset s)"
  by (simp add: vs_inv_def vs_reset_def index_ok_def history_ok_def pins_ok_def entries_of_def)

lemma entries_of_upd [simp]:
  "entries_of (s\<lparr>vs_history := h\<rparr>) e = (case h e of None \<Rightarrow> [] | Some es \<Rightarrow> es)"
  by (simp add: entries_of_def)

text \<open>A version lookup reads the first version recorded after the pin.\<close>

lemma first_after:
  fixes es :: "(nat \<times> 'a) list"
  assumes "sorted_wrt (<) (map fst es)"
  shows "(let i = bisect_right (map fst es) p in if i < length es then Some (snd (es ! i)) else None) =
    (case filter (\<lambda>(c, v). p < c) es of [] \<Rightarrow> None | (c, v) # _ \<Rightarrow> Some v)"
proof -
  have "bisect_right (map fst es) p = length (filter (\<lambda>y. y \<le> p) (map fst es))"
    by (rule bisect_right_eq) (use assms in \<open>rule sorted_less_imp_sorted\<close>)
  also have "\<dots> = length (filter (\<lambda>(c, v). c \<le> p) es)" by (simp add: filter_map o_def case_prod_unfold)
  finally have b: "bisect_right (map fst es) p = length (filter (\<lambda>(c, v). c \<le> p) es)" .
  show ?thesis unfolding b using assms
  proof (induction es)
    case Nil
    then show ?case by simp
  next
    case (Cons x es)
    obtain c v where x: "x = (c, v)" by (cases x)
    show ?case
    proof (cases "c \<le> p")
      case True
      with Cons.IH Cons.prems x show ?thesis
        by (auto simp: Let_def split: list.splits if_splits)
    next
      case False
      with Cons.prems x have "filter (\<lambda>(c, v). c \<le> p) es = []" by (fastforce simp: filter_empty_conv)
      with False x show ?thesis by simp
    qed
  qed
qed

lemma version_at_first:
  assumes "sorted_wrt (<) (map fst (entries_of s e))"
  shows "version_at e p s =
    (case filter (\<lambda>(c, v). p < c) (entries_of s e) of [] \<Rightarrow> LIVE | (c, v) # _ \<Rightarrow> v)"
proof (cases "vs_history s e")
  case None
  then show ?thesis by (simp add: version_at_def entries_of_def)
next
  case (Some es)
  with assms have "sorted_wrt (<) (map fst es)" by (simp add: entries_of_def)
  from first_after [OF this, of p] Some show ?thesis
    by (auto simp: version_at_def entries_of_def Let_def split: if_splits list.splits)
qed

section \<open>Pages\<close>

lemma merges_fst_distinct:
  "sorted_wrt (before r) (map fst xs) \<Longrightarrow> distinct (map fst xs)"
  by (induction xs) auto

lemma page_merges:
  assumes s: "sorted_wrt (before r) (map fst xs)" and n: "0 < n"
    and c: "cover = (if length (take n xs) = n then Some (fst (last (take n xs))) else None)"
  shows "merges r cover (take n xs) (map_of xs)"
proof -
  have d: "distinct (map fst (take n xs))"
    using merges_fst_distinct [OF s] by (simp add: take_map [symmetric])
  have st: "sorted_wrt (before r) (map fst (take n xs))"
    using s by (simp add: take_map [symmetric] sorted_wrt_take)
  have in_page: "\<not> past_cover r cover e" if "e \<in> set (map fst (take n xs))" for e
  proof
    assume p: "past_cover r cover e"
    then have "before r (fst (last (take n xs))) e" using c by (auto simp: past_cover_before split: if_splits)
    moreover have "take n xs \<noteq> []" using that by (metis empty_iff empty_set list.simps(8))
    ultimately have "before r (last (map fst (take n xs))) e" by (simp add: last_map)
    moreover have "e = last (map fst (take n xs)) \<or> before r e (last (map fst (take n xs)))"
      using st that by (cases "take n xs" rule: rev_cases) (auto simp: sorted_wrt_append)
    ultimately show False using before_trans [of r] by (metis before_irrefl)
  qed
  have eq: "map_of (take n xs) e = map_of xs e" if "\<not> past_cover r cover e" for e
    by (rule map_of_take [OF s n _ that]) (simp add: c)
  show ?thesis unfolding merges_def
  proof (intro conjI allI)
    show "sorted_wrt (before r) (map fst (take n xs))" by (rule st)
    fix e x
    have "(e, x) \<in> set (take n xs) \<longleftrightarrow> map_of (take n xs) e = Some x"
      using d by (auto simp: map_of_eq_Some_iff)
    moreover have "map_of (take n xs) e = Some x \<Longrightarrow> \<not> past_cover r cover e"
    proof -
      assume "map_of (take n xs) e = Some x"
      then have "e \<in> set (map fst (take n xs))" by (force dest: map_of_SomeD)
      then show ?thesis by (rule in_page)
    qed
    ultimately show "(e, x) \<in> set (take n xs) \<longleftrightarrow> \<not> past_cover r cover e \<and> map_of xs e = Some x"
      using eq by auto
  qed
qed

lemma map_of_graph: "map_of (map (\<lambda>k. (k, f k)) ks) = (\<lambda>k. if k \<in> set ks then Some (f k) else None)"
  by (induction ks) (auto simp: fun_eq_iff)

lemma past_cover_None [simp]: "\<not> past_cover r None e"
  by (simp add: past_cover_def)

definition live_rows ::
  "'e::linorder option \<Rightarrow> bool \<Rightarrow> bool \<Rightarrow> 'e option \<Rightarrow> ('e, 'x, 'v) vstore \<Rightarrow> ('e \<times> 'x \<times> 'v) list" where
  "live_rows b i r stop s = map (\<lambda>e. (e, the (vs_live s e))) (key_range (sk_iter (vs_index s)) b i r stop)"

lemma live_rows_sorted: "index_ok s \<Longrightarrow> sorted_wrt (before r) (map fst (live_rows b i r stop s))"
  by (simp add: live_rows_def o_def key_range_sorted index.keys_sorted index_ok_def)

lemma map_of_live_rows:
  "index_ok s \<Longrightarrow> map_of (live_rows b i r stop s) = (\<lambda>e. if in_bounds b i r stop e then vs_live s e else None)"
  unfolding live_rows_def map_of_graph set_key_range index_ok_def fun_eq_iff
  by (metis (mono_tags, lifting) domIff mem_Collect_eq option.collapse)

lemma vs_page_rows: "index_ok s \<Longrightarrow> vs_page b i r n stop s = take n (live_rows b i r stop s)"
  by (simp add: vs_page_def live_rows_def index_ok_def index.page_range take_map)

lemma view_at_overlaid:
  "view_at s p e = overlaid (vs_live s) (\<lambda>e. Some (version_at e p s)) e"
  by (auto simp: view_at_def vs_get_at_def overlaid_def vs_get_def Let_def split: version.splits option.splits)

lemma version_at_no_history: "vs_history s e = None \<Longrightarrow> version_at e p s = LIVE"
  by (simp add: version_at_def)

text \<open>One page of a view: sorted, exactly the rows of the range up to the cover, and the cover
  a key of the range.\<close>

definition view_page ::
  "('e::linorder \<rightharpoonup> 'r) \<Rightarrow> 'e set \<Rightarrow> 'e option \<Rightarrow> bool \<Rightarrow> bool \<Rightarrow> 'e option \<Rightarrow>
   ('e \<times> 'r) list \<times> 'e option \<times> bool \<Rightarrow> bool" where
  "view_page view universe b i r stop result \<longleftrightarrow>
     (case result of (rows, cover, fin) \<Rightarrow>
        merges r cover rows (\<lambda>e. if in_bounds b i r stop e then view e else None) \<and>
        (fin \<longleftrightarrow> cover = None) \<and>
        (\<forall>c. cover = Some c \<longrightarrow> c \<in> universe \<and> in_bounds b i r stop c))"

lemma key_range_overlay:
  "sk_inv idx \<Longrightarrow> set (sk_iter idx) = dom h \<Longrightarrow> (\<And>e. h e = None \<Longrightarrow> f e = LIVE) \<Longrightarrow>
   overlaid (\<lambda>e. if in_bounds b i r stop e then l e else None)
     (map_of (map (\<lambda>e. (e, f e)) (key_range (sk_iter idx) b i r stop))) =
   (\<lambda>e. if in_bounds b i r stop e then overlaid l (\<lambda>e. Some (f e)) e else None)"
  by (auto simp: map_of_graph set_key_range overlaid_def fun_eq_iff split: option.splits version.splits)

lemma base_page_view:
  assumes i: "index_ok s" and n: "0 < n" and base: "base = take n (live_rows b i r stop s)"
  shows "view_page (vs_live s) (dom (vs_live s)) b i r stop
    (base, if length base = n then Some (fst (last base)) else None, length base < n)"
proof -
  let ?xs = "live_rows b i r stop s"
  let ?c = "if length base = n then Some (fst (last base)) else None"
  have "merges r ?c base (map_of ?xs)"
    unfolding base by (rule page_merges [OF live_rows_sorted [OF i] n refl])
  moreover have "c \<in> dom (vs_live s) \<and> in_bounds b i r stop c" if "?c = Some c" for c
  proof -
    have "base \<noteq> []" "c = fst (last base)" using that n by (auto split: if_splits)
    then have "c \<in> set (map fst ?xs)" using base by (metis in_set_takeD last_in_set image_eqI set_map)
    then have "c \<in> dom (map_of ?xs)" by (simp add: dom_map_of_conv_image_fst)
    then show ?thesis by (auto simp: map_of_live_rows [OF i] split: if_splits)
  qed
  moreover have "length base \<le> n" using base by simp
  ultimately show ?thesis
    by (auto simp: view_page_def map_of_live_rows [OF i])
qed

lemma merged_page_view:
  assumes i: "index_ok s" and n: "0 < n" and idx: "sk_inv idx" "set (sk_iter idx) = dom h"
    and f: "\<And>e. h e = None \<Longrightarrow> f e = LIVE"
  shows "view_page (overlaid (vs_live s) (\<lambda>e. Some (f e))) (dom (vs_live s) \<union> dom h) b i r stop
    (merge_pages (take n (live_rows b i r stop s))
      (map (\<lambda>e. (e, f e)) (sk_page idx b i r n stop)) n r)"
proof -
  let ?xs = "live_rows b i r stop s"
  let ?os = "map (\<lambda>e. (e, f e)) (key_range (sk_iter idx) b i r stop)"
  obtain rows cover fin where m: "merge_pages (take n ?xs) (take n ?os) n r = (rows, cover, fin)"
    by (metis prod_cases3)
  have so: "sorted_wrt (before r) (map fst ?os)"
    using idx(1) by (simp add: o_def key_range_sorted index.keys_sorted)
  note sp = merge_pages_spec [OF live_rows_sorted [OF i] so n m]
  have "c \<in> dom (vs_live s) \<union> dom h \<and> in_bounds b i r stop c" if "cover = Some c" for c
  proof -
    from sp(3) [OF that] have "c \<in> dom (map_of ?xs) \<or> c \<in> set (map fst ?os)"
      by (auto simp: dom_map_of_conv_image_fst)
    then show ?thesis
      using idx(2) by (auto simp: map_of_live_rows [OF i] o_def set_key_range split: if_splits)
  qed
  moreover have "merges r cover rows
      (\<lambda>e. if in_bounds b i r stop e then overlaid (vs_live s) (\<lambda>e. Some (f e)) e else None)"
  proof -
    have "overlaid (\<lambda>e. if in_bounds b i r stop e then vs_live s e else None) (map_of ?os) =
        (\<lambda>e. if in_bounds b i r stop e then overlaid (vs_live s) (\<lambda>e. Some (f e)) e else None)"
      by (rule key_range_overlay [OF idx]) (rule f)
    with sp(1) show ?thesis by (simp only: map_of_live_rows [OF i])
  qed
  moreover have "map (\<lambda>e. (e, f e)) (sk_page idx b i r n stop) = take n ?os"
    using idx(1) by (simp add: index.page_range take_map)
  ultimately show ?thesis using sp(2) m by (auto simp: view_page_def)
qed

lemma vs_page_at_view:
  assumes i: "index_ok s" and n: "0 < n"
  shows "view_page (view_at s p) (dom (vs_live s) \<union> dom (vs_history s)) b i r stop
    (vs_page_at p b i r n stop s)"
proof (cases "vs_history s = Map.empty")
  case True
  have v: "view_at s p = vs_live s"
    using True by (auto simp: fun_eq_iff view_at_overlaid overlaid_def version_at_no_history)
  show ?thesis
  proof -
    let ?base = "vs_page b i r n stop s"
    have "view_page (vs_live s) (dom (vs_live s)) b i r stop
        (?base, if length ?base = n then Some (fst (last ?base)) else None, length ?base < n)"
      by (rule base_page_view [OF i n vs_page_rows [OF i]])
    moreover have "vs_page_at p b i r n stop s =
        (?base, if length ?base = n then Some (fst (last ?base)) else None, length ?base < n)"
      using True by (simp add: vs_page_at_def vs_page_def Let_def)
    ultimately show ?thesis using True v by simp
  qed
next
  case False
  have "view_at s p = overlaid (vs_live s) (\<lambda>e. Some (version_at e p s))"
    by (rule ext) (rule view_at_overlaid)
  moreover have "vs_page_at p b i r n stop s = merge_pages (take n (live_rows b i r stop s))
      (map (\<lambda>e. (e, version_at e p s)) (sk_page (vs_history_index s) b i r n stop)) n r"
    using False unfolding vs_page_rows [OF i, symmetric] by (simp add: vs_page_at_def vs_page_def Let_def)
  ultimately show ?thesis
    using i merged_page_view [OF i n, of "vs_history_index s" "vs_history s" "\<lambda>e. version_at e p s" b]
    by (simp add: index_ok_def version_at_no_history)
qed

section \<open>Pins\<close>

lemma vs_release_shape: "\<exists>ps. vs_release t s = s\<lparr>vs_pins := ps\<rparr>"
proof -
  have "s = s\<lparr>vs_pins := vs_pins s\<rparr>" by simp
  then have "\<exists>ps. s = s\<lparr>vs_pins := ps\<rparr>" by blast
  then show ?thesis by (cases t) (auto simp: vs_release_def Let_def)
qed

lemma release_fields [simp]:
  "vs_generation (vs_release t s) = vs_generation s" "vs_live (vs_release t s) = vs_live s"
  "vs_index (vs_release t s) = vs_index s" "vs_seq (vs_release t s) = vs_seq s"
  "vs_history (vs_release t s) = vs_history s" "vs_history_index (vs_release t s) = vs_history_index s"
  "vs_undo_log (vs_release t s) = vs_undo_log s" "vs_deferred (vs_release t s) = vs_deferred s"
  using vs_release_shape [of t s] by auto

definition pin_count :: "('e, 'x, 'v) vstore \<Rightarrow> nat \<Rightarrow> nat" where
  "pin_count s p = dict_get p 0 (vs_pins s)"

lemma pin_count_pos: "pins_ok s \<Longrightarrow> 0 < pin_count s p \<longleftrightarrow> p \<in> set (map fst (vs_pins s))"
  using map_of_eq_None_iff [of "vs_pins s" p]
  by (cases "map_of (vs_pins s) p") (auto simp: pin_count_def dict_get_def pins_ok_def)

lemma pin_count_release:
  "pin_count (vs_release (g, q) s) p =
    (if g = vs_generation s \<and> p = q then pin_count s p - 1 else pin_count s p)"
  by (auto simp: pin_count_def vs_release_def dict_get_def Let_def update_conv' delete_conv'
      split: option.splits)

lemma release_pins_ok: "pins_ok s \<Longrightarrow> pins_ok (vs_release t s)"
proof -
  assume p: "pins_ok s"
  obtain g q where t: "t = (g, q)" by (cases t)
  show "pins_ok (vs_release t s)"
  proof (cases "g = vs_generation s \<and> dict_get q 0 (vs_pins s) > 1")
    case True
    let ?k = "dict_get q 0 (vs_pins s) - 1"
    have e: "vs_release t s = s\<lparr>vs_pins := AList.update q ?k (vs_pins s)\<rparr>"
      using True by (simp add: vs_release_def t Let_def nat_diff_distrib')
    obtain k where k: "map_of (vs_pins s) q = Some k"
      using True by (auto simp: dict_get_def split: option.splits)
    then have "q \<in> set (map fst (vs_pins s))" by (force dest: map_of_SomeD)
    then show ?thesis using p True k unfolding e
      by (auto simp: pins_ok_def update_keys update_conv' dict_get_def)
  next
    case False
    have "vs_release t s = s \<or> vs_release t s = s\<lparr>vs_pins := AList.delete q (vs_pins s)\<rparr>"
      using False by (auto simp: vs_release_def t Let_def)
    then show ?thesis using p
      by (auto simp: pins_ok_def delete_keys delete_conv' removeAll_filter_not_eq sorted_filter_less split: if_splits)
  qed
qed

lemma fold_release_shape: "\<exists>ps. fold vs_release ts s = s\<lparr>vs_pins := ps\<rparr>"
proof (induction ts arbitrary: s)
  case Nil
  have "s = s\<lparr>vs_pins := vs_pins s\<rparr>" by simp
  then show ?case unfolding fold_simps by blast
next
  case (Cons t ts)
  obtain ps where "vs_release t s = s\<lparr>vs_pins := ps\<rparr>" using vs_release_shape by metis
  with Cons [of "vs_release t s"] show ?case by auto
qed

lemma fold_release_pins_ok: "pins_ok s \<Longrightarrow> pins_ok (fold vs_release ts s)"
  by (induction ts arbitrary: s) (simp_all add: release_pins_ok)

lemma fold_release_count:
  "pin_count (fold vs_release ts s) p =
    pin_count s p - length (filter (\<lambda>t. t = (vs_generation s, p)) ts)"
  by (induction ts arbitrary: s) (auto simp: pin_count_release split: if_splits)

lemma vs_drain_shape: "\<exists>ps. vs_drain s = s\<lparr>vs_deferred := [], vs_pins := ps\<rparr>"
  using fold_release_shape [of "vs_deferred s" "s\<lparr>vs_deferred := []\<rparr>"] by (simp add: vs_drain_def)

lemma pins_ok_deferred [simp]: "pins_ok (s\<lparr>vs_deferred := d\<rparr>) = pins_ok s"
  by (simp add: pins_ok_def)

lemma pin_count_deferred [simp]: "pin_count (s\<lparr>vs_deferred := d\<rparr>) = pin_count s"
  by (simp add: pin_count_def fun_eq_iff)

lemma drain_pins_ok: "pins_ok s \<Longrightarrow> pins_ok (vs_drain s)"
  by (simp add: vs_drain_def fold_release_pins_ok)

text \<open>The pins a token still holds: registered and not yet queued for release.\<close>

definition outstanding :: "('e, 'x, 'v) vstore \<Rightarrow> nat \<Rightarrow> nat" where
  "outstanding s p = pin_count s p - length (filter (\<lambda>t. t = (vs_generation s, p)) (vs_deferred s))"

lemma drain_count: "pin_count (vs_drain s) p = outstanding s p"
  by (simp add: vs_drain_def outstanding_def fold_release_count)

lemma drain_fields [simp]:
  "vs_generation (vs_drain s) = vs_generation s" "vs_live (vs_drain s) = vs_live s"
  "vs_index (vs_drain s) = vs_index s" "vs_seq (vs_drain s) = vs_seq s"
  "vs_history (vs_drain s) = vs_history s" "vs_history_index (vs_drain s) = vs_history_index s"
  "vs_undo_log (vs_drain s) = vs_undo_log s" "vs_deferred (vs_drain s) = []"
  using vs_drain_shape [of s] by auto

section \<open>Trimming\<close>

definition old_at :: "nat option \<Rightarrow> nat \<Rightarrow> bool" where
  "old_at floor c = (case floor of None \<Rightarrow> True | Some f \<Rightarrow> c \<le> f)"

lemma trim_pop_eq:
  "fst (trim_pop floor log d) = dropWhile (\<lambda>(c, x). old_at floor c) log"
  "dict_get e 0 (snd (trim_pop floor log d)) = dict_get e 0 d +
     length (filter (\<lambda>(c, x). x = e) (takeWhile (\<lambda>(c, x). old_at floor c) log))"
  "set (map fst (snd (trim_pop floor log d))) =
     set (map fst d) \<union> set (map snd (takeWhile (\<lambda>(c, x). old_at floor c) log))"
  "distinct (map fst d) \<Longrightarrow> distinct (map fst (snd (trim_pop floor log d)))"
proof (induction floor log d rule: trim_pop.induct)
  case (1 floor d)
  case 1 show ?case by simp
  case 2 show ?case by simp
  case 3 show ?case by simp
  case 4 then show ?case by simp
next
  case (2 floor c enc log d)
  have o: "(case floor of None \<Rightarrow> True | Some f \<Rightarrow> c \<le> f) = old_at floor c" by (simp add: old_at_def)
  case 1 show ?case using "2.IH"(1) by (simp add: o)
  case 2 show ?case using "2.IH"(2) by (auto simp: o dict_get_def update_conv')
  case 3 show ?case using "2.IH"(3) by (cases "old_at floor c") (force simp: o dom_update)+
  case 4 then show ?case using "2.IH"(4) by (simp add: o distinct_update)
qed

lemma sorted_takeWhile_old:
  assumes "sorted_wrt (\<le>) (map fst (log :: (nat \<times> 'e) list))"
  shows "takeWhile (\<lambda>(c, x). old_at floor c) log = filter (\<lambda>(c, x). old_at floor c) log"
    and "dropWhile (\<lambda>(c, x). old_at floor c) log = filter (\<lambda>(c, x). \<not> old_at floor c) log"
proof -
  have "takeWhile (\<lambda>(c, x). old_at floor c) log = filter (\<lambda>(c, x). old_at floor c) log \<and>
    dropWhile (\<lambda>(c, x). old_at floor c) log = filter (\<lambda>(c, x). \<not> old_at floor c) log"
    using assms
  proof (induction log)
    case Nil
    then show ?case by simp
  next
    case (Cons a log)
    obtain c x where a: "a = (c, x)" by (cases a)
    show ?case
    proof (cases "old_at floor c")
      case True
      with Cons a show ?thesis by simp
    next
      case False
      with Cons.prems a have "\<forall>(c', x') \<in> set log. \<not> old_at floor c'"
        by (force simp: old_at_def split: option.splits)
      then have "filter (\<lambda>(c, x). old_at floor c) log = []" "filter (\<lambda>(c, x). \<not> old_at floor c) log = log"
        by (auto simp: filter_empty_conv filter_id_conv)
      with False a show ?thesis by simp
    qed
  qed
  then show "takeWhile (\<lambda>(c, x). old_at floor c) log = filter (\<lambda>(c, x). old_at floor c) log"
    and "dropWhile (\<lambda>(c, x). old_at floor c) log = filter (\<lambda>(c, x). \<not> old_at floor c) log" by simp_all
qed

lemma drop_old:
  assumes "sorted_wrt (<) (map fst (es :: (nat \<times> 'a) list))"
  shows "drop (length (filter (\<lambda>(c, v). old_at floor c) es)) es = filter (\<lambda>(c, v). \<not> old_at floor c) es"
  using assms
proof (induction es)
  case Nil
  then show ?case by simp
next
  case (Cons a es)
  obtain c v where a: "a = (c, v)" by (cases a)
  show ?case
  proof (cases "old_at floor c")
    case True
    with Cons a show ?thesis by simp
  next
    case False
    with Cons.prems a have "\<forall>(c', x') \<in> set es. \<not> old_at floor c'"
      by (force simp: old_at_def split: option.splits)
    then have "filter (\<lambda>(c, x). old_at floor c) es = []" "filter (\<lambda>(c, x). \<not> old_at floor c) es = es"
      by (auto simp: filter_empty_conv filter_id_conv)
    with False a show ?thesis by simp
  qed
qed

lemma filter_map_fst_length:
  "map fst xs = map fst (ys :: ('a \<times> 'c) list) \<Longrightarrow>
   length (filter (\<lambda>(c, v). P c) (xs :: ('a \<times> 'b) list)) = length (filter (\<lambda>(c, v). P c) ys)"
proof -
  assume "map fst xs = map fst ys"
  then have "length (filter P (map fst xs)) = length (filter P (map fst ys))" by simp
  then show ?thesis by (simp add: filter_map o_def case_prod_unfold)
qed

definition no_empty :: "('e, 'x, 'v) vstore \<Rightarrow> bool" where
  "no_empty s \<longleftrightarrow> (\<forall>e es. vs_history s e = Some es \<longrightarrow> es \<noteq> [])"

definition same_but_history :: "('e, 'x, 'v) vstore \<Rightarrow> ('e, 'x, 'v) vstore \<Rightarrow> bool" where
  "same_but_history s t \<longleftrightarrow>
     vs_generation t = vs_generation s \<and> vs_live t = vs_live s \<and> vs_index t = vs_index s \<and>
     vs_seq t = vs_seq s \<and> vs_undo_log t = vs_undo_log s \<and> vs_pins t = vs_pins s \<and>
     vs_deferred t = vs_deferred s"

lemma trim_drop_step:
  assumes i: "index_ok s" and n: "no_empty s" and e: "vs_history s e \<noteq> None"
  shows "index_ok (trim_drop (e, k) s)" and "no_empty (trim_drop (e, k) s)"
    and "entries_of (trim_drop (e, k) s) x = (if x = e then drop k (entries_of s e) else entries_of s x)"
    and "same_but_history s (trim_drop (e, k) s)"
    and "x \<noteq> e \<Longrightarrow> vs_history (trim_drop (e, k) s) x = vs_history s x"
  using assms
  by (auto simp: trim_drop_def Let_def index_ok_def no_empty_def entries_of_def same_but_history_def
      index.discard_inv index.discard_keys split: option.splits)

lemma fold_trim_drop:
  assumes "index_ok s" and "no_empty s" and "distinct (map fst d)"
    and "\<forall>(e, k) \<in> set d. vs_history s e \<noteq> None"
  shows "index_ok (fold trim_drop d s) \<and> no_empty (fold trim_drop d s) \<and>
    (\<forall>x. entries_of (fold trim_drop d s) x = drop (dict_get x 0 d) (entries_of s x)) \<and>
    same_but_history s (fold trim_drop d s)"
  using assms
proof (induction d arbitrary: s)
  case Nil
  then show ?case by (simp add: dict_get_def same_but_history_def)
next
  case (Cons a d)
  obtain e k where a: "a = (e, k)" by (cases a)
  have e: "vs_history s e \<noteq> None" using Cons.prems(4) a by simp
  note st = trim_drop_step [OF Cons.prems(1,2) e, where k = k]
  have "vs_history (trim_drop (e, k) s) x \<noteq> None" if xj: "(x, j) \<in> set d" for x j
  proof -
    from xj Cons.prems(3) a have "x \<noteq> e" by (force simp: image_iff)
    then have "vs_history (trim_drop (e, k) s) x = vs_history s x" by (rule st(5))
    with xj Cons.prems(4) show ?thesis by auto
  qed
  then have "\<forall>(x, j) \<in> set d. vs_history (trim_drop (e, k) s) x \<noteq> None" by blast
  with Cons.IH [OF st(1,2)] Cons.prems(3) a
  have IH: "index_ok (fold trim_drop d (trim_drop (e, k) s)) \<and> no_empty (fold trim_drop d (trim_drop (e, k) s)) \<and>
    (\<forall>x. entries_of (fold trim_drop d (trim_drop (e, k) s)) x =
       drop (dict_get x 0 d) (entries_of (trim_drop (e, k) s) x)) \<and>
    same_but_history (trim_drop (e, k) s) (fold trim_drop d (trim_drop (e, k) s))"
    by simp
  have "map_of d e = None" using Cons.prems(3) a by (simp add: map_of_eq_None_iff)
  then have "drop (dict_get x 0 d) (entries_of (trim_drop (e, k) s) x) =
      drop (dict_get x 0 (a # d)) (entries_of s x)" for x
    by (auto simp: st(3) dict_get_def a)
  with IH st(4) show ?case by (simp add: a same_but_history_def)
qed

definition trim_floor :: "('e, 'x, 'v) vstore \<Rightarrow> nat option" where
  "trim_floor s = (if vs_pins s \<noteq> [] then Some (fst (hd (vs_pins s))) else None)"

lemma history_sorted: "history_ok b s \<Longrightarrow> sorted_wrt (<) (map fst (entries_of s e))"
  unfolding history_ok_def by blast

lemma no_emptyI: "history_ok b s \<Longrightarrow> no_empty s"
  by (simp add: history_ok_def no_empty_def)

lemma history_in_log:
  assumes "history_ok b s" and "(c, e) \<in> set (vs_undo_log s)"
  shows "vs_history s e \<noteq> None"
proof
  assume "vs_history s e = None"
  then have "filter (\<lambda>(c, x). x = e) (vs_undo_log s) = []"
    using assms(1) unfolding history_ok_def by (metis (mono_tags) entries_of_def list.map_disc_iff list.simps(8) option.case(1))
  with assms(2) show False by (auto simp: filter_empty_conv)
qed

lemma trim_spec:
  assumes i: "index_ok s" and h: "history_ok b s"
  shows "index_ok (vs_trim s)" and "history_ok b (vs_trim s)"
    and "entries_of (vs_trim s) e = filter (\<lambda>(c, v). \<not> old_at (trim_floor s) c) (entries_of s e)"
    and "vs_undo_log (vs_trim s) = filter (\<lambda>(c, x). \<not> old_at (trim_floor s) c) (vs_undo_log s)"
    and "vs_generation (vs_trim s) = vs_generation s" "vs_live (vs_trim s) = vs_live s"
      "vs_index (vs_trim s) = vs_index s" "vs_seq (vs_trim s) = vs_seq s"
      "vs_pins (vs_trim s) = vs_pins s" "vs_deferred (vs_trim s) = vs_deferred s"
proof -
  let ?f = "trim_floor s" and ?log = "vs_undo_log s"
  obtain log d where td: "trim_pop ?f ?log [] = (log, d)" by (metis surj_pair)
  let ?s = "s\<lparr>vs_undo_log := log\<rparr>"
  have t: "vs_trim s = fold trim_drop d ?s"
    using td by (simp add: vs_trim_def trim_floor_def [symmetric] Let_def)
  have sl: "sorted_wrt (\<le>) (map fst ?log)" using h by (simp add: history_ok_def)
  note tw = sorted_takeWhile_old [OF sl, of ?f]
  have log: "log = filter (\<lambda>(c, x). \<not> old_at ?f c) ?log"
    using trim_pop_eq(1) [of ?f ?log "[]"] td tw(2) by simp
  have cnt: "dict_get x 0 d = length (filter (\<lambda>(c, v). old_at ?f c) (entries_of s x))" for x
  proof -
    have "dict_get x 0 d = length (filter (\<lambda>(c, y). y = x) (filter (\<lambda>(c, y). old_at ?f c) ?log))"
      using trim_pop_eq(2) [of x ?f ?log "[]"] td tw(1) by (simp add: dict_get_def)
    also have "filter (\<lambda>(c, y). y = x) (filter (\<lambda>(c, y). old_at ?f c) ?log) =
        filter (\<lambda>(c, y). old_at ?f c) (filter (\<lambda>(c, y). y = x) ?log)"
      by (auto simp: filter_filter intro: filter_cong)
    also have "length \<dots> = length (filter (\<lambda>(c, v). old_at ?f c) (entries_of s x))"
      using h by (intro filter_map_fst_length) (simp add: history_ok_def)
    finally show ?thesis .
  qed
  have dd: "distinct (map fst d)" using trim_pop_eq(4) [of "[]" ?f ?log] td by simp
  have "vs_history s e \<noteq> None" if "(e, k) \<in> set d" for e k
  proof
    assume n: "vs_history s e = None"
    from that
    have "e \<in> set (map fst d)" by force
    then obtain c where "(c, e) \<in> set (takeWhile (\<lambda>(c, x). old_at ?f c) ?log)"
      using trim_pop_eq(3) [of ?f ?log "[]"] td by auto
    then have "(c, e) \<in> set ?log" by (rule set_takeWhileD [THEN conjunct1])
    from history_in_log [OF h this] n show False by simp
  qed
  then have "\<forall>(e, k) \<in> set d. vs_history ?s e \<noteq> None" by auto
  moreover have "index_ok ?s" "no_empty ?s" using i no_emptyI [OF h] by (simp_all add: index_ok_def no_empty_def)
  ultimately have F: "index_ok (vs_trim s)" "no_empty (vs_trim s)"
    "\<And>x. entries_of (vs_trim s) x = drop (dict_get x 0 d) (entries_of s x)"
    "same_but_history ?s (vs_trim s)"
    using fold_trim_drop [OF _ _ dd, of ?s] unfolding t by (auto simp: entries_of_def)
  show "index_ok (vs_trim s)" by (rule F(1))
  have sorted: "sorted_wrt (<) (map fst (entries_of s x))" for x using h by (rule history_sorted)
  show ent: "entries_of (vs_trim s) e = filter (\<lambda>(c, v). \<not> old_at ?f c) (entries_of s e)" for e
    unfolding F(3) cnt by (rule drop_old [OF sorted])
  show lg: "vs_undo_log (vs_trim s) = filter (\<lambda>(c, x). \<not> old_at ?f c) ?log"
    using F(4) log by (simp add: same_but_history_def)
  show "vs_generation (vs_trim s) = vs_generation s" "vs_live (vs_trim s) = vs_live s"
      "vs_index (vs_trim s) = vs_index s" "vs_seq (vs_trim s) = vs_seq s"
      "vs_pins (vs_trim s) = vs_pins s" "vs_deferred (vs_trim s) = vs_deferred s"
    using F(4) by (simp_all add: same_but_history_def)
  have flt: "map fst (filter (\<lambda>(c, y). \<not> old_at ?f c) xs) = filter (\<lambda>c. \<not> old_at ?f c) (map fst xs)"
    for xs :: "(nat \<times> 'z) list"
    by (simp add: filter_map o_def case_prod_unfold)
  have "map fst (entries_of (vs_trim s) x) = map fst (filter (\<lambda>(c, y). y = x) (vs_undo_log (vs_trim s)))" for x
  proof -
    have "map fst (entries_of (vs_trim s) x) = filter (\<lambda>c. \<not> old_at ?f c) (map fst (entries_of s x))"
      unfolding ent by (simp add: filter_map o_def case_prod_unfold)
    also have "\<dots> = map fst (filter (\<lambda>(c, y). \<not> old_at ?f c) (filter (\<lambda>(c, y). y = x) ?log))"
      using h by (simp add: history_ok_def filter_map o_def case_prod_unfold)
    also have "filter (\<lambda>(c, y). \<not> old_at ?f c) (filter (\<lambda>(c, y). y = x) ?log) =
        filter (\<lambda>(c, y). y = x) (vs_undo_log (vs_trim s))"
      unfolding lg by (auto simp: filter_filter intro: filter_cong)
    finally show ?thesis .
  qed
  moreover have "sorted_wrt (\<le>) (map fst (vs_undo_log (vs_trim s)))"
    unfolding lg flt using sl by (rule sorted_wrt_filter)
  moreover have "sorted_wrt (<) (map fst (entries_of (vs_trim s) x))" for x
    unfolding ent flt using sorted by (rule sorted_wrt_filter)
  ultimately show "history_ok b (vs_trim s)"
    using F(2) h unfolding history_ok_def no_empty_def by (auto simp: ent)
qed

text \<open>No open pin reads a version that trimming drops.\<close>

lemma version_at_trim:
  assumes i: "index_ok s" and h: "history_ok b s" and f: "\<And>c. old_at (trim_floor s) c \<Longrightarrow> c \<le> p"
  shows "version_at e p (vs_trim s) = version_at e p s"
proof -
  note ts = trim_spec [OF i h]
  have s: "sorted_wrt (<) (map fst (entries_of s e))" "sorted_wrt (<) (map fst (entries_of (vs_trim s) e))"
    using history_sorted [OF h] history_sorted [OF ts(2)] by auto
  have "filter (\<lambda>(c, v). p < c) (entries_of (vs_trim s) e) = filter (\<lambda>(c, v). p < c) (entries_of s e)"
    unfolding ts(3) filter_filter using f by (intro filter_cong) (auto simp: not_less [symmetric])
  then show ?thesis by (simp add: version_at_first [OF s(1)] version_at_first [OF s(2)])
qed

lemma floor_below_pins:
  assumes "pins_ok s" and "p \<in> set (map fst (vs_pins s))" and "old_at (trim_floor s) c"
  shows "c \<le> p"
proof -
  obtain q k qs where ps: "vs_pins s = (q, k) # qs" using assms(2) by (cases "vs_pins s") auto
  then have "q \<le> p" using assms(1,2) by (auto simp: pins_ok_def less_imp_le)
  with assms(3) ps show ?thesis by (simp add: old_at_def trim_floor_def)
qed

lemma view_at_cong:
  "vs_live s e = vs_live t e \<Longrightarrow> version_at e p s = version_at e p t \<Longrightarrow> view_at s p e = view_at t p e"
  by (simp add: view_at_def vs_get_at_def vs_get_def Let_def)

lemma view_at_trim:
  assumes "index_ok s" and "history_ok b s" and "pins_ok s" and "p \<in> set (map fst (vs_pins s))"
  shows "view_at (vs_trim s) p = view_at s p"
  using assms floor_below_pins [OF assms(3,4)]
  by (intro ext view_at_cong fun_cong [OF trim_spec(6)] version_at_trim) auto

section \<open>Applying a write set\<close>

definition to_row :: "'r version \<Rightarrow> 'r option" where
  "to_row v = (case v of Row r \<Rightarrow> Some r | _ \<Rightarrow> None)"

lemma to_row_vs_get [simp]: "to_row (vs_get e s) = vs_live s e"
  by (simp add: to_row_def vs_get_def split: option.splits)

lemma vs_get_not_LIVE [simp]: "vs_get e s \<noteq> LIVE"
  by (simp add: vs_get_def split: option.splits)

lemma vs_get_ABSENT [simp]: "vs_get e s = ABSENT \<longleftrightarrow> vs_live s e = None"
  by (simp add: vs_get_def split: option.splits)

lemma view_at_row: "view_at s p e = to_row (vs_get_at e p s)"
  by (simp add: view_at_def to_row_def)

definition outcome :: "'x \<Rightarrow> 'v pending \<Rightarrow> ('x \<times> 'v) option" where
  "outcome key value = (case value of Val v \<Rightarrow> Some (key, v) | DELETED \<Rightarrow> None)"

definition same_but_live :: "('e, 'x, 'v) vstore \<Rightarrow> ('e, 'x, 'v) vstore \<Rightarrow> bool" where
  "same_but_live s t \<longleftrightarrow>
     vs_generation t = vs_generation s \<and> vs_seq t = vs_seq s \<and> vs_history t = vs_history s \<and>
     vs_history_index t = vs_history_index s \<and> vs_undo_log t = vs_undo_log s \<and>
     vs_pins t = vs_pins s \<and> vs_deferred t = vs_deferred s"

lemma apply_live_Some:
  assumes "index_ok s" and "apply_live raises enc key value s = Inr (Some t)"
  shows "vs_live t = (vs_live s)(enc := outcome key value)" and "index_ok t" and "same_but_live s t"
    and "\<not> (value = DELETED \<and> vs_live s enc = None)"
  using assms
  by (auto simp: apply_live_def outcome_def same_but_live_def index_ok_def Let_def
      index.discard_inv index.discard_keys index.add_inv index.add_keys domIff
      split: pending.splits if_splits)

lemma apply_live_None:
  "apply_live raises enc key value s = Inr None \<Longrightarrow> value = DELETED \<and> vs_live s enc = None"
  by (auto simp: apply_live_def Let_def split: pending.splits if_splits)

definition same_but_record :: "('e, 'x, 'v) vstore \<Rightarrow> ('e, 'x, 'v) vstore \<Rightarrow> bool" where
  "same_but_record s t \<longleftrightarrow>
     vs_generation t = vs_generation s \<and> vs_seq t = vs_seq s \<and> vs_live t = vs_live s \<and>
     vs_index t = vs_index s \<and> vs_pins t = vs_pins s \<and> vs_deferred t = vs_deferred s"

lemma apply_record_cases:
  assumes i: "index_ok s" and n: "no_empty s" and r: "apply_record raises seq newest enc old s = Inr (t, k)"
  obtains (skip) "t = s" "k = 0" "newest = None"
  | (covered) p where "t = s" "k = 0" "newest = Some p" "entries_of s enc \<noteq> []" "p < fst (last (entries_of s enc))"
  | (recorded) p where "newest = Some p" "k = 1" "vs_history t = (vs_history s)(enc \<mapsto> entries_of s enc @ [(seq, old)])"
      "vs_undo_log t = vs_undo_log s @ [(seq, enc)]" "index_ok t" "same_but_record s t"
      "entries_of s enc = [] \<or> fst (last (entries_of s enc)) \<le> p"
proof (cases newest)
  case None
  with r skip show thesis by (simp add: apply_record_def)
next
  case (Some p)
  show thesis
  proof (cases "vs_history s enc")
    case None
    then have e: "entries_of s enc = []" by (simp add: entries_of_def)
    have k: "enc \<notin> set (sk_iter (vs_history_index s))" using i None by (simp add: index_ok_def domIff)
    have t: "t = s\<lparr>vs_history_index := sk_add enc (vs_history_index s),
        vs_history := (vs_history s)(enc \<mapsto> [(seq, old)]), vs_undo_log := vs_undo_log s @ [(seq, enc)]\<rparr>" "k = 1"
      using r Some None by (auto simp: apply_record_def split: if_splits)
    have "index_ok t" unfolding t using i k by (auto simp: index_ok_def index.add_inv index.add_keys)
    then show thesis using recorded [OF Some] t e by (simp add: same_but_record_def)
  next
    case (Some es)
    then have e: "entries_of s enc = es" "es \<noteq> []" using n by (auto simp: entries_of_def no_empty_def)
    show thesis
    proof (cases "fst (last es) \<le> p")
      case True
      then have t: "t = s\<lparr>vs_history := (vs_history s)(enc \<mapsto> es @ [(seq, old)]),
          vs_undo_log := vs_undo_log s @ [(seq, enc)]\<rparr>" "k = 1"
        using r \<open>newest = Some p\<close> Some by (auto simp: apply_record_def)
      have "index_ok t" unfolding t using i Some by (auto simp: index_ok_def)
      then show thesis using recorded [OF \<open>newest = Some p\<close>] t e True by (simp add: same_but_record_def)
    next
      case False
      then show thesis using covered r \<open>newest = Some p\<close> Some e by (auto simp: apply_record_def)
    qed
  qed
qed

lemma log_bounded:
  assumes "history_ok b s" and "(c, e) \<in> set (vs_undo_log s)"
  shows "c \<le> b"
proof -
  have "c \<in> set (map fst (filter (\<lambda>(c, x). x = e) (vs_undo_log s)))" using assms(2) by force
  then have "c \<in> set (map fst (entries_of s e))" using assms(1) unfolding history_ok_def by metis
  then obtain v where "(c, v) \<in> set (entries_of s e)" by auto
  then show ?thesis using assms(1) unfolding history_ok_def by fastforce
qed

lemma history_ok_record:
  assumes h: "history_ok seq s" and old: "old \<noteq> LIVE"
    and t: "vs_history t = (vs_history s)(enc \<mapsto> entries_of s enc @ [(seq, old)])"
      "vs_undo_log t = vs_undo_log s @ [(seq, enc)]"
    and l: "entries_of s enc = [] \<or> fst (last (entries_of s enc)) < seq"
  shows "history_ok seq t"
proof -
  have e: "entries_of t x = (if x = enc then entries_of s enc @ [(seq, old)] else entries_of s x)" for x
    by (simp add: entries_of_def t)
  have s: "sorted_wrt (<) (map fst (entries_of s x))" for x by (rule history_sorted [OF h])
  have lt: "\<forall>c \<in> set (map fst (entries_of s enc)). c < seq"
  proof (cases "entries_of s enc" rule: rev_cases)
    case Nil
    then show ?thesis by simp
  next
    case (snoc ys y)
    with s [of enc] l show ?thesis by (auto simp: sorted_wrt_append)
  qed
  have "sorted_wrt (<) (map fst (entries_of t x))" for x
    using s [of x] s [of enc] lt by (auto simp: e sorted_wrt_append)
  moreover have "sorted_wrt (\<le>) (map fst (vs_undo_log t))"
    using h log_bounded [OF h] unfolding t(2) history_ok_def by (auto simp: sorted_wrt_append)
  moreover have "map fst (entries_of t x) = map fst (filter (\<lambda>(c, y). y = x) (vs_undo_log t))" for x
    using h unfolding history_ok_def by (auto simp: e t(2))
  moreover have "\<forall>(c, v) \<in> set (entries_of t x). c \<le> seq \<and> v \<noteq> LIVE" for x
    using h old unfolding history_ok_def by (auto simp: e)
  moreover have "vs_history t x = Some es \<Longrightarrow> es \<noteq> []" for x es
    using h unfolding history_ok_def by (auto simp: t split: if_splits)
  ultimately show ?thesis unfolding history_ok_def by blast
qed

text \<open>A commit leaves what every open pin sees unchanged, key by key.\<close>

lemma step_view:
  assumes h: "history_ok seq s" and q: "q \<le> p" "p < seq" and i: "index_ok s"
    and l: "apply_live raises enc key value s = Inr (Some t)"
    and r: "apply_record raises seq (Some p) enc (vs_get enc s) t = Inr (u, k)"
    and hu: "history_ok seq u"
  shows "view_at u q = view_at s q"
proof
  fix e
  note al = apply_live_Some [OF i l]
  have ent: "entries_of t = entries_of s" and ht: "vs_history t = vs_history s"
    using al(3) by (auto simp: same_but_live_def entries_of_def fun_eq_iff)
  have nt: "no_empty t" using no_emptyI [OF h] by (simp add: no_empty_def ht)
  note vs = version_at_first [OF history_sorted [OF h]] and vu = version_at_first [OF history_sorted [OF hu]]
  have nl: "v \<noteq> LIVE" if "(c, v) \<in> set (entries_of s e)" for c v
    using h that unfolding history_ok_def by fastforce
  show "view_at u q e = view_at s q e"
  proof (cases "e = enc")
    case False
    from al(2) nt r have "entries_of u e = entries_of t e \<and> vs_live u = vs_live t"
      by (cases rule: apply_record_cases) (use False in \<open>auto simp: entries_of_def same_but_record_def\<close>)
    then have "entries_of u e = entries_of s e \<and> vs_live u = vs_live t" by (simp add: ent)
    with False al(1) have "vs_live u e = vs_live s e" "version_at e q u = version_at e q s"
      by (simp_all add: vs vu)
    then show ?thesis by (rule view_at_cong)
  next
    case True
    from al(2) nt r show ?thesis
    proof (cases rule: apply_record_cases)
      case skip
      then show ?thesis by simp
    next
      case (covered p')
      then have c: "fst (last (entries_of s enc)) > q" "entries_of s enc \<noteq> []" using q ent by auto
      then have "last (entries_of s enc) \<in> set (filter (\<lambda>(c, v). q < c) (entries_of s enc))"
        by (auto simp: case_prod_unfold)
      then obtain c v xs where f: "filter (\<lambda>(c, v). q < c) (entries_of s enc) = (c, v) # xs"
        by (cases "filter (\<lambda>(c, v). q < c) (entries_of s enc)") auto
      then have "(c, v) \<in> set (entries_of s enc)" by (metis filter_is_subset list.set_intros(1) subsetD)
      with nl True have "v \<noteq> LIVE" by simp
      moreover have "version_at enc q s = v" "version_at enc q u = v"
        unfolding vs vu using covered(1) by (simp_all add: f ent)
      ultimately show ?thesis by (simp add: True view_at_row vs_get_at_def Let_def)
    next
      case (recorded p')
      have eu: "entries_of u enc = entries_of s enc @ [(seq, vs_get enc s)]"
        by (simp add: entries_of_def recorded(3) ent [symmetric])
      show ?thesis
      proof (cases "filter (\<lambda>(c, v). q < c) (entries_of s enc)")
        case Nil
        then have "version_at enc q s = LIVE" "version_at enc q u = vs_get enc s"
          unfolding vs vu eu using q by simp_all
        then show ?thesis by (simp add: True view_at_row vs_get_at_def Let_def)
      next
        case (Cons cv xs)
        then have "cv \<in> set (entries_of s enc)" by (metis filter_is_subset list.set_intros(1) subsetD)
        with nl True have "snd cv \<noteq> LIVE" by (cases cv) auto
        moreover have "version_at enc q s = snd cv" "version_at enc q u = snd cv"
          unfolding vs vu eu using Cons by (simp_all add: case_prod_unfold)
        ultimately show ?thesis by (simp add: True view_at_row vs_get_at_def Let_def)
      qed
    qed
  qed
qed

section \<open>Undoing a partial commit\<close>

definition ul :: "'e \<times> 'r version \<Rightarrow> ('e \<rightharpoonup> 'r) \<Rightarrow> 'e \<rightharpoonup> 'r" where
  "ul item m = m(fst item := to_row (snd item))"

lemma undo_live_props:
  assumes "index_ok s"
  shows "index_ok (undo_live x s)" and "vs_live (undo_live x s) = ul x (vs_live s)"
    and "same_but_live s (undo_live x s)"
proof -
  obtain e old where x: "x = (e, old)" by (cases x)
  have "index_ok (undo_live x s) \<and> vs_live (undo_live x s) = ul x (vs_live s) \<and> same_but_live s (undo_live x s)"
  proof (cases old)
    case (Row r)
    with assms show ?thesis
      by (auto simp: x undo_live_def ul_def to_row_def same_but_live_def index_ok_def Let_def
          index.add_inv index.add_keys domIff)
  qed (use assms in \<open>cases "vs_live s e"; auto simp: x undo_live_def ul_def to_row_def same_but_live_def
      index_ok_def index.discard_inv index.discard_keys domIff fun_eq_iff\<close>)+
  then show "index_ok (undo_live x s)" "vs_live (undo_live x s) = ul x (vs_live s)"
    "same_but_live s (undo_live x s)" by simp_all
qed

lemma fold_undo_live:
  "index_ok s \<Longrightarrow> index_ok (fold undo_live xs s) \<and>
   vs_live (fold undo_live xs s) = fold ul xs (vs_live s) \<and> same_but_live s (fold undo_live xs s)"
proof (induction xs arbitrary: s)
  case Nil
  then show ?case by (simp add: same_but_live_def)
next
  case (Cons x xs)
  with undo_live_props [OF Cons.prems, of x] show ?case by (auto simp: same_but_live_def)
qed

lemma history_ok_same_live: "same_but_live s t \<Longrightarrow> history_ok b t = history_ok b s"
  by (simp add: same_but_live_def history_ok_def entries_of_def)

definition ur :: "('e \<rightharpoonup> (nat \<times> 'r) list) \<times> (nat \<times> 'e) list \<Rightarrow> ('e \<rightharpoonup> (nat \<times> 'r) list) \<times> (nat \<times> 'e) list" where
  "ur hl = (let (h, l) = hl; enc = snd (last l); es = butlast (the (h enc))
     in (h(enc := if es = [] then None else Some es), butlast l))"

definition hist :: "('e, 'x, 'v) vstore \<Rightarrow> ('e \<rightharpoonup> (nat \<times> ('x \<times> 'v) version) list) \<times> (nat \<times> 'e) list" where
  "hist s = (vs_history s, vs_undo_log s)"

lemma hist_undo_record: "hist (undo_record s) = ur (hist s)"
  by (simp add: hist_def ur_def undo_record_def Let_def)

lemma undo_record_same: "same_but_record s (undo_record s)"
  by (simp add: same_but_record_def undo_record_def Let_def)

lemma undo_record_ok:
  assumes i: "index_ok s" and h: "history_ok b s" and l: "vs_undo_log s \<noteq> []"
  shows "index_ok (undo_record s)" and "history_ok b (undo_record s)"
proof -
  obtain c e log where lg: "vs_undo_log s = log @ [(c, e)]"
    using l by (metis append_butlast_last_id surj_pair)
  then have "vs_history s e \<noteq> None" by (intro history_in_log [OF h, of c]) simp
  then obtain es where es: "vs_history s e = Some es" by blast
  then have ne: "es \<noteq> []" using h unfolding history_ok_def by blast
  show "index_ok (undo_record s)"
    using i es by (auto simp: undo_record_def lg Let_def index_ok_def index.discard_inv index.discard_keys domIff)
  have ent: "entries_of (undo_record s) x = (if x = e then butlast es else entries_of s x)" for x
    by (simp add: entries_of_def undo_record_def lg es Let_def)
  have ees: "entries_of s e = es" by (simp add: entries_of_def es)
  have log': "vs_undo_log (undo_record s) = log" by (simp add: undo_record_def lg Let_def)
  have s: "sorted_wrt (<) (map fst (entries_of s x))" for x by (rule history_sorted [OF h])
  have "sorted_wrt (<) (map fst (entries_of (undo_record s) x))" for x
    using s [of x] s [of e] by (auto simp: ent ees map_butlast) (simp add: butlast_conv_take sorted_wrt_take take_map [symmetric])
  moreover have "\<forall>(c, v) \<in> set (entries_of (undo_record s) x). c \<le> b \<and> v \<noteq> LIVE" for x
  proof -
    have "\<forall>(c, v) \<in> set (entries_of s x). c \<le> b \<and> v \<noteq> LIVE" using h unfolding history_ok_def by blast
    moreover have "set (entries_of (undo_record s) x) \<subseteq> set (entries_of s x)"
      by (auto simp: ent ees dest: in_set_butlastD)
    ultimately show ?thesis by blast
  qed
  moreover have "sorted_wrt (\<le>) (map fst (vs_undo_log (undo_record s)))"
    using h unfolding log' history_ok_def by (simp add: lg sorted_wrt_append)
  moreover have "map fst (entries_of (undo_record s) x) =
      map fst (filter (\<lambda>(c, y). y = x) (vs_undo_log (undo_record s)))" for x
  proof -
    have "map fst (entries_of s x) = map fst (filter (\<lambda>(c, y). y = x) (log @ [(c, e)]))"
      using h unfolding history_ok_def lg by blast
    then show ?thesis by (auto simp: ent log' ees map_butlast)
  qed
  moreover have "vs_history (undo_record s) x = Some ys \<Longrightarrow> ys \<noteq> []" for x ys
    using h unfolding history_ok_def by (auto simp: undo_record_def Let_def split: if_splits)
  ultimately show "history_ok b (undo_record s)" unfolding history_ok_def by blast
qed

lemma undo_records:
  assumes "index_ok s" and "history_ok b s" and "r \<le> length (vs_undo_log s)"
  shows "index_ok ((undo_record ^^ r) s) \<and> history_ok b ((undo_record ^^ r) s) \<and>
    hist ((undo_record ^^ r) s) = (ur ^^ r) (hist s) \<and> same_but_record s ((undo_record ^^ r) s) \<and>
    length (vs_undo_log ((undo_record ^^ r) s)) = length (vs_undo_log s) - r"
  using assms(3)
proof (induction r)
  case 0
  with assms show ?case by (simp add: same_but_record_def)
next
  case (Suc r)
  let ?t = "(undo_record ^^ r) s"
  have IH: "index_ok ?t" "history_ok b ?t" "hist ?t = (ur ^^ r) (hist s)" "same_but_record s ?t"
    "length (vs_undo_log ?t) = length (vs_undo_log s) - r" using Suc by auto
  then have "vs_undo_log ?t \<noteq> []" using Suc.prems by auto
  from undo_record_ok [OF IH(1,2) this] IH show ?case
    using undo_record_same [of ?t] hist_undo_record [of ?t]
    by (simp add: same_but_record_def) (simp add: undo_record_def Let_def)
qed

text \<open>What the loop maintains so that \<open>_undo\<close> restores the state it started in.\<close>

definition undoable ::
  "nat \<Rightarrow> ('e::linorder, 'x, 'v) vstore \<Rightarrow> ('e, 'x, 'v) vstore \<Rightarrow> ('e \<times> ('x \<times> 'v) version) list \<Rightarrow> nat \<Rightarrow> bool" where
  "undoable seq s0 s finished recorded \<longleftrightarrow>
     index_ok s \<and> history_ok seq s \<and> fold ul (rev finished) (vs_live s) = vs_live s0 \<and>
     (ur ^^ recorded) (hist s) = hist s0 \<and> recorded \<le> length (vs_undo_log s) \<and>
     vs_generation s = vs_generation s0 \<and> vs_seq s = vs_seq s0 \<and> vs_pins s = vs_pins s0 \<and>
     vs_deferred s = vs_deferred s0"

lemma undoable_start: "index_ok s \<Longrightarrow> history_ok seq s \<Longrightarrow> undoable seq s s [] 0"
  by (simp add: undoable_def)

lemma undoable_live:
  assumes u: "undoable seq s0 s f r" and l: "apply_live raises enc key value s = Inr (Some t)"
  shows "undoable seq s0 t (f @ [(enc, vs_get enc s)]) r"
proof -
  have i: "index_ok s" using u by (simp add: undoable_def)
  note al = apply_live_Some [OF i l]
  have "ul (enc, vs_get enc s) (vs_live t) = vs_live s" by (simp add: ul_def al(1))
  with u al show ?thesis
    by (auto simp: undoable_def same_but_live_def hist_def history_ok_same_live [OF al(3)])
qed

lemma undoable_record:
  assumes u: "undoable seq s0 s f r" and p: "\<And>p. newest = Some p \<Longrightarrow> p < seq" and old: "old \<noteq> LIVE"
    and ar: "apply_record raises seq newest enc old s = Inr (t, k)"
  shows "undoable seq s0 t f (r + k)"
proof -
  have i: "index_ok s" and h: "history_ok seq s" using u by (simp_all add: undoable_def)
  from i no_emptyI [OF h] ar show ?thesis
  proof (cases rule: apply_record_cases)
    case skip
    with u show ?thesis by simp
  next
    case (covered p)
    with u show ?thesis by simp
  next
    case (recorded q)
    have l: "entries_of s enc = [] \<or> fst (last (entries_of s enc)) < seq"
      using recorded(1,7) p by fastforce
    have ht: "history_ok seq t" by (rule history_ok_record [OF h old recorded(3,4) l])
    have "ur (hist t) = hist s"
      using no_emptyI [OF h]
      by (auto simp: ur_def hist_def recorded(3,4) entries_of_def no_empty_def Let_def fun_eq_iff split: option.splits)
    then have "(ur ^^ (r + k)) (hist t) = hist s0"
      using u recorded(2) by (simp add: undoable_def funpow_swap1 funpow_add)
    with u recorded ht show ?thesis by (auto simp: undoable_def same_but_record_def)
  qed
qed

lemma undo_restores:
  assumes "undoable seq s0 s f r"
  shows "index_ok (vs_undo f r s)" and "history_ok seq (vs_undo f r s)"
    and "vs_live (vs_undo f r s) = vs_live s0" and "vs_history (vs_undo f r s) = vs_history s0"
    and "vs_undo_log (vs_undo f r s) = vs_undo_log s0" and "vs_seq (vs_undo f r s) = vs_seq s0"
    and "vs_generation (vs_undo f r s) = vs_generation s0" and "vs_pins (vs_undo f r s) = vs_pins s0"
    and "vs_deferred (vs_undo f r s) = vs_deferred s0"
proof -
  let ?t = "fold undo_live (rev f) s"
  have u: "index_ok s" "history_ok seq s" "r \<le> length (vs_undo_log s)" using assms by (simp_all add: undoable_def)
  have T: "index_ok ?t" "vs_live ?t = fold ul (rev f) (vs_live s)" "same_but_live s ?t"
    using fold_undo_live [OF u(1)] by auto
  have "history_ok seq ?t" "r \<le> length (vs_undo_log ?t)"
    using u T(3) by (simp_all add: history_ok_same_live [OF T(3)]) (simp add: same_but_live_def)
  note R = undo_records [OF T(1) this]
  have "hist (vs_undo f r s) = hist s0" "same_but_record ?t (vs_undo f r s)" "index_ok (vs_undo f r s)"
    "history_ok seq (vs_undo f r s)"
    using R T(3) assms by (auto simp: vs_undo_def undoable_def hist_def same_but_live_def)
  with T assms show "index_ok (vs_undo f r s)" and "history_ok seq (vs_undo f r s)"
    and "vs_live (vs_undo f r s) = vs_live s0" and "vs_history (vs_undo f r s) = vs_history s0"
    and "vs_undo_log (vs_undo f r s) = vs_undo_log s0" and "vs_seq (vs_undo f r s) = vs_seq s0"
    and "vs_generation (vs_undo f r s) = vs_generation s0" and "vs_pins (vs_undo f r s) = vs_pins s0"
    and "vs_deferred (vs_undo f r s) = vs_deferred s0"
    by (simp_all add: hist_def same_but_record_def same_but_live_def undoable_def)
qed

section \<open>The commit loop\<close>

definition write_map :: "('e \<times> 'x \<times> 'v pending) list \<Rightarrow> ('e \<rightharpoonup> 'x \<times> 'v) \<Rightarrow> 'e \<rightharpoonup> 'x \<times> 'v" where
  "write_map ops m = fold (\<lambda>(e, key, value) m. m(e := outcome key value)) ops m"

definition deleted_keys :: "('e \<times> 'x \<times> 'v pending) list \<Rightarrow> ('e \<rightharpoonup> 'x \<times> 'v) \<Rightarrow> 'x set" where
  "deleted_keys ops m = {key. \<exists>e. (e, key, DELETED) \<in> set ops \<and> m e \<noteq> None}"

lemma apply_loop_props:
  assumes "apply_loop raises seq newest ops s m f r = (failure, t, m', f', r')"
    and "undoable seq s0 s f r" and "\<And>p. newest = Some p \<Longrightarrow> p < seq"
  shows "undoable seq s0 t f' r'"
    and "failure = None \<Longrightarrow> vs_live t = write_map ops (vs_live s)"
    and "failure = None \<Longrightarrow> newest = Some p \<Longrightarrow> q \<le> p \<Longrightarrow> view_at t q = view_at s q"
proof -
  have "undoable seq s0 t f' r' \<and> (failure = None \<longrightarrow> vs_live t = write_map ops (vs_live s) \<and>
      (\<forall>p q. newest = Some p \<longrightarrow> q \<le> p \<longrightarrow> view_at t q = view_at s q))"
    using assms
  proof (induction ops arbitrary: s m f r)
    case Nil
    then show ?case by (auto simp: write_map_def)
  next
    case (Cons op ops)
    obtain enc key w where op: "op = (enc, key, w)" by (cases op)
    let ?old = "vs_get enc s"
    have i: "index_ok s" and h: "history_ok seq s" using Cons.prems(2) by (simp_all add: undoable_def)
    have wm: "write_map (op # ops) (vs_live s) = write_map ops ((vs_live s)(enc := outcome key w))"
      by (simp add: write_map_def op)
    show ?case
    proof (cases "apply_live raises enc key w s")
      case (Inl e)
      with Cons.prems show ?thesis by (auto simp: op Let_def)
    next
      case al: (Inr a)
      show ?thesis
      proof (cases a)
        case None
        with al have v: "w = DELETED \<and> vs_live s enc = None" by (intro apply_live_None) simp
        then have "(vs_live s)(enc := outcome key w) = vs_live s" by (auto simp: outcome_def)
        with wm have "write_map (op # ops) (vs_live s) = write_map ops (vs_live s)" by simp
        moreover have "apply_loop raises seq newest ops s m f r = (failure, t, m', f', r')"
          using Cons.prems(1) None al by (simp add: op Let_def)
        ultimately show ?thesis using Cons.IH [OF _ Cons.prems(2,3)] by metis
      next
        case (Some s1)
        have l: "apply_live raises enc key w s = Inr (Some s1)" using al Some by simp
        note u1 = undoable_live [OF Cons.prems(2) l]
        let ?m = "if w = DELETED then insert key m else m"
        let ?f = "f @ [(enc, ?old)]"
        show ?thesis
        proof (cases "apply_record raises seq newest enc ?old s1")
          case (Inl e)
          with Cons.prems(1) l u1 show ?thesis by (auto simp: op Let_def)
        next
          case (Inr b)
          obtain s2 k where b: "b = (s2, k)" by (cases b)
          have ar: "apply_record raises seq newest enc ?old s1 = Inr (s2, k)" using Inr b by simp
          have u2: "undoable seq s0 s2 ?f (r + k)"
            by (rule undoable_record [OF u1 Cons.prems(3) _ ar]) simp_all
          have rest: "apply_loop raises seq newest ops s2 ?m ?f (r + k) = (failure, t, m', f', r')"
            using Cons.prems(1) l ar by (simp add: op Let_def)
          from Cons.IH [OF rest u2 Cons.prems(3)]
          have IH: "undoable seq s0 t f' r'" "failure = None \<Longrightarrow> vs_live t = write_map ops (vs_live s2)"
            "\<And>p q. failure = None \<Longrightarrow> newest = Some p \<Longrightarrow> q \<le> p \<Longrightarrow> view_at t q = view_at s2 q" by blast+
          have h2: "history_ok seq s2" and i1: "index_ok s1" and h1: "history_ok seq s1"
            using u1 u2 by (simp_all add: undoable_def)
          have "vs_live s2 = vs_live s1"
            using i1 no_emptyI [OF h1] ar
            by (cases rule: apply_record_cases) (auto simp: same_but_record_def)
          then have lv: "vs_live s2 = (vs_live s)(enc := outcome key w)"
            by (simp add: apply_live_Some(1) [OF i l])
          have "view_at s2 q = view_at s q" if "newest = Some p" "q \<le> p" for p q
            using step_view [OF h that(2) Cons.prems(3) [OF that(1)] i l _ h2] ar that(1) by simp
          with IH lv wm show ?thesis by simp
        qed
      qed
    qed
  qed
  then show "undoable seq s0 t f' r'"
    and "failure = None \<Longrightarrow> vs_live t = write_map ops (vs_live s)"
    and "failure = None \<Longrightarrow> newest = Some p \<Longrightarrow> q \<le> p \<Longrightarrow> view_at t q = view_at s q" by blast+
qed

lemma apply_live_live: "apply_live raises enc key w s = Inr (Some t) \<Longrightarrow>
    vs_live t = (vs_live s)(enc := outcome key w)"
  by (auto simp: apply_live_def outcome_def Let_def split: pending.splits if_splits)

lemma apply_record_live: "apply_record raises seq newest enc old s = Inr (t, k) \<Longrightarrow> vs_live t = vs_live s"
  by (auto simp: apply_record_def split: option.splits if_splits)

lemma apply_loop_modified:
  "apply_loop raises seq newest ops s m f r = (None, t, m', f', r') \<Longrightarrow> distinct (map fst ops) \<Longrightarrow>
   m' = m \<union> deleted_keys ops (vs_live s)"
proof (induction ops arbitrary: s m f r)
  case Nil
  then show ?case by (simp add: deleted_keys_def)
next
  case (Cons op ops)
  obtain enc key w where op: "op = (enc, key, w)" by (cases op)
  have d: "distinct (map fst ops)" "enc \<notin> fst ` set ops" using Cons.prems(2) op by auto
  have dk: "deleted_keys (op # ops) mm =
      (if w = DELETED \<and> mm enc \<noteq> None then {key} else {}) \<union> deleted_keys ops mm" for mm
    by (auto simp: deleted_keys_def op)
  have dk': "deleted_keys ops (mm(enc := y)) = deleted_keys ops mm" for mm y
    using d(2) by (auto simp: deleted_keys_def image_iff)
  from Cons.prems(1) show ?case
  proof (cases "apply_live raises enc key w s")
    case (Inl e)
    with Cons.prems(1) show ?thesis by (simp add: op)
  next
    case al: (Inr a)
    show ?thesis
    proof (cases a)
      case None
      with al have "w = DELETED \<and> vs_live s enc = None" by (intro apply_live_None) simp
      then have "deleted_keys (op # ops) (vs_live s) = deleted_keys ops (vs_live s)" unfolding dk by simp
      moreover have "apply_loop raises seq newest ops s m f r = (None, t, m', f', r')"
        using Cons.prems(1) None al by (simp add: op Let_def)
      ultimately show ?thesis using Cons.IH [OF _ d(1)] by metis
    next
      case (Some s1)
      let ?m = "if w = DELETED then insert key m else m" and ?f = "f @ [(enc, vs_get enc s)]"
      have l: "apply_live raises enc key w s = Inr (Some s1)" using al Some by simp
      show ?thesis
      proof (cases "apply_record raises seq newest enc (vs_get enc s) s1")
        case (Inl e)
        with Cons.prems(1) l show ?thesis by (simp add: op Let_def)
      next
        case (Inr b)
        obtain s2 k where b: "b = (s2, k)" by (cases b)
        with Inr Cons.prems(1) l have "apply_loop raises seq newest ops s2 ?m ?f (r + k) = (None, t, m', f', r')"
          by (simp add: op Let_def)
        from Cons.IH [OF this d(1)] have "m' = ?m \<union> deleted_keys ops (vs_live s2)" .
        moreover have "vs_live s2 = (vs_live s)(enc := outcome key w)"
          using apply_record_live [OF Inr [unfolded b]] apply_live_live [OF l] by simp
        moreover have "w = DELETED \<Longrightarrow> vs_live s enc \<noteq> None"
          using l by (auto simp: apply_live_def split: if_splits)
        ultimately show ?thesis by (auto simp: dk dk')
      qed
    qed
  qed
qed

section \<open>Operations preserve the invariant and the views of open pins\<close>

definition pinned :: "('e, 'x, 'v) vstore \<Rightarrow> nat set" where
  "pinned s = set (map fst (vs_pins s))"

lemma pinned_iff: "pins_ok s \<Longrightarrow> p \<in> pinned s \<longleftrightarrow> 0 < pin_count s p"
  by (simp add: pinned_def pin_count_pos)

lemma view_at_fields:
  "vs_live t = vs_live s \<Longrightarrow> vs_history t = vs_history s \<Longrightarrow> view_at t = view_at s"
  by (intro ext) (simp add: view_at_def vs_get_at_def vs_get_def version_at_def Let_def)

lemma view_at_now:
  assumes "history_ok (vs_seq s) s" and "vs_seq s \<le> p"
  shows "view_at s p = vs_live s"
proof
  fix e
  have "filter (\<lambda>(c, v). p < c) (entries_of s e) = []"
    using assms unfolding history_ok_def by (fastforce simp: filter_empty_conv)
  then have "version_at e p s = LIVE" by (simp add: version_at_first [OF history_sorted [OF assms(1)]])
  then show "view_at s p e = vs_live s e" by (simp add: view_at_row vs_get_at_def)
qed

lemma index_ok_fields:
  "vs_live t = vs_live s \<Longrightarrow> vs_index t = vs_index s \<Longrightarrow> vs_history t = vs_history s \<Longrightarrow>
   vs_history_index t = vs_history_index s \<Longrightarrow> index_ok t = index_ok s"
  by (simp add: index_ok_def)

lemma history_ok_fields:
  "vs_history t = vs_history s \<Longrightarrow> vs_undo_log t = vs_undo_log s \<Longrightarrow> history_ok b t = history_ok b s"
  by (simp add: history_ok_def entries_of_def)

lemma drain_inv: "vs_inv s \<Longrightarrow> vs_inv (vs_drain s)"
  using index_ok_fields [of "vs_drain s" s] history_ok_fields [of "vs_drain s" s]
  by (simp add: vs_inv_def drain_pins_ok)

lemma release_inv: "vs_inv s \<Longrightarrow> vs_inv (vs_release t s)"
  using index_ok_fields [of "vs_release t s" s] history_ok_fields [of "vs_release t s" s]
  by (simp add: vs_inv_def release_pins_ok)

lemma trim_inv:
  assumes "vs_inv s"
  shows "vs_inv (vs_trim s)"
proof -
  have i: "index_ok s" "history_ok (vs_seq s) s" "pins_ok s" using assms by (simp_all add: vs_inv_def)
  note T = trim_spec [OF i(1,2)]
  have "pins_ok (vs_trim s)" using i(3) by (simp add: pins_ok_def T(8,9))
  with T(1,2) show ?thesis by (simp add: vs_inv_def T(8))
qed

lemma drain_if_inv: "vs_inv s \<Longrightarrow> vs_inv (if vs_deferred s \<noteq> [] then vs_drain s else s)"
  by (simp add: drain_inv)

lemma outstanding_drained: "pin_count (if vs_deferred s \<noteq> [] then vs_drain s else s) p = outstanding s p"
  by (simp add: drain_count) (simp add: outstanding_def)

lemma sorted_update:
  assumes "sorted_wrt (<) (map fst (xs :: (nat \<times> 'a) list))" and "\<forall>x \<in> set (map fst xs). x \<le> k"
  shows "sorted_wrt (<) (map fst (AList.update k v xs))"
proof (cases "k \<in> set (map fst xs)")
  case True
  with assms(1) show ?thesis by (simp add: update_keys)
next
  case False
  with assms(2) have "\<forall>x \<in> set (map fst xs). x < k" by (metis le_neq_implies_less)
  with assms(1) False show ?thesis by (simp add: update_keys sorted_wrt_append)
qed

lemma vs_pin_props:
  assumes i: "vs_inv s" and p: "vs_pin s = (tok, t)"
  shows "vs_inv t" and "tok = (vs_generation s, vs_seq s)" and "view_at t = view_at s"
    and "vs_live t = vs_live s" and "vs_generation t = vs_generation s" and "vs_seq t = vs_seq s"
    and "vs_deferred t = []"
    and "outstanding t q = (if q = vs_seq s then outstanding s q + 1 else outstanding s q)"
proof -
  let ?d = "if vs_deferred s \<noteq> [] then vs_drain s else s"
  have t: "t = ?d\<lparr>vs_pins := AList.update (vs_seq s) (dict_get (vs_seq s) 0 (vs_pins ?d) + 1) (vs_pins ?d)\<rparr>"
    and tok: "tok = (vs_generation s, vs_seq s)"
    using p by (auto simp: vs_pin_def Let_def)
  have d: "vs_inv ?d" using i by (rule drain_if_inv)
  have f: "vs_live ?d = vs_live s" "vs_generation ?d = vs_generation s" "vs_seq ?d = vs_seq s"
    "vs_history ?d = vs_history s" "vs_deferred ?d = []"
    by simp_all
  show "tok = (vs_generation s, vs_seq s)" by (rule tok)
  show "vs_live t = vs_live s" "vs_generation t = vs_generation s" "vs_seq t = vs_seq s" "vs_deferred t = []"
    unfolding t using f by simp_all
  show "view_at t = view_at s" using f unfolding t by (intro view_at_fields) simp_all
  have po: "pins_ok ?d" using d by (simp add: vs_inv_def)
  have "sorted_wrt (<) (map fst (AList.update (vs_seq s) k (vs_pins ?d)))" for k
  proof -
    have "\<forall>x \<in> set (map fst (vs_pins ?d)). x \<le> vs_seq s"
      using po f(3) map_of_eq_None_iff [of "vs_pins ?d"] unfolding pins_ok_def by (metis not_None_eq set_map)
    with po show ?thesis by (intro sorted_update) (auto simp: pins_ok_def)
  qed
  then have "pins_ok t" using po f(3) unfolding t by (simp add: pins_ok_def update_conv')
  moreover have "index_ok t" "history_ok (vs_seq t) t"
    using d index_ok_fields [of t ?d] history_ok_fields [of t ?d] unfolding t by (simp_all add: vs_inv_def)
  ultimately show "vs_inv t" by (simp add: vs_inv_def)
  have "pin_count t q = (if q = vs_seq s then pin_count ?d q + 1 else pin_count ?d q)"
    unfolding t by (simp add: pin_count_def dict_get_def update_conv')
  moreover have "outstanding t q = pin_count t q" using \<open>vs_deferred t = []\<close> by (simp add: outstanding_def)
  ultimately show "outstanding t q = (if q = vs_seq s then outstanding s q + 1 else outstanding s q)"
    by (simp only: outstanding_drained)
qed

lemma trim_views:
  assumes "vs_inv s" and "p \<in> pinned s"
  shows "view_at (vs_trim s) p = view_at s p"
  using assms by (intro view_at_trim) (auto simp: vs_inv_def pinned_def)

lemma vs_unpin_props:
  assumes i: "vs_inv s"
  shows "vs_inv (vs_unpin tok s)" and "vs_live (vs_unpin tok s) = vs_live s"
    and "vs_generation (vs_unpin tok s) = vs_generation s" and "vs_seq (vs_unpin tok s) = vs_seq s"
    and "p \<in> pinned (vs_unpin tok s) \<Longrightarrow> view_at (vs_unpin tok s) p = view_at s p"
    and "outstanding (vs_unpin tok s) p =
      outstanding s p - (if tok = (vs_generation s, p) then 1 else 0)"
proof -
  let ?r = "vs_release tok s"
  let ?d = "if vs_deferred ?r \<noteq> [] then vs_drain ?r else ?r"
  have u: "vs_unpin tok s = vs_trim ?d" by (simp add: vs_unpin_def Let_def)
  have d: "vs_inv ?d" by (rule drain_if_inv [OF release_inv [OF i]])
  have f: "vs_live ?d = vs_live s" "vs_generation ?d = vs_generation s" "vs_seq ?d = vs_seq s"
    "vs_history ?d = vs_history s" "vs_deferred ?d = []" by simp_all
  have ts: "index_ok ?d" "history_ok (vs_seq ?d) ?d" using d by (simp_all add: vs_inv_def)
  note T = trim_spec [OF ts]
  show "vs_inv (vs_unpin tok s)" unfolding u by (rule trim_inv [OF d])
  show "vs_live (vs_unpin tok s) = vs_live s" "vs_generation (vs_unpin tok s) = vs_generation s"
    "vs_seq (vs_unpin tok s) = vs_seq s"
    unfolding u T by (rule f)+
  show "view_at (vs_unpin tok s) p = view_at s p" if "p \<in> pinned (vs_unpin tok s)"
  proof -
    have "p \<in> pinned ?d" using that unfolding u by (simp only: pinned_def T(9))
    then have "view_at (vs_trim ?d) p = view_at ?d p" by (rule trim_views [OF d])
    moreover have "view_at ?d = view_at s" using f by (intro view_at_fields)
    ultimately show ?thesis by (simp add: u)
  qed
  have "outstanding (vs_unpin tok s) p = pin_count ?d p"
    unfolding u using T(9,10) f(5) by (simp add: outstanding_def pin_count_def)
  also have "\<dots> = outstanding ?r p" by (rule outstanding_drained)
  also have "\<dots> = outstanding s p - (if tok = (vs_generation s, p) then 1 else 0)"
    by (cases tok) (auto simp: outstanding_def pin_count_release)
  finally show "outstanding (vs_unpin tok s) p = outstanding s p - (if tok = (vs_generation s, p) then 1 else 0)" .
qed

lemma vs_unpin_later_props:
  assumes i: "vs_inv s"
  shows "vs_inv (vs_unpin_later tok s)" and "view_at (vs_unpin_later tok s) = view_at s"
    and "vs_live (vs_unpin_later tok s) = vs_live s"
    and "vs_generation (vs_unpin_later tok s) = vs_generation s"
    and "outstanding (vs_unpin_later tok s) p =
      outstanding s p - (if tok = (vs_generation s, p) then 1 else 0)"
proof -
  let ?u = "vs_unpin_later tok s"
  show "vs_inv ?u" using i index_ok_fields [of ?u s] history_ok_fields [of ?u s]
    by (simp add: vs_inv_def vs_unpin_later_def)
  show "view_at ?u = view_at s" by (intro view_at_fields) (simp_all add: vs_unpin_later_def)
  show "vs_live ?u = vs_live s" "vs_generation ?u = vs_generation s" by (simp_all add: vs_unpin_later_def)
  show "outstanding ?u p = outstanding s p - (if tok = (vs_generation s, p) then 1 else 0)"
    by (auto simp: outstanding_def vs_unpin_later_def)
qed

lemma history_ok_mono: "history_ok b s \<Longrightarrow> b \<le> c \<Longrightarrow> history_ok c s"
  unfolding history_ok_def by fastforce

lemma newest_pin:
  assumes "pins_ok s" and "p \<in> pinned s"
  shows "vs_pins s \<noteq> [] \<and> p \<le> fst (last (vs_pins s))"
proof -
  from assms(2) obtain ps q where ps: "vs_pins s = ps @ [q]"
    by (cases "vs_pins s" rule: rev_cases) (auto simp: pinned_def)
  with assms show ?thesis by (auto simp: pinned_def pins_ok_def sorted_wrt_append less_imp_le)
qed

lemma newest_pin_le: "pins_ok s \<Longrightarrow> vs_pins s \<noteq> [] \<Longrightarrow> fst (last (vs_pins s)) \<le> vs_seq s"
proof -
  assume p: "pins_ok s" and ne: "vs_pins s \<noteq> []"
  then have "fst (last (vs_pins s)) \<in> set (map fst (vs_pins s))" by simp
  then obtain k where "map_of (vs_pins s) (fst (last (vs_pins s))) = Some k"
    using map_of_eq_None_iff [of "vs_pins s"] by (metis not_None_eq set_map)
  with p show ?thesis by (auto simp: pins_ok_def)
qed

lemma vs_apply_props:
  assumes i: "vs_inv s" and g: "generation = vs_generation s"
    and a: "vs_apply raises ops modified generation s = (result, modified', t)"
  shows "vs_inv t" and "vs_generation t = vs_generation s"
    and "p \<in> pinned t \<Longrightarrow> view_at t p = view_at s p"
    and "outstanding t p = outstanding s p"
    and "result = Inr seq \<Longrightarrow> seq = vs_seq s + 1 \<and> vs_seq t = seq \<and> vs_live t = write_map ops (vs_live s)"
    and "result = Inr seq \<Longrightarrow> distinct (map fst ops) \<Longrightarrow> modified' = modified \<union> deleted_keys ops (vs_live s)"
    and "result = Inl e \<Longrightarrow> vs_seq t = vs_seq s \<and> vs_live t = vs_live s"
proof -
  define D where "D = (if vs_deferred s \<noteq> [] then vs_trim (vs_drain s) else s)"
  have d: "vs_inv D" using i by (simp add: D_def trim_inv drain_inv)
  have dr: "index_ok (vs_drain s)" "history_ok (vs_seq (vs_drain s)) (vs_drain s)"
    using drain_inv [OF i] by (simp_all add: vs_inv_def)
  note T = trim_spec [OF dr]
  have f: "vs_live D = vs_live s" "vs_generation D = vs_generation s" "vs_seq D = vs_seq s"
    "vs_deferred D = []"
    using T(5-10) by (simp_all add: D_def)
  have dv: "view_at D p = view_at s p" if "p \<in> pinned D" for p
  proof (cases "vs_deferred s = []")
    case False
    with that have "p \<in> pinned (vs_drain s)" by (simp add: D_def pinned_def T(9))
    from trim_views [OF drain_inv [OF i] this] False
    have "view_at D p = view_at (vs_drain s) p" by (simp add: D_def)
    moreover have "view_at (vs_drain s) = view_at s" by (rule view_at_fields) simp_all
    ultimately show ?thesis by simp
  qed (simp add: D_def)
  have od: "pin_count D p = outstanding s p" for p
  proof (cases "vs_deferred s = []")
    case True
    then show ?thesis by (simp add: outstanding_def D_def)
  next
    case False
    have "pin_count (vs_trim (vs_drain s)) p = pin_count (vs_drain s) p" by (simp only: pin_count_def T(9))
    with False show ?thesis by (simp add: drain_count D_def)
  qed
  let ?seq = "vs_seq s + 1"
  let ?newest = "if vs_pins D \<noteq> [] then Some (fst (last (vs_pins D))) else None"
  obtain failure u m f' r where L: "apply_loop raises ?seq ?newest ops D modified [] 0 = (failure, u, m, f', r)"
    by (metis prod_cases5)
  have res: "(result, modified', t) = (case failure of Some e \<Rightarrow> (Inl e, m, vs_undo f' r u)
      | None \<Rightarrow> (Inr ?seq, m, u\<lparr>vs_seq := ?seq\<rparr>))"
    using a g L f(3) unfolding vs_apply_def Let_def D_def [symmetric] by (simp split: option.splits)
  have po: "pins_ok D" and hd: "history_ok ?seq D" and id: "index_ok D"
    using d f(3) by (auto simp only: vs_inv_def elim!: history_ok_mono)
  have np: "p < ?seq" if "?newest = Some p" for p
    using newest_pin_le [OF po] that f(3) by (auto split: if_splits)
  have U: "undoable ?seq D u f' r"
    by (rule apply_loop_props(1) [OF L undoable_start [OF id hd]]) (rule np)
  have fields: "vs_generation u = vs_generation s" "vs_pins u = vs_pins D" "vs_deferred u = []"
    "index_ok u" "history_ok ?seq u" "vs_seq u = vs_seq s"
    using U f by (simp_all add: undoable_def)
  have pd: "pins_ok (s'\<lparr>vs_seq := q\<rparr>)" if "pins_ok s'" "vs_seq s' \<le> q" for s' :: "('a, 'b, 'c) vstore" and q
    using that unfolding pins_ok_def by fastforce
  have cases: "vs_inv t \<and> vs_generation t = vs_generation s \<and> vs_pins t = vs_pins D \<and> vs_deferred t = [] \<and>
    (p \<in> pinned t \<longrightarrow> view_at t p = view_at D p)" for p
  proof (cases failure)
    case None
    with res have t: "t = u\<lparr>vs_seq := ?seq\<rparr>" by simp
    have "index_ok t" "history_ok (vs_seq t) t"
      using fields index_ok_fields [of t u] history_ok_fields [of t u] t by simp_all
    moreover have "pins_ok t"
    proof -
      have "pins_ok u" using po fields f(3) by (simp add: pins_ok_def)
      then show ?thesis unfolding t using fields by (intro pd) simp_all
    qed
    moreover have "view_at t p = view_at D p" if "p \<in> pinned t"
    proof -
      have "p \<in> pinned D" using that t fields by (simp add: pinned_def)
      then obtain q where q: "?newest = Some q" "p \<le> q" using newest_pin [OF po] by auto
      have "view_at u p = view_at D p"
        by (rule apply_loop_props(3) [OF L undoable_start [OF id hd] _ None q]) (rule np)
      moreover have "view_at t = view_at u" by (intro view_at_fields) (simp_all add: t)
      ultimately show ?thesis by simp
    qed
    ultimately show ?thesis using t fields by (simp add: vs_inv_def)
  next
    case (Some e)
    with res have t: "t = vs_undo f' r u" by simp
    note R = undo_restores [OF U]
    have "history_ok (vs_seq D) t"
      using d R(4,5) history_ok_fields [of t D] unfolding t vs_inv_def by blast
    then have "vs_inv t" using R po f(3) unfolding t by (simp add: vs_inv_def pins_ok_def)
    moreover have "view_at t = view_at D" by (intro view_at_fields) (simp_all only: t R)
    ultimately show ?thesis using R f unfolding t by simp
  qed
  show "vs_inv t" "vs_generation t = vs_generation s" using cases by simp_all
  show "view_at t p = view_at s p" if "p \<in> pinned t"
  proof -
    have "p \<in> pinned D" using cases that by (simp add: pinned_def)
    with dv cases that show ?thesis by metis
  qed
  show "outstanding t p = outstanding s p"
    using cases od [of p] by (simp add: outstanding_def pin_count_def)
  show "seq = vs_seq s + 1 \<and> vs_seq t = seq \<and> vs_live t = write_map ops (vs_live s)" if "result = Inr seq"
  proof -
    have n: "failure = None" "t = u\<lparr>vs_seq := ?seq\<rparr>" "seq = ?seq" using res that by (auto split: option.splits)
    have "vs_live u = write_map ops (vs_live D)"
      by (rule apply_loop_props(2) [OF L undoable_start [OF id hd] _ n(1)]) (rule np)
    with n f(1) show ?thesis by simp
  qed
  show "modified' = modified \<union> deleted_keys ops (vs_live s)" if "result = Inr seq" "distinct (map fst ops)"
  proof -
    have "failure = None" "modified' = m" using res that by (auto split: option.splits)
    with L apply_loop_modified [OF _ that(2), of raises ?seq ?newest D modified "[]" 0 u m f' r] f(1)
    show ?thesis by simp
  qed
  show "vs_seq t = vs_seq s \<and> vs_live t = vs_live s" if "result = Inl e"
    using res that undo_restores(3,6) [OF U] f by (auto split: option.splits)
qed

section \<open>Runs of store operations\<close>

text \<open>One locked section of the store, as the contexts issue them.\<close>

datatype ('e, 'x, 'v) store_op =
    Op_Pin
  | Op_Unpin "nat \<times> nat"
  | Op_Unpin_Later "nat \<times> nat"
  | Op_Apply "('e \<times> 'x \<times> 'v pending) list" "'x set" nat

fun store_step ::
  "('e::linorder sorted_keys \<Rightarrow> 'e \<Rightarrow> bool) \<Rightarrow> ('e, 'x, 'v) store_op \<Rightarrow> ('e, 'x, 'v) vstore \<Rightarrow> ('e, 'x, 'v) vstore" where
  "store_step raises Op_Pin s = snd (vs_pin s)"
| "store_step raises (Op_Unpin tok) s = vs_unpin tok s"
| "store_step raises (Op_Unpin_Later tok) s = vs_unpin_later tok s"
| "store_step raises (Op_Apply ops modified generation) s =
     snd (snd (vs_apply raises ops modified generation s))"

definition store_run ::
  "('e::linorder sorted_keys \<Rightarrow> 'e \<Rightarrow> bool) \<Rightarrow> ('e, 'x, 'v) store_op list \<Rightarrow> ('e, 'x, 'v) vstore \<Rightarrow> ('e, 'x, 'v) vstore" where
  "store_run raises ops s = fold (store_step raises) ops s"

fun releases :: "nat \<times> nat \<Rightarrow> ('e, 'x, 'v) store_op list \<Rightarrow> nat" where
  "releases tok [] = 0"
| "releases tok (Op_Unpin t # ops) = (if t = tok then 1 else 0) + releases tok ops"
| "releases tok (Op_Unpin_Later t # ops) = (if t = tok then 1 else 0) + releases tok ops"
| "releases tok (_ # ops) = releases tok ops"

lemma outstanding_pinned: "vs_inv s \<Longrightarrow> 0 < outstanding s p \<Longrightarrow> p \<in> pinned s"
  by (simp add: pinned_iff vs_inv_def outstanding_def)

lemma store_step_props:
  assumes i: "vs_inv s"
  shows "vs_inv (store_step raises op s)"
    and "vs_generation (store_step raises op s) = vs_generation s"
    and "outstanding s p - releases (vs_generation s, p) [op] \<le> outstanding (store_step raises op s) p"
    and "0 < outstanding (store_step raises op s) p \<Longrightarrow> view_at (store_step raises op s) p = view_at s p"
proof -
  let ?t = "store_step raises op s"
  have "vs_inv ?t \<and> vs_generation ?t = vs_generation s \<and>
    outstanding s p - releases (vs_generation s, p) [op] \<le> outstanding ?t p \<and>
    (0 < outstanding ?t p \<longrightarrow> view_at ?t p = view_at s p)" for p
  proof (cases op)
    case Op_Pin
    obtain tok t where "vs_pin s = (tok, t)" by (cases "vs_pin s")
    with vs_pin_props [OF i this] Op_Pin show ?thesis by simp
  next
    case (Op_Unpin tok)
    note P = vs_unpin_props [OF i, where tok = tok]
    show ?thesis using P(1,3,6) P(5) [OF outstanding_pinned [OF P(1)]] by (simp add: Op_Unpin)
  next
    case (Op_Unpin_Later tok)
    with vs_unpin_later_props [OF i, where tok = tok] show ?thesis by simp
  next
    case (Op_Apply ops modified generation)
    obtain result m t where a: "vs_apply raises ops modified generation s = (result, m, t)"
      by (metis prod_cases3)
    show ?thesis
    proof (cases "generation = vs_generation s")
      case True
      note P = vs_apply_props [OF i True a]
      show ?thesis using P(1,2,4) P(3) [OF outstanding_pinned [OF P(1)]] a by (simp add: Op_Apply)
    next
      case False
      with a i show ?thesis by (simp add: Op_Apply vs_apply_def)
    qed
  qed
  then show "vs_inv ?t" "vs_generation ?t = vs_generation s"
    "outstanding s p - releases (vs_generation s, p) [op] \<le> outstanding ?t p"
    "0 < outstanding ?t p \<Longrightarrow> view_at ?t p = view_at s p" by auto
qed

lemma releases_Cons: "releases tok (op # ops) = releases tok [op] + releases tok ops"
  by (cases op) simp_all

lemma store_run_view:
  assumes "vs_inv s" and "releases (vs_generation s, p) ops < outstanding s p"
  shows "vs_inv (store_run raises ops s) \<and> view_at (store_run raises ops s) p = view_at s p"
  using assms
proof (induction ops arbitrary: s)
  case Nil
  then show ?case by (simp add: store_run_def)
next
  case (Cons op ops)
  let ?t = "store_step raises op s"
  note P = store_step_props [OF Cons.prems(1), where raises = raises and op = op]
  have r: "releases (vs_generation ?t, p) ops < outstanding ?t p"
    using Cons.prems(2) P(3) [of p] unfolding P(2) releases_Cons [of _ op ops] by linarith
  then have "view_at ?t p = view_at s p" by (intro P(4)) simp
  with Cons.IH [OF P(1) r] show ?case by (simp add: store_run_def)
qed

lemma store_run_inv: "vs_inv s \<Longrightarrow> vs_inv (store_run raises ops s)"
  by (induction ops arbitrary: s) (simp_all add: store_run_def store_step_props(1))

section \<open>Properties\<close>

text \<open>Merging a page of base rows with a page of overlay entries gives, in scan order, exactly
  the rows of the overlaid view up to the cover; it reports done exactly when there is no
  cover, and the cover is a key of one of the two sources.\<close>

theorem merge_pages_correct:
  assumes "sorted_wrt (before reverse) (map fst base)" and "sorted_wrt (before reverse) (map fst overlay)"
    and "0 < n" and "merge_pages (take n base) (take n overlay) n reverse = (rows, cover, fin)"
  shows "sorted_wrt (before reverse) (map fst rows) \<and>
    (\<forall>e x. (e, x) \<in> set rows \<longleftrightarrow>
       \<not> past_cover reverse cover e \<and> overlaid (map_of base) (map_of overlay) e = Some x) \<and>
    (fin \<longleftrightarrow> cover = None) \<and>
    (\<forall>c. cover = Some c \<longrightarrow> c \<in> fst ` set base \<union> fst ` set overlay)"
  using merge_pages_spec [OF assms] by (simp add: merges_def)

theorem merge_pages_correct_witness:
  "merge_pages (take 2 [(1 :: int, ''a''), (3, ''c''), (5, ''e'')])
     (take 2 [(2, LIVE), (3, ABSENT), (4, Row ''d'')]) 2 False = ([(1, ''a'')], Some 3, False) \<and>
   (\<forall>e x. (e, x) \<in> set [(1 :: int, ''a'')] \<longleftrightarrow> \<not> past_cover False (Some 3) e \<and>
      overlaid (map_of [(1, ''a''), (3, ''c''), (5, ''e'')])
        (map_of [(2, LIVE), (3, ABSENT), (4, Row ''d'')]) e = Some x)"
proof -
  have m: "merge_pages (take 2 [(1 :: int, ''a''), (3, ''c''), (5, ''e'')])
     (take 2 [(2, LIVE), (3, ABSENT), (4, Row ''d'')]) 2 False = ([(1, ''a'')], Some 3, False)"
    by (simp add: merge_pages_def merge_cover_def emit_def past_cover_def numeral_2_eq_2)
  have "sorted_wrt (before False) (map fst [(1 :: int, ''a''), (3, ''c''), (5, ''e'')])"
    "sorted_wrt (before False) (map fst [(2 :: int, LIVE), (3, ABSENT), (4, Row ''d'')])"
    by (simp_all add: before_def)
  from merge_pages_correct [OF this _ m] m show ?thesis by (simp del: map_of.simps)
qed

text \<open>C4: the view of an open snapshot never changes. After any sequence of pins, releases,
  queued releases and commits (successful, failing or refused) in which fewer releases of the
  snapshot's token happen than the token is held, every key reads as it did when the snapshot
  was pinned, and every page of a scan of the snapshot is a page of the state at that time.\<close>

theorem snapshot_isolation:
  assumes "vs_inv s" and "vs_pin s = (tok, t)" and "releases tok ops < outstanding t (snd tok)"
  shows "view_at (store_run raises ops t) (snd tok) = vs_live s \<and>
    (0 < n \<longrightarrow> view_page (vs_live s)
       (dom (vs_live (store_run raises ops t)) \<union> dom (vs_history (store_run raises ops t)))
       bound inclusive reverse stop
       (vs_page_at (snd tok) bound inclusive reverse n stop (store_run raises ops t)))"
proof -
  note P = vs_pin_props [OF assms(1,2)]
  have tok: "tok = (vs_generation t, snd tok)" "snd tok = vs_seq s" by (simp_all add: P(2,5))
  let ?u = "store_run raises ops t"
  have r: "vs_inv ?u" "view_at ?u (snd tok) = view_at t (snd tok)"
    using store_run_view [OF P(1), of "snd tok" ops raises] assms(3) tok(1) by simp_all
  have "view_at t (snd tok) = vs_live s"
    using view_at_now [of s "snd tok"] assms(1) unfolding P(3) tok(2) by (simp add: vs_inv_def)
  then have v: "view_at ?u (snd tok) = vs_live s" using r(2) by simp
  have "index_ok ?u" using r(1) by (simp add: vs_inv_def)
  from vs_page_at_view [OF this, of n "snd tok"] v show ?thesis by simp
qed

theorem snapshot_isolation_witness:
  "let s = snd (snd (vs_apply (\<lambda>_ _. False) [(1 :: int, ''k'', Val ''v'')] {} 0 vs_init));
       t = snd (vs_pin s);
       u = store_run (\<lambda>_ _. False) [Op_Apply [(1, ''k'', DELETED), (2, ''l'', Val ''w'')] {} 0, Op_Pin, Op_Unpin (0, 2)] t
   in view_at u 1 1 = Some (''k'', ''v'') \<and> view_at u 1 2 = None"
proof -
  obtain m s where a: "vs_apply (\<lambda>_ _. False) [(1 :: int, ''k'', Val ''v'')] {} 0 vs_init = (Inr 1, m, s)"
    by (simp add: vs_apply_def vs_init_def apply_live_def vs_get_def apply_record_def Let_def)
  note A = vs_apply_props [OF vs_init_inv _ a]
  have s: "vs_inv s" "vs_generation s = 0" "vs_seq s = 1" "vs_live s = [1 \<mapsto> (''k'', ''v'')]"
    using A(1,2) A(5) [OF _ refl] by (simp_all add: vs_init_def write_map_def outcome_def)
  obtain tok t where p: "vs_pin s = (tok, t)" by (cases "vs_pin s")
  note P = vs_pin_props [OF s(1) p]
  have tok: "tok = (0, 1)" using P(2) s by simp
  have "releases tok [Op_Apply [(1 :: int, ''k'', DELETED), (2, ''l'', Val ''w'')] {} 0, Op_Pin, Op_Unpin (0, 2)]
      < outstanding t (snd tok)"
    using P(8) [of 1] s by (simp add: tok)
  from snapshot_isolation [OF s(1) p this, of "\<lambda>_ _. False"]
  show ?thesis using s(4) p a tok by (simp add: Let_def)
qed

text \<open>C5: a commit is all or nothing. When it succeeds it advances the sequence by one, the live
  state is the old one with the write set applied, and \<open>modified\<close> gains exactly the keys of the
  deletes that removed a row; when it raises (a key the index cannot compare, at any point of
  the write set) the live state and the sequence are as before. Either way the invariant holds
  and every snapshot still pinned sees what it saw.\<close>

theorem apply_atomic:
  assumes "vs_inv s" and "distinct (map fst ops)"
    and "vs_apply raises ops modified generation s = (result, modified', t)"
  shows "vs_inv t \<and>
    (case result of
       Inr seq \<Rightarrow> generation = vs_generation s \<and> seq = vs_seq s + 1 \<and> vs_seq t = seq \<and>
         vs_live t = write_map ops (vs_live s) \<and> modified' = modified \<union> deleted_keys ops (vs_live s)
     | Inl e \<Rightarrow> vs_seq t = vs_seq s \<and> vs_live t = vs_live s) \<and>
    (\<forall>p \<in> pinned t. view_at t p = view_at s p)"
proof (cases "generation = vs_generation s")
  case True
  note P = vs_apply_props [OF assms(1) True assms(3)]
  show ?thesis using P(1,3) P(5,6) assms(2) P(7) True by (cases result) auto
next
  case False
  with assms show ?thesis by (auto simp: vs_apply_def)
qed

theorem apply_atomic_witness:
  "let (result, modified, t) = vs_apply (\<lambda>_ e. e = 9)
       [(1 :: int, ''a'', Val ''x''), (9, ''b'', Val ''y'')] {} 0 vs_init
   in result = Inl TypeError \<and> vs_live t = Map.empty \<and> vs_inv t"
proof -
  obtain m t where a: "vs_apply (\<lambda>_ e. e = 9)
      [(1 :: int, ''a'', Val ''x''), (9, ''b'', Val ''y'')] {} 0 vs_init = (Inl TypeError, m, t)"
    by (simp add: vs_apply_def vs_init_def apply_live_def vs_get_def apply_record_def Let_def)
  from apply_atomic [OF vs_init_inv _ a] show ?thesis unfolding a by (simp add: vs_init_def)
qed

text \<open>C6: releasing the last pin leaves nothing behind: with no pin open, no version and no undo
  record is kept, and releasing a pin never changes live state, the sequence, or what the
  remaining pins see.\<close>

theorem unpin_releases_history:
  assumes "vs_inv s"
  shows "vs_live (vs_unpin tok s) = vs_live s \<and> vs_seq (vs_unpin tok s) = vs_seq s \<and>
    (\<forall>p \<in> pinned (vs_unpin tok s). view_at (vs_unpin tok s) p = view_at s p) \<and>
    (vs_pins (vs_unpin tok s) = [] \<longrightarrow>
       vs_history (vs_unpin tok s) = Map.empty \<and> vs_undo_log (vs_unpin tok s) = [])"
proof -
  let ?r = "vs_release tok s"
  let ?d = "if vs_deferred ?r \<noteq> [] then vs_drain ?r else ?r"
  have u: "vs_unpin tok s = vs_trim ?d" by (simp add: vs_unpin_def Let_def)
  have d: "vs_inv ?d" by (rule drain_if_inv [OF release_inv [OF assms]])
  then have i: "index_ok ?d" "history_ok (vs_seq ?d) ?d" by (simp_all add: vs_inv_def)
  note T = trim_spec [OF i]
  have "vs_history (vs_trim ?d) = Map.empty \<and> vs_undo_log (vs_trim ?d) = []" if "vs_pins (vs_trim ?d) = []"
  proof -
    have f: "trim_floor ?d = None" using that unfolding T(9) by (simp add: trim_floor_def)
    have "entries_of (vs_trim ?d) e = []" for e unfolding T(3) f by (simp add: old_at_def)
    moreover have "no_empty (vs_trim ?d)" by (rule no_emptyI [OF T(2)])
    ultimately have "vs_history (vs_trim ?d) e = None" for e
      unfolding entries_of_def no_empty_def by (metis not_None_eq option.case(2))
    then show ?thesis unfolding T(4) f by (auto simp: old_at_def)
  qed
  with vs_unpin_props [OF assms, where tok = tok] show ?thesis unfolding u by blast
qed

theorem unpin_releases_history_witness:
  "\<exists>s :: (int, string, string) vstore. vs_inv s \<and> vs_history s \<noteq> Map.empty \<and>
     vs_pins (vs_unpin (0, 0) s) = [] \<and> vs_history (vs_unpin (0, 0) s) = Map.empty \<and>
     vs_live (vs_unpin (0, 0) s) = [1 \<mapsto> (''k'', ''v'')]"
proof -
  obtain p where p: "vs_pin (vs_init :: (int, string, string) vstore) = ((0, 0), p)"
    "p = vs_init\<lparr>vs_pins := [(0, 1)]\<rparr>"
    by (simp add: vs_pin_def vs_init_def dict_get_def)
  note P = vs_pin_props [OF vs_init_inv p(1)]
  obtain m s where a: "vs_apply (\<lambda>_ _. False) [(1 :: int, ''k'', Val ''v'')] {} 0 p = (Inr 1, m, s)"
    and h: "vs_history s = [1 \<mapsto> [(1, ABSENT)]]" "vs_pins s = [(0, 1)]" "vs_deferred s = []"
      "vs_live s = [1 \<mapsto> (''k'', ''v'')]" "vs_generation s = 0"
    by (simp add: p(2) vs_apply_def vs_init_def apply_live_def vs_get_def apply_record_def Let_def)
  have g: "0 = vs_generation p" by (simp add: p(2) vs_init_def)
  have i: "vs_inv s" by (rule vs_apply_props(1) [OF P(1) g a])
  have "vs_pins (vs_release (0, 0) s) = []" "vs_deferred (vs_release (0, 0) s) = []"
    by (simp_all add: vs_release_def h dict_get_def)
  moreover have r: "vs_inv (vs_release (0, 0) s)" by (rule release_inv [OF i])
  ultimately have "vs_pins (vs_unpin (0, 0) s) = []"
    using trim_spec(9) [of "vs_release (0, 0) s" "vs_seq s"] by (simp add: vs_unpin_def vs_inv_def)
  with unpin_releases_history [OF i, of "(0, 0)"] h
  have "vs_inv s \<and> vs_history s \<noteq> Map.empty \<and> vs_pins (vs_unpin (0, 0) s) = [] \<and>
    vs_history (vs_unpin (0, 0) s) = Map.empty \<and> vs_live (vs_unpin (0, 0) s) = [1 \<mapsto> (''k'', ''v'')]"
    using i by simp
  then show ?thesis by blast
qed

end
