(* ===== verification/Mem_Context.thy ===== *)
theory Mem_Context
  imports Versioned_Store
begin

text \<open>
  The contexts of the in-memory storage (\<open>src/virtuals/_backends/storages/mem\<close>): the read
  and write mixins of \<open>context.py\<close>, the transaction, the snapshot and the write batch over a
  store. A context's calls on its storage (give the writer slot back, untrack, notify) are
  returned as effects. The locale \<open>read_view\<close> is the contract of the two hooks the read mixin
  and the scan call; it is interpreted on the transaction and on the snapshot.
\<close>

section \<open>The codec a storage is built with\<close>

text \<open>
  \<open>'e\<close> encoded key, \<open>'x\<close> key, \<open>'v\<close> encoded value, \<open>'p\<close> Python value. A \<open>Value | Empty\<close> is an
  option, \<open>None\<close> the sentinel \<open>EMPTY\<close>.
\<close>

record ('e, 'x, 'v, 'p) codec =
  encode_key :: "'x \<Rightarrow> 'e res"
  encode_value :: "'p \<Rightarrow> 'v res"
  decode_value :: "'v \<Rightarrow> 'p res"
  upper_bound_of_prefix :: "'x \<Rightarrow> 'e res"

text \<open>\<open>try: f except Exception as e: raise StorageOperationError\<close>.\<close>

definition wrap_error :: "exn \<Rightarrow> 'a res \<Rightarrow> 'a res" where
  "wrap_error e r = (case r of Inl _ \<Rightarrow> Inl e | Inr v \<Rightarrow> Inr v)"

section \<open>The read and write mixins\<close>

text \<open>\<open>closed\<close> is the context's flag, \<open>lookup\<close> its hook \<open>_lookup\<close>.\<close>

definition ctx_get ::
  "('e, 'x, 'v, 'p) codec \<Rightarrow> bool \<Rightarrow> ('e \<Rightarrow> ('x \<times> 'v) version) \<Rightarrow> 'x \<Rightarrow> 'p option res" where
  "ctx_get codec closed lookup key =
     (if closed then Inl StorageClosedError
      else rbind (wrap_error StorageOperationError (encode_key codec key)) (\<lambda>enc.
        case lookup enc of
          Row entry \<Rightarrow>
            rbind (wrap_error StorageOperationError (decode_value codec (snd entry))) (\<lambda>v. Inr (Some v))
        | _ \<Rightarrow> Inr None))"

definition ctx_exists ::
  "('e, 'x, 'v, 'p) codec \<Rightarrow> bool \<Rightarrow> ('e \<Rightarrow> ('x \<times> 'v) version) \<Rightarrow> 'x \<Rightarrow> bool res" where
  "ctx_exists codec closed lookup key =
     (if closed then Inl StorageClosedError
      else rbind (wrap_error StorageOperationError (encode_key codec key)) (\<lambda>enc.
        Inr (lookup enc \<noteq> ABSENT)))"

fun ctx_multiget_loop ::
  "('e, 'x, 'v, 'p) codec \<Rightarrow> bool \<Rightarrow> ('e \<Rightarrow> ('x \<times> 'v) version) \<Rightarrow> 'x list \<Rightarrow> ('x \<times> 'p) list \<Rightarrow>
   ('x \<times> 'p) list res" where
  "ctx_multiget_loop codec closed lookup [] result = Inr result"
| "ctx_multiget_loop codec closed lookup (key # keys) result =
     rbind (ctx_get codec closed lookup key) (\<lambda>v.
       ctx_multiget_loop codec closed lookup keys
         (case v of None \<Rightarrow> result | Some p \<Rightarrow> AList.update key p result))"

definition ctx_multiget ::
  "('e, 'x, 'v, 'p) codec \<Rightarrow> bool \<Rightarrow> ('e \<Rightarrow> ('x \<times> 'v) version) \<Rightarrow> 'x list \<Rightarrow> ('x \<times> 'p) list res" where
  "ctx_multiget codec closed lookup keys = ctx_multiget_loop codec closed lookup keys []"

text \<open>What \<open>put\<close> and \<open>delete\<close> compute before they stage: the encoded key (and value), or the error.\<close>

definition ctx_put_args ::
  "('e, 'x, 'v, 'p) codec \<Rightarrow> bool \<Rightarrow> 'x \<Rightarrow> 'p option \<Rightarrow> ('e \<times> 'v) res" where
  "ctx_put_args codec closed key val =
     (if closed then Inl StorageClosedError
      else case val of
        None \<Rightarrow> Inl ValueError
      | Some p \<Rightarrow> wrap_error StorageOperationError
          (rbind (encode_key codec key) (\<lambda>enc. rbind (encode_value codec p) (\<lambda>v. Inr (enc, v)))))"

definition ctx_delete_args :: "('e, 'x, 'v, 'p) codec \<Rightarrow> bool \<Rightarrow> 'x \<Rightarrow> 'e res" where
  "ctx_delete_args codec closed key =
     (if closed then Inl StorageClosedError
      else wrap_error StorageOperationError (encode_key codec key))"

section \<open>Transactions\<close>

text \<open>
  What a context asks of its storage: give the writer slot back, leave the active set,
  notify the publisher of a set of keys.
\<close>

datatype 'x effect = Release_Slot nat | Untrack | Notify_Batch "'x set"

record ('e, 'x, 'v) txn =
  tx_closed :: bool
  tx_slot :: nat
  tx_generation :: nat
  tx_pending :: "('e \<times> 'x \<times> 'v pending) list"
  tx_pending_index :: "'e sorted_keys option"
  tx_modified :: "'x set"
  tx_committed :: bool
  tx_aborted :: bool

definition tx_begin :: "nat \<Rightarrow> ('e, 'x, 'v) vstore \<Rightarrow> ('e, 'x, 'v) txn" where
  "tx_begin slot s = \<lparr>tx_closed = False, tx_slot = slot, tx_generation = vs_generation s,
     tx_pending = [], tx_pending_index = None, tx_modified = {}, tx_committed = False,
     tx_aborted = False\<rparr>"

definition overlay_entry :: "'x \<times> 'v pending \<Rightarrow> ('x \<times> 'v) version" where
  "overlay_entry entry = (case snd entry of DELETED \<Rightarrow> ABSENT | Val v \<Rightarrow> Row (fst entry, v))"

definition tx_lookup :: "('e, 'x, 'v) vstore \<Rightarrow> ('e, 'x, 'v) txn \<Rightarrow> 'e \<Rightarrow> ('x \<times> 'v) version" where
  "tx_lookup s tx enc =
     (case map_of (tx_pending tx) enc of
        None \<Rightarrow> vs_get enc s
      | Some entry \<Rightarrow> overlay_entry entry)"

definition tx_page ::
  "'e::linorder option \<Rightarrow> bool \<Rightarrow> bool \<Rightarrow> nat \<Rightarrow> 'e option \<Rightarrow> ('e, 'x, 'v) vstore \<Rightarrow> ('e, 'x, 'v) txn \<Rightarrow>
   (('e \<times> 'x \<times> 'v) list \<times> 'e option \<times> bool) \<times> ('e, 'x, 'v) txn" where
  "tx_page bound inclusive reverse n stop s tx =
     (let base = vs_page bound inclusive reverse n stop s in
      if tx_pending tx = [] then
        ((base, if length base = n then Some (fst (last base)) else None, length base < n), tx)
      else
        let index = (case tx_pending_index tx of
                       None \<Rightarrow> sk_init (map fst (tx_pending tx)) | Some index \<Rightarrow> index);
            tx = tx\<lparr>tx_pending_index := Some index\<rparr>;
            overlay = List.map_filter (\<lambda>enc.
              case map_of (tx_pending tx) enc of
                None \<Rightarrow> None
              | Some entry \<Rightarrow> Some (enc, overlay_entry entry))
              (sk_page index bound inclusive reverse n stop)
        in (merge_pages base overlay n reverse, tx))"

definition tx_stage :: "'e::linorder \<Rightarrow> 'x \<Rightarrow> 'v pending \<Rightarrow> ('e, 'x, 'v) txn \<Rightarrow> ('e, 'x, 'v) txn" where
  "tx_stage enc key val tx =
     (let tx = (case tx_pending_index tx of
                  Some index \<Rightarrow> if map_of (tx_pending tx) enc = None
                    then tx\<lparr>tx_pending_index := Some (sk_add enc index)\<rparr> else tx
                | None \<Rightarrow> tx)
      in tx\<lparr>tx_pending := AList.update enc (key, val) (tx_pending tx)\<rparr>)"

definition tx_put ::
  "('e::linorder, 'x, 'v, 'p) codec \<Rightarrow> 'x \<Rightarrow> 'p option \<Rightarrow> ('e, 'x, 'v) txn \<Rightarrow> unit res \<times> ('e, 'x, 'v) txn" where
  "tx_put codec key val tx =
     (case ctx_put_args codec (tx_closed tx) key val of
        Inl e \<Rightarrow> (Inl e, tx)
      | Inr (enc, encoded) \<Rightarrow>
          let tx = tx_stage enc key (Val encoded) tx
          in (Inr (), tx\<lparr>tx_modified := insert key (tx_modified tx)\<rparr>))"

definition tx_delete ::
  "('e::linorder, 'x, 'v, 'p) codec \<Rightarrow> 'x \<Rightarrow> ('e, 'x, 'v) txn \<Rightarrow> unit res \<times> ('e, 'x, 'v) txn" where
  "tx_delete codec key tx =
     (case ctx_delete_args codec (tx_closed tx) key of
        Inl e \<Rightarrow> (Inl e, tx)
      | Inr enc \<Rightarrow> (Inr (), tx_stage enc key DELETED tx))"

text \<open>\<open>_claim_end\<close>: flip to closed exactly once.\<close>

definition claim_end :: "bool \<Rightarrow> bool \<times> bool" where
  "claim_end closed = (if closed then (False, True) else (True, True))"

definition tx_end :: "('e, 'x, 'v) txn \<Rightarrow> 'x effect list" where
  "tx_end tx = [Release_Slot (tx_slot tx), Untrack]"

definition tx_commit ::
  "('e::linorder sorted_keys \<Rightarrow> 'e \<Rightarrow> bool) \<Rightarrow> ('e, 'x, 'v) txn \<Rightarrow> ('e, 'x, 'v) vstore \<Rightarrow>
   unit res \<times> 'x effect list \<times> ('e, 'x, 'v) txn \<times> ('e, 'x, 'v) vstore" where
  "tx_commit raises tx s =
     (let (mine, closed) = claim_end (tx_closed tx); tx = tx\<lparr>tx_closed := closed\<rparr> in
      if \<not> mine then (Inl StorageClosedError, [], tx, s)
      else
        let (result, modified, s) =
              (if tx_pending tx \<noteq> []
               then vs_apply raises (tx_pending tx) (tx_modified tx) (tx_generation tx) s
               else (Inr (vs_seq s), tx_modified tx, s));
            tx = tx\<lparr>tx_modified := modified\<rparr>
        in case result of
             Inl e \<Rightarrow>
               (Inl (if e = StorageClosedError then e else StorageTransactionError),
                tx_end tx, tx\<lparr>tx_aborted := True\<rparr>, s)
           | Inr _ \<Rightarrow>
               (Inr (), tx_end tx @ [Notify_Batch modified], tx\<lparr>tx_committed := True\<rparr>, s))"

definition tx_abort :: "('e, 'x, 'v) txn \<Rightarrow> 'x effect list \<times> ('e, 'x, 'v) txn" where
  "tx_abort tx =
     (let (mine, closed) = claim_end (tx_closed tx); tx = tx\<lparr>tx_closed := closed\<rparr> in
      if \<not> mine then ([], tx)
      else (tx_end tx, tx\<lparr>tx_aborted := True, tx_pending_index := None, tx_pending := []\<rparr>))"

text \<open>The finalizer.\<close>

definition tx_del :: "('e, 'x, 'v) txn \<Rightarrow> 'x effect list \<times> ('e, 'x, 'v) txn" where
  "tx_del tx =
     (if tx_closed tx then ([], tx)
      else ([Release_Slot (tx_slot tx)], tx\<lparr>tx_closed := True, tx_aborted := True\<rparr>))"

text \<open>\<open>__exit__\<close>: abort on an exception, otherwise commit if still open.\<close>

definition tx_exit ::
  "('e::linorder sorted_keys \<Rightarrow> 'e \<Rightarrow> bool) \<Rightarrow> bool \<Rightarrow> ('e, 'x, 'v) txn \<Rightarrow> ('e, 'x, 'v) vstore \<Rightarrow>
   unit res \<times> 'x effect list \<times> ('e, 'x, 'v) txn \<times> ('e, 'x, 'v) vstore" where
  "tx_exit raises failed tx s =
     (if failed then let (effects, tx) = tx_abort tx in (Inr (), effects, tx, s)
      else if \<not> tx_closed tx then tx_commit raises tx s
      else (Inr (), [], tx, s))"

section \<open>Snapshots\<close>

record snapshot =
  sn_closed :: bool
  sn_seq :: nat
  sn_pin :: "(nat \<times> nat) list"

definition sn_begin :: "nat \<times> nat \<Rightarrow> snapshot" where
  "sn_begin token = \<lparr>sn_closed = False, sn_seq = snd token, sn_pin = [token]\<rparr>"

definition sn_lookup :: "('e, 'x, 'v) vstore \<Rightarrow> snapshot \<Rightarrow> 'e \<Rightarrow> ('x \<times> 'v) version" where
  "sn_lookup s sn enc = vs_get_at enc (sn_seq sn) s"

definition sn_page ::
  "'e::linorder option \<Rightarrow> bool \<Rightarrow> bool \<Rightarrow> nat \<Rightarrow> 'e option \<Rightarrow> ('e, 'x, 'v) vstore \<Rightarrow> snapshot \<Rightarrow>
   ('e \<times> 'x \<times> 'v) list \<times> 'e option \<times> bool" where
  "sn_page bound inclusive reverse n stop s sn =
     vs_page_at (sn_seq sn) bound inclusive reverse n stop s"

text \<open>\<open>close\<close>: \<open>self._pin.pop()\<close> takes the token, or raises \<open>IndexError\<close> when it was taken before.\<close>

definition sn_close ::
  "snapshot \<Rightarrow> ('e::linorder, 'x, 'v) vstore \<Rightarrow> 'x effect list \<times> snapshot \<times> ('e, 'x, 'v) vstore" where
  "sn_close sn s =
     (let sn = sn\<lparr>sn_closed := True\<rparr> in
      if sn_pin sn = [] then ([], sn, s)
      else let token = last (sn_pin sn); sn = sn\<lparr>sn_pin := butlast (sn_pin sn)\<rparr>
           in ([Untrack], sn, vs_unpin token s))"

definition sn_del :: "snapshot \<Rightarrow> ('e, 'x, 'v) vstore \<Rightarrow> snapshot \<times> ('e, 'x, 'v) vstore" where
  "sn_del sn s =
     (if sn_pin sn = [] then (sn, s)
      else let token = last (sn_pin sn)
           in (sn\<lparr>sn_pin := butlast (sn_pin sn)\<rparr>, vs_unpin_later token s))"

section \<open>Write batches\<close>

record ('e, 'x, 'v) batch =
  wb_closed :: bool
  wb_generation :: nat
  wb_pending :: "('e \<times> 'x \<times> 'v pending) list"
  wb_modified :: "'x set"
  wb_written :: bool
  wb_aborted :: bool

definition wb_begin :: "('e, 'x, 'v) vstore \<Rightarrow> ('e, 'x, 'v) batch" where
  "wb_begin s = \<lparr>wb_closed = False, wb_generation = vs_generation s, wb_pending = [],
     wb_modified = {}, wb_written = False, wb_aborted = False\<rparr>"

definition wb_stage :: "'e \<Rightarrow> 'x \<Rightarrow> 'v pending \<Rightarrow> ('e, 'x, 'v) batch \<Rightarrow> ('e, 'x, 'v) batch" where
  "wb_stage enc key val wb = wb\<lparr>wb_pending := AList.update enc (key, val) (wb_pending wb)\<rparr>"

definition wb_put ::
  "('e, 'x, 'v, 'p) codec \<Rightarrow> 'x \<Rightarrow> 'p option \<Rightarrow> ('e, 'x, 'v) batch \<Rightarrow> unit res \<times> ('e, 'x, 'v) batch" where
  "wb_put codec key val wb =
     (case ctx_put_args codec (wb_closed wb) key val of
        Inl e \<Rightarrow> (Inl e, wb)
      | Inr (enc, encoded) \<Rightarrow>
          let wb = wb_stage enc key (Val encoded) wb
          in (Inr (), wb\<lparr>wb_modified := insert key (wb_modified wb)\<rparr>))"

definition wb_delete ::
  "('e, 'x, 'v, 'p) codec \<Rightarrow> 'x \<Rightarrow> ('e, 'x, 'v) batch \<Rightarrow> unit res \<times> ('e, 'x, 'v) batch" where
  "wb_delete codec key wb =
     (case ctx_delete_args codec (wb_closed wb) key of
        Inl e \<Rightarrow> (Inl e, wb)
      | Inr enc \<Rightarrow> (Inr (), wb_stage enc key DELETED wb))"

text \<open>
  \<open>slot\<close> is the outcome of taking the writer slot for the write: the lock taken, or the
  error the wait ended in (\<open>StorageLockTimeoutError\<close>, \<open>StorageNestedTransactionError\<close>,
  \<open>StorageClosedError\<close>, or another).
\<close>

definition wb_write ::
  "('e::linorder sorted_keys \<Rightarrow> 'e \<Rightarrow> bool) \<Rightarrow> nat res \<Rightarrow> ('e, 'x, 'v) batch \<Rightarrow> ('e, 'x, 'v) vstore \<Rightarrow>
   unit res \<times> 'x effect list \<times> ('e, 'x, 'v) batch \<times> ('e, 'x, 'v) vstore" where
  "wb_write raises slot wb s =
     (let (mine, closed) = claim_end (wb_closed wb); wb = wb\<lparr>wb_closed := closed\<rparr> in
      if \<not> mine then (Inl StorageClosedError, [], wb, s)
      else
        let (result, effects, modified, s) =
              (if wb_pending wb \<noteq> [] then
                 case slot of
                   Inl e \<Rightarrow> (Inl e, [], wb_modified wb, s)
                 | Inr lock \<Rightarrow>
                     let (result, modified, s) =
                           vs_apply raises (wb_pending wb) (wb_modified wb) (wb_generation wb) s
                     in (result, [Release_Slot lock], modified, s)
               else (Inr (vs_seq s), [], wb_modified wb, s));
            wb = wb\<lparr>wb_modified := modified\<rparr>
        in case result of
             Inl e \<Rightarrow>
               (Inl (if e \<in> {StorageLockTimeoutError, StorageNestedTransactionError, StorageClosedError}
                     then e else StorageTransactionError),
                effects @ [Untrack], wb\<lparr>wb_aborted := True, wb_pending := []\<rparr>, s)
           | Inr _ \<Rightarrow>
               (Inr (), effects @ [Untrack, Notify_Batch modified],
                wb\<lparr>wb_written := True, wb_pending := []\<rparr>, s))"

definition wb_abort :: "('e, 'x, 'v) batch \<Rightarrow> 'x effect list \<times> ('e, 'x, 'v) batch" where
  "wb_abort wb =
     (let (mine, closed) = claim_end (wb_closed wb); wb = wb\<lparr>wb_closed := closed\<rparr> in
      if \<not> mine then ([], wb)
      else ([Untrack], wb\<lparr>wb_aborted := True, wb_pending := []\<rparr>))"

definition wb_exit ::
  "('e::linorder sorted_keys \<Rightarrow> 'e \<Rightarrow> bool) \<Rightarrow> nat res \<Rightarrow> bool \<Rightarrow> ('e, 'x, 'v) batch \<Rightarrow> ('e, 'x, 'v) vstore \<Rightarrow>
   unit res \<times> 'x effect list \<times> ('e, 'x, 'v) batch \<times> ('e, 'x, 'v) vstore" where
  "wb_exit raises slot failed wb s =
     (if failed then let (effects, wb) = wb_abort wb in (Inr (), effects, wb, s)
      else if \<not> wb_closed wb then wb_write raises slot wb s
      else (Inr (), [], wb, s))"

section \<open>The contract of a context's view\<close>

text \<open>
  What the read mixin and the scan rely on: the two hooks \<open>_lookup\<close> and \<open>_page\<close> answer from
  one finite map, and a page (which may cache in the context) does not change it.
\<close>

locale read_view =
  fixes inv :: "'s \<Rightarrow> bool"
    and view :: "'s \<Rightarrow> 'e::linorder \<rightharpoonup> 'x \<times> 'v"
    and universe :: "'s \<Rightarrow> 'e set"
    and lookup :: "'s \<Rightarrow> 'e \<Rightarrow> ('x \<times> 'v) version"
    and page :: "'e option \<Rightarrow> bool \<Rightarrow> bool \<Rightarrow> nat \<Rightarrow> 'e option \<Rightarrow> 's \<Rightarrow>
      (('e \<times> 'x \<times> 'v) list \<times> 'e option \<times> bool) \<times> 's"
  assumes lookup_view: "inv s \<Longrightarrow> lookup s e = (case view s e of None \<Rightarrow> ABSENT | Some r \<Rightarrow> Row r)"
    and page_view: "inv s \<Longrightarrow> 0 < n \<Longrightarrow>
      view_page (view s) (universe s) b i r stop (fst (page b i r n stop s))"
    and page_inv: "inv s \<Longrightarrow> inv (snd (page b i r n stop s))"
    and page_same: "inv s \<Longrightarrow> view (snd (page b i r n stop s)) = view s"
    and page_universe: "inv s \<Longrightarrow> universe (snd (page b i r n stop s)) = universe s"
    and finite_universe: "inv s \<Longrightarrow> finite (universe s)"
    and view_universe: "inv s \<Longrightarrow> dom (view s) \<subseteq> universe s"
begin

lemma get_view:
  assumes "inv s" and "encode_key codec key = Inr enc"
  shows "ctx_get codec False (lookup s) key = (case view s enc of
     None \<Rightarrow> Inr None
   | Some (k, v) \<Rightarrow> (case decode_value codec v of Inl _ \<Rightarrow> Inl StorageOperationError | Inr p \<Rightarrow> Inr (Some p)))"
  using assms by (auto simp: ctx_get_def wrap_error_def lookup_view split: option.splits sum.splits)

lemma exists_view:
  assumes "inv s" and "encode_key codec key = Inr enc"
  shows "ctx_exists codec False (lookup s) key = Inr (view s enc \<noteq> None)"
  using assms by (auto simp: ctx_exists_def wrap_error_def lookup_view split: option.splits)

lemma page_done:
  assumes "inv s" and "0 < n" and "page b i r n stop s = ((rows, cover, True), t)"
  shows "(e, x) \<in> set rows \<longleftrightarrow> view s e = Some x \<and> in_bounds b i r stop e"
proof -
  have "view_page (view s) (universe s) b i r stop (rows, cover, True)"
    using page_view [OF assms(1,2), of b i r stop] assms(3) by simp
  then have "(e, x) \<in> set rows \<longleftrightarrow> (if in_bounds b i r stop e then view s e else None) = Some x"
    by (cases x) (simp add: view_page_def merges_def)
  then show ?thesis by (simp split: if_splits)
qed

end

section \<open>Write sets\<close>

lemma write_map_apply:
  "distinct (map fst ops) \<Longrightarrow> write_map ops m e =
    (case map_of ops e of None \<Rightarrow> m e | Some (k, w) \<Rightarrow> outcome k w)"
proof (induction ops arbitrary: m)
  case Nil
  then show ?case by (simp add: write_map_def)
next
  case (Cons a ops)
  obtain e' k w where a: "a = (e', k, w)" by (cases a)
  have "write_map (a # ops) m = write_map ops (m(e' := outcome k w))"
    by (simp add: write_map_def a)
  moreover have "map_of ops e' = None" using Cons.prems a by (simp add: map_of_eq_None_iff)
  ultimately show ?case using Cons a by (auto split: option.splits)
qed

lemma write_map_update:
  assumes "distinct (map fst ops)"
  shows "write_map (AList.update e (k, w) ops) m = (write_map ops m)(e := outcome k w)"
proof
  fix x
  have "distinct (map fst (AList.update e (k, w) ops))" using assms by (simp add: distinct_update)
  with assms show "write_map (AList.update e (k, w) ops) m x = ((write_map ops m)(e := outcome k w)) x"
    by (simp add: write_map_apply update_conv')
qed

lemma overlay_entry_outcome: "to_row (overlay_entry (k, w)) = outcome k w" "overlay_entry en \<noteq> LIVE"
  by (auto simp: overlay_entry_def to_row_def outcome_def split: pending.splits)

section \<open>Transactions\<close>

definition tx_inv :: "('e::linorder, 'x, 'v) txn \<Rightarrow> bool" where
  "tx_inv tx \<longleftrightarrow> distinct (map fst (tx_pending tx)) \<and>
     (\<forall>index. tx_pending_index tx = Some index \<longrightarrow>
        sk_inv index \<and> set (sk_iter index) = fst ` set (tx_pending tx))"

definition tx_view :: "('e, 'x, 'v) vstore \<Rightarrow> ('e, 'x, 'v) txn \<Rightarrow> 'e \<rightharpoonup> 'x \<times> 'v" where
  "tx_view s tx = write_map (tx_pending tx) (vs_live s)"

lemma tx_begin_inv [simp]: "tx_inv (tx_begin slot s)"
  by (simp add: tx_inv_def tx_begin_def)

lemma tx_begin_view [simp]: "tx_view s (tx_begin slot s) = vs_live s"
  by (simp add: tx_view_def tx_begin_def write_map_def)

lemma tx_stage_inv: "tx_inv tx \<Longrightarrow> tx_inv (tx_stage e k w tx)"
proof -
  assume i: "tx_inv tx"
  then have d: "distinct (map fst (tx_pending tx))" by (simp add: tx_inv_def)
  show ?thesis
  proof (cases "tx_pending_index tx")
    case None
    with d show ?thesis by (simp add: tx_inv_def tx_stage_def distinct_update)
  next
    case (Some index)
    then have x: "sk_inv index" "set (sk_iter index) = fst ` set (tx_pending tx)" using i by (auto simp: tx_inv_def)
    show ?thesis
    proof (cases "map_of (tx_pending tx) e")
      case None
      then have "e \<notin> set (sk_iter index)" by (simp add: x(2) map_of_eq_None_iff)
      with x None Some d show ?thesis
        by (simp add: tx_inv_def tx_stage_def distinct_update dom_update index.add_inv index.add_keys)
    next
      case (Some entry)
      then have "e \<in> fst ` set (tx_pending tx)" by (metis map_of_eq_None_iff option.distinct(1))
      with x Some \<open>tx_pending_index tx = Some index\<close> d show ?thesis
        by (simp add: tx_inv_def tx_stage_def distinct_update dom_update insert_absorb)
    qed
  qed
qed

lemma tx_stage_pending [simp]:
  "tx_pending (tx_stage e k w tx) = AList.update e (k, w) (tx_pending tx)"
  by (simp add: tx_stage_def Let_def split: option.splits)

lemma tx_stage_view:
  "tx_inv tx \<Longrightarrow> tx_view s (tx_stage e k w tx) = (tx_view s tx)(e := outcome k w)"
  by (simp add: tx_view_def tx_inv_def write_map_update)

definition tx_over :: "('e, 'x, 'v) txn \<Rightarrow> 'e \<Rightarrow> ('x \<times> 'v) version" where
  "tx_over tx e = (case map_of (tx_pending tx) e of None \<Rightarrow> LIVE | Some entry \<Rightarrow> overlay_entry entry)"

lemma tx_view_overlaid: "tx_inv tx \<Longrightarrow> tx_view s tx = overlaid (vs_live s) (\<lambda>e. Some (tx_over tx e))"
  by (auto simp: fun_eq_iff tx_view_def write_map_apply tx_inv_def overlaid_def tx_over_def
      overlay_entry_def outcome_def split: option.splits pending.splits)

lemma tx_lookup_view:
  "tx_inv tx \<Longrightarrow> tx_lookup s tx e = (case tx_view s tx e of None \<Rightarrow> ABSENT | Some r \<Rightarrow> Row r)"
  by (auto simp: tx_lookup_def tx_view_def write_map_apply tx_inv_def overlay_entry_def outcome_def
      vs_get_def split: option.splits pending.splits)

lemma map_filter_total: "(\<And>x. x \<in> set xs \<Longrightarrow> f x = Some (g x)) \<Longrightarrow> List.map_filter f xs = map g xs"
  by (induction xs) (simp_all add: List.map_filter_def)

lemma tx_page_props:
  assumes i: "tx_inv tx" and s: "index_ok s"
  shows "tx_inv (snd (tx_page b i' r n stop s tx))"
    and "tx_view s (snd (tx_page b i' r n stop s tx)) = tx_view s tx"
    and "tx_pending (snd (tx_page b i' r n stop s tx)) = tx_pending tx"
    and "0 < n \<Longrightarrow> view_page (tx_view s tx) (dom (vs_live s) \<union> fst ` set (tx_pending tx)) b i' r stop
      (fst (tx_page b i' r n stop s tx))"
proof -
  let ?U = "dom (vs_live s) \<union> fst ` set (tx_pending tx)"
  have "tx_inv (snd (tx_page b i' r n stop s tx)) \<and>
    tx_view s (snd (tx_page b i' r n stop s tx)) = tx_view s tx \<and>
    tx_pending (snd (tx_page b i' r n stop s tx)) = tx_pending tx \<and>
    (0 < n \<longrightarrow> view_page (tx_view s tx) ?U b i' r stop (fst (tx_page b i' r n stop s tx)))"
  proof (cases "tx_pending tx = []")
    case True
    then have "tx_view s tx = vs_live s" by (simp add: tx_view_def write_map_def)
    with True i base_page_view [OF s _ vs_page_rows [OF s]] show ?thesis
      by (simp add: tx_page_def Let_def)
  next
    case False
    define idx where "idx = (case tx_pending_index tx of
      None \<Rightarrow> sk_init (map fst (tx_pending tx)) | Some index \<Rightarrow> index)"
    have d: "distinct (map fst (tx_pending tx))" using i by (simp add: tx_inv_def)
    have x: "sk_inv idx" "set (sk_iter idx) = fst ` set (tx_pending tx)"
      using i d by (auto simp: idx_def tx_inv_def index.build_inv index.build_keys split: option.splits)
    have page: "List.map_filter (\<lambda>enc. case map_of (tx_pending tx) enc of None \<Rightarrow> None
        | Some entry \<Rightarrow> Some (enc, overlay_entry entry)) (sk_page idx b i' r n stop) =
      map (\<lambda>e. (e, tx_over tx e)) (sk_page idx b i' r n stop)"
    proof (rule map_filter_total)
      fix e assume "e \<in> set (sk_page idx b i' r n stop)"
      then have "e \<in> fst ` set (tx_pending tx)" using index.page_subset [OF x(1)] x(2) by blast
      then obtain entry where "map_of (tx_pending tx) e = Some entry"
        by (metis map_of_eq_None_iff not_None_eq)
      then show "(case map_of (tx_pending tx) e of None \<Rightarrow> None | Some entry \<Rightarrow> Some (e, overlay_entry entry)) =
          Some (e, tx_over tx e)" by (simp add: tx_over_def)
    qed
    have e: "tx_page b i' r n stop s tx = (merge_pages (take n (live_rows b i' r stop s))
        (map (\<lambda>e. (e, tx_over tx e)) (sk_page idx b i' r n stop)) n r,
      tx\<lparr>tx_pending_index := Some idx\<rparr>)"
      using False page by (simp add: tx_page_def Let_def idx_def [symmetric] vs_page_rows [OF s])
    have "set (sk_iter idx) = dom (map_of (tx_pending tx))" by (simp add: x(2) dom_map_of_conv_image_fst)
    then have "0 < n \<longrightarrow> view_page (overlaid (vs_live s) (\<lambda>e. Some (tx_over tx e)))
        (dom (vs_live s) \<union> dom (map_of (tx_pending tx))) b i' r stop (fst (tx_page b i' r n stop s tx))"
      unfolding e fst_conv by (intro impI merged_page_view [OF s _ x(1)]) (simp_all add: tx_over_def)
    moreover have "overlaid (vs_live s) (\<lambda>e. Some (tx_over tx e)) = tx_view s tx"
      by (rule tx_view_overlaid [OF i, symmetric])
    moreover have "tx_inv (tx\<lparr>tx_pending_index := Some idx\<rparr>)" using x d by (simp add: tx_inv_def)
    moreover have "tx_view s (tx\<lparr>tx_pending_index := Some idx\<rparr>) = tx_view s tx" by (simp add: tx_view_def)
    ultimately show ?thesis by (simp add: e dom_map_of_conv_image_fst)
  qed
  then show "tx_inv (snd (tx_page b i' r n stop s tx))"
    and "tx_view s (snd (tx_page b i' r n stop s tx)) = tx_view s tx"
    and "tx_pending (snd (tx_page b i' r n stop s tx)) = tx_pending tx"
    and "0 < n \<Longrightarrow> view_page (tx_view s tx) (dom (vs_live s) \<union> fst ` set (tx_pending tx)) b i' r stop
      (fst (tx_page b i' r n stop s tx))" by simp_all
qed

lemma finite_live: "index_ok s \<Longrightarrow> finite (dom (vs_live s)) \<and> finite (dom (vs_history s))"
  unfolding index_ok_def by (metis finite_set)

lemma tx_view_dom:
  assumes "tx_inv tx"
  shows "dom (tx_view s tx) \<subseteq> dom (vs_live s) \<union> fst ` set (tx_pending tx)"
proof
  fix e assume e: "e \<in> dom (tx_view s tx)"
  show "e \<in> dom (vs_live s) \<union> fst ` set (tx_pending tx)"
  proof (cases "map_of (tx_pending tx) e")
    case None
    with e assms show ?thesis by (simp add: tx_view_def tx_inv_def write_map_apply domIff)
  next
    case (Some en)
    then have "e \<in> fst ` set (tx_pending tx)" by (metis map_of_eq_None_iff option.distinct(1))
    then show ?thesis by simp
  qed
qed

interpretation txn_view: read_view
  "\<lambda>(s, tx). index_ok s \<and> tx_inv tx"
  "\<lambda>(s, tx). tx_view s tx"
  "\<lambda>(s, tx). dom (vs_live s) \<union> fst ` set (tx_pending tx)"
  "\<lambda>(s, tx). tx_lookup s tx"
  "\<lambda>b i r n stop (s, tx). let (result, tx) = tx_page b i r n stop s tx in (result, (s, tx))"
proof (unfold_locales, goal_cases)
  case (1 st e)
  then show ?case by (auto simp: tx_lookup_view)
next
  case (2 st n b i r stop)
  then show ?case by (auto simp: case_prod_unfold Let_def tx_page_props(4))
next
  case (3 st b i r n stop)
  then show ?case by (auto simp: case_prod_unfold Let_def tx_page_props(1))
next
  case (4 st b i r n stop)
  then show ?case by (auto simp: case_prod_unfold Let_def tx_page_props(2))
next
  case (5 st b i r n stop)
  then show ?case by (auto simp: case_prod_unfold Let_def tx_page_props(3))
next
  case (6 st)
  then show ?case by (auto simp: finite_live)
next
  case (7 st)
  then show ?case using tx_view_dom [of "snd st" "fst st"] by (simp add: case_prod_unfold)
qed

interpretation snapshot_view: read_view
  "\<lambda>(s, sn). index_ok s"
  "\<lambda>(s, sn). view_at s (sn_seq sn)"
  "\<lambda>(s, sn). dom (vs_live s) \<union> dom (vs_history s)"
  "\<lambda>(s, sn). sn_lookup s sn"
  "\<lambda>b i r n stop (s, sn). (sn_page b i r n stop s sn, (s, sn))"
proof (unfold_locales, goal_cases)
  case (1 st e)
  then show ?case
    by (auto simp: sn_lookup_def view_at_def vs_get_at_def Let_def vs_get_def
        split: version.splits option.splits)
next
  case (2 st n b i r stop)
  then show ?case using vs_page_at_view by (auto simp: sn_page_def)
next
  case (6 st)
  then show ?case by (auto simp: finite_live)
next
  case (7 st)
  then show ?case
    by (auto simp: view_at_overlaid overlaid_def version_at_def Let_def split: option.splits version.splits if_splits)
qed auto

section \<open>Runs of a transaction\<close>

text \<open>The calls a transaction may get before it ends; a scan's page is one, as it may build the
  pending index.\<close>

datatype ('e, 'x, 'p) tx_op =
    TPut 'x "'p option"
  | TDelete 'x
  | TPage "'e option" bool bool nat "'e option"

fun tx_step ::
  "('e::linorder, 'x, 'v, 'p) codec \<Rightarrow> ('e, 'x, 'v) vstore \<Rightarrow> ('e, 'x, 'p) tx_op \<Rightarrow> ('e, 'x, 'v) txn \<Rightarrow> ('e, 'x, 'v) txn" where
  "tx_step codec s (TPut key val) tx = snd (tx_put codec key val tx)"
| "tx_step codec s (TDelete key) tx = snd (tx_delete codec key tx)"
| "tx_step codec s (TPage b i r n stop) tx = snd (tx_page b i r n stop s tx)"

definition tx_run ::
  "('e::linorder, 'x, 'v, 'p) codec \<Rightarrow> ('e, 'x, 'v) vstore \<Rightarrow> ('e, 'x, 'p) tx_op list \<Rightarrow> ('e, 'x, 'v) txn \<Rightarrow> ('e, 'x, 'v) txn" where
  "tx_run codec s ops tx = fold (tx_step codec s) ops tx"

text \<open>The same calls on a plain map: a write that raises changes nothing.\<close>

fun map_step ::
  "('e, 'x, 'v, 'p) codec \<Rightarrow> ('e, 'x, 'p) tx_op \<Rightarrow> ('e \<rightharpoonup> 'x \<times> 'v) \<Rightarrow> 'e \<rightharpoonup> 'x \<times> 'v" where
  "map_step codec (TPut key val) m =
     (case ctx_put_args codec False key val of Inl _ \<Rightarrow> m | Inr (enc, v) \<Rightarrow> m(enc \<mapsto> (key, v)))"
| "map_step codec (TDelete key) m =
     (case ctx_delete_args codec False key of Inl _ \<Rightarrow> m | Inr enc \<Rightarrow> m(enc := None))"
| "map_step codec (TPage b i r n stop) m = m"

definition map_run ::
  "('e, 'x, 'v, 'p) codec \<Rightarrow> ('e, 'x, 'p) tx_op list \<Rightarrow> ('e \<rightharpoonup> 'x \<times> 'v) \<Rightarrow> 'e \<rightharpoonup> 'x \<times> 'v" where
  "map_run codec ops m = fold (map_step codec) ops m"

lemma tx_stage_fields [simp]:
  "tx_closed (tx_stage e k w tx) = tx_closed tx" "tx_slot (tx_stage e k w tx) = tx_slot tx"
  "tx_generation (tx_stage e k w tx) = tx_generation tx"
  by (simp_all add: tx_stage_def Let_def split: option.splits)

lemma tx_page_fields [simp]:
  "tx_closed (snd (tx_page b i r n stop s tx)) = tx_closed tx"
  "tx_slot (snd (tx_page b i r n stop s tx)) = tx_slot tx"
  "tx_generation (snd (tx_page b i r n stop s tx)) = tx_generation tx"
  by (simp_all add: tx_page_def Let_def)

lemma tx_inv_modified [simp]: "tx_inv (tx\<lparr>tx_modified := m\<rparr>) = tx_inv tx"
  "tx_view s (tx\<lparr>tx_modified := m\<rparr>) = tx_view s tx"
  by (simp_all add: tx_inv_def tx_view_def)

lemma tx_step_props:
  assumes "index_ok s" and "tx_inv tx" and "\<not> tx_closed tx"
  shows "tx_inv (tx_step codec s op tx)" and "\<not> tx_closed (tx_step codec s op tx)"
    and "tx_slot (tx_step codec s op tx) = tx_slot tx"
    and "tx_generation (tx_step codec s op tx) = tx_generation tx"
    and "tx_view s (tx_step codec s op tx) = map_step codec op (tx_view s tx)"
proof -
  have "tx_inv (tx_step codec s op tx) \<and> \<not> tx_closed (tx_step codec s op tx) \<and>
    tx_slot (tx_step codec s op tx) = tx_slot tx \<and> tx_generation (tx_step codec s op tx) = tx_generation tx \<and>
    tx_view s (tx_step codec s op tx) = map_step codec op (tx_view s tx)"
  proof (cases op)
    case (TPut key val)
    with assms show ?thesis
      by (auto simp: tx_put_def Let_def tx_stage_inv tx_stage_view outcome_def split: sum.splits)
  next
    case (TDelete key)
    with assms show ?thesis
      by (auto simp: tx_delete_def tx_stage_inv tx_stage_view outcome_def split: sum.splits)
  next
    case (TPage b i r n stop)
    with assms tx_page_props(1,2) [OF assms(2,1)] show ?thesis by simp
  qed
  then show "tx_inv (tx_step codec s op tx)" and "\<not> tx_closed (tx_step codec s op tx)"
    and "tx_slot (tx_step codec s op tx) = tx_slot tx"
    and "tx_generation (tx_step codec s op tx) = tx_generation tx"
    and "tx_view s (tx_step codec s op tx) = map_step codec op (tx_view s tx)" by simp_all
qed

lemma tx_run_props:
  assumes "index_ok s" and "tx_inv tx" and "\<not> tx_closed tx"
  shows "tx_inv (tx_run codec s ops tx) \<and> \<not> tx_closed (tx_run codec s ops tx) \<and>
    tx_slot (tx_run codec s ops tx) = tx_slot tx \<and> tx_generation (tx_run codec s ops tx) = tx_generation tx \<and>
    tx_view s (tx_run codec s ops tx) = map_run codec ops (tx_view s tx)"
  using assms(2,3)
proof (induction ops arbitrary: tx)
  case Nil
  then show ?case by (simp add: tx_run_def map_run_def)
next
  case (Cons op ops)
  from Cons.IH [of "tx_step codec s op tx"] tx_step_props [OF assms(1) Cons.prems, of codec op]
  show ?case by (simp add: tx_run_def map_run_def)
qed

lemma tx_begin_fields [simp]:
  "\<not> tx_closed (tx_begin slot s)" "tx_slot (tx_begin slot s) = slot"
  "tx_generation (tx_begin slot s) = vs_generation s"
  by (simp_all add: tx_begin_def)

lemma tx_commit_props:
  assumes v: "vs_inv s" and i: "tx_inv tx" and o: "\<not> tx_closed tx" and g: "tx_generation tx = vs_generation s"
    and c: "tx_commit raises tx s = (result, effects, tx', t)"
  shows "vs_inv t" and "tx_closed tx'"
    and "result = Inr () \<Longrightarrow> vs_live t = tx_view s tx \<and>
      (\<exists>keys. effects = [Release_Slot (tx_slot tx), Untrack, Notify_Batch keys])"
    and "result \<noteq> Inr () \<Longrightarrow> vs_live t = vs_live s \<and> vs_seq t = vs_seq s \<and>
      effects = [Release_Slot (tx_slot tx), Untrack]"
    and "p \<in> pinned t \<Longrightarrow> view_at t p = view_at s p"
proof -
  have "vs_inv t \<and> tx_closed tx' \<and>
    (result = Inr () \<longrightarrow> vs_live t = tx_view s tx \<and>
      (\<exists>keys. effects = [Release_Slot (tx_slot tx), Untrack, Notify_Batch keys])) \<and>
    (result \<noteq> Inr () \<longrightarrow> vs_live t = vs_live s \<and> vs_seq t = vs_seq s \<and>
      effects = [Release_Slot (tx_slot tx), Untrack]) \<and>
    (p \<in> pinned t \<longrightarrow> view_at t p = view_at s p)"
  proof (cases "tx_pending tx = []")
    case True
    with v o c show ?thesis
      by (auto simp: tx_commit_def claim_end_def tx_view_def write_map_def tx_end_def)
  next
    case False
    obtain res m u where a: "vs_apply raises (tx_pending tx) (tx_modified tx) (tx_generation tx) s = (res, m, u)"
      by (metis prod_cases3)
    note A = vs_apply_props [OF v g a]
    have e: "(result, effects, tx', t) = (case res of
        Inl e \<Rightarrow> (Inl (if e = StorageClosedError then e else StorageTransactionError),
          [Release_Slot (tx_slot tx), Untrack], tx\<lparr>tx_closed := True, tx_modified := m, tx_aborted := True\<rparr>, u)
      | Inr _ \<Rightarrow> (Inr (), [Release_Slot (tx_slot tx), Untrack, Notify_Batch m],
          tx\<lparr>tx_closed := True, tx_modified := m, tx_committed := True\<rparr>, u))"
      unfolding c [symmetric] using False o a
      by (cases res) (simp_all add: tx_commit_def claim_end_def Let_def tx_end_def)
    show ?thesis
    proof (cases res)
      case (Inl x)
      with e A(1,3) A(7) [OF Inl] show ?thesis by auto
    next
      case (Inr q)
      with e A(1,3) A(5) [OF Inr] show ?thesis by (auto simp: tx_view_def)
    qed
  qed
  then show "vs_inv t" and "tx_closed tx'"
    and "result = Inr () \<Longrightarrow> vs_live t = tx_view s tx \<and>
      (\<exists>keys. effects = [Release_Slot (tx_slot tx), Untrack, Notify_Batch keys])"
    and "result \<noteq> Inr () \<Longrightarrow> vs_live t = vs_live s \<and> vs_seq t = vs_seq s \<and>
      effects = [Release_Slot (tx_slot tx), Untrack]"
    and "p \<in> pinned t \<Longrightarrow> view_at t p = view_at s p" by blast+
qed

section \<open>Ending a context\<close>

text \<open>Every call that may end a transaction, in any order and any number of times.\<close>

datatype end_call = Commit | Abort | Del | Exit bool

fun tx_end_call ::
  "('e::linorder sorted_keys \<Rightarrow> 'e \<Rightarrow> bool) \<Rightarrow> end_call \<Rightarrow> ('e, 'x, 'v) txn \<Rightarrow> ('e, 'x, 'v) vstore \<Rightarrow>
   'x effect list \<times> ('e, 'x, 'v) txn \<times> ('e, 'x, 'v) vstore" where
  "tx_end_call raises Commit tx s = snd (tx_commit raises tx s)"
| "tx_end_call raises Abort tx s = (let (fx, tx) = tx_abort tx in (fx, tx, s))"
| "tx_end_call raises Del tx s = (let (fx, tx) = tx_del tx in (fx, tx, s))"
| "tx_end_call raises (Exit failed) tx s = snd (tx_exit raises failed tx s)"

fun tx_end_calls ::
  "('e::linorder sorted_keys \<Rightarrow> 'e \<Rightarrow> bool) \<Rightarrow> end_call list \<Rightarrow> ('e, 'x, 'v) txn \<Rightarrow> ('e, 'x, 'v) vstore \<Rightarrow>
   'x effect list \<times> ('e, 'x, 'v) txn \<times> ('e, 'x, 'v) vstore" where
  "tx_end_calls raises [] tx s = ([], tx, s)"
| "tx_end_calls raises (c # cs) tx s =
     (let (fx, tx, s) = tx_end_call raises c tx s; (fx', tx, s) = tx_end_calls raises cs tx s
      in (fx @ fx', tx, s))"

definition slot_releases :: "'x effect list \<Rightarrow> nat list" where
  "slot_releases fx = concat (map (\<lambda>f. case f of Release_Slot l \<Rightarrow> [l] | _ \<Rightarrow> []) fx)"

lemma slot_releases_simps [simp]:
  "slot_releases [] = []" "slot_releases (Release_Slot l # fx) = l # slot_releases fx"
  "slot_releases (Untrack # fx) = slot_releases fx" "slot_releases (Notify_Batch k # fx) = slot_releases fx"
  "slot_releases (fx @ fx') = slot_releases fx @ slot_releases fx'"
  by (simp_all add: slot_releases_def)

lemma end_call_closed: "tx_closed tx \<Longrightarrow> tx_end_call raises c tx s = ([], tx, s)"
  by (cases c) (auto simp: tx_commit_def tx_abort_def tx_del_def tx_exit_def claim_end_def Let_def)

lemma end_calls_closed: "tx_closed tx \<Longrightarrow> tx_end_calls raises cs tx s = ([], tx, s)"
  by (induction cs) (simp_all add: end_call_closed)

lemma tx_commit_releases:
  assumes "\<not> tx_closed tx" and "tx_commit raises tx s = (result, fx, tx', t)"
  shows "slot_releases fx = [tx_slot tx] \<and> tx_closed tx'"
  using assms
  by (auto simp: tx_commit_def claim_end_def tx_end_def Let_def split: prod.splits sum.splits if_splits)

lemma end_call_releases:
  assumes "\<not> tx_closed tx" and "tx_end_call raises c tx s = (fx, tx', t)"
  shows "slot_releases fx = [tx_slot tx] \<and> tx_closed tx'"
proof (cases c)
  case Commit
  obtain result where "tx_commit raises tx s = (result, fx, tx', t)"
    using assms(2) Commit by (cases "tx_commit raises tx s") simp
  with assms(1) show ?thesis by (rule tx_commit_releases)
next
  case (Exit failed)
  show ?thesis
  proof (cases failed)
    case True
    with assms Exit show ?thesis by (auto simp: tx_exit_def tx_abort_def claim_end_def tx_end_def Let_def)
  next
    case False
    obtain result where "tx_commit raises tx s = (result, fx, tx', t)"
      using assms Exit False by (cases "tx_commit raises tx s") (simp add: tx_exit_def)
    with assms(1) show ?thesis by (rule tx_commit_releases)
  qed
qed (use assms in \<open>auto simp: tx_abort_def tx_del_def claim_end_def tx_end_def Let_def\<close>)

section \<open>Snapshots and batches\<close>

lemma sn_begin_fields [simp]:
  "\<not> sn_closed (sn_begin tok)" "sn_seq (sn_begin tok) = snd tok" "sn_pin (sn_begin tok) = [tok]"
  by (simp_all add: sn_begin_def)

lemma sn_lookup_eq: "sn_lookup s sn e = (case view_at s (sn_seq sn) e of None \<Rightarrow> ABSENT | Some r \<Rightarrow> Row r)"
  by (auto simp: sn_lookup_def view_at_def vs_get_at_def Let_def vs_get_def
      split: version.splits option.splits)

text \<open>Both ways a snapshot gives its pin back.\<close>

datatype sn_call = SClose | SDel

fun sn_calls ::
  "sn_call list \<Rightarrow> snapshot \<Rightarrow> ('e::linorder, 'x, 'v) vstore \<Rightarrow> snapshot \<times> ('e, 'x, 'v) vstore" where
  "sn_calls [] sn s = (sn, s)"
| "sn_calls (SClose # cs) sn s = (let (fx :: 'x effect list, sn, s) = sn_close sn s in sn_calls cs sn s)"
| "sn_calls (SDel # cs) sn s = (let (sn, s) = sn_del sn s in sn_calls cs sn s)"

lemma sn_calls_released: "sn_pin sn = [] \<Longrightarrow> snd (sn_calls cs sn s) = s"
proof (induction cs arbitrary: sn)
  case Nil
  then show ?case by simp
next
  case (Cons c cs)
  then show ?case by (cases c) (simp_all add: sn_close_def sn_del_def)
qed

fun wb_step ::
  "('e, 'x, 'v, 'p) codec \<Rightarrow> ('e, 'x, 'p) tx_op \<Rightarrow> ('e, 'x, 'v) batch \<Rightarrow> ('e, 'x, 'v) batch" where
  "wb_step codec (TPut key val) wb = snd (wb_put codec key val wb)"
| "wb_step codec (TDelete key) wb = snd (wb_delete codec key wb)"
| "wb_step codec (TPage b i r n stop) wb = wb"

definition wb_run ::
  "('e, 'x, 'v, 'p) codec \<Rightarrow> ('e, 'x, 'p) tx_op list \<Rightarrow> ('e, 'x, 'v) batch \<Rightarrow> ('e, 'x, 'v) batch" where
  "wb_run codec ops wb = fold (wb_step codec) ops wb"

lemma wb_run_props:
  assumes "distinct (map fst (wb_pending wb))" and "\<not> wb_closed wb"
  shows "distinct (map fst (wb_pending (wb_run codec ops wb))) \<and> \<not> wb_closed (wb_run codec ops wb) \<and>
    wb_generation (wb_run codec ops wb) = wb_generation wb \<and>
    write_map (wb_pending (wb_run codec ops wb)) m = map_run codec ops (write_map (wb_pending wb) m)"
  using assms
proof (induction ops arbitrary: wb)
  case Nil
  then show ?case by (simp add: wb_run_def map_run_def)
next
  case (Cons op ops)
  have "distinct (map fst (wb_pending (wb_step codec op wb))) \<and> \<not> wb_closed (wb_step codec op wb) \<and>
    wb_generation (wb_step codec op wb) = wb_generation wb \<and>
    write_map (wb_pending (wb_step codec op wb)) m = map_step codec op (write_map (wb_pending wb) m)"
    using Cons.prems
    by (cases op) (auto simp: wb_put_def wb_delete_def wb_stage_def Let_def distinct_update
        write_map_update outcome_def split: sum.splits)
  with Cons.IH [of "wb_step codec op wb"] show ?case by (simp add: wb_run_def map_run_def)
qed

section \<open>Properties\<close>

text \<open>C21: a transaction reads committed state plus its own writes. After any sequence of puts,
  deletes and pages on a fresh transaction, point reads and pages of scans answer from the live
  state with exactly those writes applied, a write that raised being none; it does not matter
  whether the pending index was built before, between or after the writes.\<close>

theorem transaction_reads_own_writes:
  assumes "vs_inv s" and "tx = tx_run codec s ops (tx_begin slot s)"
  shows "tx_lookup s tx e = (case map_run codec ops (vs_live s) e of None \<Rightarrow> ABSENT | Some r \<Rightarrow> Row r) \<and>
    (0 < n \<longrightarrow> view_page (map_run codec ops (vs_live s)) (dom (vs_live s) \<union> fst ` set (tx_pending tx))
       bound inclusive reverse stop (fst (tx_page bound inclusive reverse n stop s tx)))"
proof -
  have i: "index_ok s" using assms(1) by (simp add: vs_inv_def)
  from tx_run_props [OF i, of "tx_begin slot s" codec ops]
  have t: "tx_inv tx" "tx_view s tx = map_run codec ops (vs_live s)" by (simp_all add: assms(2))
  from tx_lookup_view [OF t(1), of s e] tx_page_props(4) [OF t(1) i, of n bound inclusive reverse stop]
  show ?thesis by (simp add: t(2))
qed

definition id_codec :: "(int, int, string, string) codec" where
  "id_codec = \<lparr>encode_key = (\<lambda>k. if k < 0 then Inl EncodeError else Inr k), encode_value = Inr,
     decode_value = Inr, upper_bound_of_prefix = (\<lambda>k. Inr (k + 1))\<rparr>"

theorem transaction_reads_own_writes_witness:
  "\<exists>tx. tx = tx_run id_codec vs_init [TPut 3 (Some ''c''), TPut (-1) (Some ''z''), TPut 5 (Some ''e''), TDelete 5]
       (tx_begin 0 vs_init) \<and>
     tx_lookup vs_init tx 3 = Row (3, ''c'') \<and> tx_lookup vs_init tx 5 = ABSENT"
proof -
  let ?ops = "[TPut 3 (Some ''c''), TPut (-1) (Some ''z''), TPut 5 (Some ''e''), TDelete 5]"
  have "map_run id_codec ?ops (vs_live vs_init) 3 = Some (3, ''c'')"
    "map_run id_codec ?ops (vs_live vs_init) 5 = None"
    by (simp_all add: map_run_def id_codec_def ctx_put_args_def ctx_delete_args_def wrap_error_def vs_init_def)
  with transaction_reads_own_writes [OF vs_init_inv refl, of id_codec ?ops 0 3]
    transaction_reads_own_writes [OF vs_init_inv refl, of id_codec ?ops 0 5]
  show ?thesis by simp
qed

text \<open>C22: committing a transaction installs exactly its writes, releases its slot, leaves the
  active set and notifies; a commit that raises changes nothing, releases the slot and notifies
  nobody. Open snapshots are not disturbed either way.\<close>

theorem transaction_commit:
  assumes "vs_inv s" and "tx = tx_run codec s ops (tx_begin slot s)"
    and "tx_commit raises tx s = (result, effects, tx', t)"
  shows "vs_inv t \<and> tx_closed tx' \<and> (\<forall>p \<in> pinned t. view_at t p = view_at s p) \<and>
    (case result of
       Inr _ \<Rightarrow> vs_live t = map_run codec ops (vs_live s) \<and>
         (\<exists>keys. effects = [Release_Slot slot, Untrack, Notify_Batch keys])
     | Inl _ \<Rightarrow> vs_live t = vs_live s \<and> vs_seq t = vs_seq s \<and> effects = [Release_Slot slot, Untrack])"
proof -
  have i: "index_ok s" using assms(1) by (simp add: vs_inv_def)
  from tx_run_props [OF i, of "tx_begin slot s" codec ops]
  have t: "tx_inv tx" "tx_view s tx = map_run codec ops (vs_live s)" "\<not> tx_closed tx"
    "tx_slot tx = slot" "tx_generation tx = vs_generation s" by (simp_all add: assms(2))
  note P = tx_commit_props [OF assms(1) t(1,3,5) assms(3)]
  show ?thesis
  proof (cases result)
    case (Inl e)
    with P(1,2,5) P(4) t(4) show ?thesis by auto
  next
    case (Inr u)
    with P(1,2,5) P(3) t(2,4) show ?thesis by auto
  qed
qed

theorem transaction_commit_witness:
  "\<exists>tx' t. tx_commit (\<lambda>_ _. False) (tx_run id_codec vs_init [TPut 3 (Some ''c'')] (tx_begin 7 vs_init)) vs_init =
      (Inr (), [Release_Slot 7, Untrack, Notify_Batch {3}], tx', t) \<and> vs_live t = [3 \<mapsto> (3, ''c'')]"
proof -
  let ?tx = "tx_run id_codec vs_init [TPut 3 (Some ''c'')] (tx_begin 7 vs_init)"
  obtain tx' t where c: "tx_commit (\<lambda>_ _. False) ?tx vs_init =
      (Inr (), [Release_Slot 7, Untrack, Notify_Batch {3}], tx', t)"
    by (simp add: tx_commit_def claim_end_def tx_end_def tx_run_def tx_put_def tx_stage_def tx_begin_def
        id_codec_def ctx_put_args_def wrap_error_def vs_apply_def vs_init_def apply_live_def vs_get_def
        apply_record_def Let_def)
  from transaction_commit [OF vs_init_inv refl c] c show ?thesis
    by (auto simp: map_run_def id_codec_def ctx_put_args_def wrap_error_def vs_init_def)
qed

text \<open>C23: the writer slot is given back exactly once. Whatever calls end an open transaction
  (commit, abort, finalizer, leaving the with block, in any order and number, racing closes
  included), its slot is released once, by the first of them, on every outcome of the commit.\<close>

theorem writer_slot_released_once:
  assumes "\<not> tx_closed tx" and "calls \<noteq> []"
  shows "slot_releases (fst (tx_end_calls raises calls tx s)) = [tx_slot tx] \<and>
    tx_closed (fst (snd (tx_end_calls raises calls tx s)))"
proof -
  obtain c cs where calls: "calls = c # cs" using assms(2) by (cases calls) auto
  obtain fx tx' t where e: "tx_end_call raises c tx s = (fx, tx', t)" by (metis prod_cases3)
  from end_call_releases [OF assms(1) e] show ?thesis
    by (simp add: calls e end_calls_closed)
qed

theorem writer_slot_released_once_witness:
  "slot_releases (fst (tx_end_calls (\<lambda>_ _. True) [Commit, Abort, Del]
     (tx_begin 4 vs_init :: (int, int, string) txn) vs_init)) = [4]"
  using writer_slot_released_once [of "tx_begin 4 vs_init :: (int, int, string) txn" "[Commit, Abort, Del]"
    "\<lambda>_ _. True" vs_init]
  by simp

text \<open>C24: a snapshot context answers every point read and existence check as the live state did
  when it was begun, until its pin is released, and its pin is released exactly once: after the
  first close or finalizer, further ones leave the store alone.\<close>

theorem snapshot_context_repeatable:
  assumes "vs_inv s" and "vs_pin s = (tok, t)" and "releases tok ops < outstanding t (snd tok)"
  shows "ctx_get codec False (sn_lookup (store_run raises ops t) (sn_begin tok)) key =
      ctx_get codec False (\<lambda>e. vs_get e s) key \<and>
    ctx_exists codec False (sn_lookup (store_run raises ops t) (sn_begin tok)) key =
      ctx_exists codec False (\<lambda>e. vs_get e s) key \<and>
    snd (sn_calls (SClose # calls) (sn_begin tok) u) = vs_unpin tok u \<and>
    snd (sn_calls (SDel # calls) (sn_begin tok) u) = vs_unpin_later tok u"
proof -
  note P = vs_pin_props [OF assms(1,2)]
  have tok: "tok = (vs_generation t, snd tok)" "snd tok = vs_seq s" by (simp_all add: P(2,5))
  have "view_at (store_run raises ops t) (snd tok) = view_at t (snd tok)"
    using store_run_view [OF P(1), of "snd tok" ops raises] assms(3) tok(1) by simp
  also have "view_at t (snd tok) = vs_live s"
    using view_at_now [of s "snd tok"] assms(1) unfolding P(3) tok(2) by (simp add: vs_inv_def)
  finally have "sn_lookup (store_run raises ops t) (sn_begin tok) = (\<lambda>e. vs_get e s)"
    by (auto simp: fun_eq_iff sn_lookup_eq vs_get_def split: option.splits)
  then show ?thesis
    by (simp add: sn_calls_released sn_close_def sn_del_def Let_def split: prod.splits)
qed

theorem snapshot_context_repeatable_witness:
  "ctx_get id_codec False (sn_lookup (store_run (\<lambda>_ _. False)
     [Op_Apply [(1, 1, Val ''v'')] {} 0] (snd (vs_pin vs_init))) (sn_begin (fst (vs_pin (vs_init :: (int, int, string) vstore))))) 1 =
   Inr None"
proof -
  obtain tok t where p: "vs_pin (vs_init :: (int, int, string) vstore) = (tok, t)"
    by (cases "vs_pin (vs_init :: (int, int, string) vstore)")
  note P = vs_pin_props [OF vs_init_inv p]
  have "tok = (0, 0)" using P(2) by (simp add: vs_init_def)
  then have "releases tok [Op_Apply [(1, 1, Val ''v'')] {} 0] < outstanding t (snd tok)"
    using P(8) [of 0] by (simp add: vs_init_def)
  from snapshot_context_repeatable [OF vs_init_inv p this, of id_codec "\<lambda>_ _. False" 1]
  have "ctx_get id_codec False (sn_lookup (store_run (\<lambda>_ _. False) [Op_Apply [(1, 1, Val ''v'')] {} 0] t) (sn_begin tok)) 1
      = ctx_get id_codec False (\<lambda>e. vs_get e vs_init) 1" by blast
  then show ?thesis unfolding p by (simp add: ctx_get_def id_codec_def wrap_error_def vs_get_def vs_init_def)
qed

text \<open>Writing a batch installs exactly its puts and deletes, whatever other writers committed
  since it was begun; if taking the slot or the commit raises nothing changes. The slot is
  released exactly when it was taken, and a second write is refused without effect.\<close>

theorem batch_write:
  assumes "vs_inv s" and "wb = wb_run codec ops (wb_begin s0)" and "vs_generation s0 = vs_generation s"
    and "wb_write raises slot wb s = (result, effects, wb', t)"
  shows "vs_inv t \<and>
    (case result of
       Inr _ \<Rightarrow> vs_live t = map_run codec ops (vs_live s)
     | Inl _ \<Rightarrow> vs_live t = vs_live s \<and> vs_seq t = vs_seq s) \<and>
    slot_releases effects =
      (case slot of Inl _ \<Rightarrow> [] | Inr lock \<Rightarrow> if wb_pending wb = [] then [] else [lock]) \<and>
    wb_write raises slot wb' t = (Inl StorageClosedError, [], wb', t)"
proof -
  have w: "distinct (map fst (wb_pending wb))" "\<not> wb_closed wb" "wb_generation wb = vs_generation s"
    "write_map (wb_pending wb) (vs_live s) = map_run codec ops (vs_live s)"
    using wb_run_props [of "wb_begin s0" codec ops "vs_live s"] assms(2,3)
    by (simp_all add: wb_begin_def write_map_def)
  have closed: "wb_write raises slot b u = (Inl StorageClosedError, [], b, u)" if "wb_closed b"
    for b :: "('a, 'b, 'c) batch" and u
    using that by (simp add: wb_write_def claim_end_def Let_def)
  show ?thesis
  proof (cases "wb_pending wb = []")
    case True
    then have "wb_closed wb'" "t = s" "result = Inr ()" "slot_releases effects = []"
      using assms(4) w(2) by (auto simp: wb_write_def claim_end_def Let_def)
    with True w(4) assms(1) closed show ?thesis by (simp add: write_map_def split: sum.splits)
  next
    case False
    show ?thesis
    proof (cases slot)
      case (Inl e)
      then have "wb_closed wb'" "t = s" "\<exists>e. result = Inl e" "slot_releases effects = []"
        using assms(4) w(2) False by (auto simp: wb_write_def claim_end_def Let_def)
      with assms(1) closed Inl show ?thesis by auto
    next
      case (Inr lock)
      obtain res m u where a: "vs_apply raises (wb_pending wb) (wb_modified wb) (wb_generation wb) s = (res, m, u)"
        by (metis prod_cases3)
      note A = vs_apply_props [OF assms(1) w(3) a]
      have f: "t = u" "wb_closed wb'" "slot_releases effects = [lock]"
        "(\<exists>e. res = Inl e) = (\<exists>e. result = Inl e)"
        using assms(4) w(2) False Inr a
        by (cases res; auto simp: wb_write_def claim_end_def Let_def)+
      show ?thesis
      proof (cases res)
        case (Inl e)
        then obtain e' where "result = Inl e'" using f(4) by auto
        with A(1) A(7) [OF Inl] f closed [OF f(2)] Inr False show ?thesis by simp
      next
        case R: (Inr q)
        then obtain v where "result = Inr v" using f(4) by (cases result) auto
        with A(1) A(5) [OF R] f closed [OF f(2)] Inr False w(4) show ?thesis by simp
      qed
    qed
  qed
qed

theorem batch_write_witness:
  "\<exists>wb' t. wb_write (\<lambda>_ _. False) (Inr 3) (wb_run id_codec [TPut 2 (Some ''b'')] (wb_begin vs_init)) vs_init =
      (Inr (), [Release_Slot 3, Untrack, Notify_Batch {2}], wb', t) \<and> vs_live t = [2 \<mapsto> (2, ''b'')]"
proof -
  obtain wb' t where c: "wb_write (\<lambda>_ _. False) (Inr 3) (wb_run id_codec [TPut 2 (Some ''b'')] (wb_begin vs_init)) vs_init =
      (Inr (), [Release_Slot 3, Untrack, Notify_Batch {2}], wb', t)"
    by (simp add: wb_write_def claim_end_def wb_run_def wb_put_def wb_stage_def wb_begin_def
        id_codec_def ctx_put_args_def wrap_error_def vs_apply_def vs_init_def apply_live_def vs_get_def
        apply_record_def Let_def)
  from batch_write [OF vs_init_inv refl refl c] c show ?thesis
    by (auto simp: map_run_def id_codec_def ctx_put_args_def wrap_error_def vs_init_def)
qed

end
