(* ===== verification/Py_Text.thy ===== *)
theory Py_Text
  imports Virtuals_Prelude
begin

text \<open>
  Text of the standard library the package relies on: the decimal form of an integer
  (\<open>str(n)\<close>), and the ASCII JSON form of a string (\<open>json.dumps(s)\<close> with the default
  \<open>ensure_ascii\<close>). Both are injective in a form that survives concatenation, which is what
  the users of these texts need.
\<close>

section \<open>Decimal integers\<close>

definition is_digit :: "nat \<Rightarrow> bool" where
  "is_digit c \<longleftrightarrow> 48 \<le> c \<and> c \<le> 57"

fun nat_repr :: "nat \<Rightarrow> pystr" where
  "nat_repr n = (if n < 10 then [48 + n] else nat_repr (n div 10) @ [48 + n mod 10])"

declare nat_repr.simps [simp del]

definition int_repr :: "int \<Rightarrow> pystr" where
  "int_repr i = (if i < 0 then 45 # nat_repr (nat (- i)) else nat_repr (nat i))"

definition dec_value :: "pystr \<Rightarrow> nat" where
  "dec_value s = fold (\<lambda>c v. v * 10 + (c - 48)) s 0"

lemma dec_value_snoc [simp]: "dec_value (s @ [c]) = dec_value s * 10 + (c - 48)"
  by (simp add: dec_value_def)

lemma nat_repr_props: "dec_value (nat_repr n) = n \<and> nat_repr n \<noteq> [] \<and> (\<forall>c \<in> set (nat_repr n). is_digit c)"
proof (induction n rule: nat_repr.induct)
  case (1 n)
  show ?case
  proof (cases "n < 10")
    case True
    then show ?thesis by (simp add: nat_repr.simps [of n] dec_value_def is_digit_def)
  next
    case False
    with 1 show ?thesis by (auto simp: nat_repr.simps [of n] is_digit_def)
  qed
qed

lemma nat_repr_value [simp]: "dec_value (nat_repr n) = n"
  and nat_repr_ne [simp]: "nat_repr n \<noteq> []"
  and nat_repr_digit: "c \<in> set (nat_repr n) \<Longrightarrow> is_digit c"
  using nat_repr_props by blast+

lemma nat_repr_inj [simp]: "nat_repr m = nat_repr n \<longleftrightarrow> m = n"
  by (metis nat_repr_value)

text \<open>What may follow a number for it to be read back: nothing, or no digit.\<close>

definition ends_number :: "pystr \<Rightarrow> bool" where
  "ends_number s \<longleftrightarrow> s = [] \<or> \<not> is_digit (hd s)"

lemma takeWhile_digits: "ends_number s \<Longrightarrow> takeWhile is_digit (nat_repr n @ s) = nat_repr n"
  by (cases s) (auto simp: ends_number_def takeWhile_append2 nat_repr_digit)

lemma nat_repr_append_inj:
  assumes "ends_number s" and "ends_number t" and "nat_repr m @ s = nat_repr n @ t"
  shows "m = n \<and> s = t"
proof -
  have "nat_repr m = nat_repr n"
    using takeWhile_digits [OF assms(1), of m] takeWhile_digits [OF assms(2), of n] assms(3) by simp
  with assms(3) show ?thesis by simp
qed

lemma int_repr_ne [simp]: "int_repr i \<noteq> []"
  by (simp add: int_repr_def)

lemma hd_nat_repr: "is_digit (hd (nat_repr n))"
  by (rule nat_repr_digit [of _ n]) simp

lemma int_repr_append_inj:
  assumes "ends_number s" and "ends_number t" and "int_repr i @ s = int_repr j @ t"
  shows "i = j \<and> s = t"
proof -
  have d: "hd (nat_repr n) \<noteq> 45" for n using hd_nat_repr [of n] by (auto simp: is_digit_def)
  have neg: "i < 0 \<longleftrightarrow> j < 0"
  proof -
    have "hd (int_repr k @ u) = 45 \<longleftrightarrow> k < 0" for k u using d by (simp add: int_repr_def)
    with assms(3) show ?thesis by metis
  qed
  show ?thesis
  proof (cases "i < 0")
    case True
    with neg assms(3) have "nat_repr (nat (- i)) @ s = nat_repr (nat (- j)) @ t" by (simp add: int_repr_def)
    from nat_repr_append_inj [OF assms(1,2) this] True neg show ?thesis by (simp add: nat_eq_iff)
  next
    case False
    with neg assms(3) have "nat_repr (nat i) @ s = nat_repr (nat j) @ t" by (simp add: int_repr_def)
    from nat_repr_append_inj [OF assms(1,2) this] False neg show ?thesis by (simp add: nat_eq_iff)
  qed
qed

lemma int_repr_inj [simp]: "int_repr i = int_repr j \<longleftrightarrow> i = j"
  using int_repr_append_inj [of "[]" "[]" i j] by (auto simp: ends_number_def)

lemma int_repr_hd: "is_digit (hd (int_repr i)) \<or> hd (int_repr i) = 45"
  by (simp add: int_repr_def hd_nat_repr)

section \<open>JSON strings\<close>

definition hex_digit :: "nat \<Rightarrow> nat" where
  "hex_digit d = (if d < 10 then 48 + d else 87 + d)"

definition hex4 :: "nat \<Rightarrow> pystr" where
  "hex4 c = [hex_digit (c div 4096 mod 16), hex_digit (c div 256 mod 16), hex_digit (c div 16 mod 16),
     hex_digit (c mod 16)]"

definition u_escape :: "nat \<Rightarrow> pystr" where
  "u_escape c = 92 # 117 # hex4 c"

text \<open>One code point: the two-character escapes, printable ASCII as it is, the rest as \<open>\uXXXX\<close>,
  beyond the basic plane as a surrogate pair.\<close>

definition json_char :: "nat \<Rightarrow> pystr" where
  "json_char c =
     (if c = 34 then [92, 34] else if c = 92 then [92, 92]
      else if c = 10 then [92, 110] else if c = 13 then [92, 114] else if c = 9 then [92, 116]
      else if c = 12 then [92, 102] else if c = 8 then [92, 98]
      else if 32 \<le> c \<and> c \<le> 126 then [c]
      else if c < 0x10000 then u_escape c
      else let v = c - 0x10000 in u_escape (0xD800 + v div 1024) @ u_escape (0xDC00 + v mod 1024))"

definition json_string :: "pystr \<Rightarrow> pystr" where
  "json_string s = 34 # concat (map json_char s) @ [34]"

text \<open>A reader of one character shows that scalar code points are told apart.\<close>

definition hex_value :: "nat \<Rightarrow> nat" where
  "hex_value d = (if d < 58 then d - 48 else d - 87)"

fun hex4_value :: "pystr \<Rightarrow> nat" where
  "hex4_value (a # b # c # d # _) =
     hex_value a * 4096 + hex_value b * 256 + hex_value c * 16 + hex_value d"
| "hex4_value _ = 0"

definition json_read :: "pystr \<Rightarrow> nat \<times> pystr" where
  "json_read s =
     (if hd s \<noteq> 92 then (hd s, tl s)
      else if s ! 1 = 110 then (10, drop 2 s) else if s ! 1 = 114 then (13, drop 2 s)
      else if s ! 1 = 116 then (9, drop 2 s) else if s ! 1 = 102 then (12, drop 2 s)
      else if s ! 1 = 98 then (8, drop 2 s)
      else if s ! 1 \<noteq> 117 then (s ! 1, drop 2 s)
      else
        let c = hex4_value (drop 2 s) in
        if 0xD800 \<le> c \<and> c < 0xDC00
        then (0x10000 + (c - 0xD800) * 1024 + (hex4_value (drop 8 s) - 0xDC00), drop 12 s)
        else (c, drop 6 s))"

lemma hex_value_digit [simp]: "d < 16 \<Longrightarrow> hex_value (hex_digit d) = d"
  by (auto simp: hex_value_def hex_digit_def)

lemma hex4_value_hex4 [simp]:
  assumes "c < 65536"
  shows "hex4_value (hex4 c @ s) = c"
proof -
  have "c div 4096 < 16" using assms by (simp add: div_less_iff_less_mult)
  moreover from this have "c div 4096 mod 16 = c div 4096" by simp
  moreover have "c = c div 4096 * 4096 + c div 256 mod 16 * 256 + c div 16 mod 16 * 16 + c mod 16"
  proof -
    have q: "c div 256 = c div 16 div 16" "c div 4096 = c div 16 div 16 div 16"
      by (simp_all add: div_mult2_eq [symmetric])
    have "c = c div 16 * 16 + c mod 16" "c div 16 = c div 16 div 16 * 16 + c div 16 mod 16"
      "c div 16 div 16 = c div 16 div 16 div 16 * 16 + c div 16 div 16 mod 16"
      by (rule div_mult_mod_eq [symmetric])+
    then show ?thesis unfolding q by linarith
  qed
  ultimately show ?thesis by (simp add: hex4_def)
qed

lemma length_hex4 [simp]: "length (hex4 c) = 4"
  by (simp add: hex4_def)

lemma drop_hex4 [simp]: "drop 4 (hex4 c @ s) = s"
  by (simp add: hex4_def)

lemma json_read_u:
  "c < 65536 \<Longrightarrow> \<not> (0xD800 \<le> c \<and> c < 0xDC00) \<Longrightarrow> json_read (u_escape c @ s) = (c, s)"
  by (simp add: json_read_def u_escape_def)

lemma json_read_pair:
  "a < 1024 \<Longrightarrow> b < 1024 \<Longrightarrow>
   json_read (u_escape (0xD800 + a) @ u_escape (0xDC00 + b) @ s) = (0x10000 + a * 1024 + b, s)"
proof -
  assume a: "a < 1024" and b: "b < 1024"
  let ?t = "hex4 (0xDC00 + b) @ s"
  have e: "u_escape (0xD800 + a) @ u_escape (0xDC00 + b) @ s =
      92 # 117 # (hex4 (0xD800 + a) @ 92 # 117 # ?t)" by (simp add: u_escape_def)
  have d: "drop 8 (92 # 117 # (hex4 (0xD800 + a) @ 92 # 117 # ?t)) = ?t"
    "drop 12 (92 # 117 # (hex4 (0xD800 + a) @ 92 # 117 # ?t)) = s"
    by (simp_all add: hex4_def)
  have "hex4_value (hex4 (0xD800 + a) @ 92 # 117 # ?t) = 0xD800 + a" "hex4_value ?t = 0xDC00 + b"
    using a b by (simp_all only: hex4_value_hex4)
  then show ?thesis using a unfolding e json_read_def Let_def d by simp
qed

definition json_safe :: "nat \<Rightarrow> bool" where
  "json_safe c \<longleftrightarrow> c < 0x110000 \<and> \<not> (0xD800 \<le> c \<and> c < 0xE000)"

lemma json_read_char: "json_safe c \<Longrightarrow> json_read (json_char c @ s) = (c, s)"
proof -
  assume c: "json_safe c"
  consider "c \<in> {34, 92, 10, 13, 9, 12, 8}" | "c \<notin> {34, 92, 10, 13, 9, 12, 8}" "32 \<le> c \<and> c \<le> 126"
    | "c \<notin> {34, 92, 10, 13, 9, 12, 8}" "\<not> (32 \<le> c \<and> c \<le> 126)" "c < 0x10000"
    | "\<not> c < 0x10000" by blast
  then show ?thesis
  proof cases
    case 1
    then consider "c = 34" | "c = 92" | "c = 10" | "c = 13" | "c = 9" | "c = 12" | "c = 8" by blast
    then show ?thesis by cases (simp_all add: json_char_def json_read_def)
  next
    case 2
    then have "json_char c = [c]" "c \<noteq> 92" by (simp_all add: json_char_def)
    then show ?thesis by (simp add: json_read_def)
  next
    case 3
    then have "json_char c = u_escape c" by (auto simp: json_char_def)
    moreover have "\<not> (0xD800 \<le> c \<and> c < 0xDC00)" using c by (auto simp: json_safe_def)
    ultimately show ?thesis using 3(3) by (simp add: json_read_u)
  next
    case 4
    let ?v = "c - 0x10000"
    have v: "?v div 1024 < 1024" "?v mod 1024 < 1024" using 4 c by (auto simp: json_safe_def)
    have "json_char c = u_escape (0xD800 + ?v div 1024) @ u_escape (0xDC00 + ?v mod 1024)"
      using 4 by (simp add: json_char_def Let_def)
    moreover have "0x10000 + ?v div 1024 * 1024 + ?v mod 1024 = c" using 4 by simp
    ultimately show ?thesis using json_read_pair [OF v, of s] by simp
  qed
qed

lemma json_char_hd: "\<exists>x xs. json_char c = x # xs \<and> x \<noteq> 34"
  by (simp add: json_char_def u_escape_def Let_def)

lemma json_body_inj:
  "list_all json_safe s \<Longrightarrow> list_all json_safe t \<Longrightarrow>
   concat (map json_char s) @ 34 # u = concat (map json_char t) @ 34 # v \<Longrightarrow> s = t \<and> u = v"
proof (induction s arbitrary: t)
  case Nil
  then show ?case using json_char_hd by (cases t) (auto, metis list.inject append_Cons)+
next
  case (Cons c s)
  show ?case
  proof (cases t)
    case Nil
    with Cons.prems(3) json_char_hd [of c] show ?thesis by auto
  next
    case (Cons d t')
    have "json_read (json_char c @ concat (map json_char s) @ 34 # u) =
        json_read (json_char d @ concat (map json_char t') @ 34 # v)"
      using Cons.prems(3) Cons by simp
    then have "c = d \<and> concat (map json_char s) @ 34 # u = concat (map json_char t') @ 34 # v"
      using Cons.prems(1,2) Cons by (simp add: json_read_char)
    with Cons.IH [of t'] Cons.prems Cons show ?thesis by simp
  qed
qed

lemma json_string_append_inj:
  "list_all json_safe s \<Longrightarrow> list_all json_safe t \<Longrightarrow> json_string s @ u = json_string t @ v \<Longrightarrow> s = t \<and> u = v"
  using json_body_inj [of s t u v] by (simp add: json_string_def)

end
