(* ===== verification/Filters.thy ===== *)
theory Filters
  imports Loc Py_Text "HOL-Library.Product_Lexorder"
begin

text \<open>
  Key filters (\<open>tkv/filter/filter.py\<close>) and their routing hints (\<open>tkv/filter/hints.py\<close>).

  A filter is a value of \<open>kfilter\<close>; \<open>matches\<close> is its predicate on keys, \<open>to_dict\<close> and
  \<open>filter_from_dict\<close> its wire form, \<open>canonicalize\<close> the normal form two processes agree on before
  they hash it into a channel name, and \<open>routing_hints\<close> the over-approximation an event router
  uses to find the filters that may match a key. Canonicalization orders and deduplicates
  operands by their canonical JSON text (\<open>filter_key\<close>); the lemmas show that this text is
  injective on filters whose strings hold no surrogates, so that deduplication drops only equal
  operands, and that the result depends on the set of the flattened operands alone.
\<close>


section \<open>Filters and what they match\<close>

definition WILDCARD :: seg where
  "WILDCARD = SStr (lit ''*'')"

text \<open>The built-in filter classes. (A user's own subclass of \<open>Filter\<close> is outside the repository.)\<close>

datatype kfilter =
    PrefixFilter key
  | SuffixFilter key
  | LengthFilter int
  | WildcardFilter key
  | And "kfilter list"
  | Or "kfilter list"
  | PassAll
  | PassNone

definition prefix_matches :: "key \<Rightarrow> key \<Rightarrow> bool" where
  [simp]: "prefix_matches p key =
     (if length key < length p then False else take (length p) key = p)"

definition suffix_matches :: "key \<Rightarrow> key \<Rightarrow> bool" where
  [simp]: "suffix_matches s key =
     (if length key < length s then False
      else if s = [] then True
      else drop (length key - length s) key = s)"

definition length_matches :: "int \<Rightarrow> key \<Rightarrow> bool" where
  [simp]: "length_matches n key = (int (length key) = n)"

definition wildcard_matches :: "key \<Rightarrow> key \<Rightarrow> bool" where
  [simp]: "wildcard_matches pattern key =
     (if length key \<noteq> length pattern then False
      else list_all (\<lambda>(k, p). p = WILDCARD \<or> k = p) (zip key pattern))"

fun matches :: "kfilter \<Rightarrow> key \<Rightarrow> bool" where
  "matches (PrefixFilter p) key = prefix_matches p key"
| "matches (SuffixFilter s) key = suffix_matches s key"
| "matches (LengthFilter n) key = length_matches n key"
| "matches (WildcardFilter pattern) key = wildcard_matches pattern key"
| "matches (And fs) key = list_all (\<lambda>f. matches f key) fs"
| "matches (Or fs) key = list_ex (\<lambda>f. matches f key) fs"
| "matches PassAll key = True"
| "matches PassNone key = False"

text \<open>The operators \<open>&\<close> and \<open>|\<close>: \<open>And\<close> and \<open>Or\<close> override them to flatten.\<close>

fun filter_and :: "kfilter \<Rightarrow> kfilter \<Rightarrow> kfilter" where
  "filter_and (And fs) (And gs) = And (fs @ gs)"
| "filter_and (And fs) g = And (fs @ [g])"
| "filter_and f g = And [f, g]"

fun filter_or :: "kfilter \<Rightarrow> kfilter \<Rightarrow> kfilter" where
  "filter_or (Or fs) (Or gs) = Or (fs @ gs)"
| "filter_or (Or fs) g = Or (fs @ [g])"
| "filter_or f g = Or [f, g]"

section \<open>Dict form\<close>

text \<open>
  A wire dict: the fields the dict forms use, each present or not. Field values have the
  types the wire format gives them.
\<close>

datatype fdict = FDict
  (fd_type: "pystr option") (fd_prefix: "key option") (fd_suffix: "key option")
  (fd_length: "int option") (fd_pattern: "key option") (fd_filters: "fdict list option")

fun to_dict :: "kfilter \<Rightarrow> fdict" where
  "to_dict (PrefixFilter p) = FDict (Some (lit ''prefix'')) (Some p) None None None None"
| "to_dict (SuffixFilter s) = FDict (Some (lit ''suffix'')) None (Some s) None None None"
| "to_dict (LengthFilter n) = FDict (Some (lit ''length'')) None None (Some n) None None"
| "to_dict (WildcardFilter w) = FDict (Some (lit ''wildcard'')) None None None (Some w) None"
| "to_dict (And fs) = FDict (Some (lit ''and'')) None None None None (Some (map to_dict fs))"
| "to_dict (Or fs) = FDict (Some (lit ''or'')) None None None None (Some (map to_dict fs))"
| "to_dict PassAll = FDict (Some (lit ''pass_all'')) None None None None None"
| "to_dict PassNone = FDict (Some (lit ''pass_none'')) None None None None None"

text \<open>\<open>d[k]\<close> on a field.\<close>

definition field :: "'a option \<Rightarrow> 'a res" where
  "field v = (case v of None \<Rightarrow> Inl KeyError | Some x \<Rightarrow> Inr x)"

lemma rmap_cong [fundef_cong]:
  "xs = ys \<Longrightarrow> (\<And>x. x \<in> set ys \<Longrightarrow> f x = g x) \<Longrightarrow> rmap f xs = rmap g ys"
proof -
  assume "xs = ys" and "\<And>x. x \<in> set ys \<Longrightarrow> f x = g x"
  then show ?thesis by (induction ys arbitrary: xs) auto
qed

fun filter_from_dict :: "fdict \<Rightarrow> kfilter res" where
  "filter_from_dict (FDict t p s n w fs) =
     (if t = Some (lit ''prefix'') then rbind (field p) (\<lambda>p. Inr (PrefixFilter p))
      else if t = Some (lit ''suffix'') then rbind (field s) (\<lambda>s. Inr (SuffixFilter s))
      else if t = Some (lit ''length'') then rbind (field n) (\<lambda>n. Inr (LengthFilter n))
      else if t = Some (lit ''wildcard'') then rbind (field w) (\<lambda>w. Inr (WildcardFilter w))
      else if t = Some (lit ''pass_all'') then Inr PassAll
      else if t = Some (lit ''pass_none'') then Inr PassNone
      else if t = Some (lit ''and'') then
        (case fs of None \<Rightarrow> Inl KeyError
         | Some ds \<Rightarrow> rbind (rmap filter_from_dict ds) (\<lambda>fs. Inr (And fs)))
      else if t = Some (lit ''or'') then
        (case fs of None \<Rightarrow> Inl KeyError
         | Some ds \<Rightarrow> rbind (rmap filter_from_dict ds) (\<lambda>fs. Inr (Or fs)))
      else Inl ValueError)"

section \<open>Canonical JSON\<close>

text \<open>\<open>json.dumps(d, sort_keys=True, separators=(",", ":"))\<close>.\<close>

fun join_comma :: "pystr list \<Rightarrow> pystr" where
  "join_comma [] = []"
| "join_comma [x] = x"
| "join_comma (x # xs) = x @ lit '','' @ join_comma xs"

definition json_seg :: "seg \<Rightarrow> pystr" where
  "json_seg s = (case s of SInt i \<Rightarrow> int_repr i | SStr t \<Rightarrow> json_string t)"

definition json_array :: "pystr list \<Rightarrow> pystr" where
  "json_array items = lit ''['' @ join_comma items @ lit '']''"

definition json_entry :: "string \<Rightarrow> pystr \<Rightarrow> pystr" where
  "json_entry name val = json_string (lit name) @ lit '':'' @ val"

fun json_dict :: "fdict \<Rightarrow> pystr" where
  "json_dict (FDict t p s n w fs) =
     lit ''{'' @
     join_comma
       ((case fs of None \<Rightarrow> [] | Some ds \<Rightarrow> [json_entry ''filters'' (json_array (map json_dict ds))]) @
        (case n of None \<Rightarrow> [] | Some i \<Rightarrow> [json_entry ''length'' (int_repr i)]) @
        (case w of None \<Rightarrow> [] | Some x \<Rightarrow> [json_entry ''pattern'' (json_array (map json_seg x))]) @
        (case p of None \<Rightarrow> [] | Some x \<Rightarrow> [json_entry ''prefix'' (json_array (map json_seg x))]) @
        (case s of None \<Rightarrow> [] | Some x \<Rightarrow> [json_entry ''suffix'' (json_array (map json_seg x))]) @
        (case t of None \<Rightarrow> [] | Some x \<Rightarrow> [json_entry ''type'' (json_string x)])) @
     lit ''}''"

definition filter_key :: "kfilter \<Rightarrow> pystr" where
  "filter_key f = json_dict (to_dict f)"

section \<open>Canonical form\<close>

text \<open>The dedup loop: \<open>seen\<close> keys, kept filters.\<close>

fun dedup_loop :: "kfilter list \<Rightarrow> pystr set \<Rightarrow> kfilter list \<Rightarrow> kfilter list" where
  "dedup_loop [] seen kept = kept"
| "dedup_loop (c # cs) seen kept =
     (let k = filter_key c in
      if k \<notin> seen then dedup_loop cs (insert k seen) (kept @ [c]) else dedup_loop cs seen kept)"

definition flat_and :: "kfilter list \<Rightarrow> kfilter list" where
  "flat_and cs = concat (map (\<lambda>c. case c of And gs \<Rightarrow> gs | _ \<Rightarrow> [c]) cs)"

definition flat_or :: "kfilter list \<Rightarrow> kfilter list" where
  "flat_or cs = concat (map (\<lambda>c. case c of Or gs \<Rightarrow> gs | _ \<Rightarrow> [c]) cs)"

fun canonicalize :: "kfilter \<Rightarrow> kfilter" where
  "canonicalize (PrefixFilter p) = (if length p = 0 then PassAll else PrefixFilter p)"
| "canonicalize (SuffixFilter s) = (if length s = 0 then PassAll else SuffixFilter s)"
| "canonicalize (WildcardFilter w) =
     (if list_all (\<lambda>seg. seg = WILDCARD) w then LengthFilter (int (length w)) else WildcardFilter w)"
| "canonicalize (And fs) =
     (let flat = flat_and (map canonicalize fs) in
      if list_ex (\<lambda>c. c = PassNone) flat then PassNone
      else
        let kept = sort_key filter_key (dedup_loop (filter (\<lambda>c. c \<noteq> PassAll) flat) {} []) in
        if length kept = 0 then PassAll else if length kept = 1 then kept ! 0 else And kept)"
| "canonicalize (Or fs) =
     (let flat = flat_or (map canonicalize fs) in
      if list_ex (\<lambda>c. c = PassAll) flat then PassAll
      else
        let kept = sort_key filter_key (dedup_loop (filter (\<lambda>c. c \<noteq> PassNone) flat) {} []) in
        if length kept = 0 then PassNone else if length kept = 1 then kept ! 0 else Or kept)"
| "canonicalize (LengthFilter n) = LengthFilter n"
| "canonicalize PassAll = PassAll"
| "canonicalize PassNone = PassNone"

text \<open>\<open>digest\<close> is the hex SHA-256 of the UTF-8 of a text (here ASCII).\<close>

definition filter_hash :: "(pystr \<Rightarrow> 'h) \<Rightarrow> kfilter \<Rightarrow> 'h" where
  "filter_hash digest f = digest (json_dict (to_dict (canonicalize f)))"

section \<open>Routing hints\<close>

datatype hint_kind = Hint_Prefix | Hint_Suffix | Hint_Length | Hint_Wildcard | Hint_All

record routing_hint =
  h_kind :: hint_kind
  h_segments :: key
  h_length :: int
  h_positions :: "nat list"

definition covers :: "routing_hint \<Rightarrow> key \<Rightarrow> bool" where
  "covers h key =
     (case h_kind h of
        Hint_All \<Rightarrow> True
      | Hint_Length \<Rightarrow> int (length key) = h_length h
      | Hint_Prefix \<Rightarrow>
          let d = length (h_segments h) in length key \<ge> d \<and> take d key = h_segments h
      | Hint_Suffix \<Rightarrow>
          let d = length (h_segments h) in length key \<ge> d \<and> drop (length key - d) key = h_segments h
      | Hint_Wildcard \<Rightarrow>
          int (length key) = h_length h \<and>
          list_all (\<lambda>(p, s). key ! p = s) (zip (h_positions h) (h_segments h)))"

definition rank :: "routing_hint \<Rightarrow> int \<times> int" where
  "rank h =
     (case h_kind h of
        Hint_Prefix \<Rightarrow> (0, - int (length (h_segments h)))
      | Hint_Wildcard \<Rightarrow> (1, - int (length (h_segments h)))
      | Hint_Suffix \<Rightarrow> (2, - int (length (h_segments h)))
      | Hint_Length \<Rightarrow> (3, 0)
      | Hint_All \<Rightarrow> (9, 0))"

definition ALL_HINT :: routing_hint where
  "ALL_HINT = \<lparr>h_kind = Hint_All, h_segments = [], h_length = 0, h_positions = []\<rparr>"

definition ALL_HINTS :: "routing_hint list" where
  "ALL_HINTS = [ALL_HINT]"

text \<open>\<open>max\<close> of a generator and \<open>min(children, key=score)\<close>, which keeps the first on ties; both are
  called on non-empty arguments only.\<close>

definition score :: "routing_hint list \<Rightarrow> (int \<times> int) \<times> int" where
  "score hints = (fold (\<lambda>h m. max m (rank h)) (tl hints) (rank (hd hints)), int (length hints))"

definition min_score :: "routing_hint list list \<Rightarrow> routing_hint list" where
  "min_score children =
     fold (\<lambda>c best. if score c < score best then c else best) (tl children) (hd children)"

definition and_hints :: "routing_hint list list \<Rightarrow> routing_hint list" where
  "and_hints children =
     (if children = [] then ALL_HINTS
      else if list_ex (\<lambda>c. c = []) children then []
      else min_score children)"

text \<open>The two nested loops of \<open>or_hints\<close>; \<open>None\<close> is the early return of \<open>ALL\<close>.\<close>

fun or_loop :: "routing_hint list \<Rightarrow> routing_hint list \<Rightarrow> routing_hint list option" where
  "or_loop [] out = Some out"
| "or_loop (h # hs) out =
     (if h_kind h = Hint_All then None
      else if h \<notin> set out then or_loop hs (out @ [h]) else or_loop hs out)"

definition or_hints :: "routing_hint list list \<Rightarrow> routing_hint list" where
  "or_hints children =
     (case or_loop (concat children) [] of None \<Rightarrow> ALL_HINTS | Some out \<Rightarrow> out)"

definition prefix_hints :: "key \<Rightarrow> routing_hint list" where
  [simp]: "prefix_hints p =
     (if p \<noteq> [] then [\<lparr>h_kind = Hint_Prefix, h_segments = p, h_length = 0, h_positions = []\<rparr>] else ALL_HINTS)"

definition suffix_hints :: "key \<Rightarrow> routing_hint list" where
  [simp]: "suffix_hints s =
     (if s \<noteq> [] then [\<lparr>h_kind = Hint_Suffix, h_segments = s, h_length = 0, h_positions = []\<rparr>] else ALL_HINTS)"

definition length_hints :: "int \<Rightarrow> routing_hint list" where
  [simp]: "length_hints n =
     (if n \<ge> 0 then [\<lparr>h_kind = Hint_Length, h_segments = [], h_length = n, h_positions = []\<rparr>] else [])"

definition wildcard_hints :: "key \<Rightarrow> routing_hint list" where
  [simp]: "wildcard_hints pattern =
     (let positions = map fst (filter (\<lambda>(i, p). p \<noteq> WILDCARD) (enumerate 0 pattern));
          n = int (length pattern)
      in if positions = []
         then [\<lparr>h_kind = Hint_Length, h_segments = [], h_length = n, h_positions = []\<rparr>]
         else [\<lparr>h_kind = Hint_Wildcard, h_segments = map (\<lambda>i. pattern ! i) positions, h_length = n,
                h_positions = positions\<rparr>])"

fun routing_hints :: "kfilter \<Rightarrow> routing_hint list" where
  "routing_hints (PrefixFilter p) = prefix_hints p"
| "routing_hints (SuffixFilter s) = suffix_hints s"
| "routing_hints (LengthFilter n) = length_hints n"
| "routing_hints (WildcardFilter pattern) = wildcard_hints pattern"
| "routing_hints (And fs) = and_hints (map routing_hints fs)"
| "routing_hints (Or fs) = or_hints (map routing_hints fs)"
| "routing_hints PassAll = ALL_HINTS"
| "routing_hints PassNone = []"

section \<open>Operators and dict form\<close>

lemma matches_and: "matches (filter_and f g) key \<longleftrightarrow> matches f key \<and> matches g key"
  by (cases "(f, g)" rule: filter_and.cases) auto

lemma matches_or: "matches (filter_or f g) key \<longleftrightarrow> matches f key \<or> matches g key"
  by (cases "(f, g)" rule: filter_or.cases) auto

lemma rmap_to_dict: "(\<And>f. f \<in> set fs \<Longrightarrow> g (h f) = Inr f) \<Longrightarrow> rmap g (map h fs) = Inr fs"
  by (induction fs) simp_all

lemma lit_inj [simp]: "lit a = lit b \<longleftrightarrow> a = b"
proof -
  have "inj (of_char :: char \<Rightarrow> nat)" by (rule injI) simp
  then show ?thesis by (simp add: lit_def inj_map_eq_map)
qed

lemma from_to_dict: "filter_from_dict (to_dict f) = Inr f"
proof (induction f)
  case (And fs)
  then have "rmap filter_from_dict (map to_dict fs) = Inr fs" by (rule rmap_to_dict)
  then show ?case by simp
next
  case (Or fs)
  then have "rmap filter_from_dict (map to_dict fs) = Inr fs" by (rule rmap_to_dict)
  then show ?case by simp
qed (simp_all add: field_def)

section \<open>Routing hints cover what a filter matches\<close>

definition covered :: "routing_hint list \<Rightarrow> key \<Rightarrow> bool" where
  "covered hs key = list_ex (\<lambda>h. covers h key) hs"

lemma covered_ALL [simp]: "covered ALL_HINTS key"
  by (simp add: covered_def ALL_HINTS_def ALL_HINT_def covers_def)

lemma fold_pick: "fold (\<lambda>c best. if P c best then c else best) cs b \<in> insert b (set cs)"
  by (induction cs arbitrary: b) auto

lemma min_score_in: "cs \<noteq> [] \<Longrightarrow> min_score cs \<in> set cs"
  using fold_pick [of "\<lambda>c best. score c < score best" "tl cs" "hd cs"]
  by (cases cs) (auto simp: min_score_def)

lemma covered_and_hints:
  assumes "\<And>c. c \<in> set cs \<Longrightarrow> covered c key"
  shows "covered (and_hints cs) key"
proof (cases "cs = []")
  case False
  moreover have "\<not> list_ex (\<lambda>c. c = []) cs" using assms by (force simp: covered_def list_ex_iff)
  ultimately show ?thesis using assms min_score_in [OF False] by (simp add: and_hints_def)
qed (simp add: and_hints_def)

lemma or_loop_Some: "or_loop hs out = Some r \<Longrightarrow> set r = set out \<union> set hs"
  by (induction hs arbitrary: out) (auto split: if_splits)

lemma covered_or_hints:
  assumes "c \<in> set cs" and "covered c key"
  shows "covered (or_hints cs) key"
proof (cases "or_loop (concat cs) []")
  case None
  then show ?thesis by (simp add: or_hints_def)
next
  case (Some r)
  then have "set r = set (concat cs)" using or_loop_Some [OF Some] by simp
  with assms Some show ?thesis by (auto simp: or_hints_def covered_def list_ex_iff)
qed

lemma wildcard_covers:
  assumes "length key = length pattern" and "list_all (\<lambda>(k, p). p = WILDCARD \<or> k = p) (zip key pattern)"
    and "i \<in> set (map fst (filter (\<lambda>(i, p). p \<noteq> WILDCARD) (enumerate 0 pattern)))"
  shows "key ! i = pattern ! i"
proof -
  from assms(3) have i: "i < length pattern" "pattern ! i \<noteq> WILDCARD"
    by (auto simp: in_set_enumerate_eq)
  then have "(key ! i, pattern ! i) \<in> set (zip key pattern)"
    using assms(1) by (auto simp: set_zip)
  with assms(2) i(2) show ?thesis by (auto simp: list_all_iff)
qed

lemma list_all_zip_map: "(\<And>i. i \<in> set is \<Longrightarrow> P i (f i)) \<Longrightarrow> list_all (\<lambda>(i, s). P i s) (zip is (map f is))"
  by (induction "is") simp_all

lemma hints_cover: "matches f key \<Longrightarrow> covered (routing_hints f) key"
proof (induction f)
  case (WildcardFilter pattern)
  then have l: "length key = length pattern"
    "list_all (\<lambda>(k, p). p = WILDCARD \<or> k = p) (zip key pattern)" by (auto split: if_splits)
  let ?pos = "map fst (filter (\<lambda>(i, p). p \<noteq> WILDCARD) (enumerate 0 pattern))"
  have "list_all (\<lambda>(p, s). key ! p = s) (zip ?pos (map (\<lambda>i. pattern ! i) ?pos))"
    by (rule list_all_zip_map) (rule wildcard_covers [OF l])
  then show ?case using l(1) by (simp add: covered_def covers_def Let_def)
next
  case (And fs)
  then show ?case by (auto simp: list_all_iff intro!: covered_and_hints)
next
  case (Or fs)
  then obtain f where "f \<in> set fs" "covered (routing_hints f) key" by (auto simp: list_ex_iff)
  then show ?case by (simp add: covered_or_hints [of "routing_hints f"])
qed (auto simp: covered_def covers_def Let_def ALL_HINTS_def ALL_HINT_def split: if_splits)

section \<open>The canonical JSON tells filters apart\<close>

fun filter_safe :: "kfilter \<Rightarrow> bool" where
  "filter_safe (PrefixFilter p) = list_all (\<lambda>s. case s of SStr t \<Rightarrow> list_all json_safe t | _ \<Rightarrow> True) p"
| "filter_safe (SuffixFilter p) = list_all (\<lambda>s. case s of SStr t \<Rightarrow> list_all json_safe t | _ \<Rightarrow> True) p"
| "filter_safe (WildcardFilter p) = list_all (\<lambda>s. case s of SStr t \<Rightarrow> list_all json_safe t | _ \<Rightarrow> True) p"
| "filter_safe (And fs) = list_all filter_safe fs"
| "filter_safe (Or fs) = list_all filter_safe fs"
| "filter_safe _ = True"

definition seg_safe :: "seg \<Rightarrow> bool" where
  "seg_safe s = (case s of SStr t \<Rightarrow> list_all json_safe t | _ \<Rightarrow> True)"

lemma json_seg_hd: "\<exists>c cs. json_seg s = c # cs \<and> (is_digit c \<or> c = 45 \<or> c = 34) \<and> c \<noteq> 93"
proof (cases s)
  case (SInt i)
  then show ?thesis using int_repr_hd [of i] by (cases "int_repr i") (auto simp: json_seg_def is_digit_def)
next
  case (SStr t)
  then show ?thesis by (simp add: json_seg_def json_string_def)
qed

lemma json_seg_append_inj:
  assumes "seg_safe a" and "seg_safe b" and "ends_number s" and "ends_number t"
    and e: "json_seg a @ s = json_seg b @ t"
  shows "a = b \<and> s = t"
proof -
  have d: "hd (json_seg (SInt i) @ u) \<noteq> 34" for i u
    using int_repr_hd [of i] by (auto simp: is_digit_def json_seg_def)
  have q: "hd (json_seg (SStr x) @ u) = 34" for x u
    by (simp add: json_seg_def json_string_def)
  show ?thesis
  proof (cases a; cases b)
    fix i j assume "a = SInt i" "b = SInt j"
    with int_repr_append_inj [OF assms(3,4), of i j] e show ?thesis by (simp add: json_seg_def)
  next
    fix x y assume "a = SStr x" "b = SStr y"
    with json_string_append_inj [of x y s t] e assms(1,2) show ?thesis by (simp add: json_seg_def seg_safe_def)
  next
    fix i y assume "a = SInt i" "b = SStr y"
    with e d [of i s] q [of y t] show ?thesis by simp
  next
    fix x j assume "a = SStr x" "b = SInt j"
    with e d [of j t] q [of x s] show ?thesis by simp
  qed
qed

text \<open>Reading back a bracketed list whose items can be read back before a comma or the bracket.\<close>

lemma join_comma_inj:
  assumes "\<And>x y s t. x \<in> set xs \<Longrightarrow> y \<in> set ys \<Longrightarrow> s \<noteq> [] \<Longrightarrow> t \<noteq> [] \<Longrightarrow> hd s \<in> {44, 93} \<Longrightarrow> hd t \<in> {44, 93} \<Longrightarrow>
      e x @ s = e y @ t \<Longrightarrow> x = y \<and> s = t"
    and "\<And>x. x \<in> set xs \<union> set ys \<Longrightarrow> e x \<noteq> [] \<and> hd (e x) \<noteq> 93"
    and "join_comma (map e xs) @ 93 # u = join_comma (map e ys) @ 93 # v"
  shows "xs = ys \<and> u = v"
  using assms
proof (induction xs arbitrary: ys)
  case Nil
  have "ys = []"
  proof (rule ccontr)
    assume "ys \<noteq> []"
    then obtain y ys' where y: "ys = y # ys'" by (cases ys) auto
    then obtain c cs where c: "e y = c # cs" "c \<noteq> 93" using Nil.prems(2) [of y] by (cases "e y") auto
    have "hd (join_comma (map e ys) @ 93 # v) = c" using y c(1) by (cases ys') simp_all
    with Nil.prems(3) c(2) show False by (metis append_Nil join_comma.simps(1) list.sel(1) list.simps(8))
  qed
  with Nil show ?case by simp
next
  case (Cons x xs)
  define rest where "rest xs u = (if xs = [] then 93 # u else 44 # join_comma (map e xs) @ 93 # u)" for xs and u :: pystr
  have split: "join_comma (map e (z # zs)) @ 93 # w = e z @ rest zs w" for z zs w
    by (cases zs) (simp_all add: rest_def lit_def)
  have "ys \<noteq> []"
  proof
    assume ys: "ys = []"
    obtain c cs where c: "e x = c # cs" "c \<noteq> 93" using Cons.prems(2) [of x] by (cases "e x") auto
    have "hd (join_comma (map e (x # xs)) @ 93 # u) = c" using c(1) by (cases xs) simp_all
    with Cons.prems(3) c(2) ys show False by (metis append_Nil join_comma.simps(1) list.sel(1) list.simps(8))
  qed
  then obtain y ys' where y: "ys = y # ys'" by (cases ys) auto
  have "e x @ rest xs u = e y @ rest ys' v" using Cons.prems(3) unfolding y split .
  then have xy: "x = y \<and> rest xs u = rest ys' v"
    using Cons.prems(1) [of x y "rest xs u" "rest ys' v"] y by (simp add: rest_def)
  show ?case
  proof (cases "xs = []")
    case True
    with xy y show ?thesis by (auto simp: rest_def split: if_splits)
  next
    case False
    with xy have "ys' \<noteq> []" "join_comma (map e xs) @ 93 # u = join_comma (map e ys') @ 93 # v"
      by (auto simp: rest_def split: if_splits)
    with Cons.IH [of ys'] Cons.prems(1,2) y xy show ?thesis by auto
  qed
qed

lemma json_segs_inj:
  "list_all seg_safe xs \<Longrightarrow> list_all seg_safe ys \<Longrightarrow>
   join_comma (map json_seg xs) @ 93 # u = join_comma (map json_seg ys) @ 93 # v \<Longrightarrow> xs = ys \<and> u = v"
proof (rule join_comma_inj)
  fix x y s t
  assume "list_all seg_safe xs" "list_all seg_safe ys" "x \<in> set xs" "y \<in> set ys" "s \<noteq> []" "t \<noteq> []"
    "hd s \<in> {44, 93}" "hd t \<in> {44, 93}" "json_seg x @ s = json_seg y @ t"
  then show "x = y \<and> s = t"
    by (intro json_seg_append_inj) (auto simp: list_all_iff ends_number_def is_digit_def)
next
  fix x
  show "json_seg x \<noteq> [] \<and> hd (json_seg x) \<noteq> 93" using json_seg_hd [of x] by auto
qed

lemma filter_key_simps:
  "filter_key (PrefixFilter p) = 123 # 34 # 112 # 114 # 101 # 102 # 105 # 120 # 34 # 58 # 91 #
     join_comma (map json_seg p) @ 93 # 44 # 34 # 116 # 121 # 112 # 101 # 34 # 58 # 34 # map of_char ''prefix'' @ [34, 125]"
  "filter_key (SuffixFilter p) = 123 # 34 # 115 # 117 # 102 # 102 # 105 # 120 # 34 # 58 # 91 #
     join_comma (map json_seg p) @ 93 # 44 # 34 # 116 # 121 # 112 # 101 # 34 # 58 # 34 # map of_char ''suffix'' @ [34, 125]"
  "filter_key (WildcardFilter p) = 123 # 34 # 112 # 97 # 116 # 116 # 101 # 114 # 110 # 34 # 58 # 91 #
     join_comma (map json_seg p) @ 93 # 44 # 34 # 116 # 121 # 112 # 101 # 34 # 58 # 34 # map of_char ''wildcard'' @ [34, 125]"
  "filter_key (LengthFilter n) = 123 # 34 # 108 # 101 # 110 # 103 # 116 # 104 # 34 # 58 #
     int_repr n @ 44 # 34 # 116 # 121 # 112 # 101 # 34 # 58 # 34 # map of_char ''length'' @ [34, 125]"
  "filter_key (And fs) = 123 # 34 # 102 # 105 # 108 # 116 # 101 # 114 # 115 # 34 # 58 # 91 #
     join_comma (map filter_key fs) @ 93 # 44 # 34 # 116 # 121 # 112 # 101 # 34 # 58 # 34 # map of_char ''and'' @ [34, 125]"
  "filter_key (Or fs) = 123 # 34 # 102 # 105 # 108 # 116 # 101 # 114 # 115 # 34 # 58 # 91 #
     join_comma (map filter_key fs) @ 93 # 44 # 34 # 116 # 121 # 112 # 101 # 34 # 58 # 34 # map of_char ''or'' @ [34, 125]"
  "filter_key PassAll = 123 # 34 # 116 # 121 # 112 # 101 # 34 # 58 # 34 # map of_char ''pass_all'' @ [34, 125]"
  "filter_key PassNone = 123 # 34 # 116 # 121 # 112 # 101 # 34 # 58 # 34 # map of_char ''pass_none'' @ [34, 125]"
  by (simp_all add: filter_key_def json_entry_def json_string_def json_char_def json_array_def lit_def comp_def
      filter_key_def [abs_def])

lemma filter_key_hd: "filter_key f \<noteq> [] \<and> hd (filter_key f) = 123"
  by (cases f) (simp_all add: filter_key_simps)

lemma filter_safe_seg:
  "filter_safe (PrefixFilter p) = list_all seg_safe p" "filter_safe (SuffixFilter p) = list_all seg_safe p"
  "filter_safe (WildcardFilter p) = list_all seg_safe p"
  by (simp_all add: seg_safe_def [abs_def])

lemma filter_key_append_inj:
  "filter_safe f \<Longrightarrow> filter_safe g \<Longrightarrow> filter_key f @ s = filter_key g @ t \<Longrightarrow> f = g \<and> s = t"
proof (induction f arbitrary: g s t)
  case (PrefixFilter p)
  then show ?case unfolding filter_safe_seg
    by (cases g) (auto simp: filter_key_simps filter_safe_seg simp del: filter_safe.simps(1-3) dest!: json_segs_inj [rotated 2])
next
  case (SuffixFilter p)
  then show ?case unfolding filter_safe_seg
    by (cases g) (auto simp: filter_key_simps filter_safe_seg simp del: filter_safe.simps(1-3) dest!: json_segs_inj [rotated 2])
next
  case (WildcardFilter p)
  then show ?case unfolding filter_safe_seg
    by (cases g) (auto simp: filter_key_simps filter_safe_seg simp del: filter_safe.simps(1-3) dest!: json_segs_inj [rotated 2])
next
  case (LengthFilter n)
  have e: "ends_number (44 # u)" for u by (simp add: ends_number_def is_digit_def)
  show ?case using LengthFilter
    by (cases g) (auto simp: filter_key_simps dest!: int_repr_append_inj [OF e e])
next
  case (And fs)
  have k: "join_comma (map filter_key fs) @ 93 # u = join_comma (map filter_key gs) @ 93 # v \<Longrightarrow> fs = gs \<and> u = v"
    if "list_all filter_safe gs" for gs u v
    using And.IH And.prems(1) that filter_key_hd
    by (intro join_comma_inj [of fs gs filter_key u v]) (auto simp: list_all_iff)
  show ?case using And.prems
    by (cases g) (auto simp: filter_key_simps dest!: k [rotated])
next
  case (Or fs)
  have k: "join_comma (map filter_key fs) @ 93 # u = join_comma (map filter_key gs) @ 93 # v \<Longrightarrow> fs = gs \<and> u = v"
    if "list_all filter_safe gs" for gs u v
    using Or.IH Or.prems(1) that filter_key_hd
    by (intro join_comma_inj [of fs gs filter_key u v]) (auto simp: list_all_iff)
  show ?case using Or.prems
    by (cases g) (auto simp: filter_key_simps dest!: k [rotated])
next
  case PassAll
  then show ?case by (cases g) (auto simp: filter_key_simps)
next
  case PassNone
  then show ?case by (cases g) (auto simp: filter_key_simps)
qed

lemma filter_key_inj: "filter_safe f \<Longrightarrow> filter_safe g \<Longrightarrow> filter_key f = filter_key g \<Longrightarrow> f = g"
  using filter_key_append_inj [of f g "[]" "[]"] by simp

section \<open>Canonical filters\<close>

definition collapse ::
  "(kfilter list \<Rightarrow> kfilter) \<Rightarrow> kfilter \<Rightarrow> kfilter \<Rightarrow> kfilter list \<Rightarrow> kfilter" where
  "collapse mk unit zero flat =
     (if list_ex (\<lambda>c. c = zero) flat then zero
      else
        let kept = sort_key filter_key (dedup_loop (filter (\<lambda>c. c \<noteq> unit) flat) {} []) in
        if length kept = 0 then unit else if length kept = 1 then kept ! 0 else mk kept)"

lemma canonicalize_And: "canonicalize (And fs) = collapse And PassAll PassNone (flat_and (map canonicalize fs))"
  by (simp add: collapse_def Let_def)

lemma canonicalize_Or: "canonicalize (Or fs) = collapse Or PassNone PassAll (flat_or (map canonicalize fs))"
  by (simp add: collapse_def Let_def)

declare canonicalize.simps(4,5) [simp del]

definition kept_of :: "kfilter \<Rightarrow> kfilter list \<Rightarrow> kfilter list" where
  "kept_of unit flat = sort_key filter_key (dedup_loop (filter (\<lambda>c. c \<noteq> unit) flat) {} [])"

lemma collapse_kept:
  "collapse mk unit zero flat = (if zero \<in> set flat then zero
     else case kept_of unit flat of [] \<Rightarrow> unit | [f] \<Rightarrow> f | fs \<Rightarrow> mk fs)"
  unfolding collapse_def kept_of_def [symmetric] Let_def
  by (auto simp: list_ex_iff split: list.splits)

lemma dedup_loop_props:
  "distinct (map filter_key kept) \<Longrightarrow> seen = filter_key ` set kept \<Longrightarrow>
   distinct (map filter_key (dedup_loop cs seen kept)) \<and>
   set (dedup_loop cs seen kept) \<subseteq> set kept \<union> set cs \<and>
   filter_key ` set (dedup_loop cs seen kept) = filter_key ` (set kept \<union> set cs)"
proof (induction cs arbitrary: seen kept)
  case Nil
  then show ?case by simp
next
  case (Cons c cs)
  show ?case
  proof (cases "filter_key c \<in> seen")
    case True
    with Cons.IH [of kept seen] Cons.prems show ?thesis by (auto simp: Let_def)
  next
    case False
    with Cons.IH [of "kept @ [c]" "insert (filter_key c) seen"] Cons.prems show ?thesis
      by (auto simp: Let_def)
  qed
qed

lemma kept_of_props:
  "sorted_wrt (<) (map filter_key (kept_of unit flat))"
  "set (kept_of unit flat) \<subseteq> set flat - {unit}"
  "filter_key ` set (kept_of unit flat) = filter_key ` (set flat - {unit})"
proof -
  let ?d = "dedup_loop (filter (\<lambda>c. c \<noteq> unit) flat) {} []"
  note D = dedup_loop_props [of "[]" "{}" "filter (\<lambda>c. c \<noteq> unit) flat"]
  have "distinct (map filter_key (sort_key filter_key ?d))"
    using D by (simp add: distinct_map)
  moreover have "sorted (map filter_key (sort_key filter_key ?d))" by simp
  ultimately show "sorted_wrt (<) (map filter_key (kept_of unit flat))"
    by (simp add: kept_of_def strict_sorted_iff)
  have "set flat - {unit} = {c \<in> set flat. c \<noteq> unit}" by auto
  then show "set (kept_of unit flat) \<subseteq> set flat - {unit}"
    "filter_key ` set (kept_of unit flat) = filter_key ` (set flat - {unit})"
    using D by (simp_all add: kept_of_def)
qed

lemma kept_of_set:
  assumes "list_all filter_safe flat"
  shows "set (kept_of unit flat) = set flat - {unit}"
proof
  show "set (kept_of unit flat) \<subseteq> set flat - {unit}" by (rule kept_of_props(2))
  show "set flat - {unit} \<subseteq> set (kept_of unit flat)"
  proof
    fix c assume c: "c \<in> set flat - {unit}"
    then have "filter_key c \<in> filter_key ` set (kept_of unit flat)" by (simp add: kept_of_props(3))
    then obtain d where "d \<in> set (kept_of unit flat)" "filter_key c = filter_key d" by blast
    moreover from this have "filter_safe d" "filter_safe c"
      using assms c kept_of_props(2) [of unit flat] by (auto simp: list_all_iff)
    ultimately show "c \<in> set (kept_of unit flat)" using filter_key_inj by metis
  qed
qed

lemma kept_of_determined:
  assumes "list_all filter_safe xs" and "list_all filter_safe ys" and "set xs - {unit} = set ys - {unit}"
  shows "kept_of unit xs = kept_of unit ys"
proof -
  have "map filter_key (kept_of unit xs) = map filter_key (kept_of unit ys)"
    using assms by (intro sorted_less_unique kept_of_props(1)) (simp add: kept_of_set)
  moreover have "inj_on filter_key (set (kept_of unit xs) \<union> set (kept_of unit ys))"
    using assms(1,2) kept_of_props(2) [of unit xs] kept_of_props(2) [of unit ys]
    by (intro inj_onI filter_key_inj) (auto simp: list_all_iff)
  ultimately show ?thesis by (rule map_inj_on)
qed

lemma kept_of_sorted:
  assumes "sorted_wrt (<) (map filter_key xs)" and "unit \<notin> set xs"
  shows "kept_of unit xs = xs"
proof -
  have dd: "distinct (map filter_key (kept @ cs)) \<Longrightarrow> seen = filter_key ` set kept \<Longrightarrow> dedup_loop cs seen kept = kept @ cs"
    for cs kept seen
  proof (induction cs arbitrary: seen kept)
    case Nil
    then show ?case by simp
  next
    case (Cons c cs)
    from Cons.IH [of "kept @ [c]" "insert (filter_key c) seen"] Cons.prems show ?case
      by (auto simp: Let_def)
  qed
  have "filter (\<lambda>c. c \<noteq> unit) xs = xs" using assms(2) by (auto simp: filter_id_conv)
  moreover have "dedup_loop xs {} [] = xs" using dd [of "[]" xs "{}"] assms(1) by (simp add: strict_sorted_iff)
  moreover have "sort_key filter_key xs = xs"
    using assms(1) by (intro sort_key_id_if_sorted) (simp_all add: strict_sorted_iff)
  ultimately show ?thesis by (simp add: kept_of_def)
qed

fun is_and :: "kfilter \<Rightarrow> bool" where
  "is_and (And fs) = True" | "is_and _ = False"

fun is_or :: "kfilter \<Rightarrow> bool" where
  "is_or (Or fs) = True" | "is_or _ = False"

text \<open>What a canonical filter looks like.\<close>

fun canonical :: "kfilter \<Rightarrow> bool" where
  "canonical (PrefixFilter p) = (p \<noteq> [])"
| "canonical (SuffixFilter s) = (s \<noteq> [])"
| "canonical (WildcardFilter w) = (\<not> list_all (\<lambda>seg. seg = WILDCARD) w)"
| "canonical (And fs) = (1 < length fs \<and> sorted_wrt (<) (map filter_key fs) \<and>
     list_all (\<lambda>f. canonical f \<and> \<not> is_and f \<and> f \<noteq> PassAll \<and> f \<noteq> PassNone) fs)"
| "canonical (Or fs) = (1 < length fs \<and> sorted_wrt (<) (map filter_key fs) \<and>
     list_all (\<lambda>f. canonical f \<and> \<not> is_or f \<and> f \<noteq> PassAll \<and> f \<noteq> PassNone) fs)"
| "canonical _ = True"

lemma flat_and_set:
  "list_all canonical cs \<Longrightarrow> f \<in> set (flat_and cs) \<Longrightarrow> canonical f \<and> \<not> is_and f"
proof (induction cs)
  case Nil
  then show ?case by (simp add: flat_and_def)
next
  case (Cons c cs)
  then show ?case by (cases c) (auto simp: flat_and_def list_all_iff)
qed

lemma flat_or_set:
  "list_all canonical cs \<Longrightarrow> f \<in> set (flat_or cs) \<Longrightarrow> canonical f \<and> \<not> is_or f"
proof (induction cs)
  case Nil
  then show ?case by (simp add: flat_or_def)
next
  case (Cons c cs)
  then show ?case by (cases c) (auto simp: flat_or_def list_all_iff)
qed

lemma collapse_canonical:
  assumes "\<And>f. f \<in> set flat \<Longrightarrow> canonical f \<and> P f" and "canonical unit" and "canonical zero"
    and "\<And>fs. canonical (mk fs) = (1 < length fs \<and> sorted_wrt (<) (map filter_key fs) \<and>
      list_all (\<lambda>f. canonical f \<and> P f \<and> f \<noteq> unit \<and> f \<noteq> zero) fs)"
  shows "canonical (collapse mk unit zero flat)"
proof (cases "zero \<in> set flat")
  case False
  then have k: "list_all (\<lambda>f. canonical f \<and> P f \<and> f \<noteq> unit \<and> f \<noteq> zero) (kept_of unit flat)"
    using assms(1) kept_of_props(2) [of unit flat] by (auto simp: list_all_iff)
  show ?thesis
  proof (cases "1 < length (kept_of unit flat)")
    case True
    then have "collapse mk unit zero flat = mk (kept_of unit flat)"
      using False by (auto simp: collapse_kept split: list.splits)
    with True k kept_of_props(1) [of unit flat] assms(4) show ?thesis by simp
  next
    case small: False
    then have "collapse mk unit zero flat = unit \<or> collapse mk unit zero flat \<in> set (kept_of unit flat)"
      using False by (auto simp: collapse_kept split: list.splits)
    with k assms(2) show ?thesis by (auto simp: list_all_iff)
  qed
qed (simp add: collapse_kept assms(3))

lemma canonicalize_canonical: "canonical (canonicalize f)"
proof (induction f)
  case (And fs)
  then have "list_all canonical (map canonicalize fs)" by (simp add: list_all_iff)
  from flat_and_set [OF this] show ?case unfolding canonicalize_And
    by (intro collapse_canonical [where P = "\<lambda>f. \<not> is_and f"]) auto
next
  case (Or fs)
  then have "list_all canonical (map canonicalize fs)" by (simp add: list_all_iff)
  from flat_or_set [OF this] show ?case unfolding canonicalize_Or
    by (intro collapse_canonical [where P = "\<lambda>f. \<not> is_or f"]) (auto simp: list_all_iff)
qed simp_all

lemma flat_and_id: "list_all (\<lambda>f. \<not> is_and f) fs \<Longrightarrow> flat_and fs = fs"
proof (induction fs)
  case (Cons f fs)
  then show ?case by (cases f) (simp_all add: flat_and_def)
qed (simp add: flat_and_def)

lemma flat_or_id: "list_all (\<lambda>f. \<not> is_or f) fs \<Longrightarrow> flat_or fs = fs"
proof (induction fs)
  case (Cons f fs)
  then show ?case by (cases f) (simp_all add: flat_or_def)
qed (simp add: flat_or_def)

lemma collapse_id:
  assumes "1 < length fs" and "sorted_wrt (<) (map filter_key fs)" and "unit \<notin> set fs" and "zero \<notin> set fs"
  shows "collapse mk unit zero fs = mk fs"
  using assms by (auto simp: collapse_kept kept_of_sorted split: list.splits)

lemma canonical_fixed: "canonical f \<Longrightarrow> canonicalize f = f"
proof (induction f)
  case (And fs)
  then have "map canonicalize fs = fs" by (auto simp: list_all_iff map_idI)
  moreover have "flat_and fs = fs" using And.prems by (intro flat_and_id) (auto simp: list_all_iff)
  moreover have "collapse And PassAll PassNone fs = And fs"
    using And.prems by (intro collapse_id) (auto simp: list_all_iff)
  ultimately show ?case by (simp add: canonicalize_And)
next
  case (Or fs)
  then have "map canonicalize fs = fs" by (auto simp: list_all_iff map_idI)
  moreover have "flat_or fs = fs" using Or.prems by (intro flat_or_id) (auto simp: list_all_iff)
  moreover have "collapse Or PassNone PassAll fs = Or fs"
    using Or.prems by (intro collapse_id) (auto simp: list_all_iff)
  ultimately show ?case by (simp add: canonicalize_Or)
qed simp_all

section \<open>Safety and meaning are preserved\<close>

lemma flat_and_safe: "list_all filter_safe cs \<Longrightarrow> list_all filter_safe (flat_and cs)"
proof (induction cs)
  case (Cons c cs)
  then show ?case by (cases c) (auto simp: flat_and_def)
qed (simp add: flat_and_def)

lemma flat_and_matches: "list_all (\<lambda>f. matches f key) (flat_and cs) = list_all (\<lambda>f. matches f key) cs"
proof (induction cs)
  case (Cons c cs)
  then show ?case by (cases c) (auto simp: flat_and_def)
qed (simp add: flat_and_def)

lemma flat_or_safe: "list_all filter_safe cs \<Longrightarrow> list_all filter_safe (flat_or cs)"
proof (induction cs)
  case (Cons c cs)
  then show ?case by (cases c) (auto simp: flat_or_def)
qed (simp add: flat_or_def)

lemma flat_or_matches: "list_ex (\<lambda>f. matches f key) (flat_or cs) = list_ex (\<lambda>f. matches f key) cs"
proof (induction cs)
  case (Cons c cs)
  then show ?case by (cases c) (auto simp: flat_or_def)
qed (simp add: flat_or_def)

lemma collapse_safe:
  assumes "list_all filter_safe flat" and "filter_safe unit" and "filter_safe zero"
    and "\<And>fs. filter_safe (mk fs) = list_all filter_safe fs"
  shows "filter_safe (collapse mk unit zero flat)"
  using assms kept_of_props(2) [of unit flat]
  by (auto simp: collapse_kept list_all_iff split: list.splits)

lemma canonicalize_safe: "filter_safe f \<Longrightarrow> filter_safe (canonicalize f)"
proof (induction f)
  case (And fs)
  then show ?case unfolding canonicalize_And
    by (intro collapse_safe flat_and_safe) (auto simp: list_all_iff)
next
  case (Or fs)
  then show ?case unfolding canonicalize_Or
    by (intro collapse_safe flat_or_safe) (auto simp: list_all_iff)
qed simp_all

lemma collapse_and_matches:
  assumes "list_all filter_safe flat"
  shows "matches (collapse And PassAll PassNone flat) key = list_all (\<lambda>f. matches f key) flat"
proof (cases "PassNone \<in> set flat")
  case True
  then show ?thesis by (auto simp: collapse_kept list_all_iff intro!: bexI [of _ PassNone])
next
  case False
  have "matches (collapse And PassAll PassNone flat) key = list_all (\<lambda>f. matches f key) (kept_of PassAll flat)"
    using False by (auto simp: collapse_kept split: list.splits)
  also have "\<dots> = list_all (\<lambda>f. matches f key) flat"
    using kept_of_set [OF assms, of PassAll] by (auto simp: list_all_iff)
  finally show ?thesis .
qed

lemma collapse_or_matches:
  assumes "list_all filter_safe flat"
  shows "matches (collapse Or PassNone PassAll flat) key = list_ex (\<lambda>f. matches f key) flat"
proof (cases "PassAll \<in> set flat")
  case True
  then show ?thesis by (auto simp: collapse_kept list_ex_iff intro!: bexI [of _ PassAll])
next
  case False
  have "matches (collapse Or PassNone PassAll flat) key = list_ex (\<lambda>f. matches f key) (kept_of PassNone flat)"
    using False by (auto simp: collapse_kept split: list.splits)
  also have "\<dots> = list_ex (\<lambda>f. matches f key) flat"
    using kept_of_set [OF assms, of PassNone] by (auto simp: list_ex_iff)
  finally show ?thesis .
qed

lemma wildcard_all:
  "list_all (\<lambda>seg. seg = WILDCARD) w \<Longrightarrow> length key = length w \<Longrightarrow>
   list_all (\<lambda>(k, p). p = WILDCARD \<or> k = p) (zip key w)"
  by (auto simp: list_all_iff dest: set_zip_rightD)

lemma canonicalize_matches_safe: "filter_safe f \<Longrightarrow> matches (canonicalize f) key = matches f key"
proof (induction f)
  case (WildcardFilter w)
  then show ?case using wildcard_all [of w key] by auto
next
  case (And fs)
  then have "list_all filter_safe (flat_and (map canonicalize fs))"
    by (intro flat_and_safe) (auto simp: list_all_iff canonicalize_safe)
  with And show ?case unfolding canonicalize_And
    by (simp add: collapse_and_matches flat_and_matches) (auto simp: list_all_iff)
next
  case (Or fs)
  then have "list_all filter_safe (flat_or (map canonicalize fs))"
    by (intro flat_or_safe) (auto simp: list_all_iff canonicalize_safe)
  with Or show ?case unfolding canonicalize_Or
    by (simp add: collapse_or_matches flat_or_matches) (auto simp: list_ex_iff list_all_iff)
qed auto

section \<open>Order, repetition and grouping do not matter\<close>

lemma collapse_determined:
  assumes "list_all filter_safe xs" and "list_all filter_safe ys" and "set xs - {unit} = set ys - {unit}"
    and "unit \<noteq> zero"
  shows "collapse mk unit zero xs = collapse mk unit zero ys"
  using kept_of_determined [OF assms(1-3)] assms(3,4) by (auto simp: collapse_kept)

lemma set_flat_and: "set (flat_and cs) = (\<Union>c \<in> set cs. set (case c of And gs \<Rightarrow> gs | _ \<Rightarrow> [c]))"
  by (simp add: flat_and_def)

lemma set_flat_or: "set (flat_or cs) = (\<Union>c \<in> set cs. set (case c of Or gs \<Rightarrow> gs | _ \<Rightarrow> [c]))"
  by (simp add: flat_or_def)

lemma safe_children: "list_all filter_safe fs \<Longrightarrow> list_all filter_safe (map canonicalize fs)"
  by (simp add: list_all_iff canonicalize_safe)

lemma canonicalize_set:
  assumes "list_all filter_safe fs" and "list_all filter_safe gs" and "set fs = set gs"
  shows "canonicalize (And fs) = canonicalize (And gs)" and "canonicalize (Or fs) = canonicalize (Or gs)"
  unfolding canonicalize_And canonicalize_Or using assms(3) safe_children [OF assms(1)] safe_children [OF assms(2)]
  by (intro collapse_determined flat_and_safe flat_or_safe; simp add: set_flat_and set_flat_or)+

lemma grouping_sets:
  assumes F: "\<And>f. f \<in> set F \<Longrightarrow> canonical f \<and> ops f = [f]" and s: "list_all filter_safe F"
    and mk: "\<And>fs. ops (mk fs) = fs" and u: "ops unit = [unit]" and z: "zero \<notin> set F"
  shows "set (ops (collapse mk unit zero F)) - {unit} = set F - {unit}"
proof -
  let ?K = "kept_of unit F"
  have K: "set ?K = set F - {unit}" by (rule kept_of_set [OF s])
  show ?thesis
  proof (cases ?K)
    case Nil
    then have "collapse mk unit zero F = unit" using z by (simp add: collapse_kept)
    with u K Nil show ?thesis by simp
  next
    case (Cons f fs)
    show ?thesis
    proof (cases fs)
      case Nil
      with Cons z have "collapse mk unit zero F = f" by (simp add: collapse_kept)
      moreover have "f \<in> set F" "f \<noteq> unit" using K Cons by auto
      ultimately show ?thesis using F [of f] K Cons Nil by auto
    next
      case (Cons g gs)
      with \<open>?K = f # fs\<close> z have "collapse mk unit zero F = mk ?K" by (simp add: collapse_kept)
      with mk K show ?thesis by auto
    qed
  qed
qed

lemma flat_and_Cons: "flat_and (c # cs) = (case c of And hs \<Rightarrow> hs | _ \<Rightarrow> [c]) @ flat_and cs"
  by (simp add: flat_and_def)

lemma flat_or_Cons: "flat_or (c # cs) = (case c of Or hs \<Rightarrow> hs | _ \<Rightarrow> [c]) @ flat_or cs"
  by (simp add: flat_or_def)

lemma flat_append:
  "flat_and (cs @ ds) = flat_and cs @ flat_and ds" "flat_or (cs @ ds) = flat_or cs @ flat_or ds"
  by (simp_all add: flat_and_def flat_or_def)

lemma canonicalize_group_and:
  assumes "list_all filter_safe fs" and "list_all filter_safe gs"
  shows "canonicalize (And (And fs # gs)) = canonicalize (And (fs @ gs))"
proof -
  let ?ops = "\<lambda>c. case c of And hs \<Rightarrow> hs | _ \<Rightarrow> [c]"
  let ?F = "flat_and (map canonicalize fs)" and ?G = "flat_and (map canonicalize gs)"
  let ?C = "collapse And PassAll PassNone ?F"
  have s: "list_all filter_safe ?F" "list_all filter_safe ?G"
    using assms by (simp_all add: flat_and_safe safe_children)
  have "filter_safe ?C" using s(1) by (intro collapse_safe) simp_all
  then have sC: "list_all filter_safe (?ops ?C)" by (cases ?C) simp_all
  have c: "list_all canonical (map canonicalize fs)" by (simp add: list_all_iff canonicalize_canonical)
  have l: "canonicalize (And (And fs # gs)) = collapse And PassAll PassNone (?ops ?C @ ?G)"
    by (simp add: canonicalize_And flat_and_Cons flat_append)
  have r: "canonicalize (And (fs @ gs)) = collapse And PassAll PassNone (?F @ ?G)"
    by (simp add: canonicalize_And flat_and_Cons flat_append)
  show ?thesis
  proof (cases "PassNone \<in> set ?F")
    case True
    then show ?thesis unfolding l r by (simp add: collapse_kept)
  next
    case False
    have "canonical f \<and> ?ops f = [f]" if "f \<in> set ?F" for f
      using flat_and_set [OF c that] by (cases f) simp_all
    then have "set (?ops ?C) - {PassAll} = set ?F - {PassAll}"
      using False s(1) by (intro grouping_sets [where ops = ?ops]) simp_all
    then show ?thesis unfolding l r using s sC
      by (intro collapse_determined) auto
  qed
qed

lemma canonicalize_group_or:
  assumes "list_all filter_safe fs" and "list_all filter_safe gs"
  shows "canonicalize (Or (Or fs # gs)) = canonicalize (Or (fs @ gs))"
proof -
  let ?ops = "\<lambda>c. case c of Or hs \<Rightarrow> hs | _ \<Rightarrow> [c]"
  let ?F = "flat_or (map canonicalize fs)" and ?G = "flat_or (map canonicalize gs)"
  let ?C = "collapse Or PassNone PassAll ?F"
  have s: "list_all filter_safe ?F" "list_all filter_safe ?G"
    using assms by (simp_all add: flat_or_safe safe_children)
  have "filter_safe ?C" using s(1) by (intro collapse_safe) simp_all
  then have sC: "list_all filter_safe (?ops ?C)" by (cases ?C) simp_all
  have c: "list_all canonical (map canonicalize fs)" by (simp add: list_all_iff canonicalize_canonical)
  have l: "canonicalize (Or (Or fs # gs)) = collapse Or PassNone PassAll (?ops ?C @ ?G)"
    by (simp add: canonicalize_Or flat_or_Cons flat_append)
  have r: "canonicalize (Or (fs @ gs)) = collapse Or PassNone PassAll (?F @ ?G)"
    by (simp add: canonicalize_Or flat_or_Cons flat_append)
  show ?thesis
  proof (cases "PassAll \<in> set ?F")
    case True
    then show ?thesis unfolding l r by (simp add: collapse_kept)
  next
    case False
    have "canonical f \<and> ?ops f = [f]" if "f \<in> set ?F" for f
      using flat_or_set [OF c that] by (cases f) simp_all
    then have "set (?ops ?C) - {PassNone} = set ?F - {PassNone}"
      using False s(1) by (intro grouping_sets [where ops = ?ops]) simp_all
    then show ?thesis unfolding l r using s sC
      by (intro collapse_determined) auto
  qed
qed

text \<open>
  Two different segments may have the same ASCII JSON: an astral code point and the two lone
  surrogates that encode it. Canonicalization then drops one of two different filters. Such
  keys cannot be stored through the binary codec (\<open>utf8_encode\<close> rejects surrogates).
\<close>

lemma canonicalize_surrogate_collision:
  "let f = Or [PrefixFilter [SStr [0x1F600]], PrefixFilter [SStr [0xD83D, 0xDE00]]] in
   matches f [SStr [0xD83D, 0xDE00]] \<and> \<not> matches (canonicalize f) [SStr [0xD83D, 0xDE00]]"
proof -
  have "json_char 0x1F600 = json_char 0xD83D @ json_char 0xDE00"
    by (simp add: json_char_def u_escape_def hex4_def hex_digit_def)
  then have k: "filter_key (PrefixFilter [SStr [0x1F600]]) = filter_key (PrefixFilter [SStr [0xD83D, 0xDE00]])"
    by (simp add: filter_key_simps json_seg_def json_string_def)
  have "dedup_loop [PrefixFilter [SStr [0x1F600]], PrefixFilter [SStr [0xD83D, 0xDE00]]] {} [] =
      [PrefixFilter [SStr [0x1F600]]]" by (simp add: k)
  then have "canonicalize (Or [PrefixFilter [SStr [0x1F600]], PrefixFilter [SStr [0xD83D, 0xDE00]]]) =
      PrefixFilter [SStr [0x1F600]]"
    by (simp add: canonicalize_Or flat_or_def collapse_def)
  then show ?thesis by simp
qed

text \<open>
  The normal form is not complete: two filters that match no key at all keep different forms, and
  so different hashes.
\<close>

lemma canonicalize_incomplete:
  "(\<forall>key. matches (And [LengthFilter 1, LengthFilter 2]) key = matches PassNone key) \<and>
   canonicalize (And [LengthFilter 1, LengthFilter 2]) \<noteq> canonicalize PassNone"
proof -
  have "list_ex (\<lambda>c. c = PassNone) (flat_and (map canonicalize [LengthFilter 1, LengthFilter 2])) = False"
    by (simp add: flat_and_def)
  then have "canonicalize (And [LengthFilter 1, LengthFilter 2]) \<noteq> PassNone"
    using canonicalize_matches_safe [of "Or [And [LengthFilter 1, LengthFilter 2]]"]
    by (auto simp: canonicalize_And flat_and_def collapse_def filter_key_simps Let_def)
  then show ?thesis by simp
qed

section \<open>Properties\<close>

text \<open>C34: canonicalization keeps the meaning of a filter whose strings hold no surrogates
  (\<open>filter_safe\<close>): the canonical filter matches exactly the keys the filter matches, and it is in
  canonical form, so canonicalizing again changes nothing. With surrogates the first does not hold
  (\<open>canonicalize_surrogate_collision\<close>).\<close>

theorem canonicalize_equivalent:
  assumes "filter_safe f"
  shows "matches (canonicalize f) key = matches f key \<and> canonicalize (canonicalize f) = canonicalize f"
  using canonicalize_matches_safe [OF assms] canonical_fixed [OF canonicalize_canonical] by blast

theorem canonicalize_equivalent_witness:
  "let f = And [PrefixFilter [], Or [LengthFilter 2, PassNone]] in
   matches (canonicalize f) [SInt 1, SInt 2] \<and> \<not> matches (canonicalize f) [SInt 1]"
  using canonicalize_equivalent [of "And [PrefixFilter [], Or [LengthFilter 2, PassNone]]" "[SInt 1, SInt 2]"]
    canonicalize_equivalent [of "And [PrefixFilter [], Or [LengthFilter 2, PassNone]]" "[SInt 1]"]
  by (simp add: Let_def)

text \<open>Order, repetition and grouping of the operands of \<open>And\<close> and \<open>Or\<close> do not change the
  canonical filter, so \<open>filter_hash\<close>, and with it the channel two processes subscribe to, is the
  same for \<open>a & b\<close>, \<open>b & a\<close>, \<open>(a & b) & c\<close> and \<open>a & (b & c)\<close>.\<close>

theorem canonicalize_normalizes:
  assumes "list_all filter_safe fs" and "list_all filter_safe gs" and "set fs = set hs"
  shows "canonicalize (And fs) = canonicalize (And hs) \<and> canonicalize (Or fs) = canonicalize (Or hs) \<and>
    canonicalize (And (And fs # gs)) = canonicalize (And (gs @ fs)) \<and>
    canonicalize (Or (Or fs # gs)) = canonicalize (Or (gs @ fs)) \<and>
    filter_hash digest (And (And fs # gs)) = filter_hash digest (And (gs @ fs)) \<and>
    filter_hash digest (Or (Or fs # gs)) = filter_hash digest (Or (gs @ fs))"
proof -
  have hs: "list_all filter_safe hs" using assms(1,3) by (simp add: list_all_iff)
  have "list_all filter_safe (fs @ gs)" "list_all filter_safe (gs @ fs)" "set (fs @ gs) = set (gs @ fs)"
    using assms by auto
  from canonicalize_set [OF this] canonicalize_set [OF assms(1) hs assms(3)]
    canonicalize_group_and [OF assms(1,2)] canonicalize_group_or [OF assms(1,2)]
  show ?thesis by (simp add: filter_hash_def)
qed

theorem canonicalize_normalizes_witness:
  "canonicalize (And [LengthFilter 1, PrefixFilter [SInt 7]]) = canonicalize (And [PrefixFilter [SInt 7], LengthFilter 1]) \<and>
   filter_hash id (And [And [LengthFilter 1], PrefixFilter [SInt 7]]) =
     filter_hash id (And [PrefixFilter [SInt 7], LengthFilter 1])"
  using canonicalize_normalizes [of "[LengthFilter 1, PrefixFilter [SInt 7]]" "[]" "[PrefixFilter [SInt 7], LengthFilter 1]" id]
    canonicalize_normalizes [of "[LengthFilter 1]" "[PrefixFilter [SInt 7]]" "[LengthFilter 1]" id]
  by (auto simp: insert_commute)

text \<open>A filter survives its dict form, and the operators mean what they say.\<close>

theorem filter_dict_roundtrip:
  "filter_from_dict (to_dict f) = Inr f \<and>
   (matches (filter_and f g) key \<longleftrightarrow> matches f key \<and> matches g key) \<and>
   (matches (filter_or f g) key \<longleftrightarrow> matches f key \<or> matches g key)"
  by (simp add: from_to_dict matches_and matches_or)

text \<open>C35: routing hints never under-cover: a key a filter matches is covered by one of its hints,
  for the filter as written and for its canonical form (of a filter whose strings hold no surrogates).\<close>

theorem routing_hints_cover:
  assumes "matches f key" and "filter_safe f"
  shows "(\<exists>h \<in> set (routing_hints f). covers h key) \<and>
    (\<exists>h \<in> set (routing_hints (canonicalize f)). covers h key)"
  using hints_cover [of f key] hints_cover [of "canonicalize f" key] canonicalize_matches_safe [of f key] assms
  by (simp add: covered_def list_ex_iff)

theorem routing_hints_cover_witness:
  "\<exists>h \<in> set (routing_hints (And [WildcardFilter [WILDCARD, SInt 3], LengthFilter 2])). covers h [SInt 9, SInt 3]"
  using routing_hints_cover [of "And [WildcardFilter [WILDCARD, SInt 3], LengthFilter 2]" "[SInt 9, SInt 3]"]
  by (auto simp: WILDCARD_def lit_def json_safe_def)

end
