(* ===== verification/Mem_Scan.thy ===== *)
theory Mem_Scan
  imports Mem_Context Filters Binary_Codec
begin

text \<open>
  The scan of the in-memory storage (\<open>_backends/storages/mem/scan.py\<close>) and the scan options
  (\<open>tkv/storage/types.py\<close>).

  \<open>_iterate_impl\<close> is a Python generator. Its state between two \<open>next\<close> calls is \<open>gen_state\<close>, and
  \<open>scan_next\<close> is one \<open>next\<close>: it runs the page loop (\<open>scan_while\<close>) and the row loop
  (\<open>scan_rows\<close>) up to the next yield, return or raise, in a context that is open or closed at
  that moment, calling the context's \<open>_page\<close> hook for pages. The number of pages one \<open>next\<close> may
  fetch is bounded by \<open>fuel\<close>; a scan needs fewer pages than there are keys, since every page and
  every seek leaves a key behind. \<open>scan_drain\<close> is a caller that iterates to the end.

  \<open>scan_ref\<close> is the reference: one pass over the rows of the view. The locale \<open>scanned_view\<close>
  joins the contract of a view (\<open>read_view\<close>) with that of a key codec (\<open>prefix_codec\<close>); in it the
  paged scan is shown to agree with the reference. It is interpreted on the transaction and the
  snapshot with the binary codec. A \<open>start_encoded\<close> of another type than the encoded keys is
  ruled out by the types, so the \<open>TypeError\<close> branch of the loop is not modelled.
\<close>



section \<open>Scan options\<close>

record 'e scan_options =
  so_start :: "key option"
  so_reverse :: bool
  so_limit :: "int option"
  so_filter :: "kfilter option"
  so_break_filter :: "kfilter option"
  so_start_encoded :: "'e option"
  so_max_depth :: "int option"

definition scan_options_init :: "'e scan_options \<Rightarrow> 'e scan_options res" where
  "scan_options_init options =
     (case so_max_depth options of
        Some d \<Rightarrow> if d < 1 then Inl ValueError else Inr options
      | None \<Rightarrow> Inr options)"

text \<open>\<open>key[: self.max_depth]\<close>; a slice to \<open>None\<close> is the whole key.\<close>

definition skip_bound :: "('e, key, 'v, 'p) codec \<Rightarrow> 'e scan_options \<Rightarrow> key \<Rightarrow> 'e res" where
  "skip_bound codec options key =
     (let ancestor = (case so_max_depth options of None \<Rightarrow> key | Some d \<Rightarrow> take (nat d) key)
      in if so_reverse options then encode_key codec ancestor
         else upper_bound_of_prefix codec ancestor)"

section \<open>The scan generator\<close>

definition FIRST_PAGE :: nat where "FIRST_PAGE = 32"
definition MAX_PAGE :: nat where "MAX_PAGE = 1024"

datatype iterator_type = KEYS | VALUES | ITEMS

datatype 'p scanned = Out_Key key | Out_Value 'p | Out_Item key 'p

definition scan_bounds :: "('e, key, 'v, 'p) codec \<Rightarrow> 'e scan_options \<Rightarrow> ('e option \<times> 'e option) res" where
  "scan_bounds codec options =
     rbind
       (case so_start_encoded options of
          Some b \<Rightarrow> Inr (Some b)
        | None \<Rightarrow>
            (case so_start options of
               None \<Rightarrow> Inr None
             | Some key \<Rightarrow>
                 rbind (wrap_error StorageOperationError (encode_key codec key)) (\<lambda>b. Inr (Some b))))
       (\<lambda>start.
         Inr (start,
           case so_break_filter options of
             Some (PrefixFilter p) \<Rightarrow>
               if p = [] then None
               else
                 (case (if so_reverse options then encode_key codec p else upper_bound_of_prefix codec p) of
                    Inl _ \<Rightarrow> None | Inr b \<Rightarrow> Some b)
           | _ \<Rightarrow> None))"

text \<open>
  The local variables of \<open>_iterate_impl\<close> between two \<open>next\<close> calls, and the unread rows of
  the page the inner loop is at. A generator is not started, suspended at a \<open>yield\<close>, or over.
\<close>

record ('e, 'v) gen =
  gen_bound :: "'e option"
  gen_stop :: "'e option"
  gen_inclusive :: bool
  gen_page :: nat
  gen_count :: int
  gen_rows :: "('e \<times> key \<times> 'v) list"
  gen_cover :: "'e option"
  gen_done :: bool

datatype ('e, 'v) gen_state = Gen_Start | Gen_Yielded "('e, 'v) gen" | Gen_Over

datatype 'p event = Yield "'p scanned" | Return | Raise exn

datatype ('e, 'v, 'p) row_result =
    Row_Yield "'p scanned" "('e \<times> key \<times> 'v) list"
  | Row_Return | Row_Raise exn | Row_Skip 'e | Row_End

definition scan_emit ::
  "('e, key, 'v, 'p) codec \<Rightarrow> iterator_type \<Rightarrow> key \<Rightarrow> 'v \<Rightarrow> 'p scanned res" where
  "scan_emit codec it key encoded =
     (if it = KEYS then Inr (Out_Key key)
      else rbind (wrap_error StorageOperationError (decode_value codec encoded)) (\<lambda>p.
        Inr (if it = VALUES then Out_Value p else Out_Item key p)))"

text \<open>\<open>f is None or f.matches(key)\<close>, and \<open>max_depth is not None and len(key) > max_depth\<close>.\<close>

definition accepts :: "kfilter option \<Rightarrow> key \<Rightarrow> bool" where
  "accepts f key = (case f of None \<Rightarrow> True | Some f \<Rightarrow> matches f key)"

definition too_deep :: "'e scan_options \<Rightarrow> key \<Rightarrow> bool" where
  "too_deep options key =
     (case so_max_depth options of None \<Rightarrow> False | Some d \<Rightarrow> int (length key) > d)"

text \<open>The \<open>for\<close> loop over the rows of a page, up to a \<open>yield\<close>, an exit or the end of the page.\<close>

fun scan_rows ::
  "('e, key, 'v, 'p) codec \<Rightarrow> 'e scan_options \<Rightarrow> iterator_type \<Rightarrow> bool \<Rightarrow> ('e \<times> key \<times> 'v) list \<Rightarrow>
   ('e, 'v, 'p) row_result" where
  "scan_rows codec options it closed [] = Row_End"
| "scan_rows codec options it closed ((_, key, encoded) # rows) =
     (if closed then Row_Raise StorageClosedError
      else if \<not> accepts (so_break_filter options) key then Row_Return
      else if too_deep options key then
        (case skip_bound codec options key of Inl e \<Rightarrow> Row_Raise e | Inr b \<Rightarrow> Row_Skip b)
      else if \<not> accepts (so_filter options) key then scan_rows codec options it closed rows
      else (case scan_emit codec it key encoded of
              Inl e \<Rightarrow> Row_Raise e | Inr out \<Rightarrow> Row_Yield out rows))"

text \<open>
  The rest of the \<open>while\<close> body after a page is fetched: an event that hands control back, or the
  variables for the next round of the loop.
\<close>

definition scan_for ::
  "('e, key, 'v, 'p) codec \<Rightarrow> 'e scan_options \<Rightarrow> iterator_type \<Rightarrow> bool \<Rightarrow> ('e, 'v) gen \<Rightarrow>
   'p event \<times> ('e, 'v) gen_state + ('e, 'v) gen" where
  "scan_for codec options it closed g =
     (case scan_rows codec options it closed (gen_rows g) of
        Row_Yield out rows \<Rightarrow> Inl (Yield out, Gen_Yielded (g\<lparr>gen_rows := rows\<rparr>))
      | Row_Return \<Rightarrow> Inl (Return, Gen_Over)
      | Row_Raise e \<Rightarrow> Inl (Raise e, Gen_Over)
      | Row_Skip b \<Rightarrow> Inr (g\<lparr>gen_bound := Some b, gen_inclusive := True\<rparr>)
      | Row_End \<Rightarrow>
          if gen_done g then Inl (Return, Gen_Over)
          else Inr (g\<lparr>gen_bound := gen_cover g, gen_inclusive := False,
                      gen_page := min (gen_page g * 2) MAX_PAGE\<rparr>))"

type_synonym ('e, 'v, 's) page_hook =
  "'e option \<Rightarrow> bool \<Rightarrow> bool \<Rightarrow> nat \<Rightarrow> 'e option \<Rightarrow> 's \<Rightarrow>
   (('e \<times> key \<times> 'v) list \<times> 'e option \<times> bool) \<times> 's"

text \<open>\<open>while True\<close>, with at most \<open>fuel\<close> pages.\<close>

fun scan_while ::
  "('e, 'v, 's) page_hook \<Rightarrow> ('e, key, 'v, 'p) codec \<Rightarrow> 'e scan_options \<Rightarrow> iterator_type \<Rightarrow> nat \<Rightarrow> bool \<Rightarrow>
   ('e, 'v) gen \<Rightarrow> 's \<Rightarrow> ('p event \<times> ('e, 'v) gen_state \<times> 's) option" where
  "scan_while hook codec options it 0 closed g s = None"
| "scan_while hook codec options it (Suc fuel) closed g s =
     (if closed then Some (Raise StorageClosedError, Gen_Over, s)
      else
        let ((rows, cover, fin), s) =
              hook (gen_bound g) (gen_inclusive g) (so_reverse options) (gen_page g) (gen_stop g) s
        in case scan_for codec options it closed (g\<lparr>gen_rows := rows, gen_cover := cover, gen_done := fin\<rparr>) of
             Inl (ev, gs) \<Rightarrow> Some (ev, gs, s)
           | Inr g \<Rightarrow> scan_while hook codec options it fuel closed g s)"

definition scan_first :: "'e scan_options \<Rightarrow> 'e option \<Rightarrow> 'e option \<Rightarrow> ('e, 'v) gen" where
  "scan_first options start stop =
     \<lparr>gen_bound = start, gen_stop = stop, gen_inclusive = True,
      gen_page =
        (case so_limit options of
           Some n \<Rightarrow> if so_filter options = None then nat (max 1 (min (int FIRST_PAGE) n)) else FIRST_PAGE
         | None \<Rightarrow> FIRST_PAGE),
      gen_count = 0, gen_rows = [], gen_cover = None, gen_done = False\<rparr>"

text \<open>\<open>next\<close> on the generator, in a context that is closed or not.\<close>

definition scan_next ::
  "('e, 'v, 's) page_hook \<Rightarrow> ('e, key, 'v, 'p) codec \<Rightarrow> 'e scan_options \<Rightarrow> iterator_type \<Rightarrow> nat \<Rightarrow> bool \<Rightarrow>
   ('e, 'v) gen_state \<Rightarrow> 's \<Rightarrow> ('p event \<times> ('e, 'v) gen_state \<times> 's) option" where
  "scan_next hook codec options it fuel closed gs s =
     (case gs of
        Gen_Start \<Rightarrow>
          if closed then Some (Raise StorageClosedError, Gen_Over, s)
          else if (case so_limit options of None \<Rightarrow> False | Some n \<Rightarrow> n \<le> 0) then Some (Return, Gen_Over, s)
          else (case scan_bounds codec options of
                  Inl e \<Rightarrow> Some (Raise e, Gen_Over, s)
                | Inr (start, stop) \<Rightarrow>
                    scan_while hook codec options it fuel closed (scan_first options start stop) s)
      | Gen_Yielded g \<Rightarrow>
          let g = g\<lparr>gen_count := gen_count g + 1\<rparr> in
          if Some (gen_count g) = so_limit options then Some (Return, Gen_Over, s)
          else (case scan_for codec options it closed g of
                  Inl (ev, gs) \<Rightarrow> Some (ev, gs, s)
                | Inr g \<Rightarrow> scan_while hook codec options it fuel closed g s)
      | Gen_Over \<Rightarrow> Some (Return, Gen_Over, s))"

text \<open>A caller that iterates to the end: the rows it got, and how the iteration ended.\<close>

fun scan_drain ::
  "('e, 'v, 's) page_hook \<Rightarrow> ('e, key, 'v, 'p) codec \<Rightarrow> 'e scan_options \<Rightarrow> iterator_type \<Rightarrow> nat \<Rightarrow> nat \<Rightarrow>
   ('e, 'v) gen_state \<Rightarrow> 's \<Rightarrow> ('p scanned list \<times> unit res) option" where
  "scan_drain hook codec options it fuel 0 gs s = None"
| "scan_drain hook codec options it fuel (Suc n) gs s =
     (case scan_next hook codec options it fuel False gs s of
        None \<Rightarrow> None
      | Some (Return, _) \<Rightarrow> Some ([], Inr ())
      | Some (Raise e, _) \<Rightarrow> Some ([], Inl e)
      | Some (Yield out, gs, s) \<Rightarrow>
          map_option (\<lambda>(outs, r). (out # outs, r)) (scan_drain hook codec options it fuel n gs s))"

section \<open>The reference scan\<close>

text \<open>
  One pass over the listed rows, no pages and no seeks: stop at the first visited key the break
  filter rejects, leave out the rest of a subtree below the walked depth, skip what the filter
  rejects, stop at the limit (\<open>left\<close> rows to go) or at the first value that does not decode.
\<close>

function scan_ref ::
  "('e, key, 'v, 'p) codec \<Rightarrow> 'e scan_options \<Rightarrow> iterator_type \<Rightarrow> int option \<Rightarrow> ('e \<times> key \<times> 'v) list \<Rightarrow>
   'p scanned list \<times> unit res" where
  "scan_ref codec options it left [] = ([], Inr ())"
| "scan_ref codec options it left ((_, key, encoded) # rows) =
     (if \<not> accepts (so_break_filter options) key then ([], Inr ())
      else if too_deep options key then
        scan_ref codec options it left
          (dropWhile (\<lambda>(_, k, _). too_deep options k \<and>
             take (nat (the (so_max_depth options))) k = take (nat (the (so_max_depth options))) key) rows)
      else if \<not> accepts (so_filter options) key then scan_ref codec options it left rows
      else (case scan_emit codec it key encoded of
              Inl e \<Rightarrow> ([], Inl e)
            | Inr out \<Rightarrow>
                if left = Some 1 then ([out], Inr ())
                else let (outs, r) = scan_ref codec options it (map_option (\<lambda>n. n - 1) left) rows
                     in (out # outs, r)))"
  by pat_completeness auto
termination
  by (relation "measure (\<lambda>(_, _, _, _, rows). length rows)") (auto simp: le_imp_less_Suc length_dropWhile_le)

text \<open>The rows of a view in scan order from a start bound, inclusive.\<close>

definition view_rows ::
  "('e::linorder \<rightharpoonup> 'r) \<Rightarrow> 'e option \<Rightarrow> bool \<Rightarrow> bool \<Rightarrow> 'e option \<Rightarrow> ('e \<times> 'r) list" where
  "view_rows view bound inclusive reverse stop =
     map (\<lambda>e. (e, the (view e))) (key_range (sorted_list_of_set (dom view)) bound inclusive reverse stop)"

text \<open>What a scan of a view must give, by one pass over its rows.\<close>

definition scan_spec ::
  "('e::linorder, key, 'v, 'p) codec \<Rightarrow> 'e scan_options \<Rightarrow> iterator_type \<Rightarrow> ('e \<rightharpoonup> key \<times> 'v) \<Rightarrow>
   'p scanned list \<times> unit res" where
  "scan_spec codec options it m =
     (if (case so_limit options of None \<Rightarrow> False | Some l \<Rightarrow> l \<le> 0) then ([], Inr ())
      else case scan_bounds codec options of
        Inl e \<Rightarrow> ([], Inl e)
      | Inr (start, _) \<Rightarrow> scan_ref codec options it (so_limit options) (view_rows m start True (so_reverse options) None))"

section \<open>Rows in scan order\<close>

lemma view_rows_sorted: "finite (dom view) \<Longrightarrow> sorted_wrt (before r) (map fst (view_rows view b i r stop))"
  by (simp add: view_rows_def o_def key_range_sorted)

lemma set_view_rows:
  "finite (dom view) \<Longrightarrow> (e, x) \<in> set (view_rows view b i r stop) \<longleftrightarrow> in_bounds b i r stop e \<and> view e = Some x"
  by (auto simp: view_rows_def set_key_range)

lemma before_sorted_unique:
  fixes xs ys :: "'a::linorder list"
  assumes "sorted_wrt (before r) xs" and "sorted_wrt (before r) ys" and "set xs = set ys"
  shows "xs = ys"
proof (cases r)
  case False
  with assms show ?thesis by (simp add: before_def [abs_def] sorted_less_unique)
next
  case True
  with assms have "sorted_wrt (<) (rev xs)" "sorted_wrt (<) (rev ys)" "set (rev xs) = set (rev ys)"
    by (simp_all add: before_def [abs_def] sorted_wrt_rev)
  then have "rev xs = rev ys" by (rule sorted_less_unique)
  then show ?thesis by simp
qed

lemma before_sorted_distinct: "sorted_wrt (before r) (xs :: 'a::linorder list) \<Longrightarrow> distinct xs"
  by (auto simp: sorted_wrt_iff_nth_less distinct_conv_nth) (metis before_irrefl linorder_neqE_nat)

lemma distinct_rebuild: "distinct (map fst xs) \<Longrightarrow> map (\<lambda>a. (a, the (map_of xs a))) (map fst xs) = xs"
  unfolding map_map o_def by (rule map_idI) (force simp: map_of_eq_Some_iff)

lemma rows_unique:
  fixes xs ys :: "('a::linorder \<times> 'b) list"
  assumes s: "sorted_wrt (before r) (map fst xs)" "sorted_wrt (before r) (map fst ys)"
    and e: "set xs = set ys"
  shows "xs = ys"
proof -
  have k: "map fst xs = map fst ys" using s by (rule before_sorted_unique) (simp add: e)
  have "distinct (map fst xs)" using s(1) by (rule before_sorted_distinct)
  then have "map_of xs = map_of ys" using k e by (metis map_of_inject_set)
  have d: "distinct (map fst ys)" using \<open>distinct (map fst xs)\<close> k by simp
  from distinct_rebuild [OF \<open>distinct (map fst xs)\<close>] distinct_rebuild [OF d]
  show ?thesis using k \<open>map_of xs = map_of ys\<close> by simp
qed

text \<open>The rows at or after, and after, the first row of a remainder.\<close>

lemma view_rows_tail:
  assumes f: "finite (dom view)" and T: "view_rows view b i r stop = A @ (e, x) # T"
  shows "T = view_rows view (Some e) False r stop"
proof (rule rows_unique)
  have s: "sorted_wrt (before r) (map fst (A @ (e, x) # T))"
    using view_rows_sorted [OF f] by (simp only: T [symmetric])
  then show "sorted_wrt (before r) (map fst T)" by (simp add: sorted_wrt_append)
  show "sorted_wrt (before r) (map fst (view_rows view (Some e) False r stop))" using f by (rule view_rows_sorted)
  have m: "(e', y) \<in> set A \<or> (e', y) = (e, x) \<or> (e', y) \<in> set T \<longleftrightarrow> in_bounds b i r stop e' \<and> view e' = Some y" for e' y
    using set_view_rows [OF f, of e' y b i r stop] by (simp only: T) auto
  have after: "\<And>e' y. (e', y) \<in> set T \<Longrightarrow> before r e e'" "\<And>e' y. (e', y) \<in> set A \<Longrightarrow> before r e' e"
    using s by (force simp: sorted_wrt_append)+
  have ib: "in_bounds (Some e) False r stop e' \<longleftrightarrow> in_bounds b i r stop e' \<and> before r e e'" for e'
    using m [of e x] by (cases b; cases r) (auto simp: in_bounds_def before_def split: if_splits option.splits)
  show "set T = set (view_rows view (Some e) False r stop)"
  proof (rule set_eqI)
    fix p :: "'a \<times> 'b"
    obtain e' y where p: "p = (e', y)" by (cases p)
    have "(e', y) \<in> set T \<longleftrightarrow> in_bounds b i r stop e' \<and> view e' = Some y \<and> before r e e'"
      using m [of e' y] after [of e' y] by (metis before_irrefl before_trans prod.inject)
    then show "p \<in> set T \<longleftrightarrow> p \<in> set (view_rows view (Some e) False r stop)"
      by (simp add: p set_view_rows [OF f] ib) blast
  qed
qed

text \<open>A page and what follows its cover are the rows of the range.\<close>

lemma view_page_rows:
  assumes f: "finite (dom view)" and p: "view_page view U b i r stop (rows, cover, fin)"
  shows "view_rows view b i r stop = rows @ (if fin then [] else view_rows view cover False r stop)"
proof (rule rows_unique [OF view_rows_sorted [OF f]])
  let ?N = "if fin then [] else view_rows view cover False r stop"
  from p have m: "sorted_wrt (before r) (map fst rows)"
    "\<And>e x. (e, x) \<in> set rows \<longleftrightarrow> \<not> past_cover r cover e \<and> in_bounds b i r stop e \<and> view e = Some x"
    and c: "fin \<longleftrightarrow> cover = None" "\<And>c. cover = Some c \<Longrightarrow> in_bounds b i r stop c"
    by (auto simp: view_page_def merges_def split: if_splits)
  have N: "(e, x) \<in> set ?N \<longleftrightarrow> past_cover r cover e \<and> in_bounds b i r stop e \<and> view e = Some x" for e x
  proof (cases cover)
    case None
    with c(1) show ?thesis by simp
  next
    case (Some d)
    have "in_bounds (Some d) False r stop e \<longleftrightarrow> past_cover r (Some d) e \<and> in_bounds b i r stop e"
      using c(2) [OF Some]
      by (cases b; cases r) (auto simp: in_bounds_def past_cover_def split: if_splits option.splits)
    with Some c(1) show ?thesis by (simp add: set_view_rows [OF f] conj_assoc)
  qed
  have sN: "sorted_wrt (before r) (map fst ?N)" using view_rows_sorted [OF f] by simp
  have "before r e e'" if "(e, x) \<in> set rows" "(e', x') \<in> set ?N" for e x e' x'
    using that m(2) [of e x] N [of e' x']
    by (cases cover) (auto simp: past_cover_def before_def split: if_splits)
  with m(1) sN show "sorted_wrt (before r) (map fst (rows @ ?N))"
    by (fastforce simp: sorted_wrt_append)
  show "set (view_rows view b i r stop) = set (rows @ ?N)"
  proof (rule set_eqI)
    fix p :: "'a \<times> 'b"
    obtain e x where p: "p = (e, x)" by (cases p)
    show "p \<in> set (view_rows view b i r stop) \<longleftrightarrow> p \<in> set (rows @ ?N)"
      unfolding p set_append Un_iff N m(2) set_view_rows [OF f] by blast
  qed
qed

lemma filter_dropWhile:
  "sorted_wrt (before r) (map fst L) \<Longrightarrow> (\<And>x. x \<in> set L \<Longrightarrow> P x \<longleftrightarrow> before r (fst x) c) \<Longrightarrow>
   dropWhile P L = filter (\<lambda>x. \<not> P x) L"
proof (induction L)
  case (Cons a L)
  show ?case
  proof (cases "P a")
    case True
    with Cons show ?thesis by simp
  next
    case False
    have "\<not> P y" if "y \<in> set L" for y
      using that False Cons.prems before_trans [of r "fst a" "fst y" c] by auto
    with False show ?thesis by (simp add: filter_id_conv)
  qed
qed simp

section \<open>The scan over a view\<close>

definition keyed :: "('e, key, 'v, 'p) codec \<Rightarrow> ('e \<rightharpoonup> key \<times> 'v) \<Rightarrow> bool" where
  "keyed codec m \<longleftrightarrow> (\<forall>e k v. m e = Some (k, v) \<longrightarrow> encode_key codec k = Inr e)"

definition deep_under :: "'e scan_options \<Rightarrow> key \<Rightarrow> 'e \<times> key \<times> 'v \<Rightarrow> bool" where
  "deep_under options key = (\<lambda>(_, k, _). too_deep options k \<and>
     take (nat (the (so_max_depth options))) k = take (nat (the (so_max_depth options))) key)"

lemma scan_ref_Cons:
  "scan_ref codec options it left ((e, key, encoded) # rows) =
     (if \<not> accepts (so_break_filter options) key then ([], Inr ())
      else if too_deep options key then scan_ref codec options it left (dropWhile (deep_under options key) rows)
      else if \<not> accepts (so_filter options) key then scan_ref codec options it left rows
      else (case scan_emit codec it key encoded of
              Inl e \<Rightarrow> ([], Inl e)
            | Inr out \<Rightarrow>
                if left = Some 1 then ([out], Inr ())
                else let (outs, r) = scan_ref codec options it (map_option (\<lambda>n. n - 1) left) rows
                     in (out # outs, r)))"
  by (simp add: deep_under_def)

text \<open>
  What a scan relies on: a view paged by a context, and a codec with the range law of prefixes.
\<close>

locale scanned_view =
  rv: read_view inv view universe lookup page +
  pc: prefix_codec "encode_key codec" "upper_bound_of_prefix codec"
  for inv :: "'s \<Rightarrow> bool"
    and view :: "'s \<Rightarrow> 'e::linorder \<rightharpoonup> key \<times> 'v"
    and universe :: "'s \<Rightarrow> 'e set"
    and lookup :: "'s \<Rightarrow> 'e \<Rightarrow> (key \<times> 'v) version"
    and page :: "('e, 'v, 's) page_hook"
    and codec :: "('e, key, 'v, 'p) codec"
begin

lemma finite_view: "inv s \<Longrightarrow> finite (dom (view s))"
  using rv.finite_universe rv.view_universe by (rule finite_subset [rotated])

text \<open>A seek past a subtree skips exactly the rows of the subtree below the walked depth.\<close>

lemma skip_rows:
  assumes f: "finite (dom m)" and k: "keyed codec m" and d: "so_max_depth options = Some d" "1 \<le> d"
    and T: "view_rows m b i (so_reverse options) stop = A @ (e, key, v) # T" and deep: "too_deep options key"
  shows "\<exists>c. skip_bound codec options key = Inr c \<and>
    view_rows m (Some c) True (so_reverse options) stop = dropWhile (deep_under options key) T \<and>
    before (so_reverse options) e c"
proof -
  let ?r = "so_reverse options"
  define anc where "anc = take (nat d) key"
  have len: "nat d < length key" "0 < nat d" using deep d by (simp_all add: too_deep_def)
  have anc: "prefix anc key" "anc \<noteq> []" "length anc = nat d"
    using len by (auto simp: anc_def take_is_prefix)
  have row: "m e = Some (key, v)"
    using set_view_rows [OF f, of e "(key, v)" b i ?r stop] T by simp
  then have ek: "encode_key codec key = Inr e" using k by (simp add: keyed_def)
  then obtain lo where lo: "encode_key codec anc = Inr lo" using pc.enc_prefix_ok anc by blast
  then obtain hi where hi: "upper_bound_of_prefix codec anc = Inr hi" using pc.ub_ok by blast
  define c where "c = (if ?r then lo else hi)"
  have skip: "skip_bound codec options key = Inr c"
    using lo hi by (simp add: skip_bound_def d(1) anc_def [symmetric] c_def)
  have sp: "strict_prefix anc key" using anc(1,3) len(1) by (auto simp: strict_prefix_def)
  have e: "lo < e" "e < hi"
    using pc.enc_strict_prefix_less [OF lo ek sp] pc.enc_less_ub [OF lo hi ek anc(1)] by simp_all
  have bc: "before ?r e c" using e by (simp add: before_def c_def)
  have TT: "T = view_rows m (Some e) False ?r stop" using f T by (rule view_rows_tail)
  have under: "deep_under options key y \<longleftrightarrow> before ?r (fst y) c" if "y \<in> set T" for y
  proof -
    obtain e' k' v' where y: "y = (e', k', v')" by (cases y)
    from that TT have m': "m e' = Some (k', v')" and after: "before ?r e e'"
      using set_view_rows [OF f, of e' "(k', v')" "Some e" False ?r stop]
      by (auto simp: y in_bounds_def before_def split: if_splits)
    then have ek': "encode_key codec k' = Inr e'" using k by (simp add: keyed_def)
    have "deep_under options key y \<longleftrightarrow> strict_prefix anc k'"
      using anc(3) len by (auto simp: y deep_under_def too_deep_def d(1) anc_def [symmetric] strict_prefix_def
          prefix_iff_take nat_less_iff order_less_imp_le dest: arg_cong [of _ _ length])
    also have "\<dots> \<longleftrightarrow> before ?r e' c"
    proof (cases ?r)
      case False
      with after e have "lo < e'" by (simp add: before_def)
      then have "strict_prefix anc k' \<longleftrightarrow> prefix anc k'" using lo ek' by (auto simp: strict_prefix_def)
      also have "\<dots> \<longleftrightarrow> e' < hi" using pc.prefix_range [OF lo hi ek'] \<open>lo < e'\<close> by auto
      finally show ?thesis using False by (simp add: before_def c_def)
    next
      case True
      with after e have "e' < hi" by (simp add: before_def)
      then have "prefix anc k' \<longleftrightarrow> lo \<le> e'" using pc.prefix_range [OF lo hi ek'] by auto
      moreover have "k' = anc \<longleftrightarrow> e' = lo" using pc.enc_inj lo ek' by auto
      ultimately show ?thesis using True by (auto simp: before_def c_def strict_prefix_def)
    qed
    finally show ?thesis by (simp add: y)
  qed
  have sT: "sorted_wrt (before ?r) (map fst T)" unfolding TT using f by (rule view_rows_sorted)
  have "dropWhile (deep_under options key) T = filter (\<lambda>y. \<not> deep_under options key y) T"
    using sT under by (rule filter_dropWhile)
  also have "\<dots> = filter (\<lambda>y. \<not> before ?r (fst y) c) T" using under by (intro filter_cong) simp_all
  also have "\<dots> = view_rows m (Some c) True ?r stop"
  proof (rule rows_unique [of ?r])
    show "sorted_wrt (before ?r) (map fst (filter (\<lambda>y. \<not> before ?r (fst y) c) T))"
      using sT by (simp add: sorted_wrt_map sorted_filter_less)
    show "sorted_wrt (before ?r) (map fst (view_rows m (Some c) True ?r stop))" using f by (rule view_rows_sorted)
    show "set (filter (\<lambda>y. \<not> before ?r (fst y) c) T) = set (view_rows m (Some c) True ?r stop)"
    proof (rule set_eqI)
      fix p :: "'e \<times> key \<times> 'v"
      obtain e' x where p: "p = (e', x)" by (cases p)
      have "in_bounds (Some c) True ?r stop e' \<longleftrightarrow> in_bounds (Some e) False ?r stop e' \<and> \<not> before ?r e' c"
        using bc by (cases ?r) (auto simp: in_bounds_def before_def)
      then show "p \<in> set (filter (\<lambda>y. \<not> before ?r (fst y) c) T) \<longleftrightarrow> p \<in> set (view_rows m (Some c) True ?r stop)"
        unfolding p TT by (simp add: set_view_rows [OF f]) blast
    qed
  qed
  finally show ?thesis using skip bc by auto
qed

end

section \<open>Paging agrees with the single pass\<close>

text \<open>The rows a suspended generator still has before it, and the keys its seeks can still reach.\<close>

definition left_rows ::
  "('e::linorder \<rightharpoonup> key \<times> 'v) \<Rightarrow> 'e scan_options \<Rightarrow> ('e, 'v) gen \<Rightarrow> ('e \<times> key \<times> 'v) list" where
  "left_rows m options g = gen_rows g @
     (if gen_done g then [] else view_rows m (gen_cover g) False (so_reverse options) (gen_stop g))"

definition reach :: "'e::linorder set \<Rightarrow> 'e scan_options \<Rightarrow> ('e, 'v) gen \<Rightarrow> 'e set" where
  "reach U options g =
     {x \<in> U. in_bounds (gen_bound g) (gen_inclusive g) (so_reverse options) (gen_stop g) x}"

definition gen_ok ::
  "('e::linorder \<rightharpoonup> key \<times> 'v) \<Rightarrow> 'e set \<Rightarrow> 'e scan_options \<Rightarrow> ('e, 'v) gen \<Rightarrow> bool" where
  "gen_ok m U options g \<longleftrightarrow>
     (\<exists>A. view_rows m (gen_bound g) (gen_inclusive g) (so_reverse options) (gen_stop g) = A @ left_rows m options g) \<and>
     (gen_done g \<longleftrightarrow> gen_cover g = None) \<and> (\<forall>c. gen_cover g = Some c \<longrightarrow> c \<in> reach U options g)"

definition left_count :: "'e scan_options \<Rightarrow> ('e, 'v) gen \<Rightarrow> int option" where
  "left_count options g = map_option (\<lambda>n. n - gen_count g) (so_limit options)"

text \<open>What the loop over a page contributes to the reference scan.\<close>

definition rows_agree ::
  "('e::linorder, key, 'v, 'p) codec \<Rightarrow> 'e scan_options \<Rightarrow> iterator_type \<Rightarrow> int option \<Rightarrow>
   ('e \<rightharpoonup> key \<times> 'v) \<Rightarrow> 'e option \<Rightarrow> ('e \<times> key \<times> 'v) list \<Rightarrow> ('e \<times> key \<times> 'v) list \<Rightarrow>
   ('e, 'v, 'p) row_result \<Rightarrow> bool" where
  "rows_agree codec options it left m stop R N result =
     (case result of
        Row_End \<Rightarrow> scan_ref codec options it left (R @ N) = scan_ref codec options it left N
      | Row_Return \<Rightarrow> scan_ref codec options it left (R @ N) = ([], Inr ())
      | Row_Raise e \<Rightarrow> scan_ref codec options it left (R @ N) = ([], Inl e)
      | Row_Yield out R' \<Rightarrow>
          (\<exists>A e k v. R = A @ (e, k, v) # R' \<and> scan_emit codec it k v = Inr out) \<and>
          scan_ref codec options it left (R @ N) =
            (if left = Some 1 then ([out], Inr ())
             else let (outs, r) = scan_ref codec options it (map_option (\<lambda>n. n - 1) left) (R' @ N) in (out # outs, r))
      | Row_Skip c \<Rightarrow>
          (\<exists>e x. (e, x) \<in> set R \<and> before (so_reverse options) e c) \<and>
          length (view_rows m (Some c) True (so_reverse options) stop) \<le> length (R @ N) \<and>
          scan_ref codec options it left (R @ N) =
            scan_ref codec options it left (view_rows m (Some c) True (so_reverse options) stop))"

context scanned_view begin

lemma scan_rows_agree:
  assumes f: "finite (dom m)" and k: "keyed codec m" and d: "\<And>d. so_max_depth options = Some d \<Longrightarrow> 1 \<le> d"
    and T: "view_rows m b i (so_reverse options) stop = A @ R @ N"
  shows "rows_agree codec options it left m stop R N (scan_rows codec options it False R)"
  using T
proof (induction R arbitrary: A)
  case Nil
  then show ?case by (simp add: rows_agree_def)
next
  case (Cons row R)
  obtain e key v where row: "row = (e, key, v)" by (cases row)
  note step = scan_ref_Cons [of codec options it left e key v "R @ N"]
  consider (stop) "\<not> accepts (so_break_filter options) key"
    | (skip) "accepts (so_break_filter options) key" "too_deep options key"
    | (filtered) "accepts (so_break_filter options) key" "\<not> too_deep options key" "\<not> accepts (so_filter options) key"
    | (emit) "accepts (so_break_filter options) key" "\<not> too_deep options key" "accepts (so_filter options) key"
    by blast
  then show ?case
  proof cases
    case stop
    with step show ?thesis by (simp add: row rows_agree_def)
  next
    case skip
    obtain dd where dd: "so_max_depth options = Some dd"
      using skip(2) by (auto simp: too_deep_def split: option.splits)
    have "view_rows m b i (so_reverse options) stop = A @ (e, key, v) # R @ N" using Cons.prems row by simp
    from skip_rows [OF f k dd d [OF dd] this skip(2)] obtain c where
      "skip_bound codec options key = Inr c" "before (so_reverse options) e c"
      "view_rows m (Some c) True (so_reverse options) stop = dropWhile (deep_under options key) (R @ N)"
      by blast
    with skip step length_dropWhile_le [of "deep_under options key" "R @ N"] show ?thesis
      by (auto simp: row rows_agree_def)
  next
    case filtered
    have "rows_agree codec options it left m stop R N (scan_rows codec options it False R)"
      using Cons.IH [of "A @ [row]"] Cons.prems by simp
    with filtered step show ?thesis
      unfolding rows_agree_def row
      by (auto split: row_result.splits)
  next
    case emit
    with step show ?thesis
      by (auto simp: row rows_agree_def split: sum.splits intro: exI [of _ "[]"])
  qed
qed

lemma reach_less:
  assumes "finite U" and "gen_stop g' = gen_stop g" and "c \<in> reach U options g"
    and "\<And>x. x \<in> U \<Longrightarrow> in_bounds (gen_bound g') (gen_inclusive g') (so_reverse options) (gen_stop g) x \<Longrightarrow>
      before (so_reverse options) c x"
  shows "card (reach U options g') < card (reach U options g)"
proof (rule psubset_card_mono)
  show "finite (reach U options g)" using assms(1) by (simp add: reach_def)
  have "in_bounds (gen_bound g) (gen_inclusive g) (so_reverse options) (gen_stop g) x"
    if "x \<in> U" "in_bounds (gen_bound g') (gen_inclusive g') (so_reverse options) (gen_stop g) x" for x
    using assms(3) assms(4) [OF that] that(2)
    by (auto simp: reach_def in_bounds_def before_def split: if_splits option.splits)
  then have "reach U options g' \<subseteq> reach U options g" using assms(2) by (auto simp: reach_def)
  moreover have "c \<notin> reach U options g'"
    using assms(2) assms(4) [of c] by (auto simp: reach_def)
  ultimately show "reach U options g' \<subset> reach U options g" using assms(3) by blast
qed

end

text \<open>What one \<open>next\<close> must hand out when the rows \<open>T\<close> are before the generator.\<close>

definition outcome_ok ::
  "('e::linorder, key, 'v, 'p) codec \<Rightarrow> 'e scan_options \<Rightarrow> iterator_type \<Rightarrow> ('e \<rightharpoonup> key \<times> 'v) \<Rightarrow> 'e set \<Rightarrow>
   int \<Rightarrow> nat \<Rightarrow> ('e \<times> key \<times> 'v) list \<Rightarrow> 'p event \<Rightarrow> ('e, 'v) gen_state \<Rightarrow> bool" where
  "outcome_ok codec options it m U count cap T ev gs =
     (let left = map_option (\<lambda>n. n - count) (so_limit options) in
      case ev of
        Return \<Rightarrow> scan_ref codec options it left T = ([], Inr ())
      | Raise e \<Rightarrow> scan_ref codec options it left T = ([], Inl e)
      | Yield out \<Rightarrow>
          (\<exists>g. gs = Gen_Yielded g \<and> gen_ok m U options g \<and> gen_count g = count \<and> 0 < gen_page g \<and>
             card (reach U options g) \<le> cap \<and>
             (\<exists>A e k v. view_rows m (gen_bound g) (gen_inclusive g) (so_reverse options) (gen_stop g) =
                A @ (e, k, v) # left_rows m options g \<and> scan_emit codec it k v = Inr out) \<and>
             length (left_rows m options g) < length T \<and>
             scan_ref codec options it left T =
               (if left = Some 1 then ([out], Inr ())
                else let (outs, r) = scan_ref codec options it (map_option (\<lambda>n. n - 1) left) (left_rows m options g)
                     in (out # outs, r))))"

lemma outcome_ok_mono:
  "outcome_ok codec options it m U count cap T ev gs \<Longrightarrow> cap \<le> cap' \<Longrightarrow> length T \<le> length T' \<Longrightarrow>
   scan_ref codec options it (map_option (\<lambda>n. n - count) (so_limit options)) T' =
   scan_ref codec options it (map_option (\<lambda>n. n - count) (so_limit options)) T \<Longrightarrow>
   outcome_ok codec options it m U count cap' T' ev gs"
  by (cases ev) (auto simp: outcome_ok_def Let_def)

context scanned_view begin

lemma scan_for_agree:
  assumes f: "finite U" "dom m \<subseteq> U" and k: "keyed codec m"
    and d: "\<And>d. so_max_depth options = Some d \<Longrightarrow> 1 \<le> d"
    and g: "gen_ok m U options g" and p: "0 < gen_page g"
  shows "case scan_for codec options it False g of
      Inl (ev, gs) \<Rightarrow> outcome_ok codec options it m U (gen_count g) (card (reach U options g)) (left_rows m options g) ev gs
    | Inr g' \<Rightarrow>
        gen_count g' = gen_count g \<and> 0 < gen_page g' \<and> card (reach U options g') < card (reach U options g) \<and>
        length (view_rows m (gen_bound g') (gen_inclusive g') (so_reverse options) (gen_stop g')) \<le> length (left_rows m options g) \<and>
        scan_ref codec options it (left_count options g) (left_rows m options g) =
        scan_ref codec options it (left_count options g)
          (view_rows m (gen_bound g') (gen_inclusive g') (so_reverse options) (gen_stop g'))"
proof -
  let ?r = "so_reverse options" and ?left = "left_count options g"
  define N where "N = (if gen_done g then [] else view_rows m (gen_cover g) False ?r (gen_stop g))"
  have L: "left_rows m options g = gen_rows g @ N" by (simp add: left_rows_def N_def)
  obtain A where A: "view_rows m (gen_bound g) (gen_inclusive g) ?r (gen_stop g) = A @ gen_rows g @ N"
    and c: "gen_done g \<longleftrightarrow> gen_cover g = None" "\<And>c. gen_cover g = Some c \<Longrightarrow> c \<in> reach U options g"
    using g by (auto simp: gen_ok_def L)
  have fm: "finite (dom m)" using f by (rule finite_subset [rotated])
  note agree = scan_rows_agree [OF fm k d A, of it ?left]
  show ?thesis
  proof (cases "scan_rows codec options it False (gen_rows g)")
    case (Row_Yield out R')
    with agree obtain B e x v where B: "gen_rows g = B @ (e, x, v) # R'" "scan_emit codec it x v = Inr out"
      by (auto simp: rows_agree_def)
    let ?g = "g\<lparr>gen_rows := R'\<rparr>"
    have l: "left_rows m options ?g = R' @ N" by (simp add: left_rows_def N_def)
    have "gen_ok m U options ?g" using A B c by (auto simp: gen_ok_def l reach_def)
    moreover have "reach U options ?g = reach U options g" by (simp add: reach_def)
    moreover have "view_rows m (gen_bound ?g) (gen_inclusive ?g) ?r (gen_stop ?g) = (A @ B) @ (e, x, v) # left_rows m options ?g"
      using A B by (simp add: l)
    ultimately show ?thesis using Row_Yield agree p B
      by (auto simp: scan_for_def outcome_ok_def l L rows_agree_def left_count_def Let_def)
  next
    case Row_Return
    with agree show ?thesis by (simp add: scan_for_def outcome_ok_def L rows_agree_def left_count_def)
  next
    case (Row_Raise e)
    with agree show ?thesis by (simp add: scan_for_def outcome_ok_def L rows_agree_def left_count_def)
  next
    case (Row_Skip b)
    let ?g = "g\<lparr>gen_bound := Some b, gen_inclusive := True\<rparr>"
    from Row_Skip agree obtain e x where e: "(e, x) \<in> set (gen_rows g)" "before ?r e b" by (auto simp: rows_agree_def)
    have "(e, x) \<in> set (view_rows m (gen_bound g) (gen_inclusive g) ?r (gen_stop g))" using e(1) A by simp
    then have "e \<in> reach U options g" using f(2) by (auto simp: set_view_rows [OF fm] reach_def)
    then have "card (reach U options ?g) < card (reach U options g)"
      using e(2) by (intro reach_less [OF f(1)]) (auto simp: in_bounds_def before_def split: if_splits)
    with Row_Skip agree p show ?thesis
      by (simp add: scan_for_def L rows_agree_def left_count_def)
  next
    case Row_End
    show ?thesis
    proof (cases "gen_done g")
      case True
      with Row_End agree show ?thesis by (simp add: scan_for_def outcome_ok_def L N_def rows_agree_def left_count_def)
    next
      case False
      let ?g = "g\<lparr>gen_bound := gen_cover g, gen_inclusive := False, gen_page := min (gen_page g * 2) MAX_PAGE\<rparr>"
      from False c(1) obtain cv where cv: "gen_cover g = Some cv" by auto
      have "card (reach U options ?g) < card (reach U options g)"
        using cv by (intro reach_less [OF f(1) _ c(2) [OF cv]]) (auto simp: in_bounds_def before_def split: if_splits)
      with Row_End agree p False show ?thesis
        by (simp add: scan_for_def L N_def rows_agree_def left_count_def MAX_PAGE_def)
    qed
  qed
qed

lemma scan_while_agree:
  assumes f: "finite U" "dom m \<subseteq> U" and k: "keyed codec m"
    and d: "\<And>d. so_max_depth options = Some d \<Longrightarrow> 1 \<le> d"
    and "inv s" and "view s = m" and "universe s = U"
    and "0 < gen_page g" and "card (reach U options g) < fuel"
  shows "\<exists>ev gs s'. scan_while page codec options it fuel False g s = Some (ev, gs, s') \<and>
    inv s' \<and> view s' = m \<and> universe s' = U \<and>
    outcome_ok codec options it m U (gen_count g) (card (reach U options g))
      (view_rows m (gen_bound g) (gen_inclusive g) (so_reverse options) (gen_stop g)) ev gs"
  using assms(5-)
proof (induction fuel arbitrary: g s)
  case 0
  then show ?case by simp
next
  case (Suc fuel)
  let ?r = "so_reverse options"
  let ?rows = "view_rows m (gen_bound g) (gen_inclusive g) ?r (gen_stop g)"
  obtain rows cover fin s' where pg: "page (gen_bound g) (gen_inclusive g) ?r (gen_page g) (gen_stop g) s = ((rows, cover, fin), s')"
    by (metis prod.collapse)
  have s': "inv s'" "view s' = m" "universe s' = U"
    using rv.page_inv rv.page_same rv.page_universe Suc.prems(1-3) pg by (metis snd_conv)+
  define h where "h = g\<lparr>gen_rows := rows, gen_cover := cover, gen_done := fin\<rparr>"
  have vp: "view_page m U (gen_bound g) (gen_inclusive g) ?r (gen_stop g) (rows, cover, fin)"
    using rv.page_view [OF Suc.prems(1,4), of "gen_bound g" "gen_inclusive g" ?r "gen_stop g"] Suc.prems(2,3) pg by simp
  have fm: "finite (dom m)" using f by (rule finite_subset [rotated])
  have rows: "?rows = left_rows m options h"
    using view_page_rows [OF fm vp] by (simp add: left_rows_def h_def)
  have rh: "reach U options h = reach U options g" by (simp add: reach_def h_def)
  have "gen_ok m U options h"
    using vp rows by (auto simp: gen_ok_def h_def view_page_def reach_def intro: exI [of _ "[]"])
  moreover have hg: "gen_count h = gen_count g" "gen_page h = gen_page g" by (simp_all add: h_def)
  ultimately have "0 < gen_page h" "gen_ok m U options h" using Suc.prems(4) by simp_all
  from scan_for_agree [OF f k d this(2,1), of it]
  have agree: "case scan_for codec options it False h of
      Inl (ev, gs) \<Rightarrow> outcome_ok codec options it m U (gen_count g) (card (reach U options g)) ?rows ev gs
    | Inr g' \<Rightarrow> gen_count g' = gen_count g \<and> 0 < gen_page g' \<and> card (reach U options g') < card (reach U options g) \<and>
        length (view_rows m (gen_bound g') (gen_inclusive g') ?r (gen_stop g')) \<le> length ?rows \<and>
        scan_ref codec options it (left_count options h) ?rows =
        scan_ref codec options it (left_count options h) (view_rows m (gen_bound g') (gen_inclusive g') ?r (gen_stop g'))"
    unfolding rows rh hg by simp
  show ?case
  proof (cases "scan_for codec options it False h")
    case (Inl x)
    with agree pg s' show ?thesis by (cases x) (simp add: h_def)
  next
    case (Inr g')
    with agree have g': "gen_count g' = gen_count g" "0 < gen_page g'" "card (reach U options g') < card (reach U options g)"
      "length (view_rows m (gen_bound g') (gen_inclusive g') ?r (gen_stop g')) \<le> length ?rows"
      "scan_ref codec options it (map_option (\<lambda>n. n - gen_count g) (so_limit options)) ?rows =
       scan_ref codec options it (map_option (\<lambda>n. n - gen_count g) (so_limit options))
         (view_rows m (gen_bound g') (gen_inclusive g') ?r (gen_stop g'))"
      by (simp_all add: left_count_def h_def)
    have "card (reach U options g') < fuel" using g'(3) Suc.prems(5) by simp
    from Suc.IH [OF s' g'(2) this] obtain ev gs s'' where
      r: "scan_while page codec options it fuel False g' s' = Some (ev, gs, s'')" "inv s''" "view s'' = m" "universe s'' = U"
      and o: "outcome_ok codec options it m U (gen_count g') (card (reach U options g'))
        (view_rows m (gen_bound g') (gen_inclusive g') ?r (gen_stop g')) ev gs" by blast
    have "outcome_ok codec options it m U (gen_count g) (card (reach U options g)) ?rows ev gs"
      using o g' by (auto intro: outcome_ok_mono)
    moreover have "scan_while page codec options it (Suc fuel) False g s = Some (ev, gs, s'')"
      using r(1) Inr by (simp add: pg h_def)
    ultimately show ?thesis using r(2-4) by blast
  qed
qed

end

section \<open>Iterating to the end\<close>

lemma scan_ref_zero: "scan_ref codec options it left [] = ([], Inr ())"
  by simp

context scanned_view begin

lemma scan_next_agree:
  assumes f: "finite U" "dom m \<subseteq> U" and k: "keyed codec m"
    and d: "\<And>d. so_max_depth options = Some d \<Longrightarrow> 1 \<le> d"
    and s: "inv s" "view s = m" "universe s = U"
    and g: "gen_ok m U options g" "0 < gen_page g" "card (reach U options g) < fuel"
    and l: "so_limit options \<noteq> Some (gen_count g + 1)"
  shows "\<exists>ev gs s'. scan_next page codec options it fuel False (Gen_Yielded g) s = Some (ev, gs, s') \<and>
    inv s' \<and> view s' = m \<and> universe s' = U \<and>
    outcome_ok codec options it m U (gen_count g + 1) (card (reach U options g)) (left_rows m options g) ev gs"
proof -
  define h where "h = g\<lparr>gen_count := gen_count g + 1\<rparr>"
  have h: "gen_count h = gen_count g + 1" "gen_page h = gen_page g" "left_rows m options h = left_rows m options g"
    "reach U options h = reach U options g"
    by (simp_all add: h_def left_rows_def reach_def)
  have "gen_ok m U options h" using g(1) unfolding gen_ok_def h by (simp add: h_def)
  from scan_for_agree [OF f k d this, of it, unfolded h(2-4)] g(2)
  have agree: "case scan_for codec options it False h of
      Inl (ev, gs) \<Rightarrow> outcome_ok codec options it m U (gen_count h) (card (reach U options g)) (left_rows m options g) ev gs
    | Inr g' \<Rightarrow> gen_count g' = gen_count h \<and> 0 < gen_page g' \<and> card (reach U options g') < card (reach U options g) \<and>
        length (view_rows m (gen_bound g') (gen_inclusive g') (so_reverse options) (gen_stop g')) \<le> length (left_rows m options g) \<and>
        scan_ref codec options it (left_count options h) (left_rows m options g) =
        scan_ref codec options it (left_count options h)
          (view_rows m (gen_bound g') (gen_inclusive g') (so_reverse options) (gen_stop g'))"
    by simp
  have e: "scan_next page codec options it fuel False (Gen_Yielded g) s =
      (case scan_for codec options it False h of Inl (ev, gs) \<Rightarrow> Some (ev, gs, s)
       | Inr g \<Rightarrow> scan_while page codec options it fuel False g s)"
    using l by (auto simp: scan_next_def h_def [symmetric] h(1))
  show ?thesis
  proof (cases "scan_for codec options it False h")
    case (Inl x)
    with agree e s show ?thesis by (cases x) (simp add: h(1))
  next
    case (Inr g')
    with agree have g': "gen_count g' = gen_count h" "0 < gen_page g'" "card (reach U options g') < card (reach U options g)"
      "length (view_rows m (gen_bound g') (gen_inclusive g') (so_reverse options) (gen_stop g')) \<le> length (left_rows m options g)"
      "scan_ref codec options it (map_option (\<lambda>n. n - gen_count h) (so_limit options)) (left_rows m options g) =
       scan_ref codec options it (map_option (\<lambda>n. n - gen_count h) (so_limit options))
         (view_rows m (gen_bound g') (gen_inclusive g') (so_reverse options) (gen_stop g'))"
      by (simp_all add: left_count_def)
    have "card (reach U options g') < fuel" using g'(3) g(3) by simp
    from scan_while_agree [OF f k d s g'(2) this, of it] obtain ev gs s' where
      r: "scan_while page codec options it fuel False g' s = Some (ev, gs, s')" "inv s'" "view s' = m" "universe s' = U"
      and o: "outcome_ok codec options it m U (gen_count g') (card (reach U options g'))
        (view_rows m (gen_bound g') (gen_inclusive g') (so_reverse options) (gen_stop g')) ev gs" by blast
    have "outcome_ok codec options it m U (gen_count g + 1) (card (reach U options g)) (left_rows m options g) ev gs"
      using o g' by (auto simp: h(1) intro: outcome_ok_mono)
    with r e Inr show ?thesis by auto
  qed
qed

text \<open>Draining a generator that has just handed out its row number \<open>gen_count g + 1\<close>.\<close>

lemma scan_drain_agree:
  assumes f: "finite U" "dom m \<subseteq> U" and k: "keyed codec m"
    and d: "\<And>d. so_max_depth options = Some d \<Longrightarrow> 1 \<le> d"
    and "inv s" and "view s = m" and "universe s = U"
    and "gen_ok m U options g" and "0 < gen_page g" and "card (reach U options g) < fuel"
    and "length (left_rows m options g) < n"
  shows "scan_drain page codec options it fuel n (Gen_Yielded g) s =
    Some (if so_limit options = Some (gen_count g + 1) then ([], Inr ())
          else scan_ref codec options it (map_option (\<lambda>l. l - (gen_count g + 1)) (so_limit options)) (left_rows m options g))"
  using assms(5-)
proof (induction n arbitrary: g s)
  case 0
  then show ?case by simp
next
  case (Suc n)
  show ?case
  proof (cases "so_limit options = Some (gen_count g + 1)")
    case True
    then show ?thesis by (simp add: scan_next_def Let_def)
  next
    case False
    from scan_next_agree [OF f k d Suc.prems(1-6) False, of it] obtain ev gs s' where
      r: "scan_next page codec options it fuel False (Gen_Yielded g) s = Some (ev, gs, s')" "inv s'" "view s' = m" "universe s' = U"
      and o: "outcome_ok codec options it m U (gen_count g + 1) (card (reach U options g)) (left_rows m options g) ev gs"
      by blast
    show ?thesis
    proof (cases ev)
      case (Yield out)
      with o obtain h where h: "gs = Gen_Yielded h" "gen_ok m U options h" "gen_count h = gen_count g + 1" "0 < gen_page h"
          "card (reach U options h) \<le> card (reach U options g)" "length (left_rows m options h) < length (left_rows m options g)"
        and ref: "scan_ref codec options it (map_option (\<lambda>l. l - (gen_count g + 1)) (so_limit options)) (left_rows m options g) =
           (if map_option (\<lambda>l. l - (gen_count g + 1)) (so_limit options) = Some 1 then ([out], Inr ())
            else let (outs, r) = scan_ref codec options it
                (map_option (\<lambda>n. n - 1) (map_option (\<lambda>l. l - (gen_count g + 1)) (so_limit options))) (left_rows m options h)
              in (out # outs, r))"
        unfolding outcome_ok_def Let_def Yield event.case by blast
      have "card (reach U options h) < fuel" "length (left_rows m options h) < n"
        using h(5,6) Suc.prems(6,7) by simp_all
      from Suc.IH [OF r(2-4) h(2,4) this]
      have "scan_drain page codec options it fuel n gs s' =
        Some (if so_limit options = Some (gen_count h + 1) then ([], Inr ())
          else scan_ref codec options it (map_option (\<lambda>l. l - (gen_count h + 1)) (so_limit options)) (left_rows m options h))"
        by (simp add: h(1))
      moreover have "(map_option (\<lambda>l. l - (gen_count g + 1)) (so_limit options) = Some 1) =
          (so_limit options = Some (gen_count h + 1))"
        by (cases "so_limit options") (auto simp: h(3))
      moreover have "map_option (\<lambda>n. n - 1) (map_option (\<lambda>l. l - (gen_count g + 1)) (so_limit options)) =
          map_option (\<lambda>l. l - (gen_count h + 1)) (so_limit options)"
        by (cases "so_limit options") (simp_all add: h(3))
      ultimately show ?thesis using r(1) Yield False ref by (simp add: case_prod_unfold Let_def)
    next
      case Return
      with o r(1) False show ?thesis by (simp add: outcome_ok_def)
    next
      case (Raise e)
      with o r(1) False show ?thesis by (simp add: outcome_ok_def)
    qed
  qed
qed

lemma scan_start_agree:
  assumes k: "keyed codec (view s)" and d: "\<And>d. so_max_depth options = Some d \<Longrightarrow> 1 \<le> d"
    and s: "inv s" and b: "scan_bounds codec options = Inr (start, stop)"
    and fuel: "card (universe s) < fuel" "Suc (card (universe s)) < n"
    and l: "\<And>n. so_limit options = Some n \<Longrightarrow> 0 < n"
  shows "scan_drain page codec options it fuel n Gen_Start s =
    Some (scan_ref codec options it (so_limit options) (view_rows (view s) start True (so_reverse options) stop))"
proof -
  let ?m = "view s" and ?U = "universe s" and ?g = "scan_first options start stop :: ('e, 'v) gen"
  let ?T = "view_rows ?m start True (so_reverse options) stop"
  note f = rv.finite_universe [OF s] rv.view_universe [OF s]
  have g: "gen_bound ?g = start" "gen_stop ?g = stop" "gen_inclusive ?g" "gen_count ?g = 0" "0 < gen_page ?g"
    using l by (auto simp: scan_first_def FIRST_PAGE_def split: option.splits)
  have c: "card (reach ?U options ?g) < fuel"
    using fuel(1) card_mono [OF f(1), of "reach ?U options ?g"] by (auto simp: reach_def)
  obtain n' where n': "n = Suc n'" using fuel(2) by (cases n) auto
  have fm: "finite (dom ?m)" using f by (rule finite_subset [rotated])
  have len: "length ?T \<le> card ?U"
  proof -
    have d: "distinct (map fst ?T)" by (rule before_sorted_distinct [OF view_rows_sorted [OF fm]])
    have "length ?T = card (set (map fst ?T))" using distinct_card [OF d] by simp
    also have "\<dots> \<le> card ?U"
    proof (rule card_mono [OF f(1)])
      show "set (map fst ?T) \<subseteq> ?U" using f(2) by (auto simp: set_view_rows [OF fm])
    qed
    finally show ?thesis .
  qed
  from scan_while_agree [OF f k d s refl refl g(5) c, of it] obtain ev gs s' where
    r: "scan_while page codec options it fuel False ?g s = Some (ev, gs, s')" "inv s'" "view s' = ?m" "universe s' = ?U"
    and o: "outcome_ok codec options it ?m ?U 0 (card (reach ?U options ?g)) ?T ev gs"
    using g by auto
  have e: "scan_next page codec options it fuel False Gen_Start s = Some (ev, gs, s')"
    using r(1) b l by (auto simp: scan_next_def split: option.splits dest: leD)
  show ?thesis
  proof (cases ev)
    case (Yield out)
    with o obtain h where h: "gs = Gen_Yielded h" "gen_ok ?m ?U options h" "gen_count h = 0" "0 < gen_page h"
        "card (reach ?U options h) \<le> card (reach ?U options ?g)" "length (left_rows ?m options h) < length ?T"
      and ref: "scan_ref codec options it (map_option (\<lambda>l. l - 0) (so_limit options)) ?T =
         (if map_option (\<lambda>l. l - 0) (so_limit options) = Some 1 then ([out], Inr ())
          else let (outs, r) = scan_ref codec options it
              (map_option (\<lambda>n. n - 1) (map_option (\<lambda>l. l - 0) (so_limit options))) (left_rows ?m options h)
            in (out # outs, r))"
      unfolding outcome_ok_def Let_def Yield event.case by blast
    have "card (reach ?U options h) < fuel" "length (left_rows ?m options h) < n'"
      using h(5,6) c len fuel(2) n' by simp_all
    from scan_drain_agree [OF f k d r(2-4) h(2,4) this, of it]
    show ?thesis using e Yield ref by (simp add: n' h(1,3) case_prod_unfold Let_def option.map_id0 [unfolded id_def])
  next
    case Return
    with o e show ?thesis by (simp add: outcome_ok_def n' option.map_id0 [unfolded id_def])
  next
    case (Raise x)
    with o e show ?thesis by (simp add: outcome_ok_def n' option.map_id0 [unfolded id_def])
  qed
qed

end

section \<open>The break filter as a range stop\<close>

lemma scan_ref_append:
  assumes "\<And>e k v. (e, k, v) \<in> set B \<Longrightarrow> \<not> accepts (so_break_filter options) k"
  shows "scan_ref codec options it left (A @ B) = scan_ref codec options it left A"
proof -
  have B: "scan_ref codec options it left B' = ([], Inr ())" if "set B' \<subseteq> set B" for left and B' :: "('a \<times> key \<times> 'b) list"
  proof (cases B')
    case (Cons row B'')
    then show ?thesis using assms that by (cases row) auto
  qed simp
  show ?thesis
  proof (induction A arbitrary: left rule: length_induct)
    case (1 A)
    show ?case
    proof (cases A)
      case Nil
      then show ?thesis using B [of B] by simp
    next
      case (Cons row R)
      obtain e k v where row: "row = (e, k, v)" by (cases row)
      have IH: "scan_ref codec options it left' (R' @ B) = scan_ref codec options it left' R'"
        if "length R' \<le> length R" for left' and R' :: "('a \<times> key \<times> 'b) list"
        using 1 that Cons by (simp add: le_imp_less_Suc)
      let ?D = "dropWhile (deep_under options k)"
      have "scan_ref codec options it left (?D (R @ B)) = scan_ref codec options it left (?D R)"
      proof (cases "\<forall>y \<in> set R. deep_under options k y")
        case True
        have "set (?D B) \<subseteq> set B" by (auto dest: set_dropWhileD)
        with True B show ?thesis by (simp add: dropWhile_append2 dropWhile_eq_Nil_conv [THEN iffD2])
      next
        case False
        then have "?D (R @ B) = ?D R @ B" by (auto simp: dropWhile_append1)
        then show ?thesis using IH [of "?D R"] by (simp add: length_dropWhile_le)
      qed
      then show ?thesis using Cons row IH [of R] scan_ref_Cons [of codec options it left e k v]
        by (simp split: sum.splits)
    qed
  qed
qed

context scanned_view begin

lemma stop_rejects:
  assumes b: "scan_bounds codec options = Inr (start, Some c)" and k: "encode_key codec k = Inr e"
    and past: "if so_reverse options then e < c else c \<le> e"
  shows "\<not> accepts (so_break_filter options) k"
proof
  assume a: "accepts (so_break_filter options) k"
  from b obtain p where p: "so_break_filter options = Some (PrefixFilter p)" "p \<noteq> []"
    and c: "(if so_reverse options then encode_key codec p else upper_bound_of_prefix codec p) = Inr c"
    by (auto simp: scan_bounds_def rbind_eq_Inr split: option.splits kfilter.splits if_splits sum.splits)
  have pk: "prefix p k" using a p by (auto simp: accepts_def prefix_iff_take split: if_splits)
  obtain lo where lo: "encode_key codec p = Inr lo" using pc.enc_prefix_ok [OF k pk p(2)] by blast
  obtain hi where hi: "upper_bound_of_prefix codec p = Inr hi" using pc.ub_ok [OF lo] by blast
  show False using pc.prefix_range [OF lo hi k] pk past c lo hi by (auto split: if_splits)
qed

lemma scan_ref_stop:
  assumes f: "finite (dom m)" and k: "keyed codec m" and b: "scan_bounds codec options = Inr (start, stop)"
  shows "scan_ref codec options it left (view_rows m start True (so_reverse options) stop) =
    scan_ref codec options it left (view_rows m start True (so_reverse options) None)"
proof (cases stop)
  case None
  then show ?thesis by simp
next
  case (Some c)
  let ?r = "so_reverse options"
  let ?L = "view_rows m start True ?r None"
  let ?P = "\<lambda>y :: 'e \<times> key \<times> 'v. if ?r then fst y < c else c \<le> fst y"
  have s: "sorted_wrt (before ?r) (map fst ?L)" using f by (rule view_rows_sorted)
  have mono: "?P y" if "?P x" "before ?r (fst x) (fst y)" for x y
    using that by (auto simp: before_def split: if_splits)
  have "filter (\<lambda>y. \<not> ?P y) L @ filter ?P L = L" if "sorted_wrt (before ?r) (map fst L)" for L :: "('e \<times> key \<times> 'v) list"
    using that
  proof (induction L)
    case (Cons a L)
    show ?case
    proof (cases "?P a")
      case True
      then have "\<forall>y \<in> set L. ?P y" using Cons.prems mono by auto
      then have "filter ?P L = L" "filter (\<lambda>y. \<not> ?P y) L = []" by (auto simp: filter_id_conv filter_empty_conv)
      with True show ?thesis by simp
    next
      case False
      with Cons show ?thesis by simp
    qed
  qed simp
  from this [OF s] have L: "?L = filter (\<lambda>y. \<not> ?P y) ?L @ filter ?P ?L" by simp
  have "view_rows m start True ?r stop = filter (\<lambda>y. \<not> ?P y) ?L"
  proof (rule rows_unique [OF view_rows_sorted [OF f]])
    show "sorted_wrt (before ?r) (map fst (filter (\<lambda>y. \<not> ?P y) ?L))"
      using s by (simp add: sorted_wrt_map sorted_filter_less)
    show "set (view_rows m start True ?r stop) = set (filter (\<lambda>y. \<not> ?P y) ?L)"
    proof (rule set_eqI)
      fix p :: "'e \<times> key \<times> 'v"
      obtain e x where p: "p = (e, x)" by (cases p)
      have "in_bounds start True ?r stop e \<longleftrightarrow> in_bounds start True ?r None e \<and> \<not> ?P p"
        unfolding p by (auto simp: Some in_bounds_def)
      then show "p \<in> set (view_rows m start True ?r stop) \<longleftrightarrow> p \<in> set (filter (\<lambda>y. \<not> ?P y) ?L)"
        by (auto simp: p set_view_rows [OF f])
    qed
  qed
  moreover have "scan_ref codec options it left (filter (\<lambda>y. \<not> ?P y) ?L @ filter ?P ?L) =
      scan_ref codec options it left (filter (\<lambda>y. \<not> ?P y) ?L)"
  proof (rule scan_ref_append)
    fix e key v assume "(e, key, v) \<in> set (filter ?P ?L)"
    then have "m e = Some (key, v)" and past: "if ?r then e < c else c \<le> e"
      by (auto simp: set_view_rows [OF f])
    then have "encode_key codec key = Inr e" using k by (simp add: keyed_def)
    from stop_rejects [OF b [unfolded Some] this past] show "\<not> accepts (so_break_filter options) key" .
  qed
  ultimately show ?thesis using L by simp
qed

text \<open>The whole scan, from the first \<open>next\<close> to the end.\<close>

lemma scan_total:
  assumes k: "keyed codec (view s)" and d: "\<And>d. so_max_depth options = Some d \<Longrightarrow> 1 \<le> d"
    and s: "inv s" and fuel: "card (universe s) < fuel" "Suc (card (universe s)) < n"
  shows "scan_drain page codec options it fuel n Gen_Start s = Some (scan_spec codec options it (view s))"
proof -
  obtain n' where n': "n = Suc n'" using fuel(2) by (cases n) auto
  consider (none) "case so_limit options of None \<Rightarrow> False | Some l \<Rightarrow> l \<le> 0"
    | (err) e where "\<not> (case so_limit options of None \<Rightarrow> False | Some l \<Rightarrow> l \<le> 0)" "scan_bounds codec options = Inl e"
    | (ok) start stop where "\<not> (case so_limit options of None \<Rightarrow> False | Some l \<Rightarrow> l \<le> 0)"
        "scan_bounds codec options = Inr (start, stop)"
    by (cases "scan_bounds codec options") auto
  then show ?thesis
  proof cases
    case none
    then show ?thesis by (simp add: n' scan_next_def scan_spec_def)
  next
    case err
    then show ?thesis by (simp add: n' scan_next_def scan_spec_def)
  next
    case ok
    have "0 < l" if "so_limit options = Some l" for l using ok(1) that by simp
    from scan_start_agree [OF k d s ok(2) fuel this, of it] scan_ref_stop [OF finite_view [OF s] k ok(2)] ok
    show ?thesis by (simp add: scan_spec_def)
  qed
qed

end

section \<open>A scan whose context has ended\<close>

lemma scan_rows_closed: "scan_rows codec options it True rows = Row_End \<or> scan_rows codec options it True rows = Row_Raise StorageClosedError"
  by (cases rows) auto

lemma scan_while_closed: "scan_while hook codec options it (Suc fuel) True g s = Some (Raise StorageClosedError, Gen_Over, s)"
  by simp

lemma scan_next_closed:
  "0 < fuel \<Longrightarrow> \<exists>ev. scan_next hook codec options it fuel True gs s = Some (ev, Gen_Over, s) \<and>
    (ev = Raise StorageClosedError \<or>
     ev = Return \<and> (case gs of Gen_Start \<Rightarrow> False
       | Gen_Yielded g \<Rightarrow> Some (gen_count g + 1) = so_limit options \<or> gen_rows g = [] \<and> gen_done g
       | Gen_Over \<Rightarrow> True))"
proof (cases gs)
  case (Gen_Yielded g)
  assume "0 < fuel"
  then obtain f where "fuel = Suc f" by (cases fuel) auto
  then show ?thesis
    by (cases "gen_rows g") (auto simp: Gen_Yielded scan_next_def scan_for_def Let_def)
qed (auto simp: scan_next_def)

section \<open>Deleting the row just handed out\<close>

lemma view_rows_delete:
  assumes f: "finite (dom m)"
  shows "view_rows (m(e := None)) b i r stop = filter (\<lambda>y. fst y \<noteq> e) (view_rows m b i r stop)"
proof (rule rows_unique [of r])
  have f': "finite (dom (m(e := None)))" using f by simp
  show "sorted_wrt (before r) (map fst (view_rows (m(e := None)) b i r stop))"
    using f' by (rule view_rows_sorted)
  show "sorted_wrt (before r) (map fst (filter (\<lambda>y. fst y \<noteq> e) (view_rows m b i r stop)))"
    using view_rows_sorted [OF f, of r b i stop] by (simp add: sorted_wrt_map sorted_filter_less)
  show "set (view_rows (m(e := None)) b i r stop) = set (filter (\<lambda>y. fst y \<noteq> e) (view_rows m b i r stop))"
    by (rule set_eqI) (auto simp: set_view_rows [OF f] set_view_rows [OF f'] split: if_splits)
qed

lemma gen_ok_delete:
  assumes f: "finite (dom m)" and g: "gen_ok m U options g"
    and A: "view_rows m (gen_bound g) (gen_inclusive g) (so_reverse options) (gen_stop g) =
      A @ (e, k, v) # left_rows m options g"
  shows "left_rows (m(e := None)) options g = left_rows m options g" and "gen_ok (m(e := None)) U options g"
proof -
  let ?r = "so_reverse options"
  let ?V = "view_rows m (gen_bound g) (gen_inclusive g) ?r (gen_stop g)"
  have d: "distinct (map fst ?V)" by (rule before_sorted_distinct [OF view_rows_sorted [OF f]])
  then have e: "e \<notin> fst ` set (left_rows m options g)" "e \<notin> fst ` set A" unfolding A by auto
  then have id: "filter (\<lambda>y. fst y \<noteq> e) (left_rows m options g) = left_rows m options g"
    by (auto simp: filter_id_conv)
  have "filter (\<lambda>y. fst y \<noteq> e) (view_rows m (gen_cover g) False ?r (gen_stop g)) =
      view_rows m (gen_cover g) False ?r (gen_stop g)" if "\<not> gen_done g"
    using e(1) that by (auto simp: filter_id_conv left_rows_def)
  then show l: "left_rows (m(e := None)) options g = left_rows m options g"
    by (simp add: left_rows_def view_rows_delete [OF f])
  have "view_rows (m(e := None)) (gen_bound g) (gen_inclusive g) ?r (gen_stop g) = A @ left_rows m options g"
    unfolding view_rows_delete [OF f] A using e(2) id by (auto simp: filter_id_conv)
  with g l show "gen_ok (m(e := None)) U options g" by (auto simp: gen_ok_def)
qed

section \<open>Scans of the in-memory contexts\<close>

text \<open>\<open>Codec.__init__\<close>: a key codec and a value codec in one interface; and the value codec
  that leaves values as they are.\<close>

definition storage_codec ::
  "(key \<Rightarrow> 'e res) \<Rightarrow> (key \<Rightarrow> 'e res) \<Rightarrow> ('p \<Rightarrow> 'v res) \<Rightarrow> ('v \<Rightarrow> 'p res) \<Rightarrow> ('e, key, 'v, 'p) codec" where
  "storage_codec key_encode key_bound value_encode value_decode =
     \<lparr>encode_key = key_encode, encode_value = value_encode, decode_value = value_decode,
      upper_bound_of_prefix = key_bound\<rparr>"

definition passthrough_encode :: "'p \<Rightarrow> 'p res" where "passthrough_encode v = Inr v"
definition passthrough_decode :: "'p \<Rightarrow> 'p res" where "passthrough_decode v = Inr v"

text \<open>\<open>context._page\<close> on a transaction and on a snapshot.\<close>

definition tx_hook :: "('e::linorder, 'v, ('e, key, 'v) vstore \<times> ('e, key, 'v) txn) page_hook" where
  "tx_hook b i r n stop = (\<lambda>(s, tx). let (result, tx) = tx_page b i r n stop s tx in (result, (s, tx)))"

definition sn_hook :: "('e::linorder, 'v, ('e, key, 'v) vstore \<times> snapshot) page_hook" where
  "sn_hook b i r n stop = (\<lambda>(s, sn). (sn_page b i r n stop s sn, (s, sn)))"

lemma tx_hook_eq: "tx_hook = (\<lambda>b i r n stop (s, tx). let (result, tx) = tx_page b i r n stop s tx in (result, (s, tx)))"
  by (simp add: fun_eq_iff tx_hook_def)

lemma sn_hook_eq: "sn_hook = (\<lambda>b i r n stop (s, sn). (sn_page b i r n stop s sn, (s, sn)))"
  by (simp add: fun_eq_iff sn_hook_def)

abbreviation binary_codec :: "('p \<Rightarrow> 'v res) \<Rightarrow> ('v \<Rightarrow> 'p res) \<Rightarrow> (bytes, key, 'v, 'p) codec" where
  "binary_codec venc vdec \<equiv> storage_codec bin_encode bin_upper_bound_of_prefix venc vdec"

lemma storage_codec_sel [simp]:
  "encode_key (storage_codec ke kb ve vd) = ke" "upper_bound_of_prefix (storage_codec ke kb ve vd) = kb"
  "encode_value (storage_codec ke kb ve vd) = ve" "decode_value (storage_codec ke kb ve vd) = vd"
  by (simp_all add: storage_codec_def)

interpretation txn_scan: scanned_view
  "\<lambda>(s, tx). index_ok s \<and> tx_inv tx"
  "\<lambda>(s, tx). tx_view s tx"
  "\<lambda>(s, tx). dom (vs_live s) \<union> fst ` set (tx_pending tx)"
  "\<lambda>(s, tx). tx_lookup s tx"
  tx_hook
  "storage_codec bin_encode bin_upper_bound_of_prefix venc vdec"
  for venc vdec
  unfolding scanned_view_def tx_hook_eq storage_codec_sel
  using txn_view.read_view_axioms binary.prefix_codec_axioms by blast

interpretation snapshot_scan: scanned_view
  "\<lambda>(s, sn). index_ok s"
  "\<lambda>(s, sn). view_at s (sn_seq sn)"
  "\<lambda>(s, sn). dom (vs_live s) \<union> dom (vs_history s)"
  "\<lambda>(s, sn). sn_lookup s sn"
  sn_hook
  "storage_codec bin_encode bin_upper_bound_of_prefix venc vdec"
  for venc vdec
  unfolding scanned_view_def sn_hook_eq storage_codec_sel
  using snapshot_view.read_view_axioms binary.prefix_codec_axioms by blast

lemma scan_options_init_ok:
  "scan_options_init options = Inr options \<Longrightarrow> so_max_depth options = Some d \<Longrightarrow> 1 \<le> d"
  by (auto simp: scan_options_init_def split: if_splits)

lemma keyed_step: "keyed codec m \<Longrightarrow> keyed codec (map_step codec op m)"
  by (cases op) (auto simp: keyed_def ctx_put_args_def ctx_delete_args_def wrap_error_def rbind_eq_Inr
      split: option.splits sum.splits prod.splits if_splits)

lemma keyed_run: "keyed codec m \<Longrightarrow> keyed codec (map_run codec ops m)"
proof (induction ops arbitrary: m)
  case (Cons op ops)
  then show ?case by (simp add: map_run_def keyed_step)
qed (simp add: map_run_def)

section \<open>Properties\<close>

text \<open>C25: a scan of a transaction, iterated to its end, hands out exactly what one pass over the
  rows of the live state with the transaction's own writes gives: the rows from the start bound
  in order, up to the first visited key the break filter rejects, without the rest of subtrees
  below the walked depth, filtered, cut at the limit, or up to the first value that does not
  decode. The pages (32 rows, doubling to 1024), the seeks over subtrees and the range stop of a
  prefix break filter never change the outcome, and as many pages as there are keys are enough.\<close>

theorem transaction_scan:
  assumes "vs_inv s" and "codec = storage_codec bin_encode bin_upper_bound_of_prefix venc vdec"
    and "keyed codec (vs_live s)" and "tx = tx_run codec s ops (tx_begin slot s)"
    and "scan_options_init options = Inr options"
    and "card (dom (vs_live s) \<union> fst ` set (tx_pending tx)) < fuel"
  shows "scan_drain tx_hook codec options it fuel (Suc fuel) Gen_Start (s, tx) =
    Some (scan_spec codec options it (map_run codec ops (vs_live s)))"
proof -
  have i: "index_ok s" using assms(1) by (simp add: vs_inv_def)
  from tx_run_props [OF i, of "tx_begin slot s" codec ops]
  have t: "tx_inv tx" "tx_view s tx = map_run codec ops (vs_live s)" by (simp_all add: assms(4))
  have k: "keyed codec (tx_view s tx)" using assms(3) by (simp add: t(2) keyed_run)
  from txn_scan.scan_total [of venc vdec "(s, tx)" options fuel "Suc fuel" it, unfolded prod.case]
    k i t assms(2,5,6)
  show ?thesis by (simp add: scan_options_init_ok)
qed

theorem transaction_scan_witness:
  "let codec = storage_codec bin_encode bin_upper_bound_of_prefix passthrough_encode passthrough_decode;
       options = \<lparr>so_start = None, so_reverse = False, so_limit = Some 1, so_filter = None,
         so_break_filter = None, so_start_encoded = None, so_max_depth = Some 2\<rparr>;
       tx = tx_run codec vs_init [TPut [SInt 1] (Some ''a'')] (tx_begin 0 vs_init)
   in scan_drain tx_hook codec options ITEMS 5 6 Gen_Start (vs_init, tx) =
        Some ([Out_Item [SInt 1] ''a''], Inr ())"
proof -
  let ?codec = "storage_codec bin_encode bin_upper_bound_of_prefix passthrough_encode passthrough_decode
    :: (bytes, key, string, string) codec"
  let ?options = "\<lparr>so_start = None, so_reverse = False, so_limit = Some 1, so_filter = None,
     so_break_filter = None, so_start_encoded = None, so_max_depth = Some 2\<rparr> :: bytes scan_options"
  let ?tx = "tx_run ?codec vs_init [TPut [SInt 1] (Some ''a'')] (tx_begin 0 vs_init)"
  obtain e where e: "bin_encode [SInt 1] = Inr e" by (simp add: bin_encode_Inr seg_ok_def INT64_MIN_def INT64_MAX_def)
  have p: "tx_pending ?tx = [(e, [SInt 1], Val ''a'')]"
    by (simp add: tx_run_def tx_begin_def tx_put_def ctx_put_args_def e wrap_error_def passthrough_encode_def tx_stage_def)
  have m: "map_run ?codec [TPut [SInt 1] (Some ''a'')] (vs_live vs_init) = [e \<mapsto> ([SInt 1], ''a'')]"
    by (simp add: map_run_def ctx_put_args_def e wrap_error_def passthrough_encode_def vs_init_def)
  have "scan_drain tx_hook ?codec ?options ITEMS 5 (Suc 5) Gen_Start (vs_init, ?tx) =
      Some (scan_spec ?codec ?options ITEMS (map_run ?codec [TPut [SInt 1] (Some ''a'')] (vs_live vs_init)))"
  proof (rule transaction_scan [OF vs_init_inv refl _ refl])
    show "keyed ?codec (vs_live vs_init)" by (simp add: keyed_def vs_init_def)
    show "scan_options_init ?options = Inr ?options" by (simp add: scan_options_init_def)
    show "card (dom (vs_live vs_init) \<union> fst ` set (tx_pending ?tx)) < 5" unfolding p by (simp add: vs_init_def)
  qed
  also have "scan_spec ?codec ?options ITEMS (map_run ?codec [TPut [SInt 1] (Some ''a'')] (vs_live vs_init)) =
      ([Out_Item [SInt 1] ''a''], Inr ())"
    by (simp add: m scan_spec_def scan_bounds_def view_rows_def key_range_def scan_order_def accepts_def too_deep_def
        scan_emit_def wrap_error_def passthrough_decode_def)
  finally have "scan_drain tx_hook ?codec ?options ITEMS 5 (Suc 5) Gen_Start (vs_init, ?tx) =
      Some ([Out_Item [SInt 1] ''a''], Inr ())" .
  moreover have "Suc 5 = 6" by simp
  ultimately show ?thesis by (simp only: Let_def)
qed

text \<open>A scan of a snapshot gives the rows of the state at the moment the snapshot was taken,
  whatever is committed and released between.\<close>

theorem snapshot_scan_frozen:
  assumes "vs_inv s" and "codec = storage_codec bin_encode bin_upper_bound_of_prefix venc vdec"
    and "keyed codec (vs_live s)" and "vs_pin s = (tok, t)" and "u = store_run raises ops t"
    and "releases tok ops < outstanding t (snd tok)" and "scan_options_init options = Inr options"
    and "card (dom (vs_live u) \<union> dom (vs_history u)) < fuel"
  shows "scan_drain sn_hook codec options it fuel (Suc fuel) Gen_Start (u, sn_begin tok) =
    Some (scan_spec codec options it (vs_live s))"
proof -
  note P = vs_pin_props [OF assms(1,4)]
  have tok: "tok = (vs_generation t, snd tok)" "snd tok = vs_seq s" by (simp_all add: P(2,5))
  have r: "vs_inv u" "view_at u (snd tok) = view_at t (snd tok)"
    using store_run_view [OF P(1), of "snd tok" ops raises] assms(5,6) tok(1) by simp_all
  have "view_at t (snd tok) = vs_live s"
    using view_at_now [of s "snd tok"] assms(1) unfolding P(3) tok(2) by (simp add: vs_inv_def)
  then have v: "view_at u (snd tok) = vs_live s" using r(2) by simp
  have i: "index_ok u" using r(1) by (simp add: vs_inv_def)
  from snapshot_scan.scan_total [of venc vdec "(u, sn_begin tok)" options fuel "Suc fuel" it,
      unfolded prod.case sn_begin_fields]
    v i assms(2,3,7,8)
  show ?thesis by (simp add: scan_options_init_ok)
qed

theorem snapshot_scan_frozen_witness:
  "\<exists>fuel. let codec = storage_codec bin_encode bin_upper_bound_of_prefix passthrough_encode passthrough_decode;
       e = (case bin_encode [SInt 1] of Inr e \<Rightarrow> e | Inl _ \<Rightarrow> []);
       options = \<lparr>so_start = None, so_reverse = True, so_limit = None, so_filter = None,
         so_break_filter = None, so_start_encoded = None, so_max_depth = None\<rparr>;
       s = snd (snd (vs_apply (\<lambda>_ _. False) [(e, [SInt 1], Val ''v'')] {} 0 vs_init));
       tok = fst (vs_pin s);
       u = store_run (\<lambda>_ _. False) [Op_Apply [(e, [SInt 1], DELETED)] {} 0, Op_Pin] (snd (vs_pin s))
   in scan_drain sn_hook codec options VALUES fuel (Suc fuel) Gen_Start (u, sn_begin tok) =
        Some ([Out_Value ''v''], Inr ())"
proof -
  let ?codec = "storage_codec bin_encode bin_upper_bound_of_prefix passthrough_encode passthrough_decode
    :: (bytes, key, string, string) codec"
  let ?options = "\<lparr>so_start = None, so_reverse = True, so_limit = None, so_filter = None,
     so_break_filter = None, so_start_encoded = None, so_max_depth = None\<rparr> :: bytes scan_options"
  obtain e where e: "bin_encode [SInt 1] = Inr e" by (simp add: bin_encode_Inr seg_ok_def INT64_MIN_def INT64_MAX_def)
  obtain m s where a: "vs_apply (\<lambda>_ _. False) [(e, [SInt 1], Val ''v'')] {} 0 vs_init = (Inr 1, m, s)"
    by (simp add: vs_apply_def vs_init_def apply_live_def vs_get_def apply_record_def Let_def)
  note A = vs_apply_props [OF vs_init_inv _ a]
  have s: "vs_inv s" "vs_seq s = 1" "vs_live s = [e \<mapsto> ([SInt 1], ''v'')]"
    using A(1,2) A(5) [OF _ refl] by (simp_all add: vs_init_def write_map_def outcome_def)
  have k: "keyed ?codec (vs_live s)" by (simp add: s(3) keyed_def e)
  obtain tok t where p: "vs_pin s = (tok, t)" by (cases "vs_pin s")
  have r: "releases tok [Op_Apply [(e, [SInt 1], DELETED)] {} 0, Op_Pin] < outstanding t (snd tok)"
    using vs_pin_props(2,8) [OF s(1) p] by simp
  define u where "u = store_run (\<lambda>_ _. False) [Op_Apply [(e, [SInt 1], DELETED)] {} 0, Op_Pin] t"
  define fuel where "fuel = Suc (card (dom (vs_live u) \<union> dom (vs_history u)))"
  have "scan_drain sn_hook ?codec ?options VALUES fuel (Suc fuel) Gen_Start (u, sn_begin tok) =
      Some (scan_spec ?codec ?options VALUES (vs_live s))"
    by (rule snapshot_scan_frozen [OF s(1) refl k p u_def r])
      (simp_all add: scan_options_init_def fuel_def)
  also have "scan_spec ?codec ?options VALUES (vs_live s) = ([Out_Value ''v''], Inr ())"
    by (simp add: s(3) scan_spec_def scan_bounds_def view_rows_def key_range_def scan_order_def accepts_def too_deep_def
        scan_emit_def wrap_error_def passthrough_decode_def)
  finally show ?thesis unfolding u_def Let_def by (intro exI [of _ fuel]) (simp only: e sum.case a snd_conv p fst_conv)
qed

text \<open>Once the context of a scan has ended, the scan never hands out another row, not even one
  of a page it had already fetched: it raises \<open>StorageClosedError\<close>, or ends normally where it
  had reached its limit or the end of its last page. After that it only ends.\<close>

theorem scan_after_end:
  assumes "0 < fuel"
  shows "\<exists>ev. scan_next hook codec options it fuel True gs s = Some (ev, Gen_Over, s) \<and>
    (ev = Raise StorageClosedError \<or>
     ev = Return \<and> (case gs of Gen_Start \<Rightarrow> False
       | Gen_Yielded g \<Rightarrow> Some (gen_count g + 1) = so_limit options \<or> gen_rows g = [] \<and> gen_done g
       | Gen_Over \<Rightarrow> True))"
  using assms by (rule scan_next_closed)

theorem scan_after_end_witness:
  "scan_next tx_hook (storage_codec bin_encode bin_upper_bound_of_prefix passthrough_encode passthrough_decode)
     \<lparr>so_start = None, so_reverse = False, so_limit = None, so_filter = None,
       so_break_filter = None, so_start_encoded = None, so_max_depth = None\<rparr> KEYS 1 True
     (Gen_Yielded \<lparr>gen_bound = None, gen_stop = None, gen_inclusive = True, gen_page = 32, gen_count = 0,
        gen_rows = [([1], [SInt 1], ''a'')], gen_cover = None, gen_done = True\<rparr>)
     (vs_init, tx_begin 0 vs_init) =
   Some (Raise StorageClosedError, Gen_Over, (vs_init, tx_begin 0 vs_init))"
  using scan_after_end [of 1 tx_hook
      "storage_codec bin_encode bin_upper_bound_of_prefix passthrough_encode passthrough_decode"
      "\<lparr>so_start = None, so_reverse = False, so_limit = None, so_filter = None,
         so_break_filter = None, so_start_encoded = None, so_max_depth = None\<rparr>" KEYS
      "Gen_Yielded \<lparr>gen_bound = None, gen_stop = None, gen_inclusive = True, gen_page = 32, gen_count = 0,
        gen_rows = [([1], [SInt 1], ''a'')], gen_cover = None, gen_done = True\<rparr>"
      "(vs_init, tx_begin 0 vs_init)"]
  by auto

end
