(* ===== verification/String_Codec.thy ===== *)
theory String_Codec
  imports Key_Codec Py_Text
begin

text \<open>
  The human-readable key codec (\<open>_backends/key_codecs/string/string_codec.py\<close>): integers as a
  biased fixed-width decimal with the signed value in brackets, strings as they are with three
  reserved characters refused, every component ended by the separator. It is shown to invert,
  to meet the prefix contract \<open>prefix_codec\<close>, and to keep the order of keys whose strings stay
  above the separator; unlike the binary codec it does not keep the order of all keys.
\<close>


section \<open>Constants\<close>

definition STR_TYPE_INT :: pystr where "STR_TYPE_INT = lit ''[i]''"
definition STR_TYPE_STR :: pystr where "STR_TYPE_STR = lit ''[s]''"
definition SEPARATOR :: nat where "SEPARATOR = 46"
definition FORBIDDEN_CHARS :: "nat list" where "FORBIDDEN_CHARS = lit ''.[]''"
definition INT_WIDTH :: nat where "INT_WIDTH = 5"
definition INT_MIN :: int where "INT_MIN = -49999"
definition INT_MAX :: int where "INT_MAX = 49999"

section \<open>Integers\<close>

text \<open>\<open>str(value).zfill(width)\<close> of a non-negative integer.\<close>

definition format_integer_with_leading_zeros :: "int \<Rightarrow> nat \<Rightarrow> pystr" where
  "format_integer_with_leading_zeros v width =
     (let s = int_repr v in replicate (width - length s) 48 @ s)"

text \<open>The format \<open>+06d\<close>: the sign always shown, zeros up to a width of six.\<close>

definition format_signed :: "int \<Rightarrow> pystr" where
  "format_signed v =
     (let s = nat_repr (nat \<bar>v\<bar>) in (if v < 0 then 45 else 43) # replicate (5 - length s) 48 @ s)"

definition str_encode_integer :: "int \<Rightarrow> pystr res" where
  "str_encode_integer v =
     (if \<not> (INT_MIN \<le> v \<and> v \<le> INT_MAX) then Inl IntegerOverflowError
      else
        let bias = \<bar>INT_MIN\<bar>;
            biased_value = v + bias;
            sign_prefix = (if v < 0 then lit ''n'' else lit ''p'');
            biased_str = format_integer_with_leading_zeros biased_value INT_WIDTH;
            original_str = format_signed v
        in Inr (sign_prefix @ biased_str @ lit ''['' @ original_str @ lit '']''))"

text \<open>
  \<open>int(s)\<close> on ASCII text: surrounding whitespace, a sign, digits with single underscores
  between them; \<open>None\<close> is \<open>ValueError\<close>. (Decimal digits and whitespace outside ASCII, which
  \<open>int\<close> accepts too, are refused here.)
\<close>

definition is_space :: "nat \<Rightarrow> bool" where
  "is_space c \<longleftrightarrow> c = 32 \<or> (9 \<le> c \<and> c \<le> 13) \<or> (28 \<le> c \<and> c \<le> 31)"

definition strip :: "pystr \<Rightarrow> pystr" where
  "strip s = rev (dropWhile is_space (rev (dropWhile is_space s)))"

fun digits_value :: "pystr \<Rightarrow> nat \<Rightarrow> nat option" where
  "digits_value [] v = None"
| "digits_value [c] v = (if is_digit c then Some (v * 10 + (c - 48)) else None)"
| "digits_value (c # d # cs) v =
     (if \<not> is_digit c then None
      else if d = 95 then digits_value cs (v * 10 + (c - 48))
      else digits_value (d # cs) (v * 10 + (c - 48)))"

definition int_of_text :: "pystr \<Rightarrow> int option" where
  "int_of_text s =
     (case strip s of
        [] \<Rightarrow> None
      | c # cs \<Rightarrow>
          if c = 45 then map_option (\<lambda>n. - int n) (digits_value cs 0)
          else if c = 43 then map_option int (digits_value cs 0)
          else map_option int (digits_value (c # cs) 0))"

text \<open>\<open>s.find(c)\<close>; \<open>None\<close> is \<open>-1\<close>.\<close>

definition str_find :: "nat \<Rightarrow> pystr \<Rightarrow> nat option" where
  "str_find c s = (if c \<in> set s then Some (length (takeWhile (\<lambda>x. x \<noteq> c) s)) else None)"

definition str_decode_integer :: "pystr \<Rightarrow> int res" where
  "str_decode_integer encoded =
     (case (str_find 91 encoded, str_find 93 encoded) of
        (Some bracket_start, Some bracket_end) \<Rightarrow>
          if bracket_end \<noteq> length encoded - 1 then Inl DecodeError
          else (case int_of_text (drop (bracket_start + 1) (take bracket_end encoded)) of
                  None \<Rightarrow> Inl DecodeError
                | Some result \<Rightarrow>
                    if \<not> (INT_MIN \<le> result \<and> result \<le> INT_MAX) then Inl DecodeError
                    else Inr result)
      | _ \<Rightarrow> Inl DecodeError)"

section \<open>Keys\<close>

definition validate_string_component :: "pystr \<Rightarrow> unit res" where
  "validate_string_component v =
     (if list_ex (\<lambda>c. c \<in> set v) FORBIDDEN_CHARS then Inl EncodeError else Inr ())"

text \<open>\<open>_validate_key\<close>; the type checks on the components are the type \<^typ>\<open>seg\<close>.\<close>

definition validate_key :: "key \<Rightarrow> unit res" where
  "validate_key k = (if length k = 0 then Inl EncodeError else Inr ())"

definition str_encode_component :: "seg \<Rightarrow> pystr res" where
  "str_encode_component component =
     (case component of
        SInt v \<Rightarrow> rbind (str_encode_integer v) (\<lambda>s. Inr (STR_TYPE_INT @ s))
      | SStr s \<Rightarrow> rbind (validate_string_component s) (\<lambda>_. Inr (STR_TYPE_STR @ s)))"

text \<open>\<open>sep.join(parts)\<close> and \<open>s.split(sep)\<close> for a one-character separator.\<close>

fun join_on :: "nat \<Rightarrow> pystr list \<Rightarrow> pystr" where
  "join_on sep [] = []"
| "join_on sep [p] = p"
| "join_on sep (p # ps) = p @ sep # join_on sep ps"

fun split_on :: "nat \<Rightarrow> pystr \<Rightarrow> pystr list" where
  "split_on sep [] = [[]]"
| "split_on sep (c # s) =
     (if c = sep then [] # split_on sep s
      else case split_on sep s of [] \<Rightarrow> [[c]] | p # ps \<Rightarrow> (c # p) # ps)"

definition str_encode :: "key \<Rightarrow> pystr res" where
  "str_encode k =
     rbind (validate_key k) (\<lambda>_.
     rbind (rmap str_encode_component k) (\<lambda>parts. Inr (join_on SEPARATOR parts @ [SEPARATOR])))"

definition str_upper_bound_of_prefix :: "key \<Rightarrow> pystr res" where
  "str_upper_bound_of_prefix k = rbind (str_encode k) (\<lambda>s. Inr (s @ lit ''~''))"

definition str_decode_part :: "pystr \<Rightarrow> seg res" where
  "str_decode_part part =
     (if part = [] then Inl DecodeError
      else if take 3 part = STR_TYPE_INT then
        rbind (str_decode_integer (drop 3 part)) (\<lambda>v. Inr (SInt v))
      else if take 3 part = STR_TYPE_STR then Inr (SStr (drop 3 part))
      else Inl DecodeError)"

definition str_decode :: "pystr \<Rightarrow> key res" where
  "str_decode encoded =
     (if encoded = [] then Inl DecodeError
      else
        let encoded = (if last encoded = SEPARATOR then butlast encoded else encoded)
        in if encoded = [] then Inl DecodeError
           else rmap str_decode_part (split_on SEPARATOR encoded))"

section \<open>Decimal text of fixed width\<close>

lemma digits_fold: "fold (\<lambda>c v. v * 10 + (c - 48)) s v = v * 10 ^ length s + dec_value s" for s :: pystr
proof (induction s rule: rev_induct)
  case (snoc c s)
  then show ?case by (simp add: algebra_simps)
qed (simp add: dec_value_def)

lemma dec_value_Cons: "dec_value (c # s) = (c - 48) * 10 ^ length s + dec_value s"
  using digits_fold [of s "c - 48"] by (simp add: dec_value_def)

lemma dec_value_less: "\<forall>c \<in> set s. is_digit c \<Longrightarrow> dec_value s < 10 ^ length s"
proof (induction s)
  case (Cons c s)
  then have "c \<le> 57" "dec_value s < 10 ^ length s" by (simp_all add: is_digit_def)
  then have "c - 48 \<le> 9" by simp
  then have "(c - 48) * 10 ^ length s \<le> 9 * 10 ^ length s" by (intro mult_right_mono) simp_all
  with \<open>dec_value s < 10 ^ length s\<close> have "(c - 48) * 10 ^ length s + dec_value s < 9 * 10 ^ length s + 10 ^ length s"
    by (rule add_le_less_mono [rotated])
  then show ?case by (simp add: dec_value_Cons)
qed (simp add: dec_value_def)

lemma digits_less_iff:
  "length s = length t \<Longrightarrow> \<forall>c \<in> set s. is_digit c \<Longrightarrow> \<forall>c \<in> set t. is_digit c \<Longrightarrow>
   s < t \<longleftrightarrow> dec_value s < dec_value t"
proof (induction s arbitrary: t)
  case Nil
  then show ?case by simp
next
  case (Cons c s)
  then obtain d t' where t: "t = d # t'" by (cases t) auto
  let ?n = "10 ^ length s :: nat"
  have b: "dec_value s < ?n" "dec_value t' < ?n" using Cons.prems t dec_value_less [of s] dec_value_less [of t'] by simp_all
  have cd: "48 \<le> c" "48 \<le> d" using Cons.prems t by (simp_all add: is_digit_def)
  have less: "(x - 48) * ?n + u < (y - 48) * ?n + w" if "x < y" "48 \<le> x" "u < ?n" for x y u w :: nat
  proof -
    have "Suc (x - 48) * ?n \<le> (y - 48) * ?n" using that by (intro mult_right_mono) simp_all
    then show ?thesis using that(3) by simp
  qed
  show ?case
  proof (cases "c = d")
    case True
    with Cons t show ?thesis by (simp add: dec_value_Cons)
  next
    case False
    have eq: "(c # s < t) = (c < d)" "length t' = length s" using False Cons.prems t by auto
    show ?thesis
    proof (cases "c < d")
      case True
      then show ?thesis using less [of c d "dec_value s" "dec_value t'"] b cd by (simp add: eq t dec_value_Cons)
    next
      case f: False
      then have "d < c" using False by simp
      then show ?thesis using less [of d c "dec_value t'" "dec_value s"] b cd f by (simp add: eq t dec_value_Cons)
    qed
  qed
qed

lemma nat_repr_length: "n < 10 ^ k \<Longrightarrow> 0 < k \<Longrightarrow> length (nat_repr n) \<le> k"
proof (induction n arbitrary: k rule: nat_repr.induct)
  case (1 n)
  show ?case
  proof (cases "n < 10")
    case True
    with 1 show ?thesis by (simp add: nat_repr.simps [of n])
  next
    case False
    then obtain k' where k: "k = Suc k'" "0 < k'" using 1 by (cases k; cases "k - 1") auto
    then have "n div 10 < 10 ^ k'" using 1 by (simp add: less_mult_imp_div_less mult.commute)
    with 1 False k show ?thesis by (simp add: nat_repr.simps [of n])
  qed
qed

definition pad :: "nat \<Rightarrow> nat \<Rightarrow> pystr" where
  "pad w n = replicate (w - length (nat_repr n)) 48 @ nat_repr n"

lemma pad_props:
  "n < 10 ^ w \<Longrightarrow> 0 < w \<Longrightarrow> length (pad w n) = w" "\<forall>c \<in> set (pad w n). is_digit c"
  "dec_value (pad w n) = n" "pad w n \<noteq> []"
proof -
  show "n < 10 ^ w \<Longrightarrow> 0 < w \<Longrightarrow> length (pad w n) = w" using nat_repr_length [of n w] by (simp add: pad_def)
  show "\<forall>c \<in> set (pad w n). is_digit c" by (auto simp: pad_def is_digit_def dest: nat_repr_digit)
  have "dec_value (replicate k 48 @ s) = dec_value s" for k s
    by (induction k) (simp_all add: dec_value_Cons)
  then show "dec_value (pad w n) = n" by (simp add: pad_def)
  show "pad w n \<noteq> []" by (simp add: pad_def)
qed

lemma digits_value_digits:
  "s \<noteq> [] \<Longrightarrow> \<forall>c \<in> set s. is_digit c \<Longrightarrow> digits_value s v = Some (v * 10 ^ length s + dec_value s)"
proof (induction s v rule: digits_value.induct)
  case (2 c v)
  then show ?case by (simp add: dec_value_Cons dec_value_def)
next
  case (3 c d cs v)
  then have "d \<noteq> 95" by (auto simp: is_digit_def)
  with 3 show ?case by (simp add: dec_value_Cons [of c] algebra_simps)
qed simp

lemma int_of_text_signed: "int_of_text (format_signed v) = Some v"
proof -
  have f: "format_signed v = (if v < 0 then 45 else 43) # pad 5 (nat \<bar>v\<bar>)"
    by (simp add: format_signed_def pad_def Let_def)
  have "is_digit (last (pad 5 (nat \<bar>v\<bar>)))"
    using pad_props(2,4) [of 5 "nat \<bar>v\<bar>"] last_in_set [of "pad 5 (nat \<bar>v\<bar>)"] by blast
  then have "\<not> is_space (last (pad 5 (nat \<bar>v\<bar>)))"
    by (auto simp: is_digit_def is_space_def)
  then have "strip (format_signed v) = format_signed v"
    unfolding f strip_def using pad_props(4) [of 5 "nat \<bar>v\<bar>"]
    by (cases "pad 5 (nat \<bar>v\<bar>)" rule: rev_cases) (auto simp: is_space_def)
  moreover have "digits_value (pad 5 (nat \<bar>v\<bar>)) 0 = Some (nat \<bar>v\<bar>)"
    using digits_value_digits [OF pad_props(4,2), of 5 "nat \<bar>v\<bar>" 0] by (simp add: pad_props(3))
  ultimately show ?thesis by (simp add: int_of_text_def f)
qed

section \<open>Components\<close>

definition int_text :: "int \<Rightarrow> pystr" where
  "int_text v = (if v < 0 then 110 else 112) # pad 5 (nat (v + 49999)) @ 91 #
     (if v < 0 then 45 else 43) # pad 5 (nat \<bar>v\<bar>) @ [93]"

definition comp_ok :: "seg \<Rightarrow> bool" where
  "comp_ok s = (case s of SInt v \<Rightarrow> -49999 \<le> v \<and> v \<le> 49999
     | SStr t \<Rightarrow> 46 \<notin> set t \<and> 91 \<notin> set t \<and> 93 \<notin> set t)"

definition comp_text :: "seg \<Rightarrow> pystr" where
  "comp_text s = (case s of SInt v \<Rightarrow> [91, 105, 93] @ int_text v | SStr t \<Rightarrow> [91, 115, 93] @ t)"

lemmas str_consts = STR_TYPE_INT_def STR_TYPE_STR_def SEPARATOR_def FORBIDDEN_CHARS_def INT_WIDTH_def
  INT_MIN_def INT_MAX_def lit_def

lemma str_encode_component_Inr:
  "str_encode_component s = Inr t \<longleftrightarrow> comp_ok s \<and> t = comp_text s"
proof (cases s)
  case (SInt v)
  have "int_repr (v + 49999) = nat_repr (nat (v + 49999))" if "-49999 \<le> v" using that by (simp add: int_repr_def)
  then have "str_encode_integer v = (if -49999 \<le> v \<and> v \<le> 49999 then Inr (int_text v) else Inl IntegerOverflowError)"
    by (auto simp: str_encode_integer_def str_consts format_integer_with_leading_zeros_def format_signed_def
        int_text_def pad_def Let_def)
  then show ?thesis by (auto simp: SInt str_encode_component_def comp_ok_def comp_text_def str_consts)
qed (auto simp: str_encode_component_def comp_ok_def comp_text_def str_consts validate_string_component_def)

lemma digits_avoid: "\<not> is_digit c \<Longrightarrow> c \<notin> set (pad w n)"
  using pad_props(2) by blast

lemma comp_text_no_sep: "comp_ok s \<Longrightarrow> 46 \<notin> set (comp_text s)"
  by (auto simp: comp_ok_def comp_text_def int_text_def is_digit_def digits_avoid split: seg.splits)

lemma takeWhile_before: "c \<notin> set s \<Longrightarrow> takeWhile (\<lambda>x. x \<noteq> c) (s @ c # t) = s"
  by (induction s) auto

lemma str_find_before: "c \<notin> set s \<Longrightarrow> str_find c (s @ c # t) = Some (length s)"
  by (simp add: str_find_def takeWhile_before)

lemma str_decode_int_text: "-49999 \<le> v \<Longrightarrow> v \<le> 49999 \<Longrightarrow> str_decode_integer (int_text v) = Inr v"
proof -
  assume r: "-49999 \<le> v" "v \<le> 49999"
  let ?a = "(if v < 0 then 110 else 112) # pad 5 (nat (v + 49999))"
  let ?b = "(if v < 0 then 45 else 43) # pad 5 (nat \<bar>v\<bar>)"
  have t: "int_text v = ?a @ 91 # ?b @ [93]" by (simp add: int_text_def)
  have s: "str_find 91 (int_text v) = Some (length ?a)"
    unfolding t by (rule str_find_before) (simp add: digits_avoid is_digit_def)
  have "str_find 93 ((?a @ 91 # ?b) @ 93 # []) = Some (length (?a @ 91 # ?b))"
    by (rule str_find_before) (simp add: digits_avoid is_digit_def)
  then have e: "str_find 93 (int_text v) = Some (length (?a @ 91 # ?b))" by (simp add: t)
  have "drop (length ?a + 1) (take (length (?a @ 91 # ?b)) (int_text v)) = ?b"
    unfolding t by simp
  moreover have fb: "?b = format_signed v" by (simp add: format_signed_def pad_def Let_def)
  moreover have "length (?a @ 91 # ?b) = length (int_text v) - 1" by (simp add: t)
  ultimately show ?thesis using r int_of_text_signed [of v]
    unfolding str_decode_integer_def s e by (simp only: prod.case option.case) (simp add: INT_MIN_def INT_MAX_def fb)
qed

lemma str_decode_comp: "comp_ok s \<Longrightarrow> str_decode_part (comp_text s) = Inr s"
  by (auto simp: comp_ok_def comp_text_def str_decode_part_def str_consts str_decode_int_text split: seg.splits)

lemma comp_text_inj: "comp_ok a \<Longrightarrow> comp_ok b \<Longrightarrow> comp_text a = comp_text b \<Longrightarrow> a = b"
  by (metis Inr_inject str_decode_comp)

section \<open>Keys\<close>

abbreviation term_text :: "seg \<Rightarrow> pystr" where
  "term_text s \<equiv> comp_text s @ [46]"

lemma join_on_terms: "ps \<noteq> [] \<Longrightarrow> join_on c ps @ [c] = concat (map (\<lambda>p. p @ [c]) ps)"
  by (induction c ps rule: join_on.induct) simp_all

lemma rmap_comp_Inr:
  "rmap str_encode_component k = Inr ps \<longleftrightarrow> list_all comp_ok k \<and> ps = map comp_text k"
  by (induction k arbitrary: ps) (auto simp: rbind_eq_Inr str_encode_component_Inr)

lemma str_encode_Inr:
  "str_encode k = Inr e \<longleftrightarrow> k \<noteq> [] \<and> list_all comp_ok k \<and> e = concat (map term_text k)"
  by (auto simp: str_encode_def validate_key_def rbind_eq_Inr rmap_comp_Inr SEPARATOR_def join_on_terms o_def)

lemma split_join: "ps \<noteq> [] \<Longrightarrow> \<forall>p \<in> set ps. c \<notin> set p \<Longrightarrow> split_on c (join_on c ps) = ps"
proof (induction c ps rule: join_on.induct)
  case (2 sep p)
  then have "sep \<notin> set p" by simp
  then have "split_on sep p = [p]" by (induction p) auto
  then show ?case by simp
next
  case (3 sep p q ps)
  then have "sep \<notin> set p" by simp
  then have "split_on sep (p @ sep # s) = p # split_on sep s" for s by (induction p) auto
  with 3 show ?case by simp
qed simp

lemma str_roundtrip: "str_encode k = Inr e \<Longrightarrow> str_decode e = Inr k"
proof -
  assume "str_encode k = Inr e"
  then have k: "k \<noteq> []" "list_all comp_ok k" and e: "e = concat (map term_text k)"
    by (simp_all add: str_encode_Inr)
  let ?j = "join_on 46 (map comp_text k)"
  have j: "e = ?j @ [46]" using k(1) by (simp add: e join_on_terms o_def)
  have "?j \<noteq> []" using k(1)
    by (cases k; cases "tl k") (auto simp: comp_text_def split: seg.splits)
  moreover have "split_on 46 ?j = map comp_text k"
    using k comp_text_no_sep by (intro split_join) (auto simp: list_all_iff)
  moreover have "rmap str_decode_part (map comp_text k) = Inr k"
    using k(2) by (induction k) (simp_all add: str_decode_comp)
  ultimately show ?thesis by (simp add: str_decode_def j SEPARATOR_def)
qed

section \<open>The codec meets the interface\<close>

lemma term_cancel:
  assumes "term_text a @ r = term_text b @ q" and "comp_ok a" and "comp_ok b"
  shows "a = b \<and> r = q"
proof -
  have "comp_text a @ 46 # r = comp_text b @ 46 # q" using assms(1) by simp
  then have "comp_text a = comp_text b"
    using takeWhile_before [OF comp_text_no_sep [OF assms(2)], of r]
      takeWhile_before [OF comp_text_no_sep [OF assms(3)], of q] by simp
  with assms comp_text_inj show ?thesis by auto
qed

lemma concat_term_prefix:
  "concat (map term_text k) = concat (map term_text p) @ t \<Longrightarrow>
   list_all comp_ok k \<Longrightarrow> list_all comp_ok p \<Longrightarrow> prefix p k"
proof (induction p arbitrary: k)
  case (Cons a p)
  from Cons.prems obtain b k' where k: "k = b # k'" by (cases k) auto
  with Cons.prems have "term_text b @ concat (map term_text k') = term_text a @ (concat (map term_text p) @ t)" by simp
  with Cons.prems k have "b = a \<and> concat (map term_text k') = concat (map term_text p) @ t"
    by (intro term_cancel) simp_all
  with Cons.IH [of k'] Cons.prems k show ?case by auto
qed simp

lemma hd_term: "k \<noteq> [] \<Longrightarrow> concat (map term_text k) \<noteq> [] \<and> hd (concat (map term_text k)) = 91"
  by (cases k) (auto simp: comp_text_def split: seg.splits)

interpretation textual: prefix_codec str_encode str_upper_bound_of_prefix
proof
  fix k k' :: key and e
  assume "str_encode k = Inr e" and "str_encode k' = Inr e"
  then have "str_decode e = Inr k" "str_decode e = Inr k'" by (auto intro: str_roundtrip)
  then show "k = k'" by simp
next
  fix p :: key and e
  assume "str_encode p = Inr e"
  then show "\<exists>u. str_upper_bound_of_prefix p = Inr u" by (simp add: str_upper_bound_of_prefix_def)
next
  fix k p :: key and e
  assume "str_encode k = Inr e" and "prefix p k" and "p \<noteq> []"
  then show "\<exists>e'. str_encode p = Inr e'" by (auto simp: str_encode_Inr prefix_def)
next
  fix p k :: key and lo hi e
  assume p: "str_encode p = Inr lo" and u: "str_upper_bound_of_prefix p = Inr hi" and k: "str_encode k = Inr e"
  from p u have hi: "hi = lo @ [126]" by (simp add: str_upper_bound_of_prefix_def lit_def)
  show "(lo \<le> e \<and> e < hi) \<longleftrightarrow> prefix p k"
  proof
    assume "lo \<le> e \<and> e < hi"
    then obtain t where "e = lo @ t" unfolding hi in_prefix_range_iff by auto
    with p k show "prefix p k" by (metis str_encode_Inr concat_term_prefix)
  next
    assume "prefix p k"
    then obtain l where l: "k = p @ l" by (auto simp: prefix_def)
    with p k have "e = lo @ concat (map term_text l)" by (auto simp: str_encode_Inr)
    then show "lo \<le> e \<and> e < hi"
      unfolding hi in_prefix_range_iff using hd_term [of l] by (cases l) auto
  qed
qed

section \<open>Order\<close>

text \<open>Strings whose characters all sort above the separator keep their order.\<close>

definition above_separator :: "seg \<Rightarrow> bool" where
  "above_separator s = (case s of SInt v \<Rightarrow> True | SStr t \<Rightarrow> list_all (\<lambda>c. SEPARATOR < c) t)"

lemma str_less_sep: "s < t \<Longrightarrow> \<forall>c \<in> set t. 46 < c \<Longrightarrow> s @ 46 # r < t @ 46 # (q :: nat list)"
proof (induction s arbitrary: t)
  case Nil
  then show ?case by (cases t) auto
next
  case (Cons c s)
  then show ?case by (cases t) auto
qed

lemma pad_less: "m < n \<Longrightarrow> n < 10 ^ w \<Longrightarrow> 0 < w \<Longrightarrow> pad w m @ r < pad w n @ q"
proof (rule less_append_mono)
  assume a: "m < n" "n < 10 ^ w" "0 < w"
  then have l: "length (pad w m) = length (pad w n)" by (simp add: pad_props(1))
  with a show "pad w m < pad w n" by (simp add: digits_less_iff pad_props(2,3))
  then show "\<not> prefix (pad w m) (pad w n)" using l by (auto simp: prefix_def)
qed

lemma comp_text_less:
  assumes "a < b" and "comp_ok a" and "comp_ok b" and "above_separator b"
  shows "term_text a @ r < term_text b @ q"
proof (cases a)
  case (SInt v)
  show ?thesis
  proof (cases b)
    case (SInt w)
    with \<open>a = SInt v\<close> assms have vw: "v < w" "-49999 \<le> v" "w \<le> 49999" by (simp_all add: comp_ok_def)
    then have "nat (v + 49999) < nat (w + 49999)" "nat (w + 49999) < 10 ^ 5" by simp_all
    from pad_less [OF this] vw \<open>a = SInt v\<close> SInt show ?thesis by (auto simp: comp_text_def int_text_def)
  next
    case (SStr t)
    with \<open>a = SInt v\<close> show ?thesis by (simp add: comp_text_def)
  qed
next
  case (SStr s)
  with assms(1) obtain t where b: "b = SStr t" "s < t" by (cases b) auto
  with SStr assms str_less_sep [of s t r q] show ?thesis
    by (simp add: comp_text_def above_separator_def list_all_iff SEPARATOR_def)
qed

lemma concat_term_less:
  "k < l \<Longrightarrow> list_all comp_ok k \<Longrightarrow> list_all comp_ok l \<Longrightarrow> list_all above_separator l \<Longrightarrow>
   concat (map term_text k) < concat (map term_text l)"
proof (induction k arbitrary: l)
  case Nil
  then have "l \<noteq> []" by auto
  from hd_term [OF this] show ?case by (cases "concat (map term_text l)") auto
next
  case (Cons a k)
  then obtain b l' where l: "l = b # l'" "a < b \<or> a = b \<and> k < l'" by (cases l) auto
  with Cons show ?case using comp_text_less [of a b "concat (map term_text k)"] by auto
qed

section \<open>Properties\<close>

text \<open>C31: decoding an encoded key gives the key back; the encoder accepts exactly the non-empty
  keys whose integers are within \<open>-49999 .. 49999\<close> and whose strings avoid the three reserved
  characters, and raises otherwise.\<close>

theorem string_codec_roundtrip:
  "(case str_encode k of Inl _ \<Rightarrow> \<not> (k \<noteq> [] \<and> list_all comp_ok k)
    | Inr e \<Rightarrow> k \<noteq> [] \<and> list_all comp_ok k \<and> str_decode e = Inr k)"
  using str_roundtrip [of k] str_encode_Inr [of k] by (cases "str_encode k") auto

text \<open>A prefix of the key tuple is a range of encoded strings: the keys under \<open>p\<close> are exactly
  those from its encoding up to its upper bound.\<close>

theorem string_codec_prefix_range:
  assumes "str_encode p = Inr lo" and "str_upper_bound_of_prefix p = Inr hi" and "str_encode k = Inr e"
  shows "(lo \<le> e \<and> e < hi) \<longleftrightarrow> prefix p k"
  using assms by (rule textual.prefix_range)

theorem string_codec_prefix_range_witness:
  "\<exists>lo hi e. str_encode [SStr [97]] = Inr lo \<and> str_upper_bound_of_prefix [SStr [97]] = Inr hi \<and>
     str_encode [SStr [97], SInt (- 7)] = Inr e \<and> lo \<le> e \<and> e < hi"
proof -
  obtain lo hi e where "str_encode [SStr [97]] = Inr lo"
    and "str_upper_bound_of_prefix [SStr [97]] = Inr hi" and "str_encode [SStr [97], SInt (- 7)] = Inr e"
    by (simp add: str_upper_bound_of_prefix_def rbind_eq_Inr str_encode_Inr comp_ok_def)
  from string_codec_prefix_range [OF this] this show ?thesis by auto
qed

text \<open>The encoded strings compare as the keys do when every character of their strings sorts
  above the separator; without that they need not: \<open>"a"\<close> is below \<open>"a-"\<close> and encoded above it.\<close>

theorem string_codec_order:
  assumes "str_encode k = Inr e" and "str_encode l = Inr f"
    and "list_all above_separator k" and "list_all above_separator l"
  shows "(e < f \<longleftrightarrow> k < l) \<and>
    [SStr (lit ''a'')] < [SStr (lit ''a-'')] \<and>
    (\<exists>x y. str_encode [SStr (lit ''a'')] = Inr x \<and> str_encode [SStr (lit ''a-'')] = Inr y \<and> y < x)"
proof -
  have "e < f \<longleftrightarrow> k < l"
    using assms concat_term_less [of k l] concat_term_less [of l k]
    by (auto simp: str_encode_Inr) (metis less_asym linorder_neqE)
  then show ?thesis by (auto simp: str_encode_Inr comp_ok_def comp_text_def lit_def)
qed

theorem string_codec_order_witness:
  "\<exists>e f. str_encode [SInt (- 2)] = Inr e \<and> str_encode [SInt 1, SStr [98]] = Inr f \<and> e < f"
proof -
  obtain e f where e: "str_encode [SInt (- 2)] = Inr e" "str_encode [SInt 1, SStr [98]] = Inr f"
    by (simp add: str_encode_Inr comp_ok_def)
  from string_codec_order [OF this] e show ?thesis
    by (simp add: above_separator_def SEPARATOR_def)
qed

end
