(* ===== verification/Fractional_Index.thy ===== *)
theory Fractional_Index
  imports Virtuals_Prelude
begin

text \<open>
  Order keys (\<open>_views/fractional_index.py\<close>): keys that sort between two given keys, for lists
  whose rows are inserted and moved without renumbering. A key is an integer part, whose first
  character encodes its length, and a fraction; both are base 62 text compared code point by code
  point. The lemmas treat the midpoint of two fractions, the next and previous integer part, one
  key between two, and runs of keys. Random digits come from an arbitrary stream of numbers, so
  the theorems hold for every outcome of \<open>secrets.choice\<close>.

  A count \<open>n\<close> of the plain \<open>generate_n_keys_between\<close> is a natural number (the source recurses
  without end on a negative one with two bounds); that of the suffixed one is an integer.
\<close>


section \<open>Digits\<close>

definition BASE_62_DIGITS :: pystr where
  "BASE_62_DIGITS = lit ''0123456789ABCDEFGHIJKLMNOPQRSTUVWXYZabcdefghijklmnopqrstuvwxyz''"

definition ZERO :: nat where "ZERO = BASE_62_DIGITS ! 0"
definition SMALLEST_INTEGER :: pystr where "SMALLEST_INTEGER = lit ''A'' @ replicate 26 ZERO"
definition INTEGER_ZERO :: pystr where "INTEGER_ZERO = lit ''a'' @ [ZERO]"
definition DEFAULT_SUFFIX_LENGTH :: int where "DEFAULT_SUFFIX_LENGTH = 4"

text \<open>\<open>BASE_62_DIGITS.index(c)\<close>.\<close>

definition digit_index :: "nat \<Rightarrow> nat res" where
  "digit_index c =
     (if c \<in> set BASE_62_DIGITS then Inr (length (takeWhile (\<lambda>d. d \<noteq> c) BASE_62_DIGITS))
      else Inl ValueError)"

section \<open>Between two fractions\<close>

definition ends_zero :: "pystr \<Rightarrow> bool" where
  "ends_zero s \<longleftrightarrow> s \<noteq> [] \<and> last s = ZERO"

text \<open>The length of the common prefix, \<open>a\<close> padded with zeros.\<close>

fun common_digits :: "pystr \<Rightarrow> pystr \<Rightarrow> nat" where
  "common_digits a [] = 0"
| "common_digits a (c # b) =
     (if (if a = [] then ZERO else hd a) = c then Suc (common_digits (tl a) b) else 0)"

lemma common_digits_le: "common_digits a b \<le> length b"
  by (induction a b rule: common_digits.induct) auto

function (sequential) midpoint :: "pystr \<Rightarrow> pystr option \<Rightarrow> pystr res" where
  "midpoint a b =
     (if (case b of None \<Rightarrow> False | Some b \<Rightarrow> a \<ge> b) then Inl ValueError
      else if ends_zero a \<or> (case b of None \<Rightarrow> False | Some b \<Rightarrow> ends_zero b) then Inl ValueError
      else
        let n = (case b of None \<Rightarrow> 0 | Some b \<Rightarrow> common_digits a b) in
        if n > 0 then
          rbind (midpoint (drop n a) (map_option (drop n) b)) (\<lambda>m. Inr (take n (the b) @ m))
        else
          rbind (if a = [] then Inr 0 else digit_index (a ! 0)) (\<lambda>digit_a.
          rbind (case b of None \<Rightarrow> Inr (length BASE_62_DIGITS) | Some b \<Rightarrow> digit_index (b ! 0)) (\<lambda>digit_b.
          if int digit_b - int digit_a > 1 then
            let mid = (digit_a + digit_b + 1) div 2 in Inr [BASE_62_DIGITS ! mid]
          else if (case b of None \<Rightarrow> False | Some b \<Rightarrow> length b > 1) then Inr (take 1 (the b))
          else rbind (midpoint (tl a) None) (\<lambda>m. Inr ((BASE_62_DIGITS ! digit_a) # m)))))"
  by pat_completeness auto
termination
proof (relation "measure (\<lambda>(a, b). length a + (case b of None \<Rightarrow> 0 | Some b \<Rightarrow> Suc (length b)))", goal_cases)
  case 1
  then show ?case by simp
next
  case (2 a b n)
  then show ?case using common_digits_le [of a "the b"] by (auto split: option.splits)
next
  case (3 a b n digit_a digit_b)
  then show ?case by (cases a) (auto simp: BASE_62_DIGITS_def lit_def split: option.splits if_splits)
qed

declare midpoint.simps [simp del]

section \<open>Integer parts\<close>

definition integer_length :: "nat \<Rightarrow> nat res" where
  "integer_length head =
     (if of_char (CHR ''a'') \<le> head \<and> head \<le> of_char (CHR ''z'') then Inr (head - of_char (CHR ''a'') + 2)
      else if of_char (CHR ''A'') \<le> head \<and> head \<le> of_char (CHR ''Z'') then Inr (of_char (CHR ''Z'') - head + 2)
      else Inl ValueError)"

definition integer_part :: "pystr \<Rightarrow> pystr res" where
  "integer_part key =
     (if key = [] then Inl IndexError
      else rbind (integer_length (hd key)) (\<lambda>len.
        if len > length key then Inl ValueError else Inr (take len key)))"

definition validate_integer :: "pystr \<Rightarrow> unit res" where
  "validate_integer integer =
     (if integer = [] then Inl IndexError
      else rbind (integer_length (hd integer)) (\<lambda>len.
        if length integer \<noteq> len then Inl ValueError else Inr ()))"

definition validate_order_key :: "pystr \<Rightarrow> unit res" where
  "validate_order_key key =
     (if key = [] then Inl ValueError
      else if key = SMALLEST_INTEGER then Inl ValueError
      else rbind (integer_part key) (\<lambda>integer.
        let fraction = drop (length integer) key in
        if ends_zero fraction then Inl ValueError
        else if list_ex (\<lambda>ch. ch \<notin> set BASE_62_DIGITS) (tl key) then Inl ValueError
        else Inr ()))"

text \<open>The carry loop; its second argument is \<open>i + 1\<close>.\<close>

fun carry_loop :: "pystr \<Rightarrow> nat \<Rightarrow> (pystr \<times> bool) res" where
  "carry_loop digs 0 = Inr (digs, True)"
| "carry_loop digs (Suc i) =
     rbind (digit_index (digs ! i)) (\<lambda>d.
       if d + 1 = length BASE_62_DIGITS then carry_loop (digs[i := ZERO]) i
       else Inr (digs[i := BASE_62_DIGITS ! (d + 1)], False))"

definition increment_integer :: "pystr \<Rightarrow> pystr option res" where
  "increment_integer integer =
     rbind (validate_integer integer) (\<lambda>_.
     rbind (carry_loop (tl integer) (length (tl integer))) (\<lambda>(digs, carry).
       let head = hd integer in
       if \<not> carry then Inr (Some (head # digs))
       else if head = of_char (CHR ''Z'') then Inr (Some (lit ''a'' @ [ZERO]))
       else if head = of_char (CHR ''z'') then Inr None
       else
         let h = head + 1 in
         Inr (Some (h # (if h > of_char (CHR ''a'') then digs @ [ZERO] else butlast digs)))))"

fun borrow_loop :: "pystr \<Rightarrow> nat \<Rightarrow> (pystr \<times> bool) res" where
  "borrow_loop digs 0 = Inr (digs, True)"
| "borrow_loop digs (Suc i) =
     rbind (digit_index (digs ! i)) (\<lambda>d.
       if d = 0 then borrow_loop (digs[i := last BASE_62_DIGITS]) i
       else Inr (digs[i := BASE_62_DIGITS ! (d - 1)], False))"

definition decrement_integer :: "pystr \<Rightarrow> pystr option res" where
  "decrement_integer integer =
     rbind (validate_integer integer) (\<lambda>_.
     rbind (borrow_loop (tl integer) (length (tl integer))) (\<lambda>(digs, borrow).
       let head = hd integer in
       if \<not> borrow then Inr (Some (head # digs))
       else if head = of_char (CHR ''a'') then Inr (Some (lit ''Z'' @ [last BASE_62_DIGITS]))
       else if head = of_char (CHR ''A'') then Inr None
       else
         let h = head - 1 in
         Inr (Some (h # (if h < of_char (CHR ''Z'') then digs @ [last BASE_62_DIGITS] else butlast digs)))))"

section \<open>Keys\<close>

definition validate_bound :: "pystr option \<Rightarrow> unit res" where
  "validate_bound a = (case a of None \<Rightarrow> Inr () | Some a \<Rightarrow> validate_order_key a)"

definition generate_key_between :: "pystr option \<Rightarrow> pystr option \<Rightarrow> pystr res" where
  "generate_key_between a b =
     rbind (validate_bound a) (\<lambda>_. rbind (validate_bound b) (\<lambda>_.
       case (a, b) of
         (None, None) \<Rightarrow> Inr INTEGER_ZERO
       | (None, Some b) \<Rightarrow>
           rbind (integer_part b) (\<lambda>ib.
             let fb = drop (length ib) b in
             if ib = SMALLEST_INTEGER then rbind (midpoint [] (Some fb)) (\<lambda>m. Inr (ib @ m))
             else if ib < b then Inr ib
             else rbind (decrement_integer ib) (\<lambda>res.
               case res of None \<Rightarrow> Inl ValueError | Some res \<Rightarrow> Inr res))
       | (Some a, None) \<Rightarrow>
           rbind (integer_part a) (\<lambda>ia.
             let fa = drop (length ia) a in
             rbind (increment_integer ia) (\<lambda>i.
               case i of None \<Rightarrow> rbind (midpoint fa None) (\<lambda>m. Inr (ia @ m)) | Some i \<Rightarrow> Inr i))
       | (Some a, Some b) \<Rightarrow>
           if a \<ge> b then Inl ValueError
           else
             rbind (integer_part a) (\<lambda>ia.
             rbind (integer_part b) (\<lambda>ib.
               let fa = drop (length ia) a; fb = drop (length ib) b in
               if ia = ib then rbind (midpoint fa (Some fb)) (\<lambda>m. Inr (ia @ m))
               else rbind (increment_integer ia) (\<lambda>i.
                 case i of None \<Rightarrow> Inl ValueError
                 | Some i \<Rightarrow> if i < b then Inr i else rbind (midpoint fa None) (\<lambda>m. Inr (ia @ m)))))))"

text \<open>Open ends chain single steps; a bounded gap splits at its midpoint.\<close>

fun chain_up :: "pystr \<Rightarrow> nat \<Rightarrow> pystr list res" where
  "chain_up k 0 = Inr [k]"
| "chain_up k (Suc n) =
     rbind (generate_key_between (Some k) None) (\<lambda>k'. rbind (chain_up k' n) (\<lambda>ks. Inr (k # ks)))"

fun chain_down :: "pystr \<Rightarrow> nat \<Rightarrow> pystr list res" where
  "chain_down k 0 = Inr [k]"
| "chain_down k (Suc n) =
     rbind (generate_key_between None (Some k)) (\<lambda>k'. rbind (chain_down k' n) (\<lambda>ks. Inr (k # ks)))"

fun generate_n_keys_between :: "pystr option \<Rightarrow> pystr option \<Rightarrow> nat \<Rightarrow> pystr list res" where
  "generate_n_keys_between a b n =
     (if n = 0 then Inr []
      else if n = 1 then rbind (generate_key_between a b) (\<lambda>k. Inr [k])
      else if b = None then rbind (generate_key_between a None) (\<lambda>k. chain_up k (n - 1))
      else if a = None then
        rbind (rbind (generate_key_between None b) (\<lambda>k. chain_down k (n - 1))) (\<lambda>out. Inr (rev out))
      else
        let mid = n div 2 in
        rbind (generate_key_between a b) (\<lambda>c.
        rbind (generate_n_keys_between a (Some c) mid) (\<lambda>l.
        rbind (generate_n_keys_between (Some c) b (n - mid - 1)) (\<lambda>r. Inr (l @ [c] @ r)))))"

declare generate_n_keys_between.simps [simp del]

section \<open>Suffixed keys\<close>

text \<open>
  \<open>secrets.choice(xs)\<close> may give any element of \<open>xs\<close>: here \<open>random\<close> is an arbitrary stream of
  numbers, and a call reads the next one, counted by \<open>t\<close>.
\<close>

definition choice :: "(nat \<Rightarrow> nat) \<Rightarrow> nat \<Rightarrow> 'a list \<Rightarrow> 'a" where
  "choice random t xs = xs ! (random t mod length xs)"

definition random_suffix :: "(nat \<Rightarrow> nat) \<Rightarrow> int \<Rightarrow> nat \<Rightarrow> (pystr \<times> nat) res" where
  "random_suffix random len t =
     (if len < 1 then Inl ValueError
      else
        let m = nat (len - 1);
            body = map (\<lambda>i. choice random (t + i) BASE_62_DIGITS) [0..<m]
        in Inr (body @ [choice random (t + m) (drop 1 BASE_62_DIGITS)], t + m + 1))"

fun step_down :: "nat \<Rightarrow> pystr option \<Rightarrow> pystr option \<Rightarrow> pystr \<Rightarrow> pystr res option" where
  "step_down 0 a b k = None"
| "step_down (Suc fuel) a b k =
     (if (case b of None \<Rightarrow> False | Some b \<Rightarrow> take (length k) b = k) then
        (case generate_key_between a (Some k) of
           Inl e \<Rightarrow> Some (Inl e) | Inr k \<Rightarrow> step_down fuel a b k)
      else Some (Inr k))"

text \<open>
  The loop runs while the key is a prefix of \<open>b\<close>, with a shorter prefix each time, so it takes at
  most \<open>length b\<close> rounds; \<open>None\<close> below would mean that it takes more.
\<close>

definition step_fuel :: "pystr option \<Rightarrow> nat" where
  "step_fuel b = (case b of None \<Rightarrow> 1 | Some b \<Rightarrow> length b + 1)"

definition generate_suffixed_key_between ::
  "(nat \<Rightarrow> nat) \<Rightarrow> int \<Rightarrow> pystr option \<Rightarrow> pystr option \<Rightarrow> nat \<Rightarrow> (pystr \<times> nat) res option" where
  "generate_suffixed_key_between random suffix_length a b t =
     (case generate_key_between a b of
        Inl e \<Rightarrow> Some (Inl e)
      | Inr k \<Rightarrow> map_option (\<lambda>r. rbind r (\<lambda>k.
          rbind (random_suffix random suffix_length t) (\<lambda>(s, t). Inr (k @ s, t)))) (step_down (step_fuel b) a b k))"

definition obind :: "'a res option \<Rightarrow> ('a \<Rightarrow> 'b res option) \<Rightarrow> 'b res option" where
  "obind r f = (case r of None \<Rightarrow> None | Some (Inl e) \<Rightarrow> Some (Inl e) | Some (Inr v) \<Rightarrow> f v)"

lemma obind_cong [fundef_cong]:
  "r = r' \<Longrightarrow> (\<And>v. r' = Some (Inr v) \<Longrightarrow> f v = f' v) \<Longrightarrow> obind r f = obind r' f'"
  by (auto simp: obind_def split: option.splits sum.splits)

fun suffixed_up :: "(nat \<Rightarrow> nat) \<Rightarrow> int \<Rightarrow> pystr \<Rightarrow> nat \<Rightarrow> nat \<Rightarrow> (pystr list \<times> nat) res option" where
  "suffixed_up random len k 0 t = Some (Inr ([k], t))"
| "suffixed_up random len k (Suc n) t =
     obind (generate_suffixed_key_between random len (Some k) None t) (\<lambda>(k', t).
     obind (suffixed_up random len k' n t) (\<lambda>(ks, t). Some (Inr (k # ks, t))))"

fun suffixed_down :: "(nat \<Rightarrow> nat) \<Rightarrow> int \<Rightarrow> pystr \<Rightarrow> nat \<Rightarrow> nat \<Rightarrow> (pystr list \<times> nat) res option" where
  "suffixed_down random len k 0 t = Some (Inr ([k], t))"
| "suffixed_down random len k (Suc n) t =
     obind (generate_suffixed_key_between random len None (Some k) t) (\<lambda>(k', t).
     obind (suffixed_down random len k' n t) (\<lambda>(ks, t). Some (Inr (k # ks, t))))"

function generate_n_suffixed_keys_between ::
  "(nat \<Rightarrow> nat) \<Rightarrow> int \<Rightarrow> pystr option \<Rightarrow> pystr option \<Rightarrow> int \<Rightarrow> nat \<Rightarrow> (pystr list \<times> nat) res option" where
  "generate_n_suffixed_keys_between random len a b n t =
     (if n \<le> 0 then Some (Inr ([], t))
      else if n = 1 then
        obind (generate_suffixed_key_between random len a b t) (\<lambda>(k, t). Some (Inr ([k], t)))
      else if b = None then
        obind (generate_suffixed_key_between random len a None t) (\<lambda>(k, t). suffixed_up random len k (nat (n - 1)) t)
      else if a = None then
        obind (generate_suffixed_key_between random len None b t) (\<lambda>(k, t).
        obind (suffixed_down random len k (nat (n - 1)) t) (\<lambda>(out, t). Some (Inr (rev out, t))))
      else
        let mid = n div 2 in
        obind (generate_suffixed_key_between random len a b t) (\<lambda>(c, t).
        obind (generate_n_suffixed_keys_between random len a (Some c) mid t) (\<lambda>(l, t).
        obind (generate_n_suffixed_keys_between random len (Some c) b (n - mid - 1) t) (\<lambda>(r, t).
        Some (Inr (l @ [c] @ r, t))))))"
  by pat_completeness auto
termination
  by (relation "measure (\<lambda>(_, _, _, _, n, _). nat n)") auto

declare generate_n_suffixed_keys_between.simps [simp del]

section \<open>Facts about digits\<close>

lemma base_length [simp]: "length BASE_62_DIGITS = 62"
  by (simp add: BASE_62_DIGITS_def lit_def)

lemma base_sorted: "sorted_wrt (<) BASE_62_DIGITS"
  by (simp add: BASE_62_DIGITS_def lit_def)

lemma base_less: "i < j \<Longrightarrow> j < 62 \<Longrightarrow> BASE_62_DIGITS ! i < BASE_62_DIGITS ! j"
  using base_sorted by (simp add: sorted_wrt_iff_nth_less)

lemma base_distinct: "distinct BASE_62_DIGITS"
  using base_sorted strict_sorted_iff by blast

lemma base_less_iff: "i < 62 \<Longrightarrow> j < 62 \<Longrightarrow> BASE_62_DIGITS ! i < BASE_62_DIGITS ! j \<longleftrightarrow> i < j"
  using base_less [of i j] base_less [of j i] by (cases i j rule: linorder_cases) auto

lemma takeWhile_nth: "distinct xs \<Longrightarrow> i < length xs \<Longrightarrow> length (takeWhile (\<lambda>d. d \<noteq> xs ! i) xs) = i"
proof (induction xs arbitrary: i)
  case (Cons x xs)
  then show ?case by (cases i) auto
qed simp

lemma digit_index_Inr: "digit_index c = Inr i \<longleftrightarrow> i < 62 \<and> BASE_62_DIGITS ! i = c"
proof -
  have "digit_index (BASE_62_DIGITS ! j) = Inr j" if "j < 62" for j
    using that by (simp add: digit_index_def takeWhile_nth base_distinct)
  note pos = this
  show ?thesis
  proof
    assume i: "digit_index c = Inr i"
    then have "c \<in> set BASE_62_DIGITS" by (simp add: digit_index_def split: if_splits)
    then obtain j where "j < 62" "BASE_62_DIGITS ! j = c" by (auto simp: in_set_conv_nth)
    with pos [of j] i show "i < 62 \<and> BASE_62_DIGITS ! i = c" by simp
  next
    assume "i < 62 \<and> BASE_62_DIGITS ! i = c"
    with pos [of i] show "digit_index c = Inr i" by auto
  qed
qed

lemma digit_index_ex: "c \<in> set BASE_62_DIGITS \<Longrightarrow> \<exists>i. digit_index c = Inr i \<and> i < 62 \<and> BASE_62_DIGITS ! i = c"
  by (auto simp: digit_index_Inr in_set_conv_nth)

lemma base_nth_in [simp]: "i < 62 \<Longrightarrow> BASE_62_DIGITS ! i \<in> set BASE_62_DIGITS"
  by (simp add: nth_mem)

lemma zero_in [simp]: "ZERO \<in> set BASE_62_DIGITS"
  by (simp add: ZERO_def)

lemma base_zero_iff: "i < 62 \<Longrightarrow> BASE_62_DIGITS ! i = ZERO \<longleftrightarrow> i = 0"
  using base_distinct by (simp add: ZERO_def nth_eq_iff_index_eq)

lemma zero_le: "c \<in> set BASE_62_DIGITS \<Longrightarrow> ZERO \<le> c"
  using base_less [of 0] by (auto simp: in_set_conv_nth ZERO_def) (metis gr0I less_imp_le order_refl)

lemma last_base: "last BASE_62_DIGITS = BASE_62_DIGITS ! 61"
proof -
  have "BASE_62_DIGITS \<noteq> []" using base_length by (metis list.size(3) zero_neq_numeral)
  then show ?thesis by (simp add: last_conv_nth)
qed

lemma le_last: "c \<in> set BASE_62_DIGITS \<Longrightarrow> c \<le> BASE_62_DIGITS ! 61"
proof -
  assume "c \<in> set BASE_62_DIGITS"
  then obtain i where "i < 62" "c = BASE_62_DIGITS ! i" by (auto simp: in_set_conv_nth)
  then show ?thesis using base_less [of i 61] by (cases "i = 61") auto
qed

section \<open>The midpoint of two fractions\<close>

definition frac_ok :: "pystr \<Rightarrow> bool" where
  "frac_ok s \<longleftrightarrow> set s \<subseteq> set BASE_62_DIGITS \<and> \<not> ends_zero s"

lemma ends_zero_drop: "n < length s \<Longrightarrow> ends_zero (drop n s) = ends_zero s"
  by (auto simp: ends_zero_def)

lemma frac_ok_drop: "frac_ok s \<Longrightarrow> frac_ok (drop n s)"
  using ends_zero_drop [of n s] set_drop_subset [of n s]
  by (cases "n < length s") (auto simp: frac_ok_def ends_zero_def)

lemma common_digits_take:
  "n \<le> common_digits a b \<Longrightarrow> take n b = take n a @ replicate (n - length a) ZERO"
proof (induction a b arbitrary: n rule: common_digits.induct)
  case (2 a c b)
  show ?case
  proof (cases n)
    case (Suc m)
    with 2 have "(if a = [] then ZERO else hd a) = c" "m \<le> common_digits (tl a) b" by (auto split: if_splits)
    with 2 Suc show ?thesis by (cases a) auto
  qed simp
qed simp

lemma common_digits_zero:
  "common_digits a (c # b) = 0 \<longleftrightarrow> (if a = [] then ZERO else hd a) \<noteq> c"
  by simp

lemma rest_less:
  fixes a b :: pystr
  assumes ab: "a < b" and fb: "frac_ok b" and n: "n \<le> common_digits a b"
  shows "drop n a < drop n b" and "frac_ok m \<Longrightarrow> m \<noteq> [] \<Longrightarrow> drop n a < m \<Longrightarrow> a < take n b @ m"
proof -
  note t = common_digits_take [OF n]
  have nb: "n \<le> length b" using n common_digits_le [of a b] by simp
  have b: "b = (take n a @ replicate (n - length a) ZERO) @ drop n b" using t by (metis append_take_drop_id)
  show "drop n a < drop n b"
  proof (cases "n \<le> length a")
    case True
    then have "b = take n a @ drop n b" using b by simp
    then have "take n a @ drop n a < take n a @ drop n b" using ab by simp
    then show ?thesis by (simp only: append_less_append)
  next
    case False
    have "drop n b \<noteq> []"
    proof
      assume "drop n b = []"
      with b False have "b = a @ replicate (n - length a) ZERO" by simp
      with False have "ends_zero b" by (auto simp: ends_zero_def)
      with fb show False by (simp add: frac_ok_def)
    qed
    with False show ?thesis by (cases "drop n b") auto
  qed
  show "a < take n b @ m" if "frac_ok m" "m \<noteq> []" "drop n a < m"
  proof (cases "n \<le> length a")
    case True
    then have "take n b = take n a" using t by simp
    moreover have "take n a @ drop n a < take n a @ m" using that(3) by (simp only: append_less_append)
    ultimately show ?thesis by simp
  next
    case False
    then have "take n b @ m = a @ (replicate (n - length a) ZERO @ m)" using t by simp
    then show ?thesis using that(2) by simp
  qed
qed

lemma frac_single: "0 < i \<Longrightarrow> i < 62 \<Longrightarrow> frac_ok [BASE_62_DIGITS ! i]"
  by (simp add: frac_ok_def ends_zero_def base_zero_iff)

lemma frac_Cons: "i < 62 \<Longrightarrow> frac_ok m \<Longrightarrow> m \<noteq> [] \<Longrightarrow> frac_ok ((BASE_62_DIGITS ! i) # m)"
  by (simp add: frac_ok_def ends_zero_def)

lemma frac_tl: "frac_ok a \<Longrightarrow> frac_ok (tl a)"
  using frac_ok_drop [of a 1] by (simp add: drop_Suc)

lemma midpoint_between:
  assumes "frac_ok a" and "\<And>b'. b = Some b' \<Longrightarrow> frac_ok b' \<and> a < b'"
  shows "\<exists>m. midpoint a b = Inr m \<and> frac_ok m \<and> m \<noteq> [] \<and> a < m \<and> (\<forall>b'. b = Some b' \<longrightarrow> m < b')"
  using assms
proof (induction a b rule: midpoint.induct)
  case (1 a b)
  define n where "n = (case b of None \<Rightarrow> 0 | Some b \<Rightarrow> common_digits a b)"
  have guards: "\<not> (case b of None \<Rightarrow> False | Some b \<Rightarrow> a \<ge> b)"
    "\<not> (ends_zero a \<or> (case b of None \<Rightarrow> False | Some b \<Rightarrow> ends_zero b))"
    using "1.prems" by (auto simp: frac_ok_def split: option.splits)
  show ?case
  proof (cases "n > 0")
    case True
    then obtain b' where b: "b = Some b'" by (auto simp: n_def split: option.splits)
    then have n: "n = common_digits a b'" by (simp add: n_def)
    have ab: "a < b'" "frac_ok b'" using "1.prems"(2) [OF b] by simp_all
    note R = rest_less [OF ab, of n, unfolded n, OF order_refl, folded n]
    have "\<exists>m. midpoint (drop n a) (map_option (drop n) b) = Inr m \<and> frac_ok m \<and> m \<noteq> [] \<and> drop n a < m \<and>
        (\<forall>b''. map_option (drop n) b = Some b'' \<longrightarrow> m < b'')"
      using "1.prems" R(1) b frac_ok_drop ab(2)
      by (intro "1.IH"(1) [OF guards n_def True]) (auto intro: frac_ok_drop)
    then obtain m where m: "midpoint (drop n a) (Some (drop n b')) = Inr m" "frac_ok m" "m \<noteq> []"
      "drop n a < m" "m < drop n b'" by (auto simp: b)
    have "midpoint a b = Inr (take n b' @ m)"
      unfolding midpoint.simps [of a b] n_def [symmetric] using guards True m(1) b by simp
    moreover have "frac_ok (take n b' @ m)"
      using m(2,3) ab(2) set_take_subset [of n b'] by (auto simp: frac_ok_def ends_zero_def)
    moreover have "take n b' @ m < b'"
      using m(5) append_less_append [of "take n b'" m "drop n b'"] by simp
    ultimately show ?thesis using R(2) [OF m(2-4)] m(3) b by simp
  next
    case False
    then have n0: "n = 0" by simp
    obtain da where da: "(if a = [] then Inr 0 else digit_index (a ! 0)) = Inr da" "da < 62"
        "a \<noteq> [] \<Longrightarrow> BASE_62_DIGITS ! da = hd a" "a = [] \<Longrightarrow> da = 0"
      using "1.prems"(1) digit_index_ex [of "hd a"]
      by (cases a) (auto simp: frac_ok_def)
    have hd_a: "(if a = [] then ZERO else hd a) = BASE_62_DIGITS ! da" using da(3,4) by (auto simp: ZERO_def)
    obtain db where db: "(case b of None \<Rightarrow> Inr (length BASE_62_DIGITS) | Some b \<Rightarrow> digit_index (b ! 0)) = Inr db"
        "b = None \<Longrightarrow> db = 62" "\<And>b'. b = Some b' \<Longrightarrow> b' \<noteq> [] \<and> db < 62 \<and> BASE_62_DIGITS ! db = hd b' \<and> da < db"
    proof (cases b)
      case None
      with that show ?thesis by simp
    next
      case (Some b')
      with "1.prems"(2) have b': "a < b'" "frac_ok b'" by auto
      then obtain c b'' where c: "b' = c # b''" by (cases b') auto
      then obtain i where i: "digit_index c = Inr i" "i < 62" "BASE_62_DIGITS ! i = c"
        using b'(2) digit_index_ex [of c] by (auto simp: frac_ok_def)
      have "BASE_62_DIGITS ! da \<noteq> c" using n0 hd_a by (simp add: n_def Some c split: if_splits)
      moreover have "BASE_62_DIGITS ! da \<le> c"
        using b' c hd_a zero_le [of c] by (cases a) (auto simp: frac_ok_def)
      ultimately have "da < i" using i da(2) base_less_iff [of da i] by auto
      with that [of i] i Some c show ?thesis by auto
    qed
    have dd: "da < db" using db(2,3) da(2) by (cases b) auto
    have a_less: "a < (BASE_62_DIGITS ! j) # s" if "da < j" "j < 62" for j s
      using that da base_less [of da j] by (cases a) auto
    have less_b: "(BASE_62_DIGITS ! j) # s < b'" if "b = Some b'" "j < db" for j s b'
      using db(3) [OF that(1)] that(2) base_less [of j db] by (cases b') auto
    show ?thesis
    proof (cases "int db - int da > 1")
      case True
      let ?mid = "(da + db + 1) div 2"
      have mid: "da < ?mid" "?mid < db" using True by linarith+
      have "?mid < 62" using mid db(2,3) by (cases b) auto
      have "midpoint a b = Inr [BASE_62_DIGITS ! ?mid]"
        unfolding midpoint.simps [of a b] n_def [symmetric] da(1) db(1) using guards True n0 by simp
      with mid \<open>?mid < 62\<close> a_less less_b frac_single [of ?mid] show ?thesis by auto
    next
      case F: False
      then have db1: "db = da + 1" using dd by linarith
      show ?thesis
      proof (cases "case b of None \<Rightarrow> False | Some b \<Rightarrow> length b > 1")
        case True
        then obtain b' where b: "b = Some b'" "length b' > 1" by (auto split: option.splits)
        then obtain c d b'' where c: "b' = c # d # b''" by (cases b'; cases "tl b'") auto
        have "midpoint a b = Inr [c]"
          unfolding midpoint.simps [of a b] n_def [symmetric] da(1) db(1) using guards F True n0 b c by simp
        moreover have "c = BASE_62_DIGITS ! db" "db < 62" using db(3) [OF b(1)] c by auto
        ultimately show ?thesis using a_less [of db "[]"] frac_single [of db] dd b c by auto
      next
        case F2: False
        have "\<exists>m. midpoint (tl a) None = Inr m \<and> frac_ok m \<and> m \<noteq> [] \<and> tl a < m \<and> (\<forall>b'. None = Some b' \<longrightarrow> m < b')"
          using "1.prems"(1) by (intro "1.IH"(2) [OF guards n_def False da(1) db(1) F F2]) (auto intro: frac_tl)
        then obtain m where m: "midpoint (tl a) None = Inr m" "frac_ok m" "m \<noteq> []" "tl a < m" by auto
        have "midpoint a b = Inr ((BASE_62_DIGITS ! da) # m)"
          unfolding midpoint.simps [of a b] n_def [symmetric] da(1) db(1) using guards F F2 m(1) n0 by simp
        moreover have "a < (BASE_62_DIGITS ! da) # m" using da(3) m(4) by (cases a) auto
        ultimately show ?thesis using frac_Cons [OF da(2) m(2,3)] less_b dd by auto
      qed
    qed
  qed
qed

section \<open>Integer parts\<close>

definition int_ok :: "pystr \<Rightarrow> bool" where
  "int_ok s \<longleftrightarrow> s \<noteq> [] \<and> integer_length (hd s) = Inr (length s) \<and> set (tl s) \<subseteq> set BASE_62_DIGITS"

lemma integer_length_Inr:
  "integer_length h = Inr n \<longleftrightarrow> (97 \<le> h \<and> h \<le> 122 \<and> n = h - 95 \<or> 65 \<le> h \<and> h \<le> 90 \<and> n = 92 - h)"
  by (auto simp: integer_length_def)

lemma int_ok_validate: "int_ok s \<Longrightarrow> validate_integer s = Inr ()"
  by (simp add: int_ok_def validate_integer_def)

lemma int_ok_length: "int_ok s \<Longrightarrow> 2 \<le> length s"
  by (auto simp: int_ok_def integer_length_Inr)

lemma int_ok_prefix: "int_ok s \<Longrightarrow> int_ok t \<Longrightarrow> prefix s t \<Longrightarrow> s = t"
proof -
  assume a: "int_ok s" "int_ok t" "prefix s t"
  then have "hd s = hd t" by (cases s) (auto simp: int_ok_def prefix_def)
  then have "length s = length t" using a by (simp add: int_ok_def)
  with a(3) show "s = t" by (auto simp: prefix_def)
qed

lemma int_ok_part: "int_ok s \<Longrightarrow> integer_part (s @ f) = Inr s"
  by (cases s) (auto simp: int_ok_def integer_part_def)

lemma int_less_append: "int_ok s \<Longrightarrow> int_ok t \<Longrightarrow> s < t \<Longrightarrow> s @ f < t @ g"
  using int_ok_prefix by (intro less_append_mono) auto

lemma same_length_less: "length x = length y \<Longrightarrow> x < y \<Longrightarrow> x @ s < y @ t" for x y :: "'a::linorder list"
proof (rule less_append_mono)
  assume "length x = length y" "x < y"
  then show "\<not> prefix x y" by (auto simp: prefix_def)
qed

lemma carry_loop_spec:
  "set digs \<subseteq> set BASE_62_DIGITS \<Longrightarrow> i \<le> length digs \<Longrightarrow>
   \<exists>d' c. carry_loop digs i = Inr (d', c) \<and> length d' = length digs \<and> set d' \<subseteq> set BASE_62_DIGITS \<and>
     drop i d' = drop i digs \<and>
     (c \<longrightarrow> take i d' = replicate i ZERO \<and> take i digs = replicate i (BASE_62_DIGITS ! 61)) \<and>
     (\<not> c \<longrightarrow> take i digs < take i d')"
proof (induction i arbitrary: digs)
  case 0
  then show ?case by auto
next
  case (Suc i)
  then have i: "i < length digs" by simp
  then have "digs ! i \<in> set BASE_62_DIGITS" using Suc.prems(1) nth_mem by blast
  then obtain d where d: "digit_index (digs ! i) = Inr d" "d < 62" "BASE_62_DIGITS ! d = digs ! i"
    using digit_index_ex by blast
  have tk: "take (Suc i) xs = take i xs @ [xs ! i]" if "i < length xs" for xs :: pystr
    using that by (rule take_Suc_conv_app_nth)
  show ?case
  proof (cases "d + 1 = 62")
    case False
    let ?d = "digs[i := BASE_62_DIGITS ! (d + 1)]"
    have "set ?d \<subseteq> set BASE_62_DIGITS" using Suc.prems(1) d(2) False by (intro set_update_subsetI) simp_all
    moreover have "take (Suc i) digs < take (Suc i) ?d"
      using i d False base_less [of d "d + 1"] by (simp add: tk)
    ultimately show ?thesis using d False i by (intro exI [of _ ?d] exI [of _ False]) simp
  next
    case True
    let ?d = "digs[i := ZERO]"
    have s: "set ?d \<subseteq> set BASE_62_DIGITS" using Suc.prems(1) by (intro set_update_subsetI) simp_all
    from Suc.IH [OF this] i obtain d' c where
      IH: "carry_loop ?d i = Inr (d', c)" "length d' = length digs" "set d' \<subseteq> set BASE_62_DIGITS"
        "drop i d' = drop i ?d"
        "c \<Longrightarrow> take i d' = replicate i ZERO \<and> take i ?d = replicate i (BASE_62_DIGITS ! 61)"
        "\<not> c \<Longrightarrow> take i ?d < take i d'" by auto
    have n: "d' ! i = ZERO" "drop (Suc i) d' = drop (Suc i) digs"
      using IH(2,4) i by (metis Cons_nth_drop_Suc length_list_update list.inject nth_list_update_eq drop_update_cancel lessI)+
    have "d = 61" using True by simp
    then have "take (Suc i) digs = replicate (Suc i) (BASE_62_DIGITS ! 61)" if c
      using IH(5) [OF that] i d(3) by (simp add: tk replicate_append_same)
    moreover have "take (Suc i) d' = replicate (Suc i) ZERO" if c
      using IH(5) [OF that] i n(1) IH(2) by (simp add: tk replicate_append_same)
    moreover have "take (Suc i) digs < take (Suc i) d'" if "\<not> c"
    proof -
      have "take i digs < take i d'" using IH(6) [OF that] by simp
      then show ?thesis using i IH(2) by (simp add: tk same_length_less)
    qed
    ultimately show ?thesis using d(1) True IH(1-3) n(2)
      by (intro exI [of _ d'] exI [of _ c]) simp
  qed
qed

lemma borrow_loop_spec:
  "set digs \<subseteq> set BASE_62_DIGITS \<Longrightarrow> i \<le> length digs \<Longrightarrow>
   \<exists>d' c. borrow_loop digs i = Inr (d', c) \<and> length d' = length digs \<and> set d' \<subseteq> set BASE_62_DIGITS \<and>
     drop i d' = drop i digs \<and>
     (c \<longrightarrow> take i digs = replicate i ZERO) \<and> (\<not> c \<longrightarrow> take i d' < take i digs)"
proof (induction i arbitrary: digs)
  case 0
  then show ?case by auto
next
  case (Suc i)
  then have i: "i < length digs" by simp
  then have "digs ! i \<in> set BASE_62_DIGITS" using Suc.prems(1) nth_mem by blast
  then obtain d where d: "digit_index (digs ! i) = Inr d" "d < 62" "BASE_62_DIGITS ! d = digs ! i"
    using digit_index_ex by blast
  have tk: "take (Suc i) xs = take i xs @ [xs ! i]" if "i < length xs" for xs :: pystr
    using that by (rule take_Suc_conv_app_nth)
  show ?case
  proof (cases "d = 0")
    case False
    let ?d = "digs[i := BASE_62_DIGITS ! (d - 1)]"
    have "set ?d \<subseteq> set BASE_62_DIGITS" using Suc.prems(1) d(2) False by (intro set_update_subsetI) simp_all
    moreover have "take (Suc i) ?d < take (Suc i) digs"
      using i d False base_less [of "d - 1" d] by (simp add: tk)
    ultimately show ?thesis using d False i by (intro exI [of _ ?d] exI [of _ False]) simp
  next
    case True
    let ?d = "digs[i := last BASE_62_DIGITS]"
    have s: "set ?d \<subseteq> set BASE_62_DIGITS" using Suc.prems(1) by (intro set_update_subsetI) (simp_all add: last_base)
    from Suc.IH [OF this] i obtain d' c where
      IH: "borrow_loop ?d i = Inr (d', c)" "length d' = length digs" "set d' \<subseteq> set BASE_62_DIGITS"
        "drop i d' = drop i ?d" "c \<Longrightarrow> take i ?d = replicate i ZERO" "\<not> c \<Longrightarrow> take i d' < take i ?d" by auto
    have n: "drop (Suc i) d' = drop (Suc i) digs"
      using IH(2,4) i by (metis Cons_nth_drop_Suc length_list_update list.inject drop_update_cancel lessI)
    have "take (Suc i) digs = replicate (Suc i) ZERO" if c
      using IH(5) [OF that] i d(3) True by (simp add: tk replicate_append_same ZERO_def)
    moreover have "take (Suc i) d' < take (Suc i) digs" if "\<not> c"
    proof -
      have "take i d' < take i digs" using IH(6) [OF that] by simp
      then show ?thesis using i IH(2) by (simp add: tk same_length_less)
    qed
    ultimately show ?thesis using d(1) True IH(1-3) n
      by (intro exI [of _ d'] exI [of _ c]) simp
  qed
qed

lemma set_butlast: "set (butlast xs) \<subseteq> set xs"
  by (auto dest: in_set_butlastD)

lemma increment_spec:
  assumes "int_ok s"
  shows "\<exists>r. increment_integer s = Inr r \<and> (case r of
     None \<Rightarrow> hd s = 122 \<and> tl s = replicate 26 (BASE_62_DIGITS ! 61)
   | Some t \<Rightarrow> int_ok t \<and> s < t)"
proof -
  obtain h digs where s: "s = h # digs" using assms by (cases s) (auto simp: int_ok_def)
  have hl: "97 \<le> h \<and> h \<le> 122 \<and> length digs = h - 96 \<or> 65 \<le> h \<and> h \<le> 90 \<and> length digs = 91 - h"
    and ds: "set digs \<subseteq> set BASE_62_DIGITS"
    using assms by (auto simp: int_ok_def s integer_length_Inr)
  from carry_loop_spec [OF ds order_refl] obtain d' c where
    L: "carry_loop digs (length digs) = Inr (d', c)" "length d' = length digs" "set d' \<subseteq> set BASE_62_DIGITS"
      "c \<Longrightarrow> digs = replicate (length digs) (BASE_62_DIGITS ! 61)" "\<not> c \<Longrightarrow> digs < d'" by auto
  have e: "increment_integer s = (if \<not> c then Inr (Some (h # d'))
      else if h = 90 then Inr (Some [97, ZERO]) else if h = 122 then Inr None
      else Inr (Some ((h + 1) # (if h + 1 > 97 then d' @ [ZERO] else butlast d'))))"
    using int_ok_validate [OF assms] L(1) by (simp add: increment_integer_def s Let_def lit_def)
  consider "\<not> c" | "c" "h = 90" | "c" "h = 122" | "c" "h \<noteq> 90" "h \<noteq> 122" by blast
  then show ?thesis
  proof cases
    case 1
    then show ?thesis using e L hl by (auto simp: int_ok_def s integer_length_Inr)
  next
    case 2
    then show ?thesis using e by (simp add: int_ok_def s integer_length_Inr)
  next
    case 3
    then have "digs = replicate 26 (BASE_62_DIGITS ! 61)" using L(4) hl by simp
    with 3 e show ?thesis by (simp add: s)
  next
    case 4
    then show ?thesis using e L(2,3) hl set_butlast [of d'] by (auto simp: int_ok_def s integer_length_Inr)
  qed
qed

lemma decrement_spec:
  assumes "int_ok s"
  shows "\<exists>r. decrement_integer s = Inr r \<and> (case r of None \<Rightarrow> s = SMALLEST_INTEGER | Some t \<Rightarrow> int_ok t \<and> t < s)"
proof -
  obtain h digs where s: "s = h # digs" using assms by (cases s) (auto simp: int_ok_def)
  have hl: "97 \<le> h \<and> h \<le> 122 \<and> length digs = h - 96 \<or> 65 \<le> h \<and> h \<le> 90 \<and> length digs = 91 - h"
    and ds: "set digs \<subseteq> set BASE_62_DIGITS"
    using assms by (auto simp: int_ok_def s integer_length_Inr)
  from borrow_loop_spec [OF ds order_refl] obtain d' c where
    L: "borrow_loop digs (length digs) = Inr (d', c)" "length d' = length digs" "set d' \<subseteq> set BASE_62_DIGITS"
      "c \<Longrightarrow> digs = replicate (length digs) ZERO" "\<not> c \<Longrightarrow> d' < digs" by auto
  have e: "decrement_integer s = (if \<not> c then Inr (Some (h # d'))
      else if h = 97 then Inr (Some [90, last BASE_62_DIGITS]) else if h = 65 then Inr None
      else Inr (Some ((h - 1) # (if h - 1 < 90 then d' @ [last BASE_62_DIGITS] else butlast d'))))"
    using int_ok_validate [OF assms] L(1) by (simp add: decrement_integer_def s Let_def lit_def)
  consider "\<not> c" | "c" "h = 97" | "c" "h = 65" | "c" "h \<noteq> 97" "h \<noteq> 65" by blast
  then show ?thesis
  proof cases
    case 1
    then show ?thesis using e L hl by (auto simp: int_ok_def s integer_length_Inr)
  next
    case 2
    then show ?thesis using e by (simp add: int_ok_def s integer_length_Inr last_base)
  next
    case 3
    then have "digs = replicate 26 ZERO" using L(4) hl by simp
    with 3 e show ?thesis by (simp add: s SMALLEST_INTEGER_def lit_def)
  next
    case 4
    then show ?thesis using e L(2,3) hl set_butlast [of d'] by (auto simp: int_ok_def s integer_length_Inr last_base)
  qed
qed

section \<open>Keys\<close>

definition key_form :: "pystr \<Rightarrow> bool" where
  "key_form k \<longleftrightarrow> (\<exists>ip f. k = ip @ f \<and> int_ok ip \<and> frac_ok f)"

definition key_ok :: "pystr \<Rightarrow> bool" where
  "key_ok k \<longleftrightarrow> validate_order_key k = Inr ()"

lemma smallest_int_ok: "int_ok SMALLEST_INTEGER"
  by (simp add: int_ok_def SMALLEST_INTEGER_def lit_def integer_length_Inr)

lemma key_ok_iff: "key_ok k \<longleftrightarrow> key_form k \<and> k \<noteq> SMALLEST_INTEGER"
proof
  assume a: "key_ok k"
  then obtain ip where ne: "k \<noteq> []" "k \<noteq> SMALLEST_INTEGER" and ip: "integer_part k = Inr ip"
    and f: "\<not> ends_zero (drop (length ip) k)" and ch: "set (tl k) \<subseteq> set BASE_62_DIGITS"
    by (auto simp: key_ok_def validate_order_key_def rbind_eq_Inr list_ex_iff Let_def split: if_splits)
  from ip ne(1) obtain n where n: "integer_length (hd k) = Inr n" "n \<le> length k" "ip = take n k"
    by (auto simp: integer_part_def rbind_eq_Inr split: if_splits)
  have n2: "2 \<le> n" using n(1) by (auto simp: integer_length_Inr)
  obtain h t where k: "k = h # t" using ne(1) by (cases k) auto
  obtain m where m: "n = Suc m" using n2 by (cases n) auto
  have "int_ok ip" using n ch set_take_subset [of m t] by (auto simp: int_ok_def k m)
  moreover have "frac_ok (drop n k)" using f n ch set_drop_subset [of m t] by (auto simp: frac_ok_def k m)
  moreover have "k = ip @ drop n k" using n by simp
  ultimately show "key_form k \<and> k \<noteq> SMALLEST_INTEGER" using ne(2) by (auto simp: key_form_def)
next
  assume a: "key_form k \<and> k \<noteq> SMALLEST_INTEGER"
  then obtain ip f where k: "k = ip @ f" "int_ok ip" "frac_ok f" by (auto simp: key_form_def)
  have "set (tl k) \<subseteq> set BASE_62_DIGITS" using k by (cases ip) (auto simp: int_ok_def frac_ok_def)
  moreover have "ip \<noteq> []" using k(2) by (simp add: int_ok_def)
  ultimately show "key_ok k" using a k int_ok_part [OF k(2), of f]
    by (auto simp: key_ok_def validate_order_key_def frac_ok_def list_ex_iff Let_def)
qed

lemma key_formI: "int_ok ip \<Longrightarrow> frac_ok f \<Longrightarrow> key_form (ip @ f)"
  by (auto simp: key_form_def)

lemma frac_Nil [simp]: "frac_ok []"
  by (simp add: frac_ok_def ends_zero_def)

lemma key_ok_append: "int_ok ip \<Longrightarrow> frac_ok f \<Longrightarrow> f \<noteq> [] \<Longrightarrow> key_ok (ip @ f)"
proof -
  assume a: "int_ok ip" "frac_ok f" "f \<noteq> []"
  have "ip @ f \<noteq> SMALLEST_INTEGER"
  proof
    assume "ip @ f = SMALLEST_INTEGER"
    then have "prefix ip SMALLEST_INTEGER" by (metis prefixI)
    with a smallest_int_ok have "ip = SMALLEST_INTEGER" by (intro int_ok_prefix)
    with a \<open>ip @ f = SMALLEST_INTEGER\<close> show False by simp
  qed
  with a show ?thesis by (auto simp: key_ok_iff key_form_def)
qed

definition lies_between :: "pystr option \<Rightarrow> pystr option \<Rightarrow> pystr \<Rightarrow> bool" where
  "lies_between a b k \<longleftrightarrow> (\<forall>x. a = Some x \<longrightarrow> x < k) \<and> (\<forall>y. b = Some y \<longrightarrow> k < y)"

definition bounds_ok :: "pystr option \<Rightarrow> pystr option \<Rightarrow> bool" where
  "bounds_ok a b \<longleftrightarrow> (\<forall>x. a = Some x \<longrightarrow> key_ok x) \<and> (\<forall>y. b = Some y \<longrightarrow> key_ok y) \<and>
     (\<forall>x y. a = Some x \<and> b = Some y \<longrightarrow> x < y)"

lemma max_int: "int_ok s \<Longrightarrow> hd s = 122 \<Longrightarrow> tl s = replicate 26 (BASE_62_DIGITS ! 61) \<Longrightarrow> int_ok t \<Longrightarrow> \<not> s < t"
proof
  assume a: "int_ok s" "hd s = 122" "tl s = replicate 26 (BASE_62_DIGITS ! 61)" "int_ok t" "s < t"
  obtain h ds where t: "t = h # ds" using a(4) by (cases t) (auto simp: int_ok_def)
  obtain ss where s: "s = 122 # ss" "ss = replicate 26 (BASE_62_DIGITS ! 61)" using a by (cases s) (auto simp: int_ok_def)
  have h: "h \<le> 122" "set ds \<subseteq> set BASE_62_DIGITS" "h = 122 \<longrightarrow> length ds = 26"
    using a(4) by (auto simp: int_ok_def t integer_length_Inr)
  have "\<not> replicate n (BASE_62_DIGITS ! 61) < xs" if "set xs \<subseteq> set BASE_62_DIGITS" "length xs = n" for n xs
    using that
  proof (induction n arbitrary: xs)
    case (Suc n)
    then obtain x xs' where "xs = x # xs'" by (cases xs) auto
    with Suc le_last [of x] show ?case by auto
  qed simp
  from this [of ds 26] h a(5) show False by (auto simp: s t)
qed

lemma generate_spec:
  assumes "bounds_ok a b"
  shows "\<exists>k. generate_key_between a b = Inr k \<and> lies_between a b k \<and> key_form k \<and>
    (key_ok k \<or> a = None \<and> k = SMALLEST_INTEGER \<and> (\<exists>y. b = Some y \<and> int_ok y \<and> \<not> prefix k y))"
proof -
  have va: "validate_bound a = Inr ()" "validate_bound b = Inr ()"
    using assms by (auto simp: bounds_ok_def validate_bound_def key_ok_def split: option.splits)
  have parts: "\<exists>ip f. k = ip @ f \<and> int_ok ip \<and> frac_ok f" if "key_ok k" for k
    using that by (simp add: key_ok_iff key_form_def)
  show ?thesis
  proof (cases a)
    case None
    show ?thesis
    proof (cases b)
      case None
      have "key_ok INTEGER_ZERO" "key_form INTEGER_ZERO"
        using key_formI [of INTEGER_ZERO "[]"]
        by (auto simp: key_ok_iff int_ok_def INTEGER_ZERO_def lit_def integer_length_Inr SMALLEST_INTEGER_def)
      with None \<open>a = None\<close> va show ?thesis by (simp add: generate_key_between_def lies_between_def)
    next
      case (Some y)
      then have y: "key_ok y" using assms by (simp add: bounds_ok_def)
      then obtain ib fb where p: "y = ib @ fb" "int_ok ib" "frac_ok fb" using parts by blast
      have g: "generate_key_between None (Some y) =
          (if ib = SMALLEST_INTEGER then rbind (midpoint [] (Some fb)) (\<lambda>m. Inr (ib @ m))
           else if fb \<noteq> [] then Inr ib
           else rbind (decrement_integer ib) (\<lambda>res. case res of None \<Rightarrow> Inl ValueError | Some res \<Rightarrow> Inr res))"
        using va None Some by (simp add: generate_key_between_def p(1) int_ok_part [OF p(2)] Let_def)
      consider (small) "ib = SMALLEST_INTEGER" | (frac) "ib \<noteq> SMALLEST_INTEGER" "fb \<noteq> []"
        | (int) "ib \<noteq> SMALLEST_INTEGER" "fb = []" by blast
      then show ?thesis
      proof cases
        case small
        then have "fb \<noteq> []" using y p by (auto simp: key_ok_iff)
        then have "[] < fb" by (cases fb) auto
        with midpoint_between [of "[]" "Some fb"] p(3) obtain m where
          "midpoint [] (Some fb) = Inr m" "frac_ok m" "m \<noteq> []" "m < fb" by auto
        with small g p None Some key_ok_append [OF p(2)] key_formI [OF p(2)] show ?thesis
          by (simp add: lies_between_def)
      next
        case frac
        with g p None Some key_formI [OF p(2), of "[]"] show ?thesis
          by (simp add: lies_between_def key_ok_iff)
      next
        case int
        from decrement_spec [OF p(2)] int(1) obtain t where
          t: "decrement_integer ib = Inr (Some t)" "int_ok t" "t < ib" by (auto split: option.splits)
        have "\<not> prefix t y" using t(2,3) p int int_ok_prefix [of t ib] by auto
        with t int g p None Some key_formI [OF t(2), of "[]"] show ?thesis
          by (auto simp: lies_between_def key_ok_iff)
      qed
    qed
  next
    case (Some x)
    then have x: "key_ok x" using assms by (simp add: bounds_ok_def)
    then obtain ia fa where p: "x = ia @ fa" "int_ok ia" "frac_ok fa" using parts by blast
    from increment_spec [OF p(2)] obtain r where r: "increment_integer ia = Inr r"
      "r = None \<Longrightarrow> hd ia = 122 \<and> tl ia = replicate 26 (BASE_62_DIGITS ! 61)"
      "\<And>t. r = Some t \<Longrightarrow> int_ok t \<and> ia < t" by (auto split: option.splits)
    from midpoint_between [of fa None] p(3) obtain m where
      m: "midpoint fa None = Inr m" "frac_ok m" "m \<noteq> []" "fa < m" by auto
    have xm: "x < ia @ m" using m(4) by (simp add: p(1))
    have xt: "x < t" "key_ok t" if "r = Some t" for t
    proof -
      note t = r(3) [OF that]
      then show "x < t" using int_less_append [OF p(2), of t fa "[]"] by (simp add: p(1))
      have "t \<noteq> SMALLEST_INTEGER"
      proof
        assume "t = SMALLEST_INTEGER"
        moreover have "\<not> u < SMALLEST_INTEGER" if iu: "int_ok u" for u
        proof
          assume "u < SMALLEST_INTEGER"
          obtain h ds where u: "u = h # ds" using iu by (cases u) (auto simp: int_ok_def)
          have "65 \<le> h" "h = 65 \<longrightarrow> length ds = 26" "set ds \<subseteq> set BASE_62_DIGITS"
            using iu by (auto simp: int_ok_def u integer_length_Inr)
          moreover have low: "\<not> xs < replicate (length xs) ZERO" if "set xs \<subseteq> set BASE_62_DIGITS" for xs
            using that
          proof (induction xs)
            case (Cons x xs)
            then show ?case using zero_le [of x] by auto
          qed simp
          ultimately have "\<not> (h = 65 \<and> ds < replicate 26 ZERO)" "65 \<le> h" by metis+
          then show False using \<open>u < SMALLEST_INTEGER\<close> by (auto simp: u SMALLEST_INTEGER_def lit_def)
        qed
        ultimately show False using t p(2) by blast
      qed
      then show "key_ok t" using t key_formI [of t "[]"] by (simp add: key_ok_iff)
    qed
    show ?thesis
    proof (cases b)
      case None
      have g: "generate_key_between (Some x) None = (case r of None \<Rightarrow> Inr (ia @ m) | Some i \<Rightarrow> Inr i)"
        using va Some None r(1) m(1)
        by (simp add: generate_key_between_def p(1) int_ok_part [OF p(2)] Let_def split: option.splits)
      show ?thesis
      proof (cases r)
        case None
        with g xm m key_ok_append [OF p(2)] \<open>b = None\<close> Some show ?thesis by (simp add: lies_between_def key_ok_iff)
      next
        case (Some t)
        with g xt [OF Some] \<open>b = None\<close> \<open>a = Some x\<close> show ?thesis by (simp add: lies_between_def key_ok_iff)
      qed
    next
      case B: (Some y)
      then have y: "key_ok y" "x < y" using assms Some by (simp_all add: bounds_ok_def)
      then obtain ib fb where q: "y = ib @ fb" "int_ok ib" "frac_ok fb" using parts by blast
      have pt: "integer_part x = Inr ia" "integer_part y = Inr ib" "drop (length ia) x = fa" "drop (length ib) y = fb"
        by (simp_all add: p(1) q(1) int_ok_part [OF p(2)] int_ok_part [OF q(2)])
      have ny: "\<not> y \<le> x" using y(2) by simp
      have g: "generate_key_between (Some x) (Some y) =
          (if ia = ib then rbind (midpoint fa (Some fb)) (\<lambda>m. Inr (ia @ m))
           else (case r of None \<Rightarrow> Inl ValueError | Some i \<Rightarrow> if i < y then Inr i else Inr (ia @ m)))"
        using va Some B r(1) m(1) ny pt
        by (cases "ia = ib") (simp_all add: generate_key_between_def Let_def split: option.splits)
      show ?thesis
      proof (cases "ia = ib")
        case True
        then have "fa < fb" using y(2) p q by simp
        with midpoint_between [of fa "Some fb"] p(3) q(3) obtain m' where
          m': "midpoint fa (Some fb) = Inr m'" "frac_ok m'" "m' \<noteq> []" "fa < m'" "m' < fb" by auto
        with g True p q key_ok_append [OF p(2) m'(2,3)] Some B show ?thesis
          by (simp add: lies_between_def key_ok_iff)
      next
        case False
        have "ia < ib"
        proof (rule ccontr)
          assume "\<not> ia < ib"
          with False have "ib < ia" by simp
          from int_less_append [OF q(2) p(2) this, of fb fa] y(2) p q show False by simp
        qed
        then obtain t where t: "r = Some t" using r(2) max_int [OF p(2) _ _ q(2)] by (cases r) auto
        have "ia @ m < y" using int_less_append [OF p(2) q(2) \<open>ia < ib\<close>] by (simp add: q(1))
        with g False t xt [OF t] xm key_ok_append [OF p(2) m(2,3)] Some B show ?thesis
          by (simp add: lies_between_def key_ok_iff)
      qed
    qed
  qed
qed

section \<open>Several keys\<close>

definition keys_between :: "pystr option \<Rightarrow> pystr option \<Rightarrow> pystr list \<Rightarrow> bool" where
  "keys_between a b ks \<longleftrightarrow> sorted_wrt (<) ks \<and> (\<forall>k \<in> set ks. key_ok k \<and> lies_between a b k)"

lemma keys_between_Nil [simp]: "keys_between a b []"
  by (simp add: keys_between_def)

lemma keys_between_join:
  "keys_between a (Some c) l \<Longrightarrow> keys_between (Some c) b r \<Longrightarrow> key_ok c \<Longrightarrow> lies_between a b c \<Longrightarrow>
   keys_between a b (l @ [c] @ r)"
  by (auto simp: keys_between_def lies_between_def sorted_wrt_append) (meson less_trans)+

lemma keys_between_up: "keys_between (Some k) b ks \<Longrightarrow> key_ok k \<Longrightarrow> lies_between a b k \<Longrightarrow> keys_between a b (k # ks)"
  using keys_between_join [of a k "[]" b ks] by simp

lemma keys_between_down: "keys_between a (Some k) ks \<Longrightarrow> key_ok k \<Longrightarrow> lies_between a b k \<Longrightarrow> keys_between a b (ks @ [k])"
  using keys_between_join [of a k ks b "[]"] by simp

lemma chain_up_spec:
  "key_ok k \<Longrightarrow> \<exists>ks. chain_up k n = Inr (k # ks) \<and> length ks = n \<and> keys_between (Some k) None ks"
proof (induction n arbitrary: k)
  case (Suc n)
  then have "bounds_ok (Some k) None" by (simp add: bounds_ok_def)
  from generate_spec [OF this] obtain k' where
    k': "generate_key_between (Some k) None = Inr k'" "lies_between (Some k) None k'" "key_ok k'" by auto
  from Suc.IH [OF k'(3)] obtain ks where
    "chain_up k' n = Inr (k' # ks)" "length ks = n" "keys_between (Some k') None ks" by blast
  with k' show ?case using keys_between_up [of k' None ks "Some k"] by simp
qed simp

lemma generate_n_spec:
  "bounds_ok a b \<Longrightarrow> a \<noteq> None \<or> b = None \<Longrightarrow>
   \<exists>ks. generate_n_keys_between a b n = Inr ks \<and> length ks = n \<and> keys_between a b ks"
proof (induction n arbitrary: a b rule: less_induct)
  case (less n)
  from generate_spec [OF less.prems(1)] less.prems(2) obtain k where
    k: "generate_key_between a b = Inr k" "lies_between a b k" "key_ok k" by auto
  consider "n = 0" | "n = 1" | "1 < n" "b = None" | (mid) "1 < n" "b \<noteq> None" by linarith
  then show ?case
  proof cases
    case 1
    then show ?thesis by (subst generate_n_keys_between.simps) simp
  next
    case 2
    with k show ?thesis by (subst generate_n_keys_between.simps) (simp add: keys_between_def)
  next
    case 3
    from chain_up_spec [OF k(3), of "n - 1"] obtain ks where
      "chain_up k (n - 1) = Inr (k # ks)" "length ks = n - 1" "keys_between (Some k) None ks" by blast
    with 3 k keys_between_up [of k None ks a] show ?thesis
      by (subst generate_n_keys_between.simps) simp
  next
    case mid
    then obtain x where a: "a = Some x" using less.prems(2) by auto
    have "bounds_ok a (Some k)" "bounds_ok (Some k) b"
      using less.prems(1) k(2,3) by (auto simp: bounds_ok_def lies_between_def)
    moreover have "n div 2 < n" "n - n div 2 - 1 < n" using mid by auto
    ultimately obtain l r where
      l: "generate_n_keys_between a (Some k) (n div 2) = Inr l" "length l = n div 2" "keys_between a (Some k) l" and
      r: "generate_n_keys_between (Some k) b (n - n div 2 - 1) = Inr r" "length r = n - n div 2 - 1" "keys_between (Some k) b r"
      using less.IH a by (metis option.distinct(1))
    have "generate_n_keys_between a b n = Inr (l @ [k] @ r)"
      using mid a k(1) l(1) r(1) by (subst generate_n_keys_between.simps) (auto simp: Let_def)
    moreover have "length (l @ [k] @ r) = n" using l(2) r(2) mid by simp
    ultimately show ?thesis using keys_between_join [OF l(3) r(3) k(3,2)] by blast
  qed
qed

section \<open>Suffixes\<close>

lemma choice_in: "xs \<noteq> [] \<Longrightarrow> choice random t xs \<in> set xs"
  by (simp add: choice_def)

lemma tail_digits: "c \<in> set (drop 1 BASE_62_DIGITS) \<Longrightarrow> c \<in> set BASE_62_DIGITS \<and> c \<noteq> ZERO"
proof -
  assume c: "c \<in> set (drop 1 BASE_62_DIGITS)"
  then obtain i where i: "i < 61" "c = drop 1 BASE_62_DIGITS ! i" by (auto simp: in_set_conv_nth)
  have "drop 1 BASE_62_DIGITS ! i = BASE_62_DIGITS ! (1 + i)" using i(1) by (intro nth_drop) simp
  with i base_zero_iff [of "1 + i"] base_nth_in [of "1 + i"] show ?thesis by simp
qed

lemma random_suffix_spec:
  assumes "1 \<le> len"
  shows "\<exists>s t'. random_suffix random len t = Inr (s, t') \<and> frac_ok s \<and> s \<noteq> [] \<and> length s = nat len"
proof -
  have b: "BASE_62_DIGITS \<noteq> []" "drop 1 BASE_62_DIGITS \<noteq> []" using base_length by (metis list.size(3) zero_neq_numeral) (simp add: drop_eq_Nil)
  let ?m = "nat (len - 1)"
  let ?s = "map (\<lambda>i. choice random (t + i) BASE_62_DIGITS) [0..<?m] @ [choice random (t + ?m) (drop 1 BASE_62_DIGITS)]"
  have "frac_ok ?s" using choice_in [OF b(1)] tail_digits [OF choice_in [OF b(2)]]
    by (auto simp: frac_ok_def ends_zero_def)
  moreover have "length ?s = nat len" using assms by simp
  ultimately show ?thesis using assms by (auto simp: random_suffix_def Let_def)
qed

lemma suffix_ok: "key_form k \<Longrightarrow> frac_ok s \<Longrightarrow> s \<noteq> [] \<Longrightarrow> key_ok (k @ s)"
proof -
  assume a: "key_form k" "frac_ok s" "s \<noteq> []"
  then obtain ip f where k: "k = ip @ f" "int_ok ip" "frac_ok f" by (auto simp: key_form_def)
  have "frac_ok (f @ s)" using k(3) a(2,3) by (auto simp: frac_ok_def ends_zero_def)
  with key_ok_append [OF k(2), of "f @ s"] a(3) k(1) show ?thesis by simp
qed

lemma take_prefix_iff: "take (length k) b = k \<longleftrightarrow> prefix k b"
  by (metis prefix_def append_eq_conv_conj take_is_prefix)

lemma step_down_spec:
  assumes "bounds_ok a (Some y)"
  shows "key_form k \<Longrightarrow> lies_between a (Some y) k \<Longrightarrow> (prefix k y \<Longrightarrow> key_ok k \<and> length k < fuel) \<Longrightarrow> 0 < fuel \<Longrightarrow>
    \<exists>k'. step_down fuel a (Some y) k = Some (Inr k') \<and> key_form k' \<and> lies_between a (Some y) k' \<and> \<not> prefix k' y"
proof (induction fuel arbitrary: k)
  case 0
  then show ?case by simp
next
  case (Suc fuel)
  show ?case
  proof (cases "prefix k y")
    case False
    with Suc.prems show ?thesis by (simp add: take_prefix_iff)
  next
    case True
    with Suc.prems have k: "key_ok k" "length k < Suc fuel" by auto
    have "bounds_ok a (Some k)" using assms k(1) Suc.prems(2) by (auto simp: bounds_ok_def lies_between_def)
    from generate_spec [OF this] obtain k1 where
      k1: "generate_key_between a (Some k) = Inr k1" "lies_between a (Some k) k1" "key_form k1"
        "key_ok k1 \<or> k1 = SMALLEST_INTEGER \<and> \<not> prefix k1 k" by auto
    have less: "k1 < k" using k1(2) by (simp add: lies_between_def)
    have b: "lies_between a (Some y) k1"
      using k1(2) Suc.prems(2) by (auto simp: lies_between_def intro: less_trans)
    have shorter: "prefix k1 k \<and> length k1 < length k" if "prefix k1 y"
    proof -
      have "prefix k1 k \<or> prefix k k1" using that True by (rule prefix_same_cases)
      moreover have "\<not> prefix k k1" using prefix_imp_le [of k k1] less by auto
      ultimately have "prefix k1 k" by blast
      then show ?thesis using less by (auto simp: prefix_def)
    qed
    have "2 \<le> length k" using k(1) int_ok_length by (fastforce simp: key_ok_iff key_form_def)
    then have "0 < fuel" using k(2) by simp
    then obtain k' where "step_down fuel a (Some y) k1 = Some (Inr k')" "key_form k'" "lies_between a (Some y) k'"
      "\<not> prefix k' y"
      using Suc.IH [OF k1(3) b] shorter k1(4) k(2) by force
    with True k1(1) show ?thesis by (simp add: take_prefix_iff)
  qed
qed

lemma suffixed_spec:
  assumes b: "bounds_ok a b" and len: "1 \<le> len"
  shows "\<exists>k t'. generate_suffixed_key_between random len a b t = Some (Inr (k, t')) \<and> key_ok k \<and> lies_between a b k"
proof -
  from generate_spec [OF b] obtain k where
    k: "generate_key_between a b = Inr k" "lies_between a b k" "key_form k"
      "key_ok k \<or> a = None \<and> k = SMALLEST_INTEGER \<and> (\<exists>y. b = Some y \<and> int_ok y \<and> \<not> prefix k y)" by blast
  obtain k' where s: "step_down (step_fuel b) a b k = Some (Inr k')" "key_form k'" "lies_between a b k'"
    "\<And>y. b = Some y \<Longrightarrow> \<not> prefix k' y"
  proof (cases b)
    case None
    with k that show ?thesis by (simp add: step_fuel_def)
  next
    case (Some y)
    have "key_ok k \<and> length k < step_fuel b" if "prefix k y"
      using that k(4) prefix_length_le [OF that] Some by (auto simp: step_fuel_def)
    moreover have "0 < step_fuel b" by (simp add: step_fuel_def split: option.splits)
    ultimately show ?thesis using step_down_spec [of a y k "step_fuel b"] b k Some that by auto
  qed
  from random_suffix_spec [OF len] obtain u t' where
    u: "random_suffix random len t = Inr (u, t')" "frac_ok u" "u \<noteq> []" by blast
  have "lies_between a b (k' @ u)"
    using s(3,4) less_append_mono [of k' _ u "[]"] le_append_self [of k' u]
    by (auto simp: lies_between_def intro: less_le_trans)
  with suffix_ok [OF s(2) u(2,3)] k(1) s(1) u(1) show ?thesis
    by (simp add: generate_suffixed_key_between_def)
qed

lemma suffixed_up_spec:
  "key_ok k \<Longrightarrow> 1 \<le> len \<Longrightarrow> \<exists>ks t'. suffixed_up random len k n t = Some (Inr (k # ks, t')) \<and> length ks = n \<and>
     keys_between (Some k) None ks"
proof (induction n arbitrary: k t)
  case (Suc n)
  then have "bounds_ok (Some k) None" by (simp add: bounds_ok_def)
  from suffixed_spec [OF this Suc.prems(2)] obtain k' t1 where
    k': "generate_suffixed_key_between random len (Some k) None t = Some (Inr (k', t1))" "key_ok k'"
      "lies_between (Some k) None k'" by blast
  from Suc.IH [OF k'(2) Suc.prems(2)] obtain ks t2 where
    "suffixed_up random len k' n t1 = Some (Inr (k' # ks, t2))" "length ks = n" "keys_between (Some k') None ks" by blast
  with k' show ?case using keys_between_up [of k' None ks "Some k"] by (simp add: obind_def)
qed simp

lemma suffixed_down_spec:
  "key_ok k \<Longrightarrow> 1 \<le> len \<Longrightarrow> \<exists>ks t'. suffixed_down random len k n t = Some (Inr (k # ks, t')) \<and> length ks = n \<and>
     keys_between None (Some k) (rev ks)"
proof (induction n arbitrary: k t)
  case (Suc n)
  then have "bounds_ok None (Some k)" by (simp add: bounds_ok_def)
  from suffixed_spec [OF this Suc.prems(2)] obtain k' t1 where
    k': "generate_suffixed_key_between random len None (Some k) t = Some (Inr (k', t1))" "key_ok k'"
      "lies_between None (Some k) k'" by blast
  from Suc.IH [OF k'(2) Suc.prems(2)] obtain ks t2 where
    "suffixed_down random len k' n t1 = Some (Inr (k' # ks, t2))" "length ks = n" "keys_between None (Some k') (rev ks)" by blast
  with k' show ?case using keys_between_down [of None k' "rev ks" "Some k"] by (simp add: obind_def)
qed simp

lemma n_suffixed_spec:
  "bounds_ok a b \<Longrightarrow> 1 \<le> len \<Longrightarrow>
   \<exists>ks t'. generate_n_suffixed_keys_between random len a b n t = Some (Inr (ks, t')) \<and> length ks = nat n \<and> keys_between a b ks"
proof (induction "nat n" arbitrary: n a b t rule: less_induct)
  case less
  note S = suffixed_spec [OF less.prems]
  consider "n \<le> 0" | "n = 1" | (up) "1 < n" "b = None" | (down) "1 < n" "b \<noteq> None" "a = None"
    | (mid) "1 < n" "b \<noteq> None" "a \<noteq> None" by linarith
  then show ?case
  proof cases
    case 1
    then show ?thesis by (simp add: generate_n_suffixed_keys_between.simps [of random len a b n t])
  next
    case 2
    from S [of random t] obtain k t1 where
      "generate_suffixed_key_between random len a b t = Some (Inr (k, t1))" "key_ok k" "lies_between a b k" by blast
    with 2 show ?thesis
      by (subst generate_n_suffixed_keys_between.simps) (simp add: obind_def keys_between_def)
  next
    case up
    from S [of random t] obtain k t1 where
      k: "generate_suffixed_key_between random len a b t = Some (Inr (k, t1))" "key_ok k" "lies_between a b k" by blast
    from suffixed_up_spec [OF k(2) less.prems(2), of random "nat (n - 1)" t1] obtain ks t2 where
      "suffixed_up random len k (nat (n - 1)) t1 = Some (Inr (k # ks, t2))" "length ks = nat (n - 1)"
      "keys_between (Some k) None ks" by blast
    with up k keys_between_up [of k None ks a] show ?thesis
      by (subst generate_n_suffixed_keys_between.simps) (simp add: obind_def)
  next
    case down
    from S [of random t] obtain k t1 where
      k: "generate_suffixed_key_between random len a b t = Some (Inr (k, t1))" "key_ok k" "lies_between a b k" by blast
    from suffixed_down_spec [OF k(2) less.prems(2), of random "nat (n - 1)" t1] obtain ks t2 where
      "suffixed_down random len k (nat (n - 1)) t1 = Some (Inr (k # ks, t2))" "length ks = nat (n - 1)"
      "keys_between None (Some k) (rev ks)" by blast
    moreover obtain y where "b = Some y" using down by blast
    moreover have "Suc (nat (n - 1)) = nat n" using down by simp
    ultimately show ?thesis using down k keys_between_down [of None k "rev ks" b]
      by (subst generate_n_suffixed_keys_between.simps) (simp add: obind_def)
  next
    case mid
    from S [of random t] obtain k t1 where
      k: "generate_suffixed_key_between random len a b t = Some (Inr (k, t1))" "key_ok k" "lies_between a b k" by blast
    have B: "bounds_ok a (Some k)" "bounds_ok (Some k) b"
      using less.prems(1) k(2,3) by (auto simp: bounds_ok_def lies_between_def)
    have lt: "nat (n div 2) < nat n" "nat (n - n div 2 - 1) < nat n" using mid by auto
    from less.hyps [OF lt(1) B(1) less.prems(2)] obtain l t2 where
      l: "generate_n_suffixed_keys_between random len a (Some k) (n div 2) t1 = Some (Inr (l, t2))"
        "length l = nat (n div 2)" "keys_between a (Some k) l" by blast
    from less.hyps [OF lt(2) B(2) less.prems(2)] obtain r t3 where
      r: "generate_n_suffixed_keys_between random len (Some k) b (n - n div 2 - 1) t2 = Some (Inr (r, t3))"
        "length r = nat (n - n div 2 - 1)" "keys_between (Some k) b r" by blast
    have "generate_n_suffixed_keys_between random len a b n t = Some (Inr (l @ [k] @ r, t3))"
      using mid k(1) l(1) r(1)
      by (subst generate_n_suffixed_keys_between.simps) (auto simp: Let_def obind_def)
    moreover have "length (l @ [k] @ r) = nat n" using l(2) r(2) mid by simp
    ultimately show ?thesis using keys_between_join [OF l(3) r(3) k(2,3)] by blast
  qed
qed

section \<open>Outside the preconditions\<close>

lemma generate_rejects:
  assumes "\<not> bounds_ok a b"
  shows "\<exists>e. generate_key_between a b = Inl e"
proof (cases "validate_bound a")
  case (Inl e)
  then show ?thesis by (simp add: generate_key_between_def)
next
  case va: (Inr u)
  show ?thesis
  proof (cases "validate_bound b")
    case (Inl e)
    with va show ?thesis by (simp add: generate_key_between_def)
  next
    case vb: (Inr w)
    have "\<exists>x y. a = Some x \<and> b = Some y \<and> y \<le> x"
      using assms va vb by (auto simp: bounds_ok_def key_ok_def validate_bound_def split: option.splits)
    with va vb show ?thesis by (auto simp: generate_key_between_def)
  qed
qed

section \<open>Properties\<close>

text \<open>C32: \<open>generate_key_between\<close> succeeds exactly when both bounds are valid keys with \<open>a < b\<close>, and
  then the key it returns sorts strictly between them. The key is itself a valid key, with one
  exception: below some keys made of an integer part alone it returns the smallest integer, which
  \<open>validate_order_key\<close> refuses; \<open>A00...01\<close> is such a key.\<close>

theorem generate_key_between_correct:
  "(case generate_key_between a b of
      Inl e \<Rightarrow> \<not> bounds_ok a b
    | Inr k \<Rightarrow> bounds_ok a b \<and> lies_between a b k \<and>
        (validate_order_key k = Inr () \<or> a = None \<and> k = SMALLEST_INTEGER)) \<and>
   generate_key_between None (Some (lit ''A'' @ replicate 25 ZERO @ lit ''1'')) = Inr SMALLEST_INTEGER \<and>
   validate_order_key SMALLEST_INTEGER = Inl ValueError"
proof -
  let ?b = "lit ''A'' @ replicate 25 ZERO @ lit ''1''"
  have z: "ZERO = 48" by (simp add: ZERO_def BASE_62_DIGITS_def lit_def)
  have "int_ok ?b" by (simp add: int_ok_def lit_def integer_length_Inr BASE_62_DIGITS_def z)
  note p = int_ok_part [OF this, of "[]"]
  have ne: "replicate 25 48 @ [49] \<noteq> replicate 26 (48 :: nat)" by (auto dest!: arg_cong [where f = last])
  have v: "validate_order_key ?b = Inr ()"
    using \<open>int_ok ?b\<close> key_formI [of ?b "[]"] key_ok_iff [of ?b]
    by (simp add: key_ok_def SMALLEST_INTEGER_def lit_def z ne)
  have "digit_index 49 = Inr 1" by (simp add: digit_index_Inr BASE_62_DIGITS_def lit_def)
  then have "decrement_integer ?b = Inr (Some SMALLEST_INTEGER)"
    using int_ok_validate [OF \<open>int_ok ?b\<close>]
    by (simp add: decrement_integer_def lit_def SMALLEST_INTEGER_def z nth_append list_update_append
        eval_nat_numeral BASE_62_DIGITS_def)
  then have "generate_key_between None (Some ?b) = Inr SMALLEST_INTEGER"
    using v p by (simp add: generate_key_between_def validate_bound_def SMALLEST_INTEGER_def lit_def z ne)
  moreover have "validate_order_key SMALLEST_INTEGER = Inl ValueError"
    by (simp add: validate_order_key_def SMALLEST_INTEGER_def lit_def)
  ultimately show ?thesis
    using generate_spec [of a b] generate_rejects [of a b] by (cases "bounds_ok a b") (auto simp: key_ok_def)
qed

text \<open>C33: a stored key never collides with its neighbours. For valid bounds, whatever the random
  digits, \<open>generate_suffixed_key_between\<close> ends (after at most as many steps as \<open>b\<close> has characters)
  and returns a valid key strictly between the bounds.\<close>

theorem suffixed_key_between:
  assumes "bounds_ok a b" and "1 \<le> len"
  shows "\<exists>k t'. generate_suffixed_key_between random len a b t = Some (Inr (k, t')) \<and>
    validate_order_key k = Inr () \<and> lies_between a b k"
  using suffixed_spec [OF assms, of random t] by (auto simp: key_ok_def)

lemma zero_one_valid: "key_ok (lit ''a0'')" "key_ok (lit ''a1'')" "lit ''a0'' < lit ''a1''"
proof -
  have "int_ok (lit ''a0'')" "int_ok (lit ''a1'')"
    by (simp_all add: int_ok_def lit_def integer_length_Inr BASE_62_DIGITS_def)
  with key_formI [of "lit ''a0''" "[]"] key_formI [of "lit ''a1''" "[]"]
  show "key_ok (lit ''a0'')" "key_ok (lit ''a1'')"
    by (simp_all add: key_ok_iff SMALLEST_INTEGER_def) (simp_all add: lit_def)
  show "lit ''a0'' < lit ''a1''" by (simp add: lit_def)
qed

theorem suffixed_key_between_witness:
  "\<exists>k t'. generate_suffixed_key_between (\<lambda>_. 7) 4 (Some (lit ''a0'')) (Some (lit ''a1'')) 0 = Some (Inr (k, t')) \<and>
     lit ''a0'' < k \<and> k < lit ''a1''"
proof -
  have "bounds_ok (Some (lit ''a0'')) (Some (lit ''a1''))" using zero_one_valid by (simp add: bounds_ok_def)
  from suffixed_key_between [OF this, of 4 "\<lambda>_. 7" 0] show ?thesis by (auto simp: lies_between_def)
qed

text \<open>Respacing a run of rows keeps their order: \<open>generate_n_suffixed_keys_between\<close> returns
  exactly \<open>n\<close> valid keys (none for a negative \<open>n\<close>), strictly ascending and strictly between the bounds;
  so does the plain \<open>generate_n_keys_between\<close> unless it prepends before a key with no lower bound.\<close>

theorem n_keys_between_sorted:
  assumes "bounds_ok a b" and "1 \<le> len"
  shows "(\<exists>ks t'. generate_n_suffixed_keys_between random len a b n t = Some (Inr (ks, t')) \<and>
      length ks = nat n \<and> sorted_wrt (<) ks \<and>
      (\<forall>k \<in> set ks. validate_order_key k = Inr () \<and> lies_between a b k)) \<and>
    (a = None \<and> b \<noteq> None \<or>
     (\<exists>ks. generate_n_keys_between a b m = Inr ks \<and> length ks = m \<and> sorted_wrt (<) ks \<and>
      (\<forall>k \<in> set ks. validate_order_key k = Inr () \<and> lies_between a b k)))"
  using n_suffixed_spec [OF assms, of random n t] generate_n_spec [OF assms(1), of m]
  unfolding keys_between_def key_ok_def by (cases "a = None \<and> b \<noteq> None") auto

theorem n_keys_between_sorted_witness:
  "\<exists>ks t'. generate_n_suffixed_keys_between (\<lambda>i. i) 2 None (Some (lit ''a0'')) 3 0 = Some (Inr (ks, t')) \<and>
     length ks = 3 \<and> sorted_wrt (<) ks \<and> (\<forall>k \<in> set ks. k < lit ''a0'')"
proof -
  have "bounds_ok None (Some (lit ''a0''))" using zero_one_valid by (simp add: bounds_ok_def)
  from n_keys_between_sorted [OF this, of 2 "\<lambda>i. i" 3 0] show ?thesis by (auto simp: lies_between_def)
qed

end
