(* ===== verification/Container_Node.thy ===== *)
theory Container_Node
  imports Mem_Scan
begin

text \<open>
  The lower half of the container layer (\<open>container/\<close>): the values it looks at, the type markers
  of \<open>marker.py\<close>, the checks of \<open>context.py\<close> on the kind of a context, the nodes of
  \<open>node_ops.py\<close> and \<open>types.py\<close>, and the checks of \<open>validation_ops.py\<close>.
\<close>

unbundle bit_operations_syntax

section \<open>Values\<close>

text \<open>
  A Python value as the container layer looks at it: the sentinel \<open>EMPTY\<close>, integers, strings,
  \<open>None\<close>, the collections it walks (in iteration order), and any other value (one not equal to an
  integer).
\<close>

datatype pyval =
    VEmpty | VNone | VInt int | VStr pystr | VOther nat
  | VTuple "pyval list" | VList "pyval list" | VSet "pyval list" | VMap "(pyval \<times> pyval) list"

section \<open>Markers\<close>

text \<open>
  A structure is any value (\<open>NewType\<close> does not convert); a protocol is an \<open>IntFlag\<close>, whose
  value is an integer. \<open>flag_of_int\<close> is \<open>ContainerProtocol(i)\<close>: an \<open>IntFlag\<close> keeps unknown
  bits and reads a negative number as the complement of its flags. Other values raise \<open>ValueError\<close>.
\<close>

definition FLAG_MUTABLE :: int where "FLAG_MUTABLE = 1"
definition FLAG_SIZED :: int where "FLAG_SIZED = 2"
definition FLAG_INDEXED :: int where "FLAG_INDEXED = 4"
definition FLAG_MAPPING :: int where "FLAG_MAPPING = 8"
definition FLAG_SET :: int where "FLAG_SET = 16"

fun bit_length :: "nat \<Rightarrow> nat" where
  "bit_length n = (if n = 0 then 0 else Suc (bit_length (n div 2)))"

definition flag_of_int :: "int \<Rightarrow> int" where
  "flag_of_int i =
     (if i \<ge> 0 then i
      else if i \<ge> - 32 then 32 + i
      else max 32 (2 ^ bit_length (nat \<bar>i\<bar>)) + i)"

definition MARKER_SENTINEL :: pyval where
  "MARKER_SENTINEL = VStr [0xE000, 0xF0000]"

definition create_marker :: "pyval \<Rightarrow> int \<Rightarrow> pyval" where
  "create_marker structure protocol = VTuple [MARKER_SENTINEL, structure, VInt protocol, MARKER_SENTINEL]"

definition extract_marker :: "pyval \<Rightarrow> (pyval \<times> int) option res" where
  "extract_marker v =
     (case v of
        VTuple [a, structure, protocol, z] \<Rightarrow>
          if a \<noteq> MARKER_SENTINEL \<or> z \<noteq> MARKER_SENTINEL then Inr None
          else (case protocol of VInt i \<Rightarrow> Inr (Some (structure, flag_of_int i)) | _ \<Rightarrow> Inl ValueError)
      | _ \<Rightarrow> Inr None)"

definition is_marker :: "pyval \<Rightarrow> bool res" where
  "is_marker v = rbind (extract_marker v) (\<lambda>m. Inr (m \<noteq> None))"

definition validate_marker_compatibility :: "pyval \<Rightarrow> pyval \<Rightarrow> int \<Rightarrow> bool res" where
  "validate_marker_compatibility stored expected_structure expected_protocol =
     rbind (extract_marker stored) (\<lambda>info.
       Inr (case info of
              None \<Rightarrow> False
            | Some (structure, protocol) \<Rightarrow>
                if structure \<noteq> expected_structure then False
                else if expected_protocol AND protocol = 0 then False
                else True))"

section \<open>Contexts\<close>

text \<open>
  What the container layer calls on a context. \<open>ctx_next\<close> is \<open>next\<close> on a scan of the context
  (\<open>None\<close> when it needs more pages than it is given), \<open>ctx_bound\<close> the codec's
  \<open>upper_bound_of_prefix\<close>. \<open>'e\<close> encoded keys, \<open>'g\<close> scan states, \<open>'s\<close> context states. The kind
  decides which of the access protocols the context implements.
\<close>

datatype ctx_kind = Snapshot_Kind | Transaction_Kind | Write_Batch_Kind

record ('e, 'g, 's) kv_ctx =
  ctx_kind :: ctx_kind
  ctx_read :: "key \<Rightarrow> 's \<Rightarrow> pyval option res"
  ctx_has :: "key \<Rightarrow> 's \<Rightarrow> bool res"
  ctx_put :: "key \<Rightarrow> pyval \<Rightarrow> 's \<Rightarrow> unit res \<times> 's"
  ctx_delete :: "key \<Rightarrow> 's \<Rightarrow> unit res \<times> 's"
  ctx_bound :: "key \<Rightarrow> 'e res"
  ctx_scan :: 'g
  ctx_next :: "'e scan_options \<Rightarrow> iterator_type \<Rightarrow> 'g \<Rightarrow> 's \<Rightarrow> (pyval event \<times> 'g \<times> 's) option"

definition require_read_context :: "('e, 'g, 's) kv_ctx \<Rightarrow> unit res" where
  "require_read_context ctx =
     (if ctx_kind ctx \<notin> {Snapshot_Kind, Transaction_Kind} then Inl StorageInterfaceError else Inr ())"

definition require_write_context :: "('e, 'g, 's) kv_ctx \<Rightarrow> unit res" where
  "require_write_context ctx =
     (if ctx_kind ctx \<notin> {Transaction_Kind, Write_Batch_Kind} then Inl StorageInterfaceError else Inr ())"

definition require_readwrite_context :: "('e, 'g, 's) kv_ctx \<Rightarrow> unit res" where
  "require_readwrite_context ctx =
     (if ctx_kind ctx \<noteq> Transaction_Kind then Inl StorageInterfaceError else Inr ())"

definition require_transaction :: "('e, 'g, 's) kv_ctx \<Rightarrow> unit res" where
  "require_transaction ctx =
     (if ctx_kind ctx \<noteq> Transaction_Kind then Inl StorageInterfaceError else Inr ())"

definition require_snapshot :: "('e, 'g, 's) kv_ctx \<Rightarrow> unit res" where
  "require_snapshot ctx =
     (if ctx_kind ctx \<noteq> Snapshot_Kind then Inl StorageInterfaceError else Inr ())"

definition require_write_batch :: "('e, 'g, 's) kv_ctx \<Rightarrow> unit res" where
  "require_write_batch ctx =
     (if ctx_kind ctx \<noteq> Write_Batch_Kind then Inl StorageInterfaceError else Inr ())"

section \<open>Nodes\<close>

text \<open>A field that is \<open>NOT_SET\<close>, or \<open>None\<close> by default, is \<open>None\<close> here.\<close>

datatype node_type = PRIMITIVE | CONTAINER | NOT_FOUND

record node_info =
  ni_site :: site
  ni_exists :: bool
  ni_type :: node_type
  ni_raw :: "pyval option"
  ni_structure :: "pyval option"
  ni_protocol :: "int option"
  ni_primitive :: "pyval option"

record parent_info =
  pi_site :: site
  pi_exists :: bool
  pi_structure :: "pyval option"
  pi_protocol :: "int option"
  pi_raw :: "pyval option"

record parent_chain =
  pc_chain :: "parent_info list"
  pc_missing :: "site list"
  pc_malformed :: "site list"

definition all_exist :: "parent_chain \<Rightarrow> bool" where
  "all_exist pc \<longleftrightarrow> length (pc_missing pc) = 0"

definition all_healthy :: "parent_chain \<Rightarrow> bool" where
  "all_healthy pc \<longleftrightarrow> length (pc_malformed pc) = 0"

definition read_site :: "('e, 'g, 's) kv_ctx \<Rightarrow> site \<Rightarrow> 's \<Rightarrow> pyval option res" where
  "read_site ctx site s = rbind (require_read_context ctx) (\<lambda>_. ctx_read ctx site s)"

definition node_exists :: "('e, 'g, 's) kv_ctx \<Rightarrow> site \<Rightarrow> 's \<Rightarrow> bool res" where
  "node_exists ctx site s = rbind (require_read_context ctx) (\<lambda>_. ctx_has ctx site s)"

text \<open>The keyword \<open>raw_value\<close>: \<open>None\<close> is \<open>NOT_SET\<close>, \<open>Some None\<close> is \<open>EMPTY\<close>.\<close>

definition get_node_type ::
  "('e, 'g, 's) kv_ctx \<Rightarrow> site \<Rightarrow> pyval option option \<Rightarrow> 's \<Rightarrow> node_type res" where
  "get_node_type ctx site raw_value s =
     rbind (case raw_value of None \<Rightarrow> read_site ctx site s | Some raw \<Rightarrow> Inr raw) (\<lambda>raw.
       case raw of
         None \<Rightarrow> Inr NOT_FOUND
       | Some v \<Rightarrow> rbind (is_marker v) (\<lambda>m. Inr (if m then CONTAINER else PRIMITIVE)))"

definition get_node_info ::
  "('e, 'g, 's) kv_ctx \<Rightarrow> site \<Rightarrow> pyval option option \<Rightarrow> 's \<Rightarrow> node_info res" where
  "get_node_info ctx site raw_value s =
     rbind (case raw_value of None \<Rightarrow> read_site ctx site s | Some raw \<Rightarrow> Inr raw) (\<lambda>raw.
       case raw of
         None \<Rightarrow> Inr \<lparr>ni_site = site, ni_exists = False, ni_type = NOT_FOUND, ni_raw = None,
                   ni_structure = None, ni_protocol = None, ni_primitive = None\<rparr>
       | Some v \<Rightarrow> rbind (extract_marker v) (\<lambda>m.
           Inr (case m of
             Some (structure, protocol) \<Rightarrow>
               \<lparr>ni_site = site, ni_exists = True, ni_type = CONTAINER, ni_raw = Some v,
                ni_structure = Some structure, ni_protocol = Some protocol, ni_primitive = None\<rparr>
           | None \<Rightarrow>
               \<lparr>ni_site = site, ni_exists = True, ni_type = PRIMITIVE, ni_raw = Some v,
                ni_structure = None, ni_protocol = None, ni_primitive = Some v\<rparr>)))"

text \<open>The loop over the ancestors; its state is the three lists.\<close>

fun gather_loop ::
  "('e, 'g, 's) kv_ctx \<Rightarrow> site list \<Rightarrow> 's \<Rightarrow> parent_chain \<Rightarrow> parent_chain res" where
  "gather_loop ctx [] s pc = Inr pc"
| "gather_loop ctx (a # as) s pc =
     rbind (get_node_info ctx a None s) (\<lambda>info.
       gather_loop ctx as s
         (if \<not> ni_exists info then
            \<lparr>pc_chain = pc_chain pc @ [\<lparr>pi_site = a, pi_exists = False, pi_structure = None,
                pi_protocol = None, pi_raw = None\<rparr>],
             pc_missing = pc_missing pc @ [a], pc_malformed = pc_malformed pc\<rparr>
          else if ni_type info = CONTAINER then
            (if ni_structure info = None \<or> ni_protocol info = None then
               \<lparr>pc_chain = pc_chain pc @ [\<lparr>pi_site = a, pi_exists = True, pi_structure = None,
                   pi_protocol = None, pi_raw = Some VNone\<rparr>],
                pc_missing = pc_missing pc, pc_malformed = pc_malformed pc @ [a]\<rparr>
             else
               \<lparr>pc_chain = pc_chain pc @ [\<lparr>pi_site = a, pi_exists = True,
                   pi_structure = ni_structure info, pi_protocol = ni_protocol info, pi_raw = Some VNone\<rparr>],
                pc_missing = pc_missing pc, pc_malformed = pc_malformed pc\<rparr>)
          else
            \<lparr>pc_chain = pc_chain pc @ [\<lparr>pi_site = a, pi_exists = True, pi_structure = None,
                pi_protocol = None, pi_raw = ni_primitive info\<rparr>],
             pc_missing = pc_missing pc, pc_malformed = pc_malformed pc @ [a]\<rparr>))"

definition gather_parent_info :: "('e, 'g, 's) kv_ctx \<Rightarrow> site \<Rightarrow> 's \<Rightarrow> parent_chain res" where
  "gather_parent_info ctx site s =
     (let ancestors = get_ancestors site; none = \<lparr>pc_chain = [], pc_missing = [], pc_malformed = []\<rparr> in
      if ancestors = [] then Inr none else gather_loop ctx ancestors s none)"

section \<open>Validation\<close>

text \<open>The prefetched arguments (\<open>node_type\<close>, \<open>parent_info\<close>, \<open>node_info\<close>) are options.\<close>

definition fetch_type ::
  "('e, 'g, 's) kv_ctx \<Rightarrow> site \<Rightarrow> node_type option \<Rightarrow> 's \<Rightarrow> node_type res" where
  "fetch_type ctx site node_type s =
     (case node_type of None \<Rightarrow> get_node_type ctx site None s | Some t \<Rightarrow> Inr t)"

definition fetch_chain ::
  "('e, 'g, 's) kv_ctx \<Rightarrow> site \<Rightarrow> parent_chain option \<Rightarrow> 's \<Rightarrow> parent_chain res" where
  "fetch_chain ctx site parent_info s =
     (case parent_info of None \<Rightarrow> gather_parent_info ctx site s | Some pc \<Rightarrow> Inr pc)"

definition validate_exists ::
  "('e, 'g, 's) kv_ctx \<Rightarrow> site \<Rightarrow> node_type option \<Rightarrow> 's \<Rightarrow> unit res" where
  "validate_exists ctx site node_type s =
     rbind (fetch_type ctx site node_type s) (\<lambda>t.
       if t = NOT_FOUND then Inl ContainerNotFoundError else Inr ())"

definition validate_not_exists ::
  "('e, 'g, 's) kv_ctx \<Rightarrow> site \<Rightarrow> node_type option \<Rightarrow> 's \<Rightarrow> unit res" where
  "validate_not_exists ctx site node_type s =
     rbind (fetch_type ctx site node_type s) (\<lambda>t.
       if t \<noteq> NOT_FOUND then Inl ContainerExistsError else Inr ())"

definition validate_is_container ::
  "('e, 'g, 's) kv_ctx \<Rightarrow> site \<Rightarrow> node_type option \<Rightarrow> 's \<Rightarrow> unit res" where
  "validate_is_container ctx site node_type s =
     rbind (fetch_type ctx site node_type s) (\<lambda>t.
       if t = NOT_FOUND then Inl ContainerNotFoundError
       else if t \<noteq> CONTAINER then Inl ContainerTypeError else Inr ())"

definition validate_is_primitive ::
  "('e, 'g, 's) kv_ctx \<Rightarrow> site \<Rightarrow> node_type option \<Rightarrow> 's \<Rightarrow> unit res" where
  "validate_is_primitive ctx site node_type s =
     rbind (fetch_type ctx site node_type s) (\<lambda>t.
       if t = NOT_FOUND then Inl ContainerNotFoundError
       else if t \<noteq> PRIMITIVE then Inl ContainerTypeError else Inr ())"

definition validate_parents_exist ::
  "('e, 'g, 's) kv_ctx \<Rightarrow> site \<Rightarrow> parent_chain option \<Rightarrow> 's \<Rightarrow> unit res" where
  "validate_parents_exist ctx site parent_info s =
     rbind (fetch_chain ctx site parent_info s) (\<lambda>pc.
       if \<not> all_exist pc then Inl ContainerNotFoundError else Inr ())"

definition validate_parents_healthy ::
  "('e, 'g, 's) kv_ctx \<Rightarrow> site \<Rightarrow> parent_chain option \<Rightarrow> 's \<Rightarrow> unit res" where
  "validate_parents_healthy ctx site parent_info s =
     rbind (fetch_chain ctx site parent_info s) (\<lambda>pc.
       if \<not> all_healthy pc then Inl ContainerTypeError else Inr ())"

definition validate_parents_chain ::
  "('e, 'g, 's) kv_ctx \<Rightarrow> site \<Rightarrow> parent_chain option \<Rightarrow> 's \<Rightarrow> unit res" where
  "validate_parents_chain ctx site parent_info s =
     rbind (fetch_chain ctx site parent_info s) (\<lambda>pc.
       if \<not> all_exist pc then Inl ContainerNotFoundError
       else if \<not> all_healthy pc then Inl ContainerTypeError else Inr ())"

definition validate_compatible ::
  "('e, 'g, 's) kv_ctx \<Rightarrow> site \<Rightarrow> pyval \<Rightarrow> int \<Rightarrow> node_info option \<Rightarrow> 's \<Rightarrow> unit res" where
  "validate_compatible ctx site expected_structure expected_protocol node_info s =
     rbind (case node_info of None \<Rightarrow> get_node_info ctx site None s | Some i \<Rightarrow> Inr i) (\<lambda>info.
       if \<not> ni_exists info then Inl ContainerNotFoundError
       else if ni_type info \<noteq> CONTAINER then Inl ContainerTypeError
       else (case (ni_structure info, ni_protocol info) of
               (Some structure, Some protocol) \<Rightarrow>
                 if structure \<noteq> expected_structure then Inl ContainerTypeError
                 else if expected_protocol AND protocol = 0 then Inl ContainerTypeError
                 else Inr ()
             | _ \<Rightarrow> Inl ContainerTypeError))"

end
