(* ===== verification/Container_Ops.thy ===== *)
theory Container_Ops
  imports Container_Node "HOL-Library.Monad_Syntax"
begin

text \<open>
  The operations of the container layer: \<open>container_ops.py\<close> and \<open>meta_ops.py\<close>, over a context
  given by the record \<open>kv_ctx\<close>. A loop over a scan is a \<open>partial_function\<close> that steps the scan with
  \<open>ctx_next\<close>; a generator is modelled as drained by its caller. Error messages are dropped, and with
  them the \<open>owner\<close> an error names.
\<close>

section \<open>Results of operations\<close>

text \<open>
  An operation that writes returns its result and the new state. \<open>attempt\<close> runs the rest of an
  operation on the result of a call that may raise and leaves the state alone.
\<close>

definition attempt :: "'a res \<Rightarrow> 's \<Rightarrow> ('a \<Rightarrow> 'b res \<times> 's) \<Rightarrow> 'b res \<times> 's" where
  "attempt r s f = (case r of Inl e \<Rightarrow> (Inl e, s) | Inr v \<Rightarrow> f v)"

text \<open>The same for an operation that runs a scan, which returns \<open>None\<close> when a \<open>next\<close> does.\<close>

definition attempt_scan :: "'a res \<Rightarrow> 's \<Rightarrow> ('a \<Rightarrow> ('b res \<times> 's) option) \<Rightarrow> ('b res \<times> 's) option" where
  "attempt_scan r s f = (case r of Inl e \<Rightarrow> Some (Inl e, s) | Inr v \<Rightarrow> f v)"

text \<open>And for a generator, drained by its caller: the items it hands out, and how it ends.\<close>

definition attempt_gen ::
  "'a res \<Rightarrow> 's \<Rightarrow> ('a \<Rightarrow> ('b list \<times> unit res \<times> 's) option) \<Rightarrow> ('b list \<times> unit res \<times> 's) option" where
  "attempt_gen r s f = (case r of Inl e \<Rightarrow> Some ([], Inl e, s) | Inr v \<Rightarrow> f v)"

section \<open>Loops over a scan\<close>

fun scanned_key :: "'p scanned \<Rightarrow> key" where
  "scanned_key (Out_Key k) = k"
| "scanned_key (Out_Item k v) = k"
| "scanned_key (Out_Value v) = []"

fun scanned_value :: "pyval scanned \<Rightarrow> pyval option" where
  "scanned_value (Out_Value v) = (if v = VEmpty then None else Some v)"
| "scanned_value (Out_Item k v) = (if v = VEmpty then None else Some v)"
| "scanned_value (Out_Key k) = None"

text \<open>\<open>for row in rows: yield f(row)\<close>.\<close>

partial_function (option) scan_map ::
  "('e, 'g, 's) kv_ctx \<Rightarrow> 'e scan_options \<Rightarrow> iterator_type \<Rightarrow> (pyval scanned \<Rightarrow> 's \<Rightarrow> 'b res) \<Rightarrow> 'g \<Rightarrow> 's \<Rightarrow>
   ('b list \<times> unit res \<times> 's) option" where
  "scan_map ctx options it f g s =
     do {
       (ev, g, s) \<leftarrow> ctx_next ctx options it g s;
       (case ev of
          Return \<Rightarrow> Some ([], Inr (), s)
        | Raise e \<Rightarrow> Some ([], Inl e, s)
        | Yield row \<Rightarrow>
            (case f row s of
               Inl e \<Rightarrow> Some ([], Inl e, s)
             | Inr y \<Rightarrow> do {
                 (ys, r, s) \<leftarrow> scan_map ctx options it f g s;
                 Some (y # ys, r, s)
               }))
     }"

text \<open>\<open>for key in keys: ctx.delete(key)\<close>, the delete between two \<open>next\<close> calls.\<close>

partial_function (option) delete_keys ::
  "('e, 'g, 's) kv_ctx \<Rightarrow> 'e scan_options \<Rightarrow> 'g \<Rightarrow> 's \<Rightarrow> (unit res \<times> 's) option" where
  "delete_keys ctx options g s =
     do {
       (ev, g, s) \<leftarrow> ctx_next ctx options KEYS g s;
       (case ev of
          Return \<Rightarrow> Some (Inr (), s)
        | Raise e \<Rightarrow> Some (Inl e, s)
        | Yield row \<Rightarrow>
            (case ctx_delete ctx (scanned_key row) s of
               (Inl e, s) \<Rightarrow> Some (Inl e, s)
             | (Inr _, s) \<Rightarrow> delete_keys ctx options g s))
     }"

section \<open>Scan options\<close>

definition subtree_options :: "site \<Rightarrow> 'e scan_options" where
  "subtree_options site =
     \<lparr>so_start = Some site, so_reverse = False, so_limit = None, so_filter = Some (PrefixFilter site),
      so_break_filter = Some (PrefixFilter site), so_start_encoded = None, so_max_depth = None\<rparr>"

definition child_scan_options :: "('e, 'g, 's) kv_ctx \<Rightarrow> site \<Rightarrow> bool \<Rightarrow> 'e scan_options res" where
  "child_scan_options ctx site reverse =
     (let prefix = PrefixFilter site; child_len = LengthFilter (int (length site + 1)) in
      if reverse then
        rbind (ctx_bound ctx site) (\<lambda>bound. Inr
          \<lparr>so_start = None, so_reverse = True, so_limit = None,
           so_filter = Some (filter_and prefix child_len), so_break_filter = Some prefix,
           so_start_encoded = Some bound, so_max_depth = Some (int (length site + 1))\<rparr>)
      else Inr
        \<lparr>so_start = Some site, so_reverse = False, so_limit = None,
         so_filter = Some (filter_and prefix child_len), so_break_filter = Some prefix,
         so_start_encoded = None, so_max_depth = Some (int (length site + 1))\<rparr>)"

section \<open>Container lifecycle\<close>

definition create_container ::
  "('e, 'g, 's) kv_ctx \<Rightarrow> site \<Rightarrow> pyval \<Rightarrow> int \<Rightarrow> bool \<Rightarrow> node_info option \<Rightarrow> 's \<Rightarrow> unit res \<times> 's" where
  "create_container ctx site structure protocol validate_parent node_info s =
     attempt (case node_info of None \<Rightarrow> get_node_info ctx site None s | Some i \<Rightarrow> Inr i) s (\<lambda>node_info.
       if ni_exists node_info then
         if ni_type node_info \<noteq> CONTAINER then (Inl ContainerTypeError, s)
         else (case validate_compatible ctx site structure protocol (Some node_info) s of
                 Inr _ \<Rightarrow> (Inr (), s)
               | Inl e \<Rightarrow> (Inl (if e = ContainerTypeError then ContainerExistsError else e), s))
       else
         attempt (if validate_parent \<and> length site > 1 then validate_is_container ctx (butlast site) None s
                  else Inr ()) s (\<lambda>_.
           let marker = create_marker structure protocol in
           attempt (require_write_context ctx) s (\<lambda>_. ctx_put ctx site marker s)))"

definition delete_subtree :: "('e, 'g, 's) kv_ctx \<Rightarrow> site \<Rightarrow> 's \<Rightarrow> (unit res \<times> 's) option" where
  "delete_subtree ctx site s = delete_keys ctx (subtree_options site) (ctx_scan ctx) s"

definition delete_descendants :: "('e, 'g, 's) kv_ctx \<Rightarrow> site \<Rightarrow> 's \<Rightarrow> (unit res \<times> 's) option" where
  "delete_descendants ctx site s =
     attempt_scan (require_readwrite_context ctx) s (\<lambda>_. do {
       (r, s) \<leftarrow> delete_subtree ctx site s;
       attempt_scan r s (\<lambda>_.
         if site \<noteq> [] \<and> hd site = DATA_ROOT then delete_subtree ctx (METADATA_ROOT # tl site) s
         else Some (Inr (), s))
     })"

definition delete_container :: "('e, 'g, 's) kv_ctx \<Rightarrow> site \<Rightarrow> 's \<Rightarrow> (unit res \<times> 's) option" where
  "delete_container ctx site s =
     attempt_scan (get_node_info ctx site None s) s (\<lambda>info.
       if \<not> ni_exists info then Some (Inr (), s)
       else if ni_type info \<noteq> CONTAINER then Some (Inl ContainerTypeError, s)
       else delete_descendants ctx site s)"

text \<open>The loop over the materialised items.\<close>

fun move_items ::
  "('e, 'g, 's) kv_ctx \<Rightarrow> nat \<Rightarrow> site \<Rightarrow> (key \<times> pyval) list \<Rightarrow> 's \<Rightarrow> unit res \<times> 's" where
  "move_items ctx src_prefix_len dst_site [] s = (Inr (), s)"
| "move_items ctx src_prefix_len dst_site ((key, val) # items) s =
     (let new_key = dst_site @ drop src_prefix_len key; (r, s) = ctx_put ctx new_key val s in
      attempt r s (\<lambda>_. let (r, s) = ctx_delete ctx key s in
        attempt r s (\<lambda>_. move_items ctx src_prefix_len dst_site items s)))"

definition scanned_item :: "pyval scanned \<Rightarrow> 's \<Rightarrow> (key \<times> pyval) res" where
  "scanned_item row s = Inr (case row of Out_Item k v \<Rightarrow> (k, v) | Out_Key k \<Rightarrow> (k, VEmpty) | Out_Value v \<Rightarrow> ([], v))"

definition move_child_subtree ::
  "('e, 'g, 's) kv_ctx \<Rightarrow> site \<Rightarrow> seg \<Rightarrow> seg \<Rightarrow> 's \<Rightarrow> (unit res \<times> 's) option" where
  "move_child_subtree ctx parent_site src_key dst_key s =
     (if src_key = dst_key then Some (Inr (), s)
      else attempt_scan (require_readwrite_context ctx) s (\<lambda>_.
        let src_site = parent_site @ [src_key]; dst_site = parent_site @ [dst_key] in
        do {
          (items, r, s) \<leftarrow> scan_map ctx (subtree_options src_site) ITEMS scanned_item (ctx_scan ctx) s;
          attempt_scan r s (\<lambda>_. Some (move_items ctx (length src_site) dst_site items s))
        }))"

section \<open>Direct children: queries\<close>

definition exists_child :: "('e, 'g, 's) kv_ctx \<Rightarrow> site \<Rightarrow> seg \<Rightarrow> bool \<Rightarrow> 's \<Rightarrow> bool res" where
  "exists_child ctx site key strict s =
     (let child_site = site @ [key] in
      rbind (get_node_type ctx child_site None s) (\<lambda>child_type.
        if child_type \<noteq> NOT_FOUND then Inr True
        else if strict then rbind (node_exists ctx site s) (\<lambda>here.
          if \<not> here then Inl ContainerNotFoundError else Inr False)
        else Inr False))"

definition get_child_type :: "('e, 'g, 's) kv_ctx \<Rightarrow> site \<Rightarrow> seg \<Rightarrow> 's \<Rightarrow> node_type res" where
  "get_child_type ctx site key s = (let child_site = site @ [key] in get_node_type ctx child_site None s)"

text \<open>The loop of \<open>_strict_child_scan\<close> (with its \<open>seen\<close>), and the check after it.\<close>

partial_function (option) strict_child_loop ::
  "('e, 'g, 's) kv_ctx \<Rightarrow> 'e scan_options \<Rightarrow> iterator_type \<Rightarrow> nat \<Rightarrow> int option \<Rightarrow> bool \<Rightarrow> int \<Rightarrow> 'g \<Rightarrow> 's \<Rightarrow>
   (pyval scanned list \<times> unit res \<times> bool \<times> 's) option" where
  "strict_child_loop ctx options it depth limit seen yielded g s =
     do {
       (ev, g, s) \<leftarrow> ctx_next ctx options it g s;
       (case ev of
          Return \<Rightarrow> Some ([], Inr (), seen, s)
        | Raise e \<Rightarrow> Some ([], Inl e, seen, s)
        | Yield row \<Rightarrow>
            if length (scanned_key row) \<noteq> depth
            then strict_child_loop ctx options it depth limit True yielded g s
            else if (case limit of None \<Rightarrow> False | Some n \<Rightarrow> yielded + 1 \<ge> n)
            then Some ([row], Inr (), True, s)
            else do {
              (rows, r, seen, s) \<leftarrow> strict_child_loop ctx options it depth limit True (yielded + 1) g s;
              Some (row # rows, r, seen, s)
            })
     }"

definition strict_child_scan ::
  "('e, 'g, 's) kv_ctx \<Rightarrow> site \<Rightarrow> bool \<Rightarrow> iterator_type \<Rightarrow> int option \<Rightarrow> 's \<Rightarrow>
   (pyval scanned list \<times> unit res \<times> 's) option" where
  "strict_child_scan ctx site reverse it limit s =
     attempt_gen (child_scan_options ctx site reverse) s (\<lambda>base.
       let options = base\<lparr>so_filter := so_break_filter base, so_limit := map_option (\<lambda>n. n + 1) limit\<rparr> in
       attempt_gen (require_read_context ctx) s (\<lambda>_. do {
         (rows, r, seen, s) \<leftarrow>
           strict_child_loop ctx options it (length site + 1) limit False 0 (ctx_scan ctx) s;
         Some (rows, rbind r (\<lambda>_. if \<not> seen then Inl ContainerNotFoundError else Inr ()), s)
       }))"

text \<open>\<open>rows\<close> is what the wrapped iterator hands out and how it ends, in the state it leaves.\<close>

definition scan_or_absent ::
  "('e, 'g, 's) kv_ctx \<Rightarrow> 'b list \<times> unit res \<times> 's \<Rightarrow> site \<Rightarrow> 'b list \<times> unit res \<times> 's" where
  "scan_or_absent ctx rows site =
     (let (ys, r, s) = rows in
      (ys, rbind r (\<lambda>_. if ys = [] then rbind (node_exists ctx site s) (\<lambda>here.
             if \<not> here then Inl ContainerNotFoundError else Inr ()) else Inr ()), s))"

text \<open>The rows of a plain child scan, mapped.\<close>

definition child_scan ::
  "('e, 'g, 's) kv_ctx \<Rightarrow> site \<Rightarrow> bool \<Rightarrow> iterator_type \<Rightarrow> (pyval scanned \<Rightarrow> 's \<Rightarrow> 'b res) \<Rightarrow> 's \<Rightarrow>
   ('b list \<times> unit res \<times> 's) option" where
  "child_scan ctx site reverse it f s =
     attempt_gen (require_read_context ctx) s (\<lambda>_.
       attempt_gen (child_scan_options ctx site reverse) s (\<lambda>options.
         scan_map ctx options it f (ctx_scan ctx) s))"

text \<open>\<open>if validate: validate_is_container(site, ctx)\<close>.\<close>

definition validate_if :: "('e, 'g, 's) kv_ctx \<Rightarrow> site \<Rightarrow> bool \<Rightarrow> 's \<Rightarrow> unit res" where
  "validate_if ctx site validate s = (if validate then validate_is_container ctx site None s else Inr ())"

definition iter_child_keys ::
  "('e, 'g, 's) kv_ctx \<Rightarrow> site \<Rightarrow> bool \<Rightarrow> bool \<Rightarrow> bool \<Rightarrow> 's \<Rightarrow> (seg list \<times> unit res \<times> 's) option" where
  "iter_child_keys ctx site validate reverse strict s =
     attempt_gen (validate_if ctx site validate s) s (\<lambda>_.
       if strict then do {
         (rows, r, s) \<leftarrow> strict_child_scan ctx site reverse KEYS None s;
         Some (map (\<lambda>row. last (scanned_key row)) rows, r, s)
       }
       else child_scan ctx site reverse KEYS (\<lambda>row _. Inr (last (scanned_key row))) s)"

definition iter_child_values ::
  "('e, 'g, 's) kv_ctx \<Rightarrow> site \<Rightarrow> bool \<Rightarrow> bool \<Rightarrow> 's \<Rightarrow> (node_info list \<times> unit res \<times> 's) option" where
  "iter_child_values ctx site validate reverse s =
     attempt_gen (validate_if ctx site validate s) s (\<lambda>_.
       child_scan ctx site reverse ITEMS
         (\<lambda>row s. get_node_info ctx (scanned_key row) (Some (scanned_value row)) s) s)"

text \<open>\<open>for key, value in rows: yield (key[-1], get_node_info(...))\<close> over rows already handed out.\<close>

fun yield_map :: "('a \<Rightarrow> 'b res) \<Rightarrow> 'a list \<Rightarrow> unit res \<Rightarrow> 'b list \<times> unit res" where
  "yield_map f [] r = ([], r)"
| "yield_map f (x # xs) r =
     (case f x of
        Inl e \<Rightarrow> ([], Inl e)
      | Inr y \<Rightarrow> let (ys, r) = yield_map f xs r in (y # ys, r))"

definition child_info :: "('e, 'g, 's) kv_ctx \<Rightarrow> 's \<Rightarrow> pyval scanned \<Rightarrow> (seg \<times> node_info) res" where
  "child_info ctx s row =
     rbind (get_node_info ctx (scanned_key row) (Some (scanned_value row)) s) (\<lambda>info.
       Inr (last (scanned_key row), info))"

definition iter_children ::
  "('e, 'g, 's) kv_ctx \<Rightarrow> site \<Rightarrow> bool \<Rightarrow> bool \<Rightarrow> bool \<Rightarrow> 's \<Rightarrow> ((seg \<times> node_info) list \<times> unit res \<times> 's) option" where
  "iter_children ctx site validate reverse strict s =
     attempt_gen (validate_if ctx site validate s) s (\<lambda>_.
       if strict then do {
         (rows, r, s) \<leftarrow> strict_child_scan ctx site reverse ITEMS None s;
         (let (ys, r) = yield_map (child_info ctx s) rows r in Some (ys, r, s))
       }
       else child_scan ctx site reverse ITEMS (\<lambda>row s. child_info ctx s row) s)"

definition count_children ::
  "('e, 'g, 's) kv_ctx \<Rightarrow> site \<Rightarrow> bool \<Rightarrow> bool \<Rightarrow> 's \<Rightarrow> (int res \<times> 's) option" where
  "count_children ctx site validate strict s =
     attempt_scan (validate_if ctx site validate s) s (\<lambda>_.
       if strict then do {
         (rows, r, s) \<leftarrow> strict_child_scan ctx site False KEYS None s;
         Some (rbind r (\<lambda>_. Inr (int (length rows))), s)
       }
       else do {
         (rows, r, s) \<leftarrow> child_scan ctx site False KEYS (\<lambda>row _. Inr row) s;
         Some (rbind r (\<lambda>_. Inr (int (length rows))), s)
       })"

definition has_children ::
  "('e, 'g, 's) kv_ctx \<Rightarrow> site \<Rightarrow> bool \<Rightarrow> bool \<Rightarrow> 's \<Rightarrow> (bool res \<times> 's) option" where
  "has_children ctx site validate strict s =
     attempt_scan (validate_if ctx site validate s) s (\<lambda>_.
       if strict then do {
         (rows, r, s) \<leftarrow> strict_child_scan ctx site False KEYS (Some 1) s;
         Some (if rows \<noteq> [] then Inr True else rbind r (\<lambda>_. Inr False), s)
       }
       else
         attempt_scan (child_scan_options ctx site False) s (\<lambda>base.
           let options = base\<lparr>so_limit := Some 1\<rparr> in
           attempt_scan (require_read_context ctx) s (\<lambda>_. do {
             (ev, g, s) \<leftarrow> ctx_next ctx options KEYS (ctx_scan ctx) s;
             Some (case ev of Yield _ \<Rightarrow> Inr True | Return \<Rightarrow> Inr False | Raise e \<Rightarrow> Inl e, s)
           })))"

section \<open>Direct children: manipulation\<close>

definition create_child_container ::
  "('e, 'g, 's) kv_ctx \<Rightarrow> site \<Rightarrow> seg \<Rightarrow> pyval \<Rightarrow> int \<Rightarrow> bool \<Rightarrow> 's \<Rightarrow> unit res \<times> 's" where
  "create_child_container ctx parent_site key structure protocol validate s =
     (let child_site = parent_site @ [key] in
      create_container ctx child_site structure protocol validate None s)"

text \<open>The path to the first \<open>EMPTY\<close>; the loops over the items of a mapping and of a sequence.\<close>

fun find_empty :: "pyval \<Rightarrow> pyval list \<Rightarrow> pyval list option"
  and find_empty_items :: "(pyval \<times> pyval) list \<Rightarrow> pyval list \<Rightarrow> pyval list option"
  and find_empty_seq :: "pyval list \<Rightarrow> int \<Rightarrow> pyval list \<Rightarrow> pyval list option" where
  "find_empty VEmpty path = Some path"
| "find_empty (VMap items) path = find_empty_items items path"
| "find_empty (VList xs) path = find_empty_seq xs 0 path"
| "find_empty (VTuple xs) path = find_empty_seq xs 0 path"
| "find_empty (VSet xs) path = find_empty_seq xs 0 path"
| "find_empty VNone path = None"
| "find_empty (VInt i) path = None"
| "find_empty (VStr s) path = None"
| "find_empty (VOther n) path = None"
| "find_empty_items [] path = None"
| "find_empty_items ((key, item) # items) path =
     (case find_empty item (path @ [key]) of None \<Rightarrow> find_empty_items items path | Some found \<Rightarrow> Some found)"
| "find_empty_seq [] index path = None"
| "find_empty_seq (item # xs) index path =
     (case find_empty item (path @ [VInt index]) of None \<Rightarrow> find_empty_seq xs (index + 1) path | Some found \<Rightarrow> Some found)"

definition reject_empty_value :: "site \<Rightarrow> pyval \<Rightarrow> unit res" where
  "reject_empty_value site val = (case find_empty val [] of None \<Rightarrow> Inr () | Some path \<Rightarrow> Inl ValueError)"

definition put_child_primitive ::
  "('e, 'g, 's) kv_ctx \<Rightarrow> site \<Rightarrow> seg \<Rightarrow> pyval \<Rightarrow> bool \<Rightarrow> bool \<Rightarrow> 's \<Rightarrow> unit res \<times> 's" where
  "put_child_primitive ctx parent_site key val validate validate_parent s =
     (let child_site = parent_site @ [key] in
      attempt (reject_empty_value child_site val) s (\<lambda>_.
        attempt (validate_if ctx parent_site validate_parent s) s (\<lambda>_.
          attempt (if validate then
                     rbind (get_node_info ctx child_site None s) (\<lambda>info.
                       if ni_exists info then validate_is_primitive ctx child_site (Some (ni_type info)) s
                       else Inr ())
                   else Inr ()) s (\<lambda>_.
            attempt (require_write_context ctx) s (\<lambda>_. ctx_put ctx child_site val s)))))"

definition put_child_primitive_unsafe ::
  "('e, 'g, 's) kv_ctx \<Rightarrow> site \<Rightarrow> seg \<Rightarrow> pyval \<Rightarrow> 's \<Rightarrow> unit res \<times> 's" where
  "put_child_primitive_unsafe ctx parent_site key val s =
     (let child_site = parent_site @ [key] in
      attempt (reject_empty_value child_site val) s (\<lambda>_.
        attempt (require_write_context ctx) s (\<lambda>_. ctx_put ctx child_site val s)))"

definition get_child_primitive ::
  "('e, 'g, 's) kv_ctx \<Rightarrow> site \<Rightarrow> seg \<Rightarrow> 's \<Rightarrow> pyval option res" where
  "get_child_primitive ctx parent_site key s =
     (let child_site = parent_site @ [key] in
      rbind (get_node_info ctx child_site None s) (\<lambda>info.
        if \<not> ni_exists info then Inr None
        else rbind (validate_is_primitive ctx child_site (Some (ni_type info)) s) (\<lambda>_.
          Inr (ni_primitive info))))"

definition get_child_primitive_unsafe ::
  "('e, 'g, 's) kv_ctx \<Rightarrow> site \<Rightarrow> seg \<Rightarrow> 's \<Rightarrow> pyval option res" where
  "get_child_primitive_unsafe ctx parent_site key s = (let child_site = parent_site @ [key] in read_site ctx child_site s)"

definition delete_child ::
  "('e, 'g, 's) kv_ctx \<Rightarrow> site \<Rightarrow> seg \<Rightarrow> 's \<Rightarrow> (unit res \<times> 's) option" where
  "delete_child ctx parent_site key s =
     attempt_scan (validate_is_container ctx parent_site None s) s (\<lambda>_.
       let child_site = parent_site @ [key] in
       attempt_scan (get_node_info ctx child_site None s) s (\<lambda>info.
         if \<not> ni_exists info then Some (Inr (), s)
         else if ni_type info = CONTAINER then delete_descendants ctx child_site s
         else attempt_scan (require_write_context ctx) s (\<lambda>_. Some (ctx_delete ctx child_site s))))"

definition delete_child_primitive_unsafe ::
  "('e, 'g, 's) kv_ctx \<Rightarrow> site \<Rightarrow> seg \<Rightarrow> 's \<Rightarrow> unit res \<times> 's" where
  "delete_child_primitive_unsafe ctx parent_site key s =
     (let child_site = parent_site @ [key] in
      attempt (require_write_context ctx) s (\<lambda>_. ctx_delete ctx child_site s))"

definition iter_child_primitive_values ::
  "('e, 'g, 's) kv_ctx \<Rightarrow> site \<Rightarrow> 's \<Rightarrow> (pyval option list \<times> unit res \<times> 's) option" where
  "iter_child_primitive_values ctx site s =
     child_scan ctx site False VALUES (\<lambda>row _. Inr (scanned_value row)) s"

partial_function (option) clear_loop ::
  "('e, 'g, 's) kv_ctx \<Rightarrow> 'e scan_options \<Rightarrow> site \<Rightarrow> 'g \<Rightarrow> 's \<Rightarrow> (unit res \<times> 's) option" where
  "clear_loop ctx options site g s =
     do {
       (ev, g, s) \<leftarrow> ctx_next ctx options KEYS g s;
       (case ev of
          Return \<Rightarrow> Some (Inr (), s)
        | Raise e \<Rightarrow> Some (Inl e, s)
        | Yield row \<Rightarrow> do {
            (r, s) \<leftarrow> delete_child ctx site (last (scanned_key row)) s;
            (case r of Inl e \<Rightarrow> Some (Inl e, s) | Inr _ \<Rightarrow> clear_loop ctx options site g s)
          })
     }"

definition clear_children :: "('e, 'g, 's) kv_ctx \<Rightarrow> site \<Rightarrow> bool \<Rightarrow> 's \<Rightarrow> (unit res \<times> 's) option" where
  "clear_children ctx site validate s =
     attempt_scan (validate_if ctx site validate s) s (\<lambda>_.
       attempt_scan (require_read_context ctx) s (\<lambda>_.
         attempt_scan (child_scan_options ctx site False) s (\<lambda>options.
           clear_loop ctx options site (ctx_scan ctx) s)))"

definition clear_children_primitives_unsafe :: "('e, 'g, 's) kv_ctx \<Rightarrow> site \<Rightarrow> 's \<Rightarrow> (unit res \<times> 's) option" where
  "clear_children_primitives_unsafe ctx site s =
     attempt_scan (require_write_context ctx) s (\<lambda>_.
       attempt_scan (require_read_context ctx) s (\<lambda>_.
         attempt_scan (child_scan_options ctx site False) s (\<lambda>options.
           delete_keys ctx options (ctx_scan ctx) s)))"

section \<open>Recursive operations\<close>

definition iter_descendants ::
  "('e, 'g, 's) kv_ctx \<Rightarrow> site \<Rightarrow> int \<Rightarrow> 's \<Rightarrow> (site list \<times> unit res \<times> 's) option" where
  "iter_descendants ctx site depth s =
     (if depth < - 2 \<or> depth = 0 then Some ([], Inl ContainerInvalidDepthError, s)
      else attempt_gen (require_read_context ctx) s (\<lambda>_.
        attempt_gen (validate_is_container ctx site None s) s (\<lambda>_.
          let prefix = PrefixFilter site;
              options =
                (if depth = - 1 then subtree_options site
                 else (subtree_options site)
                   \<lparr>so_filter := Some (filter_and prefix (LengthFilter (int (length site) + depth)))\<rparr>)
          in scan_map ctx options KEYS (\<lambda>row _. Inr (scanned_key row)) (ctx_scan ctx) s)))"

definition walk_descendants ::
  "('e, 'g, 's) kv_ctx \<Rightarrow> site \<Rightarrow> 's \<Rightarrow> ((site \<times> node_type) list \<times> unit res \<times> 's) option" where
  "walk_descendants ctx site s =
     attempt_gen (require_read_context ctx) s (\<lambda>_.
       attempt_gen (validate_is_container ctx site None s) s (\<lambda>_.
         scan_map ctx (subtree_options site) ITEMS
           (\<lambda>row _. rbind (scanned_item row s) (\<lambda>(key, val).
              rbind (is_marker val) (\<lambda>m. Inr (key, if m then CONTAINER else PRIMITIVE))))
           (ctx_scan ctx) s))"

section \<open>Metadata\<close>

text \<open>\<open>(METADATA_ROOT, *site[1:], key)\<close>.\<close>

definition meta_key :: "site \<Rightarrow> seg \<Rightarrow> key" where
  "meta_key site key = METADATA_ROOT # tl site @ [key]"

definition put_metadata :: "('e, 'g, 's) kv_ctx \<Rightarrow> site \<Rightarrow> seg \<Rightarrow> pyval \<Rightarrow> 's \<Rightarrow> unit res \<times> 's" where
  "put_metadata ctx site key val s =
     (let meta_site = meta_key site key in
      attempt (reject_empty_value meta_site val) s (\<lambda>_.
        attempt (require_write_context ctx) s (\<lambda>_. ctx_put ctx meta_site val s)))"

definition get_metadata :: "('e, 'g, 's) kv_ctx \<Rightarrow> site \<Rightarrow> seg \<Rightarrow> pyval \<Rightarrow> 's \<Rightarrow> pyval res" where
  "get_metadata ctx site key fallback s =
     (let meta_site = meta_key site key in
      rbind (read_site ctx meta_site s) (\<lambda>v. Inr (case v of None \<Rightarrow> fallback | Some v \<Rightarrow> v)))"

definition exists_metadata :: "('e, 'g, 's) kv_ctx \<Rightarrow> site \<Rightarrow> seg \<Rightarrow> 's \<Rightarrow> bool res" where
  "exists_metadata ctx site key s = (let meta_site = meta_key site key in node_exists ctx meta_site s)"

definition delete_metadata :: "('e, 'g, 's) kv_ctx \<Rightarrow> site \<Rightarrow> seg \<Rightarrow> 's \<Rightarrow> unit res \<times> 's" where
  "delete_metadata ctx site key s =
     (let meta_site = meta_key site key in
      attempt (require_write_context ctx) s (\<lambda>_. ctx_delete ctx meta_site s))"

definition iter_metadata_keys :: "('e, 'g, 's) kv_ctx \<Rightarrow> site \<Rightarrow> 's \<Rightarrow> (seg list \<times> unit res \<times> 's) option" where
  "iter_metadata_keys ctx site s =
     (let meta_site = METADATA_ROOT # tl site;
          prefix = PrefixFilter meta_site;
          child_len = LengthFilter (int (length meta_site + 1));
          options =
            \<lparr>so_start = Some (meta_site @ [SStr []]), so_reverse = False, so_limit = None,
             so_filter = Some (filter_and prefix child_len), so_break_filter = Some prefix,
             so_start_encoded = None, so_max_depth = Some (int (length meta_site + 1))\<rparr>
      in attempt_gen (require_read_context ctx) s (\<lambda>_.
           scan_map ctx options KEYS (\<lambda>row _. Inr (last (scanned_key row))) (ctx_scan ctx) s))"

end
