(* ===== verification/Scan_Step.thy ===== *)
theory Scan_Step
  imports Container_Ops
begin

text \<open>
  A scan between two \<open>next\<close> calls: what it still has to hand out (\<open>gen_left\<close>), that a \<open>next\<close> hands
  out the first of it, and that deleting the row just handed out leaves the rest. A scan anchored at
  a site hands out the rows under the site (\<open>scan_ref_anchored\<close>).
\<close>

section \<open>One step of a scan\<close>

text \<open>
  \<open>gen_left\<close>: a scan whose generator is at \<open>gs\<close> will hand out \<open>outs\<close> and end with \<open>r\<close>, if
  the rows \<open>m\<close> stay as they are; \<open>just\<close> is the row it has just handed out.
\<close>

definition gen_left ::
  "('e::linorder, key, 'v, 'p) codec \<Rightarrow> 'e scan_options \<Rightarrow> iterator_type \<Rightarrow> ('e \<rightharpoonup> key \<times> 'v) \<Rightarrow> 'e set \<Rightarrow> nat \<Rightarrow>
   'p scanned option \<Rightarrow> ('e, 'v) gen_state \<Rightarrow> 'p scanned list \<times> unit res \<Rightarrow> bool" where
  "gen_left codec options it m U fuel just gs result \<longleftrightarrow>
     (case gs of
        Gen_Start \<Rightarrow> just = None \<and> result = scan_spec codec options it m
      | Gen_Over \<Rightarrow> just = None \<and> result = ([], Inr ())
      | Gen_Yielded g \<Rightarrow>
          gen_ok m U options g \<and> 0 < gen_page g \<and> card (reach U options g) < fuel \<and>
          (\<forall>out. just = Some out \<longrightarrow>
             (\<exists>A e k v. view_rows m (gen_bound g) (gen_inclusive g) (so_reverse options) (gen_stop g) =
                A @ (e, k, v) # left_rows m options g \<and> scan_emit codec it k v = Inr out)) \<and>
          result = (if so_limit options = Some (gen_count g + 1) then ([], Inr ())
            else scan_ref codec options it (map_option (\<lambda>l. l - (gen_count g + 1)) (so_limit options))
              (left_rows m options g)))"

lemma outcome_left:
  assumes o: "outcome_ok codec options it m U count cap T ev gs" and c: "cap < fuel"
    and r: "scan_ref codec options it (map_option (\<lambda>n. n - count) (so_limit options)) T = (outs, r)"
  shows "case outs of
      [] \<Rightarrow> ev = (case r of Inl e \<Rightarrow> Raise e | Inr _ \<Rightarrow> Return)
    | out # outs \<Rightarrow> ev = Yield out \<and> gen_left codec options it m U fuel (Some out) gs (outs, r)"
proof (cases ev)
  case (Yield out)
  let ?left = "map_option (\<lambda>n. n - count) (so_limit options)"
  from o obtain h where h: "gs = Gen_Yielded h" "gen_ok m U options h" "gen_count h = count" "0 < gen_page h"
      "card (reach U options h) \<le> cap"
    and j: "\<exists>A e k v. view_rows m (gen_bound h) (gen_inclusive h) (so_reverse options) (gen_stop h) =
      A @ (e, k, v) # left_rows m options h \<and> scan_emit codec it k v = Inr out"
    and ref: "scan_ref codec options it ?left T = (if ?left = Some 1 then ([out], Inr ())
       else let (outs, r) = scan_ref codec options it (map_option (\<lambda>n. n - 1) ?left) (left_rows m options h)
            in (out # outs, r))"
    unfolding outcome_ok_def Let_def Yield event.case by blast
  define rest where "rest = (if so_limit options = Some (gen_count h + 1) then ([], Inr ())
      else scan_ref codec options it (map_option (\<lambda>l. l - (gen_count h + 1)) (so_limit options)) (left_rows m options h))"
  have "?left = Some 1 \<longleftrightarrow> so_limit options = Some (gen_count h + 1)"
    by (cases "so_limit options") (auto simp: h(3))
  moreover have "map_option (\<lambda>n. n - 1) ?left = map_option (\<lambda>l. l - (gen_count h + 1)) (so_limit options)"
    by (cases "so_limit options") (simp_all add: h(3))
  ultimately have "(outs, r) = (out # fst rest, snd rest)"
    using ref r by (simp add: rest_def case_prod_unfold Let_def split: if_splits)
  moreover have "gen_left codec options it m U fuel (Some out) gs rest"
    using h j c by (simp add: gen_left_def rest_def)
  ultimately show ?thesis using Yield by simp
next
  case Return
  with o r show ?thesis by (simp add: outcome_ok_def)
next
  case (Raise e)
  with o r show ?thesis by (simp add: outcome_ok_def)
qed

context scanned_view begin

lemma start_next:
  assumes k: "keyed codec (view s)" and d: "\<And>d. so_max_depth options = Some d \<Longrightarrow> 1 \<le> d"
    and s: "inv s" and fuel: "card (universe s) < fuel" and spec: "scan_spec codec options it (view s) = (outs, r)"
  shows "\<exists>ev gs s'. scan_next page codec options it fuel False Gen_Start s = Some (ev, gs, s') \<and>
    inv s' \<and> view s' = view s \<and> universe s' = universe s \<and>
    (case outs of
       [] \<Rightarrow> ev = (case r of Inl e \<Rightarrow> Raise e | Inr _ \<Rightarrow> Return)
     | out # outs \<Rightarrow> ev = Yield out \<and> gen_left codec options it (view s) (universe s) fuel (Some out) gs (outs, r))"
proof -
  let ?none = "case so_limit options of None \<Rightarrow> False | Some l \<Rightarrow> l \<le> 0"
  consider (none) ?none
    | (err) e where "\<not> ?none" "scan_bounds codec options = Inl e"
    | (ok) start stop where "\<not> ?none" "scan_bounds codec options = Inr (start, stop)"
    by (cases "scan_bounds codec options") auto
  then show ?thesis
  proof cases
    case none
    then show ?thesis using s spec by (auto simp: scan_next_def scan_spec_def)
  next
    case err
    then show ?thesis using s spec by (auto simp: scan_next_def scan_spec_def)
  next
    case ok
    let ?m = "view s" and ?U = "universe s" and ?g = "scan_first options start stop :: ('e, 'v) gen"
    let ?T = "view_rows ?m start True (so_reverse options) stop"
    note f = rv.finite_universe [OF s] rv.view_universe [OF s]
    have g: "gen_bound ?g = start" "gen_stop ?g = stop" "gen_inclusive ?g" "gen_count ?g = 0" "0 < gen_page ?g"
      using ok(1) by (auto simp: scan_first_def FIRST_PAGE_def split: option.splits)
    have c: "card (reach ?U options ?g) < fuel"
      using fuel(1) card_mono [OF f(1), of "reach ?U options ?g"] by (auto simp: reach_def)
    from scan_while_agree [OF f k d s refl refl g(5) c, of it] obtain ev gs s' where
      r: "scan_while page codec options it fuel False ?g s = Some (ev, gs, s')" "inv s'" "view s' = ?m" "universe s' = ?U"
      and o: "outcome_ok codec options it ?m ?U 0 (card (reach ?U options ?g)) ?T ev gs"
      using g by auto
    have "scan_next page codec options it fuel False Gen_Start s = Some (ev, gs, s')"
      using r(1) ok by (simp add: scan_next_def)
    moreover have "scan_ref codec options it (map_option (\<lambda>n. n - 0) (so_limit options)) ?T = (outs, r)"
      using spec ok scan_ref_stop [OF finite_view [OF s] k ok(2), of it "so_limit options"]
      by (simp add: scan_spec_def option.map_id0 [unfolded id_def])
    ultimately show ?thesis using outcome_left [OF o c] r by blast
  qed
qed

lemma left_next:
  assumes k: "keyed codec (view s)" and d: "\<And>d. so_max_depth options = Some d \<Longrightarrow> 1 \<le> d"
    and s: "inv s" and fuel: "card (universe s) < fuel"
    and g: "gen_left codec options it (view s) (universe s) fuel just gs (outs, r)"
  shows "\<exists>ev gs' s'. scan_next page codec options it fuel False gs s = Some (ev, gs', s') \<and>
    inv s' \<and> view s' = view s \<and> universe s' = universe s \<and>
    (case outs of
       [] \<Rightarrow> ev = (case r of Inl e \<Rightarrow> Raise e | Inr _ \<Rightarrow> Return)
     | out # outs \<Rightarrow> ev = Yield out \<and> gen_left codec options it (view s) (universe s) fuel (Some out) gs' (outs, r))"
proof (cases gs)
  case Gen_Start
  then show ?thesis using g start_next [OF k d s fuel] by (simp add: gen_left_def)
next
  case Gen_Over
  then show ?thesis using g s by (simp add: gen_left_def scan_next_def)
next
  case (Gen_Yielded h)
  show ?thesis
  proof (cases "so_limit options = Some (gen_count h + 1)")
    case True
    then show ?thesis using g s Gen_Yielded by (simp add: gen_left_def scan_next_def Let_def)
  next
    case False
    from g Gen_Yielded have h: "gen_ok (view s) (universe s) options h" "0 < gen_page h"
        "card (reach (universe s) options h) < fuel"
      and ref: "scan_ref codec options it (map_option (\<lambda>l. l - (gen_count h + 1)) (so_limit options))
        (left_rows (view s) options h) = (outs, r)"
      using False by (simp_all add: gen_left_def)
    from scan_next_agree [OF rv.finite_universe [OF s] rv.view_universe [OF s] k d s refl refl h False, of it]
      outcome_left [OF _ h(3) ref] Gen_Yielded
    show ?thesis by blast
  qed
qed

end

lemma gen_left_delete:
  assumes f: "finite (dom m)" and g: "gen_left codec options it m U fuel (Some out) gs result"
    and out: "\<And>e k v. m e = Some (k, v) \<Longrightarrow> scan_emit codec it k v = Inr out \<Longrightarrow> e = e0"
  shows "gen_left codec options it (m(e0 := None)) U fuel None gs result"
proof (cases gs)
  case (Gen_Yielded h)
  from g Gen_Yielded obtain A e k v where
    A: "view_rows m (gen_bound h) (gen_inclusive h) (so_reverse options) (gen_stop h) =
      A @ (e, k, v) # left_rows m options h" and em: "scan_emit codec it k v = Inr out"
    and ok: "gen_ok m U options h"
    by (auto simp: gen_left_def)
  have "(e, k, v) \<in> set (view_rows m (gen_bound h) (gen_inclusive h) (so_reverse options) (gen_stop h))"
    by (simp add: A)
  then have "m e = Some (k, v)" by (simp add: set_view_rows [OF f])
  then have e: "e = e0" using em by (rule out)
  show ?thesis using g gen_ok_delete [OF f ok A] Gen_Yielded by (simp add: gen_left_def e)
qed (use g in \<open>simp_all add: gen_left_def\<close>)

section \<open>A scan anchored at a site\<close>

text \<open>
  The rows a scan hands out when its break filter is the prefix of a site and its depth bound
  is not above the site: no paging, no seeks, no early end.
\<close>

definition row_kept :: "'e scan_options \<Rightarrow> 'e \<times> key \<times> 'v \<Rightarrow> bool" where
  "row_kept options = (\<lambda>(e, k, v). accepts (so_break_filter options) k \<and> \<not> too_deep options k \<and>
     accepts (so_filter options) k)"

definition cut :: "int option \<Rightarrow> 'a list \<Rightarrow> 'a list" where
  "cut left xs = (case left of None \<Rightarrow> xs | Some n \<Rightarrow> take (nat n) xs)"

lemma cut_Cons: "left \<noteq> Some 1 \<Longrightarrow> (\<And>n. left = Some n \<Longrightarrow> 0 < n) \<Longrightarrow>
    cut left (x # xs) = x # cut (map_option (\<lambda>n. n - 1) left) xs"
  by (cases left) (auto simp: cut_def nat_diff_distrib' take_Cons' Suc_nat_eq_nat_zadd1 nat_less_eq_zless)

lemma filter_dropWhile_none: "(\<And>x. P x \<Longrightarrow> \<not> Q x) \<Longrightarrow> filter Q (dropWhile P xs) = filter Q xs"
  by (induction xs) auto

lemma takeWhile_dropWhile: "(\<And>x. P x \<Longrightarrow> B x \<and> \<not> Q x) \<Longrightarrow>
    filter Q (takeWhile B (dropWhile P xs)) = filter Q (takeWhile B xs)"
  by (induction xs) auto

lemma scan_ref_anchored:
  assumes b: "so_break_filter options = Some (PrefixFilter site)"
    and d: "\<And>d. so_max_depth options = Some d \<Longrightarrow> int (length site) \<le> d"
    and em: "\<And>e k v. (e, k, v) \<in> set rows \<Longrightarrow> scan_emit codec it k v = Inr (out k v)"
    and l: "\<And>n. left = Some n \<Longrightarrow> 0 < n"
  shows "scan_ref codec options it left rows =
    (map (\<lambda>(e, k, v). out k v)
      (cut left (filter (row_kept options) (takeWhile (\<lambda>(e, k, v). prefix site k) rows))), Inr ())"
  using em l
proof (induction "length rows" arbitrary: rows left rule: less_induct)
  case (less rows)
  let ?B = "\<lambda>(e, k, v). prefix site k"
  have acc: "accepts (so_break_filter options) k \<longleftrightarrow> prefix site k" for k
    by (auto simp: b accepts_def prefix_iff_take)
  show ?case
  proof (cases rows)
    case Nil
    then show ?thesis by (simp add: cut_def split: option.splits)
  next
    case (Cons row R)
    obtain e k v where row: "row = (e, k, v)" by (cases row)
    have IH: "length R' < length rows \<Longrightarrow> set R' \<subseteq> set rows \<Longrightarrow> (\<And>n. left' = Some n \<Longrightarrow> 0 < n) \<Longrightarrow>
        scan_ref codec options it left' R' = (map (\<lambda>(e, k, v). out k v)
          (cut left' (filter (row_kept options) (takeWhile ?B R'))), Inr ())" for R' left'
      using less(2) by (intro less(1)) auto
    note step = scan_ref_Cons [of codec options it left e k v R]
    consider (stop) "\<not> prefix site k" | (skip) "prefix site k" "too_deep options k"
      | (filtered) "prefix site k" "\<not> too_deep options k" "\<not> accepts (so_filter options) k"
      | (emit) "prefix site k" "\<not> too_deep options k" "accepts (so_filter options) k" by blast
    then show ?thesis
    proof cases
      case stop
      then show ?thesis using step by (simp add: Cons row acc cut_def split: option.splits)
    next
      case skip
      obtain dd where dd: "so_max_depth options = Some dd" "int (length site) \<le> dd"
        using skip(2) d by (auto simp: too_deep_def split: option.splits)
      have D: "?B x \<and> \<not> row_kept options x" if x: "deep_under options k x" for x
      proof -
        obtain e' k' v' where x': "x = (e', k', v')" by (cases x)
        have k': "too_deep options k'" "take (nat dd) k' = take (nat dd) k" "dd < int (length k')"
          using x dd(1) by (simp_all add: deep_under_def x' too_deep_def)
        have "take (length site) (take (nat dd) k') = take (length site) (take (nat dd) k)" by (simp add: k'(2))
        then have "take (length site) k' = take (length site) k" using dd(2) by (simp add: min_def split: if_splits)
        then have "prefix site k'" using skip(1) k'(3) dd(2) by (simp add: prefix_iff_take)
        then show ?thesis using k'(1) by (simp add: x' row_kept_def)
      qed
      have "scan_ref codec options it left rows = scan_ref codec options it left (dropWhile (deep_under options k) R)"
        using step skip by (simp add: Cons row acc)
      also have "\<dots> = (map (\<lambda>(e, k, v). out k v)
          (cut left (filter (row_kept options) (takeWhile ?B (dropWhile (deep_under options k) R)))), Inr ())"
        using less(3) set_dropWhileD [of _ "deep_under options k" R]
        by (intro IH) (auto simp: Cons le_imp_less_Suc length_dropWhile_le)
      also have "filter (row_kept options) (takeWhile ?B (dropWhile (deep_under options k) R)) =
          filter (row_kept options) (takeWhile ?B R)"
        using D by (rule takeWhile_dropWhile)
      finally show ?thesis using skip by (simp add: Cons row row_kept_def)
    next
      case filtered
      have "scan_ref codec options it left R = (map (\<lambda>(e, k, v). out k v)
          (cut left (filter (row_kept options) (takeWhile ?B R))), Inr ())"
        using less(3) by (intro IH) (auto simp: Cons)
      with filtered step show ?thesis by (simp add: Cons row acc row_kept_def)
    next
      case emit
      have e: "scan_emit codec it k v = Inr (out k v)" using less(2) [of e k v] by (simp add: Cons row)
      have "scan_ref codec options it (map_option (\<lambda>n. n - 1) left) R = (map (\<lambda>(e, k, v). out k v)
          (cut (map_option (\<lambda>n. n - 1) left) (filter (row_kept options) (takeWhile ?B R))), Inr ())"
        if "left \<noteq> Some 1"
        using less(3) that by (intro IH) (fastforce simp: Cons)+
      with emit e step less(3) show ?thesis
        by (cases "left = Some 1") (simp_all add: Cons row acc row_kept_def cut_Cons, simp add: cut_def)
    qed
  qed
qed

end
