(* ===== verification/Container_Contract.thy ===== *)
theory Container_Contract
  imports Scan_Step
begin

text \<open>
  What the container layer relies on: the locale \<open>kv_reader\<close> is the contract of a context that
  reads, \<open>kv_context\<close> that of one that writes too.
\<close>

section \<open>The contract of a context\<close>

text \<open>
  The rows a scan anchored at a site hands out, over the map from keys to values a context shows:
  the keys under the site in key order (or its reverse) from the start, without those below the depth
  bound or rejected by the filter, up to the limit.
\<close>

definition from_start :: "'e scan_options \<Rightarrow> key \<Rightarrow> bool" where
  "from_start options k =
     (case so_start options of None \<Rightarrow> True | Some start \<Rightarrow> if so_reverse options then k \<le> start else start \<le> k)"

lemma from_start_fields [simp]:
  "from_start (options\<lparr>so_filter := f\<rparr>) = from_start options"
  "from_start (options\<lparr>so_limit := n\<rparr>) = from_start options"
  "from_start (options\<lparr>so_break_filter := f\<rparr>) = from_start options"
  by (cases "so_start options"; simp add: from_start_def fun_eq_iff)+

definition site_keys :: "(key \<rightharpoonup> pyval) \<Rightarrow> 'e scan_options \<Rightarrow> site \<Rightarrow> key list" where
  "site_keys V options site =
     (let ks = filter (\<lambda>k. prefix site k \<and> from_start options k \<and>
                 \<not> too_deep options k \<and> accepts (so_filter options) k) (sorted_list_of_set (dom V))
      in cut (so_limit options) (if so_reverse options then rev ks else ks))"

definition site_rows :: "(key \<rightharpoonup> pyval) \<Rightarrow> 'e scan_options \<Rightarrow> site \<Rightarrow> (key \<times> pyval) list" where
  "site_rows V options site = map (\<lambda>k. (k, the (V k))) (site_keys V options site)"

text \<open>
  A scan that starts at a site or below it (in reverse, right above the site or at a key below it) and stops
  where the site's prefix ends.
\<close>

definition anchored :: "(key \<Rightarrow> 'e res) \<Rightarrow> (key \<Rightarrow> bool) \<Rightarrow> 'e scan_options \<Rightarrow> site \<Rightarrow> bool" where
  "anchored bound okk options site \<longleftrightarrow>
     so_break_filter options = Some (PrefixFilter site) \<and>
     (\<forall>d. so_max_depth options = Some d \<longrightarrow> 1 \<le> d \<and> int (length site) \<le> d) \<and>
     (\<forall>n. so_limit options = Some n \<longrightarrow> 0 < n) \<and>
     (so_start_encoded options \<noteq> None \<longrightarrow>
        so_reverse options \<and> so_start options = None \<and> bound site = Inr (the (so_start_encoded options))) \<and>
     (so_start_encoded options = None \<longrightarrow>
        so_start options \<noteq> None \<and> okk (the (so_start options)) \<and> prefix site (the (so_start options)))"

fun emit_row :: "iterator_type \<Rightarrow> key \<Rightarrow> pyval \<Rightarrow> pyval scanned" where
  "emit_row KEYS k v = Out_Key k"
| "emit_row VALUES k v = Out_Value v"
| "emit_row ITEMS k v = Out_Item k v"

text \<open>
  \<open>vw\<close> is the map a context state shows, \<open>okk\<close> the keys its codec takes (every segment \<open>okseg\<close>), \<open>weight\<close> a bound on
  the keys a scan may have to pass, which must stay below \<open>pages\<close>; \<open>at options it just g s L\<close> says
  that a scan at \<open>g\<close> has the rows \<open>L\<close> before it and has just handed out the key \<open>just\<close>.
\<close>

locale kv_reader =
  fixes ctx :: "('e, 'g, 's) kv_ctx"
    and inv :: "'s \<Rightarrow> bool"
    and weight :: "'s \<Rightarrow> nat"
    and pages :: nat
    and vw :: "'s \<Rightarrow> key \<rightharpoonup> pyval"
    and okk :: "key \<Rightarrow> bool"
    and okseg :: "seg \<Rightarrow> bool"
    and at :: "'e scan_options \<Rightarrow> iterator_type \<Rightarrow> key option \<Rightarrow> 'g \<Rightarrow> 's \<Rightarrow> (key \<times> pyval) list \<Rightarrow> bool"
  assumes reads: "ctx_kind ctx \<in> {Snapshot_Kind, Transaction_Kind}"
    and finite_vw: "inv s \<Longrightarrow> finite (dom (vw s))"
    and okk_dom: "inv s \<Longrightarrow> vw s k = Some v \<Longrightarrow> okk k"
    and stored: "inv s \<Longrightarrow> vw s k \<noteq> Some VEmpty"
    and okk_iff: "okk k \<longleftrightarrow> k \<noteq> [] \<and> list_all okseg k"
    and okseg_meta: "okseg METADATA_ROOT"
    and okseg_empty: "okseg (SStr [])"
    and read: "inv s \<Longrightarrow> okk k \<Longrightarrow> ctx_read ctx k s = Inr (vw s k)"
    and has: "inv s \<Longrightarrow> okk k \<Longrightarrow> ctx_has ctx k s = Inr (vw s k \<noteq> None)"
    and bound: "okk p \<Longrightarrow> \<exists>b. ctx_bound ctx p = Inr b"
    and scan_start: "inv s \<Longrightarrow> weight s < pages \<Longrightarrow> okk site \<Longrightarrow> anchored (ctx_bound ctx) okk options site \<Longrightarrow>
      at options it None (ctx_scan ctx) s (site_rows (vw s) options site)"
    and scan_next: "at options it just g s L \<Longrightarrow>
      \<exists>ev g' s'. ctx_next ctx options it g s = Some (ev, g', s') \<and> inv s' \<and> weight s' = weight s \<and> vw s' = vw s \<and>
        (case L of
           [] \<Rightarrow> ev = Return
         | (k, v) # L' \<Rightarrow> ev = Yield (emit_row it k v) \<and> at options it (Some k) g' s' L')"
    and at_state: "at options it just g s L \<Longrightarrow> inv s \<and> weight s < pages"

locale kv_context = kv_reader +
  assumes writes: "ctx_kind ctx = Transaction_Kind"
    and put: "inv s \<Longrightarrow> okk k \<Longrightarrow> v \<noteq> VEmpty \<Longrightarrow>
      \<exists>s'. ctx_put ctx k v s = (Inr (), s') \<and> inv s' \<and> weight s' \<le> Suc (weight s) \<and> vw s' = (vw s)(k \<mapsto> v)"
    and delete: "inv s \<Longrightarrow> okk k \<Longrightarrow>
      \<exists>s'. ctx_delete ctx k s = (Inr (), s') \<and> inv s' \<and> weight s' \<le> Suc (weight s) \<and> vw s' = (vw s)(k := None)"
    and delete_just: "at options it (Some k) g s L \<Longrightarrow> it \<noteq> VALUES \<Longrightarrow>
      \<exists>s'. ctx_delete ctx k s = (Inr (), s') \<and> at options it None g s' L \<and> weight s' = weight s \<and>
        vw s' = (vw s)(k := None)"

section \<open>What the rows of a site are\<close>

lemma site_keys_subtree:
  "site_keys V (subtree_options site :: 'e scan_options) site = filter (prefix site) (sorted_list_of_set (dom V))"
proof -
  have "site \<le> k" if "prefix site k" for k using that by (rule prefix_imp_le)
  then show ?thesis
    by (auto simp: site_keys_def subtree_options_def from_start_def cut_def too_deep_def accepts_def prefix_iff_take
        intro!: filter_cong)
qed

lemma sorted_children:
  assumes "finite (dom V)"
  shows "filter (\<lambda>k. prefix site k \<and> length k = Suc (length site)) (sorted_list_of_set (dom V)) =
    map (\<lambda>x. site @ [x]) (sorted_list_of_set {x. site @ [x] \<in> dom V})"
proof (rule sorted_less_unique)
  have f: "finite {x. site @ [x] \<in> dom V}"
    using finite_vimageI [OF assms, of "\<lambda>x. site @ [x]"] by (simp add: vimage_def inj_def)
  show "sorted_wrt (<) (filter (\<lambda>k. prefix site k \<and> length k = Suc (length site)) (sorted_list_of_set (dom V)))"
    by (rule sorted_filter_less) simp
  show "sorted_wrt (<) (map (\<lambda>x. site @ [x]) (sorted_list_of_set {x. site @ [x] \<in> dom V}))"
    by (simp add: sorted_wrt_map)
  have "\<exists>x. k = site @ [x]" if "prefix site k" "length k = Suc (length site)" for k
  proof -
    from that obtain t where "k = site @ t" "length t = Suc 0" by (auto simp: prefix_def)
    then show ?thesis by (cases t) auto
  qed
  with f assms show "set (filter (\<lambda>k. prefix site k \<and> length k = Suc (length site)) (sorted_list_of_set (dom V))) =
      set (map (\<lambda>x. site @ [x]) (sorted_list_of_set {x. site @ [x] \<in> dom V}))"
    by auto blast+
qed

text \<open>The keys a child scan hands out, in either direction.\<close>

definition children :: "(key \<rightharpoonup> pyval) \<Rightarrow> site \<Rightarrow> bool \<Rightarrow> seg list" where
  "children V site reverse =
     (let xs = sorted_list_of_set {x. site @ [x] \<in> dom V} in if reverse then rev xs else xs)"

lemma matches_child:
  "matches (filter_and (PrefixFilter site) (LengthFilter n)) k \<longleftrightarrow> prefix site k \<and> int (length k) = n"
  by (auto simp: matches_and prefix_iff_take)

lemma child_options:
  assumes "child_scan_options ctx site reverse = Inr options" and "okk site" and "finite (dom V)"
  shows "anchored (ctx_bound ctx) okk options site" and "site_keys V options site = map (\<lambda>x. site @ [x]) (children V site reverse)"
proof -
  show "anchored (ctx_bound ctx) okk options site"
    using assms(1,2) by (auto simp: child_scan_options_def Let_def rbind_eq_Inr anchored_def split: if_splits)
  have le: "site \<le> k" if "prefix site k" for k using that by (rule prefix_imp_le)
  have o: "so_limit options = None" "so_reverse options = reverse" "\<not> reverse \<Longrightarrow> so_start options = Some site"
    "reverse \<Longrightarrow> so_start options = None"
    "so_filter options = Some (filter_and (PrefixFilter site) (LengthFilter (int (length site + 1))))"
    "so_max_depth options = Some (int (length site + 1))"
    using assms(1) by (auto simp: child_scan_options_def Let_def rbind_eq_Inr split: if_splits)
  have "filter (\<lambda>k. prefix site k \<and> from_start options k \<and>
        \<not> too_deep options k \<and> accepts (so_filter options) k) (sorted_list_of_set (dom V)) =
      filter (\<lambda>k. prefix site k \<and> length k = Suc (length site)) (sorted_list_of_set (dom V))"
  proof (rule filter_cong [OF refl])
    fix k
    show "(prefix site k \<and> from_start options k \<and>
        \<not> too_deep options k \<and> accepts (so_filter options) k) =
      (prefix site k \<and> length k = Suc (length site))"
      using o le [of k] by (cases reverse) (auto simp: from_start_def too_deep_def accepts_def matches_child simp del: filter_and.simps)
  qed
  then show "site_keys V options site = map (\<lambda>x. site @ [x]) (children V site reverse)"
    using o(1,2) by (simp add: site_keys_def cut_def Let_def sorted_children [OF assms(3)] children_def rev_map)
qed

end
