(* ===== verification/Container_Reads.thy ===== *)
theory Container_Reads
  imports Container_Contract
begin

text \<open>
  What the reading operations of the container layer give over any context that keeps the contract:
  nodes, validation, and the child scans, plain and strict.
\<close>

section \<open>Nodes of a map\<close>

text \<open>What a site holds: nothing, a container marker, a value, or a marker that does not parse.\<close>

definition is_container :: "(key \<rightharpoonup> pyval) \<Rightarrow> site \<Rightarrow> bool" where
  "is_container V site \<longleftrightarrow> (\<exists>v m. V site = Some v \<and> extract_marker v = Inr (Some m))"

lemma extract_create [simp]: "0 \<le> p \<Longrightarrow> extract_marker (create_marker t p) = Inr (Some (t, p))"
  by (simp add: extract_marker_def create_marker_def flag_of_int_def)

lemma get_node_info_raw:
  "get_node_info ctx k (Some raw) s = (case raw of
     None \<Rightarrow> Inr \<lparr>ni_site = k, ni_exists = False, ni_type = NOT_FOUND, ni_raw = None,
       ni_structure = None, ni_protocol = None, ni_primitive = None\<rparr>
   | Some v \<Rightarrow> (case extract_marker v of
       Inl e \<Rightarrow> Inl e
     | Inr None \<Rightarrow> Inr \<lparr>ni_site = k, ni_exists = True, ni_type = PRIMITIVE, ni_raw = Some v,
         ni_structure = None, ni_protocol = None, ni_primitive = Some v\<rparr>
     | Inr (Some (t, p)) \<Rightarrow> Inr \<lparr>ni_site = k, ni_exists = True, ni_type = CONTAINER, ni_raw = Some v,
         ni_structure = Some t, ni_protocol = Some p, ni_primitive = None\<rparr>))"
  by (auto simp: get_node_info_def split: option.splits sum.splits)

text \<open>The keys of a whole subtree, or of one depth below a site.\<close>

definition below :: "(key \<rightharpoonup> pyval) \<Rightarrow> site \<Rightarrow> int \<Rightarrow> key list" where
  "below V site depth = filter (\<lambda>k. prefix site k \<and> (depth = - 1 \<or> int (length k) = int (length site) + depth))
     (sorted_list_of_set (dom V))"

section \<open>Reading\<close>

context kv_reader begin

lemma require_read [simp]: "require_read_context ctx = Inr ()"
  using reads by (simp add: require_read_context_def)

lemma okk_append [simp]: "okk k \<Longrightarrow> okk (k @ l) \<longleftrightarrow> list_all okseg l"
  by (simp add: okk_iff)

lemma read_site_ok: "inv s \<Longrightarrow> okk k \<Longrightarrow> read_site ctx k s = Inr (vw s k)"
  by (simp add: read_site_def read)

lemma node_exists_ok: "inv s \<Longrightarrow> okk k \<Longrightarrow> node_exists ctx k s = Inr (vw s k \<noteq> None)"
  by (simp add: node_exists_def has)

lemma node_info_ok: "inv s \<Longrightarrow> okk k \<Longrightarrow> get_node_info ctx k None s = get_node_info ctx k (Some (vw s k)) s"
  by (simp add: get_node_info_def read_site_ok)

lemma node_type_ok: "inv s \<Longrightarrow> okk k \<Longrightarrow> get_node_type ctx k None s = (case vw s k of
     None \<Rightarrow> Inr NOT_FOUND
   | Some v \<Rightarrow> rbind (is_marker v) (\<lambda>m. Inr (if m then CONTAINER else PRIMITIVE)))"
  by (simp add: get_node_type_def read_site_ok split: option.splits)

lemma validate_is_container_ok:
  "inv s \<Longrightarrow> okk k \<Longrightarrow> validate_is_container ctx k None s = Inr () \<longleftrightarrow> is_container (vw s) k"
  by (auto simp: validate_is_container_def fetch_type_def node_type_ok is_container_def is_marker_def rbind_eq_Inr
      rbind_def split: option.splits sum.splits if_splits)

lemma scan_map_rows:
  assumes "at options it just g s L"
    and "\<And>k v s'. (k, v) \<in> set L \<Longrightarrow> inv s' \<Longrightarrow> vw s' = vw s \<Longrightarrow> f (emit_row it k v) s' = Inr (h k v)"
  shows "\<exists>s'. scan_map ctx options it f g s = Some (map (\<lambda>(k, v). h k v) L, Inr (), s') \<and>
    inv s' \<and> weight s' = weight s \<and> vw s' = vw s"
  using assms
proof (induction L arbitrary: just g s)
  case Nil
  from scan_next [OF Nil(1)] show ?case by (subst scan_map.simps) auto
next
  case (Cons row L)
  obtain k v where row: "row = (k, v)" by (cases row)
  from scan_next [OF Cons.prems(1)] obtain g' s' where
    n: "ctx_next ctx options it g s = Some (Yield (emit_row it k v), g', s')"
    and s': "inv s'" "weight s' = weight s" "vw s' = vw s" and a: "at options it (Some k) g' s' L"
    unfolding row by auto
  from Cons.prems(2) [of k v s'] s' have f: "f (emit_row it k v) s' = Inr (h k v)" by (simp add: row)
  from Cons.IH [OF a] Cons.prems(2) s'(3) obtain s'' where
    "scan_map ctx options it f g' s' = Some (map (\<lambda>(k, v). h k v) L, Inr (), s'')"
    "inv s''" "weight s'' = weight s'" "vw s'' = vw s'" by auto
  with n f s' show ?case by (subst scan_map.simps) (simp add: row)
qed

lemma finite_children [simp]: "inv s \<Longrightarrow> finite {x. \<exists>y. vw s (site @ [x]) = Some y}"
  using finite_vimageI [OF finite_vw, of s "\<lambda>x. site @ [x]"] by (simp add: vimage_def inj_def dom_def)

lemma child_scan_options_ok: "okk site \<Longrightarrow> \<exists>options. child_scan_options ctx site reverse = Inr options"
  using bound [of site] by (auto simp: child_scan_options_def Let_def)

lemma child_scan_rows:
  assumes s: "inv s" "weight s < pages" and k: "okk site"
    and f: "\<And>x v s'. vw s (site @ [x]) = Some v \<Longrightarrow> inv s' \<Longrightarrow> vw s' = vw s \<Longrightarrow> f (emit_row it (site @ [x]) v) s' = Inr (h x)"
  shows "\<exists>s'. child_scan ctx site reverse it f s = Some (map h (children (vw s) site reverse), Inr (), s') \<and>
    inv s' \<and> weight s' = weight s \<and> vw s' = vw s"
proof -
  obtain options where o: "child_scan_options ctx site reverse = Inr options" using child_scan_options_ok [OF k] by blast
  note c = child_options [where okk = okk, OF o k finite_vw [OF s(1)]]
  have L: "site_rows (vw s) options site = map (\<lambda>x. (site @ [x], the (vw s (site @ [x])))) (children (vw s) site reverse)"
    by (simp add: site_rows_def c(2))
  have in_V: "\<exists>v. vw s (site @ [x]) = Some v" if "x \<in> set (children (vw s) site reverse)" for x
    using that s(1) by (auto simp: children_def Let_def dom_def split: if_splits)
  from scan_map_rows [OF scan_start [OF s k c(1), of it], of f "\<lambda>k _. h (last k)"] f in_V
  have "\<exists>s'. scan_map ctx options it f (ctx_scan ctx) s =
      Some (map (\<lambda>(k, v). h (last k)) (site_rows (vw s) options site), Inr (), s') \<and>
      inv s' \<and> weight s' = weight s \<and> vw s' = vw s"
    unfolding L by fastforce
  then show ?thesis using o by (simp add: child_scan_def attempt_gen_def L o_def)
qed

lemma strict_loop_rows:
  assumes "at options it just g s L" and "it \<noteq> VALUES" and "\<And>n. limit = Some n \<Longrightarrow> yielded < n"
  shows "\<exists>s'. strict_child_loop ctx options it depth limit seen yielded g s =
      Some (map (\<lambda>(k, v). emit_row it k v)
        (cut (map_option (\<lambda>n. n - yielded) limit) (filter (\<lambda>(k, v). length k = depth) L)), Inr (), seen \<or> L \<noteq> [], s') \<and>
    inv s' \<and> weight s' = weight s \<and> vw s' = vw s"
  using assms
proof (induction L arbitrary: just g s seen yielded)
  case Nil
  from scan_next [OF Nil(1)] show ?case by (subst strict_child_loop.simps) (auto simp: cut_def split: option.splits)
next
  case (Cons row L)
  obtain k v where row: "row = (k, v)" by (cases row)
  from scan_next [OF Cons.prems(1)] obtain g' s' where
    n: "ctx_next ctx options it g s = Some (Yield (emit_row it k v), g', s')"
    and s': "inv s'" "weight s' = weight s" "vw s' = vw s" and a: "at options it (Some k) g' s' L"
    unfolding row by auto
  have k: "scanned_key (emit_row it k v) = k" using Cons.prems(2) by (cases it) auto
  consider (other) "length k \<noteq> depth" | (last) m where "length k = depth" "limit = Some m" "m \<le> yielded + 1"
    | (more) "length k = depth" "\<And>m. limit = Some m \<Longrightarrow> yielded + 1 < m"
    by (metis linorder_not_less option.exhaust option.inject)
  then show ?case
  proof cases
    case other
    from Cons.IH [OF a Cons.prems(2,3), of True] s' n k other show ?thesis
      by (subst strict_child_loop.simps) (auto simp: row)
  next
    case last
    then have "m - yielded = 1" using Cons.prems(3) [of m] by simp
    with last s' n k show ?thesis by (subst strict_child_loop.simps) (auto simp: row cut_def)
  next
    case more
    have c: "cut (map_option (\<lambda>n. n - yielded) limit) (x # xs) = x # cut (map_option (\<lambda>n. n - (yielded + 1)) limit) xs"
      for x :: "key \<times> pyval" and xs
      using more(2) cut_Cons [of "map_option (\<lambda>n. n - yielded) limit" x xs]
      by (cases limit) (fastforce simp: algebra_simps)+
    have "\<not> (case limit of None \<Rightarrow> False | Some n \<Rightarrow> n \<le> yielded + 1)"
      using more(2) by (auto split: option.splits)
    with Cons.IH [OF a Cons.prems(2) more(2), of True] s' n k more(1) show ?thesis
      by (subst strict_child_loop.simps) (auto simp: row c)
  qed
qed

text \<open>The keys a strict child scan walks: the site's own row, if any, and the children.\<close>

lemma strict_keys:
  fixes base :: "'e scan_options"
  assumes o: "child_scan_options ctx site reverse = Inr base" and k: "okk site" and f: "finite (dom V)"
  shows "anchored (ctx_bound ctx) okk (base\<lparr>so_filter := so_break_filter base, so_limit := None\<rparr>) site"
    and "site_keys V (base\<lparr>so_filter := so_break_filter base, so_limit := None\<rparr>) site =
      (let own = (if V site = None then [] else [site]); below = map (\<lambda>x. site @ [x]) (children V site reverse)
       in if reverse then below @ own else own @ below)"
proof -
  show "anchored (ctx_bound ctx) okk (base\<lparr>so_filter := so_break_filter base, so_limit := None\<rparr>) site"
    using child_options(1) [where okk = okk, OF o k f] by (simp add: anchored_def)
  have b: "so_break_filter base = Some (PrefixFilter site)" "so_reverse base = reverse"
    "\<not> reverse \<Longrightarrow> so_start base = Some site" "reverse \<Longrightarrow> so_start base = None" "so_max_depth base = Some (int (length site + 1))"
    using o by (auto simp: child_scan_options_def Let_def rbind_eq_Inr split: if_splits)
  have le: "site \<le> l" if "prefix site l" for l using that by (rule prefix_imp_le)
  let ?P = "\<lambda>l. prefix site l \<and> length l \<le> Suc (length site)"
  let ?own = "if V site = None then [] else [site]"
  let ?below = "filter (\<lambda>l. prefix site l \<and> length l = Suc (length site)) (sorted_list_of_set (dom V))"
  have "filter ?P (sorted_list_of_set (dom V)) = ?own @ ?below"
  proof (rule sorted_less_unique)
    show "sorted_wrt (<) (filter ?P (sorted_list_of_set (dom V)))" by (rule sorted_filter_less) simp
    have "sorted_wrt (<) ?below" by (rule sorted_filter_less) simp
    moreover have "site < l" if "prefix site l" "length l = Suc (length site)" for l
      using that by (auto simp: prefix_def)
    ultimately show "sorted_wrt (<) (?own @ ?below)" by (auto simp: sorted_wrt_append)
    have eq: "?P l \<longleftrightarrow> l = site \<or> prefix site l \<and> length l = Suc (length site)" for l
      by (auto simp: prefix_def le_Suc_eq)
    from f show "set (filter ?P (sorted_list_of_set (dom V))) = set (?own @ ?below)"
      by (simp only: eq) (auto simp: domIff)
  qed
  moreover have "filter (\<lambda>l. prefix site l \<and> from_start base l \<and> \<not> too_deep base l \<and>
      accepts (so_break_filter base) l) (sorted_list_of_set (dom V)) = filter ?P (sorted_list_of_set (dom V))"
  proof (rule filter_cong [OF refl])
    fix l
    show "(prefix site l \<and> from_start base l \<and> \<not> too_deep base l \<and>
      accepts (so_break_filter base) l) = ?P l"
      using b le [of l] by (cases reverse) (auto simp: from_start_def too_deep_def accepts_def prefix_iff_take)
  qed
  ultimately show "site_keys V (base\<lparr>so_filter := so_break_filter base, so_limit := None\<rparr>) site =
      (let own = ?own; below = map (\<lambda>x. site @ [x]) (children V site reverse)
       in if reverse then below @ own else own @ below)"
    by (simp add: site_keys_def cut_def b(2) sorted_children [OF f] children_def rev_map too_deep_def Let_def)
qed

lemma strict_scan_rows:
  assumes s: "inv s" "weight s < pages" and k: "okk site" and it: "it \<noteq> VALUES"
    and l: "\<And>n. limit = Some n \<Longrightarrow> 0 < n \<and> \<not> reverse"
  shows "\<exists>s'. strict_child_scan ctx site reverse it limit s =
      Some (map (\<lambda>x. emit_row it (site @ [x]) (the (vw s (site @ [x])))) (cut limit (children (vw s) site reverse)),
        if vw s site = None \<and> children (vw s) site reverse = [] then Inl ContainerNotFoundError else Inr (), s') \<and>
    inv s' \<and> weight s' = weight s \<and> vw s' = vw s"
proof -
  obtain base where o: "child_scan_options ctx site reverse = Inr base" using child_scan_options_ok [OF k] by blast
  let ?below = "map (\<lambda>x. site @ [x]) (children (vw s) site reverse)"
  let ?own = "if vw s site = None then [] else [site]"
  let ?opt = "base\<lparr>so_filter := so_break_filter base, so_limit := map_option (\<lambda>n. n + 1) limit\<rparr>"
  define L where "L = site_rows (vw s) ?opt site"
  note c = strict_keys [OF o k finite_vw [OF s(1)]]
  have "so_reverse base = reverse"
    using o by (auto simp: child_scan_options_def Let_def rbind_eq_Inr split: if_splits)
  then have keys: "site_keys (vw s) ?opt site =
      cut (map_option (\<lambda>n. n + 1) limit) (if reverse then ?below @ ?own else ?own @ ?below)"
    using c(2) by (simp add: site_keys_def Let_def cut_def [of None] too_deep_def)
  have a: "anchored (ctx_bound ctx) okk ?opt site" using c(1) l by (auto simp: anchored_def)
  have lim: "cut limit (filter (\<lambda>k. length k = length site + 1) (site_keys (vw s) ?opt site)) = cut limit ?below"
    unfolding keys using l by (cases limit; cases reverse)
      (auto simp: cut_def nat_add_distrib take_map filter_map o_def min_def filter_id_conv dest: in_set_takeD)
  have empty: "L = [] \<longleftrightarrow> vw s site = None \<and> children (vw s) site reverse = []"
    unfolding L_def site_rows_def keys using l by (cases limit) (auto simp: cut_def)
  have F: "cut limit (filter (\<lambda>(k, v). length k = length site + 1) L) =
      map (\<lambda>k. (k, the (vw s k))) (cut limit ?below)"
    unfolding lim [symmetric] L_def site_rows_def
    by (cases limit) (simp_all add: cut_def filter_map o_def take_map split_def)
  have "\<exists>s'. strict_child_loop ctx ?opt it (length site + 1) limit False 0 (ctx_scan ctx) s =
      Some (map (\<lambda>(k, v). emit_row it k v) (cut limit (filter (\<lambda>(k, v). length k = length site + 1) L)),
        Inr (), L \<noteq> [], s') \<and> inv s' \<and> weight s' = weight s \<and> vw s' = vw s"
    using strict_loop_rows [OF scan_start [OF s k a, of it] it, of limit 0 "length site + 1" False] l
    by (auto simp: L_def option.map_id0 [unfolded id_def])
  moreover have "map (\<lambda>(k, v). emit_row it k v) (cut limit (filter (\<lambda>(k, v). length k = length site + 1) L)) =
      map (\<lambda>x. emit_row it (site @ [x]) (the (vw s (site @ [x])))) (cut limit (children (vw s) site reverse))"
    unfolding F by (cases limit) (simp_all add: cut_def take_map o_def)
  ultimately show ?thesis
    using o empty by (auto simp: strict_child_scan_def attempt_gen_def)
qed

section \<open>Listing children and descendants\<close>

lemma child_keys_rows:
  assumes s: "inv s" "weight s < pages" and k: "okk site"
  shows "\<exists>s'. iter_child_keys ctx site False reverse strict s = Some (children (vw s) site reverse,
      if strict \<and> vw s site = None \<and> children (vw s) site reverse = [] then Inl ContainerNotFoundError else Inr (), s') \<and>
    inv s' \<and> weight s' = weight s \<and> vw s' = vw s"
proof (cases strict)
  case True
  from strict_scan_rows [OF s k, of KEYS None reverse] obtain s' where
    "strict_child_scan ctx site reverse KEYS None s = Some (map (\<lambda>x. Out_Key (site @ [x])) (children (vw s) site reverse),
      if vw s site = None \<and> children (vw s) site reverse = [] then Inl ContainerNotFoundError else Inr (), s')"
    "inv s'" "weight s' = weight s" "vw s' = vw s"
    by (auto simp: cut_def)
  with True show ?thesis by (simp add: iter_child_keys_def validate_if_def attempt_gen_def o_def)
next
  case False
  from child_scan_rows [OF s k, of "\<lambda>row _. Inr (last (scanned_key row))" KEYS "\<lambda>x. x" reverse] False
  show ?thesis by (simp add: iter_child_keys_def validate_if_def attempt_gen_def)
qed

lemma count_children_rows:
  assumes s: "inv s" "weight s < pages" and k: "okk site"
  shows "\<exists>s'. count_children ctx site False strict s =
      Some (if strict \<and> vw s site = None \<and> children (vw s) site False = [] then Inl ContainerNotFoundError
        else Inr (int (length (children (vw s) site False))), s')"
proof (cases strict)
  case True
  from strict_scan_rows [OF s k, of KEYS None False] obtain s' where
    "strict_child_scan ctx site False KEYS None s = Some (map (\<lambda>x. Out_Key (site @ [x])) (children (vw s) site False),
      if vw s site = None \<and> children (vw s) site False = [] then Inl ContainerNotFoundError else Inr (), s')"
    by (auto simp: cut_def)
  with True show ?thesis by (simp add: count_children_def validate_if_def attempt_scan_def)
next
  case False
  from child_scan_rows [OF s k, of "\<lambda>row _. Inr row" KEYS "\<lambda>x. Out_Key (site @ [x])" False] False
  show ?thesis by (auto simp: count_children_def validate_if_def attempt_scan_def)
qed

lemma has_children_rows:
  assumes s: "inv s" "weight s < pages" and k: "okk site"
  shows "\<exists>s'. has_children ctx site False strict s =
      Some (if strict \<and> vw s site = None \<and> children (vw s) site False = [] then Inl ContainerNotFoundError
        else Inr (children (vw s) site False \<noteq> []), s')"
proof (cases strict)
  case True
  from strict_scan_rows [OF s k, of KEYS "Some 1" False] obtain s' where
    "strict_child_scan ctx site False KEYS (Some 1) s =
      Some (map (\<lambda>x. Out_Key (site @ [x])) (take 1 (children (vw s) site False)),
      if vw s site = None \<and> children (vw s) site False = [] then Inl ContainerNotFoundError else Inr (), s')"
    by (auto simp: cut_def)
  with True show ?thesis
    by (cases "children (vw s) site False") (auto simp: has_children_def validate_if_def attempt_scan_def)
next
  case False
  obtain base where o: "child_scan_options ctx site False = Inr base" using child_scan_options_ok [OF k] by blast
  note c = child_options [where okk = okk, OF o k finite_vw [OF s(1)]]
  let ?opt = "base\<lparr>so_limit := Some 1\<rparr>"
  have "so_limit base = None" using o by (auto simp: child_scan_options_def Let_def)
  then have keys: "site_keys (vw s) ?opt site = take 1 (map (\<lambda>x. site @ [x]) (children (vw s) site False))"
    using c(2) by (simp add: site_keys_def Let_def cut_def too_deep_def)
  have "anchored (ctx_bound ctx) okk ?opt site" using c(1) by (simp add: anchored_def)
  from scan_next [OF scan_start [OF s k this, of KEYS]] obtain ev g' s' where
    n: "ctx_next ctx ?opt KEYS (ctx_scan ctx) s = Some (ev, g', s')"
    and ev: "case site_rows (vw s) ?opt site of [] \<Rightarrow> ev = Return
      | (k, v) # L \<Rightarrow> ev = Yield (emit_row KEYS k v) \<and> at ?opt KEYS (Some k) g' s' L" by blast
  have "if children (vw s) site False = [] then ev = Return else \<exists>out. ev = Yield out"
    using ev by (cases "children (vw s) site False") (simp_all add: site_rows_def keys)
  then have "(case ev of Yield _ \<Rightarrow> Inr True | Return \<Rightarrow> Inr False | Raise e \<Rightarrow> Inl e) =
      Inr (children (vw s) site False \<noteq> [])"
    by (cases "children (vw s) site False = []") auto
  with n o False show ?thesis by (simp add: has_children_def validate_if_def attempt_scan_def)
qed

lemma descendants_rows:
  assumes s: "inv s" "weight s < pages" and k: "okk site" and c: "is_container (vw s) site"
    and d: "\<not> (depth < - 2 \<or> depth = 0)"
  shows "\<exists>s'. iter_descendants ctx site depth s = Some (below (vw s) site depth, Inr (), s') \<and>
    inv s' \<and> weight s' = weight s \<and> vw s' = vw s"
proof -
  define opt :: "'e scan_options" where "opt = (if depth = - 1 then subtree_options site
    else (subtree_options site)\<lparr>so_filter := Some (filter_and (PrefixFilter site) (LengthFilter (int (length site) + depth)))\<rparr>)"
  have a: "anchored (ctx_bound ctx) okk opt site"
    using k by (simp add: opt_def anchored_def subtree_options_def)
  have le: "site \<le> l" if "prefix site l" for l using that by (rule prefix_imp_le)
  have keys: "site_keys (vw s) opt site = below (vw s) site depth"
  proof (cases "depth = - 1")
    case True
    then show ?thesis by (simp add: opt_def site_keys_subtree below_def)
  next
    case False
    then show ?thesis using le
      by (auto simp: opt_def site_keys_def from_start_def subtree_options_def below_def cut_def too_deep_def accepts_def matches_child
          simp del: filter_and.simps intro!: filter_cong)
  qed
  have v: "validate_is_container ctx site None s = Inr ()" using validate_is_container_ok [OF s(1) k] c by simp
  from scan_map_rows [OF scan_start [OF s k a, of KEYS], of "\<lambda>row _. Inr (scanned_key row)" "\<lambda>k _. k"]
  obtain s' where "scan_map ctx opt KEYS (\<lambda>row _. Inr (scanned_key row)) (ctx_scan ctx) s =
      Some (map (\<lambda>(k, v). k) (site_rows (vw s) opt site), Inr (), s')" "inv s'" "weight s' = weight s" "vw s' = vw s"
    by (auto simp: case_prod_beta)
  moreover have "map (\<lambda>(k, v). k) (site_rows (vw s) opt site) = below (vw s) site depth"
    by (simp add: site_rows_def keys o_def)
  ultimately show ?thesis using d v by (auto simp: iter_descendants_def attempt_gen_def Let_def opt_def [symmetric])
qed

lemma descendants_fail:
  assumes s: "inv s" and k: "okk site"
  shows "depth < - 2 \<or> depth = 0 \<Longrightarrow> iter_descendants ctx site depth s = Some ([], Inl ContainerInvalidDepthError, s)"
    and "\<not> (depth < - 2 \<or> depth = 0) \<Longrightarrow> \<not> is_container (vw s) site \<Longrightarrow>
      \<exists>e. validate_is_container ctx site None s = Inl e \<and> iter_descendants ctx site depth s = Some ([], Inl e, s)"
  using validate_is_container_ok [OF s k]
  by (auto simp: iter_descendants_def attempt_gen_def split: sum.splits)

section \<open>Metadata keys\<close>

lemma metadata_rows:
  assumes s: "inv s" "weight s < pages" and k: "list_all okseg (tl site)"
  shows "\<exists>s'. iter_metadata_keys ctx site s =
      Some (filter (\<lambda>x. SStr [] \<le> x) (children (vw s) (METADATA_ROOT # tl site) False), Inr (), s') \<and>
    inv s' \<and> weight s' = weight s \<and> vw s' = vw s"
proof -
  let ?m = "METADATA_ROOT # tl site"
  let ?opt = "\<lparr>so_start = Some (?m @ [SStr []]), so_reverse = False, so_limit = None,
      so_filter = Some (filter_and (PrefixFilter ?m) (LengthFilter (int (length ?m + 1)))),
      so_break_filter = Some (PrefixFilter ?m), so_start_encoded = None, so_max_depth = Some (int (length ?m + 1))\<rparr>
      :: 'e scan_options"
  have m: "okk ?m" using k okseg_meta by (simp add: okk_iff)
  have a: "anchored (ctx_bound ctx) okk ?opt ?m"
    using m okseg_empty by (simp add: anchored_def okk_iff)
  have "site_keys (vw s) ?opt ?m = filter (\<lambda>k. ?m @ [SStr []] \<le> k)
      (filter (\<lambda>k. prefix ?m k \<and> length k = Suc (length ?m)) (sorted_list_of_set (dom (vw s))))"
    by (auto simp: site_keys_def from_start_def cut_def too_deep_def accepts_def matches_child simp del: filter_and.simps intro!: filter_cong)
  also have "\<dots> = map (\<lambda>x. ?m @ [x]) (filter (\<lambda>x. SStr [] \<le> x) (children (vw s) ?m False))"
    unfolding sorted_children [OF finite_vw [OF s(1)]] children_def by (simp add: filter_map o_def le_less)
  finally have keys: "site_keys (vw s) ?opt ?m = map (\<lambda>x. ?m @ [x]) (filter (\<lambda>x. SStr [] \<le> x) (children (vw s) ?m False))" .
  from scan_map_rows [OF scan_start [OF s m a, of KEYS], of "\<lambda>row _. Inr (last (scanned_key row))" "\<lambda>k _. last k"]
  obtain s' where "scan_map ctx ?opt KEYS (\<lambda>row _. Inr (last (scanned_key row))) (ctx_scan ctx) s =
      Some (map (\<lambda>(k, v). last k) (site_rows (vw s) ?opt ?m), Inr (), s')" "inv s'" "weight s' = weight s" "vw s' = vw s"
    by auto
  moreover have "map (\<lambda>(k, v). last k) (site_rows (vw s) ?opt ?m) = filter (\<lambda>x. SStr [] \<le> x) (children (vw s) ?m False)"
    unfolding site_rows_def keys by (simp add: o_def)
  ultimately show ?thesis by (simp add: iter_metadata_keys_def attempt_gen_def Let_def)
qed

end

end
