(* ===== verification/Container_Writes.thy ===== *)
theory Container_Writes
  imports Container_Reads
begin

text \<open>
  What the writing operations do over any context that keeps the contract, and the tree invariant
  they keep: every node but the root has a container as its parent.
\<close>

section \<open>The tree invariant\<close>

text \<open>Every key of the data tree but its root has a container as its parent.\<close>

definition tree_ok :: "(key \<rightharpoonup> pyval) \<Rightarrow> bool" where
  "tree_ok V \<longleftrightarrow> (\<forall>k v. V k = Some v \<and> 1 < length k \<and> hd k = DATA_ROOT \<longrightarrow> is_container V (butlast k))"

lemma hd_butlast: "1 < length k \<Longrightarrow> hd (butlast k) = hd k"
  by (cases k) auto

lemma tree_ok_restrict:
  assumes t: "tree_ok V"
    and d: "\<And>k. hd k = DATA_ROOT \<Longrightarrow> 1 < length k \<Longrightarrow> k \<in> A \<Longrightarrow> butlast k \<in> A"
  shows "tree_ok (V |` A)"
  using assms by (fastforce simp: tree_ok_def is_container_def restrict_map_def split: if_splits)

lemma tree_ok_delete:
  assumes t: "tree_ok V" and c: "hd k = DATA_ROOT \<Longrightarrow> \<not> is_container V k"
  shows "tree_ok (V(k := None))"
  unfolding tree_ok_def
proof (intro allI impI)
  fix l v assume l: "(V(k := None)) l = Some v \<and> 1 < length l \<and> hd l = DATA_ROOT"
  then have "is_container V (butlast l)" using t by (auto simp: tree_ok_def split: if_splits)
  moreover have "butlast l \<noteq> k" using calculation l c hd_butlast [of l] by auto
  ultimately show "is_container (V(k := None)) (butlast l)" by (simp add: is_container_def)
qed

lemma tree_ok_put:
  assumes "tree_ok V" and "hd k = DATA_ROOT \<Longrightarrow> 1 < length k \<Longrightarrow> is_container V (butlast k)"
    and "k \<noteq> []" and "hd k = DATA_ROOT \<Longrightarrow> is_container V k \<Longrightarrow> is_container (V(k \<mapsto> v)) k"
  shows "tree_ok (V(k \<mapsto> v))"
  unfolding tree_ok_def
proof (intro allI impI)
  fix l w assume l: "(V(k \<mapsto> v)) l = Some w \<and> 1 < length l \<and> hd l = DATA_ROOT"
  have "butlast l \<noteq> k" if "l = k" using assms(3) that by (cases k rule: rev_cases) auto
  moreover have "is_container V (butlast l)"
    using l assms(1,2) by (auto simp: tree_ok_def split: if_splits)
  ultimately show "is_container (V(k \<mapsto> v)) (butlast l)"
    using assms(4) l hd_butlast [of l] by (cases "butlast l = k") (auto simp: is_container_def)
qed

text \<open>What is left after a subtree has gone, with its mirror in the metadata tree.\<close>

definition without :: "(key \<rightharpoonup> pyval) \<Rightarrow> site \<Rightarrow> key \<rightharpoonup> pyval" where
  "without V site = V |` {k. \<not> prefix site k \<and>
     \<not> (hd site = DATA_ROOT \<and> prefix (METADATA_ROOT # tl site) k)}"

lemma tree_ok_without:
  assumes "tree_ok V"
  shows "tree_ok (without V site)"
  unfolding without_def using assms
proof (rule tree_ok_restrict)
  fix k :: key assume k: "hd k = DATA_ROOT" "1 < length k"
    "k \<in> {k. \<not> prefix site k \<and> \<not> (hd site = DATA_ROOT \<and> prefix (METADATA_ROOT # tl site) k)}"
  have "hd (butlast k) = DATA_ROOT" using k(1) hd_butlast [OF k(2)] by simp
  then have "\<not> prefix (METADATA_ROOT # l) (butlast k)" for l by (cases "butlast k") auto
  moreover have "prefix (butlast k) k" by (metis append_butlast_last_id butlast.simps(1) prefixI prefix_order.refl)
  ultimately show "butlast k \<in> {k. \<not> prefix site k \<and> \<not> (hd site = DATA_ROOT \<and> prefix (METADATA_ROOT # tl site) k)}"
    using k(3) prefix_order.trans by blast
qed

text \<open>An operation that returns, raising or not, and keeps the tree; a raise leaves it as it was.\<close>

definition keeps ::
  "('s \<Rightarrow> bool) \<Rightarrow> ('s \<Rightarrow> nat) \<Rightarrow> ('s \<Rightarrow> key \<rightharpoonup> pyval) \<Rightarrow> 's \<Rightarrow> (unit res \<times> 's) option \<Rightarrow> bool" where
  "keeps ok weight vw s result \<longleftrightarrow> (\<exists>r s'. result = Some (r, s') \<and> ok s' \<and> weight s' \<le> Suc (weight s) \<and>
     tree_ok (vw s') \<and> (\<not> is_ok r \<longrightarrow> s' = s))"

section \<open>Writing\<close>

context kv_context begin

lemma require_write [simp]: "require_write_context ctx = Inr ()" "require_readwrite_context ctx = Inr ()"
  using writes by (simp_all add: require_write_context_def require_readwrite_context_def)

lemma delete_keys_rows:
  assumes "at options KEYS just g s L"
  shows "\<exists>s'. delete_keys ctx options g s = Some (Inr (), s') \<and> inv s' \<and> weight s' = weight s \<and>
    vw s' = vw s |` (- (fst ` set L))"
  using assms
proof (induction L arbitrary: just g s)
  case Nil
  from scan_next [OF Nil(1)] show ?case by (subst delete_keys.simps) (auto simp: restrict_map_def)
next
  case (Cons row L)
  obtain k v where row: "row = (k, v)" by (cases row)
  from scan_next [OF Cons.prems(1)] obtain g' s1 where
    n: "ctx_next ctx options KEYS g s = Some (Yield (Out_Key k), g', s1)"
    and s1: "weight s1 = weight s" "vw s1 = vw s" and a: "at options KEYS (Some k) g' s1 L"
    unfolding row by auto
  from delete_just [OF a] obtain s2 where
    d: "ctx_delete ctx k s1 = (Inr (), s2)" "at options KEYS None g' s2 L" "weight s2 = weight s1"
      "vw s2 = (vw s1)(k := None)" by auto
  from Cons.IH [OF d(2)] obtain s' where
    "delete_keys ctx options g' s2 = Some (Inr (), s')" "inv s'" "weight s' = weight s2"
    "vw s' = vw s2 |` (- (fst ` set L))" by blast
  with n d s1 show ?case
    by (subst delete_keys.simps) (auto simp: row restrict_map_def fun_eq_iff)
qed

lemma delete_subtree_ok:
  assumes s: "inv s" "weight s < pages" and k: "okk site"
  shows "\<exists>s'. delete_subtree ctx site s = Some (Inr (), s') \<and> inv s' \<and> weight s' = weight s \<and>
    vw s' = vw s |` {k. \<not> prefix site k}"
proof -
  have a: "anchored (ctx_bound ctx) okk (subtree_options site) site"
    using k by (simp add: anchored_def subtree_options_def)
  have "vw s |` (- (fst ` set (site_rows (vw s) (subtree_options site :: 'a scan_options) site))) =
      vw s |` {k. \<not> prefix site k}"
    using finite_vw [OF s(1)]
    by (auto simp: site_rows_def site_keys_subtree restrict_map_def fun_eq_iff image_image domIff)
  with delete_keys_rows [OF scan_start [OF s k a, of KEYS]] show ?thesis
    by (simp add: delete_subtree_def)
qed

lemma okk_meta: "okk site \<Longrightarrow> okk (METADATA_ROOT # tl site)"
  using okseg_meta by (cases site) (auto simp: okk_iff)

lemma delete_descendants_ok:
  assumes s: "inv s" "weight s < pages" and k: "okk site"
  shows "\<exists>s'. delete_descendants ctx site s = Some (Inr (), s') \<and> inv s' \<and> weight s' = weight s \<and>
    vw s' = without (vw s) site"
proof -
  from delete_subtree_ok [OF s k] obtain s1 where
    s1: "delete_subtree ctx site s = Some (Inr (), s1)" "inv s1" "weight s1 = weight s"
      "vw s1 = vw s |` {k. \<not> prefix site k}" by blast
  have n: "site \<noteq> []" using k by (simp add: okk_iff)
  show ?thesis
  proof (cases "hd site = DATA_ROOT")
    case True
    have "weight s1 < pages" using s(2) s1(3) by simp
    from delete_subtree_ok [OF s1(2) this okk_meta [OF k]] obtain s2 where
      "delete_subtree ctx (METADATA_ROOT # tl site) s1 = Some (Inr (), s2)" "inv s2" "weight s2 = weight s1"
      "vw s2 = vw s1 |` {k. \<not> prefix (METADATA_ROOT # tl site) k}" by blast
    with s1 n True show ?thesis
      by (auto simp: delete_descendants_def attempt_scan_def without_def restrict_map_def fun_eq_iff)
  next
    case False
    with s1 n show ?thesis
      by (auto simp: delete_descendants_def attempt_scan_def without_def restrict_map_def fun_eq_iff)
  qed
qed

section \<open>The validated operations\<close>

lemma kept_fail: "inv s \<Longrightarrow> tree_ok (vw s) \<Longrightarrow> keeps inv weight vw s (Some (Inl e, s))"
  and kept_same: "inv s \<Longrightarrow> tree_ok (vw s) \<Longrightarrow> keeps inv weight vw s (Some (Inr (), s))"
  by (simp_all add: keeps_def)

lemma kept_put:
  assumes "inv s" and "okk k" and "v \<noteq> VEmpty" and "tree_ok ((vw s)(k \<mapsto> v))"
  shows "keeps inv weight vw s (Some (ctx_put ctx k v s))"
  using put [OF assms(1-3)] assms(4) by (auto simp: keeps_def)

lemma kept_delete:
  assumes "inv s" and "okk k" and "tree_ok ((vw s)(k := None))"
  shows "keeps inv weight vw s (Some (ctx_delete ctx k s))"
  using delete [OF assms(1,2)] assms(3) by (auto simp: keeps_def)

lemma kept_descendants:
  assumes "inv s" and "weight s < pages" and "okk site" and "tree_ok (vw s)"
  shows "keeps inv weight vw s (delete_descendants ctx site s)"
  using delete_descendants_ok [OF assms(1-3)] tree_ok_without [OF assms(4)] by (auto simp: keeps_def)

lemma node_info_cases:
  assumes "inv s" and "okk k"
  shows "(\<exists>e. get_node_info ctx k None s = Inl e) \<or>
    (\<exists>i. get_node_info ctx k None s = Inr i \<and>
      (vw s k = None \<and> \<not> ni_exists i \<or>
       (\<exists>v. vw s k = Some v \<and> extract_marker v = Inr None \<and> ni_exists i \<and> ni_type i = PRIMITIVE) \<or>
       is_container (vw s) k \<and> ni_exists i \<and> ni_type i = CONTAINER))"
  unfolding node_info_ok [OF assms] get_node_info_raw
  by (auto simp: is_container_def split: option.splits sum.splits)

lemma create_container_kept:
  assumes s: "inv s" "tree_ok (vw s)" and k: "okk site"
  shows "keeps inv weight vw s (Some (create_container ctx site structure protocol True None s))"
proof -
  have b: "okk (butlast site)" if "1 < length site"
    using k that by (auto simp: okk_iff list_all_iff butlast_conv_take dest: in_set_takeD)
  note c = node_info_cases [OF s(1) k]
  show ?thesis
  proof (cases "get_node_info ctx site None s")
    case (Inl e)
    then show ?thesis using s by (simp add: create_container_def attempt_def kept_fail)
  next
    case (Inr i)
    show ?thesis
    proof (cases "ni_exists i")
      case True
      with Inr s show ?thesis
        by (auto simp: create_container_def attempt_def kept_fail kept_same split: sum.splits)
    next
      case False
      with c Inr have n: "vw s site = None" by auto
      show ?thesis
      proof (cases "1 < length site \<and> validate_is_container ctx (butlast site) None s \<noteq> Inr ()")
        case True
        then show ?thesis using Inr False s
          by (cases "validate_is_container ctx (butlast site) None s")
            (auto simp: create_container_def attempt_def kept_fail)
      next
        case v: False
        have "tree_ok ((vw s)(site \<mapsto> create_marker structure protocol))"
          using s(2) v n k validate_is_container_ok [OF s(1) b]
          by (intro tree_ok_put) (auto simp: is_container_def okk_iff)
        then have "keeps inv weight vw s (Some (ctx_put ctx site (create_marker structure protocol) s))"
          using s(1) k by (intro kept_put) (simp_all add: create_marker_def)
        with v Inr False show ?thesis
          by (auto simp: create_container_def attempt_def)
      qed
    qed
  qed
qed

lemma validate_if_ok:
  assumes "inv s" and "okk k"
  shows "validate_if ctx k True s = Inr () \<longleftrightarrow> is_container (vw s) k"
  using validate_is_container_ok [OF assms] by (simp add: validate_if_def)

lemma find_empty_VEmpty: "find_empty v [] = None \<Longrightarrow> v \<noteq> VEmpty"
  by auto

lemma put_child_kept:
  assumes s: "inv s" "tree_ok (vw s)" and k: "okk site" "okseg key"
  shows "keeps inv weight vw s (Some (put_child_primitive ctx site key val True True s))"
proof (cases "find_empty val [] = None \<and> validate_if ctx site True s = Inr ()")
  case False
  then show ?thesis using s
    by (cases "validate_if ctx site True s")
      (auto simp: put_child_primitive_def Let_def attempt_def reject_empty_value_def kept_fail split: option.splits)
next
  case True
  have ck: "okk (site @ [key])" using k by simp
  have p: "is_container (vw s) site" using True validate_if_ok [OF s(1) k(1)] by simp
  have put_kept: "keeps inv weight vw s (Some (ctx_put ctx (site @ [key]) val s))" if "\<not> is_container (vw s) (site @ [key])"
    using s ck that p True by (intro kept_put tree_ok_put) (auto dest: find_empty_VEmpty)
  from node_info_cases [OF s(1) ck] True show ?thesis
    by (auto simp: put_child_primitive_def Let_def attempt_def reject_empty_value_def kept_fail s
        validate_is_primitive_def fetch_type_def is_container_def intro!: put_kept)
qed

lemma delete_child_kept:
  assumes s: "inv s" "weight s < pages" "tree_ok (vw s)" and k: "okk site" "okseg key"
  shows "keeps inv weight vw s (delete_child ctx site key s)"
proof (cases "validate_is_container ctx site None s")
  case (Inl e)
  then show ?thesis using s by (simp add: delete_child_def attempt_scan_def kept_fail)
next
  case (Inr u)
  have ck: "okk (site @ [key])" using k by simp
  have d: "keeps inv weight vw s (delete_descendants ctx (site @ [key]) s)" by (rule kept_descendants [OF s(1,2) ck s(3)])
  have del: "keeps inv weight vw s (Some (ctx_delete ctx (site @ [key]) s))" if "\<not> is_container (vw s) (site @ [key])"
    using s ck that by (intro kept_delete tree_ok_delete)
  from node_info_cases [OF s(1) ck] Inr d show ?thesis
    by (auto simp: delete_child_def attempt_scan_def Let_def kept_fail kept_same s is_container_def intro!: del)
qed

lemma delete_container_kept:
  assumes s: "inv s" "weight s < pages" "tree_ok (vw s)" and k: "okk site"
  shows "keeps inv weight vw s (delete_container ctx site s)"
  using node_info_cases [OF s(1) k] kept_descendants [OF s(1,2) k s(3)]
  by (auto simp: delete_container_def attempt_scan_def kept_fail kept_same s)

end

section \<open>Moving a subtree\<close>

text \<open>The map after the items \<open>L\<close> under \<open>src\<close> have been moved to \<open>dst\<close>.\<close>

definition moved :: "site \<Rightarrow> site \<Rightarrow> (key \<times> pyval) list \<Rightarrow> (key \<rightharpoonup> pyval) \<Rightarrow> key \<rightharpoonup> pyval" where
  "moved src dst L V = (\<lambda>k.
     if prefix dst k \<and> map_of L (src @ drop (length dst) k) \<noteq> None then map_of L (src @ drop (length dst) k)
     else if k \<in> fst ` set L then None else V k)"

lemma moved_Cons:
  assumes "prefix src k" and "k \<notin> fst ` set L" and "\<And>l. prefix src l \<Longrightarrow> \<not> prefix dst l"
    and "\<And>x. x \<in> fst ` set L \<Longrightarrow> prefix src x"
  shows "moved src dst L ((V(dst @ drop (length src) k \<mapsto> v))(k := None)) = moved src dst ((k, v) # L) V"
proof
  fix l
  obtain r where k: "k = src @ r" using assms(1) by (auto simp: prefix_def)
  have "map_of L k = None" using assms(2) by (simp add: map_of_eq_None_iff)
  moreover have "\<not> prefix dst k" using assms(1,3) by blast
  moreover have "dst @ q \<notin> fst ` set L" for q using assms(3,4) prefixI by blast
  ultimately show "moved src dst L ((V(dst @ drop (length src) k \<mapsto> v))(k := None)) l = moved src dst ((k, v) # L) V l"
    by (auto simp: moved_def k prefix_def)
qed

lemma siblings_apart:
  assumes "a \<noteq> b" and "prefix (p @ [a]) l"
  shows "\<not> prefix (p @ [b]) l"
  using assms by (auto simp: prefix_def)

text \<open>All of a subtree moved into an empty place.\<close>

definition move_subtree :: "site \<Rightarrow> site \<Rightarrow> (key \<rightharpoonup> pyval) \<Rightarrow> key \<rightharpoonup> pyval" where
  "move_subtree src dst V = (\<lambda>k.
     if prefix dst k then V (src @ drop (length dst) k) else if prefix src k then None else V k)"

context kv_context begin

lemma move_items_ok:
  assumes "inv s" and "distinct (map fst L)"
    and "\<And>k v. (k, v) \<in> set L \<Longrightarrow> prefix src k \<and> okk k \<and> okk (dst @ drop (length src) k) \<and> v \<noteq> VEmpty"
    and a: "\<And>l. prefix src l \<Longrightarrow> \<not> prefix dst l"
  shows "\<exists>s'. move_items ctx (length src) dst L s = (Inr (), s') \<and> inv s' \<and> vw s' = moved src dst L (vw s)"
  using assms(1-3)
proof (induction L arbitrary: s)
  case Nil
  then show ?case by (simp add: moved_def)
next
  case (Cons row L)
  obtain k v where row: "row = (k, v)" by (cases row)
  have k: "prefix src k" "okk k" "okk (dst @ drop (length src) k)" "v \<noteq> VEmpty"
    using Cons.prems(3) [of k v] by (auto simp: row)
  from put [OF Cons.prems(1) k(3,4)] obtain s1 where
    p: "ctx_put ctx (dst @ drop (length src) k) v s = (Inr (), s1)" "inv s1"
      "vw s1 = (vw s)(dst @ drop (length src) k \<mapsto> v)" by blast
  from delete [OF p(2) k(2)] obtain s2 where
    d: "ctx_delete ctx k s1 = (Inr (), s2)" "inv s2" "vw s2 = (vw s1)(k := None)" by blast
  have "distinct (map fst L)" "k \<notin> fst ` set L" using Cons.prems(2) by (simp_all add: row)
  have src: "prefix src x" if "x \<in> fst ` set L" for x using Cons.prems(3) that by force
  from \<open>distinct (map fst L)\<close> Cons.IH [OF d(2)] Cons.prems(3) obtain s' where
    "move_items ctx (length src) dst L s2 = (Inr (), s')" "inv s'" "vw s' = moved src dst L (vw s2)" by auto
  with p d moved_Cons [OF k(1) \<open>k \<notin> fst ` set L\<close> a] src show ?case
    by (simp add: row attempt_def Let_def)
qed

lemma move_child_ok:
  assumes s: "inv s" "weight s < pages" and k: "okk (parent @ [a])" "okseg b" and ab: "a \<noteq> b"
    and e: "\<And>k. prefix (parent @ [b]) k \<Longrightarrow> vw s k = None"
  shows "\<exists>s'. move_child_subtree ctx parent a b s = Some (Inr (), s') \<and> inv s' \<and>
    vw s' = move_subtree (parent @ [a]) (parent @ [b]) (vw s)"
proof -
  let ?src = "parent @ [a]" and ?dst = "parent @ [b]"
  have anc: "anchored (ctx_bound ctx) okk (subtree_options ?src) ?src"
    using k(1) by (simp add: anchored_def subtree_options_def)
  define L where "L = site_rows (vw s) (subtree_options ?src :: 'a scan_options) ?src"
  have L: "L = map (\<lambda>k. (k, the (vw s k))) (filter (prefix ?src) (sorted_list_of_set (dom (vw s))))"
    by (simp add: L_def site_rows_def site_keys_subtree)
  from scan_map_rows [OF scan_start [OF s k(1) anc, of ITEMS], of scanned_item "\<lambda>k v. (k, v)"]
  obtain s1 where sc: "scan_map ctx (subtree_options ?src) ITEMS scanned_item (ctx_scan ctx) s = Some (L, Inr (), s1)"
    and s1: "inv s1" "vw s1 = vw s"
    by (auto simp: scanned_item_def L_def)
  have f: "finite (dom (vw s))" using s(1) by (rule finite_vw)
  have "distinct (map fst L)" by (simp add: L o_def)
  moreover have rows: "prefix ?src k \<and> vw s k = Some v" if "(k, v) \<in> set L" for k v
    using that f by (auto simp: L)
  have "prefix ?src k \<and> okk k \<and> okk (?dst @ drop (length ?src) k) \<and> v \<noteq> VEmpty" if in_L: "(k, v) \<in> set L" for k v
  proof -
    have "okk k" "v \<noteq> VEmpty" using rows [OF in_L] okk_dom [OF s(1)] stored [OF s(1), of k] by auto
    moreover obtain r where "k = ?src @ r" using rows [OF in_L] by (auto simp: prefix_def)
    ultimately show ?thesis using k by (simp add: okk_iff)
  qed
  ultimately obtain s' where m: "move_items ctx (length ?src) ?dst L s1 = (Inr (), s')" "inv s'"
      "vw s' = moved ?src ?dst L (vw s1)"
    using move_items_ok [OF s1(1), of L ?src ?dst] siblings_apart [OF ab] by blast
  have lookup: "map_of L k = (if prefix ?src k then vw s k else None)" for k
  proof (cases "prefix ?src k \<and> vw s k \<noteq> None")
    case True
    then have "k \<in> set (filter (prefix ?src) (sorted_list_of_set (dom (vw s))))" using f by auto
    then show ?thesis using True by (auto simp: L map_of_map_restrict restrict_map_def)
  next
    case False
    then have "k \<notin> fst ` set L" using f by (auto simp: L)
    then have "map_of L k = None" by (simp add: map_of_eq_None_iff)
    then show ?thesis using False by auto
  qed
  have mem: "k \<in> fst ` set L \<longleftrightarrow> prefix ?src k \<and> vw s k \<noteq> None" for k
    using f by (auto simp: L image_iff)
  have "moved ?src ?dst L (vw s) = move_subtree ?src ?dst (vw s)"
  proof
    fix k
    show "moved ?src ?dst L (vw s) k = move_subtree ?src ?dst (vw s) k"
    proof (cases "prefix ?dst k")
      case True
      then have "vw s k = None" by (rule e)
      with True show ?thesis by (simp add: moved_def move_subtree_def lookup)
    next
      case False
      then show ?thesis by (auto simp: moved_def move_subtree_def mem)
    qed
  qed
  with m sc s1 ab show ?thesis
    by (auto simp: move_child_subtree_def attempt_scan_def Let_def)
qed

section \<open>Creating, putting and getting, by cases\<close>

lemma node_at: "inv s \<Longrightarrow> okk k \<Longrightarrow> get_node_info ctx k None s = (case vw s k of
     None \<Rightarrow> Inr \<lparr>ni_site = k, ni_exists = False, ni_type = NOT_FOUND, ni_raw = None,
       ni_structure = None, ni_protocol = None, ni_primitive = None\<rparr>
   | Some v \<Rightarrow> (case extract_marker v of
       Inl e \<Rightarrow> Inl e
     | Inr None \<Rightarrow> Inr \<lparr>ni_site = k, ni_exists = True, ni_type = PRIMITIVE, ni_raw = Some v,
         ni_structure = None, ni_protocol = None, ni_primitive = Some v\<rparr>
     | Inr (Some (t, p)) \<Rightarrow> Inr \<lparr>ni_site = k, ni_exists = True, ni_type = CONTAINER, ni_raw = Some v,
         ni_structure = Some t, ni_protocol = Some p, ni_primitive = None\<rparr>))"
  by (simp add: node_info_ok get_node_info_raw)

lemma validate_at: "inv s \<Longrightarrow> okk k \<Longrightarrow> validate_is_container ctx k None s = (case vw s k of
     None \<Rightarrow> Inl ContainerNotFoundError
   | Some v \<Rightarrow> (case extract_marker v of
       Inl e \<Rightarrow> Inl e
     | Inr None \<Rightarrow> Inl ContainerTypeError
     | Inr (Some _) \<Rightarrow> Inr ()))"
  by (auto simp: validate_is_container_def fetch_type_def node_type_ok is_marker_def split: option.splits sum.splits)

end

text \<open>What \<open>create_container\<close> returns, from the node and its parent.\<close>

definition create_outcome :: "(key \<rightharpoonup> pyval) \<Rightarrow> site \<Rightarrow> pyval \<Rightarrow> int \<Rightarrow> unit res" where
  "create_outcome V site structure protocol =
     (case V site of
        Some v \<Rightarrow> (case extract_marker v of
            Inl e \<Rightarrow> Inl e
          | Inr None \<Rightarrow> Inl ContainerTypeError
          | Inr (Some (t, p)) \<Rightarrow>
              if t = structure \<and> protocol AND p \<noteq> 0 then Inr () else Inl ContainerExistsError)
      | None \<Rightarrow>
          if length site \<le> 1 then Inr ()
          else (case V (butlast site) of
              None \<Rightarrow> Inl ContainerNotFoundError
            | Some v \<Rightarrow> (case extract_marker v of
                Inl e \<Rightarrow> Inl e | Inr None \<Rightarrow> Inl ContainerTypeError | Inr (Some _) \<Rightarrow> Inr ())))"

context kv_context begin

lemma okk_butlast: "okk site \<Longrightarrow> 1 < length site \<Longrightarrow> okk (butlast site)"
  by (auto simp: okk_iff list_all_iff butlast_conv_take dest: in_set_takeD)

lemma create_container_cases:
  assumes s: "inv s" and k: "okk site"
  shows "\<exists>s'. create_container ctx site structure protocol True None s =
      (create_outcome (vw s) site structure protocol, s') \<and> inv s' \<and>
    vw s' = (if vw s site = None \<and> is_ok (create_outcome (vw s) site structure protocol)
      then (vw s)(site \<mapsto> create_marker structure protocol) else vw s) \<and>
    (vw s site \<noteq> None \<longrightarrow> s' = s)"
proof (cases "vw s site")
  case (Some v)
  then show ?thesis using s k
    by (cases "extract_marker v")
      (auto simp: create_container_def attempt_def node_at create_outcome_def validate_compatible_def
        split: option.splits)
next
  case None
  have m: "create_marker structure protocol \<noteq> VEmpty" by (simp add: create_marker_def)
  show ?thesis
  proof (cases "is_ok (create_outcome (vw s) site structure protocol)")
    case True
    with None have "\<not> (1 < length site) \<or> validate_is_container ctx (butlast site) None s = Inr ()"
      using okk_butlast [OF k] s
      by (auto simp: create_outcome_def validate_at split: option.splits sum.splits if_splits)
    moreover have "create_outcome (vw s) site structure protocol = Inr ()" using True by (auto simp: is_ok_iff)
    ultimately show ?thesis using None s k put [OF s k m]
      by (auto simp: create_container_def attempt_def node_at)
  next
    case False
    then have "1 < length site" using None by (auto simp: create_outcome_def split: if_splits)
    moreover have "validate_is_container ctx (butlast site) None s = create_outcome (vw s) site structure protocol"
      using None calculation okk_butlast [OF k] s
      by (auto simp: create_outcome_def validate_at split: option.splits sum.splits)
    ultimately show ?thesis using None False s k
      by (auto simp: create_container_def attempt_def node_at split: sum.splits)
  qed
qed

lemma put_child_ok:
  assumes s: "inv s" and k: "okk site" "okseg key" and p: "is_container (vw s) site"
    and c: "vw s (site @ [key]) = None \<or> (\<exists>w. vw s (site @ [key]) = Some w \<and> extract_marker w = Inr None)"
    and v: "find_empty val [] = None"
  shows "\<exists>s'. put_child_primitive ctx site key val True True s = (Inr (), s') \<and> inv s' \<and>
    vw s' = (vw s)(site @ [key] \<mapsto> val)"
proof -
  have ck: "okk (site @ [key])" using k by simp
  have "validate_if ctx site True s = Inr ()" using validate_if_ok [OF s k(1)] p by simp
  moreover have "rbind (get_node_info ctx (site @ [key]) None s) (\<lambda>info.
      if ni_exists info then validate_is_primitive ctx (site @ [key]) (Some (ni_type info)) s else Inr ()) = Inr ()"
    using c s ck by (auto simp: node_at validate_is_primitive_def fetch_type_def)
  ultimately show ?thesis using put [OF s ck find_empty_VEmpty [OF v]] v
    by (auto simp: put_child_primitive_def attempt_def reject_empty_value_def)
qed

lemma put_child_empty:
  "find_empty val [] \<noteq> None \<Longrightarrow> put_child_primitive ctx site key val validate validate_parent s = (Inl ValueError, s)"
  by (auto simp: put_child_primitive_def attempt_def reject_empty_value_def Let_def)

lemma get_child_at:
  assumes s: "inv s" and k: "okk site" "okseg key"
  shows "get_child_primitive ctx site key s = (case vw s (site @ [key]) of
     None \<Rightarrow> Inr None
   | Some v \<Rightarrow> (case extract_marker v of
       Inl e \<Rightarrow> Inl e | Inr None \<Rightarrow> Inr (Some v) | Inr (Some _) \<Rightarrow> Inl ContainerTypeError))"
  using s k by (auto simp: get_child_primitive_def node_at validate_is_primitive_def fetch_type_def
      split: option.splits sum.splits)

lemma metadata_kept:
  assumes s: "inv s" "tree_ok (vw s)" and k: "okk (meta_key site key)"
  shows "keeps inv weight vw s (Some (put_metadata ctx site key val s))"
    and "keeps inv weight vw s (Some (delete_metadata ctx site key s))"
proof -
  have h: "hd (meta_key site key) = METADATA_ROOT" "meta_key site key \<noteq> []" by (simp_all add: meta_key_def)
  show "keeps inv weight vw s (Some (put_metadata ctx site key val s))"
  proof (cases "find_empty val []")
    case None
    have "keeps inv weight vw s (Some (ctx_put ctx (meta_key site key) val s))"
      using h s k find_empty_VEmpty [OF None] by (intro kept_put tree_ok_put) auto
    with None show ?thesis by (simp add: put_metadata_def reject_empty_value_def attempt_def)
  next
    case (Some path)
    then show ?thesis using s by (simp add: put_metadata_def reject_empty_value_def attempt_def Let_def kept_fail)
  qed
  have "keeps inv weight vw s (Some (ctx_delete ctx (meta_key site key) s))"
    using h s k by (intro kept_delete tree_ok_delete) auto
  then show "keeps inv weight vw s (Some (delete_metadata ctx site key s))"
    by (simp add: delete_metadata_def attempt_def)
qed

end

end
