(* ===== verification/Mem_Container.thy ===== *)
theory Mem_Container
  imports Container_Writes
begin

text \<open>
  The contexts of the in-memory storage keep the contract of the container layer.
\<close>

section \<open>The contexts of the in-memory storage\<close>

text \<open>
  A transaction and a snapshot of the in-memory storage with the binary key codec and values kept
  as they are. A \<open>next\<close> may fetch up to \<open>pages\<close> pages. \<open>scan\<close> itself checks that the context
  is active, as the first \<open>next\<close> does.
\<close>

definition ctx_codec :: "(bytes, key, pyval, pyval) codec" where
  "ctx_codec = storage_codec bin_encode bin_upper_bound_of_prefix passthrough_encode passthrough_decode"

type_synonym mem_txn = "(bytes, key, pyval) vstore \<times> (bytes, key, pyval) txn"
type_synonym mem_snapshot = "(bytes, key, pyval) vstore \<times> snapshot"

definition as_value :: "pyval \<Rightarrow> pyval option" where
  "as_value v = (if v = VEmpty then None else Some v)"

definition txn_ctx :: "nat \<Rightarrow> (bytes, (bytes, pyval) gen_state, mem_txn) kv_ctx" where
  "txn_ctx pages =
     \<lparr>ctx_kind = Transaction_Kind,
      ctx_read = (\<lambda>key (s, tx). ctx_get ctx_codec (tx_closed tx) (tx_lookup s tx) key),
      ctx_has = (\<lambda>key (s, tx). ctx_exists ctx_codec (tx_closed tx) (tx_lookup s tx) key),
      ctx_put = (\<lambda>key val (s, tx). let (r, tx) = tx_put ctx_codec key (as_value val) tx in (r, (s, tx))),
      ctx_delete = (\<lambda>key (s, tx). let (r, tx) = tx_delete ctx_codec key tx in (r, (s, tx))),
      ctx_bound = upper_bound_of_prefix ctx_codec,
      ctx_scan = Gen_Start,
      ctx_next = (\<lambda>options it g (s, tx). scan_next tx_hook ctx_codec options it pages (tx_closed tx) g (s, tx))\<rparr>"

text \<open>A snapshot has no \<open>put\<close> and no \<open>delete\<close>; nothing calls them.\<close>

definition snapshot_ctx :: "nat \<Rightarrow> (bytes, (bytes, pyval) gen_state, mem_snapshot) kv_ctx" where
  "snapshot_ctx pages =
     \<lparr>ctx_kind = Snapshot_Kind,
      ctx_read = (\<lambda>key (s, sn). ctx_get ctx_codec (sn_closed sn) (sn_lookup s sn) key),
      ctx_has = (\<lambda>key (s, sn). ctx_exists ctx_codec (sn_closed sn) (sn_lookup s sn) key),
      ctx_put = (\<lambda>key val s. (Inl StorageInterfaceError, s)),
      ctx_delete = (\<lambda>key s. (Inl StorageInterfaceError, s)),
      ctx_bound = upper_bound_of_prefix ctx_codec,
      ctx_scan = Gen_Start,
      ctx_next = (\<lambda>options it g (s, sn). scan_next sn_hook ctx_codec options it pages (sn_closed sn) g (s, sn))\<rparr>"

section \<open>The map a context shows\<close>

definition key_map :: "(bytes \<rightharpoonup> key \<times> pyval) \<Rightarrow> key \<rightharpoonup> pyval" where
  "key_map m k = (case bin_encode k of Inl _ \<Rightarrow> None | Inr e \<Rightarrow> map_option snd (m e))"

text \<open>The rows of a well-formed view: keys under their own encoding, no stored \<open>EMPTY\<close>.\<close>

definition view_ok :: "(bytes \<rightharpoonup> key \<times> pyval) \<Rightarrow> bool" where
  "view_ok m \<longleftrightarrow> keyed ctx_codec m \<and> (\<forall>e k. m e \<noteq> Some (k, VEmpty))"

definition bin_ok :: "key \<Rightarrow> bool" where
  "bin_ok k = is_ok (bin_encode k)"

lemma bin_ok_iff: "bin_ok k \<longleftrightarrow> k \<noteq> [] \<and> list_all seg_ok k"
  by (auto simp: bin_ok_def is_ok_iff bin_encode_Inr)

lemma bin_ok_encode: "bin_ok k \<Longrightarrow> \<exists>e. bin_encode k = Inr e"
  by (auto simp: bin_ok_def is_ok_iff)

lemma ctx_codec_sel [simp]:
  "encode_key ctx_codec = bin_encode" "upper_bound_of_prefix ctx_codec = bin_upper_bound_of_prefix"
  "encode_value ctx_codec = passthrough_encode" "decode_value ctx_codec = passthrough_decode"
  by (simp_all add: ctx_codec_def)

lemma key_map_enc: "bin_encode k = Inr e \<Longrightarrow> key_map m k = map_option snd (m e)"
  by (simp add: key_map_def)

lemma key_map_row: "view_ok m \<Longrightarrow> m e = Some (k, v) \<Longrightarrow> bin_encode k = Inr e \<and> key_map m k = Some v"
proof -
  assume "view_ok m" and m: "m e = Some (k, v)"
  then have "bin_encode k = Inr e" by (simp add: view_ok_def keyed_def)
  with m show ?thesis by (simp add: key_map_def)
qed

lemma key_map_Some: "view_ok m \<Longrightarrow> key_map m k = Some v \<longleftrightarrow> (\<exists>e. bin_encode k = Inr e \<and> m e = Some (k, v))"
  by (fastforce simp: key_map_def view_ok_def keyed_def split: sum.splits dest: binary.enc_inj)

lemma finite_key_map: "finite (dom m) \<Longrightarrow> view_ok m \<Longrightarrow> finite (dom (key_map m))"
proof -
  assume f: "finite (dom m)" and v: "view_ok m"
  have "dom (key_map m) \<subseteq> (\<lambda>e. fst (the (m e))) ` dom m"
    using v by (force simp: key_map_Some dom_def)
  then show ?thesis using f finite_surj by blast
qed

lemma key_map_update:
  assumes "bin_encode k = Inr e"
  shows "key_map (m(e \<mapsto> (k, v))) = (key_map m)(k \<mapsto> v)" and "key_map (m(e := None)) = (key_map m)(k := None)"
  using assms binary.enc_inj by (auto simp: fun_eq_iff key_map_def split: sum.splits)

lemma view_ok_update:
  assumes "view_ok m" and "bin_encode k = Inr e"
  shows "v \<noteq> VEmpty \<Longrightarrow> view_ok (m(e \<mapsto> (k, v)))" and "view_ok (m(e := None))"
  using assms by (auto simp: view_ok_def keyed_def)

section \<open>The rows of an anchored scan\<close>

lemma last_encoded: "k \<noteq> [] \<Longrightarrow> last (concat (map comp_bytes k)) = 0"
proof (induction k rule: rev_induct)
  case (snoc x k)
  have "comp_bytes x \<noteq> []" "last (comp_bytes x) = 0" by (simp_all add: comp_bytes_def split: seg.splits)
  then show ?case by simp
qed simp

lemma bound_not_key: "bin_upper_bound_of_prefix p = Inr b \<Longrightarrow> bin_encode k \<noteq> Inr b"
proof
  assume "bin_upper_bound_of_prefix p = Inr b" and k: "bin_encode k = Inr b"
  then obtain lo where p: "bin_encode p = Inr lo" "b = lo @ [0xFF]"
    by (auto simp: bin_upper_bound_of_prefix_def rbind_eq_Inr)
  have "concat (map comp_bytes k) = concat (map comp_bytes p) @ [0xFF]"
    using p k by (simp add: bin_encode_Inr)
  then have "last (concat (map comp_bytes k)) = 0xFF" by simp
  moreover have "k \<noteq> []" using k by (simp add: bin_encode_Inr)
  ultimately show False using last_encoded [of k] by simp
qed

lemma takeWhile_filter: "sorted_wrt (\<lambda>x y. P y \<longrightarrow> P x) xs \<Longrightarrow> takeWhile P xs = filter P xs"
  by (induction xs) (auto simp: filter_empty_conv)

lemma anchored_bounds:
  assumes a: "anchored bin_upper_bound_of_prefix bin_ok options site"
  shows "\<exists>start stop. scan_bounds ctx_codec options = Inr (Some start, stop) \<and>
    (case so_start options of
       None \<Rightarrow> so_reverse options \<and> bin_upper_bound_of_prefix site = Inr start
     | Some k \<Rightarrow> prefix site k \<and> bin_encode k = Inr start)"
proof (cases "so_start_encoded options")
  case (Some b)
  then show ?thesis using a by (auto simp: anchored_def scan_bounds_def)
next
  case None
  then obtain k where k: "so_start options = Some k" "bin_ok k" "prefix site k"
    using a by (auto simp: anchored_def)
  obtain e where e: "bin_encode k = Inr e" using bin_ok_encode [OF k(2)] by blast
  with k None show ?thesis by (simp add: scan_bounds_def wrap_error_def)
qed

lemma emit_passthrough: "scan_emit ctx_codec it k v = Inr (emit_row it k v)"
  by (cases it) (simp_all add: scan_emit_def wrap_error_def passthrough_decode_def)

lemma anchored_spec:
  assumes f: "finite (dom m)" and v: "view_ok m" and k: "bin_ok site"
    and a: "anchored bin_upper_bound_of_prefix bin_ok options site"
  shows "scan_spec ctx_codec options it m =
    (map (\<lambda>(k, v). emit_row it k v) (site_rows (key_map m) options site), Inr ())"
proof -
  let ?r = "so_reverse options"
  from anchored_bounds [OF a] obtain start stop where
    b: "scan_bounds ctx_codec options = Inr (Some start, stop)"
    and st: "case so_start options of None \<Rightarrow> ?r \<and> bin_upper_bound_of_prefix site = Inr start
      | Some k \<Rightarrow> prefix site k \<and> bin_encode k = Inr start"
    by blast
  obtain lo where lo: "bin_encode site = Inr lo" using bin_ok_encode [OF k] by blast
  obtain hi where hi: "bin_upper_bound_of_prefix site = Inr hi" using binary.ub_ok [OF lo] by blast
  let ?R = "view_rows m (Some start) True ?r None"
  let ?B = "\<lambda>(e :: bytes, k, v :: pyval). prefix site k"
  have enc: "bin_encode k = Inr e" if "(e, k, v) \<in> set ?R" for e k v
    using that v by (auto simp: set_view_rows [OF f] view_ok_def keyed_def)
  have range: "prefix site k \<longleftrightarrow> lo \<le> e \<and> e < hi" if "(e, k, v) \<in> set ?R" for e k v
    using binary.prefix_range [OF lo hi enc [OF that]] by simp
  have start: "lo \<le> start" "start \<le> hi" "so_start options = Some k \<Longrightarrow> start < hi" for k
    using st hi lo binary.enc_prefix_le [OF lo] binary.enc_less_ub [OF lo hi] binary.enc_less_ub [OF lo hi lo]
    by (auto split: option.splits intro: less_imp_le)
  have inside: "if ?r then e < hi else lo \<le> e" if "(e, k, v) \<in> set ?R" for e k v
  proof (cases ?r)
    case True
    then have "e \<le> start" using that by (auto simp: set_view_rows [OF f] in_bounds_def before_def split: if_splits)
    moreover have "e \<noteq> hi" using bound_not_key [OF hi, of k] enc [OF that] by auto
    ultimately show ?thesis using start(2) True by auto
  next
    case False
    moreover have "start \<le> e" using that False
      by (auto simp: set_view_rows [OF f] in_bounds_def before_def split: if_splits)
    ultimately show ?thesis using start(1) by simp
  qed
  have sorted: "sorted_wrt (before ?r) (map fst ?R)" by (rule view_rows_sorted [OF f])
  have tw: "takeWhile ?B ?R = filter ?B ?R"
  proof (rule takeWhile_filter, rule sorted_wrt_mono_rel [of _ "\<lambda>x y. before ?r (fst x) (fst y)"])
    show "sorted_wrt (\<lambda>x y. before ?r (fst x) (fst y)) ?R" using sorted by (simp add: sorted_wrt_map)
    fix x y assume x: "x \<in> set ?R" and y: "y \<in> set ?R" and xy: "before ?r (fst x) (fst y)"
    obtain e k v e' k' v' where [simp]: "x = (e, k, v)" "y = (e', k', v')" by (cases x; cases y) auto
    show "?B y \<longrightarrow> ?B x"
      using range [of e k v] range [of e' k' v'] inside [of e k v] x y xy
      by (auto simp: before_def split: if_splits)
  qed
  define W where "W = filter (row_kept options) (filter ?B ?R)"
  define Q where "Q = (\<lambda>k. prefix site k \<and> from_start options k \<and> \<not> too_deep options k \<and>
    accepts (so_filter options) k)"
  have br: "accepts (so_break_filter options) k \<longleftrightarrow> prefix site k" for k
    using a by (auto simp: anchored_def accepts_def prefix_iff_take)
  have W: "(e, k, v) \<in> set W \<longleftrightarrow> bin_encode k = Inr e \<and> key_map m k = Some v \<and> Q k" for e k v
  proof -
    have "in_bounds (Some start) True ?r None e \<longleftrightarrow> from_start options k"
      if "bin_encode k = Inr e" "prefix site k"
    proof (cases "so_start options")
      case None
      then have "e < start" "?r" using binary.enc_less_ub [OF lo _ that] st by simp_all
      with None show ?thesis by (simp add: in_bounds_def before_def from_start_def)
    next
      case (Some l)
      then have l: "bin_encode l = Inr start" using st by simp
      show ?thesis
        using Some binary.enc_order_le [OF l that(1)] binary.enc_order_le [OF that(1) l]
        by (auto simp: in_bounds_def before_def from_start_def order.order_iff_strict split: if_splits)
    qed
    then show ?thesis
      using v by (auto simp: W_def row_kept_def Q_def br set_view_rows [OF f] key_map_Some dest: key_map_row)
  qed
  have Wkeys: "map (fst \<circ> snd) W = (if ?r then rev (filter Q (sorted_list_of_set (dom (key_map m))))
      else filter Q (sorted_list_of_set (dom (key_map m))))" (is "?K = _")
  proof -
    have "sorted_wrt (\<lambda>x y. before ?r (fst x) (fst y)) W"
      using sorted by (simp add: W_def sorted_wrt_map sorted_filter_less)
    then have "sorted_wrt (\<lambda>x y. before ?r (fst (snd x)) (fst (snd y))) W"
    proof (rule sorted_wrt_mono_rel [rotated])
      fix x y assume x: "x \<in> set W" and y: "y \<in> set W" and xy: "before ?r (fst x) (fst y)"
      obtain e k v e' k' v' where [simp]: "x = (e, k, v)" "y = (e', k', v')" by (cases x; cases y) auto
      show "before ?r (fst (snd x)) (fst (snd y))"
        using W [of e k v] W [of e' k' v'] x y xy binary.enc_order [of k e k' e'] binary.enc_order [of k' e' k e]
        by (auto simp: before_def)
    qed
    then have s: "sorted_wrt (before ?r) ?K" by (simp add: sorted_wrt_map)
    have mem: "k \<in> set ?K \<longleftrightarrow> Q k \<and> k \<in> dom (key_map m)" for k
    proof -
      have "k \<in> set ?K \<longleftrightarrow> (\<exists>e v. (e, k, v) \<in> set W)" by force
      also have "\<dots> \<longleftrightarrow> Q k \<and> k \<in> dom (key_map m)" by (auto simp: W key_map_Some [OF v])
      finally show ?thesis .
    qed
    have set: "set ?K = set (filter Q (sorted_list_of_set (dom (key_map m))))"
      using finite_key_map [OF f v] by (auto simp del: set_map simp: mem)
    have "sorted_wrt (<) (filter Q (sorted_list_of_set (dom (key_map m))))" by (rule sorted_filter_less) simp
    then have "sorted_wrt (before ?r) (if ?r then rev (filter Q (sorted_list_of_set (dom (key_map m))))
      else filter Q (sorted_list_of_set (dom (key_map m))))"
      by (simp add: before_def [abs_def] sorted_wrt_rev)
    from before_sorted_unique [OF s this] set show ?thesis by simp
  qed
  have lim: "0 < n" if "so_limit options = Some n" for n using a that by (simp add: anchored_def)
  have "scan_ref ctx_codec options it (so_limit options) ?R =
      (map (\<lambda>(e, k, v). emit_row it k v) (cut (so_limit options) W), Inr ())"
    using scan_ref_anchored [of options site ?R ctx_codec it "emit_row it" "so_limit options"] a lim
    unfolding tw W_def [symmetric] by (simp add: anchored_def emit_passthrough)
  moreover have "map snd W = map (\<lambda>k. (k, the (key_map m k))) ?K"
    using W by (auto simp: o_def)
  then have rows: "map snd (cut (so_limit options) W) = site_rows (key_map m) options site"
    by (cases "so_limit options") (auto simp: cut_def site_rows_def site_keys_def Let_def Wkeys Q_def take_map [symmetric])
  have "map (\<lambda>(e, k, v). emit_row it k v) (cut (so_limit options) W) =
      map (\<lambda>(k, v). emit_row it k v) (site_rows (key_map m) options site)"
    by (simp add: split_def o_def flip: rows)
  ultimately show ?thesis using b lim by (auto simp: scan_spec_def split: option.splits dest: leD)
qed

section \<open>The contexts keep the contract\<close>

text \<open>A property of the context's state that no page changes may be added to the invariant.\<close>

context read_view begin

lemma strengthen:
  assumes "\<And>s b i r n stop. P s \<Longrightarrow> P (snd (page b i r n stop s))"
  shows "read_view (\<lambda>s. inv s \<and> P s) view universe lookup page"
proof unfold_locales
  fix s e n b i r stop assume s: "inv s \<and> P s"
  then show "lookup s e = (case view s e of None \<Rightarrow> ABSENT | Some r \<Rightarrow> Row r)"
    "inv (snd (page b i r n stop s)) \<and> P (snd (page b i r n stop s))"
    "view (snd (page b i r n stop s)) = view s" "universe (snd (page b i r n stop s)) = universe s"
    "finite (universe s)" "dom (view s) \<subseteq> universe s"
    using lookup_view page_inv page_same page_universe finite_universe view_universe assms by auto
  assume "0 < n"
  then show "view_page (view s) (universe s) b i r stop (fst (page b i r n stop s))" using s page_view by blast
qed

end

text \<open>An open transaction on the store \<open>s0\<close>, which a transaction never changes before it commits.\<close>

interpretation open_txn_view: read_view
  "\<lambda>st. (case st of (s, tx) \<Rightarrow> index_ok s \<and> tx_inv tx) \<and> (fst st = s0 \<and> \<not> tx_closed (snd st))"
  "\<lambda>(s, tx). tx_view s tx"
  "\<lambda>(s, tx). dom (vs_live s) \<union> fst ` set (tx_pending tx)"
  "\<lambda>(s, tx). tx_lookup s tx"
  tx_hook
  for s0
  unfolding tx_hook_eq by (rule txn_view.strengthen) (auto simp: Let_def case_prod_unfold)

interpretation open_txn_scan: scanned_view
  "\<lambda>st. (case st of (s, tx) \<Rightarrow> index_ok s \<and> tx_inv tx) \<and> (fst st = s0 \<and> \<not> tx_closed (snd st))"
  "\<lambda>(s, tx). tx_view s tx"
  "\<lambda>(s, tx). dom (vs_live s) \<union> fst ` set (tx_pending tx)"
  "\<lambda>(s, tx). tx_lookup s tx"
  tx_hook
  ctx_codec
  for s0
  unfolding scanned_view_def ctx_codec_sel
  using open_txn_view.read_view_axioms binary.prefix_codec_axioms by blast

interpretation open_snapshot_view: read_view
  "\<lambda>st. (case st of (s, sn) \<Rightarrow> index_ok s) \<and> st = st0 \<and> \<not> sn_closed (snd st)"
  "\<lambda>(s, sn). view_at s (sn_seq sn)"
  "\<lambda>(s, sn). dom (vs_live s) \<union> dom (vs_history s)"
  "\<lambda>(s, sn). sn_lookup s sn"
  sn_hook
  for st0
  unfolding sn_hook_eq by (rule snapshot_view.strengthen) (auto simp: case_prod_unfold)

interpretation open_snapshot_scan: scanned_view
  "\<lambda>st. (case st of (s, sn) \<Rightarrow> index_ok s) \<and> st = st0 \<and> \<not> sn_closed (snd st)"
  "\<lambda>(s, sn). view_at s (sn_seq sn)"
  "\<lambda>(s, sn). dom (vs_live s) \<union> dom (vs_history s)"
  "\<lambda>(s, sn). sn_lookup s sn"
  sn_hook
  ctx_codec
  for st0
  unfolding scanned_view_def ctx_codec_sel
  using open_snapshot_view.read_view_axioms binary.prefix_codec_axioms by blast

definition txn_ok :: "(bytes, key, pyval) vstore \<Rightarrow> mem_txn \<Rightarrow> bool" where
  "txn_ok s0 st \<longleftrightarrow> (case st of (s, tx) \<Rightarrow> index_ok s \<and> tx_inv tx) \<and> (fst st = s0 \<and> \<not> tx_closed (snd st)) \<and>
     view_ok (tx_view (fst st) (snd st))"

definition txn_weight :: "mem_txn \<Rightarrow> nat" where
  "txn_weight = (\<lambda>(s, tx). card (dom (vs_live s) \<union> fst ` set (tx_pending tx)))"

definition txn_map :: "mem_txn \<Rightarrow> key \<rightharpoonup> pyval" where
  "txn_map = (\<lambda>(s, tx). key_map (tx_view s tx))"

definition txn_at ::
  "nat \<Rightarrow> (bytes, key, pyval) vstore \<Rightarrow> bytes scan_options \<Rightarrow> iterator_type \<Rightarrow> key option \<Rightarrow>
   (bytes, pyval) gen_state \<Rightarrow> mem_txn \<Rightarrow> (key \<times> pyval) list \<Rightarrow> bool" where
  "txn_at pages s0 options it just g st L \<longleftrightarrow>
     txn_ok s0 st \<and> txn_weight st < pages \<and> (\<forall>d. so_max_depth options = Some d \<longrightarrow> 1 \<le> d) \<and>
     (\<exists>j. gen_left ctx_codec options it (tx_view (fst st) (snd st))
            (dom (vs_live (fst st)) \<union> fst ` set (tx_pending (snd st))) pages j g
            (map (\<lambda>(k, v). emit_row it k v) L, Inr ()) \<and>
          (\<forall>k. just = Some k \<and> it \<noteq> VALUES \<longrightarrow> (\<exists>v. j = Some (emit_row it k v))))"

lemma gen_left_row:
  "finite (dom m) \<Longrightarrow> gen_left codec options it m U fuel (Some out) gs result \<Longrightarrow>
   \<exists>e k v. m e = Some (k, v) \<and> scan_emit codec it k v = Inr out"
proof (cases gs)
  case (Gen_Yielded g)
  assume f: "finite (dom m)" and "gen_left codec options it m U fuel (Some out) gs result"
  then obtain A e k v where
    A: "view_rows m (gen_bound g) (gen_inclusive g) (so_reverse options) (gen_stop g) = A @ (e, k, v) # left_rows m options g"
    and em: "scan_emit codec it k v = Inr out"
    using Gen_Yielded by (auto simp: gen_left_def)
  have "(e, k, v) \<in> set (view_rows m (gen_bound g) (gen_inclusive g) (so_reverse options) (gen_stop g))"
    by (simp add: A)
  with em show ?thesis by (auto simp: set_view_rows [OF f])
qed (simp_all add: gen_left_def)

lemma txn_view_finite: "txn_ok s0 st \<Longrightarrow> finite (dom (tx_view (fst st) (snd st)))"
  using open_txn_scan.finite_view [of st s0] by (auto simp: txn_ok_def case_prod_unfold)

lemma emit_row_inj: "it \<noteq> VALUES \<Longrightarrow> emit_row it k v = emit_row it k' v' \<Longrightarrow> k = k'"
  by (cases it) auto

lemma txn_stage:
  assumes t: "txn_ok s0 (s, tx)" and e: "bin_encode k = Inr e" and w: "w \<noteq> Val VEmpty"
  shows "txn_ok s0 (s, tx_stage e k w tx)"
    and "txn_weight (s, tx_stage e k w tx) \<le> Suc (txn_weight (s, tx))"
    and "e \<in> dom (tx_view s tx) \<Longrightarrow>
      dom (vs_live s) \<union> fst ` set (tx_pending (tx_stage e k w tx)) = dom (vs_live s) \<union> fst ` set (tx_pending tx)"
    and "txn_map (s, tx_stage e k w tx) = (txn_map (s, tx))(k := (case w of DELETED \<Rightarrow> None | Val v \<Rightarrow> Some v))"
proof -
  have t': "index_ok s" "tx_inv tx" "s = s0" "\<not> tx_closed tx" "view_ok (tx_view s tx)"
    using t by (auto simp: txn_ok_def)
  have v: "tx_view s (tx_stage e k w tx) = (tx_view s tx)(e := outcome k w)" by (rule tx_stage_view [OF t'(2)])
  have "view_ok (tx_view s (tx_stage e k w tx))"
    using view_ok_update [OF t'(5) e] w by (auto simp: v outcome_def split: pending.splits)
  then show "txn_ok s0 (s, tx_stage e k w tx)" using t' by (simp add: txn_ok_def tx_stage_inv)
  have p: "fst ` set (tx_pending (tx_stage e k w tx)) = insert e (fst ` set (tx_pending tx))"
    by (simp add: dom_update)
  show "txn_weight (s, tx_stage e k w tx) \<le> Suc (txn_weight (s, tx))"
    unfolding txn_weight_def prod.case p using finite_live [OF t'(1)] by (simp add: card_insert_if)
  show "dom (vs_live s) \<union> fst ` set (tx_pending (tx_stage e k w tx)) = dom (vs_live s) \<union> fst ` set (tx_pending tx)"
    if "e \<in> dom (tx_view s tx)"
    using that tx_view_dom [OF t'(2), of s] unfolding p by auto
  show "txn_map (s, tx_stage e k w tx) = (txn_map (s, tx))(k := (case w of DELETED \<Rightarrow> None | Val v \<Rightarrow> Some v))"
    by (auto simp: txn_map_def v outcome_def key_map_update [OF e] split: pending.splits)
qed

lemma txn_ok_modified [simp]:
  "txn_ok s0 (s, tx\<lparr>tx_modified := m\<rparr>) = txn_ok s0 (s, tx)"
  "txn_weight (s, tx\<lparr>tx_modified := m\<rparr>) = txn_weight (s, tx)"
  "txn_map (s, tx\<lparr>tx_modified := m\<rparr>) = txn_map (s, tx)"
  by (simp_all add: txn_ok_def txn_weight_def txn_map_def)

lemma txn_delete_enc:
  assumes "txn_ok s0 (s, tx)" and "bin_encode k = Inr e"
  shows "ctx_delete (txn_ctx pages) k (s, tx) = (Inr (), (s, tx_stage e k DELETED tx))"
  using assms by (simp add: txn_ctx_def tx_delete_def ctx_delete_args_def txn_ok_def wrap_error_def)

lemma txn_put_enc:
  assumes "txn_ok s0 (s, tx)" and "bin_encode k = Inr e" and "v \<noteq> VEmpty"
  shows "ctx_put (txn_ctx pages) k v (s, tx) =
    (Inr (), (s, (tx_stage e k (Val v) tx)\<lparr>tx_modified := insert k (tx_modified (tx_stage e k (Val v) tx))\<rparr>))"
  using assms
  by (simp add: txn_ctx_def tx_put_def ctx_put_args_def txn_ok_def wrap_error_def as_value_def passthrough_encode_def Let_def)

interpretation txn_kv: kv_context
  "txn_ctx pages"
  "txn_ok s0"
  txn_weight
  pages
  txn_map
  bin_ok
  seg_ok
  "txn_at pages s0"
  for pages s0
proof (unfold_locales, goal_cases)
  case 1
  then show ?case by (simp add: txn_ctx_def)
next
  case (2 s)
  then show ?case using txn_view_finite [of s0 s] finite_key_map
    by (auto simp: txn_map_def txn_ok_def case_prod_unfold)
next
  case (3 s k v)
  then show ?case by (auto simp: txn_map_def txn_ok_def key_map_Some bin_ok_def case_prod_unfold)
next
  case (4 s k)
  then show ?case by (auto simp: txn_map_def txn_ok_def key_map_Some view_ok_def case_prod_unfold)
next
  case (5 k)
  show ?case by (rule bin_ok_iff)
next
  case 6
  show ?case by (simp add: METADATA_ROOT_def seg_ok_def lit_def scalar_def is_surrogate_def)
next
  case 7
  show ?case by (simp add: seg_ok_def)
next
  case (8 s k)
  obtain e where e: "bin_encode k = Inr e" using bin_ok_encode [OF 8(2)] by blast
  then show ?case using 8(1) open_txn_view.get_view [of s s0 ctx_codec k e]
    by (auto simp: txn_ctx_def txn_ok_def txn_map_def case_prod_unfold key_map_enc passthrough_decode_def
        split: option.splits dest: key_map_row)
next
  case (9 s k)
  obtain e where e: "bin_encode k = Inr e" using bin_ok_encode [OF 9(2)] by blast
  then show ?case using 9(1) open_txn_view.exists_view [of s s0 ctx_codec k e]
    by (auto simp: txn_ctx_def txn_ok_def txn_map_def case_prod_unfold key_map_enc)
next
  case (10 p)
  then show ?case using bin_ok_encode binary.ub_ok by (fastforce simp: txn_ctx_def)
next
  case (11 s site options it)
  then show ?case
    using anchored_spec [OF txn_view_finite [OF 11(1)] _ 11(3), of options it]
    by (auto simp: txn_at_def txn_ctx_def gen_left_def txn_map_def txn_ok_def case_prod_unfold anchored_def)
next
  case (12 options it just g st L)
  obtain s tx where st: "st = (s, tx)" by (cases st)
  let ?U = "dom (vs_live s) \<union> fst ` set (tx_pending tx)"
  from 12 obtain j where t: "txn_ok s0 (s, tx)" and w: "card ?U < pages"
    and d: "\<And>d. so_max_depth options = Some d \<Longrightarrow> 1 \<le> d"
    and g: "gen_left ctx_codec options it (tx_view s tx) ?U pages j g (map (\<lambda>(k, v). emit_row it k v) L, Inr ())"
    by (auto simp: txn_at_def txn_weight_def st)
  have pre: "keyed ctx_codec (tx_view s tx)" "index_ok s \<and> tx_inv tx" "s = s0 \<and> \<not> tx_closed tx"
    using t by (auto simp: txn_ok_def view_ok_def)
  note N = open_txn_scan.left_next [of "(s, tx)" options s0 pages it j g "map (\<lambda>(k, v). emit_row it k v) L" "Inr ()",
      unfolded prod.case fst_conv snd_conv, OF pre(1) d conjI [OF pre(2,3)] w g]
  obtain ev g' st' where n: "scan_next tx_hook ctx_codec options it pages False g st = Some (ev, g', st')"
    and i: "index_ok (fst st')" "tx_inv (snd st')" "fst st' = s0" "\<not> tx_closed (snd st')"
    and v: "tx_view (fst st') (snd st') = tx_view s tx"
      "dom (vs_live (fst st')) \<union> fst ` set (tx_pending (snd st')) = ?U"
    and ev: "case map (\<lambda>(k, v). emit_row it k v) L of [] \<Rightarrow> ev = Return
      | out # outs \<Rightarrow> ev = Yield out \<and> gen_left ctx_codec options it (tx_view s tx) ?U pages (Some out) g' (outs, Inr ())"
    using N unfolding st case_prod_beta fst_conv snd_conv sum.case by blast
  have ok: "txn_ok s0 st'" using t i v(1) by (auto simp: txn_ok_def case_prod_unfold)
  have same: "txn_weight st' = txn_weight st" "txn_map st' = txn_map st"
    using v by (simp_all add: txn_weight_def txn_map_def case_prod_unfold st)
  have "ctx_next (txn_ctx pages) options it g st = Some (ev, g', st')"
    using n t by (simp add: txn_ctx_def st txn_ok_def)
  moreover have "case L of [] \<Rightarrow> ev = Return
      | (k, v) # L' \<Rightarrow> ev = Yield (emit_row it k v) \<and> txn_at pages s0 options it (Some k) g' st' L'"
    using ev ok d w v same by (auto simp: txn_at_def txn_weight_def case_prod_unfold split: list.splits)
  ultimately show ?case using ok same by blast
next
  case (13 options it just g s L)
  then show ?case by (simp add: txn_at_def)
next
  case 14
  then show ?case by (simp add: txn_ctx_def)
next
  case (15 st k v)
  obtain s tx where st: "st = (s, tx)" by (cases st)
  obtain e where e: "bin_encode k = Inr e" using bin_ok_encode [OF 15(2)] by blast
  note t = 15(1) [unfolded st]
  from txn_put_enc [OF t e 15(3)] txn_stage [OF t e, of "Val v"] 15(3) show ?case by (simp add: st)
next
  case (16 st k)
  obtain s tx where st: "st = (s, tx)" by (cases st)
  obtain e where e: "bin_encode k = Inr e" using bin_ok_encode [OF 16(2)] by blast
  note t = 16(1) [unfolded st]
  from txn_delete_enc [OF t e] txn_stage [OF t e, of DELETED] show ?case by (simp add: st)
next
  case (17 options it k g st L)
  obtain s tx where st: "st = (s, tx)" by (cases st)
  let ?U = "dom (vs_live s) \<union> fst ` set (tx_pending tx)"
  from 17 obtain v where t: "txn_ok s0 (s, tx)" and w: "txn_weight st < pages"
    and d: "\<And>d. so_max_depth options = Some d \<Longrightarrow> 1 \<le> d"
    and g: "gen_left ctx_codec options it (tx_view s tx) ?U pages (Some (emit_row it k v)) g
      (map (\<lambda>(k, v). emit_row it k v) L, Inr ())"
    by (auto simp: txn_at_def st)
  have f: "finite (dom (tx_view s tx))" using txn_view_finite [OF t] by simp
  have row: "k' = k \<and> bin_encode k = Inr e'" if "tx_view s tx e' = Some (k', v')" "scan_emit ctx_codec it k' v' = Inr (emit_row it k v)" for e' k' v'
    using that t 17(2) emit_row_inj [of it k' v' k v] by (auto simp: txn_ok_def emit_passthrough dest: key_map_row)
  from gen_left_row [OF f g] row obtain e where e: "e \<in> dom (tx_view s tx)" "bin_encode k = Inr e" by blast
  have "gen_left ctx_codec options it ((tx_view s tx)(e := None)) ?U pages None g (map (\<lambda>(k, v). emit_row it k v) L, Inr ())"
    using f g by (rule gen_left_delete) (use row e(2) in auto)
  with txn_stage [OF t e(2), of DELETED] e(1) d w
  have "txn_at pages s0 options it None g (s, tx_stage e k DELETED tx) L"
    and "txn_weight (s, tx_stage e k DELETED tx) = txn_weight (s, tx)"
    using t by (auto simp: txn_at_def txn_weight_def st txn_ok_def tx_stage_view outcome_def)
  with txn_delete_enc [OF t e(2)] txn_stage(4) [OF t e(2), of DELETED] show ?case by (simp add: st)
qed

text \<open>A snapshot reads and scans; nothing changes it.\<close>

definition snapshot_ok :: "mem_snapshot \<Rightarrow> mem_snapshot \<Rightarrow> bool" where
  "snapshot_ok st0 st \<longleftrightarrow> (case st of (s, sn) \<Rightarrow> index_ok s) \<and> st = st0 \<and> \<not> sn_closed (snd st) \<and>
     view_ok (view_at (fst st) (sn_seq (snd st)))"

definition snapshot_weight :: "mem_snapshot \<Rightarrow> nat" where
  "snapshot_weight = (\<lambda>(s, sn). card (dom (vs_live s) \<union> dom (vs_history s)))"

definition snapshot_map :: "mem_snapshot \<Rightarrow> key \<rightharpoonup> pyval" where
  "snapshot_map = (\<lambda>(s, sn). key_map (view_at s (sn_seq sn)))"

definition snapshot_at ::
  "nat \<Rightarrow> mem_snapshot \<Rightarrow> bytes scan_options \<Rightarrow> iterator_type \<Rightarrow> key option \<Rightarrow>
   (bytes, pyval) gen_state \<Rightarrow> mem_snapshot \<Rightarrow> (key \<times> pyval) list \<Rightarrow> bool" where
  "snapshot_at pages st0 options it just g st L \<longleftrightarrow>
     snapshot_ok st0 st \<and> snapshot_weight st < pages \<and> (\<forall>d. so_max_depth options = Some d \<longrightarrow> 1 \<le> d) \<and>
     (\<exists>j. gen_left ctx_codec options it (view_at (fst st) (sn_seq (snd st)))
            (dom (vs_live (fst st)) \<union> dom (vs_history (fst st))) pages j g
            (map (\<lambda>(k, v). emit_row it k v) L, Inr ()))"

lemma snapshot_view_finite: "snapshot_ok st0 st \<Longrightarrow> finite (dom (view_at (fst st) (sn_seq (snd st))))"
  using open_snapshot_scan.finite_view [of st st0] by (auto simp: snapshot_ok_def case_prod_unfold)

interpretation snapshot_kv: kv_reader
  "snapshot_ctx pages"
  "snapshot_ok st0"
  snapshot_weight
  pages
  snapshot_map
  bin_ok
  seg_ok
  "snapshot_at pages st0"
  for pages st0
proof (unfold_locales, goal_cases)
  case 1
  then show ?case by (simp add: snapshot_ctx_def)
next
  case (2 s)
  then show ?case using snapshot_view_finite [of st0 s] finite_key_map
    by (auto simp: snapshot_map_def snapshot_ok_def case_prod_unfold)
next
  case (3 s k v)
  then show ?case by (auto simp: snapshot_map_def snapshot_ok_def key_map_Some bin_ok_def case_prod_unfold)
next
  case (4 s k)
  then show ?case by (auto simp: snapshot_map_def snapshot_ok_def key_map_Some view_ok_def case_prod_unfold)
next
  case (5 k)
  show ?case by (rule bin_ok_iff)
next
  case 6
  show ?case by (rule txn_kv.okseg_meta)
next
  case 7
  show ?case by (rule txn_kv.okseg_empty)
next
  case (8 s k)
  obtain e where e: "bin_encode k = Inr e" using bin_ok_encode [OF 8(2)] by blast
  then show ?case using 8(1) open_snapshot_view.get_view [of s st0 ctx_codec k e]
    by (auto simp: snapshot_ctx_def snapshot_ok_def snapshot_map_def case_prod_unfold key_map_enc passthrough_decode_def
        split: option.splits dest: key_map_row)
next
  case (9 s k)
  obtain e where e: "bin_encode k = Inr e" using bin_ok_encode [OF 9(2)] by blast
  then show ?case using 9(1) open_snapshot_view.exists_view [of s st0 ctx_codec k e]
    by (auto simp: snapshot_ctx_def snapshot_ok_def snapshot_map_def case_prod_unfold key_map_enc)
next
  case (10 p)
  then show ?case using bin_ok_encode binary.ub_ok by (fastforce simp: snapshot_ctx_def)
next
  case (11 s site options it)
  then show ?case
    using anchored_spec [OF snapshot_view_finite [OF 11(1)] _ 11(3), of options it]
    by (auto simp: snapshot_at_def snapshot_ctx_def gen_left_def snapshot_map_def snapshot_ok_def case_prod_unfold anchored_def)
next
  case (12 options it just g st L)
  obtain s sn where st: "st = (s, sn)" by (cases st)
  let ?U = "dom (vs_live s) \<union> dom (vs_history s)" and ?V = "view_at s (sn_seq sn)"
  from 12 obtain j where t: "snapshot_ok st0 (s, sn)" and w: "card ?U < pages"
    and d: "\<And>d. so_max_depth options = Some d \<Longrightarrow> 1 \<le> d"
    and g: "gen_left ctx_codec options it ?V ?U pages j g (map (\<lambda>(k, v). emit_row it k v) L, Inr ())"
    by (auto simp: snapshot_at_def snapshot_weight_def st)
  have pre: "keyed ctx_codec ?V" "index_ok s" "(s, sn) = st0 \<and> \<not> sn_closed sn"
    using t by (auto simp: snapshot_ok_def view_ok_def)
  note N = open_snapshot_scan.left_next [of "(s, sn)" options st0 pages it j g "map (\<lambda>(k, v). emit_row it k v) L" "Inr ()",
      unfolded prod.case fst_conv snd_conv, OF pre(1) d conjI [OF pre(2,3)] w g]
  obtain ev g' where n: "scan_next sn_hook ctx_codec options it pages False g st = Some (ev, g', st)"
    and ev: "case map (\<lambda>(k, v). emit_row it k v) L of [] \<Rightarrow> ev = Return
      | out # outs \<Rightarrow> ev = Yield out \<and> gen_left ctx_codec options it ?V ?U pages (Some out) g' (outs, Inr ())"
    using N pre(3) unfolding st case_prod_beta fst_conv snd_conv sum.case by blast
  have "ctx_next (snapshot_ctx pages) options it g st = Some (ev, g', st)"
    using n pre(3) [THEN conjunct2] by (simp add: snapshot_ctx_def st)
  moreover have "case L of [] \<Rightarrow> ev = Return
      | (k, v) # L' \<Rightarrow> ev = Yield (emit_row it k v) \<and> snapshot_at pages st0 options it (Some k) g' st L'"
    using ev t d w by (auto simp: snapshot_at_def snapshot_weight_def st split: list.splits)
  ultimately show ?case using t unfolding st by (intro exI conjI) auto
next
  case (13 options it just g s L)
  then show ?case by (simp add: snapshot_at_def)
qed

end
