(* ===== verification/Container_Props.thy ===== *)
theory Container_Props
  imports Mem_Container
begin

text \<open>
  The properties of the container layer, on transactions of the in-memory storage: the tree of
  containers, listing, deleting and moving subtrees, creating and reading nodes, metadata.
\<close>

section \<open>Calls\<close>

text \<open>The validated calls a client makes, in a transaction that survives the errors they raise.\<close>

datatype container_call =
    Create site pyval int
  | Put site seg pyval
  | Delete_Child site seg
  | Delete_Container site
  | Put_Metadata site seg pyval
  | Delete_Metadata site seg

fun container_step :: "('e, 'g, 's) kv_ctx \<Rightarrow> container_call \<Rightarrow> 's \<Rightarrow> (unit res \<times> 's) option" where
  "container_step ctx (Create site structure protocol) s = Some (create_container ctx site structure protocol True None s)"
| "container_step ctx (Put site key val) s = Some (put_child_primitive ctx site key val True True s)"
| "container_step ctx (Delete_Child site key) s = delete_child ctx site key s"
| "container_step ctx (Delete_Container site) s = delete_container ctx site s"
| "container_step ctx (Put_Metadata site key val) s = Some (put_metadata ctx site key val s)"
| "container_step ctx (Delete_Metadata site key) s = Some (delete_metadata ctx site key s)"

fun container_run :: "('e, 'g, 's) kv_ctx \<Rightarrow> container_call list \<Rightarrow> 's \<Rightarrow> (unit res list \<times> 's) option" where
  "container_run ctx [] s = Some ([], s)"
| "container_run ctx (c # cs) s =
     do {
       (r, s) \<leftarrow> container_step ctx c s;
       (rs, s) \<leftarrow> container_run ctx cs s;
       Some (r # rs, s)
     }"

text \<open>The keys of a call can be encoded.\<close>

fun call_ok :: "container_call \<Rightarrow> bool" where
  "call_ok (Create site structure protocol) = bin_ok site"
| "call_ok (Put site key val) = (bin_ok site \<and> seg_ok key)"
| "call_ok (Delete_Child site key) = (bin_ok site \<and> seg_ok key)"
| "call_ok (Delete_Container site) = bin_ok site"
| "call_ok (Put_Metadata site key val) = bin_ok (meta_key site key)"
| "call_ok (Delete_Metadata site key) = bin_ok (meta_key site key)"

lemma container_step_keeps:
  assumes "txn_ok s0 st" and "tree_ok (txn_map st)" and "txn_weight st < pages" and "call_ok c"
  shows "keeps (txn_ok s0) txn_weight txn_map st (container_step (txn_ctx pages) c st)"
  using assms
  by (cases c) (simp_all add: txn_kv.create_container_kept txn_kv.put_child_kept txn_kv.delete_child_kept
      txn_kv.delete_container_kept txn_kv.metadata_kept)

section \<open>A transaction to look at\<close>

definition ROOT :: site where "ROOT = [DATA_ROOT]"

definition sample :: "key \<rightharpoonup> pyval" where
  "sample = [ROOT \<mapsto> create_marker (VInt 1) 1, ROOT @ [SStr [97]] \<mapsto> VInt 5,
     [METADATA_ROOT, SInt 7] \<mapsto> VInt 1, [METADATA_ROOT, SStr [98]] \<mapsto> VInt 2]"

lemma txn_begin_ok: "txn_ok vs_init (vs_init, tx_begin 0 vs_init)"
  using vs_init_inv
  by (auto simp: txn_ok_def view_ok_def keyed_def vs_inv_def vs_init_def)

lemma txn_begin_map: "txn_map (vs_init, tx_begin 0 vs_init) = Map.empty" "txn_weight (vs_init, tx_begin 0 vs_init) = 0"
proof -
  show "txn_map (vs_init, tx_begin 0 vs_init) = Map.empty"
    by (simp add: txn_map_def fun_eq_iff key_map_def split: sum.splits) (simp add: vs_init_def)
  show "txn_weight (vs_init, tx_begin 0 vs_init) = 0" by (simp add: txn_weight_def vs_init_def tx_begin_def)
qed

lemma sample_exists: "\<exists>st. txn_ok vs_init st \<and> txn_weight st < 5 \<and> txn_map st = sample"
proof -
  let ?ctx = "txn_ctx 5"
  have k: "bin_ok ROOT" "bin_ok (ROOT @ [SStr [97]])" "bin_ok [METADATA_ROOT, SInt 7]" "bin_ok [METADATA_ROOT, SStr [98]]"
    by (simp_all add: bin_ok_iff ROOT_def DATA_ROOT_def METADATA_ROOT_def seg_ok_def lit_def scalar_def is_surrogate_def
        INT64_MIN_def INT64_MAX_def)
  have p: "\<exists>st'. txn_ok vs_init st' \<and> txn_weight st' \<le> Suc (txn_weight st) \<and> txn_map st' = (txn_map st)(k \<mapsto> v)"
    if "txn_ok vs_init st" "bin_ok k" "v \<noteq> VEmpty" for st k v
    using txn_kv.put [OF that] by blast
  from p [OF txn_begin_ok k(1), of "create_marker (VInt 1) 1"] obtain s1 where
    s1: "txn_ok vs_init s1" "txn_weight s1 \<le> 1" "txn_map s1 = [ROOT \<mapsto> create_marker (VInt 1) 1]"
    by (auto simp: txn_begin_map create_marker_def)
  from p [OF s1(1) k(2), of "VInt 5"] obtain s2 where
    s2: "txn_ok vs_init s2" "txn_weight s2 \<le> 2" "txn_map s2 = (txn_map s1)(ROOT @ [SStr [97]] \<mapsto> VInt 5)"
    using s1(2) by auto
  from p [OF s2(1) k(3), of "VInt 1"] obtain s3 where
    s3: "txn_ok vs_init s3" "txn_weight s3 \<le> 3" "txn_map s3 = (txn_map s2)([METADATA_ROOT, SInt 7] \<mapsto> VInt 1)"
    using s2(2) by auto
  from p [OF s3(1) k(4), of "VInt 2"] obtain s4 where
    s4: "txn_ok vs_init s4" "txn_weight s4 \<le> 4" "txn_map s4 = (txn_map s3)([METADATA_ROOT, SStr [98]] \<mapsto> VInt 2)"
    using s3(2) by auto
  show ?thesis using s1(3) s2(3) s3(3) s4 by (intro exI [of _ s4]) (simp add: sample_def)
qed

lemma root_ok: "bin_ok ROOT"
  by (simp add: bin_ok_iff ROOT_def DATA_ROOT_def seg_ok_def lit_def scalar_def is_surrogate_def)

lemma sample_at: "sample ROOT = Some (create_marker (VInt 1) 1)" "sample (ROOT @ [SStr [97]]) = Some (VInt 5)"
  "is_container sample ROOT"
  by (simp_all add: sample_def ROOT_def is_container_def)

section \<open>Properties\<close>

text \<open>C26: the container layer keeps a tree. Whatever validated calls a client makes (creating
  containers and primitives, deleting children and containers, writing metadata), in any order and
  whether they succeed or raise, each returns, and every node of the data tree but the root still
  has a container as its parent.\<close>

theorem container_tree_invariant:
  assumes "txn_ok s0 st" and "tree_ok (txn_map st)" and "\<forall>c \<in> set calls. call_ok c"
    and "txn_weight st + length calls < pages"
  shows "\<exists>rs st'. container_run (txn_ctx pages) calls st = Some (rs, st') \<and> length rs = length calls \<and>
    txn_ok s0 st' \<and> tree_ok (txn_map st')"
  using assms
proof (induction calls arbitrary: st)
  case (Cons c calls)
  then have "txn_weight st < pages" "call_ok c" by auto
  from container_step_keeps [OF Cons.prems(1,2) this] obtain r st1 where
    c: "container_step (txn_ctx pages) c st = Some (r, st1)" "txn_ok s0 st1" "tree_ok (txn_map st1)"
      "txn_weight st1 \<le> Suc (txn_weight st)"
    by (auto simp: keeps_def)
  from Cons.IH [OF c(2,3)] Cons.prems(3,4) c show ?case by fastforce
qed simp

theorem container_tree_invariant_witness:
  "\<exists>rs st'. container_run (txn_ctx 10)
     [Create ROOT (VInt 1) 1, Put ROOT (SStr [97]) (VInt 5), Put (ROOT @ [SStr [97]]) (SInt 0) VNone, Delete_Container ROOT]
     (vs_init, tx_begin 0 vs_init) = Some (rs, st') \<and> length rs = 4 \<and> tree_ok (txn_map st')"
  using container_tree_invariant [OF txn_begin_ok, of "[Create ROOT (VInt 1) 1, Put ROOT (SStr [97]) (VInt 5),
      Put (ROOT @ [SStr [97]]) (SInt 0) VNone, Delete_Container ROOT]" 10]
  by (auto simp: txn_begin_map tree_ok_def bin_ok_iff ROOT_def DATA_ROOT_def seg_ok_def lit_def scalar_def is_surrogate_def
      INT64_MIN_def INT64_MAX_def)

text \<open>C27: deleting a site deletes exactly the keys under it and, for a site of the data tree, the
  mirrored metadata keys; nothing else changes. The deletes happen while the scan that finds the keys
  is running, in the same transaction.\<close>

theorem delete_descendants_exact:
  assumes "txn_ok s0 st" and "txn_weight st < pages" and "bin_ok site"
  shows "\<exists>st'. delete_descendants (txn_ctx pages) site st = Some (Inr (), st') \<and> txn_ok s0 st' \<and>
    (\<forall>k. txn_map st' k =
      (if prefix site k \<or> hd site = DATA_ROOT \<and> prefix (METADATA_ROOT # tl site) k then None else txn_map st k))"
  using txn_kv.delete_descendants_ok [OF assms] by (auto simp: without_def restrict_map_def)

theorem delete_descendants_exact_witness:
  "\<exists>st. txn_map st = sample \<and> (\<exists>st'. delete_descendants (txn_ctx 5) ROOT st = Some (Inr (), st') \<and> txn_map st' = Map.empty)"
proof -
  obtain st where st: "txn_ok vs_init st" "txn_weight st < 5" "txn_map st = sample" using sample_exists by blast
  from delete_descendants_exact [OF st(1,2) root_ok] st(3) show ?thesis
    by (fastforce simp: fun_eq_iff sample_def ROOT_def)
qed

text \<open>Listing, counting and testing for children agree. \<open>iter_child_keys\<close> gives the last
  segments of the keys one level below the site, in key order or its reverse, whatever lies deeper;
  \<open>count_children\<close> is their number and \<open>has_children\<close> whether there are any. A strict call raises
  \<open>ContainerNotFoundError\<close> exactly when neither the site nor a child of it exists.\<close>

theorem child_listing:
  assumes "txn_ok s0 st" and "txn_weight st < pages" and "bin_ok site"
    and "xs = sorted_list_of_set {x. site @ [x] \<in> dom (txn_map st)}"
    and "absent \<longleftrightarrow> strict \<and> txn_map st site = None \<and> xs = []"
  shows "\<exists>s1 s2 s3.
    iter_child_keys (txn_ctx pages) site False reverse strict st =
      Some (if reverse then rev xs else xs, if absent then Inl ContainerNotFoundError else Inr (), s1) \<and>
    count_children (txn_ctx pages) site False strict st =
      Some (if absent then Inl ContainerNotFoundError else Inr (int (length xs)), s2) \<and>
    has_children (txn_ctx pages) site False strict st =
      Some (if absent then Inl ContainerNotFoundError else Inr (xs \<noteq> []), s3) \<and>
    txn_map s1 = txn_map st"
proof -
  have c: "children (txn_map st) site r = (if r then rev xs else xs)" for r
    by (simp add: children_def assms(4))
  from txn_kv.child_keys_rows [OF assms(1-3), of reverse strict] txn_kv.count_children_rows [OF assms(1-3), of strict]
    txn_kv.has_children_rows [OF assms(1-3), of strict]
  show ?thesis unfolding c assms(5) by (fastforce split: if_splits)
qed

theorem child_listing_witness:
  "\<exists>st. txn_map st = sample \<and>
     (\<exists>s1. iter_child_keys (txn_ctx 5) ROOT False True True st = Some ([SStr [97]], Inr (), s1))"
proof -
  obtain st where st: "txn_ok vs_init st" "txn_weight st < 5" "txn_map st = sample" using sample_exists by blast
  have "{x. ROOT @ [x] \<in> dom (txn_map st)} = {SStr [97]}" by (auto simp: st(3) sample_def ROOT_def split: if_splits)
  then have "[SStr [97]] = sorted_list_of_set {x. ROOT @ [x] \<in> dom (txn_map st)}" by simp
  from child_listing [OF st(1,2) root_ok this, of False True True] st(3)
  show ?thesis by - (rule exI [of _ st], auto)
qed

text \<open>C30: \<open>iter_descendants\<close> on a container gives, in key order, the site and everything below it for
  depth -1 and exactly the keys \<open>depth\<close> levels below for another accepted depth; on anything else
  it raises what the validation raises. Depths below -2 and depth 0 are refused; depth -2 is not,
  although the error message says only -1 and depths from 1 are valid: it gives the (accidental)
  keys two levels above, that is none.\<close>

theorem iter_descendants_exact:
  assumes "txn_ok s0 st" and "txn_weight st < pages" and "bin_ok site"
  shows "(depth < - 2 \<or> depth = 0 \<longrightarrow>
      iter_descendants (txn_ctx pages) site depth st = Some ([], Inl ContainerInvalidDepthError, st)) \<and>
    (depth = - 2 \<or> depth = - 1 \<or> 1 \<le> depth \<longrightarrow>
      (if is_container (txn_map st) site
       then \<exists>st'. iter_descendants (txn_ctx pages) site depth st =
         Some (filter (\<lambda>k. prefix site k \<and>
             (depth = - 1 \<or> depth \<noteq> - 2 \<and> length k = length site + nat depth))
           (sorted_list_of_set (dom (txn_map st))), Inr (), st')
       else \<exists>e. iter_descendants (txn_ctx pages) site depth st = Some ([], Inl e, st)))"
proof -
  have "below (txn_map st) site depth = filter (\<lambda>k. prefix site k \<and>
      (depth = - 1 \<or> depth \<noteq> - 2 \<and> length k = length site + nat depth)) (sorted_list_of_set (dom (txn_map st)))"
    if "depth = - 2 \<or> depth = - 1 \<or> 1 \<le> depth"
    unfolding below_def using that by (intro filter_cong) (auto dest: prefix_length_le)
  then show ?thesis
    using txn_kv.descendants_rows [OF assms, of depth] txn_kv.descendants_fail [OF assms(1,3), of depth pages]
    by fastforce
qed

theorem iter_descendants_exact_witness:
  "\<exists>st st'. txn_map st = sample \<and>
     iter_descendants (txn_ctx 5) ROOT (- 2) st = Some ([], Inr (), st')"
proof -
  obtain st where st: "txn_ok vs_init st" "txn_weight st < 5" "txn_map st = sample" using sample_exists by blast
  from iter_descendants_exact [OF st(1,2) root_ok, of "- 2"] st(3) sample_at(3)
  show ?thesis by - (rule exI [of _ st], auto)
qed

text \<open>\<open>iter_metadata_keys\<close> gives exactly the metadata keys of the site that are strings, in key
  order: its scan starts at the empty string, above every integer, so a metadata key that is an
  integer, which \<open>put_metadata\<close> takes and \<open>exists_metadata\<close> finds, is never listed.\<close>

theorem metadata_keys_listed:
  assumes "txn_ok s0 st" and "txn_weight st < pages" and "list_all seg_ok (tl site)"
  shows "\<exists>st'. iter_metadata_keys (txn_ctx pages) site st =
    Some (map SStr (sorted_list_of_set {t. meta_key site (SStr t) \<in> dom (txn_map st)}), Inr (), st')"
proof -
  let ?X = "{x. (METADATA_ROOT # tl site) @ [x] \<in> dom (txn_map st)}"
  have f: "finite ?X"
    using finite_vimageI [OF txn_kv.finite_vw [OF assms(1)], of "\<lambda>x. (METADATA_ROOT # tl site) @ [x]"]
    by (simp add: vimage_def inj_def)
  have eq: "{t. meta_key site (SStr t) \<in> dom (txn_map st)} = SStr -` ?X" by (auto simp: meta_key_def)
  have f': "finite (SStr -` ?X)" using f by (rule finite_vimageI) (simp add: inj_def)
  have le: "SStr [] \<le> x \<longleftrightarrow> (\<exists>t. x = SStr t)" for x
  proof -
    have "[] = t \<or> [] < t" for t :: pystr by (cases t) auto
    then show ?thesis by (cases x) (auto simp: less_eq_seg_def)
  qed
  have "filter (\<lambda>x. SStr [] \<le> x) (sorted_list_of_set ?X) = map SStr (sorted_list_of_set (SStr -` ?X))"
  proof (rule sorted_less_unique)
    show "sorted_wrt (<) (filter (\<lambda>x. SStr [] \<le> x) (sorted_list_of_set ?X))" by (rule sorted_filter_less) simp
    show "sorted_wrt (<) (map SStr (sorted_list_of_set (SStr -` ?X)))" by (simp add: sorted_wrt_map)
    show "set (filter (\<lambda>x. SStr [] \<le> x) (sorted_list_of_set ?X)) = set (map SStr (sorted_list_of_set (SStr -` ?X)))"
      using f f' by (auto simp: le)
  qed
  then show ?thesis
    using txn_kv.metadata_rows [OF assms] unfolding eq by (auto simp: children_def)
qed

theorem metadata_keys_listed_witness:
  "\<exists>st st'. txn_map st = sample \<and> exists_metadata (txn_ctx 5) ROOT (SInt 7) st = Inr True \<and>
     iter_metadata_keys (txn_ctx 5) ROOT st = Some ([SStr [98]], Inr (), st')"
proof -
  obtain st where st: "txn_ok vs_init st" "txn_weight st < 5" "txn_map st = sample" using sample_exists by blast
  have m: "meta_key ROOT x = [METADATA_ROOT, x]" for x by (simp add: meta_key_def ROOT_def)
  have "{t. meta_key ROOT (SStr t) \<in> dom (txn_map st)} = {[98]}"
    unfolding m st(3) by (auto simp: sample_def ROOT_def split: if_splits)
  moreover have "list_all seg_ok (tl ROOT)" by (simp add: ROOT_def)
  ultimately have "\<exists>st'. iter_metadata_keys (txn_ctx 5) ROOT st = Some ([SStr [98]], Inr (), st')"
    using metadata_keys_listed [OF st(1,2), of ROOT] by simp
  moreover have "bin_ok [METADATA_ROOT, SInt 7]"
    by (simp add: bin_ok_iff METADATA_ROOT_def seg_ok_def lit_def scalar_def is_surrogate_def INT64_MIN_def INT64_MAX_def)
  then have "exists_metadata (txn_ctx 5) ROOT (SInt 7) st = Inr True"
    using txn_kv.node_exists_ok [OF st(1)] st(3) by (simp add: exists_metadata_def m sample_def)
  ultimately show ?thesis using st(3) by blast
qed

text \<open>C29: what \<open>create_container\<close> does in every case, decided by the node and its parent alone: it
  writes a marker only where nothing was, under a parent that is a container (or at the root); an
  existing node is never touched, and raises unless it is a container of the same structure that
  shares a protocol flag. Creating again is silent, except with the protocol \<open>NONE\<close>, which shares a
  flag with nothing, not even itself, and raises \<open>ContainerExistsError\<close>.\<close>

theorem create_container_outcomes:
  assumes "txn_ok s0 st" and "bin_ok site" and "V = txn_map st" and "r = create_outcome V site structure protocol"
  shows "\<exists>st'. create_container (txn_ctx pages) site structure protocol True None st = (r, st') \<and> txn_ok s0 st' \<and>
    txn_map st' = (if V site = None \<and> is_ok r then V(site \<mapsto> create_marker structure protocol) else V) \<and>
    (V site = None \<and> is_ok r \<and> 0 \<le> protocol \<longrightarrow>
      create_container (txn_ctx pages) site structure protocol True None st' =
        (if protocol = 0 then Inl ContainerExistsError else Inr (), st'))"
proof -
  note C = txn_kv.create_container_cases
  obtain st' where
    c: "create_container (txn_ctx pages) site structure protocol True None st = (r, st')" "txn_ok s0 st'"
      "txn_map st' = (if V site = None \<and> is_ok r then V(site \<mapsto> create_marker structure protocol) else V)"
    using C [OF assms(1,2)] unfolding assms(3,4) by blast
  have "\<exists>s''. create_container (txn_ctx pages) site structure protocol True None st' =
      (create_outcome (txn_map st') site structure protocol, s'') \<and> (txn_map st' site \<noteq> None \<longrightarrow> s'' = st')"
    using C [OF c(2) assms(2)] by blast
  then have "create_container (txn_ctx pages) site structure protocol True None st' =
      (if protocol = 0 then Inl ContainerExistsError else Inr (), st')"
    if "V site = None \<and> is_ok r \<and> 0 \<le> protocol"
    using that c(3) by (auto simp: create_outcome_def)
  with c show ?thesis by blast
qed

theorem create_container_outcomes_witness:
  "\<exists>st'. create_container (txn_ctx 5) ROOT (VInt 1) 0 True None (vs_init, tx_begin 0 vs_init) = (Inr (), st') \<and>
     create_container (txn_ctx 5) ROOT (VInt 1) 0 True None st' = (Inl ContainerExistsError, st')"
  using create_container_outcomes [OF txn_begin_ok root_ok refl refl, of 5 "VInt 1" 0]
  by (simp add: txn_begin_map create_outcome_def ROOT_def) blast

text \<open>A validated put into a container, over nothing or over a primitive, stores the value, and
  a validated get then gives it back, unless the value has the shape of a marker: then the get takes
  the child for a container and raises. A value that is or contains \<open>EMPTY\<close> is refused and changes nothing.\<close>

theorem put_get_child:
  assumes "txn_ok s0 st" and "bin_ok site" and "seg_ok key" and "is_container (txn_map st) site"
    and "case txn_map st (site @ [key]) of None \<Rightarrow> True | Some w \<Rightarrow> extract_marker w = Inr None"
  shows "\<exists>r st'. put_child_primitive (txn_ctx pages) site key val True True st = (r, st') \<and>
    (if find_empty val [] \<noteq> None then r = Inl ValueError \<and> st' = st
     else r = Inr () \<and> txn_map st' = (txn_map st)(site @ [key] \<mapsto> val) \<and>
       get_child_primitive (txn_ctx pages) site key st' =
         (case extract_marker val of
            Inl e \<Rightarrow> Inl e | Inr None \<Rightarrow> Inr (Some val) | Inr (Some m) \<Rightarrow> Inl ContainerTypeError))"
proof (cases "find_empty val []")
  case (Some path)
  then show ?thesis using txn_kv.put_child_empty [of val pages site key True True st] by simp
next
  case None
  from assms(5) have "txn_map st (site @ [key]) = None \<or>
      (\<exists>w. txn_map st (site @ [key]) = Some w \<and> extract_marker w = Inr None)" by (auto split: option.splits)
  from txn_kv.put_child_ok [OF assms(1-4) this None, of pages] obtain st' where
    "put_child_primitive (txn_ctx pages) site key val True True st = (Inr (), st')" "txn_ok s0 st'"
    "txn_map st' = (txn_map st)(site @ [key] \<mapsto> val)" by blast
  with txn_kv.get_child_at [OF _ assms(2,3), of s0 st' pages] None show ?thesis by simp
qed

theorem put_get_child_witness:
  "\<exists>st st'. txn_map st = sample \<and>
     put_child_primitive (txn_ctx 5) ROOT (SStr [97]) (VList [VInt 1]) True True st = (Inr (), st') \<and>
     get_child_primitive (txn_ctx 5) ROOT (SStr [97]) st' = Inr (Some (VList [VInt 1]))"
proof -
  obtain st where st: "txn_ok vs_init st" "txn_weight st < 5" "txn_map st = sample" using sample_exists by blast
  have "seg_ok (SStr [97])" by (simp add: seg_ok_def scalar_def is_surrogate_def)
  from put_get_child [OF st(1) root_ok this, of 5 "VList [VInt 1]"] st(3) sample_at show ?thesis
    by - (rule exI [of _ st], auto simp: extract_marker_def)
qed

text \<open>C28: moving a child to a free key moves its whole subtree and nothing else: every key below the
  old site is found at the same place below the new one, and the old site is empty.\<close>

theorem move_child_subtree_exact:
  assumes "txn_ok s0 st" and "txn_weight st < pages" and "bin_ok (parent @ [a])" and "seg_ok b" and "a \<noteq> b"
    and "\<forall>k. prefix (parent @ [b]) k \<longrightarrow> txn_map st k = None"
  shows "\<exists>st'. move_child_subtree (txn_ctx pages) parent a b st = Some (Inr (), st') \<and> txn_ok s0 st' \<and>
    (\<forall>l. txn_map st' (parent @ b # l) = txn_map st (parent @ a # l) \<and> txn_map st' (parent @ a # l) = None) \<and>
    (\<forall>k. \<not> prefix (parent @ [a]) k \<and> \<not> prefix (parent @ [b]) k \<longrightarrow> txn_map st' k = txn_map st k)"
proof -
  from assms(6) have e: "txn_map st k = None" if "prefix (parent @ [b]) k" for k using that by blast
  have p: "prefix (parent @ [x]) (parent @ y # l) \<longleftrightarrow> x = y" for x y l by (auto simp: prefix_def)
  from txn_kv.move_child_ok [OF assms(1-5) e] show ?thesis
    using assms(5) by (auto simp: move_subtree_def p)
qed

theorem move_child_subtree_exact_witness:
  "\<exists>st st'. txn_map st = sample \<and>
     move_child_subtree (txn_ctx 5) ROOT (SStr [97]) (SStr [99]) st = Some (Inr (), st') \<and>
     txn_map st' (ROOT @ [SStr [99]]) = Some (VInt 5) \<and> txn_map st' (ROOT @ [SStr [97]]) = None"
proof -
  obtain st where st: "txn_ok vs_init st" "txn_weight st < 5" "txn_map st = sample" using sample_exists by blast
  have k: "bin_ok (ROOT @ [SStr [97]])" "seg_ok (SStr [99])"
    by (simp_all add: bin_ok_iff ROOT_def DATA_ROOT_def seg_ok_def lit_def scalar_def is_surrogate_def)
  have "\<forall>k. prefix (ROOT @ [SStr [99]]) k \<longrightarrow> txn_map st k = None"
    by (auto simp: st(3) sample_def ROOT_def prefix_def)
  from move_child_subtree_exact [OF st(1,2) k _ this] st(3) sample_at(2)
  show ?thesis by - (rule exI [of _ st], force)
qed

end
