(* ===== verification/Write_Slot.thy ===== *)
theory Write_Slot
  imports Virtuals_Prelude
begin

text \<open>
  The writer slot the single-writer storages share (\<open>_backends/storages/_write_slot.py\<close>): one lock,
  threads that block in it and coroutines that queue for it. What runs under \<open>_guard\<close> is one function
  on the state of the slot; \<open>Write_Slot_System\<close> interleaves the calls of any number of threads and
  coroutines.

  Locks, holds and waiters are objects compared by identity: a lock is the number of \<open>close\<close>s before
  it, holds and waiters are numbered as they are made.
\<close>

section \<open>State\<close>

datatype slot_exn = Exn exn | RuntimeError | Cancelled | Interrupt

text \<open>Who asks: a thread, and the task it runs, if any.\<close>

type_synonym owner = "nat \<times> nat option"

datatype waiter_state = Waiting | Granted | Closed | Abandoned

record waiter =
  wt_lock :: "nat option"
  wt_state :: waiter_state

record writer_lock =
  wl_lock :: nat
  wl_locked :: "nat \<Rightarrow> bool"
  wl_owner :: "owner option"
  wl_hold :: "nat option"
  wl_waiters :: "nat list"
  wl_pending :: "nat option"
  wl_sync_waiting :: int
  wl_barge_next :: bool
  wl_heap :: "nat \<Rightarrow> waiter"
  wl_next_hold :: nat
  wl_next_waiter :: nat

text \<open>
  What the event loops answer during a section: whether a waiter is dead (its loop closed or its
  future done), whether its wake-up can be scheduled, and whether its loop is closed.
\<close>

record loops =
  lp_dead :: "nat \<Rightarrow> bool"
  lp_wakes :: "nat \<Rightarrow> bool"
  lp_closed :: "nat \<Rightarrow> bool"

definition new_writer_lock :: writer_lock where
  "new_writer_lock = \<lparr>wl_lock = 0, wl_locked = (\<lambda>_. False), wl_owner = None, wl_hold = None, wl_waiters = [],
     wl_pending = None, wl_sync_waiting = 0, wl_barge_next = False,
     wl_heap = (\<lambda>_. \<lparr>wt_lock = None, wt_state = Abandoned\<rparr>), wl_next_hold = 0, wl_next_waiter = 0\<rparr>"

definition set_state :: "nat \<Rightarrow> waiter_state \<Rightarrow> writer_lock \<Rightarrow> writer_lock" where
  "set_state w x wl = wl\<lparr>wl_heap := (wl_heap wl)(w := (wl_heap wl w)\<lparr>wt_state := x\<rparr>)\<rparr>"

definition set_locked :: "nat \<Rightarrow> bool \<Rightarrow> writer_lock \<Rightarrow> writer_lock" where
  "set_locked l b wl = wl\<lparr>wl_locked := (wl_locked wl)(l := b)\<rparr>"

type_synonym slot_act = "writer_lock \<Rightarrow> (slot_exn + unit) \<times> writer_lock"

definition seq :: "slot_act \<Rightarrow> slot_act \<Rightarrow> slot_act" where
  "seq f g wl = (case f wl of (Inl e, wl) \<Rightarrow> (Inl e, wl) | (Inr _, wl) \<Rightarrow> g wl)"

definition skip :: slot_act where "skip wl = (Inr (), wl)"

text \<open>\<open>lock.release()\<close> raises on an unlocked lock.\<close>

definition raw_release :: "nat \<Rightarrow> slot_act" where
  "raw_release l wl = (if wl_locked wl l then (Inr (), set_locked l False wl) else (Inl RuntimeError, wl))"

section \<open>The queue\<close>

fun hand_off_loop :: "loops \<Rightarrow> nat list \<Rightarrow> slot_act" where
  "hand_off_loop lp [] wl =
     seq (raw_release (wl_lock wl)) (\<lambda>wl. (Inr (), wl\<lparr>wl_barge_next := False\<rparr>)) (wl\<lparr>wl_waiters := []\<rparr>)"
| "hand_off_loop lp (w # ws) wl =
     (if wt_state (wl_heap wl w) \<noteq> Waiting \<or> lp_dead lp w then hand_off_loop lp ws (set_state w Abandoned wl)
      else let wl = wl\<lparr>wl_heap := (wl_heap wl)(w := \<lparr>wt_lock = Some (wl_lock wl), wt_state = Granted\<rparr>)\<rparr> in
        if lp_wakes lp w then (Inr (), wl\<lparr>wl_waiters := ws, wl_pending := Some w, wl_barge_next := True\<rparr>)
        else hand_off_loop lp ws (set_state w Abandoned wl))"

definition hand_off :: "loops \<Rightarrow> slot_act" where
  "hand_off lp wl = hand_off_loop lp (wl_waiters wl) wl"

definition release_locked :: "loops \<Rightarrow> slot_act" where
  "release_locked lp wl =
     (if wl_waiters wl \<noteq> [] \<and> \<not> (wl_barge_next wl \<and> wl_sync_waiting wl \<noteq> 0) then hand_off lp wl
      else seq (raw_release (wl_lock wl)) (\<lambda>wl. (Inr (), wl\<lparr>wl_barge_next := False\<rparr>)) wl)"

definition reclaim_dead_pending :: "loops \<Rightarrow> slot_act" where
  "reclaim_dead_pending lp wl =
     (case wl_pending wl of
        None \<Rightarrow> (Inr (), wl)
      | Some p \<Rightarrow>
          if wt_state (wl_heap wl p) = Granted \<and> lp_closed lp p then
            let wl = (set_state p Abandoned wl)\<lparr>wl_pending := None\<rparr> in
            if wt_lock (wl_heap wl p) = Some (wl_lock wl) then release_locked lp wl else (Inr (), wl)
          else (Inr (), wl))"

definition rescue_queue :: "loops \<Rightarrow> slot_act" where
  "rescue_queue lp wl =
     (if wl_waiters wl \<noteq> [] \<and> \<not> wl_locked wl (wl_lock wl) then hand_off lp (set_locked (wl_lock wl) True wl)
      else (Inr (), wl))"

definition pass_on :: "loops \<Rightarrow> nat \<Rightarrow> slot_act" where
  "pass_on lp w wl =
     (if wt_state (wl_heap wl w) \<noteq> Granted then (Inr (), wl)
      else let wl = set_state w Abandoned wl; wl = (if wl_pending wl = Some w then wl\<lparr>wl_pending := None\<rparr> else wl) in
        if wt_lock (wl_heap wl w) = Some (wl_lock wl) then release_locked lp wl else (Inr (), wl))"

section \<open>Holders\<close>

text \<open>\<open>marks\<close> are the holds the execution context of the caller carries.\<close>

definition is_nested :: "writer_lock \<Rightarrow> nat list \<Rightarrow> owner \<Rightarrow> bool" where
  "is_nested wl marks me =
     (case (wl_hold wl, wl_owner wl) of
        (Some h, Some ow) \<Rightarrow>
          h \<in> set marks \<and> (snd me = None \<or> snd ow = snd me \<or> (snd ow = None \<and> fst ow = fst me))
      | _ \<Rightarrow> False)"

definition mark_held :: "writer_lock \<Rightarrow> nat \<Rightarrow> nat list \<Rightarrow> nat list" where
  "mark_held wl h marks = filter (\<lambda>g. wl_hold wl = Some g) marks @ [h]"

text \<open>The part of \<open>_held_by\<close> that records a fresh hold.\<close>

definition record_hold :: "owner \<Rightarrow> writer_lock \<Rightarrow> writer_lock" where
  "record_hold me wl = wl\<lparr>wl_owner := Some me, wl_hold := Some (wl_next_hold wl), wl_next_hold := Suc (wl_next_hold wl)\<rparr>"

text \<open>It returns whether the caller holds the slot, or raises.\<close>

definition held_by :: "loops \<Rightarrow> owner \<Rightarrow> nat \<Rightarrow> bool \<Rightarrow> writer_lock \<Rightarrow> (slot_exn + bool) \<times> writer_lock" where
  "held_by lp me l waited wl =
     (let wl = (if waited then wl\<lparr>wl_sync_waiting := wl_sync_waiting wl - 1\<rparr> else wl) in
      if l \<noteq> wl_lock wl then
        (case if waited then rescue_queue lp wl else (Inr (), wl) of
           (Inl e, wl) \<Rightarrow> (Inl e, wl)
         | (Inr _, wl) \<Rightarrow> (Inr False, wl))
      else (Inr True, record_hold me wl))"

definition slot_release :: "loops \<Rightarrow> nat option \<Rightarrow> slot_act" where
  "slot_release lp lck wl =
     (if lck \<noteq> None \<and> lck \<noteq> Some (wl_lock wl) then (Inr (), wl)
      else if \<not> wl_locked wl (wl_lock wl) then (Inl RuntimeError, wl)
      else release_locked lp (wl\<lparr>wl_owner := None, wl_hold := None\<rparr>))"

definition release_if_owned :: "loops \<Rightarrow> owner \<Rightarrow> nat option \<Rightarrow> slot_act" where
  "release_if_owned lp me since wl =
     (if wl_owner wl = Some me \<and> wl_hold wl \<noteq> since \<and> wl_locked wl (wl_lock wl)
      then release_locked lp (wl\<lparr>wl_owner := None, wl_hold := None\<rparr>)
      else (Inr (), wl))"

text \<open>A closed slot gets a fresh lock; the count of blocked threads is theirs to take down.\<close>

definition slot_close :: slot_act where
  "slot_close wl =
     (let old = wl_lock wl;
          wl' = wl\<lparr>wl_lock := Suc old, wl_locked := (wl_locked wl)(Suc old := False), wl_owner := None, wl_hold := None,
            wl_pending := None, wl_waiters := [], wl_barge_next := False\<rparr>
      in seq (if wl_owner wl \<noteq> None \<or> wl_pending wl \<noteq> None then raw_release old else skip)
           (\<lambda>wl'. (Inr (), wl'\<lparr>wl_heap := (\<lambda>w. if wl_pending wl = Some w \<or> w \<in> set (wl_waiters wl)
              then (wl_heap wl' w)\<lparr>wt_state := Closed\<rparr> else wl_heap wl' w)\<rparr>)) wl')"

text \<open>In a forked child: nothing of the parent is left.\<close>

definition slot_reset :: "writer_lock \<Rightarrow> writer_lock" where
  "slot_reset wl = wl\<lparr>wl_lock := Suc (wl_lock wl), wl_locked := (wl_locked wl)(Suc (wl_lock wl) := False), wl_owner := None,
     wl_hold := None, wl_waiters := [], wl_pending := None, wl_sync_waiting := 0, wl_barge_next := False\<rparr>"

section \<open>The sections of \<open>acquire\<close> and \<open>areserve\<close>\<close>

text \<open>
  The checks of \<open>acquire\<close> before it waits: below the holder, or behind a task of this thread's own
  loop (\<open>alive\<close> is whether a task still exists).
\<close>

definition acquire_check :: "(nat \<Rightarrow> bool) \<Rightarrow> writer_lock \<Rightarrow> nat list \<Rightarrow> owner \<Rightarrow> unit res" where
  "acquire_check alive wl marks me =
     (if is_nested wl marks me then Inl StorageNestedTransactionError
      else case wl_owner wl of
        Some (thread, Some task) \<Rightarrow>
          if thread = fst me \<and> alive task then Inl StorageLockTimeoutError else Inr ()
      | _ \<Rightarrow> Inr ())"

text \<open>Joining the threads blocked in the lock, and leaving them: timed out, or interrupted.\<close>

definition start_wait :: "loops \<Rightarrow> slot_act" where
  "start_wait lp = seq (reclaim_dead_pending lp) (\<lambda>wl. (Inr (), wl\<lparr>wl_sync_waiting := wl_sync_waiting wl + 1\<rparr>))"

definition stop_wait :: "loops \<Rightarrow> slot_act" where
  "stop_wait lp wl = seq (reclaim_dead_pending lp) (rescue_queue lp) (wl\<lparr>wl_sync_waiting := wl_sync_waiting wl - 1\<rparr>)"

definition unwind_wait :: "loops \<Rightarrow> bool \<Rightarrow> slot_act" where
  "unwind_wait lp got wl =
     (if got then release_locked lp (wl\<lparr>wl_sync_waiting := wl_sync_waiting wl - 1\<rparr>) else stop_wait lp wl)"

text \<open>
  The first section of \<open>areserve\<close>: the slot at once (\<open>None\<close>), or a place in the queue. Nothing can
  close the slot inside it, so \<open>_held_by\<close> succeeds.
\<close>

definition enqueue :: "writer_lock \<Rightarrow> writer_lock" where
  "enqueue wl = wl\<lparr>wl_waiters := wl_waiters wl @ [wl_next_waiter wl],
     wl_heap := (wl_heap wl)(wl_next_waiter wl := \<lparr>wt_lock = None, wt_state = Waiting\<rparr>),
     wl_next_waiter := Suc (wl_next_waiter wl)\<rparr>"

definition reserve :: "loops \<Rightarrow> owner \<Rightarrow> writer_lock \<Rightarrow> (slot_exn + nat option) \<times> writer_lock" where
  "reserve lp me wl =
     (case reclaim_dead_pending lp wl of
        (Inl e, wl) \<Rightarrow> (Inl e, wl)
      | (Inr _, wl) \<Rightarrow>
          if wl_waiters wl = [] \<and> wl_sync_waiting wl = 0 \<and> \<not> wl_locked wl (wl_lock wl)
          then (Inr None, record_hold me (set_locked (wl_lock wl) True wl))
          else (Inr (Some (wl_next_waiter wl)), enqueue wl))"

text \<open>A coroutine stops waiting: its state before, and the queue without it.\<close>

definition leave_queue :: "nat \<Rightarrow> writer_lock \<Rightarrow> waiter_state \<times> writer_lock" where
  "leave_queue w wl =
     (wt_state (wl_heap wl w),
      if wt_state (wl_heap wl w) = Waiting then wl\<lparr>wl_waiters := remove1 w (wl_waiters wl)\<rparr> else wl)"

definition granted :: "owner \<Rightarrow> nat \<Rightarrow> writer_lock \<Rightarrow> (slot_exn + nat) \<times> writer_lock" where
  "granted me w wl =
     (case wt_lock (wl_heap wl w) of
        None \<Rightarrow> (Inl (Exn StorageClosedError), wl)
      | Some l \<Rightarrow>
          if wt_state (wl_heap wl w) \<noteq> Granted \<or> l \<noteq> wl_lock wl then (Inl (Exn StorageClosedError), wl)
          else (Inr l, record_hold me (if wl_pending wl = Some w then wl\<lparr>wl_pending := None\<rparr> else wl)))"

section \<open>Reserved slots\<close>

datatype slot_state = Held | Taken | Released

text \<open>\<open>ws_storage\<close> is the storage the slot belongs to.\<close>

record write_slot =
  ws_storage :: nat
  ws_lock :: nat
  ws_state :: slot_state

definition ws_take :: "nat \<Rightarrow> writer_lock \<Rightarrow> write_slot \<Rightarrow> unit res \<times> write_slot" where
  "ws_take storage wl ws =
     (if storage \<noteq> ws_storage ws then (Inl StorageError, ws)
      else if ws_state ws \<noteq> Held then (Inl StorageError, ws)
      else if ws_lock ws \<noteq> wl_lock wl then (Inl StorageError, ws\<lparr>ws_state := Released\<rparr>)
      else (Inr (), ws\<lparr>ws_state := Taken\<rparr>))"

text \<open>\<open>take_slot\<close> with a slot: its lock and the owner before, for the undo.\<close>

definition take_slot ::
  "nat \<Rightarrow> owner \<Rightarrow> writer_lock \<Rightarrow> write_slot \<Rightarrow> (nat \<times> owner option) res \<times> writer_lock \<times> write_slot" where
  "take_slot storage me wl ws =
     (case ws_take storage wl ws of
        (Inl e, ws) \<Rightarrow> (Inl e, wl, ws)
      | (Inr _, ws) \<Rightarrow> (Inr (ws_lock ws, wl_owner wl), wl\<lparr>wl_owner := Some me\<rparr>, ws))"

definition ws_give_back :: "write_slot \<Rightarrow> write_slot" where
  "ws_give_back ws = (if ws_state ws = Taken then ws\<lparr>ws_state := Held\<rparr> else ws)"

definition give_back :: "owner option \<Rightarrow> writer_lock \<Rightarrow> write_slot \<Rightarrow> writer_lock \<times> write_slot" where
  "give_back previous wl ws =
     (if ws_lock ws = wl_lock wl then (wl\<lparr>wl_owner := previous\<rparr>, ws_give_back ws)
      else (wl, ws\<lparr>ws_state := Released\<rparr>))"

text \<open>
  \<open>release\<close> of a reserved slot reads and marks it outside \<open>_guard\<close>, so it is three steps: the check
  that it is held, the mark, and \<open>slot_release\<close> of its lock.
\<close>

definition ws_held :: "write_slot \<Rightarrow> bool" where
  "ws_held ws \<longleftrightarrow> ws_state ws = Held"

definition ws_mark :: "write_slot \<Rightarrow> write_slot" where
  "ws_mark ws = ws\<lparr>ws_state := Released\<rparr>"

end
