(* ===== verification/Write_Slot_System.thy ===== *)
theory Write_Slot_System
  imports Write_Slot
begin

text \<open>
  Any number of threads and coroutines at one writer slot: a call of \<open>acquire\<close> or \<open>areserve\<close> is a
  program counter, and each of its accesses to the slot, and each section under \<open>_guard\<close>, is one step.
\<close>

section \<open>Calls\<close>

text \<open>
  The local variables of a call are the arguments of its program counter; the context of a caller may
  carry any marks, which is more than the code can bring about. An interrupt is modelled in
  the waits and between a section and the return of \<open>areserve\<close>, where the code handles it.

  \<^item> \<open>Acq\<close> to \<open>Interrupted\<close>: \<open>acquire\<close>, before its checks, before it reads the lock, before it tries the
    lock it read, before it blocks, blocked, holding a lock it has not recorded (and whether it
    blocked for it), holding one that is not the slot any more, timed out, and interrupted (with the
    lock or without).
  \<^item> \<open>Resv\<close> to \<open>Undo_Queue\<close>: \<open>areserve\<close>, before its checks, before it reads the hold, before its first
    section, in the queue and about to wait, waiting, with a grant it will not use, awake, about to
    return, and the two sections that undo an interrupted call.
  \<^item> \<open>Holding\<close> is a lock a caller keeps to release it. \<open>Slot ws tx rs\<close> is a \<open>WriteSlot\<close>: \<open>tx\<close> is the
    transaction that runs on it, if any, as the owner to put back if it cannot begin; \<open>rs\<close> are the calls
    of its \<open>release\<close> that found it held and have not returned, \<open>True\<close> for one that has marked it. (A
    \<open>release\<close> that does not find it held does nothing.)
\<close>

datatype pc =
    Idle
  | Acq | Acq_Read | Acq_Try nat | Acq_Wait | Blocked nat | Took nat bool | Lost nat | Expired | Interrupted nat bool
  | Resv | Resv_Read | Resv_Enter "nat option" | Enqueued nat "nat option" | Queued nat "nat option" | Passing nat slot_exn
  | Woken nat "nat option" | Reserved nat "nat option" | Undo_Own "nat option" "nat option" "nat option" slot_exn
  | Undo_Queue nat
  | Holding nat | Slot write_slot "owner option option" "bool list"
  | Failed slot_exn

record slot_sys =
  sy_lock :: writer_lock
  sy_pc :: "nat \<Rightarrow> pc"
  sy_me :: "nat \<Rightarrow> owner"
  sy_marks :: "nat \<Rightarrow> nat list"

definition new_slot_sys :: slot_sys where
  "new_slot_sys = \<lparr>sy_lock = new_writer_lock, sy_pc = (\<lambda>_. Idle), sy_me = (\<lambda>_. (0, None)), sy_marks = (\<lambda>_. [])\<rparr>"

text \<open>A call in progress: its caller makes no other call.\<close>

fun in_call :: "pc \<Rightarrow> bool" where
  "in_call Idle = False"
| "in_call (Holding l) = False"
| "in_call (Slot ws tx rs) = False"
| "in_call (Failed e) = False"
| "in_call _ = True"

definition free_caller :: "slot_sys \<Rightarrow> owner \<Rightarrow> bool" where
  "free_caller s m \<longleftrightarrow> (\<forall>a. in_call (sy_pc s a) \<longrightarrow> sy_me s a \<noteq> m)"

definition goto :: "nat \<Rightarrow> pc \<Rightarrow> writer_lock \<Rightarrow> slot_sys \<Rightarrow> slot_sys" where
  "goto a p wl s = s\<lparr>sy_lock := wl, sy_pc := (sy_pc s)(a := p)\<rparr>"

text \<open>Where a section leaves its call: on, or out with the exception it raised.\<close>

fun after :: "slot_exn + 'a \<Rightarrow> ('a \<Rightarrow> pc) \<Rightarrow> pc" where
  "after (Inl e) k = Failed e"
| "after (Inr x) k = k x"

section \<open>Steps\<close>

text \<open>
  The labels the properties speak of; every other step is \<open>Step a\<close> of a call \<open>a\<close>. A \<open>Race\<close> is a
  \<open>release\<close> of a reserved slot that overlaps another one, or a transaction that takes the slot: both
  found it held. A release may even mark the slot inside the section in which a transaction takes it,
  between the section's own check and its own mark.
\<close>

datatype slot_event = Step nat | Takes nat nat | Unwind nat | Race nat | Close

inductive slot_step :: "slot_sys \<Rightarrow> slot_event \<Rightarrow> slot_sys \<Rightarrow> bool" where
  begin_acquire: "sy_pc s a = Idle \<Longrightarrow> free_caller s m \<Longrightarrow>
    slot_step s (Step a) (goto a Acq (sy_lock s) s\<lparr>sy_me := (sy_me s)(a := m), sy_marks := (sy_marks s)(a := hs)\<rparr>)"
| begin_areserve: "sy_pc s a = Idle \<Longrightarrow> free_caller s m \<Longrightarrow>
    slot_step s (Step a) (goto a Resv (sy_lock s) s\<lparr>sy_me := (sy_me s)(a := m), sy_marks := (sy_marks s)(a := hs)\<rparr>)"
| acq_check: "sy_pc s a = Acq \<Longrightarrow>
    slot_step s (Step a) (goto a (case acquire_check alive (sy_lock s) (sy_marks s a) (sy_me s a) of
      Inl e \<Rightarrow> Failed (Exn e) | Inr _ \<Rightarrow> Acq_Read) (sy_lock s) s)"
| acq_read: "sy_pc s a = Acq_Read \<Longrightarrow> slot_step s (Step a) (goto a (Acq_Try (wl_lock (sy_lock s))) (sy_lock s) s)"
| acq_try: "sy_pc s a = Acq_Try l \<Longrightarrow> \<not> wl_locked (sy_lock s) l \<Longrightarrow>
    slot_step s (Takes a l) (goto a (Took l False) (set_locked l True (sy_lock s)) s)"
| acq_busy: "sy_pc s a = Acq_Try l \<Longrightarrow> wl_locked (sy_lock s) l \<Longrightarrow> slot_step s (Step a) (goto a Acq_Wait (sy_lock s) s)"
| acq_wait: "sy_pc s a = Acq_Wait \<Longrightarrow> start_wait lp (sy_lock s) = (r, wl) \<Longrightarrow>
    slot_step s (Step a) (goto a (after r (\<lambda>_. Blocked (wl_lock (sy_lock s)))) wl s)"
| acq_wake: "sy_pc s a = Blocked l \<Longrightarrow> \<not> wl_locked (sy_lock s) l \<Longrightarrow>
    slot_step s (Takes a l) (goto a (Took l True) (set_locked l True (sy_lock s)) s)"
| acq_expire: "sy_pc s a = Blocked l \<Longrightarrow> slot_step s (Step a) (goto a Expired (sy_lock s) s)"
| acq_signal: "sy_pc s a = Blocked l \<Longrightarrow> slot_step s (Step a) (goto a (Interrupted l False) (sy_lock s) s)"
| acq_signal_took: "sy_pc s a = Blocked l \<Longrightarrow> \<not> wl_locked (sy_lock s) l \<Longrightarrow>
    slot_step s (Takes a l) (goto a (Interrupted l True) (set_locked l True (sy_lock s)) s)"
| acq_expired: "sy_pc s a = Expired \<Longrightarrow> stop_wait lp (sy_lock s) = (r, wl) \<Longrightarrow>
    slot_step s (Step a) (goto a (after r (\<lambda>_. Failed (Exn StorageLockTimeoutError))) wl s)"
| acq_unwind: "sy_pc s a = Interrupted l got \<Longrightarrow> unwind_wait lp got (sy_lock s) = (r, wl) \<Longrightarrow>
    slot_step s (Unwind a) (goto a (after r (\<lambda>_. Failed Interrupt)) wl s)"
| acq_record: "sy_pc s a = Took l waited \<Longrightarrow> held_by lp (sy_me s a) l waited (sy_lock s) = (r, wl) \<Longrightarrow>
    slot_step s (Step a) (goto a (after r (\<lambda>ok. if ok then Holding l else Lost l)) wl s)"
| acq_lost: "sy_pc s a = Lost l \<Longrightarrow> raw_release l (sy_lock s) = (r, wl) \<Longrightarrow>
    slot_step s (Step a) (goto a (after r (\<lambda>_. Failed (Exn StorageClosedError))) wl s)"
| resv_check: "sy_pc s a = Resv \<Longrightarrow>
    slot_step s (Step a) (goto a (if is_nested (sy_lock s) (sy_marks s a) (sy_me s a)
      then Failed (Exn StorageNestedTransactionError) else Resv_Read) (sy_lock s) s)"
| resv_read: "sy_pc s a = Resv_Read \<Longrightarrow> slot_step s (Step a) (goto a (Resv_Enter (wl_hold (sy_lock s))) (sy_lock s) s)"
| resv_enter: "sy_pc s a = Resv_Enter since \<Longrightarrow> reserve lp (sy_me s a) (sy_lock s) = (r, wl) \<Longrightarrow>
    slot_step s (Step a) (goto a (after r (\<lambda>x. case x of
      None \<Rightarrow> Reserved (wl_lock (sy_lock s)) since | Some w \<Rightarrow> Enqueued w since)) wl s)"
| resv_queue: "sy_pc s a = Enqueued w since \<Longrightarrow> slot_step s (Step a) (goto a (Queued w since) (sy_lock s) s)"
| resv_wake: "sy_pc s a = Queued w since \<Longrightarrow> wt_state (wl_heap (sy_lock s) w) \<noteq> Waiting \<Longrightarrow>
    slot_step s (Step a) (goto a (Woken w since) (sy_lock s) s)"
| resv_timeout: "sy_pc s a = Queued w since \<Longrightarrow> leave_queue w (sy_lock s) = (st, wl) \<Longrightarrow>
    slot_step s (Step a) (goto a (if st \<in> {Waiting, Abandoned} then Failed (Exn StorageLockTimeoutError) else Woken w since) wl s)"
| resv_cancel: "sy_pc s a = Queued w since \<Longrightarrow> leave_queue w (sy_lock s) = (st, wl) \<Longrightarrow>
    slot_step s (Step a) (goto a (if st \<in> {Waiting, Abandoned} then Failed Cancelled else Passing w Cancelled) wl s)"
| resv_pass: "sy_pc s a = Passing w e \<Longrightarrow> pass_on lp w (sy_lock s) = (r, wl) \<Longrightarrow>
    slot_step s (Step a) (goto a (after r (\<lambda>_. Failed e)) wl s)"
| resv_granted: "sy_pc s a = Woken w since \<Longrightarrow> granted (sy_me s a) w (sy_lock s) = (r, wl) \<Longrightarrow>
    slot_step s (Step a) (goto a (case r of Inl e \<Rightarrow> Undo_Own None since None e | Inr l \<Rightarrow> Reserved l since) wl s)"
| resv_return: "sy_pc s a = Reserved l since \<Longrightarrow>
    slot_step s (Step a) (goto a (Slot \<lparr>ws_storage = st, ws_lock = l, ws_state = Held\<rparr> None []) (sy_lock s) s)"
| resv_interrupt: "sy_pc s a = Reserved l since \<Longrightarrow> slot_step s (Step a) (goto a (Undo_Own (Some l) since None Interrupt) (sy_lock s) s)"
| resv_interrupt_queue: "sy_pc s a = Enqueued w since \<Longrightarrow> slot_step s (Step a) (goto a (Undo_Own None since (Some w) Interrupt) (sy_lock s) s)"
| resv_undo: "sy_pc s a = Undo_Own lo since wo e \<Longrightarrow> release_if_owned lp (sy_me s a) since (sy_lock s) = (r, wl) \<Longrightarrow>
    slot_step s (Step a) (goto a (after r (\<lambda>_. case wo of None \<Rightarrow> Failed e | Some w \<Rightarrow> Undo_Queue w)) wl s)"
| resv_undo_queue: "sy_pc s a = Undo_Queue w \<Longrightarrow> leave_queue w (sy_lock s) = (st, wl) \<Longrightarrow>
    slot_step s (Step a) (goto a (if st = Waiting then Failed Interrupt else Passing w Interrupt) wl s)"
| hold_release: "sy_pc s a = Holding l \<Longrightarrow> slot_release lp (Some l) (sy_lock s) = (r, wl) \<Longrightarrow>
    slot_step s (Step a) (goto a (after r (\<lambda>_. Idle)) wl s)"
| slot_take: "sy_pc s a = Slot ws tx rs \<Longrightarrow> free_caller s m \<Longrightarrow> take_slot storage m (sy_lock s) ws = (r, wl, ws') \<Longrightarrow>
    rs = [] \<or> isl r \<Longrightarrow>
    slot_step s (Step a) (goto a (Slot ws' (case r of Inl _ \<Rightarrow> tx | Inr (_, previous) \<Rightarrow> Some previous) rs) wl s)"
| slot_take_race: "sy_pc s a = Slot ws tx rs \<Longrightarrow> free_caller s m \<Longrightarrow> take_slot storage m (sy_lock s) ws = (Inr (l, previous), wl, ws') \<Longrightarrow>
    rs \<noteq> [] \<Longrightarrow> list_all2 (\<longrightarrow>) rs rs' \<Longrightarrow> slot_step s (Race a) (goto a (Slot ws' (Some previous) rs') wl s)"
| slot_give_back: "sy_pc s a = Slot ws (Some p) rs \<Longrightarrow> give_back p (sy_lock s) ws = (wl, ws') \<Longrightarrow>
    slot_step s (Step a) (goto a (Slot ws' None rs) wl s)"
| slot_ended: "sy_pc s a = Slot ws (Some p) rs \<Longrightarrow> slot_release lp (Some (ws_lock ws)) (sy_lock s) = (r, wl) \<Longrightarrow>
    slot_step s (Step a) (goto a (after r (\<lambda>_. Slot ws None rs)) wl s)"
| slot_check: "sy_pc s a = Slot ws tx rs \<Longrightarrow> ws_held ws \<Longrightarrow>
    slot_step s (if rs = [] then Step a else Race a) (goto a (Slot ws tx (rs @ [False])) (sy_lock s) s)"
| slot_mark: "sy_pc s a = Slot ws tx rs \<Longrightarrow> False \<in> set rs \<Longrightarrow>
    slot_step s (Step a) (goto a (Slot (ws_mark ws) tx (remove1 False rs @ [True])) (sy_lock s) s)"
| slot_released: "sy_pc s a = Slot ws tx rs \<Longrightarrow> True \<in> set rs \<Longrightarrow> slot_release lp (Some (ws_lock ws)) (sy_lock s) = (r, wl) \<Longrightarrow>
    slot_step s (Step a) (goto a (after r (\<lambda>_. Slot ws tx (remove1 True rs))) wl s)"
| failed: "sy_pc s a = Failed e \<Longrightarrow> slot_step s (Step a) (goto a Idle (sy_lock s) s)"
| close: "slot_close (sy_lock s) = (r, wl) \<Longrightarrow> slot_step s Close (s\<lparr>sy_lock := wl\<rparr>)"

inductive slot_reached :: "(slot_sys \<Rightarrow> slot_event \<Rightarrow> bool) \<Rightarrow> slot_sys \<Rightarrow> bool" for allowed where
  reached_new: "slot_reached allowed new_slot_sys"
| reached_step: "slot_reached allowed s \<Longrightarrow> allowed s e \<Longrightarrow> slot_step s e s' \<Longrightarrow> slot_reached allowed s'"

end
