(* ===== verification/Write_Slot_Inv.thy ===== *)
theory Write_Slot_Inv
  imports Write_Slot_System
begin

text \<open>
  What every reachable state of the writer slot satisfies: who carries a locked lock, what the owner
  record says, what is in the queue, and what the count of blocked threads counts.
\<close>

section \<open>What a call stands for\<close>

text \<open>A lock taken and not yet recorded, and a recorded hold on the current lock.\<close>

fun bare :: "pc \<Rightarrow> nat \<Rightarrow> bool" where
  "bare (Took l w) k = (k = l)"
| "bare (Lost l) k = (k = l)"
| "bare (Interrupted l got) k = (got \<and> k = l)"
| "bare _ k = False"

fun recorded :: "nat \<Rightarrow> pc \<Rightarrow> bool" where
  "recorded cur (Reserved l since) = (l = cur)"
| "recorded cur (Undo_Own (Some l) since wo e) = (l = cur)"
| "recorded cur (Holding l) = (l = cur)"
| "recorded cur (Slot ws tx rs) = (ws_lock ws = cur \<and> (ws_held ws \<or> tx \<noteq> None \<or> rs \<noteq> []))"
| "recorded cur _ = False"

definition carries :: "nat \<Rightarrow> pc \<Rightarrow> nat \<Rightarrow> bool" where
  "carries cur p k \<longleftrightarrow> bare p k \<or> recorded cur p \<and> k = cur"

text \<open>The lock, the waiter and the earlier hold a call remembers.\<close>

fun lock_of :: "pc \<Rightarrow> nat option" where
  "lock_of (Acq_Try l) = Some l"
| "lock_of (Blocked l) = Some l"
| "lock_of (Took l w) = Some l"
| "lock_of (Lost l) = Some l"
| "lock_of (Interrupted l got) = Some l"
| "lock_of (Reserved l since) = Some l"
| "lock_of (Undo_Own lo since wo e) = lo"
| "lock_of (Holding l) = Some l"
| "lock_of (Slot ws tx rs) = Some (ws_lock ws)"
| "lock_of _ = None"

text \<open>The least the current lock can be: a lost lock was not the current one.\<close>

fun at_least :: "pc \<Rightarrow> nat" where
  "at_least (Lost l) = Suc l"
| "at_least p = (case lock_of p of None \<Rightarrow> 0 | Some l \<Rightarrow> l)"

fun waits :: "pc \<Rightarrow> nat option" where
  "waits (Enqueued w since) = Some w"
| "waits (Queued w since) = Some w"
| "waits (Passing w e) = Some w"
| "waits (Woken w since) = Some w"
| "waits (Undo_Own lo since wo e) = wo"
| "waits (Undo_Queue w) = Some w"
| "waits _ = None"

fun awake :: "pc \<Rightarrow> bool" where
  "awake (Passing w e) = True"
| "awake (Woken w since) = True"
| "awake _ = False"

fun since_of :: "pc \<Rightarrow> nat option option" where
  "since_of (Resv_Enter since) = Some since"
| "since_of (Enqueued w since) = Some since"
| "since_of (Queued w since) = Some since"
| "since_of (Woken w since) = Some since"
| "since_of (Reserved l since) = Some since"
| "since_of (Undo_Own lo since wo e) = Some since"
| "since_of _ = None"

fun counted :: "pc \<Rightarrow> bool" where
  "counted (Blocked l) = True"
| "counted (Took l waited) = waited"
| "counted Expired = True"
| "counted (Interrupted l got) = True"
| "counted _ = False"

text \<open>
  A reserved slot while no two calls on it overlap: a transaction runs on a taken slot only, and at most
  one release of it is under way.
\<close>

fun slot_shape :: "pc \<Rightarrow> bool" where
  "slot_shape (Slot ws tx rs) \<longleftrightarrow>
     (tx \<noteq> None \<longrightarrow> ws_state ws = Taken \<and> rs = []) \<and> length rs \<le> 1 \<and> (rs \<noteq> [] \<longrightarrow> ws_state ws \<noteq> Taken) \<and>
     (True \<in> set rs \<longrightarrow> ws_state ws = Released)"
| "slot_shape p = True"

lemma slot_shapeI: "(\<And>ws tx rs. p \<noteq> Slot ws tx rs) \<Longrightarrow> slot_shape p"
  by (cases p) auto

lemma recorded_lock_of: "recorded cur p \<Longrightarrow> lock_of p = Some cur"
  by (cases "(cur, p)" rule: recorded.cases) auto

lemma bare_lock_of: "bare p k \<Longrightarrow> lock_of p = Some k"
  by (cases "(p, k)" rule: bare.cases) auto

lemma carries_lock_of: "carries cur p k \<Longrightarrow> lock_of p = Some k"
  by (auto simp: carries_def dest: recorded_lock_of bare_lock_of)

lemma lock_of_at_least: "lock_of p = Some l \<Longrightarrow> l \<le> at_least p"
  by (cases p) auto

lemma since_in_call: "since_of p = Some x \<Longrightarrow> in_call p"
  by (cases p) auto

lemma bare_not_recorded: "bare p k \<Longrightarrow> \<not> recorded cur p"
  by (cases "(p, k)" rule: bare.cases) auto

section \<open>The invariant\<close>

text \<open>
  A locked lock is carried by exactly one call, or by the pending grant; \<open>hole\<close> is the moment inside
  a section when the current lock is locked for nobody.
\<close>

definition lock_inv :: "bool \<Rightarrow> writer_lock \<Rightarrow> (nat \<Rightarrow> pc) \<Rightarrow> bool" where
  "lock_inv hole wl pc \<longleftrightarrow>
     (\<forall>a b k. carries (wl_lock wl) (pc a) k \<longrightarrow> carries (wl_lock wl) (pc b) k \<longrightarrow> a = b) \<and>
     (\<forall>a k. carries (wl_lock wl) (pc a) k \<longrightarrow> wl_locked wl k) \<and>
     (\<forall>a. carries (wl_lock wl) (pc a) (wl_lock wl) \<longrightarrow> wl_pending wl = None \<and> \<not> hole) \<and>
     (\<forall>k. wl_locked wl k \<longrightarrow> k \<le> wl_lock wl) \<and>
     (\<forall>k. wl_locked wl k \<longrightarrow> k \<noteq> wl_lock wl \<or> wl_pending wl = None \<and> \<not> hole \<longrightarrow> (\<exists>a. carries (wl_lock wl) (pc a) k)) \<and>
     (hole \<or> wl_pending wl \<noteq> None \<longrightarrow> wl_locked wl (wl_lock wl)) \<and>
     (hole \<longrightarrow> wl_pending wl = None) \<and>
     (\<forall>a. at_least (pc a) \<le> wl_lock wl)"

lemmas lock_inv_unfold = lock_inv_def [THEN iffD1]
lemmas lock_invD =
  lock_inv_unfold [THEN conjunct1, rule_format]
  lock_inv_unfold [THEN conjunct2, THEN conjunct1, rule_format]
  lock_inv_unfold [THEN conjunct2, THEN conjunct2, THEN conjunct1, rule_format]
  lock_inv_unfold [THEN conjunct2, THEN conjunct2, THEN conjunct2, THEN conjunct1, rule_format]
  lock_inv_unfold [THEN conjunct2, THEN conjunct2, THEN conjunct2, THEN conjunct2, THEN conjunct1, rule_format]
  lock_inv_unfold [THEN conjunct2, THEN conjunct2, THEN conjunct2, THEN conjunct2, THEN conjunct2, THEN conjunct1, rule_format]
  lock_inv_unfold [THEN conjunct2, THEN conjunct2, THEN conjunct2, THEN conjunct2, THEN conjunct2, THEN conjunct2, THEN conjunct1, rule_format]
  lock_inv_unfold [THEN conjunct2, THEN conjunct2, THEN conjunct2, THEN conjunct2, THEN conjunct2, THEN conjunct2, THEN conjunct2, rule_format]

lemma lock_invI:
  assumes "\<And>a b k. carries (wl_lock wl) (pc a) k \<Longrightarrow> carries (wl_lock wl) (pc b) k \<Longrightarrow> a = b"
    and "\<And>a k. carries (wl_lock wl) (pc a) k \<Longrightarrow> wl_locked wl k"
    and "\<And>a. carries (wl_lock wl) (pc a) (wl_lock wl) \<Longrightarrow> wl_pending wl = None \<and> \<not> hole"
    and "\<And>k. wl_locked wl k \<Longrightarrow> k \<le> wl_lock wl"
    and "\<And>k. wl_locked wl k \<Longrightarrow> k \<noteq> wl_lock wl \<or> wl_pending wl = None \<and> \<not> hole \<Longrightarrow> \<exists>a. carries (wl_lock wl) (pc a) k"
    and "hole \<or> wl_pending wl \<noteq> None \<Longrightarrow> wl_locked wl (wl_lock wl)" and "hole \<Longrightarrow> wl_pending wl = None"
    and "\<And>a. at_least (pc a) \<le> wl_lock wl"
  shows "lock_inv hole wl pc"
  unfolding lock_inv_def
  by (intro conjI allI impI; (rule assms(8))?) (rule assms assms(3) [THEN conjunct1] assms(3) [THEN conjunct2], assumption+)+

text \<open>
  There is an owner exactly while a hold on the current lock is recorded; a call that has not got the
  slot yet never sees itself as the owner of a hold taken since it began.
\<close>

definition owner_inv :: "writer_lock \<Rightarrow> (nat \<Rightarrow> pc) \<Rightarrow> (nat \<Rightarrow> owner) \<Rightarrow> bool" where
  "owner_inv wl pc me \<longleftrightarrow>
     (wl_owner wl \<noteq> None \<longleftrightarrow> (\<exists>a. recorded (wl_lock wl) (pc a))) \<and>
     (wl_owner wl = None \<longleftrightarrow> wl_hold wl = None) \<and>
     (\<forall>h. wl_hold wl = Some h \<longrightarrow> h < wl_next_hold wl) \<and>
     (\<forall>a h. since_of (pc a) = Some (Some h) \<longrightarrow> h < wl_next_hold wl) \<and>
     (\<forall>a since. since_of (pc a) = Some since \<longrightarrow>
        (if recorded (wl_lock wl) (pc a) then wl_owner wl = Some (me a) \<and> wl_hold wl \<noteq> since
         else wl_owner wl = Some (me a) \<longrightarrow> wl_hold wl = since)) \<and>
     (\<forall>b ws p rs. pc b = Slot ws (Some p) rs \<longrightarrow> ws_lock ws = wl_lock wl \<longrightarrow>
        p \<noteq> None \<and> (\<forall>a since. since_of (pc a) = Some since \<longrightarrow> p = Some (me a) \<longrightarrow> wl_hold wl = since)) \<and>
     (\<forall>a b. in_call (pc a) \<longrightarrow> in_call (pc b) \<longrightarrow> me a = me b \<longrightarrow> a = b)"

lemmas owner_inv_unfold = owner_inv_def [THEN iffD1]
lemmas owner_invD =
  owner_inv_unfold [THEN conjunct1]
  owner_inv_unfold [THEN conjunct2, THEN conjunct1]
  owner_inv_unfold [THEN conjunct2, THEN conjunct2, THEN conjunct1, rule_format]
  owner_inv_unfold [THEN conjunct2, THEN conjunct2, THEN conjunct2, THEN conjunct1, rule_format]
  owner_inv_unfold [THEN conjunct2, THEN conjunct2, THEN conjunct2, THEN conjunct2, THEN conjunct1, THEN spec, THEN spec, THEN mp]
  owner_inv_unfold [THEN conjunct2, THEN conjunct2, THEN conjunct2, THEN conjunct2, THEN conjunct2, THEN conjunct1,
    THEN spec, THEN spec, THEN spec, THEN spec, THEN mp, THEN mp]
  owner_inv_unfold [THEN conjunct2, THEN conjunct2, THEN conjunct2, THEN conjunct2, THEN conjunct2, THEN conjunct2, rule_format]

text \<open>The queue holds the waiters that still wait, each for one call; the pending grant is one too.\<close>

definition queue_inv :: "writer_lock \<Rightarrow> (nat \<Rightarrow> pc) \<Rightarrow> bool" where
  "queue_inv wl pc \<longleftrightarrow>
     distinct (wl_waiters wl) \<and>
     (\<forall>w. w \<in> set (wl_waiters wl) \<longrightarrow> wt_state (wl_heap wl w) = Waiting) \<and>
     (\<forall>w. w \<in> set (wl_waiters wl) \<or> wl_pending wl = Some w \<longrightarrow> (\<exists>a. waits (pc a) = Some w)) \<and>
     (\<forall>w. wl_pending wl = Some w \<longrightarrow> wt_state (wl_heap wl w) = Granted \<and> wt_lock (wl_heap wl w) = Some (wl_lock wl)) \<and>
     (\<forall>a b w. waits (pc a) = Some w \<longrightarrow> waits (pc b) = Some w \<longrightarrow> a = b) \<and>
     (\<forall>a w. waits (pc a) = Some w \<longrightarrow> w < wl_next_waiter wl) \<and>
     (\<forall>a w. waits (pc a) = Some w \<longrightarrow> wt_state (wl_heap wl w) = Waiting \<longrightarrow> w \<in> set (wl_waiters wl) \<and> \<not> awake (pc a)) \<and>
     (\<forall>a w. waits (pc a) = Some w \<longrightarrow> wt_state (wl_heap wl w) = Granted \<longrightarrow> wt_lock (wl_heap wl w) = Some (wl_lock wl) \<longrightarrow>
        wl_pending wl = Some w) \<and>
     (\<forall>w l. wt_lock (wl_heap wl w) = Some l \<longrightarrow> l \<le> wl_lock wl)"

lemmas queue_inv_unfold = queue_inv_def [THEN iffD1]
lemmas queue_invD =
  queue_inv_unfold [THEN conjunct1, rule_format]
  queue_inv_unfold [THEN conjunct2, THEN conjunct1, rule_format]
  queue_inv_unfold [THEN conjunct2, THEN conjunct2, THEN conjunct1, rule_format]
  queue_inv_unfold [THEN conjunct2, THEN conjunct2, THEN conjunct2, THEN conjunct1, rule_format]
  queue_inv_unfold [THEN conjunct2, THEN conjunct2, THEN conjunct2, THEN conjunct2, THEN conjunct1, rule_format]
  queue_inv_unfold [THEN conjunct2, THEN conjunct2, THEN conjunct2, THEN conjunct2, THEN conjunct2, THEN conjunct1, rule_format]
  queue_inv_unfold [THEN conjunct2, THEN conjunct2, THEN conjunct2, THEN conjunct2, THEN conjunct2, THEN conjunct2, THEN conjunct1, rule_format]
  queue_inv_unfold [THEN conjunct2, THEN conjunct2, THEN conjunct2, THEN conjunct2, THEN conjunct2, THEN conjunct2, THEN conjunct2,
    THEN conjunct1, rule_format]
  queue_inv_unfold [THEN conjunct2, THEN conjunct2, THEN conjunct2, THEN conjunct2, THEN conjunct2, THEN conjunct2, THEN conjunct2,
    THEN conjunct2, rule_format]

lemma queue_invI:
  assumes "distinct (wl_waiters wl)"
    and "\<And>w. w \<in> set (wl_waiters wl) \<Longrightarrow> wt_state (wl_heap wl w) = Waiting"
    and "\<And>w. w \<in> set (wl_waiters wl) \<or> wl_pending wl = Some w \<Longrightarrow> \<exists>a. waits (pc a) = Some w"
    and "\<And>w. wl_pending wl = Some w \<Longrightarrow> wt_state (wl_heap wl w) = Granted \<and> wt_lock (wl_heap wl w) = Some (wl_lock wl)"
    and "\<And>a b w. waits (pc a) = Some w \<Longrightarrow> waits (pc b) = Some w \<Longrightarrow> a = b"
    and "\<And>a w. waits (pc a) = Some w \<Longrightarrow> w < wl_next_waiter wl"
    and "\<And>a w. waits (pc a) = Some w \<Longrightarrow> wt_state (wl_heap wl w) = Waiting \<Longrightarrow> w \<in> set (wl_waiters wl) \<and> \<not> awake (pc a)"
    and "\<And>a w. waits (pc a) = Some w \<Longrightarrow> wt_state (wl_heap wl w) = Granted \<Longrightarrow> wt_lock (wl_heap wl w) = Some (wl_lock wl) \<Longrightarrow>
      wl_pending wl = Some w"
    and "\<And>w l. wt_lock (wl_heap wl w) = Some l \<Longrightarrow> l \<le> wl_lock wl"
  shows "queue_inv wl pc"
  unfolding queue_inv_def by (intro conjI [OF assms(1)] conjI allI impI)
      (rule assms assms(4,7) [THEN conjunct1] assms(4,7) [THEN conjunct2], assumption+)+

definition count_inv :: "writer_lock \<Rightarrow> (nat \<Rightarrow> pc) \<Rightarrow> bool" where
  "count_inv wl pc \<longleftrightarrow> finite {a. pc a \<noteq> Idle} \<and> wl_sync_waiting wl = int (card {a. counted (pc a)})"

text \<open>A coroutine queues only while the slot is locked, or a thread is there to take it.\<close>

definition attended :: "writer_lock \<Rightarrow> bool" where
  "attended wl \<longleftrightarrow> (wl_waiters wl \<noteq> [] \<longrightarrow> wl_locked wl (wl_lock wl) \<or> wl_sync_waiting wl \<noteq> 0)"

section \<open>Frames\<close>

text \<open>What the queue mechanics leave alone.\<close>

definition framed :: "writer_lock \<Rightarrow> writer_lock \<Rightarrow> bool" where
  "framed wl wl' \<longleftrightarrow> wl_lock wl' = wl_lock wl \<and> wl_owner wl' = wl_owner wl \<and> wl_hold wl' = wl_hold wl \<and>
     wl_sync_waiting wl' = wl_sync_waiting wl \<and> wl_next_hold wl' = wl_next_hold wl \<and>
     wl_next_waiter wl' = wl_next_waiter wl \<and> (\<forall>k. k \<noteq> wl_lock wl \<longrightarrow> wl_locked wl' k = wl_locked wl k)"

lemma framed_trans: "framed a b \<Longrightarrow> framed b c \<Longrightarrow> framed a c"
  by (simp add: framed_def)

lemma framed_refl [simp]: "framed a a"
  by (simp add: framed_def)

lemma framed_owner_inv: "framed wl wl' \<Longrightarrow> owner_inv wl' pc me = owner_inv wl pc me"
  by (simp add: framed_def owner_inv_def)

lemma framed_count_inv: "framed wl wl' \<Longrightarrow> count_inv wl' pc = count_inv wl pc"
  by (simp add: framed_def count_inv_def)

lemma framed_unlock: "seq (raw_release (wl_lock wl)) (\<lambda>wl. (Inr (), wl\<lparr>wl_barge_next := False\<rparr>)) wl = (r, wl') \<Longrightarrow> framed wl wl'"
  by (auto simp: seq_def raw_release_def set_locked_def framed_def split: if_splits)

lemma framed_hand_off_loop: "hand_off_loop lp ws wl = (r, wl') \<Longrightarrow> framed wl wl'"
proof (induction lp ws wl arbitrary: r wl' rule: hand_off_loop.induct)
  case (1 lp wl)
  then show ?case by (auto simp: seq_def raw_release_def set_locked_def framed_def split: if_splits)
next
  case (2 lp w ws wl)
  let ?g = "wl\<lparr>wl_heap := (wl_heap wl)(w := \<lparr>wt_lock = Some (wl_lock wl), wt_state = Granted\<rparr>)\<rparr>"
  have f: "framed wl (set_state w Abandoned wl)" "framed wl (set_state w Abandoned ?g)"
    "framed wl (?g\<lparr>wl_waiters := ws, wl_pending := Some w, wl_barge_next := True\<rparr>)"
    by (simp_all add: framed_def set_state_def)
  consider "wt_state (wl_heap wl w) \<noteq> Waiting \<or> lp_dead lp w"
    | "\<not> (wt_state (wl_heap wl w) \<noteq> Waiting \<or> lp_dead lp w)" "lp_wakes lp w"
    | "\<not> (wt_state (wl_heap wl w) \<noteq> Waiting \<or> lp_dead lp w)" "\<not> lp_wakes lp w" by blast
  then show ?case
  proof cases
    case 1
    then have "hand_off_loop lp ws (set_state w Abandoned wl) = (r, wl')" using 2(3) by simp
    from 2(1) [OF 1 this] f(1) show ?thesis by (rule framed_trans [rotated])
  next
    case 2
    with \<open>hand_off_loop lp (w # ws) wl = (r, wl')\<close> f(3) show ?thesis by auto
  next
    case 3
    then have "hand_off_loop lp ws (set_state w Abandoned ?g) = (r, wl')" using 2(3) by simp
    from 2(2) [OF 3(1) refl 3(2) this] f(2) show ?thesis by (rule framed_trans [rotated])
  qed
qed

lemma framed_hand_off: "hand_off lp wl = (r, wl') \<Longrightarrow> framed wl wl'"
  unfolding hand_off_def by (rule framed_hand_off_loop)

lemma framed_release_locked: "release_locked lp wl = (r, wl') \<Longrightarrow> framed wl wl'"
  unfolding release_locked_def by (auto dest: framed_hand_off framed_unlock split: if_splits)

lemma framed_reclaim: "reclaim_dead_pending lp wl = (r, wl') \<Longrightarrow> framed wl wl'"
  unfolding reclaim_dead_pending_def Let_def
  by (auto dest!: framed_release_locked simp: framed_def set_state_def split: option.splits if_splits)

lemma framed_rescue: "rescue_queue lp wl = (r, wl') \<Longrightarrow> framed wl wl'"
  unfolding rescue_queue_def by (auto dest!: framed_hand_off simp: framed_def set_locked_def split: if_splits)

lemma framed_pass_on: "pass_on lp w wl = (r, wl') \<Longrightarrow> framed wl wl'"
  unfolding pass_on_def Let_def
  by (auto dest!: framed_release_locked simp: framed_def set_state_def split: if_splits)

section \<open>The queue mechanics keep the invariants\<close>

lemma lock_inv_heap: "lock_inv hole (wl\<lparr>wl_heap := h\<rparr>) pc = lock_inv hole wl pc"
  "lock_inv hole (wl\<lparr>wl_waiters := ws\<rparr>) pc = lock_inv hole wl pc"
  "lock_inv hole (set_state w x wl) pc = lock_inv hole wl pc"
  "lock_inv hole (wl\<lparr>wl_barge_next := b\<rparr>) pc = lock_inv hole wl pc"
  "lock_inv hole (wl\<lparr>wl_sync_waiting := n\<rparr>) pc = lock_inv hole wl pc"
  by (simp_all add: lock_inv_def set_state_def)

lemma queue_inv_locked: "queue_inv (wl\<lparr>wl_barge_next := b\<rparr>) pc = queue_inv wl pc"
  "queue_inv (set_locked l c wl) pc = queue_inv wl pc"
  "queue_inv (wl\<lparr>wl_sync_waiting := n\<rparr>) pc = queue_inv wl pc"
  by (simp_all add: queue_inv_def set_locked_def)

lemma lock_inv_unlock:
  assumes "lock_inv True wl pc"
  shows "lock_inv False (set_locked (wl_lock wl) False wl) pc"
  using assms unfolding lock_inv_def by (auto simp: set_locked_def)

lemma lock_inv_grant: "lock_inv True wl pc \<Longrightarrow> lock_inv False (wl\<lparr>wl_pending := Some w\<rparr>) pc"
  unfolding lock_inv_def by auto

lemma unlock_inv:
  assumes "lock_inv True wl pc" and "queue_inv wl pc"
    and "seq (raw_release (wl_lock wl)) (\<lambda>wl. (Inr (), wl\<lparr>wl_barge_next := False\<rparr>)) wl = (r, wl')"
  shows "r = Inr ()" and "lock_inv False wl' pc" and "queue_inv wl' pc"
    and "wl_waiters wl' = wl_waiters wl" "wl_pending wl' = None" "\<not> wl_locked wl' (wl_lock wl)" "\<not> wl_barge_next wl'"
proof -
  have "wl_locked wl (wl_lock wl)" "wl_pending wl = None" using assms(1) by (auto simp: lock_inv_def)
  with assms(3) have "r = Inr ()" "wl' = (set_locked (wl_lock wl) False wl)\<lparr>wl_barge_next := False\<rparr>"
    by (auto simp: seq_def raw_release_def)
  with assms(1,2) \<open>wl_pending wl = None\<close> show "r = Inr ()" "lock_inv False wl' pc" "queue_inv wl' pc"
    "wl_waiters wl' = wl_waiters wl" "wl_pending wl' = None" "\<not> wl_locked wl' (wl_lock wl)" "\<not> wl_barge_next wl'"
    by (simp_all add: lock_inv_heap queue_inv_locked lock_inv_unlock) (simp_all add: set_locked_def)
qed

text \<open>Taking the head off the queue.\<close>

lemma queue_inv_drop:
  assumes "queue_inv (wl\<lparr>wl_waiters := w # ws\<rparr>) pc" and "wl_pending wl = None"
    and "wt_state x = Abandoned" and "\<forall>l. wt_lock x = Some l \<longrightarrow> l \<le> wl_lock wl"
  shows "queue_inv (wl\<lparr>wl_heap := (wl_heap wl)(w := x), wl_waiters := ws\<rparr>) pc"
  using assms unfolding queue_inv_def by auto

lemma queue_inv_grant:
  assumes "queue_inv (wl\<lparr>wl_waiters := w # ws\<rparr>) pc" and "wl_pending wl = None"
  shows "queue_inv (wl\<lparr>wl_heap := (wl_heap wl)(w := \<lparr>wt_lock = Some (wl_lock wl), wt_state = Granted\<rparr>), wl_waiters := ws,
    wl_pending := Some w\<rparr>) pc"
  using assms unfolding queue_inv_def by auto

text \<open>How a handoff ends.\<close>

definition handed :: "nat list \<Rightarrow> writer_lock \<Rightarrow> bool" where
  "handed ws wl \<longleftrightarrow>
     (if wl_locked wl (wl_lock wl)
      then wl_barge_next wl \<and> (\<exists>pre w. ws = pre @ w # wl_waiters wl \<and> wl_pending wl = Some w)
      else wl_waiters wl = [] \<and> \<not> wl_barge_next wl)"

lemma hand_off_loop_inv:
  "lock_inv True wl pc \<Longrightarrow> queue_inv (wl\<lparr>wl_waiters := ws\<rparr>) pc \<Longrightarrow> hand_off_loop lp ws wl = (r, wl') \<Longrightarrow>
     r = Inr () \<and> lock_inv False wl' pc \<and> queue_inv wl' pc \<and> handed ws wl'"
proof (induction ws arbitrary: wl)
  case Nil
  have "lock_inv True (wl\<lparr>wl_waiters := []\<rparr>) pc" using Nil(1) by (simp add: lock_inv_heap)
  from Nil(3) have u: "seq (raw_release (wl_lock (wl\<lparr>wl_waiters := []\<rparr>))) (\<lambda>wl. (Inr (), wl\<lparr>wl_barge_next := False\<rparr>))
    (wl\<lparr>wl_waiters := []\<rparr>) = (r, wl')" by simp
  have "wl_lock wl' = wl_lock wl" using framed_unlock [OF u] by (simp add: framed_def)
  with unlock_inv [OF \<open>lock_inv True (wl\<lparr>wl_waiters := []\<rparr>) pc\<close> Nil(2) u] show ?case
    by (simp add: handed_def)
next
  case (Cons w ws)
  let ?g = "wl\<lparr>wl_heap := (wl_heap wl)(w := \<lparr>wt_lock = Some (wl_lock wl), wt_state = Granted\<rparr>)\<rparr>"
  have p: "wl_pending wl = None" and l: "\<forall>l. wt_lock (wl_heap wl w) = Some l \<longrightarrow> l \<le> wl_lock wl"
    using Cons.prems(1,2) by (auto simp: lock_inv_def queue_inv_def)
  have next_ok: "r = Inr () \<and> lock_inv False wl' pc \<and> queue_inv wl' pc \<and> handed (w # ws) wl'"
    if "hand_off_loop lp ws v = (r, wl')" "v = set_state w Abandoned wl \<or> v = set_state w Abandoned ?g" for v
  proof -
    have "lock_inv True v pc" using Cons.prems(1) that(2) by (auto simp: lock_inv_heap)
    moreover have "queue_inv (v\<lparr>wl_waiters := ws\<rparr>) pc"
      using that(2) queue_inv_drop [OF Cons.prems(2) p, of "(wl_heap wl w)\<lparr>wt_state := Abandoned\<rparr>"]
        queue_inv_drop [OF Cons.prems(2) p, of "\<lparr>wt_lock = Some (wl_lock wl), wt_state = Abandoned\<rparr>"] l
      by (auto simp: set_state_def)
    ultimately have "r = Inr () \<and> lock_inv False wl' pc \<and> queue_inv wl' pc \<and> handed ws wl'"
      using Cons.IH that(1) by blast
    then show ?thesis unfolding handed_def by (metis append_Cons)
  qed
  show ?case
  proof (cases "wt_state (wl_heap wl w) \<noteq> Waiting \<or> lp_dead lp w")
    case True
    with Cons.prems(3) next_ok show ?thesis by simp
  next
    case dead: False
    show ?thesis
    proof (cases "lp_wakes lp w")
      case False
      with dead Cons.prems(3) next_ok show ?thesis by simp
    next
      case True
      with dead Cons.prems(3) have e: "r = Inr ()"
        "wl' = (?g\<lparr>wl_waiters := ws, wl_pending := Some w\<rparr>)\<lparr>wl_barge_next := True\<rparr>" by auto
      have "wl_locked wl (wl_lock wl)" using Cons.prems(1) by (simp add: lock_inv_def)
      moreover have "lock_inv True (?g\<lparr>wl_waiters := ws\<rparr>) pc" using Cons.prems(1) by (simp add: lock_inv_heap)
      from lock_inv_grant [OF this, of w] have "lock_inv False wl' pc" unfolding e(2) by (simp only: lock_inv_heap)
      moreover have "queue_inv wl' pc" unfolding e(2) queue_inv_locked
        using queue_inv_grant [OF Cons.prems(2) p] by simp
      ultimately show ?thesis using e by (simp add: handed_def)
    qed
  qed
qed

lemma hand_off_inv:
  assumes "lock_inv True wl pc" and "queue_inv wl pc" and "hand_off lp wl = (r, wl')"
  shows "r = Inr ()" and "lock_inv False wl' pc" and "queue_inv wl' pc" and "handed (wl_waiters wl) wl'" and "attended wl'"
proof -
  have "queue_inv (wl\<lparr>wl_waiters := wl_waiters wl\<rparr>) pc" using assms(2) by simp
  from hand_off_loop_inv [OF assms(1) this] assms(3)
  show "r = Inr ()" "lock_inv False wl' pc" "queue_inv wl' pc" "handed (wl_waiters wl) wl'"
    by (simp_all add: hand_off_def)
  then show "attended wl'" by (auto simp: handed_def attended_def split: if_splits)
qed

lemma release_locked_inv:
  assumes "lock_inv True wl pc" and "queue_inv wl pc" and "release_locked lp wl = (r, wl')"
  shows "r = Inr ()" and "lock_inv False wl' pc" and "queue_inv wl' pc" and "attended wl'"
    and "handed (wl_waiters wl) wl' \<or> wl_waiters wl' = wl_waiters wl \<and> \<not> wl_locked wl' (wl_lock wl) \<and> \<not> wl_barge_next wl' \<and>
      (wl_waiters wl \<noteq> [] \<longrightarrow> wl_barge_next wl)"
proof -
  have "r = Inr () \<and> lock_inv False wl' pc \<and> queue_inv wl' pc \<and> attended wl' \<and>
    (handed (wl_waiters wl) wl' \<or> wl_waiters wl' = wl_waiters wl \<and> \<not> wl_locked wl' (wl_lock wl) \<and> \<not> wl_barge_next wl' \<and>
      (wl_waiters wl \<noteq> [] \<longrightarrow> wl_barge_next wl))"
  proof (cases "wl_waiters wl \<noteq> [] \<and> \<not> (wl_barge_next wl \<and> wl_sync_waiting wl \<noteq> 0)")
    case True
    with assms(3) have "hand_off lp wl = (r, wl')" by (simp add: release_locked_def)
    from hand_off_inv [OF assms(1,2) this] show ?thesis by simp
  next
    case False
    with assms(3) have u: "seq (raw_release (wl_lock wl)) (\<lambda>wl. (Inr (), wl\<lparr>wl_barge_next := False\<rparr>)) wl = (r, wl')"
      by (auto simp: release_locked_def)
    have "wl_sync_waiting wl' = wl_sync_waiting wl" using framed_unlock [OF u] by (simp add: framed_def)
    with unlock_inv [OF assms(1,2) u] False show ?thesis by (auto simp: attended_def)
  qed
  then show "r = Inr ()" "lock_inv False wl' pc" "queue_inv wl' pc" "attended wl'"
    "handed (wl_waiters wl) wl' \<or> wl_waiters wl' = wl_waiters wl \<and> \<not> wl_locked wl' (wl_lock wl) \<and> \<not> wl_barge_next wl' \<and>
      (wl_waiters wl \<noteq> [] \<longrightarrow> wl_barge_next wl)" by simp_all
qed

text \<open>The waiter whose grant was the slot's gives it up.\<close>

lemma queue_inv_abandon:
  assumes q: "queue_inv wl pc" and w: "w \<notin> set (wl_waiters wl)"
    and p: "p = None \<and> (wl_pending wl = None \<or> wl_pending wl = Some w) \<or> p = wl_pending wl \<and> p \<noteq> Some w"
  shows "queue_inv ((set_state w Abandoned wl)\<lparr>wl_pending := p\<rparr>) pc"
proof -
  let ?h = "wl_heap (set_state w Abandoned wl)"
  have h: "x \<noteq> w \<Longrightarrow> ?h x = wl_heap wl x" "wt_lock (?h x) = wt_lock (wl_heap wl x)" "wt_state (?h w) = Abandoned" for x
    by (simp_all add: set_state_def)
  have a: "wt_state (?h x) = Waiting \<longleftrightarrow> x \<noteq> w \<and> wt_state (wl_heap wl x) = Waiting"
    "wt_state (?h x) = Granted \<longleftrightarrow> x \<noteq> w \<and> wt_state (wl_heap wl x) = Granted" for x
    using h(1) [of x] h(3) by (cases "x = w", simp_all)+
  have l: "set_state w Abandoned wl\<lparr>wl_pending := p\<rparr> = wl\<lparr>wl_heap := ?h, wl_pending := p\<rparr>" by (simp add: set_state_def)
  have sel: "wl_heap (wl\<lparr>wl_heap := ?h, wl_pending := p\<rparr>) = ?h" "wl_pending (wl\<lparr>wl_heap := ?h, wl_pending := p\<rparr>) = p"
    "wl_waiters (wl\<lparr>wl_heap := ?h, wl_pending := p\<rparr>) = wl_waiters wl" "wl_lock (wl\<lparr>wl_heap := ?h, wl_pending := p\<rparr>) = wl_lock wl"
    "wl_next_waiter (wl\<lparr>wl_heap := ?h, wl_pending := p\<rparr>) = wl_next_waiter wl" by simp_all
  note D = queue_invD [OF q]
  show ?thesis unfolding l
  proof (rule queue_invI, unfold sel a h(2))
    show "distinct (wl_waiters wl)" by (rule D(1))
    show "x \<noteq> w \<and> wt_state (wl_heap wl x) = Waiting" if "x \<in> set (wl_waiters wl)" for x using that D(2) w by auto
    show "\<exists>b. waits (pc b) = Some x" if "x \<in> set (wl_waiters wl) \<or> p = Some x" for x
      by (rule D(3)) (use that p in auto)
    show "(x \<noteq> w \<and> wt_state (wl_heap wl x) = Granted) \<and> wt_lock (wl_heap wl x) = Some (wl_lock wl)" if "p = Some x" for x
      using that D(4) p by auto
    show "b = c" if "waits (pc b) = Some x" "waits (pc c) = Some x" for b c x using that by (rule D(5))
    show "x < wl_next_waiter wl" if "waits (pc b) = Some x" for b x using that by (rule D(6))
    show "x \<in> set (wl_waiters wl) \<and> \<not> awake (pc b)" if "waits (pc b) = Some x" "x \<noteq> w \<and> wt_state (wl_heap wl x) = Waiting" for b x
      using that D(7) by blast
    show "p = Some x" if "waits (pc b) = Some x" "x \<noteq> w \<and> wt_state (wl_heap wl x) = Granted" "wt_lock (wl_heap wl x) = Some (wl_lock wl)"
      for b x using that D(8) p by fastforce
    show "k \<le> wl_lock wl" if "wt_lock (wl_heap wl x) = Some k" for x k using that by (rule D(9))
  qed
qed

lemma pending_gone:
  assumes "lock_inv False wl pc" and "queue_inv wl pc" and "wl_pending wl = Some w"
  shows "lock_inv True ((set_state w Abandoned wl)\<lparr>wl_pending := None\<rparr>) pc"
    and "queue_inv ((set_state w Abandoned wl)\<lparr>wl_pending := None\<rparr>) pc"
proof -
  have e: "set_state w Abandoned wl\<lparr>wl_pending := None\<rparr> = wl\<lparr>wl_heap := wl_heap (set_state w Abandoned wl), wl_pending := None\<rparr>"
    by (simp add: set_state_def)
  show "lock_inv True ((set_state w Abandoned wl)\<lparr>wl_pending := None\<rparr>) pc" unfolding e
    by (rule lock_invI; use lock_invD [OF assms(1)] assms(3) in simp)
  have "w \<notin> set (wl_waiters wl)" using assms(2,3) by (auto simp: queue_inv_def)
  then show "queue_inv ((set_state w Abandoned wl)\<lparr>wl_pending := None\<rparr>) pc"
    using queue_inv_abandon [OF assms(2)] assms(3) by simp
qed

lemma reclaim_inv:
  assumes "lock_inv False wl pc" and "queue_inv wl pc" and "reclaim_dead_pending lp wl = (r, wl')"
  shows "r = Inr ()" and "lock_inv False wl' pc" and "queue_inv wl' pc" and "attended wl \<Longrightarrow> attended wl'"
proof -
  have "r = Inr () \<and> lock_inv False wl' pc \<and> queue_inv wl' pc \<and> (attended wl \<longrightarrow> attended wl')"
  proof (cases "wl_pending wl")
    case None
    with assms show ?thesis by (simp add: reclaim_dead_pending_def)
  next
    case (Some p)
    let ?v = "(set_state p Abandoned wl)\<lparr>wl_pending := None\<rparr>"
    have g: "wt_state (wl_heap wl p) = Granted" "wt_lock (wl_heap wl p) = Some (wl_lock wl)"
      using assms(2) Some by (auto simp: queue_inv_def)
    show ?thesis
    proof (cases "lp_closed lp p")
      case False
      with assms Some g show ?thesis by (simp add: reclaim_dead_pending_def)
    next
      case True
      have "wt_lock (wl_heap ?v p) = Some (wl_lock ?v)" using g(2) by (simp add: set_state_def)
      with assms(3) Some g True have "release_locked lp ?v = (r, wl')" by (simp add: reclaim_dead_pending_def Let_def)
      from release_locked_inv [OF pending_gone [OF assms(1,2) Some] this] show ?thesis by simp
    qed
  qed
  then show "r = Inr ()" "lock_inv False wl' pc" "queue_inv wl' pc" "attended wl \<Longrightarrow> attended wl'" by simp_all
qed

lemma lock_inv_steal:
  assumes "lock_inv False wl pc" and "\<not> wl_locked wl (wl_lock wl)"
  shows "lock_inv True (set_locked (wl_lock wl) True wl) pc"
  using assms unfolding lock_inv_def by (auto simp: set_locked_def)

lemma rescue_inv:
  assumes "lock_inv False wl pc" and "queue_inv wl pc" and "rescue_queue lp wl = (r, wl')"
  shows "r = Inr ()" and "lock_inv False wl' pc" and "queue_inv wl' pc" and "attended wl'"
proof -
  have "r = Inr () \<and> lock_inv False wl' pc \<and> queue_inv wl' pc \<and> attended wl'"
  proof (cases "wl_waiters wl \<noteq> [] \<and> \<not> wl_locked wl (wl_lock wl)")
    case False
    with assms show ?thesis by (auto simp: rescue_queue_def attended_def)
  next
    case True
    let ?v = "set_locked (wl_lock wl) True wl"
    have "lock_inv True ?v pc" "queue_inv ?v pc" using lock_inv_steal assms(1,2) True by (auto simp: queue_inv_locked)
    from hand_off_inv [OF this, of lp r wl'] assms(3) True show ?thesis by (simp add: rescue_queue_def)
  qed
  then show "r = Inr ()" "lock_inv False wl' pc" "queue_inv wl' pc" "attended wl'" by simp_all
qed

lemma pass_on_inv:
  assumes "lock_inv False wl pc" and "queue_inv wl pc" and "attended wl" and "pass_on lp w wl = (r, wl')"
    and "waits (pc a) = Some w"
  shows "r = Inr ()" and "lock_inv False wl' pc" and "queue_inv wl' pc" and "attended wl'"
    and "wt_state (wl_heap wl w) \<noteq> Waiting \<Longrightarrow> w \<notin> set (wl_waiters wl') \<and> wl_pending wl' \<noteq> Some w"
proof -
  have nq: "w \<notin> set (wl_waiters wl)" if "wt_state (wl_heap wl w) \<noteq> Waiting"
    using assms(2) that by (auto simp: queue_inv_def)
  have "r = Inr () \<and> lock_inv False wl' pc \<and> queue_inv wl' pc \<and> attended wl' \<and>
    (wt_state (wl_heap wl w) \<noteq> Waiting \<longrightarrow> w \<notin> set (wl_waiters wl') \<and> wl_pending wl' \<noteq> Some w)"
  proof (cases "wt_state (wl_heap wl w) = Granted")
    case False
    then have "wl_pending wl \<noteq> Some w" using queue_invD(4) [OF assms(2)] by blast
    moreover have "r = Inr ()" "wl' = wl" using assms(4) False by (simp_all add: pass_on_def)
    ultimately show ?thesis using assms(1-3) nq by blast
  next
    case g: True
    show ?thesis
    proof (cases "wt_lock (wl_heap wl w) = Some (wl_lock wl)")
      case True
      let ?v = "(set_state w Abandoned wl)\<lparr>wl_pending := None\<rparr>"
      have p: "wl_pending wl = Some w" using queue_invD(8) [OF assms(2,5) g True] .
      have "release_locked lp ?v = (r, wl')" using assms(4) g p True by (simp add: pass_on_def Let_def set_state_def)
      note R = release_locked_inv [OF pending_gone [OF assms(1,2) p] this]
      have "w \<notin> set (wl_waiters ?v)" using nq g by (simp add: set_state_def)
      moreover have "wl_pending wl' = None" if "\<not> wl_locked wl' (wl_lock wl')" using lock_invD(6) [OF R(2)] that by blast
      moreover have "wl_lock wl' = wl_lock ?v" using framed_release_locked [OF \<open>release_locked lp ?v = (r, wl')\<close>] by (simp add: framed_def)
      ultimately have "w \<notin> set (wl_waiters wl') \<and> wl_pending wl' \<noteq> Some w"
        using R(5) by (auto simp: handed_def split: if_splits)
      with R(1-4) show ?thesis by simp
    next
      case False
      then have p: "wl_pending wl \<noteq> Some w" using assms(2) by (auto simp: queue_inv_def)
      with assms(4) g False have e: "r = Inr ()" "wl' = set_state w Abandoned wl"
        by (auto simp: pass_on_def Let_def set_state_def)
      have "queue_inv ((set_state w Abandoned wl)\<lparr>wl_pending := wl_pending wl\<rparr>) pc"
        using queue_inv_abandon [OF assms(2) nq, of "wl_pending wl"] g p by simp
      then have "queue_inv wl' pc" unfolding e(2) by (simp add: set_state_def)
      with assms(1,3) e p nq g show ?thesis by (simp add: lock_inv_heap) (simp add: attended_def set_state_def)
    qed
  qed
  then show "r = Inr ()" "lock_inv False wl' pc" "queue_inv wl' pc" "attended wl'"
    "wt_state (wl_heap wl w) \<noteq> Waiting \<Longrightarrow> w \<notin> set (wl_waiters wl') \<and> wl_pending wl' \<noteq> Some w" by simp_all
qed

end
