(* ===== verification/Write_Slot_Steps.thy ===== *)
theory Write_Slot_Steps
  imports Write_Slot_Inv
begin

text \<open>
  Every step keeps the invariant: first what moving one call does to each part of it, then the
  sections, then the steps.
\<close>

section \<open>Moving one call\<close>

lemma lock_inv_goto:
  assumes i: "lock_inv h wl pc" and c: "\<And>k. carries (wl_lock wl) p k = carries (wl_lock wl) (pc a) k" and l: "at_least p \<le> wl_lock wl"
  shows "lock_inv h wl (pc(a := p))"
proof -
  note D = lock_invD [OF i]
  have e: "carries (wl_lock wl) ((pc(a := p)) b) k = carries (wl_lock wl) (pc b) k" for b k using c by simp
  show ?thesis
  proof (rule lock_invI, unfold e)
    show "at_least ((pc(a := p)) b) \<le> wl_lock wl" for b using D(8) l by simp
  qed (use D(1-7) in blast)+
qed

lemma lock_inv_take:
  assumes i: "lock_inv False wl pc" and u: "\<not> wl_locked wl l" "l \<le> wl_lock wl"
    and c: "\<And>k. \<not> carries (wl_lock wl) (pc a) k" "\<And>k. carries (wl_lock wl) p k = (k = l)" and l: "at_least p \<le> wl_lock wl"
  shows "lock_inv False (set_locked l True wl) (pc(a := p))"
proof -
  note D = lock_invD [OF i]
  let ?w = "set_locked l True wl"
  have sel: "wl_lock ?w = wl_lock wl" "wl_pending ?w = wl_pending wl" "wl_locked ?w k = (k = l \<or> wl_locked wl k)" for k
    by (simp_all add: set_locked_def)
  have e: "carries (wl_lock wl) ((pc(a := p)) b) k = (if b = a then k = l else carries (wl_lock wl) (pc b) k)" for b k using c(2) by simp
  have n: "\<not> carries (wl_lock wl) (pc b) l" for b using D(2) u(1) by blast
  have pn: "wl_pending wl = None" if "l = wl_lock wl" using D(6) u(1) that by blast
  show ?thesis
  proof (rule lock_invI, unfold sel e)
    show "b = d" if "if b = a then k = l else carries (wl_lock wl) (pc b) k" "if d = a then k = l else carries (wl_lock wl) (pc d) k" for b d k
      using that n D(1) by (auto split: if_splits)
    show "k = l \<or> wl_locked wl k" if "if b = a then k = l else carries (wl_lock wl) (pc b) k" for b k
      using that D(2) by (auto split: if_splits)
    show "wl_pending wl = None \<and> \<not> False" if "if b = a then wl_lock wl = l else carries (wl_lock wl) (pc b) (wl_lock wl)" for b
      using that pn D(3) by (auto split: if_splits)
    show "k \<le> wl_lock wl" if "k = l \<or> wl_locked wl k" for k using that D(4) u(2) by blast
    show "\<exists>b. if b = a then k = l else carries (wl_lock wl) (pc b) k"
      if "k = l \<or> wl_locked wl k" "k \<noteq> wl_lock wl \<or> wl_pending wl = None \<and> \<not> False" for k
    proof (cases "k = l")
      case False
      with that D(5) obtain b where "carries (wl_lock wl) (pc b) k" by blast
      with c(1) show ?thesis by metis
    qed auto
    show "wl_lock wl = l \<or> wl_locked wl (wl_lock wl)" if "False \<or> wl_pending wl \<noteq> None" using that D(6) by blast
    show "at_least ((pc(a := p)) b) \<le> wl_lock wl" for b using D(8) l by simp
  qed simp
qed

text \<open>A call lets go of the current lock, or of another one.\<close>

lemma lock_inv_drop:
  assumes i: "lock_inv False wl pc" and c: "carries (wl_lock wl) (pc a) (wl_lock wl)" "\<And>k. \<not> carries (wl_lock wl) p k"
    and l: "at_least p \<le> wl_lock wl"
  shows "lock_inv True wl (pc(a := p))"
proof -
  note D = lock_invD [OF i]
  have e: "carries (wl_lock wl) ((pc(a := p)) b) k = (b \<noteq> a \<and> carries (wl_lock wl) (pc b) k)" for b k using c(2) by simp
  have o: "b \<noteq> a \<Longrightarrow> \<not> carries (wl_lock wl) (pc b) (wl_lock wl)" for b using D(1) c(1) by blast
  have k: "carries (wl_lock wl) (pc a) k \<Longrightarrow> k = wl_lock wl" for k using carries_lock_of c(1) by (metis option.inject)
  show ?thesis
  proof (rule lock_invI, unfold e)
    show "b = d" if "b \<noteq> a \<and> carries (wl_lock wl) (pc b) k" "d \<noteq> a \<and> carries (wl_lock wl) (pc d) k" for b d k using that D(1) by blast
    show "wl_locked wl k" if "b \<noteq> a \<and> carries (wl_lock wl) (pc b) k" for b k using that D(2) by blast
    show "wl_pending wl = None \<and> \<not> True" if "b \<noteq> a \<and> carries (wl_lock wl) (pc b) (wl_lock wl)" for b using that o by blast
    show "j \<le> wl_lock wl" if "wl_locked wl j" for j using that by (rule D(4))
    show "\<exists>b. b \<noteq> a \<and> carries (wl_lock wl) (pc b) j" if "wl_locked wl j" "j \<noteq> wl_lock wl \<or> wl_pending wl = None \<and> \<not> True" for j
      using that D(5) k by metis
    show "wl_locked wl (wl_lock wl)" using D(2) c(1) by blast
    show "wl_pending wl = None" using D(3) c(1) by blast
    show "at_least ((pc(a := p)) b) \<le> wl_lock wl" for b using D(8) l by simp
  qed
qed

lemma lock_inv_drop_old:
  assumes i: "lock_inv False wl pc" and c: "carries (wl_lock wl) (pc a) j" "j \<noteq> wl_lock wl" "\<And>k. \<not> carries (wl_lock wl) p k"
    and l: "at_least p \<le> wl_lock wl"
  shows "lock_inv False (set_locked j False wl) (pc(a := p))"
proof -
  note D = lock_invD [OF i]
  let ?w = "set_locked j False wl"
  have sel: "wl_lock ?w = wl_lock wl" "wl_pending ?w = wl_pending wl" "wl_locked ?w k = (k \<noteq> j \<and> wl_locked wl k)" for k
    by (simp_all add: set_locked_def)
  have e: "carries (wl_lock wl) ((pc(a := p)) b) k = (b \<noteq> a \<and> carries (wl_lock wl) (pc b) k)" for b k using c(3) by simp
  have k: "carries (wl_lock wl) (pc a) k \<Longrightarrow> k = j" for k using carries_lock_of c(1) by (metis option.inject)
  show ?thesis
  proof (rule lock_invI, unfold sel e)
    show "b = d" if "b \<noteq> a \<and> carries (wl_lock wl) (pc b) k" "d \<noteq> a \<and> carries (wl_lock wl) (pc d) k" for b d k using that D(1) by blast
    show "k \<noteq> j \<and> wl_locked wl k" if "b \<noteq> a \<and> carries (wl_lock wl) (pc b) k" for b k using that D(1,2) c(1) by blast
    show "wl_pending wl = None \<and> \<not> False" if "b \<noteq> a \<and> carries (wl_lock wl) (pc b) (wl_lock wl)" for b using that D(3) by blast
    show "n \<le> wl_lock wl" if "n \<noteq> j \<and> wl_locked wl n" for n using that D(4) by blast
    show "\<exists>b. b \<noteq> a \<and> carries (wl_lock wl) (pc b) n"
      if "n \<noteq> j \<and> wl_locked wl n" "n \<noteq> wl_lock wl \<or> wl_pending wl = None \<and> \<not> False" for n
      using that D(5) k by metis
    show "wl_lock wl \<noteq> j \<and> wl_locked wl (wl_lock wl)" if "False \<or> wl_pending wl \<noteq> None" using that D(6) c(2) by blast
    show "at_least ((pc(a := p)) b) \<le> wl_lock wl" for b using D(8) l by simp
  qed simp
qed

text \<open>The pending grant is taken.\<close>

lemma lock_inv_granted:
  assumes i: "lock_inv False wl pc" and w: "wl_pending wl = Some w"
    and c: "\<And>k. \<not> carries (wl_lock wl) (pc a) k" "\<And>k. carries (wl_lock wl) p k = (k = wl_lock wl)" and l: "at_least p \<le> wl_lock wl"
  shows "lock_inv False (wl\<lparr>wl_pending := None\<rparr>) (pc(a := p))"
proof -
  note D = lock_invD [OF i]
  let ?w = "wl\<lparr>wl_pending := None\<rparr>"
  have sel: "wl_lock ?w = wl_lock wl" "wl_pending ?w = None" "wl_locked ?w = wl_locked wl" by simp_all
  have e: "carries (wl_lock wl) ((pc(a := p)) b) k = (if b = a then k = wl_lock wl else carries (wl_lock wl) (pc b) k)" for b k
    using c(2) by simp
  have n: "\<not> carries (wl_lock wl) (pc b) (wl_lock wl)" for b using D(3) w by force
  have lk: "wl_locked wl (wl_lock wl)" using D(6) w by blast
  show ?thesis
  proof (rule lock_invI, unfold sel e)
    show "b = d" if "if b = a then k = wl_lock wl else carries (wl_lock wl) (pc b) k"
      "if d = a then k = wl_lock wl else carries (wl_lock wl) (pc d) k" for b d k using that n D(1) by (auto split: if_splits)
    show "wl_locked wl k" if "if b = a then k = wl_lock wl else carries (wl_lock wl) (pc b) k" for b k
      using that lk D(2) by (auto split: if_splits)
    show "k \<le> wl_lock wl" if "wl_locked wl k" for k using that by (rule D(4))
    show "\<exists>b. if b = a then k = wl_lock wl else carries (wl_lock wl) (pc b) k" if "wl_locked wl k" for k
    proof (cases "k = wl_lock wl")
      case False
      with that D(5) obtain b where "carries (wl_lock wl) (pc b) k" by blast
      with c(1) show ?thesis by metis
    qed auto
    show "at_least ((pc(a := p)) b) \<le> wl_lock wl" for b using D(8) l by simp
  qed simp_all
qed

lemma queue_inv_goto:
  assumes i: "queue_inv wl pc" and p: "waits p = waits (pc a)"
    and s: "\<And>w. awake p \<Longrightarrow> waits p = Some w \<Longrightarrow> wt_state (wl_heap wl w) = Waiting \<Longrightarrow> awake (pc a)"
  shows "queue_inv wl (pc(a := p))"
proof -
  note D = queue_invD [OF i]
  have e: "waits ((pc(a := p)) b) = waits (pc b)" for b using p by simp
  show ?thesis
  proof (rule queue_invI, unfold e)
    show "distinct (wl_waiters wl)" by (rule D(1))
    show "w \<in> set (wl_waiters wl) \<and> \<not> awake ((pc(a := p)) b)" if "waits (pc b) = Some w" "wt_state (wl_heap wl w) = Waiting" for b w
    proof (cases "b = a")
      case True
      then have "awake p \<Longrightarrow> awake (pc a)" using s [of w] that p by simp
      then show ?thesis using D(7) [OF that] True by auto
    next
      case False
      then show ?thesis using D(7) [OF that] by simp
    qed
  qed (rule D(2-6,8,9), assumption+)+
qed

lemma queue_inv_leave:
  assumes i: "queue_inv wl pc" and p: "waits p = None"
    and s: "\<And>w. waits (pc a) = Some w \<Longrightarrow> w \<notin> set (wl_waiters wl) \<and> wl_pending wl \<noteq> Some w"
  shows "queue_inv wl (pc(a := p))"
proof -
  note D = queue_invD [OF i]
  have e: "(waits ((pc(a := p)) b) = Some w) = (b \<noteq> a \<and> waits (pc b) = Some w)" for b w using p by simp
  show ?thesis
  proof (rule queue_invI, unfold e)
    show "distinct (wl_waiters wl)" by (rule D(1))
    show "\<exists>b. b \<noteq> a \<and> waits (pc b) = Some w" if "w \<in> set (wl_waiters wl) \<or> wl_pending wl = Some w" for w
      using D(3) [OF that] s that by metis
    show "w \<in> set (wl_waiters wl) \<and> \<not> awake ((pc(a := p)) b)" if "b \<noteq> a \<and> waits (pc b) = Some w" "wt_state (wl_heap wl w) = Waiting" for b w
      using D(7) that by auto
    show "b = d" if "b \<noteq> a \<and> waits (pc b) = Some w" "d \<noteq> a \<and> waits (pc d) = Some w" for b d w
      using that by (blast intro: D(5))
    show "wl_pending wl = Some w" if "b \<noteq> a \<and> waits (pc b) = Some w" "wt_state (wl_heap wl w) = Granted"
      "wt_lock (wl_heap wl w) = Some (wl_lock wl)" for b w using that D(8) by blast
    show "w < wl_next_waiter wl" if "b \<noteq> a \<and> waits (pc b) = Some w" for b w using that D(6) by blast
  qed (rule D(2,4,9), assumption+)+
qed

lemma counted_upd:
  assumes "finite {a. pc a \<noteq> Idle}"
  shows "int (card {b. counted ((pc(a := p)) b)}) = int (card {b. counted (pc b)}) - of_bool (counted (pc a)) + of_bool (counted p)"
    and "finite {b. (pc(a := p)) b \<noteq> Idle}"
proof -
  let ?C = "{b. counted (pc b)}"
  have f: "finite ?C" by (rule finite_subset [OF _ assms]) auto
  have e: "{b. counted ((pc(a := p)) b)} = (if counted p then insert a (?C - {a}) else ?C - {a})" by auto
  have "int (card (?C - {a})) = int (card ?C) - of_bool (counted (pc a))"
  proof (cases "a \<in> ?C")
    case True
    from card.remove [OF f True] True show ?thesis by simp
  qed simp
  with f show "int (card {b. counted ((pc(a := p)) b)}) = int (card ?C) - of_bool (counted (pc a)) + of_bool (counted p)"
    unfolding e by (simp add: card_insert_if)
  show "finite {b. (pc(a := p)) b \<noteq> Idle}"
    by (rule finite_subset [of _ "insert a {b. pc b \<noteq> Idle}"]) (use assms in auto)
qed

lemma count_inv_goto:
  assumes "count_inv wl pc" and "wl_sync_waiting wl' = wl_sync_waiting wl - of_bool (counted (pc a)) + of_bool (counted p)"
  shows "count_inv wl' (pc(a := p))"
  using assms counted_upd [of pc a p] by (simp add: count_inv_def)

lemma owner_inv_goto:
  assumes i: "owner_inv wl pc me" and r: "recorded (wl_lock wl) p = recorded (wl_lock wl) (pc a)"
    and s: "since_of p = None \<or> since_of p = since_of (pc a) \<or> since_of p = Some (wl_hold wl) \<and> \<not> recorded (wl_lock wl) p"
    and c: "in_call p \<Longrightarrow> in_call (pc a)"
    and t: "\<And>ws q rs. p = Slot ws (Some q) rs \<Longrightarrow> \<exists>vs rs'. pc a = Slot vs (Some q) rs' \<and> ws_lock vs = ws_lock ws"
  shows "owner_inv wl (pc(a := p)) me"
proof -
  note D = owner_invD [OF i]
  let ?q = "pc(a := p)"
  have rec: "recorded (wl_lock wl) (?q b) = recorded (wl_lock wl) (pc b)" for b using r by simp
  have since: "since_of (pc b) = Some x \<or> b = a \<and> x = wl_hold wl \<and> \<not> recorded (wl_lock wl) (pc b)" if "since_of (?q b) = Some x" for b x
    using that s r by (auto split: if_splits)
  have call: "in_call (pc b)" if "in_call (?q b)" for b using that c by (auto split: if_splits)
  have slot: "\<exists>vs rs'. pc b = Slot vs (Some q) rs' \<and> ws_lock vs = wl_lock wl" if "?q b = Slot ws (Some q) rs" "ws_lock ws = wl_lock wl" for b ws q rs
    using that t [of ws q rs] by (cases "b = a") auto
  show ?thesis unfolding owner_inv_def
  proof (intro conjI allI impI)
    show "(wl_owner wl \<noteq> None) = (\<exists>b. recorded (wl_lock wl) (?q b))" using D(1) rec by simp
    show "(wl_owner wl = None) = (wl_hold wl = None)" by (rule D(2))
    show "h < wl_next_hold wl" if "wl_hold wl = Some h" for h using that by (rule D(3))
    show "h < wl_next_hold wl" if "since_of (?q b) = Some (Some h)" for b h using since [OF that] D(3,4) by metis
    show "if recorded (wl_lock wl) (?q b) then wl_owner wl = Some (me b) \<and> wl_hold wl \<noteq> x
        else wl_owner wl = Some (me b) \<longrightarrow> wl_hold wl = x" if "since_of (?q b) = Some x" for b x
    proof (cases "since_of (pc b) = Some x")
      case True
      from D(5) [OF this] show ?thesis unfolding rec .
    next
      case False
      with since [OF that] have "x = wl_hold wl" "\<not> recorded (wl_lock wl) (pc b)" by blast+
      then show ?thesis unfolding rec by simp
    qed
    fix b ws q rs assume sl: "?q b = Slot ws (Some q) rs" "ws_lock ws = wl_lock wl"
    from slot [OF this] obtain vs rs' where "pc b = Slot vs (Some q) rs'" "ws_lock vs = wl_lock wl" by blast
    note S = D(6) [OF this]
    show "q \<noteq> None" using S by blast
    show "wl_hold wl = x" if "since_of (?q d) = Some x" "q = Some (me d)" for d x using since [OF that(1)] S that(2) by blast
  next
    show "b = d" if "in_call (?q b)" "in_call (?q d)" "me b = me d" for b d using D(7) call that by blast
  qed
qed

text \<open>A call gets a hold while there is none.\<close>

lemma owner_inv_record:
  assumes i: "owner_inv wl pc me" and n: "\<And>b. \<not> recorded (wl_lock wl) (pc b)" and r: "recorded (wl_lock wl) p"
    and s: "since_of p = None \<or> since_of p = since_of (pc a)" and c: "in_call (pc a)" and t: "\<And>ws tx rs. p \<noteq> Slot ws tx rs"
  shows "owner_inv (record_hold (me a) wl) (pc(a := p)) me"
proof -
  note D = owner_invD [OF i]
  let ?q = "pc(a := p)" and ?w = "record_hold (me a) wl"
  have sel: "wl_lock ?w = wl_lock wl" "wl_owner ?w = Some (me a)" "wl_hold ?w = Some (wl_next_hold wl)" "wl_next_hold ?w = Suc (wl_next_hold wl)"
    by (simp_all add: record_hold_def)
  have rec: "recorded (wl_lock wl) (?q b) = (b = a)" for b using n r by simp
  have since: "since_of (pc b) = Some x" if "since_of (?q b) = Some x" for b x using that s by (auto split: if_splits)
  have lt: "h < wl_next_hold wl" if "since_of (?q b) = Some (Some h)" for b h using D(4) since [OF that] .
  show ?thesis unfolding owner_inv_def sel
  proof (intro conjI allI impI)
    show "(Some (me a) \<noteq> None) = (\<exists>b. recorded (wl_lock wl) (?q b))" using rec by simp
    show "h < Suc (wl_next_hold wl)" if "Some (wl_next_hold wl) = Some h" for h using that by simp
    show "h < Suc (wl_next_hold wl)" if "since_of (?q b) = Some (Some h)" for b h using lt [OF that] by simp
    show "if recorded (wl_lock wl) (?q b) then Some (me a) = Some (me b) \<and> Some (wl_next_hold wl) \<noteq> x
        else Some (me a) = Some (me b) \<longrightarrow> Some (wl_next_hold wl) = x" if x: "since_of (?q b) = Some x" for b x
    proof (cases "b = a")
      case True
      with r lt [of b] x show ?thesis by (cases x) auto
    next
      case False
      with D(7) [of a b] c since_in_call [OF since [OF x]] have "me a \<noteq> me b" by metis
      moreover have "\<not> recorded (wl_lock wl) (?q b)" using rec [of b] False by blast
      ultimately show ?thesis by simp
    qed
    fix b ws q rs assume sl: "?q b = Slot ws (Some q) rs" "ws_lock ws = wl_lock wl"
    then have "recorded (wl_lock wl) (?q b)" by simp
    with rec have "b = a" by blast
    with sl t show "q \<noteq> None" "Some (wl_next_hold wl) = x" for x by simp_all
  next
    have "in_call (pc b)" if "in_call (?q b)" for b using that c by (auto split: if_splits)
    then show "b = d" if "in_call (?q b)" "in_call (?q d)" "me b = me d" for b d using D(7) that by blast
  qed simp_all
qed

text \<open>The only holder lets go.\<close>

lemma owner_inv_drop:
  assumes i: "owner_inv wl pc me" and n: "\<And>b. recorded (wl_lock wl) (pc b) \<Longrightarrow> b = a" and r: "\<not> recorded (wl_lock wl) p"
    and s: "since_of p = None" and c: "in_call p \<Longrightarrow> in_call (pc a)"
  shows "owner_inv (wl\<lparr>wl_owner := None, wl_hold := None\<rparr>) (pc(a := p)) me"
proof -
  note D = owner_invD [OF i]
  let ?q = "pc(a := p)" and ?w = "wl\<lparr>wl_owner := None, wl_hold := None\<rparr>"
  have sel: "wl_lock ?w = wl_lock wl" "wl_owner ?w = None" "wl_hold ?w = None" "wl_next_hold ?w = wl_next_hold wl" by simp_all
  have rec: "\<not> recorded (wl_lock wl) (?q b)" for b using n r by auto
  have since: "since_of (pc b) = Some x" if "since_of (?q b) = Some x" for b x using that s by (auto split: if_splits)
  show ?thesis unfolding owner_inv_def sel
  proof (intro conjI allI impI)
    show "(None \<noteq> None) = (\<exists>b. recorded (wl_lock wl) (?q b))" using rec by simp
    show "h < wl_next_hold wl" if "since_of (?q b) = Some (Some h)" for b h using D(4) since [OF that] .
    show "if recorded (wl_lock wl) (?q b) then None = Some (me b) \<and> None \<noteq> x else None = Some (me b) \<longrightarrow> None = x" for b x
      using rec by simp
    fix b ws q rs assume "?q b = Slot ws (Some q) rs" "ws_lock ws = wl_lock wl"
    then have "recorded (wl_lock wl) (?q b)" by simp
    with rec show "q \<noteq> None" "None = x" for x by blast+
  next
    have "in_call (pc b)" if "in_call (?q b)" for b using that c by (auto split: if_splits)
    then show "b = d" if "in_call (?q b)" "in_call (?q d)" "me b = me d" for b d using D(7) that by blast
    show "(None = None) = (None = None)" by simp
    show "h < wl_next_hold wl" if "None = Some h" for h using that by (rule option.distinct(1) [THEN notE])
  qed
qed

text \<open>A transaction takes a reserved slot, or gives it back.\<close>

lemma owner_inv_slot:
  assumes i: "owner_inv wl pc me" and n: "\<And>b. recorded (wl_lock wl) (pc b) \<Longrightarrow> b = a" and r: "recorded (wl_lock wl) (pc a)"
    and p: "p = Slot ws tx rs" "recorded (wl_lock wl) p"
    and m: "\<And>b x. since_of (pc b) = Some x \<Longrightarrow> me b = m \<Longrightarrow> wl_hold wl = x"
    and t: "\<And>q. tx = Some q \<Longrightarrow> q = wl_owner wl"
  shows "owner_inv (wl\<lparr>wl_owner := Some m\<rparr>) (pc(a := p)) me"
proof -
  note D = owner_invD [OF i]
  let ?q = "pc(a := p)" and ?w = "wl\<lparr>wl_owner := Some m\<rparr>"
  have sel: "wl_lock ?w = wl_lock wl" "wl_owner ?w = Some m" "wl_hold ?w = wl_hold wl" "wl_next_hold ?w = wl_next_hold wl" by simp_all
  have o: "wl_owner wl \<noteq> None" using D(1) r by blast
  have rec: "recorded (wl_lock wl) (?q b) = (b = a)" for b using n p(2) by auto
  have since: "b \<noteq> a \<and> since_of (pc b) = Some x" if "since_of (?q b) = Some x" for b x using that p(1) by (auto split: if_splits)
  show ?thesis unfolding owner_inv_def sel
  proof (intro conjI allI impI)
    show "(Some m \<noteq> None) = (\<exists>b. recorded (wl_lock wl) (?q b))" using rec by simp
    show "(Some m = None) = (wl_hold wl = None)" using D(2) o by simp
    show "h < wl_next_hold wl" if "wl_hold wl = Some h" for h using that by (rule D(3))
    show "h < wl_next_hold wl" if "since_of (?q b) = Some (Some h)" for b h using D(4) since [OF that] by blast
    show "if recorded (wl_lock wl) (?q b) then Some m = Some (me b) \<and> wl_hold wl \<noteq> x else Some m = Some (me b) \<longrightarrow> wl_hold wl = x"
      if "since_of (?q b) = Some x" for b x
    proof -
      from since [OF that] rec have "\<not> recorded (wl_lock wl) (?q b)" "since_of (pc b) = Some x" by blast+
      then show ?thesis using m [of b x] by simp
    qed
    fix b vs v rs' assume sl: "?q b = Slot vs (Some v) rs'" "ws_lock vs = wl_lock wl"
    then have "recorded (wl_lock wl) (?q b)" by simp
    with rec have "b = a" by blast
    with sl(1) p(1) have "tx = Some v" by simp
    with t have v: "v = wl_owner wl" by simp
    with o show "v \<noteq> None" by simp
    show "wl_hold wl = x" if "since_of (?q d) = Some x" "v = Some (me d)" for d x
      using D(5) [of d x] since [OF that(1)] n that(2) v by (auto split: if_splits)
  next
    have "in_call (pc b)" if "in_call (?q b)" for b using that p(1) by (auto split: if_splits)
    then show "b = d" if "in_call (?q b)" "in_call (?q d)" "me b = me d" for b d using D(7) that by blast
  qed
qed

section \<open>Steps\<close>

definition slot_inv :: "slot_sys \<Rightarrow> bool" where
  "slot_inv s \<longleftrightarrow> lock_inv False (sy_lock s) (sy_pc s) \<and> owner_inv (sy_lock s) (sy_pc s) (sy_me s) \<and>
     queue_inv (sy_lock s) (sy_pc s) \<and> count_inv (sy_lock s) (sy_pc s) \<and> attended (sy_lock s) \<and> (\<forall>a. slot_shape (sy_pc s a))"

lemma goto_sel [simp]: "sy_lock (goto a p wl s) = wl" "sy_pc (goto a p wl s) = (sy_pc s)(a := p)" "sy_me (goto a p wl s) = sy_me s"
  by (simp_all add: goto_def)

lemma slot_invI:
  assumes "lock_inv False (sy_lock s) (sy_pc s)" and "owner_inv (sy_lock s) (sy_pc s) (sy_me s)"
    and "queue_inv (sy_lock s) (sy_pc s)" and "count_inv (sy_lock s) (sy_pc s)" and "attended (sy_lock s)"
    and "\<And>a. slot_shape (sy_pc s a)"
  shows "slot_inv s"
  using assms by (simp add: slot_inv_def)

lemma slot_invD:
  assumes "slot_inv s"
  shows "lock_inv False (sy_lock s) (sy_pc s)" and "owner_inv (sy_lock s) (sy_pc s) (sy_me s)"
    and "queue_inv (sy_lock s) (sy_pc s)" and "count_inv (sy_lock s) (sy_pc s)" and "attended (sy_lock s)"
    and "slot_shape (sy_pc s a)"
  using assms by (simp_all add: slot_inv_def)

lemma slot_inv_gotoI:
  assumes "slot_inv s" and "lock_inv False wl ((sy_pc s)(a := p))" and "owner_inv wl ((sy_pc s)(a := p)) (sy_me s)"
    and "queue_inv wl ((sy_pc s)(a := p))" and "count_inv wl ((sy_pc s)(a := p))" and "attended wl" and "slot_shape p"
  shows "slot_inv (goto a p wl s)"
  by (rule slot_invI; unfold goto_sel) (use assms slot_invD(6) [OF assms(1)] in simp_all)

text \<open>A step that only moves the call.\<close>

lemma slot_inv_goto:
  assumes "slot_inv s" and "sy_pc s a = q0" and "\<And>k. carries (wl_lock (sy_lock s)) p k = carries (wl_lock (sy_lock s)) q0 k"
    and "recorded (wl_lock (sy_lock s)) p = recorded (wl_lock (sy_lock s)) q0"
    and "at_least p \<le> wl_lock (sy_lock s)" and "waits p = waits q0" and "counted p = counted q0"
    and "\<And>w. awake p \<Longrightarrow> waits p = Some w \<Longrightarrow> wt_state (wl_heap (sy_lock s) w) = Waiting \<Longrightarrow> awake q0"
    and "since_of p = None \<or> since_of p = since_of q0 \<or> since_of p = Some (wl_hold (sy_lock s)) \<and> \<not> recorded (wl_lock (sy_lock s)) p"
    and "in_call p \<Longrightarrow> in_call q0" and "\<And>ws q rs. p = Slot ws (Some q) rs \<Longrightarrow> \<exists>vs rs'. q0 = Slot vs (Some q) rs' \<and> ws_lock vs = ws_lock ws"
    and "slot_shape p"
  shows "slot_inv (goto a p (sy_lock s) s)"
proof (rule slot_inv_gotoI [OF assms(1)])
  note I = slot_invD [OF assms(1)]
  show "lock_inv False (sy_lock s) ((sy_pc s)(a := p))" by (rule lock_inv_goto [OF I(1)]) (use assms in auto)
  show "owner_inv (sy_lock s) ((sy_pc s)(a := p)) (sy_me s)" by (rule owner_inv_goto [OF I(2)]) (use assms in auto)
  show "queue_inv (sy_lock s) ((sy_pc s)(a := p))" by (rule queue_inv_goto [OF I(3)]) (use assms in auto)
  show "count_inv (sy_lock s) ((sy_pc s)(a := p))" by (rule count_inv_goto [OF I(4)]) (use assms in auto)
  show "attended (sy_lock s)" by (rule I(5))
  show "slot_shape p" by (rule assms(12))
qed

end
