(* ===== verification/Write_Slot_Run.thy ===== *)
theory Write_Slot_Run
  imports Write_Slot_Steps
begin

text \<open>The writer slot in every reachable state: each kind of step keeps the invariant.\<close>

section \<open>Sections of a call\<close>

lemma owner_inv_other:
  "owner_inv (wl\<lparr>wl_sync_waiting := n\<rparr>) pc me = owner_inv wl pc me"
  "owner_inv (set_locked l b wl) pc me = owner_inv wl pc me"
  "owner_inv (wl\<lparr>wl_pending := x\<rparr>) pc me = owner_inv wl pc me"
  "owner_inv (wl\<lparr>wl_waiters := ws\<rparr>) pc me = owner_inv wl pc me"
  "owner_inv (enqueue wl) pc me = owner_inv wl pc me"
  by (simp_all add: owner_inv_def set_locked_def enqueue_def)

lemma lock_inv_other:
  "lock_inv h (wl\<lparr>wl_owner := x, wl_hold := y\<rparr>) pc = lock_inv h wl pc"
  "lock_inv h (wl\<lparr>wl_owner := x\<rparr>) pc = lock_inv h wl pc"
  "lock_inv h (record_hold m wl) pc = lock_inv h wl pc"
  "lock_inv h (enqueue wl) pc = lock_inv h wl pc"
  by (simp_all add: lock_inv_def record_hold_def enqueue_def)

lemma queue_inv_other:
  "queue_inv (wl\<lparr>wl_owner := x, wl_hold := y\<rparr>) pc = queue_inv wl pc"
  "queue_inv (wl\<lparr>wl_owner := x\<rparr>) pc = queue_inv wl pc"
  "queue_inv (record_hold m wl) pc = queue_inv wl pc"
  by (simp_all add: queue_inv_def record_hold_def)

text \<open>A section that changes the queue and the count, with the move of its call.\<close>

lemma slot_inv_section:
  assumes "slot_inv s" and "sy_pc s a = q0" and "framed ((sy_lock s)\<lparr>wl_sync_waiting := n\<rparr>) wl"
    and "lock_inv False wl ((sy_pc s)(a := p))" and "queue_inv wl ((sy_pc s)(a := p))" and "attended wl"
    and "n = wl_sync_waiting (sy_lock s) - of_bool (counted q0) + of_bool (counted p)"
    and "recorded (wl_lock (sy_lock s)) p = recorded (wl_lock (sy_lock s)) q0"
    and "since_of p = None \<or> since_of p = since_of q0" and "in_call p \<Longrightarrow> in_call q0" and "\<And>ws tx rs. p \<noteq> Slot ws tx rs"
  shows "slot_inv (goto a p wl s)"
proof (rule slot_inv_gotoI [OF assms(1)])
  note I = slot_invD [OF assms(1)]
  let ?v = "(sy_lock s)\<lparr>wl_sync_waiting := n\<rparr>"
  have "owner_inv (sy_lock s) ((sy_pc s)(a := p)) (sy_me s)" 
  proof (rule owner_inv_goto [OF I(2)], unfold assms(2))
    show "in_call p \<Longrightarrow> in_call q0" by (rule assms(10))
    show "\<exists>vs rs'. q0 = Slot vs (Some q) rs' \<and> ws_lock vs = ws_lock ws" if "p = Slot ws (Some q) rs" for ws q rs
      using assms(11) that by blast
  qed (use assms(8,9) in blast)+
  then have "owner_inv ?v ((sy_pc s)(a := p)) (sy_me s)" unfolding owner_inv_other .
  then show "owner_inv wl ((sy_pc s)(a := p)) (sy_me s)" using framed_owner_inv [OF assms(3)] by simp
  have "wl_sync_waiting wl = n" using assms(3) by (simp add: framed_def)
  then show "count_inv wl ((sy_pc s)(a := p))" by (intro count_inv_goto [OF I(4)]) (use assms(2,7) in simp)
  show "slot_shape p" by (rule slot_shapeI) (rule assms(11))
qed (rule assms)+

lemma framed_sync: "framed wl v \<Longrightarrow> framed (wl\<lparr>wl_sync_waiting := n\<rparr>) (v\<lparr>wl_sync_waiting := n\<rparr>)"
  by (simp add: framed_def)

lemma slot_inv_acq_wait:
  assumes s: "slot_inv s" and p: "sy_pc s a = Acq_Wait" and f: "start_wait lp (sy_lock s) = (r, wl)"
  shows "slot_inv (goto a (after r (\<lambda>_. Blocked (wl_lock (sy_lock s)))) wl s)"
proof -
  note I = slot_invD [OF s]
  obtain r1 v where v: "reclaim_dead_pending lp (sy_lock s) = (r1, v)" by (cases "reclaim_dead_pending lp (sy_lock s)")
  note R = reclaim_inv [OF I(1,3) v] and F = framed_reclaim [OF v]
  have e: "r = Inr ()" "wl = v\<lparr>wl_sync_waiting := wl_sync_waiting v + 1\<rparr>" using f v R(1) by (simp_all add: start_wait_def seq_def)
  have l: "wl_lock v = wl_lock (sy_lock s)" "wl_sync_waiting v = wl_sync_waiting (sy_lock s)" using F by (simp_all add: framed_def)
  have "slot_inv (goto a (Blocked (wl_lock (sy_lock s))) wl s)"
  proof (rule slot_inv_section [OF s p])
    show "framed ((sy_lock s)\<lparr>wl_sync_waiting := wl_sync_waiting (sy_lock s) + 1\<rparr>) wl"
      unfolding e(2) l using framed_sync [OF F] by simp
    show "lock_inv False wl ((sy_pc s)(a := Blocked (wl_lock (sy_lock s))))" unfolding e(2) lock_inv_heap
      by (rule lock_inv_goto [OF R(2)]) (simp_all add: carries_def l p)
    show "queue_inv wl ((sy_pc s)(a := Blocked (wl_lock (sy_lock s))))" unfolding e(2) queue_inv_locked
      by (rule queue_inv_goto [OF R(3)]) (simp_all add: p)
    show "attended wl" using R(4) [OF I(5)] I(4) l by (auto simp: e(2) attended_def count_inv_def)
  qed simp_all
  then show ?thesis by (simp add: e(1))
qed

text \<open>A thread that stops waiting, for whatever reason.\<close>

lemma slot_inv_stop:
  assumes s: "slot_inv s" and p: "sy_pc s a = q0" "counted q0" "\<And>k. \<not> carries (wl_lock (sy_lock s)) q0 k" "waits q0 = None"
    and f: "stop_wait lp (sy_lock s) = (r, wl)"
  shows "r = Inr () \<and> slot_inv (goto a (Failed e) wl s)"
proof -
  note I = slot_invD [OF s]
  let ?n = "wl_sync_waiting (sy_lock s) - 1" let ?u = "(sy_lock s)\<lparr>wl_sync_waiting := ?n\<rparr>"
  obtain r1 v where v: "reclaim_dead_pending lp ?u = (r1, v)" by (cases "reclaim_dead_pending lp ?u")
  have "lock_inv False ?u (sy_pc s)" "queue_inv ?u (sy_pc s)" using I(1,3) by (simp_all add: lock_inv_heap queue_inv_locked)
  note R = reclaim_inv [OF this v] and F = framed_reclaim [OF v]
  have w: "rescue_queue lp v = (r, wl)" using f v R(1) by (simp add: stop_wait_def seq_def)
  note S = rescue_inv [OF R(2,3) w] and G = framed_trans [OF F framed_rescue [OF w]]
  have l: "wl_lock wl = wl_lock (sy_lock s)" using G by (simp add: framed_def)
  have nr: "\<not> recorded (wl_lock (sy_lock s)) q0" using p(3) by (auto simp: carries_def)
  have "slot_inv (goto a (Failed e) wl s)"
  proof (rule slot_inv_section [OF s p(1) G])
    show "lock_inv False wl ((sy_pc s)(a := Failed e))" by (rule lock_inv_goto [OF S(2)]) (use p(1,3) in \<open>simp_all add: l carries_def\<close>)
    show "queue_inv wl ((sy_pc s)(a := Failed e))" by (rule queue_inv_goto [OF S(3)]) (simp_all add: p)
    show "attended wl" by (rule S(4))
    show "?n = wl_sync_waiting (sy_lock s) - of_bool (counted q0) + of_bool (counted (Failed e))" using p(2) by simp
    show "recorded (wl_lock (sy_lock s)) (Failed e) = recorded (wl_lock (sy_lock s)) q0" using nr by simp
  qed simp_all
  with S(1) show ?thesis by simp
qed

text \<open>A thread takes a free lock.\<close>

lemma slot_inv_take:
  assumes s: "slot_inv s" and p: "sy_pc s a = q0" "lock_of q0 = Some l" "\<And>k. \<not> carries (wl_lock (sy_lock s)) q0 k" "waits q0 = None"
    and u: "\<not> wl_locked (sy_lock s) l"
    and q: "\<And>k. carries (wl_lock (sy_lock s)) p k = (k = l)" "at_least p = l" "waits p = None" "counted p = counted q0" "since_of p = None"
      "in_call q0" "\<not> recorded (wl_lock (sy_lock s)) p" "\<And>ws tx rs. p \<noteq> Slot ws tx rs"
  shows "slot_inv (goto a p (set_locked l True (sy_lock s)) s)"
proof (rule slot_inv_gotoI [OF s]; (unfold owner_inv_other queue_inv_locked)?)
  note I = slot_invD [OF s]
  have l: "l \<le> wl_lock (sy_lock s)" using lock_of_at_least [OF p(2)] lock_invD(8) [OF I(1), of a] p(1) by simp
  show "lock_inv False (set_locked l True (sy_lock s)) ((sy_pc s)(a := p))"
    by (rule lock_inv_take [OF I(1) u l]; (unfold p(1) q(2))?; rule p(3) q(1) l)
  have "\<not> recorded (wl_lock (sy_lock s)) q0" using p(3) by (auto simp: carries_def)
  then show "owner_inv (sy_lock s) ((sy_pc s)(a := p)) (sy_me s)"
    by (intro owner_inv_goto [OF I(2)]) (use p(1) q in simp_all)
  show "queue_inv (sy_lock s) ((sy_pc s)(a := p))" by (rule queue_inv_goto [OF I(3)]) (use p q(3) in simp_all)
  show "count_inv (set_locked l True (sy_lock s)) ((sy_pc s)(a := p))"
    by (rule count_inv_goto [OF I(4)]) (use p(1) q(4) in \<open>simp add: set_locked_def\<close>)
  show "attended (set_locked l True (sy_lock s))" using I(5) by (auto simp: attended_def set_locked_def)
  show "slot_shape p" by (rule slot_shapeI) (rule q(8))
qed

text \<open>The holder of the current lock lets go.\<close>

lemma recorded_carries: "recorded c p \<Longrightarrow> carries c p c"
  by (simp add: carries_def)

lemma recorded_unique:
  assumes "lock_inv h wl pc" and "recorded (wl_lock wl) (pc a)" and "recorded (wl_lock wl) (pc b)"
  shows "b = a"
  by (rule lock_invD(1) [OF assms(1)]; rule recorded_carries; rule assms)

lemma slot_inv_drop:
  assumes s: "slot_inv s" and p: "sy_pc s a = q0" "recorded (wl_lock (sy_lock s)) q0"
    and q: "\<And>k. \<not> carries (wl_lock (sy_lock s)) p k" "at_least p \<le> wl_lock (sy_lock s)" "waits p = waits q0" "\<not> awake p"
      "counted p = counted q0" "since_of p = None" "in_call p \<Longrightarrow> in_call q0" "slot_shape p"
    and f: "release_locked lp ((sy_lock s)\<lparr>wl_owner := None, wl_hold := None\<rparr>) = (r, wl)"
  shows "r = Inr () \<and> slot_inv (goto a p wl s)"
proof -
  note I = slot_invD [OF s]
  let ?u = "(sy_lock s)\<lparr>wl_owner := None, wl_hold := None\<rparr>" and ?q = "(sy_pc s)(a := p)"
  note F = framed_release_locked [OF f]
  have "lock_inv True (sy_lock s) ?q" by (rule lock_inv_drop [OF I(1)]) (use p q(1,2) in \<open>simp_all add: carries_def\<close>)
  then have u: "lock_inv True ?u ?q" by (simp only: lock_inv_other)
  have "queue_inv (sy_lock s) ?q" by (rule queue_inv_goto [OF I(3)]) (use p(1) q(3,4) in simp_all)
  then have "queue_inv ?u ?q" by (simp only: queue_inv_other)
  note R = release_locked_inv [OF u this f]
  have "owner_inv ?u ?q (sy_me s)"
  proof (rule owner_inv_drop [OF I(2)])
    show "b = a" if "recorded (wl_lock (sy_lock s)) (sy_pc s b)" for b
      by (rule recorded_unique [OF I(1) _ that]) (use p in simp)
    show "\<not> recorded (wl_lock (sy_lock s)) p" using q(1) by (auto simp: carries_def)
  qed (use p(1) q(6,7) in simp_all)
  then have o: "owner_inv wl ?q (sy_me s)" unfolding framed_owner_inv [OF F] .
  have "wl_sync_waiting wl = wl_sync_waiting (sy_lock s)" using F by (simp add: framed_def)
  then have "count_inv wl ?q" by (intro count_inv_goto [OF I(4)]) (use p(1) q(5) in simp)
  then have "slot_inv (goto a p wl s)" by (intro slot_inv_gotoI [OF s]) (use R o q(8) in simp_all)
  with R(1) show ?thesis by simp
qed

text \<open>\<open>release\<close> with the lock a call kept.\<close>

lemma slot_inv_release:
  assumes s: "slot_inv s" and p: "sy_pc s a = q0" "recorded (wl_lock (sy_lock s)) q0 = (l = wl_lock (sy_lock s))" "\<And>k. \<not> bare q0 k"
    "waits q0 = None" "counted q0 = False"
    and q: "\<And>k. \<not> carries (wl_lock (sy_lock s)) p k" "at_least p \<le> wl_lock (sy_lock s)" "waits p = None" "counted p = False"
      "since_of p = None" "\<not> in_call p" "\<And>ws x rs. p \<noteq> Slot ws (Some x) rs" "\<not> awake p" "slot_shape p"
    and f: "slot_release lp (Some l) (sy_lock s) = (r, wl)"
  shows "r = Inr () \<and> slot_inv (goto a p wl s)"
proof (cases "l = wl_lock (sy_lock s)")
  case True
  have "wl_locked (sy_lock s) (wl_lock (sy_lock s))"
    by (rule lock_invD(2) [OF slot_invD(1) [OF s], of a]) (use p True in \<open>simp add: carries_def\<close>)
  with f True have "release_locked lp ((sy_lock s)\<lparr>wl_owner := None, wl_hold := None\<rparr>) = (r, wl)" by (simp add: slot_release_def)
  then show ?thesis by (intro slot_inv_drop [OF s p(1)]) (use p q True in simp_all)
next
  case False
  with f have e: "r = Inr ()" "wl = sy_lock s" by (auto simp: slot_release_def)
  have "\<not> recorded (wl_lock (sy_lock s)) p" using q(1) by (auto simp: carries_def)
  then have "slot_inv (goto a p (sy_lock s) s)" by (intro slot_inv_goto [OF s p(1)]) (use p q False in \<open>auto simp: carries_def\<close>)
  with e show ?thesis by simp
qed

text \<open>An interrupted thread gives the slot back, if the lock it got is still the slot.\<close>

lemma slot_inv_unwind:
  assumes s: "slot_inv s" and p: "sy_pc s a = Interrupted l got" and l: "got \<Longrightarrow> l = wl_lock (sy_lock s)"
    and f: "unwind_wait lp got (sy_lock s) = (r, wl)"
  shows "r = Inr () \<and> slot_inv (goto a (Failed e) wl s)"
proof (cases got)
  case False
  with f have "stop_wait lp (sy_lock s) = (r, wl)" by (simp add: unwind_wait_def)
  then show ?thesis by (intro slot_inv_stop [OF s p]) (use False in \<open>simp_all add: carries_def\<close>)
next
  case True
  note I = slot_invD [OF s]
  let ?u = "(sy_lock s)\<lparr>wl_sync_waiting := wl_sync_waiting (sy_lock s) - 1\<rparr>" and ?q = "(sy_pc s)(a := Failed e)"
  have f: "release_locked lp ?u = (r, wl)" using f True by (simp add: unwind_wait_def)
  have "lock_inv True (sy_lock s) ?q" by (rule lock_inv_drop [OF I(1)]) (use p True l in \<open>simp_all add: carries_def\<close>)
  then have u: "lock_inv True ?u ?q" by (simp only: lock_inv_heap)
  have "queue_inv (sy_lock s) ?q" by (rule queue_inv_goto [OF I(3)]) (use p in simp_all)
  then have "queue_inv ?u ?q" by (simp only: queue_inv_locked)
  note R = release_locked_inv [OF u this f]
  have "slot_inv (goto a (Failed e) wl s)"
    by (rule slot_inv_section [OF s p framed_release_locked [OF f] R(2,3,4)]) simp_all
  with R(1) show ?thesis by simp
qed

section \<open>Getting the slot\<close>

lemma no_hold:
  assumes "lock_inv h wl pc" and "\<not> recorded (wl_lock wl) (pc a)" and "carries (wl_lock wl) (pc a) (wl_lock wl) \<or> \<not> wl_locked wl (wl_lock wl) \<or> wl_pending wl \<noteq> None"
  shows "\<not> recorded (wl_lock wl) (pc b)"
proof
  assume "recorded (wl_lock wl) (pc b)"
  note c = recorded_carries [OF this]
  with assms(3) lock_invD(2) [OF assms(1) c] lock_invD(3) [OF assms(1) c] have "carries (wl_lock wl) (pc a) (wl_lock wl)" by auto
  from lock_invD(1) [OF assms(1) c this] assms(2) \<open>recorded (wl_lock wl) (pc b)\<close> show False by simp
qed

lemma slot_inv_record:
  assumes s: "slot_inv s" and p: "sy_pc s a = Took l waited" and f: "held_by lp (sy_me s a) l waited (sy_lock s) = (r, wl)"
  shows "slot_inv (goto a (after r (\<lambda>ok. if ok then Holding l else Lost l)) wl s)"
proof -
  note I = slot_invD [OF s]
  let ?n = "wl_sync_waiting (sy_lock s) - of_bool waited"
  let ?u = "if waited then (sy_lock s)\<lparr>wl_sync_waiting := wl_sync_waiting (sy_lock s) - 1\<rparr> else sy_lock s"
  have u: "?u = (sy_lock s)\<lparr>wl_sync_waiting := ?n\<rparr>" by simp
  have lu: "wl_lock ?u = wl_lock (sy_lock s)" by simp
  show ?thesis
  proof (cases "l = wl_lock (sy_lock s)")
    case True
    have e: "r = Inr True" "wl = record_hold (sy_me s a) ((sy_lock s)\<lparr>wl_sync_waiting := ?n\<rparr>)"
      using f True by (auto simp: held_by_def Let_def split: if_splits)
    have n: "\<not> recorded (wl_lock (sy_lock s)) (sy_pc s b)" for b
      by (rule no_hold [OF I(1), of a]) (simp_all add: p carries_def True)
    have "slot_inv (goto a (Holding l) wl s)"
    proof (rule slot_inv_gotoI [OF s])
      show "lock_inv False wl ((sy_pc s)(a := Holding l))" unfolding e(2) lock_inv_other lock_inv_heap
        by (rule lock_inv_goto [OF I(1)]) (auto simp: p carries_def True)
      have "owner_inv ((sy_lock s)\<lparr>wl_sync_waiting := ?n\<rparr>) (sy_pc s) (sy_me s)" using I(2) unfolding owner_inv_other .
      then show "owner_inv wl ((sy_pc s)(a := Holding l)) (sy_me s)" unfolding e(2)
        by (rule owner_inv_record) (use n p True in simp_all)
      show "queue_inv wl ((sy_pc s)(a := Holding l))" unfolding e(2) queue_inv_other queue_inv_locked
        by (rule queue_inv_goto [OF I(3)]) (simp_all add: p)
      show "count_inv wl ((sy_pc s)(a := Holding l))" by (rule count_inv_goto [OF I(4)]) (simp add: e(2) p record_hold_def)
      have "wl_locked (sy_lock s) l" by (rule lock_invD(2) [OF I(1), of a]) (simp add: p carries_def)
      then show "attended wl" unfolding e(2) by (simp add: attended_def record_hold_def True)
    qed simp
    with e(1) show ?thesis by simp
  next
    case False
    obtain r1 v where v: "(if waited then rescue_queue lp ?u else (Inr (), ?u)) = (r1, v)" by fastforce
    have i: "lock_inv False ?u (sy_pc s)" "queue_inv ?u (sy_pc s)" using I(1,3) unfolding u lock_inv_heap queue_inv_locked .
    have R: "r1 = Inr () \<and> lock_inv False v (sy_pc s) \<and> queue_inv v (sy_pc s) \<and> attended v \<and> framed ?u v"
    proof (cases waited)
      case True
      with v have w: "rescue_queue lp ?u = (r1, v)" by simp
      from rescue_inv [OF i w] framed_rescue [OF w] show ?thesis by blast
    next
      case False
      with v have "r1 = Inr ()" "v = sy_lock s" by simp_all
      with I False show ?thesis by simp
    qed
    have e: "r = Inr False" "wl = v"
      using f v False R unfolding held_by_def Let_def lu by (simp_all split: sum.splits prod.splits)
    have lv: "wl_lock v = wl_lock (sy_lock s)" using R lu by (simp add: framed_def)
    have lt: "l < wl_lock (sy_lock s)" using lock_invD(8) [OF I(1), of a] False p by simp
    have "slot_inv (goto a (Lost l) wl s)" unfolding e(2)
    proof (rule slot_inv_section [OF s p])
      show "framed ((sy_lock s)\<lparr>wl_sync_waiting := ?n\<rparr>) v" using R unfolding u by blast
      show "lock_inv False v ((sy_pc s)(a := Lost l))"
        by (rule lock_inv_goto) (use R lt in \<open>auto simp: p carries_def lv\<close>)
      show "queue_inv v ((sy_pc s)(a := Lost l))" by (rule queue_inv_goto) (use R in \<open>auto simp: p\<close>)
      show "attended v" using R by blast
    qed simp_all
    with e(1) show ?thesis by simp
  qed
qed

lemma slot_inv_lost:
  assumes s: "slot_inv s" and p: "sy_pc s a = Lost l" and f: "raw_release l (sy_lock s) = (r, wl)"
  shows "r = Inr () \<and> slot_inv (goto a (Failed e) wl s)"
proof -
  note I = slot_invD [OF s]
  have lt: "l < wl_lock (sy_lock s)" using lock_invD(8) [OF I(1), of a] p by simp
  have "wl_locked (sy_lock s) l" by (rule lock_invD(2) [OF I(1), of a]) (simp add: p carries_def)
  with f have e: "r = Inr ()" "wl = set_locked l False (sy_lock s)" by (auto simp: raw_release_def)
  have "slot_inv (goto a (Failed e) wl s)"
  proof (rule slot_inv_gotoI [OF s]; (unfold e(2) owner_inv_other queue_inv_locked)?)
    show "lock_inv False (set_locked l False (sy_lock s)) ((sy_pc s)(a := Failed e))"
      by (rule lock_inv_drop_old [OF I(1)]) (use lt in \<open>simp_all add: p carries_def\<close>)
    show "owner_inv (sy_lock s) ((sy_pc s)(a := Failed e)) (sy_me s)" by (rule owner_inv_goto [OF I(2)]) (simp_all add: p)
    show "queue_inv (sy_lock s) ((sy_pc s)(a := Failed e))" by (rule queue_inv_goto [OF I(3)]) (simp_all add: p)
    show "count_inv (set_locked l False (sy_lock s)) ((sy_pc s)(a := Failed e))"
      by (rule count_inv_goto [OF I(4)]) (simp add: p set_locked_def)
    show "attended (set_locked l False (sy_lock s))" using I(5) lt by (auto simp: attended_def set_locked_def)
  qed simp
  with e(1) show ?thesis by simp
qed

lemma queue_inv_enqueue:
  assumes i: "queue_inv wl pc" and p: "waits (pc a) = None" "waits q = Some (wl_next_waiter wl)" "\<not> awake q"
  shows "queue_inv (enqueue wl) (pc(a := q))"
proof -
  note D = queue_invD [OF i]
  let ?n = "wl_next_waiter wl" and ?w = "enqueue wl"
  have sel: "wl_waiters ?w = wl_waiters wl @ [?n]" "wl_pending ?w = wl_pending wl" "wl_lock ?w = wl_lock wl" "wl_next_waiter ?w = Suc ?n"
    "wt_state (wl_heap ?w w) = (if w = ?n then Waiting else wt_state (wl_heap wl w))"
    "wt_lock (wl_heap ?w w) = (if w = ?n then None else wt_lock (wl_heap wl w))" for w
    by (simp_all add: enqueue_def)
  have e: "(waits ((pc(a := q)) b) = Some w) = (if b = a then w = ?n else waits (pc b) = Some w)" for b w using p(2) by auto
  have lt: "w < ?n" if "waits (pc b) = Some w" for b w using that by (rule D(6))
  have old: "w < ?n" if "w \<in> set (wl_waiters wl) \<or> wl_pending wl = Some w" for w using D(3) [OF that] lt by blast
  have b: "b \<noteq> a" if "waits (pc b) = Some w" for b w using that p(1) by auto
  show ?thesis
  proof (rule queue_invI, unfold sel e)
    show "distinct (wl_waiters wl @ [?n])" using D(1) old by auto
    show "(if w = ?n then Waiting else wt_state (wl_heap wl w)) = Waiting" if "w \<in> set (wl_waiters wl @ [?n])" for w
      using that D(2) by auto
    show "\<exists>c. if c = a then w = ?n else waits (pc c) = Some w" if "w \<in> set (wl_waiters wl @ [?n]) \<or> wl_pending wl = Some w" for w
    proof (cases "w = ?n")
      case False
      with that D(3) [of w] obtain c where "waits (pc c) = Some w" by auto
      with b show ?thesis by metis
    qed auto
    show "(if w = ?n then Waiting else wt_state (wl_heap wl w)) = Granted \<and>
        (if w = ?n then None else wt_lock (wl_heap wl w)) = Some (wl_lock wl)" if "wl_pending wl = Some w" for w
      using D(4) [OF that] old [of w] that by auto
    show "c = d" if "if c = a then w = ?n else waits (pc c) = Some w" "if d = a then w = ?n else waits (pc d) = Some w" for c d w
      using that lt D(5) by (metis less_irrefl)
    show "w < Suc ?n" if "if c = a then w = ?n else waits (pc c) = Some w" for c w
      using that lt [of c w] by (auto split: if_splits)
    show "w \<in> set (wl_waiters wl @ [?n]) \<and> \<not> awake ((pc(a := q)) c)"
      if "if c = a then w = ?n else waits (pc c) = Some w" "(if w = ?n then Waiting else wt_state (wl_heap wl w)) = Waiting" for c w
    proof (cases "c = a")
      case True
      with that(1) p(3) show ?thesis by simp
    next
      case False
      with that(1) have "waits (pc c) = Some w" by simp
      with that(2) lt [OF this] D(7) [OF this] False show ?thesis by simp
    qed
    show "wl_pending wl = Some w"
      if "if c = a then w = ?n else waits (pc c) = Some w" "(if w = ?n then Waiting else wt_state (wl_heap wl w)) = Granted"
        "(if w = ?n then None else wt_lock (wl_heap wl w)) = Some (wl_lock wl)" for c w
    proof -
      have "w \<noteq> ?n" using that(2) by auto
      moreover from this that(1) have "waits (pc c) = Some w" by (auto split: if_splits)
      ultimately show ?thesis using D(8) that(2,3) by simp
    qed
    show "k \<le> wl_lock wl" if "(if w = ?n then None else wt_lock (wl_heap wl w)) = Some k" for w k
      using that D(9) by (auto split: if_splits)
  qed
qed

lemma slot_inv_enter:
  assumes s: "slot_inv s" and p: "sy_pc s a = Resv_Enter since" and f: "reserve lp (sy_me s a) (sy_lock s) = (r, wl)"
  shows "slot_inv (goto a (after r (\<lambda>x. case x of None \<Rightarrow> Reserved (wl_lock (sy_lock s)) since | Some w \<Rightarrow> Enqueued w since)) wl s)"
proof -
  note I = slot_invD [OF s]
  obtain r1 v where v: "reclaim_dead_pending lp (sy_lock s) = (r1, v)" by (cases "reclaim_dead_pending lp (sy_lock s)")
  note R = reclaim_inv [OF I(1,3) v] and F = framed_reclaim [OF v]
  have o: "owner_inv v (sy_pc s) (sy_me s)" using I(2) unfolding framed_owner_inv [OF F] .
  have l: "wl_lock v = wl_lock (sy_lock s)" "wl_sync_waiting v = wl_sync_waiting (sy_lock s)" using F by (simp_all add: framed_def)
  show ?thesis
  proof (cases "wl_waiters v = [] \<and> wl_sync_waiting v = 0 \<and> \<not> wl_locked v (wl_lock v)")
    case True
    let ?u = "set_locked (wl_lock v) True v" and ?q = "(sy_pc s)(a := Reserved (wl_lock v) since)"
    have e: "r = Inr None" "wl = record_hold (sy_me s a) ?u" using f v R(1) True by (simp_all add: reserve_def)
    have n: "\<not> recorded (wl_lock v) (sy_pc s b)" for b by (rule no_hold [OF R(2), of a]) (simp_all add: p True)
    have "slot_inv (goto a (Reserved (wl_lock v) since) wl s)"
    proof (rule slot_inv_gotoI [OF s])
      show "lock_inv False wl ?q" unfolding e(2) lock_inv_other
        by (rule lock_inv_take [OF R(2)]) (use True in \<open>auto simp: p carries_def\<close>)
      have "owner_inv ?u (sy_pc s) (sy_me s)" using o unfolding owner_inv_other .
      then show "owner_inv wl ?q (sy_me s)" unfolding e(2)
        by (rule owner_inv_record) (use n in \<open>simp_all add: set_locked_def p\<close>)
      show "queue_inv wl ?q" unfolding e(2) queue_inv_other queue_inv_locked
        by (rule queue_inv_goto [OF R(3)]) (simp_all add: p)
      show "count_inv wl ?q" by (rule count_inv_goto [OF I(4)]) (simp add: e(2) p record_hold_def set_locked_def l)
      show "attended wl" using True by (simp add: e(2) attended_def record_hold_def set_locked_def)
    qed simp
    with e(1) l(1) show ?thesis by simp
  next
    case False
    let ?q = "(sy_pc s)(a := Enqueued (wl_next_waiter v) since)"
    have e: "r = Inr (Some (wl_next_waiter v))" "wl = enqueue v" using f v R(1) False by (simp_all add: reserve_def)
    have "slot_inv (goto a (Enqueued (wl_next_waiter v) since) wl s)"
    proof (rule slot_inv_gotoI [OF s]; (unfold e(2) lock_inv_other owner_inv_other)?)
      show "lock_inv False v ?q" by (rule lock_inv_goto [OF R(2)]) (simp_all add: p carries_def)
      show "owner_inv v ?q (sy_me s)" by (rule owner_inv_goto [OF o]) (simp_all add: p)
      show "queue_inv (enqueue v) ?q" by (rule queue_inv_enqueue [OF R(3)]) (simp_all add: p)
      show "count_inv (enqueue v) ?q" by (rule count_inv_goto [OF I(4)]) (simp add: p enqueue_def l)
      show "attended (enqueue v)" using R(4) [OF I(5)] False by (auto simp: attended_def enqueue_def)
    qed simp
    with e(1) show ?thesis by simp
  qed
qed

section \<open>Leaving the queue\<close>

lemma queue_inv_remove:
  assumes i: "queue_inv wl pc" and p: "waits (pc a) = Some w" "waits q = None" and s: "wt_state (wl_heap wl w) = Waiting"
  shows "queue_inv (wl\<lparr>wl_waiters := remove1 w (wl_waiters wl)\<rparr>) (pc(a := q))"
proof -
  note D = queue_invD [OF i]
  let ?u = "wl\<lparr>wl_waiters := remove1 w (wl_waiters wl)\<rparr>"
  have sel: "wl_waiters ?u = remove1 w (wl_waiters wl)" "wl_pending ?u = wl_pending wl" "wl_heap ?u = wl_heap wl" "wl_lock ?u = wl_lock wl"
    "wl_next_waiter ?u = wl_next_waiter wl" by simp_all
  have e: "(waits ((pc(a := q)) b) = Some x) = (b \<noteq> a \<and> waits (pc b) = Some x)" for b x using p(2) by simp
  have set: "set (remove1 w (wl_waiters wl)) = set (wl_waiters wl) - {w}" using D(1) by simp
  have ne: "x \<noteq> w" if "b \<noteq> a" "waits (pc b) = Some x" for b x using that p(1) D(5) by blast
  have np: "wl_pending wl \<noteq> Some w" using D(4) s by force
  show ?thesis
  proof (rule queue_invI, unfold sel e set)
    show "distinct (remove1 w (wl_waiters wl))" using D(1) by simp
    show "wt_state (wl_heap wl x) = Waiting" if "x \<in> set (wl_waiters wl) - {w}" for x using that D(2) by blast
    show "\<exists>b. b \<noteq> a \<and> waits (pc b) = Some x" if "x \<in> set (wl_waiters wl) - {w} \<or> wl_pending wl = Some x" for x
    proof -
      have "x \<noteq> w" using that np by auto
      moreover have "x \<in> set (wl_waiters wl) \<or> wl_pending wl = Some x" using that by auto
      then obtain b where "waits (pc b) = Some x" using D(3) by blast
      ultimately show ?thesis using p(1) by (intro exI [of _ b]) auto
    qed
    show "wt_state (wl_heap wl x) = Granted \<and> wt_lock (wl_heap wl x) = Some (wl_lock wl)" if "wl_pending wl = Some x" for x
      using that by (rule D(4))
    show "b = d" if "b \<noteq> a \<and> waits (pc b) = Some x" "d \<noteq> a \<and> waits (pc d) = Some x" for b d x using that by (blast intro: D(5))
    show "x < wl_next_waiter wl" if "b \<noteq> a \<and> waits (pc b) = Some x" for b x using that D(6) by blast
    show "x \<in> set (wl_waiters wl) - {w} \<and> \<not> awake ((pc(a := q)) b)" if "b \<noteq> a \<and> waits (pc b) = Some x" "wt_state (wl_heap wl x) = Waiting"
      for b x using that D(7) [of b x] ne [of b x] by auto
    show "wl_pending wl = Some x" if "b \<noteq> a \<and> waits (pc b) = Some x" "wt_state (wl_heap wl x) = Granted"
      "wt_lock (wl_heap wl x) = Some (wl_lock wl)" for b x using that D(8) by blast
    show "k \<le> wl_lock wl" if "wt_lock (wl_heap wl x) = Some k" for x k using that by (rule D(9))
  qed
qed

text \<open>A coroutine leaves the queue for good, or goes on with the grant it finds.\<close>

lemma slot_inv_leave:
  assumes s: "slot_inv s" and p: "sy_pc s a = q0" "waits q0 = Some w" "\<And>k. \<not> carries (wl_lock (sy_lock s)) q0 k" "\<not> counted q0" "in_call q0"
    and f: "leave_queue w (sy_lock s) = (st, wl)"
  shows "st = Waiting \<or> st = Abandoned \<Longrightarrow> slot_inv (goto a (Failed e) wl s)"
    and "st \<noteq> Waiting \<Longrightarrow> since_of q0 = Some x \<Longrightarrow> slot_inv (goto a (Woken w x) wl s)"
    and "st \<noteq> Waiting \<Longrightarrow> slot_inv (goto a (Passing w e) wl s)"
proof -
  note I = slot_invD [OF s] note D = queue_invD [OF I(3)]
  have st: "st = wt_state (wl_heap (sy_lock s) w)" using f by (simp add: leave_queue_def)
  have nr: "\<not> recorded (wl_lock (sy_lock s)) q0" using p(3) by (auto simp: carries_def)
  show "slot_inv (goto a (Woken w x) wl s)" if n: "st \<noteq> Waiting" "since_of q0 = Some x"
  proof -
    have "wl = sy_lock s" using f n st by (simp add: leave_queue_def)
    then show ?thesis using slot_inv_goto [OF s p(1), of "Woken w x"] p nr n st by (simp add: carries_def)
  qed
  show "slot_inv (goto a (Passing w e) wl s)" if n: "st \<noteq> Waiting"
  proof -
    have "wl = sy_lock s" using f n st by (simp add: leave_queue_def)
    then show ?thesis using slot_inv_goto [OF s p(1), of "Passing w e"] p nr n st by (simp add: carries_def)
  qed
  assume n: "st = Waiting \<or> st = Abandoned"
  let ?q = "(sy_pc s)(a := Failed e)"
  have same: "wl = sy_lock s" if "st \<noteq> Waiting" using f that st by (simp add: leave_queue_def)
  have rem: "wl = (sy_lock s)\<lparr>wl_waiters := remove1 w (wl_waiters (sy_lock s))\<rparr>" if "st = Waiting" using f that st by (auto simp: leave_queue_def)
  have fr: "framed (sy_lock s) wl" using f by (auto simp: leave_queue_def framed_def split: if_splits)
  have lk: "lock_inv False wl ?q"
  proof -
    have "lock_inv False (sy_lock s) ?q" by (rule lock_inv_goto [OF I(1)]) (use p in \<open>simp_all add: carries_def\<close>)
    with same rem show ?thesis by (metis lock_inv_heap(2))
  qed
  show "slot_inv (goto a (Failed e) wl s)"
  proof (rule slot_inv_section [OF s p(1) _ lk])
    show "framed ((sy_lock s)\<lparr>wl_sync_waiting := wl_sync_waiting (sy_lock s)\<rparr>) wl" using fr by simp
    show "queue_inv wl ?q"
    proof (cases "st = Waiting")
      case True
      with rem queue_inv_remove [OF I(3), of a w "Failed e"] p st show ?thesis by simp
    next
      case False
      with n have a: "wt_state (wl_heap (sy_lock s) w) = Abandoned" using st by simp
      have "w \<notin> set (wl_waiters (sy_lock s))" "wl_pending (sy_lock s) \<noteq> Some w" using D(2) [of w] D(4) [of w] a by auto
      then have "queue_inv (sy_lock s) ?q" by (intro queue_inv_leave [OF I(3)]) (use p in simp_all)
      with same [OF False] show ?thesis by simp
    qed
    show "attended wl"
    proof (cases "st = Waiting")
      case True
      from I(5) show ?thesis unfolding rem [OF True] by (auto simp: attended_def)
    next
      case False
      with same I(5) show ?thesis by simp
    qed
  qed (use p nr in simp_all)
qed

lemma slot_inv_pass:
  assumes s: "slot_inv s" and p: "sy_pc s a = Passing w e" and f: "pass_on lp w (sy_lock s) = (r, wl)"
  shows "r = Inr () \<and> slot_inv (goto a (Failed e) wl s)"
proof -
  note I = slot_invD [OF s] and F = framed_pass_on [OF f]
  have w: "waits (sy_pc s a) = Some w" by (simp add: p)
  note R = pass_on_inv [OF I(1,3,5) f w]
  have "wt_state (wl_heap (sy_lock s) w) \<noteq> Waiting" using queue_invD(7) [OF I(3) w] by (auto simp: p)
  from R(5) [OF this] have out: "w \<notin> set (wl_waiters wl)" "wl_pending wl \<noteq> Some w" by simp_all
  have l: "wl_lock wl = wl_lock (sy_lock s)" using F by (simp add: framed_def)
  have "slot_inv (goto a (Failed e) wl s)"
  proof (rule slot_inv_section [OF s p])
    show "framed ((sy_lock s)\<lparr>wl_sync_waiting := wl_sync_waiting (sy_lock s)\<rparr>) wl" using F by simp
    show "lock_inv False wl ((sy_pc s)(a := Failed e))" by (rule lock_inv_goto [OF R(2)]) (simp_all add: p carries_def)
    show "queue_inv wl ((sy_pc s)(a := Failed e))" by (rule queue_inv_leave [OF R(3)]) (use out in \<open>simp_all add: p\<close>)
    show "attended wl" by (rule R(4))
  qed simp_all
  with R(1) show ?thesis by simp
qed

lemma queue_inv_granted:
  assumes i: "queue_inv wl pc" and p: "waits (pc a) = Some w" "waits q = None"
    and st: "wt_state (wl_heap wl w) = Granted" "wl_pending wl = Some w"
  shows "queue_inv (wl\<lparr>wl_pending := None\<rparr>) (pc(a := q))"
proof -
  note D = queue_invD [OF i]
  let ?u = "wl\<lparr>wl_pending := None\<rparr>"
  have sel: "wl_waiters ?u = wl_waiters wl" "wl_pending ?u = None" "wl_heap ?u = wl_heap wl" "wl_lock ?u = wl_lock wl"
    "wl_next_waiter ?u = wl_next_waiter wl" by simp_all
  have e: "(waits ((pc(a := q)) b) = Some x) = (b \<noteq> a \<and> waits (pc b) = Some x)" for b x using p(2) by simp
  have ne: "x \<noteq> w" if "b \<noteq> a" "waits (pc b) = Some x" for b x using that p(1) D(5) by blast
  show ?thesis
  proof (rule queue_invI, unfold sel e)
    show "\<exists>b. b \<noteq> a \<and> waits (pc b) = Some x" if "x \<in> set (wl_waiters wl) \<or> None = Some x" for x
    proof -
      have x: "x \<in> set (wl_waiters wl)" using that by simp
      obtain b where b: "waits (pc b) = Some x" using D(3) [of x] x by auto
      have "x \<noteq> w" using D(2) [OF x] st(1) by auto
      with b p(1) show ?thesis by (intro exI [of _ b]) auto
    qed
    show "b = d" if "b \<noteq> a \<and> waits (pc b) = Some x" "d \<noteq> a \<and> waits (pc d) = Some x" for b d x using that by (blast intro: D(5))
    show "x < wl_next_waiter wl" if "b \<noteq> a \<and> waits (pc b) = Some x" for b x using that D(6) by blast
    show "x \<in> set (wl_waiters wl) \<and> \<not> awake ((pc(a := q)) b)" if "b \<noteq> a \<and> waits (pc b) = Some x" "wt_state (wl_heap wl x) = Waiting"
      for b x using that D(7) [of b x] by auto
    show "None = Some x" if "b \<noteq> a \<and> waits (pc b) = Some x" "wt_state (wl_heap wl x) = Granted"
      "wt_lock (wl_heap wl x) = Some (wl_lock wl)" for b x using that D(8) [of b x] st(2) ne [of b x] by auto
    show "distinct (wl_waiters wl)" by (rule D(1))
    show "wt_state (wl_heap wl x) = Waiting" if "x \<in> set (wl_waiters wl)" for x using that by (rule D(2))
    show "k \<le> wl_lock wl" if "wt_lock (wl_heap wl x) = Some k" for x k using that by (rule D(9))
  qed simp
qed

lemma slot_inv_granted:
  assumes s: "slot_inv s" and p: "sy_pc s a = Woken w since" and f: "granted (sy_me s a) w (sy_lock s) = (r, wl)"
  shows "slot_inv (goto a (case r of Inl e \<Rightarrow> Undo_Own None since None e | Inr l \<Rightarrow> Reserved l since) wl s)"
proof -
  note I = slot_invD [OF s] note D = queue_invD [OF I(3)]
  have w: "waits (sy_pc s a) = Some w" by (simp add: p)
  have nw: "wt_state (wl_heap (sy_lock s) w) \<noteq> Waiting" using D(7) [OF w] by (auto simp: p)
  show ?thesis
  proof (cases "wt_state (wl_heap (sy_lock s) w) = Granted \<and> wt_lock (wl_heap (sy_lock s) w) = Some (wl_lock (sy_lock s))")
    case True
    then have pd: "wl_pending (sy_lock s) = Some w" using D(8) [OF w] by simp
    let ?u = "(sy_lock s)\<lparr>wl_pending := None\<rparr>" and ?q = "(sy_pc s)(a := Reserved (wl_lock (sy_lock s)) since)"
    have e: "r = Inr (wl_lock (sy_lock s))" "wl = record_hold (sy_me s a) ?u" using f True pd by (simp_all add: granted_def)
    have n: "\<not> recorded (wl_lock (sy_lock s)) (sy_pc s b)" for b by (rule no_hold [OF I(1), of a]) (simp_all add: p pd)
    have "slot_inv (goto a (Reserved (wl_lock (sy_lock s)) since) wl s)"
    proof (rule slot_inv_gotoI [OF s])
      show "lock_inv False wl ?q" unfolding e(2) lock_inv_other
        by (rule lock_inv_granted [OF I(1) pd]) (auto simp: p carries_def)
      have "owner_inv ?u (sy_pc s) (sy_me s)" using I(2) unfolding owner_inv_other .
      then show "owner_inv wl ?q (sy_me s)" unfolding e(2) by (rule owner_inv_record) (use n in \<open>simp_all add: p\<close>)
      show "queue_inv wl ?q" unfolding e(2) queue_inv_other by (rule queue_inv_granted [OF I(3) w _ _ pd]) (use True in simp_all)
      show "count_inv wl ?q" by (rule count_inv_goto [OF I(4)]) (simp add: e(2) p record_hold_def)
      show "attended wl" using I(5) by (simp add: e(2) attended_def record_hold_def)
    qed simp
    with e(1) show ?thesis by simp
  next
    case False
    then have e: "r = Inl (Exn StorageClosedError)" "wl = sy_lock s" using f by (auto simp: granted_def split: option.splits if_splits)
    have out: "w \<notin> set (wl_waiters (sy_lock s))" "wl_pending (sy_lock s) \<noteq> Some w" using D(2) [of w] D(4) [of w] nw False by auto
    let ?p = "Undo_Own None since None (Exn StorageClosedError)"
    have "slot_inv (goto a ?p (sy_lock s) s)"
    proof (rule slot_inv_gotoI [OF s])
      show "lock_inv False (sy_lock s) ((sy_pc s)(a := ?p))" by (rule lock_inv_goto [OF I(1)]) (simp_all add: p carries_def)
      show "owner_inv (sy_lock s) ((sy_pc s)(a := ?p)) (sy_me s)" by (rule owner_inv_goto [OF I(2)]) (simp_all add: p)
      show "queue_inv (sy_lock s) ((sy_pc s)(a := ?p))" by (rule queue_inv_leave [OF I(3)]) (use out in \<open>simp_all add: p\<close>)
      show "count_inv (sy_lock s) ((sy_pc s)(a := ?p))" by (rule count_inv_goto [OF I(4)]) (simp add: p)
      show "attended (sy_lock s)" by (rule I(5))
    qed simp
    with e show ?thesis by simp
  qed
qed

lemma slot_inv_undo:
  assumes s: "slot_inv s" and p: "sy_pc s a = Undo_Own lo since wo e"
    and f: "release_if_owned lp (sy_me s a) since (sy_lock s) = (r, wl)"
  shows "r = Inr () \<and> slot_inv (goto a (case wo of None \<Rightarrow> Failed e | Some w \<Rightarrow> Undo_Queue w) wl s)"
proof -
  note I = slot_invD [OF s]
  let ?c = "wl_lock (sy_lock s)" and ?p = "case wo of None \<Rightarrow> Failed e | Some w \<Rightarrow> Undo_Queue w"
  have P: "carries ?c ?p k = False" "at_least ?p = 0" "waits ?p = wo" "counted ?p = False" "since_of ?p = None" "awake ?p = False"
    "recorded ?c ?p = False" "bare ?p k = False" "?p \<noteq> Slot ws x rs" "slot_shape ?p" for k ws x rs by (cases wo; simp add: carries_def)+
  have o: "if recorded ?c (sy_pc s a) then wl_owner (sy_lock s) = Some (sy_me s a) \<and> wl_hold (sy_lock s) \<noteq> since
      else wl_owner (sy_lock s) = Some (sy_me s a) \<longrightarrow> wl_hold (sy_lock s) = since"
    by (rule owner_invD(5) [OF I(2)]) (simp add: p)
  show ?thesis
  proof (cases "recorded ?c (sy_pc s a)")
    case True
    have "wl_locked (sy_lock s) ?c" by (rule lock_invD(2) [OF I(1) recorded_carries [OF True]])
    with o f True have "release_locked lp ((sy_lock s)\<lparr>wl_owner := None, wl_hold := None\<rparr>) = (r, wl)"
      by (simp add: release_if_owned_def)
    then show ?thesis by (intro slot_inv_drop [OF s refl True]) (simp_all add: P p)
  next
    case False
    with o f have e: "r = Inr ()" "wl = sy_lock s" by (auto simp: release_if_owned_def)
    have "slot_inv (goto a ?p (sy_lock s) s)"
      by (rule slot_inv_goto [OF s refl]) (use False in \<open>simp_all add: P p carries_def\<close>)
    with e show ?thesis by simp
  qed
qed

section \<open>Reserved slots, closing, and new calls\<close>

lemma slot_inv_owner:
  assumes s: "slot_inv s" and p: "sy_pc s a = Slot ws tx rs" "recorded (wl_lock (sy_lock s)) (Slot ws tx rs)"
    and q: "recorded (wl_lock (sy_lock s)) (Slot ws' ty rs)" "ws_lock ws' = ws_lock ws" "slot_shape (Slot ws' ty rs)"
    and m: "\<And>b z. since_of (sy_pc s b) = Some z \<Longrightarrow> sy_me s b = m \<Longrightarrow> wl_hold (sy_lock s) = z"
    and t: "\<And>y. ty = Some y \<Longrightarrow> y = wl_owner (sy_lock s)"
  shows "slot_inv (goto a (Slot ws' ty rs) ((sy_lock s)\<lparr>wl_owner := Some m\<rparr>) s)"
proof (rule slot_inv_gotoI [OF s]; (unfold lock_inv_other queue_inv_other)?)
  note I = slot_invD [OF s]
  let ?q = "(sy_pc s)(a := Slot ws' ty rs)"
  show "lock_inv False (sy_lock s) ?q" by (rule lock_inv_goto [OF I(1)]) (use p q in \<open>simp_all add: carries_def\<close>)
  show "owner_inv ((sy_lock s)\<lparr>wl_owner := Some m\<rparr>) ?q (sy_me s)"
  proof (rule owner_inv_slot [OF I(2) _ _ refl q(1) m t])
    show "recorded (wl_lock (sy_lock s)) (sy_pc s a)" unfolding p(1) by (rule p(2))
    then show "b = a" if "recorded (wl_lock (sy_lock s)) (sy_pc s b)" for b using recorded_unique [OF I(1) _ that] by blast
  qed
  show "queue_inv (sy_lock s) ?q" by (rule queue_inv_goto [OF I(3)]) (simp_all add: p)
  show "count_inv ((sy_lock s)\<lparr>wl_owner := Some m\<rparr>) ?q" by (rule count_inv_goto [OF I(4)]) (simp add: p)
  show "attended ((sy_lock s)\<lparr>wl_owner := Some m\<rparr>)" using I(5) by (simp add: attended_def)
qed (rule q(3))

text \<open>A step of a reserved slot that leaves who holds it as it is.\<close>

lemma slot_inv_same:
  assumes s: "slot_inv s" and p: "sy_pc s a = Slot ws tx rs" and q: "ws_lock ws' = ws_lock ws" "slot_shape (Slot ws' ty rs')"
    and "ty = None \<or> ty = tx"
    and "ws_lock ws = wl_lock (sy_lock s) \<Longrightarrow> (ws_held ws' \<or> ty \<noteq> None \<or> rs' \<noteq> []) = (ws_held ws \<or> tx \<noteq> None \<or> rs \<noteq> [])"
  shows "slot_inv (goto a (Slot ws' ty rs') (sy_lock s) s)"
proof -
  have l: "ws_lock ws \<le> wl_lock (sy_lock s)" using lock_invD(8) [OF slot_invD(1) [OF s], of a] p by simp
  show ?thesis by (rule slot_inv_goto [OF s p _ _ _ _ _ _ _ _ _ q(2)]) (use assms(5,6) q l in \<open>auto simp: carries_def\<close>)
qed

lemma slot_inv_take_slot:
  assumes s: "slot_inv s" and p: "sy_pc s a = Slot ws tx rs" and m: "free_caller s m"
    and f: "take_slot storage m (sy_lock s) ws = (r, wl, ws')" and o: "rs = [] \<or> isl r"
  shows "slot_inv (goto a (Slot ws' (case r of Inl _ \<Rightarrow> tx | Inr (_, previous) \<Rightarrow> Some previous) rs) wl s)"
proof (cases "storage = ws_storage ws \<and> ws_state ws = Held \<and> ws_lock ws = wl_lock (sy_lock s)")
  case True
  have e: "r = Inr (ws_lock ws, wl_owner (sy_lock s))" "wl = (sy_lock s)\<lparr>wl_owner := Some m\<rparr>" "ws' = ws\<lparr>ws_state := Taken\<rparr>"
    using f True by (simp_all add: take_slot_def ws_take_def)
  with o have rs: "rs = []" by simp
  have "slot_inv (goto a (Slot ws' (Some (wl_owner (sy_lock s))) rs) wl s)" unfolding e(2)
  proof (rule slot_inv_owner [OF s p])
    show "wl_hold (sy_lock s) = z" if "since_of (sy_pc s b) = Some z" "sy_me s b = m" for b z
      using m that since_in_call [OF that(1)] by (auto simp: free_caller_def)
  qed (use True e(3) rs in \<open>simp_all add: ws_held_def\<close>)
  with e(1) show ?thesis by simp
next
  case False
  then have e: "r = Inl StorageError" "wl = sy_lock s"
    "ws' = ws \<or> ws' = ws\<lparr>ws_state := Released\<rparr> \<and> ws_state ws = Held \<and> ws_lock ws \<noteq> wl_lock (sy_lock s)"
    using f by (auto simp: take_slot_def ws_take_def split: if_splits)
  have "slot_shape (Slot ws tx rs)" using slot_invD(6) [OF s, of a] p by simp
  then have "slot_inv (goto a (Slot ws' tx rs) (sy_lock s) s)" by (intro slot_inv_same [OF s p]) (use e(3) in auto)
  with e show ?thesis by simp
qed

lemma slot_inv_give_back:
  assumes s: "slot_inv s" and p: "sy_pc s a = Slot ws (Some x) rs" and f: "give_back x (sy_lock s) ws = (wl, ws')"
  shows "slot_inv (goto a (Slot ws' None rs) wl s)"
proof -
  have c: "ws_state ws = Taken" "rs = []" using slot_invD(6) [OF s, of a] p by simp_all
  show ?thesis
  proof (cases "ws_lock ws = wl_lock (sy_lock s)")
    case True
    note D = owner_invD(6) [OF slot_invD(2) [OF s] p True]
    then obtain m where m: "x = Some m" by auto
    have e: "wl = (sy_lock s)\<lparr>wl_owner := Some m\<rparr>" "ws' = ws\<lparr>ws_state := Held\<rparr>" using f True c m by (simp_all add: give_back_def ws_give_back_def)
    show ?thesis unfolding e(1)
    proof (rule slot_inv_owner [OF s p])
      show "wl_hold (sy_lock s) = z" if "since_of (sy_pc s b) = Some z" "sy_me s b = m" for b z using D m that by blast
    qed (use True c e(2) in \<open>simp_all add: ws_held_def\<close>)
  next
    case False
    with f have e: "wl = sy_lock s" "ws' = ws\<lparr>ws_state := Released\<rparr>" by (simp_all add: give_back_def)
    show ?thesis unfolding e(1) by (rule slot_inv_same [OF s p]) (use e(2) c False in simp_all)
  qed
qed

text \<open>A transaction on a reserved slot ends, or the release of the slot that found it held goes on.\<close>

lemma slot_inv_slot_release:
  assumes s: "slot_inv s" and p: "sy_pc s a = Slot ws tx rs" "tx \<noteq> None \<or> rs \<noteq> []"
    and q: "\<not> ws_held ws" "slot_shape (Slot ws None rs')" "rs' = []"
    and f: "slot_release lp (Some (ws_lock ws)) (sy_lock s) = (r, wl)"
  shows "r = Inr () \<and> slot_inv (goto a (Slot ws None rs') wl s)"
proof -
  have l: "ws_lock ws \<le> wl_lock (sy_lock s)" using lock_invD(8) [OF slot_invD(1) [OF s], of a] p by simp
  show ?thesis by (rule slot_inv_release [OF s p(1) _ _ _ _ _ _ _ _ _ _ _ _ _ f]) (use p q l in \<open>auto simp: carries_def\<close>)
qed

lemma slot_inv_ended:
  assumes s: "slot_inv s" and p: "sy_pc s a = Slot ws (Some x) rs" and f: "slot_release lp (Some (ws_lock ws)) (sy_lock s) = (r, wl)"
  shows "r = Inr () \<and> slot_inv (goto a (Slot ws None rs) wl s)"
proof -
  have c: "ws_state ws = Taken" "rs = []" using slot_invD(6) [OF s, of a] p by simp_all
  then show ?thesis by (intro slot_inv_slot_release [OF s p _ _ _ _ f]) (simp_all add: ws_held_def)
qed

lemma slot_inv_released:
  assumes s: "slot_inv s" and p: "sy_pc s a = Slot ws tx rs" "True \<in> set rs" and f: "slot_release lp (Some (ws_lock ws)) (sy_lock s) = (r, wl)"
  shows "r = Inr () \<and> slot_inv (goto a (Slot ws tx (remove1 True rs)) wl s)"
proof -
  have c: "ws_state ws = Released" "tx = None" "rs = [True]"
    using slot_invD(6) [OF s, of a] p by (cases rs; force)+
  then show ?thesis using slot_inv_slot_release [OF s p(1) _ _ _ _ f, of "[]"] by (simp add: ws_held_def)
qed

lemma at_least_new: "at_least p \<le> c \<Longrightarrow> \<not> recorded (Suc c) p"
  using recorded_lock_of lock_of_at_least by (metis not_less_eq_eq order_trans)

lemma slot_inv_close:
  assumes s: "slot_inv s" and f: "slot_close (sy_lock s) = (r, wl)"
  shows "r = Inr ()" and "slot_inv (s\<lparr>sy_lock := wl\<rparr>)"
proof -
  note I = slot_invD [OF s]
  note L = lock_invD [OF I(1)] and Q = queue_invD [OF I(3)]
  let ?w = "sy_lock s" let ?c = "wl_lock ?w"
  let ?free = "wl_owner ?w \<noteq> None \<or> wl_pending ?w \<noteq> None"
  let ?h = "\<lambda>x. if wl_pending ?w = Some x \<or> x \<in> set (wl_waiters ?w) then (wl_heap ?w x)\<lparr>wt_state := Closed\<rparr> else wl_heap ?w x"
  have new: "\<not> recorded (Suc ?c) (sy_pc s a)" for a using at_least_new [OF L(8)] .
  have car: "carries (Suc ?c) (sy_pc s a) k = bare (sy_pc s a) k" for a k using new by (simp add: carries_def)
  have bare: "carries ?c (sy_pc s a) k" if "bare (sy_pc s a) k" for a k using that by (simp add: carries_def)
  have lk: "wl_locked ?w ?c" if ?free
  proof (cases "wl_pending ?w = None")
    case True
    with that owner_invD(1) [OF I(2)] obtain a where "recorded ?c (sy_pc s a)" by blast
    from L(2) [OF recorded_carries [OF this]] show ?thesis .
  qed (use L(6) in blast)
  have nb: "\<not> bare (sy_pc s a) ?c" if ?free for a
  proof
    assume b: "bare (sy_pc s a) ?c"
    with L(3) [OF bare [OF b]] that owner_invD(1) [OF I(2)] obtain d where d: "recorded ?c (sy_pc s d)" by blast
    from L(1) [OF bare [OF b] recorded_carries [OF d]] d bare_not_recorded [OF b] show False by simp
  qed
  have locked: "k \<le> ?c" "\<exists>a. bare (sy_pc s a) k" if k: "wl_locked ?w k" "\<not> (?free \<and> k = ?c)" for k
  proof -
    show "k \<le> ?c" by (rule L(4) [OF k(1)])
    show "\<exists>a. bare (sy_pc s a) k"
    proof (cases "k = ?c")
      case True
      with k(2) have "wl_owner ?w = None" "wl_pending ?w = None" by blast+
      moreover from this L(5) [OF k(1)] obtain a where "carries ?c (sy_pc s a) k" by blast
      ultimately show ?thesis using owner_invD(1) [OF I(2)] by (auto simp: carries_def)
    next
      case False
      with L(5) [OF k(1)] obtain a where "carries ?c (sy_pc s a) k" by blast
      with False show ?thesis by (auto simp: carries_def)
    qed
  qed
  have wl: "r = Inr ()" "wl_lock wl = Suc ?c" "wl_owner wl = None" "wl_hold wl = None" "wl_pending wl = None" "wl_waiters wl = []"
    "wl_heap wl = ?h" "wl_next_hold wl = wl_next_hold ?w" "wl_next_waiter wl = wl_next_waiter ?w" "wl_sync_waiting wl = wl_sync_waiting ?w"
    "wl_locked wl k = (k \<noteq> Suc ?c \<and> wl_locked ?w k \<and> \<not> (?free \<and> k = ?c))" for k
    using f lk by (auto simp: slot_close_def Let_def seq_def skip_def raw_release_def set_locked_def split: if_splits)
  show "r = Inr ()" by (rule wl(1))
  show "slot_inv (s\<lparr>sy_lock := wl\<rparr>)"
  proof (rule slot_invI, simp_all)
    show "lock_inv False wl (sy_pc s)"
    proof (rule lock_invI, unfold wl(2,5,11) car)
      show "a = b" if "bare (sy_pc s a) k" "bare (sy_pc s b) k" for a b k using L(1) [OF bare [OF that(1)] bare [OF that(2)]] .
      show "k \<noteq> Suc ?c \<and> wl_locked ?w k \<and> \<not> (?free \<and> k = ?c)" if "bare (sy_pc s a) k" for a k
        using L(2) [OF bare [OF that]] L(4) nb that by fastforce
      show "None = None \<and> \<not> False" by simp
      show "k \<le> Suc ?c" if "k \<noteq> Suc ?c \<and> wl_locked ?w k \<and> \<not> (?free \<and> k = ?c)" for k using that L(4) le_SucI by blast
      show "\<exists>a. bare (sy_pc s a) k" if "k \<noteq> Suc ?c \<and> wl_locked ?w k \<and> \<not> (?free \<and> k = ?c)" for k using that locked(2) by blast
      show "at_least (sy_pc s a) \<le> Suc ?c" for a using L(8) le_SucI by blast
    qed simp_all
    show "owner_inv wl (sy_pc s) (sy_me s)" unfolding owner_inv_def wl(2,3,4,8)
    proof (intro conjI allI impI)
      show "(None \<noteq> None) = (\<exists>a. recorded (Suc ?c) (sy_pc s a))" using new by blast
      show "h < wl_next_hold ?w" if "since_of (sy_pc s a) = Some (Some h)" for a h using that by (rule owner_invD(4) [OF I(2)])
      show "if recorded (Suc ?c) (sy_pc s a) then None = Some (sy_me s a) \<and> None \<noteq> x else None = Some (sy_me s a) \<longrightarrow> None = x" for a x
        using new by simp
      fix b ws q rs assume "sy_pc s b = Slot ws (Some q) rs" "ws_lock ws = Suc ?c"
      with new [of b] show "q \<noteq> None" "None = x" for x by simp_all
    next
      show "a = b" if "in_call (sy_pc s a)" "in_call (sy_pc s b)" "sy_me s a = sy_me s b" for a b
        using that by (rule owner_invD(7) [OF I(2)])
    qed simp_all
    show "queue_inv wl (sy_pc s)"
    proof (rule queue_invI, unfold wl(2,5,6,7,9))
      have st: "wt_state (?h x) = y \<longleftrightarrow> wt_state (wl_heap ?w x) = y \<and> wl_pending ?w \<noteq> Some x \<and> x \<notin> set (wl_waiters ?w)" if "y \<noteq> Closed" for x y
        using that by auto
      have lc: "wt_lock (?h x) = wt_lock (wl_heap ?w x)" for x by simp
      show "a = b" if "waits (sy_pc s a) = Some x" "waits (sy_pc s b) = Some x" for a b x using that by (rule Q(5))
      show "x < wl_next_waiter ?w" if "waits (sy_pc s a) = Some x" for a x using that by (rule Q(6))
      show "x \<in> set [] \<and> \<not> awake (sy_pc s a)" if "waits (sy_pc s a) = Some x" "wt_state (?h x) = Waiting" for a x
        using that(2) Q(7) [OF that(1)] unfolding st [OF waiter_state.distinct(3)] by blast
      show "k \<le> Suc ?c" if "wt_lock (?h x) = Some k" for x k using that Q(9) [of x k] unfolding lc by simp
      show "None = Some x" if "wt_lock (?h x) = Some (Suc ?c)" for x using that Q(9) [of x "Suc ?c"] unfolding lc by simp
    qed simp_all
    show "count_inv wl (sy_pc s)" using I(4) by (simp add: count_inv_def wl(10))
    show "attended wl" by (simp add: attended_def wl(6))
    show "slot_shape (sy_pc s a)" for a by (rule I(6))
  qed
qed

lemma slot_inv_begin:
  assumes s: "slot_inv s" and p: "sy_pc s a = Idle" and m: "free_caller s m" and q: "q = Acq \<or> q = Resv"
  shows "slot_inv (goto a q (sy_lock s) s\<lparr>sy_me := (sy_me s)(a := m), sy_marks := hs\<rparr>)"
proof -
  note I = slot_invD [OF s] note D = owner_invD [OF I(2)]
  let ?c = "wl_lock (sy_lock s)" and ?q = "(sy_pc s)(a := q)" and ?m = "(sy_me s)(a := m)"
  have q': "carries ?c q k = False" "recorded ?c q = False" "at_least q = 0" "waits q = None" "awake q = False" "counted q = False"
    "since_of q = None" "in_call q = True" "q \<noteq> Slot ws x rs" "slot_shape q" for k ws x rs using q by (auto simp: carries_def)
  have rec: "recorded ?c (?q b) = recorded ?c (sy_pc s b)" for b using q' p by simp
  have since: "b \<noteq> a \<and> since_of (sy_pc s b) = Some x" if "since_of (?q b) = Some x" for b x using that q' by (auto split: if_splits)
  have "owner_inv (sy_lock s) ?q ?m" unfolding owner_inv_def rec
  proof (intro conjI allI impI)
    show "(wl_owner (sy_lock s) \<noteq> None) = (\<exists>b. recorded ?c (sy_pc s b))" by (rule D(1))
    show "(wl_owner (sy_lock s) = None) = (wl_hold (sy_lock s) = None)" by (rule D(2))
    show "h < wl_next_hold (sy_lock s)" if "wl_hold (sy_lock s) = Some h" for h using that by (rule D(3))
    show "h < wl_next_hold (sy_lock s)" if "since_of (?q b) = Some (Some h)" for b h using D(4) since [OF that] by blast
    show "if recorded ?c (sy_pc s b) then wl_owner (sy_lock s) = Some (?m b) \<and> wl_hold (sy_lock s) \<noteq> x
        else wl_owner (sy_lock s) = Some (?m b) \<longrightarrow> wl_hold (sy_lock s) = x" if "since_of (?q b) = Some x" for b x
      using D(5) [of b x] since [OF that] by simp
    fix b ws y rs assume sl: "?q b = Slot ws (Some y) rs" "ws_lock ws = ?c"
    then have "sy_pc s b = Slot ws (Some y) rs" using q' by (auto split: if_splits)
    note S = D(6) [OF this sl(2)]
    show "y \<noteq> None" using S by blast
    show "wl_hold (sy_lock s) = x" if "since_of (?q d) = Some x" "y = Some (?m d)" for d x
    proof -
      from since [OF that(1)] that(2) have "since_of (sy_pc s d) = Some x" "y = Some (sy_me s d)" by simp_all
      with S show ?thesis by blast
    qed
  next
    show "b = d" if "in_call (?q b)" "in_call (?q d)" "?m b = ?m d" for b d
      using that D(7) [of b d] m by (auto simp: free_caller_def split: if_splits)
  qed
  moreover have "lock_inv False (sy_lock s) ?q" by (rule lock_inv_goto [OF I(1)]) (use q' in \<open>simp_all add: p carries_def\<close>)
  moreover have "queue_inv (sy_lock s) ?q" by (rule queue_inv_goto [OF I(3)]) (use q' in \<open>simp_all add: p\<close>)
  moreover have "count_inv (sy_lock s) ?q" by (rule count_inv_goto [OF I(4)]) (use q' in \<open>simp add: p\<close>)
  ultimately show ?thesis using I(5,6) q' by (simp add: slot_inv_def)
qed

section \<open>Every reachable state\<close>

text \<open>
  What the runs below exclude: a thread interrupted just as it was given a lock that a \<open>close\<close> had
  replaced meanwhile (\<open>acquire\<close> then releases the current lock in its place), and a \<open>release\<close> of a
  reserved slot that overlaps another release of it or the transaction that takes it.
\<close>

definition orderly :: "slot_sys \<Rightarrow> slot_event \<Rightarrow> bool" where
  "orderly s e = (case e of
     Unwind a \<Rightarrow> (case sy_pc s a of Interrupted l got \<Rightarrow> got \<longrightarrow> l = wl_lock (sy_lock s) | _ \<Rightarrow> True)
   | Race a \<Rightarrow> False
   | _ \<Rightarrow> True)"

lemma slot_inv_step:
  assumes "slot_step s e s'" and "slot_inv s" and "orderly s e"
  shows "slot_inv s'"
  using assms
proof (induction rule: slot_step.induct)
  case (begin_acquire s a m hs)
  then show ?case by (intro slot_inv_begin) simp_all
next
  case (begin_areserve s a m hs)
  then show ?case by (intro slot_inv_begin) simp_all
next
  case (acq_check s a alive)
  show ?case
    by (rule slot_inv_goto [OF acq_check(2,1)])
      (auto simp: carries_def split: sum.splits)
next
  case (acq_read s a)
  show ?case by (rule slot_inv_goto [OF acq_read(2,1)]) (auto simp: carries_def)
next
  case (acq_try s a l)
  show ?case by (rule slot_inv_take [OF acq_try(3,1) _ _ _ acq_try(2)]) (auto simp: carries_def)
next
  case (acq_busy s a l)
  show ?case by (rule slot_inv_goto [OF acq_busy(3,1)]) (auto simp: carries_def)
next
  case (acq_wait s a lp r wl)
  then show ?case by (intro slot_inv_acq_wait)
next
  case (acq_wake s a l)
  show ?case by (rule slot_inv_take [OF acq_wake(3,1) _ _ _ acq_wake(2)]) (auto simp: carries_def)
next
  case (acq_expire s a l)
  show ?case by (rule slot_inv_goto [OF acq_expire(2,1)]) (auto simp: carries_def)
next
  case (acq_signal s a l)
  have "l \<le> wl_lock (sy_lock s)" using lock_invD(8) [OF slot_invD(1) [OF acq_signal(2)], of a] acq_signal(1) by simp
  then show ?case by (intro slot_inv_goto [OF acq_signal(2,1)]) (auto simp: carries_def)
next
  case (acq_signal_took s a l)
  show ?case by (rule slot_inv_take [OF acq_signal_took(3,1) _ _ _ acq_signal_took(2)]) (auto simp: carries_def)
next
  case (acq_expired s a lp r wl)
  from slot_inv_stop [OF acq_expired(3,1) _ _ _ acq_expired(2)] show ?case by (auto simp: carries_def)
next
  case (acq_unwind s a l got lp r wl)
  then have "got \<Longrightarrow> l = wl_lock (sy_lock s)" by (simp add: orderly_def)
  from slot_inv_unwind [OF acq_unwind(3,1) this acq_unwind(2)] show ?case by auto
next
  case (acq_record s a l waited lp r wl)
  then show ?case by (intro slot_inv_record)
next
  case (acq_lost s a l r wl)
  from slot_inv_lost [OF acq_lost(3,1,2)] show ?case by auto
next
  case (resv_check s a)
  show ?case by (rule slot_inv_goto [OF resv_check(2,1)]) (auto simp: carries_def split: if_splits)
next
  case (resv_read s a)
  show ?case by (rule slot_inv_goto [OF resv_read(2,1)]) (auto simp: carries_def)
next
  case (resv_enter s a since lp r wl)
  then show ?case by (intro slot_inv_enter)
next
  case (resv_queue s a w since)
  show ?case by (rule slot_inv_goto [OF resv_queue(2,1)]) (auto simp: carries_def)
next
  case (resv_wake s a w since)
  show ?case by (rule slot_inv_goto [OF resv_wake(3,1)]) (use resv_wake(2) in \<open>auto simp: carries_def\<close>)
next
  case (resv_timeout s a w since st wl)
  from slot_inv_leave [OF resv_timeout(3,1) _ _ _ _ resv_timeout(2)] show ?case by (auto simp: carries_def)
next
  case (resv_cancel s a w since st wl)
  from slot_inv_leave [OF resv_cancel(3,1) _ _ _ _ resv_cancel(2)] show ?case by (auto simp: carries_def)
next
  case (resv_pass s a w e lp r wl)
  from slot_inv_pass [OF resv_pass(3,1,2)] show ?case by auto
next
  case (resv_granted s a w since r wl)
  then show ?case by (intro slot_inv_granted)
next
  case (resv_return s a l since st)
  have "l \<le> wl_lock (sy_lock s)" using lock_invD(8) [OF slot_invD(1) [OF resv_return(2)], of a] resv_return(1) by simp
  then show ?case by (intro slot_inv_goto [OF resv_return(2,1)]) (auto simp: carries_def ws_held_def)
next
  case (resv_interrupt s a l since)
  have "l \<le> wl_lock (sy_lock s)" using lock_invD(8) [OF slot_invD(1) [OF resv_interrupt(2)], of a] resv_interrupt(1) by simp
  then show ?case by (intro slot_inv_goto [OF resv_interrupt(2,1)]) (auto simp: carries_def)
next
  case (resv_interrupt_queue s a w since)
  show ?case by (rule slot_inv_goto [OF resv_interrupt_queue(2,1)]) (auto simp: carries_def)
next
  case (resv_undo s a lo since wo e lp r wl)
  from slot_inv_undo [OF resv_undo(3,1,2)] show ?case by auto
next
  case (resv_undo_queue s a w st wl)
  from slot_inv_leave [OF resv_undo_queue(3,1) _ _ _ _ resv_undo_queue(2)] show ?case by (auto simp: carries_def)
next
  case (hold_release s a l lp r wl)
  from slot_inv_release [OF hold_release(3,1) _ _ _ _ _ _ _ _ _ _ _ _ _ hold_release(2), of Idle] show ?case by (auto simp: carries_def)
next
  case (slot_take s a ws tx rs m storage r wl ws')
  then show ?case by (intro slot_inv_take_slot)
next
  case (slot_take_race s a ws tx rs m storage l previous wl ws' rs')
  then show ?case by (simp add: orderly_def)
next
  case (slot_give_back s a ws p rs wl ws')
  then show ?case by (intro slot_inv_give_back)
next
  case (slot_ended s a ws p rs lp r wl)
  from slot_inv_ended [OF slot_ended(3,1,2)] show ?case by auto
next
  case (slot_check s a ws tx rs)
  have "slot_shape (Slot ws tx rs)" using slot_invD(6) [OF slot_check(3), of a] slot_check(1) by simp
  moreover have "rs = []" using slot_check(4) by (auto simp: orderly_def split: if_splits)
  ultimately show ?case by (intro slot_inv_same [OF slot_check(3,1)]) (use slot_check(2) in \<open>auto simp: ws_held_def\<close>)
next
  case (slot_mark s a ws tx rs)
  have "slot_shape (Slot ws tx rs)" using slot_invD(6) [OF slot_mark(3), of a] slot_mark(1) by simp
  then have "tx = None" "rs = [False]" using slot_mark(2) by (cases rs; force)+
  then show ?case by (intro slot_inv_same [OF slot_mark(3,1)]) (simp_all add: ws_mark_def)
next
  case (slot_released s a ws tx rs lp r wl)
  from slot_inv_released [OF slot_released(4,1,2,3)] show ?case by auto
next
  case (failed s a e)
  show ?case by (rule slot_inv_goto [OF failed(2,1)]) (auto simp: carries_def)
next
  case (close s r wl)
  from slot_inv_close(2) [OF close(2,1)] show ?case .
qed

lemma slot_inv_new: "slot_inv new_slot_sys"
  by (simp add: slot_inv_def new_slot_sys_def new_writer_lock_def lock_inv_def owner_inv_def queue_inv_def count_inv_def attended_def
      carries_def)

lemma slot_reached_inv: "slot_reached orderly s \<Longrightarrow> slot_inv s"
  by (induction rule: slot_reached.induct) (blast intro: slot_inv_new slot_inv_step)+

end
