(* ===== verification/Write_Slot_Order.thy ===== *)
theory Write_Slot_Order
  imports Write_Slot_Run
begin

text \<open>
  The order in which the queue is served: how far a waiter is from the head, and how often a thread
  can still take the lock before it.
\<close>

section \<open>Turns\<close>

text \<open>Coroutines ahead, plus one if the slot is free, or the next release may unlock it for the threads.\<close>

definition ahead :: "nat \<Rightarrow> nat list \<Rightarrow> nat" where
  "ahead w ws = length (takeWhile (\<lambda>x. x \<noteq> w) ws)"

definition turns :: "nat \<Rightarrow> writer_lock \<Rightarrow> nat" where
  "turns w wl = ahead w (wl_waiters wl) + of_bool (wl_barge_next wl \<or> \<not> wl_locked wl (wl_lock wl))"

definition barge_ok :: "writer_lock \<Rightarrow> bool" where
  "barge_ok wl \<longleftrightarrow> (wl_barge_next wl \<longrightarrow> wl_locked wl (wl_lock wl))"

text \<open>A section lets nobody overtake.\<close>

definition keeps_turns :: "writer_lock \<Rightarrow> writer_lock \<Rightarrow> bool" where
  "keeps_turns wl wl' \<longleftrightarrow> (barge_ok wl \<longrightarrow> barge_ok wl') \<and> set (wl_waiters wl') \<subseteq> set (wl_waiters wl) \<and>
     (\<forall>w \<in> set (wl_waiters wl'). turns w wl' \<le> turns w wl)"

lemma keeps_turns_refl [simp]: "keeps_turns wl wl"
  by (simp add: keeps_turns_def)

lemma keeps_turns_trans: "keeps_turns u v \<Longrightarrow> keeps_turns v w \<Longrightarrow> keeps_turns u w"
  unfolding keeps_turns_def by (meson order_trans subset_eq)

lemma ahead_append: "w \<in> set xs \<Longrightarrow> ahead w (xs @ ys) = ahead w xs"
  by (auto simp: ahead_def takeWhile_append)

lemma ahead_pre: "w \<notin> set pre \<Longrightarrow> ahead w (pre @ ys) = length pre + ahead w ys"
  by (auto simp: ahead_def takeWhile_append)

lemma ahead_remove1: "w \<noteq> x \<Longrightarrow> ahead w (remove1 x ws) \<le> ahead w ws"
  by (induction ws) (auto simp: ahead_def)

text \<open>The frame fields and the heap do not count.\<close>

lemma turns_same:
  assumes "wl_waiters v = wl_waiters wl" and "wl_barge_next v = wl_barge_next wl" and "wl_locked v = wl_locked wl" and "wl_lock v = wl_lock wl"
  shows "keeps_turns wl v" and "keeps_turns v u = keeps_turns wl u" and "barge_ok v = barge_ok wl"
  using assms by (simp_all add: keeps_turns_def turns_def barge_ok_def)

lemma handed_turns:
  assumes d: "distinct (wl_waiters wl)" and h: "handed (wl_waiters wl) wl'" and l: "wl_lock wl' = wl_lock wl"
  shows "barge_ok wl'" and "keeps_turns wl wl'"
proof -
  show b: "barge_ok wl'" using h by (auto simp: handed_def barge_ok_def split: if_splits)
  show "keeps_turns wl wl'"
  proof (cases "wl_locked wl' (wl_lock wl')")
    case False
    with h b show ?thesis by (simp add: handed_def keeps_turns_def)
  next
    case True
    with h obtain pre x where p: "wl_waiters wl = pre @ x # wl_waiters wl'" by (auto simp: handed_def)
    have "turns w wl' \<le> turns w wl" if "w \<in> set (wl_waiters wl')" for w
    proof -
      have "w \<notin> set (pre @ [x])" using d that by (auto simp: p)
      from ahead_pre [OF this, of "wl_waiters wl'"] show ?thesis by (simp add: turns_def p)
    qed
    with b p show ?thesis by (auto simp: keeps_turns_def)
  qed
qed

lemma release_locked_turns:
  assumes "lock_inv True wl pc" and "queue_inv wl pc" and "release_locked lp wl = (r, wl')"
  shows "barge_ok wl'" and "keeps_turns wl wl'"
proof -
  note R = release_locked_inv(5) [OF assms]
  have l: "wl_lock wl' = wl_lock wl" using framed_release_locked [OF assms(3)] by (simp add: framed_def)
  have d: "distinct (wl_waiters wl)" by (rule queue_invD(1) [OF assms(2)])
  have "barge_ok wl' \<and> keeps_turns wl wl'"
  proof (cases "handed (wl_waiters wl) wl'")
    case True
    with handed_turns [OF d _ l] show ?thesis by blast
  next
    case False
    with R have u: "wl_waiters wl' = wl_waiters wl" "\<not> wl_locked wl' (wl_lock wl)" "\<not> wl_barge_next wl'"
      "wl_waiters wl \<noteq> [] \<longrightarrow> wl_barge_next wl" by blast+
    then have "turns w wl' \<le> turns w wl" if "w \<in> set (wl_waiters wl')" for w
      using that by (cases "wl_waiters wl") (auto simp: turns_def)
    with u show ?thesis by (auto simp: keeps_turns_def barge_ok_def)
  qed
  then show "barge_ok wl'" "keeps_turns wl wl'" by simp_all
qed

lemma reclaim_turns:
  assumes i: "lock_inv False wl pc" "queue_inv wl pc" and f: "reclaim_dead_pending lp wl = (r, wl')"
  shows "keeps_turns wl wl'"
proof (cases "wl_pending wl")
  case None
  with f show ?thesis by (simp add: reclaim_dead_pending_def)
next
  case (Some p)
  let ?v = "(set_state p Abandoned wl)\<lparr>wl_pending := None\<rparr>"
  have g: "wt_state (wl_heap wl p) = Granted" "wt_lock (wl_heap wl p) = Some (wl_lock wl)" using queue_invD(4) [OF i(2) Some] by simp_all
  show ?thesis
  proof (cases "lp_closed lp p")
    case False
    with f Some g show ?thesis by (simp add: reclaim_dead_pending_def)
  next
    case True
    have "wt_lock (wl_heap ?v p) = Some (wl_lock ?v)" using g(2) by (simp add: set_state_def)
    with f Some g True have "release_locked lp ?v = (r, wl')" by (simp add: reclaim_dead_pending_def Let_def)
    from release_locked_turns(2) [OF pending_gone [OF i Some] this] show ?thesis
      by (subst (asm) turns_same(2) [of _ wl]) (simp_all add: set_state_def)
  qed
qed

lemma rescue_turns:
  assumes i: "lock_inv False wl pc" "queue_inv wl pc" and f: "rescue_queue lp wl = (r, wl')"
  shows "keeps_turns wl wl'"
proof (cases "wl_waiters wl \<noteq> [] \<and> \<not> wl_locked wl (wl_lock wl)")
  case False
  with f show ?thesis by (auto simp: rescue_queue_def)
next
  case True
  let ?v = "set_locked (wl_lock wl) True wl"
  have v: "lock_inv True ?v pc" "queue_inv ?v pc" using lock_inv_steal i True by (auto simp: queue_inv_locked)
  have h: "hand_off lp ?v = (r, wl')" using f True by (simp add: rescue_queue_def)
  have "wl_lock wl' = wl_lock ?v" using framed_hand_off [OF h] by (simp add: framed_def)
  from handed_turns [OF queue_invD(1) [OF v(2)] hand_off_inv(4) [OF v h] this]
  have b: "barge_ok wl'" and k: "keeps_turns ?v wl'" by simp_all
  have "turns w ?v \<le> turns w wl" for w using True by (simp add: turns_def set_locked_def)
  with b k show ?thesis by (auto simp: keeps_turns_def set_locked_def intro: order_trans)
qed

lemma pass_on_turns:
  assumes i: "lock_inv False wl pc" "queue_inv wl pc" and w: "waits (pc a) = Some w" and f: "pass_on lp w wl = (r, wl')"
  shows "keeps_turns wl wl'"
proof (cases "wt_state (wl_heap wl w) = Granted")
  case False
  with f show ?thesis by (simp add: pass_on_def)
next
  case g: True
  show ?thesis
  proof (cases "wt_lock (wl_heap wl w) = Some (wl_lock wl)")
    case True
    let ?v = "(set_state w Abandoned wl)\<lparr>wl_pending := None\<rparr>"
    have p: "wl_pending wl = Some w" using queue_invD(8) [OF i(2) w g True] .
    have "release_locked lp ?v = (r, wl')" using f g p True by (simp add: pass_on_def Let_def set_state_def)
    from release_locked_turns(2) [OF pending_gone [OF i p] this] show ?thesis
      by (subst (asm) turns_same(2) [of _ wl]) (simp_all add: set_state_def)
  next
    case False
    then have "wl_pending wl \<noteq> Some w" using queue_invD(4) [OF i(2)] by blast
    with f g False have "wl' = set_state w Abandoned wl" by (auto simp: pass_on_def Let_def set_state_def)
    then show ?thesis by (simp add: turns_same(1) set_state_def)
  qed
qed

lemma leave_queue_turns:
  assumes "queue_inv wl pc" and "leave_queue w wl = (st, wl')"
  shows "keeps_turns wl wl'"
proof (cases "wt_state (wl_heap wl w) = Waiting")
  case False
  with assms show ?thesis by (auto simp: leave_queue_def)
next
  case True
  then have e: "wl' = wl\<lparr>wl_waiters := remove1 w (wl_waiters wl)\<rparr>" using assms(2) by (auto simp: leave_queue_def)
  have s: "set (remove1 w (wl_waiters wl)) = set (wl_waiters wl) - {w}" using queue_invD(1) [OF assms(1)] by simp
  show ?thesis using ahead_remove1 [of _ w "wl_waiters wl"] by (auto simp: e keeps_turns_def turns_def barge_ok_def s)
qed

lemma drop_turns:
  assumes s: "slot_inv s" and r: "recorded (wl_lock (sy_lock s)) (sy_pc s a)"
    and f: "release_locked lp ((sy_lock s)\<lparr>wl_owner := None, wl_hold := None\<rparr>) = (r, wl')"
  shows "keeps_turns (sy_lock s) wl'"
proof -
  note I = slot_invD [OF s]
  let ?u = "(sy_lock s)\<lparr>wl_owner := None, wl_hold := None\<rparr>"
  let ?p = "case waits (sy_pc s a) of None \<Rightarrow> Idle | Some w \<Rightarrow> Undo_Queue w" let ?q = "(sy_pc s)(a := ?p)"
  have p: "carries c ?p k = False" "at_least ?p = 0" "waits ?p = waits (sy_pc s a)" "awake ?p = False" for c k
    by (simp_all add: carries_def split: option.splits)
  have "lock_inv True (sy_lock s) ?q" by (rule lock_inv_drop [OF I(1) recorded_carries [OF r]]) (simp_all add: p)
  moreover have "queue_inv (sy_lock s) ?q" by (rule queue_inv_goto [OF I(3)]) (simp_all add: p)
  ultimately have "lock_inv True ?u ?q" "queue_inv ?u ?q" by (simp_all only: lock_inv_other queue_inv_other)
  from release_locked_turns(2) [OF this f] show ?thesis by (subst (asm) turns_same(2) [of _ "sy_lock s"]) simp_all
qed

lemma slot_release_turns:
  assumes s: "slot_inv s" and p: "sy_pc s a = q0" "recorded (wl_lock (sy_lock s)) q0 = (l = wl_lock (sy_lock s))"
    and f: "slot_release lp (Some l) (sy_lock s) = (r, wl')"
  shows "keeps_turns (sy_lock s) wl'"
proof (cases "l = wl_lock (sy_lock s)")
  case False
  with f show ?thesis by (auto simp: slot_release_def)
next
  case True
  then have r: "recorded (wl_lock (sy_lock s)) (sy_pc s a)" using p by simp
  have "wl_locked (sy_lock s) (wl_lock (sy_lock s))" by (rule lock_invD(2) [OF slot_invD(1) [OF s] recorded_carries [OF r]])
  with f True show ?thesis by (intro drop_turns [OF s r]) (simp add: slot_release_def)
qed

section \<open>Turns of a whole step\<close>

text \<open>A take of the current lock uses up a turn; new waiters come last.\<close>

definition takes_lock :: "slot_sys \<Rightarrow> slot_event \<Rightarrow> bool" where
  "takes_lock s e = (case e of Takes a l \<Rightarrow> l = wl_lock (sy_lock s) | _ \<Rightarrow> False)"

definition step_turns :: "slot_sys \<Rightarrow> slot_event \<Rightarrow> writer_lock \<Rightarrow> bool" where
  "step_turns s e wl \<longleftrightarrow> (barge_ok (sy_lock s) \<longrightarrow> barge_ok wl \<and>
     (\<forall>w \<in> set (wl_waiters (sy_lock s)). w \<in> set (wl_waiters wl) \<longrightarrow> turns w wl + of_bool (takes_lock s e) \<le> turns w (sy_lock s)))"

lemma step_turnsI: "keeps_turns (sy_lock s) wl \<Longrightarrow> \<not> takes_lock s e \<Longrightarrow> step_turns s e wl"
  by (auto simp: step_turns_def keeps_turns_def)

lemma takes_turns:
  assumes "\<not> wl_locked (sy_lock s) l"
  shows "step_turns s (Takes a l) (set_locked l True (sy_lock s))"
  using assms by (auto simp: step_turns_def takes_lock_def barge_ok_def turns_def set_locked_def)

lemma record_hold_turns: "keeps_turns u (record_hold m wl) = keeps_turns u wl" "turns w (record_hold m wl) = turns w wl"
    "barge_ok (record_hold m wl) = barge_ok wl" "wl_waiters (record_hold m wl) = wl_waiters wl"
  by (simp_all add: keeps_turns_def turns_def barge_ok_def record_hold_def)

lemma sync_turns: "keeps_turns u (wl\<lparr>wl_sync_waiting := n\<rparr>) = keeps_turns u wl" "keeps_turns (wl\<lparr>wl_sync_waiting := n\<rparr>) u = keeps_turns wl u"
  by (simp_all add: keeps_turns_def turns_def barge_ok_def)

lemma stop_wait_turns:
  assumes i: "lock_inv False wl pc" "queue_inv wl pc" and f: "stop_wait lp wl = (r, wl')"
  shows "keeps_turns wl wl'"
proof -
  let ?u = "wl\<lparr>wl_sync_waiting := wl_sync_waiting wl - 1\<rparr>"
  obtain r1 v where v: "reclaim_dead_pending lp ?u = (r1, v)" by (cases "reclaim_dead_pending lp ?u")
  have u: "lock_inv False ?u pc" "queue_inv ?u pc" using i by (simp_all add: lock_inv_heap queue_inv_locked)
  note R = reclaim_inv [OF u v]
  have w: "rescue_queue lp v = (r, wl')" using f v R(1) by (simp add: stop_wait_def seq_def)
  from keeps_turns_trans [OF reclaim_turns [OF u v] rescue_turns [OF R(2,3) w]] show ?thesis by (simp only: sync_turns)
qed

lemma slot_step_turns:
  assumes "slot_step s e s'" and "slot_inv s" and "orderly s e"
  shows "step_turns s e (sy_lock s')"
  using assms
proof (induction rule: slot_step.induct)
  case (acq_try s a l)
  then show ?case using takes_turns by simp
next
  case (acq_wait s a lp r wl)
  note I = slot_invD [OF acq_wait(3)]
  obtain r1 v where v: "reclaim_dead_pending lp (sy_lock s) = (r1, v)" by (cases "reclaim_dead_pending lp (sy_lock s)")
  have "wl = v\<lparr>wl_sync_waiting := wl_sync_waiting v + 1\<rparr>"
    using acq_wait(2) v reclaim_inv(1) [OF I(1,3) v] by (simp add: start_wait_def seq_def)
  with reclaim_turns [OF I(1,3) v] show ?case by (intro step_turnsI) (simp_all add: sync_turns takes_lock_def)
next
  case (acq_wake s a l)
  then show ?case using takes_turns by simp
next
  case (acq_signal_took s a l)
  then show ?case using takes_turns by simp
next
  case (acq_expired s a lp r wl)
  note I = slot_invD [OF acq_expired(3)]
  from stop_wait_turns [OF I(1,3) acq_expired(2)] show ?case by (intro step_turnsI) (simp_all add: takes_lock_def)
next
  case (acq_unwind s a l got lp r wl)
  note I = slot_invD [OF acq_unwind(3)]
  have "keeps_turns (sy_lock s) wl"
  proof (cases got)
    case False
    with acq_unwind(2) stop_wait_turns [OF I(1,3)] show ?thesis by (simp add: unwind_wait_def)
  next
    case True
    let ?u = "(sy_lock s)\<lparr>wl_sync_waiting := wl_sync_waiting (sy_lock s) - 1\<rparr>" and ?q = "(sy_pc s)(a := Failed Interrupt)"
    have l: "l = wl_lock (sy_lock s)" using acq_unwind True by (simp add: orderly_def)
    have f: "release_locked lp ?u = (r, wl)" using acq_unwind(2) True by (simp add: unwind_wait_def)
    have "lock_inv True (sy_lock s) ?q" by (rule lock_inv_drop [OF I(1)]) (use acq_unwind(1) True l in \<open>simp_all add: carries_def\<close>)
    moreover have "queue_inv (sy_lock s) ?q" by (rule queue_inv_goto [OF I(3)]) (use acq_unwind(1) in simp_all)
    ultimately have "lock_inv True ?u ?q" "queue_inv ?u ?q" by (simp_all only: lock_inv_heap queue_inv_locked)
    from release_locked_turns(2) [OF this f] show ?thesis by (simp only: sync_turns)
  qed
  then show ?case by (intro step_turnsI) (simp_all add: takes_lock_def)
next
  case (acq_record s a l waited lp r wl)
  note I = slot_invD [OF acq_record(3)]
  let ?u = "(sy_lock s)\<lparr>wl_sync_waiting := wl_sync_waiting (sy_lock s) - 1\<rparr>"
  have "keeps_turns (sy_lock s) wl"
  proof (cases "l = wl_lock (sy_lock s)")
    case True
    with acq_record(2) show ?thesis by (auto simp: held_by_def Let_def record_hold_turns sync_turns split: if_splits)
  next
    case False
    show ?thesis
    proof (cases waited)
      case True
      obtain r1 v where v: "rescue_queue lp ?u = (r1, v)" by (cases "rescue_queue lp ?u")
      have "lock_inv False ?u (sy_pc s)" "queue_inv ?u (sy_pc s)" using I(1,3) by (simp_all add: lock_inv_heap queue_inv_locked)
      from rescue_turns [OF this v] have "keeps_turns (sy_lock s) v" by (simp only: sync_turns)
      moreover have "wl = v" using acq_record(2) False True v by (auto simp: held_by_def Let_def split: sum.splits)
      ultimately show ?thesis by simp
    next
      case f: False
      with acq_record(2) False show ?thesis by (simp add: held_by_def Let_def)
    qed
  qed
  then show ?case by (intro step_turnsI) (simp_all add: takes_lock_def)
next
  case (acq_lost s a l r wl)
  have "l < wl_lock (sy_lock s)" using lock_invD(8) [OF slot_invD(1) [OF acq_lost(3)], of a] acq_lost(1) by simp
  with acq_lost(2) have "keeps_turns (sy_lock s) wl"
    by (auto simp: raw_release_def keeps_turns_def turns_def barge_ok_def set_locked_def split: if_splits)
  then show ?case by (intro step_turnsI) (simp_all add: takes_lock_def)
next
  case (resv_enter s a since lp r wl)
  note I = slot_invD [OF resv_enter(3)]
  obtain r1 v where v: "reclaim_dead_pending lp (sy_lock s) = (r1, v)" by (cases "reclaim_dead_pending lp (sy_lock s)")
  have f: "(if wl_waiters v = [] \<and> wl_sync_waiting v = 0 \<and> \<not> wl_locked v (wl_lock v)
      then (Inr None, record_hold (sy_me s a) (set_locked (wl_lock v) True v)) else (Inr (Some (wl_next_waiter v)), enqueue v)) = (r, wl)"
    using resv_enter(2) v reclaim_inv(1) [OF I(1,3) v] by (simp add: reserve_def)
  have k: "keeps_turns (sy_lock s) v" by (rule reclaim_turns [OF I(1,3) v])
  show ?case
  proof (cases "wl_waiters v = [] \<and> wl_sync_waiting v = 0 \<and> \<not> wl_locked v (wl_lock v)")
    case True
    with f k show ?thesis
      by (auto simp: step_turns_def record_hold_def set_locked_def barge_ok_def)
  next
    case False
    with f have e: "wl = enqueue v" by auto
    have l: "turns w wl = turns w v" if "w \<in> set (wl_waiters v)" for w
      using that by (simp add: e turns_def enqueue_def ahead_append)
    have n: "w \<in> set (wl_waiters v)" if w: "w \<in> set (wl_waiters (sy_lock s))" "w \<in> set (wl_waiters wl)" for w
    proof -
      have "wl_next_waiter v = wl_next_waiter (sy_lock s)" using framed_reclaim [OF v] by (simp add: framed_def)
      moreover obtain b where "waits (sy_pc s b) = Some w" using queue_invD(3) [OF I(3)] w(1) by blast
      ultimately have "w \<noteq> wl_next_waiter v" using queue_invD(6) [OF I(3)] by fastforce
      with w(2) show ?thesis by (simp add: e enqueue_def)
    qed
    have "barge_ok wl = barge_ok v" by (simp add: e barge_ok_def enqueue_def)
    with k l n show ?thesis by (auto simp: step_turns_def keeps_turns_def takes_lock_def)
  qed
next
  case (resv_timeout s a w since st wl)
  from leave_queue_turns [OF slot_invD(3) [OF resv_timeout(3)] resv_timeout(2)] show ?case by (intro step_turnsI) (simp_all add: takes_lock_def)
next
  case (resv_cancel s a w since st wl)
  from leave_queue_turns [OF slot_invD(3) [OF resv_cancel(3)] resv_cancel(2)] show ?case by (intro step_turnsI) (simp_all add: takes_lock_def)
next
  case (resv_undo_queue s a w st wl)
  from leave_queue_turns [OF slot_invD(3) [OF resv_undo_queue(3)] resv_undo_queue(2)] show ?case by (intro step_turnsI) (simp_all add: takes_lock_def)
next
  case (resv_pass s a w e lp r wl)
  note I = slot_invD [OF resv_pass(3)]
  have "waits (sy_pc s a) = Some w" using resv_pass(1) by simp
  from pass_on_turns [OF I(1,3) this resv_pass(2)] show ?case by (intro step_turnsI) (simp_all add: takes_lock_def)
next
  case (resv_granted s a w since r wl)
  then have "keeps_turns (sy_lock s) wl"
    by (auto simp: granted_def record_hold_def intro!: turns_same(1) split: option.splits if_splits)
  then show ?case by (intro step_turnsI) (simp_all add: takes_lock_def)
next
  case (resv_undo s a lo since wo e lp r wl)
  have o: "if recorded (wl_lock (sy_lock s)) (sy_pc s a) then wl_owner (sy_lock s) = Some (sy_me s a) \<and> wl_hold (sy_lock s) \<noteq> since
      else wl_owner (sy_lock s) = Some (sy_me s a) \<longrightarrow> wl_hold (sy_lock s) = since"
    by (rule owner_invD(5) [OF slot_invD(2) [OF resv_undo(3)]]) (simp add: resv_undo(1))
  have "keeps_turns (sy_lock s) wl"
  proof (cases "recorded (wl_lock (sy_lock s)) (sy_pc s a)")
    case True
    have "wl_locked (sy_lock s) (wl_lock (sy_lock s))"
      by (rule lock_invD(2) [OF slot_invD(1) [OF resv_undo(3)] recorded_carries [OF True]])
    with o True resv_undo(2) show ?thesis by (intro drop_turns [OF resv_undo(3) True]) (simp add: release_if_owned_def)
  next
    case False
    with o resv_undo(2) show ?thesis by (auto simp: release_if_owned_def)
  qed
  then show ?case by (intro step_turnsI) (simp_all add: takes_lock_def)
next
  case (hold_release s a l lp r wl)
  from slot_release_turns [OF hold_release(3,1) _ hold_release(2)] show ?case by (intro step_turnsI) (simp_all add: takes_lock_def)
next
  case (slot_take s a ws tx rs m storage r wl ws')
  then have "keeps_turns (sy_lock s) wl" by (auto simp: take_slot_def ws_take_def intro!: turns_same(1) split: if_splits)
  then show ?case by (intro step_turnsI) (simp_all add: takes_lock_def)
next
  case (slot_take_race s a ws tx rs m storage l previous wl ws' rs')
  then show ?case by (simp add: orderly_def)
next
  case (slot_give_back s a ws p rs wl ws')
  then have "keeps_turns (sy_lock s) wl" by (auto simp: give_back_def intro!: turns_same(1) split: if_splits)
  then show ?case by (intro step_turnsI) (simp_all add: takes_lock_def)
next
  case (slot_ended s a ws p rs lp r wl)
  from slot_release_turns [OF slot_ended(3,1) _ slot_ended(2)] show ?case
    by (intro step_turnsI) (simp_all add: takes_lock_def)
next
  case (slot_released s a ws tx rs lp r wl)
  then have "rs \<noteq> []" by auto
  with slot_release_turns [OF slot_released(4,1) _ slot_released(3)] show ?case
    by (intro step_turnsI) (simp_all add: takes_lock_def)
next
  case (close s r wl)
  then have "wl_waiters wl = []" "\<not> wl_barge_next wl"
    by (auto simp: slot_close_def Let_def seq_def skip_def raw_release_def set_locked_def split: if_splits)
  then show ?case by (simp add: step_turns_def barge_ok_def)
qed (auto intro!: step_turnsI simp: takes_lock_def)

end
