(* ===== verification/Write_Slot_Props.thy ===== *)
theory Write_Slot_Props
  imports Write_Slot_Order
begin

text \<open>The properties of the writer slot, in every interleaving of the calls of threads and coroutines.\<close>

section \<open>Calls end without a lock error\<close>

fun lock_error :: "pc \<Rightarrow> bool" where
  "lock_error (Failed e) = (e = RuntimeError)"
| "lock_error (Passing w e) = (e = RuntimeError)"
| "lock_error (Undo_Own lo since wo e) = (e = RuntimeError)"
| "lock_error _ = False"

lemma start_wait_ok: "slot_inv s \<Longrightarrow> start_wait lp (sy_lock s) = (r, wl) \<Longrightarrow> r = Inr ()"
proof -
  assume s: "slot_inv s" and f: "start_wait lp (sy_lock s) = (r, wl)"
  obtain r1 v where v: "reclaim_dead_pending lp (sy_lock s) = (r1, v)" by (cases "reclaim_dead_pending lp (sy_lock s)")
  from reclaim_inv(1) [OF slot_invD(1) [OF s] slot_invD(3) [OF s] v] v f show "r = Inr ()" by (simp add: start_wait_def seq_def)
qed

lemma reserve_ok: "slot_inv s \<Longrightarrow> reserve lp m (sy_lock s) = (r, wl) \<Longrightarrow> \<exists>x. r = Inr x"
proof -
  assume s: "slot_inv s" and f: "reserve lp m (sy_lock s) = (r, wl)"
  obtain r1 v where v: "reclaim_dead_pending lp (sy_lock s) = (r1, v)" by (cases "reclaim_dead_pending lp (sy_lock s)")
  from reclaim_inv(1) [OF slot_invD(1) [OF s] slot_invD(3) [OF s] v] v f show "\<exists>x. r = Inr x" by (auto simp: reserve_def split: if_splits)
qed

lemma held_by_ok: "slot_inv s \<Longrightarrow> held_by lp m l waited (sy_lock s) = (r, wl) \<Longrightarrow> \<exists>x. r = Inr x"
proof -
  assume s: "slot_inv s" and f: "held_by lp m l waited (sy_lock s) = (r, wl)"
  let ?u = "(sy_lock s)\<lparr>wl_sync_waiting := wl_sync_waiting (sy_lock s) - 1\<rparr>"
  obtain r1 v where v: "rescue_queue lp ?u = (r1, v)" by (cases "rescue_queue lp ?u")
  have "lock_inv False ?u (sy_pc s)" "queue_inv ?u (sy_pc s)" using slot_invD [OF s] by (simp_all only: lock_inv_heap queue_inv_locked)
  from rescue_inv(1) [OF this v] v f show "\<exists>x. r = Inr x" by (auto simp: held_by_def Let_def split: if_splits)
qed

lemma slot_step_no_error:
  assumes "slot_step s e s'" and "slot_inv s" and "orderly s e" and "\<And>a. \<not> lock_error (sy_pc s a)"
  shows "\<not> lock_error (sy_pc s' b)"
  using assms
proof (induction rule: slot_step.induct)
  case (acq_check s a alive)
  then show ?case by (auto split: sum.splits)
next
  case (acq_wait s a lp r wl)
  with start_wait_ok [OF acq_wait(3,2)] show ?case by auto
next
  case (acq_expired s a lp r wl)
  from slot_inv_stop [OF acq_expired(3,1) _ _ _ acq_expired(2)] acq_expired(5) show ?case by (auto simp: carries_def)
next
  case (acq_unwind s a l got lp r wl)
  then have "got \<Longrightarrow> l = wl_lock (sy_lock s)" by (simp add: orderly_def)
  from slot_inv_unwind [OF acq_unwind(3,1) this acq_unwind(2)] acq_unwind(5) show ?case by auto
next
  case (acq_record s a l waited lp r wl)
  from held_by_ok [OF acq_record(3,2)] acq_record(5) show ?case by (auto split: if_splits)
next
  case (acq_lost s a l r wl)
  from slot_inv_lost [OF acq_lost(3,1,2)] acq_lost(5) show ?case by auto
next
  case (resv_enter s a since lp r wl)
  from reserve_ok [OF resv_enter(3,2)] resv_enter(5) show ?case by (auto split: option.splits)
next
  case (resv_pass s a w e lp r wl)
  from slot_inv_pass [OF resv_pass(3,1,2)] resv_pass(1) resv_pass(5) [of a] resv_pass(5) show ?case by auto
next
  case (resv_granted s a w since r wl)
  then show ?case by (auto simp: granted_def split: option.splits if_splits)
next
  case (resv_undo s a lo since wo e lp r wl)
  from slot_inv_undo [OF resv_undo(3,1,2)] resv_undo(1) resv_undo(5) [of a] resv_undo(5) show ?case by (auto split: option.splits)
next
  case (hold_release s a l lp r wl)
  from slot_inv_release [OF hold_release(3,1) _ _ _ _ _ _ _ _ _ _ _ _ _ hold_release(2), of Idle] hold_release(5)
  show ?case by (auto simp: carries_def)
next
  case (slot_ended s a ws p rs lp r wl)
  from slot_inv_ended [OF slot_ended(3,1,2)] slot_ended(5) show ?case by auto
next
  case (slot_released s a ws tx rs lp r wl)
  from slot_inv_released [OF slot_released(4,1,2,3)] slot_released(6) show ?case by auto
qed auto

lemma slot_reached_no_error: "slot_reached orderly s \<Longrightarrow> \<not> lock_error (sy_pc s a)"
proof (induction arbitrary: a rule: slot_reached.induct)
  case reached_new
  show ?case by (simp add: new_slot_sys_def)
next
  case (reached_step s e s')
  from slot_step_no_error [OF reached_step(3) slot_reached_inv [OF reached_step(1)] reached_step(2,4)] show ?case .
qed

lemma slot_reached_barge: "slot_reached orderly s \<Longrightarrow> barge_ok (sy_lock s)"
proof (induction rule: slot_reached.induct)
  case reached_new
  show ?case by (simp add: new_slot_sys_def new_writer_lock_def barge_ok_def)
next
  case (reached_step s e s')
  from slot_step_turns [OF reached_step(3) slot_reached_inv [OF reached_step(1)] reached_step(2)] reached_step(4)
  show ?case by (simp add: step_turns_def)
qed

section \<open>Runs to look at\<close>

lemma acquire_free:
  assumes r: "slot_reached A s" and A: "\<And>s e. (\<forall>a. e \<noteq> Unwind a \<and> e \<noteq> Race a) \<Longrightarrow> A s e" and p: "sy_pc s a = Idle" and m: "free_caller s m"
    and o: "wl_owner (sy_lock s) = None \<or> (\<exists>t. wl_owner (sy_lock s) = Some (t, None))" and l: "\<not> wl_locked (sy_lock s) (wl_lock (sy_lock s))"
  shows "slot_reached A (goto a (Holding (wl_lock (sy_lock s)))
    (record_hold m (set_locked (wl_lock (sy_lock s)) True (sy_lock s))) (s\<lparr>sy_me := (sy_me s)(a := m), sy_marks := (sy_marks s)(a := [])\<rparr>))"
proof -
  let ?w = "sy_lock s" and ?t = "s\<lparr>sy_me := (sy_me s)(a := m), sy_marks := (sy_marks s)(a := [])\<rparr>"
  have g: "goto a p w (goto a q v t) = goto a p w t" for p q w v t by (simp add: goto_def)
  have c: "acquire_check alive ?w [] m = Inr ()" for alive using o by (auto simp: acquire_check_def is_nested_def split: option.splits)
  have "goto a Acq ?w s\<lparr>sy_me := (sy_me s)(a := m), sy_marks := (sy_marks s)(a := [])\<rparr> = goto a Acq ?w ?t" by (simp add: goto_def)
  with reached_step [OF r A begin_acquire [OF p m, of "[]"]] have "slot_reached A (goto a Acq ?w ?t)" by simp
  then have "slot_reached A (goto a Acq_Read ?w ?t)"
    by (rule reached_step [OF _ A]) (use slot_step.acq_check [of "goto a Acq ?w ?t" a "\<lambda>_. True"] in \<open>simp_all add: c g goto_def\<close>)
  then have "slot_reached A (goto a (Acq_Try (wl_lock ?w)) ?w ?t)"
    by (rule reached_step [OF _ A]) (use slot_step.acq_read [of "goto a Acq_Read ?w ?t" a] in \<open>simp_all add: g\<close>)
  then have "slot_reached A (goto a (Took (wl_lock ?w) False) (set_locked (wl_lock ?w) True ?w) ?t)"
    by (rule reached_step [OF _ A])
      (use slot_step.acq_try [of "goto a (Acq_Try (wl_lock ?w)) ?w ?t" a "wl_lock ?w"] l in \<open>simp_all add: g\<close>)
  then show ?thesis
    by (rule reached_step [OF _ A])
      (use slot_step.acq_record [of "goto a (Took (wl_lock ?w) False) (set_locked (wl_lock ?w) True ?w) ?t" a "wl_lock ?w" False
         undefined "Inr True" "record_hold m (set_locked (wl_lock ?w) True ?w)"] in \<open>simp_all add: g held_by_def set_locked_def goto_def\<close>)
qed

lemma upd_same [simp]: "(\<lambda>_. c)(a := c) = (\<lambda>_. c)"
  by (simp add: fun_eq_iff)

lemma goto_goto [simp]: "goto a p w (goto a q v t) = goto a p w t"
  by (simp add: goto_def)

lemma block_thread:
  assumes r: "slot_reached A s" and A: "\<And>s e. (\<forall>a. e \<noteq> Unwind a \<and> e \<noteq> Race a) \<Longrightarrow> A s e" and p: "sy_pc s a = Idle" and m: "free_caller s m"
    and o: "wl_owner (sy_lock s) = Some (t, None)" and l: "wl_locked (sy_lock s) (wl_lock (sy_lock s))" and n: "wl_pending (sy_lock s) = None"
  shows "slot_reached A (goto a (Blocked (wl_lock (sy_lock s))) ((sy_lock s)\<lparr>wl_sync_waiting := wl_sync_waiting (sy_lock s) + 1\<rparr>)
    (s\<lparr>sy_me := (sy_me s)(a := m), sy_marks := (sy_marks s)(a := [])\<rparr>))"
proof -
  let ?w = "sy_lock s" and ?t = "s\<lparr>sy_me := (sy_me s)(a := m), sy_marks := (sy_marks s)(a := [])\<rparr>"
  have c: "acquire_check alive ?w [] m = Inr ()" for alive using o by (simp add: acquire_check_def is_nested_def split: option.splits)
  have "goto a Acq ?w s\<lparr>sy_me := (sy_me s)(a := m), sy_marks := (sy_marks s)(a := [])\<rparr> = goto a Acq ?w ?t" by (simp add: goto_def)
  with reached_step [OF r A begin_acquire [OF p m, of "[]"]] have "slot_reached A (goto a Acq ?w ?t)" by simp
  then have "slot_reached A (goto a Acq_Read ?w ?t)"
    by (rule reached_step [OF _ A]) (use slot_step.acq_check [of "goto a Acq ?w ?t" a "\<lambda>_. True"] in \<open>simp_all add: c goto_def\<close>)
  then have "slot_reached A (goto a (Acq_Try (wl_lock ?w)) ?w ?t)"
    by (rule reached_step [OF _ A]) (use slot_step.acq_read [of "goto a Acq_Read ?w ?t" a] in simp_all)
  then have "slot_reached A (goto a Acq_Wait ?w ?t)"
    by (rule reached_step [OF _ A]) (use slot_step.acq_busy [of "goto a (Acq_Try (wl_lock ?w)) ?w ?t" a "wl_lock ?w"] l in simp_all)
  then show ?thesis
    by (rule reached_step [OF _ A])
      (use slot_step.acq_wait [of "goto a Acq_Wait ?w ?t" a undefined "Inr ()"] n in
        \<open>simp_all add: start_wait_def seq_def reclaim_dead_pending_def\<close>)
qed

lemma reserve_busy:
  assumes r: "slot_reached A s" and A: "\<And>s e. (\<forall>a. e \<noteq> Unwind a \<and> e \<noteq> Race a) \<Longrightarrow> A s e" and p: "sy_pc s a = Idle" and m: "free_caller s m"
    and l: "wl_locked (sy_lock s) (wl_lock (sy_lock s)) \<or> wl_sync_waiting (sy_lock s) \<noteq> 0" and n: "wl_pending (sy_lock s) = None"
  shows "slot_reached A (goto a (Queued (wl_next_waiter (sy_lock s)) (wl_hold (sy_lock s))) (enqueue (sy_lock s))
    (s\<lparr>sy_me := (sy_me s)(a := m), sy_marks := (sy_marks s)(a := [])\<rparr>))"
proof -
  let ?w = "sy_lock s" and ?t = "s\<lparr>sy_me := (sy_me s)(a := m), sy_marks := (sy_marks s)(a := [])\<rparr>"
  have q: "reserve lp m' ?w = (Inr (Some (wl_next_waiter ?w)), enqueue ?w)" for lp m'
    using l n by (auto simp: reserve_def reclaim_dead_pending_def)
  have c: "\<not> is_nested ?w [] m" by (simp add: is_nested_def split: option.splits)
  have "goto a Resv ?w s\<lparr>sy_me := (sy_me s)(a := m), sy_marks := (sy_marks s)(a := [])\<rparr> = goto a Resv ?w ?t" by (simp add: goto_def)
  with reached_step [OF r A begin_areserve [OF p m, of "[]"]] have "slot_reached A (goto a Resv ?w ?t)" by simp
  then have "slot_reached A (goto a Resv_Read ?w ?t)"
    by (rule reached_step [OF _ A]) (use slot_step.resv_check [of "goto a Resv ?w ?t" a] in \<open>simp_all add: c goto_def\<close>)
  then have "slot_reached A (goto a (Resv_Enter (wl_hold ?w)) ?w ?t)"
    by (rule reached_step [OF _ A]) (use slot_step.resv_read [of "goto a Resv_Read ?w ?t" a] in simp_all)
  then have "slot_reached A (goto a (Enqueued (wl_next_waiter ?w) (wl_hold ?w)) (enqueue ?w) ?t)"
    by (rule reached_step [OF _ A])
      (use slot_step.resv_enter [of "goto a (Resv_Enter (wl_hold ?w)) ?w ?t" a "wl_hold ?w" undefined "Inr (Some (wl_next_waiter ?w))"
         "enqueue ?w"] q in \<open>simp_all add: goto_def\<close>)
  then show ?thesis
    by (rule reached_step [OF _ A])
      (use slot_step.resv_queue [of "goto a (Enqueued (wl_next_waiter ?w) (wl_hold ?w)) (enqueue ?w) ?t" a] in simp_all)
qed

lemma no_unwind: "\<forall>a. e \<noteq> Unwind a \<and> e \<noteq> Race a \<Longrightarrow> orderly s e"
  by (cases e) (simp_all add: orderly_def)

text \<open>Thread 0 holds the slot and thread 1 is blocked in it; then a task on thread 2 queues.\<close>

definition blocked_sys :: slot_sys where
  "blocked_sys = \<lparr>sy_lock = (record_hold (0, None) (set_locked 0 True new_writer_lock))\<lparr>wl_sync_waiting := 1\<rparr>,
     sy_pc = (\<lambda>_. Idle)(0 := Holding 0, 1 := Blocked 0), sy_me = (\<lambda>_. (0, None))(1 := (1, None)), sy_marks = (\<lambda>_. [])\<rparr>"

lemmas sys_simps = record_hold_def set_locked_def new_writer_lock_def new_slot_sys_def enqueue_def

lemma blocked_sys_reached:
  assumes A: "\<And>s e. (\<forall>a. e \<noteq> Unwind a \<and> e \<noteq> Race a) \<Longrightarrow> A s e"
  shows "slot_reached A blocked_sys"
proof -
  let ?s = "goto 0 (Holding 0) (record_hold (0, None) (set_locked 0 True new_writer_lock)) new_slot_sys"
  have "slot_reached A new_slot_sys" by (rule reached_new)
  from acquire_free [where a = 0 and m = "(0, None)", OF this A] have s: "slot_reached A ?s"
    by (simp add: new_slot_sys_def new_writer_lock_def free_caller_def goto_def)
  have "free_caller ?s (1, None)" by (simp add: free_caller_def new_slot_sys_def)
  from block_thread [OF s A _ this, of 1 0] show ?thesis
    by (simp add: blocked_sys_def goto_def sys_simps)
qed

lemma busy_slot:
  assumes A: "\<And>s e. (\<forall>a. e \<noteq> Unwind a \<and> e \<noteq> Race a) \<Longrightarrow> A s e"
  shows "\<exists>s. slot_reached A s \<and> sy_pc s 0 = Holding 0 \<and> wl_lock (sy_lock s) = 0 \<and> wl_waiters (sy_lock s) = [0] \<and>
    sy_pc s 2 = Queued 0 (Some 0)"
proof -
  let ?s = "goto 2 (Queued 0 (Some 0)) (enqueue (sy_lock blocked_sys)) (blocked_sys\<lparr>sy_me := (sy_me blocked_sys)(2 := (2, Some 0)),
    sy_marks := (sy_marks blocked_sys)(2 := [])\<rparr>)"
  have "free_caller blocked_sys (2, Some 0)" by (simp add: free_caller_def blocked_sys_def)
  from reserve_busy [where a = 2, OF blocked_sys_reached [OF A] A _ this] have "slot_reached A ?s"
    by (simp add: blocked_sys_def sys_simps)
  then show ?thesis by (intro exI [of _ ?s]) (simp add: blocked_sys_def sys_simps)
qed

section \<open>Properties\<close>

definition holds_slot :: "slot_sys \<Rightarrow> nat \<Rightarrow> bool" where
  "holds_slot s a = recorded (wl_lock (sy_lock s)) (sy_pc s a)"

text \<open>C8: One writer at a time. In every interleaving of calls that wait, time out, are cancelled or
  interrupted, that take reserved slots over, give them back and release them step by step, with any
  number of closings in between, but for two things C12 shows to break it (a thread interrupted with a
  lock a \<open>close\<close> replaced meanwhile, and a \<open>release\<close> of a reserved slot that overlaps another release
  of it or the transaction that takes it), at most one caller holds the current slot; its lock is then
  locked, it has an owner and nobody else has been granted it; and no call ever releases an unlocked
  lock.\<close>

theorem one_writer:
  assumes "slot_reached orderly s"
  shows "(\<forall>a b. holds_slot s a \<longrightarrow> holds_slot s b \<longrightarrow> a = b) \<and>
    (\<forall>a. holds_slot s a \<longrightarrow> wl_locked (sy_lock s) (wl_lock (sy_lock s)) \<and> wl_owner (sy_lock s) \<noteq> None \<and> wl_pending (sy_lock s) = None) \<and>
    (\<forall>a. sy_pc s a \<noteq> Failed RuntimeError)"
proof (intro conjI allI impI)
  note I = slot_invD [OF slot_reached_inv [OF assms]]
  show "a = b" if "holds_slot s a" "holds_slot s b" for a b using recorded_unique [OF I(1)] that unfolding holds_slot_def by blast
  show "wl_locked (sy_lock s) (wl_lock (sy_lock s))" "wl_pending (sy_lock s) = None" if "holds_slot s a" for a
    using lock_invD(2,3) [OF I(1) recorded_carries] that unfolding holds_slot_def by blast+
  show "wl_owner (sy_lock s) \<noteq> None" if "holds_slot s a" for a using owner_invD(1) [OF I(2)] that unfolding holds_slot_def by blast
  show "sy_pc s a \<noteq> Failed RuntimeError" for a using slot_reached_no_error [OF assms, of a] by auto
qed

theorem one_writer_witness:
  "\<exists>s. slot_reached orderly s \<and> holds_slot s 0 \<and> \<not> holds_slot s 1 \<and> wl_owner (sy_lock s) \<noteq> None"
proof -
  obtain s where s: "slot_reached orderly s" "sy_pc s 0 = Holding 0" "wl_lock (sy_lock s) = 0"
    using busy_slot [of orderly, OF no_unwind] by blast
  then have h: "holds_slot s 0" by (simp add: holds_slot_def)
  with one_writer [OF s(1)] have "\<not> holds_slot s 1" "wl_owner (sy_lock s) \<noteq> None" by (metis zero_neq_one)+
  with s(1) h show ?thesis by blast
qed



text \<open>A run in which the waiter \<open>w\<close> stays in the queue, with how often a thread took the slot.\<close>

inductive overtaken :: "nat \<Rightarrow> slot_sys \<Rightarrow> nat \<Rightarrow> slot_sys \<Rightarrow> bool" for w s where
  overtaken_none: "w \<in> set (wl_waiters (sy_lock s)) \<Longrightarrow> overtaken w s 0 s"
| overtaken_step: "overtaken w s n t \<Longrightarrow> slot_step t e u \<Longrightarrow> orderly t e \<Longrightarrow> w \<in> set (wl_waiters (sy_lock u)) \<Longrightarrow>
    overtaken w s (n + of_bool (takes_lock t e)) u"

lemma overtaken_turns:
  assumes "overtaken w s n t" and "slot_reached orderly s"
  shows "slot_reached orderly t \<and> w \<in> set (wl_waiters (sy_lock t)) \<and> n + turns w (sy_lock t) \<le> turns w (sy_lock s)"
  using assms(1)
proof (induction rule: overtaken.induct)
  case overtaken_none
  with assms(2) show ?case by simp
next
  case (overtaken_step n t e u)
  from overtaken_step(5) have t: "slot_reached orderly t" "w \<in> set (wl_waiters (sy_lock t))"
    and le: "n + turns w (sy_lock t) \<le> turns w (sy_lock s)" by simp_all
  have "step_turns t e (sy_lock u)" by (rule slot_step_turns [OF overtaken_step(2) slot_reached_inv [OF t(1)] overtaken_step(3)])
  with slot_reached_barge [OF t(1)] t(2) overtaken_step(4)
  have "turns w (sy_lock u) + of_bool (takes_lock t e) \<le> turns w (sy_lock t)" by (auto simp: step_turns_def)
  with le overtaken_step(4) slot_reached.reached_step [OF t(1) overtaken_step(3,2)] show ?case by simp
qed





text \<open>A reserved slot, held by thread 0.\<close>

definition reserved_sys :: "pc \<Rightarrow> writer_lock \<Rightarrow> slot_sys" where
  "reserved_sys p wl = \<lparr>sy_lock = wl, sy_pc = (\<lambda>_. Idle)(0 := p), sy_me = (\<lambda>_. (0, None)), sy_marks = (\<lambda>_. [])\<rparr>"

lemma reserved_goto [simp]: "goto 0 p w (reserved_sys q v) = reserved_sys p w"
  by (simp add: reserved_sys_def goto_def)

lemma reserved_sel [simp]: "sy_pc (reserved_sys p v) 0 = p" "sy_lock (reserved_sys p v) = v" "sy_me (reserved_sys p v) 0 = (0, None)"
    "sy_marks (reserved_sys p v) 0 = []" "0 < a \<Longrightarrow> sy_pc (reserved_sys p v) a = Idle"
  by (simp_all add: reserved_sys_def)

lemma reserved_sys_reached:
  assumes A: "\<And>s e. (\<forall>a. e \<noteq> Unwind a \<and> e \<noteq> Race a) \<Longrightarrow> A s e"
  shows "slot_reached A (reserved_sys (Slot \<lparr>ws_storage = 0, ws_lock = 0, ws_state = Held\<rparr> None []) (record_hold (0, None) (set_locked 0 True new_writer_lock)))"
proof -
  let ?w = new_writer_lock let ?v = "record_hold (0, None) (set_locked 0 True ?w)"
  have step: "slot_reached A t" if "slot_reached A s" "slot_step s (Step a) t" for s t a by (rule reached_step [OF that(1) A that(2)]) simp
  have n: "new_slot_sys = reserved_sys Idle ?w" by (simp add: new_slot_sys_def reserved_sys_def)
  have "slot_reached A (reserved_sys Resv ?w)"
    using step [OF reached_new begin_areserve [of new_slot_sys 0 "(0, None)" "[]"]] by (simp add: new_slot_sys_def reserved_sys_def free_caller_def goto_def)
  from step [OF this slot_step.resv_check [of _ 0]] have "slot_reached A (reserved_sys Resv_Read ?w)"
    by (simp add: is_nested_def new_writer_lock_def)
  from step [OF this slot_step.resv_read [of _ 0]] have "slot_reached A (reserved_sys (Resv_Enter None) ?w)" by (simp add: new_writer_lock_def)
  moreover have "reserve lp (0, None) ?w = (Inr None, ?v)" for lp by (simp add: reserve_def reclaim_dead_pending_def new_writer_lock_def)
  ultimately have "slot_reached A (reserved_sys (Reserved 0 None) ?v)"
    using step [OF _ slot_step.resv_enter [of _ 0 None undefined "Inr None" ?v]] by (fastforce simp: new_writer_lock_def)
  from step [OF this slot_step.resv_return [of _ 0 0 None 0]] show ?thesis by simp
qed

text \<open>Two ways to two writers.\<close>

lemma stale_unwind_two_writers:
  "\<exists>s a b. slot_reached (\<lambda>_ e. \<forall>c. e \<noteq> Race c) s \<and> a \<noteq> b \<and> holds_slot s a \<and> holds_slot s b"
proof -
  let ?A = "\<lambda>_ e. \<forall>c. e \<noteq> Race c"
  have A: "?A s e" if "\<forall>c. e \<noteq> Unwind c \<and> e \<noteq> Race c" for s :: slot_sys and e using that by simp
  have step: "slot_reached ?A t" if "slot_reached ?A s" "slot_step s e t" "\<forall>c. e \<noteq> Race c" for s e t
    by (rule reached_step [OF that(1) _ that(2)]) (rule that(3))
  let ?w = "sy_lock blocked_sys"
  let ?c = "?w\<lparr>wl_lock := 1, wl_locked := \<lambda>_. False, wl_owner := None, wl_hold := None\<rparr>"
  have b: "slot_reached ?A blocked_sys" by (rule blocked_sys_reached) simp
  have "slot_close ?w = (Inr (), ?c)"
    by (auto simp add: slot_close_def Let_def seq_def raw_release_def blocked_sys_def sys_simps)
  from step [OF b slot_step.close [OF this]]
  have c: "slot_reached ?A (blocked_sys\<lparr>sy_lock := ?c\<rparr>)" by simp
  let ?t = "blocked_sys\<lparr>sy_lock := ?c\<rparr>"
  let ?i = "goto 1 (Interrupted 0 True) (set_locked 0 True ?c) ?t"
  have "slot_step ?t (Takes 1 0) ?i" using slot_step.acq_signal_took [of ?t 1 0] by (simp add: blocked_sys_def sys_simps)
  from step [OF c this] have i: "slot_reached ?A ?i" by simp
  have "free_caller ?i (3, None)" by (simp add: free_caller_def blocked_sys_def goto_def)
  from acquire_free [where a = 3, OF i A _ this] obtain s where
    s: "slot_reached ?A s" "s = goto 3 (Holding 1) (record_hold (3, None) (set_locked 1 True (sy_lock ?i)))
      (?i\<lparr>sy_me := (sy_me ?i)(3 := (3, None)), sy_marks := (sy_marks ?i)(3 := [])\<rparr>)"
    by (auto simp: blocked_sys_def sys_simps)
  let ?u = "(sy_lock s)\<lparr>wl_sync_waiting := 0, wl_locked := (\<lambda>_. False)(0 := True), wl_barge_next := False\<rparr>"
  have "unwind_wait lp True (sy_lock s) = (Inr (), ?u)" for lp
    by (simp add: unwind_wait_def release_locked_def seq_def raw_release_def s(2) blocked_sys_def sys_simps goto_def fun_eq_iff)
  from slot_step.acq_unwind [OF _ this, of 1 0] have "slot_step s (Unwind 1) (goto 1 (Failed Interrupt) ?u s)"
    by (simp add: s(2) goto_def)
  from step [OF s(1) this] have u: "slot_reached ?A (goto 1 (Failed Interrupt) ?u s)" by simp
  let ?f = "goto 1 (Failed Interrupt) ?u s"
  have "free_caller ?f (4, None)" by (simp add: free_caller_def s(2) blocked_sys_def goto_def)
  from acquire_free [where a = 4, OF u A _ this] have "slot_reached ?A (goto 4 (Holding 1) (record_hold (4, None) (set_locked 1 True ?u))
      (?f\<lparr>sy_me := (sy_me ?f)(4 := (4, None)), sy_marks := (sy_marks ?f)(4 := [])\<rparr>))" (is "slot_reached _ ?z")
    by (simp add: s(2) blocked_sys_def sys_simps goto_def)
  moreover have "holds_slot ?z 3" "holds_slot ?z 4" by (simp_all add: holds_slot_def s(2) blocked_sys_def sys_simps goto_def)
  ultimately show ?thesis by (intro exI [of _ ?z] exI [of _ 3] exI [of _ 4]) simp
qed

lemma release_race_two_writers:
  "\<exists>s a b. slot_reached (\<lambda>_ e. \<forall>c. e \<noteq> Unwind c) s \<and> a \<noteq> b \<and> holds_slot s a \<and> holds_slot s b"
proof -
  let ?A = "\<lambda>_ e. \<forall>c. e \<noteq> Unwind c"
  have A: "?A s e" if "\<forall>c. e \<noteq> Unwind c \<and> e \<noteq> Race c" for s :: slot_sys and e using that by simp
  have step: "slot_reached ?A t" if "slot_reached ?A s" "slot_step s e t" "\<forall>c. e \<noteq> Unwind c" for s e t
    by (rule reached_step [OF that(1) _ that(2)]) (rule that(3))
  let ?x = "\<lambda>st. \<lparr>ws_storage = 0, ws_lock = 0, ws_state = st\<rparr>" and ?o = "Some (Some (0, None))"
  let ?v = "record_hold (0, None) (set_locked 0 True new_writer_lock)" let ?t = "?v\<lparr>wl_owner := Some (1, None)\<rparr>"
  let ?u = "?t\<lparr>wl_owner := None, wl_hold := None, wl_locked := \<lambda>_. False\<rparr>"
  have "slot_reached ?A (reserved_sys (Slot (?x Held) None []) ?v)" by (rule reserved_sys_reached) simp
  from step [OF this slot_step.slot_check [of _ 0]] have c: "slot_reached ?A (reserved_sys (Slot (?x Held) None [False]) ?v)"
    by (simp add: ws_held_def)
  have "free_caller (reserved_sys (Slot (?x Held) None [False]) ?v) (1, None)" by (simp add: free_caller_def reserved_sys_def)
  moreover have "take_slot 0 (1, None) ?v (?x Held) = (Inr (0, Some (0, None)), ?t, ?x Taken)"
    by (simp add: take_slot_def ws_take_def record_hold_def set_locked_def new_writer_lock_def)
  ultimately have "slot_reached ?A (reserved_sys (Slot (?x Taken) ?o [False]) ?t)"
    using step [OF c slot_step.slot_take_race [of _ 0 "?x Held" None "[False]" _ _ 0 "Some (0, None)" ?t "?x Taken" "[False]"]] by fastforce
  from step [OF this slot_step.slot_mark [of _ 0]] have m: "slot_reached ?A (reserved_sys (Slot (?x Released) ?o [True]) ?t)"
    by (simp add: ws_mark_def)
  have "slot_release lp (Some 0) ?t = (Inr (), ?u)" for lp
    by (simp add: slot_release_def release_locked_def seq_def raw_release_def sys_simps fun_eq_iff)
  with step [OF m slot_step.slot_released [of _ 0 "?x Released" ?o "[True]" _ "Inr ()" ?u]]
  have r: "slot_reached ?A (reserved_sys (Slot (?x Released) ?o []) ?u)" by fastforce
  let ?r = "reserved_sys (Slot (?x Released) ?o []) ?u"
  have "free_caller ?r (2, None)" by (simp add: free_caller_def reserved_sys_def)
  from acquire_free [where a = 1, OF r A _ this] obtain s where s: "slot_reached ?A s"
    "s = goto 1 (Holding 0) (record_hold (2, None) (set_locked 0 True ?u)) (?r\<lparr>sy_me := (sy_me ?r)(1 := (2, None)), sy_marks := (sy_marks ?r)(1 := [])\<rparr>)"
    by (auto simp: sys_simps)
  have "holds_slot s 0" "holds_slot s 1" by (simp_all add: holds_slot_def s(2) sys_simps goto_def)
  with s(1) show ?thesis by (intro exI [of _ s] exI [of _ 0] exI [of _ 1]) simp
qed


end
