(* ===== verification/Subscriptions.thy ===== *)
theory Subscriptions
  imports Filters "HOL-Library.AList"
begin

text \<open>
  The subscription registry (\<open>tkv/observer/registry.py\<close>): a subscription is posted to the buckets of
  five indexes its filter names, a key is matched by looking up the buckets of its prefixes,
  suffixes, length and fixed-position signatures, and the candidates are checked with the exact
  filter. \<open>registry_ok\<close> is the invariant: every bucket holds exactly the registered subscriptions
  posted to it, and a wildcard bucket exists exactly when its signature is counted. It is kept by
  every operation, and it makes matching equivalent to filtering the registered subscriptions, for
  the filters the indexes can find.
\<close>

section \<open>Subscriptions\<close>

text \<open>A subscription is compared by identity; its filter never changes.\<close>

record subscription =
  sub_id :: nat
  sub_filter :: kfilter

section \<open>Indexes\<close>

text \<open>An index is a dict of sets; a missing bucket reads as empty.\<close>

type_synonym 'k index = "('k \<times> subscription set) list"

definition bucket :: "'k index \<Rightarrow> 'k \<Rightarrow> subscription set" where
  "bucket d k = (case map_of d k of None \<Rightarrow> {} | Some b \<Rightarrow> b)"

text \<open>\<open>d[k].add(s)\<close>, and \<open>d[k].discard(s)\<close> followed by the deletion of an empty bucket.\<close>

definition bucket_add :: "'k \<Rightarrow> subscription \<Rightarrow> 'k index \<Rightarrow> 'k index" where
  "bucket_add k s d = AList.update k (insert s (bucket d k)) d"

definition bucket_discard :: "'k \<Rightarrow> subscription \<Rightarrow> 'k index \<Rightarrow> 'k index" where
  "bucket_discard k s d =
     (let b = bucket d k - {s} in if b = {} then AList.delete k d else AList.update k b d)"

record registry =
  r_prefix :: "key index"
  r_suffix :: "key index"
  r_length :: "int index"
  r_wild :: "((nat \<times> nat list) \<times> key index) list"
  r_sigs :: "(nat \<times> (nat list \<times> nat) list) list"
  r_composite :: "subscription set"
  r_unindexed :: "subscription set"
  r_all :: "subscription set"

definition registry_empty :: registry where
  "registry_empty = \<lparr>r_prefix = [], r_suffix = [], r_length = [], r_wild = [], r_sigs = [],
     r_composite = {}, r_unindexed = {}, r_all = {}\<rparr>"

definition wildcard_signature :: "key \<Rightarrow> nat list \<times> key" where
  "wildcard_signature pattern =
     (let positions = map fst (filter (\<lambda>(i, seg). seg \<noteq> WILDCARD) (enumerate 0 pattern))
      in (positions, map (\<lambda>i. pattern ! i) positions))"

definition sigs_of :: "registry \<Rightarrow> nat \<Rightarrow> (nat list \<times> nat) list" where
  "sigs_of reg n = (case map_of (r_sigs reg) n of None \<Rightarrow> [] | Some sigs \<Rightarrow> sigs)"

definition index_wildcard :: "subscription \<Rightarrow> key \<Rightarrow> registry \<Rightarrow> registry" where
  "index_wildcard s pattern reg =
     (let n = length pattern; (positions, values) = wildcard_signature pattern;
          (by_values, reg) =
            (case map_of (r_wild reg) (n, positions) of
               Some by_values \<Rightarrow> (by_values, reg)
             | None \<Rightarrow>
                 let sigs = sigs_of reg n;
                     count = (case map_of sigs positions of None \<Rightarrow> 0 | Some c \<Rightarrow> c)
                 in ([], reg\<lparr>r_sigs := AList.update n (AList.update positions (count + 1) sigs) (r_sigs reg)\<rparr>))
      in reg\<lparr>r_wild := AList.update (n, positions) (bucket_add values s by_values) (r_wild reg)\<rparr>)"

fun index_filter :: "subscription \<Rightarrow> kfilter \<Rightarrow> registry \<Rightarrow> registry"
  and index_filters :: "subscription \<Rightarrow> kfilter list \<Rightarrow> registry \<Rightarrow> registry" where
  "index_filter s (PrefixFilter p) reg = reg\<lparr>r_prefix := bucket_add p s (r_prefix reg)\<rparr>"
| "index_filter s (SuffixFilter p) reg = reg\<lparr>r_suffix := bucket_add p s (r_suffix reg)\<rparr>"
| "index_filter s (LengthFilter n) reg = reg\<lparr>r_length := bucket_add n s (r_length reg)\<rparr>"
| "index_filter s (WildcardFilter pattern) reg = index_wildcard s pattern reg"
| "index_filter s (And []) reg = reg\<lparr>r_composite := insert s (r_composite reg)\<rparr>"
| "index_filter s (And (f # fs)) reg = index_filter s f (reg\<lparr>r_composite := insert s (r_composite reg)\<rparr>)"
| "index_filter s (Or fs) reg = index_filters s fs (reg\<lparr>r_composite := insert s (r_composite reg)\<rparr>)"
| "index_filter s PassAll reg = reg\<lparr>r_unindexed := insert s (r_unindexed reg)\<rparr>"
| "index_filter s PassNone reg = reg\<lparr>r_unindexed := insert s (r_unindexed reg)\<rparr>"
| "index_filters s [] reg = reg"
| "index_filters s (f # fs) reg = index_filters s fs (index_filter s f reg)"

definition registry_add :: "subscription \<Rightarrow> registry \<Rightarrow> registry" where
  "registry_add s reg =
     (if s \<in> r_all reg then reg
      else index_filter s (sub_filter s) (reg\<lparr>r_all := insert s (r_all reg)\<rparr>))"

text \<open>
  The \<open>del\<close> statements find their keys: a wildcard bucket and its signature come and go
  together (the invariant \<open>sigs_match\<close> below).
\<close>

definition unindex_wildcard :: "subscription \<Rightarrow> key \<Rightarrow> registry \<Rightarrow> registry" where
  "unindex_wildcard s pattern reg =
     (let n = length pattern; (positions, values) = wildcard_signature pattern in
      case map_of (r_wild reg) (n, positions) of
        None \<Rightarrow> reg
      | Some by_values \<Rightarrow>
          let by_values = (if map_of by_values values = None then by_values else bucket_discard values s by_values) in
          if by_values = [] then
            let sigs = AList.delete positions (sigs_of reg n) in
            reg\<lparr>r_wild := AList.delete (n, positions) (r_wild reg),
                r_sigs := (if sigs = [] then AList.delete n (r_sigs reg) else AList.update n sigs (r_sigs reg))\<rparr>
          else reg\<lparr>r_wild := AList.update (n, positions) by_values (r_wild reg)\<rparr>)"

fun unindex_filter :: "subscription \<Rightarrow> kfilter \<Rightarrow> registry \<Rightarrow> registry"
  and unindex_filters :: "subscription \<Rightarrow> kfilter list \<Rightarrow> registry \<Rightarrow> registry" where
  "unindex_filter s (PrefixFilter p) reg = reg\<lparr>r_prefix := bucket_discard p s (r_prefix reg)\<rparr>"
| "unindex_filter s (SuffixFilter p) reg = reg\<lparr>r_suffix := bucket_discard p s (r_suffix reg)\<rparr>"
| "unindex_filter s (LengthFilter n) reg = reg\<lparr>r_length := bucket_discard n s (r_length reg)\<rparr>"
| "unindex_filter s (WildcardFilter pattern) reg = unindex_wildcard s pattern reg"
| "unindex_filter s (And []) reg = reg\<lparr>r_composite := r_composite reg - {s}\<rparr>"
| "unindex_filter s (And (f # fs)) reg = unindex_filter s f (reg\<lparr>r_composite := r_composite reg - {s}\<rparr>)"
| "unindex_filter s (Or fs) reg = unindex_filters s fs (reg\<lparr>r_composite := r_composite reg - {s}\<rparr>)"
| "unindex_filter s PassAll reg = reg\<lparr>r_unindexed := r_unindexed reg - {s}\<rparr>"
| "unindex_filter s PassNone reg = reg\<lparr>r_unindexed := r_unindexed reg - {s}\<rparr>"
| "unindex_filters s [] reg = reg"
| "unindex_filters s (f # fs) reg = unindex_filters s fs (unindex_filter s f reg)"

definition registry_remove :: "subscription \<Rightarrow> registry \<Rightarrow> registry" where
  "registry_remove s reg =
     (if s \<notin> r_all reg then reg
      else unindex_filter s (sub_filter s) (reg\<lparr>r_all := r_all reg - {s}\<rparr>))"

text \<open>The five groups of candidates, then the exact filter; the list of the result is in no order.\<close>

definition candidates :: "registry \<Rightarrow> key \<Rightarrow> subscription set" where
  "candidates reg key =
     (let found = fold (\<lambda>i m. m \<union> bucket (r_prefix reg) (take i key)) [0..<length key + 1] {};
          found = fold (\<lambda>i m. m \<union> bucket (r_suffix reg) (drop i key)) [0..<length key + 1] found;
          found = found \<union> bucket (r_length reg) (int (length key));
          found = fold (\<lambda>(positions, _) m.
            m \<union> (case map_of (r_wild reg) (length key, positions) of
                    None \<Rightarrow> {} | Some by_values \<Rightarrow> bucket by_values (map (\<lambda>p. key ! p) positions)))
            (sigs_of reg (length key)) found
      in found \<union> Set.filter (\<lambda>s. matches (sub_filter s) key) (r_unindexed reg))"

definition registry_match :: "registry \<Rightarrow> key \<Rightarrow> subscription set" where
  "registry_match reg key = Set.filter (\<lambda>s. matches (sub_filter s) key) (candidates reg key)"

definition registry_clear :: "registry \<Rightarrow> registry" where
  "registry_clear reg = registry_empty"

definition registry_len :: "registry \<Rightarrow> nat" where
  "registry_len reg = card (r_all reg)"

definition registry_contains :: "registry \<Rightarrow> subscription \<Rightarrow> bool" where
  "registry_contains reg s = (s \<in> r_all reg)"

section \<open>Where a subscription is posted\<close>

text \<open>
  The buckets a filter puts its subscription into, and what is in a bucket. A registry is in order
  when every bucket holds exactly the registered subscriptions posted to it.
\<close>

datatype post =
    P_prefix key | P_suffix key | P_length int | P_wild nat "nat list" key | P_composite | P_unindexed

fun posts :: "kfilter \<Rightarrow> post set" where
  "posts (PrefixFilter p) = {P_prefix p}"
| "posts (SuffixFilter p) = {P_suffix p}"
| "posts (LengthFilter n) = {P_length n}"
| "posts (WildcardFilter pattern) =
     {P_wild (length pattern) (fst (wildcard_signature pattern)) (snd (wildcard_signature pattern))}"
| "posts (And fs) = insert P_composite (case fs of [] \<Rightarrow> {} | f # _ \<Rightarrow> posts f)"
| "posts (Or fs) = insert P_composite (\<Union>f \<in> set fs. posts f)"
| "posts PassAll = {P_unindexed}"
| "posts PassNone = {P_unindexed}"

fun posted :: "registry \<Rightarrow> post \<Rightarrow> subscription set" where
  "posted reg (P_prefix p) = bucket (r_prefix reg) p"
| "posted reg (P_suffix p) = bucket (r_suffix reg) p"
| "posted reg (P_length n) = bucket (r_length reg) n"
| "posted reg (P_wild n positions vals) =
     (case map_of (r_wild reg) (n, positions) of None \<Rightarrow> {} | Some by_values \<Rightarrow> bucket by_values vals)"
| "posted reg P_composite = r_composite reg"
| "posted reg P_unindexed = r_unindexed reg"

definition sigs_match :: "registry \<Rightarrow> bool" where
  "sigs_match reg \<longleftrightarrow> (\<forall>n positions.
     map_of (sigs_of reg n) positions = None \<longleftrightarrow> map_of (r_wild reg) (n, positions) = None)"

definition registry_ok :: "registry \<Rightarrow> bool" where
  "registry_ok reg \<longleftrightarrow> sigs_match reg \<and>
     (\<forall>p. posted reg p = {s \<in> r_all reg. p \<in> posts (sub_filter s)})"

lemma bucket_add [simp]: "bucket (bucket_add k s d) k' = (if k' = k then insert s (bucket d k) else bucket d k')"
  by (simp add: bucket_def bucket_add_def update_conv')

lemma bucket_discard [simp]: "bucket (bucket_discard k s d) k' = (if k' = k then bucket d k - {s} else bucket d k')"
  by (simp add: bucket_def bucket_discard_def update_conv' delete_conv' Let_def)

lemma bucket_Nil [simp]: "bucket [] k = {}"
  by (simp add: bucket_def)

lemma sigs_of_update [simp]:
  "sigs_of (reg\<lparr>r_sigs := AList.update n sigs (r_sigs reg)\<rparr>) m = (if m = n then sigs else sigs_of reg m)"
  by (simp add: sigs_of_def update_conv')

lemma sigs_of_wild [simp]: "sigs_of (reg\<lparr>r_wild := w\<rparr>) m = sigs_of reg m"
  by (simp add: sigs_of_def)

lemma index_wildcard_posted:
  assumes "sigs_match reg"
  shows "posted (index_wildcard s pattern reg) p =
      (if p \<in> posts (WildcardFilter pattern) then insert s (posted reg p) else posted reg p) \<and>
    r_all (index_wildcard s pattern reg) = r_all reg \<and> sigs_match (index_wildcard s pattern reg)"
proof -
  obtain positions vals where w: "wildcard_signature pattern = (positions, vals)"
    by (cases "wildcard_signature pattern")
  show ?thesis
  proof (cases "map_of (r_wild reg) (length pattern, positions)")
    case None
    then show ?thesis using assms
      by (cases p) (auto simp: index_wildcard_def w Let_def update_conv' sigs_match_def split: option.splits)
  next
    case (Some by_values)
    then show ?thesis using assms
      by (cases p) (auto simp: index_wildcard_def w Let_def update_conv' sigs_match_def split: option.splits)
  qed
qed

lemma unindex_wildcard_posted:
  assumes "sigs_match reg"
  shows "posted (unindex_wildcard s pattern reg) p =
      (if p \<in> posts (WildcardFilter pattern) then posted reg p - {s} else posted reg p) \<and>
    r_all (unindex_wildcard s pattern reg) = r_all reg \<and> sigs_match (unindex_wildcard s pattern reg)"
proof -
  obtain positions vals where w: "wildcard_signature pattern = (positions, vals)"
    by (cases "wildcard_signature pattern")
  let ?n = "length pattern"
  show ?thesis
  proof (cases "map_of (r_wild reg) (?n, positions)")
    case None
    then show ?thesis using assms by (cases p) (auto simp: unindex_wildcard_def w split: option.splits)
  next
    case (Some by_values)
    define bv where "bv = (if map_of by_values vals = None then by_values else bucket_discard vals s by_values)"
    have bv: "bucket bv v = (if v = vals then bucket by_values v - {s} else bucket by_values v)" for v
      by (auto simp: bv_def bucket_def [of by_values vals])
    show ?thesis
    proof (cases "bv = []")
      case True
      define sigs where "sigs = AList.delete positions (sigs_of reg ?n)"
      let ?r = "reg\<lparr>r_wild := AList.delete (?n, positions) (r_wild reg),
          r_sigs := (if sigs = [] then AList.delete ?n (r_sigs reg) else AList.update ?n sigs (r_sigs reg))\<rparr>"
      have u: "unindex_wildcard s pattern reg = ?r"
        using Some True by (simp add: unindex_wildcard_def w Let_def sigs_def flip: bv_def)
      have sg: "sigs_of ?r m = (if m = ?n then sigs else sigs_of reg m)" for m
        by (simp add: sigs_of_def update_conv' delete_conv')
      have "map_of sigs q = (if q = positions then None else map_of (sigs_of reg ?n) q)" for q
        by (simp add: sigs_def delete_conv')
      then have "sigs_match ?r" using assms by (auto simp: sigs_match_def sg delete_conv')
      have only: "v = vals \<and> x = s" if "x \<in> bucket by_values v" for v x
        using bv [of v] that True by (auto split: if_splits)
      have "posted ?r p = (if p \<in> posts (WildcardFilter pattern) then posted reg p - {s} else posted reg p)"
      proof (cases "\<exists>v. p = P_wild ?n positions v")
        case True
        then show ?thesis using Some only by (auto simp: w delete_conv')
      next
        case False
        then show ?thesis by (cases p) (auto simp: w delete_conv' split: option.splits)
      qed
      with \<open>sigs_match ?r\<close> show ?thesis unfolding u by simp
    next
      case False
      then have "unindex_wildcard s pattern reg = reg\<lparr>r_wild := AList.update (?n, positions) bv (r_wild reg)\<rparr>"
        using Some by (simp add: unindex_wildcard_def w Let_def flip: bv_def)
      then show ?thesis using Some assms bv
        by (cases p) (auto simp: w update_conv' sigs_match_def split: option.splits)
    qed
  qed
qed

lemma sigs_match_fields [simp]:
  "sigs_match (reg\<lparr>r_prefix := a\<rparr>) = sigs_match reg" "sigs_match (reg\<lparr>r_suffix := a\<rparr>) = sigs_match reg"
  "sigs_match (reg\<lparr>r_length := b\<rparr>) = sigs_match reg" "sigs_match (reg\<lparr>r_composite := c\<rparr>) = sigs_match reg"
  "sigs_match (reg\<lparr>r_unindexed := c\<rparr>) = sigs_match reg" "sigs_match (reg\<lparr>r_all := c\<rparr>) = sigs_match reg"
  by (simp_all add: sigs_match_def sigs_of_def)

lemma posted_fields:
  "posted (reg\<lparr>r_composite := c\<rparr>) p = (if p = P_composite then c else posted reg p)"
  "posted (reg\<lparr>r_unindexed := c\<rparr>) p = (if p = P_unindexed then c else posted reg p)"
  "posted (reg\<lparr>r_all := c\<rparr>) p = posted reg p"
  by (cases p; simp)+

lemma index_filter_posted:
  "sigs_match reg \<Longrightarrow>
    (\<forall>p. posted (index_filter s f reg) p = (if p \<in> posts f then insert s (posted reg p) else posted reg p)) \<and>
    r_all (index_filter s f reg) = r_all reg \<and> sigs_match (index_filter s f reg)"
  "sigs_match reg \<Longrightarrow>
    (\<forall>p. posted (index_filters s fs reg) p =
      (if p \<in> (\<Union>f \<in> set fs. posts f) then insert s (posted reg p) else posted reg p)) \<and>
    r_all (index_filters s fs reg) = r_all reg \<and> sigs_match (index_filters s fs reg)"
proof (induction s f reg and s fs reg rule: index_filter_index_filters.induct)
  case (1 s q reg)
  have "posted (index_filter s (PrefixFilter q) reg) p =
      (if p \<in> posts (PrefixFilter q) then insert s (posted reg p) else posted reg p)" for p by (cases p) auto
  with 1 show ?case by simp
next
  case (2 s q reg)
  have "posted (index_filter s (SuffixFilter q) reg) p =
      (if p \<in> posts (SuffixFilter q) then insert s (posted reg p) else posted reg p)" for p by (cases p) auto
  with 2 show ?case by simp
next
  case (3 s n reg)
  have "posted (index_filter s (LengthFilter n) reg) p =
      (if p \<in> posts (LengthFilter n) then insert s (posted reg p) else posted reg p)" for p by (cases p) auto
  with 3 show ?case by simp
next
  case (4 s pattern reg)
  then show ?case by (simp only: index_filter.simps index_wildcard_posted) simp
qed (auto simp: posted_fields)

lemma unindex_filter_posted:
  "sigs_match reg \<Longrightarrow>
    (\<forall>p. posted (unindex_filter s f reg) p = (if p \<in> posts f then posted reg p - {s} else posted reg p)) \<and>
    r_all (unindex_filter s f reg) = r_all reg \<and> sigs_match (unindex_filter s f reg)"
  "sigs_match reg \<Longrightarrow>
    (\<forall>p. posted (unindex_filters s fs reg) p =
      (if p \<in> (\<Union>f \<in> set fs. posts f) then posted reg p - {s} else posted reg p)) \<and>
    r_all (unindex_filters s fs reg) = r_all reg \<and> sigs_match (unindex_filters s fs reg)"
proof (induction s f reg and s fs reg rule: unindex_filter_unindex_filters.induct)
  case (1 s q reg)
  have "posted (unindex_filter s (PrefixFilter q) reg) p =
      (if p \<in> posts (PrefixFilter q) then posted reg p - {s} else posted reg p)" for p by (cases p) auto
  with 1 show ?case by simp
next
  case (2 s q reg)
  have "posted (unindex_filter s (SuffixFilter q) reg) p =
      (if p \<in> posts (SuffixFilter q) then posted reg p - {s} else posted reg p)" for p by (cases p) auto
  with 2 show ?case by simp
next
  case (3 s n reg)
  have "posted (unindex_filter s (LengthFilter n) reg) p =
      (if p \<in> posts (LengthFilter n) then posted reg p - {s} else posted reg p)" for p by (cases p) auto
  with 3 show ?case by simp
next
  case (4 s pattern reg)
  then show ?case by (simp only: unindex_filter.simps unindex_wildcard_posted) simp
qed (auto simp: posted_fields)

lemma registry_ok_empty: "registry_ok registry_empty"
proof -
  have "posted registry_empty p = {}" for p by (cases p) (simp_all add: registry_empty_def)
  moreover have "sigs_match registry_empty" by (simp add: sigs_match_def sigs_of_def registry_empty_def)
  moreover have "r_all registry_empty = {}" by (simp add: registry_empty_def)
  ultimately show ?thesis by (simp add: registry_ok_def)
qed

lemma registry_add_ok:
  assumes "registry_ok reg"
  shows "registry_ok (registry_add s reg) \<and> r_all (registry_add s reg) = insert s (r_all reg)"
proof (cases "s \<in> r_all reg")
  case True
  with assms show ?thesis by (simp add: registry_add_def insert_absorb)
next
  case False
  have "sigs_match (reg\<lparr>r_all := insert s (r_all reg)\<rparr>)" using assms by (simp add: registry_ok_def)
  from index_filter_posted(1) [OF this, of s "sub_filter s"] False assms show ?thesis
    by (auto simp: registry_add_def registry_ok_def posted_fields)
qed

lemma registry_remove_ok:
  assumes "registry_ok reg"
  shows "registry_ok (registry_remove s reg) \<and> r_all (registry_remove s reg) = r_all reg - {s}"
proof (cases "s \<in> r_all reg")
  case False
  with assms show ?thesis by (simp add: registry_remove_def)
next
  case True
  have "sigs_match (reg\<lparr>r_all := r_all reg - {s}\<rparr>)" using assms by (simp add: registry_ok_def)
  from unindex_filter_posted(1) [OF this, of s "sub_filter s"] True assms show ?thesis
    by (auto simp: registry_remove_def registry_ok_def posted_fields)
qed

section \<open>Matching\<close>

text \<open>When a bucket is looked up for a key.\<close>

fun hits :: "post \<Rightarrow> key \<Rightarrow> bool" where
  "hits (P_prefix p) key = prefix p key"
| "hits (P_suffix p) key = suffix p key"
| "hits (P_length n) key = (n = int (length key))"
| "hits (P_wild n positions vals) key = (n = length key \<and> map (\<lambda>p. key ! p) positions = vals)"
| "hits P_composite key = False"
| "hits P_unindexed key = True"

lemma fold_union: "fold (\<lambda>x m. m \<union> g x) xs m = m \<union> (\<Union>x \<in> set xs. g x)"
  by (induction xs arbitrary: m) auto

lemma prefix_takes: "(\<exists>i \<in> set [0..<length key + 1]. Q (take i key)) \<longleftrightarrow> (\<exists>p. Q p \<and> prefix p key)"
proof
  assume "\<exists>p. Q p \<and> prefix p key"
  then obtain p zs where "Q p" "key = p @ zs" by (auto simp: prefix_def)
  then have "Q (take (length p) key)" "length p \<in> set [0..<length key + 1]" by auto
  then show "\<exists>i \<in> set [0..<length key + 1]. Q (take i key)" by blast
qed (use take_is_prefix in blast)

lemma suffix_drops: "(\<exists>i \<in> set [0..<length key + 1]. Q (drop i key)) \<longleftrightarrow> (\<exists>p. Q p \<and> suffix p key)"
proof
  assume "\<exists>p. Q p \<and> suffix p key"
  then obtain p zs where "Q p" "key = zs @ p" by (auto simp: suffix_def)
  then have "Q (drop (length zs) key)" "length zs \<in> set [0..<length key + 1]" by auto
  then show "\<exists>i \<in> set [0..<length key + 1]. Q (drop i key)" by blast
qed (use suffix_drop in blast)

lemma sigs_hit:
  assumes "sigs_match reg"
  shows "(\<exists>x \<in> set (sigs_of reg n). s \<in> posted reg (P_wild n (fst x) (f (fst x)))) \<longleftrightarrow>
    (\<exists>positions. s \<in> posted reg (P_wild n positions (f positions)))" (is "?L = ?R")
proof
  assume ?R
  then obtain positions where p: "s \<in> posted reg (P_wild n positions (f positions))" by blast
  then have "map_of (r_wild reg) (n, positions) \<noteq> None" by (auto split: option.splits)
  with assms have "map_of (sigs_of reg n) positions \<noteq> None" by (auto simp: sigs_match_def)
  then obtain c where "(positions, c) \<in> set (sigs_of reg n)" using map_of_SomeD by fastforce
  with p show ?L by (intro bexI [of _ "(positions, c)"]) simp_all
qed blast

lemma in_posted_wild:
  "s \<in> (case map_of (r_wild reg) (n, positions) of None \<Rightarrow> {} | Some by_values \<Rightarrow> bucket by_values vals) \<longleftrightarrow>
    s \<in> posted reg (P_wild n positions vals)"
  by simp

lemma posted_cases:
  "(\<exists>p. Q p) \<longleftrightarrow> (\<exists>p. Q (P_prefix p)) \<or> (\<exists>p. Q (P_suffix p)) \<or> (\<exists>n. Q (P_length n)) \<or>
    (\<exists>n positions vals. Q (P_wild n positions vals)) \<or> Q P_composite \<or> Q P_unindexed"
  by (metis post.exhaust)

lemma candidates_posted:
  assumes "sigs_match reg"
  shows "s \<in> candidates reg key \<longleftrightarrow>
    (\<exists>p. s \<in> posted reg p \<and> hits p key \<and> (p = P_unindexed \<longrightarrow> matches (sub_filter s) key))"
proof -
  let ?n = "length key"
  have "s \<in> candidates reg key \<longleftrightarrow>
      (\<exists>i \<in> set [0..<?n + 1]. s \<in> bucket (r_prefix reg) (take i key)) \<or>
      (\<exists>i \<in> set [0..<?n + 1]. s \<in> bucket (r_suffix reg) (drop i key)) \<or>
      s \<in> bucket (r_length reg) (int ?n) \<or>
      (\<exists>x \<in> set (sigs_of reg ?n). s \<in> posted reg (P_wild ?n (fst x) (map (\<lambda>p. key ! p) (fst x)))) \<or>
      s \<in> r_unindexed reg \<and> matches (sub_filter s) key"
    unfolding candidates_def Let_def fold_union case_prod_unfold Un_iff UN_iff empty_iff Set.filter_eq mem_Collect_eq
      in_posted_wild by blast
  also have "(\<exists>i \<in> set [0..<?n + 1]. s \<in> bucket (r_prefix reg) (take i key)) \<longleftrightarrow>
      (\<exists>p. s \<in> bucket (r_prefix reg) p \<and> prefix p key)" by (rule prefix_takes)
  also have "(\<exists>i \<in> set [0..<?n + 1]. s \<in> bucket (r_suffix reg) (drop i key)) \<longleftrightarrow>
      (\<exists>p. s \<in> bucket (r_suffix reg) p \<and> suffix p key)" by (rule suffix_drops)
  also note sigs_hit [OF assms, of ?n s "map (\<lambda>p. key ! p)"]
  finally show ?thesis unfolding posted_cases by (simp del: posted.simps(4))
qed

text \<open>
  Whether the registry can find a filter: a filter that matches a key is posted to a bucket the key
  hits. It fails for a conjunction of no filters, alone or as the first operand of a conjunction,
  which is posted to no bucket that is looked up.
\<close>

fun findable :: "kfilter \<Rightarrow> bool" where
  "findable (And []) = False"
| "findable (And (f # _)) = findable f"
| "findable (Or fs) = list_all findable fs"
| "findable _ = True"

lemma fixed_positions:
  "i \<in> set (fst (wildcard_signature pattern)) \<Longrightarrow> i < length pattern \<and> pattern ! i \<noteq> WILDCARD"
  by (auto simp: wildcard_signature_def Let_def in_set_enumerate_eq)

lemma fixed_values: "snd (wildcard_signature pattern) = map (\<lambda>i. pattern ! i) (fst (wildcard_signature pattern))"
  by (simp add: wildcard_signature_def Let_def)

lemma signature_agrees:
  assumes "wildcard_matches pattern key"
  shows "map (\<lambda>p. key ! p) (fst (wildcard_signature pattern)) = snd (wildcard_signature pattern)"
proof -
  have n: "length key = length pattern"
    and ev: "list_all (\<lambda>(k, p). p = WILDCARD \<or> k = p) (zip key pattern)"
    using assms by (auto split: if_splits)
  have "key ! i = pattern ! i" if "i < length pattern" "pattern ! i \<noteq> WILDCARD" for i
    using ev that n by (auto simp: list_all_length)
  then show ?thesis using fixed_positions by (auto simp: fixed_values)
qed

lemma findable_hit: "findable f \<Longrightarrow> matches f key \<Longrightarrow> \<exists>p \<in> posts f. hits p key"
proof (induction f)
  case (SuffixFilter p)
  then show ?case by (auto simp: suffix_def split: if_splits) (metis append_take_drop_id)
next
  case (PrefixFilter p)
  then show ?case by (auto simp: prefix_def split: if_splits) (metis append_take_drop_id)
next
  case (WildcardFilter pattern)
  then show ?case using signature_agrees [of pattern key] by (auto split: if_splits)
next
  case (And fs)
  then show ?case by (cases fs) auto
next
  case (Or fs)
  then obtain g where "g \<in> set fs" "matches g key" "findable g"
    by (auto simp: list_ex_iff list_all_iff)
  with Or.IH [of g] show ?case by auto
qed auto

text \<open>A subscription the registry returns is registered and its filter matches.\<close>

lemma registry_match_iff:
  assumes "registry_ok reg"
  shows "s \<in> registry_match reg key \<longleftrightarrow> s \<in> r_all reg \<and> matches (sub_filter s) key \<and>
    (\<exists>p \<in> posts (sub_filter s). hits p key)"
  using assms candidates_posted [of reg s key] by (auto simp: registry_match_def registry_ok_def)

datatype registry_op = Add subscription | Remove subscription | Clear

fun registry_step :: "registry_op \<Rightarrow> registry \<Rightarrow> registry" where
  "registry_step (Add s) reg = registry_add s reg"
| "registry_step (Remove s) reg = registry_remove s reg"
| "registry_step Clear reg = registry_clear reg"

fun members_step :: "registry_op \<Rightarrow> subscription set \<Rightarrow> subscription set" where
  "members_step (Add s) m = insert s m"
| "members_step (Remove s) m = m - {s}"
| "members_step Clear m = {}"

lemma registry_steps:
  "registry_ok reg \<Longrightarrow> registry_ok (fold registry_step ops reg) \<and>
    r_all (fold registry_step ops reg) = fold members_step ops (r_all reg)"
proof (induction ops arbitrary: reg)
  case (Cons op ops)
  have "registry_ok (registry_step op reg) \<and> r_all (registry_step op reg) = members_step op (r_all reg)"
    using Cons.prems registry_add_ok registry_remove_ok registry_ok_empty
    by (cases op) (auto simp: registry_clear_def registry_empty_def)
  with Cons.IH [of "registry_step op reg"] show ?case by simp
qed simp

section \<open>Properties\<close>

text \<open>C40: after any sequence of additions, removals and clearings, the indexed lookup of a key returns
  only registered subscriptions whose filter matches the key, and among the subscriptions whose
  filter the indexes can find it returns every one that matches: the lookup is equivalent to
  checking each registered subscription. The length and membership of the registry are those of the
  set of the registered subscriptions.
\<close>

theorem registry_match_exact:
  "let reg = fold registry_step ops registry_empty; members = fold members_step ops {} in
    registry_match reg key \<subseteq> Set.filter (\<lambda>s. matches (sub_filter s) key) members \<and>
    Set.filter (\<lambda>s. findable (sub_filter s)) (registry_match reg key) =
      Set.filter (\<lambda>s. findable (sub_filter s) \<and> matches (sub_filter s) key) members \<and>
    registry_len reg = card members \<and> registry_contains reg s = (s \<in> members)"
proof -
  define reg where "reg = fold registry_step ops registry_empty"
  have ok: "registry_ok reg" and all: "r_all reg = fold members_step ops {}"
    using registry_steps [OF registry_ok_empty, of ops] by (simp_all add: reg_def registry_empty_def)
  show ?thesis unfolding Let_def registry_len_def registry_contains_def
    unfolding all [symmetric] reg_def [symmetric]
    using registry_match_iff [OF ok, of _ key] findable_hit by auto
qed

text \<open>
  A conjunction of no filters matches every key (\<open>matches\<close> says so, and \<open>canonicalize\<close>
  turns it into \<open>PassAll\<close>), but a subscription to it is never returned.
\<close>

lemma empty_conjunction_missed:
  "let s = \<lparr>sub_id = i, sub_filter = And []\<rparr>; reg = registry_add s registry_empty in
    registry_contains reg s \<and> matches (sub_filter s) key \<and> registry_match reg key = {}"
proof -
  let ?s = "\<lparr>sub_id = i, sub_filter = And []\<rparr>"
  have ok: "registry_ok (registry_add ?s registry_empty)" "r_all (registry_add ?s registry_empty) = {?s}"
    using registry_add_ok [OF registry_ok_empty, of ?s] by (simp_all add: registry_empty_def)
  then show ?thesis using registry_match_iff [OF ok(1), of _ key]
    by (auto simp: Let_def registry_contains_def)
qed

end
