(* ===== verification/Observers.thy ===== *)
theory Observers
  imports Subscriptions
begin

text \<open>
  The read side of the notifications: subscription objects (\<open>tkv/observer/subscription.py\<close>), local
  delivery (\<open>tkv/observer/_deliver_local.py\<close>) and the observer with its dispatch queue and worker
  thread (\<open>_backends/observers/_base.py\<close>). The calls of the interface (\<open>connect\<close>, \<open>disconnect\<close>,
  \<open>subscribe\<close>, \<open>bind\<close>, ...) are functions on the observer; the worker is a program counter
  (\<open>phase\<close>) with one step function. A receiver is the user's code: it is given by what it calls and
  how it ends. The calls of other threads happen between the steps of the worker or, while a
  receiver runs, as calls of that receiver. So the check of \<open>_closed\<close> in \<open>notify\<close> and the call of the
  receiver after it are one step: a thread that closes the subscription exactly between the two, so
  that the receiver is called once more, is not modelled.
\<close>

section \<open>Subscription objects\<close>

record sub_state =
  s_filter :: kfilter
  s_receivers :: "nat list"
  s_closed :: bool

definition sub_bind :: "nat \<Rightarrow> sub_state \<Rightarrow> sub_state option" where
  "sub_bind r st =
     (if s_closed st then None
      else Some (if r \<in> set (s_receivers st) then st else st\<lparr>s_receivers := s_receivers st @ [r]\<rparr>))"

definition sub_unbind :: "nat \<Rightarrow> sub_state \<Rightarrow> sub_state option" where
  "sub_unbind r st =
     (if r \<in> set (s_receivers st) then Some (st\<lparr>s_receivers := remove1 r (s_receivers st)\<rparr>) else None)"

text \<open>The exit of \<open>bind_context\<close> ignores a receiver that is already unbound.\<close>

definition bind_exit :: "nat \<Rightarrow> sub_state \<Rightarrow> sub_state" where
  "bind_exit r st = (case sub_unbind r st of None \<Rightarrow> st | Some st \<Rightarrow> st)"

definition sub_mark_closed :: "sub_state \<Rightarrow> sub_state" where
  "sub_mark_closed st = st\<lparr>s_closed := True, s_receivers := []\<rparr>"

section \<open>The observer\<close>

text \<open>
  What is on the dispatch queue: a key, a key tagged with the hash of the filter it was routed for,
  the event of a \<open>flush\<close>, the stop marker.
\<close>

datatype item = Key_Item key | Tagged_Item key pystr | Event nat | Stop_Marker

text \<open>Where the worker is in \<open>_dispatch_worker\<close>; it is dead before and after its run.\<close>

datatype phase = W_Dead | W_Top | W_Wait | W_Item item | W_Next | W_Flush

text \<open>What is recorded of a run: the receivers called and the subscriptions closed.\<close>

datatype event = E_Call nat nat key | E_Close nat

text \<open>
  \<open>o_subs\<close> are the subscription objects by their identity; \<open>o_maxsize\<close> is the capacity of the
  queue, none when it is not positive. \<open>o_hand\<close> is the batch of the worker, \<open>o_events\<close> the number of
  flush events made and \<open>o_set\<close> those set on this connection. The last three fields are not the
  program's: they record the events of the run (each call of a receiver is an event) and, for this
  connection, the items put on the queue and the items of the batches given to \<open>_deliver_batch\<close>,
  whatever it then does with them.
\<close>

record observer =
  o_connected :: bool
  o_registry :: "registry option"
  o_subs :: "sub_state list"
  o_maxsize :: int
  o_queue :: "item list"
  o_stop :: bool
  o_phase :: phase
  o_hand :: "item list"
  o_events :: nat
  o_set :: "nat list"
  o_log :: "event list"
  o_put :: "item list"
  o_handed :: "item list"

definition DISPATCH_BATCH_MAX :: nat where
  "DISPATCH_BATCH_MAX = 256"

definition observer_init :: "int \<Rightarrow> observer" where
  "observer_init maxsize = \<lparr>o_connected = False, o_registry = None, o_subs = [], o_maxsize = maxsize,
     o_queue = [], o_stop = False, o_phase = W_Dead, o_hand = [], o_events = 0, o_set = [], o_log = [], o_put = [],
     o_handed = []\<rparr>"

definition sub_of :: "observer \<Rightarrow> nat \<Rightarrow> subscription" where
  "sub_of obs i = \<lparr>sub_id = i, sub_filter = s_filter (o_subs obs ! i)\<rparr>"

definition change_sub :: "nat \<Rightarrow> (sub_state \<Rightarrow> sub_state) \<Rightarrow> observer \<Rightarrow> observer" where
  "change_sub i f obs = obs\<lparr>o_subs := (o_subs obs)[i := f (o_subs obs ! i)]\<rparr>"

definition queue_full :: "observer \<Rightarrow> bool" where
  "queue_full obs \<longleftrightarrow> 0 < o_maxsize obs \<and> o_maxsize obs \<le> int (length (o_queue obs))"

datatype obs_error = ObserverConnectionError | ValueErr | HookError

definition obs_put :: "item \<Rightarrow> observer \<Rightarrow> observer" where
  "obs_put x obs = obs\<lparr>o_queue := o_queue obs @ [x], o_put := o_put obs @ [x]\<rparr>"

text \<open>\<open>put_nowait\<close>: nothing when the queue is full.\<close>

definition obs_enqueue_nowait :: "item \<Rightarrow> observer \<Rightarrow> observer option" where
  "obs_enqueue_nowait x obs = (if queue_full obs then None else Some (obs_put x obs))"

definition stop_worker :: "observer \<Rightarrow> observer" where
  "stop_worker obs =
     (let obs = obs\<lparr>o_stop := True\<rparr> in
      case obs_enqueue_nowait Stop_Marker obs of None \<Rightarrow> obs | Some obs \<Rightarrow> obs)"

text \<open>
  \<open>hook\<close> says whether the \<open>_on_connect\<close> hook of the subclass returns. The worker of an earlier
  connection that is still alive makes the call fail, so its fields are free when they are reset.
\<close>

definition obs_connect :: "bool \<Rightarrow> observer \<Rightarrow> obs_error option \<times> observer" where
  "obs_connect hook obs =
     (if o_connected obs then (None, obs)
      else if o_phase obs \<noteq> W_Dead then (Some ObserverConnectionError, obs)
      else
        let obs = obs\<lparr>o_registry := Some registry_empty, o_stop := False, o_queue := [], o_set := [],
              o_put := [], o_handed := []\<rparr>
        in if hook then (None, obs\<lparr>o_phase := W_Top, o_hand := [], o_connected := True\<rparr>)
           else (Some ObserverConnectionError, obs\<lparr>o_registry := None, o_connected := False\<rparr>))"

text \<open>The subscriptions of the registry, in the order of their identities.\<close>

definition registered :: "observer \<Rightarrow> nat list" where
  "registered obs = (case o_registry obs of None \<Rightarrow> []
     | Some reg \<Rightarrow> filter (\<lambda>i. sub_of obs i \<in> r_all reg) [0..<length (o_subs obs)])"

definition close_all_subscriptions :: "observer \<Rightarrow> observer" where
  "close_all_subscriptions obs =
     fold (\<lambda>i obs. (change_sub i sub_mark_closed obs)\<lparr>o_log := o_log obs @ [E_Close i]\<rparr>) (registered obs) obs"

text \<open>
  The worker may still be inside a receiver when \<open>disconnect\<close> returns; it is dead or alive by its
  own steps, which is what the next \<open>connect\<close> looks at.
\<close>

definition obs_disconnect :: "observer \<Rightarrow> observer" where
  "obs_disconnect obs =
     (if \<not> o_connected obs then obs
      else
        let obs = close_all_subscriptions (stop_worker obs);
            obs = close_all_subscriptions (obs\<lparr>o_connected := False\<rparr>)
        in obs\<lparr>o_registry := None\<rparr>)"

text \<open>
  How the \<open>_on_subscribe\<close> hook of the subclass ends: it returns, it raises, or the observer is
  disconnected while it runs.
\<close>

datatype hook = Hook_Returns | Hook_Raises | Hook_Disconnected

definition obs_subscribe :: "kfilter \<Rightarrow> hook \<Rightarrow> observer \<Rightarrow> (obs_error + nat) \<times> observer" where
  "obs_subscribe f hook obs =
     (if \<not> o_connected obs then (Inl ObserverConnectionError, obs)
      else case o_registry obs of None \<Rightarrow> (Inl ObserverConnectionError, obs)
      | Some reg \<Rightarrow>
          let i = length (o_subs obs); s = \<lparr>sub_id = i, sub_filter = f\<rparr>;
              obs = obs\<lparr>o_subs := o_subs obs @ [\<lparr>s_filter = f, s_receivers = [], s_closed = False\<rparr>],
                        o_registry := Some (registry_add s reg)\<rparr>
          in case hook of
               Hook_Returns \<Rightarrow> (Inr i, obs)
             | Hook_Raises \<Rightarrow>
                 (Inl HookError, change_sub i (s_closed_update (\<lambda>_. True))
                    (obs\<lparr>o_registry := Some (registry_remove s (registry_add s reg))\<rparr>))
             | Hook_Disconnected \<Rightarrow>
                 (Inl ObserverConnectionError, change_sub i sub_mark_closed (obs_disconnect obs)))"

definition obs_bind :: "nat \<Rightarrow> nat \<Rightarrow> observer \<Rightarrow> obs_error option \<times> observer" where
  "obs_bind i r obs =
     (case sub_bind r (o_subs obs ! i) of None \<Rightarrow> (Some ValueErr, obs)
      | Some st \<Rightarrow> (None, change_sub i (\<lambda>_. st) obs))"

definition obs_unbind :: "nat \<Rightarrow> nat \<Rightarrow> observer \<Rightarrow> obs_error option \<times> observer" where
  "obs_unbind i r obs =
     (case sub_unbind r (o_subs obs ! i) of None \<Rightarrow> (Some ValueErr, obs)
      | Some st \<Rightarrow> (None, change_sub i (\<lambda>_. st) obs))"

text \<open>\<open>Subscription.close\<close> with the \<open>_close_subscription\<close> it calls; the hook's errors are logged.\<close>

definition obs_close :: "nat \<Rightarrow> observer \<Rightarrow> observer" where
  "obs_close i obs =
     (if s_closed (o_subs obs ! i) then obs
      else
        let s = sub_of obs i;
            obs = (change_sub i sub_mark_closed obs)\<lparr>o_log := o_log obs @ [E_Close i]\<rparr>
        in case o_registry obs of None \<Rightarrow> obs
           | Some reg \<Rightarrow> obs\<lparr>o_registry := Some (registry_remove s reg)\<rparr>)"

text \<open>
  One item of \<open>_dispatch_incoming\<close>. A full queue blocks the caller until the worker makes room or
  the observer stops, when the item is dropped: the call changes nothing before it goes through.
\<close>

definition obs_enqueue :: "item \<Rightarrow> observer \<Rightarrow> observer" where
  "obs_enqueue x obs =
     (if \<not> o_connected obs then obs
      else case obs_enqueue_nowait x obs of None \<Rightarrow> obs | Some obs \<Rightarrow> obs)"

definition obs_flush :: "observer \<Rightarrow> observer" where
  "obs_flush obs =
     (if \<not> o_connected obs then obs
      else
        let e = o_events obs; obs = obs\<lparr>o_events := e + 1\<rparr> in
        case obs_enqueue_nowait (Event e) obs of None \<Rightarrow> obs | Some obs \<Rightarrow> obs)"

section \<open>The calls of the interface\<close>

text \<open>
  \<open>C_Incoming\<close> is one item from the transport. A call on a subscription is made through an object
  that exists.
\<close>

datatype call =
    C_Connect bool | C_Disconnect | C_Subscribe kfilter hook | C_Bind nat nat | C_Unbind nat nat
  | C_Bind_Exit nat nat | C_Close nat | C_Incoming key "pystr option" | C_Flush

fun obs_call :: "call \<Rightarrow> observer \<Rightarrow> observer" where
  "obs_call (C_Connect hook) obs = snd (obs_connect hook obs)"
| "obs_call C_Disconnect obs = obs_disconnect obs"
| "obs_call (C_Subscribe f hook) obs = snd (obs_subscribe f hook obs)"
| "obs_call (C_Bind i r) obs = (if i < length (o_subs obs) then snd (obs_bind i r obs) else obs)"
| "obs_call (C_Unbind i r) obs = (if i < length (o_subs obs) then snd (obs_unbind i r obs) else obs)"
| "obs_call (C_Bind_Exit i r) obs =
     (if i < length (o_subs obs) then change_sub i (bind_exit r) obs else obs)"
| "obs_call (C_Close i) obs = (if i < length (o_subs obs) then obs_close i obs else obs)"
| "obs_call (C_Incoming k h) obs =
     obs_enqueue (case h of None \<Rightarrow> Key_Item k | Some h \<Rightarrow> Tagged_Item k h) obs"
| "obs_call C_Flush obs = obs_flush obs"

section \<open>Delivery\<close>

text \<open>
  A receiver makes calls that depend on the observer it sees, then returns, raises an \<open>Exception\<close>
  (which \<open>notify\<close> yields and \<open>deliver_local\<close> logs), or raises another \<open>BaseException\<close>, which
  leaves \<open>deliver_local\<close> (\<open>True\<close> in the results below).
\<close>

datatype outcome = Returns | Raises | Escapes

type_synonym receivers = "nat \<Rightarrow> key \<Rightarrow> observer \<Rightarrow> call list \<times> outcome"

definition run_receiver :: "receivers \<Rightarrow> nat \<Rightarrow> nat \<Rightarrow> key \<Rightarrow> observer \<Rightarrow> outcome \<times> observer" where
  "run_receiver cb i r key obs =
     (let (calls, result) = cb r key obs
      in (result, fold obs_call calls (obs\<lparr>o_log := o_log obs @ [E_Call i r key]\<rparr>)))"

fun notify_loop :: "receivers \<Rightarrow> nat \<Rightarrow> key \<Rightarrow> nat list \<Rightarrow> observer \<Rightarrow> bool \<times> observer" where
  "notify_loop cb i key [] obs = (False, obs)"
| "notify_loop cb i key (r # rs) obs =
     (if s_closed (o_subs obs ! i) then (False, obs)
      else
        let (result, obs) = run_receiver cb i r key obs
        in if result = Escapes then (True, obs) else notify_loop cb i key rs obs)"

definition sub_notify :: "receivers \<Rightarrow> nat \<Rightarrow> key \<Rightarrow> observer \<Rightarrow> bool \<times> observer" where
  "sub_notify cb i key obs = notify_loop cb i key (s_receivers (o_subs obs ! i)) obs"

fun deliver_subs :: "receivers \<Rightarrow> key \<Rightarrow> subscription list \<Rightarrow> observer \<Rightarrow> bool \<times> observer" where
  "deliver_subs cb key [] obs = (False, obs)"
| "deliver_subs cb key (s # ss) obs =
     (let (escaped, obs) = sub_notify cb (sub_id s) key obs
      in if escaped then (True, obs) else deliver_subs cb key ss obs)"

fun deliver_local :: "receivers \<Rightarrow> (key \<times> subscription list) list \<Rightarrow> observer \<Rightarrow> bool \<times> observer" where
  "deliver_local cb [] obs = (False, obs)"
| "deliver_local cb ((key, ss) # ns) obs =
     (let (escaped, obs) = deliver_subs cb key ss obs
      in if escaped then (True, obs) else deliver_local cb ns obs)"

text \<open>
  The list of \<open>match\<close>: \<open>order\<close> lists identities in the order Python iterates a set of objects with
  them. \<open>digest\<close> is the hash of \<open>filter_hash\<close>. Events and markers are never in a batch.
\<close>

definition match_list :: "(nat set \<Rightarrow> nat list) \<Rightarrow> observer \<Rightarrow> registry \<Rightarrow> key \<Rightarrow> subscription list" where
  "match_list order obs reg key = map (sub_of obs) (order (sub_id ` registry_match reg key))"

definition item_match :: "(nat set \<Rightarrow> nat list) \<Rightarrow> (pystr \<Rightarrow> pystr) \<Rightarrow> observer \<Rightarrow> registry \<Rightarrow> item \<Rightarrow>
    (key \<times> subscription list) list" where
  "item_match order digest obs reg x =
     (case x of
        Tagged_Item key h \<Rightarrow>
          [(key, filter (\<lambda>s. filter_hash digest (sub_filter s) = h) (match_list order obs reg key))]
      | Key_Item key \<Rightarrow> [(key, match_list order obs reg key)]
      | _ \<Rightarrow> [])"

definition deliver_batch :: "receivers \<Rightarrow> (nat set \<Rightarrow> nat list) \<Rightarrow> (pystr \<Rightarrow> pystr) \<Rightarrow>
    item list \<Rightarrow> observer \<Rightarrow> bool \<times> observer" where
  "deliver_batch cb order digest batch obs =
     (if batch = [] then (False, obs)
      else case o_registry obs of None \<Rightarrow> (False, obs)
      | Some reg \<Rightarrow>
          if registry_len reg = 0 then (False, obs)
          else deliver_local cb
            (filter (\<lambda>(key, matched). matched \<noteq> []) (concat (map (item_match order digest obs reg) batch))) obs)"

text \<open>\<open>_deliver\<close>: an escaped exception is logged and the worker goes on.\<close>

definition deliver :: "receivers \<Rightarrow> (nat set \<Rightarrow> nat list) \<Rightarrow> (pystr \<Rightarrow> pystr) \<Rightarrow>
    observer \<Rightarrow> observer" where
  "deliver cb order digest obs =
     (let batch = o_hand obs in
      if batch = [] then obs
      else snd (deliver_batch cb order digest batch obs)\<lparr>o_handed := o_handed obs @ batch\<rparr>)"

section \<open>The dispatch worker\<close>

text \<open>
  One step of \<open>_dispatch_worker\<close>: the test of the outer loop, \<open>get\<close> (which times out on an empty
  queue and returns to the test), an item of the inner loop, \<open>get_nowait\<close>, the delivery at the end
  of the round. The owner is alive.
\<close>

definition worker_step :: "receivers \<Rightarrow> (nat set \<Rightarrow> nat list) \<Rightarrow> (pystr \<Rightarrow> pystr) \<Rightarrow>
    observer \<Rightarrow> observer" where
  "worker_step cb order digest obs =
     (case o_phase obs of
        W_Dead \<Rightarrow> obs
      | W_Top \<Rightarrow> obs\<lparr>o_phase := (if o_stop obs then W_Dead else W_Wait)\<rparr>
      | W_Wait \<Rightarrow>
          (case o_queue obs of
             [] \<Rightarrow> obs\<lparr>o_phase := W_Top\<rparr>
           | x # q \<Rightarrow> obs\<lparr>o_queue := q, o_hand := [], o_phase := W_Item x\<rparr>)
      | W_Item Stop_Marker \<Rightarrow> (deliver cb order digest obs)\<lparr>o_hand := [], o_phase := W_Dead\<rparr>
      | W_Item (Event e) \<Rightarrow>
          let obs = (deliver cb order digest obs)\<lparr>o_hand := []\<rparr>
          in obs\<lparr>o_set := o_set obs @ [e], o_phase := W_Next\<rparr>
      | W_Item x \<Rightarrow>
          obs\<lparr>o_hand := o_hand obs @ [x],
              o_phase := (if DISPATCH_BATCH_MAX \<le> length (o_hand obs @ [x]) then W_Flush else W_Next)\<rparr>
      | W_Next \<Rightarrow>
          (case o_queue obs of
             [] \<Rightarrow> obs\<lparr>o_phase := W_Flush\<rparr>
           | x # q \<Rightarrow> obs\<lparr>o_queue := q, o_phase := W_Item x\<rparr>)
      | W_Flush \<Rightarrow> (deliver cb order digest obs)\<lparr>o_hand := [], o_phase := W_Top\<rparr>)"

text \<open>The runs of an observer: calls from outside and steps of the worker.\<close>

inductive observer_run :: "receivers \<Rightarrow> (nat set \<Rightarrow> nat list) \<Rightarrow> (pystr \<Rightarrow> pystr) \<Rightarrow>
    int \<Rightarrow> observer \<Rightarrow> bool"
  for cb order digest maxsize where
  start: "observer_run cb order digest maxsize (observer_init maxsize)"
| call: "observer_run cb order digest maxsize obs \<Longrightarrow> observer_run cb order digest maxsize (obs_call c obs)"
| work: "observer_run cb order digest maxsize obs \<Longrightarrow>
    observer_run cb order digest maxsize (worker_step cb order digest obs)"

end
