(* ===== verification/Observer_Invariant.thy ===== *)
theory Observer_Invariant
  imports Observers
begin

text \<open>
  The invariants of an observer, kept by every call of its interface and every step of its worker:
  \<open>subs_ok\<close> (open subscriptions are registered), \<open>queue_ok\<close> (bounds, order and flush events of the
  dispatch queue) and \<open>log_ok\<close> (closed subscriptions stay silent). \<open>grows\<close> is what a call may change
  while the worker is alive, so it is also what the receivers of one delivery may change.
\<close>

section \<open>Frame lemmas\<close>

definition close_subs :: "nat list \<Rightarrow> observer \<Rightarrow> observer" where
  "close_subs is obs = obs\<lparr>
     o_subs := map (\<lambda>i. if i \<in> set is then sub_mark_closed (o_subs obs ! i) else o_subs obs ! i)
       [0..<length (o_subs obs)],
     o_log := o_log obs @ map E_Close is\<rparr>"

lemma mark_closed_simps [simp]:
  "s_closed (sub_mark_closed st)" "s_receivers (sub_mark_closed st) = []" "s_filter (sub_mark_closed st) = s_filter st"
  "sub_mark_closed (sub_mark_closed st) = sub_mark_closed st"
  by (simp_all add: sub_mark_closed_def)

lemma close_fold:
  "set is \<subseteq> {..<length (o_subs obs)} \<Longrightarrow>
    fold (\<lambda>i obs. (change_sub i sub_mark_closed obs)\<lparr>o_log := o_log obs @ [E_Close i]\<rparr>) is obs = close_subs is obs"
proof (induction "is" arbitrary: obs)
  case Nil
  then show ?case by (simp add: close_subs_def map_nth)
next
  case (Cons i "is")
  let ?o = "(change_sub i sub_mark_closed obs)\<lparr>o_log := o_log obs @ [E_Close i]\<rparr>"
  have "close_subs is ?o = close_subs (i # is) obs"
    using Cons.prems by (auto simp: close_subs_def change_sub_def nth_list_update intro!: nth_equalityI)
  with Cons show ?case by (simp add: change_sub_def)
qed

lemma registered_range: "set (registered obs) \<subseteq> {..<length (o_subs obs)}"
  by (auto simp: registered_def split: option.splits)

lemma close_all_eq: "close_all_subscriptions obs = close_subs (registered obs) obs"
  unfolding close_all_subscriptions_def by (rule close_fold) (rule registered_range)

lemma in_registered:
  "i \<in> set (registered obs) \<longleftrightarrow>
    i < length (o_subs obs) \<and> (\<exists>reg. o_registry obs = Some reg \<and> sub_of obs i \<in> r_all reg)"
  by (cases "o_registry obs") (auto simp: registered_def)

lemma close_subs_fields [simp]:
  "o_registry (close_subs is obs) = o_registry obs" "o_connected (close_subs is obs) = o_connected obs"
  "length (o_subs (close_subs is obs)) = length (o_subs obs)"
  "o_log (close_subs is obs) = o_log obs @ map E_Close is"
  "o_maxsize (close_subs is obs) = o_maxsize obs" "o_queue (close_subs is obs) = o_queue obs"
  "o_stop (close_subs is obs) = o_stop obs" "o_phase (close_subs is obs) = o_phase obs"
  "o_hand (close_subs is obs) = o_hand obs" "o_set (close_subs is obs) = o_set obs"
  "o_put (close_subs is obs) = o_put obs" "o_handed (close_subs is obs) = o_handed obs"
  "i < length (o_subs obs) \<Longrightarrow> o_subs (close_subs is obs) ! i =
    (if i \<in> set is then sub_mark_closed (o_subs obs ! i) else o_subs obs ! i)"
  by (simp_all add: close_subs_def)

lemma close_all_twice:
  "close_subs (registered (close_subs (registered obs) obs)) (close_subs (registered obs) obs) =
    (close_subs (registered obs) obs)\<lparr>o_log := o_log obs @ map E_Close (registered obs) @ map E_Close (registered obs)\<rparr>"
proof -
  let ?o = "close_subs (registered obs) obs"
  have "sub_of ?o i = sub_of obs i" if "i < length (o_subs obs)" for i
    using that by (simp add: sub_of_def)
  then have "registered ?o = registered obs"
    by (auto simp: registered_def split: option.splits intro!: filter_cong)
  then show ?thesis by (auto simp: close_subs_def intro!: nth_equalityI)
qed

section \<open>Subscriptions in order\<close>

text \<open>
  A subscription that is not closed is registered and no other is; a closed one has no receivers;
  the registry exists while the observer is connected.
\<close>

definition open_subs :: "observer \<Rightarrow> subscription set" where
  "open_subs obs = sub_of obs ` {i. i < length (o_subs obs) \<and> \<not> s_closed (o_subs obs ! i)}"

definition subs_ok :: "observer \<Rightarrow> bool" where
  "subs_ok obs \<longleftrightarrow>
     (case o_registry obs of
        None \<Rightarrow> \<not> o_connected obs \<and> (\<forall>st \<in> set (o_subs obs). s_closed st)
      | Some reg \<Rightarrow> o_connected obs \<and> registry_ok reg \<and> r_all reg = open_subs obs) \<and>
     (\<forall>st \<in> set (o_subs obs). distinct (s_receivers st) \<and> (s_closed st \<longrightarrow> s_receivers st = []))"

lemma sub_of_inj [simp]: "sub_of obs i = sub_of obs j \<longleftrightarrow> i = j"
  by (auto simp: sub_of_def)

lemma sub_of_id [simp]: "sub_id (sub_of obs i) = i" "sub_filter (sub_of obs i) = s_filter (o_subs obs ! i)"
  by (simp_all add: sub_of_def)

lemma in_open_subs: "sub_of obs i \<in> open_subs obs \<longleftrightarrow> i < length (o_subs obs) \<and> \<not> s_closed (o_subs obs ! i)"
  by (auto simp: open_subs_def)

text \<open>Only these fields matter.\<close>

lemma sub_of_cong: "o_subs obs' = o_subs obs \<Longrightarrow> sub_of obs' = sub_of obs"
  by (simp add: sub_of_def fun_eq_iff)

lemma registered_cong:
  "o_subs obs' = o_subs obs \<Longrightarrow> o_registry obs' = o_registry obs \<Longrightarrow> registered obs' = registered obs"
  using sub_of_cong [of obs' obs] by (simp add: registered_def cong: option.case_cong)

lemma open_subs_cong: "o_subs obs' = o_subs obs \<Longrightarrow> open_subs obs' = open_subs obs"
  using sub_of_cong [of obs' obs] by (simp add: open_subs_def)

lemma subs_ok_cong:
  "o_subs obs' = o_subs obs \<Longrightarrow> o_registry obs' = o_registry obs \<Longrightarrow> o_connected obs' = o_connected obs \<Longrightarrow>
    subs_ok obs' = subs_ok obs"
  using open_subs_cong [of obs' obs] by (simp add: subs_ok_def cong: option.case_cong)

lemma obs_put_fields [simp]:
  "o_registry (obs_put x obs) = o_registry obs" "o_connected (obs_put x obs) = o_connected obs"
  "o_subs (obs_put x obs) = o_subs obs" "o_log (obs_put x obs) = o_log obs"
  "o_maxsize (obs_put x obs) = o_maxsize obs" "o_stop (obs_put x obs) = o_stop obs"
  "o_phase (obs_put x obs) = o_phase obs" "o_hand (obs_put x obs) = o_hand obs"
  "o_set (obs_put x obs) = o_set obs" "o_handed (obs_put x obs) = o_handed obs"
  "o_queue (obs_put x obs) = o_queue obs @ [x]" "o_put (obs_put x obs) = o_put obs @ [x]"
  by (simp_all add: obs_put_def)

lemma stop_worker_cases:
  "stop_worker obs = (if queue_full obs then obs\<lparr>o_stop := True\<rparr> else obs_put Stop_Marker (obs\<lparr>o_stop := True\<rparr>))"
  by (simp add: stop_worker_def obs_enqueue_nowait_def queue_full_def Let_def)

lemma stop_worker_fields [simp]:
  "o_registry (stop_worker obs) = o_registry obs" "o_connected (stop_worker obs) = o_connected obs"
  "o_subs (stop_worker obs) = o_subs obs" "o_log (stop_worker obs) = o_log obs"
  "o_maxsize (stop_worker obs) = o_maxsize obs" "o_stop (stop_worker obs)"
  "o_phase (stop_worker obs) = o_phase obs" "o_hand (stop_worker obs) = o_hand obs"
  "o_set (stop_worker obs) = o_set obs" "o_handed (stop_worker obs) = o_handed obs"
  by (simp_all add: stop_worker_cases)

lemma stop_worker_subs [simp]:
  "registered (stop_worker obs) = registered obs" "subs_ok (stop_worker obs) = subs_ok obs"
  by (rule registered_cong subs_ok_cong; simp)+

lemma subs_ok_closed_all:
  assumes "subs_ok obs" and "o_connected obs"
  shows "\<forall>st \<in> set (o_subs (close_subs (registered obs) obs)). s_closed st \<and> s_receivers st = []"
proof -
  obtain reg where reg: "o_registry obs = Some reg" "r_all reg = open_subs obs"
    using assms by (auto simp: subs_ok_def split: option.splits)
  have "i \<in> set (registered obs) \<or> s_closed (o_subs obs ! i) \<and> s_receivers (o_subs obs ! i) = []"
    if "i < length (o_subs obs)" for i
    using that assms(1) reg by (auto simp: in_registered in_open_subs subs_ok_def)
  then show ?thesis by (fastforce simp: in_set_conv_nth)
qed

lemma close_subs_update [simp]:
  "close_subs is (obs\<lparr>o_connected := b\<rparr>) = (close_subs is obs)\<lparr>o_connected := b\<rparr>"
  "registered (obs\<lparr>o_connected := b\<rparr>) = registered obs"
  by (simp add: close_subs_def) (rule registered_cong; simp)

text \<open>The second pass of \<open>disconnect\<close> finds nothing new.\<close>

lemma disconnect_eq:
  assumes "o_connected obs"
  shows "obs_disconnect obs = (close_subs (registered obs) (stop_worker obs))
      \<lparr>o_connected := False, o_registry := None,
       o_log := o_log obs @ map E_Close (registered obs @ registered obs)\<rparr>"
proof -
  let ?o = "close_subs (registered obs) (stop_worker obs)"
  have "obs_disconnect obs = (close_subs (registered ?o) ?o)\<lparr>o_connected := False, o_registry := None\<rparr>"
    using assms by (simp add: obs_disconnect_def Let_def close_all_eq)
  then show ?thesis using close_all_twice [of "stop_worker obs"] by simp
qed

lemma subs_ok_shut:
  "o_registry obs = None \<Longrightarrow> \<not> o_connected obs \<Longrightarrow>
    \<forall>st \<in> set (o_subs obs). s_closed st \<and> s_receivers st = [] \<Longrightarrow> subs_ok obs"
  by (simp add: subs_ok_def)

lemma subs_ok_disconnect:
  assumes "subs_ok obs"
  shows "subs_ok (obs_disconnect obs)"
proof (cases "o_connected obs")
  case True
  have s: "subs_ok (stop_worker obs)" "o_connected (stop_worker obs)"
    using assms True by simp_all
  have "\<forall>st \<in> set (o_subs (close_subs (registered obs) (stop_worker obs))). s_closed st \<and> s_receivers st = []"
    using subs_ok_closed_all [OF s] by (simp only: stop_worker_subs)
  then show ?thesis unfolding disconnect_eq [OF True] by (intro subs_ok_shut) (assumption | simp)+
qed (use assms in \<open>simp add: obs_disconnect_def\<close>)

lemma open_subs_update:
  assumes "i < length (o_subs obs)" and "s_filter st = s_filter (o_subs obs ! i)"
  shows "open_subs (obs\<lparr>o_subs := (o_subs obs)[i := st]\<rparr>) =
    (if s_closed st then open_subs obs - {sub_of obs i} else insert (sub_of obs i) (open_subs obs))"
proof -
  have s: "sub_of (obs\<lparr>o_subs := (o_subs obs)[i := st]\<rparr>) j = sub_of obs j" for j
    using assms by (cases "j = i") (simp_all add: sub_of_def)
  show ?thesis using assms(1) by (auto simp: open_subs_def s nth_list_update split: if_splits)
qed

lemma open_subs_append:
  "open_subs (obs\<lparr>o_subs := o_subs obs @ [\<lparr>s_filter = f, s_receivers = rs, s_closed = False\<rparr>]\<rparr>) =
    insert \<lparr>sub_id = length (o_subs obs), sub_filter = f\<rparr> (open_subs obs)"
proof -
  let ?o = "obs\<lparr>o_subs := o_subs obs @ [\<lparr>s_filter = f, s_receivers = rs, s_closed = False\<rparr>]\<rparr>"
  have s: "sub_of ?o i = (if i < length (o_subs obs) then sub_of obs i else \<lparr>sub_id = i, sub_filter = f\<rparr>)"
    if "i < length (o_subs ?o)" for i using that by (auto simp: sub_of_def nth_append less_Suc_eq)
  have "{i. i < length (o_subs ?o) \<and> \<not> s_closed (o_subs ?o ! i)} =
      insert (length (o_subs obs)) {i. i < length (o_subs obs) \<and> \<not> s_closed (o_subs obs ! i)}"
    by (auto simp: nth_append less_Suc_eq)
  then show ?thesis unfolding open_subs_def by (auto simp: image_iff s)
qed

lemma new_not_open: "\<lparr>sub_id = length (o_subs obs), sub_filter = f\<rparr> \<notin> open_subs obs"
  by (auto simp: open_subs_def sub_of_def)

lemma subs_ok_receivers:
  assumes "subs_ok obs" and "i < length (o_subs obs)" and "s_filter st = s_filter (o_subs obs ! i)"
    and "s_closed st = s_closed (o_subs obs ! i)" and "distinct (s_receivers st)"
    and "s_closed st \<Longrightarrow> s_receivers st = []"
  shows "subs_ok (obs\<lparr>o_subs := (o_subs obs)[i := st]\<rparr>)"
proof -
  have "open_subs (obs\<lparr>o_subs := (o_subs obs)[i := st]\<rparr>) = open_subs obs"
    using open_subs_update [OF assms(2,3)] assms(2,4) in_open_subs [of obs i] by (auto simp: insert_absorb)
  moreover have "\<forall>x \<in> set ((o_subs obs)[i := st]). x = st \<or> x \<in> set (o_subs obs)"
    using set_update_subset_insert [of "o_subs obs" i st] by auto
  moreover have "s_closed st" if "\<forall>x \<in> set (o_subs obs). s_closed x"
    using that assms(2,4) by simp
  ultimately show ?thesis using assms(1,5,6) unfolding subs_ok_def
    by (cases "o_registry obs") auto
qed

lemma subs_ok_bind:
  assumes "subs_ok obs" and "i < length (o_subs obs)"
  shows "subs_ok (snd (obs_bind i r obs))" "subs_ok (snd (obs_unbind i r obs))" "subs_ok (change_sub i (bind_exit r) obs)"
proof -
  have d: "distinct (s_receivers (o_subs obs ! i))"
    "s_closed (o_subs obs ! i) \<Longrightarrow> s_receivers (o_subs obs ! i) = []"
    using assms by (auto simp: subs_ok_def)
  show "subs_ok (snd (obs_bind i r obs))" using assms d
    by (auto simp: obs_bind_def sub_bind_def change_sub_def intro!: subs_ok_receivers)
  show "subs_ok (snd (obs_unbind i r obs))" using assms d
    by (auto simp: obs_unbind_def sub_unbind_def change_sub_def intro!: subs_ok_receivers)
  show "subs_ok (change_sub i (bind_exit r) obs)" using assms d
    by (auto simp: bind_exit_def sub_unbind_def change_sub_def intro!: subs_ok_receivers)
qed

lemma subs_ok_closing:
  assumes "subs_ok obs" and "o_registry obs = Some reg" and "i < length (o_subs obs)"
    and "s_filter st = s_filter (o_subs obs ! i)" and "s_closed st" and "s_receivers st = []"
  shows "subs_ok (obs\<lparr>o_subs := (o_subs obs)[i := st], o_registry := Some (registry_remove (sub_of obs i) reg)\<rparr>)"
    (is "subs_ok ?o")
proof -
  have r: "registry_ok reg" "r_all reg = open_subs obs" "o_connected obs"
    "\<forall>st \<in> set (o_subs obs). distinct (s_receivers st) \<and> (s_closed st \<longrightarrow> s_receivers st = [])"
    using assms(1,2) by (simp_all add: subs_ok_def)
  have "open_subs ?o = open_subs obs - {sub_of obs i}"
    using open_subs_update [OF assms(3,4)] assms(5) by (simp add: open_subs_def sub_of_def)
  moreover have "\<forall>x \<in> set ((o_subs obs)[i := st]). x = st \<or> x \<in> set (o_subs obs)"
    using set_update_subset_insert [of "o_subs obs" i st] by auto
  ultimately show ?thesis using registry_remove_ok [OF r(1), of "sub_of obs i"] r assms(6)
    by (auto simp: subs_ok_def)
qed

lemma subs_ok_close:
  assumes "subs_ok obs" and "i < length (o_subs obs)"
  shows "subs_ok (obs_close i obs)"
proof (cases "s_closed (o_subs obs ! i)")
  case False
  then obtain reg where reg: "o_registry obs = Some reg"
    using assms by (cases "o_registry obs") (auto simp: subs_ok_def)
  let ?st = "sub_mark_closed (o_subs obs ! i)"
  let ?c = "obs\<lparr>o_subs := (o_subs obs)[i := ?st], o_registry := Some (registry_remove (sub_of obs i) reg)\<rparr>"
  have "subs_ok ?c" by (rule subs_ok_closing) (simp_all add: assms reg)
  moreover have "obs_close i obs = ?c\<lparr>o_log := o_log obs @ [E_Close i]\<rparr>"
    using False reg by (simp add: obs_close_def change_sub_def Let_def)
  ultimately show ?thesis using subs_ok_cong [of "obs_close i obs" ?c] by simp
qed (use assms in \<open>simp add: obs_close_def\<close>)

lemma subs_ok_subscribe:
  assumes "subs_ok obs"
  shows "subs_ok (snd (obs_subscribe f hook obs))"
proof (cases "o_connected obs")
  case True
  then obtain reg where reg: "o_registry obs = Some reg" "registry_ok reg" "r_all reg = open_subs obs"
    using assms by (auto simp: subs_ok_def split: option.splits)
  let ?n = "length (o_subs obs)" and ?st = "\<lparr>s_filter = f, s_receivers = [], s_closed = False\<rparr>"
  let ?s = "\<lparr>sub_id = ?n, sub_filter = f\<rparr>"
  let ?o = "obs\<lparr>o_subs := o_subs obs @ [?st], o_registry := Some (registry_add ?s reg)\<rparr>"
  have "open_subs ?o = insert ?s (open_subs obs)"
    using open_subs_append [of obs f "[]"] by (simp add: open_subs_def sub_of_def)
  with registry_add_ok [OF reg(2), of ?s] True assms reg have o: "subs_ok ?o"
    by (auto simp: subs_ok_def)
  have so: "sub_of ?o ?n = ?s" by (simp add: sub_of_def)
  show ?thesis
  proof (cases hook)
    case Hook_Returns
    with o reg True show ?thesis by (simp add: obs_subscribe_def Let_def)
  next
    case Hook_Raises
    let ?c = "?o\<lparr>o_subs := (o_subs ?o)[?n := ?st\<lparr>s_closed := True\<rparr>],
        o_registry := Some (registry_remove (sub_of ?o ?n) (registry_add ?s reg))\<rparr>"
    have "subs_ok ?c" by (rule subs_ok_closing [OF o]) simp_all
    moreover have "subs_ok (snd (obs_subscribe f hook obs)) = subs_ok ?c" using Hook_Raises reg True unfolding so
      by (intro subs_ok_cong) (simp_all add: obs_subscribe_def Let_def change_sub_def)
    ultimately show ?thesis by simp
  next
    case Hook_Disconnected
    have d: "subs_ok (obs_disconnect ?o)" by (rule subs_ok_disconnect [OF o])
    have n: "?n < length (o_subs (obs_disconnect ?o))" using True by (simp add: disconnect_eq)
    have "o_registry (obs_disconnect ?o) = None" using True by (simp add: disconnect_eq)
    then have c: "s_closed (o_subs (obs_disconnect ?o) ! ?n)" using d n by (simp add: subs_ok_def)
    have "subs_ok (change_sub ?n sub_mark_closed (obs_disconnect ?o))"
      unfolding change_sub_def by (rule subs_ok_receivers [OF d n]) (simp_all add: c)
    then show ?thesis using Hook_Disconnected reg True by (simp add: obs_subscribe_def Let_def)
  qed
qed (use assms in \<open>simp add: obs_subscribe_def\<close>)

lemma subs_ok_call: "subs_ok obs \<Longrightarrow> subs_ok (obs_call c obs)"
proof (induction c obs rule: obs_call.induct)
  case (1 hook obs)
  moreover have "subs_ok (snd (obs_connect hook obs))" if "\<not> o_connected obs"
  proof -
    have "open_subs (obs\<lparr>o_registry := a, o_stop := b, o_queue := c, o_set := d, o_put := e, o_handed := g,
        o_phase := p, o_hand := h, o_connected := k\<rparr>) = {}" for a b c d e g p h k
      using 1 that by (auto simp: subs_ok_def open_subs_def split: option.splits)
    then show ?thesis using 1 that registry_ok_empty
      by (auto simp: obs_connect_def Let_def subs_ok_def registry_empty_def split: option.splits)
  qed
  ultimately show ?case by (cases "o_connected obs") (simp_all add: obs_connect_def)
next
  case (8 k h obs)
  then show ?case by (simp add: obs_enqueue_def obs_enqueue_nowait_def subs_ok_cong [OF obs_put_fields(3,1,2)])
next
  case (9 obs)
  have "subs_ok (obs\<lparr>o_events := e\<rparr>) = subs_ok obs" for e by (rule subs_ok_cong) simp_all
  with 9 show ?case
    by (simp add: obs_flush_def Let_def obs_enqueue_nowait_def subs_ok_cong [OF obs_put_fields(3,1,2)])
qed (simp_all add: subs_ok_disconnect subs_ok_subscribe subs_ok_bind subs_ok_close)

section \<open>What the calls leave alone\<close>

definition is_key :: "item \<Rightarrow> bool" where
  "is_key x \<longleftrightarrow> (case x of Key_Item _ \<Rightarrow> True | Tagged_Item _ _ \<Rightarrow> True | _ \<Rightarrow> False)"

definition keys_of :: "item list \<Rightarrow> item list" where
  "keys_of = filter is_key"

lemma keys_of_simps [simp]:
  "keys_of [] = []" "keys_of (xs @ ys) = keys_of xs @ keys_of ys" "keys_of [Event e] = []" "keys_of [Stop_Marker] = []"
  "keys_of (Event e # xs) = keys_of xs" "keys_of (Stop_Marker # xs) = keys_of xs"
  "keys_of (Key_Item k # xs) = Key_Item k # keys_of xs" "keys_of (Tagged_Item k h # xs) = Tagged_Item k h # keys_of xs"
  by (simp_all add: keys_of_def is_key_def)

text \<open>
  While the worker is alive, a call only adds to the queue, within its capacity, and a closed
  subscription stays closed.
\<close>

definition grows :: "observer \<Rightarrow> observer \<Rightarrow> bool" where
  "grows obs obs' \<longleftrightarrow>
     o_phase obs' = o_phase obs \<and> o_hand obs' = o_hand obs \<and> o_set obs' = o_set obs \<and>
     o_handed obs' = o_handed obs \<and> o_maxsize obs' = o_maxsize obs \<and>
     (o_stop obs \<longrightarrow> o_stop obs') \<and>
     length (o_subs obs) \<le> length (o_subs obs') \<and>
     (\<forall>i < length (o_subs obs). s_filter (o_subs obs' ! i) = s_filter (o_subs obs ! i) \<and>
        (s_closed (o_subs obs ! i) \<longrightarrow> s_closed (o_subs obs' ! i))) \<and>
     (\<exists>zs. o_queue obs' = o_queue obs @ zs \<and> o_put obs' = o_put obs @ zs) \<and>
     (0 < o_maxsize obs \<longrightarrow> int (length (o_queue obs')) \<le> max (o_maxsize obs) (int (length (o_queue obs))))"

lemma grows_refl [simp]: "grows obs obs"
  by (simp add: grows_def)

lemma grows_phase: "grows obs obs' \<Longrightarrow> o_phase obs' = o_phase obs"
  by (simp add: grows_def)

lemma grows_trans:
  assumes "grows a b" and "grows b c"
  shows "grows a c"
proof -
  obtain y z where y: "o_queue b = o_queue a @ y" "o_put b = o_put a @ y" "o_queue c = o_queue b @ z" "o_put c = o_put b @ z"
    using assms unfolding grows_def by blast
  then have "o_queue c = o_queue a @ (y @ z)" "o_put c = o_put a @ (y @ z)" by simp_all
  moreover have "0 < o_maxsize a \<longrightarrow> int (length (o_queue c)) \<le> max (o_maxsize a) (int (length (o_queue a)))"
    using assms unfolding grows_def by auto
  moreover have "length (o_subs a) \<le> length (o_subs c)" using assms unfolding grows_def by linarith
  ultimately show ?thesis using assms unfolding grows_def
    by (intro conjI allI impI) (fastforce+)
qed

text \<open>Updates that add nothing, and one put with room for it.\<close>

lemma nth_update_any: "j < length xs \<Longrightarrow> xs[i := x] ! j = (if i = j then x else xs ! j)"
  by simp

lemma grows_change:
  "s_filter st = s_filter (o_subs obs ! i) \<Longrightarrow> (s_closed (o_subs obs ! i) \<Longrightarrow> s_closed st) \<Longrightarrow>
    grows obs (obs\<lparr>o_subs := (o_subs obs)[i := st]\<rparr>)"
  by (auto simp: grows_def nth_update_any)

lemma grows_enqueue:
  "obs_enqueue_nowait x obs = Some obs' \<Longrightarrow> grows obs obs'"
  by (auto simp: obs_enqueue_nowait_def queue_full_def grows_def split: if_splits)

lemma grows_disconnect: "grows obs (obs_disconnect obs)"
proof (cases "o_connected obs")
  case True
  have "grows obs (stop_worker obs)"
    by (auto simp: stop_worker_cases grows_def queue_full_def)
  moreover have "grows (stop_worker obs) ((close_subs (registered obs) (stop_worker obs))
      \<lparr>o_connected := c, o_registry := reg, o_log := l\<rparr>)" for c reg l
    by (auto simp: grows_def)
  ultimately show ?thesis unfolding disconnect_eq [OF True] by (rule grows_trans)
qed (simp add: obs_disconnect_def)

lemma grows_subscribe: "grows obs (snd (obs_subscribe f hook obs))"
proof (cases "o_connected obs \<and> (\<exists>reg. o_registry obs = Some reg)")
  case True
  then obtain reg where reg: "o_registry obs = Some reg" and c: "o_connected obs" by blast
  let ?n = "length (o_subs obs)"
  let ?o = "\<lambda>r. obs\<lparr>o_subs := o_subs obs @ [\<lparr>s_filter = f, s_receivers = [], s_closed = False\<rparr>], o_registry := r\<rparr>"
  have o: "grows obs (?o r)" for r by (auto simp: grows_def nth_append)
  show ?thesis
  proof (cases hook)
    case Hook_Returns
    with reg c o show ?thesis by (simp add: obs_subscribe_def Let_def)
  next
    case Hook_Raises
    have "grows (?o r) (change_sub ?n (s_closed_update (\<lambda>_. True)) (?o r))" for r
      unfolding change_sub_def by (rule grows_change) simp_all
    with o Hook_Raises reg c show ?thesis
      by (auto simp: obs_subscribe_def Let_def intro: grows_trans)
  next
    case Hook_Disconnected
    have "grows ob (change_sub ?n sub_mark_closed ob)" for ob
      by (auto simp: grows_def change_sub_def nth_update_any)
    then have "grows obs (change_sub ?n sub_mark_closed (obs_disconnect (?o r)))" for r
      using o grows_disconnect grows_trans by blast
    with Hook_Disconnected reg c show ?thesis by (simp add: obs_subscribe_def Let_def)
  qed
qed (auto simp: obs_subscribe_def split: option.splits)

lemma grows_call:
  assumes "o_phase obs \<noteq> W_Dead \<or> (\<forall>hook. c \<noteq> C_Connect hook)"
  shows "grows obs (obs_call c obs)"
proof (cases c)
  case (C_Connect hook)
  with assms have "o_phase obs \<noteq> W_Dead" by blast
  with C_Connect show ?thesis by (simp add: obs_connect_def)
next
  case (C_Bind i r)
  then show ?thesis 
    by (auto intro!: grows_change simp: obs_bind_def sub_bind_def change_sub_def)
next
  case (C_Unbind i r)
  then show ?thesis 
    by (auto intro!: grows_change simp: obs_unbind_def sub_unbind_def change_sub_def)
next
  case (C_Bind_Exit i r)
  then show ?thesis 
    by (auto intro!: grows_change simp: bind_exit_def sub_unbind_def change_sub_def)
next
  case (C_Close i)
  have "grows obs (obs_close i obs)"
    by (auto simp: obs_close_def change_sub_def grows_def nth_update_any Let_def split: option.splits)
  with C_Close show ?thesis by simp
next
  case (C_Incoming k h)
  then show ?thesis by (auto simp: obs_enqueue_def grows_enqueue split: option.splits)
next
  case C_Flush
  have "grows obs (obs\<lparr>o_events := e\<rparr>)" for e by (simp add: grows_def)
  with C_Flush show ?thesis
    by (auto simp: obs_flush_def Let_def split: option.splits intro: grows_trans [OF _ grows_enqueue])
qed (simp_all add: grows_disconnect grows_subscribe)

lemma grows_calls: "o_phase obs \<noteq> W_Dead \<Longrightarrow> grows obs (fold obs_call cs obs)"
proof (induction cs arbitrary: obs)
  case (Cons c cs)
  have "grows obs (obs_call c obs)" using Cons.prems by (intro grows_call) simp
  moreover from this Cons have "grows (obs_call c obs) (fold obs_call cs (obs_call c obs))"
    by (metis grows_phase)
  ultimately show ?case by (simp add: grows_trans)
qed simp

lemma grows_log: "grows obs (obs\<lparr>o_log := l\<rparr>)" "grows (obs\<lparr>o_log := l\<rparr>) obs' = grows obs obs'"
  by (simp_all add: grows_def)

lemma grows_receiver: "o_phase obs \<noteq> W_Dead \<Longrightarrow> grows obs (snd (run_receiver cb i r key obs))"
  using grows_calls [of "obs\<lparr>o_log := o_log obs @ [E_Call i r key]\<rparr>"]
  by (simp add: run_receiver_def grows_log split: prod.split)

lemma grows_notify: "o_phase obs \<noteq> W_Dead \<Longrightarrow> grows obs (snd (notify_loop cb i key rs obs))"
proof (induction rs arbitrary: obs)
  case (Cons r rs)
  have g: "grows obs (snd (run_receiver cb i r key obs))" by (rule grows_receiver [OF Cons.prems])
  with Cons have "grows (snd (run_receiver cb i r key obs)) (snd (notify_loop cb i key rs (snd (run_receiver cb i r key obs))))"
    by (metis grows_phase)
  with g show ?case by (auto simp: case_prod_unfold Let_def intro: grows_trans)
qed simp

lemma grows_subs: "o_phase obs \<noteq> W_Dead \<Longrightarrow> grows obs (snd (deliver_subs cb key ss obs))"
proof (induction ss arbitrary: obs)
  case (Cons s ss)
  let ?o = "snd (sub_notify cb (sub_id s) key obs)"
  have g: "grows obs ?o" unfolding sub_notify_def by (rule grows_notify [OF Cons.prems])
  with Cons have "grows ?o (snd (deliver_subs cb key ss ?o))" by (metis grows_phase)
  with g show ?case by (auto simp: case_prod_unfold Let_def intro: grows_trans)
qed simp

lemma grows_local: "o_phase obs \<noteq> W_Dead \<Longrightarrow> grows obs (snd (deliver_local cb ns obs))"
proof (induction ns arbitrary: obs)
  case (Cons n ns)
  obtain key ss where n: "n = (key, ss)" by (cases n)
  let ?o = "snd (deliver_subs cb key ss obs)"
  have g: "grows obs ?o" by (rule grows_subs [OF Cons.prems])
  with Cons have "grows ?o (snd (deliver_local cb ns ?o))" by (metis grows_phase)
  with g show ?case by (auto simp: n case_prod_unfold Let_def intro: grows_trans)
qed simp

lemma grows_batch: "o_phase obs \<noteq> W_Dead \<Longrightarrow> grows obs (snd (deliver_batch cb order digest batch obs))"
  by (auto simp: deliver_batch_def grows_local split: option.splits)

text \<open>A delivery: what the receivers called, and the batch delivered.\<close>

lemma deliver_grows:
  assumes "o_phase obs \<noteq> W_Dead"
  shows "\<exists>obs'. grows obs obs' \<and> deliver cb order digest obs = obs'\<lparr>o_handed := o_handed obs @ o_hand obs\<rparr>"
proof (cases "o_hand obs = []")
  case True
  then show ?thesis by (intro exI [of _ obs]) (simp add: deliver_def)
next
  case False
  then show ?thesis using grows_batch [OF assms, of cb order digest "o_hand obs"]
    by (intro exI [of _ "snd (deliver_batch cb order digest (o_hand obs) obs)"]) (simp add: deliver_def Let_def)
qed

section \<open>The queue in order\<close>

definition in_hand :: "observer \<Rightarrow> item list" where
  "in_hand obs = (case o_phase obs of W_Item x \<Rightarrow> [x] | _ \<Rightarrow> [])"

text \<open>
  Everything put on the queue is still on it, in the worker's hand, or handled, in that order, and
  the keys handled are those handed over for delivery and those of the batch. When a flush event is
  set, every key put before it is handed over.
\<close>

definition queue_ok :: "observer \<Rightarrow> bool" where
  "queue_ok obs \<longleftrightarrow>
     (0 < o_maxsize obs \<longrightarrow> int (length (o_queue obs)) \<le> o_maxsize obs) \<and>
     length (o_hand obs) \<le> DISPATCH_BATCH_MAX \<and>
     (o_phase obs \<noteq> W_Flush \<longrightarrow> length (o_hand obs) < DISPATCH_BATCH_MAX) \<and>
     (o_phase obs \<in> {W_Dead, W_Top, W_Wait} \<longrightarrow> o_hand obs = []) \<and>
     (\<exists>handled. o_put obs = handled @ in_hand obs @ o_queue obs \<and> keys_of handled = o_handed obs @ o_hand obs) \<and>
     (\<forall>e \<in> set (o_set obs). \<exists>xs ys. o_put obs = xs @ Event e # ys \<and> prefix (keys_of xs) (o_handed obs))"

lemma queue_ok_grows:
  assumes "queue_ok obs" and "grows obs obs'"
  shows "queue_ok obs'"
proof -
  obtain zs where z: "o_queue obs' = o_queue obs @ zs" "o_put obs' = o_put obs @ zs"
    using assms(2) unfolding grows_def by blast
  have f: "o_phase obs' = o_phase obs" "o_hand obs' = o_hand obs" "o_set obs' = o_set obs"
    "o_handed obs' = o_handed obs" "o_maxsize obs' = o_maxsize obs"
    "0 < o_maxsize obs \<Longrightarrow> int (length (o_queue obs')) \<le> max (o_maxsize obs) (int (length (o_queue obs)))"
    using assms(2) unfolding grows_def by blast+
  have "\<exists>handled. o_put obs' = handled @ in_hand obs' @ o_queue obs' \<and> keys_of handled = o_handed obs' @ o_hand obs'"
    using assms(1) unfolding queue_ok_def z f in_hand_def by force
  moreover have "\<exists>xs ys. o_put obs' = xs @ Event e # ys \<and> prefix (keys_of xs) (o_handed obs')"
    if "e \<in> set (o_set obs')" for e
  proof -
    from that f assms(1) obtain xs ys where "o_put obs = xs @ Event e # ys" "prefix (keys_of xs) (o_handed obs)"
      unfolding queue_ok_def by metis
    then show ?thesis using z f by (intro exI [of _ xs] exI [of _ "ys @ zs"]) simp
  qed
  moreover have "0 < o_maxsize obs' \<Longrightarrow> int (length (o_queue obs')) \<le> o_maxsize obs'"
    using f(5,6) assms(1) unfolding queue_ok_def by force
  ultimately show ?thesis using assms(1) f(1-5) by (simp add: queue_ok_def)
qed

text \<open>A delivery empties the batch.\<close>

lemma queue_ok_delivered:
  assumes "queue_ok obs"
  shows "\<exists>handled. o_put obs = handled @ in_hand obs @ o_queue obs \<and>
      keys_of handled = (o_handed obs @ o_hand obs) @ []"
    and "\<forall>e \<in> set (o_set obs). \<exists>xs ys. o_put obs = xs @ Event e # ys \<and> prefix (keys_of xs) (o_handed obs @ o_hand obs)"
proof -
  show "\<exists>handled. o_put obs = handled @ in_hand obs @ o_queue obs \<and>
      keys_of handled = (o_handed obs @ o_hand obs) @ []" using assms by (simp add: queue_ok_def)
  show "\<forall>e \<in> set (o_set obs). \<exists>xs ys. o_put obs = xs @ Event e # ys \<and> prefix (keys_of xs) (o_handed obs @ o_hand obs)"
    using assms unfolding queue_ok_def by (meson prefix_prefix)
qed

lemma deliver_queue:
  assumes "queue_ok obs" and "o_phase obs \<noteq> W_Dead"
  obtains obs' where "queue_ok obs'" "grows obs obs'"
    "deliver cb order digest obs = obs'\<lparr>o_handed := o_handed obs' @ o_hand obs'\<rparr>"
proof -
  obtain obs' where o: "grows obs obs'" "deliver cb order digest obs = obs'\<lparr>o_handed := o_handed obs @ o_hand obs\<rparr>"
    using deliver_grows [OF assms(2)] by blast
  moreover have "o_handed obs' = o_handed obs" "o_hand obs' = o_hand obs"
    using o(1) by (simp_all add: grows_def)
  ultimately show thesis using that queue_ok_grows [OF assms(1)] by simp
qed

lemma batch_max [simp]: "0 < DISPATCH_BATCH_MAX"
  by (simp add: DISPATCH_BATCH_MAX_def)

lemma queue_ok_flush:
  assumes "queue_ok obs" and "in_hand obs = []" and "p = W_Top \<or> p = W_Dead"
  shows "queue_ok (obs\<lparr>o_handed := o_handed obs @ o_hand obs, o_hand := [], o_phase := p\<rparr>)"
  using assms(1) queue_ok_delivered [OF assms(1)] assms(2,3) unfolding queue_ok_def in_hand_def by auto

text \<open>What was in hand is handled.\<close>

lemma queue_ok_take:
  assumes "queue_ok obs" and "o_phase obs = W_Item x" and "\<not> is_key x"
    and "p = W_Next \<or> p = W_Dead" and "set es \<subseteq> (case x of Event e \<Rightarrow> {e} | _ \<Rightarrow> {})"
  shows "queue_ok (obs\<lparr>o_handed := o_handed obs @ o_hand obs, o_hand := [], o_set := o_set obs @ es, o_phase := p\<rparr>)"
proof -
  obtain handled where h: "o_put obs = handled @ x # o_queue obs" "keys_of handled = o_handed obs @ o_hand obs"
    using queue_ok_delivered(1) [OF assms(1)] assms(2) by (auto simp: in_hand_def)
  have "keys_of (handled @ [x]) = o_handed obs @ o_hand obs" "o_put obs = (handled @ [x]) @ o_queue obs"
    using h assms(3) by (simp_all add: keys_of_def)
  then have "\<exists>handled. o_put obs = handled @ o_queue obs \<and> keys_of handled = o_handed obs @ o_hand obs" by blast
  moreover have "\<exists>xs ys. o_put obs = xs @ Event e # ys \<and> prefix (keys_of xs) (o_handed obs @ o_hand obs)"
    if "e \<in> set (o_set obs @ es)" for e
  proof (cases "e \<in> set (o_set obs)")
    case True
    with queue_ok_delivered(2) [OF assms(1)] show ?thesis by blast
  next
    case False
    with that assms(5) have "x = Event e" by (auto split: item.splits)
    with h show ?thesis by (intro exI [of _ handled] exI [of _ "o_queue obs"]) simp
  qed
  ultimately show ?thesis using assms(1,4) unfolding queue_ok_def in_hand_def by auto
qed

lemma queue_ok_step:
  assumes "queue_ok obs"
  shows "queue_ok (worker_step cb order digest obs)"
proof (cases "o_phase obs")
  case W_Dead
  then show ?thesis using assms by (simp add: worker_step_def)
next
  case W_Top
  then show ?thesis using assms by (auto simp: worker_step_def queue_ok_def in_hand_def)
next
  case W_Wait
  then show ?thesis using assms
    by (auto simp: worker_step_def queue_ok_def in_hand_def split: list.splits)
next
  case W_Next
  then show ?thesis using assms
    by (auto simp: worker_step_def queue_ok_def in_hand_def split: list.splits)
next
  case W_Flush
  have "o_phase obs \<noteq> W_Dead" using W_Flush by simp
  then obtain obs' where o: "queue_ok obs'" "grows obs obs'"
    "deliver cb order digest obs = obs'\<lparr>o_handed := o_handed obs' @ o_hand obs'\<rparr>"
    using deliver_queue [OF assms] by blast
  have "in_hand obs' = []" using grows_phase [OF o(2)] W_Flush by (simp add: in_hand_def)
  from queue_ok_flush [OF o(1) this] W_Flush o(3) show ?thesis by (simp add: worker_step_def)
next
  case (W_Item x)
  have alive: "o_phase obs \<noteq> W_Dead" using W_Item by simp
  show ?thesis
  proof (cases "is_key x")
    case True
    then have k: "worker_step cb order digest obs = obs\<lparr>o_hand := o_hand obs @ [x],
        o_phase := (if DISPATCH_BATCH_MAX \<le> length (o_hand obs @ [x]) then W_Flush else W_Next)\<rparr>"
      using W_Item by (cases x) (simp_all add: worker_step_def is_key_def)
    obtain handled where h: "o_put obs = handled @ x # o_queue obs" "keys_of handled = o_handed obs @ o_hand obs"
      using assms W_Item by (auto simp: queue_ok_def in_hand_def)
    have "o_put obs = (handled @ [x]) @ o_queue obs" "keys_of (handled @ [x]) = o_handed obs @ o_hand obs @ [x]"
      using h True by (simp_all add: keys_of_def)
    then have "\<exists>handled. o_put obs = handled @ o_queue obs \<and> keys_of handled = o_handed obs @ o_hand obs @ [x]"
      by blast
    then show ?thesis using assms W_Item unfolding k by (auto simp: queue_ok_def in_hand_def)
  next
    case False
    obtain obs' where o: "queue_ok obs'" "grows obs obs'"
      "deliver cb order digest obs = obs'\<lparr>o_handed := o_handed obs' @ o_hand obs'\<rparr>"
      using deliver_queue [OF assms alive] by blast
    have p: "o_phase obs' = W_Item x" using grows_phase [OF o(2)] W_Item by simp
    show ?thesis
    proof (cases x)
      case (Event e)
      from queue_ok_take [OF o(1) p False, of W_Next "[e]"] Event W_Item o(3) show ?thesis
        by (simp add: worker_step_def Let_def)
    next
      case Stop_Marker
      from queue_ok_take [OF o(1) p False, of W_Dead "[]"] Stop_Marker W_Item o(3) show ?thesis
        by (simp add: worker_step_def)
    qed (use False in \<open>simp_all add: is_key_def\<close>)
  qed
qed

lemma queue_ok_call:
  assumes "queue_ok obs"
  shows "queue_ok (obs_call c obs)"
proof (cases "o_phase obs \<noteq> W_Dead \<or> (\<forall>hook. c \<noteq> C_Connect hook)")
  case True
  from queue_ok_grows [OF assms grows_call [OF this]] show ?thesis .
next
  case False
  then obtain hook where c: "c = C_Connect hook" "o_phase obs = W_Dead" by blast
  with assms have h: "o_hand obs = []" by (simp add: queue_ok_def)
  show ?thesis
  proof (cases "o_connected obs")
    case True
    then show ?thesis using assms c by (simp add: obs_connect_def)
  next
    case False
    then show ?thesis using c h
      by (cases hook) (simp_all add: obs_connect_def Let_def queue_ok_def in_hand_def)
  qed
qed

section \<open>The log in order\<close>

text \<open>
  A closed subscription in the log is closed, no receiver of it is called after, and a receiver is
  called for keys its subscription's filter matches.
\<close>

definition trace_ok :: "sub_state list \<Rightarrow> event list \<Rightarrow> bool" where
  "trace_ok subs l \<longleftrightarrow>
     (\<forall>i. E_Close i \<in> set l \<longrightarrow> i < length subs \<and> s_closed (subs ! i)) \<and>
     (\<forall>i r k. E_Call i r k \<in> set l \<longrightarrow> i < length subs \<and> matches (s_filter (subs ! i)) k) \<and>
     (\<forall>xs i r k ys. l = xs @ E_Call i r k # ys \<longrightarrow> E_Close i \<notin> set xs)"

abbreviation log_ok :: "observer \<Rightarrow> bool" where
  "log_ok obs \<equiv> trace_ok (o_subs obs) (o_log obs)"

text \<open>Subscriptions are only added and closed.\<close>

definition subs_grow :: "observer \<Rightarrow> observer \<Rightarrow> bool" where
  "subs_grow obs obs' \<longleftrightarrow> length (o_subs obs) \<le> length (o_subs obs') \<and>
     (\<forall>i < length (o_subs obs). s_filter (o_subs obs' ! i) = s_filter (o_subs obs ! i) \<and>
        (s_closed (o_subs obs ! i) \<longrightarrow> s_closed (o_subs obs' ! i)))"

lemma subs_grow: "grows obs obs' \<Longrightarrow> subs_grow obs obs'"
  by (simp add: grows_def subs_grow_def)

lemma trace_ok_subs: "trace_ok (o_subs obs) l \<Longrightarrow> subs_grow obs obs' \<Longrightarrow> trace_ok (o_subs obs') l"
  unfolding trace_ok_def subs_grow_def by (metis less_le_trans)

lemma log_ok_same: "log_ok obs \<Longrightarrow> subs_grow obs obs' \<Longrightarrow> o_log obs' = o_log obs \<Longrightarrow> log_ok obs'"
  using trace_ok_subs by simp

lemma append_closes:
  "l @ map E_Close is = xs @ E_Call i r k # ys \<Longrightarrow> \<exists>zs. l = xs @ E_Call i r k # zs"
proof (induction "is" arbitrary: ys rule: rev_induct)
  case (snoc j "is")
  then show ?case
  proof (cases ys rule: rev_exhaust)
    case (snoc zs z)
    with snoc.prems have "l @ map E_Close is = xs @ E_Call i r k # zs" by simp
    then show ?thesis by (rule snoc.IH)
  qed simp
qed simp

lemma trace_ok_closes:
  assumes "trace_ok subs l" and "\<And>i. i \<in> set is \<Longrightarrow> i < length subs \<and> s_closed (subs ! i)"
  shows "trace_ok subs (l @ map E_Close is)"
  unfolding trace_ok_def
proof (intro conjI allI impI)
  fix xs i r k ys
  assume "l @ map E_Close is = xs @ E_Call i r k # ys"
  then obtain zs where "l = xs @ E_Call i r k # zs" using append_closes by blast
  then show "E_Close i \<notin> set xs" using assms(1) unfolding trace_ok_def by blast
qed (use assms in \<open>auto simp: trace_ok_def\<close>)

lemma log_ok_closes:
  assumes "log_ok obs" and "subs_grow obs obs'" and "o_log obs' = o_log obs @ map E_Close is"
    and "\<And>i. i \<in> set is \<Longrightarrow> i < length (o_subs obs') \<and> s_closed (o_subs obs' ! i)"
  shows "log_ok obs'"
  unfolding assms(3) by (rule trace_ok_closes [OF trace_ok_subs [OF assms(1,2)] assms(4)])

lemma connect_subs: "o_subs (snd (obs_connect hook obs)) = o_subs obs" "o_log (snd (obs_connect hook obs)) = o_log obs"
  by (simp_all add: obs_connect_def Let_def)

lemma enqueue_log: "o_log (obs_enqueue x obs) = o_log obs" "o_log (obs_flush obs) = o_log obs"
  by (simp_all add: obs_enqueue_def obs_flush_def obs_enqueue_nowait_def Let_def)

lemma bind_log: "o_log (snd (obs_bind i r obs)) = o_log obs" "o_log (snd (obs_unbind i r obs)) = o_log obs"
  by (simp_all add: obs_bind_def obs_unbind_def change_sub_def split: option.splits)

lemma subs_grow_call: "subs_grow obs (obs_call c obs)"
proof (cases "\<forall>hook. c \<noteq> C_Connect hook")
  case True
  then show ?thesis by (intro subs_grow grows_call) simp
qed (auto simp: connect_subs subs_grow_def)

lemma log_ok_disconnect:
  assumes "log_ok obs"
  shows "log_ok (obs_disconnect obs)"
proof (cases "o_connected obs")
  case True
  show ?thesis
  proof (rule log_ok_closes [OF assms subs_grow [OF grows_disconnect]])
    show "o_log (obs_disconnect obs) = o_log obs @ map E_Close (registered obs @ registered obs)"
      by (simp add: disconnect_eq [OF True])
    show "i < length (o_subs (obs_disconnect obs)) \<and> s_closed (o_subs (obs_disconnect obs) ! i)"
      if "i \<in> set (registered obs @ registered obs)" for i
      using that registered_range [of obs] by (auto simp: disconnect_eq [OF True])
  qed
qed (use assms in \<open>simp add: obs_disconnect_def\<close>)

lemma log_subscribe:
  "o_log (snd (obs_subscribe f hook obs)) = o_log obs \<or>
    (\<exists>obs'. snd (obs_subscribe f hook obs) = change_sub (length (o_subs obs)) sub_mark_closed (obs_disconnect obs') \<and>
       grows obs obs' \<and> o_log obs' = o_log obs)"
proof (cases "o_connected obs \<and> (\<exists>reg. o_registry obs = Some reg) \<and> hook = Hook_Disconnected")
  case True
  have "grows obs (obs\<lparr>o_subs := o_subs obs @ [st], o_registry := r\<rparr>)" for st r by (auto simp: grows_def nth_append)
  with True show ?thesis by (auto simp: obs_subscribe_def Let_def)
next
  case False
  then show ?thesis
    by (auto simp: obs_subscribe_def Let_def change_sub_def split: option.splits hook.splits)
qed

lemma log_ok_call:
  assumes "log_ok obs"
  shows "log_ok (obs_call c obs)"
proof (cases c)
  case (C_Close i)
  have "log_ok (obs_close i obs)" if "i < length (o_subs obs)" "\<not> s_closed (o_subs obs ! i)"
    by (rule log_ok_closes [OF assms, of _ "[i]"])
      (use that in \<open>auto simp: obs_close_def Let_def change_sub_def subs_grow_def nth_update_any split: option.splits\<close>)
  then show ?thesis using assms C_Close by (cases "s_closed (o_subs obs ! i)") (auto simp: obs_close_def)
next
  case (C_Subscribe f hook)
  from log_subscribe [of f hook obs] show ?thesis
  proof
    assume "o_log (snd (obs_subscribe f hook obs)) = o_log obs"
    then show ?thesis using log_ok_same [OF assms subs_grow_call, of c] C_Subscribe by simp
  next
    assume "\<exists>obs'. snd (obs_subscribe f hook obs) = change_sub (length (o_subs obs)) sub_mark_closed (obs_disconnect obs') \<and>
       grows obs obs' \<and> o_log obs' = o_log obs"
    then obtain obs' where o: "snd (obs_subscribe f hook obs) = change_sub (length (o_subs obs)) sub_mark_closed (obs_disconnect obs')"
      "grows obs obs'" "o_log obs' = o_log obs" by blast
    have "log_ok (obs_disconnect obs')" by (intro log_ok_disconnect log_ok_same [OF assms subs_grow]) (rule o)+
    then have "log_ok (change_sub (length (o_subs obs)) sub_mark_closed (obs_disconnect obs'))"
      by (rule log_ok_same) (auto simp: change_sub_def subs_grow_def nth_update_any)
    then show ?thesis using o(1) C_Subscribe by simp
  qed
next
  case (C_Incoming k h)
  then show ?thesis using log_ok_same [OF assms subs_grow_call, of c] by (simp add: enqueue_log)
next
  case C_Flush
  then show ?thesis using log_ok_same [OF assms subs_grow_call, of c] by (simp add: enqueue_log)
next
  case (C_Bind i r)
  then show ?thesis using log_ok_same [OF assms subs_grow_call, of c]
    by (cases "i < length (o_subs obs)") (simp_all add: bind_log)
next
  case (C_Unbind i r)
  then show ?thesis using log_ok_same [OF assms subs_grow_call, of c]
    by (cases "i < length (o_subs obs)") (simp_all add: bind_log)
next
  case (C_Bind_Exit i r)
  then show ?thesis using log_ok_same [OF assms subs_grow_call, of c]
    by (cases "i < length (o_subs obs)") (simp_all add: change_sub_def)
next
  case (C_Connect hook)
  then show ?thesis using log_ok_same [OF assms subs_grow_call, of c] by (simp add: connect_subs)
qed (simp_all add: assms log_ok_disconnect)

section \<open>Delivery keeps the order\<close>

definition observer_ok :: "observer \<Rightarrow> bool" where
  "observer_ok obs \<longleftrightarrow> subs_ok obs \<and> queue_ok obs \<and> log_ok obs"

lemma observer_ok_call: "observer_ok obs \<Longrightarrow> observer_ok (obs_call c obs)"
  by (simp add: observer_ok_def subs_ok_call queue_ok_call log_ok_call)

text \<open>What a delivery keeps; the log needs the filter to match.\<close>

definition good :: "observer \<Rightarrow> bool" where
  "good obs \<longleftrightarrow> subs_ok obs \<and> log_ok obs"

definition matched :: "observer \<Rightarrow> key \<Rightarrow> nat \<Rightarrow> bool" where
  "matched obs key i \<longleftrightarrow> i < length (o_subs obs) \<and> matches (s_filter (o_subs obs ! i)) key"

lemma matched_grows: "grows obs obs' \<Longrightarrow> matched obs key i \<Longrightarrow> matched obs' key i"
  by (auto simp: matched_def grows_def)

lemma good_calls: "good obs \<Longrightarrow> good (fold obs_call cs obs)"
  by (induction cs arbitrary: obs) (simp_all add: good_def subs_ok_call log_ok_call)

lemma trace_ok_call:
  assumes "trace_ok subs l" and "i < length subs" and "matches (s_filter (subs ! i)) k" and "\<not> s_closed (subs ! i)"
  shows "trace_ok subs (l @ [E_Call i r k])"
proof -
  have "E_Close i \<notin> set l" using assms(1,4) by (auto simp: trace_ok_def)
  have "E_Close j \<notin> set xs" if "l @ [E_Call i r k] = xs @ E_Call j r' k' # ys" for xs j r' k' ys
  proof (cases ys rule: rev_exhaust)
    case Nil
    with that \<open>E_Close i \<notin> set l\<close> show ?thesis by simp
  next
    case (snoc zs z)
    with that have "l = xs @ E_Call j r' k' # zs" by simp
    with assms(1) show ?thesis unfolding trace_ok_def by blast
  qed
  then show ?thesis using assms by (auto simp: trace_ok_def)
qed

lemma good_receiver:
  assumes "good obs" and "matched obs key i" and "\<not> s_closed (o_subs obs ! i)"
  shows "good (snd (run_receiver cb i r key obs))"
proof -
  have "good (obs\<lparr>o_log := o_log obs @ [E_Call i r key]\<rparr>)"
    using assms trace_ok_call subs_ok_cong [of "obs\<lparr>o_log := o_log obs @ [E_Call i r key]\<rparr>" obs]
    by (simp add: good_def matched_def)
  from good_calls [OF this] show ?thesis by (simp add: run_receiver_def split: prod.split)
qed

lemma good_notify:
  "good obs \<Longrightarrow> matched obs key i \<Longrightarrow> o_phase obs \<noteq> W_Dead \<Longrightarrow> good (snd (notify_loop cb i key rs obs))"
proof (induction rs arbitrary: obs)
  case (Cons r rs)
  let ?o = "snd (run_receiver cb i r key obs)"
  have "grows obs ?o" by (rule grows_receiver [OF Cons.prems(3)])
  then have "matched ?o key i" "o_phase ?o \<noteq> W_Dead"
    using matched_grows Cons.prems(2,3) by (auto simp: grows_phase)
  with good_receiver Cons show ?case by (auto simp: case_prod_unfold Let_def)
qed simp

lemma good_subs:
  "good obs \<Longrightarrow> \<forall>s \<in> set ss. matched obs key (sub_id s) \<Longrightarrow> o_phase obs \<noteq> W_Dead \<Longrightarrow>
    good (snd (deliver_subs cb key ss obs))"
proof (induction ss arbitrary: obs)
  case (Cons s ss)
  let ?o = "snd (sub_notify cb (sub_id s) key obs)"
  have g: "grows obs ?o" unfolding sub_notify_def by (rule grows_notify [OF Cons.prems(3)])
  then have "\<forall>s \<in> set ss. matched ?o key (sub_id s)" "o_phase ?o \<noteq> W_Dead"
    using matched_grows Cons.prems(2,3) by (auto simp: grows_phase)
  moreover have "good ?o" unfolding sub_notify_def using Cons.prems by (intro good_notify) simp_all
  ultimately show ?case using Cons.IH by (auto simp: case_prod_unfold Let_def)
qed simp

lemma good_local:
  "good obs \<Longrightarrow> \<forall>(key, ss) \<in> set ns. \<forall>s \<in> set ss. matched obs key (sub_id s) \<Longrightarrow> o_phase obs \<noteq> W_Dead \<Longrightarrow>
    good (snd (deliver_local cb ns obs))"
proof (induction ns arbitrary: obs)
  case (Cons n ns)
  obtain key ss where n: "n = (key, ss)" by (cases n)
  let ?o = "snd (deliver_subs cb key ss obs)"
  have g: "grows obs ?o" by (rule grows_subs [OF Cons.prems(3)])
  then have "\<forall>(key, ss) \<in> set ns. \<forall>s \<in> set ss. matched ?o key (sub_id s)" "o_phase ?o \<noteq> W_Dead"
    using matched_grows [OF g] Cons.prems(2,3) by (auto simp: grows_phase)
  moreover have "good ?o" using Cons.prems n by (intro good_subs) auto
  ultimately show ?case using Cons.IH n by (auto simp: case_prod_unfold Let_def)
qed simp

text \<open>The order Python lists a set of objects in: each once.\<close>

definition lists_sets :: "(nat set \<Rightarrow> nat list) \<Rightarrow> bool" where
  "lists_sets order \<longleftrightarrow> (\<forall>A. finite A \<longrightarrow> set (order A) = A \<and> distinct (order A))"

lemma matching_subscriptions:
  assumes "subs_ok obs" and "o_registry obs = Some reg"
  shows "finite (registry_match reg key)"
    and "s \<in> registry_match reg key \<Longrightarrow>
      s = sub_of obs (sub_id s) \<and> matched obs key (sub_id s) \<and> \<not> s_closed (o_subs obs ! sub_id s)"
    and "matched obs key i \<Longrightarrow> \<not> s_closed (o_subs obs ! i) \<Longrightarrow> findable (s_filter (o_subs obs ! i)) \<Longrightarrow>
      sub_of obs i \<in> registry_match reg key"
proof -
  have reg: "registry_ok reg" "r_all reg = open_subs obs" using assms by (simp_all add: subs_ok_def)
  have "registry_match reg key \<subseteq> open_subs obs" using registry_match_iff [OF reg(1)] reg(2) by blast
  moreover have "finite (open_subs obs)" by (simp add: open_subs_def)
  ultimately show "finite (registry_match reg key)" by (rule finite_subset)
  show "s \<in> registry_match reg key \<Longrightarrow>
      s = sub_of obs (sub_id s) \<and> matched obs key (sub_id s) \<and> \<not> s_closed (o_subs obs ! sub_id s)"
    using registry_match_iff [OF reg(1)] reg(2) by (auto simp: open_subs_def matched_def)
  show "matched obs key i \<Longrightarrow> \<not> s_closed (o_subs obs ! i) \<Longrightarrow> findable (s_filter (o_subs obs ! i)) \<Longrightarrow>
      sub_of obs i \<in> registry_match reg key"
    using registry_match_iff [OF reg(1)] reg(2) findable_hit by (auto simp: in_open_subs matched_def)
qed

lemma match_list:
  assumes "subs_ok obs" and "o_registry obs = Some reg" and "lists_sets order"
  shows "set (match_list order obs reg key) = registry_match reg key" and "distinct (match_list order obs reg key)"
proof -
  have o: "set (order (sub_id ` registry_match reg key)) = sub_id ` registry_match reg key"
    "distinct (order (sub_id ` registry_match reg key))"
    using assms(3) matching_subscriptions(1) [OF assms(1,2), of key] by (simp_all add: lists_sets_def)
  have "sub_of obs ` sub_id ` registry_match reg key = (\<lambda>s. s) ` registry_match reg key"
    unfolding image_image by (rule image_cong) (use matching_subscriptions(2) [OF assms(1,2)] in auto)
  then show "set (match_list order obs reg key) = registry_match reg key" by (simp add: match_list_def o(1))
  show "distinct (match_list order obs reg key)"
    using o(2) by (simp add: match_list_def distinct_map inj_on_def)
qed

text \<open>The subscriptions of a notification match, whatever order they are in.\<close>

lemma item_matches:
  assumes "subs_ok obs" and "o_registry obs = Some reg" and "lists_sets order"
    and "(key, ss) \<in> set (item_match order digest obs reg x)" and "s \<in> set ss"
  shows "matched obs key (sub_id s)"
proof -
  have "s \<in> registry_match reg key" using assms(4,5) match_list(1) [OF assms(1-3), of key]
    by (auto simp: item_match_def split: item.splits)
  with matching_subscriptions(2) [OF assms(1,2)] show ?thesis by blast
qed

lemma good_batch:
  assumes "good obs" and "o_phase obs \<noteq> W_Dead" and "lists_sets order"
  shows "good (snd (deliver_batch cb order digest batch obs))"
proof (cases "o_registry obs")
  case (Some reg)
  have "subs_ok obs" using assms(1) by (simp add: good_def)
  from item_matches [OF this Some assms(3)] show ?thesis using assms Some
    by (auto simp: deliver_batch_def intro!: good_local)
qed (use assms in \<open>simp add: deliver_batch_def\<close>)

lemma good_deliver:
  assumes "good obs" and "o_phase obs \<noteq> W_Dead" and "lists_sets order"
  shows "good (deliver cb order digest obs)"
proof -
  have "subs_ok (ob\<lparr>o_handed := d\<rparr>) = subs_ok ob" for ob d by (rule subs_ok_cong) simp_all
  then show ?thesis using good_batch [OF assms] assms(1) by (simp add: deliver_def Let_def good_def)
qed

lemma good_cong:
  "o_subs obs' = o_subs obs \<Longrightarrow> o_registry obs' = o_registry obs \<Longrightarrow> o_connected obs' = o_connected obs \<Longrightarrow>
    o_log obs' = o_log obs \<Longrightarrow> good obs' = good obs"
  using subs_ok_cong [of obs' obs] by (simp add: good_def)

lemma good_step:
  assumes "good obs" and "lists_sets order"
  shows "good (worker_step cb order digest obs)"
proof -
  have d: "good (deliver cb order digest obs)" if "o_phase obs \<noteq> W_Dead"
    by (rule good_deliver [OF assms(1) that assms(2)])
  have f: "good (ob\<lparr>o_hand := h\<rparr>) = good ob" "good (ob\<lparr>o_queue := q\<rparr>) = good ob"
    "good (ob\<lparr>o_phase := p\<rparr>) = good ob" "good (ob\<lparr>o_set := e\<rparr>) = good ob" for ob h p q e
    by (rule good_cong; simp)+
  show ?thesis
  proof (cases "o_phase obs")
    case (W_Item x)
    then show ?thesis using d assms(1) by (cases x) (simp_all add: worker_step_def Let_def f)
  qed (use d assms(1) in \<open>simp_all add: worker_step_def f split: list.splits\<close>)
qed

lemma observer_ok_step: "observer_ok obs \<Longrightarrow> lists_sets order \<Longrightarrow> observer_ok (worker_step cb order digest obs)"
  using good_step [of obs order cb digest] queue_ok_step [of obs cb order digest] by (simp add: observer_ok_def good_def)

lemma observer_ok_init: "observer_ok (observer_init maxsize)"
  by (simp add: observer_ok_def observer_init_def subs_ok_def queue_ok_def trace_ok_def in_hand_def)

lemma observer_run_ok: "observer_run cb order digest maxsize obs \<Longrightarrow> lists_sets order \<Longrightarrow> observer_ok obs"
  by (induction rule: observer_run.induct) (simp_all add: observer_ok_init observer_ok_call observer_ok_step)

lemma maxsize_call: "o_maxsize (obs_call c obs) = o_maxsize obs"
proof (cases "\<forall>hook. c \<noteq> C_Connect hook")
  case True
  then have "grows obs (obs_call c obs)" by (intro grows_call) simp
  then show ?thesis by (simp add: grows_def)
qed (auto simp: obs_connect_def Let_def)

lemma maxsize_deliver: "o_phase obs \<noteq> W_Dead \<Longrightarrow> o_maxsize (deliver cb order digest obs) = o_maxsize obs"
  using deliver_grows [of obs cb order digest] by (auto simp: grows_def)

lemma maxsize_step: "o_maxsize (worker_step cb order digest obs) = o_maxsize obs"
proof (cases "o_phase obs")
  case (W_Item x)
  then show ?thesis by (cases x) (simp_all add: worker_step_def Let_def maxsize_deliver)
qed (simp_all add: worker_step_def maxsize_deliver split: list.splits)

lemma observer_run_maxsize: "observer_run cb order digest maxsize obs \<Longrightarrow> o_maxsize obs = maxsize"
  by (induction rule: observer_run.induct) (simp_all add: observer_init_def maxsize_call maxsize_step)

end
