(* ===== verification/Observer_Props.thy ===== *)
theory Observer_Props
  imports Observer_Invariant
begin

text \<open>
  What an observer guarantees: its invariant, the order of the dispatch queue, the silence of
  closed subscriptions, exact delivery of a batch to receivers that do not call back, and the end of
  the worker after a disconnect.
\<close>

section \<open>The worker of a disconnected observer ends\<close>

definition worker_left :: "observer \<Rightarrow> nat" where
  "worker_left obs = (case o_phase obs of W_Dead \<Rightarrow> 0 | W_Top \<Rightarrow> 1 | W_Flush \<Rightarrow> 2
     | W_Wait \<Rightarrow> 2 * length (o_queue obs) + 3 | W_Next \<Rightarrow> 2 * length (o_queue obs) + 3
     | W_Item x \<Rightarrow> 2 * length (o_queue obs) + 4)"

definition shut :: "observer \<Rightarrow> bool" where
  "shut obs \<longleftrightarrow> o_stop obs \<and> \<not> o_connected obs \<and> o_registry obs = None"

lemma deliver_shut: "shut obs \<Longrightarrow> deliver cb order digest obs =
    (if o_hand obs = [] then obs else obs\<lparr>o_handed := o_handed obs @ o_hand obs\<rparr>)"
  by (simp add: shut_def deliver_def deliver_batch_def Let_def)

lemma shut_step:
  assumes "shut obs"
  shows "shut (worker_step cb order digest obs) \<and> o_log (worker_step cb order digest obs) = o_log obs \<and>
    (o_phase obs \<noteq> W_Dead \<longrightarrow> worker_left (worker_step cb order digest obs) < worker_left obs)"
proof (cases "o_phase obs")
  case (W_Item x)
  with assms show ?thesis
    by (cases x) (simp_all add: worker_step_def Let_def deliver_shut shut_def worker_left_def)
qed (use assms in \<open>simp_all add: worker_step_def deliver_shut shut_def worker_left_def split: list.splits\<close>)

lemma shut_ends:
  "shut obs \<Longrightarrow> \<exists>n \<le> worker_left obs. let end = (worker_step cb order digest ^^ n) obs in
    o_phase end = W_Dead \<and> shut end \<and> o_log end = o_log obs"
proof (induction "worker_left obs" arbitrary: obs rule: less_induct)
  case less
  show ?case
  proof (cases "o_phase obs = W_Dead")
    case True
    then show ?thesis using less.prems by (intro exI [of _ 0]) simp
  next
    case False
    let ?o = "worker_step cb order digest obs"
    have s: "shut ?o" "o_log ?o = o_log obs" "worker_left ?o < worker_left obs"
      using shut_step [OF less.prems, of cb order digest] False by simp_all
    obtain n where "n \<le> worker_left ?o" "let end = (worker_step cb order digest ^^ n) ?o in
        o_phase end = W_Dead \<and> shut end \<and> o_log end = o_log ?o"
      using less.hyps [OF s(3,1)] by blast
    then show ?thesis using s by (intro exI [of _ "Suc n"]) (simp add: funpow_Suc_right del: funpow.simps)
  qed
qed

lemma disconnect_shut: "o_connected obs \<Longrightarrow> shut (obs_disconnect obs)"
  by (simp add: disconnect_eq shut_def)

section \<open>Deliveries of receivers that only return or raise\<close>

definition quiet :: "receivers \<Rightarrow> bool" where
  "quiet cb \<longleftrightarrow> (\<forall>r key obs. fst (cb r key obs) = [] \<and> snd (cb r key obs) \<noteq> Escapes)"

lemma notify_quiet:
  "quiet cb \<Longrightarrow> \<not> s_closed (o_subs obs ! i) \<Longrightarrow>
    notify_loop cb i key rs obs = (False, obs\<lparr>o_log := o_log obs @ map (\<lambda>r. E_Call i r key) rs\<rparr>)"
proof (induction rs arbitrary: obs)
  case (Cons r rs)
  have "run_receiver cb i r key obs = (snd (cb r key obs), obs\<lparr>o_log := o_log obs @ [E_Call i r key]\<rparr>)"
    using Cons.prems(1) by (simp add: run_receiver_def quiet_def case_prod_unfold)
  moreover have "snd (cb r key obs) \<noteq> Escapes" using Cons.prems(1) by (simp add: quiet_def)
  ultimately show ?case using Cons by simp
qed simp

definition sub_calls :: "observer \<Rightarrow> key \<Rightarrow> subscription \<Rightarrow> event list" where
  "sub_calls obs key s = map (\<lambda>r. E_Call (sub_id s) r key) (s_receivers (o_subs obs ! sub_id s))"

lemma sub_calls_log [simp]: "sub_calls (obs\<lparr>o_log := l\<rparr>) = sub_calls obs"
  by (simp add: sub_calls_def fun_eq_iff)

lemma subs_quiet:
  "quiet cb \<Longrightarrow> \<forall>s \<in> set ss. \<not> s_closed (o_subs obs ! sub_id s) \<Longrightarrow>
    deliver_subs cb key ss obs = (False, obs\<lparr>o_log := o_log obs @ concat (map (sub_calls obs key) ss)\<rparr>)"
  by (induction ss arbitrary: obs) (simp_all add: sub_notify_def notify_quiet sub_calls_def)

definition note_calls :: "observer \<Rightarrow> key \<times> subscription list \<Rightarrow> event list" where
  "note_calls obs n = concat (map (sub_calls obs (fst n)) (snd n))"

lemma local_quiet:
  "quiet cb \<Longrightarrow> \<forall>n \<in> set ns. \<forall>s \<in> set (snd n). \<not> s_closed (o_subs obs ! sub_id s) \<Longrightarrow>
    deliver_local cb ns obs = (False, obs\<lparr>o_log := o_log obs @ concat (map (note_calls obs) ns)\<rparr>)"
proof (induction ns arbitrary: obs)
  case (Cons n ns)
  obtain key ss where n: "n = (key, ss)" by (cases n)
  have "note_calls (obs\<lparr>o_log := l\<rparr>) = note_calls obs" for l by (simp add: note_calls_def fun_eq_iff)
  then show ?case using Cons n by (simp add: subs_quiet note_calls_def)
qed simp

text \<open>Counting the calls.\<close>

lemma count_concat: "count_list (concat (map f xs)) y = sum_list (map (\<lambda>x. count_list (f x) y) xs)"
  by (induction xs) simp_all

lemma count_map_inj: "inj f \<Longrightarrow> count_list (map f xs) (f y) = count_list xs y"
  by (induction xs) (auto dest: injD)

lemma count_distinct: "distinct xs \<Longrightarrow> count_list xs y = (if y \<in> set xs then 1 else 0)"
  by (induction xs) auto

lemma sum_list_single:
  "distinct xs \<Longrightarrow> \<forall>x \<in> set xs. x \<noteq> a \<longrightarrow> f x = (0::nat) \<Longrightarrow> sum_list (map f xs) = (if a \<in> set xs then f a else 0)"
  by (induction xs) auto

lemma count_sub_calls:
  assumes "distinct (s_receivers (o_subs obs ! sub_id s))"
  shows "count_list (sub_calls obs key s) (E_Call i r key') =
    (if sub_id s = i \<and> key = key' \<and> r \<in> set (s_receivers (o_subs obs ! i)) then 1 else 0)"
proof (cases "sub_id s = i \<and> key = key'")
  case True
  have "inj (\<lambda>r. E_Call i r key')" by (simp add: inj_def)
  from count_map_inj [OF this] True assms show ?thesis by (simp add: sub_calls_def count_distinct)
next
  case False
  then have "E_Call i r key' \<notin> set (sub_calls obs key s)" by (auto simp: sub_calls_def)
  with False show ?thesis by (auto simp: count_notin)
qed

lemma count_note_calls:
  assumes "subs_ok obs" and "distinct ss" and "\<forall>s \<in> set ss. s = sub_of obs (sub_id s) \<and> sub_id s < length (o_subs obs)"
  shows "count_list (note_calls obs (key, ss)) (E_Call i r key') =
    (if key = key' \<and> sub_of obs i \<in> set ss \<and> r \<in> set (s_receivers (o_subs obs ! i)) then 1 else 0)"
proof -
  have d: "distinct (s_receivers (o_subs obs ! sub_id s))" if "s \<in> set ss" for s
    using that assms(1,3) by (auto simp: subs_ok_def)
  let ?f = "\<lambda>s. count_list (sub_calls obs key s) (E_Call i r key')"
  have "?f s = (if sub_id s = i \<and> key = key' \<and> r \<in> set (s_receivers (o_subs obs ! i)) then 1 else 0)" if "s \<in> set ss" for s
    using count_sub_calls [OF d [OF that]] by simp
  moreover from this have "sum_list (map ?f ss) = (if sub_of obs i \<in> set ss then ?f (sub_of obs i) else 0)"
    using assms(3) by (intro sum_list_single [OF assms(2)]) (metis)
  ultimately show ?thesis by (auto simp: note_calls_def count_concat)
qed

text \<open>What one item of a batch means for a subscription.\<close>

definition item_for :: "(pystr \<Rightarrow> pystr) \<Rightarrow> key \<Rightarrow> kfilter \<Rightarrow> item \<Rightarrow> bool" where
  "item_for digest key f x \<longleftrightarrow> x = Key_Item key \<or> x = Tagged_Item key (filter_hash digest f)"

lemma sub_of_eq_iff: "\<lparr>sub_id = i, sub_filter = s_filter (o_subs obs ! i)\<rparr> = sub_of obs i"
  by (simp add: sub_of_def)

lemma count_item_calls:
  assumes "subs_ok obs" and "o_registry obs = Some reg" and "lists_sets order"
    and "findable (s_filter (o_subs obs ! i))"
  shows "count_list (concat (map (note_calls obs) (item_match order digest obs reg x))) (E_Call i r key) =
    (if item_for digest key (s_filter (o_subs obs ! i)) x \<and> matched obs key i \<and> r \<in> set (s_receivers (o_subs obs ! i))
     then 1 else 0)"
proof -
  let ?m = "match_list order obs reg"
  note m = match_list [OF assms(1-3)]
  have r: "\<not> s_closed (o_subs obs ! i)" if "r \<in> set (s_receivers (o_subs obs ! i))" "i < length (o_subs obs)"
    using that assms(1) by (auto simp: subs_ok_def)
  have ins: "sub_of obs i \<in> set (?m k) \<longleftrightarrow> matched obs k i" if "r \<in> set (s_receivers (o_subs obs ! i))" for k
  proof
    assume "sub_of obs i \<in> set (?m k)"
    then show "matched obs k i"
      using matching_subscriptions(2) [OF assms(1,2), of "sub_of obs i" k] unfolding m sub_of_id by blast
  next
    assume h: "matched obs k i"
    then have "i < length (o_subs obs)" by (simp add: matched_def)
    then show "sub_of obs i \<in> set (?m k)"
      using matching_subscriptions(3) [OF assms(1,2) h r [OF that] assms(4)] unfolding m by simp
  qed
  have ok: "\<forall>s \<in> set (filter P (?m k)). s = sub_of obs (sub_id s) \<and> sub_id s < length (o_subs obs)" for P k
  proof
    fix s assume "s \<in> set (filter P (?m k))"
    then have "s \<in> registry_match reg k" by (simp add: m)
    from matching_subscriptions(2) [OF assms(1,2) this]
    show "s = sub_of obs (sub_id s) \<and> sub_id s < length (o_subs obs)" unfolding matched_def by blast
  qed
  show ?thesis
  proof (cases x)
    case (Key_Item k)
    have "count_list (note_calls obs (k, ?m k)) (E_Call i r key) =
      (if k = key \<and> sub_of obs i \<in> set (?m k) \<and> r \<in> set (s_receivers (o_subs obs ! i)) then 1 else 0)"
      by (rule count_note_calls [OF assms(1) m(2)]) (use ok [of "\<lambda>_. True" k] in simp)
    then show ?thesis using ins Key_Item by (auto simp: item_match_def item_for_def)
  next
    case (Tagged_Item k h)
    let ?ss = "filter (\<lambda>s. filter_hash digest (sub_filter s) = h) (?m k)"
    have "distinct ?ss" using m(2) by simp
    from count_note_calls [OF assms(1) this ok, of k i r key] show ?thesis using ins Tagged_Item
      by (auto simp: item_match_def item_for_def sub_of_def)
  qed (simp_all add: item_match_def item_for_def)
qed

lemma filter_nonempty_notes:
  "concat (map (note_calls obs) (filter (\<lambda>(key, ss). ss \<noteq> []) ns)) = concat (map (note_calls obs) ns)"
  by (induction ns) (auto simp: note_calls_def)

lemma deliver_quiet:
  assumes "subs_ok obs" and "o_registry obs = Some reg" and "lists_sets order" and "quiet cb"
  shows "deliver_batch cb order digest batch obs = (False, obs\<lparr>o_log := o_log obs @
    concat (map (\<lambda>x. concat (map (note_calls obs) (item_match order digest obs reg x))) batch)\<rparr>)"
proof -
  let ?ns = "concat (map (item_match order digest obs reg) batch)"
  have open_ones: "\<not> s_closed (o_subs obs ! sub_id s)"
    if "n \<in> set ?ns" "s \<in> set (snd n)" for n s
  proof -
    have "n \<in> (\<Union>x \<in> set batch. set (item_match order digest obs reg x))" using that(1) by simp
    then obtain y where x: "n \<in> set (item_match order digest obs reg y)" by blast
    have "\<exists>key. s \<in> set (match_list order obs reg key)"
      using x \<open>s \<in> set (snd n)\<close> by (cases y) (auto simp: item_match_def)
    then obtain key where "s \<in> set (match_list order obs reg key)" by blast
    then have "s \<in> registry_match reg key" using match_list(1) [OF assms(1-3)] by simp
    then show ?thesis using matching_subscriptions(2) [OF assms(1,2)] by blast
  qed
  have eq: "concat (map (note_calls obs) ?ns) = concat (map (\<lambda>x. concat (map (note_calls obs) (item_match order digest obs reg x))) batch)"
    by (induction batch) simp_all
  show ?thesis
  proof (cases "registry_len reg = 0")
    case True
    have reg: "registry_ok reg" "r_all reg = open_subs obs" using assms(1,2) by (simp_all add: subs_ok_def)
    have "finite (open_subs obs)" by (simp add: open_subs_def)
    then have none: "registry_match reg key = {}" for key
      using True registry_match_iff [OF reg(1)] by (auto simp: registry_len_def reg(2))
    have "match_list order obs reg key = []" for key
      using match_list(1) [OF assms(1-3), of key] none [of key] by simp
    then have "concat (map (note_calls obs) (item_match order digest obs reg x)) = []" for x
      by (cases x) (simp_all add: item_match_def note_calls_def)
    then show ?thesis using True assms(2) by (simp add: deliver_batch_def)
  next
    case False
    have "deliver_local cb (filter (\<lambda>(key, ss). ss \<noteq> []) ?ns) obs = (False, obs\<lparr>o_log := o_log obs @
        concat (map (note_calls obs) (filter (\<lambda>(key, ss). ss \<noteq> []) ?ns))\<rparr>)"
    proof (rule local_quiet [OF assms(4)], intro ballI)
      fix n s
      assume "n \<in> set (filter (\<lambda>(key, ss). ss \<noteq> []) ?ns)" and s: "s \<in> set (snd n)"
      then have "n \<in> set ?ns" by (simp only: set_filter mem_Collect_eq)
      then show "\<not> s_closed (o_subs obs ! sub_id s)" using s by (rule open_ones)
    qed
    then show ?thesis using False assms(2) unfolding filter_nonempty_notes eq
      by (simp add: deliver_batch_def)
  qed
qed

section \<open>Receivers are called in the order of the keys\<close>

text \<open>The keys receivers were called for, and the key of an item.\<close>

fun called_keys :: "event list \<Rightarrow> key list" where
  "called_keys [] = []"
| "called_keys (E_Call i r key # es) = key # called_keys es"
| "called_keys (E_Close i # es) = called_keys es"

fun item_key :: "item \<Rightarrow> key" where
  "item_key (Key_Item key) = key"
| "item_key (Tagged_Item key h) = key"
| "item_key x = []"

lemma called_append [simp]: "called_keys (es @ fs) = called_keys es @ called_keys fs"
  by (induction es rule: called_keys.induct) simp_all

lemma called_closes [simp]: "called_keys (map E_Close is) = []"
  by (induction "is") simp_all

lemma called_disconnect: "called_keys (o_log (obs_disconnect obs)) = called_keys (o_log obs)"
  by (cases "o_connected obs") (simp_all add: disconnect_eq, simp add: obs_disconnect_def)

lemma called_call [simp]: "called_keys (o_log (obs_call c obs)) = called_keys (o_log obs)"
proof (cases c)
  case (C_Subscribe f hook)
  from log_subscribe [of f hook obs] show ?thesis unfolding C_Subscribe
    by (auto simp: called_disconnect change_sub_def)
next
  case (C_Close i)
  then show ?thesis by (simp add: obs_close_def change_sub_def Let_def split: option.splits)
next
  case (C_Bind_Exit i r)
  then show ?thesis by (simp add: change_sub_def)
qed (simp_all add: connect_subs called_disconnect bind_log enqueue_log)

lemma called_calls [simp]: "called_keys (o_log (fold obs_call cs obs)) = called_keys (o_log obs)"
  by (induction cs arbitrary: obs) simp_all

lemma called_receiver: "called_keys (o_log (snd (run_receiver cb i r key obs))) = called_keys (o_log obs) @ [key]"
  by (simp add: run_receiver_def split: prod.splits)

lemma called_notify: "\<exists>n. called_keys (o_log (snd (notify_loop cb i key rs obs))) = called_keys (o_log obs) @ replicate n key"
proof (induction rs arbitrary: obs)
  case Nil
  show ?case by (intro exI [of _ 0]) simp
next
  case (Cons r rs)
  obtain res ob where o: "run_receiver cb i r key obs = (res, ob)" by (cases "run_receiver cb i r key obs")
  have k: "called_keys (o_log ob) = called_keys (o_log obs) @ [key]" using called_receiver [of cb i r key obs] o by simp
  obtain n where n: "called_keys (o_log (snd (notify_loop cb i key rs ob))) = called_keys (o_log ob) @ replicate n key"
    using Cons.IH by blast
  have "replicate 1 key = [key]" "[key] @ replicate n key = replicate (Suc n) key" by simp_all
  then show ?case using o k n by (cases "s_closed (o_subs obs ! i)"; cases "res = Escapes")
      (auto intro: exI [of _ 0] exI [of _ 1] exI [of _ "Suc n"])
qed

lemma called_subs: "\<exists>n. called_keys (o_log (snd (deliver_subs cb key ss obs))) = called_keys (o_log obs) @ replicate n key"
proof (induction ss arbitrary: obs)
  case Nil
  show ?case by (intro exI [of _ 0]) simp
next
  case (Cons s ss)
  obtain e ob where o: "sub_notify cb (sub_id s) key obs = (e, ob)" by (cases "sub_notify cb (sub_id s) key obs")
  obtain n where n: "called_keys (o_log ob) = called_keys (o_log obs) @ replicate n key"
    using called_notify [of cb "sub_id s" key _ obs] o unfolding sub_notify_def by (metis snd_conv)
  obtain m where m: "called_keys (o_log (snd (deliver_subs cb key ss ob))) = called_keys (o_log ob) @ replicate m key"
    using Cons.IH by blast
  show ?case using o n m by (cases e) (auto simp flip: replicate_add)
qed

lemma called_local:
  "\<exists>ns. length ns = length ms \<and>
     called_keys (o_log (snd (deliver_local cb ms obs))) = called_keys (o_log obs) @ concat (map2 replicate ns (map fst ms))"
proof (induction ms arbitrary: obs)
  case (Cons m ms)
  obtain key ss where k: "m = (key, ss)" by (cases m)
  obtain e ob where o: "deliver_subs cb key ss obs = (e, ob)" by (cases "deliver_subs cb key ss obs")
  obtain n where n: "called_keys (o_log ob) = called_keys (o_log obs) @ replicate n key"
    using called_subs [of cb key ss obs] o by (metis snd_conv)
  obtain ns where ns: "length ns = length ms"
    "called_keys (o_log (snd (deliver_local cb ms ob))) = called_keys (o_log ob) @ concat (map2 replicate ns (map fst ms))"
    using Cons.IH by blast
  have z: "concat (map2 replicate (replicate (length ks) 0) ks) = []" for ks :: "key list" by (induction ks) simp_all
  show ?case
  proof (cases e)
    case True
    then show ?thesis using k o n z [of "map fst ms"] by (intro exI [of _ "n # replicate (length ms) 0"]) simp
  next
    case False
    then show ?thesis using k o n ns by (intro exI [of _ "n # ns"]) simp
  qed
qed simp

text \<open>An item has one note, for its key, or none.\<close>

lemma notes_of_items:
  assumes "\<And>x. f x = [] \<or> (\<exists>ss. f x = [(item_key x, ss)])" and "length ns = length (filter P (concat (map f xs)))"
  shows "\<exists>ms. length ms = length xs \<and>
    concat (map2 replicate ms (map item_key xs)) = concat (map2 replicate ns (map fst (filter P (concat (map f xs)))))"
  using assms(2)
proof (induction xs arbitrary: ns)
  case (Cons x xs)
  have skip: ?case if "filter P (f x) = []"
  proof -
    from Cons.prems that have "length ns = length (filter P (concat (map f xs)))" by simp
    from Cons.IH [OF this] obtain ms where "length ms = length xs"
      "concat (map2 replicate ms (map item_key xs)) = concat (map2 replicate ns (map fst (filter P (concat (map f xs)))))" by blast
    with that show ?thesis by (intro exI [of _ "0 # ms"]) simp
  qed
  from assms(1) [of x] show ?case
  proof
    assume "f x = []"
    then show ?case by (intro skip) simp
  next
    assume "\<exists>ss. f x = [(item_key x, ss)]"
    then obtain ss where s: "f x = [(item_key x, ss)]" by blast
    show ?case
    proof (cases "P (item_key x, ss)")
      case True
      with Cons.prems s obtain n ns' where n: "ns = n # ns'" "length ns' = length (filter P (concat (map f xs)))" by (cases ns) auto
      from Cons.IH [OF n(2)] obtain ms where "length ms = length xs"
        "concat (map2 replicate ms (map item_key xs)) = concat (map2 replicate ns' (map fst (filter P (concat (map f xs)))))" by blast
      with True s n(1) show ?thesis by (intro exI [of _ "n # ms"]) simp
    next
      case False
      with s show ?thesis by (intro skip) simp
    qed
  qed
qed simp

lemma called_batch:
  "\<exists>ns. length ns = length batch \<and>
     called_keys (o_log (snd (deliver_batch cb order digest batch obs))) = called_keys (o_log obs) @ concat (map2 replicate ns (map item_key batch))"
proof -
  have z: "concat (map2 replicate (replicate (length ks) 0) ks) = []" for ks :: "key list" by (induction ks) simp_all
  have none: ?thesis if "snd (deliver_batch cb order digest batch obs) = obs"
    using that z [of "map item_key batch"] by (intro exI [of _ "replicate (length batch) 0"]) simp
  show ?thesis
  proof (cases "batch = [] \<or> o_registry obs = None \<or> registry_len (the (o_registry obs)) = 0")
    case True
    then show ?thesis by (intro none) (auto simp: deliver_batch_def split: option.splits)
  next
    case False
    then obtain reg where reg: "o_registry obs = Some reg" "registry_len reg \<noteq> 0" "batch \<noteq> []" by auto
    let ?f = "item_match order digest obs reg" and ?P = "\<lambda>(key, matched). matched \<noteq> []"
    let ?ms = "filter ?P (concat (map ?f batch))"
    obtain ns where ns: "length ns = length ?ms"
      "called_keys (o_log (snd (deliver_local cb ?ms obs))) = called_keys (o_log obs) @ concat (map2 replicate ns (map fst ?ms))"
      using called_local by blast
    have "?f x = [] \<or> (\<exists>ss. ?f x = [(item_key x, ss)])" for x by (cases x) (simp_all add: item_match_def)
    from notes_of_items [OF this ns(1)] ns(2) reg show ?thesis by (auto simp: deliver_batch_def)
  qed
qed

text \<open>The calls of a connection are for the keys handed over on it, in their order.\<close>

definition called_in_order :: "observer \<Rightarrow> bool" where
  "called_in_order obs \<longleftrightarrow> (\<exists>before ns. length ns = length (o_handed obs) \<and>
     called_keys (o_log obs) = before @ concat (map2 replicate ns (map item_key (o_handed obs))))"

lemma called_in_order_same:
  "called_in_order obs \<Longrightarrow> called_keys (o_log obs') = called_keys (o_log obs) \<Longrightarrow> o_handed obs' = o_handed obs \<or> o_handed obs' = [] \<Longrightarrow>
    called_in_order obs'"
  unfolding called_in_order_def by (elim disjE; simp)

lemma handed_call: "o_handed (obs_call c obs) = o_handed obs \<or> o_handed (obs_call c obs) = []"
proof (cases "o_phase obs = W_Dead")
  case False
  then show ?thesis using grows_call [of obs c] by (simp add: grows_def)
next
  case True
  have d: "o_handed (obs_disconnect ob) = o_handed ob" for ob
    using grows_disconnect [of ob] by (simp add: grows_def)
  show ?thesis
  proof (cases c)
    case (C_Connect hook)
    then show ?thesis by (simp add: obs_connect_def Let_def)
  next
    case (C_Subscribe f hook)
    then show ?thesis using grows_subscribe [of obs f hook] by (simp add: grows_def)
  qed (auto simp: d obs_bind_def obs_unbind_def change_sub_def obs_close_def Let_def obs_enqueue_def obs_flush_def
      obs_enqueue_nowait_def obs_put_def split: option.splits)
qed

lemma called_in_order_deliver:
  assumes "called_in_order obs" and "o_phase obs \<noteq> W_Dead"
  shows "called_in_order (deliver cb order digest obs)"
proof (cases "o_hand obs = []")
  case True
  with assms(1) show ?thesis by (simp add: deliver_def)
next
  case False
  let ?o = "snd (deliver_batch cb order digest (o_hand obs) obs)"
  obtain ms where m: "length ms = length (o_hand obs)"
    "called_keys (o_log ?o) = called_keys (o_log obs) @ concat (map2 replicate ms (map item_key (o_hand obs)))"
    using called_batch by blast
  from assms(1) obtain before ns where n: "length ns = length (o_handed obs)"
    "called_keys (o_log obs) = before @ concat (map2 replicate ns (map item_key (o_handed obs)))"
    unfolding called_in_order_def by blast
  have d: "deliver cb order digest obs = ?o\<lparr>o_handed := o_handed obs @ o_hand obs\<rparr>" using False by (simp add: deliver_def Let_def)
  have "called_keys (o_log ?o) = before @ concat (map2 replicate (ns @ ms) (map item_key (o_handed obs @ o_hand obs)))"
    using m n by simp
  moreover have "length (ns @ ms) = length (o_handed obs @ o_hand obs)" using m n by simp
  ultimately show ?thesis unfolding d called_in_order_def by (intro exI [of _ before] exI [of _ "ns @ ms"]) simp
qed

lemma called_in_order_step:
  assumes "called_in_order obs"
  shows "called_in_order (worker_step cb order digest obs)"
proof -
  have d: "called_in_order (deliver cb order digest obs)" if "o_phase obs \<noteq> W_Dead"
    using called_in_order_deliver [OF assms that] .
  have f: "called_in_order (ob\<lparr>o_hand := h\<rparr>) = called_in_order ob" "called_in_order (ob\<lparr>o_queue := q\<rparr>) = called_in_order ob"
    "called_in_order (ob\<lparr>o_phase := p\<rparr>) = called_in_order ob" "called_in_order (ob\<lparr>o_set := e\<rparr>) = called_in_order ob" for ob h p q e
    by (simp_all add: called_in_order_def)
  show ?thesis
  proof (cases "o_phase obs")
    case (W_Item x)
    then show ?thesis using d assms by (cases x) (simp_all add: worker_step_def Let_def f)
  qed (use d assms in \<open>simp_all add: worker_step_def f split: list.splits\<close>)
qed

lemma called_in_order_run: "observer_run cb order digest maxsize obs \<Longrightarrow> called_in_order obs"
proof (induction rule: observer_run.induct)
  case start
  show ?case by (simp add: called_in_order_def observer_init_def)
next
  case (call obs c)
  from called_in_order_same [OF call(2) called_call handed_call] show ?case .
next
  case (work obs)
  from called_in_order_step [OF work(2)] show ?case .
qed

section \<open>Runs to look at\<close>

lemma observer_run_calls: "observer_run cb order digest maxsize obs \<Longrightarrow> observer_run cb order digest maxsize (fold obs_call cs obs)"
  by (induction cs arbitrary: obs) (simp_all add: observer_run.call)

lemma observer_run_steps:
  "observer_run cb order digest maxsize obs \<Longrightarrow> observer_run cb order digest maxsize ((worker_step cb order digest ^^ n) obs)"
  by (induction n) (simp_all add: observer_run.work)

lemma sorted_lists_sets: "lists_sets sorted_list_of_set"
  by (simp add: lists_sets_def)

section \<open>An example\<close>

text \<open>A connected observer with one key on its queue; the only receiver closes its subscription and raises.\<close>

definition example_receivers :: receivers where
  "example_receivers r key obs = ([C_Close 0], Raises)"

definition example_observer :: observer where
  "example_observer = fold obs_call
     [C_Connect True, C_Subscribe (PrefixFilter [SInt 1]) Hook_Returns, C_Bind 0 7,
      C_Incoming [SInt 1, SInt 2] None] (observer_init 10)"

lemma example_run: "observer_run cb order digest 10 example_observer"
  unfolding example_observer_def by (intro observer_run_calls observer_run.start)

lemma example_connected: "o_connected example_observer"
  by code_simp

abbreviation example_step :: "observer \<Rightarrow> observer" where
  "example_step \<equiv> worker_step example_receivers sorted_list_of_set id"

lemma example_run5: "observer_run example_receivers sorted_list_of_set id 10
    (example_step (example_step (example_step (example_step (example_step example_observer)))))"
  by (intro observer_run.work example_run)

lemma example_log: "o_log (example_step (example_step (example_step (example_step (example_step example_observer))))) =
    [E_Call 0 7 [SInt 1, SInt 2], E_Close 0]"
  by code_simp

section \<open>Properties\<close>

text \<open>C38: in every state an observer can reach, by calls of its interface from outside or from its
  receivers and by steps of its worker, the dispatch queue and the worker's batch are within their
  bounds, the registry exists exactly while the observer is connected and holds exactly the
  subscriptions that are not closed, and a closed subscription has no receivers.
\<close>

theorem observer_invariant:
  assumes "observer_run cb order digest maxsize obs" and "lists_sets order"
  shows "(0 < maxsize \<longrightarrow> int (length (o_queue obs)) \<le> maxsize) \<and> length (o_hand obs) \<le> DISPATCH_BATCH_MAX \<and>
    (o_connected obs \<longleftrightarrow> o_registry obs \<noteq> None) \<and>
    (\<forall>i < length (o_subs obs). s_closed (o_subs obs ! i) \<longleftrightarrow>
      \<not> (\<exists>reg. o_registry obs = Some reg \<and> registry_contains reg (sub_of obs i))) \<and>
    (\<forall>i < length (o_subs obs). s_closed (o_subs obs ! i) \<longrightarrow> s_receivers (o_subs obs ! i) = [])"
proof -
  have ok: "subs_ok obs" "queue_ok obs" using observer_run_ok [OF assms] by (simp_all add: observer_ok_def)
  show ?thesis using ok(2) observer_run_maxsize [OF assms(1)] ok(1)
    by (cases "o_registry obs") (auto simp: queue_ok_def subs_ok_def registry_contains_def in_open_subs)
qed

lemma observer_invariant_witness:
  "let obs = example_observer in int (length (o_queue obs)) \<le> 10 \<and> o_registry obs \<noteq> None"
  using observer_invariant [OF example_run sorted_lists_sets] example_connected by (simp add: Let_def)





text \<open>A batch delivered by a connected observer, to receivers that return or raise an \<open>Exception\<close>
  without calling back, calls each receiver bound to a subscription once per item of the batch whose
  key the subscription's filter matches (and whose tag, if any, is the hash of that filter), and
  changes nothing else. One receiver's exception does not keep a key from another.
\<close>

theorem batch_delivered:
  assumes "observer_run cb order digest maxsize obs" and "lists_sets order" and "o_connected obs" and "quiet cb"
  shows "\<exists>calls. deliver_batch cb order digest batch obs = (False, obs\<lparr>o_log := o_log obs @ calls\<rparr>) \<and>
    (\<forall>i r key. findable (s_filter (o_subs obs ! i)) \<longrightarrow>
       count_list calls (E_Call i r key) =
         (if i < length (o_subs obs) \<and> r \<in> set (s_receivers (o_subs obs ! i)) \<and> matches (s_filter (o_subs obs ! i)) key
          then length (filter (item_for digest key (s_filter (o_subs obs ! i))) batch) else 0))"
proof -
  have ok: "subs_ok obs" using observer_run_ok [OF assms(1,2)] by (simp add: observer_ok_def)
  obtain reg where reg: "o_registry obs = Some reg" using ok assms(3) by (auto simp: subs_ok_def split: option.splits)
  let ?c = "concat (map (\<lambda>x. concat (map (note_calls obs) (item_match order digest obs reg x))) batch)"
  have "count_list ?c (E_Call i r key) =
      (if i < length (o_subs obs) \<and> r \<in> set (s_receivers (o_subs obs ! i)) \<and> matches (s_filter (o_subs obs ! i)) key
       then length (filter (item_for digest key (s_filter (o_subs obs ! i))) batch) else 0)"
    if "findable (s_filter (o_subs obs ! i))" for i r key
    using count_item_calls [OF ok reg assms(2) that, of digest _ r key]
    by (induction batch) (auto simp: matched_def)
  then show ?thesis using deliver_quiet [OF ok reg assms(2,4)] by blast
qed

lemma batch_delivered_witness:
  "\<exists>calls. count_list calls (E_Call 0 7 [SInt 1]) = 2"
proof -
  have q: "quiet (\<lambda>r key obs. ([], Raises))" by (simp add: quiet_def)
  have e: "s_filter (o_subs example_observer ! 0) = PrefixFilter [SInt 1]"
    "s_receivers (o_subs example_observer ! 0) = [7]" "length (o_subs example_observer) = 1"
    by code_simp+
  obtain calls where "findable (s_filter (o_subs example_observer ! 0)) \<longrightarrow> count_list calls (E_Call 0 7 [SInt 1]) =
      (if 0 < length (o_subs example_observer) \<and> 7 \<in> set (s_receivers (o_subs example_observer ! 0)) \<and>
          matches (s_filter (o_subs example_observer ! 0)) [SInt 1]
       then length (filter (item_for id [SInt 1] (s_filter (o_subs example_observer ! 0)))
         [Key_Item [SInt 1], Key_Item [SInt 1]]) else 0)"
    using batch_delivered [OF example_run sorted_lists_sets example_connected q, of id "[Key_Item [SInt 1], Key_Item [SInt 1]]"]
    by blast
  then show ?thesis by (intro exI [of _ calls]) (simp add: e item_for_def)
qed

text \<open>C39: once an observer is disconnected, its worker ends within as many steps as it takes to empty
  the queue, without calling a receiver, and then \<open>connect\<close> succeeds again.
\<close>

theorem disconnected_worker_ends:
  assumes "o_connected obs"
  shows "\<exists>n \<le> 2 * length (o_queue obs) + 6.
    let end = (worker_step cb order digest ^^ n) (obs_disconnect obs) in
      o_phase end = W_Dead \<and> o_log end = o_log (obs_disconnect obs) \<and>
      fst (obs_connect True end) = None \<and> o_connected (snd (obs_connect True end))"
proof -
  have "length (o_queue (obs_disconnect obs)) \<le> length (o_queue obs) + 1"
    by (simp add: disconnect_eq [OF assms] stop_worker_cases)
  then have "worker_left (obs_disconnect obs) \<le> 2 * length (o_queue obs) + 6"
    by (auto simp: worker_left_def split: phase.splits)
  moreover obtain n where "n \<le> worker_left (obs_disconnect obs)"
    "let end = (worker_step cb order digest ^^ n) (obs_disconnect obs) in
      o_phase end = W_Dead \<and> shut end \<and> o_log end = o_log (obs_disconnect obs)"
    using shut_ends [OF disconnect_shut [OF assms]] by blast
  ultimately show ?thesis
    by (intro exI [of _ n]) (auto simp: Let_def obs_connect_def shut_def)
qed

lemma disconnected_worker_ends_witness:
  "\<exists>n \<le> 2 * length (o_queue example_observer) + 6.
    o_phase ((worker_step example_receivers sorted_list_of_set id ^^ n) (obs_disconnect example_observer)) = W_Dead"
  using disconnected_worker_ends [OF example_connected] unfolding Let_def by blast

end
