(* ===== verification/View_Registry.thy ===== *)
theory View_Registry
  imports Container_Node
begin

text \<open>
  The registry of view classes (\<open>view/registry.py\<close>): structure to class, Python type to class, and
  the cache of \<open>is_container_type\<close>. Classes \<open>'c\<close> and Python types \<open>'t\<close> are arbitrary; what the
  registry asks of a class is the record \<open>view_type\<close>, and \<open>issub\<close> is Python's \<open>issubclass\<close>.
\<close>

section \<open>State\<close>

record ('c, 't) view_type =
  get_structure :: "'c \<Rightarrow> pyval"
  get_container_cls :: "'c \<Rightarrow> 't option"

record ('c, 't) view_registration =
  vr_class :: 'c
  vr_structure :: pyval
  vr_type :: "'t option"

text \<open>\<open>_type_to_registration\<close> is walked in insertion order.\<close>

record ('c, 't) view_registry =
  structure_to_view :: "pyval \<rightharpoonup> 'c"
  type_to_registration :: "('t \<times> ('c, 't) view_registration) list"
  container_type_cache :: "'t \<rightharpoonup> bool"

definition new_registry :: "('c, 't) view_registry" where
  "new_registry = \<lparr>structure_to_view = Map.empty, type_to_registration = [], container_type_cache = Map.empty\<rparr>"

section \<open>Operations\<close>

definition register ::
  "('c, 't) view_type \<Rightarrow> 'c \<Rightarrow> ('c, 't) view_registry \<Rightarrow> unit res \<times> ('c, 't) view_registry" where
  "register vt view_class rg =
     (let structure_id = get_structure vt view_class; container_type = get_container_cls vt view_class in
      if structure_to_view rg structure_id \<noteq> None then (Inl ViewRegistryError, rg)
      else let rg = rg\<lparr>structure_to_view := (structure_to_view rg)(structure_id \<mapsto> view_class)\<rparr> in
        case container_type of
          None \<Rightarrow> (Inr (), rg)
        | Some t \<Rightarrow>
            if map_of (type_to_registration rg) t \<noteq> None then (Inl ViewRegistryError, rg)
            else (Inr (), rg
              \<lparr>type_to_registration := type_to_registration rg @
                 [(t, \<lparr>vr_class = view_class, vr_structure = structure_id, vr_type = Some t\<rparr>)],
               container_type_cache := Map.empty\<rparr>))"

definition get_view_for_structure :: "('c, 't) view_registry \<Rightarrow> pyval \<Rightarrow> 'c res" where
  "get_view_for_structure rg structure_id =
     (case structure_to_view rg structure_id of None \<Rightarrow> Inl ViewRegistryError | Some c \<Rightarrow> Inr c)"

definition get_view_for_type :: "('t \<Rightarrow> 't \<Rightarrow> bool) \<Rightarrow> ('c, 't) view_registry \<Rightarrow> 't \<Rightarrow> 'c res" where
  "get_view_for_type issub rg container_type =
     (case map_of (type_to_registration rg) container_type of
        Some registration \<Rightarrow> Inr (vr_class registration)
      | None \<Rightarrow>
          (case find (\<lambda>(registered_type, registration). issub container_type registered_type) (type_to_registration rg) of
             Some (_, registration) \<Rightarrow> Inr (vr_class registration)
           | None \<Rightarrow> Inl ViewRegistryError))"

definition get_structure_for_type :: "('c, 't) view_registry \<Rightarrow> 't \<Rightarrow> pyval res" where
  "get_structure_for_type rg container_type =
     (case map_of (type_to_registration rg) container_type of
        None \<Rightarrow> Inl ViewRegistryError
      | Some registration \<Rightarrow> Inr (vr_structure registration))"

text \<open>The argument is the class of the value; \<open>isinstance\<close> is \<open>issubclass\<close> on it.\<close>

definition is_container_type ::
  "('t \<Rightarrow> 't \<Rightarrow> bool) \<Rightarrow> 't \<Rightarrow> ('c, 't) view_registry \<Rightarrow> bool \<times> ('c, 't) view_registry" where
  "is_container_type issub value_type rg =
     (case container_type_cache rg value_type of
        Some cached \<Rightarrow> (cached, rg)
      | None \<Rightarrow>
          let result = (\<exists>(container_type, _) \<in> set (type_to_registration rg). issub value_type container_type)
          in (result, rg\<lparr>container_type_cache := (container_type_cache rg)(value_type \<mapsto> result)\<rparr>))"

section \<open>Runs\<close>

text \<open>Any sequence of the two calls that change the registry, from a new one.\<close>

inductive registry_reached ::
  "('c, 't) view_type \<Rightarrow> ('t \<Rightarrow> 't \<Rightarrow> bool) \<Rightarrow> ('c, 't) view_registry \<Rightarrow> bool"
  for vt issub where
  reached_new: "registry_reached vt issub new_registry"
| reached_register: "registry_reached vt issub rg \<Longrightarrow> registry_reached vt issub (snd (register vt c rg))"
| reached_query: "registry_reached vt issub rg \<Longrightarrow> registry_reached vt issub (snd (is_container_type issub t rg))"

definition registry_ok :: "('c, 't) view_type \<Rightarrow> ('t \<Rightarrow> 't \<Rightarrow> bool) \<Rightarrow> ('c, 't) view_registry \<Rightarrow> bool" where
  "registry_ok vt issub rg \<longleftrightarrow>
     distinct (map fst (type_to_registration rg)) \<and>
     (\<forall>st c. structure_to_view rg st = Some c \<longrightarrow> get_structure vt c = st) \<and>
     (\<forall>(t, r) \<in> set (type_to_registration rg). vr_type r = Some t \<and> get_container_cls vt (vr_class r) = Some t \<and>
        get_structure vt (vr_class r) = vr_structure r \<and> structure_to_view rg (vr_structure r) = Some (vr_class r)) \<and>
     (\<forall>t b. container_type_cache rg t = Some b \<longrightarrow>
        b = (\<exists>c \<in> fst ` set (type_to_registration rg). issub t c))"

lemma registry_ok_new: "registry_ok vt issub new_registry"
  by (simp add: registry_ok_def new_registry_def)

lemma registry_ok_register:
  assumes "registry_ok vt issub rg"
  shows "registry_ok vt issub (snd (register vt c rg))"
proof (cases "structure_to_view rg (get_structure vt c)")
  case (Some d)
  then show ?thesis using assms by (simp add: register_def Let_def)
next
  case None
  have other: "st \<noteq> get_structure vt c" if "structure_to_view rg st = Some d" for st d using None that by auto
  show ?thesis
    using assms None other
    by (auto simp: register_def Let_def registry_ok_def map_of_eq_None_iff fun_upd_def split: option.splits)
qed

lemma any_type: "(\<exists>(c, _) \<in> set xs. P c) \<longleftrightarrow> (\<exists>c \<in> fst ` set xs. P c)"
  by force

lemma registry_ok_query:
  assumes "registry_ok vt issub rg"
  shows "registry_ok vt issub (snd (is_container_type issub t rg))"
proof (cases "container_type_cache rg t")
  case None
  with assms show ?thesis
    unfolding registry_ok_def by (simp add: is_container_type_def Let_def any_type)
next
  case (Some b)
  with assms show ?thesis by (simp add: is_container_type_def)
qed

lemma registry_reached_ok: "registry_reached vt issub rg \<Longrightarrow> registry_ok vt issub rg"
  by (induction rule: registry_reached.induct)
    (simp_all add: registry_ok_new registry_ok_register registry_ok_query)

lemma is_container_type_fresh:
  assumes "registry_ok vt issub rg"
  shows "fst (is_container_type issub t rg) = (\<exists>c \<in> fst ` set (type_to_registration rg). issub t c)"
proof (cases "container_type_cache rg t")
  case None
  then show ?thesis by (simp add: is_container_type_def Let_def any_type)
next
  case (Some b)
  moreover have "\<forall>t b. container_type_cache rg t = Some b \<longrightarrow> b = (\<exists>c \<in> fst ` set (type_to_registration rg). issub t c)"
    using assms unfolding registry_ok_def by blast
  ultimately show ?thesis by (simp add: is_container_type_def)
qed

section \<open>Properties\<close>

text \<open>Whatever classes have been registered, successfully or not, and whatever types have been
  looked up before, the registry's directions agree: \<open>is_container_type\<close> answers from its cache what a
  fresh walk over the registered types would answer, a structure is looked up to a class of that
  structure, and a registered type is looked up (by type, and by the structure stored for it) to the
  one class registered for it.\<close>

theorem registry_directions_agree:
  assumes "registry_reached vt issub rg"
  shows "fst (is_container_type issub t rg) = (\<exists>c \<in> fst ` set (type_to_registration rg). issub t c) \<and>
    (\<forall>st c. get_view_for_structure rg st = Inr c \<longrightarrow> get_structure vt c = st) \<and>
    (\<forall>st. get_structure_for_type rg t = Inr st \<longrightarrow>
      get_view_for_type issub rg t = get_view_for_structure rg st \<and>
      (\<exists>c. get_view_for_structure rg st = Inr c \<and> get_container_cls vt c = Some t))"
proof (intro conjI allI impI)
  note ok = registry_reached_ok [OF assms]
  show "fst (is_container_type issub t rg) = (\<exists>c \<in> fst ` set (type_to_registration rg). issub t c)"
    using is_container_type_fresh [OF ok] .
  show "get_structure vt c = st" if "get_view_for_structure rg st = Inr c" for st c
    using ok that by (auto simp: get_view_for_structure_def registry_ok_def split: option.splits)
  fix st assume st: "get_structure_for_type rg t = Inr st"
  then obtain r where r: "map_of (type_to_registration rg) t = Some r" "st = vr_structure r"
    by (auto simp: get_structure_for_type_def split: option.splits)
  then have "(t, r) \<in> set (type_to_registration rg)" by (auto dest: map_of_SomeD)
  with ok have "get_container_cls vt (vr_class r) = Some t" "structure_to_view rg st = Some (vr_class r)"
    by (auto simp: registry_ok_def r(2))
  with r show "get_view_for_type issub rg t = get_view_for_structure rg st"
    and "\<exists>c. get_view_for_structure rg st = Inr c \<and> get_container_cls vt c = Some t"
    by (simp_all add: get_view_for_type_def get_view_for_structure_def)
qed

text \<open>One class registered, its type looked up.\<close>

definition sample_types :: "(int, nat) view_type" where
  "sample_types = \<lparr>get_structure = VInt, get_container_cls = (\<lambda>c. Some (nat c))\<rparr>"

definition sample_registry :: "(int, nat) view_registry" where
  "sample_registry = snd (is_container_type (=) 3 (snd (register sample_types 3 new_registry)))"

lemma sample_registry_reached: "registry_reached sample_types (=) sample_registry"
  unfolding sample_registry_def by (intro registry_reached.intros)

lemma sample_registry_type: "get_structure_for_type sample_registry 3 = Inr (VInt 3)"
  by (simp add: sample_registry_def sample_types_def new_registry_def register_def is_container_type_def Let_def
      get_structure_for_type_def)

theorem registry_directions_agree_witness:
  "fst (is_container_type (=) 3 sample_registry) \<and> get_view_for_type (=) sample_registry 3 = Inr 3"
proof -
  have "get_view_for_structure sample_registry (VInt 3) = Inr 3"
    by (simp add: sample_registry_def sample_types_def new_registry_def register_def is_container_type_def Let_def
        get_view_for_structure_def)
  moreover have "3 \<in> fst ` set (type_to_registration sample_registry)"
    by (simp add: sample_registry_def sample_types_def new_registry_def register_def is_container_type_def Let_def)
  ultimately show ?thesis
    using registry_directions_agree [OF sample_registry_reached, of 3] sample_registry_type by auto
qed

text \<open>A class whose container type is taken is refused after its structure has been entered.\<close>

lemma register_partial:
  assumes "structure_to_view rg (get_structure vt c) = None" and "get_container_cls vt c = Some t"
    and "map_of (type_to_registration rg) t \<noteq> None"
  shows "fst (register vt c rg) = Inl ViewRegistryError"
    and "get_view_for_structure (snd (register vt c rg)) (get_structure vt c) = Inr c"
  using assms by (auto simp: register_def Let_def get_view_for_structure_def)

end
