(* ===== verification/Views.thy ===== *)
theory Views
  imports Container_Ops View_Registry String_Codec
begin

text \<open>
  Views (\<open>view/base.py\<close>, \<open>view/bases.py\<close>, \<open>_views/dict_view.py\<close>, \<open>_views/list_view.py\<close>): the eager
  dict and list views over the container layer, for the registry of a \<open>Navigator\<close>. The default one has
  six classes; the methods of the other four (tuple, set, frozenset, bytearray) are not modelled: where
  the code would call one, the result is \<open>None\<close>, so no theorem about a call that returns covers it. A
  view is its class, its site and the view it was opened from; the context is the one of all its
  relatives.
\<close>

section \<open>Actions\<close>

text \<open>
  A method of a view is an action: it returns or raises and leaves a state; \<open>None\<close> when a scan needs
  more pages than it is given, or where a class without a model takes over. \<open>act_gen\<close> drains a
  generator: the items it hands out, and how it ends.
\<close>

definition act_ret :: "'a \<Rightarrow> 's \<Rightarrow> ('a res \<times> 's) option" where "act_ret x s = Some (Inr x, s)"
definition act_raise :: "exn \<Rightarrow> 's \<Rightarrow> ('a res \<times> 's) option" where "act_raise e s = Some (Inl e, s)"
definition act_read :: "('s \<Rightarrow> 'a res) \<Rightarrow> 's \<Rightarrow> ('a res \<times> 's) option" where "act_read f s = Some (f s, s)"
definition act_write :: "('s \<Rightarrow> 'a res \<times> 's) \<Rightarrow> 's \<Rightarrow> ('a res \<times> 's) option" where "act_write f s = Some (f s)"

definition act_bind ::
  "('s \<Rightarrow> ('a res \<times> 's) option) \<Rightarrow> ('a \<Rightarrow> 's \<Rightarrow> ('b res \<times> 's) option) \<Rightarrow> 's \<Rightarrow> ('b res \<times> 's) option" where
  "act_bind m f s = Option.bind (m s) (\<lambda>(r, s'). case r of Inl e \<Rightarrow> Some (Inl e, s') | Inr x \<Rightarrow> f x s')"

definition act_gen ::
  "('s \<Rightarrow> ('a list \<times> unit res \<times> 's) option) \<Rightarrow> 's \<Rightarrow> (('a list \<times> unit res) res \<times> 's) option" where
  "act_gen m s = map_option (\<lambda>(ys, r, s'). (Inr (ys, r), s')) (m s)"

text \<open>\<open>except E as e: raise F from e\<close>, and \<open>except E: return x\<close>.\<close>

definition act_reraise :: "exn \<Rightarrow> exn \<Rightarrow> ('s \<Rightarrow> ('a res \<times> 's) option) \<Rightarrow> 's \<Rightarrow> ('a res \<times> 's) option" where
  "act_reraise caught raised m s =
     Option.bind (m s) (\<lambda>(r, s'). case r of Inl e \<Rightarrow> Some (Inl (if e = caught then raised else e), s') | Inr x \<Rightarrow> Some (Inr x, s'))"

definition act_catch :: "(exn \<Rightarrow> bool) \<Rightarrow> 'a \<Rightarrow> ('s \<Rightarrow> ('a res \<times> 's) option) \<Rightarrow> 's \<Rightarrow> ('a res \<times> 's) option" where
  "act_catch caught x m s =
     Option.bind (m s) (\<lambda>(r, s'). case r of Inl e \<Rightarrow> Some (if caught e then Inr x else Inl e, s') | Inr y \<Rightarrow> Some (Inr y, s'))"

text \<open>\<open>for x in xs: yield ...\<close>, a step yielding any number of items.\<close>

fun act_for :: "('x \<Rightarrow> 's \<Rightarrow> ('y list res \<times> 's) option) \<Rightarrow> 'x list \<Rightarrow> 's \<Rightarrow> ('y list res \<times> 's) option" where
  "act_for f [] = act_ret []"
| "act_for f (x # xs) = act_bind (f x) (\<lambda>ys. act_bind (act_for f xs) (\<lambda>zs. act_ret (ys @ zs)))"

lemma act_bind_mono [partial_function_mono]:
  assumes m: "\<And>s. mono_option (\<lambda>f. m f s)" and k: "\<And>x s. mono_option (\<lambda>f. k f x s)"
  shows "mono_option (\<lambda>f. act_bind (m f) (k f) s)"
  unfolding act_bind_def
proof (intro bind_mono m)
  fix p :: "'d res \<times> 'a"
  show "mono_option (\<lambda>f. case p of (r, s') \<Rightarrow> (case r of Inl e \<Rightarrow> Some (Inl e, s') | Inr x \<Rightarrow> k f x s'))"
    by (cases p; cases "fst p") (simp_all add: k option.const_mono)
qed

lemma act_reraise_mono [partial_function_mono]:
  assumes "\<And>s. mono_option (\<lambda>f. m f s)"
  shows "mono_option (\<lambda>f. act_reraise c r (m f) s)"
  unfolding act_reraise_def by (intro bind_mono assms option.const_mono)

lemma act_for_mono [partial_function_mono]:
  assumes "\<And>x s. mono_option (\<lambda>f. m f x s)"
  shows "mono_option (\<lambda>f. act_for (m f) xs s)"
proof (induction xs arbitrary: s)
  case Nil
  show ?case by (simp add: option.const_mono)
next
  case (Cons x xs)
  show ?case unfolding act_for.simps by (intro act_bind_mono assms Cons option.const_mono)
qed

section \<open>View classes\<close>

datatype view_class = ByteArrayView | EagerDictView | FrozenSetView | EagerListView | SetView | TupleView

fun STRUCTURE :: "view_class \<Rightarrow> pyval" where
  "STRUCTURE EagerDictView = VInt 1"
| "STRUCTURE EagerListView = VInt 2"
| "STRUCTURE TupleView = VInt 3"
| "STRUCTURE SetView = VInt 4"
| "STRUCTURE FrozenSetView = VInt 5"
| "STRUCTURE ByteArrayView = VInt 6"

fun PROTOCOL :: "view_class \<Rightarrow> int" where
  "PROTOCOL EagerDictView = FLAG_MAPPING OR FLAG_MUTABLE"
| "PROTOCOL EagerListView = FLAG_INDEXED OR FLAG_MUTABLE OR FLAG_SIZED"
| "PROTOCOL TupleView = FLAG_INDEXED OR FLAG_SIZED"
| "PROTOCOL SetView = FLAG_SET OR FLAG_MUTABLE"
| "PROTOCOL FrozenSetView = FLAG_SET"
| "PROTOCOL ByteArrayView = FLAG_MUTABLE OR FLAG_INDEXED"

text \<open>
  The classes of the values the model tells apart; no two are subclasses of one another. There are no
  values for a frozenset and a bytearray.
\<close>

datatype pytype = T_dict | T_list | T_tuple | T_set | T_frozenset | T_bytearray | T_int | T_str | T_none | T_other

fun CONTAINER_CLS :: "view_class \<Rightarrow> pytype option" where
  "CONTAINER_CLS EagerDictView = Some T_dict"
| "CONTAINER_CLS EagerListView = Some T_list"
| "CONTAINER_CLS TupleView = Some T_tuple"
| "CONTAINER_CLS SetView = Some T_set"
| "CONTAINER_CLS FrozenSetView = Some T_frozenset"
| "CONTAINER_CLS ByteArrayView = Some T_bytearray"

text \<open>The classes whose methods are modelled.\<close>

definition modelled_class :: "view_class \<Rightarrow> bool" where
  "modelled_class c \<longleftrightarrow> c = EagerDictView \<or> c = EagerListView"

fun class_of :: "pyval \<Rightarrow> pytype" where
  "class_of (VMap _) = T_dict"
| "class_of (VList _) = T_list"
| "class_of (VTuple _) = T_tuple"
| "class_of (VSet _) = T_set"
| "class_of (VInt _) = T_int"
| "class_of (VStr _) = T_str"
| "class_of VNone = T_none"
| "class_of VEmpty = T_other"
| "class_of (VOther _) = T_other"

definition view_types :: "(view_class, pytype) view_type" where
  "view_types = \<lparr>get_structure = STRUCTURE, get_container_cls = CONTAINER_CLS\<rparr>"

type_synonym registry = "(view_class, pytype) view_registry"

text \<open>\<open>Navigator._build_registry(views)\<close>, and the registry of the default views.\<close>

fun register_all :: "view_class list \<Rightarrow> registry \<Rightarrow> unit res \<times> registry" where
  "register_all [] rg = (Inr (), rg)"
| "register_all (c # cs) rg =
     (case register view_types c rg of (Inl e, rg) \<Rightarrow> (Inl e, rg) | (Inr _, rg) \<Rightarrow> register_all cs rg)"

definition build_registry :: "view_class list \<Rightarrow> unit res \<times> registry" where
  "build_registry views = register_all views new_registry"

definition default_views :: "view_class list" where
  "default_views = [ByteArrayView, EagerDictView, FrozenSetView, EagerListView, SetView, TupleView]"

definition std_registry :: registry where
  "std_registry = snd (build_registry default_views)"

text \<open>What \<open>is_container_type\<close> and \<open>get_view_for_type\<close> say of a value.\<close>

definition is_container_value :: "registry \<Rightarrow> pyval \<Rightarrow> bool" where
  "is_container_value rg val = fst (is_container_type (=) (class_of val) rg)"

definition view_for_value :: "registry \<Rightarrow> pyval \<Rightarrow> view_class res" where
  "view_for_value rg val = get_view_for_type (=) rg (class_of val)"

section \<open>Views\<close>

datatype view = View (view_cls: view_class) (view_site: site) (view_parent: "view option")

text \<open>\<open>Container.create\<close>, \<open>Container.get\<close> and \<open>Container.require_exists\<close>.\<close>

definition container_create ::
  "('e, 'g, 's) kv_ctx \<Rightarrow> site \<Rightarrow> pyval \<Rightarrow> int \<Rightarrow> node_info option \<Rightarrow> 's \<Rightarrow> unit res \<times> 's" where
  "container_create ctx site structure protocol node_info s =
     (if site = [] \<or> hd site \<noteq> DATA_ROOT then (Inl ContainerInvalidSiteError, s)
      else create_container ctx site structure protocol True node_info s)"

definition container_get :: "('e, 'g, 's) kv_ctx \<Rightarrow> site \<Rightarrow> 's \<Rightarrow> unit res" where
  "container_get ctx site s =
     (if site = [] \<or> hd site \<noteq> DATA_ROOT then Inl ContainerInvalidSiteError
      else validate_is_container ctx site None s)"

definition require_exists :: "('e, 'g, 's) kv_ctx \<Rightarrow> site \<Rightarrow> 's \<Rightarrow> unit res" where
  "require_exists ctx site s =
     rbind (node_exists ctx site s) (\<lambda>here. if \<not> here then Inl ContainerNotFoundError else Inr ())"

text \<open>
  The body of \<open>_ensure_child_view\<close>, given the parent's \<open>ensure_created\<close>. For a dict and a list view:
  neither class has an internal layout, and for both \<open>_on_child_created\<close> does nothing. It returns whether the child is new.
\<close>

definition make_child ::
  "('e, 'g, 's) kv_ctx \<Rightarrow> ('s \<Rightarrow> (unit res \<times> 's) option) \<Rightarrow> view_class \<Rightarrow> site \<Rightarrow> 's \<Rightarrow> (bool res \<times> 's) option" where
  "make_child ctx ensure_parent c site =
     act_bind (act_read (get_node_info ctx site None)) (\<lambda>info.
       act_bind (if \<not> ni_exists info then ensure_parent else act_ret ()) (\<lambda>_.
         act_bind (act_write (container_create ctx site (STRUCTURE c) (PROTOCOL c) (Some info))) (\<lambda>_.
           act_ret (\<not> ni_exists info))))"

fun ensure_created :: "('e, 'g, 's) kv_ctx \<Rightarrow> view \<Rightarrow> 's \<Rightarrow> (unit res \<times> 's) option" where
  "ensure_created ctx (View c site None) =
     act_write (container_create ctx site (STRUCTURE c) (PROTOCOL c) None)"
| "ensure_created ctx (View c site (Some p)) =
     act_bind (make_child ctx (ensure_created ctx p) c site) (\<lambda>_. act_ret ())"

definition ensure_child_view :: "('e, 'g, 's) kv_ctx \<Rightarrow> view \<Rightarrow> view \<Rightarrow> 's \<Rightarrow> (bool res \<times> 's) option" where
  "ensure_child_view ctx V child = make_child ctx (ensure_created ctx V) (view_cls child) (view_site child)"

text \<open>\<open>is_view_key\<close>, and the segment such a key is.\<close>

fun seg_of :: "pyval \<Rightarrow> seg option" where
  "seg_of (VInt i) = Some (SInt i)"
| "seg_of (VStr t) = Some (SStr t)"
| "seg_of _ = None"

fun val_of :: "seg \<Rightarrow> pyval" where
  "val_of (SInt i) = VInt i"
| "val_of (SStr t) = VStr t"

definition is_view_key :: "pyval \<Rightarrow> bool" where
  "is_view_key address = (seg_of address \<noteq> None)"

definition reject_bad_key :: "pyval \<Rightarrow> unit res" where
  "reject_bad_key address = (if \<not> is_view_key address then Inl TypeError else Inr ())"

text \<open>It returns the segment, for the caller to go on with.\<close>

definition reject_empty :: "view \<Rightarrow> pyval \<Rightarrow> pyval \<Rightarrow> seg res" where
  "reject_empty V address val =
     rbind (reject_bad_key address) (\<lambda>_. let a = the (seg_of address) in
       rbind (reject_empty_value (view_site V @ [a]) val) (\<lambda>_. Inr a))"

definition reject_empty_in :: "view \<Rightarrow> pyval \<Rightarrow> unit res" where
  "reject_empty_in V val = reject_empty_value (view_site V) val"

definition view_put_child_primitive ::
  "('e, 'g, 's) kv_ctx \<Rightarrow> view \<Rightarrow> seg \<Rightarrow> pyval \<Rightarrow> 's \<Rightarrow> (unit res \<times> 's) option" where
  "view_put_child_primitive ctx V a val =
     (let child_site = view_site V @ [a] in
      act_bind (act_read (get_node_info ctx child_site None)) (\<lambda>info.
        if ni_exists info \<and> ni_type info \<noteq> PRIMITIVE then act_raise ContainerTypeError
        else act_write (put_child_primitive ctx (view_site V) a val False False)))"

section \<open>The stored length of a list view\<close>

definition LEN :: seg where "LEN = SStr (lit ''__len__'')"

text \<open>\<open>int(length)\<close>. Only \<open>_set_length\<close> writes this key, with an integer.\<close>

fun length_value :: "pyval \<Rightarrow> int res" where
  "length_value (VInt i) = Inr i"
| "length_value VNone = Inr 0"
| "length_value _ = Inl TypeError"

definition stored_len :: "('e, 'g, 's) kv_ctx \<Rightarrow> view \<Rightarrow> 's \<Rightarrow> int res" where
  "stored_len ctx V s = rbind (get_metadata ctx (view_site V) LEN (VInt 0) s) length_value"

definition set_length :: "('e, 'g, 's) kv_ctx \<Rightarrow> view \<Rightarrow> int \<Rightarrow> 's \<Rightarrow> unit res \<times> 's" where
  "set_length ctx V n = put_metadata ctx (view_site V) LEN (VInt n)"

definition list_len :: "('e, 'g, 's) kv_ctx \<Rightarrow> view \<Rightarrow> 's \<Rightarrow> int res" where
  "list_len ctx V s =
     rbind (get_metadata ctx (view_site V) LEN VEmpty s) (\<lambda>length.
       if length = VEmpty \<or> length = VNone then rbind (require_exists ctx (view_site V) s) (\<lambda>_. Inr 0)
       else length_value length)"

definition update_count :: "('e, 'g, 's) kv_ctx \<Rightarrow> view \<Rightarrow> 's \<Rightarrow> (unit res \<times> 's) option" where
  "update_count ctx V =
     act_bind (act_gen (iter_child_keys ctx (view_site V) False False False)) (\<lambda>(keys, r).
       act_bind (act_read (\<lambda>_. r)) (\<lambda>_. act_write (set_length ctx V (int (length keys)))))"

definition normalize_address :: "('e, 'g, 's) kv_ctx \<Rightarrow> view \<Rightarrow> int \<Rightarrow> 's \<Rightarrow> int res" where
  "normalize_address ctx V address s =
     rbind (stored_len ctx V s) (\<lambda>length.
       let address = (if address < 0 then length + address else address) in
       if address < 0 \<or> address \<ge> length then Inl IndexError else Inr address)"

section \<open>Writing values\<close>

definition dict_clear :: "('e, 'g, 's) kv_ctx \<Rightarrow> view \<Rightarrow> 's \<Rightarrow> (unit res \<times> 's) option" where
  "dict_clear ctx V =
     act_bind (act_read (node_exists ctx (view_site V))) (\<lambda>here.
       if \<not> here then act_ret ()
       else act_bind (ensure_created ctx V) (\<lambda>_. clear_children ctx (view_site V) True))"

definition list_clear :: "('e, 'g, 's) kv_ctx \<Rightarrow> view \<Rightarrow> 's \<Rightarrow> (unit res \<times> 's) option" where
  "list_clear ctx V =
     act_bind (act_read (node_exists ctx (view_site V))) (\<lambda>here.
       if \<not> here then act_ret ()
       else act_bind (ensure_created ctx V) (\<lambda>_.
         act_bind (clear_children ctx (view_site V) True) (\<lambda>_. act_write (set_length ctx V 0))))"

text \<open>\<open>store\<close> of the two classes, given the loop over the items.\<close>

definition dict_store_with ::
  "('e, 'g, 's) kv_ctx \<Rightarrow> view \<Rightarrow> pyval \<Rightarrow> bool \<Rightarrow> ('s \<Rightarrow> (unit res \<times> 's) option) \<Rightarrow> 's \<Rightarrow> (unit res \<times> 's) option" where
  "dict_store_with ctx V val replace items_loop =
     act_bind (act_read (\<lambda>_. reject_empty_in V val)) (\<lambda>_.
       act_bind (ensure_created ctx V) (\<lambda>_.
         act_bind (if replace then dict_clear ctx V else act_ret ()) (\<lambda>_. items_loop)))"

definition list_store_with ::
  "('e, 'g, 's) kv_ctx \<Rightarrow> view \<Rightarrow> pyval \<Rightarrow> bool \<Rightarrow> (int \<Rightarrow> 's \<Rightarrow> (int res \<times> 's) option) \<Rightarrow> 's \<Rightarrow> (unit res \<times> 's) option" where
  "list_store_with ctx V val replace items_loop =
     act_bind (act_read (\<lambda>_. reject_empty_in V val)) (\<lambda>_.
       act_bind (ensure_created ctx V) (\<lambda>_.
         act_bind (if replace then act_bind (list_clear ctx V) (\<lambda>_. act_ret 0) else act_read (stored_len ctx V)) (\<lambda>count.
           act_bind (items_loop count) (\<lambda>count. act_write (set_length ctx V count)))))"

text \<open>
  \<open>_set_child_value\<close> (with \<open>_populate_child_container\<close>) and the loops of the two \<open>store\<close>s. The last
  case cannot occur: the registry's class for a value takes values of that class.
  A tuple or a set in the default registry goes to a class that is not modelled.
\<close>

fun set_child_value ::
    "registry \<Rightarrow> ('e, 'g, 's) kv_ctx \<Rightarrow> view \<Rightarrow> pyval \<Rightarrow> pyval \<Rightarrow> 's \<Rightarrow> (unit res \<times> 's) option"
  and store_items :: "registry \<Rightarrow> ('e, 'g, 's) kv_ctx \<Rightarrow> view \<Rightarrow> (pyval \<times> pyval) list \<Rightarrow> 's \<Rightarrow> (unit res \<times> 's) option"
  and store_seq :: "registry \<Rightarrow> ('e, 'g, 's) kv_ctx \<Rightarrow> view \<Rightarrow> pyval list \<Rightarrow> int \<Rightarrow> 's \<Rightarrow> (int res \<times> 's) option" where
  "set_child_value rg ctx V address val =
     act_bind (act_read (\<lambda>_. reject_empty V address val)) (\<lambda>a.
       act_bind (ensure_created ctx V) (\<lambda>_.
         if is_container_value rg val then
           act_bind (act_read (\<lambda>_. view_for_value rg val)) (\<lambda>c.
             if \<not> modelled_class c then (\<lambda>_. None) else
             let child = View c (view_site V @ [a]) (Some V) in
             act_bind (ensure_child_view ctx V child) (\<lambda>created.
               case (c, val) of
                 (EagerDictView, VMap items) \<Rightarrow>
                   dict_store_with ctx child val (\<not> created) (store_items rg ctx child items)
               | (EagerListView, VList xs) \<Rightarrow>
                   list_store_with ctx child val (\<not> created) (store_seq rg ctx child xs)
               | _ \<Rightarrow> act_raise TypeError))
         else view_put_child_primitive ctx V a val))"
| "store_items rg ctx V [] = act_ret ()"
| "store_items rg ctx V ((key, val) # items) =
     act_bind (set_child_value rg ctx V key val) (\<lambda>_. store_items rg ctx V items)"
| "store_seq rg ctx V [] count = act_ret count"
| "store_seq rg ctx V (item # xs) count =
     act_bind (set_child_value rg ctx V (VInt count) item) (\<lambda>_. store_seq rg ctx V xs (count + 1))"

end
