(* ===== verification/View_Values.thy ===== *)
theory View_Values
  imports Views Container_Writes "HOL-Library.Multiset"
begin

text \<open>
  What a stored value looks like: the rows of a nested dict or list in the data tree and the stored
  lengths in the metadata tree, as maps over paths. Pure facts; the views come in the next theories.
\<close>

section \<open>A value as a tree\<close>

text \<open>The child under a segment, the value at a path, and the row a value has at its own site.\<close>

fun item_at :: "(pyval \<times> pyval) list \<Rightarrow> seg \<Rightarrow> pyval option" where
  "item_at [] x = None"
| "item_at ((k, v) # items) x = (if seg_of k = Some x then Some v else item_at items x)"

fun child_of :: "pyval \<Rightarrow> seg \<Rightarrow> pyval option" where
  "child_of (VMap items) x = item_at items x"
| "child_of (VList xs) (SInt i) = (if 0 \<le> i \<and> i < int (length xs) then Some (xs ! nat i) else None)"
| "child_of _ _ = None"

fun value_at :: "pyval \<Rightarrow> seg list \<Rightarrow> pyval option" where
  "value_at v [] = Some v"
| "value_at v (x # p) = (case child_of v x of None \<Rightarrow> None | Some w \<Rightarrow> value_at w p)"

definition marker_of :: "view_class \<Rightarrow> pyval" where
  "marker_of c = create_marker (STRUCTURE c) (PROTOCOL c)"

fun row_of :: "pyval \<Rightarrow> pyval" where
  "row_of (VMap _) = marker_of EagerDictView"
| "row_of (VList _) = marker_of EagerListView"
| "row_of v = v"

fun own_len :: "pyval \<Rightarrow> pyval option" where
  "own_len (VList xs) = Some (VInt (int (length xs)))"
| "own_len _ = None"

definition data_at :: "pyval \<Rightarrow> seg list \<Rightarrow> pyval option" where
  "data_at v p = map_option row_of (value_at v p)"

definition meta_at :: "pyval \<Rightarrow> seg list \<Rightarrow> pyval option" where
  "meta_at v p =
     (if p \<noteq> [] \<and> last p = LEN then Option.bind (value_at v (butlast p)) own_len else None)"

lemma data_at_simps [simp]:
  "data_at v [] = Some (row_of v)"
  "data_at v (x # p) = (case child_of v x of None \<Rightarrow> None | Some w \<Rightarrow> data_at w p)"
  by (auto simp: data_at_def split: option.splits)

lemma meta_at_simps [simp]:
  "meta_at v [] = None"
  "meta_at v [x] = (if x = LEN then own_len v else None)"
  "meta_at v (x # y # p) = (case child_of v x of None \<Rightarrow> None | Some w \<Rightarrow> meta_at w (y # p))"
  by (auto simp: meta_at_def split: option.splits)

lemma seg_of_val [simp]: "seg_of (val_of x) = Some x"
  by (cases x) simp_all

lemma seg_of_eq: "seg_of k = Some x \<longleftrightarrow> k = val_of x"
  by (cases k; cases x) auto

lemma item_at_append: "item_at (xs @ ys) x = (case item_at xs x of None \<Rightarrow> item_at ys x | Some v \<Rightarrow> Some v)"
  by (induction xs) auto

lemma item_at_None: "item_at items x = None \<longleftrightarrow> val_of x \<notin> fst ` set items"
  by (induction items) (auto simp: seg_of_eq split: if_splits)

lemma item_at_map_of: "item_at items x = map_of items (val_of x)"
  by (induction items) (auto simp: seg_of_eq)

lemma child_of_list: "child_of (VList xs) x = (case x of
    SInt i \<Rightarrow> if 0 \<le> i \<and> i < int (length xs) then Some (xs ! nat i) else None | SStr t \<Rightarrow> None)"
  by (cases x) simp_all

section \<open>Which values can be stored and read back\<close>

text \<open>
  A leaf is a value of a class the default registry has no view for (not a dict, a list, a tuple or a
  set), and not \<open>EMPTY\<close>; the keys of a dict are distinct and can be encoded, and so can the indexes of a
  list.
\<close>

fun is_leaf :: "pyval \<Rightarrow> bool" where
  "is_leaf (VMap _) = False"
| "is_leaf (VList _) = False"
| "is_leaf (VTuple _) = False"
| "is_leaf (VSet _) = False"
| "is_leaf v = (find_empty v [] = None \<and> extract_marker v = Inr None)"

fun storable :: "(seg \<Rightarrow> bool) \<Rightarrow> pyval \<Rightarrow> bool"
  and storable_items :: "(seg \<Rightarrow> bool) \<Rightarrow> (pyval \<times> pyval) list \<Rightarrow> bool"
  and storable_seq :: "(seg \<Rightarrow> bool) \<Rightarrow> pyval list \<Rightarrow> bool" where
  "storable okseg (VMap items) \<longleftrightarrow> distinct (map fst items) \<and> storable_items okseg items"
| "storable okseg (VList xs) \<longleftrightarrow> (\<forall>i < length xs. okseg (SInt (int i))) \<and> storable_seq okseg xs"
| "storable okseg VEmpty \<longleftrightarrow> False"
| "storable okseg VNone \<longleftrightarrow> True"
| "storable okseg (VInt i) \<longleftrightarrow> True"
| "storable okseg (VStr t) \<longleftrightarrow> True"
| "storable okseg (VOther n) \<longleftrightarrow> True"
| "storable okseg (VTuple xs) \<longleftrightarrow> False"
| "storable okseg (VSet xs) \<longleftrightarrow> False"
| "storable_items okseg [] \<longleftrightarrow> True"
| "storable_items okseg ((k, v) # items) \<longleftrightarrow>
     (\<exists>x. seg_of k = Some x \<and> okseg x) \<and> storable okseg v \<and> storable_items okseg items"
| "storable_seq okseg [] \<longleftrightarrow> True"
| "storable_seq okseg (v # xs) \<longleftrightarrow> storable okseg v \<and> storable_seq okseg xs"

lemma storable_items_iff:
  "storable_items okseg items \<longleftrightarrow> (\<forall>(k, v) \<in> set items. (\<exists>x. seg_of k = Some x \<and> okseg x) \<and> storable okseg v)"
  by (induction items) auto

lemma storable_seq_iff: "storable_seq okseg xs \<longleftrightarrow> (\<forall>v \<in> set xs. storable okseg v)"
  by (induction xs) auto

lemma is_leaf_scalar [simp]: "is_leaf VNone" "is_leaf (VInt i)" "is_leaf (VStr t)" "is_leaf (VOther n)"
  by (simp_all add: extract_marker_def)

lemma storable_leaf: "is_leaf v \<Longrightarrow> storable okseg v"
  by (cases v) auto

lemma storable_cases:
  assumes "storable okseg v"
  obtains "is_leaf v" | items where "v = VMap items" | xs where "v = VList xs"
  using assms by (cases v) (auto simp: extract_marker_def)

lemma find_empty_path:
  "find_empty v p = None \<longleftrightarrow> find_empty v q = None"
  "find_empty_items items p = None \<longleftrightarrow> find_empty_items items q = None"
  "find_empty_seq xs i p = None \<longleftrightarrow> find_empty_seq xs j q = None"
proof (induction v p and items p and xs i p arbitrary: q and q and j q rule: find_empty_find_empty_items_find_empty_seq.induct)
  case (11 key item items path)
  from 11(1) [of "q @ [key]"] 11(2) [of q] show ?case by (auto split: option.splits)
next
  case (13 item xs index path)
  from 13(1) [of "q @ [VInt j]"] 13(2) [of "j + 1" q] show ?case by (auto split: option.splits)
qed auto

lemma storable_no_empty:
  "storable okseg v \<Longrightarrow> find_empty v path = None"
  "storable_items okseg items \<Longrightarrow> find_empty_items items path = None"
  "storable_seq okseg xs \<Longrightarrow> find_empty_seq xs i path = None"
proof (induction okseg v and okseg items and okseg xs arbitrary: path and path and i path
    rule: storable_storable_items_storable_seq.induct)
  case (8 okseg xs)
  then show ?case using find_empty_path(3) [of xs 0 path 0 "[]"] by simp
next
  case (9 okseg xs)
  then show ?case using find_empty_path(3) [of xs 0 path 0 "[]"] by simp
qed auto

lemma storable_child:
  assumes "storable okseg v" and "child_of v x = Some w"
  shows "storable okseg w \<and> okseg x"
proof (cases v)
  case (VMap items)
  with assms(2) have "(val_of x, w) \<in> set items" by (auto simp: item_at_map_of dest: map_of_SomeD)
  with VMap assms(1) show ?thesis by (fastforce simp: storable_items_iff)
next
  case (VList xs)
  with assms(2) obtain i where i: "x = SInt i" "0 \<le> i" "i < int (length xs)" "w = xs ! nat i"
    by (auto simp: child_of_list split: seg.splits if_splits)
  then have "nat i < length xs" "int (nat i) = i" by simp_all
  then have "okseg (SInt i)" using assms(1) VList by (metis storable.simps(2))
  with i VList assms(1) show ?thesis by (simp add: storable_seq_iff)
qed (use assms(2) in auto)

section \<open>A value at a site\<close>

text \<open>The keys a site owns, below it and below its mirror in the metadata tree.\<close>

definition meta_site :: "site \<Rightarrow> site" where
  "meta_site site = METADATA_ROOT # tl site"

definition region :: "site \<Rightarrow> key set" where
  "region site = {k. prefix site k \<or> prefix (meta_site site) k}"

definition data_site :: "site \<Rightarrow> bool" where
  "data_site site \<longleftrightarrow> site \<noteq> [] \<and> hd site = DATA_ROOT"

definition holds :: "(key \<rightharpoonup> pyval) \<Rightarrow> site \<Rightarrow> pyval \<Rightarrow> bool" where
  "holds V site v \<longleftrightarrow> (\<forall>p. V (site @ p) = data_at v p \<and> V (meta_site site @ p) = meta_at v p)"

definition vacant :: "(key \<rightharpoonup> pyval) \<Rightarrow> site \<Rightarrow> bool" where
  "vacant V site \<longleftrightarrow> (\<forall>p. V (site @ p) = None \<and> V (meta_site site @ p) = None)"

definition place :: "site \<Rightarrow> pyval \<Rightarrow> (key \<rightharpoonup> pyval) \<Rightarrow> key \<rightharpoonup> pyval" where
  "place site v V = (\<lambda>k.
     if prefix site k then data_at v (drop (length site) k)
     else if prefix (meta_site site) k then meta_at v (drop (length (meta_site site)) k) else V k)"

lemma data_site_append [simp]: "data_site site \<Longrightarrow> data_site (site @ p)"
  by (auto simp: data_site_def)

lemma meta_site_append: "data_site site \<Longrightarrow> meta_site (site @ p) = meta_site site @ p"
  by (cases site) (auto simp: meta_site_def data_site_def)

lemma sites_apart: "data_site site \<Longrightarrow> site @ p \<noteq> meta_site other @ q" "data_site site \<Longrightarrow> meta_site other @ q \<noteq> site @ p"
    "data_site site \<Longrightarrow> site \<noteq> meta_site other @ q"
  by (cases site; auto simp: meta_site_def data_site_def)+

lemma not_prefix_meta [simp]: "data_site site \<Longrightarrow> \<not> prefix site (meta_site other @ q)"
  and not_meta_prefix [simp]: "data_site site \<Longrightarrow> \<not> prefix (meta_site other) (site @ q)"
  by (cases site; auto simp: meta_site_def data_site_def)+

lemma meta_site_eq: "data_site site \<Longrightarrow> meta_key site x = meta_site site @ [x]"
  by (simp add: meta_key_def meta_site_def)

lemma region_cases:
  obtains p where "k = site @ p" | p where "k = meta_site site @ p" | "k \<notin> region site"
  by (auto simp: region_def prefix_def)

lemma in_region [simp]: "site @ p \<in> region site" "meta_site site @ p \<in> region site"
  by (simp_all add: region_def)

lemma region_child: "data_site site \<Longrightarrow> region (site @ p) \<subseteq> region site"
  by (auto simp: region_def meta_site_append prefix_def)

lemma place_simps [simp]:
  "data_site site \<Longrightarrow> place site v V (site @ p) = data_at v p"
  "data_site site \<Longrightarrow> place site v V (meta_site site @ p) = meta_at v p"
  "k \<notin> region site \<Longrightarrow> place site v V k = V k"
  "place site v V site = Some (row_of v)"
  "data_site site \<Longrightarrow> place site v V (meta_site site) = None"
  using not_prefix_meta [of site site "[]"] by (auto simp: place_def region_def)

lemma holds_place: "data_site site \<Longrightarrow> holds (place site v V) site v"
  by (simp add: holds_def)

lemma holds_imp_place: "holds V site v \<Longrightarrow> place site v V = V"
  by (auto simp: fun_eq_iff place_def holds_def prefix_def)

lemma place_place: "data_site site \<Longrightarrow> place site v (place site w V) = place site v V"
  by (auto simp: fun_eq_iff place_def)

lemma place_upd: "k \<notin> region site \<Longrightarrow> place site v (V(k := y)) = (place site v V)(k := y)"
  by (auto simp: fun_eq_iff place_def region_def)

lemma place_leaf: "data_site site \<Longrightarrow> vacant V site \<Longrightarrow> is_leaf v \<Longrightarrow> place site v V = V(site \<mapsto> v)"
proof
  fix k assume *: "data_site site" "vacant V site" "is_leaf v"
  have c: "child_of v x = None" "row_of v = v" "own_len v = None" for x using *(3) by (cases v; simp)+
  have m: "meta_at v p = None" for p by (cases p; cases "tl p") (simp_all add: c)
  show "place site v V k = (V(site \<mapsto> v)) k"
  proof (cases k rule: region_cases [of _ site])
    case (1 p)
    with * c show ?thesis by (cases p) (auto simp: vacant_def)
  next
    case (2 p)
    then have "k \<noteq> site" using sites_apart(3) [OF *(1), of site p] by auto
    with 2 * m show ?thesis by (simp add: vacant_def)
  next
    case 3
    then have "k \<noteq> site" using in_region(1) [of site "[]"] by auto
    with 3 show ?thesis by simp
  qed
qed

lemma holds_child:
  assumes "data_site site" and "holds V site v" and "child_of v x = Some w"
  shows "holds V (site @ [x]) w"
proof -
  have "x \<noteq> LEN \<or> own_len v = None" using assms(3) by (cases v) (auto simp: child_of_list LEN_def)
  have "V (meta_site site @ x # p) = meta_at w p" for p
  proof (cases p)
    case Nil
    with assms(2) \<open>x \<noteq> LEN \<or> own_len v = None\<close> show ?thesis by (auto simp: holds_def)
  next
    case (Cons y q)
    with assms(2,3) show ?thesis by (simp add: holds_def)
  qed
  moreover have "V (site @ x # p) = data_at w p" for p using assms(2,3) by (simp add: holds_def)
  ultimately show ?thesis using assms(1) by (simp add: holds_def meta_site_append)
qed

lemma vacant_child:
  assumes "data_site site" and "holds V site v" and "child_of v x = None" and "x \<noteq> LEN \<or> own_len v = None"
  shows "vacant V (site @ [x])"
proof -
  have "V (meta_site site @ x # p) = None" for p
    using assms(2-4) by (cases p) (auto simp: holds_def)
  then show ?thesis using assms(1-3) by (simp add: vacant_def holds_def meta_site_append)
qed

lemma vacant_below: "data_site site \<Longrightarrow> vacant V site \<Longrightarrow> vacant V (site @ p)"
  by (simp add: vacant_def meta_site_append)

text \<open>A child written into its place.\<close>

lemma place_child:
  assumes T: "data_site T" and r: "row_of w' = row_of w"
    and c: "\<And>y. child_of w' y = (if y = x then Some v else child_of w y)"
    and k: "k \<noteq> meta_key T LEN"
  shows "place (T @ [x]) v (place T w V) k = place T w' V k"
proof (cases k rule: region_cases [of _ T])
  case (1 p)
  show ?thesis
  proof (cases p)
    case Nil
    then have "k \<notin> region (T @ [x])" using 1 T by (auto simp: region_def prefix_def sites_apart)
    with 1 Nil T r show ?thesis by simp
  next
    case (Cons y q)
    show ?thesis
    proof (cases "y = x")
      case True
      then have "k = (T @ [x]) @ q" using 1 Cons by simp
      then show ?thesis using place_simps(1) [of "T @ [x]" v "place T w V" q] place_simps(1) [OF T, of w' V "x # q"] T c by simp
    next
      case False
      then have "k \<notin> region (T @ [x])" using 1 Cons T by (auto simp: region_def prefix_def sites_apart meta_site_append)
      then show ?thesis using 1 Cons T c False by simp
    qed
  qed
next
  case (2 p)
  have m: "meta_site (T @ [x]) = meta_site T @ [x]" using T by (simp add: meta_site_append)
  show ?thesis
  proof (cases p)
    case Nil
    then have "k \<notin> region (T @ [x])" using 2 T not_prefix_meta [of "T @ [x]" T "[]"] by (auto simp: region_def m)
    with 2 Nil T show ?thesis by simp
  next
    case (Cons y q)
    show ?thesis
    proof (cases "y = x")
      case True
      have "place (T @ [x]) v (place T w V) ((meta_site T @ [x]) @ q) = meta_at v q"
        unfolding m [symmetric] using T by simp
      moreover have "meta_at w' (x # q) = meta_at v q"
        using k 2 Cons True T c by (cases q) (auto simp: meta_site_eq)
      ultimately show ?thesis using T 2 Cons True by simp
    next
      case False
      then have "k \<notin> region (T @ [x])" using 2 Cons T by (auto simp: region_def m)
      moreover have "meta_at w' (y # q) = meta_at w (y # q)"
        using k 2 Cons False T c by (cases q) (auto simp: meta_site_eq)
      ultimately show ?thesis using 2 Cons T by simp
    qed
  qed
next
  case 3
  then have "k \<notin> region (T @ [x])" using region_child [OF T] by blast
  with 3 show ?thesis by simp
qed

lemma len_not_in_child: "data_site T \<Longrightarrow> x \<noteq> LEN \<Longrightarrow> meta_key T LEN \<notin> region (T @ [x])"
  using not_prefix_meta [of "T @ [x]" T "[LEN]"] by (auto simp: region_def meta_site_append meta_site_eq)

lemma place_child_all:
  assumes T: "data_site T" and r: "row_of w' = row_of w" and l: "own_len w' = own_len w" "x \<noteq> LEN \<or> own_len w = None"
    and c: "\<And>y. child_of w' y = (if y = x then Some v else child_of w y)"
  shows "place (T @ [x]) v (place T w V) = place T w' V"
proof
  fix k
  show "place (T @ [x]) v (place T w V) k = place T w' V k"
  proof (cases "k = meta_key T LEN")
    case False
    with place_child [where w = w, OF T r c] show ?thesis .
  next
    case True
    then have k: "k = meta_site T @ [LEN]" using T by (simp add: meta_site_eq)
    have "place T w' V k = own_len w" using T l by (simp add: k)
    moreover have "place (T @ [x]) v (place T w V) k = own_len w"
    proof (cases "x = LEN")
      case True
      then have "k = meta_site (T @ [x])" using k T by (simp add: meta_site_append)
      then show ?thesis using l(2) True T by simp
    next
      case False
      then have "k \<notin> region (T @ [x])" using len_not_in_child [OF T] True by simp
      then show ?thesis using T by (simp add: k)
    qed
    ultimately show ?thesis by simp
  qed
qed

lemma place_item:
  "data_site T \<Longrightarrow> item_at items x = None \<Longrightarrow>
     place (T @ [x]) v (place T (VMap items) V) = place T (VMap (items @ [(val_of x, v)])) V"
  by (rule place_child_all) (auto simp: item_at_append split: option.splits)

lemma child_of_update: "i < length xs \<Longrightarrow> child_of (VList (xs[i := v])) y = (if y = SInt (int i) then Some v else child_of (VList xs) y)"
  by (auto simp: child_of_list nth_list_update split: seg.splits)

lemma place_update:
  "data_site T \<Longrightarrow> i < length xs \<Longrightarrow>
     place (T @ [SInt (int i)]) v (place T (VList xs) V) = place T (VList (xs[i := v])) V"
  by (rule place_child_all) (auto simp: child_of_update LEN_def simp del: child_of.simps)

lemma child_of_snoc: "child_of (VList (xs @ [v])) y = (if y = SInt (int (length xs)) then Some v else child_of (VList xs) y)"
  by (auto simp: child_of_list nth_append split: seg.splits)

text \<open>The next element of a list, its stored length not yet written.\<close>

lemma place_next:
  assumes T: "data_site T"
  shows "place (T @ [SInt (int (length xs))]) v ((place T (VList xs) V)(meta_key T LEN := y)) =
    (place T (VList (xs @ [v])) V)(meta_key T LEN := y)"
proof -
  have "place (T @ [SInt (int (length xs))]) v (place T (VList xs) V) k = place T (VList (xs @ [v])) V k"
    if "k \<noteq> meta_key T LEN" for k
    using place_child [OF T _ child_of_snoc that] by simp
  moreover have "meta_key T LEN \<notin> region (T @ [SInt (int (length xs))])"
    using T by (rule len_not_in_child) (simp add: LEN_def)
  ultimately show ?thesis by (auto simp: place_upd)
qed

section \<open>What reading gives back\<close>

text \<open>The same value, its dicts in key order.\<close>

fun norm :: "pyval \<Rightarrow> pyval" and norm_items :: "(pyval \<times> pyval) list \<Rightarrow> (pyval \<times> pyval) list"
  and norm_seq :: "pyval list \<Rightarrow> pyval list" where
  "norm (VMap items) = VMap (sort_key (\<lambda>(k, _). the (seg_of k)) (norm_items items))"
| "norm (VList xs) = VList (norm_seq xs)"
| "norm VEmpty = VEmpty"
| "norm VNone = VNone"
| "norm (VInt i) = VInt i"
| "norm (VStr t) = VStr t"
| "norm (VOther n) = VOther n"
| "norm (VTuple xs) = VTuple xs"
| "norm (VSet xs) = VSet xs"
| "norm_items [] = []"
| "norm_items ((k, v) # items) = (k, norm v) # norm_items items"
| "norm_seq [] = []"
| "norm_seq (v # xs) = norm v # norm_seq xs"

lemma norm_items_map: "norm_items items = map (\<lambda>(k, v). (k, norm v)) items"
  by (induction items) auto

lemma norm_seq_map: "norm_seq xs = map norm xs"
  by (induction xs) auto

lemma norm_leaf: "is_leaf v \<Longrightarrow> norm v = v"
  by (cases v) auto

lemma finite_items [simp]: "finite {x. \<exists>v. item_at items x = Some v}"
proof (rule finite_subset)
  show "{x. \<exists>v. item_at items x = Some v} \<subseteq> (\<lambda>k. the (seg_of k)) ` fst ` set items"
    by (force simp: item_at_map_of dest: map_of_SomeD)
qed simp

lemma norm_map:
  assumes "storable okseg (VMap items)"
  shows "norm (VMap items) = VMap (map (\<lambda>x. (val_of x, norm (the (item_at items x))))
    (sorted_list_of_set {x. \<exists>v. item_at items x = Some v}))" (is "_ = VMap ?ys")
proof -
  let ?xs = "map (\<lambda>(k, v). (k, norm v)) items" and ?f = "\<lambda>(k :: pyval, v :: pyval). the (seg_of k)"
  have d: "distinct (map fst items)" and k: "\<And>k v. (k, v) \<in> set items \<Longrightarrow> \<exists>x. k = val_of x"
    using assms by (auto simp: storable_items_iff seg_of_eq)
  have item: "item_at items x = Some v \<longleftrightarrow> (val_of x, v) \<in> set items" for x v
    using d by (simp add: item_at_map_of)
  have "inj_on (\<lambda>k. the (seg_of k)) (fst ` set items)"
  proof (rule inj_onI)
    fix a b assume "a \<in> fst ` set items" "b \<in> fst ` set items" "the (seg_of a) = the (seg_of b)"
    then show "a = b" using k by (metis imageE option.sel prod.collapse seg_of_val)
  qed
  then have "distinct (map (\<lambda>k. the (seg_of k)) (map fst items))" using d by (subst distinct_map) simp
  moreover have "map (\<lambda>k. the (seg_of k)) (map fst items) = map ?f ?xs" by (simp add: case_prod_beta)
  ultimately have "distinct (map ?f ?xs)" by metis
  then have inj: "inj_on ?f (set ?xs)" and dx: "distinct ?xs" unfolding distinct_map by blast+
  have "val_of x = val_of y \<longleftrightarrow> x = y" for x y by (cases x; cases y) auto
  then have dy: "distinct ?ys" by (simp add: distinct_map inj_on_def)
  have s: "set ?ys = set ?xs"
  proof (intro equalityI subsetI)
    fix y assume "y \<in> set ?ys"
    then obtain x v where "item_at items x = Some v" "y = (val_of x, norm v)" by auto
    then show "y \<in> set ?xs" unfolding item by force
  next
    fix y assume "y \<in> set ?xs"
    then obtain q v where qv: "(q, v) \<in> set items" "y = (q, norm v)" by auto
    then obtain x where "q = val_of x" using k by blast
    then have "item_at items x = Some v" "y = (val_of x, norm v)" using qv item by simp_all
    then show "y \<in> set ?ys" unfolding set_map by (intro image_eqI [of _ _ x]) simp_all
  qed
  have "mset ?xs = mset ?ys" using set_eq_iff_mset_eq_distinct [OF dx dy] s by blast
  moreover have "sorted (map ?f ?ys)" by (simp add: o_def)
  ultimately have "sort_key ?f ?xs = ?ys" using inj by (intro sort_key_inj_key_eq)
  then show ?thesis by (simp add: norm_items_map)
qed

end
