(* ===== verification/View_Methods.thy ===== *)
theory View_Methods
  imports Views
begin

text \<open>
  Reading values out of views, and the public methods of the dict and list views
  (\<open>view/bases.py\<close>, \<open>_views/dict_view.py\<close>, \<open>_views/list_view.py\<close>).
\<close>

section \<open>Reading values\<close>

text \<open>\<open>_get_child_value\<close> with a node info, given \<open>extract\<close> for the view of a container child.\<close>

definition child_value_with ::
  "(view \<Rightarrow> 's \<Rightarrow> (pyval res \<times> 's) option) \<Rightarrow> registry \<Rightarrow> view \<Rightarrow> seg \<Rightarrow> node_info \<Rightarrow> 's \<Rightarrow> (pyval res \<times> 's) option" where
  "child_value_with extract_child rg V a info =
     (if \<not> ni_exists info \<or> ni_type info = NOT_FOUND then act_raise KeyError
      else if ni_type info = PRIMITIVE then
        (case ni_primitive info of
           None \<Rightarrow> act_raise KeyError
         | Some v \<Rightarrow> if v = VEmpty then act_raise KeyError else act_ret v)
      else
        (case ni_structure info of
           None \<Rightarrow> act_raise ValueError
         | Some structure \<Rightarrow>
             act_bind (act_read (\<lambda>_. get_view_for_structure rg structure)) (\<lambda>c.
               extract_child (View c (view_site V @ [a]) (Some V)))))"

definition get_child_value_with ::
  "(view \<Rightarrow> 's \<Rightarrow> (pyval res \<times> 's) option) \<Rightarrow> registry \<Rightarrow> ('e, 'g, 's) kv_ctx \<Rightarrow> view \<Rightarrow> seg \<Rightarrow> 's \<Rightarrow> (pyval res \<times> 's) option" where
  "get_child_value_with extract_child rg ctx V a =
     act_bind (act_read (get_node_info ctx (view_site V @ [a]) None)) (\<lambda>info.
       child_value_with extract_child rg V a info)"

definition list_getitem_with ::
  "(view \<Rightarrow> 's \<Rightarrow> (pyval res \<times> 's) option) \<Rightarrow> registry \<Rightarrow> ('e, 'g, 's) kv_ctx \<Rightarrow> view \<Rightarrow> int \<Rightarrow> 's \<Rightarrow> (pyval res \<times> 's) option" where
  "list_getitem_with extract_child rg ctx V address =
     act_bind (act_read (normalize_address ctx V address)) (\<lambda>normalized.
       act_reraise ContainerNotFoundError IndexError (get_child_value_with extract_child rg ctx V (SInt normalized)))"

text \<open>\<open>int(k)\<close> of a key.\<close>

fun int_of_seg :: "seg \<Rightarrow> int res" where
  "int_of_seg (SInt i) = Inr i"
| "int_of_seg (SStr t) = (case int_of_text t of None \<Rightarrow> Inl ValueError | Some i \<Rightarrow> Inr i)"

text \<open>The bodies of the loops of \<open>_iter_items\<close> and of the list view's \<open>__iter__\<close>.\<close>

definition dict_item_with ::
  "(view \<Rightarrow> 's \<Rightarrow> (pyval res \<times> 's) option) \<Rightarrow> registry \<Rightarrow> view \<Rightarrow> seg \<times> node_info \<Rightarrow> 's \<Rightarrow> ((seg \<times> pyval) list res \<times> 's) option" where
  "dict_item_with extract_child rg V row =
     (let (k, v) = row in
      if ni_type v = PRIMITIVE then act_ret [(k, case ni_primitive v of None \<Rightarrow> VEmpty | Some w \<Rightarrow> w)]
      else if ni_type v = CONTAINER then
        act_bind (child_value_with extract_child rg V k v) (\<lambda>w. act_ret [(k, w)])
      else act_ret [])"

definition list_item_with ::
  "(view \<Rightarrow> 's \<Rightarrow> (pyval res \<times> 's) option) \<Rightarrow> registry \<Rightarrow> ('e, 'g, 's) kv_ctx \<Rightarrow> view \<Rightarrow> seg \<times> node_info \<Rightarrow> 's \<Rightarrow> (pyval list res \<times> 's) option" where
  "list_item_with extract_child rg ctx V row =
     (let (k, v) = row in
      if ni_type v = PRIMITIVE then act_ret [case ni_primitive v of None \<Rightarrow> VEmpty | Some w \<Rightarrow> w]
      else if ni_type v = CONTAINER then
        act_bind (act_read (\<lambda>_. int_of_seg k)) (\<lambda>i.
          act_bind (list_getitem_with extract_child rg ctx V i) (\<lambda>w. act_ret [w]))
      else act_ret [])"

text \<open>A generator over the children of a view, in key order or its reverse, with its loop body.\<close>

definition iterate_children ::
  "('e, 'g, 's) kv_ctx \<Rightarrow> view \<Rightarrow> bool \<Rightarrow> (seg \<times> node_info \<Rightarrow> 's \<Rightarrow> ('y list res \<times> 's) option) \<Rightarrow> 's \<Rightarrow> ('y list res \<times> 's) option" where
  "iterate_children ctx V reverse body =
     act_bind (act_gen (iter_children ctx (view_site V) False reverse True)) (\<lambda>(rows, r).
       act_bind (act_for body rows) (\<lambda>ys. act_bind (act_read (\<lambda>_. r)) (\<lambda>_. act_ret ys)))"

lemma child_value_mono [partial_function_mono]:
  assumes "\<And>V s. mono_option (\<lambda>f. ex f V s)"
  shows "mono_option (\<lambda>f. child_value_with (ex f) rg V a info s)"
  unfolding child_value_with_def
  by (cases "\<not> ni_exists info \<or> ni_type info = NOT_FOUND"; cases "ni_type info = PRIMITIVE"; cases "ni_primitive info";
      cases "ni_structure info")
    (auto intro!: act_bind_mono assms option.const_mono)

lemma list_getitem_mono [partial_function_mono]:
  assumes "\<And>V s. mono_option (\<lambda>f. ex f V s)"
  shows "mono_option (\<lambda>f. list_getitem_with (ex f) rg ctx V a s)"
  unfolding list_getitem_with_def get_child_value_with_def
  by (intro act_bind_mono act_reraise_mono child_value_mono assms option.const_mono)

lemma item_with_mono [partial_function_mono]:
  assumes "\<And>V s. mono_option (\<lambda>f. ex f V s)"
  shows "mono_option (\<lambda>f. dict_item_with (ex f) rg V row s)"
    and "mono_option (\<lambda>f. list_item_with (ex f) rg ctx V row s)"
  unfolding dict_item_with_def list_item_with_def Let_def case_prod_beta
  by ((cases "ni_type (snd row)"; auto intro!: act_bind_mono list_getitem_mono child_value_mono assms option.const_mono)+)

lemma iterate_children_mono [partial_function_mono]:
  assumes "\<And>row s. mono_option (\<lambda>f. body f row s)"
  shows "mono_option (\<lambda>f. iterate_children ctx V reverse (body f) s)"
  unfolding iterate_children_def case_prod_beta
  by (intro act_bind_mono act_for_mono assms option.const_mono)

text \<open>\<open>extract\<close> of the two eager views: \<open>dict(self.items())\<close> and \<open>list(self)\<close>; the other classes have no model.\<close>

partial_function (option) view_extract ::
  "registry \<Rightarrow> ('e, 'g, 's) kv_ctx \<Rightarrow> view \<Rightarrow> 's \<Rightarrow> (pyval res \<times> 's) option" where
  "view_extract rg ctx V s =
     (case view_cls V of
        EagerDictView \<Rightarrow>
          act_bind (\<lambda>s. iterate_children ctx V False (dict_item_with (\<lambda>W s. view_extract rg ctx W s) rg V) s) (\<lambda>items.
            act_ret (VMap (map (\<lambda>(k, v). (val_of k, v)) items))) s
      | EagerListView \<Rightarrow>
          act_bind (\<lambda>s. iterate_children ctx V False (list_item_with (\<lambda>W s. view_extract rg ctx W s) rg ctx V) s) (\<lambda>xs.
            act_ret (VList xs)) s
      | _ \<Rightarrow> None)"

definition get_child_value ::
  "registry \<Rightarrow> ('e, 'g, 's) kv_ctx \<Rightarrow> view \<Rightarrow> seg \<Rightarrow> 's \<Rightarrow> (pyval res \<times> 's) option" where
  "get_child_value rg ctx V a = get_child_value_with (view_extract rg ctx) rg ctx V a"

text \<open>The lazy facets return the view of a container child.\<close>

datatype child = Child_View view | Child_Value pyval

definition child_view_or_value ::
  "registry \<Rightarrow> ('e, 'g, 's) kv_ctx \<Rightarrow> view \<Rightarrow> seg \<Rightarrow> 's \<Rightarrow> child res" where
  "child_view_or_value rg ctx V a s =
     rbind (get_node_info ctx (view_site V @ [a]) None s) (\<lambda>info.
       if \<not> ni_exists info \<or> ni_type info = NOT_FOUND then Inl KeyError
       else if ni_type info = PRIMITIVE then
         (case ni_primitive info of
            None \<Rightarrow> Inl KeyError
          | Some v \<Rightarrow> if v = VEmpty then Inl KeyError else Inr (Child_Value v))
       else
         (case ni_structure info of
            None \<Rightarrow> Inl ValueError
          | Some structure \<Rightarrow>
              rbind (get_view_for_structure rg structure) (\<lambda>c. Inr (Child_View (View c (view_site V @ [a]) (Some V))))))"

section \<open>The dict view\<close>

definition dict_getitem ::
  "registry \<Rightarrow> ('e, 'g, 's) kv_ctx \<Rightarrow> view \<Rightarrow> pyval \<Rightarrow> 's \<Rightarrow> (pyval res \<times> 's) option" where
  "dict_getitem rg ctx V address =
     (case seg_of address of
        None \<Rightarrow> act_raise KeyError
      | Some a \<Rightarrow> act_reraise ContainerNotFoundError KeyError (get_child_value rg ctx V a))"

definition dict_get ::
  "registry \<Rightarrow> ('e, 'g, 's) kv_ctx \<Rightarrow> view \<Rightarrow> pyval \<Rightarrow> pyval \<Rightarrow> 's \<Rightarrow> (pyval res \<times> 's) option" where
  "dict_get rg ctx V address fallback = act_catch is_key_error fallback (dict_getitem rg ctx V address)"

definition dict_contains :: "('e, 'g, 's) kv_ctx \<Rightarrow> view \<Rightarrow> pyval \<Rightarrow> 's \<Rightarrow> bool res" where
  "dict_contains ctx V address s =
     (case seg_of address of None \<Rightarrow> Inr False | Some a \<Rightarrow> exists_child ctx (view_site V) a True s)"

definition dict_keys :: "('e, 'g, 's) kv_ctx \<Rightarrow> view \<Rightarrow> 's \<Rightarrow> (seg list \<times> unit res \<times> 's) option" where
  "dict_keys ctx V = iter_child_keys ctx (view_site V) False False True"

definition dict_len :: "('e, 'g, 's) kv_ctx \<Rightarrow> view \<Rightarrow> 's \<Rightarrow> (int res \<times> 's) option" where
  "dict_len ctx V = count_children ctx (view_site V) False True"

definition dict_bool :: "('e, 'g, 's) kv_ctx \<Rightarrow> view \<Rightarrow> 's \<Rightarrow> (bool res \<times> 's) option" where
  "dict_bool ctx V = has_children ctx (view_site V) False True"

definition dict_items ::
  "registry \<Rightarrow> ('e, 'g, 's) kv_ctx \<Rightarrow> view \<Rightarrow> bool \<Rightarrow> 's \<Rightarrow> ((seg \<times> pyval) list res \<times> 's) option" where
  "dict_items rg ctx V reverse = iterate_children ctx V reverse (dict_item_with (view_extract rg ctx) rg V)"

definition dict_setitem ::
  "registry \<Rightarrow> ('e, 'g, 's) kv_ctx \<Rightarrow> view \<Rightarrow> pyval \<Rightarrow> pyval \<Rightarrow> 's \<Rightarrow> (unit res \<times> 's) option" where
  "dict_setitem rg ctx V address val = set_child_value rg ctx V address val"

definition dict_delitem :: "('e, 'g, 's) kv_ctx \<Rightarrow> view \<Rightarrow> pyval \<Rightarrow> 's \<Rightarrow> (unit res \<times> 's) option" where
  "dict_delitem ctx V address =
     (case seg_of address of
        None \<Rightarrow> act_ret ()
      | Some a \<Rightarrow> act_bind (act_read (node_exists ctx (view_site V))) (\<lambda>here.
          if \<not> here then act_ret () else delete_child ctx (view_site V) a))"

text \<open>Without a default (\<open>EMPTY\<close>), the \<open>KeyError\<close> is raised again.\<close>

definition dict_pop ::
  "registry \<Rightarrow> ('e, 'g, 's) kv_ctx \<Rightarrow> view \<Rightarrow> pyval \<Rightarrow> pyval \<Rightarrow> 's \<Rightarrow> (pyval res \<times> 's) option" where
  "dict_pop rg ctx V address fallback =
     act_catch (\<lambda>e. is_key_error e \<and> fallback \<noteq> VEmpty) fallback
       (act_bind (dict_getitem rg ctx V address) (\<lambda>val.
          act_bind (dict_delitem ctx V address) (\<lambda>_. act_ret val)))"

definition dict_update ::
  "registry \<Rightarrow> ('e, 'g, 's) kv_ctx \<Rightarrow> view \<Rightarrow> (pyval \<times> pyval) list \<Rightarrow> (pyval \<times> pyval) list \<Rightarrow> 's \<Rightarrow> (unit res \<times> 's) option" where
  "dict_update rg ctx V other kwargs =
     act_bind (act_read (\<lambda>_. reject_empty_in V (VMap other))) (\<lambda>_.
       act_bind (act_read (\<lambda>_. reject_empty_in V (VMap kwargs))) (\<lambda>_.
         act_bind (store_items rg ctx V other) (\<lambda>_. store_items rg ctx V kwargs)))"

definition dict_store ::
  "registry \<Rightarrow> ('e, 'g, 's) kv_ctx \<Rightarrow> view \<Rightarrow> (pyval \<times> pyval) list \<Rightarrow> bool \<Rightarrow> 's \<Rightarrow> (unit res \<times> 's) option" where
  "dict_store rg ctx V items replace = dict_store_with ctx V (VMap items) replace (store_items rg ctx V items)"

definition dict_rebuild :: "('e, 'g, 's) kv_ctx \<Rightarrow> view \<Rightarrow> 's \<Rightarrow> unit res \<times> 's" where
  "dict_rebuild ctx V = delete_metadata ctx (view_site V) LEN"

section \<open>The list view\<close>

definition list_getitem ::
  "registry \<Rightarrow> ('e, 'g, 's) kv_ctx \<Rightarrow> view \<Rightarrow> int \<Rightarrow> 's \<Rightarrow> (pyval res \<times> 's) option" where
  "list_getitem rg ctx V address = list_getitem_with (view_extract rg ctx) rg ctx V address"

definition list_iter ::
  "registry \<Rightarrow> ('e, 'g, 's) kv_ctx \<Rightarrow> view \<Rightarrow> 's \<Rightarrow> (pyval list res \<times> 's) option" where
  "list_iter rg ctx V = iterate_children ctx V False (list_item_with (view_extract rg ctx) rg ctx V)"

text \<open>\<open>slice.indices\<close> and \<open>range\<close>.\<close>

definition slice_indices :: "int option \<Rightarrow> int option \<Rightarrow> int option \<Rightarrow> int \<Rightarrow> (int \<times> int \<times> int) res" where
  "slice_indices start stop step n =
     (let step = (case step of None \<Rightarrow> 1 | Some i \<Rightarrow> i);
          lower = (if step < 0 then - 1 else 0); upper = (if step < 0 then n - 1 else n);
          clamp = (\<lambda>i. if i < 0 then max (i + n) lower else min i upper)
      in if step = 0 then Inl ValueError
         else Inr (case start of None \<Rightarrow> if step < 0 then upper else lower | Some i \<Rightarrow> clamp i,
                   case stop of None \<Rightarrow> if step < 0 then lower else upper | Some i \<Rightarrow> clamp i, step))"

definition py_range :: "int \<Rightarrow> int \<Rightarrow> int \<Rightarrow> int list" where
  "py_range start stop step =
     (let n = (if step > 0 then (if start < stop then (stop - start - 1) div step + 1 else 0)
               else if stop < start then (start - stop - 1) div (- step) + 1 else 0)
      in map (\<lambda>k. start + step * int k) [0..<nat n])"

definition list_getslice ::
  "registry \<Rightarrow> ('e, 'g, 's) kv_ctx \<Rightarrow> view \<Rightarrow> int option \<Rightarrow> int option \<Rightarrow> int option \<Rightarrow> 's \<Rightarrow> (pyval list res \<times> 's) option" where
  "list_getslice rg ctx V start stop step =
     act_bind (act_read (list_len ctx V)) (\<lambda>n.
       act_bind (act_read (\<lambda>_. slice_indices start stop step n)) (\<lambda>(start, stop, step).
         act_for (\<lambda>i. act_bind (list_getitem rg ctx V i) (\<lambda>v. act_ret [v])) (py_range start stop step)))"

definition list_reversed ::
  "registry \<Rightarrow> ('e, 'g, 's) kv_ctx \<Rightarrow> view \<Rightarrow> 's \<Rightarrow> (pyval list res \<times> 's) option" where
  "list_reversed rg ctx V =
     act_bind (act_read (list_len ctx V)) (\<lambda>n.
       act_for (\<lambda>i. act_bind (list_getitem rg ctx V i) (\<lambda>v. act_ret [v])) (py_range (n - 1) (- 1) (- 1)))"

definition list_setitem ::
  "registry \<Rightarrow> ('e, 'g, 's) kv_ctx \<Rightarrow> view \<Rightarrow> int \<Rightarrow> pyval \<Rightarrow> 's \<Rightarrow> (unit res \<times> 's) option" where
  "list_setitem rg ctx V address val =
     act_bind (act_read (normalize_address ctx V address)) (\<lambda>normalized.
       set_child_value rg ctx V (VInt normalized) val)"

text \<open>\<open>for i in xs: ...\<close>, and the bodies of the two loops that shift the tail.\<close>

fun act_each :: "('x \<Rightarrow> 's \<Rightarrow> (unit res \<times> 's) option) \<Rightarrow> 'x list \<Rightarrow> 's \<Rightarrow> (unit res \<times> 's) option" where
  "act_each f [] = act_ret ()"
| "act_each f (x # xs) = act_bind (f x) (\<lambda>_. act_each f xs)"

definition shift_item ::
  "('e, 'g, 's) kv_ctx \<Rightarrow> view \<Rightarrow> int \<Rightarrow> bool \<Rightarrow> int \<Rightarrow> 's \<Rightarrow> (unit res \<times> 's) option" where
  "shift_item ctx V by vacate i =
     act_bind (act_read (get_child_type ctx (view_site V) (SInt i))) (\<lambda>child_type.
       if child_type = PRIMITIVE then
         act_bind (act_read (get_child_primitive ctx (view_site V) (SInt i))) (\<lambda>val.
           act_bind (act_write (put_child_primitive ctx (view_site V) (SInt (i + by)) (case val of None \<Rightarrow> VEmpty | Some v \<Rightarrow> v) True True)) (\<lambda>_.
             if vacate then delete_child ctx (view_site V) (SInt i) else act_ret ()))
       else if child_type = CONTAINER then move_child_subtree ctx (view_site V) (SInt i) (SInt (i + by))
       else act_ret ())"

definition list_delitem ::
  "('e, 'g, 's) kv_ctx \<Rightarrow> view \<Rightarrow> int \<Rightarrow> 's \<Rightarrow> (unit res \<times> 's) option" where
  "list_delitem ctx V address =
     act_bind (act_read (normalize_address ctx V address)) (\<lambda>normalized.
       act_bind (ensure_created ctx V) (\<lambda>_.
         act_bind (act_read (stored_len ctx V)) (\<lambda>length.
           act_bind (delete_child ctx (view_site V) (SInt normalized)) (\<lambda>_.
             act_bind (act_each (\<lambda>i. shift_item ctx V (- 1) True i) [normalized + 1..length - 1]) (\<lambda>_.
               act_write (set_length ctx V (length - 1)))))))"

definition list_append ::
  "registry \<Rightarrow> ('e, 'g, 's) kv_ctx \<Rightarrow> view \<Rightarrow> pyval \<Rightarrow> 's \<Rightarrow> (unit res \<times> 's) option" where
  "list_append rg ctx V val =
     act_bind (act_read (stored_len ctx V)) (\<lambda>index.
       act_bind (set_child_value rg ctx V (VInt index) val) (\<lambda>_.
         act_write (set_length ctx V (index + 1))))"

definition list_insert ::
  "registry \<Rightarrow> ('e, 'g, 's) kv_ctx \<Rightarrow> view \<Rightarrow> int \<Rightarrow> pyval \<Rightarrow> 's \<Rightarrow> (unit res \<times> 's) option" where
  "list_insert rg ctx V address val =
     act_bind (act_read (\<lambda>_. reject_empty V (VInt address) val)) (\<lambda>_.
       act_bind (ensure_created ctx V) (\<lambda>_.
         act_bind (act_read (stored_len ctx V)) (\<lambda>length.
           let address = (if address < 0 then max 0 (length + address) else min address length) in
           act_bind (act_each (\<lambda>i. shift_item ctx V 1 (i = address) i) (rev [address..length - 1])) (\<lambda>_.
             act_bind (set_child_value rg ctx V (VInt address) val) (\<lambda>_.
               act_write (set_length ctx V (length + 1)))))))"

definition list_extend ::
  "registry \<Rightarrow> ('e, 'g, 's) kv_ctx \<Rightarrow> view \<Rightarrow> pyval list \<Rightarrow> 's \<Rightarrow> (unit res \<times> 's) option" where
  "list_extend rg ctx V values =
     act_bind (act_read (\<lambda>_. reject_empty_in V (VList values))) (\<lambda>_.
       act_each (list_append rg ctx V) values)"

definition list_pop ::
  "registry \<Rightarrow> ('e, 'g, 's) kv_ctx \<Rightarrow> view \<Rightarrow> int \<Rightarrow> 's \<Rightarrow> (pyval res \<times> 's) option" where
  "list_pop rg ctx V address =
     act_bind (act_read (stored_len ctx V)) (\<lambda>length.
       if length = 0 then act_raise IndexError
       else act_bind (list_getitem rg ctx V address) (\<lambda>val.
         act_bind (list_delitem ctx V address) (\<lambda>_. act_ret val)))"

definition list_store ::
  "registry \<Rightarrow> ('e, 'g, 's) kv_ctx \<Rightarrow> view \<Rightarrow> pyval list \<Rightarrow> bool \<Rightarrow> 's \<Rightarrow> (unit res \<times> 's) option" where
  "list_store rg ctx V xs replace = list_store_with ctx V (VList xs) replace (store_seq rg ctx V xs)"

end
