(* ===== verification/View_Read.thy ===== *)
theory View_Read
  imports View_Values View_Methods
begin

text \<open>
  Reading through views over any context that keeps the reading contract: a stored value is extracted
  as it was stored, its dicts in key order.
\<close>

section \<open>The registry of the default classes\<close>

lemma std_registry_unfold: "std_registry =
    \<lparr>structure_to_view = [VInt 6 \<mapsto> ByteArrayView, VInt 1 \<mapsto> EagerDictView, VInt 5 \<mapsto> FrozenSetView, VInt 2 \<mapsto> EagerListView,
       VInt 4 \<mapsto> SetView, VInt 3 \<mapsto> TupleView],
     type_to_registration =
       [(T_bytearray, \<lparr>vr_class = ByteArrayView, vr_structure = VInt 6, vr_type = Some T_bytearray\<rparr>),
        (T_dict, \<lparr>vr_class = EagerDictView, vr_structure = VInt 1, vr_type = Some T_dict\<rparr>),
        (T_frozenset, \<lparr>vr_class = FrozenSetView, vr_structure = VInt 5, vr_type = Some T_frozenset\<rparr>),
        (T_list, \<lparr>vr_class = EagerListView, vr_structure = VInt 2, vr_type = Some T_list\<rparr>),
        (T_set, \<lparr>vr_class = SetView, vr_structure = VInt 4, vr_type = Some T_set\<rparr>),
        (T_tuple, \<lparr>vr_class = TupleView, vr_structure = VInt 3, vr_type = Some T_tuple\<rparr>)],
     container_type_cache = Map.empty\<rparr>"
  by (simp add: std_registry_def default_views_def build_registry_def register_def new_registry_def view_types_def Let_def)

lemma modelled_classes [simp]: "modelled_class EagerDictView" "modelled_class EagerListView"
  by (simp_all add: modelled_class_def)

lemma std_registry_simps [simp]:
  "is_container_value std_registry (VMap items)" "is_container_value std_registry (VList xs)"
  "view_for_value std_registry (VMap items) = Inr EagerDictView"
  "view_for_value std_registry (VList xs) = Inr EagerListView"
  "get_view_for_structure std_registry (STRUCTURE c) = Inr c"
  by (simp_all add: is_container_value_def is_container_type_def std_registry_unfold view_for_value_def get_view_for_type_def)
    (cases c; simp add: get_view_for_structure_def)

lemma std_registry_leaf [simp]: "is_leaf v \<Longrightarrow> \<not> is_container_value std_registry v"
  by (cases v) (simp_all add: is_container_value_def is_container_type_def std_registry_unfold)

lemma PROTOCOL_simps [simp]: "0 \<le> PROTOCOL c" "PROTOCOL c \<noteq> 0" "PROTOCOL c AND PROTOCOL c \<noteq> 0"
  by (cases c; simp add: FLAG_MAPPING_def FLAG_MUTABLE_def FLAG_INDEXED_def FLAG_SIZED_def FLAG_SET_def)+

lemma extract_marker_of [simp]: "extract_marker (marker_of c) = Inr (Some (STRUCTURE c, PROTOCOL c))"
  by (simp add: marker_of_def)

lemma marker_of_ne [simp]: "marker_of c \<noteq> VEmpty"
  by (simp add: marker_of_def create_marker_def)

section \<open>Actions\<close>

lemma act_simps [simp]:
  "act_ret x s = Some (Inr x, s)" "act_raise e s = Some (Inl e, s)"
  "act_read f s = Some (f s, s)" "act_write g s = Some (g s)"
  by (simp_all add: act_ret_def act_raise_def act_read_def act_write_def)

lemmas act_unfold = act_bind_def act_reraise_def act_catch_def act_gen_def

lemma act_bind_Inr: "m s = Some (Inr x, s') \<Longrightarrow> act_bind m f s = f x s'"
  by (simp add: act_bind_def)

text \<open>A view whose container exists, with the marker of its class; the class of a stored dict or list.\<close>

definition live :: "(key \<rightharpoonup> pyval) \<Rightarrow> view \<Rightarrow> bool" where
  "live V W \<longleftrightarrow> data_site (view_site W) \<and> V (view_site W) = Some (marker_of (view_cls W))"

fun cls_of :: "pyval \<Rightarrow> view_class option" where
  "cls_of (VMap _) = Some EagerDictView"
| "cls_of (VList _) = Some EagerListView"
| "cls_of _ = None"

lemma row_of_cls: "cls_of v = Some c \<Longrightarrow> row_of v = marker_of c"
  by (cases v) auto

lemma row_cases:
  assumes "storable okseg v"
  obtains (leaf) "is_leaf v" "row_of v = v" "norm v = v" "extract_marker v = Inr None" "v \<noteq> VEmpty"
  | (cont) c where "cls_of v = Some c" "row_of v = marker_of c"
  using assms by (cases v) (auto simp: extract_marker_def)

lemma child_size: "child_of v x = Some w \<Longrightarrow> size w < size v"
proof (cases v)
  case (VMap items)
  assume "child_of v x = Some w"
  then have "(val_of x, w) \<in> set items" using VMap by (auto simp: item_at_map_of dest: map_of_SomeD)
  then have "size w < size_list (size_prod size size) items"
    by (induction items) auto
  then show ?thesis using VMap by simp
next
  case (VList xs)
  assume "child_of v x = Some w"
  then have "w \<in> set xs" using VList by (auto simp: child_of_list split: seg.splits if_splits)
  then show ?thesis using VList size_list_estimation' [of w xs "size w" size] by (simp add: less_Suc_eq_le)
qed auto

lemma list_keys:
  "sorted_list_of_set {x. \<exists>w. child_of (VList xs) x = Some w} = map (\<lambda>i. SInt (int i)) [0..<length xs]"
proof (rule sorted_less_unique)
  have "\<exists>i < length xs. x = SInt (int i)" if "child_of (VList xs) x = Some w" for x w
    using that by (cases x) (auto simp: nat_less_iff intro!: exI [of _ "nat i" for i] split: if_splits)
  then have "{x. \<exists>w. child_of (VList xs) x = Some w} = (\<lambda>i. SInt (int i)) ` {0..<length xs}"
    by fastforce
  then show "set (sorted_list_of_set {x. \<exists>w. child_of (VList xs) x = Some w}) = set (map (\<lambda>i. SInt (int i)) [0..<length xs])"
    by simp
qed (simp_all add: sorted_wrt_map)

section \<open>The contract\<close>

text \<open>A context that reads, and takes the key of the stored length.\<close>

locale view_reader = kv_reader +
  assumes okseg_len: "okseg LEN"

text \<open>The node info of a row.\<close>

definition row_info :: "key \<Rightarrow> pyval \<Rightarrow> node_info" where
  "row_info k v = (case extract_marker v of
     Inr (Some (t, p)) \<Rightarrow> \<lparr>ni_site = k, ni_exists = True, ni_type = CONTAINER, ni_raw = Some v,
       ni_structure = Some t, ni_protocol = Some p, ni_primitive = None\<rparr>
   | _ \<Rightarrow> \<lparr>ni_site = k, ni_exists = True, ni_type = PRIMITIVE, ni_raw = Some v,
       ni_structure = None, ni_protocol = None, ni_primitive = Some v\<rparr>)"

lemma row_info_of: "is_ok (extract_marker v) \<Longrightarrow> get_node_info ctx k (Some (Some v)) s = Inr (row_info k v)"
  by (auto simp: get_node_info_raw row_info_def is_ok_iff split: option.splits)

lemma yield_map_all: "(\<And>x. x \<in> set xs \<Longrightarrow> f x = Inr (h x)) \<Longrightarrow> yield_map f xs r = (map h xs, r)"
  by (induction xs) auto

lemma yield_map_map: "yield_map f (map g xs) r = yield_map (\<lambda>x. f (g x)) xs r"
  by (induction xs) (auto split: sum.split)

text \<open>A state with the same contents.\<close>

definition same :: "('s \<Rightarrow> bool) \<Rightarrow> ('s \<Rightarrow> nat) \<Rightarrow> ('s \<Rightarrow> key \<rightharpoonup> pyval) \<Rightarrow> 's \<Rightarrow> 's \<Rightarrow> bool" where
  "same ok weight vw s s' \<longleftrightarrow> ok s' \<and> weight s' = weight s \<and> vw s' = vw s"

lemma same_refl: "ok s \<Longrightarrow> same ok weight vw s s"
  and same_trans: "same ok weight vw s s' \<Longrightarrow> same ok weight vw s' s'' \<Longrightarrow> same ok weight vw s s''"
  by (auto simp: same_def)

lemma act_for_same:
  assumes "\<And>row t. row \<in> set rows \<Longrightarrow> same ok weight vw s t \<Longrightarrow>
      \<exists>t'. body row t = Some (Inr [h row], t') \<and> same ok weight vw t t'"
    and "ok s"
  shows "\<exists>s'. act_for body rows s = Some (Inr (map h rows), s') \<and> same ok weight vw s s'"
proof -
  have "\<exists>s'. act_for body rows t = Some (Inr (map h rows), s') \<and> same ok weight vw s s'"
    if "same ok weight vw s t" for t
    using assms(1) that
  proof (induction rows arbitrary: t)
    case Nil
    then show ?case by simp
  next
    case (Cons row rows)
    from Cons.prems(1) [of row t] Cons.prems(2) obtain t' where
      t': "body row t = Some (Inr [h row], t')" "same ok weight vw t t'" by auto
    from Cons.IH [OF Cons.prems(1) same_trans [OF Cons.prems(2) t'(2)]] t'(1) show ?case
      by (auto simp: act_bind_def)
  qed
  then show ?thesis using assms(2) by (simp add: same_def)
qed

context view_reader begin

lemma okk_len: "okk site \<Longrightarrow> okk (meta_key site LEN)"
  using okseg_meta okseg_len by (cases site) (auto simp: meta_key_def okk_iff)

lemma stored_len_ok:
  assumes "inv s" and "okk (view_site W)"
  shows "stored_len ctx W s = (case vw s (meta_key (view_site W) LEN) of None \<Rightarrow> Inr 0 | Some v \<Rightarrow> length_value v)"
  using assms okk_len [OF assms(2)]
  by (auto simp: stored_len_def get_metadata_def read_site_ok split: option.splits)

lemma iterate_rows:
  assumes s: "inv s" "weight s < pages" and k: "okk (view_site W)" and l: "vw s (view_site W) \<noteq> None"
    and m: "\<And>x v. vw s (view_site W @ [x]) = Some v \<Longrightarrow> is_ok (extract_marker v)"
    and body: "\<And>x v t. vw s (view_site W @ [x]) = Some v \<Longrightarrow> same inv weight vw s t \<Longrightarrow>
      \<exists>t'. body (x, row_info (view_site W @ [x]) v) t = Some (Inr [h x], t') \<and> same inv weight vw t t'"
  shows "\<exists>s'. iterate_children ctx W reverse body s = Some (Inr (map h (children (vw s) (view_site W) reverse)), s') \<and>
    same inv weight vw s s'"
proof -
  let ?T = "view_site W" and ?cs = "children (vw s) (view_site W) reverse"
  let ?rows = "map (\<lambda>x. (x, row_info (?T @ [x]) (the (vw s (?T @ [x]))))) ?cs"
  from strict_scan_rows [OF s k, of ITEMS None reverse] obtain s1 where
    s1: "strict_child_scan ctx ?T reverse ITEMS None s =
      Some (map (\<lambda>x. Out_Item (?T @ [x]) (the (vw s (?T @ [x])))) ?cs,
        if vw s ?T = None \<and> ?cs = [] then Inl ContainerNotFoundError else Inr (), s1)"
      "inv s1" "weight s1 = weight s" "vw s1 = vw s" by (auto simp: cut_def)
  have in_V: "\<exists>v. vw s (?T @ [x]) = Some v" if "x \<in> set ?cs" for x
    using that finite_children [OF s(1), of ?T] by (auto simp: children_def Let_def dom_def split: if_splits)
  have ci: "child_info ctx s1 (Out_Item (?T @ [x]) v) = Inr (x, row_info (?T @ [x]) v)"
    if "vw s (?T @ [x]) = Some v" for x v
    using that stored [OF s(1), of "?T @ [x]"] row_info_of [OF m [OF that], of ctx "?T @ [x]" s1]
    by (auto simp: child_info_def)
  have "yield_map (child_info ctx s1) (map (\<lambda>x. Out_Item (?T @ [x]) (the (vw s (?T @ [x])))) ?cs) r = (?rows, r)" for r
    unfolding yield_map_map using in_V ci by (intro yield_map_all) fastforce
  then have it: "iter_children ctx ?T False reverse True s = Some (?rows, Inr (), s1)"
    using s1(1) l by (simp add: iter_children_def validate_if_def attempt_gen_def)
  have "\<exists>s'. act_for body ?rows s1 = Some (Inr (map (h \<circ> fst) ?rows), s') \<and> same inv weight vw s1 s'"
  proof (rule act_for_same)
    fix row t assume r: "row \<in> set ?rows" and t: "same inv weight vw s1 t"
    then obtain x v where "row = (x, row_info (?T @ [x]) v)" "vw s (?T @ [x]) = Some v"
      using in_V by fastforce
    moreover have "same inv weight vw s t" using t s1 by (simp add: same_def)
    ultimately show "\<exists>t'. body row t = Some (Inr [(h \<circ> fst) row], t') \<and> same inv weight vw t t'"
      using body by simp
  qed (rule s1(2))
  then show ?thesis using it s1 by (auto simp: iterate_children_def act_unfold same_def o_def)
qed

lemma child_row:
  assumes "data_site T" and "holds (vw s) T v"
  shows "vw s (T @ [x]) = map_option row_of (child_of v x)"
  using assms by (auto simp: holds_def split: option.splits)

lemma list_length:
  assumes "inv s" and "okk (view_site W)" and "data_site (view_site W)" and "holds (vw s) (view_site W) (VList xs)"
  shows "stored_len ctx W s = Inr (int (length xs))"
  using assms stored_len_ok [OF assms(1,2)] by (simp add: meta_site_eq holds_def)

lemma children_of:
  assumes "data_site T" and "holds (vw s) T v"
  shows "children (vw s) T reverse =
    (let xs = sorted_list_of_set {x. \<exists>w. child_of v x = Some w} in if reverse then rev xs else xs)"
proof -
  have "{x. T @ [x] \<in> dom (vw s)} = {x. \<exists>w. child_of v x = Some w}"
    using child_row [OF assms] by (auto simp: dom_def)
  then show ?thesis by (simp add: children_def)
qed

text \<open>The value of a container child, given that its view extracts it.\<close>

lemma child_value_ok:
  assumes w: "storable okseg' w" and s: "inv s"
    and ex: "\<And>c. cls_of w = Some c \<Longrightarrow>
      \<exists>s'. extract_child (View c (view_site W @ [x]) (Some W)) s = Some (Inr (norm w), s') \<and> same inv weight vw s s'"
  shows "\<exists>s'. child_value_with extract_child std_registry W x (row_info (view_site W @ [x]) (row_of w)) s =
    Some (Inr (norm w), s') \<and> same inv weight vw s s'"
  using w
proof (cases rule: row_cases)
  case leaf
  then show ?thesis using s by (simp add: child_value_with_def row_info_def same_def)
next
  case (cont c)
  then show ?thesis using ex [OF cont(1)] by (simp add: child_value_with_def row_info_def act_bind_def)
qed

lemma storable_row_ok: "storable okseg' w \<Longrightarrow> is_ok (extract_marker (row_of w))"
  by (erule row_cases) auto

lemma getitem_ok:
  assumes s: "inv s" and k: "okk (view_site W)" "okseg (SInt i)" and T: "data_site (view_site W)"
    and h: "holds (vw s) (view_site W) (VList xs)" and i: "0 \<le> i" "i < int (length xs)" and w: "storable okseg' (xs ! nat i)"
    and ex: "\<And>c. cls_of (xs ! nat i) = Some c \<Longrightarrow>
      \<exists>s'. extract_child (View c (view_site W @ [SInt i]) (Some W)) s = Some (Inr (norm (xs ! nat i)), s') \<and> same inv weight vw s s'"
  shows "\<exists>s'. list_getitem_with extract_child std_registry ctx W i s = Some (Inr (norm (xs ! nat i)), s') \<and> same inv weight vw s s'"
proof -
  have n: "normalize_address ctx W i s = Inr i"
    using list_length [OF s k(1) T h] i by (simp add: normalize_address_def)
  have "vw s (view_site W @ [SInt i]) = Some (row_of (xs ! nat i))"
    using child_row [OF T h, of "SInt i"] i by simp
  then have "get_node_info ctx (view_site W @ [SInt i]) None s = Inr (row_info (view_site W @ [SInt i]) (row_of (xs ! nat i)))"
    using node_info_ok [OF s] k row_info_of [OF storable_row_ok [OF w]] by simp
  moreover have "\<exists>s'. child_value_with extract_child std_registry W (SInt i)
      (row_info (view_site W @ [SInt i]) (row_of (xs ! nat i))) s = Some (Inr (norm (xs ! nat i)), s') \<and> same inv weight vw s s'"
    by (rule child_value_ok [OF w s]) (rule ex)
  ultimately show ?thesis using n
    by (auto simp: list_getitem_with_def get_child_value_with_def act_unfold)
qed

lemma extract_ok:
  assumes "storable okseg v" and "cls_of v = Some (view_cls W)" and "inv s" and "weight s < pages"
    and "okk (view_site W)" and "data_site (view_site W)" and "holds (vw s) (view_site W) v"
  shows "\<exists>s'. view_extract std_registry ctx W s = Some (Inr (norm v), s') \<and> same inv weight vw s s'"
  using assms
proof (induction v arbitrary: W s rule: measure_induct_rule [of size])
  case (less v)
  let ?T = "view_site W"
  let ?h = "\<lambda>x. norm (the (child_of v x))"
  have row: "\<exists>w. child_of v x = Some w \<and> r = row_of w" if "vw s (?T @ [x]) = Some r" for x r
    using child_row [OF less.prems(6,7)] that by auto
  have here: "vw s ?T \<noteq> None" using less.prems(7) by (simp add: holds_def) (metis append_Nil2 data_at_simps(1) option.distinct(1))
  have ok: "is_ok (extract_marker r)" if "vw s (?T @ [x]) = Some r" for x r
    using row [OF that] storable_child [OF less.prems(1)] storable_row_ok by blast
  have ex: "\<exists>t'. view_extract std_registry ctx (View c (?T @ [x]) (Some W)) t = Some (Inr (norm w), t') \<and> same inv weight vw t t'"
    if "child_of v x = Some w" "cls_of w = Some c" "same inv weight vw s t" for x w c t
    using less.IH [of w "View c (?T @ [x]) (Some W)" t] that storable_child [OF less.prems(1) that(1)] child_size [OF that(1)]
      holds_child [OF less.prems(6,7) that(1)] less.prems(4,5,6) by (simp add: same_def)
  show ?case
  proof (cases "view_cls W")
    case EagerDictView
    with less.prems(2) obtain items where v: "v = VMap items" by (cases v) auto
    have body: "\<exists>t'. dict_item_with (view_extract std_registry ctx) std_registry W (x, row_info (?T @ [x]) r) t =
        Some (Inr [(x, ?h x)], t') \<and> same inv weight vw t t'"
      if r: "vw s (?T @ [x]) = Some r" and t: "same inv weight vw s t" for x r t
    proof -
      obtain w where w: "child_of v x = Some w" "r = row_of w" using row [OF r] by blast
      have sw: "storable okseg w" using storable_child [OF less.prems(1) w(1)] by simp
      have "inv t" using t by (simp add: same_def)
      have "\<exists>t'. child_value_with (view_extract std_registry ctx) std_registry W x (row_info (?T @ [x]) (row_of w)) t =
          Some (Inr (norm w), t') \<and> same inv weight vw t t'"
        by (rule child_value_ok [OF sw \<open>inv t\<close>]) (use ex [OF w(1) _ t] t in \<open>simp add: same_def\<close>)
      then obtain t' where
        "child_value_with (view_extract std_registry ctx) std_registry W x (row_info (?T @ [x]) (row_of w)) t = Some (Inr (norm w), t')"
        "same inv weight vw t t'" by blast
      with sw show ?thesis unfolding w(2)
        by (cases rule: row_cases) (auto simp: dict_item_with_def row_info_def w(1) act_bind_def t same_def intro: t [unfolded same_def, THEN conjunct1])
    qed
    have "\<exists>s'. iterate_children ctx W False (dict_item_with (view_extract std_registry ctx) std_registry W) s =
        Some (Inr (map (\<lambda>x. (x, ?h x)) (children (vw s) ?T False)), s') \<and> same inv weight vw s s'"
      by (rule iterate_rows [OF less.prems(3,4,5) here]) (fact ok body)+
    moreover have "norm v = VMap (map (\<lambda>x. (val_of x, ?h x)) (children (vw s) ?T False))"
      using norm_map [of okseg items] less.prems(1) children_of [OF less.prems(6,7), of False] by (simp add: v)
    ultimately show ?thesis using EagerDictView
      by (subst view_extract.simps) (auto simp: act_bind_def o_def)
  next
    case EagerListView
    with less.prems(2) obtain xs where v: "v = VList xs" by (cases v) auto
    have body: "\<exists>t'. list_item_with (view_extract std_registry ctx) std_registry ctx W (x, row_info (?T @ [x]) r) t =
        Some (Inr [?h x], t') \<and> same inv weight vw t t'"
      if r: "vw s (?T @ [x]) = Some r" and t: "same inv weight vw s t" for x r t
    proof -
      obtain w where w: "child_of v x = Some w" "r = row_of w" using row [OF r] by blast
      have sw: "storable okseg w" "okseg x" using storable_child [OF less.prems(1) w(1)] by simp_all
      obtain i where i: "x = SInt i" "0 \<le> i" "i < int (length xs)" "w = xs ! nat i"
        using w(1) by (auto simp: v child_of_list split: seg.splits if_splits)
      have "holds (vw t) ?T (VList xs)" "inv t" using t less.prems(7) v by (simp_all add: same_def)
      have "\<exists>t'. list_getitem_with (view_extract std_registry ctx) std_registry ctx W i t = Some (Inr (norm (xs ! nat i)), t') \<and>
          same inv weight vw t t'"
        by (rule getitem_ok [OF \<open>inv t\<close> less.prems(5) sw(2) [unfolded i(1)] less.prems(6) \<open>holds (vw t) ?T (VList xs)\<close> i(2,3)
              sw(1) [unfolded i(4)]]) (use ex [OF w(1) _ t] t i in \<open>simp add: same_def\<close>)
      then obtain t' where
        "list_getitem_with (view_extract std_registry ctx) std_registry ctx W i t = Some (Inr (norm w), t')"
        "same inv weight vw t t'" by (auto simp: i)
      with sw(1) show ?thesis unfolding w(2)
        by (cases rule: row_cases) (auto simp: list_item_with_def row_info_def w(1) [unfolded i(1)] act_bind_def i(1) same_def intro: t [unfolded same_def, THEN conjunct1])
    qed
    have "\<exists>s'. iterate_children ctx W False (list_item_with (view_extract std_registry ctx) std_registry ctx W) s =
        Some (Inr (map ?h (children (vw s) ?T False)), s') \<and> same inv weight vw s s'"
      by (rule iterate_rows [OF less.prems(3,4,5) here]) (fact ok body)+
    moreover have "norm v = VList (map ?h (children (vw s) ?T False))"
      using children_of [OF less.prems(6,7), of False]
      by (simp add: v list_keys norm_seq_map o_def) (rule nth_equalityI; simp)
    ultimately show ?thesis using EagerListView
      by (subst view_extract.simps) (auto simp: act_bind_def)
  qed (use less.prems(2) in \<open>cases v; simp\<close>)+
qed

text \<open>The value of any child, read from scratch.\<close>

lemma get_child_ok:
  assumes s: "inv s" "weight s < pages" and k: "okk (view_site W @ [x])" "data_site (view_site W @ [x])"
    and v: "storable okseg v" and h: "holds (vw s) (view_site W @ [x]) v"
  shows "\<exists>s'. get_child_value std_registry ctx W x s = Some (Inr (norm v), s') \<and> same inv weight vw s s'"
proof -
  let ?T = "view_site W @ [x]"
  have "vw s ?T = Some (row_of v)" using h unfolding holds_def by (metis append_Nil2 data_at_simps(1))
  then have i: "get_node_info ctx ?T None s = Inr (row_info ?T (row_of v))"
    using node_info_ok [OF s(1) k(1)] row_info_of [OF storable_row_ok [OF v]] by simp
  have "\<exists>s'. child_value_with (view_extract std_registry ctx) std_registry W x (row_info ?T (row_of v)) s =
      Some (Inr (norm v), s') \<and> same inv weight vw s s'"
  proof (rule child_value_ok [OF v s(1)])
    fix d assume "cls_of v = Some d"
    then show "\<exists>s'. view_extract std_registry ctx (View d ?T (Some W)) s = Some (Inr (norm v), s') \<and> same inv weight vw s s'"
      using extract_ok [OF v, of "View d ?T (Some W)" s] s k h by simp
  qed
  with i show ?thesis by (auto simp: get_child_value_def get_child_value_with_def act_unfold)
qed

end

end
