(* ===== verification/View_Store.thy ===== *)
theory View_Store
  imports View_Read
begin

text \<open>
  Writing through views over any context that keeps the contract: creating a view that is there
  does nothing, and a nested value written where nothing was puts exactly its rows there.
\<close>

declare ensure_created.simps [simp del] set_child_value.simps [simp del]

section \<open>The contract of a context views write to\<close>

locale view_context = kv_context + view_reader

context view_context begin

lemma create_live:
  assumes "inv s" and "okk site" and "data_site site" and "vw s site = Some (marker_of c)"
    and "info = None \<or> info = Some i \<and> get_node_info ctx site None s = Inr i"
  shows "container_create ctx site (STRUCTURE c) (PROTOCOL c) info s = (Inr (), s)"
  using assms
  by (auto simp: container_create_def data_site_def create_container_def node_at attempt_def validate_compatible_def)

lemma ensure_created_live:
  assumes "inv s" and "okk (view_site W)" and "live (vw s) W"
  shows "ensure_created ctx W s = Some (Inr (), s)"
proof (cases W)
  case (View c site p)
  with assms have l: "data_site site" "vw s site = Some (marker_of c)" "okk site" by (simp_all add: live_def)
  note C = create_live [OF assms(1) l(3,1,2)]
  show ?thesis
  proof (cases p)
    case None
    then show ?thesis using C [of None] by (simp add: View ensure_created.simps)
  next
    case (Some q)
    have "get_node_info ctx site None s = Inr \<lparr>ni_site = site, ni_exists = True, ni_type = CONTAINER, ni_raw = Some (marker_of c),
         ni_structure = Some (STRUCTURE c), ni_protocol = Some (PROTOCOL c), ni_primitive = None\<rparr>" (is "_ = Inr ?i")
      using assms(1) l by (simp add: node_at)
    with C [of "Some ?i" ?i] show ?thesis by (simp add: View Some make_child_def act_unfold ensure_created.simps)
  qed
qed

lemma ensure_child_new:
  assumes s: "inv s" and k: "okk (view_site W)" "okseg a" and l: "live (vw s) W"
    and n: "vw s (view_site W @ [a]) = None"
  shows "\<exists>s'. ensure_child_view ctx W (View c (view_site W @ [a]) (Some W)) s = Some (Inr True, s') \<and> inv s' \<and>
    vw s' = (vw s)(view_site W @ [a] \<mapsto> marker_of c)"
proof -
  let ?T = "view_site W @ [a]"
  have T: "okk ?T" "data_site ?T" using k l by (simp_all add: live_def)
  have i: "get_node_info ctx ?T None s = Inr \<lparr>ni_site = ?T, ni_exists = False, ni_type = NOT_FOUND, ni_raw = None,
       ni_structure = None, ni_protocol = None, ni_primitive = None\<rparr>" (is "_ = Inr ?i")
    using s T n by (simp add: node_at)
  have v: "validate_is_container ctx (view_site W) None s = Inr ()"
    using s k l by (simp add: validate_at live_def)
  from put [OF s T(1) marker_of_ne] obtain s' where
    p: "ctx_put ctx ?T (marker_of c) s = (Inr (), s')" "inv s'" "vw s' = (vw s)(?T \<mapsto> marker_of c)" by blast
  have "container_create ctx ?T (STRUCTURE c) (PROTOCOL c) (Some ?i) s = (Inr (), s')"
    using T(2) v p(1) by (simp add: container_create_def data_site_def create_container_def attempt_def marker_of_def [symmetric])
  with i p ensure_created_live [OF s k(1) l] show ?thesis
    by (simp add: ensure_child_view_def make_child_def act_unfold)
qed

lemma put_child_view:
  assumes s: "inv s" and k: "okk (view_site W)" "okseg a" and v: "find_empty v [] = None"
    and c: "vw s (view_site W @ [a]) = None \<or> (\<exists>w. vw s (view_site W @ [a]) = Some w \<and> extract_marker w = Inr None)"
  shows "\<exists>s'. view_put_child_primitive ctx W a v s = Some (Inr (), s') \<and> inv s' \<and>
    vw s' = (vw s)(view_site W @ [a] \<mapsto> v)"
proof -
  have T: "okk (view_site W @ [a])" using k by simp
  from put [OF s T find_empty_VEmpty [OF v]] c s T v show ?thesis
    by (auto simp: view_put_child_primitive_def put_child_primitive_def node_at attempt_def reject_empty_value_def
        validate_if_def act_unfold)
qed

lemma set_length_ok:
  assumes "inv s" and "okk (view_site W)" and "data_site (view_site W)"
  shows "\<exists>s'. set_length ctx W n s = (Inr (), s') \<and> inv s' \<and> vw s' = (vw s)(meta_key (view_site W) LEN \<mapsto> VInt n)"
  using put [OF assms(1) okk_len [OF assms(2)], of "VInt n"]
  by (auto simp: set_length_def put_metadata_def reject_empty_value_def attempt_def)

section \<open>Storing a nested value where nothing was\<close>

lemma reject_empty_ok: "storable okseg v \<Longrightarrow> reject_empty W (val_of a) v = Inr a"
  by (simp add: reject_empty_def reject_bad_key_def is_view_key_def reject_empty_value_def storable_no_empty(1))

lemma reject_empty_in_ok: "storable okseg v \<Longrightarrow> reject_empty_in W v = Inr ()"
  by (simp add: reject_empty_in_def reject_empty_value_def storable_no_empty(1))

text \<open>The child made, empty, for a dict or a list.\<close>

lemma empty_child [simp]: "child_of (VMap []) x = None" "child_of (VList []) x = None"
  by (cases x; simp)+

lemma start_dict: "data_site T \<Longrightarrow> vacant V T \<Longrightarrow> V(T \<mapsto> marker_of EagerDictView) = place T (VMap []) V"
  and start_list: "data_site T \<Longrightarrow> vacant V T \<Longrightarrow> V(T \<mapsto> marker_of EagerListView) = (place T (VList []) V)(meta_key T LEN := None)"
proof -
  assume T: "data_site T" "vacant V T"
  have m: "meta_at (VMap []) p = None" "meta_at (VList []) p = (if p = [LEN] then Some (VInt 0) else None)"
    "data_at (VMap []) p = (if p = [] then Some (marker_of EagerDictView) else None)"
    "data_at (VList []) p = (if p = [] then Some (marker_of EagerListView) else None)" for p
    by (cases p; cases "tl p"; simp)+
  have "(V(T \<mapsto> marker_of EagerDictView)) k = place T (VMap []) V k \<and>
      (V(T \<mapsto> marker_of EagerListView)) k = ((place T (VList []) V)(meta_key T LEN := None)) k" for k
  proof (cases k rule: region_cases [of _ T])
    case (1 p)
    then show ?thesis using T by (auto simp: m vacant_def meta_site_eq sites_apart)
  next
    case (2 p)
    then have "k \<noteq> T" using sites_apart(3) [OF T(1), of T p] by auto
    with 2 show ?thesis using T by (auto simp: m vacant_def meta_site_eq)
  next
    case 3
    then have "k \<noteq> T" "k \<noteq> meta_key T LEN" using in_region(1) [of T "[]"] in_region(2) [of T "[LEN]"] T(1) by (auto simp: meta_site_eq)
    with 3 show ?thesis by simp
  qed
  then show "V(T \<mapsto> marker_of EagerDictView) = place T (VMap []) V"
    and "V(T \<mapsto> marker_of EagerListView) = (place T (VList []) V)(meta_key T LEN := None)" by (auto simp: fun_eq_iff)
qed

lemma vacant_upd:
  assumes "k \<notin> region T"
  shows "vacant (V(k := y)) T = vacant V T"
proof -
  have "T @ p \<noteq> k" "meta_site T @ p \<noteq> k" for p using assms in_region by metis+
  then show ?thesis by (simp add: vacant_def)
qed

lemma vacant_here: "vacant V T \<Longrightarrow> V T = None"
  by (simp add: vacant_def) (metis append_Nil2)

lemma set_leaf:
  assumes s: "inv s" and k: "okk (view_site W)" "okseg a" and l: "live (vw s) W" and v: "is_leaf v"
    and c: "vw s (view_site W @ [a]) = None \<or> (\<exists>w. vw s (view_site W @ [a]) = Some w \<and> extract_marker w = Inr None)"
  shows "\<exists>s'. set_child_value std_registry ctx W (val_of a) v s = Some (Inr (), s') \<and> inv s' \<and>
    vw s' = (vw s)(view_site W @ [a] \<mapsto> v)"
proof -
  have e: "find_empty v [] = None" using storable_no_empty(1) [OF storable_leaf [OF v]] .
  from put_child_view [OF s k e c] reject_empty_ok [OF storable_leaf [OF v]] ensure_created_live [OF s k(1) l] v
  show ?thesis by (auto simp: set_child_value.simps act_bind_def)
qed

lemma set_leaf_vacant:
  assumes "is_leaf v" and "inv s" and "okk (view_site W)" and "okseg a" and "live (vw s) W" and "vacant (vw s) (view_site W @ [a])"
  shows "\<exists>s'. set_child_value std_registry ctx W (val_of a) v s = Some (Inr (), s') \<and> inv s' \<and>
    vw s' = place (view_site W @ [a]) v (vw s)"
proof -
  have "vw s (view_site W @ [a]) = None" using assms(6) by (rule vacant_here)
  moreover have "data_site (view_site W @ [a])" using assms(5) by (simp add: live_def)
  ultimately show ?thesis using set_leaf [OF assms(2-5,1)] place_leaf [OF _ assms(6,1)] by simp
qed

lemma store_fresh:
  shows "\<And>W s a. storable okseg v \<Longrightarrow> inv s \<Longrightarrow> okk (view_site W) \<Longrightarrow> okseg a \<Longrightarrow> live (vw s) W \<Longrightarrow>
      vacant (vw s) (view_site W @ [a]) \<Longrightarrow>
      \<exists>s'. set_child_value std_registry ctx W (val_of a) v s = Some (Inr (), s') \<and> inv s' \<and>
        vw s' = place (view_site W @ [a]) v (vw s)"
    and "\<And>W s V done. storable_items okseg items \<Longrightarrow> distinct (map fst (done @ items)) \<Longrightarrow> inv s \<Longrightarrow> okk (view_site W) \<Longrightarrow>
      data_site (view_site W) \<Longrightarrow> view_cls W = EagerDictView \<Longrightarrow> vw s = place (view_site W) (VMap done) V \<Longrightarrow>
      \<exists>s'. store_items std_registry ctx W items s = Some (Inr (), s') \<and> inv s' \<and>
        vw s' = place (view_site W) (VMap (done @ items)) V"
    and "\<And>W s V done y. storable_seq okseg xs \<Longrightarrow> \<forall>i < length (done @ xs). okseg (SInt (int i)) \<Longrightarrow> inv s \<Longrightarrow> okk (view_site W) \<Longrightarrow>
      data_site (view_site W) \<Longrightarrow> view_cls W = EagerListView \<Longrightarrow>
      vw s = (place (view_site W) (VList done) V)(meta_key (view_site W) LEN := y) \<Longrightarrow>
      \<exists>s'. store_seq std_registry ctx W xs (int (length done)) s = Some (Inr (int (length (done @ xs))), s') \<and> inv s' \<and>
        vw s' = (place (view_site W) (VList (done @ xs)) V)(meta_key (view_site W) LEN := y)"
proof (induction v and items and xs rule: norm_norm_items_norm_seq.induct)
  case (1 items)
  let ?T = "view_site W @ [a]" and ?C = "View EagerDictView (view_site W @ [a]) (Some W)"
  have T: "okk ?T" "data_site ?T" using 1 by (simp_all add: live_def)
  have n: "vw s ?T = None" using 1(7) by (rule vacant_here)
  from ensure_child_new [OF 1(3-6) n, of EagerDictView] obtain s1 where
    s1: "ensure_child_view ctx W ?C s = Some (Inr True, s1)" "inv s1" "vw s1 = (vw s)(?T \<mapsto> marker_of EagerDictView)" by blast
  have lC: "ensure_created ctx ?C s1 = Some (Inr (), s1)"
    using s1 T by (intro ensure_created_live) (simp_all add: live_def)
  from 1(1) [of "[]" s1 ?C "vw s"] obtain s2 where
    s2: "store_items std_registry ctx ?C items s1 = Some (Inr (), s2)" "inv s2" "vw s2 = place ?T (VMap items) (vw s)"
    using 1(2) s1(2,3) T start_dict [OF T(2) 1(7)] by auto
  show ?case
    using s1(1) s2 lC reject_empty_ok [OF 1(2)] reject_empty_in_ok [OF 1(2)] ensure_created_live [OF 1(3,4,6)]
    by (simp add: set_child_value.simps act_bind_def dict_store_with_def Let_def)
next
  case (2 xs)
  let ?T = "view_site W @ [a]" and ?C = "View EagerListView (view_site W @ [a]) (Some W)"
  have T: "okk ?T" "data_site ?T" using 2 by (simp_all add: live_def)
  have n: "vw s ?T = None" using 2(7) by (rule vacant_here)
  from ensure_child_new [OF 2(3-6) n, of EagerListView] obtain s1 where
    s1: "ensure_child_view ctx W ?C s = Some (Inr True, s1)" "inv s1" "vw s1 = (vw s)(?T \<mapsto> marker_of EagerListView)" by blast
  have lC: "ensure_created ctx ?C s1 = Some (Inr (), s1)"
    using s1 T by (intro ensure_created_live) (simp_all add: live_def)
  note start = start_list [OF T(2) 2(7)]
  have len: "stored_len ctx ?C s1 = Inr 0"
    using stored_len_ok [OF s1(2), of ?C] T s1(3) unfolding start by simp
  have "\<exists>s2. store_seq std_registry ctx ?C xs 0 s1 = Some (Inr (int (length xs)), s2) \<and> inv s2 \<and>
      vw s2 = (place ?T (VList xs) (vw s))(meta_key ?T LEN := None)"
    using 2(1) [of "[]" s1 ?C "vw s" None] 2(2) s1(2,3) T start by (simp add: fun_upd_def)
  then obtain s2 where
    s2: "store_seq std_registry ctx ?C xs 0 s1 = Some (Inr (int (length xs)), s2)" "inv s2"
      "vw s2 = (place ?T (VList xs) (vw s))(meta_key ?T LEN := None)" by blast
  from set_length_ok [OF s2(2), of ?C "int (length xs)"] T obtain s3 where
    s3: "set_length ctx ?C (int (length xs)) s2 = (Inr (), s3)" "inv s3" "vw s3 = (vw s2)(meta_key ?T LEN \<mapsto> VInt (int (length xs)))"
    by auto
  have "vw s3 = place ?T (VList xs) (vw s)"
    using s2(3) s3(3) T(2) by (auto simp: fun_eq_iff meta_site_eq)
  then show ?case
    using s1(1) s2(1) s3(1,2) lC len reject_empty_ok [OF 2(2)] reject_empty_in_ok [OF 2(2)] ensure_created_live [OF 2(3,4,6)]
    by (simp add: set_child_value.simps act_bind_def list_store_with_def Let_def)
next
  case (10 W s V "done")
  then show ?case by simp
next
  case (11 k v items)
  obtain x where x: "k = val_of x" "okseg x" and v: "storable okseg v" and it: "storable_items okseg items"
    using 11(3) by (auto simp: seg_of_eq)
  let ?T = "view_site W"
  have l: "live (vw s) W" using 11(7,8,9) by (simp add: live_def)
  have n: "item_at done x = None" using 11(4) x(1) by (simp add: item_at_None)
  have "vacant (vw s) (?T @ [x])"
    using vacant_child [OF 11(7) holds_place [OF 11(7)], of "VMap done" x V] n 11(9) by simp
  from 11(1) [OF v 11(5,6) x(2) l this] obtain s1 where
    s1: "set_child_value std_registry ctx W k v s = Some (Inr (), s1)" "inv s1" "vw s1 = place (?T @ [x]) v (vw s)"
    by (auto simp: x(1))
  then have "vw s1 = place ?T (VMap (done @ [(k, v)])) V"
    using place_item [OF 11(7) n] 11(9) x(1) by simp
  with 11(2) [OF it _ s1(2) 11(6-8), of "done @ [(k, v)]" V] 11(4) s1(1) show ?case
    by (simp add: act_bind_def)
next
  case (12 W s V "done" y)
  then show ?case by simp
next
  case (13 v xs)
  let ?T = "view_site W" and ?L = "meta_key (view_site W) LEN" and ?a = "SInt (int (length done))"
  have k: "okseg ?a" using 13(4) by simp
  have nL: "?L \<notin> region (?T @ [?a])" using 13(7) by (rule len_not_in_child) (simp add: LEN_def)
  have l: "live (vw s) W" using 13(7,8,9) sites_apart(3) [OF 13(7)] by (simp add: live_def meta_site_eq)
  have "vacant (place ?T (VList done) V) (?T @ [?a])"
    using vacant_child [OF 13(7) holds_place [OF 13(7)], of "VList done" ?a V] by (simp add: LEN_def)
  then have "vacant (vw s) (?T @ [?a])" by (simp only: 13(9) vacant_upd [OF nL])
  from 13(1) [OF _ 13(5,6) k l this] 13(3) obtain s1 where
    s1: "set_child_value std_registry ctx W (VInt (int (length done))) v s = Some (Inr (), s1)" "inv s1"
      "vw s1 = place (?T @ [?a]) v (vw s)"
    by auto
  then have "vw s1 = (place ?T (VList (done @ [v])) V)(?L := y)"
    by (simp only: place_next [OF 13(7)] 13(9))
  with 13(2) [OF _ _ s1(2) 13(6-8), of "done @ [v]" V y] 13(3,4) s1(1) show ?case
    by (simp add: act_bind_def algebra_simps)
qed (simp_all add: set_leaf_vacant del: is_leaf.simps)

end

end
