(* ===== verification/View_Lists.thy ===== *)
theory View_Lists
  imports View_Store
begin

text \<open>
  The list view over any context that keeps the contract: its operations act on the stored value as
  the operations of Python's lists do, as long as no element that has to move is a container.
\<close>

section \<open>Rows of single elements\<close>

text \<open>Nothing but, possibly, a row of its own.\<close>

definition bare :: "(key \<rightharpoonup> pyval) \<Rightarrow> site \<Rightarrow> bool" where
  "bare V site \<longleftrightarrow> (\<forall>p. (p \<noteq> [] \<longrightarrow> V (site @ p) = None) \<and> V (meta_site site @ p) = None)"

lemma vacant_bare: "vacant V site \<Longrightarrow> bare V site"
  by (simp add: vacant_def bare_def)

lemma leaf_child [simp]: "is_leaf v \<Longrightarrow> child_of v x = None" "is_leaf v \<Longrightarrow> row_of v = v" "is_leaf v \<Longrightarrow> own_len v = None"
  by (cases v; simp)+

lemma leaf_meta [simp]: "is_leaf v \<Longrightarrow> meta_at v p = None"
  and leaf_data: "is_leaf v \<Longrightarrow> p \<noteq> [] \<Longrightarrow> data_at v p = None"
  by (cases p; cases "tl p"; simp)+

lemma holds_leaf_bare: "holds V site v \<Longrightarrow> is_leaf v \<Longrightarrow> bare V site"
  by (simp add: holds_def bare_def leaf_data)

lemma place_upd_in: "k \<in> region site \<Longrightarrow> place site v (V(k := y)) = place site v V"
  by (auto simp: fun_eq_iff place_def region_def)

lemma place_bare:
  assumes T: "data_site site" and b: "bare V site" and v: "is_leaf v"
  shows "place site v V = V(site \<mapsto> v)"
proof -
  have "vacant (V(site := None)) site"
    using b T sites_apart(2) [OF T, of _ _ "[]"] by (auto simp: bare_def vacant_def)
  then have "place site v (V(site := None)) = V(site \<mapsto> v)" using place_leaf [OF T _ v] by simp
  then show ?thesis using place_upd_in [of site site v V None] in_region(1) [of site "[]"] by simp
qed

section \<open>Lists of rows\<close>

lemma list_bare:
  "data_site T \<Longrightarrow> (i < length xs \<Longrightarrow> is_leaf (xs ! i)) \<Longrightarrow> bare (place T (VList xs) V) (T @ [SInt (int i)])"
proof (cases "i < length xs")
  case True
  assume T: "data_site T" "i < length xs \<Longrightarrow> is_leaf (xs ! i)"
  have "holds (place T (VList xs) V) (T @ [SInt (int i)]) (xs ! i)"
    using holds_child [OF T(1) holds_place [OF T(1)], of "VList xs" "SInt (int i)"] True by simp
  with T(2) [OF True] show ?thesis by (auto intro: holds_leaf_bare)
next
  case False
  assume T: "data_site T"
  have "vacant (place T (VList xs) V) (T @ [SInt (int i)])"
    using vacant_child [OF T holds_place [OF T], of "VList xs" "SInt (int i)" V] False by (simp add: LEN_def)
  then show ?thesis by (rule vacant_bare)
qed

lemma bare_upd:
  assumes "k \<notin> region T"
  shows "bare (V(k := y)) T = bare V T"
proof -
  have "T @ p \<noteq> k" "meta_site T @ p \<noteq> k" for p using assms in_region by metis+
  then show ?thesis by (simp add: bare_def)
qed

lemma list_set_row:
  assumes T: "data_site T" and i: "i < length xs" "is_leaf (xs ! i)" and v: "is_leaf v"
  shows "(place T (VList xs) V)(T @ [SInt (int i)] \<mapsto> v) = place T (VList (xs[i := v])) V"
  using place_update [OF T i(1), of v V] place_bare [OF _ list_bare [OF T i(2)] v] T by simp

lemma len_ne_item: "data_site T \<Longrightarrow> meta_key T LEN \<noteq> T @ p" "data_site T \<Longrightarrow> T @ p \<noteq> meta_key T LEN"
  using sites_apart(1) [of T p T "[LEN]"] by (auto simp: meta_site_eq)

lemma list_snoc_row:
  assumes T: "data_site T" and v: "is_leaf v"
  shows "(place T (VList xs) V)(T @ [SInt (int (length xs))] \<mapsto> v, meta_key T LEN := y) =
    (place T (VList (xs @ [v])) V)(meta_key T LEN := y)"
proof -
  let ?a = "T @ [SInt (int (length xs))]" and ?L = "meta_key T LEN"
  have n: "?L \<notin> region ?a" using T by (rule len_not_in_child) (simp add: LEN_def)
  have "place ?a v ((place T (VList xs) V)(?L := y)) = (place T (VList xs) V)(?L := y, ?a \<mapsto> v)"
    using list_bare [OF T, of "length xs" xs] T v by (intro place_bare) (simp_all add: bare_upd [OF n])
  then show ?thesis using place_next [OF T, of xs v V y] len_ne_item [OF T] by (simp add: fun_upd_twist)
qed

lemma list_len_row: "data_site T \<Longrightarrow> (place T (VList xs) V)(meta_key T LEN \<mapsto> VInt (int (length xs))) = place T (VList xs) V"
  by (auto simp: fun_eq_iff meta_site_eq)

lemma list_drop_row:
  assumes T: "data_site T" and v: "is_leaf v"
  shows "(place T (VList (xs @ [v])) V)(T @ [SInt (int (length xs))] := None, meta_key T LEN \<mapsto> VInt (int (length xs))) =
    place T (VList xs) V"
proof -
  let ?a = "T @ [SInt (int (length xs))]" and ?L = "meta_key T LEN" and ?n = "VInt (int (length xs))"
  have "(place T (VList (xs @ [v])) V)(?a := None, ?L \<mapsto> ?n) = (place T (VList (xs @ [v])) V)(?L \<mapsto> ?n, ?a := None)"
    using len_ne_item [OF T] by (simp add: fun_upd_twist)
  also have "\<dots> = (place T (VList xs) V)(?a \<mapsto> v, ?L \<mapsto> ?n, ?a := None)"
    by (simp only: list_snoc_row [OF T v])
  also have "\<dots> = (place T (VList xs) V)(?a := None, ?L \<mapsto> ?n)"
    using len_ne_item [OF T] by (simp add: fun_upd_twist)
  also have "(place T (VList xs) V)(?a := None) = place T (VList xs) V"
    using T by (auto simp: fun_eq_iff)
  finally show ?thesis by (simp only: list_len_row [OF T])
qed

section \<open>One element\<close>

text \<open>A list view whose container is there, the length row and single elements apart.\<close>

lemma is_containerI: "live V W \<Longrightarrow> is_container V (view_site W)"
  by (simp add: live_def is_container_def)

lemma live_place:
  assumes "data_site (view_site W)" and "view_cls W = EagerListView"
  shows "live (place (view_site W) (VList xs) V) W"
    and "live ((place (view_site W) (VList xs) V)(meta_key (view_site W) LEN := y)) W"
    and "live ((place (view_site W) (VList xs) V)(view_site W @ [x] := y)) W"
    and "live ((place (view_site W) (VList xs) V)(meta_key (view_site W) LEN := y, view_site W @ [x] := z)) W"
  using assms len_ne_item(2) [OF assms(1), of "[]"] by (simp_all add: live_def)

context view_context begin

lemma delete_leaf:
  assumes s: "inv s" and k: "okk T" "okseg a" and p: "is_container (vw s) T"
    and c: "vw s (T @ [a]) = Some w" "extract_marker w = Inr None"
  shows "\<exists>s'. delete_child ctx T a s = Some (Inr (), s') \<and> inv s' \<and> weight s' \<le> Suc (weight s) \<and> vw s' = (vw s)(T @ [a] := None)"
proof -
  have T: "okk (T @ [a])" using k by simp
  have "validate_is_container ctx T None s = Inr ()" using validate_is_container_ok [OF s k(1)] p by simp
  then show ?thesis using delete [OF s T] s T c
    by (auto simp: delete_child_def attempt_scan_def node_at)
qed

lemma shift_leaf:
  assumes s: "inv s" and k: "okk (view_site W)" "okseg (SInt j)" "okseg (SInt (j + by))" and l: "live (vw s) W"
    and j: "vw s (view_site W @ [SInt j]) = Some v" "is_leaf v" and b: "by \<noteq> 0"
    and t: "vw s (view_site W @ [SInt (j + by)]) = None \<or>
      (\<exists>w. vw s (view_site W @ [SInt (j + by)]) = Some w \<and> extract_marker w = Inr None)"
  shows "\<exists>s'. shift_item ctx W by vacate j s = Some (Inr (), s') \<and> inv s' \<and>
    vw s' = (let V = (vw s)(view_site W @ [SInt (j + by)] \<mapsto> v) in if vacate then V(view_site W @ [SInt j] := None) else V)"
proof -
  let ?T = "view_site W"
  have m: "extract_marker v = Inr None" "find_empty v [] = None"
    using j(2) storable_no_empty(1) [OF storable_leaf [OF j(2)]] by (cases v; simp add: extract_marker_def)+
  have T: "okk (?T @ [SInt j])" using k by simp
  have ty: "get_child_type ctx ?T (SInt j) s = Inr PRIMITIVE"
    using s T j m by (simp add: get_child_type_def node_type_ok is_marker_def)
  have g: "get_child_primitive ctx ?T (SInt j) s = Inr (Some v)"
    using get_child_at [OF s k(1,2)] j m by simp
  from put_child_ok [OF s k(1,3) is_containerI [OF l] t m(2)] obtain s1 where
    s1: "put_child_primitive ctx ?T (SInt (j + by)) v True True s = (Inr (), s1)" "inv s1"
      "vw s1 = (vw s)(?T @ [SInt (j + by)] \<mapsto> v)" by blast
  have p: "is_container (vw s1) ?T" using is_containerI [OF l] by (simp add: s1(3) is_container_def)
  have "vw s1 (?T @ [SInt j]) = Some v" using j(1) b by (simp add: s1(3))
  from delete_leaf [OF s1(2) k(1,2) p this m(1)] ty g s1 show ?thesis
    by (auto simp: shift_item_def act_bind_def Let_def)
qed

lemma append_ok:
  assumes s: "inv s" and k: "okk (view_site W)" "data_site (view_site W)" "okseg (SInt (int (length xs)))"
    and c: "view_cls W = EagerListView" and V: "vw s = place (view_site W) (VList xs) V" and v: "storable okseg v"
  shows "\<exists>s'. list_append std_registry ctx W v s = Some (Inr (), s') \<and> inv s' \<and>
    vw s' = place (view_site W) (VList (xs @ [v])) V"
proof -
  let ?T = "view_site W" and ?L = "meta_key (view_site W) LEN" and ?n = "int (length xs)"
  have l: "live (vw s) W" using live_place(1) [OF k(2) c] V by simp
  have h: "holds (vw s) ?T (VList xs)" using holds_place [OF k(2)] V by simp
  have "vacant (vw s) (?T @ [SInt ?n])"
    using vacant_child [OF k(2) h, of "SInt ?n"] by (simp add: LEN_def)
  from store_fresh(1) [OF v s k(1,3) l this] obtain s1 where
    s1: "set_child_value std_registry ctx W (VInt ?n) v s = Some (Inr (), s1)" "inv s1" "vw s1 = place (?T @ [SInt ?n]) v (vw s)"
    by auto
  from set_length_ok [OF s1(2) k(1,2), of "?n + 1"] obtain s2 where
    s2: "set_length ctx W (?n + 1) s1 = (Inr (), s2)" "inv s2" "vw s2 = (vw s1)(?L \<mapsto> VInt (?n + 1))" by blast
  have "vw s = (place ?T (VList xs) V)(?L \<mapsto> VInt ?n)" by (simp only: V list_len_row [OF k(2)])
  then have "vw s1 = (place ?T (VList (xs @ [v])) V)(?L \<mapsto> VInt ?n)" by (simp only: s1(3) place_next [OF k(2)])
  then have "vw s2 = place ?T (VList (xs @ [v])) V"
    using list_len_row [OF k(2), of "xs @ [v]" V] s2(3) by (simp add: add.commute)
  with s1(1) s2(1,2) list_length [OF s k(1,2) h] show ?thesis
    by (simp add: list_append_def act_bind_def)
qed

lemma setitem_ok:
  assumes s: "inv s" and k: "okk (view_site W)" "data_site (view_site W)" "okseg (SInt (int i))"
    and c: "view_cls W = EagerListView" and V: "vw s = place (view_site W) (VList xs) V"
    and i: "i < length xs" "is_leaf (xs ! i)" and v: "is_leaf v"
  shows "\<exists>s'. list_setitem std_registry ctx W (int i) v s = Some (Inr (), s') \<and> inv s' \<and>
    vw s' = place (view_site W) (VList (xs[i := v])) V"
proof -
  have l: "live (vw s) W" using live_place(1) [OF k(2) c] V by simp
  have h: "holds (vw s) (view_site W) (VList xs)" using holds_place [OF k(2)] V by simp
  have n: "normalize_address ctx W (int i) s = Inr (int i)"
    using list_length [OF s k(1,2) h] i by (simp add: normalize_address_def)
  have "extract_marker (xs ! i) = Inr None" using i(2) by (cases "xs ! i") (auto simp: extract_marker_def)
  then have "\<exists>w. vw s (view_site W @ [SInt (int i)]) = Some w \<and> extract_marker w = Inr None"
    using i V k(2) by simp
  with set_leaf [OF s k(1,3) l v] n list_set_row [OF k(2) i v, of V] V show ?thesis
    by (auto simp: list_setitem_def act_bind_def)
qed

end

section \<open>Deleting an element\<close>

text \<open>The elements, with those from \<open>i + 1\<close> up to \<open>j - 1\<close> moved down by one.\<close>

definition shifted :: "nat \<Rightarrow> nat \<Rightarrow> 'a list \<Rightarrow> 'a list" where
  "shifted i j xs = map (\<lambda>k. if i \<le> k \<and> Suc k < j then xs ! Suc k else xs ! k) [0..<length xs]"

lemma length_shifted [simp]: "length (shifted i j xs) = length xs"
  by (simp add: shifted_def)

lemma nth_shifted: "k < length xs \<Longrightarrow> shifted i j xs ! k = (if i \<le> k \<and> Suc k < j then xs ! Suc k else xs ! k)"
  by (simp add: shifted_def)

lemma shifted_start: "shifted i (Suc i) xs = xs"
  by (rule nth_equalityI) (auto simp: nth_shifted)

lemma shifted_step: "i < j \<Longrightarrow> j < length xs \<Longrightarrow> (shifted i j xs)[j - 1 := xs ! j] = shifted i (Suc j) xs"
  by (rule nth_equalityI) (auto simp: nth_shifted nth_list_update)

lemma shifted_end:
  assumes "i < length xs"
  shows "shifted i (length xs) xs = (take i xs @ drop (Suc i) xs) @ [last xs]"
proof (rule nth_equalityI)
  fix k assume "k < length (shifted i (length xs) xs)"
  then have k: "k < length xs" by simp
  have "xs ! k = last xs" if "\<not> Suc k < length xs"
    using that k last_conv_nth [of xs] by (cases "xs = []") (auto simp: less_Suc_eq_le dest: le_antisym intro!: arg_cong [of _ _ "(!) xs"])
  with k assms show "shifted i (length xs) xs ! k = ((take i xs @ drop (Suc i) xs) @ [last xs]) ! k"
    by (auto simp: nth_shifted nth_append min_def)
qed (use assms in simp)

context view_context begin

lemma shift_down_loop:
  assumes k: "okk (view_site W)" "data_site (view_site W)" "\<And>i. i < length xs \<Longrightarrow> okseg (SInt (int i))"
    and c: "view_cls W = EagerListView" and leaf: "\<And>k. i < k \<Longrightarrow> k < length xs \<Longrightarrow> is_leaf (xs ! k)"
    and j: "i < j" "j \<le> length xs" and s: "inv s"
    and V: "vw s = (place (view_site W) (VList (shifted i j xs)) V)(view_site W @ [SInt (int (j - 1))] := None)"
    and here: "is_leaf (xs ! i)"
  shows "\<exists>s'. act_each (\<lambda>q. shift_item ctx W (- 1) True q) [int j..int (length xs) - 1] s = Some (Inr (), s') \<and> inv s' \<and>
    vw s' = (place (view_site W) (VList (shifted i (length xs) xs)) V)(view_site W @ [SInt (int (length xs) - 1)] := None)"
  using j s V
proof (induction "length xs - j" arbitrary: j s)
  case 0
  then have "j = length xs" by simp
  then show ?case using 0 by (simp add: of_nat_diff)
next
  case (Suc d)
  let ?T = "view_site W"
  have j: "j < length xs" using Suc by simp
  have lj: "is_leaf (xs ! j)" using leaf Suc.prems(1) j by simp
  have jj: "int j + - 1 = int (j - 1)" using Suc.prems(1) by simp
  have at: "vw s (?T @ [SInt (int j)]) = Some (xs ! j)"
    using Suc.prems(1,4) j lj k(2) by (simp add: nth_shifted)
  have l: "live (vw s) W" using live_place(3) [OF k(2) c] Suc.prems(4) by simp
  have gone: "vw s (?T @ [SInt (int (j - 1))]) = None" by (simp add: Suc.prems(4))
  from shift_leaf [OF Suc.prems(3) k(1) k(3) [OF j], of "- 1" "xs ! j" True, unfolded jj, OF _ l at lj]
    k(3) [of "j - 1"] j gone obtain s1 where
    s1: "shift_item ctx W (- 1) True (int j) s = Some (Inr (), s1)" "inv s1"
      "vw s1 = (vw s)(?T @ [SInt (int (j - 1))] \<mapsto> xs ! j, ?T @ [SInt (int j)] := None)"
    by (auto simp: Let_def)
  have "is_leaf (shifted i j xs ! (j - 1))"
    using Suc.prems(1) j leaf [of "j - 1"] here by (cases "j - 1 = i") (auto simp: nth_shifted)
  then have "(place ?T (VList (shifted i j xs)) V)(?T @ [SInt (int (j - 1))] \<mapsto> xs ! j) = place ?T (VList (shifted i (Suc j) xs)) V"
    using list_set_row [OF k(2), of "j - 1" "shifted i j xs" "xs ! j" V] shifted_step [OF Suc.prems(1) j] j lj by simp
  then have V1: "vw s1 = (place ?T (VList (shifted i (Suc j) xs)) V)(?T @ [SInt (int (Suc j - 1))] := None)"
    using s1(3) Suc.prems(4) by simp
  have up: "[int j..int (length xs) - 1] = int j # [int (Suc j)..int (length xs) - 1]"
    using j by (simp add: upto_rec1 add.commute)
  have "d = length xs - Suc j" "i < Suc j" "Suc j \<le> length xs" using Suc.hyps(2) Suc.prems(1) j by simp_all
  from Suc.hyps(1) [OF this s1(2) V1] obtain s2 where
    "act_each (\<lambda>q. shift_item ctx W (- 1) True q) [int (Suc j)..int (length xs) - 1] s1 = Some (Inr (), s2)" "inv s2"
    "vw s2 = (place ?T (VList (shifted i (length xs) xs)) V)(?T @ [SInt (int (length xs) - 1)] := None)"
    by blast
  with s1(1) show ?case unfolding up by (simp add: act_bind_def)
qed

lemma delitem_ok:
  assumes s: "inv s" and k: "okk (view_site W)" "data_site (view_site W)" "\<And>i. i < length xs \<Longrightarrow> okseg (SInt (int i))"
    and c: "view_cls W = EagerListView" and V: "vw s = place (view_site W) (VList xs) V"
    and leaf: "\<And>k. i \<le> k \<Longrightarrow> k < length xs \<Longrightarrow> is_leaf (xs ! k)" and i: "i < length xs"
    and a: "address = int i \<or> address = int i - int (length xs)"
  shows "\<exists>s'. list_delitem ctx W address s = Some (Inr (), s') \<and> inv s' \<and>
    vw s' = place (view_site W) (VList (take i xs @ drop (Suc i) xs)) V"
proof -
  let ?T = "view_site W" and ?n = "int (length xs)" and ?ys = "take i xs @ drop (Suc i) xs"
  have l: "live (vw s) W" using live_place(1) [OF k(2) c] V by simp
  have h: "holds (vw s) ?T (VList xs)" using holds_place [OF k(2)] V by simp
  note len = list_length [OF s k(1,2) h]
  have n: "normalize_address ctx W address s = Inr (int i)" using len a i by (auto simp: normalize_address_def)
  have li: "is_leaf (xs ! i)" using leaf i by simp
  have m: "extract_marker (xs ! i) = Inr None" using li by (cases "xs ! i") (auto simp: extract_marker_def)
  have at: "vw s (?T @ [SInt (int i)]) = Some (xs ! i)" using i li V k(2) by simp
  from delete_leaf [OF s k(1) k(3) [OF i] is_containerI [OF l] at m] obtain s1 where
    s1: "delete_child ctx ?T (SInt (int i)) s = Some (Inr (), s1)" "inv s1" "vw s1 = (vw s)(?T @ [SInt (int i)] := None)" by blast
  from shift_down_loop [OF k(1-3) c leaf, of i "Suc i" s1 V] i s1(2,3) V li obtain s2 where
    s2: "act_each (\<lambda>q. shift_item ctx W (- 1) True q) [int (Suc i)..?n - 1] s1 = Some (Inr (), s2)" "inv s2"
      "vw s2 = (place ?T (VList (shifted i (length xs) xs)) V)(?T @ [SInt (?n - 1)] := None)"
    by (auto simp: shifted_start)
  from set_length_ok [OF s2(2) k(1,2), of "?n - 1"] obtain s3 where
    s3: "set_length ctx W (?n - 1) s2 = (Inr (), s3)" "inv s3" "vw s3 = (vw s2)(meta_key ?T LEN \<mapsto> VInt (?n - 1))" by blast
  have last: "is_leaf (last xs)" using leaf [of "length xs - 1"] i last_conv_nth [of xs] by (cases "xs = []") auto
  have "int (length ?ys) = ?n - 1" using i by simp
  then have "vw s3 = place ?T (VList ?ys) V"
    using list_drop_row [OF k(2) last, of ?ys V] s3(3) s2(3) unfolding shifted_end [OF i] by metis
  then show ?thesis
    using n ensure_created_live [OF s k(1) l] len s1(1) s2(1) s3(1,2) by (simp add: list_delitem_def act_bind_def add.commute)
qed

end

section \<open>Inserting an element\<close>

text \<open>The elements, with those from \<open>j\<close> on moved up by one and a copy of the \<open>j\<close>-th left behind.\<close>

definition raised :: "nat \<Rightarrow> 'a list \<Rightarrow> 'a list" where
  "raised j xs = take (Suc j) xs @ drop j xs"

lemma raised_start: "raised (length xs) xs = xs"
  by (simp add: raised_def)

lemma length_raised: "j < length xs \<Longrightarrow> length (raised j xs) = Suc (length xs)"
  by (simp add: raised_def)

lemma raised_first: "xs \<noteq> [] \<Longrightarrow> raised (length xs - 1) xs = xs @ [last xs]"
  by (cases xs rule: rev_cases) (simp_all add: raised_def)

lemma raised_step: "j < length xs \<Longrightarrow> 0 < j \<Longrightarrow> (raised j xs)[j := xs ! (j - 1)] = raised (j - 1) xs"
  by (rule nth_equalityI) (auto simp: raised_def nth_append nth_list_update min_def Suc_diff_Suc not_less le_Suc_eq
      intro!: arg_cong [of _ _ "(!) xs"])

lemma raised_nth: "j < length xs \<Longrightarrow> k \<le> j \<Longrightarrow> raised j xs ! k = xs ! k"
  by (simp add: raised_def nth_append)

lemma raised_set: "a \<le> length xs \<Longrightarrow> (raised a xs)[a := v] = (if a < length xs then take a xs @ v # drop a xs else xs)"
  by (rule nth_equalityI) (auto simp: raised_def nth_append nth_list_update nth_Cons' min_def not_less le_Suc_eq)

context view_context begin

lemma shift_up_loop:
  assumes k: "okk (view_site W)" "data_site (view_site W)" "\<And>i. i \<le> length xs \<Longrightarrow> okseg (SInt (int i))"
    and c: "view_cls W = EagerListView" and leaf: "\<And>k. a \<le> k \<Longrightarrow> k < length xs \<Longrightarrow> is_leaf (xs ! k)"
    and j: "a < j" "j \<le> length xs" and s: "inv s"
    and V: "vw s = (place (view_site W) (VList (raised j xs)) V)(meta_key (view_site W) LEN := y)"
  shows "\<exists>s'. act_each (\<lambda>q. shift_item ctx W 1 (q = int a) q) (rev [int a..int j - 1]) s = Some (Inr (), s') \<and> inv s' \<and>
    vw s' = (place (view_site W) (VList (raised a xs)) V)(meta_key (view_site W) LEN := y, view_site W @ [SInt (int a)] := None)"
  using j s V
proof (induction "j - a" arbitrary: j s)
  case 0
  then show ?case by simp
next
  case (Suc d)
  let ?T = "view_site W" and ?L = "meta_key (view_site W) LEN"
  define i where "i = j - 1"
  have ij: "j = Suc i" "a \<le> i" "i < length xs" using Suc.prems(1,2) by (simp_all add: i_def)
  have li: "is_leaf (xs ! i)" using leaf ij by simp
  have l: "live (vw s) W" using live_place(2) [OF k(2) c] Suc.prems(4) by simp
  have ri: "raised j xs ! i = xs ! i" "i < length (raised j xs)"
    using ij by (auto simp: raised_def nth_append)
  have at: "vw s (?T @ [SInt (int i)]) = Some (xs ! i)"
    using ri li k(2) len_ne_item(2) [OF k(2)] by (simp add: Suc.prems(4))
  have above: "vw s (?T @ [SInt (int i + 1)]) = None \<or> (\<exists>w. vw s (?T @ [SInt (int i + 1)]) = Some w \<and> extract_marker w = Inr None)"
  proof (cases "j < length xs")
    case True
    have "is_leaf (xs ! j)" using leaf [of j] True ij by simp
    moreover have "extract_marker (xs ! j) = Inr None" using calculation by (cases "xs ! j") (auto simp: extract_marker_def)
    moreover have "SInt (int i + 1) = SInt (int j)" using ij by simp
    ultimately show ?thesis
      using raised_nth [OF True, of j] length_raised [OF True] True k(2) len_ne_item(2) [OF k(2)] by (simp add: Suc.prems(4))
  next
    case False
    then have "j = length xs" using Suc.prems(2) by simp
    moreover have "SInt (int i + 1) = SInt (int j)" using ij by simp
    ultimately show ?thesis using raised_start [of xs] k(2) len_ne_item(2) [OF k(2)] by (simp add: Suc.prems(4))
  qed
  from shift_leaf [OF Suc.prems(3) k(1) k(3) [of i] _ l at li _ above, of "i = a"] k(3) [of j] ij obtain s1 where
    s1: "shift_item ctx W 1 (i = a) (int i) s = Some (Inr (), s1)" "inv s1"
      "vw s1 = (let U = (vw s)(?T @ [SInt (int j)] \<mapsto> xs ! i) in if i = a then U(?T @ [SInt (int i)] := None) else U)"
    by (auto simp: add.commute)
  have tw: "f(?L := y, ?T @ [SInt (int j)] := z) = f(?T @ [SInt (int j)] := z, ?L := y)" for f z
    by (rule fun_upd_twist) (rule len_ne_item [OF k(2)])
  have U: "(vw s)(?T @ [SInt (int j)] \<mapsto> xs ! i) = (place ?T (VList (raised i xs)) V)(?L := y)"
  proof (cases "j < length xs")
    case True
    have "is_leaf (raised j xs ! j)" using leaf [of j] True ij raised_nth [OF True, of j] by simp
    then have "(place ?T (VList (raised j xs)) V)(?T @ [SInt (int j)] \<mapsto> xs ! i) = place ?T (VList (raised i xs)) V"
      using list_set_row [OF k(2), of j "raised j xs" "xs ! i" V] length_raised [OF True] raised_step [OF True] li True ij by simp
    then show ?thesis by (simp only: Suc.prems(4) tw)
  next
    case False
    then have e: "j = length xs" using Suc.prems(2) by simp
    moreover have "i = length xs - 1" using e ij by simp
    ultimately have "raised i xs = xs @ [xs ! i]" using raised_first [of xs] ij last_conv_nth [of xs] by (cases "xs = []") auto
    then show ?thesis using list_snoc_row [OF k(2) li, of xs V y] by (simp only: Suc.prems(4) tw) (simp only: e raised_start)
  qed
  have up: "rev [int a..int j - 1] = int i # rev [int a..int i - 1]" using ij by (simp add: upto_rec2)
  show ?case
  proof (cases "i = a")
    case True
    have "rev [int a..int i - 1] = []" using True by simp
    then show ?thesis using s1 True U unfolding up by (simp add: act_bind_def)
  next
    case False
    have "d = i - a" "a < i" "i \<le> length xs" "vw s1 = (place ?T (VList (raised i xs)) V)(?L := y)"
      using Suc.hyps(2) False ij s1(3) U by simp_all
    from Suc.hyps(1) [OF this(1-3) s1(2) this(4)] obtain s2 where
      "act_each (\<lambda>q. shift_item ctx W 1 (q = int a) q) (rev [int a..int i - 1]) s1 = Some (Inr (), s2)" "inv s2"
      "vw s2 = (place ?T (VList (raised a xs)) V)(?L := y, ?T @ [SInt (int a)] := None)" by blast
    with s1(1) show ?thesis unfolding up by (simp add: act_bind_def)
  qed
qed

lemma insert_ok:
  assumes s: "inv s" and k: "okk (view_site W)" "data_site (view_site W)" "\<And>i. i \<le> length xs \<Longrightarrow> okseg (SInt (int i))"
    and c: "view_cls W = EagerListView" and V: "vw s = place (view_site W) (VList xs) V" and v: "storable okseg v"
    and a: "int a = (if address < 0 then max 0 (int (length xs) + address) else min address (int (length xs)))"
    and leaf: "\<And>k. a \<le> k \<Longrightarrow> k < length xs \<Longrightarrow> is_leaf (xs ! k)"
  shows "\<exists>s'. list_insert std_registry ctx W address v s = Some (Inr (), s') \<and> inv s' \<and>
    vw s' = place (view_site W) (VList (take a xs @ v # drop a xs)) V"
proof -
  let ?T = "view_site W" and ?L = "meta_key (view_site W) LEN" and ?n = "int (length xs)" and ?a = "SInt (int a)"
  let ?zs = "take a xs @ v # drop a xs"
  have an: "a \<le> length xs" using a by (auto split: if_splits)
  have l: "live (vw s) W" using live_place(1) [OF k(2) c] V by simp
  have h: "holds (vw s) ?T (VList xs)" using holds_place [OF k(2)] V by simp
  have V0: "vw s = (place ?T (VList xs) V)(?L \<mapsto> VInt ?n)" by (simp only: V list_len_row [OF k(2)])
  have nL: "?L \<notin> region (?T @ [?a])" using k(2) by (rule len_not_in_child) (simp add: LEN_def)
  have "\<exists>s1. act_each (\<lambda>q. shift_item ctx W 1 (q = int a) q) (rev [int a..?n - 1]) s = Some (Inr (), s1) \<and> inv s1 \<and>
      live (vw s1) W \<and> vacant (vw s1) (?T @ [?a]) \<and> (place (?T @ [?a]) v (vw s1))(?L \<mapsto> VInt (?n + 1)) = place ?T (VList ?zs) V"
  proof (cases "a = length xs")
    case True
    have "vacant (vw s) (?T @ [?a])"
      using vacant_child [OF k(2) h, of ?a] True by (simp add: LEN_def)
    moreover have "place (?T @ [?a]) v (vw s) = (place ?T (VList (xs @ [v])) V)(?L \<mapsto> VInt ?n)"
      unfolding V0 True by (rule place_next [OF k(2)])
    ultimately show ?thesis using True s l list_len_row [OF k(2), of "xs @ [v]" V] by (simp add: add.commute)
  next
    case False
    then have lt: "a < length xs" using an by simp
    have "vw s = (place ?T (VList (raised (length xs) xs)) V)(?L \<mapsto> VInt ?n)" using V0 raised_start [of xs] by simp
    from shift_up_loop [OF k c leaf lt order_refl s this] obtain s1 where
      s1: "act_each (\<lambda>q. shift_item ctx W 1 (q = int a) q) (rev [int a..?n - 1]) s = Some (Inr (), s1)" "inv s1"
        "vw s1 = (place ?T (VList (raised a xs)) V)(?L \<mapsto> VInt ?n, ?T @ [?a] := None)" by blast
    let ?U = "place ?T (VList (raised a xs)) V"
    have "bare ?U (?T @ [?a])"
      using list_bare [OF k(2), of a "raised a xs" V] raised_nth [OF lt, of a] leaf [of a] lt by simp
    then have "bare (?U(?L \<mapsto> VInt ?n)) (?T @ [?a])" using bare_upd [OF nL] by simp
    then have vac: "vacant (vw s1) (?T @ [?a])"
      using s1(3) sites_apart(2) [of "?T @ [?a]" _ _ "[]"] k(2) by (auto simp: bare_def vacant_def)
    have "place (?T @ [?a]) v (vw s1) = (place (?T @ [?a]) v ?U)(?L \<mapsto> VInt ?n)"
      using s1(3) place_upd_in [of "?T @ [?a]" "?T @ [?a]"] in_region(1) [of "?T @ [?a]" "[]"] place_upd [OF nL] by simp
    also have "place (?T @ [?a]) v ?U = place ?T (VList ?zs) V"
      using place_update [OF k(2), of a "raised a xs" v V] raised_set [OF an] length_raised [OF lt] lt by simp
    finally have "(place (?T @ [?a]) v (vw s1))(?L \<mapsto> VInt (?n + 1)) = (place ?T (VList ?zs) V)(?L \<mapsto> VInt (?n + 1))"
      by (simp only: fun_upd_upd)
    moreover have "int (length ?zs) = ?n + 1" using an by simp
    ultimately have "(place (?T @ [?a]) v (vw s1))(?L \<mapsto> VInt (?n + 1)) = place ?T (VList ?zs) V"
      using list_len_row [OF k(2), of ?zs V] by (simp only:)
    then show ?thesis using s1(1,2) vac live_place(4) [OF k(2) c] s1(3) by auto
  qed
  then obtain s1 where
    s1: "act_each (\<lambda>q. shift_item ctx W 1 (q = int a) q) (rev [int a..?n - 1]) s = Some (Inr (), s1)" "inv s1"
      "live (vw s1) W" "vacant (vw s1) (?T @ [?a])" "(place (?T @ [?a]) v (vw s1))(?L \<mapsto> VInt (?n + 1)) = place ?T (VList ?zs) V" by blast
  from store_fresh(1) [OF v s1(2) k(1) k(3) [OF an] s1(3,4)] obtain s2 where
    s2: "set_child_value std_registry ctx W (VInt (int a)) v s1 = Some (Inr (), s2)" "inv s2" "vw s2 = place (?T @ [?a]) v (vw s1)"
    by auto
  from set_length_ok [OF s2(2) k(1,2), of "?n + 1"] obtain s3 where
    s3: "set_length ctx W (?n + 1) s2 = (Inr (), s3)" "inv s3" "vw s3 = (vw s2)(?L \<mapsto> VInt (?n + 1))" by blast
  have "reject_empty W (VInt address) v = Inr (SInt address)" using reject_empty_ok [OF v, of W "SInt address"] by simp
  with s1(1) s2(1) s3 s1(5) [folded s2(3)] ensure_created_live [OF s k(1) l] list_length [OF s k(1,2) h] show ?thesis
    by (simp add: list_insert_def act_bind_def Let_def a [symmetric])
qed

section \<open>Reading an element\<close>

lemma pop_ok:
  assumes s: "inv s" and k: "okk (view_site W)" "data_site (view_site W)" "\<And>i. i < length xs \<Longrightarrow> okseg (SInt (int i))"
    and c: "view_cls W = EagerListView" and V: "vw s = place (view_site W) (VList xs) V"
    and leaf: "\<And>k. i \<le> k \<Longrightarrow> k < length xs \<Longrightarrow> is_leaf (xs ! k)" and i: "i < length xs"
  shows "\<exists>s'. list_pop std_registry ctx W (int i) s = Some (Inr (xs ! i), s') \<and> inv s' \<and>
    vw s' = place (view_site W) (VList (take i xs @ drop (Suc i) xs)) V"
proof -
  have h: "holds (vw s) (view_site W) (VList xs)" using holds_place [OF k(2)] V by simp
  have li: "is_leaf (xs ! i)" using leaf i by simp
  have no: "cls_of (xs ! i) = None" using li by (cases "xs ! i") auto
  have "\<exists>s1. list_getitem_with (view_extract std_registry ctx) std_registry ctx W (int i) s =
      Some (Inr (norm (xs ! nat (int i))), s1) \<and> same inv weight vw s s1"
    by (rule getitem_ok [OF s k(1) k(3) [OF i] k(2) h]) (use i storable_leaf [OF li] no in simp_all)
  then obtain s1 where s1: "list_getitem std_registry ctx W (int i) s = Some (Inr (xs ! i), s1)" "inv s1" "vw s1 = vw s"
    by (auto simp: list_getitem_def same_def norm_leaf [OF li])
  have "vw s1 = place (view_site W) (VList xs) V" using s1(3) V by simp
  from delitem_ok [OF s1(2) k c this leaf i, of "int i"] obtain s2 where
    "list_delitem ctx W (int i) s1 = Some (Inr (), s2)" "inv s2"
    "vw s2 = place (view_site W) (VList (take i xs @ drop (Suc i) xs)) V" by auto
  with s1(1) list_length [OF s k(1,2) h] i show ?thesis by (auto simp: list_pop_def act_bind_def)
qed

section \<open>A container that has to move\<close>

lemma LEN_ne [simp]: "LEN \<noteq> SInt i" "SInt i \<noteq> LEN"
  by (simp_all add: LEN_def)

text \<open>
  Deleting in front of a nested list moves the rows of the nested list and leaves its stored length
  behind, at the old index.
\<close>

lemma delitem_moves:
  assumes s: "inv s" "Suc (weight s) < pages" and k: "okk (view_site W)" "data_site (view_site W)" "okseg (SInt 0)" "okseg (SInt 1)"
    and c: "view_cls W = EagerListView" and h: "holds (vw s) (view_site W) (VList [u, VList ys])" and u: "is_leaf u"
  shows "\<exists>s'. list_delitem ctx W 0 s = Some (Inr (), s') \<and> inv s' \<and>
    (\<forall>p. vw s' (view_site W @ SInt 0 # p) = data_at (VList ys) p) \<and>
    vw s' (meta_key (view_site W @ [SInt 0]) LEN) = None \<and>
    vw s' (meta_key (view_site W @ [SInt 1]) LEN) = Some (VInt (int (length ys)))"
proof -
  let ?T = "view_site W" and ?a = "view_site W @ [SInt 0]" and ?b = "view_site W @ [SInt 1]"
  have l: "live (vw s) W" using h k(2) c by (simp add: live_def holds_def) (metis append_Nil2 data_at_simps(1) row_of.simps(2))
  have m: "extract_marker u = Inr None" using u by (cases u) (auto simp: extract_marker_def)
  note len = list_length [OF s(1) k(1,2) h]
  have c0: "holds (vw s) ?a u" and c1: "holds (vw s) ?b (VList ys)"
    using holds_child [OF k(2) h, of "SInt 0"] holds_child [OF k(2) h, of "SInt 1"] by simp_all
  have at: "vw s ?a = Some u" using child_row [OF k(2) h, of "SInt 0"] u by simp
  from delete_leaf [OF s(1) k(1,3) is_containerI [OF l] at m] obtain s1 where
    s1: "delete_child ctx ?T (SInt 0) s = Some (Inr (), s1)" "inv s1" "weight s1 \<le> Suc (weight s)" "vw s1 = (vw s)(?a := None)" by blast
  have b1: "vw s1 (?T @ SInt 1 # p) = data_at (VList ys) p" for p
    using c1 by (simp add: s1(4) holds_def)
  have a1: "vw s1 q = None" if q: "prefix ?a q" for q
  proof -
    have "\<exists>p. q = ?T @ SInt 0 # p" using q by (auto simp: prefix_def)
    then obtain p where "q = ?T @ SInt 0 # p" by blast
    then show ?thesis using c0 leaf_data [OF u, of p] by (cases p) (auto simp: s1(4) holds_def)
  qed
  have w1: "weight s1 < pages" using s1(3) s(2) by simp
  have ty: "get_child_type ctx ?T (SInt 1) s1 = Inr CONTAINER"
    using s1(2) k b1 [of "[]"] by (simp add: get_child_type_def node_type_ok is_marker_def)
  have "okk ?b" using k by simp
  from move_child_ok [OF s1(2) w1 this k(3) _ a1] obtain s2 where
    s2: "move_child_subtree ctx ?T (SInt 1) (SInt 0) s1 = Some (Inr (), s2)" "inv s2" "vw s2 = move_subtree ?b ?a (vw s1)" by auto
  from set_length_ok [OF s2(2) k(1,2), of 1] obtain s3 where
    s3: "set_length ctx W 1 s2 = (Inr (), s3)" "inv s3" "vw s3 = (vw s2)(meta_key ?T LEN \<mapsto> VInt 1)" by blast
  have "list_delitem ctx W 0 s = Some (Inr (), s3)"
    using len ensure_created_live [OF s(1) k(1) l] s1(1) ty s2(1) s3(1)
    by (simp add: list_delitem_def act_bind_def normalize_address_def shift_item_def)
  moreover have "vw s3 (?T @ SInt 0 # p) = data_at (VList ys) p" for p
    using b1 len_ne_item [OF k(2)] by (simp add: s3(3) s2(3) move_subtree_def)
  moreover have "vw s3 (meta_key ?a LEN) = None" "vw s3 (meta_key ?b LEN) = Some (VInt (int (length ys)))"
  proof -
    have e: "meta_key ?a LEN = meta_site ?T @ [SInt 0, LEN]" "meta_key ?b LEN = meta_site ?T @ [SInt 1, LEN]"
      "meta_key ?T LEN = meta_site ?T @ [LEN]"
      using k(2) by (simp_all add: meta_site_eq meta_site_append)
    have "vw s (meta_site ?T @ [SInt 0, LEN]) = None" "vw s (meta_site ?T @ [SInt 1, LEN]) = Some (VInt (int (length ys)))"
      using h u by (simp_all add: holds_def)
    then show "vw s3 (meta_key ?a LEN) = None" "vw s3 (meta_key ?b LEN) = Some (VInt (int (length ys)))"
      using not_prefix_meta [of ?a ?T] not_prefix_meta [of ?b ?T] sites_apart [of ?a "[]" ?T] sites_apart(3) [OF k(2), of ?T] k(2)
      by (auto simp: s3(3) s2(3) move_subtree_def s1(4) e)
  qed
  ultimately show ?thesis using s3(2) by blast
qed

end

end
