(* ===== verification/View_Dicts.thy ===== *)
theory View_Dicts
  imports View_Lists
begin

text \<open>
  The dict view over any context that keeps the contract: its operations act on the stored value as
  the operations of Python's dicts do.
\<close>

section \<open>Items\<close>

text \<open>The items after an assignment to a key and after its removal.\<close>

fun set_item :: "pyval \<Rightarrow> pyval \<Rightarrow> (pyval \<times> pyval) list \<Rightarrow> (pyval \<times> pyval) list" where
  "set_item k v [] = [(k, v)]"
| "set_item k v ((l, w) # items) = (if l = k then (k, v) # items else (l, w) # set_item k v items)"

definition del_item :: "pyval \<Rightarrow> (pyval \<times> pyval) list \<Rightarrow> (pyval \<times> pyval) list" where
  "del_item k items = filter (\<lambda>(l, _). l \<noteq> k) items"

lemma val_of_eq [simp]: "val_of x = val_of y \<longleftrightarrow> x = y"
  by (cases x; cases y) auto

lemma item_at_set [simp]: "item_at (set_item (val_of x) v items) y = (if y = x then Some v else item_at items y)"
  by (induction items) (auto simp: seg_of_eq)

lemma item_at_del [simp]: "item_at (del_item (val_of x) items) y = (if y = x then None else item_at items y)"
  by (induction items) (auto simp: del_item_def seg_of_eq)

lemma place_set_item:
  "data_site T \<Longrightarrow> place (T @ [x]) v (place T (VMap items) V) = place T (VMap (set_item (val_of x) v items)) V"
  by (rule place_child_all) auto

lemma place_del_item:
  assumes T: "data_site T"
  shows "place T (VMap (del_item (val_of x) items)) V = (\<lambda>k. if k \<in> region (T @ [x]) then None else place T (VMap items) V k)"
proof
  fix k
  have m: "meta_site (T @ [x]) = meta_site T @ [x]" using T by (simp add: meta_site_append)
  show "place T (VMap (del_item (val_of x) items)) V k = (if k \<in> region (T @ [x]) then None else place T (VMap items) V k)"
  proof (cases k rule: region_cases [of _ T])
    case (1 p)
    then show ?thesis using T by (cases p) (auto simp: region_def prefix_def sites_apart)
  next
    case (2 p)
    then have "k \<in> region (T @ [x]) \<longleftrightarrow> (\<exists>q. p = x # q)"
      using T not_prefix_meta [of "T @ [x]" T p] by (auto simp: region_def m prefix_def)
    with 2 T show ?thesis by (cases p; cases "tl p") auto
  next
    case 3
    then show ?thesis using region_child [OF T, of "[x]"] T by auto
  qed
qed

section \<open>Operations\<close>

context view_context begin

lemma dict_live: "data_site (view_site W) \<Longrightarrow> view_cls W = EagerDictView \<Longrightarrow> holds (vw s) (view_site W) (VMap items) \<Longrightarrow> live (vw s) W"
  by (simp add: live_def holds_def) (metis append_Nil2 data_at_simps(1) row_of.simps(1))

lemma dict_set_ok:
  assumes s: "inv s" and k: "okk (view_site W)" "okseg x" "data_site (view_site W)" and c: "view_cls W = EagerDictView"
    and h: "holds (vw s) (view_site W) (VMap items)" and v: "storable okseg v"
    and old: "\<And>w. item_at items x = Some w \<Longrightarrow> is_leaf w \<and> is_leaf v"
  shows "\<exists>s'. dict_setitem std_registry ctx W (val_of x) v s = Some (Inr (), s') \<and> inv s' \<and>
    vw s' = place (view_site W) (VMap (set_item (val_of x) v items)) (vw s)"
proof -
  let ?T = "view_site W"
  note l = dict_live [OF k(3) c h]
  have P: "place (?T @ [x]) v (vw s) = place ?T (VMap (set_item (val_of x) v items)) (vw s)"
    using place_set_item [OF k(3), of x v items "vw s"] holds_imp_place [OF h] by simp
  show ?thesis
  proof (cases "item_at items x")
    case None
    have "vacant (vw s) (?T @ [x])" using vacant_child [OF k(3) h, of x] None by simp
    from store_fresh(1) [OF v s k(1,2) l this] P show ?thesis by (simp add: dict_setitem_def)
  next
    case (Some w)
    note lf = old [OF Some]
    have b: "bare (vw s) (?T @ [x])" using holds_leaf_bare [OF holds_child [OF k(3) h]] Some lf by simp
    have "extract_marker w = Inr None" using lf by (cases w) (auto simp: extract_marker_def)
    then have "\<exists>u. vw s (?T @ [x]) = Some u \<and> extract_marker u = Inr None"
      using child_row [OF k(3) h, of x] Some lf by simp
    with set_leaf [OF s k(1,2) l lf [THEN conjunct2]] place_bare [OF _ b lf [THEN conjunct2]] P k(3) show ?thesis
      by (auto simp: dict_setitem_def)
  qed
qed

text \<open>A value of the other kind is refused.\<close>

lemma dict_set_kind:
  assumes s: "inv s" and k: "okk (view_site W)" "okseg x" "data_site (view_site W)" and c: "view_cls W = EagerDictView"
    and h: "holds (vw s) (view_site W) (VMap items)" and v: "storable okseg v"
    and old: "item_at items x = Some w" "storable okseg w" "is_leaf w \<noteq> is_leaf v"
  shows "dict_setitem std_registry ctx W (val_of x) v s = Some (Inl ContainerTypeError, s)"
proof -
  let ?T = "view_site W"
  note l = dict_live [OF k(3) c h]
  have T: "okk (?T @ [x])" "data_site (?T @ [x])" using k by simp_all
  have r: "vw s (?T @ [x]) = Some (row_of w)" using child_row [OF k(3) h, of x] old by simp
  note E = ensure_created_live [OF s k(1) l] reject_empty_ok [OF v]
  show ?thesis
  proof (cases "is_leaf v")
    case True
    obtain d where "row_of w = marker_of d" using old(2,3) True by (auto elim: row_cases)
    with True r s T E show ?thesis
      by (simp add: dict_setitem_def set_child_value.simps act_bind_def view_put_child_primitive_def node_at)
  next
    case False
    have w: "row_of w = w" "extract_marker w = Inr None" using old(3) False by (cases w; simp add: extract_marker_def)+
    obtain d where d: "is_container_value std_registry v" "view_for_value std_registry v = Inr d" "modelled_class d"
      using v False by (cases v) (auto simp: extract_marker_def)
    have "ensure_child_view ctx W (View d (?T @ [x]) (Some W)) s = Some (Inl ContainerTypeError, s)"
      using r w s T by (simp add: ensure_child_view_def make_child_def act_bind_def node_at container_create_def
          create_container_def attempt_def data_site_def)
    with d E show ?thesis
      by (simp add: dict_setitem_def set_child_value.simps act_bind_def Let_def)
  qed
qed

lemma dict_del_ok:
  assumes s: "inv s" "weight s < pages" and k: "okk (view_site W)" "okseg x" "data_site (view_site W)" and c: "view_cls W = EagerDictView"
    and h: "holds (vw s) (view_site W) (VMap items)" and st: "storable okseg (VMap items)"
  shows "\<exists>s'. dict_delitem ctx W (val_of x) s = Some (Inr (), s') \<and> inv s' \<and>
    vw s' = place (view_site W) (VMap (del_item (val_of x) items)) (vw s)"
proof -
  let ?T = "view_site W"
  note l = dict_live [OF k(3) c h]
  have T: "okk (?T @ [x])" "data_site (?T @ [x])" using k by simp_all
  have P: "place ?T (VMap (del_item (val_of x) items)) (vw s) = (\<lambda>q. if q \<in> region (?T @ [x]) then None else vw s q)"
    unfolding place_del_item [OF k(3)] holds_imp_place [OF h] ..
  have here: "node_exists ctx ?T s = Inr True" using l node_exists_ok [OF s(1) k(1)] by (simp add: live_def)
  have v: "validate_is_container ctx ?T None s = Inr ()" using validate_is_container_ok [OF s(1) k(1)] is_containerI [OF l] by simp
  note row = child_row [OF k(3) h, of x]
  show ?thesis
  proof (cases "item_at items x")
    case None
    have "vacant (vw s) (?T @ [x])" using vacant_child [OF k(3) h, of x] None by simp
    then have "vw s q = None" if "q \<in> region (?T @ [x])" for q using that by (auto simp: region_def vacant_def prefix_def)
    then have "place ?T (VMap (del_item (val_of x) items)) (vw s) = vw s" by (auto simp: P)
    moreover have "dict_delitem ctx W (val_of x) s = Some (Inr (), s)"
      using here v row None s(1) T by (simp add: dict_delitem_def act_bind_def delete_child_def attempt_scan_def node_at)
    ultimately show ?thesis using s(1) by simp
  next
    case (Some w)
    have sw: "storable okseg w" using storable_child [OF st, of x w] Some by simp
    then show ?thesis
    proof (cases rule: row_cases)
      case leaf
      have b: "bare (vw s) (?T @ [x])" using holds_leaf_bare [OF holds_child [OF k(3) h]] Some leaf(1) by simp
      have "vw s (?T @ [x]) = Some w" using row Some leaf by simp
      from delete_leaf [OF s(1) k(1,2) is_containerI [OF l] this leaf(4)] obtain s1 where
        s1: "delete_child ctx ?T x s = Some (Inr (), s1)" "inv s1" "vw s1 = (vw s)(?T @ [x] := None)" by blast
      have "vw s q = None" if "q \<in> region (?T @ [x])" "q \<noteq> ?T @ [x]" for q
      proof (cases q rule: region_cases [of _ "?T @ [x]"])
        case (1 p)
        then show ?thesis using b that(2) unfolding bare_def by (metis append_Nil2)
      next
        case (2 p)
        then show ?thesis using b unfolding bare_def by simp
      qed (use that in simp)
      then have "vw s1 = place ?T (VMap (del_item (val_of x) items)) (vw s)"
        using in_region(1) [of "?T @ [x]" "[]"] by (auto simp: s1(3) P fun_eq_iff)
      with s1 here show ?thesis by (simp add: dict_delitem_def act_bind_def)
    next
      case (cont d)
      then have r: "vw s (?T @ [x]) = Some (marker_of d)" using row Some by simp
      from delete_descendants_ok [OF s T(1)] obtain s1 where
        s1: "delete_descendants ctx (?T @ [x]) s = Some (Inr (), s1)" "inv s1" "vw s1 = without (vw s) (?T @ [x])" by blast
      have "vw s1 = place ?T (VMap (del_item (val_of x) items)) (vw s)"
        using T(2) by (auto simp: s1(3) P without_def restrict_map_def region_def data_site_def meta_site_def fun_eq_iff)
      with s1 here v r s(1) T show ?thesis
        by (simp add: dict_delitem_def act_bind_def delete_child_def attempt_scan_def node_at)
    qed
  qed
qed

lemma dict_get_ok:
  assumes s: "inv s" "weight s < pages" and k: "okk (view_site W)" "okseg x" "data_site (view_site W)"
    and h: "holds (vw s) (view_site W) (VMap items)" and st: "storable okseg (VMap items)"
  shows "\<exists>s'. dict_getitem std_registry ctx W (val_of x) s =
      Some (case item_at items x of None \<Rightarrow> Inl KeyError | Some w \<Rightarrow> Inr (norm w), s') \<and> same inv weight vw s s'"
proof -
  let ?T = "view_site W"
  have T: "okk (?T @ [x])" using k by simp
  note row = child_row [OF k(3) h, of x]
  show ?thesis
  proof (cases "item_at items x")
    case None
    then show ?thesis using row s(1) T
      by (simp add: dict_getitem_def get_child_value_def get_child_value_with_def act_unfold node_at child_value_with_def same_def)
  next
    case (Some w)
    have sw: "storable okseg w" using storable_child [OF st, of x w] Some by simp
    from get_child_ok [OF s T _ sw] holds_child [OF k(3) h, of x w] k(3) Some show ?thesis
      by (auto simp: dict_getitem_def act_unfold)
  qed
qed

lemma dict_children:
  assumes "data_site (view_site W)" and "holds (vw s) (view_site W) (VMap items)"
  shows "children (vw s) (view_site W) False = sorted_list_of_set {x. \<exists>v. item_at items x = Some v}"
  using children_of [OF assms, of False] by simp

lemma dict_contains_ok:
  assumes s: "inv s" and k: "okk (view_site W)" "okseg x" "data_site (view_site W)" and c: "view_cls W = EagerDictView"
    and h: "holds (vw s) (view_site W) (VMap items)" and st: "storable okseg (VMap items)"
  shows "dict_contains ctx W (val_of x) s = Inr (item_at items x \<noteq> None)"
proof -
  let ?T = "view_site W"
  have T: "okk (?T @ [x])" using k by simp
  have here: "node_exists ctx ?T s = Inr True"
    using dict_live [OF k(3) c h] node_exists_ok [OF s k(1)] by (simp add: live_def)
  note row = child_row [OF k(3) h, of x]
  show ?thesis
  proof (cases "item_at items x")
    case None
    then show ?thesis using row here s T by (simp add: dict_contains_def exists_child_def node_type_ok)
  next
    case (Some w)
    then have "storable okseg w" using storable_child [OF st, of x w] by simp
    then show ?thesis using row Some s T
      by (cases rule: row_cases) (simp_all add: dict_contains_def exists_child_def node_type_ok is_marker_def)
  qed
qed

end

text \<open>As many keys as items.\<close>

lemma item_keys_length:
  assumes "storable okseg (VMap items)"
  shows "length (sorted_list_of_set {x. \<exists>v. item_at items x = Some v}) = length items"
proof -
  have d: "distinct (map fst items)" and k: "\<And>k v. (k, v) \<in> set items \<Longrightarrow> \<exists>x. k = val_of x"
    using assms by (auto simp: storable_items_iff seg_of_eq)
  have "val_of ` {x. \<exists>v. item_at items x = Some v} = set (map fst items)"
  proof (intro equalityI subsetI)
    fix k assume "k \<in> val_of ` {x. \<exists>v. item_at items x = Some v}"
    then show "k \<in> set (map fst items)" by (force simp: item_at_map_of dest: map_of_SomeD)
  next
    fix q assume q: "q \<in> set (map fst items)"
    then obtain v where "(q, v) \<in> set items" by auto
    moreover obtain x where "q = val_of x" using k calculation by blast
    ultimately have "item_at items x = Some v" using d by (simp add: item_at_map_of)
    then show "q \<in> val_of ` {x. \<exists>v. item_at items x = Some v}" using \<open>q = val_of x\<close> by blast
  qed
  moreover have "inj_on val_of A" for A by (simp add: inj_on_def)
  ultimately have "card {x. \<exists>v. item_at items x = Some v} = length items"
    using card_image [of val_of "{x. \<exists>v. item_at items x = Some v}"] distinct_card [OF d] by simp
  then show ?thesis by simp
qed

end
