(* ===== verification/View_Calls.thy ===== *)
theory View_Calls
  imports View_Dicts
begin

text \<open>
  Views used by a client: creating the missing ancestors of a view, and sequences of calls on a list
  view beside the same calls on a Python list.
\<close>

section \<open>Missing ancestors\<close>

text \<open>
  A view whose ancestors are each either there, with the marker of their class, or absent; the root
  of the data tree may be absent too. \<open>created\<close> is the map once the absent ones have been created.
\<close>

fun chain_ok :: "(key \<rightharpoonup> pyval) \<Rightarrow> view \<Rightarrow> bool" where
  "chain_ok V (View c site None) \<longleftrightarrow> data_site site \<and> (V site = Some (marker_of c) \<or> V site = None \<and> length site = 1)"
| "chain_ok V (View c site (Some p)) \<longleftrightarrow>
     chain_ok V p \<and> (\<exists>a. site = view_site p @ [a]) \<and> (V site = Some (marker_of c) \<or> V site = None)"

fun created :: "(key \<rightharpoonup> pyval) \<Rightarrow> view \<Rightarrow> key \<rightharpoonup> pyval" where
  "created V (View c site None) = (if V site = None then V(site \<mapsto> marker_of c) else V)"
| "created V (View c site (Some p)) = (if V site = None then (created V p)(site \<mapsto> marker_of c) else V)"

lemma chain_data_site: "chain_ok V W \<Longrightarrow> data_site (view_site W)"
  by (induction V W rule: chain_ok.induct) auto

lemma created_here: "chain_ok V W \<Longrightarrow> created V W (view_site W) = Some (marker_of (view_cls W))"
  by (cases "(V, W)" rule: chain_ok.cases) auto

lemma created_prefix: "chain_ok V W \<Longrightarrow> \<not> prefix k (view_site W) \<Longrightarrow> created V W k = V k"
proof (induction V W rule: chain_ok.induct)
  case (2 V c site p)
  then obtain a where "site = view_site p @ [a]" by auto
  then have "\<not> prefix k (view_site p)" using 2(3) by auto
  with 2 show ?case by auto
qed auto

lemma created_live: "live V W \<Longrightarrow> created V W = V"
  by (cases "(V, W)" rule: created.cases) (auto simp: live_def)

context view_context begin

lemma ensure_created_chain:
  assumes "inv s" and "okk (view_site W)" and "chain_ok (vw s) W"
  shows "\<exists>s'. ensure_created ctx W s = Some (Inr (), s') \<and> inv s' \<and> vw s' = created (vw s) W"
  using assms
proof (induction W arbitrary: s)
  case (View c site par)
  show ?case
  proof (cases par)
    case root: None
    show ?thesis
    proof (cases "vw s site")
      case (Some m)
      with View(4) root have "live (vw s) (View c site par)" by (simp add: live_def)
      with View(2,3) ensure_created_live created_live show ?thesis by metis
    next
      case None
      with View(4) root have "data_site site" "length site = 1" by auto
      with None View(2,3) root put [OF View(2), of site "marker_of c"] show ?thesis
        by (auto simp: ensure_created.simps container_create_def data_site_def create_container_def attempt_def node_at
            marker_of_def [symmetric])
    qed
  next
    case child: (Some p)
    from View(4) child obtain a where a: "site = view_site p @ [a]" and p: "chain_ok (vw s) p" by auto
    have T: "data_site site" using chain_data_site [OF View(4)] by simp
    show ?thesis
    proof (cases "vw s site")
      case (Some m)
      with View(4) child T have "live (vw s) (View c site par)" by (auto simp: live_def)
      with View(2,3) ensure_created_live created_live show ?thesis by metis
    next
      case None
      have kp: "okk (view_site p)" using okk_butlast [of site] View(3) a chain_data_site [OF p] by (auto simp: data_site_def)
      from View(1) [of p, OF _ View(2) kp p] child obtain s1 where
        s1: "ensure_created ctx p s = Some (Inr (), s1)" "inv s1" "vw s1 = created (vw s) p" by blast
      have "vw s1 (view_site p) = Some (marker_of (view_cls p))" using created_here [OF p] s1(3) by simp
      then have v: "validate_is_container ctx (view_site p) None s1 = Inr ()" using s1(2) kp by (simp add: validate_at)
      have k: "okk site" using View(3) by simp
      from put [OF s1(2) k marker_of_ne] obtain s2 where
        s2: "ctx_put ctx site (marker_of c) s1 = (Inr (), s2)" "inv s2" "vw s2 = (vw s1)(site \<mapsto> marker_of c)" by blast
      have "container_create ctx site (STRUCTURE c) (PROTOCOL c)
          (Some \<lparr>ni_site = site, ni_exists = False, ni_type = NOT_FOUND, ni_raw = None,
             ni_structure = None, ni_protocol = None, ni_primitive = None\<rparr>) s1 = (Inr (), s2)"
        using T v s2(1) a by (simp add: container_create_def data_site_def create_container_def attempt_def marker_of_def [symmetric])
      then show ?thesis using s1 s2 None View(2) k child
        by (simp add: ensure_created.simps make_child_def act_bind_def node_at fun_upd_def)
    qed
  qed
qed

lemma store_chain:
  assumes s: "inv s" and k: "okk (view_site W)" "okseg a" and c: "chain_ok (vw s) W" and v: "storable okseg v"
    and vac: "vacant (vw s) (view_site W @ [a])"
  shows "\<exists>s'. set_child_value std_registry ctx W (val_of a) v s = Some (Inr (), s') \<and> inv s' \<and>
    vw s' = place (view_site W @ [a]) v (created (vw s) W)"
proof -
  let ?T = "view_site W"
  from ensure_created_chain [OF s k(1) c] obtain s1 where
    s1: "ensure_created ctx W s = Some (Inr (), s1)" "inv s1" "vw s1 = created (vw s) W" by blast
  have T: "data_site ?T" using chain_data_site [OF c] .
  have l: "live (vw s1) W" using created_here [OF c] s1(3) T by (simp add: live_def)
  have "\<not> prefix (?T @ a # p) ?T" "\<not> prefix (meta_site ?T @ p) ?T" for p
    using T by (auto simp: prefix_def sites_apart)
  then have "vacant (vw s1) (?T @ [a])"
    using vac created_prefix [OF c] T by (auto simp: vacant_def s1(3) meta_site_append)
  from store_fresh(1) [OF v s1(2) k l this] obtain s2 where
    s2: "set_child_value std_registry ctx W (val_of a) v s1 = Some (Inr (), s2)" "inv s2" "vw s2 = place (?T @ [a]) v (vw s1)" by blast
  have "set_child_value std_registry ctx W (val_of a) v s = set_child_value std_registry ctx W (val_of a) v s1"
    using s1(1) ensure_created_live [OF s1(2) k(1) l] reject_empty_ok [OF v]
    by (simp add: set_child_value.simps act_bind_def)
  with s2 s1(3) show ?thesis by simp
qed

end

section \<open>Calls on a list view\<close>

datatype list_call =
    Append pyval
  | Insert int pyval
  | Set_Item int pyval
  | Get_Item int
  | Del_Item int
  | Pop int
  | Extend "pyval list"

definition no_value :: "('s \<Rightarrow> (unit res \<times> 's) option) \<Rightarrow> 's \<Rightarrow> (pyval res \<times> 's) option" where
  "no_value m = act_bind m (\<lambda>_. act_ret VNone)"

fun list_step :: "registry \<Rightarrow> ('e, 'g, 's) kv_ctx \<Rightarrow> view \<Rightarrow> list_call \<Rightarrow> 's \<Rightarrow> (pyval res \<times> 's) option" where
  "list_step rg ctx V (Append v) = no_value (list_append rg ctx V v)"
| "list_step rg ctx V (Insert i v) = no_value (list_insert rg ctx V i v)"
| "list_step rg ctx V (Set_Item i v) = no_value (list_setitem rg ctx V i v)"
| "list_step rg ctx V (Get_Item i) = list_getitem rg ctx V i"
| "list_step rg ctx V (Del_Item i) = no_value (list_delitem ctx V i)"
| "list_step rg ctx V (Pop i) = list_pop rg ctx V i"
| "list_step rg ctx V (Extend vs) = no_value (list_extend rg ctx V vs)"

fun list_run :: "registry \<Rightarrow> ('e, 'g, 's) kv_ctx \<Rightarrow> view \<Rightarrow> list_call list \<Rightarrow> 's \<Rightarrow> (pyval res list \<times> 's) option" where
  "list_run rg ctx V [] s = Some ([], s)"
| "list_run rg ctx V (c # cs) s =
     Option.bind (list_step rg ctx V c s) (\<lambda>(r, s). Option.bind (list_run rg ctx V cs s) (\<lambda>(rs, s). Some (r # rs, s)))"

text \<open>The same calls on a Python list: an index counts from the end when it is negative.\<close>

definition py_index :: "int \<Rightarrow> pyval list \<Rightarrow> nat option" where
  "py_index i xs = (let j = (if i < 0 then int (length xs) + i else i) in
     if 0 \<le> j \<and> j < int (length xs) then Some (nat j) else None)"

fun py_list_step :: "list_call \<Rightarrow> pyval list \<Rightarrow> pyval res \<times> pyval list" where
  "py_list_step (Append v) xs = (Inr VNone, xs @ [v])"
| "py_list_step (Insert i v) xs =
     (let a = nat (if i < 0 then max 0 (int (length xs) + i) else min i (int (length xs)))
      in (Inr VNone, take a xs @ v # drop a xs))"
| "py_list_step (Set_Item i v) xs = (case py_index i xs of None \<Rightarrow> (Inl IndexError, xs) | Some j \<Rightarrow> (Inr VNone, xs[j := v]))"
| "py_list_step (Get_Item i) xs = (case py_index i xs of None \<Rightarrow> (Inl IndexError, xs) | Some j \<Rightarrow> (Inr (xs ! j), xs))"
| "py_list_step (Del_Item i) xs =
     (case py_index i xs of None \<Rightarrow> (Inl IndexError, xs) | Some j \<Rightarrow> (Inr VNone, take j xs @ drop (Suc j) xs))"
| "py_list_step (Pop i) xs =
     (case py_index i xs of None \<Rightarrow> (Inl IndexError, xs) | Some j \<Rightarrow> (Inr (xs ! j), take j xs @ drop (Suc j) xs))"
| "py_list_step (Extend vs) xs = (Inr VNone, xs @ vs)"

fun py_list_run :: "list_call list \<Rightarrow> pyval list \<Rightarrow> pyval res list \<times> pyval list" where
  "py_list_run [] xs = ([], xs)"
| "py_list_run (c # cs) xs =
     (let (r, xs) = py_list_step c xs; (rs, xs) = py_list_run cs xs in (r # rs, xs))"

text \<open>Every element written is a leaf, and how many elements a call may add.\<close>

fun call_leaf :: "list_call \<Rightarrow> bool" where
  "call_leaf (Append v) = is_leaf v"
| "call_leaf (Insert i v) = is_leaf v"
| "call_leaf (Set_Item i v) = is_leaf v"
| "call_leaf (Extend vs) = (\<forall>v \<in> set vs. is_leaf v)"
| "call_leaf _ = True"

fun call_grows :: "list_call \<Rightarrow> nat" where
  "call_grows (Append v) = 1"
| "call_grows (Insert i v) = 1"
| "call_grows (Extend vs) = length vs"
| "call_grows _ = 0"

lemma py_list_step_leaf:
  "\<forall>x \<in> set xs. is_leaf x \<Longrightarrow> call_leaf c \<Longrightarrow> \<forall>x \<in> set (snd (py_list_step c xs)). is_leaf x"
  by (cases c) (auto simp: Let_def split: option.splits dest!: in_set_takeD in_set_dropD subsetD [OF set_update_subset_insert])

lemma py_list_step_length: "length (snd (py_list_step c xs)) \<le> length xs + call_grows c"
  by (cases c) (auto simp: Let_def py_index_def split: option.splits if_splits)

context view_context begin

lemma normalize_ok:
  assumes "inv s" and "okk (view_site W)" and "data_site (view_site W)" and "holds (vw s) (view_site W) (VList xs)"
  shows "normalize_address ctx W i s = (case py_index i xs of None \<Rightarrow> Inl IndexError | Some j \<Rightarrow> Inr (int j))"
  using list_length [OF assms] by (auto simp: normalize_address_def py_index_def Let_def)

lemma extend_ok:
  assumes s: "inv s" and k: "okk (view_site W)" "data_site (view_site W)" "\<And>i. i < length xs + length vs \<Longrightarrow> okseg (SInt (int i))"
    and c: "view_cls W = EagerListView" and V: "vw s = place (view_site W) (VList xs) V" and v: "\<forall>v \<in> set vs. storable okseg v"
  shows "\<exists>s'. list_extend std_registry ctx W vs s = Some (Inr (), s') \<and> inv s' \<and>
    vw s' = place (view_site W) (VList (xs @ vs)) V"
proof -
  have "find_empty_seq vs 0 [] = None" using v storable_no_empty(3) [of okseg vs] by (simp add: storable_seq_iff)
  then have r: "reject_empty_in W (VList vs) = Inr ()" by (simp add: reject_empty_in_def reject_empty_value_def)
  have "\<exists>s'. act_each (list_append std_registry ctx W) vs s = Some (Inr (), s') \<and> inv s' \<and>
      vw s' = place (view_site W) (VList (xs @ vs)) V"
    using s k(3) V v
  proof (induction vs arbitrary: xs s)
    case Nil
    then show ?case by simp
  next
    case (Cons u us)
    from append_ok [OF Cons.prems(1) k(1,2) Cons.prems(2) c Cons.prems(3), of u] Cons.prems(4) obtain s1 where
      s1: "list_append std_registry ctx W u s = Some (Inr (), s1)" "inv s1" "vw s1 = place (view_site W) (VList (xs @ [u])) V" by auto
    from Cons.IH [OF s1(2) _ s1(3)] Cons.prems(2,4) s1(1) show ?case by (simp add: act_bind_def)
  qed
  with r show ?thesis by (simp add: list_extend_def act_bind_def)
qed

lemma list_step_ok:
  assumes s: "inv s" and k: "okk (view_site W)" "data_site (view_site W)" "\<And>i. i < length xs + call_grows call \<Longrightarrow> okseg (SInt (int i))"
    and c: "view_cls W = EagerListView" and V: "vw s = place (view_site W) (VList xs) V"
    and leaf: "\<forall>x \<in> set xs. is_leaf x" and call: "call_leaf call"
  shows "\<exists>s'. list_step std_registry ctx W call s = Some (fst (py_list_step call xs), s') \<and> inv s' \<and>
    vw s' = place (view_site W) (VList (snd (py_list_step call xs))) V"
proof -
  let ?T = "view_site W"
  have h: "holds (vw s) ?T (VList xs)" using holds_place [OF k(2)] V by simp
  note N = normalize_ok [OF s k(1,2) h]
  have lf: "is_leaf (xs ! j)" if "j < length xs" for j using leaf that by simp
  have ix: "j < length xs" if "py_index i xs = Some j" for i j
    using that by (auto simp: py_index_def Let_def split: if_splits)
  have Nj: "normalize_address ctx W (int j) s = Inr (int j)" if "j < length xs" for j
    using N [of "int j"] that by (simp add: py_index_def)
  have ok: "okseg (SInt (int j))" if "j < length xs" for j using k(3) that by simp
  show ?thesis
  proof (cases call)
    case (Append v)
    from append_ok [OF s k(1,2) _ c V storable_leaf [of v]] k(3) call show ?thesis
      by (auto simp: Append no_value_def act_bind_def)
  next
    case (Insert i v)
    define a where "a = nat (if i < 0 then max 0 (int (length xs) + i) else min i (int (length xs)))"
    have "int a = (if i < 0 then max 0 (int (length xs) + i) else min i (int (length xs)))"
      by (auto simp: a_def)
    from insert_ok [OF s k(1,2) _ c V storable_leaf [of v] this lf] k(3) call show ?thesis
      by (auto simp: Insert no_value_def act_bind_def a_def [symmetric])
  next
    case (Set_Item i v)
    show ?thesis
    proof (cases "py_index i xs")
      case None
      then show ?thesis using s V N by (simp add: Set_Item no_value_def list_setitem_def act_bind_def)
    next
      case (Some j)
      have "list_setitem std_registry ctx W i v s = list_setitem std_registry ctx W (int j) v s"
        using N [of i] Some Nj [OF ix [OF Some]] by (simp add: list_setitem_def act_bind_def)
      with setitem_ok [OF s k(1,2) ok [OF ix [OF Some]] c V ix [OF Some] lf [OF ix [OF Some]], of v] call Some show ?thesis
        by (auto simp: Set_Item no_value_def act_bind_def)
    qed
  next
    case (Get_Item i)
    show ?thesis
    proof (cases "py_index i xs")
      case None
      then show ?thesis using s V N by (simp add: Get_Item list_getitem_def list_getitem_with_def act_bind_def)
    next
      case (Some j)
      note j = ix [OF Some]
      have no: "cls_of (xs ! j) = None" using lf [OF j] by (cases "xs ! j") auto
      have "list_getitem std_registry ctx W i s = list_getitem std_registry ctx W (int j) s"
        using N [of i] Some Nj [OF j] by (simp add: list_getitem_def list_getitem_with_def act_bind_def)
      moreover have "\<exists>s1. list_getitem_with (view_extract std_registry ctx) std_registry ctx W (int j) s =
          Some (Inr (norm (xs ! nat (int j))), s1) \<and> same inv weight vw s s1"
        by (rule getitem_ok [OF s k(1) ok [OF j] k(2) h]) (use j storable_leaf [OF lf [OF j]] no in simp_all)
      ultimately show ?thesis using Some V by (auto simp: Get_Item list_getitem_def norm_leaf [OF lf [OF j]] same_def)
    qed
  next
    case (Del_Item i)
    show ?thesis
    proof (cases "py_index i xs")
      case None
      then show ?thesis using s V N by (simp add: Del_Item no_value_def list_delitem_def act_bind_def)
    next
      case (Some j)
      have "list_delitem ctx W i s = list_delitem ctx W (int j) s"
        using N [of i] Some Nj [OF ix [OF Some]] by (simp add: list_delitem_def act_bind_def)
      with delitem_ok [OF s k(1,2) ok c V lf ix [OF Some], of "int j"] Some show ?thesis
        by (auto simp: Del_Item no_value_def act_bind_def)
    qed
  next
    case (Pop i)
    note len = list_length [OF s k(1,2) h]
    show ?thesis
    proof (cases "py_index i xs")
      case None
      then show ?thesis using s V N len by (simp add: Pop list_pop_def list_getitem_def list_getitem_with_def act_bind_def)
    next
      case (Some j)
      note j = ix [OF Some]
      have no: "cls_of (xs ! j) = None" using lf [OF j] by (cases "xs ! j") auto
      have "\<exists>s1. list_getitem_with (view_extract std_registry ctx) std_registry ctx W (int j) s =
          Some (Inr (norm (xs ! nat (int j))), s1) \<and> same inv weight vw s s1"
        by (rule getitem_ok [OF s k(1) ok [OF j] k(2) h]) (use j storable_leaf [OF lf [OF j]] no in simp_all)
      then obtain s1 where g: "list_getitem std_registry ctx W (int j) s = Some (Inr (xs ! j), s1)" "inv s1" "vw s1 = vw s"
        by (auto simp: list_getitem_def norm_leaf [OF lf [OF j]] same_def)
      have g': "list_getitem std_registry ctx W i s = Some (Inr (xs ! j), s1)"
        using g(1) N [of i] Some Nj [OF j] by (simp add: list_getitem_def list_getitem_with_def act_bind_def)
      have "holds (vw s1) ?T (VList xs)" using h g(3) by simp
      note N1 = normalize_ok [OF g(2) k(1,2) this]
      have "list_delitem ctx W i s1 = list_delitem ctx W (int j) s1"
        using N1 [of i] N1 [of "int j"] Some j by (simp add: list_delitem_def act_bind_def py_index_def [of "int j"])
      with delitem_ok [OF g(2) k(1,2) ok c _ lf j, of V "int j"] g(3) V obtain s2 where
        "list_delitem ctx W i s1 = Some (Inr (), s2)" "inv s2" "vw s2 = place ?T (VList (take j xs @ drop (Suc j) xs)) V" by auto
      with g' len Some j show ?thesis by (auto simp: Pop list_pop_def act_bind_def)
    qed
  next
    case (Extend vs)
    from extend_ok [OF s k(1,2) _ c V, of vs] k(3) call show ?thesis
      by (auto simp: Extend no_value_def act_bind_def storable_leaf)
  qed
qed

lemma list_run_ok:
  assumes "inv s" and k: "okk (view_site W)" "data_site (view_site W)"
    and "\<And>i. i < length xs + sum_list (map call_grows cs) \<Longrightarrow> okseg (SInt (int i))"
    and c: "view_cls W = EagerListView" and "vw s = place (view_site W) (VList xs) V"
    and "\<forall>x \<in> set xs. is_leaf x" and "list_all call_leaf cs"
  shows "\<exists>s'. list_run std_registry ctx W cs s = Some (fst (py_list_run cs xs), s') \<and> inv s' \<and>
    vw s' = place (view_site W) (VList (snd (py_list_run cs xs))) V"
  using assms(1,4,6-8)
proof (induction cs arbitrary: s xs)
  case Nil
  then show ?case by simp
next
  case (Cons call cs)
  from list_step_ok [OF Cons.prems(1) k _ c Cons.prems(3,4), of call] Cons.prems(2,5) obtain s1 where
    s1: "list_step std_registry ctx W call s = Some (fst (py_list_step call xs), s1)" "inv s1"
      "vw s1 = place (view_site W) (VList (snd (py_list_step call xs))) V" by auto
  have "okseg (SInt (int i))" if "i < length (snd (py_list_step call xs)) + sum_list (map call_grows cs)" for i
    using Cons.prems(2) [of i] that py_list_step_length [of call xs] by simp
  from Cons.IH [OF s1(2) this s1(3) py_list_step_leaf [OF Cons.prems(4)]] Cons.prems(5) s1(1) show ?case
    by (auto simp: Let_def case_prod_beta)
qed

end

end
