(* ===== verification/View_Replace.thy ===== *)
theory View_Replace
  imports View_Dicts
begin

text \<open>
  Replacing a container: what clearing a container does to its rows, and the dict view's assignment of
  a dict over a dict or a list over a list. Clearing deletes each child while it scans the children; the
  children it deletes here are single rows.
\<close>

section \<open>Values without containers inside\<close>

fun flat :: "pyval \<Rightarrow> bool" where
  "flat (VMap items) = list_all (\<lambda>(_, v). is_leaf v) items"
| "flat (VList xs) = list_all is_leaf xs"
| "flat v = True"

lemma flat_child: "flat w \<Longrightarrow> child_of w x = Some v \<Longrightarrow> is_leaf v"
proof (cases w)
  case (VMap items)
  assume "flat w" "child_of w x = Some v"
  with VMap show ?thesis by (auto simp: item_at_map_of list_all_iff dest: map_of_SomeD)
next
  case (VList xs)
  assume "flat w" "child_of w x = Some v"
  with VList show ?thesis by (cases x) (auto simp: list_all_iff split: if_splits)
qed simp_all

text \<open>The rows of a flat value are its own and those of its children; without those it is empty.\<close>

lemma flat_data: "flat w \<Longrightarrow> data_at w (x # y # p) = None"
  using flat_child [of w x] by (simp add: leaf_data split: option.split)

lemma flat_meta:
  assumes "flat w"
  shows "meta_at w p = (if p = [LEN] then own_len w else None)"
proof (cases p)
  case (Cons x q)
  then show ?thesis using flat_child [OF assms, of x] by (cases q) (simp_all split: option.split)
qed simp

fun emptied :: "pyval \<Rightarrow> pyval" where
  "emptied (VMap items) = VMap []"
| "emptied (VList xs) = VList []"
| "emptied v = v"

lemma flat_emptied [simp]: "flat (emptied (VMap items))" "flat (emptied (VList xs))"
  by simp_all

lemma child_of_emptied: "cls_of w = Some c \<Longrightarrow> child_of (emptied w) x = None"
  by (cases w; cases x) simp_all

lemma without_children:
  assumes T: "data_site T" and h: "holds V T w" and f: "flat w" "cls_of w = Some c"
  shows "V |` {k. \<not> (prefix T k \<and> length k = Suc (length T))} = (place T (emptied w) V)(meta_key T LEN := own_len w)"
proof
  fix k
  have row: "row_of (emptied w) = row_of w" by (cases w) simp_all
  have e: "flat (emptied w)" by (cases w) simp_all
  show "(V |` {k. \<not> (prefix T k \<and> length k = Suc (length T))}) k = ((place T (emptied w) V)(meta_key T LEN := own_len w)) k"
  proof (cases k rule: region_cases [of _ T])
    case (1 p)
    then have k: "V k = data_at w p" "k \<noteq> meta_key T LEN" using h sites_apart(1) [OF T, of p T "[LEN]"] T
      by (simp_all add: holds_def meta_site_eq)
    then have R: "((place T (emptied w) V)(meta_key T LEN := own_len w)) k = data_at (emptied w) p" using 1 T by simp
    have "data_at (emptied w) (x # q) = None" for x q using child_of_emptied [OF f(2)] by simp
    moreover have "data_at w (x # y # q) = None" for x y q by (rule flat_data [OF f(1)])
    ultimately have "(if length p = 1 then None else data_at w p) = data_at (emptied w) p"
      using row by (cases p; cases "tl p") (simp_all del: data_at_simps(2))
    with k(1) R show ?thesis using 1 by (cases "length p = 1") (simp_all add: restrict_map_def)
  next
    case (2 p)
    have "V k = meta_at w p" "\<not> prefix T k" using 2 h T by (simp_all add: holds_def)
    moreover have "((place T (emptied w) V)(meta_key T LEN := own_len w)) k = (if p = [LEN] then own_len w else meta_at (emptied w) p)"
      using 2 T by (simp add: meta_site_eq)
    ultimately show ?thesis by (simp add: restrict_map_def flat_meta [OF f(1)] flat_meta [OF e])
  next
    case 3
    then have "\<not> prefix T k" "k \<noteq> meta_key T LEN" using in_region(2) [of T "[LEN]"] T by (auto simp: region_def meta_site_eq)
    with 3 show ?thesis by (simp add: restrict_map_def)
  qed
qed

section \<open>Clearing\<close>

context view_context begin

lemma clear_loop_rows:
  assumes "at options KEYS just g s L" and "distinct (map fst L)" and "okk site" and "is_container (vw s) site"
    and "\<And>k v. (k, v) \<in> set L \<Longrightarrow> \<exists>x. k = site @ [x] \<and> okseg x \<and> vw s k = Some v \<and> extract_marker v = Inr None"
  shows "\<exists>s'. clear_loop ctx options site g s = Some (Inr (), s') \<and> inv s' \<and> weight s' = weight s \<and> vw s' = vw s |` (- (fst ` set L))"
  using assms
proof (induction L arbitrary: just g s)
  case Nil
  from scan_next [OF Nil(1)] show ?case by (subst clear_loop.simps) (auto simp: restrict_map_def)
next
  case (Cons row L)
  obtain k v where row: "row = (k, v)" by (cases row)
  from Cons.prems(5) [of k v] row obtain x where x: "k = site @ [x]" "okseg x" "vw s k = Some v" "extract_marker v = Inr None" by auto
  from scan_next [OF Cons.prems(1)] obtain g' s1 where
    n: "ctx_next ctx options KEYS g s = Some (Yield (Out_Key k), g', s1)"
    and s1: "inv s1" "weight s1 = weight s" "vw s1 = vw s" and a: "at options KEYS (Some k) g' s1 L"
    unfolding row by auto
  from delete_just [OF a] obtain s2 where
    d: "ctx_delete ctx k s1 = (Inr (), s2)" "at options KEYS None g' s2 L" "weight s2 = weight s1" "vw s2 = (vw s1)(k := None)" by auto
  have del: "delete_child ctx site x s1 = Some (Inr (), s2)"
    using validate_is_container_ok [OF s1(1) Cons.prems(3)] Cons.prems(3,4) s1 x d(1) node_at [OF s1(1), of "site @ [x]"]
    by (simp add: delete_child_def attempt_scan_def)
  have "is_container (vw s2) site" using Cons.prems(4) x(1) by (simp add: d(4) s1(3) is_container_def)
  moreover have "\<exists>x. l = site @ [x] \<and> okseg x \<and> vw s2 l = Some u \<and> extract_marker u = Inr None" if "(l, u) \<in> set L" for l u
  proof -
    have "l \<noteq> k" using Cons.prems(2) that row by force
    with Cons.prems(5) [of l u] that show ?thesis by (auto simp: d(4) s1(3) row)
  qed
  ultimately obtain s' where "clear_loop ctx options site g' s2 = Some (Inr (), s')" "inv s'" "weight s' = weight s2"
      "vw s' = vw s2 |` (- (fst ` set L))"
    using Cons.IH [OF d(2) _ Cons.prems(3)] Cons.prems(2) by auto
  with n del d s1 x(1) show ?case
    by (subst clear_loop.simps) (auto simp: row restrict_map_def fun_eq_iff)
qed

lemma clear_children_ok:
  assumes s: "inv s" "weight s < pages" and k: "okk site" and c: "is_container (vw s) site"
    and leaf: "\<And>x v. vw s (site @ [x]) = Some v \<Longrightarrow> extract_marker v = Inr None"
  shows "\<exists>s'. clear_children ctx site True s = Some (Inr (), s') \<and> inv s' \<and>
    vw s' = vw s |` {k. \<not> (prefix site k \<and> length k = Suc (length site))}"
proof -
  obtain options where o: "child_scan_options ctx site False = Inr options" using child_scan_options_ok [OF k] by blast
  note O = child_options [where okk = okk, OF o k finite_vw [OF s(1)]]
  have L: "site_rows (vw s) options site = map (\<lambda>x. (site @ [x], the (vw s (site @ [x])))) (children (vw s) site False)"
    by (simp add: site_rows_def O(2))
  have in_V: "vw s (site @ [x]) \<noteq> None" if "x \<in> set (children (vw s) site False)" for x
    using that s(1) by (auto simp: children_def dom_def)
  have "\<exists>s'. clear_loop ctx options site (ctx_scan ctx) s = Some (Inr (), s') \<and> inv s' \<and> weight s' = weight s \<and>
      vw s' = vw s |` (- (fst ` set (site_rows (vw s) options site)))"
  proof (rule clear_loop_rows [OF scan_start [OF s k O(1)] _ k c])
    have "distinct (children (vw s) site False)" by (simp add: children_def)
    then show "distinct (map fst (site_rows (vw s) options site))" by (simp add: L o_def distinct_map inj_on_def)
    fix l v assume "(l, v) \<in> set (site_rows (vw s) options site)"
    then obtain x where x: "l = site @ [x]" "x \<in> set (children (vw s) site False)" "v = the (vw s l)" by (auto simp: L)
    with in_V [OF x(2)] have v: "vw s l = Some v" by auto
    from okk_dom [OF s(1) v] k have "okseg x" by (simp add: x(1))
    with v leaf x(1) show "\<exists>x. l = site @ [x] \<and> okseg x \<and> vw s l = Some v \<and> extract_marker v = Inr None" by auto
  qed
  moreover have "vw s |` (- (fst ` set (site_rows (vw s) options site))) = vw s |` {k. \<not> (prefix site k \<and> length k = Suc (length site))}"
  proof
    fix l
    have "l \<in> fst ` set (site_rows (vw s) options site)" if l: "prefix site l" "length l = Suc (length site)" "vw s l \<noteq> None"
    proof -
      obtain p where p: "l = site @ p" "length p = Suc 0" using l(1,2) by (auto simp: prefix_def)
      then obtain x where "l = site @ [x]" by (cases p) auto
      with l(3) finite_children [OF s(1), of site] show ?thesis by (auto simp: L children_def image_image dom_def)
    qed
    moreover have "prefix site l \<and> length l = Suc (length site)" if "l \<in> fst ` set (site_rows (vw s) options site)"
      using that by (auto simp: L)
    ultimately show "(vw s |` (- (fst ` set (site_rows (vw s) options site)))) l =
        (vw s |` {k. \<not> (prefix site k \<and> length k = Suc (length site))}) l"
      by (cases "vw s l = None") (auto simp: restrict_map_def)
  qed
  moreover have "validate_if ctx site True s = Inr ()" using validate_if_ok [OF s(1) k] c by simp
  ultimately show ?thesis using o by (auto simp: clear_children_def attempt_scan_def)
qed

text \<open>A view over a flat value, cleared.\<close>

lemma clear_ok:
  assumes s: "inv s" "weight s < pages" and k: "okk (view_site C)" "data_site (view_site C)"
    and h: "holds (vw s) (view_site C) w" and f: "flat w" "cls_of w = Some (view_cls C)"
  shows "view_cls C = EagerDictView \<Longrightarrow> \<exists>s'. dict_clear ctx C s = Some (Inr (), s') \<and> inv s' \<and>
      vw s' = place (view_site C) (VMap []) (vw s)"
    and "view_cls C = EagerListView \<Longrightarrow> \<exists>s'. list_clear ctx C s = Some (Inr (), s') \<and> inv s' \<and>
      vw s' = place (view_site C) (VList []) (vw s)"
proof -
  let ?T = "view_site C"
  have r: "vw s ?T = Some (marker_of (view_cls C))"
    using h row_of_cls [OF f(2)] by (simp add: holds_def) (metis append_Nil2 data_at_simps(1))
  then have l: "live (vw s) C" using k(2) by (simp add: live_def)
  have m: "extract_marker v = Inr None" if "vw s (?T @ [x]) = Some v" for x v
  proof -
    from child_row [OF k(2) h, of x] that obtain u where u: "child_of w x = Some u" "v = row_of u"
      by (cases "child_of w x") simp_all
    from flat_child [OF f(1) u(1)] u(2) show ?thesis by (cases u) (simp_all add: extract_marker_def)
  qed
  have "\<exists>s'. clear_children ctx ?T True s = Some (Inr (), s') \<and> inv s' \<and>
      vw s' = vw s |` {k. \<not> (prefix ?T k \<and> length k = Suc (length ?T))}"
    by (rule clear_children_ok [OF s k(1) is_containerI [OF l]], rule m)
  then obtain s1 where
    s1: "clear_children ctx ?T True s = Some (Inr (), s1)" "inv s1" "vw s1 = (place ?T (emptied w) (vw s))(meta_key ?T LEN := own_len w)"
    unfolding without_children [OF k(2) h f] by blast
  have here: "node_exists ctx ?T s = Inr True" using r node_exists_ok [OF s(1) k(1)] by simp
  note e = here ensure_created_live [OF s(1) k(1) l]
  show "\<exists>s'. dict_clear ctx C s = Some (Inr (), s') \<and> inv s' \<and> vw s' = place ?T (VMap []) (vw s)" if "view_cls C = EagerDictView"
  proof -
    from f(2) that obtain items where w: "w = VMap items" by (cases w) auto
    have "(place ?T (VMap []) (vw s))(meta_key ?T LEN := None) = place ?T (VMap []) (vw s)"
      using k(2) by (auto simp: fun_eq_iff meta_site_eq)
    with s1 e w show ?thesis by (simp add: dict_clear_def act_bind_def)
  qed
  show "\<exists>s'. list_clear ctx C s = Some (Inr (), s') \<and> inv s' \<and> vw s' = place ?T (VList []) (vw s)" if "view_cls C = EagerListView"
  proof -
    from f(2) that obtain xs where w: "w = VList xs" by (cases w) auto
    from set_length_ok [OF s1(2) k, of 0] obtain s2 where
      s2: "set_length ctx C 0 s1 = (Inr (), s2)" "inv s2" "vw s2 = (vw s1)(meta_key ?T LEN \<mapsto> VInt 0)" by blast
    have "vw s2 = place ?T (VList []) (vw s)" using s1(3) s2(3) list_len_row [OF k(2), of "[]" "vw s"] w by simp
    with s1(1) s2 e show ?thesis by (simp add: list_clear_def act_bind_def)
  qed
qed

section \<open>A container over a container\<close>

lemma ensure_child_live:
  assumes s: "inv s" and k: "okk (view_site W)" "okseg a" "data_site (view_site W)"
    and r: "vw s (view_site W @ [a]) = Some (marker_of c)"
  shows "ensure_child_view ctx W (View c (view_site W @ [a]) (Some W)) s = Some (Inr False, s)"
    and "d \<noteq> c \<Longrightarrow> ensure_child_view ctx W (View d (view_site W @ [a]) (Some W)) s = Some (Inl ContainerExistsError, s)"
proof -
  let ?T = "view_site W @ [a]"
  have T: "okk ?T" "data_site ?T" using k by simp_all
  have i: "get_node_info ctx ?T None s = Inr \<lparr>ni_site = ?T, ni_exists = True, ni_type = CONTAINER, ni_raw = Some (marker_of c),
       ni_structure = Some (STRUCTURE c), ni_protocol = Some (PROTOCOL c), ni_primitive = None\<rparr>" (is "_ = Inr ?i")
    using s T r by (simp add: node_at)
  show "ensure_child_view ctx W (View c ?T (Some W)) s = Some (Inr False, s)"
    using i create_live [OF s T r, of "Some ?i" ?i] by (simp add: ensure_child_view_def make_child_def act_unfold)
  have "STRUCTURE c \<noteq> STRUCTURE d" if "d \<noteq> c" using that by (cases c; cases d; simp)
  then show "ensure_child_view ctx W (View d ?T (Some W)) s = Some (Inl ContainerExistsError, s)" if "d \<noteq> c"
    using i T that by (simp add: ensure_child_view_def make_child_def act_unfold container_create_def create_container_def
        validate_compatible_def attempt_def data_site_def)
qed

lemma set_other_class:
  assumes s: "inv s" and k: "okk (view_site W)" "okseg a" and l: "live (vw s) W" and v: "storable okseg v" "cls_of v = Some d"
    and r: "vw s (view_site W @ [a]) = Some (marker_of c)" "c \<noteq> d"
  shows "set_child_value std_registry ctx W (val_of a) v s = Some (Inl ContainerExistsError, s)"
proof -
  have "data_site (view_site W)" using l by (simp add: live_def)
  from ensure_child_live(2) [OF s k this r(1), of d] r(2)
  have "ensure_child_view ctx W (View d (view_site W @ [a]) (Some W)) s = Some (Inl ContainerExistsError, s)" by blast
  with v reject_empty_ok [OF v(1)] ensure_created_live [OF s k(1) l] show ?thesis
    by (cases v) (auto simp: set_child_value.simps act_bind_def Let_def)
qed

lemma set_replace:
  assumes s: "inv s" "weight s < pages" and k: "okk (view_site W)" "okseg a" and l: "live (vw s) W"
    and h: "holds (vw s) (view_site W @ [a]) w" and f: "flat w" "cls_of w = cls_of v" "cls_of v \<noteq> None" and v: "storable okseg v"
  shows "\<exists>s'. set_child_value std_registry ctx W (val_of a) v s = Some (Inr (), s') \<and> inv s' \<and>
    vw s' = place (view_site W @ [a]) v (vw s)"
proof -
  let ?T = "view_site W @ [a]"
  obtain c where c: "cls_of v = Some c" "cls_of w = Some c" using f(2,3) by auto
  let ?C = "View c ?T (Some W)"
  have D: "data_site (view_site W)" using l by (simp add: live_def)
  have T: "okk ?T" "data_site ?T" using k D by simp_all
  have r: "vw s ?T = Some (marker_of c)" using h row_of_cls [OF c(2)] unfolding holds_def by (metis append_Nil2 data_at_simps(1))
  then have lC: "ensure_created ctx ?C s = Some (Inr (), s)" using s(1) T by (intro ensure_created_live) (simp_all add: live_def)
  note E = ensure_child_live(1) [OF s(1) k D r] reject_empty_ok [OF v] reject_empty_in_ok [OF v] ensure_created_live [OF s(1) k(1) l] lC
  have C: "okk (view_site ?C)" "data_site (view_site ?C)" "holds (vw s) (view_site ?C) w" "cls_of w = Some (view_cls ?C)"
    using T h c by simp_all
  show ?thesis
  proof (cases v)
    case (VMap items)
    then have cd: "c = EagerDictView" using c(1) by simp
    from clear_ok(1) [OF s C(1-3) f(1) C(4)] cd obtain s1 where
      s1: "dict_clear ctx ?C s = Some (Inr (), s1)" "inv s1" "vw s1 = place ?T (VMap []) (vw s)" by auto
    from store_fresh(2) [of items "[]" s1 ?C "vw s"] s1(2,3) T v VMap cd obtain s2 where
      "store_items std_registry ctx ?C items s1 = Some (Inr (), s2)" "inv s2" "vw s2 = place ?T v (vw s)" by auto
    with s1(1) E show ?thesis unfolding VMap cd
      by (simp add: set_child_value.simps act_bind_def dict_store_with_def Let_def)
  next
    case (VList xs)
    then have cl: "c = EagerListView" using c(1) by simp
    from clear_ok(2) [OF s C(1-3) f(1) C(4)] cl obtain s1 where
      s1: "list_clear ctx ?C s = Some (Inr (), s1)" "inv s1" "vw s1 = place ?T (VList []) (vw s)" by auto
    have "vw s1 = (place ?T (VList []) (vw s))(meta_key ?T LEN \<mapsto> VInt 0)" using s1(3) list_len_row [OF T(2), of "[]" "vw s"] by simp
    then obtain s2 where
      s2: "store_seq std_registry ctx ?C xs 0 s1 = Some (Inr (int (length xs)), s2)" "inv s2"
        "vw s2 = (place ?T v (vw s))(meta_key ?T LEN \<mapsto> VInt 0)"
      using store_fresh(3) [of xs "[]" s1 ?C "vw s" "Some (VInt 0)"] s1(2) T v VList cl by auto
    from set_length_ok [OF s2(2), of ?C "int (length xs)"] T obtain s3 where
      s3: "set_length ctx ?C (int (length xs)) s2 = (Inr (), s3)" "inv s3" "vw s3 = (vw s2)(meta_key ?T LEN \<mapsto> VInt (int (length xs)))"
      by auto
    have "vw s3 = place ?T v (vw s)" using s2(3) s3(3) list_len_row [OF T(2), of xs "vw s"] VList by simp
    with s1(1) s2(1) s3(1,2) E show ?thesis unfolding VList cl
      by (simp add: set_child_value.simps act_bind_def list_store_with_def Let_def)
  qed (use c(1) in simp_all)
qed

text \<open>The dict view's assignment over a container.\<close>

lemma dict_replace_ok:
  assumes s: "inv s" and k: "okk (view_site W)" "okseg x" "data_site (view_site W)" and c: "view_cls W = EagerDictView"
    and h: "holds (vw s) (view_site W) (VMap items)" and v: "storable okseg v"
    and old: "item_at items x = Some w" "cls_of w \<noteq> None" "cls_of v \<noteq> None"
  shows "cls_of w \<noteq> cls_of v \<Longrightarrow> dict_setitem std_registry ctx W (val_of x) v s = Some (Inl ContainerExistsError, s)"
    and "cls_of w = cls_of v \<Longrightarrow> flat w \<Longrightarrow> weight s < pages \<Longrightarrow>
      \<exists>s'. dict_setitem std_registry ctx W (val_of x) v s = Some (Inr (), s') \<and> inv s' \<and>
        vw s' = place (view_site W) (VMap (set_item (val_of x) v items)) (vw s)"
proof -
  let ?T = "view_site W @ [x]"
  note l = dict_live [OF k(3) c h]
  have hw: "holds (vw s) ?T w" using holds_child [OF k(3) h, of x w] old(1) by simp
  obtain a b where ab: "cls_of w = Some a" "cls_of v = Some b" using old(2,3) by auto
  have r: "vw s ?T = Some (marker_of a)" using hw row_of_cls [OF ab(1)] unfolding holds_def by (metis append_Nil2 data_at_simps(1))
  show "dict_setitem std_registry ctx W (val_of x) v s = Some (Inl ContainerExistsError, s)" if "cls_of w \<noteq> cls_of v"
    using set_other_class [OF s k(1,2) l v ab(2) r] that ab by (simp add: dict_setitem_def)
  assume f: "cls_of w = cls_of v" "flat w" "weight s < pages"
  have "place ?T v (vw s) = place (view_site W) (VMap (set_item (val_of x) v items)) (vw s)"
    using place_set_item [OF k(3), of x v items "vw s"] holds_imp_place [OF h] by simp
  with set_replace [OF s f(3) k(1,2) l hw f(2,1) old(3) v]
  show "\<exists>s'. dict_setitem std_registry ctx W (val_of x) v s = Some (Inr (), s') \<and> inv s' \<and>
      vw s' = place (view_site W) (VMap (set_item (val_of x) v items)) (vw s)"
    by (simp add: dict_setitem_def)
qed

end

end
