(* ===== verification/View_Props.thy ===== *)
theory View_Props
  imports View_Calls View_Replace Container_Props
begin

text \<open>
  The properties of the dict and list views, on transactions and snapshots of the in-memory storage.
\<close>

section \<open>The instances\<close>

lemma len_seg_ok: "seg_ok LEN"
  by (simp add: seg_ok_def LEN_def lit_def scalar_def is_surrogate_def)

interpretation txn_view: view_context "txn_ctx pages" "txn_ok s0" txn_weight pages txn_map bin_ok seg_ok "txn_at pages s0"
  for pages s0
  by unfold_locales (rule len_seg_ok)

interpretation snapshot_view: view_reader "snapshot_ctx pages" "snapshot_ok st0" snapshot_weight pages snapshot_map bin_ok seg_ok
    "snapshot_at pages st0"
  for pages st0
  by unfold_locales (rule len_seg_ok)

lemma index_seg_ok: "int n \<le> INT64_MAX + 1 \<Longrightarrow> i < n \<Longrightarrow> seg_ok (SInt (int i))"
  by (simp add: seg_ok_def INT64_MIN_def INT64_MAX_def)

section \<open>A stored value to look at\<close>

definition root_view :: view where
  "root_view = View EagerDictView ROOT None"

lemma root_chain: "chain_ok Map.empty root_view" "data_site ROOT" "view_site root_view = ROOT"
  by (simp_all add: root_view_def ROOT_def data_site_def)

lemma char_seg_ok: "seg_ok (SStr [97])" "seg_ok (SStr [98])" "seg_ok (SInt 0)" "seg_ok (SInt 1)" "seg_ok (SInt 7)"
  by (simp_all add: seg_ok_def scalar_def is_surrogate_def INT64_MIN_def INT64_MAX_def)

lemma child_site_ok: "seg_ok a \<Longrightarrow> bin_ok (ROOT @ [a])"
  using root_ok by (simp add: bin_ok_iff)

lemma stored_exists:
  assumes "storable seg_ok v" and "seg_ok a"
  shows "\<exists>st. txn_ok vs_init st \<and> holds (txn_map st) (ROOT @ [a]) v"
proof -
  have "vacant (txn_map (vs_init, tx_begin 0 vs_init)) (view_site root_view @ [a])"
    by (simp add: vacant_def txn_begin_map)
  with txn_view.store_chain [OF txn_begin_ok, of root_view a v 0] root_chain root_ok assms obtain st where
    "txn_ok vs_init st" "txn_map st = place (ROOT @ [a]) v (created Map.empty root_view)"
    by (auto simp: txn_begin_map)
  then show ?thesis using holds_place [of "ROOT @ [a]" v] root_chain(2) by (intro exI [of _ st]) simp
qed

section \<open>Properties\<close>

text \<open>C16: A nested dict or list (or any other value) assigned to a key where nothing was is written as
  its own rows and nothing else, after the missing ancestors of the view have been created, each
  with the marker of its own class; and reading the key gives the value back, its dicts in key
  order, once the scan may fetch more pages than the transaction has keys.\<close>

theorem nested_value_roundtrip:
  assumes "txn_ok s0 st" and "bin_ok (view_site W)" and "seg_ok a" and "chain_ok (txn_map st) W"
    and "storable seg_ok v" and "vacant (txn_map st) (view_site W @ [a])"
  shows "\<exists>st'. set_child_value std_registry (txn_ctx pages) W (val_of a) v st = Some (Inr (), st') \<and> txn_ok s0 st' \<and>
    txn_map st' = place (view_site W @ [a]) v (created (txn_map st) W) \<and>
    (\<forall>pages > txn_weight st'. \<exists>st''. get_child_value std_registry (txn_ctx pages) W a st' = Some (Inr (norm v), st'') \<and>
       txn_map st'' = txn_map st')"
proof -
  let ?T = "view_site W"
  from txn_view.store_chain [OF assms] obtain st' where
    st': "set_child_value std_registry (txn_ctx pages) W (val_of a) v st = Some (Inr (), st')" "txn_ok s0 st'"
      "txn_map st' = place (?T @ [a]) v (created (txn_map st) W)" by blast
  have T: "data_site (?T @ [a])" using chain_data_site [OF assms(4)] by simp
  have h: "holds (txn_map st') (?T @ [a]) v" using holds_place [OF T] st'(3) by simp
  have k: "bin_ok (?T @ [a])" using assms(2,3) by (simp add: bin_ok_iff)
  have "\<exists>st''. get_child_value std_registry (txn_ctx q) W a st' = Some (Inr (norm v), st'') \<and> txn_map st'' = txn_map st'"
    if q: "txn_weight st' < q" for q
    using txn_view.get_child_ok [OF st'(2) q k T assms(5) h] by (auto simp: same_def)
  with st' show ?thesis by blast
qed

theorem nested_value_roundtrip_witness:
  "\<exists>st st'. set_child_value std_registry (txn_ctx 0) root_view (VStr [97])
       (VMap [(VStr [98], VList [VInt 5, VStr [99]]), (VInt 7, VNone)]) (vs_init, tx_begin 0 vs_init) = Some (Inr (), st) \<and>
     get_child_value std_registry (txn_ctx (Suc (txn_weight st))) root_view (SStr [97]) st =
       Some (Inr (VMap [(VInt 7, VNone), (VStr [98], VList [VInt 5, VStr [99]])]), st')"
proof -
  let ?v = "VMap [(VStr [98], VList [VInt 5, VStr [99]]), (VInt 7, VNone)]"
  have v: "storable seg_ok ?v" using char_seg_ok by (auto simp: seg_of_eq less_Suc_eq)
  have n: "norm ?v = VMap [(VInt 7, VNone), (VStr [98], VList [VInt 5, VStr [99]])]"
    by (simp add: less_eq_seg_def)
  have "vacant (txn_map (vs_init, tx_begin 0 vs_init)) (view_site root_view @ [SStr [97]])"
    by (simp add: vacant_def txn_begin_map)
  from nested_value_roundtrip [OF txn_begin_ok _ char_seg_ok(1) _ v this, of 0] obtain st where
    "set_child_value std_registry (txn_ctx 0) root_view (VStr [97]) ?v (vs_init, tx_begin 0 vs_init) = Some (Inr (), st)"
    "\<forall>pages > txn_weight st. \<exists>st''. get_child_value std_registry (txn_ctx pages) root_view (SStr [97]) st = Some (Inr (norm ?v), st'') \<and>
       txn_map st'' = txn_map st"
    using root_chain root_ok by (auto simp: txn_begin_map)
  then show ?thesis unfolding n by blast
qed

text \<open>C15: On a list view over a list of leaves, any sequence of calls that pass leaves, of \<open>append\<close>,
  \<open>insert\<close>, \<open>extend\<close>, \<open>pop\<close>, item assignment, deletion and reading, negative and out of range
  indexes included, returns and raises what the same calls on a Python list do, and leaves the view's
  rows those of the resulting list, every other key untouched. Leaves are the values the default views
  do not store as containers: no dicts, lists, tuples or sets. A list that holds containers does not
  behave so, as C19 shows for a nested list.\<close>

theorem list_view_is_a_list:
  assumes "txn_ok s0 st" and "bin_ok (view_site W)" and "data_site (view_site W)" and "view_cls W = EagerListView"
    and "holds (txn_map st) (view_site W) (VList xs)" and "\<forall>x \<in> set xs. is_leaf x" and "list_all call_leaf cs"
    and "int (length xs + sum_list (map call_grows cs)) \<le> INT64_MAX + 1"
  shows "\<exists>st'. list_run std_registry (txn_ctx pages) W cs st = Some (fst (py_list_run cs xs), st') \<and> txn_ok s0 st' \<and>
    txn_map st' = place (view_site W) (VList (snd (py_list_run cs xs))) (txn_map st)"
proof (rule txn_view.list_run_ok [OF assms(1-3) _ assms(4) _ assms(6,7)])
  show "txn_map st = place (view_site W) (VList xs) (txn_map st)" using holds_imp_place [OF assms(5)] by simp
qed (rule index_seg_ok [OF assms(8)])

theorem list_view_is_a_list_witness:
  "\<exists>st st'. holds (txn_map st) (ROOT @ [SStr [97]]) (VList [VInt 5]) \<and>
     list_run std_registry (txn_ctx 0) (View EagerListView (ROOT @ [SStr [97]]) (Some root_view))
       [Append (VInt 6), Insert (- 1) (VInt 8), Del_Item 7, Pop 0] st = Some ([Inr VNone, Inr VNone, Inl IndexError, Inr (VInt 5)], st') \<and>
     holds (txn_map st') (ROOT @ [SStr [97]]) (VList [VInt 8, VInt 6])"
proof -
  let ?W = "View EagerListView (ROOT @ [SStr [97]]) (Some root_view)"
  let ?cs = "[Append (VInt 6), Insert (- 1) (VInt 8), Del_Item 7, Pop 0]"
  have "storable seg_ok (VList [VInt 5])" using char_seg_ok(3) by simp
  from stored_exists [OF this char_seg_ok(1)] obtain st where
    st: "txn_ok vs_init st" "holds (txn_map st) (ROOT @ [SStr [97]]) (VList [VInt 5])" by blast
  have T: "data_site (ROOT @ [SStr [97]])" using root_chain(2) by simp
  have r: "py_list_run ?cs [VInt 5] = ([Inr VNone, Inr VNone, Inl IndexError, Inr (VInt 5)], [VInt 8, VInt 6])"
    by (simp add: py_index_def)
  have p: "bin_ok (view_site ?W)" "data_site (view_site ?W)" "view_cls ?W = EagerListView"
    "holds (txn_map st) (view_site ?W) (VList [VInt 5])" "\<forall>x \<in> set [VInt 5]. is_leaf x" "list_all call_leaf ?cs"
    "int (length [VInt 5] + sum_list (map call_grows ?cs)) \<le> INT64_MAX + 1"
    using st(2) T child_site_ok [OF char_seg_ok(1)] by (simp_all add: INT64_MAX_def del: is_leaf.simps)
  obtain st' where
    "list_run std_registry (txn_ctx 0) ?W ?cs st = Some (fst (py_list_run ?cs [VInt 5]), st')"
    "txn_map st' = place (view_site ?W) (VList (snd (py_list_run ?cs [VInt 5]))) (txn_map st)"
    using list_view_is_a_list [OF st(1) p, of 0] by blast
  with st(2) holds_place [OF T] show ?thesis unfolding r fst_conv snd_conv view.sel by metis
qed

text \<open>C17: Writing to a dict view over a stored dict. Assigning to a new key, or over a leaf with a leaf,
  and deleting a key (silently if it is missing, with its whole subtree and the lengths stored for it
  otherwise) leave the rows of the dict Python would have, every other key untouched. Assigning a dict
  over a stored dict, or a list over a stored list, replaces it, none of its items left behind, when
  those items are leaves (a nested value may still replace them); a dict over a list or a list over a
  dict raises \<open>ContainerExistsError\<close>. A leaf over a container, or a container over a leaf, raises
  \<open>ContainerTypeError\<close>, and a value that holds \<open>EMPTY\<close> or a key that is neither an integer nor a
  string is refused; none of these changes anything. Assigned values are built of dicts, lists and
  leaves.\<close>

theorem dict_view_writes:
  assumes "txn_ok s0 st" and "bin_ok (view_site W)" and "data_site (view_site W)" and "view_cls W = EagerDictView"
    and "holds (txn_map st) (view_site W) (VMap items)" and "storable seg_ok (VMap items)" and "seg_ok x" and "storable seg_ok v"
  shows "(case item_at items x of
      Some w \<Rightarrow> is_leaf w \<noteq> is_leaf v \<longrightarrow>
        dict_setitem std_registry (txn_ctx pages) W (val_of x) v st = Some (Inl ContainerTypeError, st)
    | None \<Rightarrow> True) \<and>
    ((case item_at items x of Some w \<Rightarrow> is_leaf w \<and> is_leaf v | None \<Rightarrow> True) \<longrightarrow>
      (\<exists>st'. dict_setitem std_registry (txn_ctx pages) W (val_of x) v st = Some (Inr (), st') \<and> txn_ok s0 st' \<and>
        txn_map st' = place (view_site W) (VMap (set_item (val_of x) v items)) (txn_map st))) \<and>
    (txn_weight st < pages \<longrightarrow>
      (\<exists>st'. dict_delitem (txn_ctx pages) W (val_of x) st = Some (Inr (), st') \<and> txn_ok s0 st' \<and>
        txn_map st' = place (view_site W) (VMap (del_item (val_of x) items)) (txn_map st))) \<and>
    (\<forall>k u. seg_of k = None \<or> find_empty u [] \<noteq> None \<longrightarrow>
      dict_setitem std_registry (txn_ctx pages) W k u st = Some (Inl (if seg_of k = None then TypeError else ValueError), st)) \<and>
    (\<forall>w. item_at items x = Some w \<and> cls_of w \<noteq> None \<and> cls_of v \<noteq> None \<longrightarrow>
      (cls_of w \<noteq> cls_of v \<longrightarrow> dict_setitem std_registry (txn_ctx pages) W (val_of x) v st = Some (Inl ContainerExistsError, st)) \<and>
      (cls_of w = cls_of v \<and> flat w \<and> txn_weight st < pages \<longrightarrow>
        (\<exists>st'. dict_setitem std_registry (txn_ctx pages) W (val_of x) v st = Some (Inr (), st') \<and> txn_ok s0 st' \<and>
          txn_map st' = place (view_site W) (VMap (set_item (val_of x) v items)) (txn_map st))))"
proof (intro conjI)
  show "case item_at items x of
      Some w \<Rightarrow> is_leaf w \<noteq> is_leaf v \<longrightarrow>
        dict_setitem std_registry (txn_ctx pages) W (val_of x) v st = Some (Inl ContainerTypeError, st)
    | None \<Rightarrow> True"
    using txn_view.dict_set_kind [OF assms(1,2,7,3-5,8)] storable_child [OF assms(6), of x]
    by (auto split: option.splits)
  show "(case item_at items x of Some w \<Rightarrow> is_leaf w \<and> is_leaf v | None \<Rightarrow> True) \<longrightarrow>
      (\<exists>st'. dict_setitem std_registry (txn_ctx pages) W (val_of x) v st = Some (Inr (), st') \<and> txn_ok s0 st' \<and>
        txn_map st' = place (view_site W) (VMap (set_item (val_of x) v items)) (txn_map st))"
    using txn_view.dict_set_ok [OF assms(1,2,7,3-5,8), of pages] by (auto split: option.splits)
  show "txn_weight st < pages \<longrightarrow>
      (\<exists>st'. dict_delitem (txn_ctx pages) W (val_of x) st = Some (Inr (), st') \<and> txn_ok s0 st' \<and>
        txn_map st' = place (view_site W) (VMap (del_item (val_of x) items)) (txn_map st))"
    using txn_view.dict_del_ok [OF assms(1) _ assms(2,7,3-6)] by blast
  show "\<forall>k u. seg_of k = None \<or> find_empty u [] \<noteq> None \<longrightarrow>
      dict_setitem std_registry (txn_ctx pages) W k u st = Some (Inl (if seg_of k = None then TypeError else ValueError), st)"
    by (auto simp: dict_setitem_def set_child_value.simps act_bind_def reject_empty_def reject_bad_key_def is_view_key_def
        reject_empty_value_def)
  show "\<forall>w. item_at items x = Some w \<and> cls_of w \<noteq> None \<and> cls_of v \<noteq> None \<longrightarrow>
      (cls_of w \<noteq> cls_of v \<longrightarrow> dict_setitem std_registry (txn_ctx pages) W (val_of x) v st = Some (Inl ContainerExistsError, st)) \<and>
      (cls_of w = cls_of v \<and> flat w \<and> txn_weight st < pages \<longrightarrow>
        (\<exists>st'. dict_setitem std_registry (txn_ctx pages) W (val_of x) v st = Some (Inr (), st') \<and> txn_ok s0 st' \<and>
          txn_map st' = place (view_site W) (VMap (set_item (val_of x) v items)) (txn_map st)))"
    using txn_view.dict_replace_ok [OF assms(1,2,7,3-5,8)] by blast
qed

theorem dict_view_writes_witness:
  "\<exists>st st' st2. holds (txn_map st) (ROOT @ [SStr [97]]) (VMap [(VInt 7, VList [VInt 5])]) \<and>
     dict_setitem std_registry (txn_ctx (Suc (txn_weight st))) (View EagerDictView (ROOT @ [SStr [97]]) (Some root_view)) (VInt 7) VNone st =
       Some (Inl ContainerTypeError, st) \<and>
     dict_delitem (txn_ctx (Suc (txn_weight st))) (View EagerDictView (ROOT @ [SStr [97]]) (Some root_view)) (VInt 7) st = Some (Inr (), st') \<and>
     holds (txn_map st') (ROOT @ [SStr [97]]) (VMap []) \<and>
     dict_setitem std_registry (txn_ctx (Suc (txn_weight st))) (View EagerDictView (ROOT @ [SStr [97]]) (Some root_view)) (VInt 7) (VList [VNone]) st =
       Some (Inr (), st2) \<and>
     holds (txn_map st2) (ROOT @ [SStr [97]]) (VMap [(VInt 7, VList [VNone])])"
proof -
  let ?W = "View EagerDictView (ROOT @ [SStr [97]]) (Some root_view)" and ?v = "VMap [(VInt 7, VList [VInt 5])]"
  have v: "storable seg_ok ?v" using char_seg_ok by simp
  from stored_exists [OF v char_seg_ok(1)] obtain st where
    st: "txn_ok vs_init st" "holds (txn_map st) (ROOT @ [SStr [97]]) ?v" by blast
  have T: "data_site (ROOT @ [SStr [97]])" using root_chain(2) by simp
  have p: "bin_ok (view_site ?W)" "data_site (view_site ?W)" "view_cls ?W = EagerDictView" "holds (txn_map st) (view_site ?W) ?v"
    using st(2) T child_site_ok [OF char_seg_ok(1)] by simp_all
  note D = dict_view_writes [OF st(1) p v char_seg_ok(5) storable_leaf [OF is_leaf_scalar(1)], of "Suc (txn_weight st)"]
  have "dict_setitem std_registry (txn_ctx (Suc (txn_weight st))) ?W (VInt 7) VNone st = Some (Inl ContainerTypeError, st)"
    using D by (simp add: extract_marker_def)
  moreover obtain st' where "dict_delitem (txn_ctx (Suc (txn_weight st))) ?W (VInt 7) st = Some (Inr (), st')"
    "txn_map st' = place (view_site ?W) (VMap (del_item (VInt 7) [(VInt 7, VList [VInt 5])])) (txn_map st)"
    using D [THEN conjunct2, THEN conjunct2, THEN conjunct1] unfolding val_of.simps by blast
  moreover have "del_item (VInt 7) [(VInt 7, VList [VInt 5])] = []" by (simp add: del_item_def)
  moreover have l: "storable seg_ok (VList [VNone])" using char_seg_ok(3) by simp
  note R = dict_view_writes [OF st(1) p v char_seg_ok(5) l, of "Suc (txn_weight st)", THEN conjunct2, THEN conjunct2, THEN conjunct2, THEN conjunct2]
  obtain st2 where
    "dict_setitem std_registry (txn_ctx (Suc (txn_weight st))) ?W (VInt 7) (VList [VNone]) st = Some (Inr (), st2)"
    "txn_map st2 = place (view_site ?W) (VMap (set_item (VInt 7) (VList [VNone]) [(VInt 7, VList [VInt 5])])) (txn_map st)"
    using R [rule_format, of "VList [VInt 5]"] by (auto simp: extract_marker_def)
  moreover have "set_item (VInt 7) (VList [VNone]) [(VInt 7, VList [VInt 5])] = [(VInt 7, VList [VNone])]" by simp
  ultimately show ?thesis using st(2) holds_place [OF T] unfolding view.sel by metis
qed

text \<open>C18: Reading a dict view over a stored dict: a key gives its value (nested dicts in key order) or
  \<open>KeyError\<close>, membership is membership, the keys come in key order, and the length, counted live, is
  the number of items; a key of a type a dict view cannot hold is absent.\<close>

theorem dict_view_reads:
  assumes "txn_ok s0 st" and "txn_weight st < pages" and "bin_ok (view_site W)" and "data_site (view_site W)"
    and "view_cls W = EagerDictView" and "holds (txn_map st) (view_site W) (VMap items)" and "storable seg_ok (VMap items)" and "seg_ok x"
  shows "\<exists>s1 s2 s3.
    dict_getitem std_registry (txn_ctx pages) W (val_of x) st =
      Some (case item_at items x of None \<Rightarrow> Inl KeyError | Some w \<Rightarrow> Inr (norm w), s1) \<and>
    dict_contains (txn_ctx pages) W (val_of x) st = Inr (item_at items x \<noteq> None) \<and>
    dict_keys (txn_ctx pages) W st = Some (sorted_list_of_set {x. \<exists>v. item_at items x = Some v}, Inr (), s2) \<and>
    dict_len (txn_ctx pages) W st = Some (Inr (int (length items)), s3) \<and>
    txn_map s1 = txn_map st \<and> txn_map s2 = txn_map st \<and>
    (\<forall>k. seg_of k = None \<longrightarrow> dict_getitem std_registry (txn_ctx pages) W k st = Some (Inl KeyError, st) \<and>
       dict_contains (txn_ctx pages) W k st = Inr False)"
proof -
  have l: "txn_map st (view_site W) \<noteq> None" using txn_view.dict_live [OF assms(4-6)] by (simp add: live_def)
  note c = txn_view.dict_children [OF assms(4,6)]
  from txn_view.dict_get_ok [OF assms(1-3,8,4,6,7)] obtain s1 where
    s1: "dict_getitem std_registry (txn_ctx pages) W (val_of x) st =
      Some (case item_at items x of None \<Rightarrow> Inl KeyError | Some w \<Rightarrow> Inr (norm w), s1)" "txn_map s1 = txn_map st"
    unfolding same_def by blast
  from txn_kv.child_keys_rows [OF assms(1-3), of False True] l obtain s2 where
    s2: "dict_keys (txn_ctx pages) W st = Some (sorted_list_of_set {x. \<exists>v. item_at items x = Some v}, Inr (), s2)" "txn_map s2 = txn_map st"
    unfolding dict_keys_def c by auto
  from txn_kv.count_children_rows [OF assms(1-3), of True] l obtain s3 where
    s3: "dict_len (txn_ctx pages) W st = Some (Inr (int (length items)), s3)"
    unfolding dict_len_def c item_keys_length [OF assms(7)] by auto
  have "dict_contains (txn_ctx pages) W (val_of x) st = Inr (item_at items x \<noteq> None)"
    by (rule txn_view.dict_contains_ok [OF assms(1,3,8,4-7)])
  moreover have "dict_getitem std_registry (txn_ctx pages) W k st = Some (Inl KeyError, st) \<and>
      dict_contains (txn_ctx pages) W k st = Inr False" if "seg_of k = None" for k
    using that by (simp add: dict_getitem_def dict_contains_def)
  ultimately show ?thesis using s1 s2 s3 by (intro exI [of _ s1] exI [of _ s2] exI [of _ s3]) simp
qed

theorem dict_view_reads_witness:
  "\<exists>st s1 s2. holds (txn_map st) (ROOT @ [SStr [97]]) (VMap [(VStr [98], VNone), (VInt 7, VList [VInt 5])]) \<and>
     dict_getitem std_registry (txn_ctx (Suc (txn_weight st))) (View EagerDictView (ROOT @ [SStr [97]]) (Some root_view)) (VInt 7) st =
       Some (Inr (VList [VInt 5]), s1) \<and>
     dict_len (txn_ctx (Suc (txn_weight st))) (View EagerDictView (ROOT @ [SStr [97]]) (Some root_view)) st = Some (Inr 2, s2)"
proof -
  let ?W = "View EagerDictView (ROOT @ [SStr [97]]) (Some root_view)" and ?items = "[(VStr [98], VNone), (VInt 7, VList [VInt 5])]"
  have v: "storable seg_ok (VMap ?items)" using char_seg_ok by (auto simp: seg_of_eq)
  from stored_exists [OF v char_seg_ok(1)] obtain st where
    st: "txn_ok vs_init st" "holds (txn_map st) (ROOT @ [SStr [97]]) (VMap ?items)" by blast
  have p: "bin_ok (view_site ?W)" "data_site (view_site ?W)" "view_cls ?W = EagerDictView" "holds (txn_map st) (view_site ?W) (VMap ?items)"
    using st(2) root_chain(2) child_site_ok [OF char_seg_ok(1)] by simp_all
  from dict_view_reads [OF st(1) lessI p v char_seg_ok(5)] st(2) show ?thesis by (fastforce simp: p)
qed

text \<open>C19: Deleting in front of a nested list loses the nested list's length. \<open>move_child_subtree\<close> moves the
  data rows of the child only, and its length is a row of the metadata tree: after \<open>del l[0]\<close> on \<open>[u, ys]\<close>
  the rows of \<open>ys\<close> are all there at index 0, but the view of the nested list has length 0, every index
  raises \<open>IndexError\<close>, and an append overwrites its first element.\<close>

theorem nested_list_loses_length:
  assumes "txn_ok s0 st" and "Suc (txn_weight st) < pages" and "bin_ok (view_site W)" and "data_site (view_site W)"
    and "view_cls W = EagerListView" and "holds (txn_map st) (view_site W) (VList [u, VList ys])" and "is_leaf u"
    and "C = View EagerListView (view_site W @ [SInt 0]) (Some W)"
  shows "\<exists>st'. list_delitem (txn_ctx pages) W 0 st = Some (Inr (), st') \<and>
    (\<forall>p. txn_map st' (view_site W @ SInt 0 # p) = data_at (VList ys) p) \<and>
    list_len (txn_ctx pages) C st' = Inr 0 \<and>
    (\<forall>i. list_getitem std_registry (txn_ctx pages) C i st' = Some (Inl IndexError, st')) \<and>
    (\<forall>v. is_leaf v \<and> (\<exists>y zs. ys = y # zs \<and> is_leaf y) \<longrightarrow>
       (\<exists>st''. list_append std_registry (txn_ctx pages) C v st' = Some (Inr (), st'') \<and>
          txn_map st'' (view_site W @ [SInt 0, SInt 0]) = Some v))"
proof -
  let ?T = "view_site W @ [SInt 0]"
  from txn_view.delitem_moves [OF assms(1-4) char_seg_ok(3,4) assms(5-7)] obtain st' where
    st': "list_delitem (txn_ctx pages) W 0 st = Some (Inr (), st')" "txn_ok s0 st'"
      "\<And>p. txn_map st' (view_site W @ SInt 0 # p) = data_at (VList ys) p" "txn_map st' (meta_key ?T LEN) = None" by blast
  have C: "view_site C = ?T" "view_cls C = EagerListView" by (simp_all add: assms(8))
  have k: "bin_ok (view_site C)" "data_site (view_site C)"
    using assms(3,4) char_seg_ok(3) by (simp_all add: C bin_ok_iff)
  have here: "txn_map st' ?T = Some (marker_of EagerListView)" using st'(3) [of "[]"] by simp
  then have l: "live (txn_map st') C" using k(2) by (simp add: live_def C)
  have len: "stored_len (txn_ctx pages) C st' = Inr 0"
    using txn_view.stored_len_ok [OF st'(2) k(1), of pages] st'(4) by (simp add: C)
  have "list_len (txn_ctx pages) C st' = Inr 0"
    using txn_kv.read_site_ok [OF st'(2) txn_view.okk_len [OF k(1)], of pages] txn_kv.node_exists_ok [OF st'(2) k(1), of pages] st'(4) here
    by (simp add: list_len_def get_metadata_def require_exists_def C)
  moreover have "list_getitem std_registry (txn_ctx pages) C i st' = Some (Inl IndexError, st')" for i
    using len by (simp add: list_getitem_def list_getitem_with_def act_bind_def normalize_address_def)
  moreover have "\<exists>st''. list_append std_registry (txn_ctx pages) C v st' = Some (Inr (), st'') \<and>
      txn_map st'' (view_site W @ [SInt 0, SInt 0]) = Some v" if v: "is_leaf v" "ys = y # zs" "is_leaf y" for v y zs
  proof -
    have "txn_map st' (view_site C @ [SInt 0]) = Some y" using st'(3) [of "[SInt 0]"] v by (simp add: C)
    moreover have "extract_marker y = Inr None" using v(3) by (cases y) (auto simp: extract_marker_def)
    ultimately obtain s1 where
      s1: "set_child_value std_registry (txn_ctx pages) C (VInt 0) v st' = Some (Inr (), s1)" "txn_ok s0 s1"
        "txn_map s1 = (txn_map st')(view_site C @ [SInt 0] \<mapsto> v)"
      using txn_view.set_leaf [OF st'(2) k(1) char_seg_ok(3) l v(1), of pages] by auto
    from txn_view.set_length_ok [OF s1(2) k, of pages 1] obtain s2 where
      "set_length (txn_ctx pages) C 1 s1 = (Inr (), s2)" "txn_map s2 = (txn_map s1)(meta_key (view_site C) LEN \<mapsto> VInt 1)" by blast
    with s1 len len_ne_item(2) [OF k(2), of "[SInt 0]"] show ?thesis
      by (simp add: list_append_def act_bind_def C)
  qed
  ultimately show ?thesis using st'(1,3) by blast
qed

theorem nested_list_loses_length_witness:
  "\<exists>st st'. holds (txn_map st) (ROOT @ [SStr [97]]) (VList [VNone, VList [VInt 5, VInt 6]]) \<and>
     list_delitem (txn_ctx (Suc (Suc (txn_weight st)))) (View EagerListView (ROOT @ [SStr [97]]) (Some root_view)) 0 st = Some (Inr (), st') \<and>
     txn_map st' (ROOT @ [SStr [97], SInt 0, SInt 1]) = Some (VInt 6) \<and>
     list_len (txn_ctx (Suc (Suc (txn_weight st)))) (View EagerListView (ROOT @ [SStr [97], SInt 0]) (Some (View EagerListView (ROOT @ [SStr [97]]) (Some root_view)))) st' = Inr 0"
proof -
  let ?W = "View EagerListView (ROOT @ [SStr [97]]) (Some root_view)" and ?v = "VList [VNone, VList [VInt 5, VInt 6]]"
  have v: "storable seg_ok ?v" using char_seg_ok by (auto simp: less_Suc_eq)
  from stored_exists [OF v char_seg_ok(1)] obtain st where
    st: "txn_ok vs_init st" "holds (txn_map st) (ROOT @ [SStr [97]]) ?v" by blast
  have p: "bin_ok (view_site ?W)" "data_site (view_site ?W)" "view_cls ?W = EagerListView" "holds (txn_map st) (view_site ?W) ?v"
    using st(2) root_chain(2) child_site_ok [OF char_seg_ok(1)] by simp_all
  obtain st' where "list_delitem (txn_ctx (Suc (Suc (txn_weight st)))) ?W 0 st = Some (Inr (), st')"
    "\<And>p. txn_map st' (view_site ?W @ SInt 0 # p) = data_at (VList [VInt 5, VInt 6]) p"
    "list_len (txn_ctx (Suc (Suc (txn_weight st)))) (View EagerListView (view_site ?W @ [SInt 0]) (Some ?W)) st' = Inr 0"
    using nested_list_loses_length [OF st(1) lessI p is_leaf_scalar(1) refl] by blast
  from this(1,3) this(2) [of "[SInt 1]"] st(2) show ?thesis by (intro exI [of _ st] exI [of _ st']) simp
qed

end
