(* ===== verification/Frac_View.thy ===== *)
theory Frac_View
  imports View_Methods Fractional_Index
begin

text \<open>
  The ordered dict view with fractional index order keys (\<open>_views/fractional_indexed_dict_view.py\<close>),
  its eager facet. Under the site of the view there are three containers: \<open>__data__\<close> holds the values,
  \<open>__order__\<close> maps an order key to an id, \<open>__pos__\<close> an id to its order key.

  The random digits come from a stream of numbers, \<open>random\<close>; a state carries how many were drawn. A
  child container is created before it is filled, so its own \<open>ensure_created\<close> never gets as far as
  this view: it is modelled as a view without a parent.
\<close>

section \<open>The view\<close>

record frac_view =
  fv_site :: site
  fv_parent :: "view option"

definition FRAC_STRUCTURE :: pyval where "FRAC_STRUCTURE = VInt 17"
definition FRAC_PROTOCOL :: int where "FRAC_PROTOCOL = FLAG_MAPPING OR FLAG_MUTABLE"
definition SUFFIX_LENGTH :: int where "SUFFIX_LENGTH = DEFAULT_SUFFIX_LENGTH"
definition MAX_KEY_LENGTH :: nat where "MAX_KEY_LENGTH = 128"
definition RESPACE_WINDOW :: nat where "RESPACE_WINDOW = 16"
definition RESPACE_TARGET :: nat where "RESPACE_TARGET = 64"
definition ALLOT_ATTEMPTS :: nat where "ALLOT_ATTEMPTS = 8"

definition DATA :: seg where "DATA = SStr (lit ''__data__'')"
definition ORDER :: seg where "ORDER = SStr (lit ''__order__'')"
definition POS :: seg where "POS = SStr (lit ''__pos__'')"

definition frac_data :: "frac_view \<Rightarrow> site" where "frac_data F = fv_site F @ [DATA]"
definition frac_order :: "frac_view \<Rightarrow> site" where "frac_order F = fv_site F @ [ORDER]"
definition frac_pos :: "frac_view \<Rightarrow> site" where "frac_pos F = fv_site F @ [POS]"

definition ensure_internal_layout :: "('e, 'g, 's) kv_ctx \<Rightarrow> frac_view \<Rightarrow> 's \<Rightarrow> (unit res \<times> 's) option" where
  "ensure_internal_layout ctx F =
     act_each (\<lambda>name. act_write (create_child_container ctx (fv_site F) name (VInt 1) (FLAG_MAPPING OR FLAG_MUTABLE) False))
       [DATA, ORDER, POS]"

text \<open>\<open>ensure_created\<close>, with the parent's \<open>_ensure_child_view\<close>.\<close>

definition frac_ensure_created :: "('e, 'g, 's) kv_ctx \<Rightarrow> frac_view \<Rightarrow> 's \<Rightarrow> (unit res \<times> 's) option" where
  "frac_ensure_created ctx F =
     act_bind
       (case fv_parent F of
          None \<Rightarrow> act_write (container_create ctx (fv_site F) FRAC_STRUCTURE FRAC_PROTOCOL None)
        | Some p \<Rightarrow>
            act_bind (act_read (get_node_info ctx (fv_site F) None)) (\<lambda>info.
              act_bind (if \<not> ni_exists info then ensure_created ctx p else act_ret ()) (\<lambda>_.
                act_write (container_create ctx (fv_site F) FRAC_STRUCTURE FRAC_PROTOCOL (Some info)))))
       (\<lambda>_. ensure_internal_layout ctx F)"

text \<open>
  The rows of \<open>__order__\<close> and \<open>__pos__\<close>, which only the view writes: order keys are strings, and ids
  are keys a view takes.
\<close>

fun okey_of :: "pyval \<Rightarrow> pystr res" where
  "okey_of (VStr k) = Inr k"
| "okey_of _ = Inl TypeError"

definition id_of :: "pyval \<Rightarrow> seg res" where
  "id_of v = (case seg_of v of None \<Rightarrow> Inl TypeError | Some a \<Rightarrow> Inr a)"

fun order_row :: "pyval scanned \<Rightarrow> (pystr \<times> seg) res" where
  "order_row (Out_Item key v) =
     (case last key of SStr k \<Rightarrow> rbind (id_of v) (\<lambda>a. Inr (k, a)) | SInt i \<Rightarrow> Inl TypeError)"
| "order_row _ = Inl TypeError"

section \<open>The order index\<close>

definition position_or_empty :: "('e, 'g, 's) kv_ctx \<Rightarrow> frac_view \<Rightarrow> pyval \<Rightarrow> 's \<Rightarrow> pystr option res" where
  "position_or_empty ctx F address s =
     (case seg_of address of
        None \<Rightarrow> Inr None
      | Some a \<Rightarrow> rbind (get_child_primitive_unsafe ctx (frac_pos F) a s) (\<lambda>v.
          case v of None \<Rightarrow> Inr None | Some p \<Rightarrow> rbind (okey_of p) (\<lambda>k. Inr (Some k))))"

text \<open>It returns the segment too, for the caller to go on with.\<close>

definition require_position :: "('e, 'g, 's) kv_ctx \<Rightarrow> frac_view \<Rightarrow> pyval \<Rightarrow> 's \<Rightarrow> (seg \<times> pystr) res" where
  "require_position ctx F address s =
     rbind (position_or_empty ctx F address s) (\<lambda>okey.
       case okey of None \<Rightarrow> Inl KeyError | Some k \<Rightarrow> Inr (the (seg_of address), k))"

definition order_options ::
  "('e, 'g, 's) kv_ctx \<Rightarrow> site \<Rightarrow> pystr option \<Rightarrow> bool \<Rightarrow> int option \<Rightarrow> pystr list \<Rightarrow> 'e scan_options res" where
  "order_options ctx site start reverse limit skip =
     (let prefix = PrefixFilter site; child_len = LengthFilter (int (length site + 1));
          storage_limit = map_option (\<lambda>n. n + int (length skip)) limit
      in if reverse \<and> start = None then
           rbind (ctx_bound ctx site) (\<lambda>bound. Inr
             \<lparr>so_start = None, so_reverse = True, so_limit = storage_limit, so_filter = Some (filter_and prefix child_len),
              so_break_filter = Some prefix, so_start_encoded = Some bound, so_max_depth = None\<rparr>)
         else Inr
           \<lparr>so_start = Some (case start of None \<Rightarrow> site | Some k \<Rightarrow> site @ [SStr k]), so_reverse = reverse,
            so_limit = storage_limit, so_filter = Some (filter_and prefix child_len),
            so_break_filter = Some prefix, so_start_encoded = None, so_max_depth = None\<rparr>)"

text \<open>The loop of \<open>_scan_order\<close>; \<open>seen\<close> is what \<open>scan_or_absent\<close> knows.\<close>

partial_function (option) order_loop ::
  "('e, 'g, 's) kv_ctx \<Rightarrow> 'e scan_options \<Rightarrow> pystr list \<Rightarrow> int option \<Rightarrow> bool \<Rightarrow> int \<Rightarrow> 'g \<Rightarrow> 's \<Rightarrow>
   ((pystr \<times> seg) list \<times> unit res \<times> bool \<times> 's) option" where
  "order_loop ctx options skip limit seen yielded g s =
     do {
       (ev, g, s) \<leftarrow> ctx_next ctx options ITEMS g s;
       (case ev of
          Return \<Rightarrow> Some ([], Inr (), seen, s)
        | Raise e \<Rightarrow> Some ([], Inl e, seen, s)
        | Yield row \<Rightarrow>
            (case order_row row of
               Inl e \<Rightarrow> Some ([], Inl e, True, s)
             | Inr (okey, a) \<Rightarrow>
                 if okey \<in> set skip then order_loop ctx options skip limit True yielded g s
                 else if (case limit of None \<Rightarrow> False | Some n \<Rightarrow> yielded + 1 \<ge> n)
                 then Some ([(okey, a)], Inr (), True, s)
                 else do {
                   (rows, r, seen, s) \<leftarrow> order_loop ctx options skip limit True (yielded + 1) g s;
                   Some ((okey, a) # rows, r, seen, s)
                 }))
     }"

definition scan_order ::
  "('e, 'g, 's) kv_ctx \<Rightarrow> frac_view \<Rightarrow> pystr option \<Rightarrow> bool \<Rightarrow> int option \<Rightarrow> pystr list \<Rightarrow> bool \<Rightarrow> 's \<Rightarrow>
   ((pystr \<times> seg) list \<times> unit res \<times> 's) option" where
  "scan_order ctx F start reverse limit skip strict s =
     attempt_gen (order_options ctx (frac_order F) start reverse limit skip) s (\<lambda>options.
       attempt_gen (require_read_context ctx) s (\<lambda>_. do {
         (rows, r, seen, s) \<leftarrow> order_loop ctx options skip limit False 0 (ctx_scan ctx) s;
         Some (rows, rbind r (\<lambda>_. if strict \<and> \<not> seen then rbind (node_exists ctx (fv_site F) s) (\<lambda>here.
                 if \<not> here then Inl ContainerNotFoundError else Inr ()) else Inr ()), s)
       }))"

text \<open>\<open>list(self._scan_order(...))\<close>, and its first row.\<close>

definition order_rows ::
  "('e, 'g, 's) kv_ctx \<Rightarrow> frac_view \<Rightarrow> pystr option \<Rightarrow> bool \<Rightarrow> int option \<Rightarrow> pystr list \<Rightarrow> bool \<Rightarrow> 's \<Rightarrow>
   ((pystr \<times> seg) list res \<times> 's) option" where
  "order_rows ctx F start reverse limit skip strict =
     act_bind (act_gen (scan_order ctx F start reverse limit skip strict)) (\<lambda>(rows, r).
       act_bind (act_read (\<lambda>_. r)) (\<lambda>_. act_ret rows))"

definition first_row ::
  "('e, 'g, 's) kv_ctx \<Rightarrow> frac_view \<Rightarrow> pystr option \<Rightarrow> bool \<Rightarrow> pystr list \<Rightarrow> bool \<Rightarrow> 's \<Rightarrow>
   ((pystr \<times> seg) option res \<times> 's) option" where
  "first_row ctx F start reverse skip strict =
     act_bind (act_gen (scan_order ctx F start reverse (Some 1) skip strict)) (\<lambda>(rows, r).
       case rows of [] \<Rightarrow> act_bind (act_read (\<lambda>_. r)) (\<lambda>_. act_ret None) | row # _ \<Rightarrow> act_ret (Some row))"

definition edge :: "('e, 'g, 's) kv_ctx \<Rightarrow> frac_view \<Rightarrow> bool \<Rightarrow> bool \<Rightarrow> 's \<Rightarrow> ((pystr \<times> seg) option res \<times> 's) option" where
  "edge ctx F at_end strict = first_row ctx F None at_end [] strict"

definition neighbour ::
  "('e, 'g, 's) kv_ctx \<Rightarrow> frac_view \<Rightarrow> pystr \<Rightarrow> bool \<Rightarrow> pystr list \<Rightarrow> 's \<Rightarrow> ((pystr \<times> seg) option res \<times> 's) option" where
  "neighbour ctx F okey below skip = first_row ctx F (Some okey) below (okey # skip) False"

section \<open>Placing\<close>

text \<open>A call on the context, and a draw from the stream of random digits.\<close>

definition on_ctx :: "('s \<Rightarrow> ('a res \<times> 's) option) \<Rightarrow> 's \<times> nat \<Rightarrow> ('a res \<times> 's \<times> nat) option" where
  "on_ctx m st = map_option (\<lambda>(r, s). (r, s, snd st)) (m (fst st))"

definition draw :: "(nat \<Rightarrow> ('a \<times> nat) res option) \<Rightarrow> 's \<times> nat \<Rightarrow> ('a res \<times> 's \<times> nat) option" where
  "draw f st = map_option (\<lambda>r. case r of Inl e \<Rightarrow> (Inl e, st) | Inr (x, t) \<Rightarrow> (Inr x, fst st, t)) (f (snd st))"

definition index_row :: "('e, 'g, 's) kv_ctx \<Rightarrow> frac_view \<Rightarrow> seg \<Rightarrow> pystr \<Rightarrow> 's \<Rightarrow> (unit res \<times> 's) option" where
  "index_row ctx F a okey =
     act_bind (act_write (put_child_primitive ctx (frac_pos F) a (VStr okey) False False)) (\<lambda>_.
       act_write (put_child_primitive ctx (frac_order F) (SStr okey) (val_of a) False False))"

text \<open>
  One round of the loop of \<open>_respace_around\<close>: the rows of the window on both sides of the gap (the lower
  ones in order), and the fresh keys for them with the gap's own between.
\<close>

definition cut_window :: "nat option \<Rightarrow> (pystr \<times> seg) list \<Rightarrow> pystr option \<times> (pystr \<times> seg) list" where
  "cut_window k rows =
     (case k of
        None \<Rightarrow> (None, rows)
      | Some n \<Rightarrow> if length rows > n then (Some (fst (rows ! n)), take n rows) else (None, rows))"

definition respace_window ::
  "(nat \<Rightarrow> nat) \<Rightarrow> ('e, 'g, 's) kv_ctx \<Rightarrow> frac_view \<Rightarrow> pystr option \<Rightarrow> pystr option \<Rightarrow> nat option \<Rightarrow> 's \<times> nat \<Rightarrow>
   (((pystr \<times> seg) list \<times> pystr list \<times> (pystr \<times> seg) list) res \<times> 's \<times> nat) option" where
  "respace_window random ctx F prev nxt k =
     (let limit = map_option (\<lambda>n. int n + 1) k in
      act_bind (on_ctx (case prev of None \<Rightarrow> act_ret [] | Some p \<Rightarrow> order_rows ctx F (Some p) True limit [] False)) (\<lambda>below.
        act_bind (on_ctx (case nxt of None \<Rightarrow> act_ret [] | Some p \<Rightarrow> order_rows ctx F (Some p) False limit [] False)) (\<lambda>above.
          let (lo, below) = cut_window k below; (hi, above) = cut_window k above; below = rev below in
          act_bind (draw (generate_n_suffixed_keys_between random SUFFIX_LENGTH lo hi (int (length below + 1 + length above)))) (\<lambda>keys.
            act_ret (below, keys, above)))))"

fun respace_search ::
  "(nat \<Rightarrow> nat) \<Rightarrow> ('e, 'g, 's) kv_ctx \<Rightarrow> frac_view \<Rightarrow> pystr option \<Rightarrow> pystr option \<Rightarrow> nat option \<Rightarrow> nat option list \<Rightarrow> 's \<times> nat \<Rightarrow>
   (((pystr \<times> seg) list \<times> pystr list \<times> (pystr \<times> seg) list) res \<times> 's \<times> nat) option" where
  "respace_search random ctx F prev nxt k [] = respace_window random ctx F prev nxt k"
| "respace_search random ctx F prev nxt k (k' # ks) =
     act_bind (respace_window random ctx F prev nxt k) (\<lambda>(below, keys, above).
       if k = None \<or> Max (length ` set keys) \<le> RESPACE_TARGET then act_ret (below, keys, above)
       else respace_search random ctx F prev nxt k' ks)"

text \<open>Rewriting rows at fresh keys: every old order row goes first.\<close>

definition drop_rows :: "('e, 'g, 's) kv_ctx \<Rightarrow> frac_view \<Rightarrow> (pystr \<times> seg) list \<Rightarrow> 's \<Rightarrow> (unit res \<times> 's) option" where
  "drop_rows ctx F rows =
     act_each (\<lambda>(okey, a). act_write (delete_child_primitive_unsafe ctx (frac_order F) (SStr okey))) rows"

definition index_rows :: "('e, 'g, 's) kv_ctx \<Rightarrow> frac_view \<Rightarrow> (pystr \<times> seg) list \<Rightarrow> pystr list \<Rightarrow> 's \<Rightarrow> (unit res \<times> 's) option" where
  "index_rows ctx F rows keys = act_each (\<lambda>((_, a), okey). index_row ctx F a okey) (zip rows keys)"

definition respace_around ::
  "(nat \<Rightarrow> nat) \<Rightarrow> ('e, 'g, 's) kv_ctx \<Rightarrow> frac_view \<Rightarrow> pystr option \<Rightarrow> pystr option \<Rightarrow> 's \<times> nat \<Rightarrow> (pystr res \<times> 's \<times> nat) option" where
  "respace_around random ctx F prev nxt =
     act_bind (respace_search random ctx F prev nxt (Some RESPACE_WINDOW) [Some (4 * RESPACE_WINDOW), None]) (\<lambda>(below, keys, above).
       act_bind (on_ctx (drop_rows ctx F (below @ above))) (\<lambda>_.
         act_bind (on_ctx (index_rows ctx F below keys)) (\<lambda>_.
           let gap_key = keys ! length below in
           act_bind (on_ctx (index_rows ctx F above (drop (length below + 1) keys))) (\<lambda>_. act_ret gap_key))))"

fun allot_loop ::
  "nat \<Rightarrow> (nat \<Rightarrow> nat) \<Rightarrow> ('e, 'g, 's) kv_ctx \<Rightarrow> frac_view \<Rightarrow> pystr option \<Rightarrow> pystr option \<Rightarrow> 's \<times> nat \<Rightarrow> (pystr res \<times> 's \<times> nat) option" where
  "allot_loop 0 random ctx F prev nxt = act_raise RuntimeError"
| "allot_loop (Suc n) random ctx F prev nxt =
     act_bind (draw (generate_suffixed_key_between random SUFFIX_LENGTH prev nxt)) (\<lambda>okey.
       if length okey > MAX_KEY_LENGTH then respace_around random ctx F prev nxt
       else act_bind (on_ctx (act_read (get_child_primitive_unsafe ctx (frac_order F) (SStr okey)))) (\<lambda>taken.
         if taken = None then act_ret okey else allot_loop n random ctx F prev nxt))"

definition allot ::
  "(nat \<Rightarrow> nat) \<Rightarrow> ('e, 'g, 's) kv_ctx \<Rightarrow> frac_view \<Rightarrow> pystr option \<Rightarrow> pystr option \<Rightarrow> 's \<times> nat \<Rightarrow> (pystr res \<times> 's \<times> nat) option" where
  "allot = allot_loop ALLOT_ATTEMPTS"

definition place_at ::
  "(nat \<Rightarrow> nat) \<Rightarrow> ('e, 'g, 's) kv_ctx \<Rightarrow> frac_view \<Rightarrow> seg \<Rightarrow> pystr option \<Rightarrow> pystr option \<Rightarrow> 's \<times> nat \<Rightarrow> (unit res \<times> 's \<times> nat) option" where
  "place_at random ctx F a prev nxt =
     act_bind (allot random ctx F prev nxt) (\<lambda>okey. on_ctx (index_row ctx F a okey))"

definition relocate ::
  "(nat \<Rightarrow> nat) \<Rightarrow> ('e, 'g, 's) kv_ctx \<Rightarrow> frac_view \<Rightarrow> seg \<Rightarrow> pystr \<Rightarrow> pystr option \<Rightarrow> pystr option \<Rightarrow> 's \<times> nat \<Rightarrow> (unit res \<times> 's \<times> nat) option" where
  "relocate random ctx F a okey prev nxt =
     act_bind (on_ctx (act_write (delete_child_primitive_unsafe ctx (frac_order F) (SStr okey)))) (\<lambda>_.
       place_at random ctx F a prev nxt)"

text \<open>\<open>_on_child_created\<close>, and \<open>_ensure_positioned\<close>, which is the same.\<close>

definition ensure_positioned ::
  "(nat \<Rightarrow> nat) \<Rightarrow> ('e, 'g, 's) kv_ctx \<Rightarrow> frac_view \<Rightarrow> seg \<Rightarrow> 's \<times> nat \<Rightarrow> (unit res \<times> 's \<times> nat) option" where
  "ensure_positioned random ctx F a =
     act_bind (on_ctx (act_read (position_or_empty ctx F (val_of a)))) (\<lambda>okey.
       if okey \<noteq> None then act_ret ()
       else act_bind (on_ctx (edge ctx F True False)) (\<lambda>tail.
         place_at random ctx F a (map_option fst tail) None))"

definition frac_respace ::
  "(nat \<Rightarrow> nat) \<Rightarrow> ('e, 'g, 's) kv_ctx \<Rightarrow> frac_view \<Rightarrow> 's \<times> nat \<Rightarrow> (unit res \<times> 's \<times> nat) option" where
  "frac_respace random ctx F =
     act_bind (on_ctx (order_rows ctx F None False None [] False)) (\<lambda>rows.
       if rows = [] then act_ret ()
       else act_bind (on_ctx (drop_rows ctx F rows)) (\<lambda>_.
         act_bind (draw (generate_n_suffixed_keys_between random SUFFIX_LENGTH None None (int (length rows)))) (\<lambda>keys.
           on_ctx (index_rows ctx F rows keys))))"

end
