(* ===== verification/Frac_Methods.thy ===== *)
theory Frac_Methods
  imports Frac_View
begin

text \<open>
  The public methods of the ordered dict view (\<open>_views/fractional_indexed_dict_view.py\<close>). Generators are
  modelled as drained.
\<close>

section \<open>Writing values\<close>

definition frac_put_primitive ::
  "(nat \<Rightarrow> nat) \<Rightarrow> ('e, 'g, 's) kv_ctx \<Rightarrow> frac_view \<Rightarrow> seg \<Rightarrow> pyval \<Rightarrow> 's \<times> nat \<Rightarrow> (unit res \<times> 's \<times> nat) option" where
  "frac_put_primitive random ctx F a val =
     act_bind (on_ctx (act_read (get_node_info ctx (frac_data F @ [a]) None))) (\<lambda>info.
       if ni_exists info \<and> ni_type info \<noteq> PRIMITIVE then act_raise ContainerTypeError
       else act_bind (on_ctx (act_write (put_child_primitive ctx (frac_data F) a val False False))) (\<lambda>_.
         if \<not> ni_exists info then ensure_positioned random ctx F a else act_ret ()))"

text \<open>\<open>_populate_child_container\<close>; \<open>c\<close> is the class of the child view, one with a model.\<close>

definition frac_populate ::
  "(nat \<Rightarrow> nat) \<Rightarrow> registry \<Rightarrow> ('e, 'g, 's) kv_ctx \<Rightarrow> frac_view \<Rightarrow> seg \<Rightarrow> pyval \<Rightarrow> view_class \<Rightarrow> 's \<times> nat \<Rightarrow>
   (unit res \<times> 's \<times> nat) option" where
  "frac_populate random rg ctx F a val c =
     (if \<not> modelled_class c then (\<lambda>_. None) else
      let child = View c (frac_data F @ [a]) None in
      act_bind (on_ctx (make_child ctx (frac_ensure_created ctx F) c (view_site child))) (\<lambda>created.
        act_bind (if created then ensure_positioned random ctx F a else act_ret ()) (\<lambda>_.
          on_ctx (case (c, val) of
            (EagerDictView, VMap items) \<Rightarrow> dict_store_with ctx child val (\<not> created) (store_items rg ctx child items)
          | (EagerListView, VList xs) \<Rightarrow> list_store_with ctx child val (\<not> created) (store_seq rg ctx child xs)
          | _ \<Rightarrow> act_raise TypeError))))"

definition write_value ::
  "(nat \<Rightarrow> nat) \<Rightarrow> registry \<Rightarrow> ('e, 'g, 's) kv_ctx \<Rightarrow> frac_view \<Rightarrow> seg \<Rightarrow> pyval \<Rightarrow> 's \<times> nat \<Rightarrow> (unit res \<times> 's \<times> nat) option" where
  "write_value random rg ctx F a val =
     (if is_container_value rg val then
        act_bind (on_ctx (act_read (\<lambda>_. view_for_value rg val))) (\<lambda>c. frac_populate random rg ctx F a val c)
      else frac_put_primitive random ctx F a val)"

definition frac_reject_empty :: "frac_view \<Rightarrow> pyval \<Rightarrow> pyval \<Rightarrow> seg res" where
  "frac_reject_empty F address val =
     rbind (reject_bad_key address) (\<lambda>_. let a = the (seg_of address) in
       rbind (reject_empty_value (frac_data F @ [a]) val) (\<lambda>_. Inr a))"

section \<open>Setting items\<close>

definition frac_setitem ::
  "(nat \<Rightarrow> nat) \<Rightarrow> registry \<Rightarrow> ('e, 'g, 's) kv_ctx \<Rightarrow> frac_view \<Rightarrow> pyval \<Rightarrow> pyval \<Rightarrow> 's \<times> nat \<Rightarrow> (unit res \<times> 's \<times> nat) option" where
  "frac_setitem random rg ctx F address val =
     act_bind (on_ctx (act_read (\<lambda>_. frac_reject_empty F address val))) (\<lambda>a.
       act_bind (on_ctx (frac_ensure_created ctx F)) (\<lambda>_.
         act_bind (write_value random rg ctx F a val) (\<lambda>_. ensure_positioned random ctx F a)))"

definition frac_set_primitive ::
  "(nat \<Rightarrow> nat) \<Rightarrow> ('e, 'g, 's) kv_ctx \<Rightarrow> frac_view \<Rightarrow> pyval \<Rightarrow> pyval \<Rightarrow> 's \<times> nat \<Rightarrow> (unit res \<times> 's \<times> nat) option" where
  "frac_set_primitive random ctx F address val =
     act_bind (on_ctx (act_read (\<lambda>_. frac_reject_empty F address val))) (\<lambda>a.
       act_bind (on_ctx (frac_ensure_created ctx F)) (\<lambda>_.
         act_bind (frac_put_primitive random ctx F a val) (\<lambda>_. ensure_positioned random ctx F a)))"

definition frac_set_child_container_as ::
  "(nat \<Rightarrow> nat) \<Rightarrow> registry \<Rightarrow> ('e, 'g, 's) kv_ctx \<Rightarrow> frac_view \<Rightarrow> pyval \<Rightarrow> pyval \<Rightarrow> view_class \<Rightarrow> 's \<times> nat \<Rightarrow>
   (unit res \<times> 's \<times> nat) option" where
  "frac_set_child_container_as random rg ctx F address val c =
     act_bind (on_ctx (act_read (\<lambda>_. frac_reject_empty F address val))) (\<lambda>a.
       act_bind (on_ctx (frac_ensure_created ctx F)) (\<lambda>_.
         act_bind (frac_populate random rg ctx F a val c) (\<lambda>_. ensure_positioned random ctx F a)))"

text \<open>\<open>try: m except BaseException: clean up, raise\<close>, where the clean-up suppresses its exceptions.\<close>

definition act_except ::
  "('s \<Rightarrow> ('a res \<times> 's) option) \<Rightarrow> ('s \<Rightarrow> (unit res \<times> 's) option) \<Rightarrow> 's \<Rightarrow> ('a res \<times> 's) option" where
  "act_except m undo s =
     Option.bind (m s) (\<lambda>(r, s). case r of
       Inr x \<Rightarrow> Some (Inr x, s)
     | Inl e \<Rightarrow> Option.bind (undo s) (\<lambda>(_, s). Some (Inl e, s)))"

definition suppress :: "('s \<Rightarrow> (unit res \<times> 's) option) \<Rightarrow> 's \<Rightarrow> (unit res \<times> 's) option" where
  "suppress = act_catch (\<lambda>_. True) ()"

definition frac_insert ::
  "(nat \<Rightarrow> nat) \<Rightarrow> registry \<Rightarrow> ('e, 'g, 's) kv_ctx \<Rightarrow> frac_view \<Rightarrow> seg \<Rightarrow> pyval \<Rightarrow> pystr option \<Rightarrow> pystr option \<Rightarrow>
   's \<times> nat \<Rightarrow> (unit res \<times> 's \<times> nat) option" where
  "frac_insert random rg ctx F a val prev nxt =
     act_bind (on_ctx (act_read (position_or_empty ctx F (val_of a)))) (\<lambda>stale.
       act_bind (case stale of
           None \<Rightarrow> act_ret False
         | Some okey \<Rightarrow> act_bind (on_ctx (act_read (get_child_primitive_unsafe ctx (frac_order F) (SStr okey)))) (\<lambda>row. act_ret (row \<noteq> None)))
         (\<lambda>here.
            if here then act_raise ValueError
            else act_bind (allot random ctx F prev nxt) (\<lambda>okey.
              act_bind (on_ctx (act_write (put_child_primitive ctx (frac_pos F) a (VStr okey) False False))) (\<lambda>_.
                act_bind
                  (act_except (write_value random rg ctx F a val)
                     (act_bind (suppress (on_ctx (act_write (delete_child_primitive_unsafe ctx (frac_pos F) a)))) (\<lambda>_.
                        suppress (on_ctx (delete_child ctx (frac_data F) a)))))
                  (\<lambda>_. on_ctx (act_write (put_child_primitive ctx (frac_order F) (SStr okey) (val_of a) False False)))))))"

definition frac_append ::
  "(nat \<Rightarrow> nat) \<Rightarrow> registry \<Rightarrow> ('e, 'g, 's) kv_ctx \<Rightarrow> frac_view \<Rightarrow> pyval \<Rightarrow> pyval \<Rightarrow> 's \<times> nat \<Rightarrow> (unit res \<times> 's \<times> nat) option" where
  "frac_append random rg ctx F address val =
     act_bind (on_ctx (act_read (\<lambda>_. frac_reject_empty F address val))) (\<lambda>a.
       act_bind (on_ctx (frac_ensure_created ctx F)) (\<lambda>_.
         act_bind (on_ctx (edge ctx F True False)) (\<lambda>tail.
           frac_insert random rg ctx F a val (map_option fst tail) None)))"

definition frac_prepend ::
  "(nat \<Rightarrow> nat) \<Rightarrow> registry \<Rightarrow> ('e, 'g, 's) kv_ctx \<Rightarrow> frac_view \<Rightarrow> pyval \<Rightarrow> pyval \<Rightarrow> 's \<times> nat \<Rightarrow> (unit res \<times> 's \<times> nat) option" where
  "frac_prepend random rg ctx F address val =
     act_bind (on_ctx (act_read (\<lambda>_. frac_reject_empty F address val))) (\<lambda>a.
       act_bind (on_ctx (frac_ensure_created ctx F)) (\<lambda>_.
         act_bind (on_ctx (edge ctx F False False)) (\<lambda>head.
           frac_insert random rg ctx F a val None (map_option fst head))))"

definition frac_insert_before ::
  "(nat \<Rightarrow> nat) \<Rightarrow> registry \<Rightarrow> ('e, 'g, 's) kv_ctx \<Rightarrow> frac_view \<Rightarrow> pyval \<Rightarrow> pyval \<Rightarrow> pyval \<Rightarrow> 's \<times> nat \<Rightarrow> (unit res \<times> 's \<times> nat) option" where
  "frac_insert_before random rg ctx F ref address val =
     act_bind (on_ctx (act_read (require_position ctx F ref))) (\<lambda>(_, ref_okey).
       act_bind (on_ctx (act_read (\<lambda>_. frac_reject_empty F address val))) (\<lambda>a.
         act_bind (on_ctx (frac_ensure_created ctx F)) (\<lambda>_.
           act_bind (on_ctx (neighbour ctx F ref_okey True [])) (\<lambda>prev.
             frac_insert random rg ctx F a val (map_option fst prev) (Some ref_okey)))))"

definition frac_insert_after ::
  "(nat \<Rightarrow> nat) \<Rightarrow> registry \<Rightarrow> ('e, 'g, 's) kv_ctx \<Rightarrow> frac_view \<Rightarrow> pyval \<Rightarrow> pyval \<Rightarrow> pyval \<Rightarrow> 's \<times> nat \<Rightarrow> (unit res \<times> 's \<times> nat) option" where
  "frac_insert_after random rg ctx F ref address val =
     act_bind (on_ctx (act_read (require_position ctx F ref))) (\<lambda>(_, ref_okey).
       act_bind (on_ctx (act_read (\<lambda>_. frac_reject_empty F address val))) (\<lambda>a.
         act_bind (on_ctx (frac_ensure_created ctx F)) (\<lambda>_.
           act_bind (on_ctx (neighbour ctx F ref_okey False [])) (\<lambda>nxt.
             frac_insert random rg ctx F a val (Some ref_okey) (map_option fst nxt)))))"

section \<open>Moving\<close>

definition frac_move_before ::
  "(nat \<Rightarrow> nat) \<Rightarrow> ('e, 'g, 's) kv_ctx \<Rightarrow> frac_view \<Rightarrow> pyval \<Rightarrow> pyval \<Rightarrow> 's \<times> nat \<Rightarrow> (unit res \<times> 's \<times> nat) option" where
  "frac_move_before random ctx F address ref =
     act_bind (on_ctx (act_read (require_position ctx F address))) (\<lambda>(a, okey).
       if address = ref then act_ret ()
       else act_bind (on_ctx (act_read (require_position ctx F ref))) (\<lambda>(_, ref_okey).
         act_bind (on_ctx (neighbour ctx F ref_okey True [])) (\<lambda>prev.
           if map_option fst prev = Some okey then act_ret ()
           else relocate random ctx F a okey (map_option fst prev) (Some ref_okey))))"

definition frac_move_after ::
  "(nat \<Rightarrow> nat) \<Rightarrow> ('e, 'g, 's) kv_ctx \<Rightarrow> frac_view \<Rightarrow> pyval \<Rightarrow> pyval \<Rightarrow> 's \<times> nat \<Rightarrow> (unit res \<times> 's \<times> nat) option" where
  "frac_move_after random ctx F address ref =
     act_bind (on_ctx (act_read (require_position ctx F address))) (\<lambda>(a, okey).
       if address = ref then act_ret ()
       else act_bind (on_ctx (act_read (require_position ctx F ref))) (\<lambda>(_, ref_okey).
         act_bind (on_ctx (neighbour ctx F ref_okey False [])) (\<lambda>nxt.
           if map_option fst nxt = Some okey then act_ret ()
           else relocate random ctx F a okey (Some ref_okey) (map_option fst nxt))))"

definition frac_move_first ::
  "(nat \<Rightarrow> nat) \<Rightarrow> ('e, 'g, 's) kv_ctx \<Rightarrow> frac_view \<Rightarrow> pyval \<Rightarrow> 's \<times> nat \<Rightarrow> (unit res \<times> 's \<times> nat) option" where
  "frac_move_first random ctx F address =
     act_bind (on_ctx (act_read (require_position ctx F address))) (\<lambda>(a, okey).
       act_bind (on_ctx (edge ctx F False False)) (\<lambda>head.
         case head of
           None \<Rightarrow> act_ret ()
         | Some (k, _) \<Rightarrow> if k = okey then act_ret () else relocate random ctx F a okey None (Some k)))"

definition frac_move_last ::
  "(nat \<Rightarrow> nat) \<Rightarrow> ('e, 'g, 's) kv_ctx \<Rightarrow> frac_view \<Rightarrow> pyval \<Rightarrow> 's \<times> nat \<Rightarrow> (unit res \<times> 's \<times> nat) option" where
  "frac_move_last random ctx F address =
     act_bind (on_ctx (act_read (require_position ctx F address))) (\<lambda>(a, okey).
       act_bind (on_ctx (edge ctx F True False)) (\<lambda>tail.
         case tail of
           None \<Rightarrow> act_ret ()
         | Some (k, _) \<Rightarrow> if k = okey then act_ret () else relocate random ctx F a okey (Some k) None))"

section \<open>Removing\<close>

definition frac_delitem :: "('e, 'g, 's) kv_ctx \<Rightarrow> frac_view \<Rightarrow> pyval \<Rightarrow> 's \<Rightarrow> (unit res \<times> 's) option" where
  "frac_delitem ctx F address =
     (case seg_of address of
        None \<Rightarrow> act_raise KeyError
      | Some a \<Rightarrow>
          act_bind (act_read (position_or_empty ctx F address)) (\<lambda>okey.
            act_bind
              (case okey of
                 None \<Rightarrow> act_bind (act_read (exists_child ctx (frac_data F) a False)) (\<lambda>here.
                   if \<not> here then act_raise KeyError else act_ret ())
               | Some k \<Rightarrow> act_bind (act_write (delete_child_primitive_unsafe ctx (frac_order F) (SStr k))) (\<lambda>_.
                   act_write (delete_child_primitive_unsafe ctx (frac_pos F) a)))
              (\<lambda>_. delete_child ctx (frac_data F) a)))"

definition frac_clear :: "('e, 'g, 's) kv_ctx \<Rightarrow> frac_view \<Rightarrow> 's \<Rightarrow> (unit res \<times> 's) option" where
  "frac_clear ctx F =
     act_bind (act_read (node_exists ctx (fv_site F))) (\<lambda>here.
       if \<not> here then act_ret ()
       else act_bind (frac_ensure_created ctx F) (\<lambda>_.
         act_each (\<lambda>site. clear_children ctx site False) [frac_data F, frac_order F, frac_pos F]))"

section \<open>Bulk writes\<close>

fun frac_set_items ::
  "(nat \<Rightarrow> nat) \<Rightarrow> registry \<Rightarrow> ('e, 'g, 's) kv_ctx \<Rightarrow> frac_view \<Rightarrow> (pyval \<times> pyval) list \<Rightarrow> 's \<times> nat \<Rightarrow> (unit res \<times> 's \<times> nat) option" where
  "frac_set_items random rg ctx F [] = act_ret ()"
| "frac_set_items random rg ctx F ((key, val) # items) =
     act_bind (frac_setitem random rg ctx F key val) (\<lambda>_. frac_set_items random rg ctx F items)"

definition frac_update ::
  "(nat \<Rightarrow> nat) \<Rightarrow> registry \<Rightarrow> ('e, 'g, 's) kv_ctx \<Rightarrow> frac_view \<Rightarrow> (pyval \<times> pyval) list \<Rightarrow> (pyval \<times> pyval) list \<Rightarrow>
   's \<times> nat \<Rightarrow> (unit res \<times> 's \<times> nat) option" where
  "frac_update random rg ctx F other kwargs =
     act_bind (on_ctx (act_read (\<lambda>_. reject_empty_value (frac_data F) (VMap other)))) (\<lambda>_.
       act_bind (on_ctx (act_read (\<lambda>_. reject_empty_value (frac_data F) (VMap kwargs)))) (\<lambda>_.
         act_bind (frac_set_items random rg ctx F other) (\<lambda>_. frac_set_items random rg ctx F kwargs)))"

text \<open>
  \<open>store\<close> takes a mapping, or an iterable of ids, whose value is \<open>True\<close> (the integer 1 to the storage).
\<close>

definition with_true :: "pyval list \<Rightarrow> (pyval \<times> pyval) list" where "with_true ids = map (\<lambda>k. (k, VInt 1)) ids"

fun stored_items :: "pyval \<Rightarrow> (pyval \<times> pyval) list res" where
  "stored_items (VMap items) = Inr items"
| "stored_items (VList ids) = Inr (with_true ids)"
| "stored_items (VTuple ids) = Inr (with_true ids)"
| "stored_items (VSet ids) = Inr (with_true ids)"
| "stored_items (VStr t) = Inr (with_true (map (\<lambda>c. VStr [c]) t))"
| "stored_items _ = Inl TypeError"

definition frac_store ::
  "(nat \<Rightarrow> nat) \<Rightarrow> registry \<Rightarrow> ('e, 'g, 's) kv_ctx \<Rightarrow> frac_view \<Rightarrow> pyval \<Rightarrow> bool \<Rightarrow> 's \<times> nat \<Rightarrow> (unit res \<times> 's \<times> nat) option" where
  "frac_store random rg ctx F val replace =
     act_bind (on_ctx (act_read (\<lambda>_. reject_empty_value (frac_data F) val))) (\<lambda>_.
       act_bind (on_ctx (frac_ensure_created ctx F)) (\<lambda>_.
         act_bind (if replace then on_ctx (edge ctx F False False) else act_ret None) (\<lambda>head.
           act_bind (if head \<noteq> None then on_ctx (frac_clear ctx F) else act_ret ()) (\<lambda>_.
             act_bind (on_ctx (act_read (\<lambda>_. stored_items val))) (\<lambda>items. frac_set_items random rg ctx F items)))))"

section \<open>Reading\<close>

definition frac_len :: "('e, 'g, 's) kv_ctx \<Rightarrow> frac_view \<Rightarrow> 's \<Rightarrow> (int res \<times> 's) option" where
  "frac_len ctx F = count_children ctx (frac_pos F) False True"

definition frac_bool :: "('e, 'g, 's) kv_ctx \<Rightarrow> frac_view \<Rightarrow> 's \<Rightarrow> (bool res \<times> 's) option" where
  "frac_bool ctx F = act_bind (edge ctx F False True) (\<lambda>head. act_ret (head \<noteq> None))"

definition frac_contains :: "('e, 'g, 's) kv_ctx \<Rightarrow> frac_view \<Rightarrow> pyval \<Rightarrow> 's \<Rightarrow> bool res" where
  "frac_contains ctx F obj s =
     rbind (position_or_empty ctx F obj s) (\<lambda>okey.
       if okey \<noteq> None then Inr True else rbind (require_exists ctx (fv_site F) s) (\<lambda>_. Inr False))"

text \<open>\<open>__iter__\<close>, \<open>__reversed__\<close>, \<open>keys\<close> and \<open>keys_reverse\<close>.\<close>

definition frac_keys ::
  "('e, 'g, 's) kv_ctx \<Rightarrow> frac_view \<Rightarrow> pyval option \<Rightarrow> int option \<Rightarrow> bool \<Rightarrow> 's \<Rightarrow> (seg list res \<times> 's) option" where
  "frac_keys ctx F after limit reverse =
     act_bind
       (case after of
          None \<Rightarrow> order_rows ctx F None reverse limit [] True
        | Some address \<Rightarrow> act_bind (act_read (require_position ctx F address)) (\<lambda>(_, cursor).
            order_rows ctx F (Some cursor) reverse limit [cursor] True))
       (\<lambda>rows. act_ret (map snd rows))"

definition frac_positions :: "('e, 'g, 's) kv_ctx \<Rightarrow> frac_view \<Rightarrow> bool \<Rightarrow> 's \<Rightarrow> ((pystr \<times> seg) list res \<times> 's) option" where
  "frac_positions ctx F reverse = order_rows ctx F None reverse None [] True"

definition frac_edge_id :: "('e, 'g, 's) kv_ctx \<Rightarrow> frac_view \<Rightarrow> bool \<Rightarrow> 's \<Rightarrow> (seg option res \<times> 's) option" where
  "frac_edge_id ctx F at_end = act_bind (edge ctx F at_end True) (\<lambda>row. act_ret (map_option snd row))"

definition frac_next_to :: "('e, 'g, 's) kv_ctx \<Rightarrow> frac_view \<Rightarrow> pyval \<Rightarrow> bool \<Rightarrow> 's \<Rightarrow> (seg option res \<times> 's) option" where
  "frac_next_to ctx F address below =
     act_bind (act_read (require_position ctx F address)) (\<lambda>(_, okey).
       act_bind (neighbour ctx F okey below []) (\<lambda>row. act_ret (map_option snd row)))"

text \<open>\<open>_read_child\<close> and \<open>_child_result\<close>, and \<open>__getitem__\<close>.\<close>

definition read_child :: "('e, 'g, 's) kv_ctx \<Rightarrow> frac_view \<Rightarrow> seg \<Rightarrow> 's \<Rightarrow> node_info res" where
  "read_child ctx F a s =
     rbind (get_node_info ctx (frac_data F @ [a]) None s) (\<lambda>info.
       if \<not> ni_exists info \<or> ni_type info = NOT_FOUND then Inl KeyError else Inr info)"

definition frac_child_result ::
  "registry \<Rightarrow> ('e, 'g, 's) kv_ctx \<Rightarrow> frac_view \<Rightarrow> seg \<Rightarrow> node_info \<Rightarrow> 's \<Rightarrow> (pyval res \<times> 's) option" where
  "frac_child_result rg ctx F a info =
     (case ni_structure info of
        None \<Rightarrow> act_raise ValueError
      | Some structure \<Rightarrow>
          act_bind (act_read (\<lambda>_. get_view_for_structure rg structure)) (\<lambda>c.
            view_extract rg ctx (View c (frac_data F @ [a]) None)))"

definition frac_getitem ::
  "registry \<Rightarrow> ('e, 'g, 's) kv_ctx \<Rightarrow> frac_view \<Rightarrow> pyval \<Rightarrow> 's \<Rightarrow> (pyval res \<times> 's) option" where
  "frac_getitem rg ctx F address =
     (case seg_of address of
        None \<Rightarrow> act_raise KeyError
      | Some a \<Rightarrow>
          act_bind (act_read (read_child ctx F a)) (\<lambda>info.
            if ni_type info \<noteq> CONTAINER then
              (case ni_primitive info of None \<Rightarrow> act_raise KeyError | Some v \<Rightarrow> if v = VEmpty then act_raise KeyError else act_ret v)
            else frac_child_result rg ctx F a info))"

definition frac_get ::
  "registry \<Rightarrow> ('e, 'g, 's) kv_ctx \<Rightarrow> frac_view \<Rightarrow> pyval \<Rightarrow> pyval \<Rightarrow> 's \<Rightarrow> (pyval res \<times> 's) option" where
  "frac_get rg ctx F address fallback = act_catch is_key_error fallback (frac_getitem rg ctx F address)"

definition frac_pop ::
  "registry \<Rightarrow> ('e, 'g, 's) kv_ctx \<Rightarrow> frac_view \<Rightarrow> pyval \<Rightarrow> pyval \<Rightarrow> 's \<Rightarrow> (pyval res \<times> 's) option" where
  "frac_pop rg ctx F address fallback =
     act_bind (act_catch (\<lambda>e. is_key_error e \<and> fallback \<noteq> VEmpty) (True, fallback)
         (act_bind (frac_getitem rg ctx F address) (\<lambda>val. act_ret (False, val))))
       (\<lambda>(missing, val).
          if missing then act_ret val
          else act_bind (frac_delitem ctx F address) (\<lambda>_. act_ret val))"

text \<open>The body of the loop of \<open>_iter_items\<close>, and the loop.\<close>

definition frac_item ::
  "registry \<Rightarrow> ('e, 'g, 's) kv_ctx \<Rightarrow> frac_view \<Rightarrow> pystr \<times> seg \<Rightarrow> 's \<Rightarrow> ((seg \<times> pyval) list res \<times> 's) option" where
  "frac_item rg ctx F row =
     (let (_, a) = row in
      act_bind (act_catch is_key_error None (act_bind (act_read (read_child ctx F a)) (\<lambda>info. act_ret (Some info)))) (\<lambda>found.
        case found of
          None \<Rightarrow> act_ret []
        | Some info \<Rightarrow>
            if ni_type info \<noteq> CONTAINER then act_ret [(a, case ni_primitive info of None \<Rightarrow> VEmpty | Some v \<Rightarrow> v)]
            else act_bind (frac_child_result rg ctx F a info) (\<lambda>v. act_ret [(a, v)])))"

definition frac_items ::
  "registry \<Rightarrow> ('e, 'g, 's) kv_ctx \<Rightarrow> frac_view \<Rightarrow> bool \<Rightarrow> 's \<Rightarrow> ((seg \<times> pyval) list res \<times> 's) option" where
  "frac_items rg ctx F reverse =
     act_bind (act_gen (scan_order ctx F None reverse None [] True)) (\<lambda>(rows, r).
       act_bind (act_for (frac_item rg ctx F) rows) (\<lambda>items. act_bind (act_read (\<lambda>_. r)) (\<lambda>_. act_ret items)))"

definition frac_extract :: "registry \<Rightarrow> ('e, 'g, 's) kv_ctx \<Rightarrow> frac_view \<Rightarrow> 's \<Rightarrow> (pyval res \<times> 's) option" where
  "frac_extract rg ctx F =
     act_bind (frac_items rg ctx F False) (\<lambda>items. act_ret (VMap (map (\<lambda>(k, v). (val_of k, v)) items)))"

section \<open>Repair\<close>

text \<open>
  \<open>_rebuild_bookkeeping\<close>: the first order row of every id that has data is kept; then the positions are
  aligned with it, and the ids left over are appended. \<open>seen\<close> maps an id to its order key.
\<close>

fun rebuild_order ::
  "('e, 'g, 's) kv_ctx \<Rightarrow> frac_view \<Rightarrow> seg set \<Rightarrow> (pystr \<times> seg) list \<Rightarrow> (seg \<rightharpoonup> pystr) \<Rightarrow> 's \<Rightarrow> ((seg \<rightharpoonup> pystr) res \<times> 's) option" where
  "rebuild_order ctx F present [] seen = act_ret seen"
| "rebuild_order ctx F present ((okey, a) # rows) seen =
     (if a \<in> present \<and> seen a = None then rebuild_order ctx F present rows (seen(a \<mapsto> okey))
      else act_bind (act_write (delete_child_primitive_unsafe ctx (frac_order F) (SStr okey))) (\<lambda>_.
        rebuild_order ctx F present rows seen))"

definition rebuild_position ::
  "('e, 'g, 's) kv_ctx \<Rightarrow> frac_view \<Rightarrow> (seg \<rightharpoonup> pystr) \<Rightarrow> seg \<times> node_info \<Rightarrow> 's \<Rightarrow> (unit res \<times> 's) option" where
  "rebuild_position ctx F seen row =
     (let (a, info) = row in
      case seen a of
        None \<Rightarrow> act_write (delete_child_primitive_unsafe ctx (frac_pos F) a)
      | Some want \<Rightarrow>
          if ni_primitive info \<noteq> Some (VStr want)
          then act_write (put_child_primitive ctx (frac_pos F) a (VStr want) False False)
          else act_ret ())"

fun rebuild_rest ::
  "(nat \<Rightarrow> nat) \<Rightarrow> ('e, 'g, 's) kv_ctx \<Rightarrow> frac_view \<Rightarrow> (seg \<rightharpoonup> pystr) \<Rightarrow> seg list \<Rightarrow> 's \<times> nat \<Rightarrow> (unit res \<times> 's \<times> nat) option" where
  "rebuild_rest random ctx F seen [] = act_ret ()"
| "rebuild_rest random ctx F seen (a # keys) =
     act_bind
       (if seen a = None then
          act_bind (on_ctx (edge ctx F True False)) (\<lambda>tail. place_at random ctx F a (map_option fst tail) None)
        else act_ret ())
       (\<lambda>_. rebuild_rest random ctx F seen keys)"

definition frac_rebuild ::
  "(nat \<Rightarrow> nat) \<Rightarrow> ('e, 'g, 's) kv_ctx \<Rightarrow> frac_view \<Rightarrow> 's \<times> nat \<Rightarrow> (unit res \<times> 's \<times> nat) option" where
  "frac_rebuild random ctx F =
     act_bind (on_ctx (ensure_internal_layout ctx F)) (\<lambda>_.
       act_bind (on_ctx (act_gen (iter_child_keys ctx (frac_data F) False False False))) (\<lambda>(data_keys, r).
         act_bind (on_ctx (act_read (\<lambda>_. r))) (\<lambda>_.
           act_bind (on_ctx (order_rows ctx F None False None [] False)) (\<lambda>rows.
             act_bind (on_ctx (rebuild_order ctx F (set data_keys) rows Map.empty)) (\<lambda>seen.
               act_bind (on_ctx (act_gen (iter_children ctx (frac_pos F) False False False))) (\<lambda>(positions, r).
                 act_bind (on_ctx (act_read (\<lambda>_. r))) (\<lambda>_.
                   act_bind (on_ctx (act_each (rebuild_position ctx F seen) positions)) (\<lambda>_.
                     rebuild_rest random ctx F seen data_keys))))))))"

end
