(* ===== verification/Frac_Rows.thy ===== *)
theory Frac_Rows
  imports Frac_Methods View_Store
begin

text \<open>
  The rows of an ordered dict view and what its scans of the order index give, over any context that keeps
  the contract of the container layer.
\<close>

section \<open>The rows of a view\<close>

text \<open>
  \<open>K\<close> are the order rows, \<open>P\<close> the positions, \<open>D\<close> the values; \<open>V\<close> is everything else, the markers of the
  four containers included.
\<close>

definition with_rows ::
  "site \<Rightarrow> (pystr \<rightharpoonup> seg) \<Rightarrow> (seg \<rightharpoonup> pystr) \<Rightarrow> (seg \<rightharpoonup> pyval) \<Rightarrow> (key \<rightharpoonup> pyval) \<Rightarrow> key \<rightharpoonup> pyval" where
  "with_rows S K P D V = (\<lambda>k.
     if prefix S k \<and> length k = length S + 2 then
       (let c = k ! length S; x = last k in
        if c = ORDER then (case x of SInt _ \<Rightarrow> None | SStr q \<Rightarrow> map_option val_of (K q))
        else if c = POS then map_option VStr (P x)
        else if c = DATA then D x
        else V k)
     else V k)"

lemma layout_distinct [simp]: "ORDER \<noteq> POS" "POS \<noteq> ORDER" "DATA \<noteq> ORDER" "ORDER \<noteq> DATA" "DATA \<noteq> POS" "POS \<noteq> DATA"
  by (simp_all add: ORDER_def POS_def DATA_def lit_def)

lemma with_rows_at [simp]:
  "with_rows S K P D V (S @ [ORDER, SStr q]) = map_option val_of (K q)"
  "with_rows S K P D V (S @ [ORDER, SInt i]) = None"
  "with_rows S K P D V (S @ [POS, a]) = map_option VStr (P a)"
  "with_rows S K P D V (S @ [DATA, a]) = D a"
  "with_rows S K P D V S = V S"
  "with_rows S K P D V (S @ [c]) = V (S @ [c])"
  by (simp_all add: with_rows_def Let_def nth_append)

lemma child_key: "prefix S k \<and> length k = length S + 2 \<longleftrightarrow> (\<exists>c x. k = S @ [c, x])"
proof
  assume a: "prefix S k \<and> length k = length S + 2"
  then obtain t where "k = S @ t" "length t = 2" by (auto simp: prefix_def)
  then show "\<exists>c x. k = S @ [c, x]" by (cases t; cases "tl t") auto
qed auto

lemma with_rows_eqI:
  assumes "\<And>q. (K :: pystr \<rightharpoonup> seg) q = K' q" and "\<And>a. P a = P' a" and "\<And>a. D a = D' a"
  shows "with_rows S K P D V = with_rows S K' P' D' V"
proof -
  have "K = K'" "P = P'" "D = D'" using assms by (auto simp: fun_eq_iff)
  then show ?thesis by simp
qed

lemma with_rows_upd:
  "(with_rows S K P D V)(S @ [ORDER, SStr q] \<mapsto> val_of a) = with_rows S (K(q \<mapsto> a)) P D V"
  "(with_rows S K P D V)(S @ [ORDER, SStr q] := None) = with_rows S (K(q := None)) P D V"
  "(with_rows S K P D V)(S @ [POS, a] \<mapsto> VStr q) = with_rows S K (P(a \<mapsto> q)) D V"
  "(with_rows S K P D V)(S @ [POS, a] := None) = with_rows S K (P(a := None)) D V"
  "(with_rows S K P D V)(S @ [DATA, a] \<mapsto> v) = with_rows S K P (D(a \<mapsto> v)) V"
  "(with_rows S K P D V)(S @ [DATA, a] := None) = with_rows S K P (D(a := None)) V"
proof -
  have at: "with_rows S K P D V (S @ [c, x]) = (if c = ORDER then (case x of SInt _ \<Rightarrow> None | SStr q \<Rightarrow> map_option val_of (K q))
        else if c = POS then map_option VStr (P x) else if c = DATA then D x else V (S @ [c, x]))" for K P D c x
    by (simp add: with_rows_def Let_def nth_append)
  have out: "with_rows S K P D V k = V k" if "\<nexists>c x. k = S @ [c, x]" for K P D k
    using that unfolding child_key [symmetric] by (auto simp: with_rows_def)
  have "((with_rows S K P D V)(S @ [ORDER, SStr q] \<mapsto> val_of a)) k = with_rows S (K(q \<mapsto> a)) P D V k \<and>
      ((with_rows S K P D V)(S @ [ORDER, SStr q] := None)) k = with_rows S (K(q := None)) P D V k \<and>
      ((with_rows S K P D V)(S @ [POS, a] \<mapsto> VStr q)) k = with_rows S K (P(a \<mapsto> q)) D V k \<and>
      ((with_rows S K P D V)(S @ [POS, a] := None)) k = with_rows S K (P(a := None)) D V k \<and>
      ((with_rows S K P D V)(S @ [DATA, a] \<mapsto> v)) k = with_rows S K P (D(a \<mapsto> v)) V k \<and>
      ((with_rows S K P D V)(S @ [DATA, a] := None)) k = with_rows S K P (D(a := None)) V k" for k
  proof (cases "\<exists>c x. k = S @ [c, x]")
    case True
    then obtain c x where "k = S @ [c, x]" by blast
    then show ?thesis by (auto simp: at split: seg.splits)
  next
    case False
    then have "k \<noteq> S @ [c, x]" for c x by blast
    then show ?thesis using out [OF False] by simp
  qed
  then show
    "(with_rows S K P D V)(S @ [ORDER, SStr q] \<mapsto> val_of a) = with_rows S (K(q \<mapsto> a)) P D V"
    "(with_rows S K P D V)(S @ [ORDER, SStr q] := None) = with_rows S (K(q := None)) P D V"
    "(with_rows S K P D V)(S @ [POS, a] \<mapsto> VStr q) = with_rows S K (P(a \<mapsto> q)) D V"
    "(with_rows S K P D V)(S @ [POS, a] := None) = with_rows S K (P(a := None)) D V"
    "(with_rows S K P D V)(S @ [DATA, a] \<mapsto> v) = with_rows S K P (D(a \<mapsto> v)) V"
    "(with_rows S K P D V)(S @ [DATA, a] := None) = with_rows S K P (D(a := None)) V"
    by (auto simp: fun_eq_iff)
qed

section \<open>The context\<close>

locale frac_context = kv_context +
  assumes okseg_layout: "okseg DATA" "okseg ORDER" "okseg POS"
    and okseg_digits: "set k \<subseteq> set BASE_62_DIGITS \<Longrightarrow> okseg (SStr k)"

lemma letter_digits: "(97 \<le> h \<and> h \<le> 122) \<or> (65 \<le> h \<and> h \<le> 90) \<Longrightarrow> h \<in> set BASE_62_DIGITS"
  by (simp add: BASE_62_DIGITS_def lit_def) arith

lemma key_digits: "key_ok k \<Longrightarrow> set k \<subseteq> set BASE_62_DIGITS"
proof -
  assume "key_ok k"
  then have ne: "k \<noteq> []" and h: "is_ok (integer_length (hd k))" and t: "set (tl k) \<subseteq> set BASE_62_DIGITS"
    by (auto simp: key_ok_def validate_order_key_def integer_part_def rbind_eq_Inr list_ex_iff Let_def is_ok_iff split: if_splits)
  have "hd k \<in> set BASE_62_DIGITS"
    using h by (intro letter_digits) (auto simp: is_ok_iff integer_length_Inr)
  with ne t show ?thesis by (cases k) auto
qed

lemma key_seg [simp]: "val_of a \<noteq> VEmpty"
  by (cases a) simp_all

lemma id_of_val [simp]: "id_of (val_of a) = Inr a"
  by (cases a) (simp_all add: id_of_def)

section \<open>Scanning the order index\<close>

text \<open>The keys of an index scan, and the rows the loop hands out.\<close>

lemma sorted_map_less: "sorted_wrt (<) xs \<Longrightarrow> sorted_wrt (<) (map SStr xs)"
  by (simp add: sorted_wrt_map)

lemma SStr_le [simp]: "SStr s \<le> SStr t \<longleftrightarrow> s \<le> t"
  by (auto simp: less_eq_seg_def le_less)

definition scanned :: "pystr option \<Rightarrow> bool \<Rightarrow> (pystr \<times> seg) list \<Rightarrow> (pystr \<times> seg) list" where
  "scanned start reverse L =
     (let xs = filter (\<lambda>(q, _). case start of None \<Rightarrow> True | Some k \<Rightarrow> if reverse then q \<le> k else k \<le> q) L
      in if reverse then rev xs else xs)"

context frac_context begin

lemma order_loop_rows:
  assumes "at options ITEMS just g s (map (\<lambda>(q, a). (T @ [SStr q], val_of a)) L)" and "\<And>n. limit = Some n \<Longrightarrow> yielded < n"
  shows "\<exists>s'. order_loop ctx options skip limit seen yielded g s =
      Some (cut (map_option (\<lambda>n. n - yielded) limit) (filter (\<lambda>(q, _). q \<notin> set skip) L), Inr (), seen \<or> L \<noteq> [], s') \<and>
    inv s' \<and> weight s' = weight s \<and> vw s' = vw s"
  using assms
proof (induction L arbitrary: just g s seen yielded)
  case Nil
  from scan_next [OF Nil(1)] show ?case by (subst order_loop.simps) (auto simp: cut_def split: option.splits)
next
  case (Cons row L)
  obtain q a where row: "row = (q, a)" by (cases row)
  from scan_next [OF Cons.prems(1)] obtain g' s' where
    n: "ctx_next ctx options ITEMS g s = Some (Yield (Out_Item (T @ [SStr q]) (val_of a)), g', s')"
    and s': "inv s'" "weight s' = weight s" "vw s' = vw s"
    and a: "at options ITEMS (Some (T @ [SStr q])) g' s' (map (\<lambda>(q, a). (T @ [SStr q], val_of a)) L)"
    unfolding row by auto
  consider (other) "q \<in> set skip" | (last) m where "q \<notin> set skip" "limit = Some m" "m \<le> yielded + 1"
    | (more) "q \<notin> set skip" "\<And>m. limit = Some m \<Longrightarrow> yielded + 1 < m"
    by (metis linorder_not_less option.exhaust option.inject)
  then show ?case
  proof cases
    case other
    from Cons.IH [OF a Cons.prems(2), of True] s' n other show ?thesis
      by (subst order_loop.simps) (auto simp: row)
  next
    case last
    then have "m - yielded = 1" using Cons.prems(2) [of m] by simp
    with last s' n show ?thesis by (subst order_loop.simps) (auto simp: row cut_def)
  next
    case more
    have c: "cut (map_option (\<lambda>n. n - yielded) limit) (x # xs) = x # cut (map_option (\<lambda>n. n - (yielded + 1)) limit) xs"
      for x :: "pystr \<times> seg" and xs
      using more(2) cut_Cons [of "map_option (\<lambda>n. n - yielded) limit" x xs]
      by (cases limit) (auto simp: algebra_simps cut_def)
    from Cons.IH [OF a more(2), of True] obtain s'' where
      "order_loop ctx options skip limit True (yielded + 1) g' s' =
        Some (cut (map_option (\<lambda>n. n - (yielded + 1)) limit) (filter (\<lambda>(q, _). q \<notin> set skip) L), Inr (), True, s'')"
      "inv s''" "weight s'' = weight s'" "vw s'' = vw s'" by auto
    with n s' more show ?thesis
      by (subst order_loop.simps) (auto simp: row c split: option.splits)
  qed
qed

lemma order_anchored:
  assumes "order_options ctx T start reverse limit skip = Inr options" and "okk T" and "\<And>k. start = Some k \<Longrightarrow> okseg (SStr k)"
    and "\<And>n. limit = Some n \<Longrightarrow> 0 < n"
  shows "anchored (ctx_bound ctx) okk options T"
  using assms by (fastforce simp: order_options_def Let_def rbind_eq_Inr anchored_def split: if_splits option.splits)

lemma order_keys:
  assumes q: "order_options ctx T start reverse limit skip = Inr options" and f: "finite (dom V)"
    and L: "{x. T @ [x] \<in> dom V} = SStr ` set (map fst L)" "sorted_wrt (<) (map fst L)"
  shows "site_keys V options T =
    map (\<lambda>(q, _). T @ [SStr q]) (cut (map_option (\<lambda>n. n + int (length skip)) limit) (scanned start reverse L))"
proof -
  have b: "so_limit options = map_option (\<lambda>n. n + int (length skip)) limit" "so_reverse options = reverse"
    "so_filter options = Some (filter_and (PrefixFilter T) (LengthFilter (int (length T + 1))))" "so_max_depth options = None"
    using q by (auto simp: order_options_def Let_def rbind_eq_Inr split: if_splits)
  have fs: "from_start options (T @ [SStr k]) = (case start of None \<Rightarrow> True | Some l \<Rightarrow> if reverse then k \<le> l else l \<le> k)" for k
    using q by (auto simp: order_options_def Let_def rbind_eq_Inr from_start_def order.order_iff_strict split: if_splits option.splits)
  have xs: "sorted_list_of_set {x. T @ [x] \<in> dom V} = map SStr (map fst L)"
  proof (rule sorted_less_unique)
    show "sorted_wrt (<) (map SStr (map fst L))" using L(2) by (rule sorted_map_less)
  qed (simp_all add: L(1) image_image)
  have "filter (\<lambda>k. prefix T k \<and> from_start options k \<and> \<not> too_deep options k \<and> accepts (so_filter options) k)
        (sorted_list_of_set (dom V)) =
      filter (from_start options) (filter (\<lambda>k. prefix T k \<and> length k = Suc (length T)) (sorted_list_of_set (dom V)))"
    by (auto simp: too_deep_def b accepts_def matches_child simp del: filter_and.simps intro!: filter_cong)
  also have "\<dots> = map (\<lambda>(q, _). T @ [SStr q]) (filter (\<lambda>(q, _). case start of None \<Rightarrow> True | Some k \<Rightarrow> if reverse then q \<le> k else k \<le> q) L)"
    unfolding sorted_children [OF f] xs by (simp add: filter_map o_def fs case_prod_unfold)
  finally show ?thesis
    by (cases limit) (auto simp: site_keys_def b cut_def scanned_def Let_def rev_map take_map)
qed

end

lemma scanned_set: "set (scanned start reverse L) \<subseteq> set L"
  by (auto simp: scanned_def Let_def)

text \<open>Rows to skip that are in the scan at most once each do not use up the limit.\<close>

lemma cut_filter_cut:
  assumes "\<And>n. limit = Some n \<Longrightarrow> 0 < n" and "length (filter (\<lambda>x. \<not> Q x) xs) \<le> m"
  shows "cut limit (filter Q (cut (map_option (\<lambda>n. n + int m) limit) xs)) = cut limit (filter Q xs)"
proof (cases limit)
  case (Some n)
  have "take i (filter Q (take (i + j) xs)) = take i (filter Q xs)" if "length (filter (\<lambda>x. \<not> Q x) xs) \<le> j" for i j
    using that
  proof (induction xs arbitrary: i j)
    case (Cons x xs)
    show ?case
    proof (cases "Q x")
      case True
      with Cons show ?thesis by (cases i) simp_all
    next
      case False
      with Cons.prems obtain j' where "j = Suc j'" by (cases j) simp_all
      with False Cons show ?thesis by simp
    qed
  qed simp
  from this [OF assms(2), of "nat n"] Some assms(1) [OF Some] show ?thesis by (simp add: cut_def nat_add_distrib)
qed (simp add: cut_def)

text \<open>Rows in order: ascending valid keys, every id once.\<close>

definition ordered :: "(pystr \<times> seg) list \<Rightarrow> bool" where
  "ordered L \<longleftrightarrow> sorted_wrt (<) (map fst L) \<and> distinct (map snd L) \<and> (\<forall>q \<in> fst ` set L. key_ok q)"

lemma orderedD:
  assumes "ordered L"
  shows "sorted_wrt (<) (map fst L)" "distinct (map snd L)" "distinct (map fst L)" "(q, a) \<in> set L \<Longrightarrow> key_ok q"
  using assms by (force simp: ordered_def strict_sorted_iff)+

lemma skip_few:
  assumes "distinct (map fst L)"
  shows "length (filter (\<lambda>x. \<not> (case x of (q, _) \<Rightarrow> q \<notin> set skip)) L) \<le> length skip"
proof -
  let ?L = "filter (\<lambda>x. \<not> (case x of (q, _) \<Rightarrow> q \<notin> set skip)) L"
  have "distinct (map fst ?L)" using assms by (simp add: distinct_map_filter)
  then have "length ?L = card (fst ` set ?L)" using distinct_card [of "map fst ?L"] by simp
  also have "\<dots> \<le> card (set skip)" by (rule card_mono) auto
  also have "\<dots> \<le> length skip" by (rule card_length)
  finally show ?thesis .
qed

lemma scanned_all: "scanned None reverse L = (if reverse then rev L else L)"
  by (simp add: scanned_def filter_id_conv)

lemma scanned_from:
  assumes "sorted_wrt (<) (map fst (A @ (k, a) # B))"
  shows "scanned (Some k) True (A @ (k, a) # B) = (k, a) # rev A"
    and "scanned (Some k) False (A @ (k, a) # B) = (k, a) # B"
proof -
  have A: "fst x < k" if "x \<in> set A" for x using assms that by (auto simp: sorted_wrt_append)
  have B: "k < fst x" if "x \<in> set B" for x using assms that by (auto simp: sorted_wrt_append)
  have "filter (\<lambda>(q, _). q \<le> k) A = A" "filter (\<lambda>(q, _). q \<le> k) B = []"
    "filter (\<lambda>(q, _). k \<le> q) A = []" "filter (\<lambda>(q, _). k \<le> q) B = B"
    using A B by (fastforce simp: filter_id_conv filter_empty_conv)+
  then show "scanned (Some k) True (A @ (k, a) # B) = (k, a) # rev A"
    and "scanned (Some k) False (A @ (k, a) # B) = (k, a) # B"
    by (simp_all add: scanned_def)
qed

context frac_context begin

lemma okseg_key: "key_ok k \<Longrightarrow> okseg (SStr k)"
  by (intro okseg_digits key_digits)

lemma okk_layout: "okk (fv_site F) \<Longrightarrow> okk (frac_data F)" "okk (fv_site F) \<Longrightarrow> okk (frac_order F)" "okk (fv_site F) \<Longrightarrow> okk (frac_pos F)"
  using okseg_layout by (simp_all add: frac_data_def frac_order_def frac_pos_def)

lemma scan_order_ok:
  assumes s: "inv s" "weight s < pages" and k: "okk (fv_site F)" and V: "vw s = with_rows (fv_site F) (map_of L) P D V" and L: "ordered L"
    and lim: "\<And>n. limit = Some n \<Longrightarrow> 0 < n" and st: "\<And>k. start = Some k \<Longrightarrow> key_ok k" and here: "strict \<Longrightarrow> V (fv_site F) \<noteq> None"
  shows "\<exists>s'. scan_order ctx F start reverse limit skip strict s =
      Some (cut limit (filter (\<lambda>(q, _). q \<notin> set skip) (scanned start reverse L)), Inr (), s') \<and> same inv weight vw s s'"
proof -
  let ?T = "frac_order F"
  have T: "okk ?T" using okk_layout(2) [OF k] .
  have "\<exists>options. order_options ctx ?T start reverse limit skip = Inr options"
    using bound [OF T] by (auto simp: order_options_def Let_def)
  then obtain options where o: "order_options ctx ?T start reverse limit skip = Inr options" by blast
  note a = order_anchored [OF o T okseg_key [OF st] lim]
  have at: "vw s (?T @ [x]) = (case x of SInt _ \<Rightarrow> None | SStr q \<Rightarrow> map_option val_of (map_of L q))" for x
    unfolding V by (simp add: frac_order_def split: seg.split)
  have dom: "{x. ?T @ [x] \<in> dom (vw s)} = SStr ` set (map fst L)"
  proof (rule set_eqI)
    fix x
    show "x \<in> {x. ?T @ [x] \<in> dom (vw s)} \<longleftrightarrow> x \<in> SStr ` set (map fst L)"
      by (cases x) (simp_all add: at domIff map_of_eq_None_iff image_image inj_image_mem_iff image_iff del: not_None_eq)
  qed
  note keys = order_keys [OF o finite_vw [OF s(1)] dom orderedD(1) [OF L]]
  let ?L = "cut (map_option (\<lambda>n. n + int (length skip)) limit) (scanned start reverse L)"
  have sub: "set ?L \<subseteq> set L"
    using scanned_set [of start reverse L] set_take_subset by (fastforce simp: cut_def split: option.splits)
  have m: "map_of L q = Some a" if "(q, a) \<in> set ?L" for q a
    using sub that map_of_is_SomeI [OF orderedD(3) [OF L]] by blast
  have "site_rows (vw s) options ?T = map (\<lambda>(q, a). (?T @ [SStr q], val_of a)) ?L"
    by (auto simp: site_rows_def keys at dest: m)
  with scan_start [OF s T a, of ITEMS]
  have "at options ITEMS None (ctx_scan ctx) s (map (\<lambda>(q, a). (?T @ [SStr q], val_of a)) ?L)" by simp
  from order_loop_rows [OF this, of limit 0 skip False] lim obtain s' where
    l: "order_loop ctx options skip limit False 0 (ctx_scan ctx) s =
      Some (cut limit (filter (\<lambda>(q, _). q \<notin> set skip) ?L), Inr (), ?L \<noteq> [], s')"
    and s': "inv s'" "weight s' = weight s" "vw s' = vw s"
    by (auto simp: option.map_id0 [unfolded id_def])
  have "distinct (map fst (scanned start reverse L))"
    using orderedD(3) [OF L] by (auto simp: scanned_def Let_def distinct_map_filter rev_map [symmetric])
  from skip_few [OF this, of skip] lim
  have c: "cut limit (filter (\<lambda>(q, _). q \<notin> set skip) ?L) = cut limit (filter (\<lambda>(q, _). q \<notin> set skip) (scanned start reverse L))"
    by (intro cut_filter_cut) simp_all
  have "node_exists ctx (fv_site F) s' = Inr True" if strict
    using node_exists_ok [OF s'(1) k] here [OF that] s'(3) V by simp
  with o l c s' show ?thesis by (auto simp: scan_order_def attempt_gen_def same_def)
qed

lemma first_row_ok:
  assumes "inv s" "weight s < pages" and "okk (fv_site F)" and "vw s = with_rows (fv_site F) (map_of L) P D V" and "ordered L"
    and "\<And>k. start = Some k \<Longrightarrow> key_ok k" and "strict \<Longrightarrow> V (fv_site F) \<noteq> None"
  shows "\<exists>s'. first_row ctx F start reverse skip strict s =
      Some (Inr (case filter (\<lambda>(q, _). q \<notin> set skip) (scanned start reverse L) of [] \<Rightarrow> None | x # _ \<Rightarrow> Some x), s') \<and>
    same inv weight vw s s'"
proof -
  let ?xs = "filter (\<lambda>(q, _). q \<notin> set skip) (scanned start reverse L)"
  have "\<exists>s'. scan_order ctx F start reverse (Some 1) skip strict s = Some (cut (Some 1) ?xs, Inr (), s') \<and> same inv weight vw s s'"
    by (rule scan_order_ok [OF assms(1-5)]) (use assms(6,7) in auto)
  then obtain s' where "scan_order ctx F start reverse (Some 1) skip strict s = Some (cut (Some 1) ?xs, Inr (), s')"
    "same inv weight vw s s'" by blast
  then show ?thesis by (cases ?xs) (simp_all add: first_row_def act_unfold cut_def)
qed

lemma edge_ok:
  assumes "inv s" "weight s < pages" and "okk (fv_site F)" and "vw s = with_rows (fv_site F) (map_of L) P D V" and "ordered L"
    and "strict \<Longrightarrow> V (fv_site F) \<noteq> None"
  shows "\<exists>s'. edge ctx F at_end strict s =
      Some (Inr (if L = [] then None else Some (if at_end then last L else hd L)), s') \<and> same inv weight vw s s'"
proof -
  have "(case filter (\<lambda>(q, _). q \<notin> set []) (scanned None at_end L) of [] \<Rightarrow> None | x # _ \<Rightarrow> Some x) =
      (if L = [] then None else Some (if at_end then last L else hd L))"
    by (cases L rule: rev_cases; cases L) (auto simp: scanned_all filter_id_conv split: list.splits)
  with first_row_ok [OF assms(1-5) _ assms(6), where start = None and reverse = at_end and skip = "[]"] show ?thesis by (simp add: edge_def)
qed

lemma neighbour_ok:
  assumes "inv s" "weight s < pages" and "okk (fv_site F)" and "vw s = with_rows (fv_site F) (map_of (A @ (k, a) # B)) P D V"
    and L: "ordered (A @ (k, a) # B)"
  shows "\<exists>s'. neighbour ctx F k down [] s =
      Some (Inr (if down then (if A = [] then None else Some (last A)) else (if B = [] then None else Some (hd B))), s') \<and>
    same inv weight vw s s'"
proof -
  note sf = scanned_from [OF orderedD(1) [OF L]]
  have ne: "filter (\<lambda>(q, _). q \<notin> set [k]) A = A" "filter (\<lambda>(q, _). q \<notin> set [k]) B = B"
    using orderedD(3) [OF L] unfolding filter_id_conv by (auto simp: image_iff)
  have "(case filter (\<lambda>(q, _). q \<notin> set [k]) (scanned (Some k) down (A @ (k, a) # B)) of [] \<Rightarrow> None | x # _ \<Rightarrow> Some x) =
      (if down then (if A = [] then None else Some (last A)) else (if B = [] then None else Some (hd B)))"
  proof (cases down)
    case True
    then have "filter (\<lambda>(q, _). q \<notin> set [k]) (scanned (Some k) down (A @ (k, a) # B)) = rev A"
      using arg_cong [OF ne(1), of rev] by (simp add: sf(1) rev_filter)
    with True show ?thesis by (cases A rule: rev_cases) simp_all
  next
    case False
    then have "filter (\<lambda>(q, _). q \<notin> set [k]) (scanned (Some k) down (A @ (k, a) # B)) = B"
      using ne(2) by (simp add: sf(2))
    with False show ?thesis by (cases B) simp_all
  qed
  moreover have "key_ok k" using orderedD(4) [OF L, of k a] by simp
  ultimately show ?thesis
    using first_row_ok [OF assms(1-5), where start = "Some k" and strict = False and reverse = down and skip = "[k]"]
    unfolding neighbour_def by simp
qed

lemma order_rows_ok:
  assumes "inv s" "weight s < pages" and "okk (fv_site F)" and "vw s = with_rows (fv_site F) (map_of L) P D V" and "ordered L"
    and "\<And>n. limit = Some n \<Longrightarrow> 0 < n" and "\<And>k. start = Some k \<Longrightarrow> key_ok k" and "strict \<Longrightarrow> V (fv_site F) \<noteq> None"
  shows "\<exists>s'. order_rows ctx F start reverse limit skip strict s =
      Some (Inr (cut limit (filter (\<lambda>(q, _). q \<notin> set skip) (scanned start reverse L))), s') \<and> same inv weight vw s s'"
proof -
  from scan_order_ok [OF assms] obtain s' where
    "scan_order ctx F start reverse limit skip strict s =
      Some (cut limit (filter (\<lambda>(q, _). q \<notin> set skip) (scanned start reverse L)), Inr (), s')"
    "same inv weight vw s s'" by blast
  then show ?thesis by (simp add: order_rows_def act_unfold)
qed

end

end
