(* ===== verification/Frac_Place.thy ===== *)
theory Frac_Place
  imports Frac_Rows
begin

text \<open>
  Placing a row in the order index: whatever the random digits, the key found for a gap lies in it, and a
  respacing keeps every id where it is in the order.
\<close>

section \<open>How an action ends\<close>

text \<open>\<open>returns m s Q\<close>: from \<open>s\<close> the action returns, a result and in a state that have \<open>Q\<close>.\<close>

definition returns :: "('s \<Rightarrow> ('a res \<times> 's) option) \<Rightarrow> 's \<Rightarrow> ('a \<Rightarrow> 's \<Rightarrow> bool) \<Rightarrow> bool" where
  "returns m s Q \<longleftrightarrow> (\<exists>x s'. m s = Some (Inr x, s') \<and> Q x s')"

lemma returns_mono: "returns m s P \<Longrightarrow> (\<And>x s'. P x s' \<Longrightarrow> Q x s') \<Longrightarrow> returns m s Q"
  by (auto simp: returns_def)

lemma returns_ret: "Q x s \<Longrightarrow> returns (act_ret x) s Q"
  by (simp add: returns_def)

lemma returns_read: "g s = Inr x \<Longrightarrow> Q x s \<Longrightarrow> returns (act_read g) s Q"
  by (simp add: returns_def)

lemma returns_write: "\<exists>s'. g s = (Inr x, s') \<and> Q x s' \<Longrightarrow> returns (act_write g) s Q"
  by (auto simp: returns_def)

lemma returns_bind: "returns m s P \<Longrightarrow> (\<And>x s'. P x s' \<Longrightarrow> returns (f x) s' Q) \<Longrightarrow> returns (act_bind m f) s Q"
  by (fastforce simp: returns_def act_bind_def)

lemma returns_bind_read: "g s = Inr x \<Longrightarrow> returns (f x) s Q \<Longrightarrow> returns (act_bind (act_read g) f) s Q"
  by (simp add: returns_def act_bind_def)

lemma returns_bind_ret: "returns (f x) s Q \<Longrightarrow> returns (act_bind (act_ret x) f) s Q"
  by (simp add: returns_def act_bind_def)

lemma returns_on_ctx: "returns m s (\<lambda>x s'. Q x (s', t)) \<Longrightarrow> returns (on_ctx m) (s, t) Q"
  by (auto simp: returns_def on_ctx_def)

lemma returns_draw: "f t = Some (Inr (x, t')) \<Longrightarrow> Q x (s, t') \<Longrightarrow> returns (draw f) (s, t) Q"
  by (simp add: returns_def draw_def)

lemma returns_bind_on: "returns m s P \<Longrightarrow> (\<And>x s'. P x s' \<Longrightarrow> returns (f x) (s', t) Q) \<Longrightarrow> returns (act_bind (on_ctx m) f) (s, t) Q"
  by (fastforce simp: returns_def act_bind_def on_ctx_def)

lemma returns_bind_draw: "f t = Some (Inr (x, t')) \<Longrightarrow> returns (h x) (s, t') Q \<Longrightarrow> returns (act_bind (draw f) h) (s, t) Q"
  by (simp add: returns_def act_bind_def draw_def)

section \<open>The state of a view\<close>

definition frac_state ::
  "('s \<Rightarrow> bool) \<Rightarrow> ('s \<Rightarrow> nat) \<Rightarrow> ('s \<Rightarrow> key \<rightharpoonup> pyval) \<Rightarrow> (key \<Rightarrow> bool) \<Rightarrow> frac_view \<Rightarrow> nat \<Rightarrow>
   (pystr \<rightharpoonup> seg) \<Rightarrow> (seg \<rightharpoonup> pystr) \<Rightarrow> (seg \<rightharpoonup> pyval) \<Rightarrow> (key \<rightharpoonup> pyval) \<Rightarrow> 's \<Rightarrow> bool" where
  "frac_state ok weight vw okk F n K P D V s \<longleftrightarrow>
     okk (fv_site F) \<and> ok s \<and> weight s \<le> n \<and> vw s = with_rows (fv_site F) K P D V"

lemma find_empty_simps [simp]: "find_empty (VStr q) path = None" "find_empty (val_of a) path = None"
  by (cases a; simp)+

context frac_context begin

abbreviation "state \<equiv> frac_state inv weight vw okk"

lemma put_row:
  assumes "inv s" and "okk (T @ [a])" and "find_empty v [] = None"
  shows "\<exists>s'. put_child_primitive ctx T a v False False s = (Inr (), s') \<and> inv s' \<and> weight s' \<le> Suc (weight s) \<and>
    vw s' = (vw s)(T @ [a] \<mapsto> v)"
  using put [OF assms(1,2) find_empty_VEmpty [OF assms(3)]] assms(3)
  by (simp add: put_child_primitive_def attempt_def reject_empty_value_def validate_if_def)

lemma state_okseg: "state F n K P D V s \<Longrightarrow> P a = Some q \<Longrightarrow> okseg a"
  using okk_dom [of s "fv_site F @ [POS, a]"] by (auto simp: frac_state_def)

lemma put_pos:
  assumes "state F n K P D V s" and "okseg a"
  shows "returns (act_write (put_child_primitive ctx (frac_pos F) a (VStr q) False False)) s (\<lambda>_. state F (Suc n) K (P(a \<mapsto> q)) D V)"
  using put_row [of s "frac_pos F" a "VStr q"] assms okseg_layout
  by (intro returns_write) (auto simp: frac_state_def frac_pos_def with_rows_upd)

lemma put_order:
  assumes "state F n K P D V s" and "key_ok q"
  shows "returns (act_write (put_child_primitive ctx (frac_order F) (SStr q) (val_of a) False False)) s
    (\<lambda>_. state F (Suc n) (K(q \<mapsto> a)) P D V)"
  using put_row [of s "frac_order F" "SStr q" "val_of a"] assms okseg_layout okseg_key [OF assms(2)]
  by (intro returns_write) (auto simp: frac_state_def frac_order_def with_rows_upd)

lemma put_data:
  assumes "state F n K P D V s" and "okseg a" and "find_empty v [] = None"
  shows "returns (act_write (put_child_primitive ctx (frac_data F) a v False False)) s (\<lambda>_. state F (Suc n) K P (D(a \<mapsto> v)) V)"
  using put_row [of s "frac_data F" a v] assms okseg_layout
  by (intro returns_write) (auto simp: frac_state_def frac_data_def with_rows_upd)

lemma drop_order:
  assumes "state F n K P D V s" and "key_ok q"
  shows "returns (act_write (delete_child_primitive_unsafe ctx (frac_order F) (SStr q))) s (\<lambda>_. state F (Suc n) (K(q := None)) P D V)"
  using delete [of s "frac_order F @ [SStr q]"] assms okseg_layout okseg_key [OF assms(2)]
  by (intro returns_write) (auto simp: frac_state_def frac_order_def with_rows_upd delete_child_primitive_unsafe_def attempt_def)

lemma drop_pos:
  assumes "state F n K P D V s" and "okseg a"
  shows "returns (act_write (delete_child_primitive_unsafe ctx (frac_pos F) a)) s (\<lambda>_. state F (Suc n) K (P(a := None)) D V)"
  using delete [of s "frac_pos F @ [a]"] assms okseg_layout
  by (intro returns_write) (auto simp: frac_state_def frac_pos_def with_rows_upd delete_child_primitive_unsafe_def attempt_def)

lemma index_row_ok:
  assumes "state F n K P D V s" and "okseg a" and "key_ok q"
  shows "returns (index_row ctx F a q) s (\<lambda>_. state F (n + 2) (K(q \<mapsto> a)) (P(a \<mapsto> q)) D V)"
  unfolding index_row_def
  using put_order [OF _ assms(3), of F "Suc n" _ _ _ _ _ a] by (auto intro!: returns_bind [OF put_pos [OF assms(1,2)]])

section \<open>Rows dropped and written\<close>

lemma drop_rows_ok:
  assumes "state F n K P D V s" and "\<forall>q \<in> fst ` set rows. key_ok q"
  shows "returns (drop_rows ctx F rows) s (\<lambda>_. state F (n + length rows) (K |` (- fst ` set rows)) P D V)"
  using assms unfolding drop_rows_def
proof (induction rows arbitrary: n K s)
  case Nil
  then show ?case by (simp add: returns_def restrict_map_def)
next
  case (Cons row rows)
  obtain q a where row: "row = (q, a)" by (cases row)
  have eq: "(K(q := None)) |` (- fst ` set rows) = K |` (- fst ` set (row # rows))" "Suc n + length rows = n + length (row # rows)"
    by (auto simp: row restrict_map_def fun_eq_iff)
  have q: "key_ok q" and rs: "\<forall>q \<in> fst ` set rows. key_ok q" using Cons.prems(2) by (simp_all add: row)
  note step = Cons.IH [OF _ rs, of "Suc n" "K(q := None)", unfolded eq]
  show ?case
    unfolding act_each.simps by (subst (1) row, unfold prod.case, rule returns_bind [OF drop_order [OF Cons.prems(1) q]], rule step)
qed

lemma index_rows_ok:
  assumes "state F n K P D V s" and "length rows = length keys" and "distinct keys" and "distinct (map snd rows)"
    and "\<forall>q \<in> set keys. key_ok q" and "\<forall>a \<in> snd ` set rows. okseg a"
  shows "returns (index_rows ctx F rows (keys @ rest)) s (\<lambda>_.
    state F (n + 2 * length rows) (K ++ map_of (zip keys (map snd rows))) (P ++ map_of (zip (map snd rows) keys)) D V)"
  using assms unfolding index_rows_def
proof (induction rows arbitrary: n K P s keys)
  case Nil
  then show ?case by (simp add: returns_def)
next
  case (Cons row rows)
  obtain q a k ks where row: "row = (q, a)" "keys = k # ks" using Cons.prems(2) by (cases row; cases keys) auto
  have eq: "(K(k \<mapsto> a)) ++ map_of (zip ks (map snd rows)) = K ++ map_of (zip keys (map snd (row # rows)))"
    "(P(a \<mapsto> k)) ++ map_of (zip (map snd rows) ks) = P ++ map_of (zip (map snd (row # rows)) keys)"
    "n + 2 + 2 * length rows = n + 2 * length (row # rows)"
    using Cons.prems(2-4) by (auto simp: row map_add_upd_left dest: set_zip_leftD)
  have a: "okseg a" "key_ok k" and rs: "length rows = length ks" "distinct ks" "distinct (map snd rows)" "\<forall>q \<in> set ks. key_ok q"
      "\<forall>a \<in> snd ` set rows. okseg a"
    using Cons.prems(2-6) by (simp_all add: row)
  note step = Cons.IH [OF _ rs, of "n + 2" "K(k \<mapsto> a)" "P(a \<mapsto> k)", unfolded eq]
  have "zip (row # rows) (keys @ rest) = ((q, a), k) # zip rows (ks @ rest)" by (simp add: row)
  then show ?case
    by (simp only: act_each.simps prod.case) (rule returns_bind [OF index_row_ok [OF Cons.prems(1) a]], rule step)
qed

end

section \<open>Gaps\<close>

definition first_key :: "(pystr \<times> seg) list \<Rightarrow> pystr option" where "first_key L = (if L = [] then None else Some (fst (hd L)))"
definition last_key :: "(pystr \<times> seg) list \<Rightarrow> pystr option" where "last_key L = (if L = [] then None else Some (fst (last L)))"

definition fits :: "(pystr \<times> seg) list \<Rightarrow> pystr \<Rightarrow> (pystr \<times> seg) list \<Rightarrow> bool" where
  "fits A q B \<longleftrightarrow> key_ok q \<and> (\<forall>k \<in> fst ` set A. k < q) \<and> (\<forall>k \<in> fst ` set B. q < k)"

text \<open>The positions agree with the rows; the positions of just these rows.\<close>

definition positions :: "(pystr \<times> seg) list \<Rightarrow> (seg \<rightharpoonup> pystr) \<Rightarrow> bool" where
  "positions L P \<longleftrightarrow> (\<forall>(q, a) \<in> set L. P a = Some q)"

lemma positionsD: "positions L P \<Longrightarrow> (q, a) \<in> set L \<Longrightarrow> P a = Some q"
  by (auto simp: positions_def)

lemma last_key_rev: "last_key (rev L) = first_key L"
  by (simp add: first_key_def last_key_def last_rev)

lemma gap_bounds: "ordered (A @ C @ B) \<Longrightarrow> bounds_ok (last_key A) (first_key B)"
  by (cases A rule: rev_cases; cases B)
    (auto simp: ordered_def bounds_ok_def last_key_def first_key_def sorted_wrt_append)

lemma gap_fits:
  assumes "ordered (A @ B)" and "key_ok q" and "lies_between (last_key A) (first_key B) q"
  shows "fits A q B"
proof -
  have "k < q" if "k \<in> fst ` set A" for k
    using that assms by (cases A rule: rev_cases)
      (auto simp: ordered_def lies_between_def last_key_def sorted_wrt_append intro: less_trans)
  moreover have "q < k" if "k \<in> fst ` set B" for k
    using that assms by (cases B)
      (auto simp: ordered_def lies_between_def first_key_def sorted_wrt_append intro: less_trans)
  ultimately show ?thesis using assms(2) by (simp add: fits_def)
qed

lemma ordered_insert: "ordered (A @ B) \<Longrightarrow> fits A q B \<Longrightarrow> a \<notin> snd ` set (A @ B) \<Longrightarrow> ordered (A @ (q, a) # B)"
  by (force simp: ordered_def fits_def sorted_wrt_append)

lemma map_of_permuted: "distinct (map fst xs) \<Longrightarrow> distinct (map fst ys) \<Longrightarrow> set xs = set ys \<Longrightarrow> map_of xs = map_of ys"
  by (simp add: map_of_inject_set)

lemma map_of_middle: "distinct (map fst (A @ (q, a) # B)) \<Longrightarrow> map_of (A @ (q, a) # B) = (map_of (A @ B))(q \<mapsto> a)"
  using map_of_permuted [of "A @ (q, a) # B" "(q, a) # A @ B"] by simp

lemma map_of_middle_drop: "distinct (map fst (A @ (q, a) # B)) \<Longrightarrow> (map_of (A @ (q, a) # B))(q := None) = map_of (A @ B)"
proof -
  assume d: "distinct (map fst (A @ (q, a) # B))"
  then have "map_of (A @ B) q = None" by (simp only: map_of_eq_None_iff) auto
  then show ?thesis by (simp only: map_of_middle [OF d] fun_upd_upd) (simp only: fun_upd_idem)
qed

lemma fits_absent: "fits A q B \<Longrightarrow> map_of (A @ B) q = None"
  by (auto simp: fits_def map_of_eq_None_iff)

text \<open>
  What opening a gap between \<open>A\<close> and \<open>B\<close> may leave: rows \<open>A'\<close> and \<open>B'\<close> with the same ids at keys that
  leave room for \<open>q\<close> between them.
\<close>

definition opened ::
  "(pystr \<times> seg) list \<Rightarrow> (pystr \<times> seg) list \<Rightarrow> (seg \<rightharpoonup> pystr) \<Rightarrow> pystr \<Rightarrow>
   (pystr \<times> seg) list \<Rightarrow> (pystr \<times> seg) list \<Rightarrow> (seg \<rightharpoonup> pystr) \<Rightarrow> bool" where
  "opened A B P q A' B' P' \<longleftrightarrow>
     map snd A' = map snd A \<and> map snd B' = map snd B \<and> ordered (A' @ B') \<and> fits A' q B' \<and> positions (A' @ B') P' \<and>
     (\<forall>x. x \<notin> snd ` set (A @ B) \<longrightarrow> P' x = P x)"

lemma opened_same: "ordered (A @ B) \<Longrightarrow> positions (A @ B) P \<Longrightarrow> fits A q B \<Longrightarrow> opened A B P q A B P"
  by (simp add: opened_def)

text \<open>The window a respacing works in: the rows next to the gap, with fresh keys for them and for the gap.\<close>

definition respaced ::
  "(pystr \<times> seg) list \<Rightarrow> (pystr \<times> seg) list \<Rightarrow> (pystr \<times> seg) list \<times> pystr list \<times> (pystr \<times> seg) list \<Rightarrow> bool" where
  "respaced A B w \<longleftrightarrow> (case w of (lower, keys, upper) \<Rightarrow>
     \<exists>A1 B2. A = A1 @ lower \<and> B = upper @ B2 \<and> length keys = length lower + 1 + length upper \<and>
       keys_between (last_key A1) (first_key B2) keys)"

lemma cut_window_rows:
  assumes "k = None \<or> rows = take (Suc (the k)) X" and "k = None \<longrightarrow> rows = X"
  shows "\<exists>X1 X2. X = X1 @ X2 \<and> cut_window k rows = (first_key X2, X1)"
proof (cases k)
  case None
  then show ?thesis using assms by (intro exI [of _ X] exI [of _ "[]"]) (simp add: cut_window_def first_key_def)
next
  case (Some n)
  show ?thesis
  proof (cases "n < length X")
    case True
    then show ?thesis using assms Some
      by (intro exI [of _ "take n X"] exI [of _ "drop n X"]) (simp add: cut_window_def first_key_def hd_drop_conv_nth min_def)
  next
    case False
    then show ?thesis using assms Some
      by (intro exI [of _ X] exI [of _ "[]"]) (simp add: cut_window_def first_key_def)
  qed
qed

lemma respaced_between:
  assumes "ordered (A @ B)" and "respaced A B (lower, keys, upper)"
  obtains A1 B2 KA g KB where "A = A1 @ lower" "B = upper @ B2" "keys = KA @ g # KB" "length KA = length lower"
    "length KB = length upper" "ordered (A1 @ zip KA (map snd lower) @ zip KB (map snd upper) @ B2)"
    "fits (A1 @ zip KA (map snd lower)) g (zip KB (map snd upper) @ B2)"
    "distinct (KA @ KB)" "\<forall>q \<in> set (KA @ KB). key_ok q \<and> q \<notin> fst ` set (A1 @ B2)"
proof -
  obtain A1 B2 where AB: "A = A1 @ lower" "B = upper @ B2" and n: "length keys = length lower + 1 + length upper"
    and k: "keys_between (last_key A1) (first_key B2) keys"
    using assms(2) by (auto simp: respaced_def)
  have nth: "length lower < length keys" using n by simp
  then have keys: "keys = take (length lower) keys @ keys ! length lower # drop (Suc (length lower)) keys"
    by (simp add: id_take_nth_drop)
  define KA g KB where "KA = take (length lower) keys" and "g = keys ! length lower" and "KB = drop (Suc (length lower)) keys"
  note K = keys [folded KA_def g_def KB_def]
  have len: "length KA = length lower" "length KB = length upper" using n by (simp_all add: KA_def KB_def)
  have "ordered (A1 @ B2)" using assms(1) by (auto simp: AB ordered_def sorted_wrt_append)
  then have F: "fits A1 q B2" if "q \<in> set keys" for q
    using k that by (intro gap_fits) (auto simp: keys_between_def)
  have s: "sorted_wrt (<) keys" using k by (simp add: keys_between_def)
  have lo: "x < q" if "x \<in> fst ` set A1" "q \<in> set keys" for x q using F [OF that(2)] that(1) by (auto simp: fits_def)
  have hi: "q < y" if "y \<in> fst ` set B2" "q \<in> set keys" for y q using F [OF that(2)] that(1) by (auto simp: fits_def)
  have ok: "key_ok q" if "q \<in> set keys" for q using F [OF that] by (simp add: fits_def)
  show ?thesis
  proof (rule that [OF AB K len])
    let ?L = "A1 @ zip KA (map snd lower) @ zip KB (map snd upper) @ B2"
    have fs: "map fst ?L = map fst A1 @ KA @ KB @ map fst B2" and sn: "map snd ?L = map snd (A @ B)"
      using len by (simp_all add: AB)
    have "sorted_wrt (<) (map fst A1)" "sorted_wrt (<) (map fst B2)" "\<forall>x \<in> fst ` set A1. \<forall>y \<in> fst ` set B2. x < y"
      using assms(1) by (auto simp: AB ordered_def sorted_wrt_append)
    moreover have "sorted_wrt (<) (X @ KA @ KB @ Y)"
      if "sorted_wrt (<) X" "sorted_wrt (<) Y" "\<forall>x \<in> set X. \<forall>y \<in> set Y. x < y" "\<forall>x \<in> set X. \<forall>q \<in> set keys. x < q"
        "\<forall>y \<in> set Y. \<forall>q \<in> set keys. q < y" for X Y
      using that s by (auto simp: K sorted_wrt_append)
    ultimately have "sorted_wrt (<) (map fst ?L)"
      unfolding fs using lo hi by (metis (no_types, lifting) set_map)
    moreover have "\<forall>q \<in> set (map fst ?L). key_ok q"
      unfolding fs using ok assms(1) by (auto simp: K AB ordered_def)
    ultimately show "ordered ?L" using assms(1) unfolding ordered_def sn by (simp add: image_Un del: map_append)
    show "fits (A1 @ zip KA (map snd lower)) g (zip KB (map snd upper) @ B2)"
      using F [of g] s len by (auto simp: fits_def K sorted_wrt_append dest: set_zip_leftD)
    show "distinct (KA @ KB)" using s by (simp add: K strict_sorted_iff)
    show "\<forall>q \<in> set (KA @ KB). key_ok q \<and> q \<notin> fst ` set (A1 @ B2)" using ok lo hi by (fastforce simp: K)
  qed
qed

text \<open>The maps after a respacing.\<close>

lemma restrict_rows:
  assumes "distinct (map fst (A1 @ lower @ upper @ B2))"
  shows "map_of (A1 @ lower @ upper @ B2) |` (- fst ` set (lower @ upper)) = map_of (A1 @ B2)"
proof
  fix q
  show "(map_of (A1 @ lower @ upper @ B2) |` (- fst ` set (lower @ upper))) q = map_of (A1 @ B2) q"
  proof (cases "q \<in> fst ` set (lower @ upper)")
    case True
    then have "q \<notin> fst ` set (A1 @ B2)" using assms by auto
    then have "map_of (A1 @ B2) q = None" by (simp only: map_of_eq_None_iff not_False_eq_True)
    with True show ?thesis by (simp add: map_add_def)
  next
    case False
    then have "map_of lower q = None" "map_of upper q = None" by (auto simp: map_of_eq_None_iff)
    with False show ?thesis by (simp add: map_add_def split: option.split)
  qed
qed

lemma rewritten_rows:
  assumes "distinct (map fst (A1 @ L @ U @ B2))"
  shows "map_of (A1 @ B2) ++ map_of L ++ map_of U = map_of (A1 @ L @ U @ B2)"
proof -
  have "map_of (A1 @ B2) ++ map_of L ++ map_of U = map_of (U @ L @ A1 @ B2)" by simp
  also have "\<dots> = map_of (A1 @ L @ U @ B2)" using assms by (intro map_of_permuted) auto
  finally show ?thesis .
qed

lemma rewritten_positions:
  assumes d: "distinct (map snd (A1 @ lower @ upper @ B2))" and len: "length KA = length lower" "length KB = length upper"
    and P: "positions (A1 @ lower @ upper @ B2) P"
  shows "positions (A1 @ zip KA (map snd lower) @ zip KB (map snd upper) @ B2)
      (P ++ map_of (zip (map snd lower) KA) ++ map_of (zip (map snd upper) KB))" (is "positions ?L ?P")
    and "x \<notin> snd ` set (lower @ upper) \<Longrightarrow> (P ++ map_of (zip (map snd lower) KA) ++ map_of (zip (map snd upper) KB)) x = P x"
proof -
  have none: "map_of (zip (map snd R) K) a = None" if "a \<notin> snd ` set R" for R :: "(pystr \<times> seg) list" and K :: "pystr list" and a
    using that by (auto simp: map_of_eq_None_iff dest: set_zip_leftD)
  then show "x \<notin> snd ` set (lower @ upper) \<Longrightarrow> ?P x = P x" by (auto simp: map_add_def image_Un)
  have some: "map_of (zip (map snd R) K) a = Some q" if "(q, a) \<in> set (zip K (map snd R))" "distinct (map snd R)"
    for R :: "(pystr \<times> seg) list" and K :: "pystr list" and a q
  proof (rule map_of_is_SomeI)
    show "distinct (map fst (zip (map snd R) K))" using that(2) by (simp add: map_fst_zip_take distinct_take)
    show "(a, q) \<in> set (zip (map snd R) K)" using that(1) by (auto simp: in_set_zip)
  qed
  have "?P a = Some q" if "(q, a) \<in> set ?L" for q a
  proof -
    from that consider "(q, a) \<in> set A1 \<union> set B2" | "(q, a) \<in> set (zip KA (map snd lower))" | "(q, a) \<in> set (zip KB (map snd upper))" by auto
    then show ?thesis
    proof cases
      case 1
      then have "a \<in> snd ` set A1 \<union> snd ` set B2" by force
      then have "a \<notin> snd ` set lower" "a \<notin> snd ` set upper" using d by auto
      moreover have "P a = Some q" using 1 P by (auto simp: positions_def)
      ultimately show ?thesis by (simp add: none map_add_def)
    next
      case 2
      then have "a \<in> snd ` set lower" by (auto dest: set_zip_rightD)
      then have "a \<notin> snd ` set upper" using d by auto
      with some [OF 2] d show ?thesis by (simp add: none map_add_def)
    next
      case 3
      with some [OF 3] d show ?thesis by simp
    qed
  qed
  then show "positions ?L ?P" by (auto simp: positions_def)
qed

context frac_context begin

lemma state_le: "state F n K P D V s \<Longrightarrow> n \<le> m \<Longrightarrow> state F m K P D V s"
  by (simp add: frac_state_def)

lemma scan_rows:
  assumes "state F n (map_of L) P D V s" and "n < pages" and "ordered L"
    and "\<And>n. limit = Some n \<Longrightarrow> 0 < n" and "\<And>k. start = Some k \<Longrightarrow> key_ok k" and "strict \<Longrightarrow> V (fv_site F) \<noteq> None"
  shows "returns (order_rows ctx F start reverse limit skip strict) s
    (\<lambda>rows s'. rows = cut limit (filter (\<lambda>(q, _). q \<notin> set skip) (scanned start reverse L)) \<and> state F n (map_of L) P D V s')"
  using order_rows_ok [of s F L P D V limit start strict reverse skip] assms
  by (auto simp: returns_def frac_state_def same_def)

lemma window_rows:
  assumes "state F n (map_of (A @ B)) P D V s" and "n < pages" and L: "ordered (A @ B)"
  shows "returns (case last_key A of None \<Rightarrow> act_ret [] | Some p \<Rightarrow> order_rows ctx F (Some p) True (map_option (\<lambda>n. int n + 1) k) [] False) s
      (\<lambda>rows s'. (k = None \<or> rows = take (Suc (the k)) (rev A)) \<and> (k = None \<longrightarrow> rows = rev A) \<and> state F n (map_of (A @ B)) P D V s')"
    and "returns (case first_key B of None \<Rightarrow> act_ret [] | Some p \<Rightarrow> order_rows ctx F (Some p) False (map_option (\<lambda>n. int n + 1) k) [] False) s
      (\<lambda>rows s'. (k = None \<or> rows = take (Suc (the k)) B) \<and> (k = None \<longrightarrow> rows = B) \<and> state F n (map_of (A @ B)) P D V s')"
proof -
  have c: "cut (map_option (\<lambda>n. int n + 1) k) X = (case k of None \<Rightarrow> X | Some n \<Rightarrow> take (Suc n) X)" for X :: "(pystr \<times> seg) list"
    by (cases k) (simp_all add: cut_def nat_add_distrib)
  have R: "returns (order_rows ctx F (Some p) reverse (map_option (\<lambda>n. int n + 1) k) [] False) s
      (\<lambda>rows s'. rows = (case k of None \<Rightarrow> X | Some n \<Rightarrow> take (Suc n) X) \<and> state F n (map_of (A @ B)) P D V s')"
    if "key_ok p" "scanned (Some p) reverse (A @ B) = X" for p reverse X
  proof -
    have "0 < m" if "map_option (\<lambda>n. int n + 1) k = Some m" for m using that by auto
    from scan_rows [OF assms, where limit = "map_option (\<lambda>n. int n + 1) k" and start = "Some p" and strict = False and reverse = reverse and skip = "[]"] this that
    show ?thesis by (simp add: c)
  qed
  show "returns (case last_key A of None \<Rightarrow> act_ret [] | Some p \<Rightarrow> order_rows ctx F (Some p) True (map_option (\<lambda>n. int n + 1) k) [] False) s
      (\<lambda>rows s'. (k = None \<or> rows = take (Suc (the k)) (rev A)) \<and> (k = None \<longrightarrow> rows = rev A) \<and> state F n (map_of (A @ B)) P D V s')"
  proof (cases A rule: rev_cases)
    case Nil
    with assms(1) show ?thesis by (simp add: last_key_def returns_def)
  next
    case (snoc A1 row)
    obtain q a where row: "row = (q, a)" by (cases row)
    have "scanned (Some q) True (A @ B) = rev A"
      using scanned_from(1) [of A1 q a B] orderedD(1) [OF L] by (simp add: snoc row)
    moreover have "key_ok q" using orderedD(4) [OF L, of q a] by (simp add: snoc row)
    ultimately show ?thesis
      using R [of q True] by (auto simp: snoc row last_key_def elim!: returns_mono split: option.splits)
  qed
  show "returns (case first_key B of None \<Rightarrow> act_ret [] | Some p \<Rightarrow> order_rows ctx F (Some p) False (map_option (\<lambda>n. int n + 1) k) [] False) s
      (\<lambda>rows s'. (k = None \<or> rows = take (Suc (the k)) B) \<and> (k = None \<longrightarrow> rows = B) \<and> state F n (map_of (A @ B)) P D V s')"
  proof (cases B)
    case Nil
    with assms(1) show ?thesis by (simp add: first_key_def returns_def)
  next
    case (Cons row B1)
    obtain q a where row: "row = (q, a)" by (cases row)
    have "scanned (Some q) False (A @ B) = B"
      using scanned_from(2) [of A q a B1] orderedD(1) [OF L] by (simp add: Cons row)
    moreover have "key_ok q" using orderedD(4) [OF L, of q a] by (simp add: Cons row)
    ultimately show ?thesis
      using R [of q False] by (auto simp: Cons row first_key_def elim!: returns_mono split: option.splits)
  qed
qed

lemma respace_window_ok:
  assumes s: "state F n (map_of (A @ B)) P D V s" "n < pages" and L: "ordered (A @ B)"
  shows "returns (respace_window random ctx F (last_key A) (first_key B) k) (s, t)
    (\<lambda>w st. respaced A B w \<and> state F n (map_of (A @ B)) P D V (fst st))"
  unfolding respace_window_def Let_def
proof (rule returns_bind_on [OF window_rows(1) [OF s L, where k = k]], rule returns_bind_on [OF window_rows(2) [OF _ s(2) L, where k = k]])
  fix lower_rows upper_rows s1 s2
  assume lo: "(k = None \<or> lower_rows = take (Suc (the k)) (rev A)) \<and> (k = None \<longrightarrow> lower_rows = rev A) \<and> state F n (map_of (A @ B)) P D V s1"
    and hi: "(k = None \<or> upper_rows = take (Suc (the k)) B) \<and> (k = None \<longrightarrow> upper_rows = B) \<and> state F n (map_of (A @ B)) P D V s2"
  obtain X1 X2 where X: "rev A = X1 @ X2" "cut_window k lower_rows = (first_key X2, X1)"
    using cut_window_rows [of k lower_rows "rev A"] lo by blast
  obtain B1 B2 where B: "B = B1 @ B2" "cut_window k upper_rows = (first_key B2, B1)"
    using cut_window_rows [of k upper_rows B] hi by blast
  have A: "A = rev X2 @ rev X1" using X(1) by (metis rev_append rev_rev_ident)
  have "bounds_ok (last_key (rev X2)) (first_key B2)"
    using L gap_bounds [of "rev X2" "rev X1 @ B1" B2] by (simp add: A B(1))
  from n_suffixed_spec [OF this, of SUFFIX_LENGTH random "int (length (rev X1) + 1 + length B1)" t] obtain ks t' where
    ks: "generate_n_suffixed_keys_between random SUFFIX_LENGTH (first_key X2) (first_key B2) (int (length (rev X1) + 1 + length B1)) t =
      Some (Inr (ks, t'))" "length ks = length X1 + 1 + length B1" "keys_between (last_key (rev X2)) (first_key B2) ks"
    by (auto simp: SUFFIX_LENGTH_def DEFAULT_SUFFIX_LENGTH_def last_key_rev)
  have "respaced A B (rev X1, ks, B1)" using ks(2,3) by (auto simp: respaced_def A B(1))
  with ks(1) hi show "returns
      (case cut_window k lower_rows of (lo, ls) \<Rightarrow>
        case cut_window k upper_rows of (hi, us) \<Rightarrow>
          act_bind (draw (generate_n_suffixed_keys_between random SUFFIX_LENGTH lo hi (int (length (rev ls) + 1 + length us))))
            (\<lambda>keys. act_ret (rev ls, keys, us))) (s2, t)
      (\<lambda>w st. respaced A B w \<and> state F n (map_of (A @ B)) P D V (fst st))"
    by (auto simp: X(2) B(2) intro!: returns_bind_draw returns_ret)
qed simp

lemma respace_search_ok:
  assumes "state F n (map_of (A @ B)) P D V s" "n < pages" and L: "ordered (A @ B)"
  shows "returns (respace_search random ctx F (last_key A) (first_key B) k ks) (s, t)
    (\<lambda>w st. respaced A B w \<and> state F n (map_of (A @ B)) P D V (fst st))"
  using assms(1)
proof (induction ks arbitrary: k s t)
  case Nil
  then show ?case using respace_window_ok [OF _ assms(2,3)] by simp
next
  case (Cons k' ks)
  show ?case
    unfolding respace_search.simps
  proof (rule returns_bind [OF respace_window_ok [OF Cons.prems assms(2,3)]])
    fix w and st :: "'c \<times> nat"
    assume "respaced A B w \<and> state F n (map_of (A @ B)) P D V (fst st)"
    moreover obtain s1 and t1 :: nat where "st = (s1, t1)" by (cases st)
    ultimately show "returns (case w of (lo, keys, hi) \<Rightarrow>
        if k = None \<or> Max (length ` set keys) \<le> RESPACE_TARGET then act_ret (lo, keys, hi)
        else respace_search random ctx F (last_key A) (first_key B) k' ks) st
        (\<lambda>w st. respaced A B w \<and> state F n (map_of (A @ B)) P D V (fst st))"
      using Cons.IH [of s1 k' t1] by (cases w) (simp add: returns_ret del: act_simps)
  qed
qed

lemma rewrite_window:
  assumes s: "state F n (map_of (A @ B)) P D V s" and L: "ordered (A @ B)" "positions (A @ B) P" and w: "respaced A B (lo, keys, hi)"
  shows "returns (act_bind (on_ctx (drop_rows ctx F (lo @ hi))) (\<lambda>_.
        act_bind (on_ctx (index_rows ctx F lo keys)) (\<lambda>_.
          let gap_key = keys ! length lo in
          act_bind (on_ctx (index_rows ctx F hi (drop (length lo + 1) keys))) (\<lambda>_. act_ret gap_key)))) (s, t)
    (\<lambda>q st. \<exists>A' B' P'. opened A B P q A' B' P' \<and> state F (n + 3 * length (A @ B)) (map_of (A' @ B')) P' D V (fst st))"
proof -
  from respaced_between [OF L(1) w] obtain A1 B2 KA g KB where
    AB: "A = A1 @ lo" "B = hi @ B2" and keys: "keys = KA @ g # KB" and len: "length KA = length lo" "length KB = length hi"
    and L': "ordered (A1 @ zip KA (map snd lo) @ zip KB (map snd hi) @ B2)"
    and g: "fits (A1 @ zip KA (map snd lo)) g (zip KB (map snd hi) @ B2)"
    and K: "distinct (KA @ KB)" "\<forall>q \<in> set (KA @ KB). key_ok q \<and> q \<notin> fst ` set (A1 @ B2)" by blast
  let ?ZA = "zip KA (map snd lo)" and ?ZB = "zip KB (map snd hi)"
  let ?P = "P ++ map_of (zip (map snd lo) KA) ++ map_of (zip (map snd hi) KB)"
  have d: "distinct (map fst (A1 @ lo @ hi @ B2))" "distinct (map snd (A1 @ lo @ hi @ B2))"
    using orderedD(2,3) [OF L(1)] by (simp_all add: AB)
  have ok: "\<forall>q \<in> fst ` set (lo @ hi). key_ok q" using L(1) by (auto simp: ordered_def AB)
  have ids: "okseg a" if "a \<in> snd ` set (lo @ hi)" for a
  proof -
    from that obtain x where "x \<in> set (lo @ hi)" "a = snd x" by blast
    then have "(fst x, a) \<in> set (A @ B)" by (auto simp: AB)
    then show ?thesis by (rule state_okseg [OF s positionsD [OF L(2)]])
  qed
  have rows: "map_of (A1 @ B2) ++ map_of ?ZA ++ map_of ?ZB = map_of ((A1 @ ?ZA) @ ?ZB @ B2)"
    using rewritten_rows [OF orderedD(3) [OF L']] by simp
  have "positions (A1 @ lo @ hi @ B2) P" using L(2) by (simp add: AB)
  note pos = rewritten_positions [OF d(2) len this]
  have op: "opened A B P g (A1 @ ?ZA) (?ZB @ B2) ?P"
    using L' g pos len by (auto simp: opened_def AB image_Un)
  note s1 = drop_rows_ok [OF s [unfolded AB] ok, unfolded append_assoc restrict_rows [OF d(1)]]
  have "length (lo @ hi) + 2 * length lo + 2 * length hi \<le> 3 * length (A @ B)" by (simp add: AB)
  then have n: "n + length (lo @ hi) + 2 * length lo + 2 * length hi \<le> n + 3 * length (A @ B)" by simp
  have kd: "distinct KA" "distinct KB" "\<forall>q \<in> set KA. key_ok q" "\<forall>q \<in> set KB. key_ok q"
    "\<forall>a \<in> snd ` set lo. okseg a" "\<forall>a \<in> snd ` set hi. okseg a" "distinct (map snd lo)" "distinct (map snd hi)"
    using K ids d by auto
  have idx: "keys ! length lo = g" "drop (length lo + 1) keys = KB @ []" using len by (simp_all add: keys nth_append)
  have fin: "\<exists>A' B' P'. opened A B P g A' B' P' \<and> state F (n + 3 * length (A @ B)) (map_of (A' @ B')) P' D V s'"
    if "state F (n + length (lo @ hi) + 2 * length lo + 2 * length hi) (map_of (A1 @ B2) ++ map_of ?ZA ++ map_of ?ZB) ?P D V s'" for s'
    using op state_le [OF that n] unfolding rows by blast
  show ?thesis
    unfolding Let_def idx
    by (rule returns_bind_on [OF s1], subst keys, rule returns_bind_on [OF index_rows_ok [OF _ len(1) [symmetric] kd(1,7,3,5)]], assumption,
        rule returns_bind_on [OF index_rows_ok [OF _ len(2) [symmetric] kd(2,8,4,6)]], assumption, rule returns_ret, unfold fst_conv, erule fin)
qed

lemma respace_around_ok:
  assumes s: "state F n (map_of (A @ B)) P D V s" "n < pages" and L: "ordered (A @ B)" "positions (A @ B) P"
  shows "returns (respace_around random ctx F (last_key A) (first_key B)) (s, t)
    (\<lambda>q st. \<exists>A' B' P'. opened A B P q A' B' P' \<and> state F (n + 3 * length (A @ B)) (map_of (A' @ B')) P' D V (fst st))"
  unfolding respace_around_def
proof (rule returns_bind [OF respace_search_ok [OF s L(1)]])
  fix w and st :: "'c \<times> nat"
  assume w: "respaced A B w \<and> state F n (map_of (A @ B)) P D V (fst st)"
  obtain lo keys hi where "w = (lo, keys, hi)" by (cases w)
  moreover obtain s1 and t1 :: nat where "st = (s1, t1)" by (cases st)
  ultimately show "returns (case w of (lo, keys, hi) \<Rightarrow>
      act_bind (on_ctx (drop_rows ctx F (lo @ hi))) (\<lambda>_.
        act_bind (on_ctx (index_rows ctx F lo keys)) (\<lambda>_.
          let gap_key = keys ! length lo in
          act_bind (on_ctx (index_rows ctx F hi (drop (length lo + 1) keys))) (\<lambda>_. act_ret gap_key)))) st
      (\<lambda>q st. \<exists>A' B' P'. opened A B P q A' B' P' \<and> state F (n + 3 * length (A @ B)) (map_of (A' @ B')) P' D V (fst st))"
    using rewrite_window [OF _ L, of F n D V s1 lo keys hi t1] w by (simp only: prod.case fst_conv)
qed

lemma allot_unfold: "allot = allot_loop (Suc 7)"
  by (simp add: allot_def ALLOT_ATTEMPTS_def)

lemma allot_ok:
  assumes s: "state F n (map_of (A @ B)) P D V s" "n < pages" and L: "ordered (A @ B)" "positions (A @ B) P"
  shows "returns (allot random ctx F (last_key A) (first_key B)) (s, t)
    (\<lambda>q st. \<exists>A' B' P'. opened A B P q A' B' P' \<and> state F (n + 3 * length (A @ B)) (map_of (A' @ B')) P' D V (fst st))"
proof -
  have "bounds_ok (last_key A) (first_key B)" using gap_bounds [of A "[]" B] L(1) by simp
  from suffixed_spec [OF this, of SUFFIX_LENGTH random t] obtain q t' where
    q: "generate_suffixed_key_between random SUFFIX_LENGTH (last_key A) (first_key B) t = Some (Inr (q, t'))" "key_ok q"
      "lies_between (last_key A) (first_key B) q" by (auto simp: SUFFIX_LENGTH_def DEFAULT_SUFFIX_LENGTH_def)
  note g = gap_fits [OF L(1) q(2,3)]
  have "read_site ctx (frac_order F @ [SStr q]) s = Inr None"
    using s(1) okseg_layout okseg_key [OF q(2)] fits_absent [OF g] read_site_ok [of s "frac_order F @ [SStr q]"]
    by (simp add: frac_state_def frac_order_def)
  then have free: "get_child_primitive_unsafe ctx (frac_order F) (SStr q) s = Inr None"
    by (simp add: get_child_primitive_unsafe_def)
  have here: "\<exists>A' B' P'. opened A B P q A' B' P' \<and> state F (n + 3 * length (A @ B)) (map_of (A' @ B')) P' D V s"
    using opened_same [OF L g] state_le [OF s(1), of "n + 3 * length (A @ B)"] by (intro exI conjI) auto
  have bind: "returns m (s, t') Q" if "length q > MAX_KEY_LENGTH \<Longrightarrow> returns (respace_around random ctx F (last_key A) (first_key B)) (s, t') Q"
    "Q q (s, t')" "m = (if length q > MAX_KEY_LENGTH then respace_around random ctx F (last_key A) (first_key B)
       else act_bind (on_ctx (act_read (get_child_primitive_unsafe ctx (frac_order F) (SStr q)))) (\<lambda>taken.
         if taken = None then act_ret q else allot_loop 7 random ctx F (last_key A) (first_key B)))" for m Q
    unfolding that(3) using that(1,2)
    by (cases "length q > MAX_KEY_LENGTH") (simp_all add: returns_def act_bind_def on_ctx_def free)
  show ?thesis
    by (simp only: allot_unfold allot_loop.simps) (rule returns_bind_draw, rule q(1), rule bind [OF respace_around_ok [OF assms]], simp only: fst_conv here, rule refl)
qed

end

end
