(* ===== verification/Frac_Calls.thy ===== *)
theory Frac_Calls
  imports Frac_Place
begin

text \<open>
  The methods of the ordered dict view over any context that keeps the contract: the order index and the
  values behave as one list of items.
\<close>

section \<open>The view as a list of items\<close>

definition position_of :: "(pystr \<times> seg) list \<Rightarrow> seg \<rightharpoonup> pystr" where
  "position_of L = map_of (map (\<lambda>(q, a). (a, q)) L)"

lemma position_of_Some: "distinct (map snd L) \<Longrightarrow> position_of L a = Some q \<longleftrightarrow> (q, a) \<in> set L"
  by (force simp: position_of_def o_def case_prod_unfold)

lemma position_of_None: "position_of L a = None \<longleftrightarrow> a \<notin> snd ` set L"
  by (force simp: position_of_def map_of_eq_None_iff)

lemma positions_position_of: "distinct (map snd L) \<Longrightarrow> positions L (position_of L)"
  by (auto simp: positions_def position_of_Some)

lemma positions_unique:
  assumes "positions L P" and "distinct (map snd L)" and "\<And>x. x \<notin> snd ` set L \<Longrightarrow> P x = None"
  shows "P = position_of L"
proof
  fix a
  show "P a = position_of L a"
  proof (cases "a \<in> snd ` set L")
    case True
    then obtain q where "(q, a) \<in> set L" by auto
    with assms(1,2) show ?thesis by (metis positionsD position_of_Some)
  next
    case False
    with assms(3) [OF False] position_of_None [of L a] show ?thesis by simp
  qed
qed

text \<open>The markers of the view and its three containers.\<close>

definition laid :: "(key \<rightharpoonup> pyval) \<Rightarrow> frac_view \<Rightarrow> bool" where
  "laid V F \<longleftrightarrow> data_site (fv_site F) \<and> V (fv_site F) = Some (create_marker FRAC_STRUCTURE FRAC_PROTOCOL) \<and>
     (\<forall>c \<in> {DATA, ORDER, POS}. V (fv_site F @ [c]) = Some (create_marker (VInt 1) (FLAG_MAPPING OR FLAG_MUTABLE)))"

definition fdict ::
  "('s \<Rightarrow> bool) \<Rightarrow> ('s \<Rightarrow> nat) \<Rightarrow> ('s \<Rightarrow> key \<rightharpoonup> pyval) \<Rightarrow> (key \<Rightarrow> bool) \<Rightarrow> frac_view \<Rightarrow> nat \<Rightarrow>
   (seg \<times> pyval) list \<Rightarrow> (key \<rightharpoonup> pyval) \<Rightarrow> 's \<Rightarrow> bool" where
  "fdict ok weight vw okk F n xs V s \<longleftrightarrow>
     (\<exists>L. map snd L = map fst xs \<and> ordered L \<and> frac_state ok weight vw okk F n (map_of L) (position_of L) (map_of xs) V s)"

lemma leaf_facts: "is_leaf v \<Longrightarrow> find_empty v [] = None" "is_leaf v \<Longrightarrow> extract_marker v = Inr None"
  by (cases v; simp add: extract_marker_def)+

text \<open>The gap that was opened, with the row in it.\<close>

lemma opened_insert:
  assumes o: "opened A B P q A' B' P'" and a: "a \<notin> snd ` set (A @ B)" and P: "\<forall>x. x \<notin> insert a (snd ` set (A @ B)) \<longrightarrow> P x = None"
  shows "map snd (A' @ (q, a) # B') = map snd A @ a # map snd B" and "ordered (A' @ (q, a) # B')"
    and "(map_of (A' @ B'))(q \<mapsto> a) = map_of (A' @ (q, a) # B')" and "P'(a \<mapsto> q) = position_of (A' @ (q, a) # B')" and "key_ok q"
proof -
  let ?L = "A' @ (q, a) # B'"
  have ids: "map snd A' = map snd A" "map snd B' = map snd B" using o by (simp_all add: opened_def)
  then show "map snd ?L = map snd A @ a # map snd B" by simp
  have a': "a \<notin> snd ` set (A' @ B')" using a ids by (metis list.set_map map_append)
  have F: "fits A' q B'" "ordered (A' @ B')" "positions (A' @ B') P'" using o by (simp_all add: opened_def)
  show L': "ordered ?L" by (rule ordered_insert [OF F(2,1) a'])
  show "(map_of (A' @ B'))(q \<mapsto> a) = map_of ?L" using map_of_middle [OF orderedD(3) [OF L']] by simp
  show "key_ok q" using F(1) by (simp add: fits_def)
  show "P'(a \<mapsto> q) = position_of ?L"
  proof (rule positions_unique)
    show "positions ?L (P'(a \<mapsto> q))" using F(3) a' by (force simp: positions_def)
    show "distinct (map snd ?L)" using orderedD(2) [OF L'] .
    show "(P'(a \<mapsto> q)) x = None" if "x \<notin> snd ` set ?L" for x
    proof -
      have "set (map snd (A' @ B')) = set (map snd (A @ B))" by (simp add: ids)
      then have "x \<notin> snd ` set (A @ B)" "x \<noteq> a" using that by auto
      then show ?thesis using o P by (simp add: opened_def)
    qed
  qed
qed

context frac_context begin

abbreviation "dict \<equiv> fdict inv weight vw okk"

lemma place_at_ok:
  assumes s: "state F n (map_of (A @ B)) P D V s" "n < pages" and L: "ordered (A @ B)" "positions (A @ B) P"
    and a: "okseg a" "a \<notin> snd ` set (A @ B)" and P: "\<forall>x. x \<notin> insert a (snd ` set (A @ B)) \<longrightarrow> P x = None"
  shows "returns (place_at random ctx F a (last_key A) (first_key B)) (s, t) (\<lambda>_ st.
    \<exists>L. map snd L = map snd A @ a # map snd B \<and> ordered L \<and>
      state F (n + 3 * length (A @ B) + 2) (map_of L) (position_of L) D V (fst st))"
  unfolding place_at_def
proof (rule returns_bind [OF allot_ok [OF s L]])
  fix q and st :: "'c \<times> nat"
  assume "\<exists>A' B' P'. opened A B P q A' B' P' \<and> state F (n + 3 * length (A @ B)) (map_of (A' @ B')) P' D V (fst st)"
  then obtain A' B' P' where o: "opened A B P q A' B' P'" and s1: "state F (n + 3 * length (A @ B)) (map_of (A' @ B')) P' D V (fst st)"
    by blast
  obtain s1 t1 where st: "st = (s1, t1)" by (cases st)
  note O = opened_insert [OF o a(2) P]
  note I = index_row_ok [OF s1 a(1) O(5), unfolded O(3,4)]
  show "returns (on_ctx (index_row ctx F a q)) st (\<lambda>_ st.
      \<exists>L. map snd L = map snd A @ a # map snd B \<and> ordered L \<and>
        state F (n + 3 * length (A @ B) + 2) (map_of L) (position_of L) D V (fst st))"
    unfolding st by (rule returns_on_ctx, rule returns_mono, rule I [unfolded st fst_conv], unfold fst_conv, intro exI conjI, rule O(1), rule O(2))
qed

section \<open>Reading the index\<close>

lemma position_ok: "state F n K P D V s \<Longrightarrow> okseg a \<Longrightarrow> position_or_empty ctx F (val_of a) s = Inr (P a)"
  using read_site_ok [of s "fv_site F @ [POS, a]"] okseg_layout
  by (auto simp: frac_state_def position_or_empty_def get_child_primitive_unsafe_def frac_pos_def split: option.splits)

lemma position_bad: "seg_of address = None \<Longrightarrow> position_or_empty ctx F address s = Inr None"
  by (simp add: position_or_empty_def)

lemma require_ok:
  "state F n K P D V s \<Longrightarrow> okseg a \<Longrightarrow>
   require_position ctx F (val_of a) s = (case P a of None \<Rightarrow> Inl KeyError | Some q \<Rightarrow> Inr (a, q))"
  by (simp add: require_position_def position_ok split: option.split)

lemma require_bad: "seg_of address = None \<Longrightarrow> require_position ctx F address s = Inl KeyError"
  by (simp add: require_position_def position_bad)

lemma edge_row:
  assumes "state F n (map_of L) P D V s" and "n < pages" and "ordered L" and "strict \<Longrightarrow> V (fv_site F) \<noteq> None"
  shows "returns (edge ctx F at_end strict) s
    (\<lambda>row s'. row = (if L = [] then None else Some (if at_end then last L else hd L)) \<and> state F n (map_of L) P D V s')"
  using edge_ok [of s F L P D V strict at_end] assms by (auto simp: returns_def frac_state_def same_def)

lemma neighbour_row:
  assumes "state F n (map_of (A @ (k, a) # B)) P D V s" and "n < pages" and "ordered (A @ (k, a) # B)"
  shows "returns (neighbour ctx F k down []) s
    (\<lambda>row s'. row = (if down then (if A = [] then None else Some (last A)) else (if B = [] then None else Some (hd B))) \<and>
       state F n (map_of (A @ (k, a) # B)) P D V s')"
  using neighbour_ok [of s F A k a B P D V down] assms by (auto simp: returns_def frac_state_def same_def)

lemma pair_first: "\<exists>b. x = (fst x, b)"
  by (cases x) simp

text \<open>Their keys, which bound the gap an insertion goes to.\<close>

lemma edge_gap:
  assumes "state F n (map_of L) P D V s" and "n < pages" and "ordered L"
  shows "returns (edge ctx F True False) s (\<lambda>row s'. map_option fst row = last_key L \<and> state F n (map_of L) P D V s')"
    and "returns (edge ctx F False False) s (\<lambda>row s'. map_option fst row = first_key L \<and> state F n (map_of L) P D V s')"
  using edge_row [OF assms, of False True] edge_row [OF assms, of False False]
  by (auto simp: last_key_def first_key_def pair_first elim!: returns_mono)

lemma neighbour_gap:
  assumes "state F n (map_of (A @ (k, a) # B)) P D V s" and "n < pages" and "ordered (A @ (k, a) # B)"
  shows "returns (neighbour ctx F k True []) s
      (\<lambda>row s'. map_option fst row = last_key A \<and> state F n (map_of (A @ (k, a) # B)) P D V s')"
    and "returns (neighbour ctx F k False []) s
      (\<lambda>row s'. map_option fst row = first_key B \<and> state F n (map_of (A @ (k, a) # B)) P D V s')"
  using neighbour_row [OF assms, of True] neighbour_row [OF assms, of False]
  by (auto simp: last_key_def first_key_def pair_first elim!: returns_mono)

section \<open>Creating the view\<close>

lemma frac_flags [simp]: "FLAG_MAPPING OR FLAG_MUTABLE = 9" "FRAC_PROTOCOL = 9"
  by (simp_all add: FRAC_PROTOCOL_def FLAG_MAPPING_def FLAG_MUTABLE_def)

lemma create_live_any:
  assumes "inv s" and "okk site" and "vw s site = Some (create_marker t p)" and "0 \<le> p" and "p AND p \<noteq> 0"
    and "info = None \<or> info = Some i \<and> get_node_info ctx site None s = Inr i"
  shows "create_container ctx site t p b info s = (Inr (), s)"
  using assms by (auto simp: create_container_def node_at attempt_def validate_compatible_def)

lemma layout_live:
  assumes "state F n K P D V s" and "laid V F"
  shows "ensure_internal_layout ctx F s = Some (Inr (), s)"
proof -
  have "create_container ctx (fv_site F @ [c]) (VInt 1) (FLAG_MAPPING OR FLAG_MUTABLE) False None s = (Inr (), s)"
    if "c \<in> {DATA, ORDER, POS}" for c
    using assms that okseg_layout by (intro create_live_any) (auto simp: frac_state_def laid_def)
  then show ?thesis by (simp add: ensure_internal_layout_def create_child_container_def act_bind_def)
qed

lemma ensure_live:
  assumes s: "state F n K P D V s" and l: "laid V F"
  shows "frac_ensure_created ctx F s = Some (Inr (), s)"
proof -
  have k: "inv s" "okk (fv_site F)" "vw s (fv_site F) = Some (create_marker FRAC_STRUCTURE FRAC_PROTOCOL)" "data_site (fv_site F)"
    using s l by (simp_all add: frac_state_def laid_def)
  have C: "create_container ctx (fv_site F) FRAC_STRUCTURE 9 b info s = (Inr (), s)"
    if "info = None \<or> info = Some i \<and> get_node_info ctx (fv_site F) None s = Inr i" for b info i
    using create_live_any [OF k(1-3)] that by simp
  have "get_node_info ctx (fv_site F) None s = Inr \<lparr>ni_site = fv_site F, ni_exists = True, ni_type = CONTAINER,
       ni_raw = Some (create_marker FRAC_STRUCTURE FRAC_PROTOCOL), ni_structure = Some FRAC_STRUCTURE,
       ni_protocol = Some FRAC_PROTOCOL, ni_primitive = None\<rparr>" (is "_ = Inr ?i")
    using k by (simp add: node_at)
  with C [of None] C [of "Some ?i" ?i] layout_live [OF assms] k(4) show ?thesis
    by (auto simp: frac_ensure_created_def container_create_def data_site_def act_bind_def split: option.split)
qed

section \<open>Placing a value\<close>

lemma returns_on: "returns m (fst st) (\<lambda>x s'. Q x (s', snd st)) \<Longrightarrow> returns (on_ctx m) st Q"
  by (cases st) (simp add: returns_on_ctx)

lemma data_info:
  assumes "state F n K P D V s" and "okseg a"
  shows "get_node_info ctx (frac_data F @ [a]) None s = (case D a of
     None \<Rightarrow> Inr \<lparr>ni_site = frac_data F @ [a], ni_exists = False, ni_type = NOT_FOUND, ni_raw = None,
       ni_structure = None, ni_protocol = None, ni_primitive = None\<rparr>
   | Some v \<Rightarrow> (case extract_marker v of
       Inl e \<Rightarrow> Inl e
     | Inr None \<Rightarrow> Inr \<lparr>ni_site = frac_data F @ [a], ni_exists = True, ni_type = PRIMITIVE, ni_raw = Some v,
         ni_structure = None, ni_protocol = None, ni_primitive = Some v\<rparr>
     | Inr (Some (t, p)) \<Rightarrow> Inr \<lparr>ni_site = frac_data F @ [a], ni_exists = True, ni_type = CONTAINER, ni_raw = Some v,
         ni_structure = Some t, ni_protocol = Some p, ni_primitive = None\<rparr>))"
  using node_at [of s "frac_data F @ [a]"] assms okseg_layout by (simp add: frac_state_def frac_data_def)

lemma ensure_positioned_there:
  "state F n K P D V s \<Longrightarrow> okseg a \<Longrightarrow> P a = Some q \<Longrightarrow> ensure_positioned random ctx F a (s, t) = Some (Inr (), s, t)"
  by (simp add: ensure_positioned_def act_bind_def on_ctx_def position_ok)

lemma write_there:
  assumes s: "state F n K P D V s" and a: "okseg a" and v: "is_leaf v"
    and D: "\<And>w. D a = Some w \<Longrightarrow> is_leaf w" and P: "D a = None \<Longrightarrow> P a \<noteq> None"
  shows "returns (write_value random std_registry ctx F a v) (s, t) (\<lambda>_ st. state F (Suc n) K P (D(a \<mapsto> v)) V (fst st))"
proof -
  from put_data [OF s a leaf_facts(1) [OF v]] obtain s1 where
    s1: "put_child_primitive ctx (frac_data F) a v False False s = (Inr (), s1)" "state F (Suc n) K P (D(a \<mapsto> v)) V s1"
    by (auto simp: returns_def)
  show ?thesis
  proof (cases "D a")
    case None
    obtain q where "P a = Some q" using P [OF None] by blast
    from ensure_positioned_there [OF s1(2) a this] None s1 v show ?thesis
      by (simp add: write_value_def frac_put_primitive_def returns_def act_bind_def on_ctx_def data_info [OF s a])
  next
    case (Some w)
    with leaf_facts(2) [OF D [OF Some]] s1 v show ?thesis
      by (simp add: write_value_def frac_put_primitive_def returns_def act_bind_def on_ctx_def data_info [OF s a])
  qed
qed

lemma insert_ok:
  assumes s: "state F n (map_of (A @ B)) (position_of (A @ B)) D V s" "n < pages" and L: "ordered (A @ B)"
    and a: "okseg a" "a \<notin> snd ` set (A @ B)" "D a = None" and v: "is_leaf v"
  shows "returns (frac_insert random std_registry ctx F a v (last_key A) (first_key B)) (s, t) (\<lambda>_ st.
    \<exists>L. map snd L = map snd A @ a # map snd B \<and> ordered L \<and>
      state F (n + 3 * length (A @ B) + 3) (map_of L) (position_of L) (D(a \<mapsto> v)) V (fst st))"
proof -
  have no: "position_of (A @ B) a = None" using a(2) by (simp only: position_of_None not_False_eq_True)
  have stale: "position_or_empty ctx F (val_of a) s = Inr None" using position_ok [OF s(1) a(1)] no by simp
  have wr: "returns (act_except (write_value random std_registry ctx F a v) undo) (s1, t1)
      (\<lambda>_ st. state F (Suc m) K (P(a \<mapsto> q)) (D(a \<mapsto> v)) V (fst st))"
    if "state F m K (P(a \<mapsto> q)) D V s1" for s1 t1 undo m K P q
    using write_there [OF that a(1) v, of random t1] a(3) by (auto simp: returns_def act_except_def)
  have row: "\<exists>L. map snd L = map snd A @ a # map snd B \<and> ordered L \<and>
      state F (n + 3 * length (A @ B) + 3) (map_of L) (position_of L) (D(a \<mapsto> v)) V s1"
    if o: "opened A B (position_of (A @ B)) q A' B' P'" and "state F (Suc (Suc (Suc (n + 3 * length (A @ B)))) ) ((map_of (A' @ B'))(q \<mapsto> a)) (P'(a \<mapsto> q)) (D(a \<mapsto> v)) V s1"
    for q A' B' P' s1
  proof -
    have "\<forall>x. x \<notin> insert a (snd ` set (A @ B)) \<longrightarrow> position_of (A @ B) x = None" by (simp add: position_of_None)
    note O = opened_insert [OF o a(2) this]
    from that(2) have "state F (n + 3 * length (A @ B) + 3) (map_of (A' @ (q, a) # B')) (position_of (A' @ (q, a) # B')) (D(a \<mapsto> v)) V s1"
      by (simp only: O(3,4) numeral_3_eq_3 add_Suc_right add_0_right)
    with O(1,2) show ?thesis by blast
  qed
  have ok: "key_ok q" if "opened A B P q A' B' P'" for P q A' B' P' using that by (simp add: opened_def fits_def)
  show ?thesis
    unfolding frac_insert_def
    by (rule returns_bind [where P = "\<lambda>x st. x = None \<and> st = (s, t)"], simp add: returns_def on_ctx_def stale,
        clarify, unfold option.case, rule returns_bind_ret [where x = False], unfold if_False,
        rule returns_bind, rule allot_ok [OF s L positions_position_of [OF orderedD(2) [OF L]]], clarify,
        rule returns_bind_on, rule put_pos [OF _ a(1)], unfold fst_conv, assumption,
        rule returns_bind, rule wr, assumption,
        rule returns_on, rule returns_mono, rule put_order, assumption, rule ok, assumption, unfold fst_conv, rule row)
qed

lemma relocate_ok:
  assumes s: "state F n (map_of (X @ (q, a) # Y)) (position_of (X @ (q, a) # Y)) D V s" "Suc n < pages"
    and L: "ordered (X @ (q, a) # Y)" and AB: "X @ Y = A @ B"
  shows "returns (relocate random ctx F a q (last_key A) (first_key B)) (s, t) (\<lambda>_ st.
    \<exists>L. map snd L = map snd A @ a # map snd B \<and> ordered L \<and>
      state F (n + 3 * length (A @ B) + 3) (map_of L) (position_of L) D V (fst st))"
proof -
  have q: "key_ok q" using L by (simp add: ordered_def)
  have L': "ordered (A @ B)" using L unfolding AB [symmetric] by (auto simp: ordered_def sorted_wrt_append)
  have P: "positions (A @ B) (position_of (X @ (q, a) # Y))"
    using positions_position_of [OF orderedD(2) [OF L]] unfolding AB [symmetric] by (simp add: positions_def)
  have ids: "set (X @ (q, a) # Y) = insert (q, a) (set (A @ B))" using AB by (metis Un_insert_right list.simps(15) set_append)
  have a: "a \<notin> snd ` set (A @ B)" using orderedD(2) [OF L] unfolding AB [symmetric] by auto
  have none: "\<forall>x. x \<notin> insert a (snd ` set (A @ B)) \<longrightarrow> position_of (X @ (q, a) # Y) x = None"
    unfolding position_of_None ids by simp
  have "position_of (X @ (q, a) # Y) a = Some q" using position_of_Some [OF orderedD(2) [OF L]] by simp
  note a' = state_okseg [OF s(1) this]
  have n: "Suc n + 3 * length (A @ B) + 2 = n + 3 * length (A @ B) + 3" by simp
  note D = drop_order [OF s(1) q, unfolded map_of_middle_drop [OF orderedD(3) [OF L]] AB]
  show ?thesis
    unfolding relocate_def
    by (rule returns_bind_on, rule D, rule place_at_ok [OF _ s(2) L' P a' a none, unfolded n])
qed

end

end
