(* ===== verification/Frac_Dict.thy ===== *)
theory Frac_Dict
  imports Frac_Calls
begin

text \<open>
  The ordered dict view implements an ordered dict: a list of items where an item can be put next to
  another one, and moved there.
\<close>

section \<open>The reference\<close>

fun put_before :: "seg \<Rightarrow> seg \<times> pyval \<Rightarrow> (seg \<times> pyval) list \<Rightarrow> (seg \<times> pyval) list" where
  "put_before b row [] = []"
| "put_before b row (x # xs) = (if fst x = b then row # x # xs else x # put_before b row xs)"

fun put_after :: "seg \<Rightarrow> seg \<times> pyval \<Rightarrow> (seg \<times> pyval) list \<Rightarrow> (seg \<times> pyval) list" where
  "put_after b row [] = []"
| "put_after b row (x # xs) = (if fst x = b then x # row # xs else x # put_after b row xs)"

definition drop_id :: "seg \<Rightarrow> (seg \<times> pyval) list \<Rightarrow> (seg \<times> pyval) list" where
  "drop_id a xs = filter (\<lambda>x. fst x \<noteq> a) xs"

fun set_id :: "seg \<Rightarrow> pyval \<Rightarrow> (seg \<times> pyval) list \<Rightarrow> (seg \<times> pyval) list" where
  "set_id a v [] = [(a, v)]"
| "set_id a v (x # xs) = (if fst x = a then (a, v) # xs else x # set_id a v xs)"

text \<open>The id a Python key stands for, if it is there.\<close>

definition known :: "pyval \<Rightarrow> (seg \<times> pyval) list \<Rightarrow> seg option" where
  "known k xs = (case seg_of k of None \<Rightarrow> None | Some a \<Rightarrow> if a \<in> fst ` set xs then Some a else None)"

lemma seg_value_eq [simp]: "val_of a = val_of b \<longleftrightarrow> a = b"
  by (cases a; cases b) auto

lemma known_Some: "known k xs = Some a \<longleftrightarrow> k = val_of a \<and> a \<in> fst ` set xs"
  by (auto simp: known_def seg_of_eq split: option.splits if_splits)

lemma known_None: "known k xs = None \<longleftrightarrow> (\<forall>a. k = val_of a \<longrightarrow> a \<notin> fst ` set xs)"
  by (cases "seg_of k") (auto simp: known_def seg_of_eq)

lemma put_before_split: "b \<notin> fst ` set xs \<Longrightarrow> put_before b row (xs @ (b, w) # ys) = xs @ row # (b, w) # ys"
  by (induction xs) auto

lemma put_after_split: "b \<notin> fst ` set xs \<Longrightarrow> put_after b row (xs @ (b, w) # ys) = xs @ (b, w) # row # ys"
  by (induction xs) auto

lemma drop_id_other: "a \<notin> fst ` set xs \<Longrightarrow> drop_id a xs = xs"
  by (force simp: drop_id_def filter_id_conv)

lemma drop_id_append [simp]: "drop_id a (xs @ ys) = drop_id a xs @ drop_id a ys"
  by (simp add: drop_id_def)

lemma drop_id_Cons: "drop_id a (x # xs) = (if fst x = a then drop_id a xs else x # drop_id a xs)"
  by (simp add: drop_id_def)

lemma set_id_split: "a \<notin> fst ` set xs \<Longrightarrow> set_id a v (xs @ (a, w) # ys) = xs @ (a, v) # ys"
  by (induction xs) auto

lemma set_id_new: "a \<notin> fst ` set xs \<Longrightarrow> set_id a v xs = xs @ [(a, v)]"
  by (induction xs) auto

text \<open>The calls, on the view and on the reference.\<close>

datatype frac_call =
    Set_At pyval pyval
  | Add_Last pyval pyval
  | Add_First pyval pyval
  | Add_Before pyval pyval pyval
  | Add_After pyval pyval pyval
  | Move_Before pyval pyval
  | Move_After pyval pyval
  | Move_First pyval
  | Move_Last pyval
  | Delete_At pyval
  | Get_At pyval
  | Get_Or pyval pyval
  | Pop_At pyval pyval
  | Has pyval
  | Count
  | Ids bool
  | Page "pyval option" "int option" bool
  | Edge_Id bool
  | Next_To pyval bool
  | All_Items bool
  | Respace

definition valued :: "('a \<Rightarrow> pyval) \<Rightarrow> ('s \<Rightarrow> ('a res \<times> 's) option) \<Rightarrow> 's \<Rightarrow> (pyval res \<times> 's) option" where
  "valued f m = act_bind m (\<lambda>x. act_ret (f x))"

fun id_value :: "seg option \<Rightarrow> pyval" where
  "id_value None = VNone"
| "id_value (Some a) = val_of a"

definition item_values :: "(seg \<times> pyval) list \<Rightarrow> pyval" where
  "item_values xs = VMap (map (\<lambda>(a, v). (val_of a, v)) xs)"

fun frac_step ::
  "(nat \<Rightarrow> nat) \<Rightarrow> registry \<Rightarrow> ('e, 'g, 's) kv_ctx \<Rightarrow> frac_view \<Rightarrow> frac_call \<Rightarrow> 's \<times> nat \<Rightarrow> (pyval res \<times> 's \<times> nat) option" where
  "frac_step random rg ctx F (Set_At k v) = valued (\<lambda>_. VNone) (frac_setitem random rg ctx F k v)"
| "frac_step random rg ctx F (Add_Last k v) = valued (\<lambda>_. VNone) (frac_append random rg ctx F k v)"
| "frac_step random rg ctx F (Add_First k v) = valued (\<lambda>_. VNone) (frac_prepend random rg ctx F k v)"
| "frac_step random rg ctx F (Add_Before r k v) = valued (\<lambda>_. VNone) (frac_insert_before random rg ctx F r k v)"
| "frac_step random rg ctx F (Add_After r k v) = valued (\<lambda>_. VNone) (frac_insert_after random rg ctx F r k v)"
| "frac_step random rg ctx F (Move_Before k r) = valued (\<lambda>_. VNone) (frac_move_before random ctx F k r)"
| "frac_step random rg ctx F (Move_After k r) = valued (\<lambda>_. VNone) (frac_move_after random ctx F k r)"
| "frac_step random rg ctx F (Move_First k) = valued (\<lambda>_. VNone) (frac_move_first random ctx F k)"
| "frac_step random rg ctx F (Move_Last k) = valued (\<lambda>_. VNone) (frac_move_last random ctx F k)"
| "frac_step random rg ctx F (Delete_At k) = valued (\<lambda>_. VNone) (on_ctx (frac_delitem ctx F k))"
| "frac_step random rg ctx F (Get_At k) = on_ctx (frac_getitem rg ctx F k)"
| "frac_step random rg ctx F (Get_Or k v) = on_ctx (frac_get rg ctx F k v)"
| "frac_step random rg ctx F (Pop_At k v) = on_ctx (frac_pop rg ctx F k v)"
| "frac_step random rg ctx F (Has k) = valued (\<lambda>b. VInt (if b then 1 else 0)) (on_ctx (act_read (frac_contains ctx F k)))"
| "frac_step random rg ctx F Count = valued VInt (on_ctx (frac_len ctx F))"
| "frac_step random rg ctx F (Ids reverse) = valued (\<lambda>ids. VList (map val_of ids)) (on_ctx (frac_keys ctx F None None reverse))"
| "frac_step random rg ctx F (Page after limit reverse) = valued (\<lambda>ids. VList (map val_of ids)) (on_ctx (frac_keys ctx F after limit reverse))"
| "frac_step random rg ctx F (Edge_Id at_end) = valued id_value (on_ctx (frac_edge_id ctx F at_end))"
| "frac_step random rg ctx F (Next_To k down) = valued id_value (on_ctx (frac_next_to ctx F k down))"
| "frac_step random rg ctx F (All_Items reverse) = valued item_values (on_ctx (frac_items rg ctx F reverse))"
| "frac_step random rg ctx F Respace = valued (\<lambda>_. VNone) (frac_respace random ctx F)"

fun frac_run ::
  "(nat \<Rightarrow> nat) \<Rightarrow> registry \<Rightarrow> ('e, 'g, 's) kv_ctx \<Rightarrow> frac_view \<Rightarrow> frac_call list \<Rightarrow> 's \<times> nat \<Rightarrow> (pyval res list \<times> 's \<times> nat) option" where
  "frac_run random rg ctx F [] st = Some ([], st)"
| "frac_run random rg ctx F (c # cs) st =
     Option.bind (frac_step random rg ctx F c st) (\<lambda>(r, st). Option.bind (frac_run random rg ctx F cs st) (\<lambda>(rs, st). Some (r # rs, st)))"

text \<open>An id next to another one, an edge, and the item a new id is put with.\<close>

definition add_item :: "pyval \<Rightarrow> (seg \<Rightarrow> (seg \<times> pyval) list) \<Rightarrow> (seg \<times> pyval) list \<Rightarrow> pyval res \<times> (seg \<times> pyval) list" where
  "add_item k put xs =
     (case seg_of k of
        None \<Rightarrow> (Inl TypeError, xs)
      | Some a \<Rightarrow> if a \<in> fst ` set xs then (Inl ValueError, xs) else (Inr VNone, put a))"

definition with_known :: "pyval \<Rightarrow> (seg \<Rightarrow> pyval res \<times> (seg \<times> pyval) list) \<Rightarrow> (seg \<times> pyval) list \<Rightarrow> pyval res \<times> (seg \<times> pyval) list" where
  "with_known k f xs = (case known k xs of None \<Rightarrow> (Inl KeyError, xs) | Some a \<Rightarrow> f a)"

definition item :: "seg \<Rightarrow> (seg \<times> pyval) list \<Rightarrow> seg \<times> pyval" where
  "item a xs = (a, the (map_of xs a))"

definition turned :: "bool \<Rightarrow> 'a list \<Rightarrow> 'a list" where
  "turned reverse xs = (if reverse then rev xs else xs)"

fun next_id :: "seg \<Rightarrow> seg list \<Rightarrow> seg option" where
  "next_id a (x # xs) = (if x = a then (case xs of [] \<Rightarrow> None | y # _ \<Rightarrow> Some y) else next_id a xs)"
| "next_id a [] = None"

fun past :: "seg \<Rightarrow> (seg \<times> pyval) list \<Rightarrow> (seg \<times> pyval) list" where
  "past a (x # xs) = (if fst x = a then xs else past a xs)"
| "past a [] = []"

definition id_list :: "(seg \<times> pyval) list \<Rightarrow> pyval" where
  "id_list xs = VList (map (val_of \<circ> fst) xs)"

fun py_fdict_step :: "frac_call \<Rightarrow> (seg \<times> pyval) list \<Rightarrow> pyval res \<times> (seg \<times> pyval) list" where
  "py_fdict_step (Set_At k v) xs = (case seg_of k of None \<Rightarrow> (Inl TypeError, xs) | Some a \<Rightarrow> (Inr VNone, set_id a v xs))"
| "py_fdict_step (Add_Last k v) xs = add_item k (\<lambda>a. xs @ [(a, v)]) xs"
| "py_fdict_step (Add_First k v) xs = add_item k (\<lambda>a. (a, v) # xs) xs"
| "py_fdict_step (Add_Before r k v) xs = with_known r (\<lambda>b. add_item k (\<lambda>a. put_before b (a, v) xs) xs) xs"
| "py_fdict_step (Add_After r k v) xs = with_known r (\<lambda>b. add_item k (\<lambda>a. put_after b (a, v) xs) xs) xs"
| "py_fdict_step (Move_Before k r) xs = with_known k (\<lambda>a. with_known r (\<lambda>b.
     (Inr VNone, if a = b then xs else put_before b (item a xs) (drop_id a xs))) xs) xs"
| "py_fdict_step (Move_After k r) xs = with_known k (\<lambda>a. with_known r (\<lambda>b.
     (Inr VNone, if a = b then xs else put_after b (item a xs) (drop_id a xs))) xs) xs"
| "py_fdict_step (Move_First k) xs = with_known k (\<lambda>a. (Inr VNone, item a xs # drop_id a xs)) xs"
| "py_fdict_step (Move_Last k) xs = with_known k (\<lambda>a. (Inr VNone, drop_id a xs @ [item a xs])) xs"
| "py_fdict_step (Delete_At k) xs = with_known k (\<lambda>a. (Inr VNone, drop_id a xs)) xs"
| "py_fdict_step (Get_At k) xs = with_known k (\<lambda>a. (Inr (snd (item a xs)), xs)) xs"
| "py_fdict_step (Get_Or k v) xs = (Inr (case known k xs of None \<Rightarrow> v | Some a \<Rightarrow> snd (item a xs)), xs)"
| "py_fdict_step (Pop_At k v) xs =
     (case known k xs of
        None \<Rightarrow> (if v = VEmpty then Inl KeyError else Inr v, xs)
      | Some a \<Rightarrow> (Inr (snd (item a xs)), drop_id a xs))"
| "py_fdict_step (Has k) xs = (Inr (VInt (if known k xs \<noteq> None then 1 else 0)), xs)"
| "py_fdict_step Count xs = (Inr (VInt (int (length xs))), xs)"
| "py_fdict_step (Ids reverse) xs = (Inr (id_list (turned reverse xs)), xs)"
| "py_fdict_step (Page None limit reverse) xs = (Inr (id_list (cut limit (turned reverse xs))), xs)"
| "py_fdict_step (Page (Some k) limit reverse) xs = with_known k (\<lambda>a. (Inr (id_list (cut limit (past a (turned reverse xs)))), xs)) xs"
| "py_fdict_step (Edge_Id at_end) xs = (Inr (id_value (if xs = [] then None else Some (fst (hd (turned at_end xs))))), xs)"
| "py_fdict_step (Next_To k down) xs = with_known k (\<lambda>a. (Inr (id_value (next_id a (map fst (turned down xs)))), xs)) xs"
| "py_fdict_step (All_Items reverse) xs = (Inr (item_values (turned reverse xs)), xs)"
| "py_fdict_step Respace xs = (Inr VNone, xs)"

fun py_fdict_run :: "frac_call list \<Rightarrow> (seg \<times> pyval) list \<Rightarrow> pyval res list \<times> (seg \<times> pyval) list" where
  "py_fdict_run [] xs = ([], xs)"
| "py_fdict_run (c # cs) xs = (let (r, xs) = py_fdict_step c xs; (rs, xs) = py_fdict_run cs xs in (r # rs, xs))"

text \<open>
  The keys of a call, of which the codec must take those a view takes, its values, which are leaves, and
  its limit, which is positive.
\<close>

fun call_keys :: "frac_call \<Rightarrow> pyval list" where
  "call_keys (Set_At k v) = [k]" | "call_keys (Add_Last k v) = [k]" | "call_keys (Add_First k v) = [k]"
| "call_keys (Add_Before r k v) = [r, k]" | "call_keys (Add_After r k v) = [r, k]"
| "call_keys (Move_Before k r) = [k, r]" | "call_keys (Move_After k r) = [k, r]"
| "call_keys (Move_First k) = [k]" | "call_keys (Move_Last k) = [k]" | "call_keys (Delete_At k) = [k]"
| "call_keys (Get_At k) = [k]" | "call_keys (Get_Or k v) = [k]" | "call_keys (Pop_At k v) = [k]"
| "call_keys (Page (Some k) limit reverse) = [k]" | "call_keys (Has k) = [k]" | "call_keys (Next_To k down) = [k]"
| "call_keys _ = []"

fun call_values :: "frac_call \<Rightarrow> pyval list" where
  "call_values (Set_At k v) = [v]" | "call_values (Add_Last k v) = [v]" | "call_values (Add_First k v) = [v]"
| "call_values (Add_Before r k v) = [v]" | "call_values (Add_After r k v) = [v]"
| "call_values _ = []"

fun call_limit :: "frac_call \<Rightarrow> int option" where
  "call_limit (Page after limit reverse) = limit"
| "call_limit _ = None"

definition frac_call_ok :: "(seg \<Rightarrow> bool) \<Rightarrow> frac_call \<Rightarrow> bool" where
  "frac_call_ok okseg c \<longleftrightarrow>
     list_all (\<lambda>k. case seg_of k of None \<Rightarrow> True | Some a \<Rightarrow> okseg a) (call_keys c) \<and> list_all is_leaf (call_values c) \<and>
     (case call_limit c of None \<Rightarrow> True | Some n \<Rightarrow> 0 < n)"

section \<open>Running a call\<close>

definition raises :: "('s \<Rightarrow> ('a res \<times> 's) option) \<Rightarrow> 's \<Rightarrow> exn \<Rightarrow> ('s \<Rightarrow> bool) \<Rightarrow> bool" where
  "raises m s e S \<longleftrightarrow> (\<exists>s'. m s = Some (Inl e, s') \<and> S s')"

definition gives :: "('s \<Rightarrow> ('a res \<times> 's) option) \<Rightarrow> 's \<Rightarrow> 'a res \<Rightarrow> ('s \<Rightarrow> bool) \<Rightarrow> bool" where
  "gives m s r S \<longleftrightarrow> (\<exists>s'. m s = Some (r, s') \<and> S s')"

lemma raises_bind: "returns m s P \<Longrightarrow> (\<And>x s'. P x s' \<Longrightarrow> raises (f x) s' e S) \<Longrightarrow> raises (act_bind m f) s e S"
  by (fastforce simp: returns_def raises_def act_bind_def)

lemma raises_bind_on: "returns m s P \<Longrightarrow> (\<And>x s'. P x s' \<Longrightarrow> raises (f x) (s', t) e S) \<Longrightarrow> raises (act_bind (on_ctx m) f) (s, t) e S"
  by (fastforce simp: returns_def raises_def act_bind_def on_ctx_def)

lemma raises_first: "m s = Some (Inl e, s') \<Longrightarrow> S s' \<Longrightarrow> raises (act_bind m f) s e S"
  by (simp add: raises_def act_bind_def)

lemma raises_read: "g s = Inl e \<Longrightarrow> S (s, t) \<Longrightarrow> raises (act_bind (on_ctx (act_read g)) f) (s, t) e S"
  by (simp add: raises_def act_bind_def on_ctx_def)

lemma raises_eq: "m s = m' s' \<Longrightarrow> raises m' s' e S \<Longrightarrow> raises m s e S"
  and returns_eq: "m s = m' s' \<Longrightarrow> returns m' s' Q \<Longrightarrow> returns m s Q"
  by (simp_all add: raises_def returns_def)

lemma gives_returns: "returns m s (\<lambda>x s'. f x = v \<and> S s') \<Longrightarrow> gives (valued f m) s (Inr v) S"
  by (auto simp: returns_def gives_def valued_def act_bind_def)

lemma gives_done: "returns m s (\<lambda>_. S) \<Longrightarrow> gives (valued (\<lambda>_. v) m) s (Inr v) S"
  by (rule gives_returns) simp

lemma gives_raises: "raises m s e S \<Longrightarrow> gives (valued f m) s (Inl e) S"
  by (auto simp: raises_def gives_def valued_def act_bind_def)

lemma returns_on_read: "g s = Inr x \<Longrightarrow> returns (f x) (s, t) Q \<Longrightarrow> returns (act_bind (on_ctx (act_read g)) f) (s, t) Q"
  by (simp add: returns_def act_bind_def on_ctx_def)

lemma returns_on_eq: "m s = Some (Inr x, s') \<Longrightarrow> returns (f x) (s', t) Q \<Longrightarrow> returns (act_bind (on_ctx m) f) (s, t) Q"
  by (simp add: returns_def act_bind_def on_ctx_def)

lemma returns_same: "m s = Some (Inr x, s) \<Longrightarrow> returns m s (\<lambda>y s'. y = x \<and> s' = s)"
  by (simp add: returns_def)

lemma end_keys [simp]: "first_key [] = None" "last_key [] = None" "first_key (x # L) = Some (fst x)" "last_key (L @ [x]) = Some (fst x)"
  by (simp_all add: first_key_def last_key_def)

lemma frac_reject_ok: "is_leaf v \<Longrightarrow> frac_reject_empty F (val_of a) v = Inr a"
  and frac_reject_bad: "seg_of k = None \<Longrightarrow> frac_reject_empty F k v = Inl TypeError"
  by (simp_all add: frac_reject_empty_def reject_bad_key_def is_view_key_def reject_empty_value_def leaf_facts)

text \<open>The items and their rows are split at the same place.\<close>

lemma split_rows:
  assumes "map snd L = map fst (xs @ (b, w) # ys)"
  obtains A q B where "L = A @ (q, b) # B" "map snd A = map fst xs" "map snd B = map fst ys"
  using assms by (auto simp: map_eq_append_conv map_eq_Cons_conv)

lemma split_item:
  assumes "a \<in> fst ` set xs" and "distinct (map fst xs)"
  obtains A v B where "xs = A @ (a, v) # B" "a \<notin> fst ` set A" "a \<notin> fst ` set B"
proof -
  obtain v where "(a, v) \<in> set xs" using assms(1) by auto
  then obtain A B where "xs = A @ (a, v) # B" by (meson split_list)
  with assms(2) that show ?thesis by auto
qed

lemma item_split: "a \<notin> fst ` set xs \<Longrightarrow> item a (xs @ (a, v) # ys) = (a, v)"
  by (simp add: item_def map_add_def map_of_eq_None_iff [THEN iffD2] split: option.split)

lemma map_of_moved: "distinct (map fst xs) \<Longrightarrow> distinct (map fst ys) \<Longrightarrow> set xs = set ys \<Longrightarrow> map_of xs = map_of ys"
  by (rule map_of_permuted)

context frac_context begin

lemma dictE:
  assumes "dict F n xs V s"
  obtains L where "map snd L = map fst xs" "ordered L" "state F n (map_of L) (position_of L) (map_of xs) V s" "distinct (map fst xs)"
    "length L = length xs"
proof -
  from assms obtain L where L: "map snd L = map fst xs" "ordered L" "state F n (map_of L) (position_of L) (map_of xs) V s"
    by (auto simp: fdict_def)
  moreover have "distinct (map fst xs)" using orderedD(2) [OF L(2)] L(1) by simp
  moreover have "length L = length xs" using L(1) by (metis length_map)
  ultimately show ?thesis by (rule that)
qed

lemma dictI: "map snd L = map fst xs \<Longrightarrow> ordered L \<Longrightarrow> state F m (map_of L) (position_of L) D V s \<Longrightarrow> D = map_of xs \<Longrightarrow> m \<le> n \<Longrightarrow> dict F n xs V s"
  unfolding fdict_def by (intro exI [of _ L]) (auto elim: state_le)

lemma dict_le: "dict F n xs V s \<Longrightarrow> n \<le> m \<Longrightarrow> dict F m xs V s"
  by (elim dictE, rule dictI) auto

lemma insert_dict:
  assumes L: "map snd A = map fst Xs" "map snd B = map fst Ys" "ordered (A @ B)"
    and s: "state F n (map_of (A @ B)) (position_of (A @ B)) (map_of (Xs @ Ys)) V s" "n < pages"
    and a: "okseg a" "a \<notin> fst ` set (Xs @ Ys)" and v: "is_leaf v"
  shows "returns (frac_insert random std_registry ctx F a v (last_key A) (first_key B)) (s, t)
    (\<lambda>_ st. dict F (n + 3 * length (Xs @ Ys) + 3) (Xs @ (a, v) # Ys) V (fst st))"
proof (rule returns_mono, rule insert_ok [OF s L(3) a(1) _ _ v])
  have ids: "map snd (A @ B) = map fst (Xs @ Ys)" using L by simp
  then show "a \<notin> snd ` set (A @ B)" using a(2) by (metis list.set_map)
  show "map_of (Xs @ Ys) a = None" using a(2) by (simp only: map_of_eq_None_iff not_False_eq_True)
  have "distinct (map fst (Xs @ Ys))" using orderedD(2) [OF L(3)] by (simp only: ids)
  then have D: "(map_of (Xs @ Ys))(a \<mapsto> v) = map_of (Xs @ (a, v) # Ys)"
    using a(2) by (intro map_of_middle [symmetric]) auto
  have n: "length (A @ B) = length (Xs @ Ys)" using ids by (metis length_map)
  fix st
  assume "\<exists>L. map snd L = map snd A @ a # map snd B \<and> ordered L \<and>
      state F (n + 3 * length (A @ B) + 3) (map_of L) (position_of L) ((map_of (Xs @ Ys))(a \<mapsto> v)) V (fst st)"
  then obtain L' where "map snd L' = map snd A @ a # map snd B" "ordered L'"
    "state F (n + 3 * length (Xs @ Ys) + 3) (map_of L') (position_of L') (map_of (Xs @ (a, v) # Ys)) V (fst st)"
    unfolding D n by blast
  then show "dict F (n + 3 * length (Xs @ Ys) + 3) (Xs @ (a, v) # Ys) V (fst st)"
    using L by (intro dictI [of L']) auto
qed

section \<open>Adding\<close>

lemma insert_taken:
  assumes s: "state F n (map_of L) (position_of L) D V s" and L: "ordered L" and a: "okseg a" "a \<in> snd ` set L"
  shows "raises (frac_insert random rg ctx F a v prev nxt) (s, t) ValueError (\<lambda>st. st = (s, t))"
proof -
  obtain q where q: "(q, a) \<in> set L" using a(2) by auto
  then have "position_of L a = Some q" by (simp add: position_of_Some [OF orderedD(2) [OF L]])
  then have p: "position_or_empty ctx F (val_of a) s = Inr (Some q)" using position_ok [OF s a(1)] by simp
  have "map_of L q = Some a" using q orderedD(3) [OF L] by simp
  moreover have "key_ok q" using q orderedD(4) [OF L] by blast
  ultimately have "get_child_primitive_unsafe ctx (frac_order F) (SStr q) s = Inr (Some (val_of a))"
    using read_site_ok [of s "frac_order F @ [SStr q]"] s okseg_layout okseg_key [of q]
    by (simp add: get_child_primitive_unsafe_def frac_state_def frac_order_def)
  with p show ?thesis by (simp add: frac_insert_def raises_def act_bind_def on_ctx_def)
qed

text \<open>The four ways to add differ in how they look for the gap.\<close>

lemma add_dict:
  assumes L: "map snd A = map fst Xs" "map snd B = map fst Ys" "ordered (A @ B)"
    and s: "state F n (map_of (A @ B)) (position_of (A @ B)) (map_of (Xs @ Ys)) V s" "n < pages" "laid V F"
    and k: "\<And>a. seg_of k = Some a \<Longrightarrow> okseg a" and v: "is_leaf v"
    and probe: "returns probe s (\<lambda>row s'. prev row = last_key A \<and> nxt row = first_key B \<and>
      state F n (map_of (A @ B)) (position_of (A @ B)) (map_of (Xs @ Ys)) V s')"
  shows "gives (valued (\<lambda>_. VNone)
        (act_bind (on_ctx (act_read (\<lambda>_. frac_reject_empty F k v))) (\<lambda>a.
          act_bind (on_ctx (frac_ensure_created ctx F)) (\<lambda>_.
            act_bind (on_ctx probe) (\<lambda>row. frac_insert random std_registry ctx F a v (prev row) (nxt row)))))) (s, t)
      (fst (add_item k (\<lambda>a. Xs @ (a, v) # Ys) (Xs @ Ys)))
      (\<lambda>st. dict F (n + 3 * length (Xs @ Ys) + 4) (snd (add_item k (\<lambda>a. Xs @ (a, v) # Ys) (Xs @ Ys))) V (fst st))"
    (is "gives (valued _ ?m) _ _ _")
proof -
  have ids: "map snd (A @ B) = map fst (Xs @ Ys)" using L by simp
  note d = dictI [OF ids L(3) _ refl, of F n V _ "n + 3 * length (Xs @ Ys) + 4"]
  show ?thesis
  proof (cases "seg_of k")
    case None
    have "raises ?m (s, t) TypeError (\<lambda>st. dict F (n + 3 * length (Xs @ Ys) + 4) (Xs @ Ys) V (fst st))"
      by (rule raises_read [where g = "\<lambda>_. frac_reject_empty F k v", OF frac_reject_bad [OF None]]) (use d [OF s(1)] in simp)
    then show ?thesis using None by (simp only: add_item_def option.case fst_conv snd_conv gives_raises)
  next
    case (Some a)
    then have k: "k = val_of a" "okseg a" using k by (simp_all add: seg_of_eq)
    let ?rest = "act_bind (on_ctx probe) (\<lambda>row. frac_insert random std_registry ctx F a v (prev row) (nxt row))"
    have start: "?m (s, t) = ?rest (s, t)"
      using frac_reject_ok [OF v, of F a] ensure_live [OF s(1,3)] by (simp add: act_bind_def on_ctx_def k(1))
    show ?thesis
    proof (cases "a \<in> fst ` set (Xs @ Ys)")
      case True
      then have "a \<in> snd ` set (A @ B)" using ids by (metis list.set_map)
      note taken = insert_taken [OF _ L(3) k(2) this]
      have "raises ?m (s, t) ValueError (\<lambda>st. dict F (n + 3 * length (Xs @ Ys) + 4) (Xs @ Ys) V (fst st))"
        by (rule raises_eq [where m = ?m and m' = ?rest, OF start], rule raises_bind_on [OF probe]) (use d taken in \<open>fastforce simp: raises_def simp del: append_assoc\<close>)
      then show ?thesis using True by (simp only: k(1) add_item_def seg_of_val option.case if_True fst_conv snd_conv gives_raises)
    next
      case False
      have "returns ?m (s, t) (\<lambda>_ st. dict F (n + 3 * length (Xs @ Ys) + 4) (Xs @ (a, v) # Ys) V (fst st))"
      proof (rule returns_eq [where m = ?m and m' = ?rest, OF start], rule returns_bind_on [OF probe], elim conjE, simp only:, rule returns_mono, rule insert_dict [OF L _ s(2) k(2) False v], assumption)
      qed (erule dict_le, simp)
      then show ?thesis using False by (simp only: k(1) add_item_def seg_of_val option.case if_False fst_conv snd_conv gives_done)
    qed
  qed
qed

section \<open>Moving\<close>

lemma require_known:
  assumes s: "state F n (map_of L) (position_of L) D V s" and L: "ordered L" "(q, a) \<in> set L"
  shows "require_position ctx F (val_of a) s = Inr (a, q)"
proof -
  have p: "position_of L a = Some q" using L by (simp add: position_of_Some [OF orderedD(2) [OF L(1)]])
  then show ?thesis using require_ok [OF s state_okseg [OF s p]] by simp
qed

lemma require_unknown:
  assumes d: "dict F n xs V s" and k: "\<And>a. seg_of k = Some a \<Longrightarrow> okseg a" "known k xs = None"
  shows "require_position ctx F k s = Inl KeyError"
proof (cases "seg_of k")
  case None
  then show ?thesis by (rule require_bad)
next
  case (Some a)
  obtain L where L: "map snd L = map fst xs" "state F n (map_of L) (position_of L) (map_of xs) V s" using d by (rule dictE)
  have "a \<notin> fst ` set xs" using k(2) Some by (simp add: known_def split: if_splits)
  then have "position_of L a = None" using L(1) unfolding position_of_None by (metis list.set_map)
  with require_ok [OF L(2) k(1) [OF Some]] Some show ?thesis by (simp add: seg_of_eq)
qed

lemma relocate_dict:
  assumes L: "map snd (X @ (q, a) # Y) = map fst xs" "ordered (X @ (q, a) # Y)"
    and s: "state F n (map_of (X @ (q, a) # Y)) (position_of (X @ (q, a) # Y)) (map_of xs) V s" "Suc n < pages"
    and AB: "X @ Y = A @ B" and xs': "map fst xs' = map snd A @ a # map snd B" "set xs' = set xs"
  shows "returns (relocate random ctx F a q (last_key A) (first_key B)) (s, t) (\<lambda>_ st. dict F (n + 3 * length xs + 4) xs' V (fst st))"
proof (rule returns_mono, rule relocate_ok [OF s L(2) AB])
  fix st
  assume "\<exists>L. map snd L = map snd A @ a # map snd B \<and> ordered L \<and>
      state F (n + 3 * length (A @ B) + 3) (map_of L) (position_of L) (map_of xs) V (fst st)"
  then obtain L' where L': "map snd L' = map fst xs'" "ordered L'"
    "state F (n + 3 * length (A @ B) + 3) (map_of L') (position_of L') (map_of xs) V (fst st)" using xs'(1) by auto
  have "length (X @ (q, a) # Y) = length xs" using L(1) by (metis length_map)
  then have n: "length (A @ B) \<le> length xs" unfolding AB [symmetric] by simp
  have "distinct (map fst xs)" using orderedD(2) [OF L(2)] by (simp only: L(1))
  moreover have "distinct (map fst xs')" using orderedD(2) [OF L'(2)] by (simp only: L'(1))
  ultimately have "map_of xs = map_of xs'" using xs'(2) by (intro map_of_permuted) simp_all
  then show "dict F (n + 3 * length xs + 4) xs' V (fst st)" using n by (intro dictI [OF L']) simp_all
qed

lemma two_items:
  assumes "a \<in> fst ` set xs" and "b \<in> fst ` set xs" and "a \<noteq> b" and "distinct (map fst xs)"
  obtains (before) P1 P2 Q v w where "xs = P1 @ (a, v) # P2 @ (b, w) # Q"
  | (after) P Q1 Q2 v w where "xs = P @ (b, w) # Q1 @ (a, v) # Q2"
proof -
  obtain A v B where A: "xs = A @ (a, v) # B" using split_item [OF assms(1,4)] by blast
  obtain C w E where C: "xs = C @ (b, w) # E" using split_item [OF assms(2,4)] by blast
  show ?thesis
  proof (cases "b \<in> fst ` set A")
    case True
    then obtain y where "(b, y) \<in> set A" by auto
    then obtain A1 A2 where "A = A1 @ (b, y) # A2" by (meson split_list)
    with A show ?thesis by (intro after) simp
  next
    case False
    then have "b \<in> fst ` set B" using assms(2,3) A by auto
    then obtain y where "(b, y) \<in> set B" by auto
    then obtain B1 B2 where "B = B1 @ (b, y) # B2" by (meson split_list)
    with A show ?thesis by (intro before) simp
  qed
qed

text \<open>Looking at the neighbour or the edge first, and leaving an item that is there already.\<close>

lemma probe_move:
  assumes L: "map snd L = map fst xs" "ordered L" "state F n (map_of L) (position_of L) (map_of xs) V s" and n: "Suc n < pages"
    and probe: "returns probe s (\<lambda>row s'. f row = key \<and> state F n (map_of L) (position_of L) (map_of xs) V s')"
    and same: "key = Some q \<Longrightarrow> R = xs"
    and move: "key \<noteq> Some q \<Longrightarrow> \<exists>X Y A B. L = X @ (q, a) # Y \<and> X @ Y = A @ B \<and> prev key = last_key A \<and> nxt key = first_key B \<and>
      map fst R = map snd A @ a # map snd B \<and> set R = set xs"
  shows "returns (act_bind (on_ctx probe) (\<lambda>row. if f row = Some q then act_ret () else relocate random ctx F a q (prev (f row)) (nxt (f row)))) (s, t)
    (\<lambda>_ st. dict F (n + 3 * length xs + 4) R V (fst st))"
proof (rule returns_bind_on [OF probe], elim conjE, cases "key = Some q")
  fix row s'
  assume r: "f row = key" and s': "state F n (map_of L) (position_of L) (map_of xs) V s'"
  {
    assume "key = Some q"
    with r same dictI [OF L(1,2) s' refl, of "n + 3 * length xs + 4"]
    show "returns (if f row = Some q then act_ret () else relocate random ctx F a q (prev (f row)) (nxt (f row))) (s', t)
        (\<lambda>_ st. dict F (n + 3 * length xs + 4) R V (fst st))"
      by (simp add: returns_def)
  next
    assume k: "key \<noteq> Some q"
    from move [OF k] obtain X Y A B where M: "L = X @ (q, a) # Y" "X @ Y = A @ B" "prev key = last_key A" "nxt key = first_key B"
      "map fst R = map snd A @ a # map snd B" "set R = set xs" by blast
    from relocate_dict [OF L(1) [unfolded M(1)] L(2) [unfolded M(1)] s' [unfolded M(1)] n M(2,5,6), of random t] k
    show "returns (if f row = Some q then act_ret () else relocate random ctx F a q (prev (f row)) (nxt (f row))) (s', t)
        (\<lambda>_ st. dict F (n + 3 * length xs + 4) R V (fst st))"
      by (simp add: r M(3,4))
  }
qed

lemma moved_rows:
  assumes d: "distinct (map fst xs)"
  shows "xs = P1 @ (a, v) # P2 @ (b, w) # Q \<Longrightarrow> put_before b (item a xs) (drop_id a xs) = P1 @ P2 @ (a, v) # (b, w) # Q"
    and "xs = P1 @ (a, v) # P2 @ (b, w) # Q \<Longrightarrow> put_after b (item a xs) (drop_id a xs) = P1 @ P2 @ (b, w) # (a, v) # Q"
    and "xs = P @ (b, w) # Q1 @ (a, v) # Q2 \<Longrightarrow> put_before b (item a xs) (drop_id a xs) = P @ (a, v) # (b, w) # Q1 @ Q2"
    and "xs = P @ (b, w) # Q1 @ (a, v) # Q2 \<Longrightarrow> put_after b (item a xs) (drop_id a xs) = P @ (b, w) # (a, v) # Q1 @ Q2"
proof -
  assume xs: "xs = P1 @ (a, v) # P2 @ (b, w) # Q"
  have i: "item a xs = (a, v)" using item_split [of a P1 v "P2 @ (b, w) # Q"] d by (auto simp: xs)
  have dr: "drop_id a xs = (P1 @ P2) @ (b, w) # Q" using d by (auto simp: xs drop_id_Cons drop_id_other)
  have "b \<notin> fst ` set (P1 @ P2)" using d by (auto simp: xs)
  then show "put_before b (item a xs) (drop_id a xs) = P1 @ P2 @ (a, v) # (b, w) # Q"
    and "put_after b (item a xs) (drop_id a xs) = P1 @ P2 @ (b, w) # (a, v) # Q"
    unfolding i dr using put_before_split [of b "P1 @ P2" "(a, v)" w Q] put_after_split [of b "P1 @ P2" "(a, v)" w Q] by simp_all
next
  assume xs: "xs = P @ (b, w) # Q1 @ (a, v) # Q2"
  have i: "item a xs = (a, v)" using item_split [of a "P @ (b, w) # Q1" v Q2] d by (auto simp: xs)
  have dr: "drop_id a xs = P @ (b, w) # Q1 @ Q2" using d by (auto simp: xs drop_id_Cons drop_id_other)
  have "b \<notin> fst ` set P" using d by (auto simp: xs)
  then show "put_before b (item a xs) (drop_id a xs) = P @ (a, v) # (b, w) # Q1 @ Q2"
    and "put_after b (item a xs) (drop_id a xs) = P @ (b, w) # (a, v) # Q1 @ Q2"
    unfolding i dr using put_before_split [of b P "(a, v)" w "Q1 @ Q2"] put_after_split [of b P "(a, v)" w "Q1 @ Q2"] by simp_all
qed

lemma end_key_in: "last_key C = Some q \<Longrightarrow> q \<in> fst ` set C" "first_key C = Some q \<Longrightarrow> q \<in> fst ` set C"
  by (auto simp: last_key_def first_key_def split: if_splits)

lemma end_keys_append: "C \<noteq> [] \<Longrightarrow> last_key (A @ C) = last_key C" "C \<noteq> [] \<Longrightarrow> first_key (C @ A) = first_key C"
  by (simp_all add: last_key_def first_key_def)

lemma split_two:
  assumes "map snd L = map fst (P @ (a, v) # Q @ (b, w) # R)"
  obtains X q Y k Z where "L = X @ (q, a) # Y @ (k, b) # Z" "map snd X = map fst P" "map snd Y = map fst Q" "map snd Z = map fst R"
proof -
  obtain X q Y where X: "L = X @ (q, a) # Y" "map snd X = map fst P" "map snd Y = map fst (Q @ (b, w) # R)"
    using split_rows [OF assms] by metis
  obtain Y1 k Z where "Y = Y1 @ (k, b) # Z" "map snd Y1 = map fst Q" "map snd Z = map fst R"
    using split_rows [OF X(3)] by metis
  with X that show ?thesis by blast
qed

lemma move_before_ok:
  assumes d: "dict F n xs V s" and n: "Suc n < pages" and ab: "a \<in> fst ` set xs" "b \<in> fst ` set xs" "a \<noteq> b"
  shows "returns (frac_move_before random ctx F (val_of a) (val_of b)) (s, t)
    (\<lambda>_ st. dict F (n + 3 * length xs + 4) (put_before b (item a xs) (drop_id a xs)) V (fst st))" (is "returns _ _ (?Q ?R)")
proof -
  obtain L where L: "map snd L = map fst xs" "ordered L" "state F n (map_of L) (position_of L) (map_of xs) V s" and dx: "distinct (map fst xs)"
    using d by (rule dictE)
  have n': "n < pages" using n by simp
  have start: "returns (frac_move_before random ctx F (val_of a) (val_of b)) (s, t) (?Q R)"
    if "L = C @ (k, b) # E" and "(q, a) \<in> set L" and "last_key C = Some q \<Longrightarrow> R = xs"
      and "last_key C \<noteq> Some q \<Longrightarrow> \<exists>X Y A B. L = X @ (q, a) # Y \<and> X @ Y = A @ B \<and> last_key C = last_key A \<and> Some k = first_key B \<and>
        map fst R = map snd A @ a # map snd B \<and> set R = set xs" for k q C E R
  proof -
    have kb: "(k, b) \<in> set L" using that(1) by simp
    note N = neighbour_gap(1) [OF L(3) [unfolded that(1)] n' L(2) [unfolded that(1)], folded that(1)]
    note M = probe_move [where prev = "\<lambda>x. x" and nxt = "\<lambda>_. Some k", OF L n N that(3,4)]
    show ?thesis
      unfolding frac_move_before_def
      by (rule returns_on_read, rule require_known [OF L(3,2) that(2)], unfold prod.case seg_value_eq if_not_P [OF ab(3)],
          rule returns_on_read, rule require_known [OF L(3,2) kb], unfold prod.case, rule M)
  qed
  from ab dx show ?thesis
  proof (cases rule: two_items)
    case (before P1 P2 Q v w)
    note R = moved_rows(1) [OF dx before]
    obtain X q Y k Z where S: "L = X @ (q, a) # Y @ (k, b) # Z" "map snd X = map fst P1" "map snd Y = map fst P2" "map snd Z = map fst Q"
      using split_two [OF L(1) [unfolded before]] by metis
    have e: "last_key (X @ (q, a) # Y) = (if Y = [] then Some q else last_key Y)" by (auto simp: last_key_def)
    have ne: "last_key Y \<noteq> Some q" using end_key_in(1) [of Y q] orderedD(3) [OF L(2)] by (auto simp: S(1))
    show ?thesis
      unfolding R
    proof (rule start [of "X @ (q, a) # Y" k Z q])
      show "L = (X @ (q, a) # Y) @ (k, b) # Z" by (simp add: S(1))
      show "(q, a) \<in> set L" by (simp add: S(1))
      show "P1 @ P2 @ (a, v) # (b, w) # Q = xs" if "last_key (X @ (q, a) # Y) = Some q"
        using that e ne S(3) by (simp add: before split: if_splits)
      show "\<exists>X' Y' A B. L = X' @ (q, a) # Y' \<and> X' @ Y' = A @ B \<and> last_key (X @ (q, a) # Y) = last_key A \<and> Some k = first_key B \<and>
          map fst (P1 @ P2 @ (a, v) # (b, w) # Q) = map snd A @ a # map snd B \<and> set (P1 @ P2 @ (a, v) # (b, w) # Q) = set xs"
        if "last_key (X @ (q, a) # Y) \<noteq> Some q"
        using that S e by (intro exI [of _ X] exI [of _ "Y @ (k, b) # Z"] exI [of _ "X @ Y"] exI [of _ "(k, b) # Z"])
          (auto simp: before end_keys_append)
    qed
  next
    case (after P Q1 Q2 v w)
    note R = moved_rows(3) [OF dx after]
    obtain X k Y q Z where S: "L = X @ (k, b) # Y @ (q, a) # Z" "map snd X = map fst P" "map snd Y = map fst Q1" "map snd Z = map fst Q2"
      using split_two [OF L(1) [unfolded after]] by metis
    have ne: "last_key X \<noteq> Some q" using end_key_in(1) [of X q] orderedD(3) [OF L(2)] by (auto simp: S(1))
    show ?thesis
      unfolding R
    proof (rule start [of X k "Y @ (q, a) # Z" q])
      show "\<exists>X' Y' A B. L = X' @ (q, a) # Y' \<and> X' @ Y' = A @ B \<and> last_key X = last_key A \<and> Some k = first_key B \<and>
          map fst (P @ (a, v) # (b, w) # Q1 @ Q2) = map snd A @ a # map snd B \<and> set (P @ (a, v) # (b, w) # Q1 @ Q2) = set xs"
        using S by (intro exI [of _ "X @ (k, b) # Y"] exI [of _ Z] exI [of _ X] exI [of _ "(k, b) # Y @ Z"]) (auto simp: after)
    qed (use S ne in auto)
  qed
qed

lemma move_after_ok:
  assumes d: "dict F n xs V s" and n: "Suc n < pages" and ab: "a \<in> fst ` set xs" "b \<in> fst ` set xs" "a \<noteq> b"
  shows "returns (frac_move_after random ctx F (val_of a) (val_of b)) (s, t)
    (\<lambda>_ st. dict F (n + 3 * length xs + 4) (put_after b (item a xs) (drop_id a xs)) V (fst st))" (is "returns _ _ (?Q ?R)")
proof -
  obtain L where L: "map snd L = map fst xs" "ordered L" "state F n (map_of L) (position_of L) (map_of xs) V s" and dx: "distinct (map fst xs)"
    using d by (rule dictE)
  have n': "n < pages" using n by simp
  have start: "returns (frac_move_after random ctx F (val_of a) (val_of b)) (s, t) (?Q R)"
    if "L = C @ (k, b) # E" and "(q, a) \<in> set L" and "first_key E = Some q \<Longrightarrow> R = xs"
      and "first_key E \<noteq> Some q \<Longrightarrow> \<exists>X Y A B. L = X @ (q, a) # Y \<and> X @ Y = A @ B \<and> Some k = last_key A \<and> first_key E = first_key B \<and>
        map fst R = map snd A @ a # map snd B \<and> set R = set xs" for k q C E R
  proof -
    have kb: "(k, b) \<in> set L" using that(1) by simp
    note N = neighbour_gap(2) [OF L(3) [unfolded that(1)] n' L(2) [unfolded that(1)], folded that(1)]
    note M = probe_move [where prev = "\<lambda>_. Some k" and nxt = "\<lambda>x. x", OF L n N that(3,4)]
    show ?thesis
      unfolding frac_move_after_def
      by (rule returns_on_read, rule require_known [OF L(3,2) that(2)], unfold prod.case seg_value_eq if_not_P [OF ab(3)],
          rule returns_on_read, rule require_known [OF L(3,2) kb], unfold prod.case, rule M)
  qed
  from ab dx show ?thesis
  proof (cases rule: two_items)
    case (before P1 P2 Q v w)
    note R = moved_rows(2) [OF dx before]
    obtain X q Y k Z where S: "L = X @ (q, a) # Y @ (k, b) # Z" "map snd X = map fst P1" "map snd Y = map fst P2" "map snd Z = map fst Q"
      using split_two [OF L(1) [unfolded before]] by metis
    have ne: "first_key Z \<noteq> Some q" using end_key_in(2) [of Z q] orderedD(3) [OF L(2)] by (auto simp: S(1))
    show ?thesis
      unfolding R
    proof (rule start [of "X @ (q, a) # Y" k Z q])
      show "\<exists>X' Y' A B. L = X' @ (q, a) # Y' \<and> X' @ Y' = A @ B \<and> Some k = last_key A \<and> first_key Z = first_key B \<and>
          map fst (P1 @ P2 @ (b, w) # (a, v) # Q) = map snd A @ a # map snd B \<and> set (P1 @ P2 @ (b, w) # (a, v) # Q) = set xs"
        using S by (intro exI [of _ X] exI [of _ "Y @ (k, b) # Z"] exI [of _ "X @ Y @ [(k, b)]"] exI [of _ Z]) (auto simp: before last_key_def)
    qed (use S ne in auto)
  next
    case (after P Q1 Q2 v w)
    note R = moved_rows(4) [OF dx after]
    obtain X k Y q Z where S: "L = X @ (k, b) # Y @ (q, a) # Z" "map snd X = map fst P" "map snd Y = map fst Q1" "map snd Z = map fst Q2"
      using split_two [OF L(1) [unfolded after]] by metis
    have e: "first_key (Y @ (q, a) # Z) = (if Y = [] then Some q else first_key Y)" by (auto simp: first_key_def)
    have ne: "first_key Y \<noteq> Some q" using end_key_in(2) [of Y q] orderedD(3) [OF L(2)] by (auto simp: S(1))
    show ?thesis
      unfolding R
    proof (rule start [of X k "Y @ (q, a) # Z" q])
      show "P @ (b, w) # (a, v) # Q1 @ Q2 = xs" if "first_key (Y @ (q, a) # Z) = Some q"
        using that e ne S(3) by (simp add: after split: if_splits)
      show "\<exists>X' Y' A B. L = X' @ (q, a) # Y' \<and> X' @ Y' = A @ B \<and> Some k = last_key A \<and> first_key (Y @ (q, a) # Z) = first_key B \<and>
          map fst (P @ (b, w) # (a, v) # Q1 @ Q2) = map snd A @ a # map snd B \<and> set (P @ (b, w) # (a, v) # Q1 @ Q2) = set xs"
        if "first_key (Y @ (q, a) # Z) \<noteq> Some q"
        using that S e by (intro exI [of _ "X @ (k, b) # Y"] exI [of _ Z] exI [of _ "X @ [(k, b)]"] exI [of _ "Y @ Z"])
          (auto simp: after end_keys_append)
    qed (use S in auto)
  qed
qed

lemma move_edge_ok:
  assumes d: "dict F n xs V s" and n: "Suc n < pages" and a: "a \<in> fst ` set xs"
  shows "returns (frac_move_first random ctx F (val_of a)) (s, t)
      (\<lambda>_ st. dict F (n + 3 * length xs + 4) (item a xs # drop_id a xs) V (fst st))"
    and "returns (frac_move_last random ctx F (val_of a)) (s, t)
      (\<lambda>_ st. dict F (n + 3 * length xs + 4) (drop_id a xs @ [item a xs]) V (fst st))"
proof -
  obtain L where L: "map snd L = map fst xs" "ordered L" "state F n (map_of L) (position_of L) (map_of xs) V s" and dx: "distinct (map fst xs)"
    using d by (rule dictE)
  have n': "n < pages" using n by simp
  obtain P v Q where xs: "xs = P @ (a, v) # Q" "a \<notin> fst ` set P" "a \<notin> fst ` set Q" using split_item [OF a dx] by blast
  have i: "item a xs = (a, v)" "drop_id a xs = P @ Q" using xs by (simp_all add: item_split drop_id_Cons drop_id_other)
  obtain X q Y where S: "L = X @ (q, a) # Y" "map snd X = map fst P" "map snd Y = map fst Q"
    using split_rows [OF L(1) [unfolded xs(1)]] by metis
  have qa: "(q, a) \<in> set L" by (simp add: S(1))
  have nX: "first_key X \<noteq> Some q" "last_key Y \<noteq> Some q"
    using end_key_in(2) [of X q] end_key_in(1) [of Y q] orderedD(3) [OF L(2)] by (auto simp: S(1))
  have e: "first_key L = (if X = [] then Some q else first_key X)" "last_key L = (if Y = [] then Some q else last_key Y)"
    by (auto simp: S(1) first_key_def last_key_def)
  have shape: "returns (act_bind (on_ctx probe) (\<lambda>row. case row of None \<Rightarrow> act_ret ()
        | Some (k, x) \<Rightarrow> if k = q then act_ret () else relocate random ctx F a q (p k) (h k))) (s, t) Q"
    if "returns (act_bind (on_ctx probe) (\<lambda>row. if map_option fst row = Some q then act_ret ()
        else relocate random ctx F a q (p (the (map_option fst row))) (h (the (map_option fst row))))) (s, t) Q"
      and "returns probe s (\<lambda>row s'. map_option fst row = key \<and> R s')" and "key \<noteq> None"
    for probe :: "'c \<Rightarrow> ((pystr \<times> seg) option res \<times> 'c) option" and p h Q key R
    using that by (auto simp: returns_def act_bind_def on_ctx_def)
  note E = edge_gap [OF L(3) n' L(2)]
  have some: "first_key L \<noteq> None" "last_key L \<noteq> None" by (simp_all add: S(1) first_key_def last_key_def)
  show "returns (frac_move_first random ctx F (val_of a)) (s, t)
      (\<lambda>_ st. dict F (n + 3 * length xs + 4) (item a xs # drop_id a xs) V (fst st))"
    unfolding frac_move_first_def i
  proof (rule returns_on_read, rule require_known [OF L(3,2) qa], unfold prod.case,
      rule shape [OF probe_move [where prev = "\<lambda>_. None" and nxt = "\<lambda>x. Some (the x)", OF L n E(2)] E(2) some(1)])
    show "(a, v) # P @ Q = xs" if "first_key L = Some q" using that e nX S(2) by (simp add: xs(1) split: if_splits)
    show "\<exists>X' Y' A B. L = X' @ (q, a) # Y' \<and> X' @ Y' = A @ B \<and> None = last_key A \<and> Some (the (first_key L)) = first_key B \<and>
        map fst ((a, v) # P @ Q) = map snd A @ a # map snd B \<and> set ((a, v) # P @ Q) = set xs" if "first_key L \<noteq> Some q"
      using that some e S by (intro exI [of _ X] exI [of _ Y] exI [of _ "[]"] exI [of _ "X @ Y"]) (auto simp: xs(1) end_keys_append)
  qed
  show "returns (frac_move_last random ctx F (val_of a)) (s, t)
      (\<lambda>_ st. dict F (n + 3 * length xs + 4) (drop_id a xs @ [item a xs]) V (fst st))"
    unfolding frac_move_last_def i
  proof (rule returns_on_read, rule require_known [OF L(3,2) qa], unfold prod.case,
      rule shape [OF probe_move [where prev = "\<lambda>x. Some (the x)" and nxt = "\<lambda>_. None", OF L n E(1)] E(1) some(2)])
    show "(P @ Q) @ [(a, v)] = xs" if "last_key L = Some q" using that e nX S(3) by (simp add: xs(1) split: if_splits)
    show "\<exists>X' Y' A B. L = X' @ (q, a) # Y' \<and> X' @ Y' = A @ B \<and> Some (the (last_key L)) = last_key A \<and> None = first_key B \<and>
        map fst ((P @ Q) @ [(a, v)]) = map snd A @ a # map snd B \<and> set ((P @ Q) @ [(a, v)]) = set xs" if "last_key L \<noteq> Some q"
      using that some e S by (intro exI [of _ X] exI [of _ Y] exI [of _ "X @ Y"] exI [of _ "[]"]) (auto simp: xs(1) end_keys_append)
  qed
qed

end

end
