(* ===== verification/Frac_Run.thy ===== *)
theory Frac_Run
  imports Frac_Dict
begin

text \<open>
  The other methods of the ordered dict view, and that a run of calls returns what the reference returns.
\<close>

section \<open>Assigning and deleting\<close>

context frac_context begin

lemma setitem_known:
  assumes d: "dict F n (A @ (a, w) # B) V s" and l: "laid V F" and v: "is_leaf w" "is_leaf v" and a: "okseg a"
  shows "returns (frac_setitem random std_registry ctx F (val_of a) v) (s, t) (\<lambda>_ st. dict F (Suc n) (A @ (a, v) # B) V (fst st))"
proof -
  let ?xs = "A @ (a, w) # B"
  obtain L where L: "map snd L = map fst ?xs" "ordered L" "state F n (map_of L) (position_of L) (map_of ?xs) V s" "distinct (map fst ?xs)"
    using d by (rule dictE)
  have D: "map_of ?xs a = Some w" using map_of_middle [OF L(4)] by simp
  have ids: "a \<in> snd ` set L" using L(1) by (metis in_set_conv_decomp list.set_map fst_conv image_eqI)
  then obtain q where q: "position_of L a = Some q" using position_of_None [of L a] by auto
  from write_there [OF L(3) a v(2), of random t] D v(1) obtain s1 t1 where
    w: "write_value random std_registry ctx F a v (s, t) = Some (Inr (), s1, t1)"
      "state F (Suc n) (map_of L) (position_of L) ((map_of ?xs)(a \<mapsto> v)) V s1"
    by (auto simp: returns_def)
  have "distinct (map fst (A @ (a, v) # B))" using L(4) by simp
  then have D': "(map_of ?xs)(a \<mapsto> v) = map_of (A @ (a, v) # B)"
    using map_of_middle [of A a v B] map_of_middle [OF L(4)] by simp
  have "dict F (Suc n) (A @ (a, v) # B) V s1" using L(1,2) w(2) unfolding D' by (intro dictI [of L]) auto
  then show ?thesis
    using frac_reject_ok [OF v(2), of F a] ensure_live [OF L(3) l] w(1) ensure_positioned_there [OF w(2) a q]
    by (simp add: frac_setitem_def returns_def act_bind_def on_ctx_def)
qed

lemma setitem_new:
  assumes d: "dict F n xs V s" "Suc n < pages" and l: "laid V F" and v: "is_leaf v" and a: "okseg a" "a \<notin> fst ` set xs"
  shows "returns (frac_setitem random std_registry ctx F (val_of a) v) (s, t) (\<lambda>_ st. dict F (n + 3 * length xs + 4) (xs @ [(a, v)]) V (fst st))"
proof -
  obtain L where L: "map snd L = map fst xs" "ordered L" "state F n (map_of L) (position_of L) (map_of xs) V s" "distinct (map fst xs)"
    "length L = length xs"
    using d(1) by (rule dictE)
  have ids: "a \<notin> snd ` set L" using L(1) a(2) by (metis list.set_map)
  have D: "map_of xs a = None" using a(2) by (simp add: map_of_eq_None_iff)
  from put_data [OF L(3) a(1) leaf_facts(1) [OF v]] obtain s1 where
    s1: "put_child_primitive ctx (frac_data F) a v False False s = (Inr (), s1)"
      "state F (Suc n) (map_of L) (position_of L) ((map_of xs)(a \<mapsto> v)) V s1"
    by (auto simp: returns_def)
  have no: "position_or_empty ctx F (val_of a) s1 = Inr None" using position_ok [OF s1(2) a(1)] ids position_of_None [of L a] by simp
  from edge_gap(1) [OF s1(2) d(2) L(2)] obtain row s2 where
    s2: "edge ctx F True False s1 = Some (Inr row, s2)" "map_option fst row = last_key L"
      "state F (Suc n) (map_of L) (position_of L) ((map_of xs)(a \<mapsto> v)) V s2"
    by (auto simp: returns_def)
  have none: "\<forall>x. x \<notin> insert a (snd ` set (L @ [])) \<longrightarrow> position_of L x = None"
    by (simp only: position_of_None append_Nil2) simp
  have "returns (place_at random ctx F a (last_key L) (first_key [])) (s2, t) (\<lambda>_ st.
    \<exists>L'. map snd L' = map snd L @ a # map snd ([] :: (pystr \<times> seg) list) \<and> ordered L' \<and>
      state F (Suc n + 3 * length (L @ []) + 2) (map_of L') (position_of L') ((map_of xs)(a \<mapsto> v)) V (fst st))"
    using s2(3) L(2) ids positions_position_of [OF orderedD(2) [OF L(2)]]
    by (intro place_at_ok [where A = L and B = "[]", OF _ d(2) _ _ a(1) _ none]) simp_all
  then obtain s3 t3 L' where p: "place_at random ctx F a (last_key L) None (s2, t) = Some (Inr (), s3, t3)"
    and L': "map snd L' = map snd L @ [a]" "ordered L'"
      "state F (Suc n + 3 * length L + 2) (map_of L') (position_of L') ((map_of xs)(a \<mapsto> v)) V s3"
    by (auto simp: returns_def)
  have D': "(map_of xs)(a \<mapsto> v) = map_of (xs @ [(a, v)])" using map_of_middle [of xs a v "[]"] L(4) a(2) by simp
  have "dict F (n + 3 * length xs + 4) (xs @ [(a, v)]) V s3"
    using L'(1,2) L(1,5) L'(3) unfolding D' by (intro dictI [of L']) auto
  moreover have "position_of L' a \<noteq> None" using L'(1) unfolding position_of_None by (metis in_set_conv_decomp list.set_map)
  then obtain q where "position_of L' a = Some q" by blast
  note ensure_positioned_there [OF L'(3) a(1) this]
  moreover have "ensure_positioned random ctx F a (s1, t) = Some (Inr (), s3, t3)"
    using no s2(1,2) p by (simp add: ensure_positioned_def act_bind_def on_ctx_def)
  then have "write_value random std_registry ctx F a v (s, t) = Some (Inr (), s3, t3)"
    using v D s1(1) by (simp add: write_value_def frac_put_primitive_def act_bind_def on_ctx_def data_info [OF L(3) a(1)])
  ultimately show ?thesis
    using frac_reject_ok [OF v, of F a] ensure_live [OF L(3) l]
    by (simp add: frac_setitem_def returns_def act_bind_def on_ctx_def)
qed

lemma delitem_known:
  assumes d: "dict F n (A @ (a, w) # B) V s" and l: "laid V F" and w: "is_leaf w"
  shows "\<exists>s'. frac_delitem ctx F (val_of a) s = Some (Inr (), s') \<and> dict F (n + 3) (A @ B) V s'"
proof -
  let ?xs = "A @ (a, w) # B"
  obtain L where L: "map snd L = map fst ?xs" "ordered L" "state F n (map_of L) (position_of L) (map_of ?xs) V s" "distinct (map fst ?xs)"
    using d by (rule dictE)
  obtain X q Y where S: "L = X @ (q, a) # Y" "map snd X = map fst A" "map snd Y = map fst B" using split_rows [OF L(1)] by metis
  have q: "position_of L a = Some q" "key_ok q" using position_of_Some [OF orderedD(2) [OF L(2)]] L(2) by (simp_all add: S(1) ordered_def)
  note a = state_okseg [OF L(3) q(1)]
  from drop_order [OF L(3) q(2)] obtain s1 where s1: "delete_child_primitive_unsafe ctx (frac_order F) (SStr q) s = (Inr (), s1)"
    "state F (Suc n) ((map_of L)(q := None)) (position_of L) (map_of ?xs) V s1" by (auto simp: returns_def)
  from drop_pos [OF s1(2) a] obtain s2 where s2: "delete_child_primitive_unsafe ctx (frac_pos F) a s1 = (Inr (), s2)"
    "state F (Suc (Suc n)) ((map_of L)(q := None)) ((position_of L)(a := None)) (map_of ?xs) V s2" by (auto simp: returns_def)
  have "inv s2" and T: "okk (frac_data F @ [a])" "okk (frac_data F)" using s2(2) a okseg_layout by (simp_all add: frac_state_def frac_data_def)
  from delete [OF this(1,2)] obtain s3 where s3: "ctx_delete ctx (frac_data F @ [a]) s2 = (Inr (), s3)" "inv s3"
    "weight s3 \<le> Suc (weight s2)" "vw s3 = (vw s2)(frac_data F @ [a] := None)" by blast
  have D: "map_of ?xs a = Some w" using map_of_middle [OF L(4)] by simp
  have "validate_is_container ctx (frac_data F) None s2 = Inr ()"
    using s2(2) l T(2) by (auto simp: validate_at frac_state_def laid_def frac_data_def)
  then have "delete_child ctx (frac_data F) a s2 = Some (Inr (), s3)"
    using data_info [OF s2(2) a] D leaf_facts(2) [OF w] s3(1) by (simp add: delete_child_def attempt_scan_def)
  then have "frac_delitem ctx F (val_of a) s = Some (Inr (), s3)"
    using position_ok [OF L(3) a] q(1) s1(1) s2(1) by (simp add: frac_delitem_def act_bind_def)
  moreover have "(map_of L)(q := None) = map_of (X @ Y)" using map_of_middle_drop orderedD(3) [OF L(2)] by (simp add: S(1))
  moreover have "(position_of L)(a := None) = position_of (X @ Y)"
    using map_of_middle_drop [of "map (\<lambda>(q, a). (a, q)) X" a q "map (\<lambda>(q, a). (a, q)) Y"] orderedD(2) [OF L(2)]
    by (simp add: position_of_def S(1) o_def case_prod_unfold)
  moreover have "(map_of ?xs)(a := None) = map_of (A @ B)" using map_of_middle_drop [OF L(4)] .
  ultimately have "state F (n + 3) (map_of (X @ Y)) (position_of (X @ Y)) (map_of (A @ B)) V s3"
    using s2(2) s3(2-4) by (simp add: frac_state_def frac_data_def with_rows_upd)
  moreover have "ordered (X @ Y)" using L(2) by (auto simp: S(1) ordered_def sorted_wrt_append)
  ultimately have "dict F (n + 3) (A @ B) V s3" using S(2,3) by (intro dictI [of "X @ Y"]) auto
  with \<open>frac_delitem ctx F (val_of a) s = Some (Inr (), s3)\<close> show ?thesis by blast
qed

lemma delitem_unknown:
  assumes d: "dict F n xs V s" and k: "\<And>a. seg_of k = Some a \<Longrightarrow> okseg a" "known k xs = None"
  shows "frac_delitem ctx F k s = Some (Inl KeyError, s)"
proof (cases "seg_of k")
  case None
  then show ?thesis by (simp add: frac_delitem_def)
next
  case (Some a)
  obtain L where L: "map snd L = map fst xs" "state F n (map_of L) (position_of L) (map_of xs) V s" using d by (rule dictE)
  note a = k(1) [OF Some]
  have n: "a \<notin> fst ` set xs" using k(2) Some by (simp add: known_def split: if_splits)
  then have "position_of L a = None" using L(1) unfolding position_of_None by (metis list.set_map)
  moreover have "map_of xs a = None" using n by (simp add: map_of_eq_None_iff)
  then have "exists_child ctx (frac_data F) a False s = Inr False"
    using L(2) a okseg_layout node_type_ok [of s "frac_data F @ [a]"] by (simp add: exists_child_def frac_state_def frac_data_def)
  ultimately show ?thesis using position_ok [OF L(2) a] Some by (simp add: frac_delitem_def act_bind_def seg_of_eq)
qed

section \<open>Reading\<close>

lemma read_child_ok:
  assumes s: "state F n K P (map_of xs) V s" and a: "okseg a" and v: "\<forall>v \<in> snd ` set xs. is_leaf v"
  shows "read_child ctx F a s = (case map_of xs a of None \<Rightarrow> Inl KeyError
    | Some w \<Rightarrow> Inr \<lparr>ni_site = frac_data F @ [a], ni_exists = True, ni_type = PRIMITIVE, ni_raw = Some w,
        ni_structure = None, ni_protocol = None, ni_primitive = Some w\<rparr>)"
proof (cases "map_of xs a")
  case None
  then show ?thesis using data_info [OF s a] by (simp add: read_child_def)
next
  case (Some w)
  then have "is_leaf w" using v by (force dest: map_of_SomeD)
  then show ?thesis using data_info [OF s a] Some leaf_facts(2) by (simp add: read_child_def)
qed

lemma not_empty: "state F n K P (map_of xs) V s \<Longrightarrow> map_of xs a = Some v \<Longrightarrow> v \<noteq> VEmpty"
  using stored [of s "fv_site F @ [DATA, a]"] by (auto simp: frac_state_def)

lemma getitem_dict:
  assumes s: "state F n K P (map_of xs) V s" and k: "\<And>a. seg_of k = Some a \<Longrightarrow> okseg a" and v: "\<forall>v \<in> snd ` set xs. is_leaf v"
  shows "frac_getitem rg ctx F k s = Some (fst (py_fdict_step (Get_At k) xs), s)"
proof (cases "seg_of k")
  case None
  then show ?thesis by (simp add: frac_getitem_def with_known_def known_def)
next
  case (Some a)
  note R = read_child_ok [OF s k [OF Some] v]
  show ?thesis
  proof (cases "map_of xs a")
    case None
    then have "a \<notin> fst ` set xs" by (simp add: map_of_eq_None_iff)
    with R None Some show ?thesis by (simp add: frac_getitem_def with_known_def known_def act_bind_def)
  next
    case (Some w)
    then have "a \<in> fst ` set xs" by (force dest: map_of_SomeD)
    with R Some \<open>seg_of k = Some a\<close> not_empty [OF s Some] show ?thesis
      by (simp add: frac_getitem_def with_known_def known_def act_bind_def item_def)
  qed
qed

lemma contains_dict:
  assumes d: "dict F n xs V s" and l: "laid V F" and k: "\<And>a. seg_of k = Some a \<Longrightarrow> okseg a"
  shows "frac_contains ctx F k s = Inr (known k xs \<noteq> None)"
proof -
  obtain L where L: "map snd L = map fst xs" "state F n (map_of L) (position_of L) (map_of xs) V s" using d by (rule dictE)
  have e: "require_exists ctx (fv_site F) s = Inr ()"
    using L(2) l node_exists_ok [of s "fv_site F"] by (simp add: require_exists_def frac_state_def laid_def)
  show ?thesis
  proof (cases "seg_of k")
    case None
    then show ?thesis using e by (simp add: frac_contains_def position_bad known_def)
  next
    case (Some a)
    have "position_of L a = None \<longleftrightarrow> a \<notin> fst ` set xs" using L(1) unfolding position_of_None by (metis list.set_map)
    with position_ok [OF L(2) k [OF Some]] e Some show ?thesis by (auto simp: frac_contains_def known_def seg_of_eq)
  qed
qed

lemma len_dict:
  assumes d: "dict F n xs V s" "n < pages" and l: "laid V F"
  shows "returns (frac_len ctx F) s (\<lambda>x s'. x = int (length xs) \<and> dict F n xs V s')"
proof -
  obtain L where L: "map snd L = map fst xs" "ordered L" "state F n (map_of L) (position_of L) (map_of xs) V s" "distinct (map fst xs)"
    using d(1) by (rule dictE)
  have s: "inv s" "weight s < pages" "okk (frac_pos F)" using L(3) d(2) okk_layout(3) [of F] by (simp_all add: frac_state_def)
  from strict_scan_rows [OF s, of KEYS None False] obtain s' where
    S: "strict_child_scan ctx (frac_pos F) False KEYS None s = Some (map (\<lambda>x. Out_Key (frac_pos F @ [x])) (children (vw s) (frac_pos F) False),
      if vw s (frac_pos F) = None \<and> children (vw s) (frac_pos F) False = [] then Inl ContainerNotFoundError else Inr (), s')"
    "inv s'" "weight s' = weight s" "vw s' = vw s"
    by (auto simp: cut_def)
  have at: "vw s (frac_pos F @ [x]) = map_option VStr (position_of L x)" for x using L(3) by (simp add: frac_state_def frac_pos_def)
  have "{x. frac_pos F @ [x] \<in> dom (vw s)} = set (map fst xs)"
    using position_of_None [of L] L(1) by (auto simp: at domIff simp flip: L(1))
  then have "length (children (vw s) (frac_pos F) False) = length xs"
    using distinct_card [OF L(4)] by (simp add: children_def)
  moreover have "vw s (frac_pos F) \<noteq> None" using L(3) l by (simp add: frac_state_def laid_def frac_pos_def)
  ultimately have "frac_len ctx F s = Some (Inr (int (length xs)), s')"
    using S(1) by (simp add: frac_len_def count_children_def validate_if_def attempt_scan_def)
  moreover have "state F n (map_of L) (position_of L) (map_of xs) V s'" using L(3) S(2-4) by (simp add: frac_state_def)
  then have "dict F n xs V s'" using L(1,2) by (intro dictI) auto
  ultimately show ?thesis by (simp add: returns_def)
qed

lemma rows_dict:
  assumes d: "dict F n xs V s" "n < pages" and l: "laid V F"
  shows "returns (order_rows ctx F None reverse None [] True) s (\<lambda>rows s'. map snd rows = map fst (turned reverse xs) \<and> dict F n xs V s')"
proof -
  obtain L where L: "map snd L = map fst xs" "ordered L" "state F n (map_of L) (position_of L) (map_of xs) V s" using d(1) by (rule dictE)
  have "V (fv_site F) \<noteq> None" using l by (simp add: laid_def)
  from scan_rows [OF L(3) d(2) L(2), of None None True reverse "[]"] this
  have "returns (order_rows ctx F None reverse None [] True) s (\<lambda>rows s'. rows = turned reverse L \<and> state F n (map_of L) (position_of L) (map_of xs) V s')"
    by (simp add: cut_def scanned_all turned_def split_def)
  then show ?thesis
    using L by (auto elim!: returns_mono intro: dictI simp: turned_def rev_map [symmetric])
qed

lemma map_cut: "map f (cut limit xs) = cut limit (map f xs)"
  by (cases limit) (simp_all add: cut_def take_map)

lemma past_split: "a \<notin> fst ` set xs \<Longrightarrow> past a (xs @ (a, v) # ys) = ys"
  by (induction xs) auto

text \<open>A page of ids, from the start and past an id.\<close>

lemma first_page_dict:
  assumes d: "dict F n xs V s" "n < pages" and l: "laid V F" and m: "\<And>m. limit = Some m \<Longrightarrow> 0 < m"
  shows "returns (frac_keys ctx F None limit reverse) s (\<lambda>ids s'. ids = map fst (cut limit (turned reverse xs)) \<and> dict F n xs V s')"
proof -
  obtain L where L: "map snd L = map fst xs" "ordered L" "state F n (map_of L) (position_of L) (map_of xs) V s" using d(1) by (rule dictE)
  have "returns (order_rows ctx F None reverse limit [] True) s
      (\<lambda>rows s'. rows = cut limit (filter (\<lambda>(q, _). q \<notin> set []) (scanned None reverse L)) \<and> state F n (map_of L) (position_of L) (map_of xs) V s')"
    by (rule scan_rows [OF L(3) d(2) L(2)]) (use m l in \<open>auto simp: laid_def\<close>)
  moreover have "map snd (cut limit (turned reverse L)) = map fst (cut limit (turned reverse xs))"
    using L(1) by (simp add: map_cut turned_def rev_map [symmetric])
  moreover have "scanned None reverse L = turned reverse L" by (simp add: scanned_all turned_def)
  ultimately show ?thesis
    using L by (auto simp: frac_keys_def split_def elim!: returns_bind intro!: returns_ret intro: dictI)
qed

lemma page_dict:
  assumes d: "dict F n xs V s" "n < pages" and l: "laid V F" and m: "\<And>m. limit = Some m \<Longrightarrow> 0 < m" and a: "a \<in> fst ` set xs"
  shows "returns (frac_keys ctx F (Some (val_of a)) limit reverse) s
    (\<lambda>ids s'. ids = map fst (cut limit (past a (turned reverse xs))) \<and> dict F n xs V s')"
proof -
  obtain L where L: "map snd L = map fst xs" "ordered L" "state F n (map_of L) (position_of L) (map_of xs) V s" "distinct (map fst xs)"
    using d(1) by (rule dictE)
  obtain P v Q where xs: "xs = P @ (a, v) # Q" "a \<notin> fst ` set P" "a \<notin> fst ` set Q" using split_item [OF a L(4)] by blast
  obtain X q Y where S: "L = X @ (q, a) # Y" "map snd X = map fst P" "map snd Y = map fst Q"
    using split_rows [OF L(1) [unfolded xs(1)]] by metis
  have qa: "(q, a) \<in> set L" by (simp add: S(1))
  then have k: "key_ok q" using L(2) by (auto simp: ordered_def)
  have "returns (order_rows ctx F (Some q) reverse limit [q] True) s
      (\<lambda>rows s'. rows = cut limit (filter (\<lambda>(p, _). p \<notin> set [q]) (scanned (Some q) reverse L)) \<and> state F n (map_of L) (position_of L) (map_of xs) V s')"
    by (rule scan_rows [OF L(3) d(2) L(2)]) (use m l k in \<open>auto simp: laid_def\<close>)
  moreover have "filter (\<lambda>(p, _). p \<notin> set [q]) (scanned (Some q) reverse L) = (if reverse then rev X else Y)"
  proof -
    have ne: "filter (\<lambda>(p, _). p \<notin> set [q]) X = X" "filter (\<lambda>(p, _). p \<notin> set [q]) Y = Y"
      using orderedD(3) [OF L(2)] unfolding filter_id_conv S(1) by (auto simp: image_iff)
    have "filter (\<lambda>(p, _). p \<notin> set [q]) (rev X) = rev X" using arg_cong [OF ne(1), of rev] by (simp only: rev_filter)
    with ne(2) show ?thesis using scanned_from [OF orderedD(1) [OF L(2) [unfolded S(1)]]] by (simp add: S(1))
  qed
  moreover have "map snd (cut limit (if reverse then rev X else Y)) = map fst (cut limit (past a (turned reverse xs)))"
    using S(2,3) xs past_split [of a P v Q] past_split [of a "rev Q" v "rev P"] by (simp add: map_cut turned_def rev_map [symmetric])
  ultimately have "returns (order_rows ctx F (Some q) reverse limit [q] True) s
      (\<lambda>rows s'. map snd rows = map fst (cut limit (past a (turned reverse xs))) \<and> dict F n xs V s')"
    using L by (auto elim!: returns_mono intro: dictI)
  then have "returns (act_bind (order_rows ctx F (Some q) reverse limit [q] True) (\<lambda>rows. act_ret (map snd rows))) s
      (\<lambda>ids s'. ids = map fst (cut limit (past a (turned reverse xs))) \<and> dict F n xs V s')"
    by (rule returns_bind) (simp add: returns_ret)
  then show ?thesis using require_known [OF L(3,2) qa] by (simp add: frac_keys_def returns_def act_bind_def)
qed

lemma edge_dict:
  assumes d: "dict F n xs V s" "n < pages" and l: "laid V F"
  shows "returns (frac_edge_id ctx F at_end) s
    (\<lambda>x s'. id_value x = id_value (if xs = [] then None else Some (fst (hd (turned at_end xs)))) \<and> dict F n xs V s')"
proof -
  obtain L where L: "map snd L = map fst xs" "ordered L" "state F n (map_of L) (position_of L) (map_of xs) V s" using d(1) by (rule dictE)
  have "V (fv_site F) \<noteq> None" using l by (simp add: laid_def)
  from edge_row [OF L(3) d(2) L(2), of True at_end] this obtain s' where
    s': "edge ctx F at_end True s = Some (Inr (if L = [] then None else Some (if at_end then last L else hd L)), s')"
      "state F n (map_of L) (position_of L) (map_of xs) V s'" by (auto simp: returns_def)
  have e: "L = [] \<longleftrightarrow> xs = []" using L(1) by (metis map_is_Nil_conv)
  have "snd (last L) = fst (last xs)" "snd (hd L) = fst (hd xs)" if "xs \<noteq> []"
    using that e L(1) by (metis last_map, metis list.map_sel(1))
  then have "map_option snd (if L = [] then None else Some (if at_end then last L else hd L)) =
      (if xs = [] then None else Some (fst (hd (turned at_end xs))))"
    using e by (auto simp: turned_def hd_rev)
  then show ?thesis using s' L(1,2) by (auto simp: frac_edge_id_def returns_def act_bind_def intro: dictI)
qed

lemma next_id_split: "a \<notin> set xs \<Longrightarrow> next_id a (xs @ a # ys) = (case ys of [] \<Rightarrow> None | y # _ \<Rightarrow> Some y)"
  by (induction xs) auto

lemma next_dict:
  assumes d: "dict F n xs V s" "n < pages" and a: "a \<in> fst ` set xs"
  shows "returns (frac_next_to ctx F (val_of a) down) s
    (\<lambda>x s'. id_value x = id_value (next_id a (map fst (turned down xs))) \<and> dict F n xs V s')"
proof -
  obtain L where L: "map snd L = map fst xs" "ordered L" "state F n (map_of L) (position_of L) (map_of xs) V s" "distinct (map fst xs)"
    using d(1) by (rule dictE)
  obtain P v Q where xs: "xs = P @ (a, v) # Q" "a \<notin> fst ` set P" "a \<notin> fst ` set Q" using split_item [OF a L(4)] by blast
  obtain X q Y where S: "L = X @ (q, a) # Y" "map snd X = map fst P" "map snd Y = map fst Q"
    using split_rows [OF L(1) [unfolded xs(1)]] by metis
  have qa: "(q, a) \<in> set L" by (simp add: S(1))
  from neighbour_row [OF L(3) [unfolded S(1)] d(2) L(2) [unfolded S(1)], of down] obtain s' where
    s': "neighbour ctx F q down [] s = Some (Inr (if down then (if X = [] then None else Some (last X)) else (if Y = [] then None else Some (hd Y))), s')"
      "state F n (map_of L) (position_of L) (map_of xs) V s'" by (auto simp: returns_def S(1))
  have "map_option snd (if down then (if X = [] then None else Some (last X)) else (if Y = [] then None else Some (hd Y))) =
      next_id a (map fst (turned down xs))"
  proof (cases down)
    case True
    have "map fst (turned down xs) = rev (map fst Q) @ a # rev (map fst P)" using True by (simp add: xs(1) turned_def rev_map)
    moreover have "a \<notin> set (rev (map fst Q))" using xs(3) by simp
    ultimately show ?thesis using True S(2) by (cases P rule: rev_cases; cases X rule: rev_cases) (auto simp: next_id_split)
  next
    case False
    have "map fst (turned down xs) = map fst P @ a # map fst Q" using False by (simp add: xs(1) turned_def)
    moreover have "a \<notin> set (map fst P)" using xs(2) by simp
    ultimately show ?thesis using False S(3) by (cases Q; cases Y) (auto simp: next_id_split)
  qed
  then show ?thesis using s' L(1,2) require_known [OF L(3,2) qa]
    by (auto simp: frac_next_to_def returns_def act_bind_def intro: dictI)
qed

lemma items_dict:
  assumes d: "dict F n xs V s" "n < pages" and l: "laid V F" and v: "\<forall>v \<in> snd ` set xs. is_leaf v"
  shows "returns (frac_items rg ctx F reverse) s (\<lambda>x s'. x = turned reverse xs \<and> dict F n xs V s')"
proof -
  obtain L where L: "map snd L = map fst xs" "ordered L" "state F n (map_of L) (position_of L) (map_of xs) V s" "distinct (map fst xs)"
    using d(1) by (rule dictE)
  have "V (fv_site F) \<noteq> None" using l by (simp add: laid_def)
  with scan_order_ok [of s F L "position_of L" "map_of xs" V None None True reverse "[]"] L(2,3) d(2)
  obtain s' where s': "scan_order ctx F None reverse None [] True s = Some (turned reverse L, Inr (), s')"
      "state F n (map_of L) (position_of L) (map_of xs) V s'"
    by (auto simp: frac_state_def same_def cut_def scanned_all turned_def split_def)
  have body: "frac_item rg ctx F row s' = Some (Inr [(snd row, the (map_of xs (snd row)))], s')" if "row \<in> set L" for row
  proof -
    obtain q a where row: "row = (q, a)" by (cases row)
    have a: "okseg a" using state_okseg [OF L(3)] positionsD [OF positions_position_of [OF orderedD(2) [OF L(2)]]] that row by blast
    have "a \<in> fst ` set xs" using that L(1) row by (metis list.set_map image_eqI snd_conv)
    then obtain w where "map_of xs a = Some w" using map_of_eq_None_iff [of xs a] by auto
    with read_child_ok [OF s'(2) a v] show ?thesis by (simp add: frac_item_def row act_bind_def act_catch_def)
  qed
  have "act_for (frac_item rg ctx F) rows s' = Some (Inr (map (\<lambda>row. (snd row, the (map_of xs (snd row)))) rows), s')"
    if "set rows \<subseteq> set L" for rows
    using that by (induction rows) (simp_all add: body act_bind_def)
  moreover have "set (turned reverse L) \<subseteq> set L" by (simp add: turned_def)
  moreover have "map (\<lambda>row. (snd row, the (map_of xs (snd row)))) L = xs"
  proof -
    have "map (\<lambda>row. (snd row, the (map_of xs (snd row)))) L = map (\<lambda>a. (a, the (map_of xs a))) (map snd L)" by simp
    also have "\<dots> = map (\<lambda>x. (fst x, the (map_of xs (fst x)))) xs" by (simp add: L(1))
    also have "\<dots> = xs" using L(4) by (intro map_idI) auto
    finally show ?thesis .
  qed
  then have "map (\<lambda>row. (snd row, the (map_of xs (snd row)))) (turned reverse L) = turned reverse xs"
    by (simp add: turned_def rev_map [symmetric])
  ultimately have "frac_items rg ctx F reverse s = Some (Inr (turned reverse xs), s')"
    using s'(1) by (simp add: frac_items_def act_bind_def act_gen_def)
  then show ?thesis using s'(2) L(1,2) by (auto simp: returns_def intro: dictI)
qed

section \<open>Respacing the whole view\<close>

lemma respace_dict:
  assumes d: "dict F n xs V s" "n < pages"
  shows "returns (frac_respace random ctx F) (s, t) (\<lambda>_ st. dict F (n + 3 * length xs) xs V (fst st))"
proof -
  obtain L where L: "map snd L = map fst xs" "ordered L" "state F n (map_of L) (position_of L) (map_of xs) V s" "length L = length xs"
    using d(1) by (rule dictE)
  from scan_rows [OF L(3) d(2) L(2), of None None False False "[]"] obtain s1 where
    s1: "order_rows ctx F None False None [] False s = Some (Inr L, s1)" "state F n (map_of L) (position_of L) (map_of xs) V s1"
    by (auto simp: returns_def cut_def scanned_all split_def)
  show ?thesis
  proof (cases "L = []")
    case True
    then have "frac_respace random ctx F (s, t) = Some (Inr (), s1, t)"
      using s1(1) by (simp add: frac_respace_def act_bind_def on_ctx_def)
    moreover have "dict F (n + 3 * length xs) xs V s1" using s1(2) L(1,2) by (intro dictI) auto
    ultimately show ?thesis by (simp add: returns_def)
  next
    case False
    have "bounds_ok None None" by (simp add: bounds_ok_def)
    from n_suffixed_spec [OF this, of SUFFIX_LENGTH random "int (length L)" t] obtain keys t' where
      keys: "generate_n_suffixed_keys_between random SUFFIX_LENGTH None None (int (length L)) t = Some (Inr (keys, t'))"
        "length keys = length L" "keys_between None None keys"
      by (auto simp: SUFFIX_LENGTH_def DEFAULT_SUFFIX_LENGTH_def)
    let ?L = "zip keys (map snd L)"
    have K: "distinct keys" "\<forall>q \<in> set keys. key_ok q" "sorted_wrt (<) keys"
      using keys(3) by (auto simp: keys_between_def strict_sorted_iff)
    have rows: "map snd ?L = map snd L" "map fst ?L = keys" using keys(2) by simp_all
    have L': "ordered ?L" using K orderedD(2) [OF L(2)] by (auto simp: ordered_def rows dest: set_zip_leftD)
    have ids: "okseg a" if "a \<in> snd ` set L" for a
      using that state_okseg [OF L(3), of a] position_of_None [of L a] by blast
    have eK: "map_of L |` (- fst ` set L) ++ map_of ?L = map_of ?L"
    proof
      fix x
      have "map_of L x = None" if "x \<notin> fst ` set L" using that by (simp only: map_of_eq_None_iff not_False_eq_True)
      then show "(map_of L |` (- fst ` set L) ++ map_of ?L) x = map_of ?L x"
        by (simp add: map_add_def restrict_map_def split: option.split)
    qed
    have eP: "position_of L ++ map_of (zip (map snd L) keys) = position_of ?L"
    proof -
      have "map (\<lambda>(q, a). (a, q)) ?L = zip (map snd L) keys" using keys(2) by (simp add: zip_commute [of keys] o_def case_prod_unfold)
      then have "map_of (zip (map snd L) keys) = position_of ?L" by (simp add: position_of_def)
      moreover have "position_of L x = None" if "position_of ?L x = None" for x
        using that unfolding position_of_None by (metis list.set_map rows(1))
      ultimately show ?thesis by (auto simp: fun_eq_iff map_add_def split: option.split)
    qed
    have ok: "\<forall>q \<in> fst ` set L. key_ok q" using L(2) by (simp add: ordered_def)
    note D = drop_rows_ok [OF s1(2) ok]
    note I = index_rows_ok [where rest = "[]", unfolded append_Nil2, OF _ keys(2) [symmetric] K(1) orderedD(2) [OF L(2)] K(2)]
    have "returns (frac_respace random ctx F) (s, t) (\<lambda>_ st. state F (n + length L + 2 * length L) (map_of ?L) (position_of ?L) (map_of xs) V (fst st))"
      unfolding frac_respace_def
      by (rule returns_on_eq, rule s1(1), unfold if_not_P [OF False], rule returns_bind_on, rule D, rule returns_bind_draw, rule keys(1),
          rule returns_on, rule returns_mono, unfold fst_conv, rule I, assumption, use ids in blast, unfold eK eP)
    moreover have le: "n + length L + 2 * length L \<le> n + 3 * length xs" using L(4) by linarith
    moreover have "map snd ?L = map fst xs" using rows(1) L(1) by simp
    ultimately show ?thesis by (blast intro: returns_mono dictI [OF _ L' _ refl])
  qed
qed

section \<open>Any call, and any run of calls\<close>

lemma gives_le: "gives m st r (\<lambda>st. dict F n ys V (fst st)) \<Longrightarrow> n \<le> m' \<Longrightarrow> gives m st r (\<lambda>st. dict F m' ys V (fst st))"
  by (auto simp: gives_def intro: dict_le)

lemma gives_unknown: "require_position ctx F k s = Inl KeyError \<Longrightarrow> S (s, t) \<Longrightarrow>
    gives (valued f (act_bind (on_ctx (act_read (require_position ctx F k))) g)) (s, t) (Inl KeyError) S"
  by (simp add: gives_def valued_def act_bind_def on_ctx_def)

lemma gives_after_read: "g s = Inr x \<Longrightarrow> gives (valued f (h x)) (s, t) r S \<Longrightarrow> gives (valued f (act_bind (on_ctx (act_read g)) h)) (s, t) r S"
  by (simp add: gives_def valued_def act_bind_def on_ctx_def)

lemma gives_on: "returns m s (\<lambda>x s'. f x = v \<and> S s') \<Longrightarrow> gives (valued f (on_ctx m)) (s, t) (Inr v) (\<lambda>st. S (fst st))"
  by (auto simp: gives_def returns_def valued_def act_bind_def on_ctx_def)

lemma add_before_ok:
  assumes d: "dict F n xs V s" "n < pages" "laid V F" and k: "\<And>a. seg_of k = Some a \<Longrightarrow> okseg a" "\<And>b. seg_of r = Some b \<Longrightarrow> okseg b" and v: "is_leaf v"
  shows "gives (frac_step random std_registry ctx F (Add_Before r k v)) (s, t) (fst (py_fdict_step (Add_Before r k v) xs))
      (\<lambda>st. dict F (n + 3 * length xs + 4) (snd (py_fdict_step (Add_Before r k v) xs)) V (fst st))"
    and "gives (frac_step random std_registry ctx F (Add_After r k v)) (s, t) (fst (py_fdict_step (Add_After r k v) xs))
      (\<lambda>st. dict F (n + 3 * length xs + 4) (snd (py_fdict_step (Add_After r k v) xs)) V (fst st))"
proof -
  have "gives (frac_step random std_registry ctx F (Add_Before r k v)) (s, t) (fst (py_fdict_step (Add_Before r k v) xs))
      (\<lambda>st. dict F (n + 3 * length xs + 4) (snd (py_fdict_step (Add_Before r k v) xs)) V (fst st)) \<and>
    gives (frac_step random std_registry ctx F (Add_After r k v)) (s, t) (fst (py_fdict_step (Add_After r k v) xs))
      (\<lambda>st. dict F (n + 3 * length xs + 4) (snd (py_fdict_step (Add_After r k v) xs)) V (fst st))"
  proof (cases "known r xs")
    case None
    have D: "dict F (n + 3 * length xs + 4) xs V s" using d(1) by (rule dict_le) simp
    show ?thesis
      using D unfolding frac_step.simps py_fdict_step.simps with_known_def None option.case fst_conv snd_conv
        frac_insert_before_def frac_insert_after_def
      by (intro conjI gives_unknown require_unknown [OF d(1) k(2) None]) (simp_all only: fst_conv)
  next
    case (Some b)
    obtain L where L: "map snd L = map fst xs" "ordered L" "state F n (map_of L) (position_of L) (map_of xs) V s" "distinct (map fst xs)"
      using d(1) by (rule dictE)
    have b: "r = val_of b" "b \<in> fst ` set xs" using Some by (simp_all add: known_Some)
    obtain P w Q where xs: "xs = P @ (b, w) # Q" "b \<notin> fst ` set P" "b \<notin> fst ` set Q" using split_item [OF b(2) L(4)] by blast
    obtain X q Y where S: "L = X @ (q, b) # Y" "map snd X = map fst P" "map snd Y = map fst Q" using split_rows [OF L(1) [unfolded xs(1)]] by metis
    have req: "require_position ctx F r s = Inr (b, q)" unfolding b(1) by (rule require_known [OF L(3,2)]) (simp add: S(1))
    note N = neighbour_gap [OF L(3) [unfolded S(1)] d(2) L(2) [unfolded S(1)]]
    have before: "gives (valued (\<lambda>_. VNone) (frac_insert_before random std_registry ctx F r k v)) (s, t)
        (fst (add_item k (\<lambda>a. P @ (a, v) # (b, w) # Q) (P @ (b, w) # Q)))
        (\<lambda>st. dict F (n + 3 * length (P @ (b, w) # Q) + 4) (snd (add_item k (\<lambda>a. P @ (a, v) # (b, w) # Q) (P @ (b, w) # Q))) V (fst st))"
      unfolding frac_insert_before_def
    proof (rule gives_after_read, rule req, unfold prod.case, rule add_dict [OF S(2) _ _ _ d(2,3) k(1) v])
      show "map snd ((q, b) # Y) = map fst ((b, w) # Q)" "ordered (X @ (q, b) # Y)" using S L(2) by simp_all
      show "state F n (map_of (X @ (q, b) # Y)) (position_of (X @ (q, b) # Y)) (map_of (P @ (b, w) # Q)) V s"
        using L(3) by (simp only: S(1) xs(1))
      show "returns (neighbour ctx F q True []) s (\<lambda>row s'. map_option fst row = last_key X \<and> Some q = first_key ((q, b) # Y) \<and>
          state F n (map_of (X @ (q, b) # Y)) (position_of (X @ (q, b) # Y)) (map_of (P @ (b, w) # Q)) V s')"
        by (rule returns_mono [OF N(1)]) (simp only: S(1) xs(1) end_keys fst_conv simp_thms)
    qed
    have after: "gives (valued (\<lambda>_. VNone) (frac_insert_after random std_registry ctx F r k v)) (s, t)
        (fst (add_item k (\<lambda>a. (P @ [(b, w)]) @ (a, v) # Q) ((P @ [(b, w)]) @ Q)))
        (\<lambda>st. dict F (n + 3 * length ((P @ [(b, w)]) @ Q) + 4) (snd (add_item k (\<lambda>a. (P @ [(b, w)]) @ (a, v) # Q) ((P @ [(b, w)]) @ Q))) V (fst st))"
      unfolding frac_insert_after_def
    proof (rule gives_after_read, rule req, unfold prod.case, rule add_dict [OF _ S(3) _ _ d(2,3) k(1) v])
      have eq: "(X @ [(q, b)]) @ Y = L" "(P @ [(b, w)]) @ Q = xs" by (simp_all add: S(1) xs(1))
      show "map snd (X @ [(q, b)]) = map fst (P @ [(b, w)])" using S by simp
      show "ordered ((X @ [(q, b)]) @ Y)" unfolding eq by (rule L(2))
      show "state F n (map_of ((X @ [(q, b)]) @ Y)) (position_of ((X @ [(q, b)]) @ Y)) (map_of ((P @ [(b, w)]) @ Q)) V s"
        unfolding eq by (rule L(3))
      show "returns (neighbour ctx F q False []) s (\<lambda>row s'. Some q = last_key (X @ [(q, b)]) \<and> map_option fst row = first_key Y \<and>
          state F n (map_of ((X @ [(q, b)]) @ Y)) (position_of ((X @ [(q, b)]) @ Y)) (map_of ((P @ [(b, w)]) @ Q)) V s')"
        unfolding eq by (rule returns_mono [OF N(2)]) (simp only: S(1) end_keys fst_conv simp_thms)
    qed
    have "put_before b (a, v) xs = P @ (a, v) # (b, w) # Q" "put_after b (a, v) xs = (P @ [(b, w)]) @ (a, v) # Q" for a
      using put_before_split [OF xs(2), of "(a, v)" w Q] put_after_split [OF xs(2), of "(a, v)" w Q] by (simp_all add: xs(1))
    moreover have "xs = P @ (b, w) # Q" "xs = (P @ [(b, w)]) @ Q" by (simp_all add: xs(1))
    ultimately show ?thesis
      using before after Some by (simp only: frac_step.simps py_fdict_step.simps with_known_def option.case)
  qed
  then show "gives (frac_step random std_registry ctx F (Add_Before r k v)) (s, t) (fst (py_fdict_step (Add_Before r k v) xs))
      (\<lambda>st. dict F (n + 3 * length xs + 4) (snd (py_fdict_step (Add_Before r k v) xs)) V (fst st))"
    and "gives (frac_step random std_registry ctx F (Add_After r k v)) (s, t) (fst (py_fdict_step (Add_After r k v) xs))
      (\<lambda>st. dict F (n + 3 * length xs + 4) (snd (py_fdict_step (Add_After r k v) xs)) V (fst st))" by blast+
qed

lemma add_end_ok:
  assumes d: "dict F n xs V s" "n < pages" "laid V F" and k: "\<And>a. seg_of k = Some a \<Longrightarrow> okseg a" and v: "is_leaf v"
  shows "gives (frac_step random std_registry ctx F (Add_Last k v)) (s, t) (fst (py_fdict_step (Add_Last k v) xs))
      (\<lambda>st. dict F (n + 3 * length xs + 4) (snd (py_fdict_step (Add_Last k v) xs)) V (fst st))"
    and "gives (frac_step random std_registry ctx F (Add_First k v)) (s, t) (fst (py_fdict_step (Add_First k v) xs))
      (\<lambda>st. dict F (n + 3 * length xs + 4) (snd (py_fdict_step (Add_First k v) xs)) V (fst st))"
proof -
  obtain L where L: "map snd L = map fst xs" "ordered L" "state F n (map_of L) (position_of L) (map_of xs) V s" using d(1) by (rule dictE)
  note E = edge_gap [OF L(3) d(2) L(2)]
  have "gives (valued (\<lambda>_. VNone) (frac_append random std_registry ctx F k v)) (s, t) (fst (add_item k (\<lambda>a. xs @ (a, v) # []) (xs @ [])))
      (\<lambda>st. dict F (n + 3 * length (xs @ []) + 4) (snd (add_item k (\<lambda>a. xs @ (a, v) # []) (xs @ []))) V (fst st))"
    unfolding frac_append_def
    by (rule add_dict [where A = L and B = "[]", OF L(1) _ _ _ d(2,3) k v]) (use L E(1) in \<open>auto elim!: returns_mono\<close>)
  then show "gives (frac_step random std_registry ctx F (Add_Last k v)) (s, t) (fst (py_fdict_step (Add_Last k v) xs))
      (\<lambda>st. dict F (n + 3 * length xs + 4) (snd (py_fdict_step (Add_Last k v) xs)) V (fst st))" by simp
  have "gives (valued (\<lambda>_. VNone) (frac_prepend random std_registry ctx F k v)) (s, t) (fst (add_item k (\<lambda>a. [] @ (a, v) # xs) ([] @ xs)))
      (\<lambda>st. dict F (n + 3 * length ([] @ xs) + 4) (snd (add_item k (\<lambda>a. [] @ (a, v) # xs) ([] @ xs))) V (fst st))"
    unfolding frac_prepend_def
    by (rule add_dict [where A = "[]" and B = L, OF _ L(1) _ _ d(2,3) k v]) (use L E(2) in \<open>auto elim!: returns_mono\<close>)
  then show "gives (frac_step random std_registry ctx F (Add_First k v)) (s, t) (fst (py_fdict_step (Add_First k v) xs))
      (\<lambda>st. dict F (n + 3 * length xs + 4) (snd (py_fdict_step (Add_First k v) xs)) V (fst st))" by simp
qed

lemma set_at_ok:
  assumes d: "dict F n xs V s" "Suc n < pages" "laid V F" and k: "\<And>a. seg_of k = Some a \<Longrightarrow> okseg a" and v: "is_leaf v" "\<forall>v \<in> snd ` set xs. is_leaf v"
  shows "gives (frac_step random std_registry ctx F (Set_At k v)) (s, t) (fst (py_fdict_step (Set_At k v) xs))
      (\<lambda>st. dict F (n + 3 * length xs + 4) (snd (py_fdict_step (Set_At k v) xs)) V (fst st))"
proof (cases "seg_of k")
  case None
  have "dict F (n + 3 * length xs + 4) xs V s" using d(1) by (rule dict_le) simp
  then show ?thesis using None frac_reject_bad [OF None, of F v]
    by (simp add: frac_setitem_def gives_def valued_def act_bind_def on_ctx_def)
next
  case (Some a)
  then have a: "k = val_of a" "okseg a" using k by (simp_all add: seg_of_eq)
  have "returns (frac_setitem random std_registry ctx F (val_of a) v) (s, t) (\<lambda>_ st. dict F (n + 3 * length xs + 4) (set_id a v xs) V (fst st))"
  proof (cases "a \<in> fst ` set xs")
    case True
    have "distinct (map fst xs)" using d(1) by (rule dictE)
    then obtain P w Q where xs: "xs = P @ (a, w) # Q" "a \<notin> fst ` set P" "a \<notin> fst ` set Q" using split_item [OF True] by blast
    have w: "is_leaf w" using v(2) by (simp add: xs(1))
    show ?thesis
      using setitem_known [OF d(1) [unfolded xs(1)] d(3) w v(1) a(2), of random t] set_id_split [OF xs(2), of v w Q]
      by (auto simp: xs(1) elim!: returns_mono dict_le)
  next
    case False
    show ?thesis using setitem_new [OF d v(1) a(2) False, of random t] by (simp add: set_id_new [OF False])
  qed
  then show ?thesis using Some by (simp add: a(1) gives_done)
qed

text \<open>A call that needs a known key, from the case where it is known.\<close>

lemma with_known_ok:
  assumes d: "dict F n xs V s" and k: "\<And>a. seg_of k = Some a \<Longrightarrow> okseg a"
    and unknown: "require_position ctx F k s = Inl KeyError \<Longrightarrow> m (s, t) = Some (Inl KeyError, s, t)"
    and known: "\<And>a. k = val_of a \<Longrightarrow> a \<in> fst ` set xs \<Longrightarrow> gives m (s, t) (fst (g a)) (\<lambda>st. dict F (n + 3 * length xs + 4) (snd (g a)) V (fst st))"
  shows "gives m (s, t) (fst (with_known k g xs)) (\<lambda>st. dict F (n + 3 * length xs + 4) (snd (with_known k g xs)) V (fst st))"
proof (cases "known k xs")
  case None
  have "dict F (n + 3 * length xs + 4) xs V s" using d by (rule dict_le) simp
  with unknown [OF require_unknown [OF d k None]] None show ?thesis by (simp add: gives_def with_known_def)
next
  case (Some a)
  then have a: "k = val_of a" "a \<in> fst ` set xs" by (simp_all add: known_Some)
  have "with_known k g xs = g a" using Some by (simp add: with_known_def)
  with known [OF a] show ?thesis by simp
qed

lemma move_ok:
  assumes d: "dict F n xs V s" "Suc n < pages" and k: "\<And>a. seg_of k = Some a \<Longrightarrow> okseg a" "\<And>a. seg_of r = Some a \<Longrightarrow> okseg a"
  shows "gives (frac_step random std_registry ctx F (Move_Before k r)) (s, t) (fst (py_fdict_step (Move_Before k r) xs))
      (\<lambda>st. dict F (n + 3 * length xs + 4) (snd (py_fdict_step (Move_Before k r) xs)) V (fst st))"
    and "gives (frac_step random std_registry ctx F (Move_After k r)) (s, t) (fst (py_fdict_step (Move_After k r) xs))
      (\<lambda>st. dict F (n + 3 * length xs + 4) (snd (py_fdict_step (Move_After k r) xs)) V (fst st))"
proof -
  obtain L where L: "map snd L = map fst xs" "ordered L" "state F n (map_of L) (position_of L) (map_of xs) V s" using d(1) by (rule dictE)
  have D: "dict F (n + 3 * length xs + 4) xs V s" using d(1) by (rule dict_le) simp
  have req: "\<exists>q. require_position ctx F (val_of a) s = Inr (a, q)" if "a \<in> fst ` set xs" for a
  proof -
    have "a \<in> snd ` set L" using that L(1) by (metis list.set_map)
    then obtain q where "(q, a) \<in> set L" by auto
    then show ?thesis using require_known [OF L(3,2)] by blast
  qed
  have unk: "valued f (frac_move_before random ctx F k r) (s, t) = Some (Inl KeyError, s, t)"
    "valued f (frac_move_after random ctx F k r) (s, t) = Some (Inl KeyError, s, t)"
    if "require_position ctx F k s = Inl KeyError" for f k r
    using that by (simp_all add: valued_def frac_move_before_def frac_move_after_def act_bind_def on_ctx_def)
  have unk2: "valued f (frac_move_before random ctx F (val_of a) r) (s, t) = Some (Inl KeyError, s, t)"
    "valued f (frac_move_after random ctx F (val_of a) r) (s, t) = Some (Inl KeyError, s, t)"
    if "require_position ctx F r s = Inl KeyError" "a \<in> fst ` set xs" for f a r
    using that req [OF that(2)] by (auto simp: valued_def frac_move_before_def frac_move_after_def act_bind_def on_ctx_def)
  have same: "frac_move_before random ctx F (val_of a) (val_of a) (s, t) = Some (Inr (), s, t)"
    "frac_move_after random ctx F (val_of a) (val_of a) (s, t) = Some (Inr (), s, t)" if "a \<in> fst ` set xs" for a
    using req [OF that] by (auto simp: frac_move_before_def frac_move_after_def act_bind_def on_ctx_def)
  show "gives (frac_step random std_registry ctx F (Move_Before k r)) (s, t) (fst (py_fdict_step (Move_Before k r) xs))
      (\<lambda>st. dict F (n + 3 * length xs + 4) (snd (py_fdict_step (Move_Before k r) xs)) V (fst st))"
    unfolding frac_step.simps py_fdict_step.simps
  proof (rule with_known_ok [OF d(1) k(1)], assumption, erule unk(1), simp only:,
      rule with_known_ok [OF d(1) k(2)], assumption, rule unk2(1), assumption, assumption, simp only:)
    fix a b assume ab: "a \<in> fst ` set xs" "b \<in> fst ` set xs"
    have "returns (frac_move_before random ctx F (val_of a) (val_of b)) (s, t)
        (\<lambda>_ st. dict F (n + 3 * length xs + 4) (if a = b then xs else put_before b (item a xs) (drop_id a xs)) V (fst st))"
      using move_before_ok [OF d ab] same(1) [OF ab(1)] D by (cases "a = b") (simp_all add: returns_def)
    then show "gives (valued (\<lambda>_. VNone) (frac_move_before random ctx F (val_of a) (val_of b))) (s, t)
        (fst (Inr VNone, if a = b then xs else put_before b (item a xs) (drop_id a xs)))
        (\<lambda>st. dict F (n + 3 * length xs + 4) (snd (Inr VNone, if a = b then xs else put_before b (item a xs) (drop_id a xs))) V (fst st))"
      by (simp only: prod.sel gives_done)
  qed
  show "gives (frac_step random std_registry ctx F (Move_After k r)) (s, t) (fst (py_fdict_step (Move_After k r) xs))
      (\<lambda>st. dict F (n + 3 * length xs + 4) (snd (py_fdict_step (Move_After k r) xs)) V (fst st))"
    unfolding frac_step.simps py_fdict_step.simps
  proof (rule with_known_ok [OF d(1) k(1)], assumption, erule unk(2), simp only:,
      rule with_known_ok [OF d(1) k(2)], assumption, rule unk2(2), assumption, assumption, simp only:)
    fix a b assume ab: "a \<in> fst ` set xs" "b \<in> fst ` set xs"
    have "returns (frac_move_after random ctx F (val_of a) (val_of b)) (s, t)
        (\<lambda>_ st. dict F (n + 3 * length xs + 4) (if a = b then xs else put_after b (item a xs) (drop_id a xs)) V (fst st))"
      using move_after_ok [OF d ab] same(2) [OF ab(1)] D by (cases "a = b") (simp_all add: returns_def)
    then show "gives (valued (\<lambda>_. VNone) (frac_move_after random ctx F (val_of a) (val_of b))) (s, t)
        (fst (Inr VNone, if a = b then xs else put_after b (item a xs) (drop_id a xs)))
        (\<lambda>st. dict F (n + 3 * length xs + 4) (snd (Inr VNone, if a = b then xs else put_after b (item a xs) (drop_id a xs))) V (fst st))"
      by (simp only: prod.sel gives_done)
  qed
qed

lemma move_end_ok:
  assumes d: "dict F n xs V s" "Suc n < pages" and k: "\<And>a. seg_of k = Some a \<Longrightarrow> okseg a"
  shows "gives (frac_step random std_registry ctx F (Move_First k)) (s, t) (fst (py_fdict_step (Move_First k) xs))
      (\<lambda>st. dict F (n + 3 * length xs + 4) (snd (py_fdict_step (Move_First k) xs)) V (fst st))"
    and "gives (frac_step random std_registry ctx F (Move_Last k)) (s, t) (fst (py_fdict_step (Move_Last k) xs))
      (\<lambda>st. dict F (n + 3 * length xs + 4) (snd (py_fdict_step (Move_Last k) xs)) V (fst st))"
proof -
  have unk: "valued f (frac_move_first random ctx F k) (s, t) = Some (Inl KeyError, s, t)"
    "valued f (frac_move_last random ctx F k) (s, t) = Some (Inl KeyError, s, t)"
    if "require_position ctx F k s = Inl KeyError" for f
    using that by (simp_all add: valued_def frac_move_first_def frac_move_last_def act_bind_def on_ctx_def)
  show "gives (frac_step random std_registry ctx F (Move_First k)) (s, t) (fst (py_fdict_step (Move_First k) xs))
      (\<lambda>st. dict F (n + 3 * length xs + 4) (snd (py_fdict_step (Move_First k) xs)) V (fst st))"
    unfolding frac_step.simps py_fdict_step.simps
    by (rule with_known_ok [OF d(1) k], assumption, erule unk(1)) (simp add: gives_done move_edge_ok [OF d])
  show "gives (frac_step random std_registry ctx F (Move_Last k)) (s, t) (fst (py_fdict_step (Move_Last k) xs))
      (\<lambda>st. dict F (n + 3 * length xs + 4) (snd (py_fdict_step (Move_Last k) xs)) V (fst st))"
    unfolding frac_step.simps py_fdict_step.simps
    by (rule with_known_ok [OF d(1) k], assumption, erule unk(2)) (simp add: gives_done move_edge_ok [OF d])
qed

lemma delete_ok:
  assumes d: "dict F n xs V s" "laid V F" and k: "\<And>a. seg_of k = Some a \<Longrightarrow> okseg a" and v: "\<forall>v \<in> snd ` set xs. is_leaf v"
  shows "gives (frac_step random std_registry ctx F (Delete_At k)) (s, t) (fst (py_fdict_step (Delete_At k) xs))
      (\<lambda>st. dict F (n + 3 * length xs + 4) (snd (py_fdict_step (Delete_At k) xs)) V (fst st))"
proof (cases "known k xs")
  case None
  have "dict F (n + 3 * length xs + 4) xs V s" using d(1) by (rule dict_le) simp
  with delitem_unknown [OF d(1) k None] None show ?thesis
    by (simp add: gives_def with_known_def valued_def act_bind_def on_ctx_def)
next
  case (Some a)
  then have a: "k = val_of a" "a \<in> fst ` set xs" by (simp_all add: known_Some)
  have "distinct (map fst xs)" using d(1) by (rule dictE)
  then obtain P w Q where xs: "xs = P @ (a, w) # Q" "a \<notin> fst ` set P" "a \<notin> fst ` set Q" using split_item [OF a(2)] by blast
  have w: "is_leaf w" using v by (simp add: xs(1))
  have e: "drop_id a xs = P @ Q" using xs by (simp add: drop_id_Cons drop_id_other)
  obtain s' where s': "frac_delitem ctx F (val_of a) s = Some (Inr (), s')" "dict F (n + 3) (P @ Q) V s'"
    using delitem_known [OF d(1) [unfolded xs(1)] d(2) w] by blast
  have "dict F (n + 3 * length xs + 4) (P @ Q) V s'" using s'(2) by (rule dict_le) simp
  with s'(1) Some show ?thesis
    by (simp add: a(1) e gives_def with_known_def valued_def act_bind_def on_ctx_def)
qed

lemma read_ok:
  assumes d: "dict F n xs V s" "n < pages" "laid V F" and k: "\<And>a. seg_of k = Some a \<Longrightarrow> okseg a" and v: "\<forall>v \<in> snd ` set xs. is_leaf v"
  shows "gives (frac_step random std_registry ctx F (Get_At k)) (s, t) (fst (py_fdict_step (Get_At k) xs)) (\<lambda>st. dict F n xs V (fst st))"
    and "gives (frac_step random std_registry ctx F (Has k)) (s, t) (fst (py_fdict_step (Has k) xs)) (\<lambda>st. dict F n xs V (fst st))"
    and "gives (frac_step random std_registry ctx F Count) (s, t) (fst (py_fdict_step Count xs)) (\<lambda>st. dict F n xs V (fst st))"
    and "gives (frac_step random std_registry ctx F (Ids reverse)) (s, t) (fst (py_fdict_step (Ids reverse) xs)) (\<lambda>st. dict F n xs V (fst st))"
    and "gives (frac_step random std_registry ctx F (Edge_Id at_end)) (s, t) (fst (py_fdict_step (Edge_Id at_end) xs)) (\<lambda>st. dict F n xs V (fst st))"
    and "gives (frac_step random std_registry ctx F (All_Items reverse)) (s, t) (fst (py_fdict_step (All_Items reverse) xs)) (\<lambda>st. dict F n xs V (fst st))"
proof -
  obtain L where L: "state F n (map_of L) (position_of L) (map_of xs) V s" using d(1) by (rule dictE)
  show "gives (frac_step random std_registry ctx F (Get_At k)) (s, t) (fst (py_fdict_step (Get_At k) xs)) (\<lambda>st. dict F n xs V (fst st))"
    using getitem_dict [OF L k v] d(1) by (simp add: gives_def on_ctx_def)
  show "gives (frac_step random std_registry ctx F (Has k)) (s, t) (fst (py_fdict_step (Has k) xs)) (\<lambda>st. dict F n xs V (fst st))"
    using contains_dict [OF d(1,3) k] d(1) by (simp add: gives_def valued_def act_bind_def on_ctx_def)
  show "gives (frac_step random std_registry ctx F Count) (s, t) (fst (py_fdict_step Count xs)) (\<lambda>st. dict F n xs V (fst st))"
    unfolding frac_step.simps py_fdict_step.simps prod.sel
    by (rule gives_on, rule returns_mono [OF len_dict [OF d]]) simp
  show "gives (frac_step random std_registry ctx F (Ids reverse)) (s, t) (fst (py_fdict_step (Ids reverse) xs)) (\<lambda>st. dict F n xs V (fst st))"
    unfolding frac_step.simps py_fdict_step.simps prod.sel frac_keys_def option.case
    by (rule gives_on, rule returns_bind [OF rows_dict [OF d]]) (simp add: returns_def id_list_def flip: map_map)
  show "gives (frac_step random std_registry ctx F (Edge_Id at_end)) (s, t) (fst (py_fdict_step (Edge_Id at_end) xs)) (\<lambda>st. dict F n xs V (fst st))"
    unfolding frac_step.simps py_fdict_step.simps prod.sel by (rule gives_on, rule edge_dict [OF d])
  show "gives (frac_step random std_registry ctx F (All_Items reverse)) (s, t) (fst (py_fdict_step (All_Items reverse) xs)) (\<lambda>st. dict F n xs V (fst st))"
    unfolding frac_step.simps py_fdict_step.simps prod.sel
    by (rule gives_on, rule returns_mono [OF items_dict [OF d v]]) simp
qed

lemma next_ok:
  assumes d: "dict F n xs V s" "n < pages" and k: "\<And>a. seg_of k = Some a \<Longrightarrow> okseg a"
  shows "gives (frac_step random std_registry ctx F (Next_To k down)) (s, t) (fst (py_fdict_step (Next_To k down) xs))
      (\<lambda>st. dict F (n + 3 * length xs + 4) (snd (py_fdict_step (Next_To k down) xs)) V (fst st))"
  unfolding frac_step.simps py_fdict_step.simps
proof (rule with_known_ok [OF d(1) k], assumption)
  show "valued id_value (on_ctx (frac_next_to ctx F k down)) (s, t) = Some (Inl KeyError, s, t)" if "require_position ctx F k s = Inl KeyError"
    using that by (simp add: valued_def frac_next_to_def act_bind_def on_ctx_def)
  show "gives (valued id_value (on_ctx (frac_next_to ctx F k down))) (s, t) (fst (Inr (id_value (next_id a (map fst (turned down xs)))), xs))
      (\<lambda>st. dict F (n + 3 * length xs + 4) (snd (Inr (id_value (next_id a (map fst (turned down xs)))), xs)) V (fst st))"
    if "k = val_of a" "a \<in> fst ` set xs" for a
    unfolding prod.sel that(1)
    by (rule gives_on, rule returns_mono [OF next_dict [OF d that(2)]]) (auto intro: dict_le)
qed

lemma page_ok:
  assumes d: "dict F n xs V s" "n < pages" "laid V F" and k: "\<And>k a. after = Some k \<Longrightarrow> seg_of k = Some a \<Longrightarrow> okseg a"
    and m: "\<And>m. limit = Some m \<Longrightarrow> 0 < m"
  shows "gives (frac_step random std_registry ctx F (Page after limit reverse)) (s, t) (fst (py_fdict_step (Page after limit reverse) xs))
      (\<lambda>st. dict F (n + 3 * length xs + 4) (snd (py_fdict_step (Page after limit reverse) xs)) V (fst st))"
proof (cases after)
  case None
  have "gives (valued (\<lambda>ids. VList (map val_of ids)) (on_ctx (frac_keys ctx F None limit reverse))) (s, t) (Inr (id_list (cut limit (turned reverse xs))))
      (\<lambda>st. dict F n xs V (fst st))"
    by (rule gives_on, rule returns_mono [OF first_page_dict [OF d m]]) (auto simp: id_list_def)
  then show ?thesis by (simp add: None gives_le)
next
  case (Some k)
  show ?thesis
    unfolding Some frac_step.simps py_fdict_step.simps
  proof (rule with_known_ok [OF d(1)])
    show "okseg a" if "seg_of k = Some a" for a using assms(4) Some that by blast
    show "valued (\<lambda>ids. VList (map val_of ids)) (on_ctx (frac_keys ctx F (Some k) limit reverse)) (s, t) = Some (Inl KeyError, s, t)"
      if "require_position ctx F k s = Inl KeyError"
      using that by (simp add: valued_def frac_keys_def act_bind_def on_ctx_def)
    show "gives (valued (\<lambda>ids. VList (map val_of ids)) (on_ctx (frac_keys ctx F (Some k) limit reverse))) (s, t)
        (fst (Inr (id_list (cut limit (past a (turned reverse xs)))), xs))
        (\<lambda>st. dict F (n + 3 * length xs + 4) (snd (Inr (id_list (cut limit (past a (turned reverse xs)))), xs)) V (fst st))"
      if "k = val_of a" "a \<in> fst ` set xs" for a
      unfolding prod.sel that(1)
      by (rule gives_on, rule returns_mono [OF page_dict [OF d m that(2)]]) (auto simp: id_list_def intro: dict_le)
  qed
qed

lemma get_or_ok:
  assumes d: "dict F n xs V s" and k: "\<And>a. seg_of k = Some a \<Longrightarrow> okseg a" and v: "\<forall>v \<in> snd ` set xs. is_leaf v"
  shows "gives (frac_step random std_registry ctx F (Get_Or k w)) (s, t) (fst (py_fdict_step (Get_Or k w) xs)) (\<lambda>st. dict F n xs V (fst st))"
proof -
  obtain L where L: "state F n (map_of L) (position_of L) (map_of xs) V s" using d by (rule dictE)
  show ?thesis
    using getitem_dict [where rg = std_registry and k = k, OF L k v] d
    by (cases "known k xs") (auto simp: gives_def on_ctx_def frac_get_def act_catch_def with_known_def is_key_error_def)
qed

lemma valued_unitD: "valued (\<lambda>_. v) (on_ctx m) (s, t) = Some (Inr w, s', t') \<Longrightarrow> m s = Some (Inr (), s')"
  by (cases "m s"; cases "fst (the (m s))") (auto simp: valued_def act_bind_def on_ctx_def)

lemma pop_ok:
  assumes d: "dict F n xs V s" "laid V F" and k: "\<And>a. seg_of k = Some a \<Longrightarrow> okseg a" and v: "\<forall>v \<in> snd ` set xs. is_leaf v"
  shows "gives (frac_step random std_registry ctx F (Pop_At k w)) (s, t) (fst (py_fdict_step (Pop_At k w) xs))
      (\<lambda>st. dict F (n + 3 * length xs + 4) (snd (py_fdict_step (Pop_At k w) xs)) V (fst st))"
proof -
  obtain L where L: "state F n (map_of L) (position_of L) (map_of xs) V s" using d(1) by (rule dictE)
  note G = getitem_dict [where rg = std_registry and k = k, OF L k v]
  show ?thesis
  proof (cases "known k xs")
    case None
    have "dict F (n + 3 * length xs + 4) xs V s" using d(1) by (rule dict_le) simp
    with G None show ?thesis
      by (auto simp: gives_def on_ctx_def frac_pop_def act_catch_def act_bind_def with_known_def is_key_error_def)
  next
    case (Some a)
    from delete_ok [where random = random and t = t and k = k, OF d k v] Some obtain s' where
      s': "frac_delitem ctx F k s = Some (Inr (), s')" "dict F (n + 3 * length xs + 4) (drop_id a xs) V s'"
      by (auto simp: gives_def with_known_def dest!: valued_unitD)
    from G s' Some show ?thesis
      by (simp add: gives_def on_ctx_def frac_pop_def act_catch_def act_bind_def with_known_def is_key_error_def)
  qed
qed

end

end
