(* ===== verification/Frac_Steps.thy ===== *)
theory Frac_Steps
  imports Frac_Run
begin

text \<open>
  A new ordered dict view is an empty ordered dict, and any sequence of calls on one does what it does to
  the list of items.
\<close>

section \<open>Creating a view\<close>

lemma bare_with_rows:
  assumes "\<And>c x. V (S @ [c, x]) = None"
  shows "with_rows S Map.empty Map.empty Map.empty V = V"
proof
  fix k
  show "with_rows S Map.empty Map.empty Map.empty V k = V k"
  proof (cases "prefix S k \<and> length k = length S + 2")
    case True
    then obtain c x where k: "k = S @ [c, x]" unfolding child_key by blast
    show ?thesis unfolding k by (cases x) (simp_all add: with_rows_def Let_def nth_append assms)
  qed (auto simp: with_rows_def)
qed

definition markers :: "site \<Rightarrow> (key \<rightharpoonup> pyval) \<Rightarrow> key \<rightharpoonup> pyval" where
  "markers S V = V(S \<mapsto> create_marker FRAC_STRUCTURE FRAC_PROTOCOL, S @ [DATA] \<mapsto> create_marker (VInt 1) (FLAG_MAPPING OR FLAG_MUTABLE),
     S @ [ORDER] \<mapsto> create_marker (VInt 1) (FLAG_MAPPING OR FLAG_MUTABLE), S @ [POS] \<mapsto> create_marker (VInt 1) (FLAG_MAPPING OR FLAG_MUTABLE))"

lemma markers_laid: "data_site (fv_site F) \<Longrightarrow> laid (markers (fv_site F) V) F"
  by (simp add: laid_def markers_def)

context frac_context begin

lemma create_new:
  assumes "inv s" and "okk site" and "vw s site = None"
    and "b \<Longrightarrow> 1 < length site \<Longrightarrow> validate_is_container ctx (butlast site) None s = Inr ()"
    and "info = None \<or> info = Some i \<and> get_node_info ctx site None s = Inr i"
  shows "\<exists>s'. create_container ctx site t p b info s = (Inr (), s') \<and> inv s' \<and> weight s' \<le> Suc (weight s) \<and>
    vw s' = (vw s)(site \<mapsto> create_marker t p)"
proof -
  have "create_marker t p \<noteq> VEmpty" by (simp add: create_marker_def)
  from put [OF assms(1,2) this] show ?thesis
    using assms by (auto simp: create_container_def attempt_def node_at)
qed

lemma layout_new:
  assumes s: "inv s" "okk (fv_site F)" and v: "\<And>c. c \<in> {DATA, ORDER, POS} \<Longrightarrow> vw s (fv_site F @ [c]) = None"
  shows "\<exists>s'. ensure_internal_layout ctx F s = Some (Inr (), s') \<and> inv s' \<and> weight s' \<le> weight s + 3 \<and>
    vw s' = (vw s)(fv_site F @ [DATA] \<mapsto> create_marker (VInt 1) (FLAG_MAPPING OR FLAG_MUTABLE),
      fv_site F @ [ORDER] \<mapsto> create_marker (VInt 1) (FLAG_MAPPING OR FLAG_MUTABLE), fv_site F @ [POS] \<mapsto> create_marker (VInt 1) (FLAG_MAPPING OR FLAG_MUTABLE))"
proof -
  have k: "okk (fv_site F @ [c])" if "c \<in> {DATA, ORDER, POS}" for c
    using okk_layout [OF s(2)] that by (auto simp: frac_data_def frac_order_def frac_pos_def)
  have new: "\<exists>s'. create_child_container ctx (fv_site F) c (VInt 1) (FLAG_MAPPING OR FLAG_MUTABLE) False s = (Inr (), s') \<and> inv s' \<and>
      weight s' \<le> Suc (weight s) \<and> vw s' = (vw s)(fv_site F @ [c] \<mapsto> create_marker (VInt 1) (FLAG_MAPPING OR FLAG_MUTABLE))"
    if "inv s" "c \<in> {DATA, ORDER, POS}" "vw s (fv_site F @ [c]) = None" for c s
    using create_new [OF that(1) k [OF that(2)] that(3), of False None] by (simp add: create_child_container_def)
  from new [OF s(1), of DATA] v obtain s1 where s1: "create_child_container ctx (fv_site F) DATA (VInt 1) (FLAG_MAPPING OR FLAG_MUTABLE) False s = (Inr (), s1)"
    "inv s1" "weight s1 \<le> Suc (weight s)" "vw s1 = (vw s)(fv_site F @ [DATA] \<mapsto> create_marker (VInt 1) (FLAG_MAPPING OR FLAG_MUTABLE))" by auto
  from new [OF s1(2), of ORDER] v s1(4) obtain s2 where s2: "create_child_container ctx (fv_site F) ORDER (VInt 1) (FLAG_MAPPING OR FLAG_MUTABLE) False s1 = (Inr (), s2)"
    "inv s2" "weight s2 \<le> Suc (weight s1)" "vw s2 = (vw s1)(fv_site F @ [ORDER] \<mapsto> create_marker (VInt 1) (FLAG_MAPPING OR FLAG_MUTABLE))" by auto
  from new [OF s2(2), of POS] v s1(4) s2(4) obtain s3 where s3: "create_child_container ctx (fv_site F) POS (VInt 1) (FLAG_MAPPING OR FLAG_MUTABLE) False s2 = (Inr (), s3)"
    "inv s3" "weight s3 \<le> Suc (weight s2)" "vw s3 = (vw s2)(fv_site F @ [POS] \<mapsto> create_marker (VInt 1) (FLAG_MAPPING OR FLAG_MUTABLE))" by auto
  show ?thesis
    using s1 s2 s3 by (simp add: ensure_internal_layout_def act_bind_def del: frac_flags)
qed

text \<open>\<open>W\<close> is the parent view, which is there.\<close>

lemma create_view:
  assumes s: "inv s" "okk (fv_site F)" "data_site (fv_site F)" and v: "\<And>p. vw s (fv_site F @ p) = None"
    and W: "fv_parent F = Some W" "ensure_created ctx W s = Some (Inr (), s)"
      "1 < length (fv_site F) \<Longrightarrow> validate_is_container ctx (butlast (fv_site F)) None s = Inr ()"
  shows "\<exists>s'. frac_ensure_created ctx F s = Some (Inr (), s') \<and> dict F (weight s + 4) [] (markers (fv_site F) (vw s)) s'"
proof -
  let ?S = "fv_site F"
  have v': "vw s ?S = None" using v [of "[]"] by simp
  have "get_node_info ctx ?S None s = Inr \<lparr>ni_site = ?S, ni_exists = False, ni_type = NOT_FOUND,
      ni_raw = None, ni_structure = None, ni_protocol = None, ni_primitive = None\<rparr>" (is "_ = Inr ?i")
    using node_at [OF s(1,2)] v' by simp
  note i = this
  from create_new [OF s(1,2) v' W(3), of True "Some ?i" ?i FRAC_STRUCTURE FRAC_PROTOCOL] i obtain s1 where
    s1: "create_container ctx ?S FRAC_STRUCTURE FRAC_PROTOCOL True (Some ?i) s = (Inr (), s1)" "inv s1" "weight s1 \<le> Suc (weight s)"
      "vw s1 = (vw s)(?S \<mapsto> create_marker FRAC_STRUCTURE FRAC_PROTOCOL)" by auto
  have "vw s1 (?S @ [c]) = None" for c using s1(4) v by simp
  from layout_new [OF s1(2) s(2) this] obtain s2 where
    s2: "ensure_internal_layout ctx F s1 = Some (Inr (), s2)" "inv s2" "weight s2 \<le> weight s1 + 3" "vw s2 = markers ?S (vw s)"
    unfolding markers_def s1(4) by blast
  have e: "frac_ensure_created ctx F s = Some (Inr (), s2)"
    using s1(1) s2(1) W(1,2) i s(3) by (simp add: frac_ensure_created_def container_create_def data_site_def act_bind_def del: frac_flags)
  have "markers ?S (vw s) (?S @ [c, x]) = None" for c x using v by (simp add: markers_def)
  then have "vw s2 = with_rows ?S (map_of []) (position_of []) (map_of []) (markers ?S (vw s))"
    using s2(4) bare_with_rows [of "markers ?S (vw s)" ?S] by (simp add: position_of_def)
  then have "state F (weight s + 4) (map_of []) (position_of []) (map_of []) (markers ?S (vw s)) s2"
    using s(2) s2(2,3) s1(3) by (simp add: frac_state_def)
  then have "dict F (weight s + 4) [] (markers ?S (vw s)) s2"
    by (rule dictI [rotated 2]) (simp_all add: ordered_def)
  with e show ?thesis by blast
qed

end

section \<open>What the calls keep\<close>

lemma set_id_keeps: "length (set_id a v xs) \<le> Suc (length xs)" "snd ` set (set_id a v xs) \<subseteq> insert v (snd ` set xs)"
  by (induction xs) auto

lemma put_keeps:
  "length (put_before b row xs) \<le> Suc (length xs)" "set (put_before b row xs) \<subseteq> insert row (set xs)"
  "length (put_after b row xs) \<le> Suc (length xs)" "set (put_after b row xs) \<subseteq> insert row (set xs)"
  by (induction xs) auto

lemma drop_id_keeps: "set (drop_id a xs) \<subseteq> set xs" "a \<in> fst ` set xs \<Longrightarrow> Suc (length (drop_id a xs)) \<le> length xs"
proof -
  show "set (drop_id a xs) \<subseteq> set xs" by (auto simp: drop_id_def)
  show "Suc (length (drop_id a xs)) \<le> length xs" if "a \<in> fst ` set xs"
  proof -
    from that obtain x where "x \<in> set xs" "\<not> fst x \<noteq> a" by auto
    then have "length (drop_id a xs) < length xs" unfolding drop_id_def by (rule length_filter_less)
    then show ?thesis by simp
  qed
qed

lemma item_in: "a \<in> fst ` set xs \<Longrightarrow> item a xs \<in> set xs"
proof -
  assume "a \<in> fst ` set xs"
  then obtain v where "map_of xs a = Some v" by (metis map_of_eq_None_iff not_Some_eq)
  then show ?thesis using map_of_SomeD by (fastforce simp: item_def)
qed

definition kept :: "(seg \<times> pyval) list \<Rightarrow> (seg \<times> pyval) list \<Rightarrow> bool" where
  "kept xs ys \<longleftrightarrow> length ys \<le> Suc (length xs) \<and> (\<forall>v \<in> snd ` set ys. is_leaf v)"

lemma kept_if: "length ys \<le> Suc (length xs) \<Longrightarrow> (\<And>v. v \<in> snd ` set ys \<Longrightarrow> is_leaf v) \<Longrightarrow> kept xs ys"
  by (simp add: kept_def)

lemma kept_with_known:
  "kept xs xs \<Longrightarrow> (\<And>a. a \<in> fst ` set xs \<Longrightarrow> kept xs (snd (f a))) \<Longrightarrow> kept xs (snd (with_known k f xs))"
  by (auto simp: with_known_def known_Some split: option.split)

lemma kept_add: "kept xs xs \<Longrightarrow> (\<And>a. kept xs (put a)) \<Longrightarrow> kept xs (snd (add_item k put xs))"
  by (auto simp: add_item_def split: option.split)

lemma py_fdict_step_kept:
  assumes v: "\<forall>v \<in> snd ` set xs. is_leaf v" and c: "frac_call_ok okseg c"
  shows "kept xs (snd (py_fdict_step c xs))"
proof -
  have xs: "kept xs xs" using v by (simp add: kept_def)
  have leaf: "is_leaf v" if "v \<in> set (call_values c)" for v using c that by (simp add: frac_call_ok_def list_all_iff)
  have moved: "kept xs ys" if "length ys \<le> Suc (length (drop_id a xs))" "set ys \<subseteq> insert (item a xs) (set (drop_id a xs))"
      "a \<in> fst ` set xs" for a ys
  proof (rule kept_if)
    show "length ys \<le> Suc (length xs)" using that(1) drop_id_keeps(2) [OF that(3)] by simp
    have "set ys \<subseteq> set xs" using that(2) drop_id_keeps(1) [of a xs] item_in [OF that(3)] by auto
    then show "is_leaf v" if "v \<in> snd ` set ys" for v using that v by auto
  qed
  have added: "kept xs ys" if "length ys \<le> Suc (length xs)" "set ys \<subseteq> insert (a, w) (set xs)" "is_leaf w" for a w ys
    using that v by (intro kept_if) auto
  show ?thesis
  proof (cases c)
    case (Set_At k w)
    have "kept xs (set_id a w xs)" for a
    proof (rule kept_if [OF set_id_keeps(1)])
      show "is_leaf u" if "u \<in> snd ` set (set_id a w xs)" for u
      proof -
        have "u \<in> insert w (snd ` set xs)" using that set_id_keeps(2) by blast
        then show ?thesis using leaf [of w] v by (auto simp: Set_At)
      qed
    qed
    then show ?thesis using xs by (simp add: Set_At split: option.split)
  next
    case (Add_Last k w)
    then show ?thesis using leaf [of w] added [of _ _ w] by (auto intro!: kept_add xs added [of _ _ w])
  next
    case (Add_First k w)
    then show ?thesis using leaf [of w] by (auto intro!: kept_add xs added [of _ _ w])
  next
    case (Add_Before r k w)
    show ?thesis unfolding Add_Before py_fdict_step.simps
      by (rule kept_with_known [OF xs], rule kept_add [OF xs], rule added [OF put_keeps(1,2)]) (simp add: Add_Before leaf)
  next
    case (Add_After r k w)
    show ?thesis unfolding Add_After py_fdict_step.simps
      by (rule kept_with_known [OF xs], rule kept_add [OF xs], rule added [OF put_keeps(3,4)]) (simp add: Add_After leaf)
  next
    case (Move_Before k r)
    show ?thesis unfolding Move_Before py_fdict_step.simps
      by (rule kept_with_known [OF xs], rule kept_with_known [OF xs]) (simp add: xs moved [OF put_keeps(1,2)])
  next
    case (Move_After k r)
    show ?thesis unfolding Move_After py_fdict_step.simps
      by (rule kept_with_known [OF xs], rule kept_with_known [OF xs]) (simp add: xs moved [OF put_keeps(3,4)])
  next
    case (Move_First k)
    show ?thesis unfolding Move_First py_fdict_step.simps by (rule kept_with_known [OF xs], unfold prod.sel, erule moved [rotated 2]) auto
  next
    case (Move_Last k)
    show ?thesis unfolding Move_Last py_fdict_step.simps by (rule kept_with_known [OF xs], unfold prod.sel, erule moved [rotated 2]) auto
  next
    case (Delete_At k)
    show ?thesis unfolding Delete_At py_fdict_step.simps
      by (rule kept_with_known [OF xs]) (auto intro!: moved simp: subset_insertI2)
  next
    case (Pop_At k w)
    have "kept xs (drop_id a xs)" if "a \<in> fst ` set xs" for a
      by (rule moved [OF _ _ that]) auto
    then show ?thesis using xs by (auto simp: Pop_At known_Some split: option.split)
  next
    case (Page after limit reverse)
    then show ?thesis using xs by (cases after) (simp_all add: kept_with_known)
  qed (simp_all add: xs kept_with_known)
qed

section \<open>Running the calls\<close>

context frac_context begin

lemma step_ok:
  assumes d: "dict F n xs V s" "Suc n < pages" "laid V F" and v: "\<forall>v \<in> snd ` set xs. is_leaf v" and c: "frac_call_ok okseg c"
  shows "gives (frac_step random std_registry ctx F c) (s, t) (fst (py_fdict_step c xs))
      (\<lambda>st. dict F (n + 3 * length xs + 4) (snd (py_fdict_step c xs)) V (fst st))"
proof -
  have n: "n < pages" using d(2) by simp
  have key: "okseg a" if "k \<in> set (call_keys c)" "seg_of k = Some a" for k a
    using c that by (auto simp: frac_call_ok_def list_all_iff dest!: bspec)
  have leaf: "is_leaf v" if "v \<in> set (call_values c)" for v using c that by (simp add: frac_call_ok_def list_all_iff)
  note le = gives_le [of _ _ _ F n _ V "n + 3 * length xs + 4"]
  note R = read_ok [OF d(1) n d(3) _ v]
  show ?thesis
  proof (cases c)
    case (Set_At k w)
    show ?thesis unfolding Set_At
      by (rule set_at_ok [OF d]) (simp_all add: Set_At v leaf key [of k] del: frac_step.simps py_fdict_step.simps)
  next
    case (Add_Last k w)
    show ?thesis unfolding Add_Last
      by (rule add_end_ok [OF d(1) n d(3)]) (simp_all add: Add_Last v leaf key [of k] del: frac_step.simps py_fdict_step.simps)
  next
    case (Add_First k w)
    show ?thesis unfolding Add_First
      by (rule add_end_ok [OF d(1) n d(3)]) (simp_all add: Add_First v leaf key [of k] del: frac_step.simps py_fdict_step.simps)
  next
    case (Add_Before r k w)
    show ?thesis unfolding Add_Before
      by (rule add_before_ok [OF d(1) n d(3)]) (simp_all add: Add_Before v leaf key [of k] key [of r] del: frac_step.simps py_fdict_step.simps)
  next
    case (Add_After r k w)
    show ?thesis unfolding Add_After
      by (rule add_before_ok [OF d(1) n d(3)]) (simp_all add: Add_After v leaf key [of k] key [of r] del: frac_step.simps py_fdict_step.simps)
  next
    case (Move_Before k r)
    show ?thesis unfolding Move_Before
      by (rule move_ok [OF d(1,2)]) (simp_all add: Move_Before v key [of k] key [of r] del: frac_step.simps py_fdict_step.simps)
  next
    case (Move_After k r)
    show ?thesis unfolding Move_After
      by (rule move_ok [OF d(1,2)]) (simp_all add: Move_After v key [of k] key [of r] del: frac_step.simps py_fdict_step.simps)
  next
    case (Move_First k)
    show ?thesis unfolding Move_First
      by (rule move_end_ok [OF d(1,2)]) (simp_all add: Move_First v key [of k] del: frac_step.simps py_fdict_step.simps)
  next
    case (Move_Last k)
    show ?thesis unfolding Move_Last
      by (rule move_end_ok [OF d(1,2)]) (simp_all add: Move_Last v key [of k] del: frac_step.simps py_fdict_step.simps)
  next
    case (Delete_At k)
    show ?thesis unfolding Delete_At
      by (rule delete_ok [OF d(1,3)]) (simp_all add: Delete_At v key [of k] del: frac_step.simps py_fdict_step.simps)
  next
    case (Get_At k)
    have "snd (py_fdict_step (Get_At k) xs) = xs" by (simp add: with_known_def split: option.split)
    then show ?thesis using R(1) [of k] key by (simp add: Get_At le)
  next
    case (Get_Or k w)
    have "gives (frac_step random std_registry ctx F (Get_Or k w)) (s, t) (fst (py_fdict_step (Get_Or k w) xs)) (\<lambda>st. dict F n xs V (fst st))"
      by (rule get_or_ok [OF d(1)]) (simp_all add: Get_Or v key [of k])
    then show ?thesis by (simp add: Get_Or le)
  next
    case (Pop_At k w)
    show ?thesis unfolding Pop_At
      by (rule pop_ok [OF d(1,3)]) (simp_all add: Pop_At v key [of k] del: frac_step.simps py_fdict_step.simps)
  next
    case (Page after limit reverse)
    have "0 < m" if "limit = Some m" for m using c that by (simp add: Page frac_call_ok_def)
    then show ?thesis unfolding Page
      by (rule page_ok [OF d(1) n d(3), rotated]) (auto simp: Page intro: key)
  next
    case (Has k)
    show ?thesis using R(2) [of k] key by (simp add: Has le)
  next
    case Count
    show ?thesis using R(3) [of VNone] by (simp add: Count le)
  next
    case (Ids reverse)
    show ?thesis using R(4) [of VNone] by (simp add: Ids le)
  next
    case (Edge_Id at_end)
    show ?thesis using R(5) [of VNone] by (simp add: Edge_Id le)
  next
    case (Next_To k down)
    show ?thesis using next_ok [OF d(1) n, of k] key by (simp add: Next_To)
  next
    case (All_Items reverse)
    show ?thesis using R(6) [of VNone] by (simp add: All_Items le)
  next
    case Respace
    show ?thesis unfolding Respace frac_step.simps py_fdict_step.simps prod.sel
      by (rule gives_done, rule returns_mono [OF respace_dict [OF d(1) n]], erule dict_le) simp
  qed
qed

lemma run_ok:
  assumes "dict F n xs V s" and "laid V F" and "\<forall>v \<in> snd ` set xs. is_leaf v" and "list_all (frac_call_ok okseg) cs"
    and "n + length cs * (3 * (length xs + length cs) + 4) + 1 < pages"
  shows "\<exists>s' t'. frac_run random std_registry ctx F cs (s, t) = Some (fst (py_fdict_run cs xs), s', t') \<and>
    dict F (n + length cs * (3 * (length xs + length cs) + 4)) (snd (py_fdict_run cs xs)) V s' \<and>
    (\<forall>v \<in> snd ` set (snd (py_fdict_run cs xs)). is_leaf v)"
  using assms
proof (induction cs arbitrary: n xs s t)
  case Nil
  then show ?case by simp
next
  case (Cons c cs)
  let ?r = "fst (py_fdict_step c xs)" and ?ys = "snd (py_fdict_step c xs)"
  have c: "frac_call_ok okseg c" and cs: "list_all (frac_call_ok okseg) cs" using Cons.prems(4) by simp_all
  have "Suc n < pages" using Cons.prems(5) by simp
  from step_ok [OF Cons.prems(1) this Cons.prems(2,3) c, of random t] obtain s1 t1 where
    s1: "frac_step random std_registry ctx F c (s, t) = Some (?r, s1, t1)" "dict F (n + 3 * length xs + 4) ?ys V s1"
    by (auto simp: gives_def)
  have y: "length ?ys \<le> Suc (length xs)" "\<forall>v \<in> snd ` set ?ys. is_leaf v"
    using py_fdict_step_kept [OF Cons.prems(3) c] by (simp_all add: kept_def)
  have b: "n + 3 * length xs + 4 + length cs * (3 * (length ?ys + length cs) + 4) \<le>
      n + length (c # cs) * (3 * (length xs + length (c # cs)) + 4)" (is "?b \<le> ?B")
  proof -
    define K where "K = 3 * (length xs + length (c # cs)) + 4"
    have "length cs * (3 * (length ?ys + length cs) + 4) \<le> length cs * K"
      using y(1) by (intro mult_le_mono2) (simp add: K_def)
    moreover have "length (c # cs) * K = K + length cs * K" by simp
    moreover have "3 * length xs + 4 \<le> K" by (simp add: K_def)
    ultimately show ?thesis unfolding K_def [symmetric] by linarith
  qed
  then have "?b + 1 < pages" using Cons.prems(5) by linarith
  from Cons.IH [OF s1(2) Cons.prems(2) y(2) cs this, of t1] obtain s2 t2 where
    s2: "frac_run random std_registry ctx F cs (s1, t1) = Some (fst (py_fdict_run cs ?ys), s2, t2)"
      "dict F ?b (snd (py_fdict_run cs ?ys)) V s2" "\<forall>v \<in> snd ` set (snd (py_fdict_run cs ?ys)). is_leaf v" by blast
  from s1(1) s2 dict_le [OF s2(2) b] show ?case by (simp add: split_def Let_def)
qed

end

end
