(* ===== verification/Frac_Props.thy ===== *)
theory Frac_Props
  imports Frac_Steps View_Props
begin

text \<open>
  The properties of the ordered dict view, on transactions of the in-memory storage.
\<close>

section \<open>The instance\<close>

lemma layout_seg_ok: "seg_ok DATA" "seg_ok ORDER" "seg_ok POS"
  by (simp_all add: seg_ok_def DATA_def ORDER_def POS_def lit_def scalar_def is_surrogate_def)

lemma digits_seg_ok: "set k \<subseteq> set BASE_62_DIGITS \<Longrightarrow> seg_ok (SStr k)"
proof -
  assume k: "set k \<subseteq> set BASE_62_DIGITS"
  have "\<forall>c \<in> set BASE_62_DIGITS. scalar c"
    by (simp add: BASE_62_DIGITS_def lit_def scalar_def is_surrogate_def)
  with k show ?thesis by (auto simp: seg_ok_def list_all_iff)
qed

interpretation txn_frac: frac_context "txn_ctx pages" "txn_ok s0" txn_weight pages txn_map bin_ok seg_ok "txn_at pages s0"
  for pages s0
  by unfold_locales (simp_all add: layout_seg_ok digits_seg_ok)

text \<open>
  The rows of a view: the markers of its containers, and for every item a row of \<open>__data__\<close>, one of
  \<open>__order__\<close> and one of \<open>__pos__\<close>, with order keys that grow along the list. \<open>V\<close> is the rest of the
  key space.
\<close>

definition frac_holds :: "frac_view \<Rightarrow> (seg \<times> pyval) list \<Rightarrow> (key \<rightharpoonup> pyval) \<Rightarrow> (key \<rightharpoonup> pyval) \<Rightarrow> bool" where
  "frac_holds F xs V m \<longleftrightarrow> laid V F \<and>
     (\<exists>L. map snd L = map fst xs \<and> ordered L \<and> m = with_rows (fv_site F) (map_of L) (position_of L) (map_of xs) V)"

lemma frac_holds_iff:
  "txn_ok s0 st \<Longrightarrow> bin_ok (fv_site F) \<Longrightarrow>
   frac_holds F xs V (txn_map st) \<longleftrightarrow> laid V F \<and> fdict (txn_ok s0) txn_weight txn_map bin_ok F (txn_weight st) xs V st"
  by (auto simp: frac_holds_def fdict_def frac_state_def)

lemma fdict_holds:
  "fdict (txn_ok s0) txn_weight txn_map bin_ok F n xs V st \<Longrightarrow> laid V F \<Longrightarrow> txn_ok s0 st \<and> frac_holds F xs V (txn_map st)"
  by (auto simp: frac_holds_def fdict_def frac_state_def)

section \<open>A view to look at\<close>

definition sample_view :: frac_view where
  "sample_view = \<lparr>fv_site = ROOT @ [SStr [97]], fv_parent = Some root_view\<rparr>"

lemma sample_view_exists:
  "\<exists>V st. txn_ok vs_init st \<and> txn_weight st \<le> 5 \<and> frac_holds sample_view [] V (txn_map st)"
proof -
  let ?st = "(vs_init, tx_begin 0 vs_init)"
  have m: "marker_of EagerDictView \<noteq> VEmpty" by (simp add: create_marker_def)
  from txn_kv.put [OF txn_begin_ok root_ok m, of 0] obtain s1 where
    s1: "txn_ok vs_init s1" "txn_weight s1 \<le> 1" "txn_map s1 = [ROOT \<mapsto> marker_of EagerDictView]"
    by (auto simp: txn_begin_map)
  have l: "live (txn_map s1) root_view" using s1(3) root_chain(2) by (simp add: live_def root_view_def)
  have e: "ensure_created (txn_ctx 0) root_view s1 = Some (Inr (), s1)"
    using txn_view.ensure_created_live [OF s1(1) _ l] root_chain(3) root_ok by simp
  have p: "validate_is_container (txn_ctx 0) (butlast (ROOT @ [SStr [97]])) None s1 = Inr ()"
    using txn_kv.validate_at [OF s1(1) root_ok, of 0] s1(3) by simp
  have F: "bin_ok (fv_site sample_view)" "data_site (fv_site sample_view)" "fv_parent sample_view = Some root_view"
    "fv_site sample_view = ROOT @ [SStr [97]]"
    using child_site_ok [OF char_seg_ok(1)] root_chain(2) by (simp_all add: sample_view_def)
  have v: "txn_map s1 (fv_site sample_view @ p) = None" for p using s1(3) by (simp add: F(4))
  from txn_frac.create_view [OF s1(1) F(1,2) v F(3) e] p obtain s2 where
    "fdict (txn_ok vs_init) txn_weight txn_map bin_ok sample_view (txn_weight s1 + 4) [] (markers (fv_site sample_view) (txn_map s1)) s2"
    unfolding F(4) by blast
  then show ?thesis
    using s1(2) fdict_holds [OF _ markers_laid [OF F(2)]] by (fastforce simp: fdict_def frac_state_def)
qed

section \<open>Properties\<close>

text \<open>C14: An ordered dict view with fractional index keys is an ordered dict. On a view whose items are
  leaves (no dicts, lists, tuples, sets or \<open>EMPTY\<close>), any sequence of calls that pass leaves, assigning, appending, prepending, inserting next to an item, moving next to an
  item or to an end, deleting, popping, reading, counting, listing in either direction, paging from an
  item with a positive limit, asking for an end or a neighbour, and respacing returns and raises what the
  same calls do on the list of items; afterwards the values, the order index and the positions are those
  of the resulting list, whichever order keys were drawn and however often they had to be respaced, and
  every other key is untouched. The scans may fetch as many pages as the calls can have written keys.\<close>

theorem frac_view_is_an_ordered_dict:
  assumes "txn_ok s0 st" and "bin_ok (fv_site F)" and "frac_holds F xs V (txn_map st)" and "\<forall>v \<in> snd ` set xs. is_leaf v"
    and "list_all (frac_call_ok seg_ok) cs"
    and "txn_weight st + length cs * (3 * (length xs + length cs) + 4) + 1 < pages"
  shows "\<exists>st' t'. frac_run random std_registry (txn_ctx pages) F cs (st, t) = Some (fst (py_fdict_run cs xs), st', t') \<and>
    txn_ok s0 st' \<and> frac_holds F (snd (py_fdict_run cs xs)) V (txn_map st')"
proof -
  from assms(1-3) have d: "fdict (txn_ok s0) txn_weight txn_map bin_ok F (txn_weight st) xs V st" "laid V F"
    by (simp_all add: frac_holds_iff)
  from txn_frac.run_ok [OF d assms(4-6), of random t] fdict_holds [OF _ d(2)] show ?thesis by blast
qed

theorem frac_view_is_an_ordered_dict_witness:
  "\<exists>V st st' t'. frac_holds sample_view [] V (txn_map st) \<and>
     frac_run (\<lambda>_. 0) std_registry (txn_ctx 300) sample_view
       [Add_Last (VInt 7) (VInt 1), Add_First (VStr [98]) (VInt 2), Add_Before (VInt 7) (VInt 1) (VInt 3), Move_Last (VStr [98]),
        Delete_At (VInt 0), Add_Last (VInt 7) VNone, Ids False, Page (Some (VInt 1)) (Some 1) False] (st, 0) =
     Some ([Inr VNone, Inr VNone, Inr VNone, Inr VNone, Inl KeyError, Inl ValueError, Inr (VList [VInt 1, VInt 7, VStr [98]]), Inr (VList [VInt 7])], st', t') \<and>
     frac_holds sample_view [(SInt 1, VInt 3), (SInt 7, VInt 1), (SStr [98], VInt 2)] V (txn_map st')"
proof -
  let ?cs = "[Add_Last (VInt 7) (VInt 1), Add_First (VStr [98]) (VInt 2), Add_Before (VInt 7) (VInt 1) (VInt 3), Move_Last (VStr [98]),
    Delete_At (VInt 0), Add_Last (VInt 7) VNone, Ids False, Page (Some (VInt 1)) (Some 1) False]"
  obtain V st where st: "txn_ok vs_init st" "txn_weight st \<le> 5" "frac_holds sample_view [] V (txn_map st)"
    using sample_view_exists by blast
  have F: "bin_ok (fv_site sample_view)" using child_site_ok [OF char_seg_ok(1)] by (simp add: sample_view_def)
  have r: "py_fdict_run ?cs [] =
      ([Inr VNone, Inr VNone, Inr VNone, Inr VNone, Inl KeyError, Inl ValueError, Inr (VList [VInt 1, VInt 7, VStr [98]]), Inr (VList [VInt 7])],
       [(SInt 1, VInt 3), (SInt 7, VInt 1), (SStr [98], VInt 2)])"
    by (simp add: add_item_def with_known_def known_def item_def drop_id_def turned_def id_list_def cut_def)
  have c: "list_all (frac_call_ok seg_ok) ?cs" using char_seg_ok by (simp add: frac_call_ok_def)
  have n: "txn_weight st + length ?cs * (3 * (length ([] :: (seg \<times> pyval) list) + length ?cs) + 4) + 1 < 300" using st(2) by simp
  have leaves: "\<forall>v \<in> snd ` set ([] :: (seg \<times> pyval) list). is_leaf v" by simp
  from frac_view_is_an_ordered_dict [OF st(1) F st(3) leaves c n, of "\<lambda>_. 0" 0] st(3) show ?thesis
    unfolding r fst_conv snd_conv by blast
qed

end
